(* ===== verification/Prelude.thy ===== *)
theory Prelude
  imports Complex_Main "HOL-Library.AList" "HOL-Library.List_Lexorder" "HOL-Library.Char_ord"
begin

text \<open>
  What every component of the model shares: Python's exceptions as a sum type and the loop
  that stops at the first of them, insertion-ordered dictionaries as association lists, the
  string operations the sources call, and Python's rounding.

  A Python string is a \<^typ>\<open>string\<close> whose characters are read as the code points 0 to 255
  (Latin-1), on which \<open>py_strip\<close> and \<open>py_lower\<close> agree with \<open>str.strip\<close> and \<open>str.lower\<close>.
  A Python float is an exact rational: the model has no rounding error, no infinity and no
  NaN.
\<close>

named_theorems frame_simps \<open>what an operation leaves as it was\<close>
named_theorems dict_simps \<open>reading a dictionary after a change\<close>

section \<open>Exceptions and the loops that stop at one\<close>

datatype exn = AttributeError | TypeError | ValueError | KeyError | IndexError | ZeroDivisionError | OSError | RuntimeError

type_synonym 'a py = "exn + 'a"

definition py_bind :: "'a py \<Rightarrow> ('a \<Rightarrow> 'b py) \<Rightarrow> 'b py" where
  "py_bind m f = (case m of Inl e \<Rightarrow> Inl e | Inr a \<Rightarrow> f a)"

lemma py_bind_simps [simp]:
  "py_bind (Inl e) f = Inl e"
  "py_bind (Inr a) f = f a"
  by (simp_all add: py_bind_def)

lemma py_bind_eq_Inr: "py_bind m f = Inr b \<longleftrightarrow> (\<exists>a. m = Inr a \<and> f a = Inr b)"
  by (cases m) auto

fun py_fold :: "('s \<Rightarrow> 'a \<Rightarrow> 's py) \<Rightarrow> 's \<Rightarrow> 'a list \<Rightarrow> 's py" where
  "py_fold f s [] = Inr s"
| "py_fold f s (x # xs) = py_bind (f s x) (\<lambda>s'. py_fold f s' xs)"

lemma py_fold_append:
  "py_fold f s (xs @ ys) = py_bind (py_fold f s xs) (\<lambda>s'. py_fold f s' ys)"
proof (induction xs arbitrary: s)
  case (Cons x xs)
  then show ?case by (cases "f s x") simp_all
qed simp

lemma py_fold_total:
  assumes "\<And>s x. x \<in> set xs \<Longrightarrow> f s x = Inr (g s x)"
  shows "py_fold f s xs = Inr (foldl g s xs)"
  using assms by (induction xs arbitrary: s) auto

lemma py_fold_returns: "(\<And>s x. x \<in> set xs \<Longrightarrow> \<exists>t. f s x = Inr t) \<Longrightarrow> \<exists>t. py_fold f s xs = Inr t"
proof (induction xs arbitrary: s)
  case (Cons x xs)
  then obtain s1 where s1: "f s x = Inr s1" by (meson list.set_intros(1))
  have "\<exists>t. py_fold f s1 xs = Inr t" by (rule Cons.IH) (simp add: Cons.prems)
  then show ?case by (simp add: s1)
qed simp

lemma py_fold_invariant:
  assumes "py_fold f s xs = Inr t" and "P s"
    and "\<And>s x s'. P s \<Longrightarrow> x \<in> set xs \<Longrightarrow> f s x = Inr s' \<Longrightarrow> P s'"
  shows "P t"
  using assms
proof (induction xs arbitrary: s)
  case (Cons x xs)
  from Cons.prems(1) obtain s' where s': "f s x = Inr s'" and t: "py_fold f s' xs = Inr t"
    by (auto simp: py_bind_eq_Inr)
  have "P s'" using Cons.prems(2,3) s' by (metis list.set_intros(1))
  then show ?case
    using Cons.IH [OF t] Cons.prems(3) by (metis list.set_intros(2))
qed simp

lemma py_fold_cong:
  "(\<And>s x. x \<in> set xs \<Longrightarrow> f s x = g s x) \<Longrightarrow> py_fold f s xs = py_fold g s xs"
proof (induction xs arbitrary: s)
  case (Cons x xs)
  then show ?case by (cases "g s x") simp_all
qed simp

lemma foldl_keeps: "P s \<Longrightarrow> (\<And>s x. P s \<Longrightarrow> P (f s x)) \<Longrightarrow> P (foldl f s xs)"
  by (induction xs arbitrary: s) auto

text \<open>\<open>xs[i]\<close> and \<open>xs[i] = v\<close> raise \<open>IndexError\<close> past the end.\<close>

definition py_at :: "'a list \<Rightarrow> nat \<Rightarrow> 'a py" where
  "py_at xs i = (if i < length xs then Inr (xs ! i) else Inl IndexError)"

definition py_put :: "'a list \<Rightarrow> nat \<Rightarrow> 'a \<Rightarrow> 'a list py" where
  "py_put xs i v = (if i < length xs then Inr (xs[i := v]) else Inl IndexError)"

lemma py_put_range:
  assumes "b \<le> length xs"
  shows "py_fold (\<lambda>xs i. py_put xs i (f i)) xs [a..<b] =
    Inr (List.map (\<lambda>i. if a \<le> i \<and> i < b then f i else xs ! i) [0..<length xs])"
  using assms
proof (induction b)
  case 0
  then show ?case by (simp add: map_nth)
next
  case (Suc b)
  show ?case
  proof (cases "a \<le> b")
    case True
    with Suc show ?thesis
      by (auto simp: py_fold_append py_put_def less_Suc_eq intro!: nth_equalityI)
  next
    case False
    then show ?thesis by (auto simp: intro!: nth_equalityI)
  qed
qed

section \<open>Dictionaries\<close>

text \<open>
  A Python dictionary keeps the order in which its keys were first stored: \<open>d[k] = v\<close>
  replaces in place or appends at the end, which is what \<^const>\<open>AList.update\<close> does;
  \<open>d.pop(k, None)\<close> is \<^const>\<open>AList.delete\<close>, \<open>d.get(k)\<close> is \<^const>\<open>map_of\<close>.
\<close>

type_synonym ('k, 'v) dict = "('k \<times> 'v) list"

abbreviation dget :: "('k, 'v) dict \<Rightarrow> 'k \<Rightarrow> 'v option" where
  "dget d k \<equiv> map_of d k"

abbreviation dset :: "'k \<Rightarrow> 'v \<Rightarrow> ('k, 'v) dict \<Rightarrow> ('k, 'v) dict" where
  "dset \<equiv> AList.update"

abbreviation dpop :: "'k \<Rightarrow> ('k, 'v) dict \<Rightarrow> ('k, 'v) dict" where
  "dpop \<equiv> AList.delete"

abbreviation dkeys :: "('k, 'v) dict \<Rightarrow> 'k list" where
  "dkeys d \<equiv> List.map fst d"

definition dget_or :: "('k, 'v) dict \<Rightarrow> 'k \<Rightarrow> 'v \<Rightarrow> 'v" where
  "dget_or d k v = (case dget d k of None \<Rightarrow> v | Some w \<Rightarrow> w)"

definition dsetdefault :: "'k \<Rightarrow> 'v \<Rightarrow> ('k, 'v) dict \<Rightarrow> ('k, 'v) dict" where
  "dsetdefault k v d = (case dget d k of None \<Rightarrow> dset k v d | Some _ \<Rightarrow> d)"

lemma dget_dset [simp, dict_simps]:
  "dget (dset k v d) k' = (if k' = k then Some v else dget d k')"
  by (simp add: update_conv')

lemma dget_dpop [simp, dict_simps]:
  "dget (dpop k d) k' = (if k' = k then None else dget d k')"
  by (simp add: delete_conv')

lemma dget_or_simps [simp, dict_simps]:
  "dget_or (dset k v d) k' w = (if k' = k then v else dget_or d k' w)"
  "dget_or (dpop k d) k' w = (if k' = k then w else dget_or d k' w)"
  "dget_or [] k' w = w"
  by (simp_all add: dget_or_def)

lemma dget_dsetdefault [simp, dict_simps]:
  "dget (dsetdefault k v d) k' =
     (if k' = k then Some (dget_or d k v) else dget d k')"
  by (auto simp: dsetdefault_def dget_or_def split: option.splits)

lemma dget_map_value [simp, dict_simps]:
  "dget (List.map (\<lambda>(k, v). (k, f k v)) d) k' = map_option (f k') (dget d k')"
  by (induction d) auto

lemma dkeys_dset: "dkeys (dset k v d) = (if k \<in> set (dkeys d) then dkeys d else dkeys d @ [k])"
  by (rule update_keys)

lemma dset_dset: "dset k v (dset k w d) = dset k v d"
  by (induction d) auto

lemma distinct_dkeys_dset [simp, intro]: "distinct (dkeys d) \<Longrightarrow> distinct (dkeys (dset k v d))"
  by (rule distinct_update)

lemma distinct_dkeys_dpop [simp, intro]: "distinct (dkeys d) \<Longrightarrow> distinct (dkeys (dpop k d))"
  by (rule distinct_delete)

lemma distinct_dkeys_dsetdefault [simp, intro]:
  "distinct (dkeys d) \<Longrightarrow> distinct (dkeys (dsetdefault k v d))"
  by (auto simp: dsetdefault_def split: option.splits)

lemma dget_Some_in_set: "dget d k = Some v \<Longrightarrow> (k, v) \<in> set d"
  by (rule map_of_SomeD)

lemma in_set_dget: "distinct (dkeys d) \<Longrightarrow> (k, v) \<in> set d \<longleftrightarrow> dget d k = Some v"
  by (auto dest: map_of_SomeD map_of_is_SomeI)

text \<open>\<open>{**d, **e}\<close>\<close>

definition dmerge :: "('k, 'v) dict \<Rightarrow> ('k, 'v) dict \<Rightarrow> ('k, 'v) dict" where
  "dmerge d e = foldl (\<lambda>a (k, v). dset k v a) d e"

lemma dget_dmerge [simp, dict_simps]:
  "distinct (dkeys e) \<Longrightarrow>
   dget (dmerge d e) k = (case dget e k of None \<Rightarrow> dget d k | Some v \<Rightarrow> Some v)"
  unfolding dmerge_def
proof (induction e arbitrary: d)
  case (Cons p e)
  obtain k' v where p: "p = (k', v)" by (cases p)
  have "dget e k' = None" using Cons.prems by (simp add: p map_of_eq_None_iff)
  then show ?case using Cons by (auto simp: p split: option.splits)
qed simp

lemma distinct_dkeys_dmerge [simp, intro]: "distinct (dkeys d) \<Longrightarrow> distinct (dkeys (dmerge d e))"
  unfolding dmerge_def by (induction e arbitrary: d) auto

text \<open>\<open>sort(reverse=True)\<close> keeps equal elements in their order.\<close>

definition sort_desc :: "('a \<Rightarrow> 'k::linorder) \<Rightarrow> 'a list \<Rightarrow> 'a list" where
  "sort_desc key xs = rev (sort_key key (rev xs))"

section \<open>Strings\<close>

definition is_space :: "char \<Rightarrow> bool" where
  "is_space c = (let n = (of_char c :: nat) in
     (9 \<le> n \<and> n \<le> 13) \<or> (28 \<le> n \<and> n \<le> 32) \<or> n = 133 \<or> n = 160)"

definition lstrip_if :: "('c \<Rightarrow> bool) \<Rightarrow> 'c list \<Rightarrow> 'c list" where
  "lstrip_if p s = dropWhile p s"

definition rstrip_if :: "('c \<Rightarrow> bool) \<Rightarrow> 'c list \<Rightarrow> 'c list" where
  "rstrip_if p s = rev (dropWhile p (rev s))"

definition strip_if :: "('c \<Rightarrow> bool) \<Rightarrow> 'c list \<Rightarrow> 'c list" where
  "strip_if p s = rstrip_if p (lstrip_if p s)"

definition py_strip :: "string \<Rightarrow> string" where
  "py_strip = strip_if is_space"

definition py_lower :: "string \<Rightarrow> string" where
  "py_lower = List.map (\<lambda>c. let n = (of_char c :: nat) in
     if (65 \<le> n \<and> n \<le> 90) \<or> (192 \<le> n \<and> n \<le> 222 \<and> n \<noteq> 215) then char_of (n + 32) else c)"

definition startswith :: "'c list \<Rightarrow> 'c list \<Rightarrow> bool" where
  "startswith s p = (take (length p) s = p)"

text \<open>\<open>s.rsplit(p, 1)[1]\<close>: what follows the last occurrence of \<open>p\<close>.\<close>

fun after_last :: "string \<Rightarrow> string \<Rightarrow> string option" where
  "after_last p [] = (if p = [] then Some [] else None)"
| "after_last p (c # cs) =
     (case after_last p cs of
        Some r \<Rightarrow> Some r
      | None \<Rightarrow> if startswith (c # cs) p then Some (drop (length p) (c # cs)) else None)"

definition endswith :: "'c list \<Rightarrow> 'c list \<Rightarrow> bool" where
  "endswith s p = (length p \<le> length s \<and> drop (length s - length p) s = p)"

definition removesuffix :: "'c list \<Rightarrow> 'c list \<Rightarrow> 'c list" where
  "removesuffix s p = (if endswith s p then take (length s - length p) s else s)"

lemma endswith_append [simp]: "endswith (s @ p) p"
  by (simp add: endswith_def)

lemma removesuffix_append [simp]: "removesuffix (s @ p) p = s"
  by (simp add: removesuffix_def)

lemma length_rstrip_if: "length (rstrip_if p s) \<le> length s"
  unfolding rstrip_if_def by (metis length_dropWhile_le length_rev)

lemma length_lstrip_if: "length (lstrip_if p s) \<le> length s"
  unfolding lstrip_if_def by (rule length_dropWhile_le)

lemma length_strip_if: "length (strip_if p s) \<le> length s"
  unfolding strip_if_def using length_rstrip_if length_lstrip_if le_trans by blast

lemma set_strip_if: "set (strip_if p s) \<subseteq> set s"
proof -
  have "set (dropWhile p xs) \<subseteq> set xs" for xs :: "'a list"
    by (rule set_dropWhileD [THEN subsetI])
  then show ?thesis
    unfolding strip_if_def rstrip_if_def lstrip_if_def
    by (metis (no_types, lifting) set_rev subset_trans)
qed

lemma rstrip_if_last: "s = [] \<or> \<not> p (last s) \<Longrightarrow> rstrip_if p s = s"
  by (cases s rule: rev_cases) (auto simp: rstrip_if_def)

lemma rstrip_if_last_not: "rstrip_if p s \<noteq> [] \<Longrightarrow> \<not> p (last (rstrip_if p s))"
  unfolding rstrip_if_def
  by (metis hd_dropWhile last_rev rev_is_Nil_conv)

lemma hd_rstrip_if: "rstrip_if p s \<noteq> [] \<Longrightarrow> hd (rstrip_if p s) = hd s"
proof -
  assume ne: "rstrip_if p s \<noteq> []"
  have "s = rstrip_if p s @ rev (takeWhile p (rev s))"
    unfolding rstrip_if_def by (metis rev_append rev_rev_ident takeWhile_dropWhile_id)
  then show ?thesis using ne by (metis hd_append2)
qed

lemma strip_if_idem [simp]: "strip_if p (strip_if p s) = strip_if p s"
proof (cases "strip_if p s = []")
  case True
  then show ?thesis by (simp only: True) (simp add: strip_if_def lstrip_if_def rstrip_if_def)
next
  case False
  let ?t = "strip_if p s"
  have hd: "hd ?t = hd (lstrip_if p s)"
    using False by (simp add: strip_if_def hd_rstrip_if)
  have "lstrip_if p s \<noteq> []"
    using False by (auto simp: strip_if_def rstrip_if_def)
  then have "\<not> p (hd ?t)"
    unfolding hd lstrip_if_def by (rule hd_dropWhile)
  then have l: "lstrip_if p ?t = ?t"
    using False by (cases ?t) (auto simp: lstrip_if_def)
  have "\<not> p (last ?t)"
    using False rstrip_if_last_not unfolding strip_if_def by blast
  then have "rstrip_if p ?t = ?t"
    by (simp add: rstrip_if_last)
  with l show ?thesis by (simp add: strip_if_def)
qed

lemma py_strip_idem [simp]: "py_strip (py_strip s) = py_strip s"
  by (simp add: py_strip_def)

text \<open>\<open>s.split(c)\<close> at one character.\<close>

fun split_on :: "char \<Rightarrow> string \<Rightarrow> string list" where
  "split_on c [] = [[]]"
| "split_on c (x # xs) =
     (if x = c then [] # split_on c xs
      else case split_on c xs of [] \<Rightarrow> [[x]] | w # ws \<Rightarrow> (x # w) # ws)"

section \<open>Numbers\<close>

text \<open>Python's \<open>round\<close> takes a tie to the even neighbour; \<open>int\<close> of a float drops the fraction.\<close>

definition py_round :: "rat \<Rightarrow> int" where
  "py_round x = (let f = \<lfloor>x\<rfloor>; d = x - of_int f in
     if d < 1/2 then f else if 1/2 < d then f + 1 else if even f then f else f + 1)"

definition py_int :: "rat \<Rightarrow> int" where
  "py_int x = (if 0 \<le> x then \<lfloor>x\<rfloor> else \<lceil>x\<rceil>)"

lemma py_round_of_int [simp]: "py_round (of_int n) = n"
  by (simp add: py_round_def)

lemma py_round_0 [simp]: "py_round 0 = 0" and py_round_1 [simp]: "py_round 1 = 1"
  by (simp_all add: py_round_def)

lemma py_round_nonneg: "0 \<le> x \<Longrightarrow> 0 \<le> py_round x"
  by (auto simp: py_round_def Let_def)

lemma py_round_bounds: "of_int (py_round x) - x \<le> 1/2" "x - of_int (py_round x) \<le> 1/2"
proof -
  define f :: rat where "f = of_int \<lfloor>x\<rfloor>"
  have "f \<le> x" "x < f + 1" unfolding f_def by linarith+
  then show "of_int (py_round x) - x \<le> 1/2" "x - of_int (py_round x) \<le> 1/2"
    unfolding py_round_def Let_def of_int_add of_int_1 f_def [symmetric]
    by (auto simp: f_def [symmetric])
qed

lemma py_round_mono: "x \<le> y \<Longrightarrow> py_round x \<le> py_round y"
proof -
  assume xy: "x \<le> y"
  have f: "\<lfloor>x\<rfloor> \<le> \<lfloor>y\<rfloor>" using xy by (rule floor_mono)
  show ?thesis
  proof (cases "\<lfloor>x\<rfloor> = \<lfloor>y\<rfloor>")
    case True
    with xy show ?thesis by (auto simp: py_round_def Let_def)
  next
    case False
    with f have "\<lfloor>x\<rfloor> + 1 \<le> \<lfloor>y\<rfloor>" by simp
    moreover have "py_round x \<le> \<lfloor>x\<rfloor> + 1" "\<lfloor>y\<rfloor> \<le> py_round y"
      by (auto simp: py_round_def Let_def)
    ultimately show ?thesis by simp
  qed
qed

definition clamp01 :: "rat \<Rightarrow> rat" where
  "clamp01 x = min 1 (max 0 x)"

lemma clamp01_bounds [simp]: "0 \<le> clamp01 x" "clamp01 x \<le> 1"
  by (simp_all add: clamp01_def)

end
