(* ===== verification/Json.thy ===== *)
theory Json
  imports Prelude
begin

text \<open>
  The values the program reads from and writes to its JSON and JSONL files, with the Python
  operations it applies to them: truth value, \<open>dict.get\<close>, \<open>x or y\<close>, \<open>int(x)\<close>, hashing as a
  dictionary key. A file is missing, unreadable or a parsed value; a line of a log is
  unparseable or a parsed value.
\<close>

section \<open>Values\<close>

datatype json =
    JNull
  | JBool bool
  | JInt int
  | JFloat rat
  | JStr string
  | JList "json list"
  | JObj "(string \<times> json) list"

type_synonym jobj = "(string, json) dict"

fun truthy :: "json \<Rightarrow> bool" where
  "truthy JNull = False"
| "truthy (JBool b) = b"
| "truthy (JInt n) = (n \<noteq> 0)"
| "truthy (JFloat x) = (x \<noteq> 0)"
| "truthy (JStr s) = (s \<noteq> [])"
| "truthy (JList xs) = (xs \<noteq> [])"
| "truthy (JObj d) = (d \<noteq> [])"

definition py_or :: "json \<Rightarrow> json \<Rightarrow> json" where
  "py_or a b = (if truthy a then a else b)"

definition jget :: "jobj \<Rightarrow> string \<Rightarrow> json" where
  "jget d k = dget_or d k JNull"

definition jget_or :: "jobj \<Rightarrow> string \<Rightarrow> json \<Rightarrow> json" where
  "jget_or d k v = dget_or d k v"

fun is_obj :: "json \<Rightarrow> bool" where
  "is_obj (JObj d) = True"
| "is_obj _ = False"

fun obj_of :: "json \<Rightarrow> jobj" where
  "obj_of (JObj d) = d"
| "obj_of _ = []"

text \<open>A method of \<open>dict\<close> called on a value that is not one raises \<open>AttributeError\<close>.\<close>

fun as_dict :: "json \<Rightarrow> jobj py" where
  "as_dict (JObj d) = Inr d"
| "as_dict _ = Inl AttributeError"

fun as_str :: "json \<Rightarrow> string py" where
  "as_str (JStr s) = Inr s"
| "as_str _ = Inl AttributeError"

text \<open>\<open>(x or "").strip()\<close>\<close>

definition strip_or_empty :: "json \<Rightarrow> string py" where
  "strip_or_empty v = py_bind (as_str (py_or v (JStr []))) (\<lambda>s. Inr (py_strip s))"

lemma strip_or_empty_str: "strip_or_empty (JStr s) = Inr (py_strip s)"
  by (cases s) (simp_all add: strip_or_empty_def py_or_def)

lemma jget_dset [simp, dict_simps]:
  "jget (dset k v d) k' = (if k' = k then v else jget d k')"
  by (simp add: jget_def)

lemma jget_dpop [simp, dict_simps]:
  "jget (dpop k d) k' = (if k' = k then JNull else jget d k')"
  by (simp add: jget_def)

lemma jget_or_simps [simp, dict_simps]:
  "jget_or (dset k v d) k' w = (if k' = k then v else jget_or d k' w)"
  "jget_or (dpop k d) k' w = (if k' = k then w else jget_or d k' w)"
  by (simp_all add: jget_or_def)

lemma jget_Nil [simp]: "jget [] k = JNull"
  by (simp add: jget_def)

lemma jget_Cons [simp]: "jget ((k, v) # d) k' = (if k' = k then v else jget d k')"
  by (simp add: jget_def dget_or_def)

lemma jget_or_Cons [simp]:
  "jget_or ((k, v) # d) k' w = (if k' = k then v else jget_or d k' w)" "jget_or [] k' w = w"
  by (simp_all add: jget_or_def dget_or_def)

lemma jget_or_eq: "jget_or d k v = (case dget d k of None \<Rightarrow> v | Some w \<Rightarrow> w)"
  by (simp add: jget_or_def dget_or_def)

lemma jget_eq: "jget d k = (case dget d k of None \<Rightarrow> JNull | Some w \<Rightarrow> w)"
  by (simp add: jget_def dget_or_def)

lemma jget_dmerge [simp, dict_simps]:
  "distinct (dkeys e) \<Longrightarrow>
   jget (dmerge d e) x = (if x \<in> set (dkeys e) then jget e x else jget d x)"
proof (cases "dget e x")
  case None
  then have "x \<notin> set (dkeys e)" by (simp add: map_of_eq_None_iff)
  then show "distinct (dkeys e) \<Longrightarrow> ?thesis" by (simp add: jget_eq None)
next
  case (Some v)
  then have "x \<in> set (dkeys e)" by (metis map_of_eq_None_iff option.distinct(1) set_map)
  then show "distinct (dkeys e) \<Longrightarrow> ?thesis" by (simp add: jget_eq Some)
qed

lemma jget_notin: "x \<notin> set (dkeys d) \<Longrightarrow> jget d x = JNull"
  by (simp add: jget_eq map_of_eq_None_iff [THEN iffD2])

text \<open>
  Python's \<open>==\<close> on parsed values: numbers by value (\<open>True == 1 == 1.0\<close>), dictionaries by their keys
  in any order.
\<close>

fun as_number :: "json \<Rightarrow> rat option" where
  "as_number (JBool b) = Some (if b then 1 else 0)"
| "as_number (JInt n) = Some (of_int n)"
| "as_number (JFloat x) = Some x"
| "as_number _ = None"

function (sequential) json_eq :: "json \<Rightarrow> json \<Rightarrow> bool" where
  "json_eq (JList xs) w = (case w of JList ys \<Rightarrow> length xs = length ys \<and> list_all (\<lambda>(x, y). json_eq x y) (zip xs ys)
     | _ \<Rightarrow> False)"
| "json_eq (JObj d) w = (case w of JObj e \<Rightarrow> length d = length e \<and>
       list_all (\<lambda>(k, v). case map_of e k of None \<Rightarrow> False | Some u \<Rightarrow> json_eq v u) d
     | _ \<Rightarrow> False)"
| "json_eq v w = (case as_number v of Some x \<Rightarrow> as_number w = Some x | None \<Rightarrow> v = w)"
  by pat_completeness auto
termination
proof (relation "measure (\<lambda>(v, w). size v)", goal_cases)
  case (2 xs w ys p x y)
  then have "x \<in> set xs" by (auto dest: set_zip_leftD)
  then show ?case using size_list_estimation' [of x xs "size x" size] by simp
next
  case (3 d w e p k v u)
  then have "(k, v) \<in> set d" by simp
  then show ?case using size_list_estimation' [of "(k, v)" d "size v" "size_prod (\<lambda>_. 0) size"] by simp
qed auto

section \<open>Integers as text\<close>

definition digit_char :: "nat \<Rightarrow> char" where
  "digit_char n = char_of (48 + n)"

definition digit_val :: "char \<Rightarrow> nat option" where
  "digit_val c = (let n = (of_char c :: nat) in if 48 \<le> n \<and> n \<le> 57 then Some (n - 48) else None)"

fun nat_str :: "nat \<Rightarrow> string" where
  "nat_str n = (if n < 10 then [digit_char n] else nat_str (n div 10) @ [digit_char (n mod 10)])"

declare nat_str.simps [simp del]

definition int_str :: "int \<Rightarrow> string" where
  "int_str i = (if i < 0 then CHR ''-'' # nat_str (nat (- i)) else nat_str (nat i))"

text \<open>
  \<open>int(s)\<close>: surrounding white space, a sign, digits with single underscores between them.
  The boolean says whether the last character read was a digit.
\<close>

fun digits_val :: "nat \<Rightarrow> bool \<Rightarrow> string \<Rightarrow> nat option" where
  "digits_val acc d [] = (if d then Some acc else None)"
| "digits_val acc d (c # cs) =
     (case digit_val c of
        Some v \<Rightarrow> digits_val (10 * acc + v) True cs
      | None \<Rightarrow> if c = CHR ''_'' \<and> d then digits_val acc False cs else None)"

definition str_int :: "string \<Rightarrow> int option" where
  "str_int s = (case py_strip s of
      [] \<Rightarrow> None
    | c # cs \<Rightarrow>
        if c = CHR ''-'' then map_option (\<lambda>n. - int n) (digits_val 0 False cs)
        else if c = CHR ''+'' then map_option int (digits_val 0 False cs)
        else map_option int (digits_val 0 False (c # cs)))"

fun py_int_of :: "json \<Rightarrow> int py" where
  "py_int_of (JInt n) = Inr n"
| "py_int_of (JBool b) = Inr (if b then 1 else 0)"
| "py_int_of (JFloat x) = Inr (py_int x)"
| "py_int_of (JStr s) = (case str_int s of Some n \<Rightarrow> Inr n | None \<Rightarrow> Inl ValueError)"
| "py_int_of _ = Inl TypeError"

text \<open>\<open>float(v)\<close>; \<open>fs\<close> is Python's reading of a float from text.\<close>

fun py_float :: "(string \<Rightarrow> rat py) \<Rightarrow> json \<Rightarrow> rat py" where
  "py_float fs (JInt n) = Inr (of_int n)"
| "py_float fs (JFloat x) = Inr x"
| "py_float fs (JBool b) = Inr (if b then 1 else 0)"
| "py_float fs (JStr s) = fs s"
| "py_float fs _ = Inl TypeError"

text \<open>
  \<open>try: max(0, int(v)) except (TypeError, ValueError): 0\<close>, the reading of a stage counter.
\<close>

definition stage_int :: "json \<Rightarrow> int" where
  "stage_int v = (case py_int_of v of Inr n \<Rightarrow> max 0 n | Inl _ \<Rightarrow> 0)"

lemma stage_int_nonneg [simp]: "0 \<le> stage_int v"
  by (auto simp: stage_int_def split: sum.splits)

lemma stage_int_JInt [simp]: "stage_int (JInt n) = max 0 n"
  by (simp add: stage_int_def)

lemma digit_val_digit_char [simp]: "n < 10 \<Longrightarrow> digit_val (digit_char n) = Some n"
  by (simp add: digit_val_def digit_char_def)

lemma digit_char_ge: "n < 10 \<Longrightarrow> (of_char (digit_char n) :: nat) = 48 + n"
  by (simp add: digit_char_def)

lemma digits_val_snoc:
  "digits_val acc d xs = Some a \<Longrightarrow> k < 10 \<Longrightarrow>
   digits_val acc d (xs @ [digit_char k]) = Some (10 * a + k)"
  by (induction acc d xs rule: digits_val.induct) (auto split: option.splits if_splits)

lemma nat_str_digits: "c \<in> set (nat_str n) \<Longrightarrow> \<exists>k<10. c = digit_char k"
proof (induction n rule: nat_str.induct)
  case (1 n)
  then show ?case
    by (cases "n < 10") (auto simp: nat_str.simps [of n] intro: exI [of _ "n mod 10"])
qed

lemma nat_str_nonempty [simp]: "nat_str n \<noteq> []"
  by (subst nat_str.simps) simp

lemma digits_val_nat_str: "digits_val 0 False (nat_str n) = Some n"
proof (induction n rule: nat_str.induct)
  case (1 n)
  show ?case
  proof (cases "n < 10")
    case True
    then show ?thesis by (simp add: nat_str.simps [of n])
  next
    case False
    with "1.IH" show ?thesis
      by (simp add: nat_str.simps [of n] digits_val_snoc)
  qed
qed

lemma no_space_digit_char: "n < 10 \<Longrightarrow> \<not> is_space (digit_char n)"
  by (simp add: is_space_def digit_char_ge)

lemma strip_no_space: "(\<And>c. c \<in> set s \<Longrightarrow> \<not> is_space c) \<Longrightarrow> py_strip s = s"
proof -
  assume a: "\<And>c. c \<in> set s \<Longrightarrow> \<not> is_space c"
  have d: "dropWhile is_space xs = xs" if "set xs \<subseteq> set s" for xs
    using that a by (cases xs) auto
  show ?thesis
    by (simp add: py_strip_def strip_if_def lstrip_if_def rstrip_if_def d)
qed

lemma str_int_int_str [simp]: "str_int (int_str i) = Some i"
proof -
  have ns: "\<not> is_space c" if "c \<in> set (int_str i)" for c
  proof -
    from that have "c = CHR ''-'' \<or> (\<exists>k<10. c = digit_char k)"
      by (auto simp: int_str_def dest: nat_str_digits split: if_splits)
    then show ?thesis
      using no_space_digit_char by (auto simp: is_space_def)
  qed
  have strip: "py_strip (int_str i) = int_str i"
    by (rule strip_no_space) (rule ns)
  show ?thesis
  proof (cases "i < 0")
    case True
    then show ?thesis
      unfolding str_int_def strip by (simp add: int_str_def digits_val_nat_str)
  next
    case False
    then obtain c cs where cs: "nat_str (nat i) = c # cs"
      by (cases "nat_str (nat i)") auto
    then obtain k where k: "k < 10" "c = digit_char k"
      using nat_str_digits [of c "nat i"] by auto
    have "(of_char c :: nat) \<noteq> 45" "(of_char c :: nat) \<noteq> 43"
      using k by (auto simp: digit_char_ge)
    then have "c \<noteq> CHR ''-''" "c \<noteq> CHR ''+''"
      by auto
    moreover have "digits_val 0 False (c # cs) = Some (nat i)"
      using digits_val_nat_str [of "nat i"] cs by simp
    moreover have "int_str i = c # cs" using False cs by (simp add: int_str_def)
    ultimately show ?thesis
      using False unfolding str_int_def strip
      by (simp only: list.case if_False option.map) simp
  qed
qed

lemma int_str_inj [simp]: "int_str i = int_str j \<longleftrightarrow> i = j"
  by (metis option.inject str_int_int_str)

section \<open>Dictionary keys\<close>

text \<open>
  A value used as a dictionary key is hashed. Equal numbers are the same key (\<open>1\<close>, \<open>1.0\<close> and
  \<open>True\<close>), lists and dictionaries cannot be hashed.
\<close>

datatype pykey = KNone | KNum rat | KStr string

fun hash_key :: "json \<Rightarrow> pykey py" where
  "hash_key JNull = Inr KNone"
| "hash_key (JBool b) = Inr (KNum (if b then 1 else 0))"
| "hash_key (JInt n) = Inr (KNum (of_int n))"
| "hash_key (JFloat x) = Inr (KNum x)"
| "hash_key (JStr s) = Inr (KStr s)"
| "hash_key _ = Inl TypeError"

text \<open>
  The order \<open>sorted\<close> puts keys in. Python compares only keys of one kind; the instance orders the
  kinds too, and \<open>py_sorted\<close> refuses a mixture.
\<close>

fun less_pykey' :: "pykey \<Rightarrow> pykey \<Rightarrow> bool" where
  "less_pykey' KNone KNone = False"
| "less_pykey' KNone _ = True"
| "less_pykey' (KNum _) KNone = False"
| "less_pykey' (KNum x) (KNum y) = (x < y)"
| "less_pykey' (KNum _) (KStr _) = True"
| "less_pykey' (KStr s) (KStr t) = (s < t)"
| "less_pykey' (KStr _) _ = False"

instantiation pykey :: linorder
begin

definition less_pykey :: "pykey \<Rightarrow> pykey \<Rightarrow> bool" where
  "less_pykey a b = less_pykey' a b"

definition less_eq_pykey :: "pykey \<Rightarrow> pykey \<Rightarrow> bool" where
  "less_eq_pykey a b = (a = b \<or> less_pykey' a b)"

instance
proof
  fix a b c :: pykey
  show "(a < b) = (a \<le> b \<and> \<not> b \<le> a)"
    by (cases a; cases b) (auto simp: less_pykey_def less_eq_pykey_def)
  show "a \<le> a" by (simp add: less_eq_pykey_def)
  show "a \<le> b \<Longrightarrow> b \<le> c \<Longrightarrow> a \<le> c"
    by (cases a; cases b; cases c) (auto simp: less_eq_pykey_def)
  show "a \<le> b \<Longrightarrow> b \<le> a \<Longrightarrow> a = b"
    by (cases a; cases b) (auto simp: less_eq_pykey_def)
  show "a \<le> b \<or> b \<le> a"
    by (cases a; cases b) (auto simp: less_eq_pykey_def)
qed

end

fun is_KStr :: "pykey \<Rightarrow> bool" where
  "is_KStr (KStr _) = True"
| "is_KStr _ = False"

fun is_KNum :: "pykey \<Rightarrow> bool" where
  "is_KNum (KNum _) = True"
| "is_KNum _ = False"

definition py_sorted :: "pykey list \<Rightarrow> pykey list py" where
  "py_sorted ks = (if list_all is_KStr ks \<or> list_all is_KNum ks \<or> length ks \<le> 1
     then Inr (sort ks) else Inl TypeError)"

section \<open>Log files\<close>

text \<open>
  A line of a JSONL file after \<open>strip()\<close>: empty, not parseable, or a value. Every reader of the
  program skips the first two, so that one damaged line never hides the others.
\<close>

datatype line = Blank | Garbled | Rec json

definition recs :: "line list \<Rightarrow> json list" where
  "recs ls = List.map_filter (\<lambda>l. case l of Rec j \<Rightarrow> Some j | _ \<Rightarrow> None) ls"

lemma recs_simps [simp]:
  "recs [] = []"
  "recs (Blank # ls) = recs ls"
  "recs (Garbled # ls) = recs ls"
  "recs (Rec j # ls) = j # recs ls"
  "recs (ls @ ls') = recs ls @ recs ls'"
  by (simp_all add: recs_def List.map_filter_def)

lemma recs_map_Rec [simp]: "recs (List.map Rec js) = js"
  by (induction js) auto

text \<open>The content of a file: reading it, or \<open>json.loads\<close> of it, fails on the first.\<close>

datatype 'a content = Unreadable | Parsed 'a

text \<open>A log file that may be missing, and appending one record to it.\<close>

type_synonym logfile = "line list content option"

fun log_lines :: "logfile \<Rightarrow> line list" where
  "log_lines (Some (Parsed ls)) = ls"
| "log_lines _ = []"

fun log_append :: "jobj \<Rightarrow> logfile \<Rightarrow> logfile" where
  "log_append r None = Some (Parsed [Rec (JObj r)])"
| "log_append r (Some (Parsed ls)) = Some (Parsed (ls @ [Rec (JObj r)]))"
| "log_append r (Some Unreadable) = Some Unreadable"

definition readable :: "logfile \<Rightarrow> bool" where
  "readable f = (f \<noteq> Some Unreadable)"

lemma readable_log_append [simp]: "readable (log_append r f) = readable f"
  by (cases "(r, f)" rule: log_append.cases) (auto simp: readable_def)

lemma log_lines_append [simp]: "readable f \<Longrightarrow> log_lines (log_append r f) = log_lines f @ [Rec (JObj r)]"
  by (cases "(r, f)" rule: log_append.cases) (auto simp: readable_def)

text \<open>Appending several records.\<close>

definition log_extend :: "jobj list \<Rightarrow> logfile \<Rightarrow> logfile" where
  "log_extend rs f = foldl (\<lambda>f r. log_append r f) f rs"

lemma log_extend_lines:
  assumes "readable f"
  shows "readable (log_extend rs f)" "recs (log_lines (log_extend rs f)) = recs (log_lines f) @ List.map JObj rs"
  using assms by (induction rs rule: rev_induct) (simp_all add: log_extend_def)

lemma log_extend_simps: "log_extend [] f = f" "log_extend (r # rs) f = log_extend rs (log_append r f)"
  by (simp_all add: log_extend_def)

lemma log_extend_append: "log_extend (rs @ rs') f = log_extend rs' (log_extend rs f)"
  by (simp add: log_extend_def)

text \<open>
  \<open>f"{v}"\<close>; \<open>rp\<close> is Python's \<open>repr\<close> of floats and containers.
\<close>

fun fstr :: "(json \<Rightarrow> string) \<Rightarrow> json \<Rightarrow> string" where
  "fstr rp (JStr s) = s"
| "fstr rp (JInt i) = int_str i"
| "fstr rp JNull = ''None''"
| "fstr rp (JBool b) = (if b then ''True'' else ''False'')"
| "fstr rp v = rp v"

text \<open>\<open>for x in v\<close>: the items a Python loop over a JSON value takes.\<close>

fun json_list_items :: "json \<Rightarrow> json list py" where
  "json_list_items (JList xs) = Inr xs"
| "json_list_items (JStr s) = Inr (List.map (\<lambda>c. JStr [c]) s)"
| "json_list_items (JObj d) = Inr (List.map (\<lambda>(k, v). JStr k) d)"
| "json_list_items _ = Inl TypeError"

end
