(* ===== verification/Sidecar.thy ===== *)
theory Sidecar
  imports Json
begin

text \<open>
  \<open>server/inference/core/chat_sidecar.py\<close>: the per-chat state document beside each transcript. A chats
  directory is a dictionary from file names to contents (no symbolic links); an object of the class has
  one directory it writes and an optional one it falls back to. What the class hands to the revisions
  ledger is kept as a list of events. \<open>sha\<close> is \<open>exchange_target_sha\<close> (SHA-256), \<open>ts\<close> the time of the call,
  \<open>ok\<close> whether the atomic write succeeds, \<open>repair\<close> the deletion of Latin capitals glued to Cyrillic words
  (\<open>core/stray_latin.py\<close>, over letters outside the model's alphabet).
\<close>

type_synonym chats_dir = "(string, json content) dict"

datatype ledger_event =
    Verdict_Event string int jobj jobj
  | Flag_Event string string int bool

record sidecar =
  main_dir :: chats_dir
  fallback_dir :: "chats_dir option"
  ledger_events :: "ledger_event list"

section \<open>Names\<close>

text \<open>\<open>Path(name).suffix\<close> and \<open>Path(name).stem\<close>.\<close>

definition dot_at :: "string \<Rightarrow> nat option" where
  "dot_at name = (case rev (filter (\<lambda>i. name ! i = CHR ''.'') [0..<length name]) of
      [] \<Rightarrow> None | i # _ \<Rightarrow> if 0 < i \<and> i < length name - 1 then Some i else None)"

definition path_suffix :: "string \<Rightarrow> string" where
  "path_suffix name = (case dot_at name of None \<Rightarrow> [] | Some i \<Rightarrow> drop i name)"

definition path_stem :: "string \<Rightarrow> string" where
  "path_stem name = (case dot_at name of None \<Rightarrow> name | Some i \<Rightarrow> take i name)"

definition sidecar_suffixes :: "string list" where
  "sidecar_suffixes = [''.state.json'', ''.summary.json'', ''.facts.json'', ''.shareml.json'', ''.hidden.npz'']"

definition has_sidecar_suffix :: "string \<Rightarrow> bool" where
  "has_sidecar_suffix name = list_ex (endswith name) sidecar_suffixes"

definition is_chat_session_json :: "string \<Rightarrow> bool" where
  "is_chat_session_json name = (py_lower (path_suffix name) = ''.json'' \<and> \<not> has_sidecar_suffix name)"

definition resolve_chat_path :: "string \<Rightarrow> string option" where
  "resolve_chat_path source_session =
     (let name = py_strip source_session in
      if name = [] \<or> CHR ''/'' \<in> set name \<or> CHR 0x5C \<in> set name \<or> name \<in> {''.'', ''..''}
         \<or> has_sidecar_suffix name
      then None
      else if py_lower (path_suffix name) \<noteq> ''.json'' then None else Some name)"

definition sidecar_path_for :: "string \<Rightarrow> string" where
  "sidecar_path_for chat = path_stem chat @ ''.state.json''"

definition summary_path_for :: "string \<Rightarrow> string" where
  "summary_path_for chat = path_stem chat @ ''.summary.json''"

definition facts_path_for :: "string \<Rightarrow> string" where
  "facts_path_for chat = path_stem chat @ ''.facts.json''"

definition resolve_sidecar_path :: "string \<Rightarrow> string option" where
  "resolve_sidecar_path s = map_option sidecar_path_for (resolve_chat_path s)"

definition resolve_summary_path :: "string \<Rightarrow> string option" where
  "resolve_summary_path s = map_option summary_path_for (resolve_chat_path s)"

definition resolve_facts_path :: "string \<Rightarrow> string option" where
  "resolve_facts_path s = map_option facts_path_for (resolve_chat_path s)"

definition session_name_from_sidecar :: "string \<Rightarrow> string" where
  "session_name_from_sidecar name =
     (if endswith name ''.state.json'' then removesuffix name ''.state.json'' @ ''.json'' else name)"

text \<open>The live session is a plain file name.\<close>

definition is_live_session :: "string \<Rightarrow> string \<Rightarrow> bool" where
  "is_live_session source_session live_session =
     (live_session \<noteq> [] \<and> (case resolve_chat_path source_session of None \<Rightarrow> False | Some n \<Rightarrow> n = live_session))"

section \<open>The training gates of a record\<close>

definition capture_gated :: "(string \<Rightarrow> string) \<Rightarrow> (json \<Rightarrow> string) \<Rightarrow> jobj \<Rightarrow> bool" where
  "capture_gated sha rp r =
     (case jget r ''capture'' of
        JObj cap \<Rightarrow> jget cap ''response'' = JStr ''yields''
          \<and> jget cap ''target_sha'' = JStr (sha (fstr rp (py_or (jget r ''target'') (JStr []))))
      | _ \<Rightarrow> False)"

definition governor_held :: "(string \<Rightarrow> string) \<Rightarrow> (json \<Rightarrow> string) \<Rightarrow> jobj \<Rightarrow> bool" where
  "governor_held sha rp r =
     (case jget r ''governor'' of
        JObj gov \<Rightarrow> jget gov ''target_sha'' = JStr (sha (fstr rp (py_or (jget r ''target'') (JStr []))))
      | _ \<Rightarrow> False)"

definition held_out :: "jobj \<Rightarrow> bool" where
  "held_out r = is_obj (jget r ''holdout'')"

section \<open>Reading and writing documents\<close>

definition empty_doc :: "string \<Rightarrow> jobj" where
  "empty_doc source_session =
     [(''schema_version'', JInt 1), (''source_session'', JStr source_session), (''exchanges'', JObj [])]"

definition fix_doc :: "string \<Rightarrow> jobj \<Rightarrow> jobj" where
  "fix_doc source_session d =
     dsetdefault ''source_session'' (JStr source_session)
       (dsetdefault ''schema_version'' (JInt 1)
         (if is_obj (jget d ''exchanges'') then d else dset ''exchanges'' (JObj []) d))"

definition read_doc :: "string \<Rightarrow> json content \<Rightarrow> jobj" where
  "read_doc source_session c = (case c of
      Parsed (JObj d) \<Rightarrow> fix_doc source_session d | _ \<Rightarrow> empty_doc source_session)"

definition load :: "sidecar \<Rightarrow> string \<Rightarrow> jobj" where
  "load s source_session =
     (case resolve_sidecar_path source_session of
        None \<Rightarrow> empty_doc source_session
      | Some f \<Rightarrow>
          (case dget (main_dir s) f of
             Some c \<Rightarrow> read_doc source_session c
           | None \<Rightarrow>
               (case fallback_dir s of
                  None \<Rightarrow> empty_doc source_session
                | Some fb \<Rightarrow> (case dget fb f of None \<Rightarrow> empty_doc source_session | Some c \<Rightarrow> read_doc source_session c))))"

definition save :: "bool \<Rightarrow> sidecar \<Rightarrow> string \<Rightarrow> jobj \<Rightarrow> bool \<times> sidecar" where
  "save ok s f d =
     (if ok then (True, s\<lparr>main_dir := dset f (Parsed (JObj (dset ''schema_version'' (JInt 1) d))) (main_dir s)\<rparr>)
      else (False, s))"

definition exchanges_of :: "jobj \<Rightarrow> jobj" where
  "exchanges_of d = obj_of (jget d ''exchanges'')"

definition get_exchange :: "sidecar \<Rightarrow> string \<Rightarrow> int \<Rightarrow> jobj option" where
  "get_exchange s source_session i =
     (case jget (exchanges_of (load s source_session)) (int_str i) of JObj r \<Rightarrow> Some r | _ \<Rightarrow> None)"

definition stage_of :: "sidecar \<Rightarrow> string \<Rightarrow> int \<Rightarrow> int" where
  "stage_of s source_session i =
     (case get_exchange s source_session i of
        None \<Rightarrow> 0 | Some r \<Rightarrow> stage_int (jget_or r ''stage'' (JInt 0)))"

definition is_reflected :: "sidecar \<Rightarrow> string \<Rightarrow> bool" where
  "is_reflected s source_session = truthy (jget (load s source_session) ''reflected_at'')"

definition is_chat_reflected :: "sidecar \<Rightarrow> string \<Rightarrow> bool" where
  "is_chat_reflected s source_session = truthy (jget (load s source_session) ''chat_reflected'')"

text \<open>The exchange indices whose record has a true flag: the banned and the locked ones.\<close>

definition flagged_indices :: "string \<Rightarrow> sidecar \<Rightarrow> string \<Rightarrow> int set" where
  "flagged_indices flag s source_session =
     set (List.map_filter (\<lambda>(k, v). case v of JObj r \<Rightarrow> if truthy (jget r flag) then str_int k else None | _ \<Rightarrow> None)
       (exchanges_of (load s source_session)))"

definition banned_exchange_indices :: "sidecar \<Rightarrow> string \<Rightarrow> int set" where
  "banned_exchange_indices = flagged_indices ''banned''"

definition locked_exchange_indices :: "sidecar \<Rightarrow> string \<Rightarrow> int set" where
  "locked_exchange_indices = flagged_indices ''locked''"

section \<open>Writes of the reflection layer\<close>

record verdict_args =
  va_session :: string
  va_index :: int
  va_verdict :: string
  va_target :: string
  va_run_id :: string
  va_user_prompt :: string
  va_target_source :: string
  va_target_kind :: string
  va_target_generation :: string
  va_persona_context :: string
  va_locked :: bool
  va_live_session :: string

definition or_prev :: "string \<Rightarrow> jobj \<Rightarrow> string \<Rightarrow> json" where
  "or_prev v prev x = (if v \<noteq> [] then JStr v else jget_or prev x (JStr []))"

definition carry_obj :: "string \<Rightarrow> jobj \<Rightarrow> jobj \<Rightarrow> jobj" where
  "carry_obj x prev r = (if is_obj (jget prev x) then dset x (jget prev x) r else r)"

definition verdict_record :: "string \<Rightarrow> verdict_args \<Rightarrow> string \<Rightarrow> jobj \<Rightarrow> jobj" where
  "verdict_record ts a tgt prev =
     (let r0 = [(''stage'', jget_or prev ''stage'' (JInt 0)),
                (''verdict'', JStr (py_lower (py_strip (va_verdict a)))),
                (''target'', JStr tgt),
                (''user_prompt'', or_prev (va_user_prompt a) prev ''user_prompt''),
                (''target_source'', or_prev (va_target_source a) prev ''target_source''),
                (''target_kind'', or_prev (va_target_kind a) prev ''target_kind''),
                (''target_generation'', or_prev (va_target_generation a) prev ''target_generation''),
                (''persona_context'', JStr (va_persona_context a)),
                (''run_id'', JStr (va_run_id a)),
                (''last_reflected'', JStr ts),
                (''last_trained'', jget prev ''last_trained''),
                (''locked'', JBool (va_locked a \<or> truthy (jget prev ''locked''))),
                (''banned'', JBool (truthy (jget prev ''banned'')))];
          r1 = carry_obj ''holdout'' prev (carry_obj ''governor'' prev (carry_obj ''capture'' prev r0))
      in if truthy (jget prev ''banned'') \<and> truthy (jget prev ''history_only'')
         then dset ''history_only'' (JBool True) r1 else r1)"

definition prev_record :: "jobj \<Rightarrow> int \<Rightarrow> jobj" where
  "prev_record d i = obj_of (jget (exchanges_of d) (int_str i))"

definition put_exchange :: "jobj \<Rightarrow> int \<Rightarrow> jobj \<Rightarrow> jobj" where
  "put_exchange d i r = dset ''exchanges'' (JObj (dset (int_str i) (JObj r) (exchanges_of d))) d"

definition log_event :: "ledger_event \<Rightarrow> bool \<times> sidecar \<Rightarrow> bool \<times> sidecar" where
  "log_event e p = (case p of (ok, s) \<Rightarrow> (ok, if ok then s\<lparr>ledger_events := ledger_events s @ [e]\<rparr> else s))"

definition write_verdict ::
  "bool \<Rightarrow> string \<Rightarrow> (string \<Rightarrow> string) \<Rightarrow> verdict_args \<Rightarrow> sidecar \<Rightarrow> bool \<times> sidecar" where
  "write_verdict ok ts repair a s =
     (if va_target_source a = ''revised_missing_ideal'' \<or> py_strip (va_target a) = [] then (False, s)
      else let tgt = repair (va_target a) in
        if is_live_session (va_session a) (va_live_session a) then (False, s)
        else case resolve_sidecar_path (va_session a) of
            None \<Rightarrow> (False, s)
          | Some f \<Rightarrow>
              let d = load s (va_session a);
                  prev = prev_record d (va_index a);
                  r = verdict_record ts a tgt prev
              in log_event (Verdict_Event (va_session a) (va_index a) r prev)
                   (save ok s f (put_exchange d (va_index a) r)))"

definition write_anchor ::
  "bool \<Rightarrow> string \<Rightarrow> string \<Rightarrow> int \<Rightarrow> string \<Rightarrow> string list \<Rightarrow> string \<Rightarrow> string \<Rightarrow> string
   \<Rightarrow> sidecar \<Rightarrow> bool \<times> sidecar" where
  "write_anchor ok ts source_session i about tags run_id generation live s =
     (let about = py_strip about; tags = filter (\<lambda>t. py_strip t \<noteq> []) tags in
      if about = [] \<and> tags = [] then (False, s)
      else if is_live_session source_session live then (False, s)
      else case resolve_sidecar_path source_session of
          None \<Rightarrow> (False, s)
        | Some f \<Rightarrow>
            let d = load s source_session;
                anchors = obj_of (jget d ''anchors'');
                a = [(''about'', JStr about), (''tags'', JList (List.map JStr tags)),
                     (''generation'', JStr generation), (''run_id'', JStr run_id), (''ts'', JStr ts)]
            in save ok s f (dset ''anchors'' (JObj (dset (int_str i) (JObj a) anchors)) d))"

definition set_exchange_locked :: "bool \<Rightarrow> string \<Rightarrow> int \<Rightarrow> bool \<Rightarrow> sidecar \<Rightarrow> bool \<times> sidecar" where
  "set_exchange_locked ok source_session i locked s =
     (case resolve_sidecar_path source_session of
        None \<Rightarrow> (False, s)
      | Some f \<Rightarrow>
          if dget (main_dir s) f = None then (False, s)
          else let d = load s source_session in
            case jget (exchanges_of d) (int_str i) of
              JObj r \<Rightarrow> log_event (Flag_Event ''lock'' source_session i locked)
                          (save ok s f (put_exchange d i (dset ''locked'' (JBool locked) r)))
            | _ \<Rightarrow> (False, s))"

definition new_ban_record :: "string \<Rightarrow> jobj" where
  "new_ban_record ts =
     [(''stage'', JInt 0), (''verdict'', JStr []), (''target'', JStr []), (''user_prompt'', JStr []),
      (''target_source'', JStr []), (''run_id'', JStr ''training-review-ban''),
      (''last_reflected'', JStr ts), (''last_trained'', JNull)]"

definition set_exchange_banned ::
  "bool \<Rightarrow> string \<Rightarrow> string \<Rightarrow> int \<Rightarrow> bool \<Rightarrow> bool \<Rightarrow> sidecar \<Rightarrow> bool \<times> sidecar" where
  "set_exchange_banned ok ts source_session i banned history_only s =
     (case resolve_sidecar_path source_session of
        None \<Rightarrow> (False, s)
      | Some f \<Rightarrow>
          let d = load s source_session;
              r = (case jget (exchanges_of d) (int_str i) of JObj r \<Rightarrow> r | _ \<Rightarrow> new_ban_record ts);
              was_history = truthy (jget r ''banned'') \<and> truthy (jget r ''history_only'');
              r' = (if banned
                    then let r1 = dset ''banned'' (JBool True) r in
                      if history_only then dset ''history_only'' (JBool True) r1 else dpop ''history_only'' r1
                    else dpop ''history_only'' (dpop ''banned'' r));
              res = log_event (Flag_Event ''ban'' source_session i banned) (save ok s f (put_exchange d i r'));
              now_history = banned \<and> history_only
          in if now_history \<noteq> was_history
             then log_event (Flag_Event ''history_only'' source_session i now_history) res else res)"

text \<open>\<open>found\<close> is the record of an exchange, when the document has one.\<close>

definition found :: "sidecar \<Rightarrow> string \<Rightarrow> int \<Rightarrow> jobj option" where
  "found s source_session i =
     (case jget (exchanges_of (load s source_session)) (int_str i) of JObj r \<Rightarrow> Some r | _ \<Rightarrow> None)"

text \<open>Setting or clearing one object-valued field; an unchanged record is not rewritten.\<close>

definition set_field ::
  "bool \<Rightarrow> string \<Rightarrow> string \<Rightarrow> int \<Rightarrow> jobj option \<Rightarrow> jobj \<Rightarrow> sidecar \<Rightarrow> string \<Rightarrow> bool \<times> sidecar" where
  "set_field ok x source_session i v r s f =
     (case v of
        Some o' \<Rightarrow>
          if json_eq (jget r x) (JObj o') then (True, s)
          else save ok s f (put_exchange (load s source_session) i (dset x (JObj o') r))
      | None \<Rightarrow>
          if dget r x = None then (True, s)
          else save ok s f (put_exchange (load s source_session) i (dpop x r)))"

definition set_capture_gate ::
  "bool \<Rightarrow> (string \<Rightarrow> string) \<Rightarrow> (json \<Rightarrow> string) \<Rightarrow> string \<Rightarrow> int \<Rightarrow> jobj option \<Rightarrow> sidecar \<Rightarrow> bool \<times> sidecar" where
  "set_capture_gate ok sha rp source_session i gate s =
     (case resolve_sidecar_path source_session of
        None \<Rightarrow> (False, s)
      | Some f \<Rightarrow>
          (case found s source_session i of
             None \<Rightarrow> (False, s)
           | Some r \<Rightarrow>
               (case gate of
                  Some g \<Rightarrow>
                    if jget g ''target_sha'' \<noteq> JStr (sha (fstr rp (py_or (jget r ''target'') (JStr []))))
                    then (False, s)
                    else set_field ok ''capture'' source_session i gate r s f
                | None \<Rightarrow> set_field ok ''capture'' source_session i gate r s f)))"

definition set_record_field ::
  "bool \<Rightarrow> string \<Rightarrow> int \<Rightarrow> string \<Rightarrow> jobj option \<Rightarrow> sidecar \<Rightarrow> bool \<times> sidecar" where
  "set_record_field ok source_session i name v s =
     (case resolve_sidecar_path source_session of
        None \<Rightarrow> (False, s)
      | Some f \<Rightarrow> (case found s source_session i of
            None \<Rightarrow> (False, s) | Some r \<Rightarrow> set_field ok name source_session i v r s f))"

definition set_holdout :: "bool \<Rightarrow> string \<Rightarrow> int \<Rightarrow> jobj option \<Rightarrow> sidecar \<Rightarrow> bool \<times> sidecar" where
  "set_holdout ok source_session i holdout s =
     (case resolve_sidecar_path source_session of
        None \<Rightarrow> (False, s)
      | Some f \<Rightarrow>
          if dget (main_dir s) f = None then (False, s)
          else case found s source_session i of
              None \<Rightarrow> (False, s)
            | Some r \<Rightarrow>
                if (case holdout of Some h \<Rightarrow> json_eq (jget r ''holdout'') (JObj h) | None \<Rightarrow> dget r ''holdout'' = None)
                then (True, s)
                else log_event (Flag_Event ''holdout'' source_session i (holdout \<noteq> None))
                       (set_field ok ''holdout'' source_session i holdout r s f))"

definition repair_target ::
  "bool \<Rightarrow> string \<Rightarrow> string \<Rightarrow> (string \<Rightarrow> string) \<Rightarrow> (json \<Rightarrow> string) \<Rightarrow> string \<Rightarrow> int \<Rightarrow> string \<Rightarrow> string
   \<Rightarrow> sidecar \<Rightarrow> bool \<times> sidecar" where
  "repair_target ok ts today sha rp source_session i new_target reason s =
     (case resolve_sidecar_path source_session of
        None \<Rightarrow> (False, s)
      | Some f \<Rightarrow>
          if py_strip new_target = [] then (False, s)
          else case found s source_session i of
              None \<Rightarrow> (False, s)
            | Some r \<Rightarrow>
                let old = fstr rp (py_or (jget r ''target'') (JStr [])) in
                if old = new_target then (True, s)
                else
                  let r1 = (case jget r ''capture'' of
                        JObj cap \<Rightarrow>
                          if jget cap ''target_sha'' = JStr (sha old)
                          then dset ''capture'' (JObj
                                 (dmerge cap [(''target_sha'', JStr (sha new_target)),
                                     (''target_sha_rebound_from'', jget cap ''target_sha''),
                                     (''rebound_reason'', JStr (reason @ '' '' @ today))])) r
                          else r
                      | _ \<Rightarrow> r);
                      history = (case jget r ''text_repairs'' of JList xs \<Rightarrow> xs | _ \<Rightarrow> []);
                      r2 = dset ''text_repairs'' (JList (history @
                             [JObj [(''at'', JStr ts), (''reason'', JStr reason), (''prev_target'', JStr old)]])) r1
                  in save ok s f (put_exchange (load s source_session) i (dset ''target'' (JStr new_target) r2)))"

text \<open>The new key of a record after exchange \<open>n\<close> is deleted; \<open>None\<close> is the deleted one itself.\<close>

definition shift_step :: "int \<Rightarrow> jobj \<times> bool \<Rightarrow> string \<times> json \<Rightarrow> jobj \<times> bool" where
  "shift_step n = (\<lambda>(shifted, touched) (k, r).
     case str_int k of
       None \<Rightarrow> (dset k r shifted, touched)
     | Some idx \<Rightarrow>
         if idx = n then (shifted, True)
         else (dset (int_str (if n < idx then idx - 1 else idx)) r shifted, touched \<or> n < idx))"

definition shift_table :: "int \<Rightarrow> jobj \<Rightarrow> jobj \<times> bool" where
  "shift_table n t = foldl (shift_step n) ([], False) t"

definition drop_field :: "int \<Rightarrow> string \<Rightarrow> jobj \<times> bool \<Rightarrow> jobj \<times> bool" where
  "drop_field n x = (\<lambda>(d, touched).
     case jget d x of
       JObj t \<Rightarrow> (case shift_table n t of (t', b) \<Rightarrow> (dset x (JObj t') d, touched \<or> b))
     | _ \<Rightarrow> (d, touched))"

definition drop_exchange :: "bool \<Rightarrow> string \<Rightarrow> int \<Rightarrow> sidecar \<Rightarrow> bool \<times> sidecar" where
  "drop_exchange ok source_session n s =
     (case resolve_sidecar_path source_session of
        None \<Rightarrow> (False, s)
      | Some f \<Rightarrow>
          if dget (main_dir s) f = None then (False, s)
          else case drop_field n ''anchors'' (drop_field n ''exchanges'' (load s source_session, False)) of
              (d, touched) \<Rightarrow> if touched then save ok s f d else (False, s))"

section \<open>Writes of the training layer\<close>

definition advance_one :: "string \<Rightarrow> nat \<times> jobj \<Rightarrow> int \<Rightarrow> nat \<times> jobj" where
  "advance_one ts = (\<lambda>(n, d) i.
     case jget (exchanges_of d) (int_str i) of
       JObj r \<Rightarrow> (n + 1, put_exchange d i (dset ''last_trained'' (JStr ts)
                   (dset ''stage'' (JInt (stage_int (jget_or r ''stage'' (JInt 0)) + 1)) r)))
     | _ \<Rightarrow> (n, d))"

definition advance_stages :: "bool \<Rightarrow> string \<Rightarrow> string \<Rightarrow> int list \<Rightarrow> sidecar \<Rightarrow> nat \<times> sidecar" where
  "advance_stages ok ts source_session idxs s =
     (case resolve_sidecar_path source_session of
        None \<Rightarrow> (0, s)
      | Some f \<Rightarrow>
          (case foldl (advance_one ts) (0, load s source_session) idxs of
             (n, d) \<Rightarrow> (n, if n = 0 then s else snd (save ok s f d))))"

definition import_exchange ::
  "bool \<Rightarrow> string \<Rightarrow> string \<Rightarrow> int \<Rightarrow> int \<Rightarrow> string \<Rightarrow> string \<Rightarrow> string \<Rightarrow> string \<Rightarrow> string \<Rightarrow> json
   \<Rightarrow> sidecar \<Rightarrow> bool \<times> sidecar" where
  "import_exchange ok ts source_session i stage verdict tgt user_prompt target_source run_id last_trained s =
     (if py_strip tgt = [] then (False, s)
      else if get_exchange s source_session i \<noteq> None then (False, s)
      else case resolve_sidecar_path source_session of
          None \<Rightarrow> (False, s)
        | Some f \<Rightarrow>
            let r = [(''stage'', JInt (max 0 stage)), (''verdict'', JStr (py_lower (py_strip verdict))),
                     (''target'', JStr tgt), (''user_prompt'', JStr user_prompt),
                     (''target_source'', JStr (if target_source \<noteq> [] then target_source
                        else if verdict = ''revise'' then ''revised'' else ''original'')),
                     (''run_id'', JStr run_id), (''last_reflected'', JStr ts), (''last_trained'', last_trained)]
            in save ok s f (put_exchange (load s source_session) i r))"

fun advance_by_session ::
  "bool \<Rightarrow> string \<Rightarrow> (string \<times> int list) list \<Rightarrow> sidecar \<Rightarrow> nat \<times> sidecar" where
  "advance_by_session ok ts [] s = (0, s)"
| "advance_by_session ok ts ((session, idxs) # rest) s =
     (let (n, s1) = advance_stages ok ts session idxs s;
          (m, s2) = advance_by_session ok ts rest s1 in (n + m, s2))"

text \<open>The two stamps of the freeze are set once.\<close>

definition stamp_once :: "string \<Rightarrow> bool \<Rightarrow> string \<Rightarrow> string \<Rightarrow> sidecar \<Rightarrow> bool \<times> sidecar" where
  "stamp_once x ok stamp source_session s =
     (case resolve_sidecar_path source_session of
        None \<Rightarrow> (False, s)
      | Some f \<Rightarrow>
          let d = load s source_session in
          if truthy (jget d x) then (True, s) else save ok s f (dset x (JStr stamp) d))"

definition mark_reflected :: "bool \<Rightarrow> string \<Rightarrow> string \<Rightarrow> sidecar \<Rightarrow> bool \<times> sidecar" where
  "mark_reflected = stamp_once ''reflected_at''"

definition mark_chat_reflected :: "bool \<Rightarrow> string \<Rightarrow> string \<Rightarrow> sidecar \<Rightarrow> bool \<times> sidecar" where
  "mark_chat_reflected = stamp_once ''chat_reflected''"

definition clear_reflection_freeze :: "bool \<Rightarrow> string \<Rightarrow> sidecar \<Rightarrow> bool \<times> sidecar" where
  "clear_reflection_freeze ok source_session s =
     (case resolve_sidecar_path source_session of
        None \<Rightarrow> (False, s)
      | Some f \<Rightarrow>
          let d = load s source_session in
          if \<not> (truthy (jget d ''reflected_at'') \<or> truthy (jget d ''chat_reflected'')) then (False, s)
          else save ok s f (dpop ''chat_reflected'' (dpop ''reflected_at'' d)))"

section \<open>The document store as an interface\<close>

text \<open>
  What the operations above need of reading and writing documents: a write is seen by the next read of
  the same session, read through the normal form of documents, by no other session, and a failed write
  changes nothing.
\<close>

locale doc_store =
  fixes load_doc :: "'s \<Rightarrow> string \<Rightarrow> jobj"
    and save_doc :: "bool \<Rightarrow> 's \<Rightarrow> string \<Rightarrow> jobj \<Rightarrow> bool \<times> 's"
    and addr :: "string \<Rightarrow> string option"
    and normal :: "jobj \<Rightarrow> bool"
    and stamped :: "jobj \<Rightarrow> jobj"
  assumes load_saved: "addr x = Some f \<Longrightarrow> normal d \<Longrightarrow> load_doc (snd (save_doc True s f d)) x = stamped d"
    and load_other: "addr y \<noteq> Some f \<Longrightarrow> load_doc (snd (save_doc ok s f d)) y = load_doc s y"
    and save_result: "fst (save_doc ok s f d) = ok"
    and save_failed: "snd (save_doc False s f d) = s"
    and load_normal: "normal (load_doc s x)"
begin

text \<open>Read, change, write back: the shape of every write.\<close>

definition update :: "bool \<Rightarrow> 's \<Rightarrow> string \<Rightarrow> (jobj \<Rightarrow> jobj) \<Rightarrow> bool \<times> 's" where
  "update ok s x g = (case addr x of None \<Rightarrow> (False, s) | Some f \<Rightarrow> save_doc ok s f (g (load_doc s x)))"

lemma update_result: "fst (update ok s x g) \<longleftrightarrow> ok \<and> addr x \<noteq> None"
  by (auto simp: update_def save_result split: option.splits)

lemma update_read:
  "addr x \<noteq> None \<Longrightarrow> normal (g (load_doc s x)) \<Longrightarrow> load_doc (snd (update True s x g)) x = stamped (g (load_doc s x))"
  by (auto simp: update_def load_saved)

lemma update_frame: "addr y \<noteq> addr x \<Longrightarrow> load_doc (snd (update ok s x g)) y = load_doc s y"
  by (auto simp: update_def load_other split: option.splits)

lemma update_failed: "\<not> fst (update ok s x g) \<Longrightarrow> snd (update ok s x g) = s"
  by (cases ok) (auto simp: update_def save_result save_failed split: option.splits)

end

definition normal_doc :: "jobj \<Rightarrow> bool" where
  "normal_doc d = (is_obj (jget d ''exchanges'') \<and> dget d ''schema_version'' \<noteq> None
     \<and> dget d ''source_session'' \<noteq> None)"

definition stamped :: "jobj \<Rightarrow> jobj" where
  "stamped d = dset ''schema_version'' (JInt 1) d"

lemma normal_fix: "normal_doc d \<Longrightarrow> fix_doc x (stamped d) = stamped d"
  by (auto simp: normal_doc_def fix_doc_def dsetdefault_def stamped_def split: option.splits)

lemma normal_fix_doc: "normal_doc (fix_doc x d)"
  by (auto simp: normal_doc_def fix_doc_def jget_eq)

lemma normal_empty: "normal_doc (empty_doc x)"
  by (simp add: normal_doc_def empty_doc_def)

lemma normal_load: "normal_doc (load s x)"
  unfolding load_def read_doc_def
  by (auto simp: normal_empty normal_fix_doc split: option.splits content.splits json.splits)

interpretation docs: doc_store load save resolve_sidecar_path normal_doc stamped
proof unfold_locales
  fix x f d s ok y
  show "resolve_sidecar_path x = Some f \<Longrightarrow> normal_doc d \<Longrightarrow> load (snd (save True s f d)) x = stamped d"
    using normal_fix [of d x] by (simp add: load_def save_def read_doc_def stamped_def)
  show "resolve_sidecar_path y \<noteq> Some f \<Longrightarrow> load (snd (save ok s f d)) y = load s y"
    by (auto simp: load_def save_def split: option.splits)
  show "fst (save ok s f d) = ok" "snd (save False s f d) = s" by (simp_all add: save_def)
  show "normal_doc (load s x)" by (rule normal_load)
qed

lemma normal_put: "normal_doc d \<Longrightarrow> normal_doc (put_exchange d i r)"
  by (simp add: normal_doc_def put_exchange_def)

lemma exchanges_stamped [simp]: "exchanges_of (stamped d) = exchanges_of d"
  by (simp add: exchanges_of_def stamped_def)

lemma exchanges_put [simp]: "exchanges_of (put_exchange d i r) = dset (int_str i) (JObj r) (exchanges_of d)"
  by (simp add: exchanges_of_def put_exchange_def)

lemma load_log_event [simp]: "load (snd (log_event e p)) x = load (snd p) x"
  by (cases p) (auto simp: log_event_def load_def split: option.splits)

lemma fst_log_event [simp]: "fst (log_event e p) = fst p"
  by (cases p) (simp add: log_event_def)

lemma found_eq: "found s x i = (case jget (exchanges_of (load s x)) (int_str i) of JObj r \<Rightarrow> Some r | _ \<Rightarrow> None)"
  by (simp add: found_def)

lemma get_exchange_found: "get_exchange s x i = found s x i"
  by (simp add: get_exchange_def found_def)

lemma prev_record_found: "prev_record (load s x) i = (case found s x i of None \<Rightarrow> [] | Some r \<Rightarrow> r)"
  by (cases "jget (exchanges_of (load s x)) (int_str i)") (simp_all add: prev_record_def found_def)

text \<open>One exchange record written: what every other reader sees.\<close>

lemma update_exchange:
  fixes s :: sidecar and x :: string
  assumes "fst (docs.update ok s x (\<lambda>d. put_exchange d i (r d)))"
  defines "s' \<equiv> snd (docs.update ok s x (\<lambda>d. put_exchange d i (r d)))"
  shows "found s' x i = Some (r (load s x))" "j \<noteq> i \<Longrightarrow> found s' x j = found s x j"
    "k \<notin> {''exchanges'', ''schema_version''} \<Longrightarrow> jget (load s' x) k = jget (load s x) k"
    "resolve_sidecar_path y \<noteq> resolve_sidecar_path x \<Longrightarrow> load s' y = load s y"
proof -
  have ok: "ok" "resolve_sidecar_path x \<noteq> None" using assms(1) by (simp_all add: docs.update_result)
  have l: "load s' x = stamped (put_exchange (load s x) i (r (load s x)))"
    using docs.update_read [OF ok(2), of "\<lambda>d. put_exchange d i (r d)" s] normal_put [OF normal_load] ok(1)
    by (simp add: s'_def)
  show "found s' x i = Some (r (load s x))" "j \<noteq> i \<Longrightarrow> found s' x j = found s x j"
    by (simp_all add: found_def l)
  show "k \<notin> {''exchanges'', ''schema_version''} \<Longrightarrow> jget (load s' x) k = jget (load s x) k"
    by (simp add: l stamped_def put_exchange_def)
  show "resolve_sidecar_path y \<noteq> resolve_sidecar_path x \<Longrightarrow> load s' y = load s y"
    unfolding s'_def by (rule docs.update_frame)
qed

lemma write_verdict_update:
  assumes "fst (write_verdict ok ts repair a s)"
  shows "load (snd (write_verdict ok ts repair a s)) y =
      load (snd (docs.update ok s (va_session a) (\<lambda>d. put_exchange d (va_index a)
        (verdict_record ts a (repair (va_target a)) (prev_record d (va_index a)))))) y"
    and "fst (docs.update ok s (va_session a) (\<lambda>d. put_exchange d (va_index a)
        (verdict_record ts a (repair (va_target a)) (prev_record d (va_index a)))))"
  using assms by (auto simp: write_verdict_def docs.update_def Let_def split: if_splits option.splits)

section \<open>Properties\<close>

lemma jget_carry: "jget (carry_obj x prev r) y = (if y = x \<and> is_obj (jget prev x) then jget prev x else jget r y)"
  by (simp add: carry_obj_def)

lemma verdict_record_fields:
  "jget (verdict_record ts a tgt prev) ''target'' = JStr tgt"
  "jget_or (verdict_record ts a tgt prev) ''stage'' (JInt 0) = jget_or prev ''stage'' (JInt 0)"
  "jget (verdict_record ts a tgt prev) ''locked'' = JBool (va_locked a \<or> truthy (jget prev ''locked''))"
  "jget (verdict_record ts a tgt prev) ''banned'' = JBool (truthy (jget prev ''banned''))"
  "is_obj (jget prev ''holdout'') \<Longrightarrow> jget (verdict_record ts a tgt prev) ''holdout'' = jget prev ''holdout''"
  "is_obj (jget prev ''capture'') \<Longrightarrow> jget (verdict_record ts a tgt prev) ''capture'' = jget prev ''capture''"
  "is_obj (jget prev ''governor'') \<Longrightarrow> jget (verdict_record ts a tgt prev) ''governor'' = jget prev ''governor''"
  "jget (verdict_record ts a tgt prev) ''last_trained'' = jget prev ''last_trained''"
  "truthy (jget (verdict_record ts a tgt prev) ''history_only'') =
     (truthy (jget prev ''banned'') \<and> truthy (jget prev ''history_only''))"
  by (simp_all add: verdict_record_def Let_def carry_obj_def)

lemma write_verdict_logs:
  assumes "fst (write_verdict ok ts repair a s)"
  shows "ledger_events (snd (write_verdict ok ts repair a s)) = ledger_events s @
    [Verdict_Event (va_session a) (va_index a)
      (verdict_record ts a (repair (va_target a)) (prev_record (load s (va_session a)) (va_index a)))
      (prev_record (load s (va_session a)) (va_index a))]"
  using assms by (auto simp: write_verdict_def log_event_def save_def Let_def split: if_splits option.splits)

text \<open>C9: a new verdict never lifts a curation. Writing a verdict over an existing record replaces the
  target and keeps the stage, the time of the last training, the operator's ban and its kind, the hold-out and
  the gates of the judges; a lock once set stays set. Of the session's document every other exchange and
  every other field (the freeze stamps, the anchors, the chat summary) is as it was, and so is every other
  session's document; the revisions ledger gains one event, with the record before and after.\<close>

theorem verdict_keeps_curation:
  assumes "fst (write_verdict ok ts repair a s)" "found s (va_session a) (va_index a) = Some prev"
  shows "\<exists>r. found (snd (write_verdict ok ts repair a s)) (va_session a) (va_index a) = Some r
    \<and> jget r ''target'' = JStr (repair (va_target a))
    \<and> jget_or r ''stage'' (JInt 0) = jget_or prev ''stage'' (JInt 0)
    \<and> jget r ''last_trained'' = jget prev ''last_trained''
    \<and> truthy (jget r ''banned'') = truthy (jget prev ''banned'')
    \<and> truthy (jget r ''history_only'') = (truthy (jget prev ''banned'') \<and> truthy (jget prev ''history_only''))
    \<and> truthy (jget r ''locked'') = (va_locked a \<or> truthy (jget prev ''locked''))
    \<and> (\<forall>x \<in> {''holdout'', ''capture'', ''governor''}. is_obj (jget prev x) \<longrightarrow> jget r x = jget prev x)
    \<and> (\<forall>j. j \<noteq> va_index a \<longrightarrow>
         found (snd (write_verdict ok ts repair a s)) (va_session a) j = found s (va_session a) j)
    \<and> (\<forall>x. x \<notin> {''exchanges'', ''schema_version''} \<longrightarrow>
         jget (load (snd (write_verdict ok ts repair a s)) (va_session a)) x = jget (load s (va_session a)) x)
    \<and> (\<forall>y. resolve_sidecar_path y \<noteq> resolve_sidecar_path (va_session a) \<longrightarrow>
         load (snd (write_verdict ok ts repair a s)) y = load s y)
    \<and> ledger_events (snd (write_verdict ok ts repair a s)) =
        ledger_events s @ [Verdict_Event (va_session a) (va_index a) r prev]"
proof -
  note upd = write_verdict_update(1) [OF assms(1)]
  let ?s' = "snd (write_verdict ok ts repair a s)"
  let ?u = "snd (docs.update ok s (va_session a) (\<lambda>d. put_exchange d (va_index a)
        (verdict_record ts a (repair (va_target a)) (prev_record d (va_index a)))))"
  have fnd: "found ?s' x j = found ?u x j" for x j by (simp add: found_def upd)
  let ?r = "verdict_record ts a (repair (va_target a)) prev"
  have r: "found ?s' (va_session a) (va_index a) = Some ?r"
    using update_exchange(1) [OF write_verdict_update(2) [OF assms(1)]] assms(2)
    by (simp add: fnd prev_record_found)
  have other: "found ?s' (va_session a) j = found s (va_session a) j" if "j \<noteq> va_index a" for j
    using update_exchange(2) [OF write_verdict_update(2) [OF assms(1)] that] by (simp add: fnd)
  have fields: "jget (load ?s' (va_session a)) x = jget (load s (va_session a)) x"
    if "x \<notin> {''exchanges'', ''schema_version''}" for x
    unfolding upd by (rule update_exchange(3) [OF write_verdict_update(2) [OF assms(1)] that])
  have frame: "load ?s' y = load s y" if "resolve_sidecar_path y \<noteq> resolve_sidecar_path (va_session a)" for y
    unfolding upd by (rule update_exchange(4) [OF write_verdict_update(2) [OF assms(1)] that])
  have event: "ledger_events ?s' = ledger_events s @ [Verdict_Event (va_session a) (va_index a) ?r prev]"
    using write_verdict_logs [OF assms(1)] assms(2) by (simp add: prev_record_found)
  show ?thesis
  proof (intro exI [of _ ?r] conjI allI impI)
    show "\<forall>x \<in> {''holdout'', ''capture'', ''governor''}. is_obj (jget prev x) \<longrightarrow> jget ?r x = jget prev x"
      by (simp add: verdict_record_fields)
  qed (simp_all only: r other fields frame event verdict_record_fields truthy.simps simp_thms)
qed

definition sample_sidecar :: sidecar where
  "sample_sidecar = \<lparr>main_dir = [(''a.state.json'', Parsed (JObj
      [(''exchanges'', JObj [(''0'', JObj [(''stage'', JInt 2), (''target'', JStr ''t0''), (''banned'', JBool True)]),
                             (''1'', JObj [(''stage'', JInt 0), (''target'', JStr ''t1'')])])]))],
     fallback_dir = None, ledger_events = []\<rparr>"

definition sample_verdict :: verdict_args where
  "sample_verdict = \<lparr>va_session = ''a.json'', va_index = 0, va_verdict = '' Keep '', va_target = ''new'',
     va_run_id = ''r'', va_user_prompt = [], va_target_source = ''revised'', va_target_kind = [],
     va_target_generation = [], va_persona_context = [], va_locked = False, va_live_session = ''b.json''\<rparr>"

lemma sample_found: "found sample_sidecar ''a.json'' 0 =
    Some [(''stage'', JInt 2), (''target'', JStr ''t0''), (''banned'', JBool True)]"
  by code_simp

theorem verdict_keeps_curation_witness:
  "\<exists>r. found (snd (write_verdict True ''now'' id sample_verdict sample_sidecar)) ''a.json'' 0 = Some r
    \<and> jget r ''target'' = JStr ''new'' \<and> truthy (jget r ''banned'')"
proof -
  have ok: "fst (write_verdict True ''now'' id sample_verdict sample_sidecar)" by code_simp
  have "found sample_sidecar (va_session sample_verdict) (va_index sample_verdict) =
      Some [(''stage'', JInt 2), (''target'', JStr ''t0''), (''banned'', JBool True)]"
    using sample_found by (simp add: sample_verdict_def)
  from verdict_keeps_curation [OF ok this] show ?thesis by (auto simp: sample_verdict_def)
qed

text \<open>The transcript being written is off limits. For the live session no verdict and no anchor is
  stored, whatever they carry: the call reports failure and nothing changes.\<close>

theorem live_session_untouched:
  assumes "resolve_chat_path live = Some live"
  shows "write_verdict ok ts repair (a\<lparr>va_session := live, va_live_session := live\<rparr>) s = (False, s)
    \<and> write_anchor ok ts live i about tags run_id gen live s = (False, s)"
proof -
  have "is_live_session live live"
    using assms by (auto simp: is_live_session_def resolve_chat_path_def Let_def split: if_splits)
  then show ?thesis by (simp add: write_verdict_def write_anchor_def Let_def)
qed

theorem live_session_untouched_witness:
  "write_anchor True ''t'' ''b.json'' 3 ''about'' [] ''r'' ''g'' ''b.json'' sample_sidecar = (False, sample_sidecar)"
proof -
  have "resolve_chat_path ''b.json'' = Some ''b.json''" by code_simp
  from live_session_untouched [OF this] show ?thesis by blast
qed

subsection \<open>Deleting an exchange\<close>

definition canonical_table :: "jobj \<Rightarrow> bool" where
  "canonical_table t = (distinct (dkeys t) \<and>
     list_all (\<lambda>k. case str_int k of Some i \<Rightarrow> k = int_str i | None \<Rightarrow> False) (dkeys t))"

lemma canonical_Cons:
  "canonical_table ((k, r) # t) \<Longrightarrow> \<exists>i. k = int_str i \<and> dget t (int_str i) = None \<and> canonical_table t"
  by (auto simp: canonical_table_def map_of_eq_None_iff split: option.splits)

lemma canonical_dset: "canonical_table t \<Longrightarrow> canonical_table (dset (int_str i) r t)"
  by (simp add: canonical_table_def dkeys_dset list_all_append distinct_update)

definition unshift :: "int \<Rightarrow> int \<Rightarrow> int" where
  "unshift n j = (if j < n then j else j + 1)"

lemma shift_table_get:
  assumes "canonical_table t"
  shows "dget (fst (foldl (shift_step n) (acc, b) t)) (int_str j) =
    (case dget t (int_str (unshift n j)) of Some r \<Rightarrow> Some r | None \<Rightarrow> dget acc (int_str j))"
  using assms
proof (induction t arbitrary: acc b)
  case (Cons kr t)
  obtain k r where kr: "kr = (k, r)" by (cases kr)
  obtain i where i: "k = int_str i" "dget t (int_str i) = None" "canonical_table t"
    using canonical_Cons Cons.prems unfolding kr by blast
  show ?case
  proof (cases "i = n")
    case True
    then have "i \<noteq> unshift n j" by (simp add: unshift_def)
    then show ?thesis using Cons.IH [OF i(3), of acc True] True by (simp add: kr i(1) shift_step_def)
  next
    case False
    let ?i = "if n < i then i - 1 else i"
    have eq: "?i = j \<longleftrightarrow> i = unshift n j" using False by (auto simp: unshift_def)
    have "foldl (shift_step n) (acc, b) (kr # t) =
        foldl (shift_step n) (dset (int_str ?i) r acc, b \<or> n < i) t"
      using False by (simp add: kr i(1) shift_step_def)
    then show ?thesis
      using Cons.IH [OF i(3), of "dset (int_str ?i) r acc" "b \<or> n < i"] i(2) eq
      by (auto simp: kr i(1) split: option.splits)
  qed
qed simp

lemma shift_table_found:
  "canonical_table t \<Longrightarrow> jget (fst (shift_table n t)) (int_str j) = jget t (int_str (unshift n j))"
  by (simp add: shift_table_def shift_table_get jget_eq split: option.splits)

lemma drop_field_get:
  assumes "x \<noteq> y"
  shows "jget (fst (drop_field n x p)) y = jget (fst p) y"
    "canonical_table (obj_of (jget (fst p) x)) \<Longrightarrow>
      jget (obj_of (jget (fst (drop_field n x p)) x)) (int_str j) = jget (obj_of (jget (fst p) x)) (int_str (unshift n j))"
  using assms
  by (cases p; cases "jget (fst p) x"; cases "shift_table n (obj_of (jget (fst p) x))";
      use shift_table_found [of "obj_of (jget (fst p) x)" n j] in \<open>simp add: drop_field_def\<close>)+

lemma drop_field_keys:
  "dget (fst p) z \<noteq> None \<Longrightarrow> dget (fst (drop_field n x p)) z \<noteq> None"
  "is_obj (jget (fst p) z) \<Longrightarrow> is_obj (jget (fst (drop_field n x p)) z)"
  by (cases p; cases "jget (fst p) x"; cases "shift_table n (obj_of (jget (fst p) x))";
      simp add: drop_field_def)+

text \<open>Deleting an exchange moves every later one down. After a successful deletion of exchange \<open>n\<close>, the
  record and the anchor found at each position are the ones that were there when it is before \<open>n\<close>, and
  the ones that were one position later otherwise; nothing of the deleted exchange is left.\<close>

theorem drop_exchange_renumbers:
  assumes "fst (drop_exchange ok x n s)"
    and "canonical_table (exchanges_of (load s x))" "canonical_table (obj_of (jget (load s x) ''anchors''))"
  shows "found (snd (drop_exchange ok x n s)) x j = found s x (if j < n then j else j + 1)
    \<and> jget (obj_of (jget (load (snd (drop_exchange ok x n s)) x) ''anchors'')) (int_str j)
      = jget (obj_of (jget (load s x) ''anchors'')) (int_str (if j < n then j else j + 1))"
proof -
  let ?p1 = "drop_field n ''exchanges'' (load s x, False)" let ?p2 = "drop_field n ''anchors'' ?p1"
  obtain f where f: "resolve_sidecar_path x = Some f" "ok" "drop_exchange ok x n s = save ok s f (fst ?p2)"
    using assms(1) by (auto simp: drop_exchange_def save_def split: option.splits if_splits prod.splits)
  have "normal_doc (fst ?p2)"
    using normal_load [of s x] unfolding normal_doc_def by (simp add: drop_field_keys)
  then have l: "load (snd (drop_exchange ok x n s)) x = stamped (fst ?p2)"
    using docs.load_saved [OF f(1)] f(2,3) by simp
  have e: "jget (exchanges_of (fst ?p2)) (int_str j) = jget (exchanges_of (load s x)) (int_str (unshift n j))"
    using drop_field_get(1) [of "''anchors''" "''exchanges''" n ?p1]
      drop_field_get(2) [of "''exchanges''" "''anchors''" "(load s x, False)" n j] assms(2)
    by (simp add: exchanges_of_def)
  have a: "jget (obj_of (jget (fst ?p2) ''anchors'')) (int_str j) =
      jget (obj_of (jget (load s x) ''anchors'')) (int_str (unshift n j))"
    using drop_field_get(2) [of "''anchors''" "''exchanges''" ?p1 n j]
      drop_field_get(1) [of "''exchanges''" "''anchors''" n "(load s x, False)"] assms(3) by simp
  have "jget (stamped d) ''anchors'' = jget d ''anchors''" for d by (simp add: stamped_def)
  then show ?thesis using e a by (simp add: found_def l unshift_def)
qed

theorem drop_exchange_renumbers_witness:
  "found (snd (drop_exchange True ''a.json'' 0 sample_sidecar)) ''a.json'' 0
     = Some [(''stage'', JInt 0), (''target'', JStr ''t1'')]"
proof -
  have "fst (drop_exchange True ''a.json'' 0 sample_sidecar)"
    "canonical_table (exchanges_of (load sample_sidecar ''a.json''))"
    "canonical_table (obj_of (jget (load sample_sidecar ''a.json'') ''anchors''))"
    "found sample_sidecar ''a.json'' 1 = Some [(''stage'', JInt 0), (''target'', JStr ''t1'')]"
    by code_simp+
  then show ?thesis using drop_exchange_renumbers [of True "''a.json''" 0 sample_sidecar 0] by simp
qed

subsection \<open>Training advances\<close>

definition rec_in :: "jobj \<Rightarrow> int \<Rightarrow> jobj option" where
  "rec_in d i = (case jget (exchanges_of d) (int_str i) of JObj r \<Rightarrow> Some r | _ \<Rightarrow> None)"

definition bumped :: "string \<Rightarrow> jobj \<Rightarrow> jobj" where
  "bumped ts r = dset ''last_trained'' (JStr ts)
     (dset ''stage'' (JInt (stage_int (jget_or r ''stage'' (JInt 0)) + 1)) r)"

lemma advance_one_eq:
  "advance_one ts (n, d) i = (case rec_in d i of None \<Rightarrow> (n, d) | Some r \<Rightarrow> (n + 1, put_exchange d i (bumped ts r)))"
  by (cases "jget (exchanges_of d) (int_str i)") (simp_all add: advance_one_def rec_in_def bumped_def)

lemma rec_in_put: "rec_in (put_exchange d i r) j = (if j = i then Some r else rec_in d j)"
  by (simp add: rec_in_def)

lemma advance_fold:
  assumes "distinct idxs"
  shows "fst (foldl (advance_one ts) (n, d) idxs) = n + length (filter (\<lambda>i. rec_in d i \<noteq> None) idxs)
    \<and> (\<forall>j. rec_in (snd (foldl (advance_one ts) (n, d) idxs)) j =
         (if j \<in> set idxs then map_option (bumped ts) (rec_in d j) else rec_in d j))
    \<and> (normal_doc d \<longrightarrow> normal_doc (snd (foldl (advance_one ts) (n, d) idxs)))"
  using assms
proof (induction idxs arbitrary: n d)
  case (Cons i idxs)
  show ?case
  proof (cases "rec_in d i")
    case None
    then show ?thesis using Cons by (auto simp: advance_one_eq)
  next
    case (Some r)
    let ?d = "put_exchange d i (bumped ts r)"
    have "filter (\<lambda>j. rec_in ?d j \<noteq> None) idxs = filter (\<lambda>j. rec_in d j \<noteq> None) idxs"
      using Cons.prems by (intro filter_cong) (auto simp: rec_in_put)
    then show ?thesis
      using Cons.IH [of "n + 1" ?d] Cons.prems Some normal_put [of d i "bumped ts r"]
      by (auto simp: advance_one_eq rec_in_put)
  qed
qed simp

lemma found_rec_in: "found s x i = rec_in (load s x) i"
  by (simp add: found_def rec_in_def)

text \<open>A training cycle moves exactly the exchanges it trained. With a write that succeeds, the count
  returned is the number of listed exchanges that have a record, each of those is one stage further,
  and every other exchange of the session keeps its record.\<close>

theorem advance_stages_exact:
  fixes s :: sidecar and ts x :: string and idxs :: "int list"
  assumes "resolve_sidecar_path x \<noteq> None" "distinct idxs"
  defines "s' \<equiv> snd (advance_stages True ts x idxs s)"
  shows "fst (advance_stages True ts x idxs s) = length (filter (\<lambda>i. found s x i \<noteq> None) idxs)
    \<and> (\<forall>j. stage_of s' x j = (if j \<in> set idxs \<and> found s x j \<noteq> None then stage_of s x j + 1 else stage_of s x j))
    \<and> (\<forall>j. j \<notin> set idxs \<longrightarrow> found s' x j = found s x j)"
proof -
  obtain f where f: "resolve_sidecar_path x = Some f" using assms(1) by blast
  obtain n d where nd: "foldl (advance_one ts) (0, load s x) idxs = (n, d)" by (cases "foldl (advance_one ts) (0, load s x) idxs")
  note fold = advance_fold [OF assms(2), of ts 0 "load s x", unfolded nd fst_conv snd_conv]
  have res: "advance_stages True ts x idxs s = (n, if n = 0 then s else snd (save True s f d))"
    by (simp add: advance_stages_def f nd)
  have fnd: "found s' x j = (if j \<in> set idxs then map_option (bumped ts) (found s x j) else found s x j)" for j
  proof (cases "n = 0")
    case True
    then have "\<forall>i \<in> set idxs. rec_in (load s x) i = None" using fold by (auto simp: filter_empty_conv)
    then show ?thesis using True by (auto simp: s'_def res found_rec_in)
  next
    case False
    then have "load s' x = stamped d"
      using docs.load_saved [OF f] fold normal_load by (simp add: s'_def res)
    then have "found s' x j = rec_in d j" by (simp add: found_def rec_in_def)
    then show ?thesis using fold by (simp add: found_rec_in)
  qed
  have stage: "stage_of t x j = (case found t x j of None \<Rightarrow> 0 | Some r \<Rightarrow> stage_int (jget_or r ''stage'' (JInt 0)))" for t j
    by (simp add: stage_of_def get_exchange_found)
  have bump: "stage_int (jget_or (bumped ts r) ''stage'' (JInt 0)) = stage_int (jget_or r ''stage'' (JInt 0)) + 1" for r
    by (simp add: bumped_def)
  have "n = length (filter (\<lambda>i. found s x i \<noteq> None) idxs)"
    using fold by (simp add: found_rec_in)
  then show ?thesis by (simp add: res stage fnd bump split: option.splits)
qed

theorem advance_stages_exact_witness:
  "fst (advance_stages True ''t'' ''a.json'' [0, 7] sample_sidecar) = 1
   \<and> stage_of (snd (advance_stages True ''t'' ''a.json'' [0, 7] sample_sidecar)) ''a.json'' 0 = 3"
proof -
  have "resolve_sidecar_path ''a.json'' \<noteq> None" "stage_of sample_sidecar ''a.json'' 0 = 2"
    "length (filter (\<lambda>i. found sample_sidecar ''a.json'' i \<noteq> None) [0, 7]) = 1"
    by code_simp+
  then show ?thesis
    using advance_stages_exact [of "''a.json''" "[0, 7]" "''t''" sample_sidecar] sample_found by simp
qed

text \<open>The count is reported even when nothing could be written.\<close>

lemma advance_count_without_write:
  "advance_stages False ''t'' ''a.json'' [0] sample_sidecar = (1, sample_sidecar)"
  by code_simp

subsection \<open>The freeze\<close>

text \<open>The reflect-once freeze. Stamping a session freezes it; stamping it again, at any time, succeeds and
  changes nothing, so the first stamp stands; lifting the freeze removes both stamps and leaves every
  exchange record as it was, and lifting it again reports that there was nothing to lift.\<close>

theorem freeze_is_set_once:
  fixes s :: sidecar and t x :: string
  assumes "resolve_sidecar_path x \<noteq> None" "t \<noteq> []" "\<not> is_reflected s x"
    and "s1 = snd (mark_reflected True t x s)" and "s2 = snd (clear_reflection_freeze True x s1)"
  shows "jget (load s1 x) ''reflected_at'' = JStr t
    \<and> mark_reflected ok t' x s1 = (True, s1)
    \<and> fst (clear_reflection_freeze True x s1)
    \<and> \<not> is_reflected s2 x \<and> \<not> is_chat_reflected s2 x
    \<and> (\<forall>j. found s2 x j = found s x j)
    \<and> clear_reflection_freeze ok x s2 = (False, s2)"
proof -
  obtain f where f: "resolve_sidecar_path x = Some f" using assms(1) by blast
  let ?d1 = "dset ''reflected_at'' (JStr t) (load s x)"
  have "normal_doc ?d1" using normal_load [of s x] by (simp add: normal_doc_def)
  then have l1: "load s1 x = stamped ?d1"
    using docs.load_saved [OF f] assms(3)
    by (simp add: assms(4) mark_reflected_def stamp_once_def f is_reflected_def Let_def)
  have st1: "jget (load s1 x) ''reflected_at'' = JStr t" by (simp add: l1 stamped_def)
  have again: "mark_reflected ok t' x s1 = (True, s1)"
    using st1 assms(2) by (simp add: mark_reflected_def stamp_once_def f Let_def)
  let ?d2 = "dpop ''chat_reflected'' (dpop ''reflected_at'' (load s1 x))"
  have "normal_doc ?d2" using normal_load [of s1 x] by (simp add: normal_doc_def)
  moreover have cl: "clear_reflection_freeze True x s1 = save True s1 f ?d2"
    using st1 assms(2) by (simp add: clear_reflection_freeze_def f Let_def)
  ultimately have l2: "load s2 x = stamped ?d2" using docs.load_saved [OF f] by (simp add: assms(5))
  have none: "jget (load s2 x) ''reflected_at'' = JNull" "jget (load s2 x) ''chat_reflected'' = JNull"
    by (simp_all add: l2 stamped_def)
  have "found s2 x j = found s x j" for j
    by (simp add: found_def l2 l1 exchanges_of_def stamped_def)
  moreover have "clear_reflection_freeze ok x s2 = (False, s2)"
    using none by (simp add: clear_reflection_freeze_def f Let_def)
  ultimately show ?thesis
    using st1 again cl none by (simp add: docs.save_result is_reflected_def is_chat_reflected_def)
qed

theorem freeze_is_set_once_witness:
  "mark_reflected False ''later'' ''a.json'' (snd (mark_reflected True ''now'' ''a.json'' sample_sidecar))
   = (True, snd (mark_reflected True ''now'' ''a.json'' sample_sidecar))"
proof -
  have "resolve_sidecar_path ''a.json'' \<noteq> None" "\<not> is_reflected sample_sidecar ''a.json''" by code_simp+
  from freeze_is_set_once [OF this(1) _ this(2) refl refl, of "''now''" False "''later''"] show ?thesis by simp
qed

end
