(* ===== verification/Decay.thy ===== *)
theory Decay
  imports Json
begin

text \<open>
  \<open>server/training/decay.py\<close>: the stage decay schedule (how many training copies an anchor
  still earns), the wall-clock configuration, the learning-rate ramp by chat age and the six
  retrieval-weight curves. Ages are hours; \<open>None\<close> is an unknown age, as in the source.
\<close>

section \<open>The stage schedule\<close>

definition modifier :: "int \<Rightarrow> int \<Rightarrow> string \<Rightarrow> rat py" where
  "modifier stage decay_steps curve =
     (if decay_steps \<le> 0 then Inr 0
      else if stage \<le> 0 then Inr 1
      else if decay_steps \<le> stage then Inr 0
      else if curve = ''linear'' then Inr (of_int (decay_steps - stage) / of_int decay_steps)
      else Inl ValueError)"

record decay_config =
  base_variants :: int
  decay_steps :: int
  curve :: string

definition variants_for_stage :: "decay_config \<Rightarrow> int \<Rightarrow> int py" where
  "variants_for_stage c stage =
     py_bind (modifier stage (decay_steps c) (curve c))
       (\<lambda>m. Inr (max 0 (py_round (of_int (base_variants c) * m))))"

definition modifier_for_stage :: "decay_config \<Rightarrow> int \<Rightarrow> rat py" where
  "modifier_for_stage c stage = modifier stage (decay_steps c) (curve c)"

definition is_deprecated :: "decay_config \<Rightarrow> int \<Rightarrow> bool py" where
  "is_deprecated c stage = py_bind (variants_for_stage c stage) (\<lambda>v. Inr (v = 0))"

section \<open>The wall-clock configuration\<close>

record wall_config =
  rag_only_window_h :: rat
  lora_cap_age_h :: rat
  rag_cap_age_h :: rat
  gist_cap_age_h :: rat
  base_lr :: rat
  lr_ramp :: "rat list"
  contamination_enabled :: bool
  contamination_dose :: rat
  contamination_additive :: bool
  contamination_fold :: bool
  contamination_min_user_chars :: int
  wander_rag_weights :: "rat list"
  wander_rag_step_h :: rat
  fresh_droop_frac :: rat
  fresh_horizon_h :: rat
  rag_floor_weight :: rat
  gist_floor_weight :: rat
  recollection_hold_h :: rat
  recollection_cap_age_h :: rat
  recollection_floor_weight :: rat

definition default_wall :: wall_config where
  "default_wall = \<lparr>
     rag_only_window_h = 24, lora_cap_age_h = 72, rag_cap_age_h = 96, gist_cap_age_h = 192,
     base_lr = 1 / 100000, lr_ramp = [1, 2, 4],
     contamination_enabled = True, contamination_dose = 1, contamination_additive = False,
     contamination_fold = False, contamination_min_user_chars = 100,
     wander_rag_weights = [4/10, 3/10, 2/10, 1/10], wander_rag_step_h = 24,
     fresh_droop_frac = 1/2, fresh_horizon_h = 24,
     rag_floor_weight = 2/10, gist_floor_weight = 2/10,
     recollection_hold_h = 96, recollection_cap_age_h = 192,
     recollection_floor_weight = 3/10\<rparr>"

record consolidation_config =
  dialogue_cfg :: decay_config
  fact_cfg :: decay_config
  wall :: wall_config

definition default_consolidation :: consolidation_config where
  "default_consolidation = \<lparr>
     dialogue_cfg = \<lparr>base_variants = 3, decay_steps = 3, curve = ''linear''\<rparr>,
     fact_cfg = \<lparr>base_variants = 2, decay_steps = 3, curve = ''linear''\<rparr>,
     wall = default_wall\<rparr>"

definition for_type :: "consolidation_config \<Rightarrow> json \<Rightarrow> decay_config option" where
  "for_type c item_type =
     (if item_type = JStr ''dialogue'' then Some (dialogue_cfg c)
      else if item_type \<in> {JStr ''fact'', JStr ''persona''} then Some (fact_cfg c)
      else None)"

section \<open>The learning-rate ramp\<close>

definition cumsum_curve :: "decay_config \<Rightarrow> rat list py" where
  "cumsum_curve c =
     py_bind
       (py_fold (\<lambda>(run, out) s. py_bind (variants_for_stage c (int s))
                   (\<lambda>v. Inr (run + v, out @ [of_int (run + v)])))
          (0, []) [0..<nat (max 1 (decay_steps c))])
       (\<lambda>(run, out). Inr out)"

text \<open>The ramp through the sample points \<open>cum\<close>, once they are known.\<close>

definition ramp_at :: "rat list \<Rightarrow> wall_config \<Rightarrow> rat option \<Rightarrow> rat" where
  "ramp_at cum w age_h =
     (let total = last cum; window = rag_only_window_h w; cap = lora_cap_age_h w in
      case age_h of
        None \<Rightarrow> 0
      | Some a \<Rightarrow>
          if a < window then 0
          else if length cum = 1 \<or> cap \<le> window \<or> cap \<le> a then total
          else
            let stage_f = (a - window) / ((cap - window) / of_nat (length cum - 1));
                lo = nat (py_int stage_f)
            in if length cum - 1 \<le> lo then total
               else cum ! lo + (stage_f - of_nat lo) * (cum ! Suc lo - cum ! lo))"

definition lr_multiplier_hours :: "rat option \<Rightarrow> decay_config \<Rightarrow> wall_config \<Rightarrow> rat py" where
  "lr_multiplier_hours age_h c w =
     py_bind (if lr_ramp w \<noteq> [] then Inr (lr_ramp w) else cumsum_curve c)
       (\<lambda>cum. Inr (ramp_at cum w age_h))"

section \<open>Retrieval weights\<close>

definition verbatim_rag_weight_hours :: "rat option \<Rightarrow> wall_config \<Rightarrow> rat" where
  "verbatim_rag_weight_hours age_h w =
     (case age_h of
        None \<Rightarrow> 1
      | Some a \<Rightarrow>
          let cap = rag_cap_age_h w in
          if cap \<le> 0 then 0 else if a \<le> 0 then 1 else if cap \<le> a then 0 else (cap - a) / cap)"

definition rag_weight_hours :: "rat option \<Rightarrow> wall_config \<Rightarrow> rat" where
  "rag_weight_hours age_h w =
     (let flr = clamp01 (rag_floor_weight w) in
      case age_h of
        None \<Rightarrow> 1
      | Some a \<Rightarrow>
          if a \<le> 0 then 1
          else let cap = rag_cap_age_h w in
            if cap \<le> 0 \<or> cap \<le> a then flr else max flr ((cap - a) / cap))"

definition gist_rag_weight_hours :: "rat option \<Rightarrow> wall_config \<Rightarrow> rat" where
  "gist_rag_weight_hours age_h w =
     (let peak = rag_cap_age_h w; stop = gist_cap_age_h w;
          flr = clamp01 (gist_floor_weight w) in
      case age_h of
        None \<Rightarrow> 0
      | Some a \<Rightarrow>
          if a \<le> 0 \<or> peak \<le> 0 then 0
          else if a \<le> peak then a / peak
          else if stop \<le> peak \<or> stop \<le> a then flr
          else let remaining = (stop - a) / (stop - peak) in flr + (1 - flr) * remaining)"

definition recollection_rag_weight_hours :: "rat option \<Rightarrow> wall_config \<Rightarrow> rat" where
  "recollection_rag_weight_hours age_h w =
     (let hold = recollection_hold_h w; stop = recollection_cap_age_h w;
          flr = clamp01 (recollection_floor_weight w) in
      case age_h of
        None \<Rightarrow> 1
      | Some a \<Rightarrow>
          if a \<le> 0 then 1
          else if 0 < hold \<and> a \<le> hold then 1
          else if stop \<le> hold \<or> stop \<le> a then flr
          else let remaining = (stop - a) / (stop - hold) in flr + (1 - flr) * remaining)"

definition fresh_time_weight :: "rat option \<Rightarrow> wall_config \<Rightarrow> rat" where
  "fresh_time_weight age_h w =
     (let frac = fresh_droop_frac w; horizon = fresh_horizon_h w in
      case age_h of
        None \<Rightarrow> 1
      | Some a \<Rightarrow>
          if a \<le> 0 \<or> frac \<le> 0 \<or> horizon \<le> 0 then 1
          else let flr = 1 - frac * (1 - verbatim_rag_weight_hours (Some horizon) w) in
            if horizon \<le> a then flr else 1 - (1 - flr) * (a / horizon))"

definition wander_rag_weight_hours :: "rat option \<Rightarrow> wall_config \<Rightarrow> rat" where
  "wander_rag_weight_hours age_h w =
     (let weights = wander_rag_weights w in
      if weights = [] then 0
      else
        let a = (case age_h of None \<Rightarrow> 0 | Some a \<Rightarrow> if a < 0 then 0 else a);
            step = wander_rag_step_h w
        in if step \<le> 0 then hd weights
           else let idx = nat \<lfloor>a / step\<rfloor> in
             if idx < length weights then weights ! idx else 0)"

section \<open>Facts about the stage schedule\<close>

lemma modifier_range: "modifier stage n cv = Inr m \<Longrightarrow> 0 \<le> m \<and> m \<le> 1"
proof -
  have "0 \<le> (rat_of_int n - rat_of_int stage) / rat_of_int n
      \<and> (rat_of_int n - rat_of_int stage) / rat_of_int n \<le> 1" if "0 < stage" "stage < n"
    using that by (simp add: divide_le_eq)
  then show "modifier stage n cv = Inr m \<Longrightarrow> 0 \<le> m \<and> m \<le> 1"
    by (auto simp: modifier_def split: if_splits)
qed

lemma modifier_linear: "\<exists>m. modifier stage n ''linear'' = Inr m"
  by (simp add: modifier_def)

lemma modifier_antimono:
  assumes "modifier s n cv = Inr m" "modifier t n cv = Inr m'" "s \<le> t"
  shows "m' \<le> m"
proof -
  have "(rat_of_int n - rat_of_int t) / rat_of_int n \<le> (rat_of_int n - rat_of_int s) / rat_of_int n"
    if "0 < n"
    using that assms(3) by (intro divide_right_mono) auto
  then show ?thesis
    using assms modifier_range [OF assms(1)] modifier_range [OF assms(2)]
    by (auto simp: modifier_def split: if_splits)
qed

lemma variants_eq:
  "variants_for_stage c s = Inr v \<longleftrightarrow>
     (\<exists>m. modifier s (decay_steps c) (curve c) = Inr m
        \<and> v = max 0 (py_round (of_int (base_variants c) * m)))"
  by (auto simp: variants_for_stage_def py_bind_eq_Inr)

lemma variants_nonneg: "variants_for_stage c s = Inr v \<Longrightarrow> 0 \<le> v"
  by (auto simp: variants_eq)

lemma variants_antimono:
  assumes "variants_for_stage c s = Inr v" "variants_for_stage c t = Inr v'" "s \<le> t"
    and "0 \<le> base_variants c"
  shows "v' \<le> v"
proof -
  obtain m m' where m: "modifier s (decay_steps c) (curve c) = Inr m"
    and m': "modifier t (decay_steps c) (curve c) = Inr m'"
    and v: "v = max 0 (py_round (of_int (base_variants c) * m))"
           "v' = max 0 (py_round (of_int (base_variants c) * m'))"
    using assms(1,2) by (auto simp: variants_eq)
  have "m' \<le> m" using m m' assms(3) by (rule modifier_antimono)
  then have "of_int (base_variants c) * m' \<le> of_int (base_variants c) * m"
    using assms(4) by (intro mult_left_mono) auto
  then show ?thesis using py_round_mono v by fastforce
qed

lemma variants_past_end:
  "decay_steps c \<le> s \<Longrightarrow> 0 < decay_steps c \<Longrightarrow> variants_for_stage c s = Inr 0"
  by (simp add: variants_for_stage_def modifier_def)

lemma is_deprecated_eq:
  "is_deprecated c s = Inr d \<longleftrightarrow> (\<exists>v. variants_for_stage c s = Inr v \<and> d = (v = 0))"
  by (auto simp: is_deprecated_def py_bind_eq_Inr)

section \<open>A retrieval weight that only falls with age\<close>

text \<open>
  What the retrieval code relies on when it multiplies a similarity by a weight: the weight is
  a factor between 0 and 1, and ageing never raises it. \<open>ok\<close> says for which configurations a
  curve keeps the contract.
\<close>

locale weight_curve =
  fixes weight :: "rat option \<Rightarrow> wall_config \<Rightarrow> rat"
    and ok :: "wall_config \<Rightarrow> bool"
  assumes weight_range: "ok w \<Longrightarrow> 0 \<le> weight age w \<and> weight age w \<le> 1"
    and weight_antimono: "ok w \<Longrightarrow> a \<le> b \<Longrightarrow> weight (Some b) w \<le> weight (Some a) w"
begin

lemma weight_scales_down:
  assumes "ok w" "0 \<le> x"
  shows "x * weight age w \<le> x"
  using weight_range [OF assms(1), of age] assms(2) mult_left_mono [of "weight age w" 1 x] by auto

lemma weighted_antimono:
  assumes "ok w" "0 \<le> x" "a \<le> b"
  shows "x * weight (Some b) w \<le> x * weight (Some a) w"
  using weight_antimono [OF assms(1,3)] assms(2) by (intro mult_left_mono)

lemma min_weight_range:
  assumes "ok w" "0 \<le> v" "v \<le> 1"
  shows "0 \<le> min (weight age w) v \<and> min (weight age w) v \<le> 1"
  using weight_range [OF assms(1), of age] assms(2,3) by auto

end

text \<open>The affine leg shared by the curves: from 1 at \<open>lo\<close> to \<open>flr\<close> at \<open>hi\<close>.\<close>

lemma affine_leg_range:
  fixes flr :: rat
  assumes "0 \<le> flr" "flr \<le> 1" "lo < hi" "lo \<le> a" "a \<le> hi"
  shows "flr \<le> flr + (1 - flr) * ((hi - a) / (hi - lo))"
    and "flr + (1 - flr) * ((hi - a) / (hi - lo)) \<le> 1"
proof -
  have r: "0 \<le> (hi - a) / (hi - lo)" "(hi - a) / (hi - lo) \<le> 1"
    using assms by (auto simp: field_simps)
  then show "flr \<le> flr + (1 - flr) * ((hi - a) / (hi - lo))" using assms by auto
  have "(1 - flr) * ((hi - a) / (hi - lo)) \<le> (1 - flr) * 1"
    using r assms by (intro mult_left_mono) auto
  then show "flr + (1 - flr) * ((hi - a) / (hi - lo)) \<le> 1" by simp
qed

lemma affine_leg_antimono:
  fixes flr :: rat
  assumes "flr \<le> 1" "lo < hi" "a \<le> b"
  shows "flr + (1 - flr) * ((hi - b) / (hi - lo)) \<le> flr + (1 - flr) * ((hi - a) / (hi - lo))"
proof -
  have "(hi - b) / (hi - lo) \<le> (hi - a) / (hi - lo)"
    using assms by (intro divide_right_mono) auto
  then have "(1 - flr) * ((hi - b) / (hi - lo)) \<le> (1 - flr) * ((hi - a) / (hi - lo))"
    using assms by (intro mult_left_mono) auto
  then show ?thesis by simp
qed

lemma fall_antimono: "(0::rat) < cap \<Longrightarrow> a \<le> b \<Longrightarrow> (cap - b) / cap \<le> (cap - a) / cap"
  by (intro divide_right_mono) auto

interpretation verbatim: weight_curve verbatim_rag_weight_hours "\<lambda>_. True"
proof unfold_locales
  fix w :: wall_config and age
  show "0 \<le> verbatim_rag_weight_hours age w \<and> verbatim_rag_weight_hours age w \<le> 1"
    by (auto simp: verbatim_rag_weight_hours_def Let_def field_simps split: option.splits)
next
  fix w :: wall_config and a b :: rat
  assume "a \<le> b"
  then show "verbatim_rag_weight_hours (Some b) w \<le> verbatim_rag_weight_hours (Some a) w"
    using fall_antimono [of "rag_cap_age_h w" a b]
    by (auto simp: verbatim_rag_weight_hours_def Let_def field_simps)
qed

interpretation persona: weight_curve rag_weight_hours "\<lambda>_. True"
proof unfold_locales
  fix w :: wall_config and age
  show "0 \<le> rag_weight_hours age w \<and> rag_weight_hours age w \<le> 1"
    by (auto simp: rag_weight_hours_def Let_def field_simps le_max_iff_disj split: option.splits)
next
  fix w :: wall_config and a b :: rat
  assume "a \<le> b"
  then show "rag_weight_hours (Some b) w \<le> rag_weight_hours (Some a) w"
    using fall_antimono [of "rag_cap_age_h w" a b]
    by (auto simp: rag_weight_hours_def Let_def max_def)
qed

interpretation fresh: weight_curve fresh_time_weight "\<lambda>w. fresh_droop_frac w \<le> 1"
proof unfold_locales
  fix w :: wall_config and age
  assume ok: "fresh_droop_frac w \<le> 1"
  let ?v = "verbatim_rag_weight_hours (Some (fresh_horizon_h w)) w"
  let ?c = "fresh_droop_frac w * (1 - ?v)"
  have c: "0 \<le> ?c \<and> ?c \<le> 1" if "0 < fresh_droop_frac w"
    using that ok verbatim.weight_range [OF TrueI, of "Some (fresh_horizon_h w)" w]
    by (auto intro: mult_le_one)
  have "0 \<le> ?c * (a / fresh_horizon_h w) \<and> ?c * (a / fresh_horizon_h w) \<le> 1"
    if "0 < a" "a < fresh_horizon_h w" "0 < fresh_droop_frac w" for a
  proof -
    have "0 \<le> a / fresh_horizon_h w" "a / fresh_horizon_h w \<le> 1" using that(1,2) by auto
    then show ?thesis
      using c [OF that(3)] mult_le_one [of ?c "a / fresh_horizon_h w"]
        mult_nonneg_nonneg [of ?c "a / fresh_horizon_h w"] by blast
  qed
  then show "0 \<le> fresh_time_weight age w \<and> fresh_time_weight age w \<le> 1"
    using c by (auto simp: fresh_time_weight_def Let_def not_le split: option.splits)
next
  fix w :: wall_config and a b :: rat
  assume ok: "fresh_droop_frac w \<le> 1" and ab: "a \<le> b"
  let ?v = "verbatim_rag_weight_hours (Some (fresh_horizon_h w)) w"
  let ?c = "fresh_droop_frac w * (1 - ?v)"
  have c: "0 \<le> ?c" if "0 < fresh_droop_frac w"
    using that verbatim.weight_range [OF TrueI, of "Some (fresh_horizon_h w)" w] by simp
  have m: "?c * (x / fresh_horizon_h w) \<le> ?c * (y / fresh_horizon_h w)"
    if "x \<le> y" "0 < fresh_droop_frac w" "0 < fresh_horizon_h w" for x y
    using that c by (intro mult_left_mono divide_right_mono) auto
  show "fresh_time_weight (Some b) w \<le> fresh_time_weight (Some a) w"
    using ab c m [of a b] m [of a "fresh_horizon_h w"] m [of 0 b]
    by (auto simp: fresh_time_weight_def Let_def not_le)
qed

interpretation recollection: weight_curve recollection_rag_weight_hours "\<lambda>_. True"
proof unfold_locales
  fix w :: wall_config and age
  let ?f = "clamp01 (recollection_floor_weight w)"
  have "0 \<le> ?f" "?f \<le> 1" by simp_all
  then show "0 \<le> recollection_rag_weight_hours age w \<and> recollection_rag_weight_hours age w \<le> 1"
    using affine_leg_range [of ?f "recollection_hold_h w" "recollection_cap_age_h w"]
    by (auto simp: recollection_rag_weight_hours_def Let_def split: option.splits)
next
  fix w :: wall_config and a b :: rat
  assume "a \<le> b"
  then show "recollection_rag_weight_hours (Some b) w \<le> recollection_rag_weight_hours (Some a) w"
    using affine_leg_antimono [of "clamp01 (recollection_floor_weight w)"]
      affine_leg_range [of "clamp01 (recollection_floor_weight w)"
        "recollection_hold_h w" "recollection_cap_age_h w"]
    by (auto simp: recollection_rag_weight_hours_def Let_def)
qed

section \<open>Properties of the curves\<close>

text \<open>Linear interpolation between consecutive sample points.\<close>

definition interp :: "rat list \<Rightarrow> rat \<Rightarrow> rat" where
  "interp cum x =
     cum ! nat \<lfloor>x\<rfloor> + (x - of_nat (nat \<lfloor>x\<rfloor>)) * (cum ! Suc (nat \<lfloor>x\<rfloor>) - cum ! nat \<lfloor>x\<rfloor>)"

lemma interp_between:
  assumes "sorted cum" "0 \<le> x" "Suc (nat \<lfloor>x\<rfloor>) < length cum"
  shows "cum ! nat \<lfloor>x\<rfloor> \<le> interp cum x \<and> interp cum x \<le> cum ! Suc (nat \<lfloor>x\<rfloor>)"
proof -
  define t where "t = x - of_nat (nat \<lfloor>x\<rfloor>)"
  define u where "u = cum ! Suc (nat \<lfloor>x\<rfloor>) - cum ! nat \<lfloor>x\<rfloor>"
  have t: "0 \<le> t" "t \<le> 1" using assms(2) unfolding t_def by (simp_all, linarith)
  have u: "0 \<le> u" unfolding u_def using assms(1,3) by (simp add: sorted_nth_mono)
  have "t * u \<le> 1 * u" "0 \<le> t * u"
    using mult_right_mono [OF t(2) u] mult_nonneg_nonneg [OF t(1) u] by auto
  then show ?thesis by (simp add: interp_def t_def [symmetric] u_def [symmetric])
    (simp add: u_def)
qed

lemma interp_mono:
  assumes "sorted cum" "0 \<le> x" "x \<le> y" "Suc (nat \<lfloor>y\<rfloor>) < length cum"
  shows "interp cum x \<le> interp cum y"
proof (cases "\<lfloor>x\<rfloor> = \<lfloor>y\<rfloor>")
  case True
  have "0 \<le> cum ! Suc (nat \<lfloor>y\<rfloor>) - cum ! nat \<lfloor>y\<rfloor>"
    using assms(1,4) by (simp add: sorted_nth_mono)
  then have "(x - of_nat (nat \<lfloor>y\<rfloor>)) * (cum ! Suc (nat \<lfloor>y\<rfloor>) - cum ! nat \<lfloor>y\<rfloor>)
      \<le> (y - of_nat (nat \<lfloor>y\<rfloor>)) * (cum ! Suc (nat \<lfloor>y\<rfloor>) - cum ! nat \<lfloor>y\<rfloor>)"
    using assms(3) by (intro mult_right_mono) auto
  then show ?thesis by (simp add: interp_def True)
next
  case False
  have "\<lfloor>x\<rfloor> < \<lfloor>y\<rfloor>" using False floor_mono [OF assms(3)] by simp
  moreover have "0 \<le> \<lfloor>x\<rfloor>" using assms(2) by simp
  ultimately have lt: "Suc (nat \<lfloor>x\<rfloor>) \<le> nat \<lfloor>y\<rfloor>" by arith
  have "interp cum x \<le> cum ! Suc (nat \<lfloor>x\<rfloor>)"
    using interp_between [of cum x] assms lt by simp
  also have "\<dots> \<le> cum ! nat \<lfloor>y\<rfloor>" using assms(1,4) lt by (simp add: sorted_nth_mono)
  also have "\<dots> \<le> interp cum y"
    using interp_between [of cum y] assms by simp
  finally show ?thesis .
qed

definition ramp_pos :: "rat list \<Rightarrow> wall_config \<Rightarrow> rat \<Rightarrow> rat" where
  "ramp_pos cum w a =
     (a - rag_only_window_h w) /
       ((lora_cap_age_h w - rag_only_window_h w) / of_nat (length cum - 1))"

lemma ramp_at_eq:
  "ramp_at cum w (Some a) =
     (if a < rag_only_window_h w then 0
      else if length cum = 1 \<or> lora_cap_age_h w \<le> rag_only_window_h w \<or> lora_cap_age_h w \<le> a
      then last cum
      else if length cum - 1 \<le> nat (py_int (ramp_pos cum w a)) then last cum
      else cum ! nat (py_int (ramp_pos cum w a))
        + (ramp_pos cum w a - of_nat (nat (py_int (ramp_pos cum w a))))
          * (cum ! Suc (nat (py_int (ramp_pos cum w a))) - cum ! nat (py_int (ramp_pos cum w a))))"
  by (simp only: ramp_at_def ramp_pos_def Let_def option.case)

lemma ramp_pos_bounds:
  assumes "rag_only_window_h w \<le> a" "a < lora_cap_age_h w" "1 < length cum"
  shows "0 \<le> ramp_pos cum w a" and "nat \<lfloor>ramp_pos cum w a\<rfloor> < length cum - 1"
proof -
  let ?n = "of_nat (length cum - 1) :: rat"
  have n: "0 < ?n" using assms(3) by simp
  have d: "0 < lora_cap_age_h w - rag_only_window_h w" using assms(1,2) by simp
  show nn: "0 \<le> ramp_pos cum w a" unfolding ramp_pos_def using assms n d by simp
  have "(a - rag_only_window_h w) * ?n < (lora_cap_age_h w - rag_only_window_h w) * ?n"
    using assms(2) n by (intro mult_strict_right_mono) auto
  then have "ramp_pos cum w a < ?n"
    unfolding ramp_pos_def using d n by (simp add: divide_less_eq mult.commute)
  then have "of_nat (nat \<lfloor>ramp_pos cum w a\<rfloor>) < ?n"
    using nn by (simp add: floor_less_iff) linarith
  then show "nat \<lfloor>ramp_pos cum w a\<rfloor> < length cum - 1" by simp
qed

lemma ramp_pos_mono:
  assumes "a \<le> b" "rag_only_window_h w < lora_cap_age_h w"
  shows "ramp_pos cum w a \<le> ramp_pos cum w b"
  unfolding ramp_pos_def using assms by (intro divide_right_mono) auto

lemma ramp_at_inside:
  assumes "rag_only_window_h w \<le> a" "a < lora_cap_age_h w" "1 < length cum"
  shows "ramp_at cum w (Some a) = interp cum (ramp_pos cum w a)"
  using ramp_pos_bounds [OF assms] assms
  by (simp add: ramp_at_eq interp_def py_int_def)

lemma ramp_at_cap:
  assumes "rag_only_window_h w \<le> a" "lora_cap_age_h w \<le> a"
  shows "ramp_at cum w (Some a) = last cum"
  using assms by (simp add: ramp_at_eq)

lemma interp_le_last:
  assumes "sorted cum" "0 \<le> x" "Suc (nat \<lfloor>x\<rfloor>) < length cum"
  shows "interp cum x \<le> last cum" and "hd cum \<le> interp cum x"
proof -
  have ne: "cum \<noteq> []" using assms(3) by auto
  have "cum ! Suc (nat \<lfloor>x\<rfloor>) \<le> last cum" "hd cum \<le> cum ! nat \<lfloor>x\<rfloor>"
    using assms ne by (auto simp: last_conv_nth hd_conv_nth intro!: sorted_nth_mono)
  then show "interp cum x \<le> last cum" "hd cum \<le> interp cum x"
    using interp_between [OF assms] by auto
qed

lemma hd_le_last: "sorted xs \<Longrightarrow> xs \<noteq> [] \<Longrightarrow> hd xs \<le> last xs"
  by (cases xs) auto

lemma ramp_at_range:
  assumes "sorted cum" "cum \<noteq> []" "0 \<le> hd cum"
  shows "0 \<le> ramp_at cum w age \<and> ramp_at cum w age \<le> last cum"
proof (cases age)
  case None
  then show ?thesis using hd_le_last [OF assms(1,2)] assms(3) by (simp add: ramp_at_def)
next
  case (Some a)
  have l: "0 \<le> last cum" using hd_le_last [OF assms(1,2)] assms(3) by simp
  show ?thesis
  proof (cases "rag_only_window_h w \<le> a \<and> a < lora_cap_age_h w \<and> 1 < length cum")
    case True
    then have "ramp_at cum w age = interp cum (ramp_pos cum w a)"
      by (simp add: Some ramp_at_inside)
    moreover have "0 \<le> ramp_pos cum w a" "Suc (nat \<lfloor>ramp_pos cum w a\<rfloor>) < length cum"
      using ramp_pos_bounds [of w a cum] True by auto
    ultimately show ?thesis
      using interp_le_last [OF assms(1), of "ramp_pos cum w a"] assms(3) by simp
  next
    case False
    then show ?thesis
      using l assms(2) by (cases cum) (auto simp: Some ramp_at_eq not_less)
  qed
qed

lemma ramp_at_mono:
  assumes "sorted cum" "cum \<noteq> []" "0 \<le> hd cum" "a \<le> b"
  shows "ramp_at cum w (Some a) \<le> ramp_at cum w (Some b)"
proof -
  note r = ramp_at_range [OF assms(1-3)]
  consider "a < rag_only_window_h w" | "rag_only_window_h w \<le> a" "lora_cap_age_h w \<le> b \<or> length cum = 1"
    | "rag_only_window_h w \<le> a" "b < lora_cap_age_h w" "length cum \<noteq> 1"
    by linarith
  then show ?thesis
  proof cases
    case 1
    then have "ramp_at cum w (Some a) = 0" by (simp add: ramp_at_eq)
    then show ?thesis using r by simp
  next
    case 2
    then have "ramp_at cum w (Some b) = last cum" using assms(4) by (auto simp: ramp_at_eq)
    then show ?thesis using r by simp
  next
    case 3
    then have len: "1 < length cum" using assms(2) by (cases cum) auto
    have b: "rag_only_window_h w \<le> b" "a < lora_cap_age_h w" using 3 assms(4) by auto
    show ?thesis
      using ramp_at_inside [OF 3(1) b(2) len] ramp_at_inside [OF b(1) 3(2) len]
        interp_mono [OF assms(1), of "ramp_pos cum w a" "ramp_pos cum w b"]
        ramp_pos_mono [OF assms(4), of w cum] ramp_pos_bounds [OF 3(1) b(2) len]
        ramp_pos_bounds [OF b(1) 3(2) len] 3(1,2) assms(4)
      by auto
  qed
qed

lemma interp_nat: "interp cum (of_nat i) = cum ! i"
  by (simp add: interp_def)

text \<open>The learning-rate multiplier of a chat never falls as the chat ages, and stays between
  zero and the last sample point of the ramp, whatever the ages, the window and the cap are, as
  long as the configured sample points are ascending and not negative.\<close>

theorem lr_multiplier_monotone_bounded:
  assumes "lr_ramp w \<noteq> []" "sorted (lr_ramp w)" "0 \<le> hd (lr_ramp w)" "a \<le> b"
  shows "\<exists>x y. lr_multiplier_hours (Some a) c w = Inr x \<and> lr_multiplier_hours (Some b) c w = Inr y
      \<and> 0 \<le> x \<and> x \<le> y \<and> y \<le> last (lr_ramp w)"
proof -
  note r = ramp_at_range [OF assms(2,1,3)]
  show ?thesis
    using r [of w "Some a"] r [of w "Some b"] ramp_at_mono [OF assms(2,1,3,4), of w] assms(1)
    by (simp add: lr_multiplier_hours_def)
qed

theorem lr_multiplier_monotone_bounded_witness:
  "\<exists>x y. lr_multiplier_hours (Some 30) (dialogue_cfg default_consolidation) default_wall = Inr x
      \<and> lr_multiplier_hours (Some 50) (dialogue_cfg default_consolidation) default_wall = Inr y
      \<and> 0 \<le> x \<and> x \<le> y \<and> y \<le> last (lr_ramp default_wall)"
  by (rule lr_multiplier_monotone_bounded) (simp_all add: default_wall_def)

text \<open>The ramp goes exactly through its sample points: at the age that is the \<open>i\<close>-th of the
  equally spaced positions between the RAG-only window and the cap, the multiplier is the
  \<open>i\<close>-th sample point; before the window it is zero and after the cap the last point.\<close>

theorem lr_multiplier_samples:
  assumes "1 < length (lr_ramp w)" "rag_only_window_h w < lora_cap_age_h w" "i < length (lr_ramp w)"
  shows "lr_multiplier_hours
      (Some (rag_only_window_h w + of_nat i *
        ((lora_cap_age_h w - rag_only_window_h w) / of_nat (length (lr_ramp w) - 1)))) c w
      = Inr (lr_ramp w ! i)
    \<and> (a < rag_only_window_h w \<longrightarrow> lr_multiplier_hours (Some a) c w = Inr 0)
    \<and> (lora_cap_age_h w \<le> a \<longrightarrow> lr_multiplier_hours (Some a) c w = Inr (last (lr_ramp w)))"
proof -
  let ?cum = "lr_ramp w" and ?n = "of_nat (length (lr_ramp w) - 1) :: rat"
  let ?d = "(lora_cap_age_h w - rag_only_window_h w) / ?n"
  let ?a = "rag_only_window_h w + of_nat i * ?d"
  have ne: "?cum \<noteq> []" using assms(1) by auto
  have d: "0 < ?d" using assms(1,2) by simp
  have pos: "ramp_pos ?cum w ?a = of_nat i"
    unfolding ramp_pos_def using d assms(1,2) by (simp only: add_diff_cancel_left') simp
  have "0 \<le> of_nat i * ?d" using d by (intro mult_nonneg_nonneg) auto
  then have win: "rag_only_window_h w \<le> ?a" by (simp only: le_add_same_cancel1)
  have "ramp_at ?cum w (Some ?a) = ?cum ! i"
  proof (cases "i = length ?cum - 1")
    case True
    then have "of_nat i * ?d = lora_cap_age_h w - rag_only_window_h w" using assms(1) by simp
    then have "lora_cap_age_h w \<le> ?a" by simp
    then show ?thesis using ramp_at_cap [OF win] ne True by (simp add: last_conv_nth)
  next
    case False
    then have "of_nat i < ?n" using assms(3) by simp
    then have "of_nat i * ?d < ?n * ?d" using d by (intro mult_strict_right_mono)
    moreover have "?n * ?d = lora_cap_age_h w - rag_only_window_h w" using assms(1) by simp
    ultimately have "?a < lora_cap_age_h w" by simp
    then show ?thesis
      using ramp_at_inside [OF win _ assms(1)] pos by (simp add: interp_nat)
  qed
  then show ?thesis
    using ne assms(2) by (simp add: lr_multiplier_hours_def ramp_at_eq [of _ _ a])
qed

theorem lr_multiplier_samples_witness:
  "lr_multiplier_hours (Some 48) (dialogue_cfg default_consolidation) default_wall = Inr 2"
  using lr_multiplier_samples [of default_wall 1 "dialogue_cfg default_consolidation"]
  by (simp add: default_wall_def)

lemma gist_after_peak:
  assumes "0 < rag_cap_age_h w" "rag_cap_age_h w < x"
  shows "gist_rag_weight_hours (Some x) w =
    (if gist_cap_age_h w \<le> rag_cap_age_h w \<or> gist_cap_age_h w \<le> x
     then clamp01 (gist_floor_weight w)
     else clamp01 (gist_floor_weight w) + (1 - clamp01 (gist_floor_weight w))
       * ((gist_cap_age_h w - x) / (gist_cap_age_h w - rag_cap_age_h w)))"
  using assms by (auto simp: gist_rag_weight_hours_def Let_def)

lemma gist_at_peak: "0 < rag_cap_age_h w \<Longrightarrow> gist_rag_weight_hours (Some (rag_cap_age_h w)) w = 1"
  by (auto simp: gist_rag_weight_hours_def Let_def)

lemma gist_range_after_peak:
  assumes "0 < rag_cap_age_h w" "rag_cap_age_h w \<le> x"
  shows "clamp01 (gist_floor_weight w) \<le> gist_rag_weight_hours (Some x) w
      \<and> gist_rag_weight_hours (Some x) w \<le> 1"
  using affine_leg_range [of "clamp01 (gist_floor_weight w)" "rag_cap_age_h w" "gist_cap_age_h w" x]
    gist_after_peak [OF assms(1), of x] gist_at_peak [OF assms(1)] assms(2)
  by (cases "x = rag_cap_age_h w") (auto simp del: times_divide_eq_right)

lemma gist_antimono_after_peak:
  assumes "0 < rag_cap_age_h w" "rag_cap_age_h w \<le> a" "a \<le> b"
  shows "gist_rag_weight_hours (Some b) w \<le> gist_rag_weight_hours (Some a) w"
proof (cases "a = rag_cap_age_h w")
  case True
  then show ?thesis using gist_at_peak gist_range_after_peak [of w b] assms by simp
next
  case False
  then have "rag_cap_age_h w < a" "rag_cap_age_h w < b" using assms by auto
  then show ?thesis
    using gist_after_peak [OF assms(1), of a] gist_after_peak [OF assms(1), of b] assms(3)
      affine_leg_antimono [of "clamp01 (gist_floor_weight w)" "rag_cap_age_h w" "gist_cap_age_h w" a b]
      affine_leg_range(1) [of "clamp01 (gist_floor_weight w)" "rag_cap_age_h w" "gist_cap_age_h w" a]
    by (auto simp del: times_divide_eq_right)
qed

text \<open>The handoff from the verbatim conversation to its recap: while the verbatim text fades,
  the two weights add up to exactly one, so neither representation is missing and they are never
  both at full weight; past the handoff the verbatim weight is zero and the recap only falls, never
  below its floor, which it holds from the end of its own decay on.\<close>

theorem verbatim_gist_handoff:
  assumes "0 < rag_cap_age_h w" "0 < a" "a \<le> b"
  shows "if a \<le> rag_cap_age_h w
    then verbatim_rag_weight_hours (Some a) w + gist_rag_weight_hours (Some a) w = 1
    else verbatim_rag_weight_hours (Some b) w = 0
      \<and> clamp01 (gist_floor_weight w) \<le> gist_rag_weight_hours (Some b) w
      \<and> gist_rag_weight_hours (Some b) w \<le> gist_rag_weight_hours (Some a) w
      \<and> (gist_cap_age_h w \<le> b \<longrightarrow> gist_rag_weight_hours (Some b) w = clamp01 (gist_floor_weight w))"
proof (cases "a \<le> rag_cap_age_h w")
  case True
  then show ?thesis
    using assms
    by (auto simp: verbatim_rag_weight_hours_def gist_rag_weight_hours_def Let_def
        add_divide_distrib [symmetric])
next
  case False
  then have "verbatim_rag_weight_hours (Some b) w = 0"
    using assms by (auto simp: verbatim_rag_weight_hours_def Let_def)
  then show ?thesis
    using False gist_range_after_peak [OF assms(1), of b] gist_antimono_after_peak [OF assms(1), of a b]
      gist_after_peak [OF assms(1), of b] assms(3)
    by auto
qed

theorem verbatim_gist_handoff_witness:
  "verbatim_rag_weight_hours (Some 24) default_wall + gist_rag_weight_hours (Some 24) default_wall = 1
   \<and> gist_rag_weight_hours (Some 150) default_wall \<le> gist_rag_weight_hours (Some 100) default_wall
   \<and> gist_rag_weight_hours (Some 500) default_wall = 1/5"
  using verbatim_gist_handoff [of default_wall 24 24] verbatim_gist_handoff [of default_wall 100 150]
    verbatim_gist_handoff [of default_wall 500 500]
  by (simp add: default_wall_def clamp01_def)

text \<open>The day-0 droop of an unreflected chat is always gentler than the verbatim fade, so
  combining the two by \<open>min\<close> gives exactly the verbatim weight and the day-0 penalty is never
  counted on top of the fade; this holds for every droop fraction up to one, whatever the horizon.\<close>

theorem fresh_never_below_verbatim:
  assumes "fresh_droop_frac w \<le> 1" "0 < rag_cap_age_h w"
  shows "min (verbatim_rag_weight_hours age w) (fresh_time_weight age w)
      = verbatim_rag_weight_hours age w"
proof (cases age)
  case None
  then show ?thesis by (simp add: verbatim_rag_weight_hours_def fresh_time_weight_def)
next
  case (Some a)
  let ?f = "fresh_droop_frac w" and ?h = "fresh_horizon_h w" and ?c = "rag_cap_age_h w"
  let ?v = "verbatim_rag_weight_hours"
  note r = verbatim.weight_range [OF TrueI, of _ w]
  show ?thesis
  proof (cases "a \<le> 0 \<or> ?f \<le> 0 \<or> ?h \<le> 0")
    case True
    then have "fresh_time_weight age w = 1" by (auto simp: Some fresh_time_weight_def Let_def)
    then show ?thesis using r [of age] by simp
  next
    case False
    then have a: "0 < a" and f: "0 < ?f" and h: "0 < ?h" by auto
    define x where "x = (if ?h \<le> a then 1 else a / ?h)"
    have fresh: "fresh_time_weight (Some a) w = 1 - ?f * (1 - ?v (Some ?h) w) * x"
      using False by (auto simp: fresh_time_weight_def Let_def x_def)
    have x: "0 \<le> x" "x \<le> 1" using a h by (auto simp: x_def field_simps)
    have drop: "(1 - ?v (Some ?h) w) * x \<le> 1 - ?v (Some a) w"
    proof (cases "?h \<le> a")
      case True
      then show ?thesis using verbatim.weight_antimono [OF TrueI, of ?h a w] by (simp add: x_def)
    next
      case hfalse: False
      have "(1 - ?v (Some ?h) w) * x \<le> (?h / ?c) * x"
        using x h assms(2)
        by (intro mult_right_mono) (auto simp: verbatim_rag_weight_hours_def Let_def field_simps)
      also have "\<dots> = a / ?c" using hfalse h by (simp add: x_def)
      finally have 1: "(1 - ?v (Some ?h) w) * x \<le> a / ?c" .
      have 2: "(1 - ?v (Some ?h) w) * x \<le> 1 * 1"
        using x r [of "Some ?h"] by (intro mult_mono) auto
      have "1 - ?v (Some a) w = (if ?c \<le> a then 1 else a / ?c)"
        using a assms(2) by (auto simp: verbatim_rag_weight_hours_def Let_def field_simps)
      then show ?thesis using 1 2 by auto
    qed
    have "0 \<le> (1 - ?v (Some ?h) w) * x" using x r [of "Some ?h"] by simp
    then have "?f * ((1 - ?v (Some ?h) w) * x) \<le> 1 * ((1 - ?v (Some ?h) w) * x)"
      using assms(1) by (intro mult_right_mono) auto
    then have "?f * (1 - ?v (Some ?h) w) * x \<le> 1 - ?v (Some a) w"
      using drop by (simp add: mult.assoc)
    then show ?thesis using fresh by (simp add: Some)
  qed
qed

theorem fresh_never_below_verbatim_witness:
  "min (verbatim_rag_weight_hours (Some 12) default_wall) (fresh_time_weight (Some 12) default_wall)
   = 7/8 \<and> fresh_time_weight (Some 12) default_wall = 15/16"
  using fresh_never_below_verbatim [of default_wall "Some 12"]
  by (simp add: default_wall_def verbatim_rag_weight_hours_def fresh_time_weight_def)

text \<open>The stage schedule: under the linear curve every stage has a number of training copies, that
  number never grows with the stage, it is at most the base at every stage, and from the last stage of
  the span on there are none, so an item that has decayed out stays deprecated.\<close>

theorem stage_schedule_decays:
  assumes "curve c = ''linear''" "0 \<le> base_variants c" "s \<le> t"
  shows "\<exists>v v'. variants_for_stage c s = Inr v \<and> variants_for_stage c t = Inr v'
      \<and> 0 \<le> v' \<and> v' \<le> v \<and> v \<le> base_variants c
      \<and> (decay_steps c \<le> t \<and> 0 < t \<longrightarrow> is_deprecated c t = Inr True)
      \<and> (is_deprecated c s = Inr True \<longrightarrow> is_deprecated c t = Inr True)"
proof -
  have total: "\<exists>v. variants_for_stage c r = Inr v" for r
    using modifier_linear [of r "decay_steps c"] by (auto simp: variants_eq assms(1))
  obtain v v' where v: "variants_for_stage c s = Inr v" and v': "variants_for_stage c t = Inr v'"
    using total by blast
  have le: "v' \<le> v" using variants_antimono [OF v v' assms(3,2)] .
  obtain m where m: "modifier s (decay_steps c) (curve c) = Inr m"
      "v = max 0 (py_round (of_int (base_variants c) * m))"
    using v by (auto simp: variants_eq)
  have "of_int (base_variants c) * m \<le> of_int (base_variants c) * 1"
    using modifier_range [OF m(1)] assms(2) by (intro mult_left_mono) auto
  then have "py_round (of_int (base_variants c) * m) \<le> py_round (of_int (base_variants c))"
    by (intro py_round_mono) simp
  then have base: "v \<le> base_variants c" using m(2) assms(2) by simp
  have nn: "0 \<le> v'" using v' by (rule variants_nonneg)
  have "is_deprecated c t = Inr True" if "decay_steps c \<le> t" "0 < t"
    using that by (auto simp: is_deprecated_def variants_for_stage_def modifier_def)
  moreover have "is_deprecated c t = Inr True" if "is_deprecated c s = Inr True"
    using that v v' le nn by (simp add: is_deprecated_def)
  ultimately show ?thesis using v v' le nn base by blast
qed

theorem stage_schedule_decays_witness:
  "\<exists>v v'. variants_for_stage (dialogue_cfg default_consolidation) 1 = Inr v
      \<and> variants_for_stage (dialogue_cfg default_consolidation) 3 = Inr v'
      \<and> 0 \<le> v' \<and> v' \<le> v \<and> v \<le> base_variants (dialogue_cfg default_consolidation)"
  using stage_schedule_decays [of "dialogue_cfg default_consolidation" 1 3]
  by (auto simp: default_consolidation_def)

end
