(* ===== verification/Rag_Policy.thy ===== *)
theory Rag_Policy
  imports Decay
begin

text \<open>
  \<open>server/inference/core/rag_policy.py\<close>: when a memory counts as known before a conversation, how long
  texts are cut into passages, how texts are clipped, and how a retrieved item is scored. A naive
  datetime is the list of its year, month, day, hour, minute, second and microsecond, compared
  lexicographically; \<open>fromiso\<close> is \<open>datetime.fromisoformat\<close> turned into local naive time.
\<close>

section \<open>Chronology\<close>

type_synonym dt = "int list"

definition month_days :: "int \<Rightarrow> int \<Rightarrow> int" where
  "month_days y m =
     (if m = 2 then (if (y mod 4 = 0 \<and> y mod 100 \<noteq> 0) \<or> y mod 400 = 0 then 29 else 28)
      else if m \<in> {4, 6, 9, 11} then 30 else 31)"

definition valid_dt :: "dt \<Rightarrow> bool" where
  "valid_dt t = (case t of
      [y, mo, d, h, mi, s, us] \<Rightarrow>
        1 \<le> y \<and> y \<le> 9999 \<and> 1 \<le> mo \<and> mo \<le> 12 \<and> 1 \<le> d \<and> d \<le> month_days y mo
        \<and> 0 \<le> h \<and> h < 24 \<and> 0 \<le> mi \<and> mi < 60 \<and> 0 \<le> s \<and> s < 60 \<and> 0 \<le> us \<and> us < 1000000
    | _ \<Rightarrow> False)"

definition all_digits :: "string \<Rightarrow> bool" where
  "all_digits s = list_all (\<lambda>c. digit_val c \<noteq> None) s"

definition num :: "string \<Rightarrow> int" where
  "num s = foldl (\<lambda>a c. 10 * a + (case digit_val c of Some v \<Rightarrow> int v | None \<Rightarrow> 0)) 0 s"

text \<open>The part after the last slash, \<open>rsplit("/", 1)[-1]\<close>.\<close>

definition after_slash :: "string \<Rightarrow> string" where
  "after_slash s = rev (takeWhile (\<lambda>c. c \<noteq> CHR ''/'') (rev s))"

text \<open>
  The stamp \<open>YYYYMMDD_HHMMSS\<close>, with or without \<open>.json\<close>. A matched stamp has exactly fourteen digits,
  so \<open>strptime\<close> reads each field at its full width.
\<close>

definition session_started_at :: "string \<Rightarrow> dt option" where
  "session_started_at v =
     (let name = removesuffix (after_slash (py_strip v)) ''.json'' in
      if length name = 15 \<and> name ! 8 = CHR ''_'' \<and> all_digits (take 8 name) \<and> all_digits (drop 9 name)
      then let t = [num (take 4 name), num (take 2 (drop 4 name)), num (take 2 (drop 6 name)),
                    num (take 2 (drop 9 name)), num (take 2 (drop 11 name)), num (take 2 (drop 13 name)), 0]
           in if valid_dt t then Some t else None
      else None)"

definition replace_Z :: "string \<Rightarrow> string" where
  "replace_Z s = concat (List.map (\<lambda>c. if c = CHR ''Z'' then ''+00:00'' else [c]) s)"

definition recorded_at :: "(string \<Rightarrow> dt option) \<Rightarrow> string \<Rightarrow> dt option" where
  "recorded_at fromiso v =
     (let raw = py_strip v in if raw = [] then None else fromiso (replace_Z raw))"

definition memory_available_before :: "(string \<Rightarrow> dt option) \<Rightarrow> jobj \<Rightarrow> string \<Rightarrow> bool py" where
  "memory_available_before fromiso entry before_session =
     (if before_session = [] then Inr True
      else case session_started_at before_session of
          None \<Rightarrow> Inr False
        | Some cutoff \<Rightarrow>
            py_bind (as_str (py_or (py_or (jget entry ''available_at'') (jget entry ''ts'')) (JStr []))) (\<lambda>a.
            case recorded_at fromiso a of
              Some t \<Rightarrow> Inr (t < cutoff)
            | None \<Rightarrow>
                py_bind (as_str (py_or (jget entry ''source_session'') (JStr []))) (\<lambda>s.
                  Inr (case session_started_at s of None \<Rightarrow> False | Some t \<Rightarrow> t < cutoff))))"

section \<open>Passages\<close>

definition slice :: "nat \<Rightarrow> nat \<Rightarrow> 'a list \<Rightarrow> 'a list" where
  "slice a b s = take (b - a) (drop a s)"

definition rfind :: "char \<Rightarrow> string \<Rightarrow> nat \<Rightarrow> nat \<Rightarrow> int" where
  "rfind c s a b = (case rev (filter (\<lambda>i. s ! i = c) [a..<min b (length s)]) of
      [] \<Rightarrow> - 1 | i # _ \<Rightarrow> int i)"

definition chunk_end :: "string \<Rightarrow> nat \<Rightarrow> nat \<Rightarrow> nat" where
  "chunk_end v limit start =
     (let n = length v; hard_end = min n (start + limit) in
      if hard_end < n then
        let lo = start + limit * 65 div 100;
            natural = max (rfind (CHR 0x0A) v lo hard_end) (rfind (CHR '' '') v lo hard_end)
        in if int start < natural then nat natural else hard_end
      else hard_end)"

function skip_space :: "string \<Rightarrow> nat \<Rightarrow> nat \<Rightarrow> nat" where
  "skip_space v p e = (if p < e \<and> is_space (v ! p) then skip_space v (p + 1) e else p)"
  by pat_completeness auto
termination by (relation "measure (\<lambda>(v, p, e). e - p)") auto

declare skip_space.simps [simp del]

definition next_chunk :: "string \<Rightarrow> nat \<Rightarrow> nat \<Rightarrow> nat \<Rightarrow> nat" where
  "next_chunk v overlap start e = skip_space v (max (start + 1) (e - overlap)) e"

lemma skip_space_ge: "p \<le> skip_space v p e"
proof (induction v p e rule: skip_space.induct)
  case (1 v p e)
  then show ?case by (subst skip_space.simps) auto
qed

lemma next_chunk_gt: "start < next_chunk v overlap start e"
  unfolding next_chunk_def using skip_space_ge [of "max (start + 1) (e - overlap)" v e] by simp

function chunk_loop :: "string \<Rightarrow> nat \<Rightarrow> nat \<Rightarrow> nat \<Rightarrow> string list" where
  "chunk_loop v limit overlap start =
     (if start < length v then
        let e = chunk_end v limit start; piece = py_strip (slice start e v);
            rest = (if length v \<le> e then [] else chunk_loop v limit overlap (next_chunk v overlap start e))
        in if piece \<noteq> [] then piece # rest else rest
      else [])"
  by pat_completeness auto
termination
  by (relation "measure (\<lambda>(v, limit, overlap, start). length v - start)")
     (use next_chunk_gt in \<open>auto intro: diff_less_mono2\<close>)

declare chunk_loop.simps [simp del]

definition chunk_text :: "string \<Rightarrow> int \<Rightarrow> int \<Rightarrow> string list" where
  "chunk_text text max_chars overlap_chars =
     (let v = py_strip text;
          limit = max 64 max_chars;
          overlap = max 0 (min overlap_chars (limit div 3)) in
      if v = [] then []
      else if int (length v) \<le> limit then [v]
      else chunk_loop v (nat limit) (nat overlap) 0)"

section \<open>Clipping\<close>

definition clipped :: "string \<Rightarrow> int \<Rightarrow> string \<Rightarrow> string" where
  "clipped text max_chars marker =
     (let v = py_strip text; limit = max 1 max_chars in
      if int (length v) \<le> limit then v
      else let keep = nat (max 1 (limit - int (length marker)));
               head = take keep v;
               cut = max (rfind (CHR 0x0A) head 0 (length head)) (rfind (CHR '' '') head 0 (length head));
               head = (if int (keep div 2) \<le> cut then take (nat cut) head else head)
           in rstrip_if is_space head @ marker)"

definition find_char :: "char \<Rightarrow> string \<Rightarrow> nat option" where
  "find_char c s = (case filter (\<lambda>i. s ! i = c) [0..<length s] of [] \<Rightarrow> None | i # _ \<Rightarrow> Some i)"

definition tail_clipped :: "string \<Rightarrow> int \<Rightarrow> string \<Rightarrow> string" where
  "tail_clipped text max_chars marker =
     (let v = py_strip text; limit = max 1 max_chars in
      if int (length v) \<le> limit then v
      else let keep = nat (max 1 (limit - int (length marker)));
               tail = drop (length v - keep) v;
               cut = (case (find_char (CHR '' '') tail, find_char (CHR 0x0A) tail) of
                   (None, None) \<Rightarrow> 0 | (Some i, None) \<Rightarrow> i | (None, Some i) \<Rightarrow> i | (Some i, Some j) \<Rightarrow> min i j);
               tail = (if cut \<le> length tail div 2 then drop cut tail else tail)
           in marker @ lstrip_if is_space tail)"

section \<open>Scoring\<close>

definition rank_score :: "rat \<Rightarrow> rat \<Rightarrow> rat \<Rightarrow> rat option" where
  "rank_score cosine md minimum = (if cosine < minimum then None else Some (cosine * max 0 md))"

context weight_curve
begin

lemma rank_gate_ageless: "(rank_score c (weight age w) m = None) \<longleftrightarrow> c < m"
  by (simp add: rank_score_def)

lemma rank_antimono:
  assumes "ok w" "0 \<le> c" "a \<le> b" "rank_score c (weight (Some b) w) m = Some y"
  shows "\<exists>x. rank_score c (weight (Some a) w) m = Some x \<and> 0 \<le> y \<and> y \<le> x \<and> x \<le> c"
  using assms weighted_antimono [OF assms(1-3)] weight_range [OF assms(1), of "Some a"]
    weight_range [OF assms(1), of "Some b"] weight_scales_down [OF assms(1,2), of "Some a"]
  by (auto simp: rank_score_def split: if_splits)

end

text \<open>Age only orders what is relevant. Whether an item passes the relevance gate depends on its
  similarity alone, never on its age, and for an item that passes, growing older never raises its score
  and never takes it below zero. This holds for the verbatim, persona and recollection weights.\<close>

theorem ageing_only_reorders:
  assumes "0 \<le> c" "a \<le> b" "wt \<in> {verbatim_rag_weight_hours, rag_weight_hours, recollection_rag_weight_hours}"
  shows "(rank_score c (wt (Some b) w) m = None \<longleftrightarrow> c < m)
    \<and> (\<forall>y. rank_score c (wt (Some b) w) m = Some y \<longrightarrow>
         (\<exists>x. rank_score c (wt (Some a) w) m = Some x \<and> 0 \<le> y \<and> y \<le> x \<and> x \<le> c))"
  using assms(3) verbatim.rank_antimono [OF TrueI assms(1,2)] persona.rank_antimono [OF TrueI assms(1,2)]
    recollection.rank_antimono [OF TrueI assms(1,2)]
  by (auto simp: verbatim.rank_gate_ageless persona.rank_gate_ageless recollection.rank_gate_ageless)

theorem ageing_only_reorders_witness:
  "rank_score (9/10) (verbatim_rag_weight_hours (Some 48) default_wall) (1/2) = Some (9/20)
   \<and> (\<exists>x. rank_score (9/10) (verbatim_rag_weight_hours (Some 10) default_wall) (1/2) = Some x \<and> 9/20 \<le> x)"
proof -
  have v: "rank_score (9/10) (verbatim_rag_weight_hours (Some 48) default_wall) (1/2) = Some (9/20)"
    by (simp add: rank_score_def verbatim_rag_weight_hours_def default_wall_def)
  have "\<forall>y. rank_score (9/10) (verbatim_rag_weight_hours (Some 48) default_wall) (1/2) = Some y \<longrightarrow>
         (\<exists>x. rank_score (9/10) (verbatim_rag_weight_hours (Some 10) default_wall) (1/2) = Some x
           \<and> 0 \<le> y \<and> y \<le> x \<and> x \<le> 9/10)"
    by (rule ageing_only_reorders [THEN conjunct2]) simp_all
  with v show ?thesis by blast
qed

section \<open>Passages cover the text\<close>

lemma rfind_bounds: "rfind c s a b = - 1 \<or> (int a \<le> rfind c s a b \<and> rfind c s a b < int (min b (length s)))"
proof (cases "rev (filter (\<lambda>i. s ! i = c) [a..<min b (length s)])")
  case (Cons i is')
  then have "i \<in> set (filter (\<lambda>i. s ! i = c) [a..<min b (length s)])" by (metis list.set_intros(1) set_rev)
  then show ?thesis using Cons by (auto simp: rfind_def)
qed (simp add: rfind_def)

lemma chunk_end_bounds:
  assumes "start < length v" "0 < limit"
  shows "start < chunk_end v limit start" "chunk_end v limit start \<le> length v"
    "chunk_end v limit start \<le> start + limit"
proof -
  define h where "h = min (length v) (start + limit)"
  define nat' where "nat' = max (rfind (CHR 0x0A) v (start + limit * 65 div 100) h)
      (rfind (CHR '' '') v (start + limit * 65 div 100) h)"
  have h: "start < h" "h \<le> length v" "h \<le> start + limit" using assms by (simp_all add: h_def)
  have "rfind c v x h < int h" for c x using rfind_bounds [of c v x h] h by fastforce
  then have n: "nat' < int h" by (simp add: nat'_def)
  have e: "chunk_end v limit start = (if h < length v \<and> int start < nat' then nat nat' else h)"
    unfolding chunk_end_def Let_def h_def [symmetric] nat'_def [symmetric] by simp
  show "start < chunk_end v limit start" "chunk_end v limit start \<le> length v"
    "chunk_end v limit start \<le> start + limit"
    unfolding e using h n by auto
qed

lemma skip_space_le: "p \<le> e \<Longrightarrow> skip_space v p e \<le> e"
proof (induction v p e rule: skip_space.induct)
  case (1 v p e)
  then show ?case by (subst skip_space.simps) auto
qed

lemma next_chunk_le: "start < e \<Longrightarrow> next_chunk v overlap start e \<le> e"
  unfolding next_chunk_def by (rule skip_space_le) auto

definition windows_ok :: "string \<Rightarrow> nat \<Rightarrow> nat \<Rightarrow> (nat \<times> nat) list \<Rightarrow> bool" where
  "windows_ok v limit start ws =
     ((\<forall>(a, b) \<in> set ws. start \<le> a \<and> a < b \<and> b \<le> length v \<and> b - a \<le> limit)
      \<and> (\<forall>i. start \<le> i \<and> i < length v \<longrightarrow> (\<exists>(a, b) \<in> set ws. a \<le> i \<and> i < b)))"

lemma windows_ok_Cons:
  assumes "start < e" "e \<le> length v" "e - start \<le> limit" "nxt \<le> e" "start < nxt"
    and "windows_ok v limit nxt ws"
  shows "windows_ok v limit start ((start, e) # ws)"
  unfolding windows_ok_def
proof (intro conjI allI impI)
  show "\<forall>(a, b) \<in> set ((start, e) # ws). start \<le> a \<and> a < b \<and> b \<le> length v \<and> b - a \<le> limit"
    using assms by (fastforce simp: windows_ok_def)
  fix i assume i: "start \<le> i \<and> i < length v"
  show "\<exists>(a, b) \<in> set ((start, e) # ws). a \<le> i \<and> i < b"
  proof (cases "i < e")
    case False
    then have "nxt \<le> i" using assms(4) by simp
    then show ?thesis using assms(6) i by (auto simp: windows_ok_def)
  qed (use i in auto)
qed

lemma windows_ok_last: "start < length v \<Longrightarrow> length v - start \<le> limit \<Longrightarrow> windows_ok v limit start [(start, length v)]"
  by (auto simp: windows_ok_def)

lemma chunk_loop_windows:
  assumes "0 < limit"
  shows "\<exists>ws. chunk_loop v limit overlap start =
      filter (\<lambda>c. c \<noteq> []) (List.map (\<lambda>(a, b). py_strip (slice a b v)) ws) \<and> windows_ok v limit start ws"
  using assms
proof (induction v limit overlap start rule: chunk_loop.induct)
  case (1 v limit overlap start)
  let ?e = "chunk_end v limit start" let ?n = "next_chunk v overlap start ?e"
  show ?case
  proof (cases "start < length v")
    case False
    then show ?thesis by (intro exI [of _ "[]"]) (simp add: chunk_loop.simps windows_ok_def)
  next
    case True
    note e = chunk_end_bounds [OF True "1.prems"]
    show ?thesis
    proof (cases "length v \<le> ?e")
      case stop: True
      then have "?e = length v" using e by simp
      then have "windows_ok v limit start [(start, ?e)]"
        using windows_ok_last [OF True, of limit] e by simp
      then show ?thesis
        using True stop by (intro exI [of _ "[(start, ?e)]"]) (simp add: chunk_loop.simps [of v] Let_def)
    next
      case False
      obtain ws where ws: "chunk_loop v limit overlap ?n =
          filter (\<lambda>c. c \<noteq> []) (List.map (\<lambda>(a, b). py_strip (slice a b v)) ws)" "windows_ok v limit ?n ws"
        using "1.IH" [OF True refl refl False "1.prems"] by blast
      have "windows_ok v limit start ((start, ?e) # ws)"
        using e next_chunk_le [OF e(1)] next_chunk_gt ws(2) by (intro windows_ok_Cons [where nxt = ?n]) auto
      then show ?thesis
        using True False ws(1)
        by (intro exI [of _ "(start, ?e) # ws"]) (simp add: chunk_loop.simps [of v limit overlap start] Let_def)
    qed
  qed
qed

text \<open>Cutting a text into passages loses nothing. The passages are the stripped, non-empty contents of
  windows of the stripped text; every window is non-empty, inside the text and no longer than the limit
  (at least 64), and together the windows cover every character. The loop always ends.\<close>

theorem passages_cover_text:
  "\<exists>ws. chunk_text text max_chars overlap_chars =
      filter (\<lambda>c. c \<noteq> []) (List.map (\<lambda>(a, b). py_strip (slice a b (py_strip text))) ws)
    \<and> list_all (\<lambda>(a, b). a < b \<and> b \<le> length (py_strip text) \<and> int (b - a) \<le> max 64 max_chars) ws
    \<and> (\<forall>i. i \<in> {0..<length (py_strip text)} = (\<exists>a b. (a, b) \<in> set ws \<and> a \<le> i \<and> i < b))"
proof -
  let ?v = "py_strip text"
  define limit where "limit = nat (max 64 max_chars)"
  have lim: "0 < limit" "int limit = max 64 max_chars" by (simp_all add: limit_def)
  have ok: "list_all (\<lambda>(a, b). a < b \<and> b \<le> length ?v \<and> int (b - a) \<le> max 64 max_chars) ws
    \<and> (\<forall>i. i \<in> {0..<length ?v} = (\<exists>a b. (a, b) \<in> set ws \<and> a \<le> i \<and> i < b))"
    if "windows_ok ?v limit 0 ws" for ws
    using that by (fastforce simp: windows_ok_def list_all_iff lim(2) [symmetric])
  consider (empty) "?v = []" | (short) "?v \<noteq> []" "int (length ?v) \<le> max 64 max_chars"
    | (long) "?v \<noteq> []" "\<not> int (length ?v) \<le> max 64 max_chars" by blast
  then have "\<exists>ws. chunk_text text max_chars overlap_chars =
      filter (\<lambda>c. c \<noteq> []) (List.map (\<lambda>(a, b). py_strip (slice a b ?v)) ws) \<and> windows_ok ?v limit 0 ws"
  proof cases
    case empty
    then have "windows_ok ?v limit 0 []" by (simp add: windows_ok_def)
    moreover have "chunk_text text max_chars overlap_chars = []" using empty by (simp add: chunk_text_def Let_def)
    ultimately show ?thesis by (intro exI [of _ "[]"]) simp
  next
    case short
    have "windows_ok ?v limit 0 [(0, length ?v)]"
      by (rule windows_ok_last) (use short lim(2) in auto)
    moreover have "chunk_text text max_chars overlap_chars = [?v]"
      using short by (simp add: chunk_text_def Let_def)
    moreover have "py_strip (slice 0 (length ?v) ?v) = ?v" by (simp add: slice_def)
    ultimately show ?thesis using short(1) by (intro exI [of _ "[(0, length ?v)]"]) simp
  next
    case long
    then have "chunk_text text max_chars overlap_chars =
        chunk_loop ?v limit (nat (max 0 (min overlap_chars (max 64 max_chars div 3)))) 0"
      by (simp add: chunk_text_def Let_def limit_def)
    then show ?thesis using chunk_loop_windows [OF lim(1)] by simp
  qed
  then show ?thesis using ok by blast
qed

section \<open>Clipped texts\<close>

lemma rstrip_take: "\<exists>n. rstrip_if p s = take n s"
proof -
  have "s = rstrip_if p s @ rev (takeWhile p (rev s))"
    unfolding rstrip_if_def by (metis rev_append rev_rev_ident takeWhile_dropWhile_id)
  then show ?thesis by (metis append_eq_conv_conj)
qed

lemma lstrip_drop: "\<exists>n. lstrip_if p s = drop n s"
  unfolding lstrip_if_def by (metis dropWhile_eq_drop)

text \<open>Clipping respects its bound. A text that fits is returned whole (stripped); otherwise the result is
  a prefix of it followed by the marker, or the marker followed by a suffix of it, never longer than
  the limit as long as the limit leaves room for the marker and one character.\<close>

theorem clipping_bounds:
  assumes "int (length marker) < max_chars"
  shows "int (length (clipped text max_chars marker)) \<le> max_chars
    \<and> int (length (tail_clipped text max_chars marker)) \<le> max_chars
    \<and> (if int (length (py_strip text)) \<le> max_chars
        then clipped text max_chars marker = py_strip text \<and> tail_clipped text max_chars marker = py_strip text
        else (\<exists>n. clipped text max_chars marker = take n (py_strip text) @ marker)
           \<and> (\<exists>n. tail_clipped text max_chars marker = marker @ drop n (py_strip text)))"
proof (cases "int (length (py_strip text)) \<le> max_chars")
  case True
  then show ?thesis using assms by (auto simp: clipped_def tail_clipped_def Let_def)
next
  case False
  let ?v = "py_strip text"
  define keep where "keep = nat (max 1 (max_chars - int (length marker)))"
  have lim: "max 1 max_chars = max_chars" "int keep + int (length marker) = max_chars"
    using assms by (auto simp: keep_def)
  obtain h where h: "clipped text max_chars marker = rstrip_if is_space h @ marker" "\<exists>n. h = take n (take keep ?v)"
  proof -
    define cut where "cut = max (rfind (CHR 0x0A) (take keep ?v) 0 (length (take keep ?v)))
        (rfind (CHR '' '') (take keep ?v) 0 (length (take keep ?v)))"
    define h where "h = (if int (keep div 2) \<le> cut then take (nat cut) (take keep ?v) else take keep ?v)"
    have "clipped text max_chars marker = rstrip_if is_space h @ marker"
      unfolding clipped_def Let_def lim(1) h_def cut_def keep_def using False by simp
    moreover have "\<exists>n. h = take n (take keep ?v)" by (auto simp: h_def intro: exI [of _ keep])
    ultimately show thesis by (rule that)
  qed
  obtain t where t: "tail_clipped text max_chars marker = marker @ lstrip_if is_space t"
    "\<exists>n. t = drop n (drop (length ?v - keep) ?v)"
  proof -
    define tail where "tail = drop (length ?v - keep) ?v"
    define cut where "cut = (case (find_char (CHR '' '') tail, find_char (CHR 0x0A) tail) of
                   (None, None) \<Rightarrow> 0 | (Some i, None) \<Rightarrow> i | (None, Some i) \<Rightarrow> i | (Some i, Some j) \<Rightarrow> min i j)"
    define t where "t = (if cut \<le> length tail div 2 then drop cut tail else tail)"
    have "tail_clipped text max_chars marker = marker @ lstrip_if is_space t"
      unfolding tail_clipped_def Let_def lim(1) t_def cut_def tail_def keep_def using False by simp
    moreover have "\<exists>n. t = drop n (drop (length ?v - keep) ?v)"
      unfolding t_def tail_def by (auto intro: exI [of _ cut] exI [of _ 0])
    ultimately show thesis by (rule that)
  qed
  have "length (rstrip_if is_space h) \<le> keep" "length (lstrip_if is_space t) \<le> keep"
    using length_rstrip_if [of is_space h] length_lstrip_if [of is_space t] h(2) t(2) by auto
  moreover have "\<exists>n. rstrip_if is_space h = take n ?v" "\<exists>n. lstrip_if is_space t = drop n ?v"
    using rstrip_take [of is_space h] lstrip_drop [of is_space t] h(2) t(2)
    by (metis take_take, metis drop_drop)
  ultimately show ?thesis using False h(1) t(1) lim(2) by auto
qed

theorem clipping_bounds_witness:
  "int (length (clipped ''one two three four'' 12 ''...'')) \<le> 12
   \<and> clipped ''one two three four'' 12 ''...'' = ''one two...''"
proof -
  have "clipped ''one two three four'' 12 ''...'' = ''one two...''" by code_simp
  then show ?thesis using clipping_bounds [of "''...''" 12 "''one two three four''"] by simp
qed

end
