(* ===== verification/Gist.thy ===== *)
theory Gist
  imports Sidecar Rag_Policy
begin

text \<open>
  The consolidation summaries of \<open>server/inference/core/chat_sidecar.py\<close>: what is kept of a generated
  summary, how one is shortened, and the summary and fact files beside the state document. \<open>dots\<close> is the
  elision mark. The bullet U+2022 the source also strips, and the ellipsis it also cuts at, are outside
  the model's alphabet.
\<close>

section \<open>Lines, words and paragraphs\<close>

definition is_eol :: "char \<Rightarrow> bool" where
  "is_eol c = ((of_char c :: nat) \<in> {10, 11, 12, 13, 28, 29, 30, 133})"

fun lines_from :: "string \<Rightarrow> string \<Rightarrow> string list" where
  "lines_from cur [] = (if cur = [] then [] else [cur])"
| "lines_from cur (c # cs) =
     (if c = CHR 0x0D \<and> startswith cs [CHR 0x0A] then cur # lines_from [] (drop 1 cs)
      else if is_eol c then cur # lines_from [] cs
      else lines_from (cur @ [c]) cs)"

definition splitlines :: "string \<Rightarrow> string list" where
  "splitlines s = lines_from [] s"

fun words_from :: "string \<Rightarrow> string \<Rightarrow> string list" where
  "words_from cur [] = (if cur = [] then [] else [cur])"
| "words_from cur (c # cs) =
     (if is_space c then (if cur = [] then words_from [] cs else cur # words_from [] cs)
      else words_from (cur @ [c]) cs)"

fun join :: "string \<Rightarrow> string list \<Rightarrow> string" where
  "join sep [] = []"
| "join sep [x] = x"
| "join sep (x # y # ys) = x @ sep @ join sep (y # ys)"

fun paras_from :: "string \<Rightarrow> string \<Rightarrow> string list" where
  "paras_from cur [] = [cur]"
| "paras_from cur (c # cs) =
     (if c = CHR 0x0A \<and> startswith cs [CHR 0x0A] then cur # paras_from [] (drop 1 cs)
      else paras_from (cur @ [c]) cs)"

lemma words_leading: "\<forall>c \<in> set w. is_space c \<Longrightarrow> words_from [] (w @ s) = words_from [] s"
  by (induction w) simp_all

lemma words_trailing: "\<forall>c \<in> set w. is_space c \<Longrightarrow> words_from cur (s @ w) = words_from cur s"
proof (induction cur s rule: words_from.induct)
  case (1 cur)
  have "words_from [] w = []" using 1 words_leading [of w "[]"] by simp
  then show ?case using 1 by (cases w) auto
qed auto

definition find_str :: "string \<Rightarrow> string \<Rightarrow> nat option" where
  "find_str s p = (case filter (\<lambda>i. take (length p) (drop i s) = p) [0..<length s + 1 - length p] of
      [] \<Rightarrow> None | i # _ \<Rightarrow> Some i)"

section \<open>Sanitation\<close>

definition gist_min_chars :: nat where
  "gist_min_chars = 40"

definition gist_struct_words :: "string list" where
  "gist_struct_words = [''rag'', ''weights'', ''resolved'', ''final verdict'']"

definition gist_is_structure_boundary :: "string \<Rightarrow> bool" where
  "gist_is_structure_boundary line =
     (let s = py_strip line in
      if s = [] then False
      else if s \<in> {''***'', ''---'', ''* * *'', ''___''} then True
      else
        let low = py_lower s;
            body = py_strip (lstrip_if (\<lambda>c. c \<in> set [CHR ''-'', CHR ''*'', CHR 0xB7, CHR '' '']) low);
            hdr = py_strip (rstrip_if (\<lambda>c. c \<in> set ''*: '') (lstrip_if (\<lambda>c. c \<in> set ''#* '') low))
        in list_ex (startswith body) [''[fact]'', ''[ask'', ''[persona]'', ''[resolved]'']
           \<or> list_ex (startswith hdr) gist_struct_words
           \<or> list_ex (startswith low) [''weights:'', ''rag:'', ''verdict:'', ''resolved:''])"

definition sanitize_gist :: "string \<Rightarrow> string" where
  "sanitize_gist text =
     (let t0 = py_strip text;
          t = (case find_str (py_lower t0) ''<eos>'' of None \<Rightarrow> t0 | Some i \<Rightarrow> rstrip_if is_space (take i t0));
          kept = takeWhile (\<lambda>l. \<not> gist_is_structure_boundary l) (splitlines t);
          kept = dropWhile (\<lambda>l. startswith (lstrip_if is_space l) ''#'') kept;
          kept = dropWhile (\<lambda>l. py_strip l = []) kept;
          out = py_strip (join [CHR 0x0A] kept)
      in if length (join '' '' (words_from [] out)) < gist_min_chars then [] else out)"

definition para_sep :: string where
  "para_sep = [CHR 0x0A, CHR 0x0A]"

fun keep_paras :: "int \<Rightarrow> nat \<Rightarrow> string list \<Rightarrow> string list \<Rightarrow> string list" where
  "keep_paras cap n kept [] = kept"
| "keep_paras cap n kept (p # ps) =
     (if kept \<noteq> [] \<and> cap < int (n + length p) then kept
      else if cap \<le> int (n + length p) then kept @ [p]
      else keep_paras cap (n + length p) (kept @ [p]) ps)"

definition gist_excerpt :: "string \<Rightarrow> string \<Rightarrow> nat \<Rightarrow> string" where
  "gist_excerpt dots text cap =
     (let t = py_strip text in
      if t = [] then []
      else
        let paras = filter (\<lambda>p. p \<noteq> []) (List.map py_strip (paras_from [] t));
            full = join para_sep paras
        in if length full \<le> cap then full
           else
             let out = py_strip (join para_sep (keep_paras (int cap) 0 [] paras));
                 out = (if cap < length out then
                     let head = take cap out;
                         cut = Max ((\<lambda>c. rfind c head 0 (length head)) ` set ''.!?'')
                     in if int (cap div 3) \<le> cut then py_strip (take (nat (cut + 1)) head) else rstrip_if is_space head
                   else out)
             in if out = full then out else out @ dots)"

section \<open>The summary file\<close>

definition usable_summary :: "jobj \<Rightarrow> jobj option py" where
  "usable_summary d =
     py_bind (as_str (py_or (jget d ''text'') (JStr []))) (\<lambda>t.
       let text = sanitize_gist t in Inr (if text = [] then None else Some (dset ''text'' (JStr text) d)))"

definition summary_in :: "chats_dir \<Rightarrow> string option \<Rightarrow> jobj option py" where
  "summary_in dir path = (case path of
      None \<Rightarrow> Inr None
    | Some f \<Rightarrow> (case dget dir f of Some (Parsed (JObj d)) \<Rightarrow> usable_summary d | _ \<Rightarrow> Inr None))"

definition read_summary :: "sidecar \<Rightarrow> string \<Rightarrow> jobj py" where
  "read_summary s source_session =
     py_bind (summary_in (main_dir s) (resolve_summary_path source_session)) (\<lambda>r1.
     case r1 of Some d \<Rightarrow> Inr d | None \<Rightarrow>
     py_bind (case fallback_dir s of None \<Rightarrow> Inr None
              | Some fb \<Rightarrow> summary_in fb (resolve_summary_path source_session)) (\<lambda>r2.
     case r2 of Some d \<Rightarrow> Inr d | None \<Rightarrow>
     (case jget (load s source_session) ''consolidation_summary'' of
        JObj legacy \<Rightarrow> py_bind (usable_summary legacy) (\<lambda>r3. Inr (case r3 of Some d \<Rightarrow> d | None \<Rightarrow> []))
      | _ \<Rightarrow> Inr [])))"

definition summary_text :: "sidecar \<Rightarrow> string \<Rightarrow> string py" where
  "summary_text s source_session =
     py_bind (read_summary s source_session) (\<lambda>d. strip_or_empty (jget d ''text''))"

definition write_summary ::
  "bool \<Rightarrow> string \<Rightarrow> string \<Rightarrow> string \<Rightarrow> string \<Rightarrow> string \<Rightarrow> sidecar \<Rightarrow> bool \<times> sidecar" where
  "write_summary ok ts source_session summary run_id live s =
     (let clean = sanitize_gist summary in
      if clean = [] then (False, s)
      else if is_live_session source_session live then (False, s)
      else case resolve_summary_path source_session of
          None \<Rightarrow> (False, s)
        | Some f \<Rightarrow> save ok s f
            [(''source_session'', JStr source_session), (''text'', JStr clean),
             (''run_id'', JStr run_id), (''ts'', JStr ts)])"

section \<open>The fact file\<close>

definition facts_in :: "chats_dir \<Rightarrow> string option \<Rightarrow> jobj option" where
  "facts_in dir path = (case path of
      None \<Rightarrow> None
    | Some f \<Rightarrow> (case dget dir f of
          Some (Parsed (JObj d)) \<Rightarrow> (case jget d ''facts'' of JList _ \<Rightarrow> Some d | _ \<Rightarrow> None)
        | _ \<Rightarrow> None))"

definition read_facts :: "sidecar \<Rightarrow> string \<Rightarrow> jobj" where
  "read_facts s source_session =
     (case facts_in (main_dir s) (resolve_facts_path source_session) of
        Some d \<Rightarrow> d
      | None \<Rightarrow>
          (case fallback_dir s of None \<Rightarrow> []
           | Some fb \<Rightarrow> (case facts_in fb (resolve_facts_path source_session) of Some d \<Rightarrow> d | None \<Rightarrow> [])))"

definition write_facts ::
  "bool \<Rightarrow> string \<Rightarrow> string \<Rightarrow> json list \<Rightarrow> string \<Rightarrow> string \<Rightarrow> string \<Rightarrow> sidecar \<Rightarrow> bool \<times> sidecar" where
  "write_facts ok ts source_session facts run_id source_user live s =
     (if facts = [] then (False, s)
      else if is_live_session source_session live then (False, s)
      else case resolve_facts_path source_session of
          None \<Rightarrow> (False, s)
        | Some f \<Rightarrow> save ok s f
            [(''source_session'', JStr source_session), (''source_user'', JStr source_user),
             (''facts'', JList facts), (''run_id'', JStr run_id), (''ts'', JStr ts)])"

section \<open>Properties\<close>

lemma sanitize_length: "sanitize_gist t \<noteq> [] \<Longrightarrow> gist_min_chars \<le> length (join '' '' (words_from [] (sanitize_gist t)))"
  by (auto simp: sanitize_gist_def Let_def split: if_splits)

text \<open>A summary outlives the reflection that wrote it. A summary that is accepted is stored sanitized; as
  long as reading it back leaves something, it is what every later read returns, also after the session's
  state document has been deleted, and the stored text is at least the minimum length. A summary with no
  usable prose is refused and whatever was stored before stands.\<close>

theorem summary_outlives_state:
  assumes "resolve_summary_path x \<noteq> None" "\<not> is_live_session x live"
  shows "if sanitize_gist summary = [] then write_summary ok ts x summary run_id live s = (False, s)
    else fst (write_summary True ts x summary run_id live s)
      \<and> gist_min_chars \<le> length (join '' '' (words_from [] (sanitize_gist summary)))
      \<and> (sanitize_gist (sanitize_gist summary) \<noteq> [] \<longrightarrow>
          (\<forall>f. resolve_sidecar_path x = Some f \<longrightarrow>
            (\<exists>d. read_summary (snd (write_summary True ts x summary run_id live s)
                  \<lparr>main_dir := dpop f (main_dir (snd (write_summary True ts x summary run_id live s)))\<rparr>) x = Inr d
              \<and> jget d ''text'' = JStr (sanitize_gist (sanitize_gist summary))
              \<and> read_summary (snd (write_summary True ts x summary run_id live s)) x = Inr d)))"
proof (cases "sanitize_gist summary = []")
  case True
  then show ?thesis by (simp add: write_summary_def)
next
  case False
  obtain c where c: "resolve_chat_path x = Some c" using assms(1) by (auto simp: resolve_summary_path_def)
  let ?f = "summary_path_for c"
  let ?d = "[(''source_session'', JStr x), (''text'', JStr (sanitize_gist summary)),
             (''run_id'', JStr run_id), (''ts'', JStr ts)]"
  have w: "write_summary True ts x summary run_id live s = save True s ?f ?d"
    using False assms(2) by (simp add: write_summary_def Let_def resolve_summary_path_def c)
  have ne: "?f \<noteq> sidecar_path_for c" by (simp add: summary_path_for_def sidecar_path_for_def)
  have "\<exists>d. read_summary (snd (save True s ?f ?d)\<lparr>main_dir := dpop f (main_dir (snd (save True s ?f ?d)))\<rparr>) x = Inr d
      \<and> jget d ''text'' = JStr (sanitize_gist (sanitize_gist summary))
      \<and> read_summary (snd (save True s ?f ?d)) x = Inr d"
    if "sanitize_gist (sanitize_gist summary) \<noteq> []" "resolve_sidecar_path x = Some f" for f
  proof -
    have "f = sidecar_path_for c" using that(2) by (simp add: resolve_sidecar_path_def c)
    then show ?thesis
      using that(1) ne False
      by (simp add: read_summary_def summary_in_def resolve_summary_path_def c save_def usable_summary_def py_or_def)
  qed
  then show ?thesis using False sanitize_length [OF False] by (simp add: w docs.save_result)
qed

definition sample_prose :: string where
  "sample_prose = ''We talked about the long winter and what it left behind in us.''"

theorem summary_outlives_state_witness:
  "fst (write_summary True ''t'' ''a.json'' sample_prose ''r'' ''b.json'' sample_sidecar)
   \<and> (\<exists>d. read_summary (snd (write_summary True ''t'' ''a.json'' sample_prose ''r'' ''b.json'' sample_sidecar)) ''a.json'' = Inr d
        \<and> jget d ''text'' = JStr sample_prose)"
proof -
  have "resolve_summary_path ''a.json'' \<noteq> None" "\<not> is_live_session ''a.json'' ''b.json''"
    "sanitize_gist sample_prose = sample_prose" "sample_prose \<noteq> []"
    "resolve_sidecar_path ''a.json'' = Some ''a.state.json''"
    by code_simp+
  with summary_outlives_state [of "''a.json''" "''b.json''" sample_prose True "''t''" "''r''" sample_sidecar]
  show ?thesis by auto
qed

text \<open>
  Sanitation is not idempotent: of two header lines with a blank line between them only the first is
  dropped, so the writer stores a text the reader shortens, here below the minimum, and a summary whose
  writing succeeded is read back as no summary at all.
\<close>

definition two_headers :: string where
  "two_headers = ''# Reflection'' @ [CHR 0x0A, CHR 0x0A] @ ''# On the long conversation we had in May'' @ [CHR 0x0A] @ ''It went well.''"

definition one_header :: string where
  "one_header = ''# On the long conversation we had in May'' @ [CHR 0x0A] @ ''It went well.''"

lemma sanitize_not_idempotent: "sanitize_gist two_headers = one_header \<and> sanitize_gist one_header = []"
  by code_simp

lemma accepted_summary_lost:
  "fst (write_summary True ''t'' ''a.json'' two_headers ''r'' ''b.json'' sample_sidecar)
   \<and> read_summary (snd (write_summary True ''t'' ''a.json'' two_headers ''r'' ''b.json'' sample_sidecar)) ''a.json'' = Inr []"
proof -
  have paths: "resolve_summary_path ''a.json'' = Some ''a.summary.json''" "\<not> is_live_session ''a.json'' ''b.json''"
    "resolve_sidecar_path ''a.json'' = Some ''a.state.json''" "one_header \<noteq> []"
    by code_simp+
  have w: "write_summary True ''t'' ''a.json'' two_headers ''r'' ''b.json'' sample_sidecar = save True sample_sidecar ''a.summary.json''
      [(''source_session'', JStr ''a.json''), (''text'', JStr one_header), (''run_id'', JStr ''r''), (''ts'', JStr ''t'')]"
    using paths sanitize_not_idempotent by (simp add: write_summary_def)
  have "jget (load sample_sidecar ''a.json'') ''consolidation_summary'' = JNull" by code_simp
  then have leg: "jget (load (snd (save True sample_sidecar ''a.summary.json'' d)) ''a.json'') ''consolidation_summary'' = JNull" for d
    using docs.load_other [of "''a.json''" "''a.summary.json''"] paths(3) by simp
  define t where "t = snd (save True sample_sidecar ''a.summary.json''
      [(''source_session'', JStr ''a.json''), (''text'', JStr one_header), (''run_id'', JStr ''r''), (''ts'', JStr ''t'')])"
  have t: "dget (main_dir t) ''a.summary.json'' = Some (Parsed (JObj
      [(''source_session'', JStr ''a.json''), (''text'', JStr one_header), (''run_id'', JStr ''r''), (''ts'', JStr ''t''),
       (''schema_version'', JInt 1)]))" "fallback_dir t = None"
    "jget (load t ''a.json'') ''consolidation_summary'' = JNull"
    by (simp add: t_def save_def sample_sidecar_def, simp add: t_def save_def sample_sidecar_def,
        unfold t_def, rule leg)
  have "read_summary t ''a.json'' = Inr []"
    using sanitize_not_idempotent paths(4)
    by (simp add: read_summary_def summary_in_def paths(1) t usable_summary_def py_or_def)
  then show ?thesis by (simp add: w docs.save_result t_def)
qed

end
