(* ===== verification/Render.thy ===== *)
theory Render
  imports Gist
begin

text \<open>
  \<open>server/training/render.py\<close>, \<open>persona_render.py\<close> and \<open>fact_render.py\<close>: how a training conversation is
  assembled, which targets are trainable, and how known facts are put into a target's thought. \<open>tag\<close> is
  the stage-direction tag (its text holds a dash outside the model's alphabet), \<open>rp\<close> the \<open>repr\<close> of floats
  and containers. The tokenizer's chat template is not modelled.
\<close>

section \<open>The thought block\<close>

text \<open>The pattern of a leading thought: white space, \<open><think>\<close>, a shortest body, \<open></think>\<close>, the rest.\<close>

definition leading_think :: "string \<Rightarrow> (string \<times> string) option" where
  "leading_think s =
     (let t = lstrip_if is_space s in
      if startswith (py_lower t) ''<think>''
      then (let body = drop 7 t in
        case find_str (py_lower body) ''</think>'' of
          None \<Rightarrow> None | Some i \<Rightarrow> Some (take i body, drop (i + 8) body))
      else None)"

definition field_words :: "string list" where
  "field_words = [''verdict:'', ''why:'', ''persona_target:'', ''persona:'', ''lang_drift:'', ''ideal:'']"

definition field_line_at :: "string \<Rightarrow> nat \<Rightarrow> bool" where
  "field_line_at s i = ((i = 0 \<or> s ! (i - 1) = CHR 0x0A) \<and>
     (let blank = (\<lambda>c. c = CHR '' '' \<or> c = CHR 0x09);
          r = dropWhile blank (dropWhile (\<lambda>c. c \<in> set ''*_'') (dropWhile blank (drop i s)))
      in list_ex (startswith (py_lower r)) field_words))"

definition strip_trailing_fields :: "string \<Rightarrow> string" where
  "strip_trailing_fields s =
     (case filter (field_line_at s) [0..<length s] of [] \<Rightarrow> s | i # _ \<Rightarrow> rstrip_if is_space (take i s))"

definition lstrip_nl :: "string \<Rightarrow> string" where
  "lstrip_nl s = lstrip_if (\<lambda>c. c = CHR 0x0A) s"

definition has_think_tag :: "string \<Rightarrow> bool" where
  "has_think_tag s = (find_str s ''<think>'' \<noteq> None \<or> find_str s ''</think>'' \<noteq> None)"

definition answer_of :: "string \<Rightarrow> string" where
  "answer_of text = (case find_str (py_lower text) ''</think>'' of
      None \<Rightarrow> py_strip text | Some i \<Rightarrow> py_strip (drop (i + 8) text))"

definition trainable_answer :: "string \<Rightarrow> string option" where
  "trainable_answer text =
     (let answer = strip_trailing_fields (py_strip (lstrip_nl
            (case leading_think text of Some (th, r) \<Rightarrow> r | None \<Rightarrow> text)))
      in if answer = [] \<or> has_think_tag answer then None else Some answer)"

definition to_gemma_thinking_channel :: "string \<Rightarrow> string py" where
  "to_gemma_thinking_channel content =
     (case leading_think content of
        None \<Rightarrow>
          let answer = strip_trailing_fields (lstrip_nl content) in
          if has_think_tag answer then Inl ValueError
          else Inr (''<|channel>thought'' @ [CHR 0x0A] @ ''<channel|>'' @ answer)
      | Some (th, r) \<Rightarrow>
          let answer = strip_trailing_fields (lstrip_nl r) in
          if has_think_tag answer then Inl ValueError
          else Inr (''<|channel>thought'' @ [CHR 0x0A] @ py_strip th @ [CHR 0x0A] @ ''<channel|>'' @ answer))"

section \<open>Messages\<close>

definition msg :: "string \<Rightarrow> json \<Rightarrow> json" where
  "msg role content = JObj [(''role'', JStr role), (''content'', content)]"

definition user_content :: "(json \<Rightarrow> string) \<Rightarrow> string \<Rightarrow> json \<Rightarrow> json \<Rightarrow> json py" where
  "user_content rp tag content speaker =
     py_bind (strip_or_empty speaker) (\<lambda>sp.
       let c = py_or content (JStr []) in
       Inr (if sp \<in> {''(initiative)'', ''(setting)''} then JStr (py_strip (tag @ '' '' @ fstr rp c))
            else if sp \<noteq> [] then JStr (sp @ '': '' @ fstr rp c) else c))"

fun json_items :: "json \<Rightarrow> json list py" where
  "json_items (JList xs) = Inr xs"
| "json_items (JObj d) = Inr (List.map (\<lambda>(k, v). JStr k) d)"
| "json_items (JStr s) = Inr (List.map (\<lambda>c. JStr [c]) s)"
| "json_items _ = Inl TypeError"

definition context_of :: "jobj \<Rightarrow> json list py" where
  "context_of anchor = json_items (py_or (jget_or anchor ''context'' (JList [])) (JList []))"

definition build_messages :: "(json \<Rightarrow> string) \<Rightarrow> string \<Rightarrow> jobj \<Rightarrow> string \<Rightarrow> json list py" where
  "build_messages rp tag anchor tgt =
     py_bind (context_of anchor) (\<lambda>ctx.
     py_bind (py_fold (\<lambda>out t. py_bind (as_dict t) (\<lambda>turn.
         if jget turn ''role'' = JStr ''user''
         then py_bind (user_content rp tag (jget_or turn ''content'' (JStr [])) (jget_or turn ''speaker'' (JStr [])))
                (\<lambda>c. Inr (out @ [msg ''user'' c]))
         else Inr (out @ [msg ''assistant'' (jget_or turn ''content'' (JStr []))])))
       [msg ''system'' (py_or (jget_or anchor ''system_prompt'' (JStr [])) (JStr []))] ctx) (\<lambda>ms.
     py_bind (user_content rp tag (jget_or anchor ''prompt'' (JStr [])) (jget_or anchor ''speaker'' (JStr []))) (\<lambda>c.
       Inr (ms @ [msg ''user'' c, msg ''assistant'' (JStr tgt)]))))"

text \<open>The assembly the live generation uses, \<open>_reference_inference_conversation\<close>.\<close>

definition reference_inference_conversation ::
  "(json \<Rightarrow> string) \<Rightarrow> string \<Rightarrow> json \<Rightarrow> json list \<Rightarrow> json list py" where
  "reference_inference_conversation rp tag sys conversation =
     py_fold (\<lambda>out t. py_bind (as_dict t) (\<lambda>turn.
         if jget turn ''role'' = JStr ''user''
         then py_bind (user_content rp tag (jget_or turn ''content'' (JStr [])) (jget_or turn ''speaker'' (JStr [])))
                (\<lambda>c. Inr (out @ [msg ''user'' c]))
         else (case dget turn ''content'' of
             None \<Rightarrow> Inl KeyError | Some c \<Rightarrow> Inr (out @ [msg ''assistant'' c]))))
       [msg ''system'' sys] conversation"

datatype parity = Same | Differs

definition assert_parity :: "(json \<Rightarrow> string) \<Rightarrow> string \<Rightarrow> jobj \<Rightarrow> string \<Rightarrow> parity py" where
  "assert_parity rp tag anchor tgt =
     py_bind (context_of anchor) (\<lambda>ctx.
     py_bind (reference_inference_conversation rp tag
         (py_or (jget_or anchor ''system_prompt'' (JStr [])) (JStr []))
         (ctx @ [JObj [(''role'', JStr ''user''), (''content'', jget_or anchor ''prompt'' (JStr [])),
                       (''speaker'', jget_or anchor ''speaker'' (JStr []))]])) (\<lambda>expected.
     py_bind (build_messages rp tag anchor tgt) (\<lambda>actual.
       Inr (if actual = expected @ [msg ''assistant'' (JStr tgt)] then Same else Differs))))"

section \<open>Facts in the thought\<close>

definition is_word :: "char \<Rightarrow> bool" where
  "is_word c = (let n = (of_char c :: nat) in
     (48 \<le> n \<and> n \<le> 57) \<or> (65 \<le> n \<and> n \<le> 90) \<or> (97 \<le> n \<and> n \<le> 122) \<or> n = 95
     \<or> n \<in> {170, 178, 179, 181, 185, 186, 188, 189, 190}
     \<or> (192 \<le> n \<and> n \<le> 255 \<and> n \<noteq> 215 \<and> n \<noteq> 247))"

fun tokens :: "(char \<Rightarrow> bool) \<Rightarrow> string \<Rightarrow> string \<Rightarrow> string list" where
  "tokens p cur [] = (if cur = [] then [] else [cur])"
| "tokens p cur (c # cs) =
     (if p c then tokens p (cur @ [c]) cs
      else if cur = [] then tokens p [] cs else cur # tokens p [] cs)"

definition word_list :: "string \<Rightarrow> string list" where
  "word_list s = tokens is_word [] (py_lower s)"

definition split_cot :: "string \<Rightarrow> (string \<times> string) option" where
  "split_cot tgt = (case leading_think tgt of
      None \<Rightarrow> None
    | Some (th, r) \<Rightarrow> if py_strip th = [] \<or> py_strip r = [] then None else Some (py_strip th, r))"

definition statement_in_cot :: "string \<Rightarrow> string \<Rightarrow> bool" where
  "statement_in_cot statement thought =
     (let s = py_strip statement in
      if s = [] then True
      else
        let s_norm = join '' '' (word_list s); t_norm = join '' '' (word_list thought);
            s_words = remdups (word_list s)
        in if s_norm \<noteq> [] \<and> find_str t_norm s_norm \<noteq> None then True
           else if s_words = [] then True
           else list_ex (\<lambda>ln.
               let lw = remdups (word_list ln);
                   both = length (filter (\<lambda>w. w \<in> set lw) s_words);
                   union = length (remdups (s_words @ lw))
               in 0 < union \<and> (6 / 10 :: rat) \<le> of_nat both / of_nat union)
             (filter (\<lambda>ln. py_strip ln \<noteq> []) (tokens (\<lambda>c. c \<notin> set (CHR 0x0A # ''.;!?'')) [] thought)))"

definition prepend_persona_lines :: "string \<Rightarrow> string list \<Rightarrow> string option" where
  "prepend_persona_lines tgt statements =
     (let stmts = filter (\<lambda>s. s \<noteq> []) (List.map py_strip statements) in
      case split_cot tgt of
        None \<Rightarrow> None
      | Some (thought, r) \<Rightarrow>
          if stmts = [] then None
          else Some (''<think>'' @ join [CHR 0x0A] (stmts @ [thought]) @ ''</think>'' @ r))"

fun select_injections :: "nat \<Rightarrow> string \<Rightarrow> jobj list \<Rightarrow> (jobj list \<times> string list) \<Rightarrow> (jobj list \<times> string list) py" where
  "select_injections cap running [] acc = Inr acc"
| "select_injections cap running (p # ps) acc =
     py_bind (strip_or_empty (jget p ''content'')) (\<lambda>s.
       if s = [] \<or> statement_in_cot s running then select_injections cap running ps acc
       else let acc' = (fst acc @ [p], snd acc @ [s]) in
         if cap \<le> length (fst acc') then Inr acc'
         else select_injections cap (s @ [CHR 0x0A] @ running) ps acc')"

definition select_persona_injections :: "nat \<Rightarrow> string \<Rightarrow> jobj list \<Rightarrow> (jobj list \<times> string list) py" where
  "select_persona_injections cap thought personas = select_injections cap thought personas ([], [])"

definition fact_cot_line :: "string \<Rightarrow> string" where
  "fact_cot_line statement =
     (let s = py_strip statement in
      if s = [] then []
      else let core = (if py_lower (take 11 s) = ''i know that'' then s else ''I know that '' @ s) in
        if list_ex (endswith core) [''.'', ''!'', ''?''] then core else core @ ''.'')"

section \<open>Assembling the trained turn\<close>

text \<open>\<open>server/inference/core/reflection_shareml.py\<close>: the answer without its leading thoughts.\<close>

definition strip_leading_think :: "string \<Rightarrow> string" where
  "strip_leading_think s = (case leading_think s of None \<Rightarrow> s | Some (th, r) \<Rightarrow> lstrip_if is_space r)"

lemma startswith_length: "startswith s p \<Longrightarrow> length p \<le> length s"
  unfolding startswith_def by (metis length_take min.cobounded1)

lemma leading_think_shorter: "leading_think s = Some (th, r) \<Longrightarrow> length r < length s"
proof -
  assume a: "leading_think s = Some (th, r)"
  let ?t = "lstrip_if is_space s"
  have "startswith (py_lower ?t) ''<think>''"
    using a by (auto simp: leading_think_def Let_def split: if_splits)
  from startswith_length [OF this] have "7 \<le> length ?t" by (simp add: py_lower_def)
  moreover have "length r \<le> length ?t - 7"
    using a by (auto simp: leading_think_def Let_def split: if_splits option.splits)
  ultimately show ?thesis using length_lstrip_if [of is_space s] by simp
qed

function answer_only :: "string \<Rightarrow> string" where
  "answer_only s = (case leading_think s of None \<Rightarrow> py_strip s | Some (th, r) \<Rightarrow> answer_only (lstrip_if is_space r))"
  by pat_completeness auto
termination
proof (relation "measure length", goal_cases)
  case (2 s p th r)
  then show ?case
    using leading_think_shorter [of s th r] length_lstrip_if [of is_space r] by simp
qed simp

declare answer_only.simps [simp del]

definition verbatim_assistant :: "string \<Rightarrow> string \<Rightarrow> string" where
  "verbatim_assistant assistant_cot response =
     (let c = py_strip assistant_cot; answer = answer_only response in
      if c \<noteq> [] then ''<think>'' @ c @ ''</think>'' @ [CHR 0x0A] @ answer else answer)"

section \<open>Train and inference parity\<close>

definition turn_ok :: "json \<Rightarrow> bool" where
  "turn_ok t = (is_obj t \<and> (jget (obj_of t) ''role'' = JStr ''user'' \<or> dget (obj_of t) ''content'' \<noteq> None))"

lemma same_steps:
  assumes "\<forall>t \<in> set ctx. is_obj t \<longrightarrow> turn_ok t"
  shows "reference_inference_conversation rp tag sys ctx =
    py_fold (\<lambda>out t. py_bind (as_dict t) (\<lambda>turn.
         if jget turn ''role'' = JStr ''user''
         then py_bind (user_content rp tag (jget_or turn ''content'' (JStr [])) (jget_or turn ''speaker'' (JStr [])))
                (\<lambda>c. Inr (out @ [msg ''user'' c]))
         else Inr (out @ [msg ''assistant'' (jget_or turn ''content'' (JStr []))]))) [msg ''system'' sys] ctx"
  unfolding reference_inference_conversation_def
proof (rule py_fold_cong)
  fix out t assume "t \<in> set ctx"
  show "py_bind (as_dict t) (\<lambda>turn.
         if jget turn ''role'' = JStr ''user''
         then py_bind (user_content rp tag (jget_or turn ''content'' (JStr [])) (jget_or turn ''speaker'' (JStr [])))
                (\<lambda>c. Inr (out @ [msg ''user'' c]))
         else (case dget turn ''content'' of
             None \<Rightarrow> Inl KeyError | Some c \<Rightarrow> Inr (out @ [msg ''assistant'' c])))
    = py_bind (as_dict t) (\<lambda>turn.
         if jget turn ''role'' = JStr ''user''
         then py_bind (user_content rp tag (jget_or turn ''content'' (JStr [])) (jget_or turn ''speaker'' (JStr [])))
                (\<lambda>c. Inr (out @ [msg ''user'' c]))
         else Inr (out @ [msg ''assistant'' (jget_or turn ''content'' (JStr []))]))"
  proof (cases t)
    case (JObj d)
    then have "jget d ''role'' = JStr ''user'' \<or> dget d ''content'' \<noteq> None"
      using assms \<open>t \<in> set ctx\<close> by (auto simp: turn_ok_def)
    then show ?thesis
      unfolding JObj as_dict.simps py_bind_simps
      by (cases "dget d ''content''") (simp_all add: jget_or_eq)
  qed simp_all
qed

lemma assert_parity_same:
  assumes "context_of anchor = Inr ctx" "\<forall>t \<in> set ctx. is_obj t \<longrightarrow> turn_ok t"
  shows "assert_parity rp tag anchor tgt = py_bind (build_messages rp tag anchor tgt) (\<lambda>_. Inr Same)"
proof -
  let ?sys = "py_or (jget_or anchor ''system_prompt'' (JStr [])) (JStr [])"
  let ?last = "JObj [(''role'', JStr ''user''), (''content'', jget_or anchor ''prompt'' (JStr [])),
                       (''speaker'', jget_or anchor ''speaker'' (JStr []))]"
  have "\<forall>t \<in> set (ctx @ [?last]). is_obj t \<longrightarrow> turn_ok t"
    using assms(2) by (simp add: turn_ok_def)
  note ref = same_steps [OF this, of rp tag ?sys]
  define fold where "fold = py_fold (\<lambda>out t. py_bind (as_dict t) (\<lambda>turn.
         if jget turn ''role'' = JStr ''user''
         then py_bind (user_content rp tag (jget_or turn ''content'' (JStr [])) (jget_or turn ''speaker'' (JStr [])))
                (\<lambda>c. Inr (out @ [msg ''user'' c]))
         else Inr (out @ [msg ''assistant'' (jget_or turn ''content'' (JStr []))]))) [msg ''system'' ?sys] ctx"
  define uc where "uc = user_content rp tag (jget_or anchor ''prompt'' (JStr [])) (jget_or anchor ''speaker'' (JStr []))"
  have r: "reference_inference_conversation rp tag ?sys (ctx @ [?last]) =
      py_bind fold (\<lambda>ms. py_bind uc (\<lambda>c. Inr (ms @ [msg ''user'' c])))"
    unfolding ref py_fold_append fold_def [symmetric]
    by (cases fold; cases uc) (simp_all add: uc_def)
  have b: "build_messages rp tag anchor tgt =
      py_bind fold (\<lambda>ms. py_bind uc (\<lambda>c. Inr (ms @ [msg ''user'' c, msg ''assistant'' (JStr tgt)])))"
    by (simp add: build_messages_def assms(1) fold_def uc_def)
  show ?thesis
    unfolding assert_parity_def assms(1) py_bind_simps r b
    by (cases fold; cases uc) simp_all
qed

text \<open>A trained conversation is byte for byte the one inference would build. For every anchor whose
  stored turns carry what a turn carries, the parity check passes exactly when the messages can be
  built at all; it never reports a difference.\<close>

theorem parity_by_construction:
  assumes "context_of anchor = Inr ctx" "\<forall>t \<in> set ctx. is_obj t \<longrightarrow> turn_ok t"
  shows "assert_parity rp tag anchor tgt = py_bind (build_messages rp tag anchor tgt) (\<lambda>_. Inr Same)"
  using assms by (rule assert_parity_same)

theorem parity_by_construction_witness:
  "assert_parity (\<lambda>_. []) [] [(''context'', JList [JObj [(''role'', JStr ''assistant''), (''content'', JStr ''hi'')]]),
      (''prompt'', JStr ''and?''), (''speaker'', JStr ''Ann'')] ''well'' = Inr Same"
proof -
  let ?a = "[(''context'', JList [JObj [(''role'', JStr ''assistant''), (''content'', JStr ''hi'')]]),
      (''prompt'', JStr ''and?''), (''speaker'', JStr ''Ann'')]"
  have "context_of ?a = Inr [JObj [(''role'', JStr ''assistant''), (''content'', JStr ''hi'')]]"
    by (simp add: context_of_def py_or_def)
  moreover have "build_messages (\<lambda>_. []) [] ?a ''well'' = Inr [msg ''system'' (JStr []), msg ''assistant'' (JStr ''hi''),
      msg ''user'' (JStr ''Ann: and?''), msg ''assistant'' (JStr ''well'')]"
    by code_simp
  ultimately show ?thesis
    using parity_by_construction [of ?a _ "\<lambda>_. []" "[]" "''well''"] by (simp add: turn_ok_def)
qed

section \<open>The gate before the renderer\<close>

lemma find_str_occurs:
  assumes "p \<noteq> []"
  shows "find_str s p \<noteq> None \<longleftrightarrow> (\<exists>u v. s = u @ p @ v)"
proof
  assume "find_str s p \<noteq> None"
  then have "filter (\<lambda>i. take (length p) (drop i s) = p) [0..<length s + 1 - length p] \<noteq> []"
    by (auto simp: find_str_def split: list.splits)
  then obtain i where "take (length p) (drop i s) = p" by (auto simp: filter_empty_conv)
  then have "s = take i s @ p @ drop (length p) (drop i s)" by (metis append_take_drop_id)
  then show "\<exists>u v. s = u @ p @ v" by blast
next
  assume "\<exists>u v. s = u @ p @ v"
  then obtain u v where s: "s = u @ p @ v" by blast
  then have "length u \<in> set (filter (\<lambda>i. take (length p) (drop i s) = p) [0..<length s + 1 - length p])"
    by simp
  then have "filter (\<lambda>i. take (length p) (drop i s) = p) [0..<length s + 1 - length p] \<noteq> []"
    by (metis list.distinct(1) list.set_cases)
  then show "find_str s p \<noteq> None"
    unfolding find_str_def by (cases "filter (\<lambda>i. take (length p) (drop i s) = p) [0..<length s + 1 - length p]") simp_all
qed

lemma has_think_tag_occurs:
  "has_think_tag s \<longleftrightarrow> (\<exists>p \<in> {''<think>'', ''</think>''}. \<exists>u v. s = u @ p @ v)"
proof -
  have a: "find_str s ''<think>'' \<noteq> None \<longleftrightarrow> (\<exists>u v. s = u @ ''<think>'' @ v)"
    by (rule find_str_occurs) simp
  have b: "find_str s ''</think>'' \<noteq> None \<longleftrightarrow> (\<exists>u v. s = u @ ''</think>'' @ v)"
    by (rule find_str_occurs) simp
  show ?thesis unfolding has_think_tag_def a b by blast
qed

lemma tag_no_space: "p \<in> {''<think>'', ''</think>''} \<Longrightarrow> \<forall>c \<in> set p. \<not> is_space c"
  by (auto simp: is_space_def)

text \<open>A word without white space occurs in the stripped part of a text.\<close>

lemma occurs_middle:
  assumes "u @ p @ v = w1 @ m @ w2" "\<forall>c \<in> set w1. is_space c" "\<forall>c \<in> set w2. is_space c"
    and "\<forall>c \<in> set p. \<not> is_space c" "p \<noteq> []"
  shows "\<exists>u' v'. m = u' @ p @ v' \<and> u = w1 @ u'"
proof -
  have "length w1 \<le> length u"
  proof (rule ccontr)
    assume a: "\<not> ?thesis"
    then have "(u @ p @ v) ! length u = w1 ! length u" unfolding assms(1) by (simp add: nth_append)
    moreover have "(u @ p @ v) ! length u = hd p" using assms(5) by (cases p) (simp_all add: nth_append)
    ultimately have "is_space (hd p)" using a assms(2) by (metis not_le nth_mem)
    then show False using assms(4,5) by auto
  qed
  then obtain u' where u: "u = w1 @ u'"
    using assms(1) by (metis append_eq_append_conv_if append_take_drop_id)
  then have eq: "u' @ p @ v = m @ w2" using assms(1) by simp
  have "length (u' @ p) \<le> length m"
  proof (rule ccontr)
    assume a: "\<not> ?thesis"
    let ?i = "length (u' @ p) - 1"
    have "(u' @ p @ v) ! ?i = last p"
      using assms(5) by (cases p rule: rev_cases) (simp_all add: nth_append)
    moreover have "length m \<le> ?i" using a by (cases p) simp_all
    then have "(m @ w2) ! ?i = w2 ! (?i - length m)" by (simp only: nth_append not_less [symmetric] if_False simp_thms)
    moreover have "?i - length m < length w2"
      using a arg_cong [OF eq, of length] assms(5) by (cases p) simp_all
    ultimately have "is_space (last p)" using assms(3) eq by (metis nth_mem)
    then show False using assms(4,5) by auto
  qed
  then obtain v' where "m = (u' @ p) @ v'"
    using eq by (metis append_assoc append_eq_append_conv_if append_take_drop_id)
  then show ?thesis using u by auto
qed

lemma strip_split: "\<exists>w1 w2. s = w1 @ py_strip s @ w2 \<and> (\<forall>c \<in> set w1. is_space c) \<and> (\<forall>c \<in> set w2. is_space c)"
proof -
  let ?t = "lstrip_if is_space s"
  have "s = takeWhile is_space s @ ?t" by (simp add: lstrip_if_def)
  moreover have "?t = py_strip s @ rev (takeWhile is_space (rev ?t))"
    unfolding py_strip_def strip_if_def rstrip_if_def
    by (metis rev_append rev_rev_ident takeWhile_dropWhile_id)
  ultimately show ?thesis by (metis set_rev set_takeWhileD)
qed

lemma dropWhile_ne: "startswith (py_lower (dropWhile p xs)) k \<Longrightarrow> k \<noteq> [] \<Longrightarrow> dropWhile p xs \<noteq> []"
  by (rule notI) (simp add: startswith_def py_lower_def)

lemma dropWhile_append_ne: "dropWhile p xs \<noteq> [] \<Longrightarrow> dropWhile p (xs @ ys) = dropWhile p xs @ ys"
  by (induction xs) auto

lemma startswith_append: "startswith s p \<Longrightarrow> startswith (s @ t) p"
  using startswith_length [of s p] by (simp add: startswith_def)

lemma field_line_shift:
  assumes "field_line_at m i" "0 < i" "i < length m"
  shows "field_line_at (w1 @ m @ w2) (length w1 + i)"
proof -
  define b where "b = (\<lambda>c. c = CHR '' '' \<or> c = CHR 0x09)" define q where "q = (\<lambda>c. c \<in> set ''*_'')"
  let ?f = "\<lambda>s. dropWhile b (dropWhile q (dropWhile b s))"
  obtain k where k: "k \<in> set field_words" "startswith (py_lower (?f (drop i m))) k"
    using assms(1) unfolding field_line_at_def Let_def b_def q_def list_ex_iff by blast
  have kne: "k \<noteq> []" using k(1) by (auto simp: field_words_def)
  have n3: "?f (drop i m) \<noteq> []" using k(2) kne by (rule dropWhile_ne)
  then have n2: "dropWhile q (dropWhile b (drop i m)) \<noteq> []" by (metis dropWhile.simps(1))
  then have n1: "dropWhile b (drop i m) \<noteq> []" by (metis dropWhile.simps(1))
  have "?f (drop i m @ w2) = ?f (drop i m) @ w2"
    by (simp add: dropWhile_append_ne [OF n1] dropWhile_append_ne [OF n2] dropWhile_append_ne [OF n3])
  then have "startswith (py_lower (?f (drop i m @ w2))) k"
    using startswith_append [OF k(2)] by (simp add: py_lower_def)
  moreover have "drop (length w1 + i) (w1 @ m @ w2) = drop i m @ w2" using assms(3) by simp
  moreover have "(w1 @ m @ w2) ! (length w1 + i - 1) = m ! (i - 1)"
  proof -
    have "length w1 + i - 1 = length w1 + (i - 1)" "i - 1 < length m" using assms(2,3) by simp_all
    then show ?thesis by (simp only: nth_append_length_plus) (simp add: nth_append)
  qed
  moreover have "m ! (i - 1) = CHR 0x0A" using assms(1,2) by (simp add: field_line_at_def)
  ultimately show ?thesis
    using k(1) unfolding field_line_at_def Let_def list_ex_iff b_def q_def by auto
qed

lemma strip_trailing_cases:
  obtains "strip_trailing_fields s = s" "\<And>i. i < length s \<Longrightarrow> \<not> field_line_at s i"
  | i where "i < length s" "field_line_at s i" "strip_trailing_fields s = rstrip_if is_space (take i s)"
      "\<And>j. j < length s \<Longrightarrow> field_line_at s j \<Longrightarrow> i \<le> j"
proof (cases "filter (field_line_at s) [0..<length s]")
  case Nil
  then have "\<not> field_line_at s i" if "i < length s" for i using that by (auto simp: filter_empty_conv)
  then show ?thesis using that(1) Nil by (simp add: strip_trailing_fields_def)
next
  case (Cons i is')
  then have "i \<in> set (filter (field_line_at s) [0..<length s])" by simp
  then have i: "i < length s" "field_line_at s i" by simp_all
  have "sorted (filter (field_line_at s) [0..<length s])" by (rule sorted_wrt_filter) simp
  then have "i \<le> j" if "j < length s" "field_line_at s j" for j
  proof -
    have "j \<in> set (i # is')" using that unfolding Cons [symmetric] by simp
    then show ?thesis using \<open>sorted (filter (field_line_at s) [0..<length s])\<close> unfolding Cons by auto
  qed
  then show ?thesis using that(2) [OF i] Cons by (simp add: strip_trailing_fields_def)
qed

lemma rstrip_prefix: "\<exists>v. s = rstrip_if p s @ v \<and> (\<forall>c \<in> set v. p c)"
  unfolding rstrip_if_def
  by (metis rev_append rev_rev_ident set_rev set_takeWhileD takeWhile_dropWhile_id)

lemma strip_trailing_prefix: "\<exists>v. s = strip_trailing_fields s @ v"
  by (rule strip_trailing_cases [of s], simp, metis append_assoc append_take_drop_id rstrip_prefix)

lemma tag_survives_strip:
  assumes "has_think_tag (strip_trailing_fields x)" "strip_trailing_fields (py_strip x) \<noteq> []"
  shows "has_think_tag (strip_trailing_fields (py_strip x))"
proof -
  obtain p u v where p: "p \<in> {''<think>'', ''</think>''}" "strip_trailing_fields x = u @ p @ v"
    using assms(1) has_think_tag_occurs by blast
  obtain v2 where v2: "x = (u @ p @ v) @ v2" using strip_trailing_prefix p(2) by metis
  obtain w1 w2 where w: "x = w1 @ py_strip x @ w2" "\<forall>c \<in> set w1. is_space c" "\<forall>c \<in> set w2. is_space c"
    using strip_split by blast
  define m where "m = py_strip x"
  have pne: "p \<noteq> []" using p(1) by auto
  have "u @ p @ (v @ v2) = w1 @ m @ w2"
    using v2 w(1) unfolding m_def by (metis append_assoc)
  from occurs_middle [OF this w(2,3) tag_no_space [OF p(1)] pne]
  obtain u' v' where m: "m = u' @ p @ v'" "u = w1 @ u'" by blast
  show ?thesis
  proof (rule strip_trailing_cases [of m])
    assume "strip_trailing_fields m = m"
    then show ?thesis
      unfolding m_def [symmetric] has_think_tag_occurs using p(1) m(1) by (metis (full_types))
  next
    fix i
    assume i: "i < length m" "field_line_at m i" "strip_trailing_fields m = rstrip_if is_space (take i m)"
    have "0 < i" using assms(2) i(3) by (cases i) (auto simp: m_def [symmetric] rstrip_if_def)
    then have fx: "field_line_at x (length w1 + i)" "length w1 + i < length x"
      using field_line_shift [OF i(2) _ i(1), of w1 w2] w(1) i(1) by (simp_all add: m_def [symmetric]) 
    have "length (u @ p @ v) \<le> length w1 + i"
    proof (rule strip_trailing_cases [of x])
      assume "\<And>i. i < length x \<Longrightarrow> \<not> field_line_at x i"
      then show ?thesis using fx by blast
    next
      fix k
      assume k: "strip_trailing_fields x = rstrip_if is_space (take k x)"
        "\<And>j. j < length x \<Longrightarrow> field_line_at x j \<Longrightarrow> k \<le> j"
      have "length (u @ p @ v) \<le> k"
        using k(1) p(2) length_rstrip_if [of is_space "take k x"] by simp
      then show ?thesis using k(2) [OF fx(2,1)] by simp
    qed
    then have len: "length (u' @ p) \<le> i" using m(2) by simp
    then have tk: "take i m = u' @ p @ take (i - length (u' @ p)) v'"
      unfolding m(1) by (simp add: take_append)
    obtain z where z: "take i m = rstrip_if is_space (take i m) @ z" "\<forall>c \<in> set z. is_space c"
      by (rule exE [OF rstrip_prefix [of "take i m" is_space]]) (erule conjE)
    have "u' @ p @ take (i - length (u' @ p)) v' = [] @ rstrip_if is_space (take i m) @ z"
      unfolding append_Nil z(1) [symmetric] by (rule tk [symmetric])
    from occurs_middle [OF this _ z(2) tag_no_space [OF p(1)] pne]
    obtain u2 v3 where "rstrip_if is_space (take i m) = u2 @ p @ v3" by auto
    then show ?thesis unfolding m_def [symmetric] i(3) has_think_tag_occurs using p(1) by (metis (full_types))
  qed
qed

text \<open>A target that passes the trainability gate never stops a training run. Whatever the target, when
  \<open>trainable_answer\<close> finds an answer in it, rendering it into the model's native thinking channel does not
  raise the nested-thought error.\<close>

theorem trainable_targets_render:
  assumes "trainable_answer t = Some a"
  shows "\<exists>s. to_gemma_thinking_channel t = Inr s"
proof -
  let ?r = "case leading_think t of Some (th, r) \<Rightarrow> r | None \<Rightarrow> t"
  have a: "strip_trailing_fields (py_strip (lstrip_nl ?r)) \<noteq> []"
    "\<not> has_think_tag (strip_trailing_fields (py_strip (lstrip_nl ?r)))"
    using assms by (auto simp: trainable_answer_def Let_def split: if_splits)
  then have "\<not> has_think_tag (strip_trailing_fields (lstrip_nl ?r))" using tag_survives_strip by blast
  then show ?thesis
    by (cases "leading_think t") (auto simp: to_gemma_thinking_channel_def Let_def)
qed

theorem trainable_targets_render_witness:
  "\<exists>s. to_gemma_thinking_channel ''<think>why</think>Because it rains.'' = Inr s"
proof -
  have "trainable_answer ''<think>why</think>Because it rains.'' = Some ''Because it rains.''" by code_simp
  then show ?thesis by (rule trainable_targets_render)
qed

end
