(* ===== verification/Think_Block.thy ===== *)
theory Think_Block
  imports Render
begin

text \<open>
  Building and reading back a thought block: where a tag is found first, and that a thought without a closing tag
  is read back as it was put. Shared by the injection of facts into a thought (\<open>Build_Dataset\<close>) and by the
  targets a revision writes (\<open>Reflection_Writer\<close>).
\<close>

abbreviation occurs :: "string \<Rightarrow> string \<Rightarrow> bool" where
  "occurs p s \<equiv> \<exists>u v. s = u @ p @ v"

lemma find_str_first:
  assumes "take (length p) (drop n s) = p" "p \<noteq> []" "\<And>i. i < n \<Longrightarrow> take (length p) (drop i s) \<noteq> p"
  shows "find_str s p = Some n"
proof -
  have l: "n < length s + 1 - length p"
    using arg_cong [OF assms(1), of length] assms(2) by (cases p) auto
  then have "[0..<length s + 1 - length p] = [0..<n] @ n # [Suc n..<length s + 1 - length p]"
    by (metis less_imp_add_positive le0 upt_add_eq_append upt_conv_Cons less_or_eq_imp_le le_add_diff_inverse)
  then have "filter (\<lambda>i. take (length p) (drop i s) = p) [0..<length s + 1 - length p] =
      n # filter (\<lambda>i. take (length p) (drop i s) = p) [Suc n..<length s + 1 - length p]"
    using assms(1,3) by simp
  then show ?thesis unfolding find_str_def by simp
qed

lemma find_after:
  assumes "\<not> occurs (d # q) x" "d \<notin> set q"
  shows "find_str (x @ (d # q) @ y) (d # q) = Some (length x)"
proof (rule find_str_first)
  let ?p = "d # q"
  fix i assume i: "i < length x"
  show "take (length ?p) (drop i (x @ ?p @ y)) \<noteq> ?p"
  proof
    assume t: "take (length ?p) (drop i (x @ ?p @ y)) = ?p"
    define x' where "x' = drop i x"
    define v where "v = drop (length ?p) (drop i (x @ ?p @ y))"
    have ne: "x' \<noteq> []" using i by (simp add: x'_def)
    have "x' @ (?p @ y) = ?p @ v"
      using t append_take_drop_id [of "length ?p" "drop i (x @ ?p @ y)"] i by (simp add: x'_def v_def)
    from append_eq_append_conv2 [THEN iffD1, OF this]
    consider ws where "x' = ?p @ ws" | ws where "?p = x' @ ws" "?p @ y = ws @ v" by metis
    then show False
    proof cases
      case (1 ws)
      then have "x = take i x @ ?p @ ws" using append_take_drop_id [of i x] by (simp add: x'_def)
      then show False using assms(1) by blast
    next
      case (2 ws)
      show False
      proof (cases ws)
        case Nil
        then have "x' = ?p @ []" using 2(1) by simp
        then have "x = take i x @ ?p @ []" using append_take_drop_id [of i x] by (simp add: x'_def)
        then show False using assms(1) by blast
      next
        case (Cons e zs)
        then have "e = d" using 2(2) by simp
        then show False using 2(1) ne Cons assms(2) by (cases x') auto
      qed
    qed
  qed
qed simp_all

lemma py_lower_append [simp]: "py_lower (x @ y) = py_lower x @ py_lower y"
  by (simp add: py_lower_def)

lemma py_lower_newline: "py_lower (CHR 0x0A # y) = CHR 0x0A # py_lower y"
  by (simp add: py_lower_def)

lemma length_py_lower [simp]: "length (py_lower x) = length x"
  by (simp add: py_lower_def)

abbreviation closing :: string where
  "closing \<equiv> ''</think>''"

text \<open>A text with no closing tag, in any letter case.\<close>

definition tagless :: "string \<Rightarrow> bool" where
  "tagless s = (\<not> occurs closing (py_lower s))"

lemma tagless_part: "tagless (u @ x @ v) \<Longrightarrow> tagless x"
  unfolding tagless_def py_lower_append by (metis append_assoc)

lemma tagless_strip: "tagless x \<Longrightarrow> tagless (py_strip x)"
  using strip_split [of x] tagless_part by metis

lemma leading_think_build:
  assumes "tagless x"
  shows "leading_think (''<think>'' @ x @ closing @ y) = Some (x, y)"
proof -
  have l: "lstrip_if is_space (''<think>'' @ z) = ''<think>'' @ z" for z
    by (simp add: lstrip_if_def is_space_def)
  have low: "py_lower (x @ closing @ y) = py_lower x @ closing @ py_lower y"
    unfolding py_lower_append by (simp add: py_lower_def)
  have "find_str (py_lower x @ (CHR ''<'' # ''/think>'') @ py_lower y) (CHR ''<'' # ''/think>'') = Some (length (py_lower x))"
    by (rule find_after) (use assms in \<open>simp_all add: tagless_def\<close>)
  then have f: "find_str (py_lower (x @ closing @ y)) closing = Some (length x)" unfolding low by simp
  have s: "startswith (py_lower (''<think>'' @ x @ closing @ y)) ''<think>''"
    by (simp add: py_lower_def startswith_def)
  have d: "drop 7 (''<think>'' @ x @ closing @ y) = x @ closing @ y" by simp
  have e: "drop (length x + 8) (x @ closing @ y) = y" "take (length x) (x @ closing @ y) = x" by simp_all
  show ?thesis
    by (simp only: leading_think_def Let_def l s d if_True f option.case e)
qed

lemma find_str_least:
  assumes "find_str s p = Some i" "p \<noteq> []"
  shows "\<not> occurs p (take i s)"
proof
  assume "occurs p (take i s)"
  then obtain u v where e: "take i s = u @ p @ v" by blast
  let ?is = "filter (\<lambda>i. take (length p) (drop i s) = p) [0..<length s + 1 - length p]"
  obtain is' where f: "?is = i # is'"
    using assms(1) unfolding find_str_def by (cases ?is) simp_all
  have s: "s = u @ p @ (v @ drop i s)" using e append_take_drop_id [of i s] by (metis append_assoc)
  have "length s = length u + (length p + length (v @ drop i s))" by (subst s) simp
  then have "length u < length s + 1 - length p" by linarith
  moreover have "take (length p) (drop (length u) s) = p" by (subst s) simp
  ultimately have "length u \<in> set ?is" by simp
  then have "length u \<in> set (i # is')" unfolding f .
  moreover have "sorted ?is" by (rule sorted_wrt_filter) simp
  then have "sorted (i # is')" unfolding f .
  ultimately have "i \<le> length u" by auto
  moreover have "length u < i" using arg_cong [OF e, of length] assms(2) by (cases p) auto
  ultimately show False by simp
qed

lemma leading_think_tagless: "leading_think s = Some (th, r) \<Longrightarrow> tagless th"
proof -
  assume a: "leading_think s = Some (th, r)"
  let ?b = "drop 7 (lstrip_if is_space s)"
  obtain i where i: "find_str (py_lower ?b) closing = Some i" "th = take i ?b"
    using a by (auto simp: leading_think_def Let_def split: if_splits option.splits)
  have "py_lower th = take i (py_lower ?b)" unfolding i(2) by (simp add: py_lower_def take_map)
  then show ?thesis using find_str_least [OF i(1)] by (simp add: tagless_def)
qed

end
