(* ===== verification/Keyed_Log.thy ===== *)
theory Keyed_Log
  imports Json
begin

text \<open>
  The interface of an append-only log whose records each concern one key: the consolidation
  ledger, the reflection memory and the dose ledger are replays of such a log. A reader folds the
  records over a state; the contract says what one record does to what the state holds of each key.
  The laws of replay are proved here once: what is held of a key is a fold over that key's own
  records, so records of other keys, their number and their interleaving make no difference.
\<close>

locale keyed_log =
  fixes step :: "'st \<Rightarrow> 'r \<Rightarrow> 'st py"
    and ok :: "'r \<Rightarrow> bool"
    and key_of :: "'r \<Rightarrow> 'k option"
    and view :: "'st \<Rightarrow> 'k \<Rightarrow> 'v"
    and view_op :: "'r \<Rightarrow> 'v \<Rightarrow> 'v"
  assumes step_ok: "(\<exists>s'. step s r = Inr s') \<longleftrightarrow> ok r"
    and step_view: "step s r = Inr s' \<Longrightarrow>
      view s' k = (if key_of r = Some k then view_op r (view s k) else view s k)"
begin

definition on_key :: "'k \<Rightarrow> 'r list \<Rightarrow> 'r list" where
  "on_key k rs = filter (\<lambda>r. key_of r = Some k) rs"

lemma on_key_append [simp]: "on_key k (xs @ ys) = on_key k xs @ on_key k ys"
  by (simp add: on_key_def)

lemma replay_ok: "(\<exists>s'. py_fold step s rs = Inr s') \<longleftrightarrow> (\<forall>r \<in> set rs. ok r)"
proof (induction rs arbitrary: s)
  case (Cons r rs)
  show ?case
  proof (cases "ok r")
    case True
    then obtain s' where "step s r = Inr s'" using step_ok by blast
    then show ?thesis using Cons.IH [of s'] True by simp
  next
    case False
    then have "\<nexists>s'. step s r = Inr s'" using step_ok by blast
    then show ?thesis using False by (auto simp: py_bind_eq_Inr)
  qed
qed simp

lemma replay_view:
  assumes "py_fold step s rs = Inr s'"
  shows "view s' k = foldl (\<lambda>v r. view_op r v) (view s k) (on_key k rs)"
  using assms
proof (induction rs arbitrary: s)
  case (Cons r rs)
  then obtain t where "step s r = Inr t" "py_fold step t rs = Inr s'"
    by (auto simp: py_bind_eq_Inr)
  then show ?case using Cons.IH step_view [of s r t k] by (simp add: on_key_def)
qed (simp add: on_key_def)

lemma replay_untouched:
  assumes "py_fold step s rs = Inr s'" "\<And>r. r \<in> set rs \<Longrightarrow> key_of r \<noteq> Some k"
  shows "view s' k = view s k"
proof -
  have "on_key k rs = []" using assms(2) by (auto simp: on_key_def filter_empty_conv)
  then show ?thesis using replay_view [OF assms(1), of k] by simp
qed

lemma replay_same_key_records:
  assumes "py_fold step s rs = Inr s1" "py_fold step s rs' = Inr s2" "on_key k rs = on_key k rs'"
  shows "view s1 k = view s2 k"
  using replay_view [OF assms(1), of k] replay_view [OF assms(2), of k] assms(3) by simp

text \<open>Two logs appended one after the other, in either order or interleaved.\<close>

lemma on_key_shuffle:
  assumes "zs \<in> shuffles xs ys" "on_key k ys = []"
  shows "on_key k zs = on_key k xs"
  using assms
proof (induction xs ys arbitrary: zs rule: shuffles.induct)
  case (3 x xs y ys)
  have nk: "key_of y \<noteq> Some k" "on_key k ys = []"
    using "3.prems"(2) by (auto simp: on_key_def split: if_splits)
  from "3.prems"(1) consider
    (left) zs' where "zs = x # zs'" "zs' \<in> shuffles xs (y # ys)"
    | (right) zs' where "zs = y # zs'" "zs' \<in> shuffles (x # xs) ys"
    by auto
  then show ?case
  proof cases
    case left
    then show ?thesis using "3.IH"(1) "3.prems"(2) by (simp add: on_key_def)
  next
    case right
    then show ?thesis using "3.IH"(2) nk by (simp add: on_key_def)
  qed
qed (auto simp: on_key_def)

lemma replay_interleaving:
  assumes "zs \<in> shuffles xs ys" "on_key k ys = []"
    and "py_fold step s xs = Inr s1" "py_fold step s zs = Inr s2"
  shows "view s2 k = view s1 k"
  using replay_same_key_records [OF assms(4,3)] on_key_shuffle [OF assms(1,2)] by simp

end

end
