(* ===== verification/Ledger.thy ===== *)
theory Ledger
  imports Keyed_Log Decay
begin

text \<open>
  \<open>server/training/ledger.py\<close>: the append-only ledger of consolidation anchors. The writers append
  one record per operation; \<open>fold\<close> replays the file into the anchors with their stage, training
  count and supersession flag. \<open>ck\<close> is \<open>content_key\<close> (a SHA-1 of the normalised text) and \<open>ts\<close> the
  time stamp of the call.
\<close>

section \<open>Writes\<close>

definition dialogue_key :: "(string \<Rightarrow> string) \<Rightarrow> (json \<Rightarrow> string) \<Rightarrow> json \<Rightarrow> json \<Rightarrow> string" where
  "dialogue_key ck rp source_session exchange_index =
     ck (fstr rp source_session @ ''#'' @ fstr rp exchange_index)"

definition fact_key :: "(string \<Rightarrow> string) \<Rightarrow> string \<Rightarrow> string" where
  "fact_key ck content = ck content"

definition register_record :: "string \<Rightarrow> string \<Rightarrow> json \<Rightarrow> jobj \<Rightarrow> jobj" where
  "register_record ts key item_type payload =
     dmerge [(''op'', JStr ''register''), (''ts'', JStr ts), (''key'', JStr key), (''type'', item_type)]
       payload"

definition register :: "string \<Rightarrow> string \<Rightarrow> json \<Rightarrow> jobj \<Rightarrow> logfile \<Rightarrow> logfile" where
  "register ts key item_type payload f =
     (if key = [] then f else log_append (register_record ts key item_type payload) f)"

definition register_dialogue ::
  "(string \<Rightarrow> string) \<Rightarrow> (json \<Rightarrow> string) \<Rightarrow> string \<Rightarrow> jobj \<Rightarrow> logfile \<Rightarrow> string \<times> logfile" where
  "register_dialogue ck rp ts anchor f =
     (let key = dialogue_key ck rp (jget_or anchor ''source_session'' (JStr []))
                  (jget anchor ''exchange_index'') in
      (key, register ts key (JStr ''dialogue'')
        [(''system_prompt'', jget_or anchor ''system_prompt'' (JStr [])),
         (''context'', py_or (jget_or anchor ''context'' (JList [])) (JList [])),
         (''prompt'', py_or (jget_or anchor ''prompt'' (JStr [])) (jget_or anchor ''user_prompt'' (JStr []))),
         (''speaker'', jget_or anchor ''speaker'' (JStr [])),
         (''target'', jget_or anchor ''target'' (JStr [])),
         (''verdict'', jget anchor ''verdict''),
         (''source_session'', jget_or anchor ''source_session'' (JStr [])),
         (''exchange_index'', jget anchor ''exchange_index''),
         (''lang'', jget anchor ''lang'')] f))"

definition register_fact ::
  "(string \<Rightarrow> string) \<Rightarrow> string \<Rightarrow> string \<Rightarrow> json \<Rightarrow> json \<Rightarrow> json \<Rightarrow> json \<Rightarrow> json \<Rightarrow> json \<Rightarrow> json
   \<Rightarrow> logfile \<Rightarrow> string \<times> logfile" where
  "register_fact ck ts content item_type trigger source_session lang exchange_index
      source_exchange about f =
     (let p0 = [(''content'', JStr content), (''trigger'', trigger),
                (''source_session'', source_session), (''lang'', lang)];
          p1 = (if truthy about then dset ''about'' about p0 else p0);
          p2 = (if exchange_index \<noteq> JNull then dset ''exchange_index'' exchange_index p1 else p1);
          p3 = (if truthy source_exchange then dset ''source_exchange'' source_exchange p2 else p2);
          key = fact_key ck content
      in (key, register ts key item_type p3 f))"

text \<open>The loop the four writers below share: skip an empty key, append, count.\<close>

definition write_ops :: "(string \<Rightarrow> jobj) \<Rightarrow> string list \<Rightarrow> logfile \<Rightarrow> int \<times> logfile" where
  "write_ops mk keys f =
     foldl (\<lambda>(n, f) k. if k = [] then (n, f) else (n + 1, log_append (mk k) f)) (0, f) keys"

definition advance :: "string \<Rightarrow> string list \<Rightarrow> logfile \<Rightarrow> int \<times> logfile" where
  "advance ts keys f =
     write_ops (\<lambda>k. [(''op'', JStr ''advance''), (''ts'', JStr ts), (''key'', JStr k)]) keys f"

definition evict :: "string \<Rightarrow> string list \<Rightarrow> logfile \<Rightarrow> int \<times> logfile" where
  "evict ts keys f =
     write_ops (\<lambda>k. [(''op'', JStr ''evict''), (''ts'', JStr ts), (''key'', JStr k)]) keys f"

definition supersede :: "string \<Rightarrow> string \<Rightarrow> string list \<Rightarrow> logfile \<Rightarrow> int \<times> logfile" where
  "supersede ts reason keys f =
     write_ops (\<lambda>k. [(''op'', JStr ''supersede''), (''ts'', JStr ts), (''key'', JStr k),
                     (''reason'', JStr reason)]) keys f"

definition counter ::
  "string \<Rightarrow> string \<Rightarrow> string \<Rightarrow> string \<Rightarrow> string \<Rightarrow> string list \<Rightarrow> logfile \<Rightarrow> int \<times> logfile" where
  "counter ts source_session reason run_id grouping keys f =
     write_ops (\<lambda>k.
       [(''op'', JStr ''counter''), (''ts'', JStr ts), (''key'', JStr k), (''type'', JStr ''persona''),
        (''source_session'', JStr source_session), (''reason'', JStr reason), (''run_id'', JStr run_id)]
       @ (if grouping = [] then [] else [(''grouping'', JStr grouping)])) keys f"

definition note_fact_trained :: "string \<Rightarrow> string \<Rightarrow> int \<Rightarrow> logfile \<Rightarrow> logfile" where
  "note_fact_trained ts key copies f =
     (if key = [] \<or> copies \<le> 0 then f
      else log_append [(''op'', JStr ''fact_trained''), (''ts'', JStr ts), (''key'', JStr key),
                       (''n'', JInt copies)] f)"

section \<open>Reads\<close>

record fold_state =
  anchors :: "(pykey, jobj) dict"
  stages :: "(pykey, int) dict"
  train_counts :: "(pykey, int) dict"
  superseded :: "(pykey, jobj) dict"

definition empty_fold :: fold_state where
  "empty_fold = \<lparr>anchors = [], stages = [], train_counts = [], superseded = []\<rparr>"

text \<open>A re-register that carries no \<open>source_exchange\<close> keeps the one already held.\<close>

definition keep_exchange :: "jobj option \<Rightarrow> jobj \<Rightarrow> jobj" where
  "keep_exchange prev r =
     (case prev of
        Some p \<Rightarrow>
          if truthy (jget p ''source_exchange'') \<and> \<not> truthy (jget r ''source_exchange'')
          then dset ''source_exchange'' (jget p ''source_exchange'') r else r
      | None \<Rightarrow> r)"

definition fold_step :: "fold_state \<Rightarrow> json \<Rightarrow> fold_state py" where
  "fold_step st j =
     py_bind (as_dict j) (\<lambda>r.
       let key = jget r ''key''; op = jget r ''op'' in
       if \<not> truthy key then Inr st
       else if op = JStr ''register'' then
         py_bind (hash_key key) (\<lambda>k.
           Inr (st\<lparr>anchors := dset k (keep_exchange (dget (anchors st) k) r) (anchors st),
                   stages := dsetdefault k 0 (stages st),
                   superseded := dpop k (superseded st)\<rparr>))
       else if op = JStr ''advance'' then
         py_bind (hash_key key) (\<lambda>k.
           Inr (st\<lparr>stages := dset k (dget_or (stages st) k 0 + 1) (stages st)\<rparr>))
       else if op = JStr ''fact_trained'' then
         py_bind (hash_key key) (\<lambda>k.
           py_bind (py_int_of (py_or (jget_or r ''n'' (JInt 0)) (JInt 0))) (\<lambda>n.
             Inr (st\<lparr>train_counts := dset k (dget_or (train_counts st) k 0 + n) (train_counts st)\<rparr>)))
       else if op = JStr ''supersede'' then
         py_bind (hash_key key) (\<lambda>k. Inr (st\<lparr>superseded := dset k r (superseded st)\<rparr>))
       else if op = JStr ''evict'' then
         py_bind (hash_key key) (\<lambda>k.
           Inr (st\<lparr>anchors := dpop k (anchors st), stages := dpop k (stages st),
                   train_counts := dpop k (train_counts st), superseded := dpop k (superseded st)\<rparr>))
       else Inr st)"

text \<open>What the replay attaches to one anchor at the end.\<close>

definition attach :: "int \<Rightarrow> int \<Rightarrow> jobj option \<Rightarrow> jobj \<Rightarrow> jobj" where
  "attach stage count sp r =
     (let r1 = dset ''train_count'' (JInt count) (dset ''stage'' (JInt stage) r) in
      case sp of
        None \<Rightarrow> r1
      | Some s \<Rightarrow>
          dset ''superseded_ts'' (jget_or s ''ts'' (JStr []))
            (dset ''superseded_reason'' (jget_or s ''reason'' (JStr []))
              (dset ''superseded'' (JBool True) r1)))"

definition finish_fold :: "fold_state \<Rightarrow> (pykey, jobj) dict" where
  "finish_fold st =
     List.map (\<lambda>(k, r). (k, attach (dget_or (stages st) k 0) (dget_or (train_counts st) k 0)
                        (dget (superseded st) k) r)) (anchors st)"

definition fold_ledger :: "logfile \<Rightarrow> (pykey, jobj) dict py" where
  "fold_ledger f =
     py_bind (py_fold fold_step empty_fold (recs (log_lines f))) (\<lambda>st. Inr (finish_fold st))"

definition stage_field :: "jobj \<Rightarrow> int" where
  "stage_field r = (case jget_or r ''stage'' (JInt 0) of JInt n \<Rightarrow> n | _ \<Rightarrow> 0)"

definition live_anchors :: "consolidation_config \<Rightarrow> logfile \<Rightarrow> jobj list py" where
  "live_anchors cfg f =
     py_bind (fold_ledger f) (\<lambda>d.
       py_fold (\<lambda>out r.
         if truthy (jget r ''superseded'') then Inr out
         else case for_type cfg (jget_or r ''type'' (JStr [])) of
             None \<Rightarrow> Inr out
           | Some c \<Rightarrow> py_bind (is_deprecated c (stage_field r))
               (\<lambda>dep. Inr (if dep then out else out @ [r]))) [] (List.map snd d))"

definition live_facts :: "consolidation_config \<Rightarrow> logfile \<Rightarrow> jobj list py" where
  "live_facts cfg f =
     py_bind (live_anchors cfg f) (\<lambda>rs. Inr (filter (\<lambda>r. jget r ''type'' = JStr ''fact'') rs))"

definition stage_of :: "string \<Rightarrow> logfile \<Rightarrow> int option py" where
  "stage_of key f =
     py_bind (fold_ledger f) (\<lambda>d. Inr (map_option stage_field (dget d (KStr key))))"

definition folded_fields :: "string list" where
  "folded_fields = [''op'', ''ts'', ''key'', ''type'', ''stage'', ''train_count'', ''superseded'',
     ''superseded_reason'', ''superseded_ts'']"

definition reactivated_payload :: "jobj \<Rightarrow> jobj" where
  "reactivated_payload r = filter (\<lambda>(k, v). k \<notin> set folded_fields) r"

definition reactivate :: "string \<Rightarrow> string list \<Rightarrow> logfile \<Rightarrow> (int \<times> logfile) py" where
  "reactivate ts keys f =
     py_bind (fold_ledger f) (\<lambda>d.
       Inr (foldl (\<lambda>(n, f) key.
         case dget d (KStr key) of
           None \<Rightarrow> (n, f)
         | Some r \<Rightarrow>
             if key = [] \<or> r = [] \<or> \<not> truthy (jget r ''superseded'') then (n, f)
             else (n + 1, register ts key (py_or (jget r ''type'') (JStr []))
                     (reactivated_payload r) f)) (0, f) keys))"

section \<open>The ledger is a keyed log\<close>

definition ledger_ops :: "json set" where
  "ledger_ops = {JStr ''register'', JStr ''advance'', JStr ''fact_trained'', JStr ''supersede'',
     JStr ''evict''}"

definition trained_n :: "jobj \<Rightarrow> int py" where
  "trained_n r = py_int_of (py_or (jget_or r ''n'' (JInt 0)) (JInt 0))"

fun op_key :: "json \<Rightarrow> pykey option" where
  "op_key (JObj r) =
     (if truthy (jget r ''key'') \<and> jget r ''op'' \<in> ledger_ops
      then (case hash_key (jget r ''key'') of Inr k \<Rightarrow> Some k | Inl _ \<Rightarrow> None) else None)"
| "op_key _ = None"

fun op_ok :: "json \<Rightarrow> bool" where
  "op_ok (JObj r) =
     (truthy (jget r ''key'') \<and> jget r ''op'' \<in> ledger_ops \<longrightarrow>
        (\<exists>k. hash_key (jget r ''key'') = Inr k)
        \<and> (jget r ''op'' = JStr ''fact_trained'' \<longrightarrow> (\<exists>n. trained_n r = Inr n)))"
| "op_ok _ = False"

type_synonym anchor_view = "jobj option \<times> int option \<times> int option \<times> jobj option"

definition anchor_view :: "fold_state \<Rightarrow> pykey \<Rightarrow> anchor_view" where
  "anchor_view st k =
     (dget (anchors st) k, dget (stages st) k, dget (train_counts st) k, dget (superseded st) k)"

definition or0 :: "int option \<Rightarrow> int" where
  "or0 x = (case x of None \<Rightarrow> 0 | Some n \<Rightarrow> n)"

fun view_op :: "json \<Rightarrow> anchor_view \<Rightarrow> anchor_view" where
  "view_op (JObj r) (a, s, c, u) =
     (if jget r ''op'' = JStr ''register'' then (Some (keep_exchange a r), Some (or0 s), c, None)
      else if jget r ''op'' = JStr ''advance'' then (a, Some (or0 s + 1), c, u)
      else if jget r ''op'' = JStr ''fact_trained'' then
        (a, s, Some (or0 c + (case trained_n r of Inr n \<Rightarrow> n | Inl _ \<Rightarrow> 0)), u)
      else if jget r ''op'' = JStr ''supersede'' then (a, s, c, Some r)
      else (None, None, None, None))"
| "view_op _ v = v"

definition view_anchor :: "anchor_view \<Rightarrow> jobj option" where
  "view_anchor v = (case v of (a, s, c, u) \<Rightarrow> map_option (attach (or0 s) (or0 c) u) a)"

lemma dget_or_or0: "dget_or d k 0 = or0 (dget d k)"
  by (simp add: dget_or_def or0_def)

lemma hash_key_cases: "(\<exists>k. hash_key j = Inr k) \<or> hash_key j = Inl TypeError"
  by (cases j) auto

lemma fold_step_cases:
  "fold_step st (JObj r) = (
     if truthy (jget r ''key'') \<and> jget r ''op'' \<in> ledger_ops then
       py_bind (hash_key (jget r ''key'')) (\<lambda>k.
         if jget r ''op'' = JStr ''register'' then
           Inr (st\<lparr>anchors := dset k (keep_exchange (dget (anchors st) k) r) (anchors st),
                   stages := dsetdefault k 0 (stages st),
                   superseded := dpop k (superseded st)\<rparr>)
         else if jget r ''op'' = JStr ''advance'' then
           Inr (st\<lparr>stages := dset k (dget_or (stages st) k 0 + 1) (stages st)\<rparr>)
         else if jget r ''op'' = JStr ''fact_trained'' then
           py_bind (trained_n r) (\<lambda>n.
             Inr (st\<lparr>train_counts := dset k (dget_or (train_counts st) k 0 + n) (train_counts st)\<rparr>))
         else if jget r ''op'' = JStr ''supersede'' then
           Inr (st\<lparr>superseded := dset k r (superseded st)\<rparr>)
         else Inr (st\<lparr>anchors := dpop k (anchors st), stages := dpop k (stages st),
                   train_counts := dpop k (train_counts st), superseded := dpop k (superseded st)\<rparr>))
     else Inr st)"
proof -
  consider "\<not> truthy (jget r ''key'')" | "jget r ''op'' \<notin> ledger_ops"
    | "truthy (jget r ''key'')" "jget r ''op'' \<in> ledger_ops" by blast
  then show ?thesis
  proof cases
    case 3
    then show ?thesis
      unfolding fold_step_def ledger_ops_def trained_n_def Let_def insert_iff empty_iff
      by (elim disjE) simp_all
  qed (simp_all add: fold_step_def ledger_ops_def Let_def)
qed

lemma fold_step_not_obj: "\<not> is_obj j \<Longrightarrow> fold_step st j = Inl AttributeError"
  by (cases j) (auto simp: fold_step_def)

lemma step_view_op:
  assumes "fold_step st (JObj r) = Inr st'" "truthy (jget r ''key'')" "jget r ''op'' \<in> ledger_ops"
    and k: "hash_key (jget r ''key'') = Inr k"
  shows "anchor_view st' k' =
    (if k' = k then view_op (JObj r) (anchor_view st k') else anchor_view st k')"
proof -
  from assms(3) consider "jget r ''op'' = JStr ''register''" | "jget r ''op'' = JStr ''advance''"
    | "jget r ''op'' = JStr ''fact_trained''" | "jget r ''op'' = JStr ''supersede''"
    | "jget r ''op'' = JStr ''evict''"
    unfolding ledger_ops_def by blast
  then show ?thesis
    using assms(1)
    by cases (auto simp: fold_step_cases assms(2) assms(3)[simplified] k ledger_ops_def anchor_view_def
      dget_or_or0 py_bind_eq_Inr)
qed

lemma step_not_op:
  "\<not> (truthy (jget r ''key'') \<and> jget r ''op'' \<in> ledger_ops) \<Longrightarrow> fold_step st (JObj r) = Inr st"
  unfolding fold_step_cases by (rule if_not_P)

interpretation led: keyed_log fold_step op_ok op_key anchor_view view_op
proof unfold_locales
  fix st j
  show "(\<exists>s'. fold_step st j = Inr s') \<longleftrightarrow> op_ok j"
  proof (cases "is_obj j")
    case True
    then obtain r where j: "j = JObj r" by (cases j) auto
    show ?thesis
      using hash_key_cases [of "jget r ''key''"]
      by (auto simp: j fold_step_cases py_bind_eq_Inr)
  next
    case False
    then show ?thesis by (cases j) (auto simp: fold_step_not_obj)
  qed
next
  fix st j s' k'
  assume step: "fold_step st j = Inr s'"
  then obtain r where j: "j = JObj r" using fold_step_not_obj by (cases j) fastforce+
  show "anchor_view s' k' =
      (if op_key j = Some k' then view_op j (anchor_view st k') else anchor_view st k')"
  proof (cases "truthy (jget r ''key'') \<and> jget r ''op'' \<in> ledger_ops")
    case True
    then obtain k where k: "hash_key (jget r ''key'') = Inr k"
      using step by (auto simp: j fold_step_cases py_bind_eq_Inr)
    then have "op_key j = Some k" using True by (simp add: j)
    then show ?thesis
      using step_view_op [OF step [unfolded j] _ _ k] True j by auto
  next
    case False
    then have "op_key j = None" unfolding j op_key.simps by (rule if_not_P)
    then show ?thesis using step_not_op [OF False] step j by simp
  qed
qed

lemma finish_fold_view: "dget (finish_fold st) k = view_anchor (anchor_view st k)"
  by (simp add: finish_fold_def view_anchor_def anchor_view_def dget_or_or0)

text \<open>The anchor the ledger holds of a key, as a fold over that key's own records.\<close>

definition replay_key :: "pykey \<Rightarrow> json list \<Rightarrow> anchor_view" where
  "replay_key k rs = foldl (\<lambda>v r. view_op r v) (None, None, None, None) (led.on_key k rs)"

lemma fold_ledger_ok:
  "(\<exists>d. fold_ledger f = Inr d) \<longleftrightarrow> (\<forall>j \<in> set (recs (log_lines f)). op_ok j)"
  using led.replay_ok [of empty_fold "recs (log_lines f)"]
  by (auto simp: fold_ledger_def py_bind_eq_Inr)

lemma fold_ledger_key:
  assumes "fold_ledger f = Inr d"
  shows "dget d k = view_anchor (replay_key k (recs (log_lines f)))"
proof -
  obtain st where st: "py_fold fold_step empty_fold (recs (log_lines f)) = Inr st" "d = finish_fold st"
    using assms by (auto simp: fold_ledger_def py_bind_eq_Inr)
  have "anchor_view empty_fold k = (None, None, None, None)"
    by (simp add: anchor_view_def empty_fold_def)
  then show ?thesis
    using led.replay_view [OF st(1), of k] st(2) by (simp add: finish_fold_view replay_key_def)
qed

lemma replay_key_append:
  "replay_key k (rs @ rs') = foldl (\<lambda>v r. view_op r v) (replay_key k rs) (led.on_key k rs')"
  by (simp add: replay_key_def)

section \<open>What the replay computes\<close>

text \<open>
  The specification: of one key's records only those after the last eviction count. The anchor is
  the last registration among them, with the most recent source exchange any of them carried; its
  stage is the number of advances, its training count the sum of the recorded copies, and it is
  superseded when the last registration or supersession is a supersession.
\<close>

definition is_op :: "string \<Rightarrow> json \<Rightarrow> bool" where
  "is_op o' j = (is_obj j \<and> jget (obj_of j) ''op'' = JStr o')"

definition since_evict :: "json list \<Rightarrow> json list" where
  "since_evict rs = rev (takeWhile (\<lambda>j. \<not> is_op ''evict'' j) (rev rs))"

definition latest_exchange :: "jobj list \<Rightarrow> json option" where
  "latest_exchange regs =
     (case filter truthy (List.map (\<lambda>r. jget r ''source_exchange'') regs) of
        [] \<Rightarrow> None | x # xs \<Rightarrow> Some (last (x # xs)))"

definition registered :: "jobj list \<Rightarrow> jobj option" where
  "registered regs =
     (if regs = [] then None
      else Some (let r = last regs in
        if truthy (jget r ''source_exchange'') then r
        else case latest_exchange regs of None \<Rightarrow> r | Some x \<Rightarrow> dset ''source_exchange'' x r))"

definition supersession :: "json list \<Rightarrow> jobj option" where
  "supersession own =
     (let ss = filter (\<lambda>j. is_op ''register'' j \<or> is_op ''supersede'' j) own in
      if ss \<noteq> [] \<and> is_op ''supersede'' (last ss) then Some (obj_of (last ss)) else None)"

definition copies_in :: "json list \<Rightarrow> int" where
  "copies_in own = sum_list (List.map (\<lambda>j. case trained_n (obj_of j) of Inr n \<Rightarrow> n | Inl _ \<Rightarrow> 0)
     (filter (is_op ''fact_trained'') own))"

definition spec_anchor :: "pykey \<Rightarrow> json list \<Rightarrow> jobj option" where
  "spec_anchor k rs =
     (let own = since_evict (filter (\<lambda>j. op_key j = Some k) rs) in
      map_option (attach (int (length (filter (is_op ''advance'') own))) (copies_in own)
                    (supersession own))
        (registered (List.map obj_of (filter (is_op ''register'') own))))"

definition spec_view :: "json list \<Rightarrow> jobj option \<times> int \<times> int \<times> jobj option" where
  "spec_view own =
     (registered (List.map obj_of (filter (is_op ''register'') own)),
      int (length (filter (is_op ''advance'') own)), copies_in own, supersession own)"

definition or0_view :: "anchor_view \<Rightarrow> jobj option \<times> int \<times> int \<times> jobj option" where
  "or0_view v = (case v of (a, s, c, u) \<Rightarrow> (a, or0 s, or0 c, u))"

lemma latest_exchange_snoc:
  "latest_exchange (regs @ [r]) =
     (if truthy (jget r ''source_exchange'') then Some (jget r ''source_exchange'')
      else latest_exchange regs)"
  by (cases "filter truthy (List.map (\<lambda>r. jget r ''source_exchange'') regs)")
     (auto simp: latest_exchange_def)

lemma latest_exchange_truthy: "latest_exchange regs = Some x \<Longrightarrow> truthy x"
proof -
  assume a: "latest_exchange regs = Some x"
  let ?f = "filter truthy (List.map (\<lambda>r. jget r ''source_exchange'') regs)"
  have "?f \<noteq> []" "x = last ?f" using a by (auto simp: latest_exchange_def split: list.splits)
  then have "x \<in> set ?f" using last_in_set [of ?f] by blast
  then show ?thesis by simp
qed

lemma registered_exchange:
  "registered regs = Some p \<Longrightarrow> jget p ''source_exchange'' =
     (case latest_exchange regs of None \<Rightarrow> jget (last regs) ''source_exchange'' | Some x \<Rightarrow> x)"
proof (cases regs rule: rev_cases)
  case (snoc ys y)
  then show "registered regs = Some p \<Longrightarrow> ?thesis"
    by (auto simp: registered_def Let_def latest_exchange_snoc split: option.splits if_splits)
qed (simp add: registered_def)

lemma latest_exchange_None: "latest_exchange regs = None \<Longrightarrow> regs \<noteq> [] \<Longrightarrow>
    \<not> truthy (jget (last regs) ''source_exchange'')"
  by (cases regs rule: rev_cases) (auto simp: latest_exchange_snoc split: if_splits)

lemma registered_snoc: "registered (regs @ [r]) = Some (keep_exchange (registered regs) r)"
proof (cases "registered regs")
  case None
  then have "regs = []" by (simp add: registered_def split: if_splits)
  then show ?thesis by (simp add: registered_def keep_exchange_def latest_exchange_def Let_def)
next
  case (Some p)
  then have ne: "regs \<noteq> []" by (auto simp: registered_def)
  have "registered (regs @ [r]) = Some (
      if truthy (jget r ''source_exchange'') then r
      else case latest_exchange regs of None \<Rightarrow> r | Some x \<Rightarrow> dset ''source_exchange'' x r)"
    by (simp add: registered_def Let_def latest_exchange_snoc)
  then show ?thesis
    using registered_exchange [OF Some] latest_exchange_truthy [of regs] latest_exchange_None [OF _ ne]
    by (auto simp: Some keep_exchange_def split: option.splits)
qed

lemma op_keyD: "op_key j = Some k \<Longrightarrow> \<exists>r. j = JObj r \<and> jget r ''op'' \<in> ledger_ops"
  by (cases j) (auto split: if_splits)

lemma since_evict_snoc:
  "since_evict (rs @ [j]) = (if is_op ''evict'' j then [] else since_evict rs @ [j])"
  by (simp add: since_evict_def)

lemma spec_view_step:
  assumes "or0_view v = spec_view own" "jget r ''op'' \<in> ledger_ops"
  shows "or0_view (view_op (JObj r) v) =
    spec_view (if is_op ''evict'' (JObj r) then [] else own @ [JObj r])"
proof -
  obtain a s c u where v: "v = (a, s, c, u)" by (cases v) auto
  from assms(2) consider "jget r ''op'' = JStr ''register''" | "jget r ''op'' = JStr ''advance''"
    | "jget r ''op'' = JStr ''fact_trained''" | "jget r ''op'' = JStr ''supersede''"
    | "jget r ''op'' = JStr ''evict''"
    unfolding ledger_ops_def by blast
  then show ?thesis
    using assms(1)
    by cases (simp_all add: v or0_view_def spec_view_def or0_def is_op_def registered_snoc
      copies_in_def supersession_def registered_def [of Nil])
qed

lemma replay_key_spec: "or0_view (replay_key k rs) = spec_view (since_evict (led.on_key k rs))"
  unfolding replay_key_def led.on_key_def
proof (induction rs rule: rev_induct)
  case Nil
  then show ?case
    by (simp add: or0_view_def spec_view_def or0_def since_evict_def registered_def copies_in_def
      supersession_def)
next
  case (snoc j rs)
  show ?case
  proof (cases "op_key j = Some k")
    case True
    then obtain r where "j = JObj r" "jget r ''op'' \<in> ledger_ops" using op_keyD by blast
    then show ?thesis using spec_view_step [OF snoc] True by (simp add: since_evict_snoc)
  qed (use snoc in simp)
qed

lemma fold_ledger_spec:
  "fold_ledger f = Inr d \<Longrightarrow> dget d k = spec_anchor k (recs (log_lines f))"
  using replay_key_spec [of k "recs (log_lines f)"]
  by (auto simp: fold_ledger_key spec_anchor_def spec_view_def or0_view_def view_anchor_def
    led.on_key_def Let_def split: prod.splits)

section \<open>Logs the writers produce\<close>

text \<open>
  A record the writers may append: a JSON object (its keys are distinct), under a string key, that
  the replay accepts.
\<close>

definition rec_wf :: "json \<Rightarrow> bool" where
  "rec_wf j = (is_obj j \<and> distinct (dkeys (obj_of j)) \<and> op_ok j
     \<and> (\<exists>key. jget (obj_of j) ''key'' = JStr key)
     \<and> (is_op ''fact_trained'' j \<longrightarrow> (\<exists>n. 0 < n \<and> trained_n (obj_of j) = Inr n)))"

definition ledger_wf :: "logfile \<Rightarrow> bool" where
  "ledger_wf f = (readable f \<and> (\<forall>j \<in> set (recs (log_lines f)). rec_wf j))"

lemma ledger_wf_append [intro]: "ledger_wf f \<Longrightarrow> rec_wf (JObj r) \<Longrightarrow> ledger_wf (log_append r f)"
  by (simp add: ledger_wf_def)

lemma rec_wfI:
  "distinct (dkeys r) \<Longrightarrow> jget r ''key'' = JStr key \<Longrightarrow> jget r ''op'' \<noteq> JStr ''fact_trained''
   \<Longrightarrow> rec_wf (JObj r)"
  by (simp add: rec_wf_def is_op_def)

lemma ledger_wf_folds: "ledger_wf f \<Longrightarrow> \<exists>d. fold_ledger f = Inr d"
  by (simp add: fold_ledger_ok ledger_wf_def rec_wf_def)

lemma write_ops_wf:
  assumes "ledger_wf f" "\<And>k. rec_wf (JObj (mk k))"
  shows "ledger_wf (snd (write_ops mk keys f))"
proof -
  have "ledger_wf f \<Longrightarrow> ledger_wf (snd (foldl (\<lambda>(n, f) k. if k = [] then (n, f)
      else (n + 1, log_append (mk k) f)) (n, f) keys))" for n :: int and f
    by (induction keys arbitrary: n f) (auto intro: assms(2))
  then show ?thesis using assms(1) by (simp add: write_ops_def)
qed

lemma register_record:
  assumes "distinct (dkeys payload)" "''op'' \<notin> set (dkeys payload)" "''key'' \<notin> set (dkeys payload)"
  shows "distinct (dkeys (register_record ts key ty payload))"
    "jget (register_record ts key ty payload) ''op'' = JStr ''register''"
    "jget (register_record ts key ty payload) ''key'' = JStr key"
    "x \<notin> {''op'', ''ts'', ''key'', ''type''} \<Longrightarrow>
       jget (register_record ts key ty payload) x = jget payload x"
  using assms by (auto simp: register_record_def distinct_dkeys_dmerge jget_notin)

lemma register_wf:
  assumes "ledger_wf f" "distinct (dkeys payload)" "''op'' \<notin> set (dkeys payload)"
    "''key'' \<notin> set (dkeys payload)"
  shows "ledger_wf (register ts key ty payload f)"
  using assms by (auto simp: register_def register_record intro!: ledger_wf_append rec_wfI)

lemma register_dialogue_wf: "ledger_wf f \<Longrightarrow> ledger_wf (snd (register_dialogue ck rp ts anchor f))"
  by (simp add: register_dialogue_def Let_def register_wf)

lemma register_fact_wf:
  "ledger_wf f \<Longrightarrow> ledger_wf (snd (register_fact ck ts content ty trigger ss lang ei se about f))"
  by (simp add: register_fact_def Let_def register_wf)

lemma op_writers_wf:
  assumes "ledger_wf f"
  shows "ledger_wf (snd (advance ts keys f))" "ledger_wf (snd (evict ts keys f))"
    "ledger_wf (snd (supersede ts reason keys f))"
    "ledger_wf (snd (counter ts ss reason run_id grouping keys f))"
  unfolding advance_def evict_def supersede_def counter_def
  by (auto intro!: write_ops_wf assms rec_wfI)

lemma note_fact_trained_wf: "ledger_wf f \<Longrightarrow> ledger_wf (note_fact_trained ts key copies f)"
  by (auto simp: note_fact_trained_def rec_wf_def is_op_def trained_n_def py_or_def)

text \<open>What a folded anchor is.\<close>

lemma registered_mem:
  assumes "registered regs = Some p"
  obtains r where "r \<in> set regs" "\<And>x. x \<noteq> ''source_exchange'' \<Longrightarrow> jget p x = jget r x"
    "distinct (dkeys r) \<Longrightarrow> distinct (dkeys p)"
proof -
  have "regs \<noteq> []" using assms by (auto simp: registered_def)
  then have "last regs \<in> set regs" by simp
  moreover have "p = last regs \<or> (\<exists>x. p = dset ''source_exchange'' x (last regs))"
    using assms by (auto simp: registered_def Let_def split: if_splits option.splits)
  ultimately show thesis using that [of "last regs"] by auto
qed

lemma set_since_evict: "set (since_evict rs) \<subseteq> set rs"
  unfolding since_evict_def using set_takeWhileD [of _ _ "rev rs"] by auto

lemma jget_attach [simp]:
  "jget (attach s c u r) x =
    (if x = ''train_count'' \<and> u = None then JInt c else if x = ''stage'' \<and> u = None then JInt s
     else case u of None \<Rightarrow> jget r x
     | Some v \<Rightarrow> if x = ''superseded_ts'' then jget_or v ''ts'' (JStr [])
         else if x = ''superseded_reason'' then jget_or v ''reason'' (JStr [])
         else if x = ''superseded'' then JBool True
         else if x = ''train_count'' then JInt c else if x = ''stage'' then JInt s else jget r x)"
  by (auto simp: attach_def Let_def split: option.splits)

lemma distinct_attach [simp, intro]: "distinct (dkeys r) \<Longrightarrow> distinct (dkeys (attach s c u r))"
  by (auto simp: attach_def Let_def split: option.splits)

lemma stage_field_attach [simp]: "stage_field (attach s c u r) = s"
proof -
  have "jget_or (attach s c u r) ''stage'' (JInt 0) = JInt s"
    by (auto simp: attach_def Let_def split: option.splits)
  then show ?thesis by (simp add: stage_field_def)
qed

lemma spec_anchor_shape:
  assumes "spec_anchor k rs = Some r" "\<forall>j \<in> set rs. rec_wf j"
  obtains s c u p key where "r = attach s c u p" "0 \<le> s" "0 \<le> c" "k = KStr key" "key \<noteq> []"
    "jget p ''key'' = JStr key" "jget p ''op'' = JStr ''register''" "distinct (dkeys p)"
proof -
  define own where "own = since_evict (filter (\<lambda>j. op_key j = Some k) rs)"
  let ?regs = "List.map obj_of (filter (is_op ''register'') own)"
  obtain p where p: "registered ?regs = Some p"
      "r = attach (int (length (filter (is_op ''advance'') own))) (copies_in own) (supersession own) p"
    using assms(1) by (auto simp: spec_anchor_def Let_def own_def)
  have own: "rec_wf j \<and> op_key j = Some k" if "j \<in> set own" for j
    using that set_since_evict assms(2) unfolding own_def by fastforce
  obtain q where q: "q \<in> set ?regs" "\<And>x. x \<noteq> ''source_exchange'' \<Longrightarrow> jget p x = jget q x"
      "distinct (dkeys q) \<Longrightarrow> distinct (dkeys p)"
    by (rule registered_mem [OF p(1)]) blast
  then obtain j where j: "j \<in> set own" "is_op ''register'' j" "q = obj_of j" by auto
  then have "rec_wf j" "op_key j = Some k" using own by auto
  moreover have jq: "j = JObj q" using j(2,3) by (cases j) (auto simp: is_op_def)
  ultimately obtain key where key: "jget q ''key'' = JStr key" "distinct (dkeys q)" "k = KStr key" "key \<noteq> []"
    by (auto simp: rec_wf_def split: if_splits)
  have "0 \<le> copies_in own"
    unfolding copies_in_def using own
    by (intro sum_list_nonneg) (fastforce simp: rec_wf_def split: sum.splits)
  then show thesis
    using that [OF p(2) _ _ key(3,4)] q key j(2) jq by (simp add: is_op_def)
qed

lemma folded_shape:
  assumes "fold_ledger f = Inr d" "ledger_wf f" "dget d k = Some r"
  obtains s c u p key where "r = attach s c u p" "0 \<le> s" "0 \<le> c" "k = KStr key" "key \<noteq> []"
    "jget p ''key'' = JStr key" "jget p ''op'' = JStr ''register''" "distinct (dkeys p)"
proof (rule spec_anchor_shape)
  show "spec_anchor k (recs (log_lines f)) = Some r"
    using fold_ledger_spec [OF assms(1), of k] assms(3) by simp
  show "\<forall>j \<in> set (recs (log_lines f)). rec_wf j" using assms(2) by (simp add: ledger_wf_def)
qed (rule that)

lemma reactivated_payload:
  "distinct (dkeys r) \<Longrightarrow> distinct (dkeys (reactivated_payload r))"
  "x \<in> set folded_fields \<Longrightarrow> x \<notin> set (dkeys (reactivated_payload r))"
  "x \<notin> set folded_fields \<Longrightarrow> jget (reactivated_payload r) x = jget r x"
  unfolding reactivated_payload_def by (induction r) (auto simp: jget_eq split: option.splits)

lemma reactivated_keys:
  assumes "distinct (dkeys r)"
  shows "distinct (dkeys (reactivated_payload r))" "''op'' \<notin> set (dkeys (reactivated_payload r))"
    "''key'' \<notin> set (dkeys (reactivated_payload r))" "''superseded'' \<notin> set (dkeys (reactivated_payload r))"
  by (rule reactivated_payload(1) [OF assms], (rule reactivated_payload(2), simp add: folded_fields_def)+)

lemma reactivate_wf:
  assumes "ledger_wf f" "reactivate ts keys f = Inr (n, f')"
  shows "ledger_wf f'"
proof -
  obtain d where d: "fold_ledger f = Inr d" using ledger_wf_folds [OF assms(1)] by blast
  define g where "g = (\<lambda>(n :: int, f) key.
         case dget d (KStr key) of
           None \<Rightarrow> (n, f)
         | Some r \<Rightarrow>
             if key = [] \<or> r = [] \<or> \<not> truthy (jget r ''superseded'') then (n, f)
             else (n + 1, register ts key (py_or (jget r ''type'') (JStr [])) (reactivated_payload r) f))"
  have step: "ledger_wf (snd (g (m, h) key))" if "ledger_wf h" for m h key
  proof (cases "dget d (KStr key)")
    case (Some r)
    then have "distinct (dkeys r)"
      by (rule folded_shape [OF d assms(1)]) simp
    then show ?thesis
      using that by (auto simp: g_def Some intro!: register_wf reactivated_keys)
  qed (simp add: g_def that)
  have "ledger_wf h \<Longrightarrow> ledger_wf (snd (foldl g (m, h) keys))" for m h
  proof (induction keys arbitrary: m h)
    case (Cons key keys)
    then show ?case using step [of h m key] by (cases "g (m, h) key") simp
  qed simp
  moreover have "foldl g (0, f) keys = (n, f')"
    using assms(2) by (simp add: reactivate_def d g_def)
  ultimately show ?thesis using assms(1) by (metis snd_conv)
qed

text \<open>The logs any sequence of writes can produce, starting with no file.\<close>

inductive ledger_reach :: "(string \<Rightarrow> string) \<Rightarrow> (json \<Rightarrow> string) \<Rightarrow> logfile \<Rightarrow> bool" for ck rp where
  start: "ledger_reach ck rp None"
| dialogue: "ledger_reach ck rp f \<Longrightarrow> ledger_reach ck rp (snd (register_dialogue ck rp ts anchor f))"
| fact: "ledger_reach ck rp f \<Longrightarrow>
    ledger_reach ck rp (snd (register_fact ck ts content ty trigger ss lang ei se about f))"
| advanced: "ledger_reach ck rp f \<Longrightarrow> ledger_reach ck rp (snd (advance ts keys f))"
| evicted: "ledger_reach ck rp f \<Longrightarrow> ledger_reach ck rp (snd (evict ts keys f))"
| superseded: "ledger_reach ck rp f \<Longrightarrow> ledger_reach ck rp (snd (supersede ts reason keys f))"
| countered: "ledger_reach ck rp f \<Longrightarrow> ledger_reach ck rp (snd (counter ts ss reason run_id g keys f))"
| trained: "ledger_reach ck rp f \<Longrightarrow> ledger_reach ck rp (note_fact_trained ts key n f)"
| reactivated: "ledger_reach ck rp f \<Longrightarrow> reactivate ts keys f = Inr (n, f') \<Longrightarrow> ledger_reach ck rp f'"

lemma ledger_reach_wf: "ledger_reach ck rp f \<Longrightarrow> ledger_wf f"
proof (induction rule: ledger_reach.induct)
  case start
  then show ?case by (simp add: ledger_wf_def readable_def)
qed (simp_all add: register_dialogue_wf register_fact_wf op_writers_wf note_fact_trained_wf reactivate_wf)

section \<open>Single writes\<close>

lemma ledger_wf_lines: "ledger_wf f \<Longrightarrow> recs (log_lines (log_append r f)) = recs (log_lines f) @ [JObj r]"
  by (simp add: ledger_wf_def)

lemma fold_append_key:
  assumes "ledger_wf f" "fold_ledger (log_append r f) = Inr d'"
  shows "dget d' k = view_anchor (if op_key (JObj r) = Some k
      then view_op (JObj r) (replay_key k (recs (log_lines f))) else replay_key k (recs (log_lines f)))"
  using fold_ledger_key [OF assms(2), of k] assms(1)
  by (simp add: ledger_wf_lines replay_key_append led.on_key_def)

lemma op_key_string:
  "jget r ''key'' = JStr key \<Longrightarrow> key \<noteq> [] \<Longrightarrow> jget r ''op'' \<in> ledger_ops \<Longrightarrow>
   op_key (JObj r) = Some (KStr key)"
  by simp

lemma view_anchor_Some:
  "view_anchor v = Some r \<longleftrightarrow> (\<exists>a s c u. v = (Some a, s, c, u) \<and> r = attach (or0 s) (or0 c) u a)"
  by (cases v) (auto simp: view_anchor_def)

lemma fold_ledger_counter_rec:
  assumes "jget r ''op'' = JStr ''counter''"
  shows "fold_ledger (log_append r f) = fold_ledger f"
proof (cases "readable f")
  case True
  have "fold_step st (JObj r) = Inr st" for st
    by (rule step_not_op) (simp add: assms ledger_ops_def)
  then show ?thesis
    using True by (cases "py_fold fold_step empty_fold (recs (log_lines f))")
      (simp_all add: fold_ledger_def py_fold_append)
qed (simp add: readable_def)

text \<open>C3: replaying any readable sequence of ledger records never fails as long as every record is one
  the replay accepts, and what it holds of each key is exactly the specification: the last
  registration since the key's last eviction (with the most recent source exchange), as many stages
  as there were advances since, the sum of the training copies recorded since, and superseded exactly
  when the last registration or supersession was a supersession.\<close>

theorem ledger_fold_meets_spec:
  assumes "\<forall>j \<in> set (recs (log_lines f)). op_ok j"
  shows "\<exists>d. fold_ledger f = Inr d \<and> (\<forall>k. dget d k = spec_anchor k (recs (log_lines f)))"
  using assms fold_ledger_ok fold_ledger_spec by blast

definition sample_log :: logfile where
  "sample_log = Some (Parsed
     [Rec (JObj [(''op'', JStr ''register''), (''ts'', JStr ''t1''), (''key'', JStr ''k''), (''type'', JStr ''persona''),
                 (''content'', JStr ''c'')]),
      Garbled,
      Rec (JObj [(''op'', JStr ''advance''), (''ts'', JStr ''t2''), (''key'', JStr ''k'')])])"

lemma sample_log_wf: "ledger_wf sample_log"
  by (simp add: sample_log_def ledger_wf_def readable_def rec_wf_def is_op_def)

lemma sample_log_fold: "fold_ledger sample_log = Inr [(KStr ''k'',
    [(''op'', JStr ''register''), (''ts'', JStr ''t1''), (''key'', JStr ''k''), (''type'', JStr ''persona''),
     (''content'', JStr ''c''), (''stage'', JInt 1), (''train_count'', JInt 0)])]"
  by (simp add: sample_log_def fold_ledger_def fold_step_def Let_def empty_fold_def keep_exchange_def
    dsetdefault_def finish_fold_def attach_def dget_or_def)

theorem ledger_fold_meets_spec_witness:
  "\<exists>d. fold_ledger sample_log = Inr d \<and> (\<forall>k. dget d k = spec_anchor k (recs (log_lines sample_log)))"
proof (rule ledger_fold_meets_spec)
  show "\<forall>j \<in> set (recs (log_lines sample_log)). op_ok j"
    by (simp add: sample_log_def)
qed

text \<open>Records of other keys never change an anchor. If a second log holds the records of the first
  with records of other keys interleaved anywhere, both replays hold the same anchor under the key:
  same payload, stage, training count and supersession.\<close>

theorem ledger_interleaving_irrelevant:
  assumes "recs (log_lines g) \<in> shuffles (recs (log_lines f)) others"
    and "\<forall>j \<in> set others. op_key j \<noteq> Some k"
    and "fold_ledger f = Inr d" "fold_ledger g = Inr e"
  shows "dget e k = dget d k"
proof -
  have none: "led.on_key k others = []"
    using assms(2) by (auto simp: led.on_key_def filter_empty_conv)
  have "led.on_key k (recs (log_lines g)) = led.on_key k (recs (log_lines f))"
    by (rule led.on_key_shuffle [OF assms(1) none])
  then show ?thesis
    by (simp add: fold_ledger_key [OF assms(3)] fold_ledger_key [OF assms(4)] replay_key_def)
qed

theorem ledger_interleaving_irrelevant_witness:
  "dget [(KStr ''k'', [(''op'', JStr ''register''), (''ts'', JStr ''t1''), (''key'', JStr ''k''),
      (''type'', JStr ''persona''), (''content'', JStr ''c''), (''stage'', JInt 1), (''train_count'', JInt 0)])]
     (KStr ''k'')
   = dget (case fold_ledger sample_log of Inr d \<Rightarrow> d | Inl _ \<Rightarrow> []) (KStr ''k'')"
proof -
  have "recs (log_lines (log_append [(''op'', JStr ''evict''), (''key'', JStr ''x'')] sample_log))
      \<in> shuffles (recs (log_lines sample_log)) [JObj [(''op'', JStr ''evict''), (''key'', JStr ''x'')]]"
    by (simp add: sample_log_def)
  moreover have "fold_ledger (log_append [(''op'', JStr ''evict''), (''key'', JStr ''x'')] sample_log)
      = fold_ledger sample_log"
    by (simp add: sample_log_def fold_ledger_def fold_step_def Let_def empty_fold_def keep_exchange_def
      dsetdefault_def)
  ultimately show ?thesis
    using ledger_interleaving_irrelevant [of _ sample_log "[JObj [(''op'', JStr ''evict''), (''key'', JStr ''x'')]]"
      "KStr ''k''"]
    by (simp add: sample_log_fold ledger_ops_def)
qed

text \<open>Every log the ledger's own writers can produce, in any order and any number, folds without
  an exception, and every folded anchor sits under its own key, has a stage and a training count
  that are natural numbers, and is a registration.\<close>

theorem reachable_ledger_folds:
  assumes "ledger_reach ck rp f"
  shows "\<exists>d. fold_ledger f = Inr d \<and>
    (\<forall>k r. dget d k = Some r \<longrightarrow> (\<exists>key n. k = KStr key \<and> key \<noteq> [] \<and> jget r ''key'' = JStr key
        \<and> jget r ''op'' = JStr ''register'' \<and> 0 \<le> stage_field r
        \<and> jget r ''train_count'' = JInt n \<and> 0 \<le> n))"
proof -
  have wf: "ledger_wf f" using assms by (rule ledger_reach_wf)
  then obtain d where d: "fold_ledger f = Inr d" using ledger_wf_folds by blast
  have "\<exists>key n. k = KStr key \<and> key \<noteq> [] \<and> jget r ''key'' = JStr key
        \<and> jget r ''op'' = JStr ''register'' \<and> 0 \<le> stage_field r
        \<and> jget r ''train_count'' = JInt n \<and> 0 \<le> n" if "dget d k = Some r" for k r
    by (rule folded_shape [OF d wf that]) (auto split: option.splits)
  with d show ?thesis by blast
qed

theorem reachable_ledger_folds_witness:
  "\<exists>d. fold_ledger (snd (advance ''t'' [''k''] None)) = Inr d \<and>
    (\<forall>k r. dget d k = Some r \<longrightarrow> (\<exists>key n. k = KStr key \<and> key \<noteq> [] \<and> jget r ''key'' = JStr key
        \<and> jget r ''op'' = JStr ''register'' \<and> 0 \<le> stage_field r
        \<and> jget r ''train_count'' = JInt n \<and> 0 \<le> n))"
proof (rule reachable_ledger_folds)
  show "ledger_reach (\<lambda>s. s) (\<lambda>_. []) (snd (advance ''t'' [''k''] None))"
    by (intro ledger_reach.intros)
qed

lemma view_of_folded:
  assumes "fold_ledger f = Inr d" "dget d k = Some r"
  obtains a s c u where "replay_key k (recs (log_lines f)) = (Some a, s, c, u)"
    "r = attach (or0 s) (or0 c) u a"
  using assms by (auto simp: fold_ledger_key view_anchor_Some)

lemma register_keeps:
  assumes wf: "ledger_wf f" and d: "fold_ledger f = Inr d" and r: "dget d (KStr key) = Some r"
    and pl: "distinct (dkeys pl)" "''op'' \<notin> set (dkeys pl)" "''key'' \<notin> set (dkeys pl)" and ne: "key \<noteq> []"
  obtains d' r' where "fold_ledger (register ts key ty pl f) = Inr d'" "dget d' (KStr key) = Some r'"
    "stage_field r' = stage_field r" "jget r' ''train_count'' = jget r ''train_count''"
    "r' = attach (stage_field r) (case jget r ''train_count'' of JInt n \<Rightarrow> n | _ \<Rightarrow> 0) None
        (keep_exchange (Some r) (register_record ts key ty pl))"
    "\<And>k. k \<noteq> KStr key \<Longrightarrow> dget d' k = dget d k"
proof -
  let ?rec = "register_record ts key ty pl"
  have reg: "register ts key ty pl f = log_append ?rec f" by (simp add: register_def ne)
  have "ledger_wf (register ts key ty pl f)" by (rule register_wf [OF wf pl])
  then obtain d' where d': "fold_ledger (register ts key ty pl f) = Inr d'"
    using ledger_wf_folds by blast
  obtain a s c u where v: "replay_key (KStr key) (recs (log_lines f)) = (Some a, s, c, u)"
      "r = attach (or0 s) (or0 c) u a"
    using view_of_folded [OF d r] by metis
  have op: "op_key (JObj ?rec) = Some (KStr key)"
    using ne by (simp add: register_record [OF pl] ledger_ops_def)
  note app = fold_append_key [OF wf d' [unfolded reg]]
  have ke: "keep_exchange (Some r) ?rec = keep_exchange (Some a) ?rec"
    by (simp add: keep_exchange_def v(2) split: option.splits)
  have r': "dget d' (KStr key) =
      Some (attach (or0 s) (or0 c) None (keep_exchange (Some r) ?rec))"
    unfolding app op ke by (simp add: v register_record [OF pl] view_anchor_def or0_def split: option.splits)
  show thesis
  proof (rule that [OF d' r'])
    show "dget d' k = dget d k" if "k \<noteq> KStr key" for k
      unfolding app op using that by (simp add: fold_ledger_key [OF d])
  qed (auto simp: v(2) split: option.splits)
qed

text \<open>Re-registering an anchor refreshes its payload and nothing else: the stage and the training
  count are kept, a supersession is lifted, a source exchange the new registration does not carry is
  kept from the old one, and no other anchor changes.\<close>

theorem reregister_keeps_progress:
  assumes "ledger_wf f" "fold_ledger f = Inr d" "dget d (KStr (fact_key ck content)) = Some r"
    and "fact_key ck content \<noteq> []"
  shows "\<exists>d' r'. fold_ledger (snd (register_fact ck ts content ty trigger ss lang ei se about f)) = Inr d'
    \<and> dget d' (KStr (fact_key ck content)) = Some r'
    \<and> stage_field r' = stage_field r \<and> jget r' ''train_count'' = jget r ''train_count''
    \<and> \<not> truthy (jget r' ''superseded'') \<and> jget r' ''trigger'' = trigger
    \<and> (truthy se \<longrightarrow> jget r' ''source_exchange'' = se)
    \<and> (\<not> truthy se \<and> truthy (jget r ''source_exchange'') \<longrightarrow>
         jget r' ''source_exchange'' = jget r ''source_exchange'')
    \<and> (\<forall>k. k \<noteq> KStr (fact_key ck content) \<longrightarrow> dget d' k = dget d k)"
proof -
  let ?key = "fact_key ck content"
  define p0 where "p0 = [(''content'', JStr content), (''trigger'', trigger),
                (''source_session'', ss), (''lang'', lang)]"
  define p1 where "p1 = (if truthy about then dset ''about'' about p0 else p0)"
  define p2 where "p2 = (if ei \<noteq> JNull then dset ''exchange_index'' ei p1 else p1)"
  define pl where "pl = (if truthy se then dset ''source_exchange'' se p2 else p2)"
  have rf: "snd (register_fact ck ts content ty trigger ss lang ei se about f) = register ts ?key ty pl f"
    by (simp add: register_fact_def Let_def pl_def p2_def p1_def p0_def)
  have pl: "distinct (dkeys pl)" "''op'' \<notin> set (dkeys pl)" "''key'' \<notin> set (dkeys pl)"
    by (simp_all add: pl_def p2_def p1_def p0_def)
  have get: "jget pl ''trigger'' = trigger" "jget pl ''superseded'' = JNull"
      "jget pl ''source_exchange'' = (if truthy se then se else JNull)"
    by (simp_all add: pl_def p2_def p1_def p0_def)
  note rr = register_record [OF pl]
  show ?thesis
    unfolding rf
    by (rule register_keeps [OF assms(1-3) pl assms(4), where ts = ts and ty = ty])
       (auto simp: keep_exchange_def rr get)
qed

theorem reregister_keeps_progress_witness:
  "\<exists>d' r'. fold_ledger (snd (register_fact (\<lambda>_. ''k'') ''t9'' ''c2'' (JStr ''fact'') (JStr ''why'') JNull JNull JNull
        JNull JNull sample_log)) = Inr d'
    \<and> dget d' (KStr ''k'') = Some r' \<and> stage_field r' = 1 \<and> jget r' ''trigger'' = JStr ''why''"
proof -
  have "fact_key (\<lambda>_. ''k'') ''c2'' = ''k''" by (simp add: fact_key_def)
  then show ?thesis
    using reregister_keeps_progress [OF sample_log_wf sample_log_fold, of "\<lambda>_. ''k''" "''c2''" _ "''t9''"
      "JStr ''fact''" "JStr ''why''" JNull JNull JNull JNull JNull]
    by (auto simp: stage_field_def)
qed

text \<open>Counter-evidence is only evidence: whatever counter records are appended, the folded ledger,
  and with it the live anchors, is unchanged.\<close>

theorem counter_changes_nothing:
  "fold_ledger (snd (counter ts source_session reason run_id grouping keys f)) = fold_ledger f
   \<and> live_anchors cfg (snd (counter ts source_session reason run_id grouping keys f)) = live_anchors cfg f"
proof -
  define mk where "mk = (\<lambda>k. [(''op'', JStr ''counter''), (''ts'', JStr ts), (''key'', JStr k), (''type'', JStr ''persona''),
        (''source_session'', JStr source_session), (''reason'', JStr reason), (''run_id'', JStr run_id)]
       @ (if grouping = [] then [] else [(''grouping'', JStr grouping)]))"
  have op: "jget (mk k) ''op'' = JStr ''counter''" for k by (simp add: mk_def)
  have "fold_ledger (snd (foldl (\<lambda>(n, f) k. if k = [] then (n, f) else (n + 1, log_append (mk k) f)) (n, g) keys))
      = fold_ledger g" for n :: int and g
    by (induction keys arbitrary: n g) (simp_all add: fold_ledger_counter_rec op)
  then have eq: "fold_ledger (snd (counter ts source_session reason run_id grouping keys f)) = fold_ledger f"
    unfolding counter_def write_ops_def mk_def [symmetric] .
  then show ?thesis by (simp add: live_anchors_def)
qed

lemma supersede_one:
  "key \<noteq> [] \<Longrightarrow> supersede ts reason [key] f =
    (1, log_append [(''op'', JStr ''supersede''), (''ts'', JStr ts), (''key'', JStr key), (''reason'', JStr reason)] f)"
  by (simp add: supersede_def write_ops_def)

lemma supersede_folds:
  assumes wf: "ledger_wf f" and d: "fold_ledger f = Inr d" and r: "dget d (KStr key) = Some r"
    and ne: "key \<noteq> []"
  obtains d' r' where "ledger_wf (snd (supersede ts reason [key] f))"
    "fold_ledger (snd (supersede ts reason [key] f)) = Inr d'" "dget d' (KStr key) = Some r'"
    "jget r' ''superseded'' = JBool True" "jget r' ''superseded_reason'' = JStr reason"
    "\<And>x. x \<notin> {''superseded'', ''superseded_reason'', ''superseded_ts''} \<Longrightarrow> jget r' x = jget r x"
    "\<And>k. k \<noteq> KStr key \<Longrightarrow> dget d' k = dget d k"
proof -
  let ?rec = "[(''op'', JStr ''supersede''), (''ts'', JStr ts), (''key'', JStr key), (''reason'', JStr reason)]"
  have sup: "snd (supersede ts reason [key] f) = log_append ?rec f" by (simp add: supersede_one ne)
  have wf': "ledger_wf (snd (supersede ts reason [key] f))" by (rule op_writers_wf [OF wf])
  then obtain d' where d': "fold_ledger (snd (supersede ts reason [key] f)) = Inr d'"
    using ledger_wf_folds by blast
  obtain a s c u where v: "replay_key (KStr key) (recs (log_lines f)) = (Some a, s, c, u)"
      "r = attach (or0 s) (or0 c) u a"
    using view_of_folded [OF d r] by metis
  have op: "op_key (JObj ?rec) = Some (KStr key)"
    using ne by (simp add: ledger_ops_def)
  note app = fold_append_key [OF wf d' [unfolded sup]]
  have r': "dget d' (KStr key) = Some (attach (or0 s) (or0 c) (Some ?rec) a)"
    unfolding app op by (simp add: v view_anchor_def)
  show thesis
  proof (rule that [OF wf' d' r'])
    show "dget d' k = dget d k" if "k \<noteq> KStr key" for k
      unfolding app op using that by (simp add: fold_ledger_key [OF d])
  qed (auto simp: v(2) split: option.splits)
qed

lemma stage_field_jget: "jget r ''stage'' = JInt n \<Longrightarrow> stage_field r = n"
  by (auto simp: stage_field_def jget_eq jget_or_eq split: option.splits)

lemma folded_stage:
  assumes "fold_ledger f = Inr d" "ledger_wf f" "dget d k = Some r"
  shows "jget r ''stage'' = JInt (stage_field r)" "distinct (dkeys r)"
  by (rule folded_shape [OF assms], simp split: option.splits)+

lemma reactivated_record:
  assumes "distinct (dkeys r)" "rec = register_record ts key ty (reactivated_payload r)"
  shows "x \<notin> set folded_fields \<Longrightarrow> jget (attach s c None (keep_exchange (Some r) rec)) x = jget r x"
    "jget (attach s c None (keep_exchange (Some r) rec)) ''superseded'' = JNull"
proof -
  note pl = reactivated_keys(1-3) [OF assms(1)]
  have get: "jget rec y = jget r y" if "y \<notin> set folded_fields" for y
    using register_record(4) [OF pl] reactivated_payload(3) [OF that] that
    by (auto simp: assms(2) folded_fields_def)
  have "''source_exchange'' \<notin> set folded_fields" by (simp add: folded_fields_def)
  then have ke: "keep_exchange (Some r) rec = rec" by (simp add: keep_exchange_def get)
  show "jget (attach s c None (keep_exchange (Some r) rec)) x = jget r x" if "x \<notin> set folded_fields"
    unfolding ke using get [OF that] that by (simp add: folded_fields_def)
  have "jget (reactivated_payload r) ''superseded'' = JNull"
    by (rule jget_notin [OF reactivated_keys(4) [OF assms(1)]])
  then show "jget (attach s c None (keep_exchange (Some r) rec)) ''superseded'' = JNull"
    unfolding ke using register_record(4) [OF pl, of "''superseded''"] by (simp add: assms(2))
qed

text \<open>Supersession is reversible. Superseding an anchor and then reactivating it finds exactly one
  anchor to reactivate; the anchor is live again with the payload, the stage and the training count
  it had before, and no other anchor has changed.\<close>

theorem supersede_reactivate_roundtrip:
  assumes wf: "ledger_wf f" and d: "fold_ledger f = Inr d" and r: "dget d (KStr key) = Some r"
    and ne: "key \<noteq> []"
  shows "\<exists>f' d' r'. reactivate ts' [key] (snd (supersede ts reason [key] f)) = Inr (1, f')
    \<and> fold_ledger f' = Inr d' \<and> dget d' (KStr key) = Some r'
    \<and> \<not> truthy (jget r' ''superseded'')
    \<and> (\<forall>x. x \<notin> set folded_fields \<longrightarrow> jget r' x = jget r x)
    \<and> stage_field r' = stage_field r \<and> jget r' ''train_count'' = jget r ''train_count''
    \<and> (\<forall>k. k \<noteq> KStr key \<longrightarrow> dget d' k = dget d k)"
proof (rule supersede_folds [OF wf d r ne, of ts reason])
  let ?g = "snd (supersede ts reason [key] f)"
  fix d1 r1
  assume g: "ledger_wf ?g" "fold_ledger ?g = Inr d1" "dget d1 (KStr key) = Some r1"
    and sup: "jget r1 ''superseded'' = JBool True" "jget r1 ''superseded_reason'' = JStr reason"
    and same: "\<And>x. x \<notin> {''superseded'', ''superseded_reason'', ''superseded_ts''} \<Longrightarrow> jget r1 x = jget r x"
    and others: "\<And>k. k \<noteq> KStr key \<Longrightarrow> dget d1 k = dget d k"
  let ?pl = "reactivated_payload r1" and ?ty = "py_or (jget r1 ''type'') (JStr [])"
  have dist: "distinct (dkeys r1)" by (rule folded_stage [OF g(2,1,3)])
  have stage: "stage_field r1 = stage_field r"
    by (rule stage_field_jget) (use folded_stage(1) [OF d wf r] same [of "''stage''"] in simp)
  note pl = reactivated_keys(1-3) [OF dist]
  have ne1: "r1 \<noteq> []" using sup(1) by auto
  have re: "reactivate ts' [key] ?g = Inr (1, register ts' key ?ty ?pl ?g)"
    unfolding reactivate_def g(2) py_bind_simps by (simp add: g(3) sup(1) ne ne1)
  obtain d2 r2 where d2: "fold_ledger (register ts' key ?ty ?pl ?g) = Inr d2" "dget d2 (KStr key) = Some r2"
      "stage_field r2 = stage_field r1" "jget r2 ''train_count'' = jget r1 ''train_count''"
      "r2 = attach (stage_field r1) (case jget r1 ''train_count'' of JInt n \<Rightarrow> n | _ \<Rightarrow> 0) None
        (keep_exchange (Some r1) (register_record ts' key ?ty ?pl))"
      "\<And>k. k \<noteq> KStr key \<Longrightarrow> dget d2 k = dget d1 k"
    by (rule register_keeps [OF g pl ne, where ts = ts' and ty = ?ty]) blast
  have pay: "jget r2 x = jget r x" if "x \<notin> set folded_fields" for x
    unfolding d2(5) reactivated_record(1) [OF dist refl that]
    by (rule same) (use that in \<open>auto simp: folded_fields_def\<close>)
  have live: "jget r2 ''superseded'' = JNull" unfolding d2(5) by (rule reactivated_record(2) [OF dist refl])
  have count: "jget r2 ''train_count'' = jget r ''train_count''" using d2(4) same by simp
  have st: "stage_field r2 = stage_field r" using d2(3) stage by simp
  show ?thesis
    by (intro exI conjI, rule re, rule d2(1), rule d2(2))
       (simp_all add: live pay st count d2(6) others)
qed

theorem supersede_reactivate_roundtrip_witness:
  "\<exists>f' d' r'. reactivate ''t8'' [''k''] (snd (supersede ''t7'' ''stale'' [''k''] sample_log)) = Inr (1, f')
    \<and> fold_ledger f' = Inr d' \<and> dget d' (KStr ''k'') = Some r' \<and> stage_field r' = 1"
  using supersede_reactivate_roundtrip [OF sample_log_wf sample_log_fold, of "''k''" _ "''t8''" "''t7''" "''stale''"]
  by (auto simp: stage_field_def)

end
