(* ===== verification/Dialogue_Source.thy ===== *)
theory Dialogue_Source
  imports Sidecar Render Ledger
begin

text \<open>
  \<open>server/training/dialogue_source.py\<close>: how one exchange of a transcript and its sidecar record become a
  trainable anchor, and which exchanges of a directory are trainable now. A chats directory is the one of
  \<open>Sidecar\<close>: file names to contents, transcripts and state files side by side.
\<close>

section \<open>Reading the transcript\<close>

fun first_dict :: "json content option list \<Rightarrow> jobj option" where
  "first_dict [] = None"
| "first_dict (Some (Parsed (JObj d)) # cs) = Some d"
| "first_dict (_ # cs) = first_dict cs"

definition load_chat :: "chats_dir \<Rightarrow> string \<Rightarrow> chats_dir option \<Rightarrow> jobj option" where
  "load_chat chats source_session fb =
     (let name = py_strip source_session in
      if name = [] \<or> CHR ''/'' \<in> set name \<or> CHR 0x5C \<in> set name then None
      else if name \<in> {''.'', ''..''} \<or> py_lower (path_suffix name) \<noteq> ''.json'' then None
      else first_dict (dget chats name # (case fb of None \<Rightarrow> [] | Some d \<Rightarrow> [dget d name])))"

fun json_len :: "json \<Rightarrow> nat py" where
  "json_len (JList xs) = Inr (length xs)"
| "json_len (JObj d) = Inr (length d)"
| "json_len (JStr s) = Inr (length s)"
| "json_len _ = Inl TypeError"

fun json_item :: "json \<Rightarrow> nat \<Rightarrow> json py" where
  "json_item (JList xs) i = py_at xs i"
| "json_item (JStr s) i = py_bind (py_at s i) (\<lambda>c. Inr (JStr [c]))"
| "json_item (JObj d) i = Inl KeyError"
| "json_item _ i = Inl TypeError"

text \<open>\<open>xs[:n]\<close>, reached only after \<open>xs[n]\<close>.\<close>

fun json_prefix :: "json \<Rightarrow> nat \<Rightarrow> json list" where
  "json_prefix (JList xs) n = take n xs"
| "json_prefix (JStr s) n = List.map (\<lambda>c. JStr [c]) (take n s)"
| "json_prefix _ n = []"

section \<open>The anchor of an exchange\<close>

definition contains :: "string \<Rightarrow> string \<Rightarrow> bool" where
  "contains s p = (find_str s p \<noteq> None)"

text \<open>The trained text: the target with the thought that produced it, or without one.\<close>

definition paired_target :: "string \<Rightarrow> string \<Rightarrow> bool \<Rightarrow> json \<Rightarrow> string py" where
  "paired_target tgt target_source corrupt_cot assistant_cot =
     (if contains tgt ''<think>'' \<and> contains tgt ''</think>''
      then Inr (if corrupt_cot \<and> target_source \<noteq> ''revised'' then verbatim_assistant [] tgt else tgt)
      else if target_source = ''revised'' then Inr tgt
      else if corrupt_cot then Inr tgt
      else py_bind (strip_or_empty assistant_cot) (\<lambda>c. Inr (verbatim_assistant c tgt)))"

definition context_step :: "string \<Rightarrow> json list \<Rightarrow> json \<Rightarrow> json list py" where
  "context_step session_user out p =
     py_bind (as_dict p) (\<lambda>prior.
     py_bind (strip_or_empty (jget prior ''speaker'')) (\<lambda>sp.
       Inr (out @ [JObj [(''role'', JStr ''user''),
                         (''content'', py_or (jget_or prior ''user_prompt'' (JStr [])) (JStr [])),
                         (''speaker'', JStr (if sp \<noteq> [] then sp else session_user))],
                   JObj [(''role'', JStr ''assistant''),
                         (''content'', py_or (jget_or prior ''assistant_response'' (JStr [])) (JStr []))]])))"

definition anchor_system :: "(json \<Rightarrow> string) \<Rightarrow> json \<Rightarrow> string \<Rightarrow> json" where
  "anchor_system rp base persona_context =
     (if persona_context = [] then base
      else if truthy base then JStr (fstr rp base @ [CHR 0x0A, CHR 0x0A] @ persona_context)
      else JStr persona_context)"

text \<open>An exchange kept out of training: by the operator, the capture judge, the hold-out, the governor.\<close>

definition kept_out :: "(string \<Rightarrow> string) \<Rightarrow> (json \<Rightarrow> string) \<Rightarrow> jobj \<Rightarrow> bool" where
  "kept_out sha rp r = (truthy (jget r ''banned'') \<or> capture_gated sha rp r \<or> held_out r \<or> governor_held sha rp r)"

definition exchange_anchor ::
  "(string \<Rightarrow> string) \<Rightarrow> (json \<Rightarrow> string) \<Rightarrow> string \<Rightarrow> int \<Rightarrow> jobj \<Rightarrow> jobj \<Rightarrow> json \<Rightarrow> jobj option py" where
  "exchange_anchor ck rp source_session i r chat exchanges =
     py_bind (json_item exchanges (nat i)) (\<lambda>e.
     py_bind (strip_or_empty (jget r ''target'')) (\<lambda>tgt.
       if tgt = [] then Inr None
       else
     py_bind (strip_or_empty (jget r ''target_source'')) (\<lambda>tsrc.
     py_bind (as_dict e) (\<lambda>exc.
       if truthy (jget exc ''corrupt_response'') \<and> tsrc \<noteq> ''revised'' then Inr None
       else
     py_bind (paired_target tgt tsrc (truthy (jget exc ''corrupt_cot'')) (jget exc ''assistant_cot'')) (\<lambda>tgt'.
     py_bind (strip_or_empty (jget chat ''user'')) (\<lambda>session_user.
     py_bind (py_fold (context_step session_user) [] (json_prefix exchanges (nat i))) (\<lambda>ctx.
     py_bind (strip_or_empty (jget exc ''speaker'')) (\<lambda>sp.
     py_bind (strip_or_empty (jget r ''persona_context'')) (\<lambda>pc.
       Inr (Some
        [(''key'', JStr (dialogue_key ck rp (JStr source_session) (JInt i))),
         (''type'', JStr ''dialogue''),
         (''system_prompt'', anchor_system rp (py_or (jget_or chat ''system_prompt'' (JStr [])) (JStr [])) pc),
         (''context'', JList ctx),
         (''prompt'', py_or (jget_or exc ''user_prompt'' (JStr [])) (JStr [])),
         (''speaker'', JStr (if sp \<noteq> [] then sp else session_user)),
         (''target'', JStr tgt'),
         (''target_source'', JStr tsrc),
         (''target_kind'', py_or (jget r ''target_kind'') (JStr [])),
         (''target_generation'', py_or (jget r ''target_generation'') (JStr [])),
         (''verdict'', jget r ''verdict''),
         (''source_session'', JStr source_session),
         (''exchange_index'', JInt i),
         (''stage'', JInt (stage_int (jget_or r ''stage'' (JInt 0))))]))))))))))"

definition build_dialogue_anchor ::
  "(string \<Rightarrow> string) \<Rightarrow> (string \<Rightarrow> string) \<Rightarrow> (json \<Rightarrow> string) \<Rightarrow> chats_dir \<Rightarrow> string \<Rightarrow> int \<Rightarrow> jobj
   \<Rightarrow> chats_dir option \<Rightarrow> jobj option py" where
  "build_dialogue_anchor sha ck rp chats source_session i r fb =
     (if kept_out sha rp r then Inr None
      else case load_chat chats source_session fb of
          None \<Rightarrow> Inr None
        | Some chat \<Rightarrow>
            let exchanges = py_or (jget chat ''exchanges'') (JList []) in
            if i < 0 then Inr None
            else py_bind (json_len exchanges) (\<lambda>n.
              if int n \<le> i then Inr None
              else if py_strip (fstr rp (py_or (jget chat ''initiated_by'') (JStr []))) = ''ava'' \<and> i = 0
              then Inr None
              else exchange_anchor ck rp source_session i r chat exchanges))"

section \<open>The trainable exchanges of a directory\<close>

definition state_files :: "chats_dir \<Rightarrow> string list" where
  "state_files d = sort (filter (\<lambda>f. endswith f ''.state.json'') (dkeys d))"

definition live_exchange ::
  "(string \<Rightarrow> int \<Rightarrow> jobj \<Rightarrow> jobj option py) \<Rightarrow> decay_config \<Rightarrow> string \<Rightarrow> jobj list \<Rightarrow> string \<times> json \<Rightarrow> jobj list py" where
  "live_exchange build dcfg source_session out kv =
     (case kv of
        (k, JObj r) \<Rightarrow>
          (case str_int k of
             None \<Rightarrow> Inr out
           | Some i \<Rightarrow>
               py_bind (is_deprecated dcfg (stage_int (jget_or r ''stage'' (JInt 0)))) (\<lambda>dep.
                 if dep then Inr out
                 else py_bind (build source_session i r) (\<lambda>a.
                   Inr (case a of None \<Rightarrow> out | Some x \<Rightarrow> out @ [x]))))
      | _ \<Rightarrow> Inr out)"

definition live_dialogue_anchors ::
  "(string \<Rightarrow> string) \<Rightarrow> (string \<Rightarrow> string) \<Rightarrow> (json \<Rightarrow> string) \<Rightarrow> chats_dir \<Rightarrow> sidecar \<Rightarrow> consolidation_config
   \<Rightarrow> jobj list py" where
  "live_dialogue_anchors sha ck rp chats s cfg =
     (case for_type cfg (JStr ''dialogue'') of
        None \<Rightarrow> Inr []
      | Some dcfg \<Rightarrow>
          py_fold (\<lambda>out f.
            let x = session_name_from_sidecar f in
            py_fold (live_exchange (\<lambda>x i r. build_dialogue_anchor sha ck rp chats x i r (fallback_dir s)) dcfg x)
              out (exchanges_of (load s x))) [] (state_files chats))"

section \<open>What a built anchor carries\<close>

definition speaking_turn :: "json \<Rightarrow> bool" where
  "speaking_turn t = (turn_ok t \<and> (\<exists>s. jget_or (obj_of t) ''speaker'' (JStr []) = JStr s))"

lemma speaking_turns [simp]:
  "speaking_turn (JObj [(''role'', JStr ''user''), (''content'', c), (''speaker'', JStr s)])"
  "speaking_turn (JObj [(''role'', JStr ''assistant''), (''content'', c)])"
  by (simp_all add: speaking_turn_def turn_ok_def)

lemma context_step_shape:
  assumes "py_fold (context_step u) out ps = Inr ctx" and "\<forall>t \<in> set out. speaking_turn t"
  shows "\<forall>t \<in> set ctx. speaking_turn t"
  using assms
  by (rule py_fold_invariant [where P = "\<lambda>c. \<forall>t \<in> set c. speaking_turn t"])
    (auto simp: context_step_def py_bind_eq_Inr)

lemma built_anchor_shape:
  assumes "build_dialogue_anchor sha ck rp chats x i r fb = Inr (Some a)"
  obtains ctx sp where "jget a ''context'' = JList ctx" "jget_or a ''context'' (JList []) = JList ctx"
    "jget_or a ''speaker'' (JStr []) = JStr sp"
    "\<forall>t \<in> set ctx. speaking_turn t"
    "jget a ''source_session'' = JStr x" "jget a ''exchange_index'' = JInt i" "\<not> kept_out sha rp r" "0 \<le> i"
proof -
  obtain chat n where e: "exchange_anchor ck rp x i r chat (py_or (jget chat ''exchanges'') (JList [])) = Inr (Some a)"
    and k: "\<not> kept_out sha rp r" "0 \<le> i"
    using assms by (auto simp: build_dialogue_anchor_def Let_def py_bind_eq_Inr split: if_splits option.splits)
  obtain u ctx sp sys pr sp' tg f1 f2 f3 f4 f5 where
    ctx: "py_fold (context_step u) [] (json_prefix (py_or (jget chat ''exchanges'') (JList [])) (nat i)) = Inr ctx"
    and a: "a = [(''key'', JStr (dialogue_key ck rp (JStr x) (JInt i))), (''type'', JStr ''dialogue''),
         (''system_prompt'', sys), (''context'', JList ctx), (''prompt'', pr), (''speaker'', JStr sp'),
         (''target'', tg), (''target_source'', f1), (''target_kind'', f2), (''target_generation'', f3),
         (''verdict'', f4), (''source_session'', JStr x), (''exchange_index'', JInt i), (''stage'', f5)]"
    using e unfolding exchange_anchor_def py_bind_eq_Inr
    by (auto simp: py_bind_eq_Inr split: if_splits)
  show ?thesis
    by (rule that [of ctx sp']) (use context_step_shape [OF ctx] k in \<open>simp_all add: a\<close>)
qed



definition sample_chats :: chats_dir where
  "sample_chats = [(''a.json'', Parsed (JObj [(''exchanges'', JList
       [JObj [(''user_prompt'', JStr ''hi''), (''assistant_response'', JStr ''hello'')],
        JObj [(''user_prompt'', JStr ''and?''), (''assistant_response'', JStr ''so''), (''assistant_cot'', JStr ''why'')]])])),
     (''a.state.json'', Parsed (JObj [(''exchanges'', JObj
       [(''0'', JObj [(''target'', JStr ''hello'')]), (''1'', JObj [(''target'', JStr ''so'')])])]))]"

definition sample_anchor :: jobj where
  "sample_anchor = [(''key'', JStr ''a.json#1''), (''type'', JStr ''dialogue''), (''system_prompt'', JStr []),
     (''context'', JList [JObj [(''role'', JStr ''user''), (''content'', JStr ''hi''), (''speaker'', JStr [])],
                         JObj [(''role'', JStr ''assistant''), (''content'', JStr ''hello'')]]),
     (''prompt'', JStr ''and?''), (''speaker'', JStr []),
     (''target'', JStr (''<think>why</think>'' @ [CHR 0x0A] @ ''so'')), (''target_source'', JStr []),
     (''target_kind'', JStr []), (''target_generation'', JStr []), (''verdict'', JNull),
     (''source_session'', JStr ''a.json''), (''exchange_index'', JInt 1), (''stage'', JInt 0)]"



section \<open>What is kept out stays out\<close>

lemma live_exchange_member:
  assumes "live_exchange build dcfg x out kv = Inr out'" "a \<in> set out'"
  shows "a \<in> set out \<or> (\<exists>k r i. kv = (k, JObj r) \<and> str_int k = Some i \<and> build x i r = Inr (Some a)
    \<and> is_deprecated dcfg (stage_int (jget_or r ''stage'' (JInt 0))) = Inr False)"
  using assms
  by (auto simp: live_exchange_def py_bind_eq_Inr split: prod.splits json.splits option.splits if_splits)

lemma live_session_member:
  assumes "py_fold (live_exchange build dcfg x) out kvs = Inr out'" "a \<in> set out'"
  shows "a \<in> set out \<or> (\<exists>k r i. (k, JObj r) \<in> set kvs \<and> str_int k = Some i \<and> build x i r = Inr (Some a)
    \<and> is_deprecated dcfg (stage_int (jget_or r ''stage'' (JInt 0))) = Inr False)"
  using assms
proof (induction kvs arbitrary: out)
  case (Cons kv kvs)
  then obtain mid where "live_exchange build dcfg x out kv = Inr mid"
    "py_fold (live_exchange build dcfg x) mid kvs = Inr out'"
    by (auto simp: py_bind_eq_Inr)
  with Cons.IH [OF this(2) Cons.prems(2)] live_exchange_member [OF this(1), of a] show ?case by auto
qed simp

lemma live_anchor_origin:
  assumes "live_dialogue_anchors sha ck rp chats s cfg = Inr as" "a \<in> set as"
  obtains f k r i where "f \<in> set (state_files chats)"
    "(k, JObj r) \<in> set (exchanges_of (load s (session_name_from_sidecar f)))" "str_int k = Some i"
    "build_dialogue_anchor sha ck rp chats (session_name_from_sidecar f) i r (fallback_dir s) = Inr (Some a)"
    "is_deprecated (dialogue_cfg cfg) (stage_int (jget_or r ''stage'' (JInt 0))) = Inr False"
proof -
  let ?from = "\<lambda>a fs. \<exists>f \<in> set fs. \<exists>k r i. (k, JObj r) \<in> set (exchanges_of (load s (session_name_from_sidecar f)))
    \<and> str_int k = Some i
    \<and> build_dialogue_anchor sha ck rp chats (session_name_from_sidecar f) i r (fallback_dir s) = Inr (Some a)
    \<and> is_deprecated (dialogue_cfg cfg) (stage_int (jget_or r ''stage'' (JInt 0))) = Inr False"
  let ?step = "\<lambda>out f. let x = session_name_from_sidecar f in
            py_fold (live_exchange (\<lambda>x i r. build_dialogue_anchor sha ck rp chats x i r (fallback_dir s))
              (dialogue_cfg cfg) x) out (exchanges_of (load s x))"
  have "a \<in> set out \<or> ?from a fs" if "py_fold ?step out fs = Inr as" for out fs
    using that
  proof (induction fs arbitrary: out)
    case Nil
    then show ?case using assms(2) by simp
  next
    case (Cons f fs)
    then obtain mid where m: "?step out f = Inr mid" "py_fold ?step mid fs = Inr as"
      unfolding py_fold.simps py_bind_eq_Inr by blast
    show ?case using Cons.IH [OF m(2)] live_session_member [OF m(1) [unfolded Let_def], of a] by auto
  qed
  moreover have "py_fold ?step [] (state_files chats) = Inr as"
    using assms(1) by (simp add: live_dialogue_anchors_def for_type_def)
  ultimately show ?thesis using that by fastforce
qed

lemma exchanges_same_path:
  assumes "resolve_sidecar_path x = resolve_sidecar_path y"
  shows "exchanges_of (load s x) = exchanges_of (load s y)"
proof -
  have fx: "exchanges_of (fix_doc x d) = exchanges_of (fix_doc y d)" for d
    by (simp add: exchanges_of_def jget_eq fix_doc_def)
  have em: "exchanges_of (empty_doc x) = exchanges_of (empty_doc y)" by (simp add: exchanges_of_def empty_doc_def)
  have "exchanges_of (read_doc x c) = exchanges_of (read_doc y c)" for c
    unfolding read_doc_def by (auto simp: fx em split: content.splits json.splits)
  then show ?thesis unfolding load_def assms by (auto simp: em split: option.splits)
qed

text \<open>An exchange that is banned, in a session whose table has one key per index.\<close>

definition banned_at :: "sidecar \<Rightarrow> string \<Rightarrow> int \<Rightarrow> bool" where
  "banned_at s x i = (canonical_table (exchanges_of (load s x))
     \<and> (\<exists>r. found s x i = Some r \<and> truthy (jget r ''banned'')))"

lemma banned_record:
  assumes "banned_at s x i" "(k, JObj r) \<in> set (exchanges_of (load s x))" "str_int k = Some i"
  shows "truthy (jget r ''banned'')"
proof -
  have b: "canonical_table (exchanges_of (load s x))" "\<exists>r. found s x i = Some r \<and> truthy (jget r ''banned'')"
    using assms(1) by (simp_all add: banned_at_def)
  have "k \<in> set (dkeys (exchanges_of (load s x)))" using assms(2) by force
  then have "k = int_str i" using b(1) assms(3) by (auto simp: canonical_table_def list_all_iff)
  moreover have "dget (exchanges_of (load s x)) k = Some (JObj r)"
    using assms(2) b(1) by (simp add: canonical_table_def map_of_eq_Some_iff)
  ultimately show ?thesis using b(2) by (auto simp: found_def jget_eq)
qed

lemma write_verdict_failed: "\<not> fst (write_verdict ok ts repair a s) \<Longrightarrow> snd (write_verdict ok ts repair a s) = s"
  by (auto simp: write_verdict_def log_event_def save_def Let_def split: option.splits if_splits)

lemma banned_at_verdict:
  assumes "banned_at s x i"
  shows "banned_at (snd (write_verdict ok ts repair a s)) x i"
proof (cases "fst (write_verdict ok ts repair a s)")
  case False
  then show ?thesis using assms write_verdict_failed by metis
next
  case True
  note ok = write_verdict_update(2) [OF True]
  let ?s' = "snd (write_verdict ok ts repair a s)"
  let ?g = "\<lambda>d. put_exchange d (va_index a) (verdict_record ts a (repair (va_target a)) (prev_record d (va_index a)))"
  have l: "load ?s' y = load (snd (docs.update ok s (va_session a) ?g)) y" for y
    by (rule write_verdict_update(1) [OF True])
  show ?thesis
  proof (cases "resolve_sidecar_path x = resolve_sidecar_path (va_session a)")
    case False
    then have "load ?s' x = load s x" unfolding l by (rule docs.update_frame)
    then show ?thesis using assms by (simp add: banned_at_def found_def)
  next
    case same: True
    have ok': "ok" "resolve_sidecar_path (va_session a) \<noteq> None" using ok by (simp_all add: docs.update_result)
    have "load ?s' (va_session a) = stamped (?g (load s (va_session a)))"
      unfolding l using docs.update_read [OF ok'(2), of ?g s] normal_put [OF normal_load] ok'(1) by simp
    then have ex: "exchanges_of (load ?s' x) = dset (int_str (va_index a))
        (JObj (verdict_record ts a (repair (va_target a)) (prev_record (load s (va_session a)) (va_index a))))
        (exchanges_of (load s x))"
      using exchanges_same_path [OF same] by simp
    obtain r where r: "found s x i = Some r" "truthy (jget r ''banned'')" using assms by (auto simp: banned_at_def)
    have "prev_record (load s (va_session a)) i = r"
      using r(1) exchanges_same_path [OF same, of s]
      by (auto simp: prev_record_def found_def split: json.splits)
    then have "\<exists>r. found ?s' x i = Some r \<and> truthy (jget r ''banned'')"
      using r by (cases "i = va_index a") (auto simp: found_def ex verdict_record_fields)
    moreover have "canonical_table (exchanges_of (load ?s' x))"
      using assms by (simp add: ex canonical_dset banned_at_def)
    ultimately show ?thesis by (simp add: banned_at_def)
  qed
qed

text \<open>Any number of verdicts, of any session, whether they are stored or not.\<close>

inductive reflected :: "sidecar \<Rightarrow> sidecar \<Rightarrow> bool" for s where
  start: "reflected s s"
| verdict: "reflected s t \<Longrightarrow> reflected s (snd (write_verdict ok ts repair a t))"

lemma banned_at_reflected: "reflected s t \<Longrightarrow> banned_at s x i \<Longrightarrow> banned_at t x i"
  by (induction rule: reflected.induct) (auto intro: banned_at_verdict)

lemma banned_at_ban:
  assumes "fst (set_exchange_banned ok ts x i True h s)" "canonical_table (exchanges_of (load s x))"
  shows "banned_at (snd (set_exchange_banned ok ts x i True h s)) x i"
proof -
  define g where "g = (\<lambda>d. let r = (case jget (exchanges_of d) (int_str i) of JObj r \<Rightarrow> r | _ \<Rightarrow> new_ban_record ts);
      r1 = dset ''banned'' (JBool True) r in
    if h then dset ''history_only'' (JBool True) r1 else dpop ''history_only'' r1)"
  let ?u = "docs.update ok s x (\<lambda>d. put_exchange d i (g d))"
  have l: "load (snd (set_exchange_banned ok ts x i True h s)) y = load (snd ?u) y" for y
    by (simp add: set_exchange_banned_def docs.update_def g_def Let_def split: option.splits)
  have f: "fst ?u" using assms(1)
    by (cases h) (simp_all add: set_exchange_banned_def docs.update_def g_def Let_def if_distrib [of fst]
        cong: if_cong split: option.splits)
  have "ok" "resolve_sidecar_path x \<noteq> None" using f by (simp_all add: docs.update_result)
  then have d: "load (snd ?u) x = stamped (put_exchange (load s x) i (g (load s x)))"
    using docs.update_read [of x "\<lambda>d. put_exchange d i (g d)" s] normal_put [OF normal_load] by simp
  have "truthy (jget (g (load s x)) ''banned'')" by (simp add: g_def Let_def)
  then show ?thesis using assms(2) by (simp add: banned_at_def found_def l d canonical_dset)
qed

text \<open>C1: an operator's ban is final for training. Once an exchange is banned, no sequence of reflection
  verdicts over any sessions, stored or not, brings it back: the trainable anchors of the directory never
  hold that exchange again.\<close>

theorem ban_outlives_reflection:
  assumes "fst (set_exchange_banned ok ts x i True h s)" "canonical_table (exchanges_of (load s x))"
    and "reflected (snd (set_exchange_banned ok ts x i True h s)) t"
    and "live_dialogue_anchors sha ck rp chats t cfg = Inr as" "a \<in> set as"
    and "jget a ''source_session'' = JStr y" "resolve_sidecar_path y = resolve_sidecar_path x"
  shows "jget a ''exchange_index'' \<noteq> JInt i"
proof
  assume i: "jget a ''exchange_index'' = JInt i"
  obtain f k r j where o: "(k, JObj r) \<in> set (exchanges_of (load t (session_name_from_sidecar f)))" "str_int k = Some j"
    "build_dialogue_anchor sha ck rp chats (session_name_from_sidecar f) j r (fallback_dir t) = Inr (Some a)"
    using live_anchor_origin [OF assms(4,5)] by metis
  have j: "j = i" "session_name_from_sidecar f = y" and k: "\<not> kept_out sha rp r"
    by (rule built_anchor_shape [OF o(3)], use i assms(6) in simp)+
  have "(k, JObj r) \<in> set (exchanges_of (load t x))"
    using o(1) exchanges_same_path [OF assms(7), of t] by (simp add: j(2))
  then have "truthy (jget r ''banned'')"
    using banned_record [OF banned_at_reflected [OF assms(3) banned_at_ban [OF assms(1,2)]]] o(2) j(1) by blast
  then show False using k by (simp add: kept_out_def)
qed

definition sample_store :: sidecar where
  "sample_store = \<lparr>main_dir = sample_chats, fallback_dir = None, ledger_events = []\<rparr>"

definition sample_banned :: sidecar where
  "sample_banned = snd (set_exchange_banned True ''now'' ''a.json'' 0 True False sample_store)"

theorem ban_outlives_reflection_witness:
  "\<exists>t a. reflected sample_banned t
    \<and> live_dialogue_anchors id id (\<lambda>_. []) sample_chats t default_consolidation = Inr [a]
    \<and> jget a ''source_session'' = JStr ''a.json'' \<and> jget a ''exchange_index'' \<noteq> JInt 0"
proof -
  define t where "t = snd (write_verdict True ''later'' id (sample_verdict\<lparr>va_session := ''a.json'', va_index := 0\<rparr>) sample_banned)"
  have 1: "fst (set_exchange_banned True ''now'' ''a.json'' 0 True False sample_store)"
    "canonical_table (exchanges_of (load sample_store ''a.json''))"
    by code_simp+
  have run: "reflected sample_banned t" unfolding t_def by (intro reflected.intros)
  have live: "live_dialogue_anchors id id (\<lambda>_. []) sample_chats t default_consolidation = Inr [sample_anchor]"
    unfolding t_def by code_simp
  have s: "jget sample_anchor ''source_session'' = JStr ''a.json''" by code_simp
  have "jget sample_anchor ''exchange_index'' \<noteq> JInt 0"
    by (rule ban_outlives_reflection [OF 1 run [unfolded sample_banned_def] live _ s HOL.refl]) simp
  with run live s show ?thesis by blast
qed

end
