(* ===== verification/Config.thy ===== *)
theory Config
  imports Render
begin

text \<open>
  The rest of \<open>server/training/decay.py\<close>: reading the build mode, the incremental-build knobs and the
  consolidation block from the server's configuration, and the age of a chat. \<open>fs\<close> is Python's reading of
  a float from text, \<open>rp\<close> the \<open>repr\<close> of floats and containers, \<open>strp\<close> and \<open>iso8601\<close> are
  \<open>datetime.strptime\<close> (format first) and \<open>datetime.fromisoformat\<close>, \<open>None\<close> standing for \<open>ValueError\<close>.
\<close>

section \<open>Build mode and incremental knobs\<close>

definition train_mode :: "(json \<Rightarrow> string) \<Rightarrow> jobj \<Rightarrow> string" where
  "train_mode rp config =
     (let mode = py_lower (py_strip (fstr rp (py_or (jget config ''train_mode'') (JStr ''full''))))
      in if mode \<in> {''full'', ''incremental''} then mode else ''full'')"

record incremental =
  inc_lr :: rat
  inc_lr_schedule :: string
  inc_warmup_steps :: int
  inc_epochs :: int
  inc_min_increment :: int
  inc_min_coverage :: rat

definition incremental_defaults :: incremental where
  "incremental_defaults = \<lparr>inc_lr = 1 / 100000, inc_lr_schedule = ''constant'', inc_warmup_steps = 0,
     inc_epochs = 1, inc_min_increment = 16384, inc_min_coverage = 1 / 2\<rparr>"

text \<open>\<open>try: float(raw.get(k, d)) except (TypeError, ValueError): d\<close>, and the same for a count.\<close>

definition float_or :: "(string \<Rightarrow> rat py) \<Rightarrow> jobj \<Rightarrow> string \<Rightarrow> rat \<Rightarrow> rat" where
  "float_or fs raw k d = (case dget raw k of None \<Rightarrow> d
     | Some v \<Rightarrow> (case py_float fs v of Inr x \<Rightarrow> x | Inl _ \<Rightarrow> d))"

definition count_or :: "jobj \<Rightarrow> string \<Rightarrow> int \<Rightarrow> int" where
  "count_or raw k d = (case py_int_of (jget_or raw k (JInt d)) of Inr n \<Rightarrow> max 0 n | Inl _ \<Rightarrow> d)"

definition incremental_settings ::
  "(string \<Rightarrow> rat py) \<Rightarrow> (json \<Rightarrow> string) \<Rightarrow> jobj \<Rightarrow> incremental py" where
  "incremental_settings fs rp config =
     py_bind (as_dict (py_or (jget config ''incremental'') (JObj []))) (\<lambda>raw.
       let d = incremental_defaults;
           sched = py_lower (py_strip (fstr rp (jget_or raw ''lr_schedule'' (JStr (inc_lr_schedule d)))))
       in Inr \<lparr>inc_lr = float_or fs raw ''lr'' (inc_lr d),
            inc_lr_schedule = (if sched \<in> {''constant'', ''triangular''} then sched else inc_lr_schedule d),
            inc_warmup_steps = count_or raw ''warmup_steps'' (inc_warmup_steps d),
            inc_epochs = max 1 (count_or raw ''epochs'' (inc_epochs d)),
            inc_min_increment = count_or raw ''min_increment'' (inc_min_increment d),
            inc_min_coverage = clamp01 (float_or fs raw ''min_coverage'' (inc_min_coverage d))\<rparr>)"

section \<open>The consolidation block\<close>

text \<open>\<open>raw.get(k) or {}\<close>, before a method of it is called; \<open>float(raw.get(k, d))\<close>; a tuple of floats.\<close>

definition sub_dict :: "jobj \<Rightarrow> string \<Rightarrow> json" where
  "sub_dict raw k = py_or (jget raw k) (JObj [])"

definition float_field :: "(string \<Rightarrow> rat py) \<Rightarrow> jobj \<Rightarrow> string \<Rightarrow> rat \<Rightarrow> rat py" where
  "float_field fs raw k d = (case dget raw k of None \<Rightarrow> Inr d | Some v \<Rightarrow> py_float fs v)"

definition floats_or :: "(string \<Rightarrow> rat py) \<Rightarrow> json \<Rightarrow> rat list \<Rightarrow> rat list py" where
  "floats_or fs v d =
     (if truthy v
      then py_bind (json_items v)
             (py_fold (\<lambda>out x. py_bind (py_float fs x) (\<lambda>y. Inr (out @ [y]))) [])
      else Inr d)"

definition bool_field :: "jobj \<Rightarrow> string \<Rightarrow> bool \<Rightarrow> bool" where
  "bool_field raw k d = truthy (jget_or raw k (JBool d))"

definition wall_from_dict :: "(string \<Rightarrow> rat py) \<Rightarrow> json \<Rightarrow> wall_config py" where
  "wall_from_dict fs raw0 =
     (let d = default_wall in
      py_bind (as_dict (py_or raw0 (JObj []))) (\<lambda>raw.
      py_bind (as_dict (sub_dict raw ''wander_rag'')) (\<lambda>wr.
      py_bind (float_field fs raw ''rag_only_window_h'' (rag_only_window_h d)) (\<lambda>v_window.
      py_bind (float_field fs raw ''lora_cap_age_h'' (lora_cap_age_h d)) (\<lambda>v_lora.
      py_bind (float_field fs raw ''rag_cap_age_h'' (rag_cap_age_h d)) (\<lambda>v_rag.
      py_bind (float_field fs raw ''gist_cap_age_h'' (gist_cap_age_h d)) (\<lambda>v_gist.
      py_bind (float_field fs raw ''base_lr'' (base_lr d)) (\<lambda>v_lr.
      py_bind (floats_or fs (jget raw ''lr_ramp'') (lr_ramp d)) (\<lambda>v_ramp.
      py_bind (as_dict (sub_dict raw ''contamination'')) (\<lambda>cont.
      py_bind (float_field fs cont ''dose'' (contamination_dose d)) (\<lambda>v_dose.
      py_bind (py_int_of (jget_or cont ''min_user_chars'' (JInt (contamination_min_user_chars d)))) (\<lambda>v_min.
      py_bind (floats_or fs (jget wr ''weights'') (wander_rag_weights d)) (\<lambda>v_ww.
      py_bind (float_field fs wr ''step_h'' (wander_rag_step_h d)) (\<lambda>v_step.
      py_bind (as_dict (sub_dict raw ''fresh_window'')) (\<lambda>fresh.
      py_bind (float_field fs fresh ''droop_frac'' (fresh_droop_frac d)) (\<lambda>v_droop.
      py_bind (float_field fs fresh ''horizon_h'' (fresh_horizon_h d)) (\<lambda>v_horizon.
      py_bind (float_field fs raw ''rag_floor_weight'' (rag_floor_weight d)) (\<lambda>v_rfloor.
      py_bind (float_field fs raw ''gist_floor_weight'' (gist_floor_weight d)) (\<lambda>v_gfloor.
      py_bind (as_dict (sub_dict raw ''recollection'')) (\<lambda>rc.
      py_bind (float_field fs rc ''hold_h'' (recollection_hold_h d)) (\<lambda>v_hold.
      py_bind (float_field fs rc ''cap_age_h'' (recollection_cap_age_h d)) (\<lambda>v_rcap.
      py_bind (float_field fs rc ''floor_weight'' (recollection_floor_weight d)) (\<lambda>v_rcfloor.
        Inr \<lparr>rag_only_window_h = v_window, lora_cap_age_h = v_lora, rag_cap_age_h = v_rag,
          gist_cap_age_h = v_gist, base_lr = v_lr, lr_ramp = v_ramp,
          contamination_enabled = bool_field cont ''enabled'' (contamination_enabled d),
          contamination_dose = v_dose,
          contamination_additive = bool_field cont ''additive'' (contamination_additive d),
          contamination_fold = bool_field cont ''fold'' (contamination_fold d),
          contamination_min_user_chars = v_min,
          wander_rag_weights = v_ww, wander_rag_step_h = v_step,
          fresh_droop_frac = v_droop, fresh_horizon_h = v_horizon,
          rag_floor_weight = clamp01 v_rfloor, gist_floor_weight = clamp01 v_gfloor,
          recollection_hold_h = v_hold, recollection_cap_age_h = v_rcap,
          recollection_floor_weight = clamp01 v_rcfloor\<rparr>)))))))))))))))))))))))"

text \<open>A curve that is not a string is only ever compared with \<open>"linear"\<close>; it is read as the empty name.\<close>

definition decay_from :: "string \<Rightarrow> jobj \<Rightarrow> json \<Rightarrow> decay_config py" where
  "decay_from crv defaults v =
     (case py_or v (JObj []) of
        JObj over \<Rightarrow>
          let m = dmerge defaults over in
          py_bind (py_int_of (jget m ''base_variants'')) (\<lambda>b.
          py_bind (py_int_of (jget m ''decay_steps'')) (\<lambda>n.
            Inr \<lparr>base_variants = b, decay_steps = n, curve = crv\<rparr>))
      | _ \<Rightarrow> Inl TypeError)"

definition consolidation_from_dict :: "(string \<Rightarrow> rat py) \<Rightarrow> json \<Rightarrow> consolidation_config py" where
  "consolidation_from_dict fs raw0 =
     py_bind (as_dict (py_or raw0 (JObj []))) (\<lambda>raw.
       let crv = (case jget_or raw ''decay_curve'' (JStr ''linear'') of JStr s \<Rightarrow> s | _ \<Rightarrow> []) in
       py_bind (decay_from crv [(''base_variants'', JInt 3), (''decay_steps'', JInt 3)] (jget raw ''dialogue'')) (\<lambda>dc.
       py_bind (decay_from crv [(''base_variants'', JInt 2), (''decay_steps'', JInt 3)] (jget raw ''fact'')) (\<lambda>fc.
       py_bind (wall_from_dict fs (jget raw ''wall_clock'')) (\<lambda>w.
         Inr \<lparr>dialogue_cfg = dc, fact_cfg = fc, wall = w\<rparr>))))"

section \<open>The age of a chat\<close>

text \<open>A moment in seconds and whether it carries a time zone; the two kinds cannot be subtracted.\<close>

type_synonym moment = "bool \<times> rat"

definition ts_stem :: "string \<Rightarrow> string" where
  "ts_stem s = (if endswith s ''.state.json'' then removesuffix s ''.state.json''
     else if endswith s ''.json'' then removesuffix s ''.json'' else s)"

definition parse_ts ::
  "(string \<Rightarrow> string \<Rightarrow> moment option) \<Rightarrow> (string \<Rightarrow> moment option) \<Rightarrow> string option \<Rightarrow> moment option" where
  "parse_ts strp iso8601 ts =
     (case ts of
        None \<Rightarrow> None
      | Some t \<Rightarrow>
          if t = [] then None
          else let s = ts_stem (py_strip t) in
            case strp ''%Y%m%d_%H%M%S'' s of
              Some m \<Rightarrow> Some m
            | None \<Rightarrow> (case strp ''%Y%m%d-%H%M%S'' s of Some m \<Rightarrow> Some m | None \<Rightarrow> iso8601 s))"

definition wall_clock_age_hours ::
  "(string option \<Rightarrow> moment option) \<Rightarrow> string option \<Rightarrow> string option \<Rightarrow> rat option py" where
  "wall_clock_age_hours parse chat_ts built_at =
     (case (parse chat_ts, parse built_at) of
        (Some (za, a), Some (zb, b)) \<Rightarrow> if za \<noteq> zb then Inl TypeError else Inr (Some (max 0 ((b - a) / 3600)))
      | _ \<Rightarrow> Inr None)"

section \<open>Properties\<close>

lemma count_or_nonneg: "0 \<le> d \<Longrightarrow> 0 \<le> count_or raw k d"
  by (simp add: count_or_def split: sum.splits)

text \<open>No configuration can put an incremental build out of range. Whatever the file holds, the knobs
  are read or replaced by their defaults: the schedule is one of the two known ones, counts are not
  negative, there is at least one epoch and the coverage guard is a share between 0 and 1. Only an
  \<open>incremental\<close> entry that is no dictionary is refused, and with nothing configured the defaults apply.\<close>

theorem incremental_settings_safe:
  "(case incremental_settings fs rp config of
      Inl e \<Rightarrow> e = AttributeError \<and> truthy (jget config ''incremental'') \<and> \<not> is_obj (jget config ''incremental'')
    | Inr s \<Rightarrow> inc_lr_schedule s \<in> {''constant'', ''triangular''} \<and> 0 \<le> inc_warmup_steps s \<and> 1 \<le> inc_epochs s
        \<and> 0 \<le> inc_min_increment s \<and> 0 \<le> inc_min_coverage s \<and> inc_min_coverage s \<le> 1
        \<and> (if truthy (jget config ''incremental'') then True else s = incremental_defaults))"
proof (cases "truthy (jget config ''incremental'')")
  case False
  then have "incremental_settings fs rp config = Inr incremental_defaults"
    by (simp add: incremental_settings_def py_or_def count_or_def float_or_def incremental_defaults_def
        clamp01_def) code_simp
  then show ?thesis using False by (simp add: incremental_defaults_def)
next
  case True
  show ?thesis
  proof (cases "jget config ''incremental''")
    case (JObj raw)
    then show ?thesis
      using True by (simp add: incremental_settings_def py_or_def count_or_nonneg Let_def incremental_defaults_def)
  qed (use True in \<open>simp_all add: incremental_settings_def py_or_def\<close>)
qed

lemma floats_or_nonempty:
  assumes "floats_or fs v d = Inr xs" "d \<noteq> []"
  shows "xs \<noteq> []"
proof (cases "truthy v")
  case True
  then obtain ys where ys: "json_items v = Inr ys" and
    f: "py_fold (\<lambda>out x. py_bind (py_float fs x) (\<lambda>y. Inr (out @ [y]))) [] ys = Inr xs"
    using assms(1) by (auto simp: floats_or_def py_bind_eq_Inr)
  have "ys \<noteq> []" using ys True by (cases v) auto
  then obtain y zs where ys': "ys = y # zs" by (cases ys) auto
  then obtain x where "py_fold (\<lambda>out x. py_bind (py_float fs x) (\<lambda>y. Inr (out @ [y]))) [x] zs = Inr xs"
    using f by (auto simp: py_bind_eq_Inr)
  then show ?thesis by (rule py_fold_invariant) (auto simp: py_bind_eq_Inr)
next
  case False
  then show ?thesis using assms by (simp add: floats_or_def)
qed

lemma wall_from_dict_fields:
  assumes "wall_from_dict fs v = Inr w"
  shows "(\<exists>u. floats_or fs u (lr_ramp default_wall) = Inr (lr_ramp w))
    \<and> (\<exists>r. rag_floor_weight w = clamp01 r) \<and> (\<exists>g. gist_floor_weight w = clamp01 g)
    \<and> (\<exists>q. recollection_floor_weight w = clamp01 q)"
  using assms unfolding wall_from_dict_def Let_def py_bind_eq_Inr by (elim exE conjE) auto

text \<open>What loading a configuration checks: the ramp has a sample point (an empty one in the file is replaced by the
  default), so the learning-rate multiplier is defined at every age and zero below the window, and the three floors
  are weights.\<close>

theorem loaded_ramp_usable:
  assumes "consolidation_from_dict fs raw = Inr c"
  shows "lr_ramp (wall c) \<noteq> []
    \<and> (\<forall>x \<in> {rag_floor_weight (wall c), gist_floor_weight (wall c), recollection_floor_weight (wall c)}. 0 \<le> x \<and> x \<le> 1)
    \<and> (\<exists>m. lr_multiplier_hours age_h (dialogue_cfg c) (wall c) = Inr m
         \<and> ((case age_h of None \<Rightarrow> True | Some a \<Rightarrow> a < rag_only_window_h (wall c)) \<longrightarrow> m = 0))"
proof -
  obtain v where w0: "wall_from_dict fs v = Inr (wall c)"
    using assms by (auto simp: consolidation_from_dict_def py_bind_eq_Inr Let_def)
  obtain u where u: "floats_or fs u (lr_ramp default_wall) = Inr (lr_ramp (wall c))"
    using wall_from_dict_fields [OF w0] by blast
  have ne: "lr_ramp (wall c) \<noteq> []" by (rule floats_or_nonempty [OF u]) (simp add: default_wall_def)
  obtain r g q where "rag_floor_weight (wall c) = clamp01 r" "gist_floor_weight (wall c) = clamp01 g"
    "recollection_floor_weight (wall c) = clamp01 q"
    using wall_from_dict_fields [OF w0] by blast
  then show ?thesis
    using ne by (auto simp: lr_multiplier_hours_def ramp_at_def Let_def split: option.splits)
qed

theorem loaded_ramp_usable_witness:
  "consolidation_from_dict (\<lambda>_. Inl ValueError) (JObj [(''wall_clock'', JObj [(''lr_ramp'', JList [])])]) =
     Inr default_consolidation
   \<and> lr_ramp (wall default_consolidation) \<noteq> []"
proof -
  have "consolidation_from_dict (\<lambda>_. Inl ValueError) (JObj [(''wall_clock'', JObj [(''lr_ramp'', JList [])])]) =
     Inr default_consolidation" by code_simp
  with loaded_ramp_usable [OF this] show ?thesis by blast
qed

text \<open>What it does not check: the name of a decay curve is taken as it is, and the first use of it raises.\<close>

lemma unknown_curve_loads:
  "\<exists>c. consolidation_from_dict (\<lambda>_. Inl ValueError) (JObj [(''decay_curve'', JStr ''foo'')]) = Inr c
     \<and> modifier_for_stage (dialogue_cfg c) 1 = Inl ValueError"
proof -
  have "(case consolidation_from_dict (\<lambda>_. Inl ValueError) (JObj [(''decay_curve'', JStr ''foo'')]) of
      Inr c \<Rightarrow> modifier_for_stage (dialogue_cfg c) 1 = Inl ValueError | Inl e \<Rightarrow> False)" by code_simp
  then show ?thesis by (auto split: sum.splits)
qed

lemma endswith_iff: "endswith s p \<longleftrightarrow> (\<exists>u. s = u @ p)"
  by (metis append_take_drop_id endswith_append endswith_def)

text \<open>The age of a session does not depend on which of its files names it. The stem, the transcript
  \<open>.json\<close> and the state file \<open>.state.json\<close> of a session have one timestamp; the age is defined exactly
  when both timestamps can be read, is never negative, and is the elapsed time when the chat came first.\<close>

theorem age_of_session:
  assumes "py_strip stem = stem" "stem \<noteq> []" "\<not> endswith stem ''.json''" "\<not> endswith stem ''.state''"
    and "suffix \<in> {[], ''.json'', ''.state.json''}"
  shows "parse_ts strp iso8601 (Some (stem @ suffix)) = parse_ts strp iso8601 (Some stem)
    \<and> (parse_ts strp iso8601 (Some stem) = Some (z, a) \<longrightarrow> parse_ts strp iso8601 built = Some (z, b) \<longrightarrow>
        wall_clock_age_hours (parse_ts strp iso8601) (Some (stem @ suffix)) built
          = Inr (Some (if a \<le> b then (b - a) / 3600 else 0)))"
proof -
  have nospace: "rstrip_if is_space (stem @ suffix) = stem @ suffix"
  proof (rule rstrip_if_last)
    have "\<not> is_space (last stem)"
      using rstrip_if_last_not [of is_space "lstrip_if is_space stem"] assms(1,2)
      by (simp add: py_strip_def strip_if_def)
    then show "stem @ suffix = [] \<or> \<not> is_space (last (stem @ suffix))"
      using assms(5) by (auto simp: is_space_def)
  qed
  have "lstrip_if is_space stem = stem"
    using assms(1) length_rstrip_if [of is_space "lstrip_if is_space stem"] length_lstrip_if [of is_space stem]
    unfolding py_strip_def strip_if_def lstrip_if_def
    by (metis append_self_conv2 length_append takeWhile_dropWhile_id add_diff_cancel_right' diff_is_0_eq
        le_trans length_0_conv)
  then have "\<not> is_space (hd stem)" using assms(2) by (metis hd_dropWhile lstrip_if_def)
  then have l: "lstrip_if is_space (stem @ suffix) = stem @ suffix"
    using assms(2) by (cases stem) (simp_all add: lstrip_if_def)
  have strip: "py_strip (stem @ suffix) = stem @ suffix"
    by (simp add: py_strip_def strip_if_def l nospace)
  have n1: "\<not> endswith stem ''.state.json''"
  proof
    assume "endswith stem ''.state.json''"
    then obtain u where "stem = (u @ ''.state'') @ ''.json''" by (auto simp: endswith_iff)
    then show False using assms(3) endswith_append by metis
  qed
  have n2: "\<not> endswith (stem @ ''.json'') ''.state.json''"
  proof
    assume "endswith (stem @ ''.json'') ''.state.json''"
    then obtain u where "stem @ ''.json'' = (u @ ''.state'') @ ''.json''" by (auto simp: endswith_iff)
    then have "stem = u @ ''.state''" by (simp only: append_same_eq)
    then show False using assms(4) endswith_append by metis
  qed
  have "ts_stem (py_strip (stem @ suffix)) = stem"
    unfolding strip using assms(3,5) n1 n2
    by (auto simp: ts_stem_def simp del: append_Cons append_Nil)
  moreover have "ts_stem (py_strip stem) = stem" using assms(1,3) n1 by (simp add: ts_stem_def)
  ultimately have eq: "parse_ts strp iso8601 (Some (stem @ suffix)) = parse_ts strp iso8601 (Some stem)"
    using assms(2) by (simp add: parse_ts_def)
  show ?thesis
    using eq by (auto simp: wall_clock_age_hours_def max_def divide_le_0_iff)
qed

theorem age_of_session_witness:
  "wall_clock_age_hours (parse_ts (\<lambda>_ _. None) (\<lambda>s. if s = ''a'' then Some (False, 0) else Some (False, 7200)))
     (Some ''a.state.json'') (Some ''b'') = Inr (Some 2)"
  using age_of_session [of "''a''" "''.state.json''" "\<lambda>_ _. None"
      "\<lambda>s. if s = ''a'' then Some (False, 0) else Some (False, 7200)" False 0 "Some ''b''" 7200]
  by (simp add: py_strip_def strip_if_def lstrip_if_def rstrip_if_def is_space_def endswith_def
      parse_ts_def ts_stem_def)

end
