(* ===== verification/Build_Row.thy ===== *)
theory Build_Row
  imports Decay
begin

text \<open>
  The training row of \<open>server/training/build_dataset.py\<close> (\<open>BuildRow\<close>), its projection into the render
  file, the fingerprint of a list of rows and the contamination split. The rows are shared by the
  corpus assembly and the dose ledger.
\<close>

section \<open>Rows\<close>

record build_row =
  messages :: "json list"
  row_age :: rat
  lr_multiplier :: rat
  row_source :: string
  row_session :: string
  row_index :: "int option"
  order_key :: "string \<times> int"
  row_target :: string
  row_anchor :: "jobj option"
  persona_keys :: "json list"
  fact_keys :: "json list"
  unmask_user :: bool
  preview :: bool
  user_loss_weight :: "rat option"

definition opt_json :: "('a \<Rightarrow> json) \<Rightarrow> 'a option \<Rightarrow> json" where
  "opt_json f x = (case x of None \<Rightarrow> JNull | Some v \<Rightarrow> f v)"

definition row_render_dict :: "build_row \<Rightarrow> jobj" where
  "row_render_dict r =
     (let a = (case row_anchor r of None \<Rightarrow> [] | Some d \<Rightarrow> d);
          ex = [(''anchor_key'', py_or (jget a ''key'') (JStr (row_session r))),
                (''messages'', JList (messages r)), (''variant'', JStr (row_target r)),
                (''age'', JFloat (row_age r)), (''lr_multiplier'', JFloat (lr_multiplier r)),
                (''source'', JStr (row_source r)), (''unmask_user'', JBool (unmask_user r)),
                (''user_loss_weight'', opt_json JFloat (user_loss_weight r)),
                (''fact_key'', JBool (fact_keys r \<noteq> [])),
                (''source_session'', JStr (row_session r)),
                (''exchange_index'', opt_json JInt (row_index r)),
                (''target_source'', jget_or a ''target_source'' (JStr [])),
                (''target_kind'', jget_or a ''target_kind'' (JStr [])),
                (''target_generation'', jget_or a ''target_generation'' (JStr []))]
      in if preview r then dset ''preview'' (JBool True) ex else ex)"

text \<open>
  The bytes the fingerprint hashes, row by row; \<open>f6\<close> is the format \<open>.6f\<close> of a float, \<open>sha\<close> the first
  16 hexadecimal digits of SHA-256.
\<close>

definition corpus_fingerprint :: "(string \<Rightarrow> string) \<Rightarrow> (rat \<Rightarrow> string) \<Rightarrow> build_row list \<Rightarrow> string" where
  "corpus_fingerprint sha f6 rows =
     sha (concat (List.map (\<lambda>r.
       row_source r @ ''|'' @ row_session r @ ''|''
       @ (case row_index r of None \<Rightarrow> ''None'' | Some i \<Rightarrow> int_str i) @ ''|''
       @ int_str (if unmask_user r then 1 else 0) @ ''|''
       @ (case user_loss_weight r of None \<Rightarrow> [] | Some w \<Rightarrow> f6 w) @ ''|''
       @ row_target r @ [char_of (0 :: nat)]) rows))"

section \<open>Contamination\<close>

text \<open>A row to emit: its multiplier, whether the user turn is unmasked, and the user weight.\<close>

type_synonym row_spec = "rat \<times> bool \<times> rat option"

definition contamination_rows :: "rat \<Rightarrow> rat option \<Rightarrow> wall_config \<Rightarrow> int option \<Rightarrow> row_spec list" where
  "contamination_rows mult age_h w user_chars =
     (let at_cap = (case age_h of None \<Rightarrow> False | Some a \<Rightarrow> lora_cap_age_h w \<le> a);
          dose = contamination_dose w in
      if \<not> (at_cap \<and> contamination_enabled w \<and> 0 < dose) then [(mult, False, None)]
      else let min_chars = contamination_min_user_chars w in
        if 0 < min_chars \<and> (case user_chars of None \<Rightarrow> 0 | Some n \<Rightarrow> n) < min_chars
        then [(mult, False, None)]
        else let response_total = (if contamination_additive w then mult + dose else mult) in
          if contamination_fold w then
            [(response_total, True, Some (if 0 < response_total then dose / response_total else 0))]
          else if contamination_additive w then [(mult, False, None), (dose, True, None)]
          else [(max 0 (mult - dose), False, None), (dose, True, None)])"

text \<open>The dose the response, and the user's turn, receive from a list of rows of one exchange.\<close>

definition response_dose :: "row_spec list \<Rightarrow> rat" where
  "response_dose rs = sum_list (List.map fst rs)"

definition user_dose :: "row_spec list \<Rightarrow> rat" where
  "user_dose rs = sum_list (List.map (\<lambda>(m, u, w). if u then m * (case w of None \<Rightarrow> 1 | Some x \<Rightarrow> x) else 0) rs)"

text \<open>The two ways of contaminating an exchange deliver the same doses. At the age cap, with a user
  turn that is long enough and a dose no larger than the multiplier, the folded single row and the
  split pair both give the response the full multiplier (plus the dose in additive mode) and the
  user's turn exactly the contamination dose.\<close>

theorem contamination_doses:
  assumes "lora_cap_age_h w \<le> a" "contamination_enabled w" "0 < contamination_dose w"
    and "contamination_dose w \<le> mult"
    and "contamination_min_user_chars w \<le> n"
  shows "response_dose (contamination_rows mult (Some a) w (Some n)) =
      (if contamination_additive w then mult + contamination_dose w else mult)
    \<and> user_dose (contamination_rows mult (Some a) w (Some n)) = contamination_dose w
    \<and> length (contamination_rows mult (Some a) w (Some n)) = (if contamination_fold w then 1 else 2)"
  using assms by (auto simp: contamination_rows_def Let_def response_dose_def user_dose_def)

theorem contamination_doses_witness:
  "contamination_rows 4 (Some 72) default_wall (Some 100) = [(3, False, None), (1, True, None)]
   \<and> user_dose (contamination_rows 4 (Some 72) default_wall (Some 100)) = 1"
  using contamination_doses [of default_wall 72 4 100]
  by (simp add: default_wall_def contamination_rows_def)

text \<open>Contamination only happens at the age cap. Below it, with an unknown age, with contamination
  switched off or with too short a user turn, an exchange is one masked row at its full multiplier;
  whatever the mode, no row is emitted with a negative multiplier, and an unmasked row exists only
  when the user's turn is to be trained.\<close>

theorem contamination_rows_gated:
  assumes "0 \<le> mult"
  shows "(age_h = None \<or> (\<exists>a. age_h = Some a \<and> a < lora_cap_age_h w) \<or> \<not> contamination_enabled w
      \<or> contamination_dose w \<le> 0
      \<or> (0 < contamination_min_user_chars w \<and>
          (case user_chars of None \<Rightarrow> 0 | Some n \<Rightarrow> n) < contamination_min_user_chars w)
      \<longrightarrow> contamination_rows mult age_h w user_chars = [(mult, False, None)])
    \<and> (\<forall>(m, u, x) \<in> set (contamination_rows mult age_h w user_chars). 0 \<le> m)
    \<and> ((\<exists>m x. (m, True, x) \<in> set (contamination_rows mult age_h w user_chars)) \<longrightarrow>
        contamination_enabled w \<and> 0 < contamination_dose w \<and>
        (\<exists>a. age_h = Some a \<and> lora_cap_age_h w \<le> a))"
  using assms
  by (cases age_h) (auto simp: contamination_rows_def Let_def not_le not_less)

theorem contamination_rows_gated_witness:
  "contamination_rows 2 (Some 50) default_wall (Some 500) = [(2, False, None)]"
  using contamination_rows_gated [of 2 "Some 50" default_wall "Some 500"]
  by (simp add: default_wall_def)

end
