(* ===== verification/Build_Dataset.thy ===== *)
theory Build_Dataset
  imports Think_Block Dialogue_Source Config Build_Row "HOL-Library.Product_Lexorder"
begin

text \<open>
  \<open>server/training/build_dataset.py\<close>: the corpus of a build, from the frozen chats of the hot and archive
  directories, the placed facts of the ledger and the pending wander records. A directory that does not
  exist is \<open>None\<close>; \<open>age\<close> is \<open>wall_clock_age_hours\<close> against the time of the build (theory \<open>Config\<close>).
\<close>

section \<open>Hosting facts on their exchange\<close>

text \<open>\<open>sort(key=..., reverse=True)\<close>, which keeps equal elements in their order.\<close>

definition newest_first :: "jobj list \<Rightarrow> jobj list py" where
  "newest_first rs =
     py_bind (py_fold (\<lambda>ks r. py_bind (hash_key (jget_or r ''ts'' (JStr []))) (\<lambda>k. Inr (ks @ [k]))) [] rs) (\<lambda>ks.
     py_bind (py_sorted ks) (\<lambda>_.
       Inr (List.map snd (rev (sort_key fst (rev (zip ks rs)))))))"

type_synonym host = "pykey \<times> int"

definition host_of :: "jobj \<Rightarrow> host option py" where
  "host_of p =
     py_bind (as_dict (py_or (jget p ''source_exchange'') (JObj []))) (\<lambda>se.
       let sess = py_or (jget se ''source_session'') (jget p ''source_session'');
           idx = (if jget se ''exchange_index'' = JNull then jget p ''exchange_index'' else jget se ''exchange_index'')
       in if \<not> truthy sess \<or> idx = JNull then Inr None
          else case py_int_of idx of
              Inl TypeError \<Rightarrow> Inr None
            | Inl ValueError \<Rightarrow> Inr None
            | Inl e \<Rightarrow> Inl e
            | Inr i \<Rightarrow> py_bind (hash_key sess) (\<lambda>k. Inr (Some (k, i))))"

definition index_by_exchange :: "jobj list \<Rightarrow> (host, jobj list) dict py" where
  "index_by_exchange ps =
     py_bind (py_fold (\<lambda>ix p. py_bind (host_of p) (\<lambda>h.
         Inr (case h of None \<Rightarrow> ix | Some k \<Rightarrow> dset k (dget_or ix k [] @ [p]) ix))) [] ps) (\<lambda>ix.
     py_fold (\<lambda>out kb. py_bind (newest_first (snd kb)) (\<lambda>b. Inr (out @ [(fst kb, b)]))) [] ix)"

definition live_hostable_anchors :: "logfile \<Rightarrow> (jobj list \<times> jobj list) py" where
  "live_hostable_anchors f =
     py_bind (fold_ledger f) (\<lambda>d.
       py_fold (\<lambda>(personas, facts) a.
         if truthy (jget a ''superseded'') then Inr (personas, facts)
         else if jget a ''type'' = JStr ''persona'' then Inr (personas @ [a], facts)
         else if jget a ''type'' = JStr ''fact''
         then py_bind (as_dict (py_or (jget a ''source_exchange'') (JObj []))) (\<lambda>se.
                Inr (personas, if jget se ''exchange_index'' \<noteq> JNull then facts @ [a] else facts))
         else Inr (personas, facts)) ([], []) (List.map snd d))"

definition fact_inject_cap :: nat where
  "fact_inject_cap = 2"

text \<open>The injected text, when the target is trainable, and the keys of the injected facts.\<close>

definition inject :: "string \<Rightarrow> jobj list \<Rightarrow> (string \<times> json list) option py" where
  "inject target0 cands =
     (let target = py_strip target0 in
      if trainable_answer target = None then Inr None
      else if cands = [] then Inr (Some (target, []))
      else case split_cot target of
          None \<Rightarrow> Inr (Some (target, []))
        | Some (thought, _) \<Rightarrow>
            py_bind (select_persona_injections fact_inject_cap thought cands) (\<lambda>(sel, raw).
              let stmts = List.map fact_cot_line raw;
                  injected = (if stmts \<noteq> [] then (case prepend_persona_lines target stmts of
                                 Some t \<Rightarrow> if t = [] then target else t | None \<Rightarrow> target)
                              else target)
              in py_bind (py_fold (\<lambda>ks p. case dget p ''key'' of
                     None \<Rightarrow> Inl KeyError | Some k \<Rightarrow> Inr (ks @ [k])) [] sel) (\<lambda>ks.
                   Inr (Some (injected, ks)))))"

section \<open>The rows of one exchange\<close>

text \<open>What the rows of a session share.\<close>

record session_ctx =
  sc_session :: string
  sc_age :: "rat option"
  sc_mult :: rat
  sc_preview :: bool

definition row_of :: "session_ctx \<Rightarrow> int \<Rightarrow> json list \<Rightarrow> string \<Rightarrow> jobj \<Rightarrow> json list \<Rightarrow> row_spec \<Rightarrow> build_row" where
  "row_of sc i msgs injected anchor fkeys spec =
     (case spec of (m, u, w) \<Rightarrow>
       \<lparr>messages = msgs, row_age = (case sc_age sc of None \<Rightarrow> 0 | Some a \<Rightarrow> a), lr_multiplier = m,
        row_source = ''chat'', row_session = sc_session sc, row_index = Some i,
        order_key = (path_stem (sc_session sc), i), row_target = injected,
        row_anchor = Some (dset ''target'' (JStr injected) anchor), persona_keys = [], fact_keys = fkeys,
        unmask_user = u, preview = sc_preview sc, user_loss_weight = w\<rparr>)"

text \<open>The multipliers and masks to emit: one preview row, or what the contamination dose asks for.\<close>

definition row_specs :: "wall_config \<Rightarrow> session_ctx \<Rightarrow> jobj \<Rightarrow> row_spec list py" where
  "row_specs w sc anchor =
     (if sc_preview sc then Inr [(0, False, None)]
      else py_bind (strip_or_empty (jget anchor ''prompt'')) (\<lambda>prompt.
        Inr (contamination_rows (sc_mult sc) (sc_age sc) w (Some (int (length prompt))))))"

definition anchor_rows ::
  "(json \<Rightarrow> string) \<Rightarrow> string \<Rightarrow> (host, jobj list) dict \<Rightarrow> wall_config \<Rightarrow> session_ctx \<Rightarrow> int \<Rightarrow> jobj
   \<Rightarrow> build_row list py" where
  "anchor_rows rp tag fact_index w sc i anchor =
     py_bind (as_str (jget_or anchor ''target'' (JStr []))) (\<lambda>tgt.
     py_bind (inject tgt (dget_or fact_index (KStr (sc_session sc), i) [])) (\<lambda>oi.
       case oi of
         None \<Rightarrow> Inr []
       | Some (injected, fkeys) \<Rightarrow>
           py_bind (assert_parity rp tag anchor injected) (\<lambda>par.
             if par = Differs then Inr []
             else py_bind (build_messages rp tag anchor injected) (\<lambda>msgs.
                  py_bind (row_specs w sc anchor) (\<lambda>specs.
                    Inr (List.map (row_of sc i msgs injected anchor fkeys) specs))))))"

definition exchange_rows ::
  "(json \<Rightarrow> string) \<Rightarrow> string \<Rightarrow> (string \<Rightarrow> int \<Rightarrow> jobj \<Rightarrow> jobj option py) \<Rightarrow> (host, jobj list) dict \<Rightarrow> wall_config
   \<Rightarrow> session_ctx \<Rightarrow> build_row list \<Rightarrow> string \<times> json \<Rightarrow> build_row list py" where
  "exchange_rows rp tag build fact_index w sc rows kv =
     (case kv of
        (k, JObj r) \<Rightarrow>
          (case str_int k of
             None \<Rightarrow> Inr rows
           | Some i \<Rightarrow>
               py_bind (build (sc_session sc) i r) (\<lambda>oa.
                 case oa of
                   None \<Rightarrow> Inr rows
                 | Some anchor \<Rightarrow> py_bind (anchor_rows rp tag fact_index w sc i anchor) (\<lambda>rs. Inr (rows @ rs))))
      | _ \<Rightarrow> Inr rows)"

section \<open>The corpus\<close>

record build_env =
  be_age :: "string \<Rightarrow> rat option py"
  be_fallback :: "chats_dir option"
  be_include_fresh :: bool
  be_config :: consolidation_config

definition dir_sidecar :: "build_env \<Rightarrow> chats_dir \<Rightarrow> sidecar" where
  "dir_sidecar env d = \<lparr>main_dir = d, fallback_dir = be_fallback env, ledger_events = []\<rparr>"

text \<open>What a session contributes: nothing, or its rows under one age, multiplier and preview flag.\<close>

definition session_context :: "build_env \<Rightarrow> string \<Rightarrow> jobj \<Rightarrow> session_ctx option py" where
  "session_context env x d =
     (let frozen = truthy (jget d ''reflected_at'') in
      py_bind (be_age env (path_stem x)) (\<lambda>age.
      py_bind (lr_multiplier_hours age (dialogue_cfg (be_config env)) (wall (be_config env))) (\<lambda>mult.
        let pv = (\<not> frozen \<or> mult \<le> 0) in
        if pv \<and> \<not> be_include_fresh env then Inr None
        else Inr (Some \<lparr>sc_session = x, sc_age = age, sc_mult = (if pv then 0 else mult), sc_preview = pv\<rparr>))))"

definition session_rows ::
  "(chats_dir \<Rightarrow> string \<Rightarrow> int \<Rightarrow> jobj \<Rightarrow> jobj option py) \<Rightarrow> (json \<Rightarrow> string) \<Rightarrow> string \<Rightarrow> (host, jobj list) dict
   \<Rightarrow> build_env \<Rightarrow> chats_dir \<Rightarrow> build_row list \<times> string list \<Rightarrow> string \<Rightarrow> (build_row list \<times> string list) py" where
  "session_rows build rp tag fact_index env d st f =
     (case st of (rows, seen) \<Rightarrow>
        let x = session_name_from_sidecar f in
        if x \<in> set seen then Inr st
        else let doc = load (dir_sidecar env d) x in
          if \<not> truthy (jget doc ''reflected_at'')
             \<and> \<not> (be_include_fresh env \<and> truthy (jget doc ''chat_reflected''))
          then Inr st
          else py_bind (session_context env x doc) (\<lambda>osc. case osc of
              None \<Rightarrow> Inr (rows, x # seen)
            | Some sc \<Rightarrow>
                py_bind (py_fold (exchange_rows rp tag (build d) fact_index (wall (be_config env)) sc)
                    rows (exchanges_of doc)) (\<lambda>rows'. Inr (rows', x # seen))))"

definition wander_row :: "(json \<Rightarrow> string) \<Rightarrow> string \<Rightarrow> build_row list \<Rightarrow> jobj \<Rightarrow> build_row list py" where
  "wander_row rp tag rows r =
     py_bind (strip_or_empty (jget r ''target'')) (\<lambda>tgt.
       if trainable_answer tgt = None then Inr rows
       else
         let key = ''wander:'' @ fstr rp (jget_or r ''ts'' (JStr []));
             anchor = [(''key'', JStr key), (''system_prompt'', jget_or r ''system_prompt'' (JStr [])),
                       (''context'', JList []), (''prompt'', jget_or r ''prompt'' (JStr [])), (''speaker'', JStr [])]
         in py_bind (assert_parity rp tag anchor tgt) (\<lambda>par.
              if par = Differs then Inr rows
              else py_bind (build_messages rp tag anchor tgt) (\<lambda>msgs.
                Inr (rows @ [\<lparr>messages = msgs, row_age = 0, lr_multiplier = 1, row_source = ''wander'',
                  row_session = key, row_index = None,
                  order_key = (fstr rp (py_or (jget r ''ts'') (JStr ''~'')), 0), row_target = tgt,
                  row_anchor = Some anchor, persona_keys = [], fact_keys = [], unmask_user = False,
                  preview = False, user_loss_weight = None\<rparr>]))))"

definition chat_rows ::
  "(chats_dir \<Rightarrow> string \<Rightarrow> int \<Rightarrow> jobj \<Rightarrow> jobj option py) \<Rightarrow> (json \<Rightarrow> string) \<Rightarrow> string \<Rightarrow> (host, jobj list) dict
   \<Rightarrow> build_env \<Rightarrow> chats_dir option list \<Rightarrow> (build_row list \<times> string list) py" where
  "chat_rows build rp tag fact_index env dirs =
     py_fold (\<lambda>st od. case od of
         None \<Rightarrow> Inr st
       | Some d \<Rightarrow> py_fold (session_rows build rp tag fact_index env d) st (state_files d)) ([], []) dirs"

definition build_dataset ::
  "(string \<Rightarrow> string) \<Rightarrow> (string \<Rightarrow> string) \<Rightarrow> (json \<Rightarrow> string) \<Rightarrow> string \<Rightarrow> build_env \<Rightarrow> chats_dir option list
   \<Rightarrow> logfile \<Rightarrow> jobj list \<Rightarrow> build_row list py" where
  "build_dataset sha ck rp tag env dirs led wander_pending =
     py_bind (live_hostable_anchors led) (\<lambda>(personas, facts).
     py_bind (index_by_exchange facts) (\<lambda>fact_index.
     py_bind (chat_rows (\<lambda>d x i r. build_dialogue_anchor sha ck rp d x i r (be_fallback env)) rp tag
        fact_index env dirs) (\<lambda>(rows, seen).
     py_bind (py_fold (wander_row rp tag) rows wander_pending) (\<lambda>all_rows.
       Inr (sort_key order_key all_rows)))))"

section \<open>Where rows come from\<close>

definition record_row ::
  "(json \<Rightarrow> string) \<Rightarrow> string \<Rightarrow> (string \<Rightarrow> int \<Rightarrow> jobj \<Rightarrow> jobj option py) \<Rightarrow> (host, jobj list) dict \<Rightarrow> wall_config
   \<Rightarrow> session_ctx \<Rightarrow> string \<times> json \<Rightarrow> build_row \<Rightarrow> bool" where
  "record_row rp tag build fx w sc kv q =
     (\<exists>k r i a rs. kv = (k, JObj r) \<and> str_int k = Some i \<and> build (sc_session sc) i r = Inr (Some a)
       \<and> anchor_rows rp tag fx w sc i a = Inr rs \<and> q \<in> set rs)"

lemma exchange_row_member:
  assumes "exchange_rows rp tag build fx w sc rows kv = Inr rows'" "q \<in> set rows'"
  shows "q \<in> set rows \<or> record_row rp tag build fx w sc kv q"
  using assms unfolding record_row_def
  by (auto simp: exchange_rows_def py_bind_eq_Inr split: prod.splits json.splits option.splits)

lemma session_row_member:
  assumes "py_fold (exchange_rows rp tag build fx w sc) rows kvs = Inr rows'" "q \<in> set rows'"
  shows "q \<in> set rows \<or> (\<exists>kv \<in> set kvs. record_row rp tag build fx w sc kv q)"
  using assms
proof (induction kvs arbitrary: rows)
  case (Cons kv kvs)
  then obtain mid where "exchange_rows rp tag build fx w sc rows kv = Inr mid"
    "py_fold (exchange_rows rp tag build fx w sc) mid kvs = Inr rows'"
    by (auto simp: py_bind_eq_Inr)
  with Cons.IH [OF this(2) Cons.prems(2)] exchange_row_member [OF this(1), of q] show ?case by auto
qed simp

text \<open>The record, session and anchor behind a chat row.\<close>

definition chat_origin ::
  "(chats_dir \<Rightarrow> string \<Rightarrow> int \<Rightarrow> jobj \<Rightarrow> jobj option py) \<Rightarrow> (json \<Rightarrow> string) \<Rightarrow> string \<Rightarrow> (host, jobj list) dict
   \<Rightarrow> build_env \<Rightarrow> chats_dir \<Rightarrow> build_row \<Rightarrow> bool" where
  "chat_origin build rp tag fx env d q =
     (\<exists>f \<in> set (state_files d). \<exists>k r i a rs sc. let x = session_name_from_sidecar f; doc = load (dir_sidecar env d) x in
        (truthy (jget doc ''reflected_at'') \<or> be_include_fresh env)
        \<and> session_context env x doc = Inr (Some sc)
        \<and> (k, JObj r) \<in> set (exchanges_of doc) \<and> str_int k = Some i
        \<and> build d x i r = Inr (Some a) \<and> anchor_rows rp tag fx (wall (be_config env)) sc i a = Inr rs \<and> q \<in> set rs)"

lemma session_rows_origin:
  assumes "session_rows build rp tag fx env d st f = Inr st'" "f \<in> set (state_files d)" "q \<in> set (fst st')"
  shows "q \<in> set (fst st) \<or> chat_origin build rp tag fx env d q"
proof -
  obtain rows seen where st: "st = (rows, seen)" by (cases st)
  let ?x = "session_name_from_sidecar f" let ?doc = "load (dir_sidecar env d) ?x"
  show ?thesis
  proof (rule ccontr)
    assume n: "\<not> ?thesis"
    then have "fst st' \<noteq> rows" using assms(3) by (auto simp: st)
    then obtain sc rows' where sc: "session_context env ?x ?doc = Inr (Some sc)"
      "truthy (jget ?doc ''reflected_at'') \<or> be_include_fresh env"
      and f: "py_fold (exchange_rows rp tag (build d) fx (wall (be_config env)) sc) rows (exchanges_of ?doc) = Inr rows'"
      and st': "fst st' = rows'"
      using assms(1) by (auto simp: session_rows_def st Let_def py_bind_eq_Inr split: if_splits option.splits)
    have x: "sc_session sc = ?x"
      using sc(1) by (auto simp: session_context_def Let_def py_bind_eq_Inr split: if_splits)
    obtain k r i a rs where "(k, JObj r) \<in> set (exchanges_of ?doc)" "str_int k = Some i"
      "build d ?x i r = Inr (Some a)" "anchor_rows rp tag fx (wall (be_config env)) sc i a = Inr rs" "q \<in> set rs"
      using session_row_member [OF f, of q] assms(3) n by (auto simp: st st' x record_row_def)
    then have "chat_origin build rp tag fx env d q"
      unfolding chat_origin_def Let_def using assms(2) sc by blast
    then show False using n by blast
  qed
qed

lemma dir_rows_origin:
  assumes "py_fold (session_rows build rp tag fx env d) st fs = Inr st'" "set fs \<subseteq> set (state_files d)" "q \<in> set (fst st')"
  shows "q \<in> set (fst st) \<or> chat_origin build rp tag fx env d q"
  using assms
proof (induction fs arbitrary: st)
  case (Cons f fs)
  then obtain mid where "session_rows build rp tag fx env d st f = Inr mid"
    "py_fold (session_rows build rp tag fx env d) mid fs = Inr st'"
    by (auto simp: py_bind_eq_Inr)
  then show ?case using Cons.IH [of mid] Cons.prems(2,3) session_rows_origin [of build rp tag fx env d st f mid q] by auto
qed simp

lemma chat_rows_origin:
  assumes "chat_rows build rp tag fx env dirs = Inr (rows, seen)" "q \<in> set rows"
  shows "\<exists>d. Some d \<in> set dirs \<and> chat_origin build rp tag fx env d q"
proof -
  let ?step = "\<lambda>st od. case od of None \<Rightarrow> Inr st
       | Some d \<Rightarrow> py_fold (session_rows build rp tag fx env d) st (state_files d)"
  have "q \<in> set (fst st) \<or> (\<exists>d. Some d \<in> set ds \<and> chat_origin build rp tag fx env d q)"
    if "py_fold ?step st ds = Inr (rows, seen)" for st ds
    using that
  proof (induction ds arbitrary: st)
    case Nil
    then show ?case using assms(2) by simp
  next
    case (Cons od ds)
    then obtain mid where m: "?step st od = Inr mid" "py_fold ?step mid ds = Inr (rows, seen)"
      unfolding py_fold.simps py_bind_eq_Inr by blast
    show ?case
    proof (cases od)
      case None
      then show ?thesis using Cons.IH [OF m(2)] m(1) by auto
    next
      case (Some d)
      then have "py_fold (session_rows build rp tag fx env d) st (state_files d) = Inr mid" using m(1) by simp
      from dir_rows_origin [OF this order_refl, of q] show ?thesis using Cons.IH [OF m(2)] Some by auto
    qed
  qed
  from this [of "([], [])" dirs] show ?thesis using assms(1) by (simp add: chat_rows_def)
qed

text \<open>Where the corpus puts a record of the wander queue: at its own timestamp, or last when it has none.\<close>

definition wander_place :: "(json \<Rightarrow> string) \<Rightarrow> jobj \<Rightarrow> string \<times> int" where
  "wander_place rp r = (fstr rp (py_or (jget r ''ts'') (JStr ''~'')), 0)"

lemma wander_rows_member:
  assumes "py_fold (wander_row rp tag) rows ws = Inr rows'" "q \<in> set rows'"
  shows "q \<in> set rows \<or> (row_source q = ''wander'' \<and> row_index q = None \<and> \<not> preview q \<and> lr_multiplier q = 1
    \<and> (\<exists>r \<in> set ws. order_key q = wander_place rp r))"
  using assms
proof (induction ws arbitrary: rows)
  case (Cons v ws)
  then obtain mid where m: "wander_row rp tag rows v = Inr mid" "py_fold (wander_row rp tag) mid ws = Inr rows'"
    by (auto simp: py_bind_eq_Inr)
  have "q \<in> set rows \<or> (row_source q = ''wander'' \<and> row_index q = None \<and> \<not> preview q \<and> lr_multiplier q = 1
      \<and> order_key q = wander_place rp v)"
    if "q \<in> set mid"
    using m(1) that by (auto simp: wander_row_def wander_place_def py_bind_eq_Inr Let_def split: if_splits)
  then show ?case using Cons.IH [OF m(2) Cons.prems(2)] by auto
qed simp

lemma contamination_rows_nonneg: "0 \<le> m \<Longrightarrow> (a, u, v) \<in> set (contamination_rows m age w n) \<Longrightarrow> 0 \<le> a"
  by (auto simp: contamination_rows_def Let_def split: if_splits)

lemma anchor_rows_form:
  assumes "anchor_rows rp tag fx w sc i a = Inr rs" "rs \<noteq> []"
  shows "\<exists>msgs injected fkeys specs. rs = List.map (row_of sc i msgs injected a fkeys) specs
    \<and> row_specs w sc a = Inr specs"
  using assms unfolding anchor_rows_def
  by (simp add: py_bind_eq_Inr split: option.splits if_splits) (elim exE conjE; fastforce split: if_splits)

lemma anchor_row_fields:
  assumes "anchor_rows rp tag fx w sc i a = Inr rs" "q \<in> set rs" "0 \<le> sc_mult sc"
  shows "row_source q = ''chat''" "row_session q = sc_session sc" "row_index q = Some i" "preview q = sc_preview sc"
    "0 \<le> lr_multiplier q" "preview q \<Longrightarrow> lr_multiplier q = 0 \<and> \<not> unmask_user q"
    "order_key q = (path_stem (sc_session sc), i)"
proof -
  obtain msgs injected fkeys specs where rs: "rs = List.map (row_of sc i msgs injected a fkeys) specs"
    and sp: "row_specs w sc a = Inr specs"
    using anchor_rows_form [OF assms(1)] assms(2) by force
  then obtain spec where q: "q = row_of sc i msgs injected a fkeys spec" "spec \<in> set specs" using assms(2) by auto
  have spec: "if sc_preview sc then spec = (0, False, None)
      else \<exists>n. spec \<in> set (contamination_rows (sc_mult sc) (sc_age sc) w n)"
    using sp q(2) by (auto simp: row_specs_def py_bind_eq_Inr split: if_splits)
  obtain m u v where s: "spec = (m, u, v)" by (cases spec)
  show "row_source q = ''chat''" "row_session q = sc_session sc" "row_index q = Some i" "preview q = sc_preview sc"
    "order_key q = (path_stem (sc_session sc), i)"
    by (simp_all add: q(1) s row_of_def)
  show "preview q \<Longrightarrow> lr_multiplier q = 0 \<and> \<not> unmask_user q" using spec by (simp add: q(1) s row_of_def split: if_splits)
  show "0 \<le> lr_multiplier q"
    using spec contamination_rows_nonneg [OF assms(3)] by (auto simp: q(1) s row_of_def split: if_splits)
qed

lemma session_context_fields:
  assumes "session_context env x d = Inr (Some sc)"
  shows "sc_session sc = x" "0 \<le> sc_mult sc" "sc_preview sc \<Longrightarrow> be_include_fresh env"
    "\<not> sc_preview sc \<Longrightarrow> truthy (jget d ''reflected_at'') \<and> 0 < sc_mult sc
      \<and> be_age env (path_stem x) = Inr (sc_age sc)
      \<and> lr_multiplier_hours (sc_age sc) (dialogue_cfg (be_config env)) (wall (be_config env)) = Inr (sc_mult sc)"
  using assms by (auto simp: session_context_def py_bind_eq_Inr Let_def split: if_splits)

section \<open>Properties of a corpus\<close>

lemma build_dataset_rows:
  assumes "build_dataset sha ck rp tag env dirs led ws = Inr rows" "q \<in> set rows"
  obtains (wander) r where "row_source q = ''wander''" "row_index q = None" "\<not> preview q" "lr_multiplier q = 1"
      "r \<in> set ws" "order_key q = wander_place rp r"
  | (chat) d fx where "Some d \<in> set dirs"
      "chat_origin (\<lambda>d x i r. build_dialogue_anchor sha ck rp d x i r (be_fallback env)) rp tag fx env d q"
proof -
  let ?build = "\<lambda>d x i r. build_dialogue_anchor sha ck rp d x i r (be_fallback env)"
  obtain fx chat seen where c: "chat_rows ?build rp tag fx env dirs = Inr (chat, seen)"
    and w: "\<exists>out. py_fold (wander_row rp tag) chat ws = Inr out \<and> rows = sort_key order_key out"
    using assms(1) by (auto simp: build_dataset_def py_bind_eq_Inr)
  then obtain out where o: "py_fold (wander_row rp tag) chat ws = Inr out" "q \<in> set out" using assms(2) by auto
  show ?thesis
    using wander_rows_member [OF o] chat_rows_origin [OF c, of q] wander chat by blast
qed

text \<open>What a row of a corpus may be: a gated preview, a wander record, or a row of a frozen and aged chat.\<close>

definition gated_row :: "build_env \<Rightarrow> chats_dir option list \<Rightarrow> build_row \<Rightarrow> bool" where
  "gated_row env dirs q = (0 \<le> lr_multiplier q
        \<and> (preview q \<longrightarrow> be_include_fresh env \<and> lr_multiplier q = 0 \<and> \<not> unmask_user q)
        \<and> (\<not> preview q \<longrightarrow> row_source q = ''wander'' \<and> lr_multiplier q = 1
            \<or> (\<exists>d age m. Some d \<in> set dirs
                \<and> truthy (jget (load (dir_sidecar env d) (row_session q)) ''reflected_at'')
                \<and> be_age env (path_stem (row_session q)) = Inr age
                \<and> lr_multiplier_hours age (dialogue_cfg (be_config env)) (wall (be_config env)) = Inr m \<and> 0 < m)))"

text \<open>Where a row stands: a chat's at its session's stem and the number of its exchange, a wander record's at its
  own timestamp.\<close>

definition placed_row :: "(json \<Rightarrow> string) \<Rightarrow> jobj list \<Rightarrow> build_row \<Rightarrow> bool" where
  "placed_row rp ws q =
     (case row_index q of
        Some i \<Rightarrow> row_source q = ''chat'' \<and> order_key q = (path_stem (row_session q), i)
      | None \<Rightarrow> row_source q = ''wander'' \<and> (\<exists>r \<in> set ws. order_key q = wander_place rp r))"

lemma corpus_row_gated:
  assumes "build_dataset sha ck rp tag env dirs led ws = Inr rows" "q \<in> set rows"
  shows "gated_row env dirs q \<and> placed_row rp ws q"
  using assms
proof (cases rule: build_dataset_rows)
  case (wander r)
  then show ?thesis by (auto simp: gated_row_def placed_row_def)
next
  case (chat d fx)
  then obtain f i a rs sc where sc: "session_context env (session_name_from_sidecar f)
        (load (dir_sidecar env d) (session_name_from_sidecar f)) = Inr (Some sc)"
    and rs: "anchor_rows rp tag fx (wall (be_config env)) sc i a = Inr rs" "q \<in> set rs"
    unfolding chat_origin_def Let_def by blast
  note fields = anchor_row_fields [OF rs session_context_fields(2) [OF sc]]
  have x: "row_session q = session_name_from_sidecar f"
    using fields(2) session_context_fields(1) [OF sc] by simp
  have "gated_row env dirs q"
    using fields(4-6) session_context_fields(3,4) [OF sc] chat(1) unfolding x gated_row_def by blast
  then show ?thesis using fields(1,2,3,7) by (simp add: placed_row_def)
qed

text \<open>C2: what a build may train on, and in which order. The rows are in the order of their keys compared as
  text: a row of a chat stands at the stem of its session and the number of its exchange, a wander record at
  its own timestamp. Every row that trains is either a wander record at the fixed multiplier or belongs to a
  session that was frozen, whose age earns a positive multiplier; a row of a chat too young, or not yet frozen,
  appears only when previews are asked for, carries multiplier 0 and does not unmask the user. No row has a
  negative multiplier.\<close>

theorem corpus_is_gated:
  assumes "build_dataset sha ck rp tag env dirs led ws = Inr rows"
  shows "sorted (List.map order_key rows) \<and> (\<forall>q \<in> set rows. placed_row rp ws q \<and> gated_row env dirs q)"
  using corpus_row_gated [OF assms] assms by (auto simp: build_dataset_def py_bind_eq_Inr)

definition sample_env :: build_env where
  "sample_env = \<lparr>be_age = \<lambda>x. Inr (Some 48), be_fallback = None, be_include_fresh = False,
     be_config = default_consolidation\<rparr>"

definition sample_dir :: chats_dir where
  "sample_dir = [(''a.json'', Parsed (JObj [(''exchanges'', JList
       [JObj [(''user_prompt'', JStr ''hi''), (''assistant_response'', JStr ''hello'')],
        JObj [(''user_prompt'', JStr ''and?''), (''assistant_response'', JStr ''so''), (''assistant_cot'', JStr ''why'')]])])),
     (''a.state.json'', Parsed (JObj [(''reflected_at'', JStr ''now''), (''exchanges'', JObj
       [(''1'', JObj [(''target'', JStr ''so'')]),
        (''0'', JObj [(''target'', JStr ''hello''), (''banned'', JBool True)])])]))]"

lemma sample_corpus:
  "map_sum id (List.map (\<lambda>q. (order_key q, lr_multiplier q, row_target q)))
     (build_dataset id id (\<lambda>_. []) [] sample_env [Some sample_dir] None []) =
   Inr [((''a'', 1), 2, ''<think>why</think>'' @ [CHR 0x0A] @ ''so'')]"
  by code_simp

theorem corpus_is_gated_witness:
  "\<exists>q. build_dataset id id (\<lambda>_. []) [] sample_env [Some sample_dir] None [] = Inr [q]
    \<and> placed_row (\<lambda>_. []) [] q \<and> gated_row sample_env [Some sample_dir] q \<and> order_key q = (''a'', 1)"
proof -
  obtain rows where r: "build_dataset id id (\<lambda>_. []) [] sample_env [Some sample_dir] None [] = Inr rows"
    using sample_corpus by (cases "build_dataset id id (\<lambda>_. []) [] sample_env [Some sample_dir] None []") simp_all
  then obtain q where "rows = [q]" "order_key q = (''a'', 1)" using sample_corpus by auto
  then show ?thesis using corpus_is_gated [OF r] r by auto
qed

text \<open>That order is chronological within the chats, whose stems are dates, and within the wander records. It is
  not across the two: \<open>2026-07-05T09:00:00\<close> is below \<open>20260105_080000\<close>, because the hyphen is below every digit.
  A wander record of July is trained before a chat of January.\<close>

definition july_wander :: jobj where
  "july_wander = [(''ts'', JStr ''2026-07-05T09:00:00''), (''prompt'', JStr ''p''), (''target'', JStr ''t'')]"

definition january_dir :: chats_dir where
  "january_dir = [(''20260105_080000.json'', Parsed (JObj [(''exchanges'', JList
       [JObj [(''user_prompt'', JStr ''hi''), (''assistant_response'', JStr ''so''), (''assistant_cot'', JStr ''why'')]])])),
     (''20260105_080000.state.json'', Parsed (JObj [(''reflected_at'', JStr ''now''), (''exchanges'', JObj
       [(''0'', JObj [(''target'', JStr ''so'')])])]))]"

lemma wander_sorts_before_older_chats:
  "map_sum id (List.map (\<lambda>q. (row_source q, order_key q)))
     (build_dataset id id (\<lambda>_. []) [] sample_env [Some january_dir] None [july_wander]) =
   Inr [(''wander'', (''2026-07-05T09:00:00'', 0)), (''chat'', (''20260105_080000'', 0))]"
  by code_simp

text \<open>A banned exchange leaves the corpus. When every directory of a build that knows a session has the
  exchange banned, no row of the corpus, trained or preview, belongs to that exchange.\<close>

theorem banned_exchange_has_no_row:
  assumes "build_dataset sha ck rp tag env dirs led ws = Inr rows"
    and "\<forall>d. Some d \<in> set dirs \<longrightarrow> banned_at (dir_sidecar env d) x i" "q \<in> set rows" "row_session q = x"
  shows "row_index q \<noteq> Some i"
  using assms(1,3)
proof (cases rule: build_dataset_rows)
  case wander
  then show ?thesis by simp
next
  case (chat d fx)
  then obtain f k r j a rs sc where o:
    "session_context env (session_name_from_sidecar f) (load (dir_sidecar env d) (session_name_from_sidecar f)) = Inr (Some sc)"
    "(k, JObj r) \<in> set (exchanges_of (load (dir_sidecar env d) (session_name_from_sidecar f)))" "str_int k = Some j"
    "build_dialogue_anchor sha ck rp d (session_name_from_sidecar f) j r (be_fallback env) = Inr (Some a)"
    "anchor_rows rp tag fx (wall (be_config env)) sc j a = Inr rs" "q \<in> set rs"
    unfolding chat_origin_def Let_def by blast
  note fields = anchor_row_fields [OF o(5,6) session_context_fields(2) [OF o(1)]]
  have x: "session_name_from_sidecar f = x"
    using fields(2) session_context_fields(1) [OF o(1)] assms(4) by simp
  show ?thesis
  proof
    assume "row_index q = Some i"
    then have ji: "j = i" using fields(3) by simp
    have "\<not> kept_out sha rp r" using o(4) by (rule built_anchor_shape)
    then show False
      using banned_record [OF _ o(2) [unfolded x], of i] assms(2) chat(1) o(3) ji by (auto simp: kept_out_def)
  qed
qed

theorem banned_exchange_has_no_row_witness:
  "\<exists>q. build_dataset id id (\<lambda>_. []) [] sample_env [Some sample_dir] None [] = Inr [q] \<and> row_index q \<noteq> Some 0"
proof -
  obtain rows where r: "build_dataset id id (\<lambda>_. []) [] sample_env [Some sample_dir] None [] = Inr rows"
    using sample_corpus by (cases "build_dataset id id (\<lambda>_. []) [] sample_env [Some sample_dir] None []") simp_all
  then obtain q where q: "rows = [q]" using sample_corpus by auto
  have x: "map_sum id (List.map row_session) (build_dataset id id (\<lambda>_. []) [] sample_env [Some sample_dir] None []) = Inr [''a.json'']"
    by code_simp
  have b: "canonical_table (exchanges_of (load (dir_sidecar sample_env sample_dir) ''a.json''))"
    "found (dir_sidecar sample_env sample_dir) ''a.json'' 0 = Some [(''target'', JStr ''hello''), (''banned'', JBool True)]"
    by code_simp+
  then have "banned_at (dir_sidecar sample_env sample_dir) ''a.json'' 0" by (simp add: banned_at_def)
  then show ?thesis
    using banned_exchange_has_no_row [OF r, of "''a.json''" 0 q] x r q by auto
qed

section \<open>Injection leaves the answer alone\<close>

lemma occurs_split:
  assumes "occurs p (x @ c # y)" "c \<notin> set p" "p \<noteq> []"
  shows "occurs p x \<or> occurs p y"
proof -
  obtain u v where e: "x @ (c # y) = u @ (p @ v)" using assms(1) by blast
  then consider us where "x = u @ us" "us @ c # y = p @ v" | us where "u = x @ us" "c # y = us @ p @ v"
    by (auto simp: append_eq_append_conv2)
  then show ?thesis
  proof cases
    case (1 us)
    then consider ws where "us = p @ ws" | ws where "p = us @ ws" "c # y = ws @ v"
      by (auto simp: append_eq_append_conv2)
    then show ?thesis
    proof cases
      case (1 ws)
      then show ?thesis using \<open>x = u @ us\<close> by blast
    next
      case (2 ws)
      then have "ws = []" using assms(2) by (cases ws) auto
      then show ?thesis using 2 \<open>x = u @ us\<close> by (metis append_Nil2)
    qed
  next
    case (2 us)
    then obtain us' where "us = c # us'" using assms(2,3) by (cases us; cases p) auto
    then show ?thesis using 2 by auto
  qed
qed

lemma occurs_join:
  assumes "occurs p (join [c] parts)" "c \<notin> set p" "p \<noteq> []"
  shows "\<exists>x \<in> set parts. occurs p x"
  using assms(1)
proof (induction parts rule: induct_list012)
  case 1
  then show ?case using assms(3) by auto
next
  case (3 x y zs)
  have "join [c] (x # y # zs) = x @ c # join [c] (y # zs)" by simp
  then show ?case using occurs_split [OF _ assms(2,3), of x "join [c] (y # zs)"] 3 by (metis list.set_intros)
qed auto

lemma occurs_closing_around:
  assumes "occurs closing (x @ y @ z)" "CHR ''<'' \<notin> set x" "CHR ''>'' \<notin> set z"
  shows "occurs closing y"
proof -
  obtain u v where e: "x @ y @ z = u @ closing @ v" using assms(1) by blast
  have "length x \<le> length u"
  proof (rule ccontr)
    assume a: "\<not> ?thesis"
    then have "(x @ y @ z) ! length u = x ! length u" by (simp add: nth_append)
    moreover have "(x @ y @ z) ! length u = CHR ''<''" unfolding e by (simp add: nth_append)
    ultimately show False using a assms(2) by (metis not_le nth_mem)
  qed
  then obtain u' where u: "u = x @ u'" using e by (metis append_eq_append_conv_if append_take_drop_id)
  then have e': "y @ z = u' @ closing @ v" using e by simp
  have len: "length (u' @ closing) \<le> length y"
  proof (rule ccontr)
    assume a: "\<not> ?thesis"
    let ?i = "length u' + 7"
    have "(y @ z) ! ?i = CHR ''>''" unfolding e' by (simp add: nth_append)
    moreover have "length y \<le> ?i" using a by simp
    then have "(y @ z) ! ?i = z ! (?i - length y)" by (simp only: nth_append not_less [symmetric] if_False simp_thms)
    moreover have "length y + length z = length u' + (8 + length v)" using arg_cong [OF e', of length] by simp
    then have "?i - length y < length z" using \<open>length y \<le> ?i\<close> by linarith
    ultimately show False using assms(3) by (metis nth_mem)
  qed
  have "take (length (u' @ closing)) (y @ z) = u' @ closing" unfolding e' by simp
  then have t: "take (length (u' @ closing)) y = u' @ closing" using len by (simp only: take_append) simp
  have "y = take (length (u' @ closing)) y @ drop (length (u' @ closing)) y"
    by (rule append_take_drop_id [symmetric])
  then have "y = u' @ closing @ drop (length (u' @ closing)) y" unfolding t append_assoc .
  then show ?thesis by blast
qed

lemma tagless_fact_line: "tagless s \<Longrightarrow> tagless (fact_cot_line s)"
proof -
  assume "tagless s"
  then have t: "\<not> occurs closing (py_lower (py_strip s))" using tagless_strip by (simp add: tagless_def)
  show ?thesis
  proof (cases "py_strip s = []")
    case True
    then show ?thesis by (simp add: fact_cot_line_def tagless_def py_lower_def)
  next
    case False
    define x where "x = (if py_lower (take 11 (py_strip s)) = ''i know that'' then [] else ''I know that '')"
    define z where "z = (if list_ex (endswith (x @ py_strip s)) [''.'', ''!'', ''?''] then [] else ''.'')"
    have core: "(if py_lower (take 11 (py_strip s)) = ''i know that'' then py_strip s
        else ''I know that '' @ py_strip s) = x @ py_strip s"
      by (simp add: x_def)
    have f: "fact_cot_line s = x @ py_strip s @ z" "x \<in> {[], ''I know that ''}" "z \<in> {[], ''.''}"
      unfolding fact_cot_line_def Let_def core using False by (simp_all add: z_def x_def)
    have "CHR ''<'' \<notin> set (py_lower x)" "CHR ''>'' \<notin> set (py_lower z)"
    proof -
      have "CHR ''<'' \<notin> set (py_lower [])" "CHR ''<'' \<notin> set (py_lower ''I know that '')"
        "CHR ''>'' \<notin> set (py_lower [])" "CHR ''>'' \<notin> set (py_lower ''.'')" by code_simp+
      then show "CHR ''<'' \<notin> set (py_lower x)" "CHR ''>'' \<notin> set (py_lower z)" using f(2,3) by blast+
    qed
    then show ?thesis
      using t occurs_closing_around [of "py_lower x" "py_lower (py_strip s)" "py_lower z"]
      unfolding tagless_def f(1) py_lower_append by blast
  qed
qed

lemma py_lower_join: "py_lower (join [CHR 0x0A] xs) = join [CHR 0x0A] (List.map py_lower xs)"
proof (induction xs rule: induct_list012)
  case (3 x y zs)
  then show ?case by (simp add: py_lower_newline)
qed (simp_all add: py_lower_def)

lemma tagless_join:
  assumes "\<forall>x \<in> set xs. tagless x"
  shows "tagless (join [CHR 0x0A] xs)"
proof -
  have "\<not> occurs closing (join [CHR 0x0A] (List.map py_lower xs))"
    using occurs_join [where p = closing and c = "CHR 0x0A" and parts = "List.map py_lower xs"] assms
    by (auto simp: tagless_def)
  then show ?thesis by (simp add: tagless_def py_lower_join)
qed

lemma select_injections_bound:
  assumes "select_injections cap running ps acc = Inr res" "length (fst acc) < cap"
    and "\<forall>s \<in> set (snd acc). tagless s"
    and "\<forall>p \<in> set ps. \<forall>s. strip_or_empty (jget p ''content'') = Inr s \<longrightarrow> tagless s"
  shows "length (fst res) \<le> cap \<and> (\<forall>s \<in> set (snd res). tagless s)"
  using assms
proof (induction cap running ps acc rule: select_injections.induct)
  case (2 cap running p ps acc)
  obtain s where s: "strip_or_empty (jget p ''content'') = Inr s"
    using "2.prems"(1) by (auto simp: py_bind_eq_Inr)
  have t: "tagless s" using "2.prems"(4) s by simp
  show ?case
  proof (cases "s = [] \<or> statement_in_cot s running")
    case True
    then show ?thesis using "2.IH"(1) [OF True] "2.prems" s by simp
  next
    case False
    show ?thesis
    proof (cases "cap \<le> length (fst acc @ [p])")
      case True
      then show ?thesis using "2.prems" False s t by auto
    next
      case c: False
      then show ?thesis
        using "2.IH"(2) [OF False refl] "2.prems" False s t by (auto simp: Let_def)
    qed
  qed
qed simp

lemma key_fold_length:
  "py_fold (\<lambda>ks p. case dget p ''key'' of None \<Rightarrow> Inl KeyError | Some k \<Rightarrow> Inr (ks @ [k])) ks ps = Inr ks'
    \<Longrightarrow> length ks' = length ks + length ps"
  by (induction ps arbitrary: ks) (auto simp: py_bind_eq_Inr split: option.splits)

lemma trainable_same_rest:
  "leading_think s = Some (x, r) \<Longrightarrow> leading_think t = Some (y, r) \<Longrightarrow> trainable_answer s = trainable_answer t"
  by (simp add: trainable_answer_def)

text \<open>The text put in front of the thought changes the thought only.\<close>

lemma prepend_keeps_answer:
  assumes "prepend_persona_lines t stmts = Some u" "\<forall>s \<in> set stmts. tagless s"
  shows "trainable_answer u = trainable_answer t"
proof -
  obtain th r where t: "leading_think t = Some (th, r)"
    and u: "u = ''<think>'' @ join [CHR 0x0A] (filter (\<lambda>s. s \<noteq> []) (List.map py_strip stmts) @ [py_strip th]) @ closing @ r"
    using assms(1)
    by (auto simp: prepend_persona_lines_def split_cot_def Let_def split: option.splits if_splits)
  have "tagless (join [CHR 0x0A] (filter (\<lambda>s. s \<noteq> []) (List.map py_strip stmts) @ [py_strip th]))"
    using assms(2) leading_think_tagless [OF t] by (intro tagless_join) (auto intro: tagless_strip)
  from leading_think_build [OF this, of r] show ?thesis
    unfolding u by (rule trainable_same_rest) (rule t)
qed

text \<open>Putting known facts into a thought never touches the answer. When no fact holds a closing thought
  tag, the text that is trained has exactly the answer of the target, stays trainable, and carries the
  keys of at most two facts.\<close>

theorem injection_keeps_answer:
  assumes "inject t cands = Inr (Some (u, ks))"
    and "\<forall>p \<in> set cands. \<forall>s. strip_or_empty (jget p ''content'') = Inr s \<longrightarrow> tagless s"
  shows "trainable_answer u = trainable_answer (py_strip t) \<and> trainable_answer u \<noteq> None \<and> length ks \<le> 2"
proof -
  let ?t = "py_strip t"
  have tr: "trainable_answer ?t \<noteq> None" using assms(1) by (auto simp: inject_def Let_def split: if_splits)
  show ?thesis
  proof (cases "cands = [] \<or> split_cot ?t = None")
    case True
    then have "u = ?t \<and> ks = []"
      using assms(1) tr by (auto simp: inject_def Let_def split: if_splits option.splits)
    then show ?thesis using tr by simp
  next
    case False
    then obtain thought r where sc: "split_cot ?t = Some (thought, r)" by auto
    obtain sel raw where sel: "select_persona_injections fact_inject_cap thought cands = Inr (sel, raw)"
      and u: "u = (if List.map fact_cot_line raw \<noteq> [] then (case prepend_persona_lines ?t (List.map fact_cot_line raw) of
                      Some t \<Rightarrow> if t = [] then ?t else t | None \<Rightarrow> ?t) else ?t)"
      and ks: "py_fold (\<lambda>ks p. case dget p ''key'' of None \<Rightarrow> Inl KeyError | Some k \<Rightarrow> Inr (ks @ [k])) [] sel = Inr ks"
      using assms(1) tr False sc unfolding inject_def Let_def by (auto simp: py_bind_eq_Inr)
    have b: "length sel \<le> 2" "\<forall>s \<in> set raw. tagless s"
      using select_injections_bound [OF sel [unfolded select_persona_injections_def]] assms(2)
      by (simp_all add: fact_inject_cap_def)
    have "trainable_answer u = trainable_answer ?t"
    proof (cases "prepend_persona_lines ?t (List.map fact_cot_line raw)")
      case (Some v)
      then show ?thesis
        using prepend_keeps_answer [OF Some] b(2) tagless_fact_line by (auto simp: u)
    qed (simp add: u)
    then show ?thesis using tr b(1) key_fold_length [OF ks] by simp
  qed
qed

theorem injection_keeps_answer_witness:
  "\<exists>u. inject ''<think>why</think>So.'' [[(''key'', JStr ''k''), (''content'', JStr ''it rains'')]] = Inr (Some (u, [JStr ''k'']))
    \<and> trainable_answer u = Some ''So.''"
proof -
  let ?u = "''<think>I know that it rains.'' @ [CHR 0x0A] @ ''why</think>So.''"
  have i: "inject ''<think>why</think>So.'' [[(''key'', JStr ''k''), (''content'', JStr ''it rains'')]] = Inr (Some (?u, [JStr ''k'']))"
    by code_simp
  have c: "strip_or_empty (JStr ''it rains'') = Inr ''it rains''" "trainable_answer (py_strip ''<think>why</think>So.'') = Some ''So.''"
    by code_simp+
  have "find_str (py_lower ''it rains'') closing = None" by code_simp
  then have "tagless ''it rains''" using find_str_occurs [of closing "py_lower ''it rains''"] by (simp add: tagless_def)
  then have "trainable_answer ?u = trainable_answer (py_strip ''<think>why</think>So.'')"
    using injection_keeps_answer [OF i] c(1) by auto
  then show ?thesis using i c(2) by auto
qed

end
