(* ===== verification/Dose_Ledger.thy ===== *)
theory Dose_Ledger
  imports Build_Row Keyed_Log
begin

text \<open>
  \<open>server/training/dose_ledger.py\<close>: the running total of the dose each training row has received.
  An incremental build trains a row by what its age entitles it to minus what was delivered, and
  writes the new total back. \<open>sha\<close> is \<open>target_sha\<close> (SHA-256 of a text), \<open>fs\<close> the reading of a float from
  text, \<open>rp\<close> the \<open>repr\<close> of floats and containers.
\<close>

definition dose_eps :: rat where
  "dose_eps = 1 / 1000000"

section \<open>The identity of a row\<close>

definition row_kind :: "json \<Rightarrow> bool \<Rightarrow> bool \<Rightarrow> string" where
  "row_kind source unmask no_weight =
     (if source = JStr ''wander'' then ''wander''
      else if unmask \<and> no_weight then ''contamination'' else ''dialogue'')"

definition row_key :: "(json \<Rightarrow> string) \<Rightarrow> json \<Rightarrow> json \<Rightarrow> json \<Rightarrow> bool \<Rightarrow> bool \<Rightarrow> string py" where
  "row_key rp source source_session exchange_index unmask no_weight =
     py_bind (if exchange_index = JNull then Inr []
              else py_bind (py_int_of exchange_index) (\<lambda>i. Inr (int_str i)))
       (\<lambda>idx. Inr (row_kind source unmask no_weight @ ''|'' @ fstr rp source_session @ ''|'' @ idx))"

definition key_of_row :: "build_row \<Rightarrow> string" where
  "key_of_row r = row_kind (JStr (row_source r)) (unmask_user r) (user_loss_weight r = None)
     @ ''|'' @ row_session r @ ''|'' @ (case row_index r of None \<Rightarrow> [] | Some i \<Rightarrow> int_str i)"

definition key_of_example :: "(json \<Rightarrow> string) \<Rightarrow> jobj \<Rightarrow> string py" where
  "key_of_example rp ex =
     row_key rp (py_or (jget ex ''source'') (JStr ''chat'')) (py_or (jget ex ''source_session'') (JStr []))
       (jget ex ''exchange_index'') (truthy (jget ex ''unmask_user''))
       (jget ex ''user_loss_weight'' = JNull)"

section \<open>Loading and saving\<close>

type_synonym ledger = "(pykey, jobj) dict"

definition load_step :: "ledger \<Rightarrow> json \<Rightarrow> ledger py" where
  "load_step out j =
     py_bind (as_dict j) (\<lambda>r.
       if truthy (jget r ''key'')
       then py_bind (hash_key (jget r ''key'')) (\<lambda>k. Inr (dset k r out))
       else Inr out)"

definition load :: "logfile \<Rightarrow> ledger option py" where
  "load f = (case f of
       None \<Rightarrow> Inr None
     | Some Unreadable \<Rightarrow> Inl ValueError
     | Some (Parsed ls) \<Rightarrow> py_bind (py_fold load_step [] (recs ls)) (\<lambda>d. Inr (Some d)))"

definition save :: "ledger \<Rightarrow> logfile py" where
  "save d = py_bind (py_sorted (dkeys d)) (\<lambda>ks.
     Inr (Some (Parsed (List.map (\<lambda>k. Rec (JObj (the (dget d k)))) ks))))"

definition load_lineage :: "json content option \<Rightarrow> json" where
  "load_lineage f = (case f of Some (Parsed j) \<Rightarrow> j | _ \<Rightarrow> JNull)"

section \<open>The increment\<close>

record dose_stats =
  n_rows :: nat
  n_owed :: nat
  n_done :: nat
  n_new :: nat
  changed_targets :: nat
  dose_owed :: rat
  dose_targets :: "(string, rat) dict"

definition delivered_of :: "(string \<Rightarrow> rat py) \<Rightarrow> jobj \<Rightarrow> rat py" where
  "delivered_of fs prev = py_float fs (py_or (jget prev ''delivered'') (JFloat 0))"

definition increment_step ::
  "(string \<Rightarrow> string) \<Rightarrow> (string \<Rightarrow> rat py) \<Rightarrow> ledger \<Rightarrow> build_row list \<times> dose_stats \<Rightarrow> build_row
   \<Rightarrow> (build_row list \<times> dose_stats) py" where
  "increment_step sha fs d = (\<lambda>(out, stats) r.
     let key = key_of_row r;
         prev = (case dget d (KStr key) of None \<Rightarrow> [] | Some e \<Rightarrow> e) in
     py_bind (delivered_of fs prev) (\<lambda>delivered.
       let tgt = lr_multiplier r;
           stats1 = (if prev \<noteq> [] \<and> truthy (jget prev ''target_sha'')
                        \<and> jget prev ''target_sha'' \<noteq> JStr (sha (row_target r))
                     then stats\<lparr>changed_targets := changed_targets stats + 1\<rparr> else stats);
           inc = tgt - delivered in
       if inc \<le> dose_eps then Inr (out, stats1\<lparr>n_done := n_done stats1 + 1\<rparr>)
       else Inr (out @ [r\<lparr>lr_multiplier := inc\<rparr>],
                 stats1\<lparr>n_new := n_new stats1 + (if prev = [] then 1 else 0),
                        n_owed := n_owed stats1 + 1,
                        dose_owed := dose_owed stats1 + inc,
                        dose_targets := dset key tgt (dose_targets stats1)\<rparr>)))"

definition apply_increments ::
  "(string \<Rightarrow> string) \<Rightarrow> (string \<Rightarrow> rat py) \<Rightarrow> build_row list \<Rightarrow> ledger
   \<Rightarrow> (build_row list \<times> dose_stats) py" where
  "apply_increments sha fs rows d =
     py_fold (increment_step sha fs d)
       ([], \<lparr>n_rows = length rows, n_owed = 0, n_done = 0, n_new = 0, changed_targets = 0,
             dose_owed = 0, dose_targets = []\<rparr>) rows"

definition coverage :: "build_row list \<Rightarrow> ledger \<Rightarrow> rat" where
  "coverage rows d =
     (let keys = remdups (List.map key_of_row rows) in
      if keys = [] then 1
      else of_nat (length (filter (\<lambda>k. KStr k \<in> set (dkeys d)) keys)) / of_nat (length keys))"

text \<open>\<open>round(x, 6)\<close>\<close>

definition round6 :: "rat \<Rightarrow> rat" where
  "round6 x = of_int (py_round (x * 1000000)) / 1000000"

definition advance_step ::
  "(json \<Rightarrow> string) \<Rightarrow> (string \<Rightarrow> string) \<Rightarrow> (string \<Rightarrow> rat py) \<Rightarrow> string \<Rightarrow> string \<Rightarrow> bool
   \<Rightarrow> ledger \<Rightarrow> json \<Rightarrow> ledger py" where
  "advance_step rp sha fs built_at build_id incremental new j =
     py_bind (as_dict j) (\<lambda>ex.
       if truthy (jget ex ''preview'') then Inr new
       else
         py_bind (key_of_example rp ex) (\<lambda>key.
         py_bind (py_float fs (py_or (jget ex ''lr_multiplier'') (JFloat 0))) (\<lambda>mult.
         py_bind (if incremental
                  then py_bind (delivered_of fs (case dget new (KStr key) of None \<Rightarrow> [] | Some e \<Rightarrow> e))
                         (\<lambda>v. Inr (v + mult))
                  else Inr mult) (\<lambda>delivered.
         py_bind (as_str (py_or (jget ex ''variant'') (JStr []))) (\<lambda>variant.
           Inr (dset (KStr key)
             [(''key'', JStr key), (''delivered'', JFloat (round6 delivered)),
              (''last_trained_at'', JStr built_at), (''build_id'', JStr build_id),
              (''target_sha'', JStr (sha variant))] new))))))"

definition advance ::
  "(json \<Rightarrow> string) \<Rightarrow> (string \<Rightarrow> string) \<Rightarrow> (string \<Rightarrow> rat py) \<Rightarrow> string \<Rightarrow> string \<Rightarrow> bool
   \<Rightarrow> ledger \<Rightarrow> json list \<Rightarrow> ledger py" where
  "advance rp sha fs built_at build_id incremental d trained =
     py_fold (advance_step rp sha fs built_at build_id incremental) (if incremental then d else []) trained"

definition seed_from_render ::
  "(json \<Rightarrow> string) \<Rightarrow> (string \<Rightarrow> string) \<Rightarrow> (string \<Rightarrow> rat py) \<Rightarrow> string \<Rightarrow> string \<Rightarrow> line list \<Rightarrow> ledger py" where
  "seed_from_render rp sha fs built_at build_id ls =
     advance rp sha fs built_at build_id False [] (recs ls)"

section \<open>Lineage\<close>

text \<open>\<open>Path(s).name\<close> on a POSIX path.\<close>

definition path_name :: "string \<Rightarrow> string" where
  "path_name s = (case filter (\<lambda>w. w \<noteq> [] \<and> w \<noteq> ''.'') (split_on (CHR ''/'') s) of
       [] \<Rightarrow> [] | w # ws \<Rightarrow> last (w # ws))"

definition find_parent_snapshot :: "(json \<Rightarrow> string) \<Rightarrow> jobj list \<Rightarrow> string \<Rightarrow> jobj option" where
  "find_parent_snapshot rp builds adapter_dir =
     find (\<lambda>r. jget r ''outcome'' = JStr ''promoted'' \<and> truthy (jget r ''adapter_dir'')
               \<and> path_name (fstr rp (jget r ''adapter_dir'')) = path_name adapter_dir) (rev builds)"

definition base_name :: "json \<Rightarrow> string py" where
  "base_name v =
     py_bind (as_str (py_or v (JStr []))) (\<lambda>s.
       let s0 = rstrip_if (\<lambda>c. c = CHR ''/'') (py_lower (py_strip s)) in
       Inr (removesuffix (removesuffix s0 ''-unsloth-bnb-4bit'') ''-bnb-4bit''))"

text \<open>\<open>rq\<close> is the \<open>repr\<close> of any value, \<open>err\<close> the text of the exception a damaged file raises.\<close>

definition lineage_mismatch ::
  "(json \<Rightarrow> string) \<Rightarrow> (json \<Rightarrow> string) \<Rightarrow> (string \<Rightarrow> rat py) \<Rightarrow> string \<Rightarrow> json content option
   \<Rightarrow> json content option \<Rightarrow> string \<Rightarrow> int \<Rightarrow> rat option \<Rightarrow> bool \<Rightarrow> string list py" where
  "lineage_mismatch rp rq fs err cfg_file lineage_file model_id lora_r lora_alpha use_rslora =
     (case cfg_file of
        Some (Parsed c) \<Rightarrow>
          py_bind (as_dict (py_or (load_lineage lineage_file) (JObj []))) (\<lambda>lineage.
          let parent = jget lineage ''model_id'' in
          py_bind
            (if truthy parent then
               Inr (if parent \<noteq> JStr model_id
                    then [''model_id '' @ rq parent @ '' != '' @ rq (JStr model_id)] else [])
             else
               py_bind (as_dict c) (\<lambda>cfg.
               py_bind (base_name (jget_or cfg ''base_model_name_or_path'' (JStr []))) (\<lambda>b.
               py_bind (base_name (JStr model_id)) (\<lambda>b'.
                 Inr (if b \<noteq> b'
                      then [''base '' @ rq (jget cfg ''base_model_name_or_path'') @ '' != '' @ rq (JStr model_id)]
                      else []))))) (\<lambda>r1.
          py_bind (as_dict c) (\<lambda>cfg.
          py_bind (py_int_of (py_or (jget cfg ''r'') (JInt 0))) (\<lambda>pr.
          let r2 = (if pr \<noteq> lora_r then [''lora_r '' @ fstr rp (jget cfg ''r'') @ '' != '' @ int_str lora_r] else []) in
          py_bind (case lora_alpha of None \<Rightarrow> Inr []
            | Some a \<Rightarrow> py_bind (py_float fs (py_or (jget cfg ''lora_alpha'') (JInt 0))) (\<lambda>pa.
                Inr (if pa \<noteq> a
                     then [''lora_alpha '' @ fstr rp (jget cfg ''lora_alpha'') @ '' != '' @ rp (JFloat a)] else [])))
            (\<lambda>r3.
          Inr (r1 @ r2 @ r3 @
            (if truthy (jget cfg ''use_rslora'') \<noteq> use_rslora
             then [''use_rslora '' @ fstr rp (jget cfg ''use_rslora'') @ '' != '' @ fstr rp (JBool use_rslora)]
             else [])))))))
      | _ \<Rightarrow> Inr [''unreadable adapter_config.json ('' @ err @ '')''])"

section \<open>The ledger file is a keyed log\<close>

fun entry_key :: "json \<Rightarrow> pykey option" where
  "entry_key (JObj r) =
     (if truthy (jget r ''key'') then case hash_key (jget r ''key'') of Inr k \<Rightarrow> Some k | Inl _ \<Rightarrow> None else None)"
| "entry_key _ = None"

definition entry_ok :: "json \<Rightarrow> bool" where
  "entry_ok j = (is_obj j \<and> (truthy (jget (obj_of j) ''key'') \<longrightarrow> (\<exists>k. hash_key (jget (obj_of j) ''key'') = Inr k)))"

interpretation dose: keyed_log load_step entry_ok entry_key dget "\<lambda>j _. Some (obj_of j)"
proof unfold_locales
  fix s j
  show "(\<exists>s'. load_step s j = Inr s') \<longleftrightarrow> entry_ok j"
    by (cases j) (auto simp: load_step_def entry_ok_def py_bind_eq_Inr)
next
  fix s j s' k
  assume "load_step s j = Inr s'"
  then show "dget s' k = (if entry_key j = Some k then Some (obj_of j) else dget s k)"
    by (cases j) (auto simp: load_step_def py_bind_eq_Inr split: if_splits)
qed

text \<open>A ledger as \<open>advance\<close> builds it: each entry is stored under its own key.\<close>

fun own_key :: "pykey \<Rightarrow> jobj \<Rightarrow> bool" where
  "own_key (KStr key) e = (key \<noteq> [] \<and> jget e ''key'' = JStr key)"
| "own_key _ e = False"

definition ledger_ok :: "ledger \<Rightarrow> bool" where
  "ledger_ok d = (distinct (dkeys d) \<and> list_all (\<lambda>(k, e). own_key k e) d)"

lemma ledger_ok_iff:
  "ledger_ok d \<longleftrightarrow> distinct (dkeys d) \<and> (\<forall>k e. dget d k = Some e \<longrightarrow> own_key k e)"
proof (cases "distinct (dkeys d)")
  case True
  have "list_all (\<lambda>(k, e). own_key k e) d \<longleftrightarrow> (\<forall>k e. (k, e) \<in> set d \<longrightarrow> own_key k e)"
    by (auto simp: list_all_iff)
  then show ?thesis using True by (simp only: ledger_ok_def in_set_dget [OF True])
qed (simp add: ledger_ok_def)

lemma own_key_entry: "own_key k e \<Longrightarrow> entry_key (JObj e) = Some k \<and> entry_ok (JObj e) \<and> is_KStr k"
  by (cases k) (auto simp: entry_ok_def)

lemma ledger_ok_dset:
  "ledger_ok d \<Longrightarrow> key \<noteq> [] \<Longrightarrow> jget e ''key'' = JStr key \<Longrightarrow> ledger_ok (dset (KStr key) e d)"
  unfolding ledger_ok_iff by simp

section \<open>Row identities in the render\<close>

lemma jget_row_render:
  "jget (row_render_dict r) ''source'' = JStr (row_source r)"
  "jget (row_render_dict r) ''source_session'' = JStr (row_session r)"
  "jget (row_render_dict r) ''exchange_index'' = opt_json JInt (row_index r)"
  "jget (row_render_dict r) ''unmask_user'' = JBool (unmask_user r)"
  "jget (row_render_dict r) ''user_loss_weight'' = opt_json JFloat (user_loss_weight r)"
  "jget (row_render_dict r) ''lr_multiplier'' = JFloat (lr_multiplier r)"
  "jget (row_render_dict r) ''variant'' = JStr (row_target r)"
  "jget (row_render_dict r) ''preview'' = (if preview r then JBool True else JNull)"
  by (simp_all add: row_render_dict_def Let_def)

lemma key_of_render: "row_source r \<noteq> [] \<Longrightarrow> key_of_example rp (row_render_dict r) = Inr (key_of_row r)"
  by (cases "row_index r"; cases "row_session r = []"; cases "user_loss_weight r = None")
     (auto simp: key_of_example_def jget_row_render py_or_def row_key_def key_of_row_def opt_json_def)

lemma key_of_row_ne [simp]: "key_of_row r \<noteq> []"
  by (simp add: key_of_row_def)

lemma key_of_row_lr [simp]: "key_of_row (r\<lparr>lr_multiplier := x\<rparr>) = key_of_row r"
  by (simp add: key_of_row_def)

section \<open>One incremental build\<close>

definition entry_of :: "ledger \<Rightarrow> build_row \<Rightarrow> jobj" where
  "entry_of d r = (case dget d (KStr (key_of_row r)) of None \<Rightarrow> [] | Some e \<Rightarrow> e)"

lemma increment_step_out:
  assumes "delivered_of fs (entry_of d r) = Inr x"
  shows "\<exists>st'. increment_step sha fs d (out, st) r = Inr
    (out @ (if dose_eps < lr_multiplier r - x then [r\<lparr>lr_multiplier := lr_multiplier r - x\<rparr>] else []), st')"
  using assms by (simp add: increment_step_def entry_of_def [symmetric] Let_def not_le)

lemma apply_increments_out:
  assumes "\<forall>r \<in> set rows. delivered_of fs (entry_of d r) = Inr (g r)"
  shows "\<exists>st'. py_fold (increment_step sha fs d) (out, st) rows = Inr
    (out @ List.map (\<lambda>r. r\<lparr>lr_multiplier := lr_multiplier r - g r\<rparr>)
       (filter (\<lambda>r. dose_eps < lr_multiplier r - g r) rows), st')"
  using assms
proof (induction rows arbitrary: out st)
  case (Cons r rows)
  obtain st' where step: "increment_step sha fs d (out, st) r = Inr
    (out @ (if dose_eps < lr_multiplier r - g r then [r\<lparr>lr_multiplier := lr_multiplier r - g r\<rparr>] else []), st')"
    using increment_step_out [of fs d r "g r" sha out st] Cons.prems by auto
  show ?case
    using Cons.IH [of "out @ (if dose_eps < lr_multiplier r - g r
        then [r\<lparr>lr_multiplier := lr_multiplier r - g r\<rparr>] else [])" st'] Cons.prems
    by (auto simp: step)
qed simp

definition trained_entry :: "(string \<Rightarrow> string) \<Rightarrow> string \<Rightarrow> string \<Rightarrow> build_row \<Rightarrow> rat \<Rightarrow> jobj" where
  "trained_entry sha built_at build_id r x =
     [(''key'', JStr (key_of_row r)), (''delivered'', JFloat (round6 x)),
      (''last_trained_at'', JStr built_at), (''build_id'', JStr build_id),
      (''target_sha'', JStr (sha (row_target r)))]"

lemma advance_step_row:
  assumes "row_source r \<noteq> []" "\<not> preview r" "delivered_of fs (entry_of new r) = Inr x"
  shows "advance_step rp sha fs built_at build_id True new (JObj (row_render_dict r)) =
    Inr (dset (KStr (key_of_row r)) (trained_entry sha built_at build_id r (x + lr_multiplier r)) new)"
  using assms
  by (simp add: advance_step_def jget_row_render key_of_render py_or_def entry_of_def trained_entry_def)

lemma advance_rows:
  assumes "\<forall>r \<in> set rows. row_source r \<noteq> [] \<and> \<not> preview r \<and> delivered_of fs (entry_of new r) = Inr (h r)"
    and "distinct (List.map key_of_row rows)"
  shows "\<exists>d'. py_fold (advance_step rp sha fs built_at build_id True) new
      (List.map (\<lambda>r. JObj (row_render_dict r)) rows) = Inr d'
    \<and> (\<forall>r \<in> set rows. entry_of d' r = trained_entry sha built_at build_id r (h r + lr_multiplier r))
    \<and> (\<forall>k. k \<notin> (\<lambda>r. KStr (key_of_row r)) ` set rows \<longrightarrow> dget d' k = dget new k)"
  using assms
proof (induction rows arbitrary: new)
  case (Cons r rows)
  let ?new = "dset (KStr (key_of_row r)) (trained_entry sha built_at build_id r (h r + lr_multiplier r)) new"
  have step: "advance_step rp sha fs built_at build_id True new (JObj (row_render_dict r)) = Inr ?new"
    using Cons.prems(1) by (intro advance_step_row) auto
  have other: "entry_of ?new q = entry_of new q" if "q \<in> set rows" for q
  proof -
    have "key_of_row q \<noteq> key_of_row r" using Cons.prems(2) that by (auto simp: image_iff)
    then show ?thesis by (simp add: entry_of_def)
  qed
  then obtain d' where d': "py_fold (advance_step rp sha fs built_at build_id True) ?new
      (List.map (\<lambda>r. JObj (row_render_dict r)) rows) = Inr d'"
    "\<forall>r \<in> set rows. entry_of d' r = trained_entry sha built_at build_id r (h r + lr_multiplier r)"
    "\<forall>k. k \<notin> (\<lambda>r. KStr (key_of_row r)) ` set rows \<longrightarrow> dget d' k = dget ?new k"
    using Cons.IH [of ?new] Cons.prems by auto
  have "dget d' (KStr (key_of_row r)) = dget ?new (KStr (key_of_row r))"
    using d'(3) Cons.prems(2) by (auto simp: image_iff)
  then have "entry_of d' r = trained_entry sha built_at build_id r (h r + lr_multiplier r)"
    by (simp add: entry_of_def)
  then show ?case using d' step by auto
qed simp

lemma round6_close: "x - round6 x \<le> dose_eps"
  using py_round_bounds(2) [of "x * 1000000"] by (simp add: round6_def dose_eps_def field_simps)

lemma delivered_trained: "delivered_of fs (trained_entry sha a b r x) = Inr (round6 x)"
  by (simp add: delivered_of_def trained_entry_def py_or_def)

lemma advance_stepE:
  assumes "advance_step rp sha fs built_at build_id incremental n j = Inr n'"
  obtains ex where "j = JObj ex" "truthy (jget ex ''preview'')" "n' = n"
  | ex key e where "j = JObj ex" "\<not> truthy (jget ex ''preview'')" "key_of_example rp ex = Inr key"
      "key \<noteq> []" "jget e ''key'' = JStr key" "n' = dset (KStr key) e n"
proof -
  obtain ex where ex: "j = JObj ex" using assms by (cases j) (auto simp: advance_step_def)
  show thesis
  proof (cases "truthy (jget ex ''preview'')")
    case True
    then show ?thesis using assms that(1) [OF ex] by (simp add: advance_step_def ex)
  next
    case False
    then obtain key x y z where *: "key_of_example rp ex = Inr key"
        "n' = dset (KStr key) [(''key'', JStr key), (''delivered'', JFloat (round6 x)),
           (''last_trained_at'', JStr built_at), (''build_id'', JStr build_id), (''target_sha'', JStr (sha y))] n"
      using assms by (simp add: advance_step_def ex py_bind_eq_Inr) blast
    then have "key \<noteq> []" by (auto simp: key_of_example_def row_key_def py_bind_eq_Inr)
    then show ?thesis using that(2) [OF ex False *(1) _ _ *(2)] by simp
  qed
qed

section \<open>Properties\<close>

text \<open>A row keeps its identity through the render file. The key the ledger computes from the rendered
  projection of a row is the key it computes from the row itself, for chat, wander, split and folded
  contamination rows alike.\<close>

theorem render_keeps_row_key:
  assumes "row_source r \<noteq> []"
  shows "key_of_example rp (row_render_dict r) = Inr (key_of_row r)"
  using assms by (rule key_of_render)

definition sample_row :: build_row where
  "sample_row = \<lparr>messages = [], row_age = 30, lr_multiplier = 3/2, row_source = ''chat'', row_session = ''s'',
     row_index = Some 2, order_key = (''s'', 2), row_target = ''t'', row_anchor = None, persona_keys = [],
     fact_keys = [], unmask_user = False, preview = False, user_loss_weight = None\<rparr>"

theorem render_keeps_row_key_witness:
  "key_of_example (\<lambda>_. []) (row_render_dict sample_row) = Inr ''dialogue|s|2''"
proof -
  have "key_of_row sample_row = ''dialogue|s|2''" by code_simp
  then show ?thesis using render_keeps_row_key [of sample_row "\<lambda>_. []"] by (simp add: sample_row_def)
qed

text \<open>C27: one incremental build settles every debt. If the rows the increments select are trained and
  recorded, the recording succeeds, and asking again with the same rows and the new ledger finds
  nothing left to train, whatever had been delivered before; entries of rows that were not selected
  are unchanged.\<close>

theorem incremental_build_settles:
  assumes "apply_increments sha fs rows d = Inr (out, st)"
    and "\<forall>r \<in> set rows. row_source r \<noteq> [] \<and> \<not> preview r"
    and "distinct (List.map key_of_row rows)"
    and "\<forall>k e. dget d k = Some e \<longrightarrow> (\<exists>x. delivered_of fs e = Inr x)"
  shows "\<exists>d'. advance rp sha fs built_at build_id True d (List.map (\<lambda>r. JObj (row_render_dict r)) out) = Inr d'
    \<and> (\<exists>st'. apply_increments sha fs rows d' = Inr ([], st'))
    \<and> (\<forall>k. k \<notin> (\<lambda>r. KStr (key_of_row r)) ` set out \<longrightarrow> dget d' k = dget d k)"
proof -
  have "\<exists>x. delivered_of fs (entry_of d r) = Inr x" for r
  proof (cases "dget d (KStr (key_of_row r))")
    case None
    then show ?thesis by (simp add: entry_of_def delivered_of_def py_or_def)
  qed (use assms(4) in \<open>simp add: entry_of_def\<close>)
  then obtain g where g: "\<And>r. delivered_of fs (entry_of d r) = Inr (g r)" by metis
  let ?owes = "\<lambda>r. dose_eps < lr_multiplier r - g r" let ?pay = "\<lambda>r. r\<lparr>lr_multiplier := lr_multiplier r - g r\<rparr>"
  obtain st' where "apply_increments sha fs rows d = Inr (List.map ?pay (filter ?owes rows), st')"
    using apply_increments_out [of rows fs d g sha "[]"] g unfolding apply_increments_def by fastforce
  then have out: "out = List.map ?pay (filter ?owes rows)" using assms(1) by simp
  have keys: "List.map key_of_row out = List.map key_of_row (filter ?owes rows)"
    by (simp add: out)
  have dist: "distinct (List.map key_of_row out)"
    unfolding keys by (rule distinct_map_filter [OF assms(3)])
  have "entry_of d (?pay r) = entry_of d r" for r by (simp add: entry_of_def)
  then have "\<forall>r \<in> set out. row_source r \<noteq> [] \<and> \<not> preview r \<and> delivered_of fs (entry_of d r) = Inr (g r)"
    using g assms(2) by (auto simp: out)
  then obtain d' where d': "advance rp sha fs built_at build_id True d (List.map (\<lambda>r. JObj (row_render_dict r)) out) = Inr d'"
      "\<forall>r \<in> set out. entry_of d' r = trained_entry sha built_at build_id r (g r + lr_multiplier r)"
      "\<forall>k. k \<notin> (\<lambda>r. KStr (key_of_row r)) ` set out \<longrightarrow> dget d' k = dget d k"
    using advance_rows [OF _ dist] by (fastforce simp: advance_def)
  have same: "g (?pay r) = g r" for r
    using g [of "?pay r"] g [of r] by (simp add: entry_of_def)
  have paid: "\<exists>x. delivered_of fs (entry_of d' r) = Inr x \<and> \<not> dose_eps < lr_multiplier r - x"
    if "r \<in> set rows" for r
  proof (cases "?owes r")
    case True
    then have "?pay r \<in> set out" using that by (auto simp: out)
    then have "entry_of d' (?pay r) = trained_entry sha built_at build_id (?pay r) (lr_multiplier r)"
      using d'(2) same by auto
    moreover have "entry_of d' (?pay r) = entry_of d' r" by (simp add: entry_of_def)
    ultimately have "delivered_of fs (entry_of d' r) = Inr (round6 (lr_multiplier r))"
      by (simp add: delivered_trained)
    then show ?thesis using round6_close [of "lr_multiplier r"] by (auto simp: not_less)
  next
    case False
    have "KStr (key_of_row r) \<noteq> KStr (key_of_row q)" if "q \<in> set out" for q
    proof
      assume eq: "KStr (key_of_row r) = KStr (key_of_row q)"
      from \<open>q \<in> set out\<close> obtain p where p: "p \<in> set rows" "?owes p" "key_of_row q = key_of_row p"
        by (auto simp: out)
      then have "p = r" using eq assms(3) \<open>r \<in> set rows\<close> by (auto simp: distinct_map inj_on_def)
      then show False using p(2) False by simp
    qed
    then have "KStr (key_of_row r) \<notin> (\<lambda>r. KStr (key_of_row r)) ` set out" by blast
    then have "entry_of d' r = entry_of d r" using d'(3) by (simp add: entry_of_def)
    then show ?thesis using g False by auto
  qed
  then obtain g' where g': "\<forall>r \<in> set rows. delivered_of fs (entry_of d' r) = Inr (g' r)
      \<and> \<not> dose_eps < lr_multiplier r - g' r" by metis
  then have "filter (\<lambda>r. dose_eps < lr_multiplier r - g' r) rows = []" by (simp add: filter_empty_conv)
  then have "\<exists>st'. apply_increments sha fs rows d' = Inr ([], st')"
    using apply_increments_out [of rows fs d' g' sha "[]"] g' by (simp add: apply_increments_def)
  then show ?thesis using d'(1,3) by blast
qed

definition sample_stats :: dose_stats where
  "sample_stats = \<lparr>n_rows = 1, n_owed = 1, n_done = 0, n_new = 1, changed_targets = 0, dose_owed = 3/2,
     dose_targets = [(''dialogue|s|2'', 3/2)]\<rparr>"

lemma sample_row_key: "key_of_row sample_row = ''dialogue|s|2''"
  by code_simp

theorem incremental_build_settles_witness:
  "\<exists>d'. advance (\<lambda>_. []) (\<lambda>s. s) (\<lambda>_. Inl ValueError) ''now'' ''b1'' True []
      (List.map (\<lambda>r. JObj (row_render_dict r)) [sample_row]) = Inr d'
    \<and> (\<exists>st'. apply_increments (\<lambda>s. s) (\<lambda>_. Inl ValueError) [sample_row] d' = Inr ([], st'))"
proof -
  have "sample_row\<lparr>lr_multiplier := 3/2\<rparr> = sample_row" by (simp add: sample_row_def)
  then have "apply_increments (\<lambda>s. s) (\<lambda>_. Inl ValueError) [sample_row] [] = Inr ([sample_row], sample_stats)"
    by (simp add: apply_increments_def increment_step_def Let_def delivered_of_def py_or_def dose_eps_def
      sample_row_key sample_stats_def) (simp add: sample_row_def)
  from incremental_build_settles [OF this, where built_at = "''now''" and build_id = "''b1''" and rp = "\<lambda>_. []"]
  show ?thesis by (auto simp: sample_row_def)
qed

text \<open>What a build did not train stays as it was. An incremental advance changes only the entries of
  the rows it trained; a full train starts from nothing, so a row that was quarantined or filtered out
  has no entry afterwards. Either way every entry of the new ledger is stored under its own key.\<close>

theorem advance_only_trained:
  assumes "advance rp sha fs built_at build_id incremental d trained = Inr d'"
    and "incremental \<longrightarrow> ledger_ok d"
  shows "ledger_ok d' \<and> (\<forall>key. (\<forall>ex. JObj ex \<in> set trained \<and> \<not> truthy (jget ex ''preview'')
        \<longrightarrow> key_of_example rp ex \<noteq> Inr key)
      \<longrightarrow> dget d' (KStr key) = (if incremental then dget d (KStr key) else None))"
proof -
  let ?d0 = "if incremental then d else []"
  have ok0: "ledger_ok ?d0" using assms(2) by (auto simp: ledger_ok_def)
  have step: "ledger_ok n' \<and> (\<forall>key. (\<forall>ex. j = JObj ex \<and> \<not> truthy (jget ex ''preview'')
        \<longrightarrow> key_of_example rp ex \<noteq> Inr key) \<longrightarrow> dget n' (KStr key) = dget n (KStr key))"
    if "ledger_ok n" "advance_step rp sha fs built_at build_id incremental n j = Inr n'" for n n' j
    by (rule advance_stepE [OF that(2)]) (use that(1) in \<open>auto intro: ledger_ok_dset\<close>)
  let ?P = "\<lambda>n. ledger_ok n \<and> (\<forall>key. (\<forall>ex. JObj ex \<in> set trained \<and> \<not> truthy (jget ex ''preview'')
        \<longrightarrow> key_of_example rp ex \<noteq> Inr key) \<longrightarrow> dget n (KStr key) = dget ?d0 (KStr key))"
  have "?P d'"
  proof (rule py_fold_invariant [where P = ?P, OF assms(1) [unfolded advance_def]])
    show "?P ?d0" using ok0 by blast
    show "?P n'" if "?P n" "j \<in> set trained"
        "advance_step rp sha fs built_at build_id incremental n j = Inr n'" for n j n'
      using step [OF conjunct1 [OF that(1)] that(3)] that(1,2) by metis
  qed
  then show ?thesis by (cases incremental) simp_all
qed

theorem advance_only_trained_witness:
  "\<exists>d'. advance (\<lambda>_. []) (\<lambda>s. s) (\<lambda>_. Inl ValueError) ''now'' ''b1'' False []
      [JObj [(''preview'', JBool True)]] = Inr d' \<and> ledger_ok d' \<and> dget d' (KStr ''dialogue|s|2'') = None"
proof -
  have "advance (\<lambda>_. []) (\<lambda>s. s) (\<lambda>_. Inl ValueError) ''now'' ''b1'' False []
      [JObj [(''preview'', JBool True)]] = Inr []"
    by (simp add: advance_def advance_step_def)
  from advance_only_trained [OF this] this show ?thesis by auto
qed

text \<open>A saved ledger is read back as it was: saving succeeds, the file has one line per entry in key
  order, and loading it gives every key the same entry, and no other key.\<close>

theorem save_load_roundtrip:
  assumes "ledger_ok d"
  shows "\<exists>f e. save d = Inr f \<and> load f = Inr (Some e) \<and> (\<forall>k. dget e k = dget d k)
    \<and> length (log_lines f) = length d"
proof -
  have own: "\<exists>e. dget d k = Some e \<and> own_key k e" if "k \<in> set (dkeys d)" for k
  proof -
    from that obtain e where "dget d k = Some e" by (auto dest: weak_map_of_SomeI)
    then show ?thesis using assms by (auto simp: ledger_ok_iff)
  qed
  define ks where "ks = sort (dkeys d)"
  define F where "F k = JObj (the (dget d k))" for k
  have ks: "set ks = set (dkeys d)" "distinct ks"
    using assms unfolding ks_def ledger_ok_def by simp_all
  have F: "entry_key (F k) = Some k" "entry_ok (F k)" "is_KStr k" if "k \<in> set ks" for k
    using own [of k] that own_key_entry unfolding F_def ks(1) by (metis option.sel)+
  have sv: "save d = Inr (Some (Parsed (List.map Rec (List.map F ks))))"
    using F(3) by (simp add: save_def py_sorted_def ks_def [symmetric] F_def list_all_iff ks(1))
  obtain e where e: "py_fold load_step [] (List.map F ks) = Inr e"
    using dose.replay_ok [of "[]" "List.map F ks"] F(2) by auto
  have "filter (\<lambda>j. entry_key j = Some k) (List.map F ks) = (if k \<in> set ks then [F k] else [])" for k
    using F(1) ks(2) by (induction ks) (auto simp: filter_empty_conv)
  then have "dget e k = (if k \<in> set ks then Some (the (dget d k)) else None)" for k
    using dose.replay_view [OF e, of k] by (simp add: dose.on_key_def F_def)
  then have dge: "dget e k = (if k \<in> set (dkeys d) then Some (the (dget d k)) else None)" for k
    by (simp only: ks(1))
  have "dget e k = dget d k" for k
  proof (cases "k \<in> set (dkeys d)")
    case True
    then show ?thesis using own [OF True] unfolding dge by auto
  next
    case False
    then have "dget d k = None" by (simp add: map_of_eq_None_iff)
    then show ?thesis using False unfolding dge by simp
  qed
  moreover have "load (Some (Parsed (List.map Rec (List.map F ks)))) = Inr (Some e)"
    by (simp add: load_def e del: map_map)
  ultimately show ?thesis using sv by (auto simp: ks_def)
qed

theorem save_load_roundtrip_witness:
  "\<exists>f e. save [(KStr ''b'', [(''key'', JStr ''b'')]), (KStr ''a'', [(''key'', JStr ''a'')])] = Inr f
    \<and> load f = Inr (Some e) \<and> dget e (KStr ''a'') = Some [(''key'', JStr ''a'')]"
  using save_load_roundtrip [of "[(KStr ''b'', [(''key'', JStr ''b'')]), (KStr ''a'', [(''key'', JStr ''a'')])]"]
  by (fastforce simp: ledger_ok_def)

end
