(* ===== verification/Label_Policy.thy ===== *)
theory Label_Policy
  imports Prelude
begin

text \<open>
  \<open>server/training/label_policy.py\<close>: which tokens of a training row carry loss. Labels are token ids
  with \<open>-100\<close> for a masked position; a position is a natural number, and writing past the end of a
  row raises \<open>IndexError\<close>.
\<close>

abbreviation (input) masked :: int where
  "masked \<equiv> - 100"

section \<open>Operations\<close>

definition find_subsequences :: "int list \<Rightarrow> int list \<Rightarrow> nat list" where
  "find_subsequences haystack needle =
     (let n = length haystack; m = length needle in
      if m = 0 \<or> n < m then []
      else filter (\<lambda>i. take m (drop i haystack) = needle) [0..<n - m + 1])"

definition unmasked :: "int list \<Rightarrow> nat list" where
  "unmasked labels = filter (\<lambda>i. labels ! i \<noteq> masked) [0..<length labels]"

definition gaps :: "nat list \<Rightarrow> nat list" where
  "gaps idx = filter (\<lambda>k. 1 < idx ! (k + 1) - idx ! k) [0..<length idx - 1]"

definition final_run_start :: "int list \<Rightarrow> nat option" where
  "final_run_start labels =
     (let idx = unmasked labels in
      if idx = [] then None
      else if gaps idx \<noteq> [] then Some (idx ! (last (gaps idx) + 1))
      else Some (idx ! 0))"

definition final_user_span :: "int list \<Rightarrow> int list \<Rightarrow> int list \<Rightarrow> nat \<Rightarrow> (nat \<times> nat) option" where
  "final_user_span input_ids instruction_ids response_ids last_run_start =
     (if instruction_ids = [] \<or> response_ids = [] then None
      else let instr_len = length instruction_ids;
               instr_starts = filter (\<lambda>s. s + instr_len \<le> last_run_start)
                                (find_subsequences input_ids instruction_ids) in
        if instr_starts = [] then None
        else let content_start = last instr_starts + instr_len;
                 resp_starts = filter (\<lambda>s. content_start \<le> s) (find_subsequences input_ids response_ids) in
          if resp_starts = [] then None
          else let content_end = hd resp_starts in
            if content_end \<le> content_start then None else Some (content_start, content_end))"

definition row_label_policy ::
  "int list \<Rightarrow> int list \<Rightarrow> bool \<Rightarrow> int list \<Rightarrow> int list \<Rightarrow> int list py" where
  "row_label_policy labels input_ids unmask_user instruction_ids response_ids =
     (case final_run_start labels of
        None \<Rightarrow> Inr labels
      | Some last_run_start \<Rightarrow>
          py_bind (py_fold (\<lambda>ls i. py_put ls i masked) labels [0..<last_run_start]) (\<lambda>ls.
            if \<not> unmask_user then Inr ls
            else case final_user_span input_ids instruction_ids response_ids last_run_start of
                None \<Rightarrow> Inr ls
              | Some (content_start, content_end) \<Rightarrow>
                  py_fold (\<lambda>ls pos. py_bind (py_at input_ids pos) (\<lambda>v. py_put ls pos v)) ls
                    [content_start..<content_end]))"

definition row_loss_weights ::
  "int list \<Rightarrow> int list \<Rightarrow> bool \<Rightarrow> int list \<Rightarrow> int list \<Rightarrow> rat \<Rightarrow> rat list py" where
  "row_loss_weights labels input_ids unmask_user instruction_ids response_ids user_loss_weight =
     (let weights = replicate (length labels) 0 in
      case final_run_start labels of
        None \<Rightarrow> Inr weights
      | Some last_run_start \<Rightarrow>
          py_bind (py_fold (\<lambda>ws i. if labels ! i \<noteq> masked then py_put ws i 1 else Inr ws) weights
                    [last_run_start..<length labels]) (\<lambda>ws.
            if \<not> unmask_user then Inr ws
            else case final_user_span input_ids instruction_ids response_ids last_run_start of
                None \<Rightarrow> Inr ws
              | Some (content_start, content_end) \<Rightarrow>
                  py_fold (\<lambda>ws pos. py_put ws pos user_loss_weight) ws [content_start..<content_end]))"

definition ref_keep_final_turn_only :: "int list \<Rightarrow> int list py" where
  "ref_keep_final_turn_only labels =
     (let idx = unmasked labels in
      if idx = [] then Inr labels
      else if gaps idx = [] then Inr labels
      else py_fold (\<lambda>ls i. py_put ls i masked) labels [0..<idx ! (last (gaps idx) + 1)])"

section \<open>The final run\<close>

lemma unmasked_sorted: "sorted_wrt (<) (unmasked labels)"
  unfolding unmasked_def by (rule sorted_wrt_filter) simp

lemma set_unmasked: "set (unmasked labels) = {i. i < length labels \<and> labels ! i \<noteq> masked}"
  by (auto simp: unmasked_def)

lemma consecutive:
  assumes "sorted_wrt (<) idx" "\<And>k. t \<le> k \<Longrightarrow> k + 1 < length idx \<Longrightarrow> idx ! (k + 1) - idx ! k \<le> 1"
    and "t + m < length idx"
  shows "idx ! (t + m) = idx ! t + m"
  using assms(3)
proof (induction m)
  case (Suc m)
  then have "idx ! (t + m) < idx ! (t + m + 1)"
    using sorted_wrt_nth_less [OF assms(1), of "t + m" "t + m + 1"] by simp
  moreover have "idx ! (t + m + 1) - idx ! (t + m) \<le> 1"
    using Suc.prems by (intro assms(2)) auto
  ultimately show ?case using Suc by simp
qed simp

text \<open>Where the last block of consecutive positions starts in the list of unmasked positions.\<close>

definition last_block :: "nat list \<Rightarrow> nat" where
  "last_block idx = (if gaps idx = [] then 0 else last (gaps idx) + 1)"

lemma final_run_start_block:
  "final_run_start labels = (if unmasked labels = [] then None else Some (unmasked labels ! last_block (unmasked labels)))"
  by (simp add: final_run_start_def last_block_def Let_def)

lemma gaps_last:
  assumes "gaps idx \<noteq> []"
  shows "last (gaps idx) + 1 < length idx" "1 < idx ! (last (gaps idx) + 1) - idx ! last (gaps idx)"
proof -
  have "last (gaps idx) \<in> {k. k < length idx - 1 \<and> 1 < idx ! (k + 1) - idx ! k}"
    using last_in_set [OF assms] unfolding gaps_def by simp
  then show "last (gaps idx) + 1 < length idx" "1 < idx ! (last (gaps idx) + 1) - idx ! last (gaps idx)"
    by auto
qed

lemma le_last_sorted: "sorted xs \<Longrightarrow> k \<in> set xs \<Longrightarrow> k \<le> last xs"
  by (induction xs rule: rev_induct) (auto simp: sorted_append)

lemma after_last_gap:
  assumes "last_block idx \<le> k" "k + 1 < length idx"
  shows "idx ! (k + 1) - idx ! k \<le> 1"
proof (rule ccontr)
  assume "\<not> ?thesis"
  then have k: "k \<in> set (gaps idx)" using assms(2) by (auto simp: gaps_def)
  have "sorted (gaps idx)" unfolding gaps_def by (simp add: sorted_wrt_filter)
  then have "k \<le> last (gaps idx)"
    using k by (rule le_last_sorted)
  moreover have "gaps idx \<noteq> []" using k by auto
  ultimately show False using assms(1) by (simp add: last_block_def)
qed

lemma final_run_start_Some:
  assumes "final_run_start labels = Some s"
  shows "s < length labels" "labels ! s \<noteq> masked" "s = 0 \<or> labels ! (s - 1) = masked"
    "\<And>i j. s \<le> i \<Longrightarrow> i \<le> j \<Longrightarrow> j < length labels \<Longrightarrow> labels ! j \<noteq> masked \<Longrightarrow> labels ! i \<noteq> masked"
proof -
  let ?idx = "unmasked labels" let ?t = "last_block ?idx"
  have ne: "?idx \<noteq> []" and s: "s = ?idx ! ?t"
    using assms by (auto simp: final_run_start_block split: if_splits)
  have t: "?t < length ?idx"
    using ne gaps_last(1) [of ?idx] by (auto simp: last_block_def)
  then have "s \<in> set ?idx" unfolding s by simp
  then show "s < length labels" "labels ! s \<noteq> masked" by (simp_all add: set_unmasked)
  show "s = 0 \<or> labels ! (s - 1) = masked"
  proof (rule ccontr)
    assume a: "\<not> ?thesis"
    then have "s - 1 \<in> set ?idx"
      using \<open>s < length labels\<close> by (simp add: set_unmasked)
    then obtain m where m: "m < length ?idx" "?idx ! m = s - 1" by (auto simp: in_set_conv_nth)
    have mt: "m < ?t"
      using unmasked_sorted m t a by (metis s not_less_iff_gr_or_eq sorted_wrt_nth_less diff_less
        gr0I less_imp_le_nat not_less zero_less_one)
    then have g: "gaps ?idx \<noteq> []" by (auto simp: last_block_def)
    then have "m \<le> last (gaps ?idx)" using mt by (simp add: last_block_def)
    then have "?idx ! m \<le> ?idx ! last (gaps ?idx)"
      using gaps_last(1) [OF g] unmasked_sorted
      by (metis add_lessD1 le_eq_less_or_eq sorted_wrt_nth_less)
    then show False using gaps_last(2) [OF g] g m(2) s by (simp add: last_block_def)
  qed
  fix i j
  assume ij: "s \<le> i" "i \<le> j" "j < length labels" "labels ! j \<noteq> masked"
  then have "j \<in> set ?idx" by (simp add: set_unmasked)
  then obtain m where m: "m < length ?idx" "?idx ! m = j" by (auto simp: in_set_conv_nth)
  have "?t \<le> m"
    using m t ij(1,2) unmasked_sorted s by (metis le_trans not_le sorted_wrt_nth_less)
  then obtain e where e: "m = ?t + e" using le_Suc_ex by blast
  have con: "?idx ! (?t + x) = s + x" if "x \<le> e" for x
    unfolding s using m(1) e that
    by (intro consecutive [OF unmasked_sorted] after_last_gap) auto
  have "i - s \<le> e" using con [of e] m(2) e ij by simp
  then have "?idx ! (?t + (i - s)) = i" "?t + (i - s) < length ?idx"
    using con [of "i - s"] ij(1) m(1) e by auto
  then have "i \<in> set ?idx" by (metis nth_mem)
  then show "labels ! i \<noteq> masked" by (simp add: set_unmasked)
qed

section \<open>The final user turn\<close>

lemma find_subsequences_mem:
  "i \<in> set (find_subsequences h n) \<longleftrightarrow> n \<noteq> [] \<and> i + length n \<le> length h \<and> take (length n) (drop i h) = n"
proof -
  have "i \<in> set [0..<length h - length n + 1] \<longleftrightarrow> i \<le> length h - length n" by auto
  then show ?thesis
    unfolding find_subsequences_def Let_def by (cases "n = [] \<or> length h < length n") auto
qed

lemma sorted_find_subsequences: "sorted (find_subsequences h n)"
  unfolding find_subsequences_def Let_def by (simp add: sorted_wrt_filter del: upt_Suc)

lemma final_user_span_Some:
  assumes "final_user_span ids ins res s = Some (a, b)"
  shows "a < b" "b + length res \<le> length ids" "length ins \<le> a" "a \<le> s"
    "take (length ins) (drop (a - length ins) ids) = ins" "take (length res) (drop b ids) = res"
    "\<And>p. a \<le> p \<Longrightarrow> p \<in> set (find_subsequences ids res) \<Longrightarrow> b \<le> p"
proof -
  define os where "os = filter (\<lambda>x. x + length ins \<le> s) (find_subsequences ids ins)"
  define rs where "rs = filter (\<lambda>x. a \<le> x) (find_subsequences ids res)"
  have ab: "os \<noteq> []" "a = last os + length ins" "rs \<noteq> []" "b = hd rs" "a < b"
    using assms unfolding final_user_span_def Let_def os_def rs_def by (auto split: if_splits)
  show "a < b" by fact
  have i: "last os \<in> set os" and r: "b \<in> set rs" using ab by auto
  then show "b + length res \<le> length ids" "take (length res) (drop b ids) = res"
    by (simp_all add: rs_def find_subsequences_mem)
  show "length ins \<le> a" "a \<le> s" "take (length ins) (drop (a - length ins) ids) = ins"
    using i by (simp_all add: ab(2) os_def find_subsequences_mem)
  fix p assume "a \<le> p" "p \<in> set (find_subsequences ids res)"
  then have "p \<in> set rs" by (simp add: rs_def)
  moreover have "sorted rs" by (simp add: rs_def sorted_wrt_filter sorted_find_subsequences)
  ultimately show "b \<le> p" unfolding ab(4) by (cases rs) auto
qed

definition in_span :: "(nat \<times> nat) option \<Rightarrow> nat \<Rightarrow> bool" where
  "in_span sp i = (case sp of None \<Rightarrow> False | Some (a, b) \<Rightarrow> a \<le> i \<and> i < b)"

lemma mask_prefix:
  "s \<le> length labels \<Longrightarrow> py_fold (\<lambda>ls i. py_put ls i masked) labels [0..<s] =
     Inr (List.map (\<lambda>i. if i < s then masked else labels ! i) [0..<length labels])"
  using py_put_range [of s labels "\<lambda>_. masked" 0] by simp

lemma copy_span:
  assumes "b \<le> length ids" "b \<le> length ls"
  shows "py_fold (\<lambda>ls pos. py_bind (py_at ids pos) (\<lambda>v. py_put ls pos v)) ls [a..<b] =
    Inr (List.map (\<lambda>i. if a \<le> i \<and> i < b then ids ! i else ls ! i) [0..<length ls])"
proof -
  have "py_fold (\<lambda>ls pos. py_bind (py_at ids pos) (\<lambda>v. py_put ls pos v)) ls [a..<b]
      = py_fold (\<lambda>ls pos. py_put ls pos (ids ! pos)) ls [a..<b]"
    using assms(1) by (intro py_fold_cong) (auto simp: py_at_def)
  then show ?thesis using py_put_range [OF assms(2), of "\<lambda>i. ids ! i" a] by simp
qed

lemma policy_masked: "final_run_start labels = None \<Longrightarrow> row_label_policy labels ids u ins res = Inr labels"
  by (simp add: row_label_policy_def)

lemma policy_eq:
  assumes s: "final_run_start labels = Some s" and len: "length ids = length labels"
  shows "row_label_policy labels ids u ins res = Inr (List.map (\<lambda>i.
      if u \<and> in_span (final_user_span ids ins res s) i then ids ! i
      else if i < s then masked else labels ! i) [0..<length labels])"
proof -
  have sl: "s \<le> length labels" using final_run_start_Some(1) [OF s] by simp
  show ?thesis
  proof (cases "final_user_span ids ins res s")
    case None
    then show ?thesis by (simp add: row_label_policy_def s mask_prefix [OF sl] in_span_def)
  next
    case (Some ab)
    obtain a b where ab: "ab = (a, b)" by (cases ab)
    have "b \<le> length labels" using final_user_span_Some(2) [OF Some [unfolded ab]] len by simp
    then show ?thesis
      by (auto simp: row_label_policy_def s mask_prefix [OF sl] Some ab copy_span len in_span_def)
  qed
qed

lemma put_if_range:
  "b \<le> length ws \<Longrightarrow> py_fold (\<lambda>ws i. if P i then py_put ws i v else Inr ws) ws [a..<b]
     = Inr (List.map (\<lambda>i. if a \<le> i \<and> i < b \<and> P i then v else ws ! i) [0..<length ws])"
proof (induction b)
  case 0
  then show ?case by (simp add: map_nth)
next
  case (Suc b)
  show ?case
  proof (cases "a \<le> b")
    case True
    then have "[a..<Suc b] = [a..<b] @ [b]" by simp
    then show ?thesis
      using Suc True by (auto simp: py_fold_append py_put_def less_Suc_eq nth_list_update
        intro!: nth_equalityI)
  next
    case False
    then show ?thesis by (auto intro!: nth_equalityI)
  qed
qed

lemma weights_eq:
  assumes s: "final_run_start labels = Some s" and len: "length ids = length labels"
  shows "row_loss_weights labels ids u ins res w = Inr (List.map (\<lambda>i.
      if u \<and> in_span (final_user_span ids ins res s) i then w
      else if s \<le> i \<and> labels ! i \<noteq> masked then 1 else 0) [0..<length labels])"
proof -
  have fold: "py_fold (\<lambda>ws i. if labels ! i \<noteq> masked then py_put ws i 1 else Inr ws) ws [s..<length labels]
      = Inr (List.map (\<lambda>i. if s \<le> i \<and> labels ! i \<noteq> masked then 1 else ws ! i) [0..<length labels])"
    if ws: "length ws = length labels" for ws :: "rat list"
    using put_if_range [of "length labels" ws "\<lambda>i. labels ! i \<noteq> masked" 1 s] ws
    by (auto cong: map_cong)
  show ?thesis
  proof (cases "final_user_span ids ins res s")
    case None
    then show ?thesis by (auto simp: row_loss_weights_def s fold in_span_def)
  next
    case (Some ab)
    obtain a b where ab: "ab = (a, b)" by (cases ab)
    have "b \<le> length labels" using final_user_span_Some(2) [OF Some [unfolded ab]] len by simp
    then show ?thesis
      by (auto simp: row_loss_weights_def s fold Some ab py_put_range in_span_def)
  qed
qed

section \<open>Properties\<close>

text \<open>C20: without the user unmask, the policy is exactly the reference it replaced (keep only the final
  assistant turn), on every row, whatever the token ids and markers.\<close>

theorem policy_equals_reference:
  "row_label_policy labels input_ids False ins res = ref_keep_final_turn_only labels"
proof (cases "unmasked labels = []")
  case True
  then show ?thesis
    by (simp add: row_label_policy_def ref_keep_final_turn_only_def final_run_start_def)
next
  case False
  show ?thesis
  proof (cases "gaps (unmasked labels) = []")
    case True
    then have s: "final_run_start labels = Some (unmasked labels ! 0)"
      using False by (simp add: final_run_start_def)
    have mask: "labels ! i = masked" if "i < unmasked labels ! 0" for i
    proof (rule ccontr)
      assume "labels ! i \<noteq> masked"
      moreover have "i < length labels" using that final_run_start_Some(1) [OF s] by simp
      ultimately have "i \<in> set (unmasked labels)" by (simp add: set_unmasked)
      then obtain m where "m < length (unmasked labels)" "unmasked labels ! m = i"
        by (auto simp: in_set_conv_nth)
      then show False
        using that unmasked_sorted sorted_wrt_nth_less [of "(<)" "unmasked labels" 0 m]
        by (cases "m = 0") auto
    qed
    have "row_label_policy labels input_ids False ins res = Inr labels"
      using final_run_start_Some(1) [OF s] mask
      by (auto simp: row_label_policy_def s mask_prefix intro!: nth_equalityI)
    then show ?thesis using True False by (simp add: ref_keep_final_turn_only_def)
  next
    case gap: False
    then show ?thesis
      using False
      by (simp add: row_label_policy_def ref_keep_final_turn_only_def final_run_start_def Let_def)
        (simp split: sum.splits add: py_bind_def)
  qed
qed

text \<open>What a row looks like after the policy with the user unmask. Its length is unchanged. The
  positions from the start of the final assistant run on keep their labels, everything before it is
  masked, and only the content strictly between the last instruction marker before the run and the
  next response marker carries its token ids; the run itself is one block, and is preceded by a
  masked position.\<close>

theorem policy_trains_final_turns:
  assumes "length input_ids = length labels" "final_run_start labels = Some s"
  shows "\<exists>out. row_label_policy labels input_ids True ins res = Inr out \<and> length out = length labels
    \<and> (s = 0 \<or> labels ! (s - 1) = masked)
    \<and> (\<forall>i < length labels. out ! i =
        (if in_span (final_user_span input_ids ins res s) i then input_ids ! i
         else if i < s then masked else labels ! i))
    \<and> (\<forall>a b. final_user_span input_ids ins res s = Some (a, b) \<longrightarrow>
        take (length ins) (drop (a - length ins) input_ids) = ins
        \<and> take (length res) (drop b input_ids) = res
        \<and> (\<forall>p. a \<le> p \<and> p \<in> set (find_subsequences input_ids res) \<longrightarrow> b \<le> p))"
  using policy_eq [OF assms(2,1), of True ins res] final_run_start_Some(3) [OF assms(2)]
    final_user_span_Some(5-7) [of input_ids ins res s]
  by auto

theorem policy_trains_final_turns_witness:
  "row_label_policy [-100, -100, -100, -100, 50, 51, -100, -100, -100, -100, -100, -100, -100, 60]
     [10, 7, 1, 77, 40, 41, 8, 2, 7, 1, 88, 8, 2, 90] True [7, 1] [8, 2]
   = Inr [-100, -100, -100, -100, -100, -100, -100, -100, -100, -100, 88, -100, -100, 60]
   \<and> final_run_start [-100, -100, -100, -100, 50, 51, -100, -100, -100, -100, -100, -100, -100, 60] = Some 13
   \<and> (\<exists>out. row_label_policy [-100, 5] [3, 4] True [3] [3] = Inr out \<and> length out = 2)"
proof -
  have "final_run_start [-100, 5] = Some 1" by code_simp
  then have "\<exists>out. row_label_policy [-100, 5] [3, 4] True [3] [3] = Inr out \<and> length out = 2"
    using policy_trains_final_turns [of "[3, 4]" "[-100, 5]" 1 "[3]" "[3]"] by auto
  moreover have "row_label_policy [-100, -100, -100, -100, 50, 51, -100, -100, -100, -100, -100, -100, -100, 60]
     [10, 7, 1, 77, 40, 41, 8, 2, 7, 1, 88, 8, 2, 90] True [7, 1] [8, 2]
   = Inr [-100, -100, -100, -100, -100, -100, -100, -100, -100, -100, 88, -100, -100, 60]"
    by code_simp
  moreover have "final_run_start [-100, -100, -100, -100, 50, 51, -100, -100, -100, -100, -100, -100, -100, 60] = Some 13"
    by code_simp
  ultimately show ?thesis by blast
qed

text \<open>The two passes of a folded contamination row agree. A position has a non-zero loss weight
  exactly where the label policy leaves it unmasked, so no token is weighted that carries no loss and
  none is trained with weight zero.\<close>

theorem weights_agree_with_policy:
  assumes "length input_ids = length labels" "w \<noteq> 0" "masked \<notin> set input_ids"
  shows "\<exists>out ws. row_label_policy labels input_ids u ins res = Inr out
    \<and> row_loss_weights labels input_ids u ins res w = Inr ws
    \<and> length ws = length labels \<and> length out = length labels
    \<and> (\<forall>i < length labels. ws ! i \<noteq> 0 \<longleftrightarrow> out ! i \<noteq> masked)"
proof (cases "final_run_start labels")
  case None
  then have "unmasked labels = []" by (auto simp: final_run_start_def Let_def split: if_splits)
  then have "labels ! i = masked" if "i < length labels" for i
    using that set_unmasked [of labels] by auto
  then show ?thesis by (simp add: policy_masked None row_loss_weights_def)
next
  case (Some s)
  have "input_ids ! i \<noteq> masked" if "i < length labels" for i
    using that assms(1,3) by (metis nth_mem)
  then show ?thesis using assms by (auto simp: policy_eq [OF Some] weights_eq [OF Some])
qed

theorem weights_agree_with_policy_witness:
  "\<exists>out ws. row_label_policy [-100, 5] [3, 4] True [3] [3] = Inr out
    \<and> row_loss_weights [-100, 5] [3, 4] True [3] [3] (1/4) = Inr ws
    \<and> (\<forall>i < 2. ws ! i \<noteq> 0 \<longleftrightarrow> out ! i \<noteq> -100)"
  using weights_agree_with_policy [of "[3, 4]" "[-100, 5]" "1/4" True "[3]" "[3]"]
  by (auto simp: numeral_2_eq_2)

end
