(* ===== verification/Reflection_Memory.thy ===== *)
theory Reflection_Memory
  imports Keyed_Log "HOL-Library.Product_Lexorder" "HOL-Library.Multiset"
begin

text \<open>
  \<open>server/inference/core/reflection_memory.py\<close>: the replay of \<open>rag_memory.jsonl\<close> into the live memory
  items, and the questions that may be raised next. \<open>fromiso\<close> is \<open>datetime.fromisoformat\<close> in hours, \<open>now\<close>
  the time of the call in hours.
\<close>

section \<open>The replay\<close>

record memory_fold =
  items :: "(pykey, jobj) dict"
  surfaces :: "(pykey, int) dict"
  surfaced_in :: "(pykey, json list) dict"
  last_surfaced :: "(pykey, string) dict"
  lookups :: "(pykey, int) dict"

definition empty_memory :: memory_fold where
  "empty_memory = \<lparr>items = [], surfaces = [], surfaced_in = [], last_surfaced = [], lookups = []\<rparr>"

definition surface_where :: "jobj \<Rightarrow> string py" where
  "surface_where r = strip_or_empty (jget r ''surfaced_in'')"

definition surface_ts :: "jobj \<Rightarrow> string py" where
  "surface_ts r = strip_or_empty (jget r ''ts'')"

definition memory_step :: "memory_fold \<Rightarrow> json \<Rightarrow> memory_fold py" where
  "memory_step st j =
     py_bind (as_dict j) (\<lambda>r.
       let key = jget r ''key''; op = jget r ''op'' in
       if \<not> truthy key then Inr st
       else if op = JStr ''insert'' then
         py_bind (hash_key key) (\<lambda>k. Inr (st\<lparr>items := dset k r (items st)\<rparr>))
       else if op = JStr ''evict'' \<or> op = JStr ''supersede'' then
         py_bind (hash_key key) (\<lambda>k. Inr (st\<lparr>items := dpop k (items st)\<rparr>))
       else if op = JStr ''surface'' then
         py_bind (hash_key key) (\<lambda>k.
         py_bind (surface_where r) (\<lambda>w.
         py_bind (surface_ts r) (\<lambda>ts.
           Inr (st\<lparr>surfaces := dset k (dget_or (surfaces st) k 0 + 1) (surfaces st),
                   surfaced_in := (if w \<noteq> [] then dset k (dget_or (surfaced_in st) k [] @ [JStr w]) (surfaced_in st)
                                   else surfaced_in st),
                   last_surfaced := (if dget_or (last_surfaced st) k [] < ts
                                     then dset k ts (last_surfaced st) else last_surfaced st)\<rparr>))))
       else if op = JStr ''lookup'' then
         py_bind (hash_key key) (\<lambda>k.
           Inr (st\<lparr>lookups := dset k (dget_or (lookups st) k 0 + 1) (lookups st)\<rparr>))
       else Inr st)"

definition annotate :: "int \<Rightarrow> json list \<Rightarrow> string \<Rightarrow> int \<Rightarrow> jobj \<Rightarrow> jobj" where
  "annotate n sess ts looked r =
     dset ''lookup_count'' (JInt looked) (dset ''last_surfaced_ts'' (JStr ts)
       (dset ''surfaced_in_sessions'' (JList sess) (dset ''surface_count'' (JInt n) r)))"

definition finish_memory :: "memory_fold \<Rightarrow> (pykey, jobj) dict" where
  "finish_memory st =
     List.map (\<lambda>(k, r). (k, annotate (dget_or (surfaces st) k 0) (dget_or (surfaced_in st) k [])
       (dget_or (last_surfaced st) k []) (dget_or (lookups st) k 0) r)) (items st)"

definition memory_lines :: "logfile option \<Rightarrow> logfile \<Rightarrow> line list" where
  "memory_lines fallback f = (case fallback of None \<Rightarrow> [] | Some g \<Rightarrow> log_lines g) @ log_lines f"

definition fold_memory :: "logfile option \<Rightarrow> logfile \<Rightarrow> (pykey, jobj) dict py" where
  "fold_memory fallback f =
     py_bind (py_fold memory_step empty_memory (recs (memory_lines fallback f))) (\<lambda>st. Inr (finish_memory st))"

section \<open>Views\<close>

definition live_items :: "logfile option \<Rightarrow> logfile \<Rightarrow> jobj list py" where
  "live_items fb f = py_bind (fold_memory fb f) (\<lambda>d. Inr (List.map snd d))"

definition of_kind :: "string \<Rightarrow> jobj list \<Rightarrow> jobj list" where
  "of_kind kind rs = filter (\<lambda>r. jget r ''kind'' = JStr kind) rs"

definition open_questions :: "logfile option \<Rightarrow> logfile \<Rightarrow> jobj list py" where
  "open_questions fb f = py_bind (live_items fb f) (\<lambda>rs. Inr (of_kind ''ask'' rs))"

fun json_list :: "json \<Rightarrow> json list" where
  "json_list (JList xs) = xs"
| "json_list _ = []"

definition asks_surfaced_in :: "string \<Rightarrow> logfile option \<Rightarrow> logfile \<Rightarrow> jobj list py" where
  "asks_surfaced_in session fb f =
     (if session = [] then Inr []
      else py_bind (open_questions fb f) (\<lambda>rs.
        Inr (filter (\<lambda>r. JStr session \<in> set (json_list (jget r ''surfaced_in_sessions''))) rs)))"

text \<open>The annotated counters of a folded record.\<close>

definition count_field :: "string \<Rightarrow> jobj \<Rightarrow> int" where
  "count_field x r = (case jget_or r x (JInt 0) of JInt n \<Rightarrow> n | _ \<Rightarrow> 0)"

definition last_raised :: "jobj \<Rightarrow> string" where
  "last_raised r = (case jget r ''last_surfaced_ts'' of JStr s \<Rightarrow> s | _ \<Rightarrow> [])"

text \<open>Hours since a time stamp; \<open>None\<close> is the source's infinity.\<close>

definition hours_since :: "(string \<Rightarrow> rat option) \<Rightarrow> rat \<Rightarrow> string \<Rightarrow> rat option" where
  "hours_since fromiso now ts =
     (let s = py_strip ts in if s = [] then None else map_option (\<lambda>t. now - t) (fromiso s))"

definition at_least :: "rat option \<Rightarrow> rat \<Rightarrow> bool" where
  "at_least h g = (case h of None \<Rightarrow> True | Some x \<Rightarrow> g \<le> x)"

definition raise_order :: "jobj \<Rightarrow> int \<times> string" where
  "raise_order r = (count_field ''surface_count'' r, last_raised r)"

definition surfaceable_of ::
  "(string \<Rightarrow> rat option) \<Rightarrow> rat \<Rightarrow> int \<Rightarrow> nat \<Rightarrow> rat \<Rightarrow> jobj list \<Rightarrow> jobj list" where
  "surfaceable_of fromiso now ceil limit min_gap_hours rs =
     (let asks = of_kind ''ask'' rs;
          asks = (if 0 < min_gap_hours
                  then filter (\<lambda>r. at_least (hours_since fromiso now (last_raised r)) min_gap_hours) asks else asks);
          meta = filter (\<lambda>r. jget r ''ask_kind'' = JStr ''meta'') asks;
          user = filter (\<lambda>r. jget r ''ask_kind'' = JStr ''user'' \<and> count_field ''surface_count'' r < ceil) asks
      in take limit (sort_key raise_order meta @ sort_key raise_order user))"

definition surfaceable_questions ::
  "(string \<Rightarrow> rat option) \<Rightarrow> rat \<Rightarrow> int \<Rightarrow> nat \<Rightarrow> rat \<Rightarrow> logfile option \<Rightarrow> logfile \<Rightarrow> jobj list py" where
  "surfaceable_questions fromiso now ceil limit gap fb f =
     py_bind (live_items fb f) (\<lambda>rs. Inr (surfaceable_of fromiso now ceil limit gap rs))"

definition recently_raised ::
  "(string \<Rightarrow> rat option) \<Rightarrow> rat \<Rightarrow> rat \<Rightarrow> nat \<Rightarrow> logfile option \<Rightarrow> logfile \<Rightarrow> jobj list py" where
  "recently_raised fromiso now within_hours limit fb f =
     py_bind (live_items fb f) (\<lambda>rs.
       Inr (take limit (sort_desc last_raised
         (filter (\<lambda>r. 0 < count_field ''surface_count'' r
             \<and> (case hours_since fromiso now (last_raised r) of None \<Rightarrow> False | Some h \<Rightarrow> h \<le> within_hours))
            (of_kind ''ask'' rs)))))"

definition lookupable_questions :: "int \<Rightarrow> logfile option \<Rightarrow> logfile \<Rightarrow> jobj list py" where
  "lookupable_questions ceil fb f =
     py_bind (live_items fb f) (\<lambda>rs.
       Inr (filter (\<lambda>r. jget r ''ask_kind'' = JStr ''search'' \<and> count_field ''lookup_count'' r < ceil)
              (of_kind ''ask'' rs)))"

definition impressions :: "logfile option \<Rightarrow> logfile \<Rightarrow> jobj list py" where
  "impressions fb f = py_bind (live_items fb f) (\<lambda>rs. Inr (of_kind ''impression'' rs))"

definition impressions_about ::
  "(json \<Rightarrow> string) \<Rightarrow> string \<Rightarrow> logfile option \<Rightarrow> logfile \<Rightarrow> jobj list py" where
  "impressions_about normalize_person person fb f =
     (let want = normalize_person (JStr person) in
      if want = [] then Inr []
      else py_bind (impressions fb f) (\<lambda>rs. Inr (filter (\<lambda>r. normalize_person (jget r ''about'') = want) rs)))"

definition recollection_for :: "string \<Rightarrow> logfile option \<Rightarrow> logfile \<Rightarrow> jobj option py" where
  "recollection_for source_session fb f =
     (if source_session = [] then Inr None
      else py_bind (live_items fb f) (\<lambda>rs.
        Inr (find (\<lambda>r. jget r ''kind'' = JStr ''recollection''
                       \<and> py_or (jget r ''source_session'') (JStr []) = JStr source_session) rs)))"

definition embed_text :: "jobj \<Rightarrow> string py" where
  "embed_text r =
     (if jget r ''kind'' = JStr ''fact'' \<or> jget r ''kind'' = JStr ''recollection''
      then strip_or_empty (py_or (jget r ''trigger'') (jget r ''content''))
      else strip_or_empty (jget r ''content''))"

definition is_self_directed_origin :: "string option \<Rightarrow> bool" where
  "is_self_directed_origin source_session =
     (let s = py_lower (py_strip (case source_session of None \<Rightarrow> [] | Some s \<Rightarrow> s)) in
      startswith s ''wiki'' \<or> startswith s ''til'' \<or> startswith s ''web:'' \<or> startswith s ''lookup'')"

section \<open>The memory is a keyed log\<close>

definition memory_ops :: "json set" where
  "memory_ops = {JStr ''insert'', JStr ''evict'', JStr ''supersede'', JStr ''surface'', JStr ''lookup''}"

fun mem_key :: "json \<Rightarrow> pykey option" where
  "mem_key (JObj r) =
     (if truthy (jget r ''key'') \<and> jget r ''op'' \<in> memory_ops
      then (case hash_key (jget r ''key'') of Inr k \<Rightarrow> Some k | Inl _ \<Rightarrow> None) else None)"
| "mem_key _ = None"

fun mem_ok :: "json \<Rightarrow> bool" where
  "mem_ok (JObj r) =
     (truthy (jget r ''key'') \<and> jget r ''op'' \<in> memory_ops \<longrightarrow>
        (\<exists>k. hash_key (jget r ''key'') = Inr k)
        \<and> (jget r ''op'' = JStr ''surface'' \<longrightarrow> (\<exists>w. surface_where r = Inr w) \<and> (\<exists>t. surface_ts r = Inr t)))"
| "mem_ok _ = False"

type_synonym mem_view = "jobj option \<times> int \<times> json list \<times> string \<times> int"

definition mem_view :: "memory_fold \<Rightarrow> pykey \<Rightarrow> mem_view" where
  "mem_view st k = (dget (items st) k, dget_or (surfaces st) k 0, dget_or (surfaced_in st) k [],
     dget_or (last_surfaced st) k [], dget_or (lookups st) k 0)"

definition or_nil :: "string py \<Rightarrow> string" where
  "or_nil x = (case x of Inr s \<Rightarrow> s | Inl _ \<Rightarrow> [])"

definition later :: "string \<Rightarrow> string \<Rightarrow> string" where
  "later a b = (if a < b then b else a)"

fun mem_op :: "json \<Rightarrow> mem_view \<Rightarrow> mem_view" where
  "mem_op (JObj r) (it, n, ss, ts, lk) =
     (if jget r ''op'' = JStr ''insert'' then (Some r, n, ss, ts, lk)
      else if jget r ''op'' = JStr ''surface'' then
        (it, n + 1, (if or_nil (surface_where r) \<noteq> [] then ss @ [JStr (or_nil (surface_where r))] else ss),
         later ts (or_nil (surface_ts r)), lk)
      else if jget r ''op'' = JStr ''lookup'' then (it, n, ss, ts, lk + 1)
      else (None, n, ss, ts, lk))"
| "mem_op _ v = v"

lemma memory_opsE:
  assumes "jget r ''op'' \<in> memory_ops"
  obtains "jget r ''op'' = JStr ''insert''" | "jget r ''op'' = JStr ''evict''"
  | "jget r ''op'' = JStr ''supersede''" | "jget r ''op'' = JStr ''surface''"
  | "jget r ''op'' = JStr ''lookup''"
  using assms unfolding memory_ops_def by blast

lemma memory_step_skip:
  "\<not> (truthy (jget r ''key'') \<and> jget r ''op'' \<in> memory_ops) \<Longrightarrow> memory_step st (JObj r) = Inr st"
  by (auto simp: memory_step_def memory_ops_def Let_def)

lemma memory_step_op:
  assumes "truthy (jget r ''key'')" "jget r ''op'' \<in> memory_ops"
  shows "(\<exists>st'. memory_step st (JObj r) = Inr st') \<longleftrightarrow> mem_ok (JObj r)"
  using assms(2)
  by (rule memory_opsE)
     (cases "hash_key (jget r ''key'')"; cases "surface_where r"; cases "surface_ts r";
      simp add: memory_step_def assms(1) memory_ops_def Let_def)+

lemma memory_step_view:
  assumes "memory_step st (JObj r) = Inr st'" "truthy (jget r ''key'')" "jget r ''op'' \<in> memory_ops"
    and "hash_key (jget r ''key'') = Inr k"
  shows "mem_view st' k' = (if k' = k then mem_op (JObj r) (mem_view st k') else mem_view st k')"
  using assms(3)
proof (rule memory_opsE)
  assume op: "jget r ''op'' = JStr ''surface''"
  obtain w t where w: "surface_where r = Inr w" "surface_ts r = Inr t"
    using assms(1)
    by (cases "surface_where r"; cases "surface_ts r") (simp_all add: memory_step_def assms(2,4) op Let_def)
  have "st' = st\<lparr>surfaces := dset k (dget_or (surfaces st) k 0 + 1) (surfaces st),
                 surfaced_in := (if w \<noteq> [] then dset k (dget_or (surfaced_in st) k [] @ [JStr w]) (surfaced_in st)
                                 else surfaced_in st),
                 last_surfaced := (if dget_or (last_surfaced st) k [] < t
                                   then dset k t (last_surfaced st) else last_surfaced st)\<rparr>"
    using assms(1) by (simp add: memory_step_def assms(2,4) op Let_def w)
  then show ?thesis by (simp add: mem_view_def op w or_nil_def later_def)
qed (use assms(1) in \<open>auto simp: memory_step_def assms(2,4) Let_def mem_view_def\<close>)

interpretation mem: keyed_log memory_step mem_ok mem_key mem_view mem_op
proof unfold_locales
  fix st j
  show "(\<exists>s'. memory_step st j = Inr s') \<longleftrightarrow> mem_ok j"
  proof (cases j)
    case (JObj r)
    then show ?thesis
      using memory_step_op [of r st] memory_step_skip [of r st] by auto
  qed (auto simp: memory_step_def)
next
  fix st j s' k'
  assume step: "memory_step st j = Inr s'"
  then obtain r where j: "j = JObj r" by (cases j) (auto simp: memory_step_def)
  show "mem_view s' k' = (if mem_key j = Some k' then mem_op j (mem_view st k') else mem_view st k')"
  proof (cases "truthy (jget r ''key'') \<and> jget r ''op'' \<in> memory_ops")
    case True
    then have "mem_ok (JObj r)" using memory_step_op step j by blast
    then obtain k where k: "hash_key (jget r ''key'') = Inr k" using True by auto
    then have "mem_key j = Some k" using True by (simp add: j)
    then show ?thesis using memory_step_view [OF step [unfolded j] _ _ k] True j by auto
  next
    case False
    then have "mem_key j = None" unfolding j mem_key.simps by (rule if_not_P)
    then show ?thesis using memory_step_skip [OF False] step j by simp
  qed
qed

lemma finish_memory_view:
  "dget (finish_memory st) k = (case mem_view st k of (it, n, ss, ts, lk) \<Rightarrow> map_option (annotate n ss ts lk) it)"
  by (simp add: finish_memory_def mem_view_def)

definition mem_replay :: "pykey \<Rightarrow> json list \<Rightarrow> mem_view" where
  "mem_replay k rs = foldl (\<lambda>v r. mem_op r v) (None, 0, [], [], 0) (mem.on_key k rs)"

lemma fold_memory_key:
  assumes "fold_memory fb f = Inr d"
  shows "dget d k = (case mem_replay k (recs (memory_lines fb f)) of
     (it, n, ss, ts, lk) \<Rightarrow> map_option (annotate n ss ts lk) it)"
proof -
  obtain st where st: "py_fold memory_step empty_memory (recs (memory_lines fb f)) = Inr st" "d = finish_memory st"
    using assms by (auto simp: fold_memory_def py_bind_eq_Inr)
  have "mem_view empty_memory k = (None, 0, [], [], 0)" by (simp add: mem_view_def empty_memory_def)
  then show ?thesis
    using mem.replay_view [OF st(1), of k] st(2) by (simp add: finish_memory_view mem_replay_def)
qed

section \<open>What the replay computes\<close>

definition mem_is :: "string \<Rightarrow> json \<Rightarrow> bool" where
  "mem_is o' j = (jget (obj_of j) ''op'' = JStr o')"

definition ops_of :: "string \<Rightarrow> pykey \<Rightarrow> json list \<Rightarrow> json list" where
  "ops_of o' k rs = filter (\<lambda>j. mem_key j = Some k \<and> mem_is o' j) rs"

text \<open>The last record that inserts or removes the key, when it is an insertion.\<close>

definition last_insert :: "pykey \<Rightarrow> json list \<Rightarrow> jobj option" where
  "last_insert k rs =
     (let ws = filter (\<lambda>j. mem_key j = Some k \<and> (mem_is ''insert'' j \<or> mem_is ''evict'' j \<or> mem_is ''supersede'' j)) rs
      in if ws \<noteq> [] \<and> mem_is ''insert'' (last ws) then Some (obj_of (last ws)) else None)"

lemma mem_replay_snoc:
  "mem_replay k (rs @ [j]) = (if mem_key j = Some k then mem_op j (mem_replay k rs) else mem_replay k rs)"
  by (simp add: mem_replay_def mem.on_key_def)

lemma mem_keyD: "mem_key j = Some k \<Longrightarrow> \<exists>r. j = JObj r \<and> jget r ''op'' \<in> memory_ops"
  by (cases j) (auto split: if_splits)

lemma mem_replay_spec:
  "\<exists>ss ts. mem_replay k rs = (last_insert k rs, int (length (ops_of ''surface'' k rs)), ss, ts,
      int (length (ops_of ''lookup'' k rs)))
    \<and> ts = foldl later [] (List.map (\<lambda>j. or_nil (surface_ts (obj_of j))) (ops_of ''surface'' k rs))
    \<and> ss = List.map JStr (filter (\<lambda>w. w \<noteq> []) (List.map (\<lambda>j. or_nil (surface_where (obj_of j))) (ops_of ''surface'' k rs)))"
proof (induction rs rule: rev_induct)
  case Nil
  then show ?case by (simp add: mem_replay_def mem.on_key_def last_insert_def ops_of_def)
next
  case (snoc j rs)
  then obtain ss ts where IH: "mem_replay k rs = (last_insert k rs, int (length (ops_of ''surface'' k rs)), ss, ts,
      int (length (ops_of ''lookup'' k rs)))"
     "ts = foldl later [] (List.map (\<lambda>j. or_nil (surface_ts (obj_of j))) (ops_of ''surface'' k rs))"
     "ss = List.map JStr (filter (\<lambda>w. w \<noteq> []) (List.map (\<lambda>j. or_nil (surface_where (obj_of j))) (ops_of ''surface'' k rs)))"
    by blast
  show ?case
  proof (cases "mem_key j = Some k")
    case False
    then show ?thesis using IH by (simp add: mem_replay_snoc last_insert_def ops_of_def)
  next
    case True
    then obtain r where r: "j = JObj r" "jget r ''op'' \<in> memory_ops" using mem_keyD by blast
    note key = True [unfolded r(1)]
    from r(2) show ?thesis
      by (rule memory_opsE)
         (simp_all add: mem_replay_snoc key IH r(1) mem_is_def last_insert_def ops_of_def Let_def
            del: mem_key.simps)
  qed
qed

section \<open>Properties\<close>

text \<open>What the memory holds. Replaying a log that parses never fails on records it accepts, and an
  item is live exactly when the last record that inserted, evicted or superseded its key inserted it;
  it then has that record's content, and its counters are the number of times it was raised and looked
  up anywhere in the log, before or after the insertion.\<close>

theorem memory_fold_meets_spec:
  assumes "\<forall>j \<in> set (recs (memory_lines fb f)). mem_ok j"
  shows "\<exists>d. fold_memory fb f = Inr d \<and> (\<forall>k. case last_insert k (recs (memory_lines fb f)) of
      None \<Rightarrow> dget d k = None
    | Some r \<Rightarrow> \<exists>q. dget d k = Some q
        \<and> count_field ''surface_count'' q = int (length (ops_of ''surface'' k (recs (memory_lines fb f))))
        \<and> count_field ''lookup_count'' q = int (length (ops_of ''lookup'' k (recs (memory_lines fb f))))
        \<and> (\<forall>x. x \<notin> {''surface_count'', ''surfaced_in_sessions'', ''last_surfaced_ts'', ''lookup_count''}
             \<longrightarrow> jget q x = jget r x))"
proof -
  obtain st where "py_fold memory_step empty_memory (recs (memory_lines fb f)) = Inr st"
    using mem.replay_ok [of empty_memory "recs (memory_lines fb f)"] assms by blast
  then obtain d where d: "fold_memory fb f = Inr d" by (simp add: fold_memory_def)
  have "case last_insert k (recs (memory_lines fb f)) of
      None \<Rightarrow> dget d k = None
    | Some r \<Rightarrow> \<exists>q. dget d k = Some q
        \<and> count_field ''surface_count'' q = int (length (ops_of ''surface'' k (recs (memory_lines fb f))))
        \<and> count_field ''lookup_count'' q = int (length (ops_of ''lookup'' k (recs (memory_lines fb f))))
        \<and> (\<forall>x. x \<notin> {''surface_count'', ''surfaced_in_sessions'', ''last_surfaced_ts'', ''lookup_count''}
             \<longrightarrow> jget q x = jget r x)" for k
  proof -
    obtain ss ts where s: "mem_replay k (recs (memory_lines fb f)) = (last_insert k (recs (memory_lines fb f)),
        int (length (ops_of ''surface'' k (recs (memory_lines fb f)))), ss, ts,
        int (length (ops_of ''lookup'' k (recs (memory_lines fb f)))))"
      using mem_replay_spec [of k "recs (memory_lines fb f)"] by blast
    then show ?thesis
      using fold_memory_key [OF d, of k]
      by (cases "last_insert k (recs (memory_lines fb f))")
         (simp_all add: annotate_def count_field_def jget_or_simps)
  qed
  then show ?thesis using d by blast
qed

definition memory_sample :: logfile where
  "memory_sample = Some (Parsed
     [Rec (JObj [(''op'', JStr ''surface''), (''key'', JStr ''a''), (''ts'', JStr ''2'')]),
      Rec (JObj [(''op'', JStr ''insert''), (''key'', JStr ''a''), (''kind'', JStr ''ask''), (''ask_kind'', JStr ''meta'')]),
      Rec (JObj [(''op'', JStr ''insert''), (''key'', JStr ''b''), (''kind'', JStr ''ask'')]),
      Rec (JObj [(''op'', JStr ''evict''), (''key'', JStr ''b'')])])"

theorem memory_fold_meets_spec_witness:
  "\<exists>d. fold_memory None memory_sample = Inr d
    \<and> (\<exists>q. dget d (KStr ''a'') = Some q \<and> count_field ''surface_count'' q = 1) \<and> dget d (KStr ''b'') = None"
proof -
  have ok: "\<forall>j \<in> set (recs (memory_lines None memory_sample)). mem_ok j"
    by (simp add: memory_lines_def memory_sample_def memory_ops_def surface_where_def surface_ts_def
      strip_or_empty_def py_or_def)
  have a: "last_insert (KStr ''a'') (recs (memory_lines None memory_sample))
      = Some [(''op'', JStr ''insert''), (''key'', JStr ''a''), (''kind'', JStr ''ask''), (''ask_kind'', JStr ''meta'')]"
    by (simp add: last_insert_def memory_lines_def memory_sample_def memory_ops_def mem_is_def Let_def)
  have b: "last_insert (KStr ''b'') (recs (memory_lines None memory_sample)) = None"
    by (simp add: last_insert_def memory_lines_def memory_sample_def memory_ops_def mem_is_def Let_def)
  have n: "length (ops_of ''surface'' (KStr ''a'') (recs (memory_lines None memory_sample))) = 1"
    by (simp add: ops_of_def memory_lines_def memory_sample_def memory_ops_def mem_is_def)
  obtain d where d: "fold_memory None memory_sample = Inr d"
    and spec: "\<forall>k. case last_insert k (recs (memory_lines None memory_sample)) of
      None \<Rightarrow> dget d k = None
    | Some r \<Rightarrow> \<exists>q. dget d k = Some q
        \<and> count_field ''surface_count'' q = int (length (ops_of ''surface'' k (recs (memory_lines None memory_sample))))
        \<and> count_field ''lookup_count'' q = int (length (ops_of ''lookup'' k (recs (memory_lines None memory_sample))))
        \<and> (\<forall>x. x \<notin> {''surface_count'', ''surfaced_in_sessions'', ''last_surfaced_ts'', ''lookup_count''}
             \<longrightarrow> jget q x = jget r x)"
    using memory_fold_meets_spec [OF ok] by blast
  show ?thesis
    using d spec [rule_format, of "KStr ''a''"] spec [rule_format, of "KStr ''b''"] a b n by auto
qed

lemma later_Max: "foldl later a xs = Max (insert a (set xs))"
proof (induction xs arbitrary: a)
  case (Cons x xs)
  have "later a x = max a x" by (auto simp: later_def max_def)
  then show ?case using Cons by (cases "set xs = {}") (simp_all add: max.assoc)
qed simp

lemma folded_counts:
  assumes "fold_memory fb f = Inr d" "dget d k = Some q"
  shows "count_field ''surface_count'' q = int (length (ops_of ''surface'' k (recs (memory_lines fb f))))"
    "count_field ''lookup_count'' q = int (length (ops_of ''lookup'' k (recs (memory_lines fb f))))"
    "last_raised q = Max (insert [] ((\<lambda>j. or_nil (surface_ts (obj_of j))) `
        set (ops_of ''surface'' k (recs (memory_lines fb f)))))"
proof -
  obtain ss ts where s: "mem_replay k (recs (memory_lines fb f)) = (last_insert k (recs (memory_lines fb f)),
      int (length (ops_of ''surface'' k (recs (memory_lines fb f)))), ss, ts,
      int (length (ops_of ''lookup'' k (recs (memory_lines fb f)))))"
    "ts = foldl later [] (List.map (\<lambda>j. or_nil (surface_ts (obj_of j))) (ops_of ''surface'' k (recs (memory_lines fb f))))"
    using mem_replay_spec [of k "recs (memory_lines fb f)"] by blast
  then obtain it where "q = annotate (int (length (ops_of ''surface'' k (recs (memory_lines fb f))))) ss ts
      (int (length (ops_of ''lookup'' k (recs (memory_lines fb f))))) it"
    using assms fold_memory_key [OF assms(1), of k] by auto
  then show "count_field ''surface_count'' q = int (length (ops_of ''surface'' k (recs (memory_lines fb f))))"
    "count_field ''lookup_count'' q = int (length (ops_of ''lookup'' k (recs (memory_lines fb f))))"
    "last_raised q = Max (insert [] ((\<lambda>j. or_nil (surface_ts (obj_of j))) `
        set (ops_of ''surface'' k (recs (memory_lines fb f)))))"
    by (simp_all add: annotate_def count_field_def last_raised_def s(2) later_Max)
qed

text \<open>The record of what was raised does not depend on the order of the log. Two logs with the same
  records in any order give an item that is live in both the same number of raises and look-ups and
  the same time of the last raise, so re-inserting or interleaving records never resets them.\<close>

theorem raise_record_order_independent:
  assumes "mset (recs (memory_lines fb f)) = mset (recs (memory_lines fb' g))"
    and "fold_memory fb f = Inr d" "fold_memory fb' g = Inr e"
    and "dget d k = Some q" "dget e k = Some p"
  shows "count_field ''surface_count'' q = count_field ''surface_count'' p
    \<and> count_field ''lookup_count'' q = count_field ''lookup_count'' p
    \<and> last_raised q = last_raised p"
proof -
  have "mset (ops_of op k (recs (memory_lines fb f))) = mset (ops_of op k (recs (memory_lines fb' g)))" for op
    unfolding ops_of_def mset_filter assms(1) ..
  then have "length (ops_of op k (recs (memory_lines fb f))) = length (ops_of op k (recs (memory_lines fb' g)))"
    "set (ops_of op k (recs (memory_lines fb f))) = set (ops_of op k (recs (memory_lines fb' g)))" for op
    using mset_eq_length mset_eq_setD by blast+
  then show ?thesis
    by (simp add: folded_counts [OF assms(2,4)] folded_counts [OF assms(3,5)])
qed

theorem raise_record_order_independent_witness:
  "\<exists>d q. fold_memory None (Some (Parsed (rev (log_lines memory_sample)))) = Inr d
    \<and> dget d (KStr ''a'') = Some q \<and> count_field ''surface_count'' q = 1"
proof -
  let ?g = "Some (Parsed (rev (log_lines memory_sample)))"
  have m: "mset (recs (memory_lines None memory_sample)) = mset (recs (memory_lines None ?g))"
    by (simp add: memory_lines_def memory_sample_def)
  have "fold_memory None memory_sample = Inr [(KStr ''a'',
      [(''op'', JStr ''insert''), (''key'', JStr ''a''), (''kind'', JStr ''ask''), (''ask_kind'', JStr ''meta''),
       (''surface_count'', JInt 1), (''surfaced_in_sessions'', JList []), (''last_surfaced_ts'', JStr ''2''),
       (''lookup_count'', JInt 0)])]"
    by code_simp
  moreover have "fold_memory None ?g = Inr [(KStr ''b'',
      [(''op'', JStr ''insert''), (''key'', JStr ''b''), (''kind'', JStr ''ask''),
       (''surface_count'', JInt 0), (''surfaced_in_sessions'', JList []), (''last_surfaced_ts'', JStr []),
       (''lookup_count'', JInt 0)]), (KStr ''a'',
      [(''op'', JStr ''insert''), (''key'', JStr ''a''), (''kind'', JStr ''ask''), (''ask_kind'', JStr ''meta''),
       (''surface_count'', JInt 1), (''surfaced_in_sessions'', JList []), (''last_surfaced_ts'', JStr ''2''),
       (''lookup_count'', JInt 0)])]"
    by code_simp
  ultimately show ?thesis
    using raise_record_order_independent [OF m, of _ _ "KStr ''a''"] by (auto simp: count_field_def)
qed

text \<open>Which questions may be raised next. Every question offered is an open ask of the memory, it is
  about herself or about the speaker, a speaker question only while it was raised fewer times than the
  ceiling, and none was raised within the re-ask gap; at most \<open>limit\<close> are offered. A question about
  herself that qualifies but is not offered was raised at least as often as every one offered, and if
  one is left out then no speaker question is offered.\<close>

theorem surfaceable_fair_and_paced:
  "length (surfaceable_of fromiso now ceil limit gap rs) \<le> limit
   \<and> (\<forall>r \<in> set (surfaceable_of fromiso now ceil limit gap rs).
        r \<in> set rs \<and> jget r ''kind'' = JStr ''ask''
        \<and> (jget r ''ask_kind'' = JStr ''meta'' \<or>
            jget r ''ask_kind'' = JStr ''user'' \<and> count_field ''surface_count'' r < ceil)
        \<and> (0 < gap \<longrightarrow> at_least (hours_since fromiso now (last_raised r)) gap))
   \<and> (\<forall>q \<in> set rs. jget q ''kind'' = JStr ''ask'' \<and> jget q ''ask_kind'' = JStr ''meta''
        \<and> (0 < gap \<longrightarrow> at_least (hours_since fromiso now (last_raised q)) gap)
        \<and> q \<notin> set (surfaceable_of fromiso now ceil limit gap rs)
        \<longrightarrow> (\<forall>r \<in> set (surfaceable_of fromiso now ceil limit gap rs).
              jget r ''ask_kind'' = JStr ''meta'' \<and> raise_order r \<le> raise_order q))"
proof -
  define asks where "asks = (if 0 < gap
      then filter (\<lambda>r. at_least (hours_since fromiso now (last_raised r)) gap) (of_kind ''ask'' rs)
      else of_kind ''ask'' rs)"
  define ms where "ms = sort_key raise_order (filter (\<lambda>r. jget r ''ask_kind'' = JStr ''meta'') asks)"
  define us where "us = sort_key raise_order
      (filter (\<lambda>r. jget r ''ask_kind'' = JStr ''user'' \<and> count_field ''surface_count'' r < ceil) asks)"
  have out: "surfaceable_of fromiso now ceil limit gap rs = take limit (ms @ us)"
    by (simp add: surfaceable_of_def Let_def asks_def ms_def us_def)
  have asks: "r \<in> set asks \<longleftrightarrow> r \<in> set rs \<and> jget r ''kind'' = JStr ''ask''
      \<and> (0 < gap \<longrightarrow> at_least (hours_since fromiso now (last_raised r)) gap)" for r
    by (auto simp: asks_def of_kind_def)
  have "r \<in> set rs \<and> jget r ''kind'' = JStr ''ask''
        \<and> (jget r ''ask_kind'' = JStr ''meta'' \<or>
            jget r ''ask_kind'' = JStr ''user'' \<and> count_field ''surface_count'' r < ceil)
        \<and> (0 < gap \<longrightarrow> at_least (hours_since fromiso now (last_raised r)) gap)"
    if "r \<in> set (take limit (ms @ us))" for r
    using in_set_takeD [OF that] by (auto simp: ms_def us_def asks)
  moreover have "jget r ''ask_kind'' = JStr ''meta'' \<and> raise_order r \<le> raise_order q"
    if q: "q \<in> set asks" "jget q ''ask_kind'' = JStr ''meta''" "q \<notin> set (take limit (ms @ us))"
      and r: "r \<in> set (take limit (ms @ us))" for q r
  proof -
    have "q \<in> set ms" using q(1,2) by (simp add: ms_def)
    then obtain j where j: "j < length ms" "ms ! j = q" by (auto simp: in_set_conv_nth)
    have lj: "limit \<le> j"
    proof (rule ccontr)
      assume "\<not> limit \<le> j"
      then have "take limit (ms @ us) ! j = q" "j < length (take limit (ms @ us))"
        using j by (auto simp: nth_append)
      then show False using q(3) by (metis nth_mem)
    qed
    then have "take limit (ms @ us) = take limit ms" using j(1) by simp
    then obtain i where i: "i < limit" "i < length ms" "ms ! i = r"
      using r by (auto simp: in_set_conv_nth)
    have "sorted (List.map raise_order ms)" by (simp add: ms_def)
    then have "raise_order (ms ! i) \<le> raise_order (ms ! j)"
      using sorted_nth_mono [of "List.map raise_order ms" i j] i j(1) lj by simp
    moreover have "jget r ''ask_kind'' = JStr ''meta''"
      using i nth_mem [of i ms] by (auto simp: ms_def)
    ultimately show ?thesis using i(3) j(2) by simp
  qed
  ultimately show ?thesis unfolding out using asks by auto
qed

theorem surfaceable_fair_and_paced_witness:
  "length (surfaceable_of (\<lambda>_. None) 0 3 1 0
      [[(''kind'', JStr ''ask''), (''ask_kind'', JStr ''meta''), (''surface_count'', JInt 2)],
       [(''kind'', JStr ''ask''), (''ask_kind'', JStr ''meta'')]]) \<le> 1
   \<and> surfaceable_of (\<lambda>_. None) 0 3 1 0
      [[(''kind'', JStr ''ask''), (''ask_kind'', JStr ''meta''), (''surface_count'', JInt 2)],
       [(''kind'', JStr ''ask''), (''ask_kind'', JStr ''meta'')]]
     = [[(''kind'', JStr ''ask''), (''ask_kind'', JStr ''meta'')]]"
proof -
  have "surfaceable_of (\<lambda>_. None) 0 3 1 0
      [[(''kind'', JStr ''ask''), (''ask_kind'', JStr ''meta''), (''surface_count'', JInt 2)],
       [(''kind'', JStr ''ask''), (''ask_kind'', JStr ''meta'')]]
     = [[(''kind'', JStr ''ask''), (''ask_kind'', JStr ''meta'')]]"
    by code_simp
  then show ?thesis
    using surfaceable_fair_and_paced [of "\<lambda>_. None" 0 3 1 0
      "[[(''kind'', JStr ''ask''), (''ask_kind'', JStr ''meta''), (''surface_count'', JInt 2)],
        [(''kind'', JStr ''ask''), (''ask_kind'', JStr ''meta'')]]"] by blast
qed

end
