(* ===== verification/Worklog.thy ===== *)
theory Worklog
  imports Json
begin

text \<open>
  \<open>server/inference/core/worklog.py\<close>: the durable episode log. The module's globals are a record; the
  file's append is best effort, so whether it succeeds is an argument of \<open>record_episode\<close>.
\<close>

record worklog =
  entries :: "json list"
  last_id :: int
  logfile :: logfile

section \<open>Loading\<close>

definition entry_id :: "json \<Rightarrow> int py" where
  "entry_id e = py_bind (as_dict e) (\<lambda>r. py_int_of (py_or (jget_or r ''id'' (JInt 0)) (JInt 0)))"

text \<open>A line that parses to something without a readable id ends the loading: its exception leaves the loop.\<close>

fun load_entries :: "json list \<Rightarrow> json list \<Rightarrow> int \<Rightarrow> json list \<times> int" where
  "load_entries [] acc i = (acc, i)"
| "load_entries (e # es) acc i =
     (case entry_id e of Inl _ \<Rightarrow> (acc @ [e], i) | Inr n \<Rightarrow> load_entries es (acc @ [e]) (max i n))"

definition configure :: "logfile \<Rightarrow> worklog" where
  "configure f = (case load_entries (recs (log_lines f)) [] 0 of
     (es, i) \<Rightarrow> \<lparr>entries = es, last_id = i, logfile = f\<rparr>)"

section \<open>Writing\<close>

definition kinds :: "string list" where
  "kinds = [''conversation'', ''wander'', ''outreach'', ''synthesis'', ''checkin'', ''reflection'',
     ''encounter'', ''aha'', ''pivot'', ''prompt'']"

definition episode ::
  "string \<Rightarrow> int \<Rightarrow> string \<Rightarrow> string \<Rightarrow> jobj \<Rightarrow> string \<Rightarrow> int \<Rightarrow> rat option \<Rightarrow> jobj" where
  "episode ts i kind summary refs opens closes salience =
     [(''id'', JInt i), (''ts'', JStr ts),
      (''kind'', JStr (if kind \<in> set kinds then kind else ''conversation'')),
      (''summary'', JStr (py_strip summary))]
     @ (if refs = [] then [] else [(''refs'', JObj (filter (\<lambda>(k, v). truthy v) refs))])
     @ (if opens = [] then [] else [(''opens'', JStr (py_strip opens))])
     @ (if closes = 0 then [] else [(''closes'', JInt closes)])
     @ (case salience of None \<Rightarrow> [] | Some x \<Rightarrow> [(''salience'', JFloat x)])"

definition record_episode ::
  "bool \<Rightarrow> string \<Rightarrow> string \<Rightarrow> string \<Rightarrow> jobj \<Rightarrow> string \<Rightarrow> int \<Rightarrow> rat option \<Rightarrow> worklog \<Rightarrow> jobj \<times> worklog" where
  "record_episode persisted ts kind summary refs opens closes salience w =
     (let i = last_id w + 1; e = episode ts i kind summary refs opens closes salience in
      (e, \<lparr>entries = entries w @ [JObj e], last_id = i,
           logfile = (if persisted then log_append e (logfile w) else logfile w)\<rparr>))"

section \<open>Reading\<close>

definition recent :: "int \<Rightarrow> worklog \<Rightarrow> json list" where
  "recent n w = (if n = 0 then entries w
     else if 0 < n then drop (length (entries w) - nat n) (entries w) else drop (nat (- n)) (entries w))"

fun json_num :: "json \<Rightarrow> rat py" where
  "json_num (JInt n) = Inr (of_int n)"
| "json_num (JFloat x) = Inr x"
| "json_num (JBool b) = Inr (if b then 1 else 0)"
| "json_num _ = Inl TypeError"

definition since :: "int \<Rightarrow> worklog \<Rightarrow> json list py" where
  "since after w =
     py_fold (\<lambda>out e. py_bind (as_dict e) (\<lambda>r. py_bind (json_num (jget_or r ''id'' (JInt 0)))
       (\<lambda>n. Inr (if of_int after < n then out @ [e] else out)))) [] (entries w)"

definition closed_ids :: "worklog \<Rightarrow> pykey list py" where
  "closed_ids w =
     py_fold (\<lambda>out e. py_bind (as_dict e) (\<lambda>r.
       if truthy (jget r ''closes'') then py_bind (hash_key (jget r ''closes'')) (\<lambda>k. Inr (k # out))
       else Inr out)) [] (entries w)"

definition open_threads :: "worklog \<Rightarrow> json list py" where
  "open_threads w =
     py_bind (closed_ids w) (\<lambda>closed.
       py_fold (\<lambda>out e. py_bind (as_dict e) (\<lambda>r.
         if truthy (jget r ''opens'') then
           (case dget r ''id'' of None \<Rightarrow> Inl KeyError
            | Some i \<Rightarrow> py_bind (hash_key i) (\<lambda>k. Inr (if k \<in> set closed then out else out @ [e])))
         else Inr out)) [] (entries w))"

section \<open>Logs written by the module itself\<close>

text \<open>What a sequence of recorded episodes looks like: consecutive ids, each a well-formed episode.\<close>

definition own_entry :: "int \<Rightarrow> json \<Rightarrow> bool" where
  "own_entry i j = (is_obj j \<and> dget (obj_of j) ''id'' = Some (JInt i)
     \<and> (jget (obj_of j) ''closes'' = JNull \<or> (\<exists>n. jget (obj_of j) ''closes'' = JInt n)))"

definition own_log :: "worklog \<Rightarrow> bool" where
  "own_log w = (readable (logfile w) \<and> recs (log_lines (logfile w)) = entries w
     \<and> last_id w = int (length (entries w))
     \<and> (\<forall>n < length (entries w). own_entry (int n + 1) (entries w ! n)))"

lemma episode_id: "dget (episode ts i k s r op cl sa) ''id'' = Some (JInt i)"
  by (simp add: episode_def)

lemma episode_closes: "jget (episode ts i k s r op cl sa) ''closes'' = (if cl = 0 then JNull else JInt cl)"
  by (simp add: episode_def split: option.splits)

lemma own_entries: "own_log w \<Longrightarrow> \<forall>e \<in> set (entries w). \<exists>i. own_entry i e"
  unfolding own_log_def by (metis in_set_conv_nth)

lemma own_log_empty: "own_log (configure None)"
  by (simp add: own_log_def configure_def readable_def)

lemma own_log_record:
  assumes "own_log w"
  shows "own_log (snd (record_episode True ts k s r op cl sa w))"
proof -
  have "own_entry (last_id w + 1) (JObj (episode ts (last_id w + 1) k s r op cl sa))"
    by (simp add: own_entry_def episode_id episode_closes)
  then show ?thesis
    using assms by (auto simp: own_log_def record_episode_def Let_def nth_append less_Suc_eq)
qed

lemma load_own:
  "\<forall>n < length es. own_entry (i + int n + 1) (es ! n) \<Longrightarrow> 0 \<le> i \<Longrightarrow>
   load_entries es acc i = (acc @ es, i + int (length es))"
proof (induction es arbitrary: acc i)
  case (Cons e es)
  have "own_entry (i + 1) e" using Cons.prems(1) by (elim allE [of _ 0]) simp
  then have "entry_id e = Inr (i + 1)"
    using Cons.prems(2) by (cases e) (auto simp: own_entry_def entry_id_def jget_or_eq py_or_def)
  moreover have "\<forall>n < length es. own_entry (i + 1 + int n + 1) (es ! n)"
  proof (intro allI impI)
    fix n assume "n < length es"
    then show "own_entry (i + 1 + int n + 1) (es ! n)"
      using Cons.prems(1) [rule_format, of "Suc n"] by (simp add: algebra_simps)
  qed
  ultimately show ?case using Cons.IH [of "i + 1" "acc @ [e]"] Cons.prems(2) by simp
qed simp

lemma own_log_configure: "own_log w \<Longrightarrow> configure (logfile w) = w"
  using load_own [of "entries w" 0 "[]"] by (cases w) (auto simp: own_log_def configure_def)

text \<open>Any number of episodes recorded after a fresh start, each persisted.\<close>

inductive worklog_run :: "worklog \<Rightarrow> bool" where
  fresh: "worklog_run (configure None)"
| episode: "worklog_run w \<Longrightarrow> worklog_run (snd (record_episode True ts k s r op cl sa w))"
| restart: "worklog_run w \<Longrightarrow> worklog_run (configure (logfile w))"

lemma worklog_run_own: "worklog_run w \<Longrightarrow> own_log w"
  by (induction rule: worklog_run.induct) (simp_all add: own_log_empty own_log_record own_log_configure)

text \<open>A restart loses nothing and reuses no id. After any sequence of recorded episodes and restarts,
  loading the file gives back exactly the state the module had, the ids in the history are 1, 2, 3 and
  so on without a gap, and the next episode gets the id after the last.\<close>

theorem restart_continues_history:
  assumes "worklog_run w"
  shows "configure (logfile w) = w
    \<and> List.map (\<lambda>e. dget (obj_of e) ''id'') (entries w) = List.map (\<lambda>n. Some (JInt (int n + 1))) [0..<length (entries w)]
    \<and> dget (fst (record_episode p ts k s r op cl sa (configure (logfile w)))) ''id'' = Some (JInt (int (length (entries w)) + 1))"
proof -
  have own: "own_log w" using assms by (rule worklog_run_own)
  then have "List.map (\<lambda>e. dget (obj_of e) ''id'') (entries w) = List.map (\<lambda>n. Some (JInt (int n + 1))) [0..<length (entries w)]"
    by (intro nth_equalityI) (auto simp: own_log_def own_entry_def)
  moreover have "last_id w = int (length (entries w))" using own by (simp add: own_log_def)
  ultimately show ?thesis
    using own_log_configure [OF own] by (simp add: record_episode_def Let_def episode_id)
qed

theorem restart_continues_history_witness:
  "configure (logfile (snd (record_episode True ''t'' ''wander'' ''I read'' [] [] 0 None (configure None))))
   = snd (record_episode True ''t'' ''wander'' ''I read'' [] [] 0 None (configure None))"
  using restart_continues_history [of "snd (record_episode True ''t'' ''wander'' ''I read'' [] [] 0 None (configure None))"]
    worklog_run.intros by blast

section \<open>Open threads\<close>

lemma closed_ids_own:
  assumes "own_log w"
  shows "\<exists>ks. closed_ids w = Inr ks \<and>
    set ks = {KNum (of_int n) | n e. e \<in> set (entries w) \<and> jget (obj_of e) ''closes'' = JInt n \<and> n \<noteq> 0}"
proof -
  have "\<exists>ks. py_fold (\<lambda>out e. py_bind (as_dict e) (\<lambda>r.
       if truthy (jget r ''closes'') then py_bind (hash_key (jget r ''closes'')) (\<lambda>k. Inr (k # out))
       else Inr out)) acc es = Inr ks \<and>
    set ks = set acc \<union> {KNum (of_int n) | n e. e \<in> set es \<and> jget (obj_of e) ''closes'' = JInt n \<and> n \<noteq> 0}"
    if "\<forall>e \<in> set es. \<exists>i. own_entry i e" for es and acc :: "pykey list"
    using that
  proof (induction es arbitrary: acc)
    case (Cons e es)
    then obtain r where r: "e = JObj r" by (cases e) (auto simp: own_entry_def)
    then have "jget r ''closes'' = JNull \<or> (\<exists>n. jget r ''closes'' = JInt n)"
      using Cons.prems by (auto simp: own_entry_def)
    then consider (no) "\<not> truthy (jget r ''closes'')" "\<And>n. jget r ''closes'' = JInt n \<Longrightarrow> n = 0"
      | (yes) n where "jget r ''closes'' = JInt n" "n \<noteq> 0" by force
    then show ?case
    proof cases
      case no
      then show ?thesis using Cons.IH [of acc] Cons.prems by (fastforce simp: r)
    next
      case yes
      then show ?thesis using Cons.IH [of "KNum (of_int n) # acc"] Cons.prems by (fastforce simp: r)
    qed
  qed simp
  moreover have "\<forall>e \<in> set (entries w). \<exists>i. own_entry i e" using assms by (rule own_entries)
  ultimately show ?thesis unfolding closed_ids_def by fastforce
qed

text \<open>An open thread hangs until an episode closes it. In any history the module wrote, the open
  threads are exactly the episodes that opened a loop and whose id no episode of the history names as
  closed, in the order they were recorded.\<close>

theorem open_threads_meaning:
  assumes "worklog_run w"
  shows "open_threads w = Inr (filter (\<lambda>e. truthy (jget (obj_of e) ''opens'')
      \<and> \<not> (\<exists>c n. c \<in> set (entries w) \<and> jget (obj_of c) ''closes'' = JInt n \<and> n \<noteq> 0
            \<and> dget (obj_of e) ''id'' = Some (JInt n))) (entries w))"
proof -
  have own: "own_log w" using assms by (rule worklog_run_own)
  obtain ks where ks: "closed_ids w = Inr ks"
    "set ks = {KNum (of_int n) | n e. e \<in> set (entries w) \<and> jget (obj_of e) ''closes'' = JInt n \<and> n \<noteq> 0}"
    using closed_ids_own [OF own] by blast
  let ?P = "\<lambda>e. truthy (jget (obj_of e) ''opens'')
      \<and> \<not> (\<exists>c n. c \<in> set (entries w) \<and> jget (obj_of c) ''closes'' = JInt n \<and> n \<noteq> 0
            \<and> dget (obj_of e) ''id'' = Some (JInt n))"
  have "py_fold (\<lambda>out e. py_bind (as_dict e) (\<lambda>r.
         if truthy (jget r ''opens'') then
           (case dget r ''id'' of None \<Rightarrow> Inl KeyError
            | Some i \<Rightarrow> py_bind (hash_key i) (\<lambda>k. Inr (if k \<in> set ks then out else out @ [e])))
         else Inr out)) acc es = Inr (acc @ filter ?P es)"
    if "\<forall>e \<in> set es. \<exists>i. own_entry i e" for es acc
    using that
  proof (induction es arbitrary: acc)
    case (Cons e es)
    then obtain i where i: "own_entry i e" by auto
    then obtain r where r: "e = JObj r" "dget r ''id'' = Some (JInt i)" by (cases e) (auto simp: own_entry_def)
    have "KNum (of_int i) \<in> set ks \<longleftrightarrow>
        (\<exists>c n. c \<in> set (entries w) \<and> jget (obj_of c) ''closes'' = JInt n \<and> n \<noteq> 0 \<and> i = n)"
      unfolding ks(2) by auto
    then show ?case using Cons by (auto simp: r)
  qed simp
  moreover have "\<forall>e \<in> set (entries w). \<exists>i. own_entry i e" using own by (rule own_entries)
  ultimately show ?thesis by (simp add: open_threads_def ks(1))
qed

theorem open_threads_meaning_witness:
  "open_threads (snd (record_episode True ''t'' ''outreach'' ''I asked'' [] ''a reply'' 0 None (configure None)))
   = Inr [JObj [(''id'', JInt 1), (''ts'', JStr ''t''), (''kind'', JStr ''outreach''), (''summary'', JStr ''I asked''),
                (''opens'', JStr ''a reply'')]]"
proof -
  let ?w = "snd (record_episode True ''t'' ''outreach'' ''I asked'' [] ''a reply'' 0 None (configure None))"
  have "entries ?w = [JObj [(''id'', JInt 1), (''ts'', JStr ''t''), (''kind'', JStr ''outreach''), (''summary'', JStr ''I asked''),
                (''opens'', JStr ''a reply'')]]"
    by code_simp
  then show ?thesis using open_threads_meaning [of ?w] worklog_run.intros by simp
qed

end
