(* ===== verification/Housekeeping.thy ===== *)
theory Housekeeping
  imports Json "HOL-Library.List_Lexorder" "HOL-Library.Sublist"
begin

text \<open>
  \<open>server/inference/core/housekeeping.py\<close>: the nightly event. A local time is a number of seconds; the box's
  offset is fixed within one call, so the difference of two local times is the elapsed time. \<open>date\<close> writes a
  day number as an ISO date, \<open>ts\<close> the time of an append, \<open>fs\<close> and \<open>rp\<close> are Python's float from text and
  \<open>repr\<close>. The state directory is configured and its log can be read and appended to. A step is its name, the
  outcome its body has when it is called now, and its optional description.
\<close>

section \<open>Settings and the night clock\<close>

record hk_settings =
  hk_enabled :: bool
  hk_hour :: int
  hk_window_hours :: rat
  hk_idle_seconds :: rat

definition hk_num :: "(string \<Rightarrow> rat py) \<Rightarrow> jobj \<Rightarrow> string \<Rightarrow> rat \<Rightarrow> rat \<Rightarrow> rat \<Rightarrow> rat py" where
  "hk_num fs blk k d lo hi =
     (case (case dget blk k of None \<Rightarrow> Inr d | Some v \<Rightarrow> py_float fs v) of
        Inr x \<Rightarrow> Inr (min (max x lo) hi)
      | Inl TypeError \<Rightarrow> Inr d
      | Inl ValueError \<Rightarrow> Inr d
      | Inl e \<Rightarrow> Inl e)"

definition settings :: "(string \<Rightarrow> rat py) \<Rightarrow> jobj \<Rightarrow> hk_settings py" where
  "settings fs cfg =
     py_bind (as_dict (py_or (jget cfg ''housekeeping'') (JObj []))) (\<lambda>blk.
     py_bind (hk_num fs blk ''hour'' 4 0 23) (\<lambda>h.
     py_bind (hk_num fs blk ''window_hours'' 8 (1/4) 24) (\<lambda>w.
     py_bind (hk_num fs blk ''idle_seconds'' 1800 0 86400) (\<lambda>i.
       Inr \<lparr>hk_enabled = truthy (jget_or blk ''enabled'' (JBool True)), hk_hour = py_int h,
            hk_window_hours = w, hk_idle_seconds = i\<rparr>))))"

definition day_of :: "rat \<Rightarrow> int" where
  "day_of t = \<lfloor>t / 86400\<rfloor>"

definition night_start :: "rat \<Rightarrow> int \<Rightarrow> rat" where
  "night_start now hour =
     (let start = of_int (day_of now * 86400 + hour * 3600) in if now < start then start - 86400 else start)"

definition night_id :: "(int \<Rightarrow> string) \<Rightarrow> rat \<Rightarrow> int \<Rightarrow> string" where
  "night_id date now hour = date (day_of (night_start now hour))"

definition window_end :: "rat \<Rightarrow> hk_settings \<Rightarrow> rat" where
  "window_end now st = night_start now (hk_hour st) + hk_window_hours st * 3600"

definition in_window :: "rat \<Rightarrow> hk_settings \<Rightarrow> bool" where
  "in_window now st = (now - night_start now (hk_hour st) < hk_window_hours st * 3600)"

section \<open>The log of nights\<close>

definition read_records :: "logfile \<Rightarrow> jobj list" where
  "read_records f = List.map_filter (\<lambda>j. case j of JObj r \<Rightarrow> Some r | _ \<Rightarrow> None) (recs (log_lines f))"

definition append_record :: "string \<Rightarrow> jobj \<Rightarrow> logfile \<Rightarrow> logfile" where
  "append_record ts r f = log_append (dmerge [(''ts'', JStr ts)] r) f"

definition of_night :: "string \<Rightarrow> jobj list \<Rightarrow> jobj list" where
  "of_night night rs = filter (\<lambda>r. jget r ''night'' = JStr night) rs"

definition done_steps :: "(json \<Rightarrow> string) \<Rightarrow> string \<Rightarrow> jobj list \<Rightarrow> (string, jobj) dict" where
  "done_steps rp night rs = foldl (\<lambda>d r. dset (fstr rp (jget r ''step'')) r d) [] (of_night night rs)"

fun is_scalar :: "json \<Rightarrow> bool" where
  "is_scalar (JList _) = False"
| "is_scalar (JObj _) = False"
| "is_scalar _ = True"

fun clip_str :: "nat \<Rightarrow> json \<Rightarrow> json" where
  "clip_str n (JStr s) = JStr (take n s)"
| "clip_str n v = v"

definition compact :: "(json \<Rightarrow> string) \<Rightarrow> json \<Rightarrow> jobj" where
  "compact rp result =
     (case result of
        JObj d \<Rightarrow> List.map (\<lambda>(k, v). (k, clip_str 500 v)) (filter (\<lambda>(k, v). is_scalar v) d)
      | _ \<Rightarrow> [(''result'', JStr (take 200 (fstr rp result)))])"

definition due :: "(json \<Rightarrow> string) \<Rightarrow> (int \<Rightarrow> string) \<Rightarrow> hk_settings \<Rightarrow> nat \<Rightarrow> rat \<Rightarrow> logfile \<Rightarrow> bool" where
  "due rp date st n now f =
     (if \<not> hk_enabled st \<or> n = 0 then False
      else if \<not> in_window now st then False
      else ''night'' \<notin> set (dkeys (done_steps rp (night_id date now (hk_hour st)) (read_records f))))"

section \<open>Running a night\<close>

datatype outcome = Returned json | Raised string

record hk_step =
  st_name :: string
  st_outcome :: outcome
  st_describe :: "(jobj \<Rightarrow> string py) option"

definition step_result :: "outcome \<Rightarrow> jobj" where
  "step_result oc = (case oc of
      Raised e \<Rightarrow> [(''error'', JStr e)]
    | Returned (JObj d) \<Rightarrow> d
    | Returned v \<Rightarrow> [(''result'', v)])"

definition retry_skips :: "string list" where
  "retry_skips = [''preempted'', ''busy'', ''no_model'']"

definition skip_reason :: "(json \<Rightarrow> string) \<Rightarrow> jobj \<Rightarrow> string" where
  "skip_reason rp result = fstr rp (py_or (jget result ''skipped'') (JStr []))"

definition describe_step :: "(json \<Rightarrow> string) \<Rightarrow> string \<Rightarrow> (jobj \<Rightarrow> string py) option \<Rightarrow> jobj \<Rightarrow> string" where
  "describe_step rp name desc result =
     (case (case desc of None \<Rightarrow> [] | Some g \<Rightarrow> (case g result of Inr m \<Rightarrow> m | Inl _ \<Rightarrow> [])) of
        c # cs \<Rightarrow> c # cs
      | [] \<Rightarrow>
          if truthy (jget result ''error'') then name @ '' failed: '' @ fstr rp (jget result ''error'')
          else if truthy (jget result ''skipped'') then name @ '' skipped: '' @ fstr rp (jget result ''skipped'')
          else name @ '' finished'')"

definition step_record :: "(json \<Rightarrow> string) \<Rightarrow> string \<Rightarrow> hk_step \<Rightarrow> jobj" where
  "step_record rp night s =
     (let result = step_result (st_outcome s) in
      [(''night'', JStr night), (''step'', JStr (st_name s)), (''result'', JObj (compact rp (JObj result))),
       (''summary'', JStr (describe_step rp (st_name s) (st_describe s) result))])"

text \<open>The loop over the steps; the last component is the retry that left the night open.\<close>

fun run_steps ::
  "(json \<Rightarrow> string) \<Rightarrow> string \<Rightarrow> string \<Rightarrow> string list \<Rightarrow> hk_step list \<Rightarrow> logfile \<Rightarrow> (string, jobj) dict
   \<Rightarrow> logfile \<times> (string, jobj) dict \<times> (string \<times> string) option" where
  "run_steps rp ts night dn [] f rn = (f, rn, None)"
| "run_steps rp ts night dn (s # ss) f rn =
     (if st_name s \<in> set dn then run_steps rp ts night dn ss f rn
      else
        let result = step_result (st_outcome s); reason = skip_reason rp result in
        if reason \<in> set retry_skips then (f, rn, Some (reason, st_name s))
        else run_steps rp ts night dn ss (append_record ts (step_record rp night s) f) (dset (st_name s) result rn))"

datatype night_result =
    Skipped string
  | Skipped_night string string
  | Left_open string string string "(string, jobj) dict"
  | Finished string "(string, jobj) dict" "(string, string) dict"

definition run_night ::
  "(json \<Rightarrow> string) \<Rightarrow> (int \<Rightarrow> string) \<Rightarrow> string \<Rightarrow> hk_settings \<Rightarrow> bool \<Rightarrow> hk_step list \<Rightarrow> rat \<Rightarrow> logfile
   \<Rightarrow> night_result \<times> logfile" where
  "run_night rp date ts st active steps now f =
     (let night = night_id date now (hk_hour st) in
      if \<not> hk_enabled st then (Skipped ''disabled'', f)
      else if steps = [] then (Skipped ''no_steps'', f)
      else if \<not> in_window now st then (Skipped_night ''outside_window'' night, f)
      else if active then (Skipped ''busy'', f)
      else
        let dn = dkeys (done_steps rp night (read_records f)) in
        if ''night'' \<in> set dn then (Skipped_night ''finished'' night, f)
        else case run_steps rp ts night dn steps f [] of
            (f', rn, Some (reason, name)) \<Rightarrow> (Left_open reason night name rn, f')
          | (f', rn, None) \<Rightarrow>
              (Finished night rn
                 (foldl (\<lambda>d s. case dget rn (st_name s) of
                      None \<Rightarrow> d
                    | Some r \<Rightarrow> dset (st_name s) (describe_step rp (st_name s) (st_describe s) r) d) [] steps),
               append_record ts [(''night'', JStr night), (''step'', JStr ''night''),
                 (''steps'', JList (List.map JStr (sort (dkeys rn))))] f'))"

text \<open>The operator's view.\<close>

record hk_status =
  hs_night :: string
  hs_in_window :: bool
  hs_finished :: bool
  hs_done :: "(string, json) dict"
  hs_next_start :: rat
  hs_last_finished :: json

definition status ::
  "(json \<Rightarrow> string) \<Rightarrow> (int \<Rightarrow> string) \<Rightarrow> hk_settings \<Rightarrow> rat \<Rightarrow> logfile \<Rightarrow> hk_status" where
  "status rp date st now f =
     (let start = night_start now (hk_hour st); night = night_id date now (hk_hour st);
          rs = read_records f; dn = done_steps rp night rs;
          iw = in_window now st; fin = ''night'' \<in> set (dkeys dn)
      in \<lparr>hs_night = night, hs_in_window = iw, hs_finished = fin,
          hs_done = List.map (\<lambda>(k, r). (k, jget_or r ''summary'' (JStr []))) (filter (\<lambda>(k, r). k \<noteq> ''night'') dn),
          hs_next_start = (if fin \<or> \<not> iw then start + 86400 else start),
          hs_last_finished = (case find (\<lambda>r. jget r ''step'' = JStr ''night'') (rev rs) of
             None \<Rightarrow> JNull | Some r \<Rightarrow> jget r ''night'')\<rparr>)"

section \<open>The clock\<close>

lemma night_start_bounds:
  assumes "0 \<le> hour" "hour \<le> 23"
  shows "night_start now hour \<le> now" "now < night_start now hour + 86400"
    "\<exists>d. night_start now hour = of_int (d * 86400 + hour * 3600)" "day_of (night_start now hour) * 86400 \<le> \<lfloor>now\<rfloor>"
proof -
  define d where "d = day_of now"
  have d: "of_int d * 86400 \<le> now" "now < of_int d * 86400 + 86400"
    unfolding d_def day_of_def by linarith+
  have h: "(0::rat) \<le> of_int hour" "(of_int hour::rat) \<le> 23" using assms by simp_all
  have s: "night_start now hour = (if now < of_int d * 86400 + of_int hour * 3600
      then of_int d * 86400 + of_int hour * 3600 - 86400 else of_int d * 86400 + of_int hour * 3600)"
    by (simp add: night_start_def Let_def d_def)
  show le: "night_start now hour \<le> now" and "now < night_start now hour + 86400"
    unfolding s using d h by auto
  show "\<exists>d. night_start now hour = of_int (d * 86400 + hour * 3600)"
  proof (cases "now < of_int d * 86400 + of_int hour * 3600")
    case True
    then show ?thesis unfolding s by (intro exI [of _ "d - 1"]) (simp add: algebra_simps)
  next
    case False
    then show ?thesis unfolding s by (intro exI [of _ d]) simp
  qed
  have "of_int (day_of (night_start now hour)) * 86400 \<le> night_start now hour"
    unfolding day_of_def by linarith
  then show "day_of (night_start now hour) * 86400 \<le> \<lfloor>now\<rfloor>" using le by linarith
qed

text \<open>A night is one day long and has one name. The boundary of a time of day is at most a day behind
  it and lies at the configured hour, and two times belong to the same night exactly when no boundary
  separates them; a run in the window never lasts beyond the window's end.\<close>

theorem night_clock:
  assumes "0 \<le> hour" "hour \<le> 23" "now \<le> later"
  shows "night_start now hour \<le> now \<and> now < night_start now hour + 86400
    \<and> (night_start later hour = night_start now hour \<longleftrightarrow> later < night_start now hour + 86400)
    \<and> (hk_hour st = hour \<longrightarrow> in_window now st \<longrightarrow> now < window_end now st)"
proof -
  note b = night_start_bounds [OF assms(1,2)]
  have "night_start later hour = night_start now hour" if "later < night_start now hour + 86400"
  proof -
    obtain d e where de: "night_start now hour = of_int (d * 86400 + hour * 3600)"
      "night_start later hour = of_int (e * 86400 + hour * 3600)" using b(3) by metis
    have "night_start later hour < night_start now hour + 86400" "night_start now hour < night_start later hour + 86400"
      using b(1,2) [of later] b(1,2) [of now] that assms(3) by linarith+
    then have "e * 86400 + hour * 3600 < d * 86400 + hour * 3600 + 86400" "d * 86400 + hour * 3600 < e * 86400 + hour * 3600 + 86400"
      unfolding de by (simp_all only: of_int_less_iff [where ?'a = rat, symmetric] of_int_add of_int_numeral)
    then have "d = e" by linarith
    then show ?thesis by (simp add: de)
  qed
  then show ?thesis
    using b(1,2) [of now] b(2) [of later] by (auto simp: in_window_def window_end_def)
qed

theorem night_clock_witness:
  "night_start 262800 4 \<le> 262800 \<and> night_start 262800 4 = 187200"
proof -
  have "night_start 262800 4 = 187200" by code_simp
  then show ?thesis using night_clock [of 4 262800 262800 undefined] by simp
qed

section \<open>Every step once a night\<close>

definition night_steps :: "(json \<Rightarrow> string) \<Rightarrow> string \<Rightarrow> logfile \<Rightarrow> string list" where
  "night_steps rp night f = List.map (\<lambda>r. fstr rp (jget r ''step'')) (of_night night (read_records f))"

lemma read_records_append:
  "readable f \<Longrightarrow> read_records (append_record ts r f) = read_records f @ [dmerge [(''ts'', JStr ts)] r]"
  by (simp add: read_records_def append_record_def List.map_filter_def)

lemma readable_append_record [simp]: "readable (append_record ts r f) = readable f"
  by (simp add: append_record_def)

lemma done_keys: "set (dkeys (done_steps rp night rs)) = set (List.map (\<lambda>r. fstr rp (jget r ''step'')) (of_night night rs))"
proof -
  have "set (dkeys (foldl (\<lambda>d r. dset (g r) r d) d xs)) = set (dkeys d) \<union> g ` set xs"
    for g :: "jobj \<Rightarrow> string" and d :: "(string, jobj) dict" and xs
    by (induction xs arbitrary: d) (auto simp: dom_update)
  then show ?thesis by (simp add: done_steps_def)
qed

lemma step_record_fields:
  "jget (dmerge [(''ts'', JStr ts)] (step_record rp night s)) ''night'' = JStr night"
  "jget (dmerge [(''ts'', JStr ts)] (step_record rp night s)) ''step'' = JStr (st_name s)"
  by (simp_all add: step_record_def Let_def)

definition retries :: "(json \<Rightarrow> string) \<Rightarrow> hk_step \<Rightarrow> bool" where
  "retries rp s = (skip_reason rp (step_result (st_outcome s)) \<in> set retry_skips)"

text \<open>What the loop does: the unfinished steps up to the first that must be retried.\<close>

lemma run_steps_records:
  assumes "run_steps rp ts night dn ss f rn = (f', rn', oc)" "readable f"
  defines "todo \<equiv> filter (\<lambda>s. st_name s \<notin> set dn) ss"
  shows "readable f'" "read_records f' = read_records f @
      List.map (\<lambda>s. dmerge [(''ts'', JStr ts)] (step_record rp night s)) (takeWhile (\<lambda>s. \<not> retries rp s) todo)"
    "oc = None \<longleftrightarrow> takeWhile (\<lambda>s. \<not> retries rp s) todo = todo"
    "oc = Some (reason, name) \<Longrightarrow> reason \<in> set retry_skips
       \<and> (\<exists>s rest. dropWhile (\<lambda>s. \<not> retries rp s) todo = s # rest \<and> st_name s = name)"
  using assms(1,2) unfolding todo_def
proof (induction ss arbitrary: f rn)
  case (Cons s ss)
  {
    case 1
    then show ?case using Cons(1) by (auto simp: Let_def split: if_splits)
  next
    case 2
    then show ?case
      using Cons(2) by (fastforce simp: Let_def read_records_append retries_def split: if_splits)
  next
    case 3
    then show ?case using Cons(3) by (fastforce simp: Let_def retries_def split: if_splits)
  next
    case 4
    then show ?case using Cons(4) by (fastforce simp: Let_def retries_def split: if_splits)
  }
qed (auto split: if_splits)

text \<open>The names a night's log may hold: the first of the steps, or all of them and the end of the night.\<close>

definition night_ok :: "string list \<Rightarrow> string list \<Rightarrow> bool" where
  "night_ok names xs = (prefix xs names \<or> xs = names @ [''night''])"

lemma night_steps_grow:
  assumes "read_records f' = read_records f @ List.map (\<lambda>s. dmerge [(''ts'', JStr ts)] (step_record rp night s)) ex"
  shows "night_steps rp n f' = night_steps rp n f @ (if n = night then List.map st_name ex else [])"
proof -
  have "of_night n (List.map (\<lambda>s. dmerge [(''ts'', JStr ts)] (step_record rp night s)) ex) =
      (if n = night then List.map (\<lambda>s. dmerge [(''ts'', JStr ts)] (step_record rp night s)) ex else [])"
    by (induction ex) (simp_all add: of_night_def step_record_fields)
  then show ?thesis
    by (simp add: night_steps_def assms of_night_def step_record_fields)
qed

lemma night_steps_end:
  "readable f \<Longrightarrow> night_steps rp n (append_record ts [(''night'', JStr night), (''step'', JStr ''night''), (''steps'', v)] f)
    = night_steps rp n f @ (if n = night then [''night''] else [])"
  by (simp add: night_steps_def read_records_append of_night_def)

lemma todo_of_prefix:
  assumes "distinct (List.map st_name steps)" "prefix xs (List.map st_name steps)"
  shows "List.map st_name (filter (\<lambda>s. st_name s \<notin> set xs) steps) = drop (length xs) (List.map st_name steps)"
proof -
  obtain ys where ys: "List.map st_name steps = xs @ ys" using assms(2) by (auto simp: prefix_def)
  have "List.map st_name (filter (\<lambda>s. st_name s \<notin> set xs) steps) = filter (\<lambda>n. n \<notin> set xs) (List.map st_name steps)"
    by (simp add: filter_map comp_def)
  also have "\<dots> = filter (\<lambda>n. n \<notin> set xs) ys" unfolding ys by simp
  also have "\<dots> = ys" using assms(1) unfolding ys by (intro filter_True) auto
  finally show ?thesis by (simp add: ys)
qed

text \<open>One run of a night that is open: what it did and what it leaves.\<close>

lemma open_night_run:
  assumes "run_night rp date ts st active steps now f = (res, f')" "readable f"
    and "distinct (List.map st_name steps)"
    and "prefix (night_steps rp (night_id date now (hk_hour st)) f) (List.map st_name steps)"
    and "''night'' \<notin> set (List.map st_name steps)"
    and "hk_enabled st" "steps \<noteq> []" "in_window now st" "\<not> active"
  defines "night \<equiv> night_id date now (hk_hour st)" and "names \<equiv> List.map st_name steps"
  defines "xs \<equiv> night_steps rp night f"
  shows "readable f'" "n \<noteq> night \<Longrightarrow> night_steps rp n f' = night_steps rp n f"
    "(\<exists>rn smr. res = Finished night rn smr \<and> night_steps rp night f' = names @ [''night''])
     \<or> (\<exists>reason m rn. res = Left_open reason night (names ! m) rn \<and> length xs \<le> m \<and> m < length names
          \<and> reason \<in> set retry_skips \<and> night_steps rp night f' = take m names)"
proof -
  let ?dn = "dkeys (done_steps rp night (read_records f))"
  let ?todo = "filter (\<lambda>s. st_name s \<notin> set ?dn) steps"
  let ?ex = "takeWhile (\<lambda>s. \<not> retries rp s) ?todo"
  have dn: "set ?dn = set xs" by (simp only: done_keys xs_def night_steps_def)
  have pre: "prefix xs names" using assms(4) by (simp add: xs_def night_def names_def)
  then have "''night'' \<notin> set ?dn" using assms(5) unfolding dn names_def [symmetric] using set_mono_prefix [OF pre] by blast
  obtain g rn oc where run: "run_steps rp ts night ?dn steps f [] = (g, rn, oc)" by (cases "run_steps rp ts night ?dn steps f []")
  have res: "(res, f') = (case oc of
      Some (reason, name) \<Rightarrow> (Left_open reason night name rn, g)
    | None \<Rightarrow> (Finished night rn
                 (foldl (\<lambda>d s. case dget rn (st_name s) of
                      None \<Rightarrow> d
                    | Some r \<Rightarrow> dset (st_name s) (describe_step rp (st_name s) (st_describe s) r) d) [] steps),
               append_record ts [(''night'', JStr night), (''step'', JStr ''night''),
                 (''steps'', JList (List.map JStr (sort (dkeys rn))))] g))"
    using assms(1,6-9) \<open>''night'' \<notin> set ?dn\<close>
    by (simp add: run_night_def Let_def night_def [symmetric] run split: option.splits prod.splits)
  note rs = run_steps_records [OF run assms(2)]
  have names: "List.map st_name ?todo = drop (length xs) names"
    using todo_of_prefix [OF assms(3), of xs] pre unfolding dn names_def by simp
  have grow: "night_steps rp n g = night_steps rp n f @ (if n = night then List.map st_name ?ex else [])" for n
    by (rule night_steps_grow [OF rs(2)])
  have take: "xs = take (length xs) names" using pre by (auto simp: prefix_def)
  show "readable f'" using res rs(1) by (auto split: option.splits)
  show "n \<noteq> night \<Longrightarrow> night_steps rp n f' = night_steps rp n f"
    using res grow [of n] night_steps_end [OF rs(1)] by (auto split: option.splits)
  show "(\<exists>rn smr. res = Finished night rn smr \<and> night_steps rp night f' = names @ [''night''])
     \<or> (\<exists>reason m rn. res = Left_open reason night (names ! m) rn \<and> length xs \<le> m \<and> m < length names
          \<and> reason \<in> set retry_skips \<and> night_steps rp night f' = take m names)"
  proof (cases oc)
    case None
    then have e: "?ex = ?todo" using rs(3) by blast
    have "night_steps rp night g = xs @ drop (length xs) names"
      using grow [of night] unfolding e names by (simp add: xs_def)
    then have "night_steps rp night g = names" using take by (metis append_take_drop_id)
    then show ?thesis using res None night_steps_end [OF rs(1)] by simp
  next
    case (Some p)
    obtain reason name where p: "p = (reason, name)" by (cases p)
    obtain s rest where d: "reason \<in> set retry_skips" "dropWhile (\<lambda>s. \<not> retries rp s) ?todo = s # rest" "st_name s = name"
      using rs(4) Some p by blast
    have "?todo = ?ex @ s # rest" using d(2) takeWhile_dropWhile_id [of "\<lambda>s. \<not> retries rp s" ?todo] by simp
    then have e: "drop (length xs) names = List.map st_name ?ex @ name # List.map st_name rest"
      using names d(3) by (metis list.simps(9) map_append)
    let ?m = "length xs + length ?ex"
    have full: "names = xs @ List.map st_name ?ex @ name # List.map st_name rest"
      using take e by (metis append_take_drop_id)
    have "names ! ?m = name" "?m < length names" "take ?m names = xs @ List.map st_name ?ex"
      by (subst full; simp add: nth_append)+
    moreover have "night_steps rp night g = xs @ List.map st_name ?ex" using grow [of night] by (simp add: xs_def)
    ultimately show ?thesis using res Some p d(1) by auto
  qed
qed

text \<open>An interrupted night resumes where it stopped. A run of an open night executes the steps that are
  not yet terminal, in order: either all of them, and then the night is closed, or up to the first one that
  asks to be retried, which is reported and is the next to run. Other nights are not touched.\<close>

theorem night_resumes:
  assumes "run_night rp date ts st False steps now f = (res, f')" "readable f"
    and "distinct (List.map st_name steps)" "''night'' \<notin> set (List.map st_name steps)" "steps \<noteq> []"
    and "night_steps rp (night_id date now (hk_hour st)) f = take k (List.map st_name steps)"
    and "k \<le> length steps" "hk_enabled st" "in_window now st"
  shows "(\<forall>n. n \<noteq> night_id date now (hk_hour st) \<longrightarrow> night_steps rp n f' = night_steps rp n f)
    \<and> ((\<exists>rn smr. res = Finished (night_id date now (hk_hour st)) rn smr
          \<and> night_steps rp (night_id date now (hk_hour st)) f' = List.map st_name steps @ [''night''])
      \<or> (\<exists>reason m rn. res = Left_open reason (night_id date now (hk_hour st)) (st_name (steps ! m)) rn
          \<and> k \<le> m \<and> m < length steps \<and> reason \<in> set retry_skips
          \<and> night_steps rp (night_id date now (hk_hour st)) f' = take m (List.map st_name steps)))"
proof -
  have "prefix (night_steps rp (night_id date now (hk_hour st)) f) (List.map st_name steps)"
    unfolding assms(6) by (rule take_is_prefix)
  note r = open_night_run [OF assms(1,2,3) this assms(4,8,5,9) simp_thms(8) [THEN iffD2, OF TrueI]]
  show ?thesis using r(2,3) assms(6,7) by fastforce
qed

definition hk_sample :: "outcome \<Rightarrow> hk_step list" where
  "hk_sample oc = [\<lparr>st_name = ''a'', st_outcome = oc, st_describe = None\<rparr>,
     \<lparr>st_name = ''b'', st_outcome = Raised ''boom'', st_describe = None\<rparr>]"

definition hk_sample_settings :: hk_settings where
  "hk_sample_settings = \<lparr>hk_enabled = True, hk_hour = 4, hk_window_hours = 8, hk_idle_seconds = 1800\<rparr>"

theorem night_resumes_witness:
  "\<exists>res f'. run_night (\<lambda>_. []) (\<lambda>d. int_str d) ''now'' hk_sample_settings False
      (hk_sample (Returned (JObj [(''skipped'', JStr ''preempted'')]))) 20000 None = (res, f')
    \<and> night_steps (\<lambda>_. []) ''0'' f' = []"
proof -
  let ?steps = "hk_sample (Returned (JObj [(''skipped'', JStr ''preempted'')]))"
  obtain res f' where r: "run_night (\<lambda>_. []) (\<lambda>d. int_str d) ''now'' hk_sample_settings False ?steps 20000 None = (res, f')"
    by (cases "run_night (\<lambda>_. []) (\<lambda>d. int_str d) ''now'' hk_sample_settings False ?steps 20000 None")
  have c: "night_id (\<lambda>d. int_str d) 20000 (hk_hour hk_sample_settings) = ''0''" "in_window 20000 hk_sample_settings"
    "fst (run_night (\<lambda>_. []) (\<lambda>d. int_str d) ''now'' hk_sample_settings False ?steps 20000 None) = Left_open ''preempted'' ''0'' ''a'' []"
    by code_simp+
  have "night_steps (\<lambda>_. []) ''0'' f' = take 0 (List.map st_name ?steps)
      \<or> (\<exists>m. night_steps (\<lambda>_. []) ''0'' f' = take m (List.map st_name ?steps) \<and> m < 2 \<and> st_name (?steps ! m) = ''a'')"
    using night_resumes [OF r, of 0] c r
    by (auto simp: readable_def hk_sample_def hk_sample_settings_def night_steps_def read_records_def of_night_def
        List.map_filter_def)
  moreover have "m = 0" if "m < 2" "st_name (?steps ! m) = ''a''" for m
    using that by (cases m) (auto simp: hk_sample_def less_2_cases_iff)
  ultimately show ?thesis using r by auto
qed

section \<open>Any number of polls\<close>

text \<open>Runs of the event, at any times, under any settings, with any outcomes of the same steps.\<close>

inductive hk_runs :: "(json \<Rightarrow> string) \<Rightarrow> (int \<Rightarrow> string) \<Rightarrow> string list \<Rightarrow> logfile \<Rightarrow> bool"
  for rp date names where
  none_yet: "hk_runs rp date names None"
| poll: "hk_runs rp date names f \<Longrightarrow> List.map st_name steps = names \<Longrightarrow>
    hk_runs rp date names (snd (run_night rp date ts st active steps now f))"

lemma closed_night_run:
  assumes "''night'' \<in> set (night_steps rp (night_id date now (hk_hour st)) f)"
  shows "snd (run_night rp date ts st active steps now f) = f"
proof -
  let ?night = "night_id date now (hk_hour st)"
  have "''night'' \<in> set (dkeys (done_steps rp ?night (read_records f)))"
    unfolding done_keys using assms by (simp add: night_steps_def)
  then show ?thesis unfolding run_night_def Let_def by simp
qed

lemma run_night_ok:
  assumes "readable f" "\<forall>n. night_ok names (night_steps rp n f)" "List.map st_name steps = names"
    "distinct names" "''night'' \<notin> set names"
  shows "readable (snd (run_night rp date ts st active steps now f))"
    "\<forall>n. night_ok names (night_steps rp n (snd (run_night rp date ts st active steps now f)))"
proof -
  let ?night = "night_id date now (hk_hour st)"
  obtain res f' where r: "run_night rp date ts st active steps now f = (res, f')"
    by (cases "run_night rp date ts st active steps now f")
  have "readable f' \<and> (\<forall>n. night_ok names (night_steps rp n f'))"
  proof (cases "''night'' \<in> set (night_steps rp ?night f) \<or> \<not> hk_enabled st \<or> steps = [] \<or> \<not> in_window now st \<or> active")
    case True
    then have "f' = f"
      using r closed_night_run [of rp date now st f ts active steps] by (auto simp: run_night_def Let_def split: if_splits)
    then show ?thesis using assms(1,2) by simp
  next
    case False
    then have p: "prefix (night_steps rp ?night f) (List.map st_name steps)"
      using assms(2,3) by (auto simp: night_ok_def)
    note o = open_night_run [OF r assms(1) assms(4) [folded assms(3)] p assms(5) [folded assms(3)]]
    have "night_ok names (night_steps rp n f')" for n
    proof (cases "n = ?night")
      case True
      then show ?thesis using o(3) False assms(3) take_is_prefix by (fastforce simp: night_ok_def)
    next
      case False
      then show ?thesis using o(2) \<open>\<not> (_ \<or> _)\<close> assms(2) by auto
    qed
    then show ?thesis using o(1) False by auto
  qed
  then show "readable (snd (run_night rp date ts st active steps now f))"
    "\<forall>n. night_ok names (night_steps rp n (snd (run_night rp date ts st active steps now f)))"
    using r by simp_all
qed

text \<open>C19: no step of a night is terminal twice. Whatever sequence of polls the box saw, with restarts between
  them, with steps preempted, failing or raising, the log of every night is the steps so far in their order,
  or all of them and the record that closes the night.\<close>

theorem nights_run_once:
  assumes "hk_runs rp date names f" "distinct names" "''night'' \<notin> set names"
  shows "night_ok names (night_steps rp night f) \<and> distinct (night_steps rp night f)"
proof -
  have "readable f \<and> (\<forall>n. night_ok names (night_steps rp n f))"
    using assms
  proof (induction rule: hk_runs.induct)
    case none_yet
    then show ?case
      by (simp add: readable_def night_ok_def night_steps_def read_records_def of_night_def List.map_filter_def)
  next
    case (poll f steps ts st active now)
    then show ?case using run_night_ok by blast
  qed
  then show ?thesis using assms(2,3) by (auto simp: night_ok_def prefix_def)
qed

theorem nights_run_once_witness:
  "\<exists>f. hk_runs (\<lambda>_. []) int_str [''a'', ''b''] f
    \<and> night_steps (\<lambda>_. []) ''0'' f = [''a'', ''b'', ''night''] \<and> distinct (night_steps (\<lambda>_. []) ''0'' f)"
proof -
  let ?f = "snd (run_night (\<lambda>_. []) int_str ''now'' hk_sample_settings False (hk_sample (Returned JNull)) 20000 None)"
  have h: "hk_runs (\<lambda>_. []) int_str [''a'', ''b''] ?f"
    by (rule hk_runs.poll [OF hk_runs.none_yet]) (simp add: hk_sample_def)
  have "night_steps (\<lambda>_. []) ''0'' ?f = [''a'', ''b'', ''night'']" by code_simp
  then show ?thesis using nights_run_once [OF h, of "''0''"] h by auto
qed

end
