(* ===== verification/Reachout_Gate.thy ===== *)
theory Reachout_Gate
  imports Gist Dialogue_Source
begin

text \<open>
  \<open>server/inference/core/reachout_gate.py\<close>: how often she may open a conversation unprompted. The corpus is a
  dictionary from file names to contents and modification times (\<open>None\<close> when the file cannot be stat'ed);
  an unconfigured path is \<open>None\<close>. \<open>strp\<close> reads a session stem as a POSIX time, \<open>iso8601\<close> an ISO text, \<open>fs\<close> and \<open>rp\<close>
  are Python's float from text and \<open>repr\<close>. A monotonic time and a wall time are separate arguments, and
  an infinite elapsed time is \<open>None\<close>.
\<close>

type_synonym corpus = "(string, json content \<times> rat option) dict"

record gate =
  chats :: "corpus option"
  expired_log :: "logfile option"
  last_reachout :: "rat option"
  last_by_user :: "(string, rat) dict"

section \<open>Who is who\<close>

definition is_name_punct :: "char \<Rightarrow> bool" where
  "is_name_punct c = (c \<in> set (''.,;:!?()[]'' @ [CHR 0x27, CHR 0x22]))"

definition generic_referents :: "string list" where
  "generic_referents = [''user'', ''the user'', ''person'', ''the person'', ''they'', ''them'', ''someone'',
     ''the speaker'', ''speaker'', ''interlocutor'', ''the interlocutor'', ''me'', ''i'', ''unknown'', ''n/a'', ''none'']"

definition user_key :: "(json \<Rightarrow> string) \<Rightarrow> json \<Rightarrow> string" where
  "user_key rp name =
     (let s = py_lower (strip_if is_name_punct (join '' '' (words_from [] (fstr rp (py_or name (JStr []))))));
          first = strip_if is_name_punct (takeWhile (\<lambda>c. c \<noteq> CHR '' '') s)
      in if s = [] \<or> s \<in> set generic_referents then []
         else if first \<in> set generic_referents then [] else first)"

definition matches :: "(json \<Rightarrow> string) \<Rightarrow> jobj \<Rightarrow> string \<Rightarrow> bool" where
  "matches rp d key = (key = [] \<or> user_key rp (jget d ''user'') = key)"

section \<open>Reading what was sent\<close>

record chat_entry =
  ce_name :: string
  ce_data :: json
  ce_mtime :: "rat option"

definition skipped_suffixes :: "string list" where
  "skipped_suffixes = [''.state.json'', ''.summary.json'', ''.facts.json'', ''.shareml.json'']"

text \<open>A transcript that can be read and parsed.\<close>

definition entry_of_file :: "corpus \<Rightarrow> string \<Rightarrow> chat_entry option" where
  "entry_of_file d n = (case dget d n of
      Some (Parsed j, t) \<Rightarrow> Some \<lparr>ce_name = n, ce_data = j, ce_mtime = t\<rparr>
    | _ \<Rightarrow> None)"

definition iter_chats :: "gate \<Rightarrow> chat_entry list" where
  "iter_chats g =
     (case chats g of
        None \<Rightarrow> []
      | Some d \<Rightarrow> List.map_filter (entry_of_file d)
          (sort (filter (\<lambda>n. endswith n ''.json'' \<and> \<not> list_ex (endswith n) skipped_suffixes) (dkeys d))))"

definition iter_expired :: "gate \<Rightarrow> jobj list" where
  "iter_expired g =
     (case expired_log g of
        None \<Rightarrow> []
      | Some f \<Rightarrow> List.map_filter (\<lambda>j. case j of
            JObj r \<Rightarrow> if truthy (jget r ''stem'') then Some r else None | _ \<Rightarrow> None) (recs (log_lines f)))"

definition initiated_by_ava :: "jobj \<Rightarrow> bool py" where
  "initiated_by_ava d = py_bind (strip_or_empty (jget d ''initiated_by'')) (\<lambda>s. Inr (s = ''ava''))"

definition exchange_count :: "jobj \<Rightarrow> nat py" where
  "exchange_count d = json_len (py_or (jget d ''exchanges'') (JList []))"

definition is_unanswered_opener :: "jobj \<Rightarrow> bool py" where
  "is_unanswered_opener d =
     py_bind (initiated_by_ava d) (\<lambda>a. if \<not> a then Inr False
       else py_bind (exchange_count d) (\<lambda>n. Inr (n \<le> 1)))"

definition has_user_turn :: "jobj \<Rightarrow> bool py" where
  "has_user_turn d =
     (if \<not> truthy (py_or (jget d ''exchanges'') (JList [])) then Inr False
      else py_bind (strip_or_empty (jget d ''interlocutor'')) (\<lambda>i.
        if i = ''ai'' then Inr False
        else py_bind (is_unanswered_opener d) (\<lambda>u. Inr (\<not> u))))"

definition sent_at :: "(string \<Rightarrow> rat option) \<Rightarrow> (string \<Rightarrow> rat option) \<Rightarrow> chat_entry \<Rightarrow> jobj \<Rightarrow> rat" where
  "sent_at strp iso8601 e d =
     (case strp (path_stem (ce_name e)) of
        Some t \<Rightarrow> t
      | None \<Rightarrow>
          (case (case strip_or_empty (jget d ''timestamp'') of Inr s \<Rightarrow> iso8601 s | Inl _ \<Rightarrow> None) of
             Some t \<Rightarrow> t
           | None \<Rightarrow> (case ce_mtime e of Some t \<Rightarrow> t | None \<Rightarrow> 0)))"

text \<open>The files a loop of the source does not skip.\<close>

definition py_filter :: "('a \<Rightarrow> bool py) \<Rightarrow> 'a list \<Rightarrow> 'a list py" where
  "py_filter p xs = py_fold (\<lambda>out x. py_bind (p x) (\<lambda>b. Inr (if b then out @ [x] else out))) [] xs"

definition last_user_turn_ts :: "(json \<Rightarrow> string) \<Rightarrow> string \<Rightarrow> gate \<Rightarrow> rat option py" where
  "last_user_turn_ts rp key g =
     py_bind (py_filter (\<lambda>e. py_bind (as_dict (ce_data e)) (\<lambda>d.
         py_bind (has_user_turn d) (\<lambda>h. Inr (h \<and> matches rp d key)))) (iter_chats g)) (\<lambda>es.
       Inr (foldl (\<lambda>best e. case ce_mtime e of
            None \<Rightarrow> best
          | Some t \<Rightarrow> (case best of None \<Rightarrow> Some t | Some b \<Rightarrow> if b < t then Some t else best)) None es))"

definition after :: "rat \<Rightarrow> rat option \<Rightarrow> bool" where
  "after t last_user = (case last_user of None \<Rightarrow> True | Some u \<Rightarrow> u < t)"

definition counts_live ::
  "(json \<Rightarrow> string) \<Rightarrow> (string \<Rightarrow> rat option) \<Rightarrow> (string \<Rightarrow> rat option) \<Rightarrow> string \<Rightarrow> rat option \<Rightarrow> chat_entry \<Rightarrow> bool py" where
  "counts_live rp strp iso8601 key last_user e =
     py_bind (as_dict (ce_data e)) (\<lambda>d.
     py_bind (is_unanswered_opener d) (\<lambda>u.
       Inr (u \<and> matches rp d key \<and> after (sent_at strp iso8601 e d) last_user)))"

text \<open>\<open>float(rec.get("sent_at") or 0.0)\<close>\<close>

definition expired_sent_at :: "(string \<Rightarrow> rat py) \<Rightarrow> jobj \<Rightarrow> rat py" where
  "expired_sent_at fs r = py_float fs (py_or (jget r ''sent_at'') (JFloat 0))"

definition count_expired ::
  "(json \<Rightarrow> string) \<Rightarrow> (string \<Rightarrow> rat py) \<Rightarrow> string \<Rightarrow> rat option \<Rightarrow> string set \<times> nat \<Rightarrow> jobj \<Rightarrow> (string set \<times> nat) py" where
  "count_expired rp fs key last_user st r =
     (case st of (seen, n) \<Rightarrow>
        let stem = fstr rp (py_or (jget r ''stem'') (JStr [])) in
        if stem \<in> seen then Inr st
        else if key \<noteq> [] \<and> user_key rp (jget r ''user'') \<noteq> key then Inr st
        else py_bind (if last_user = None then Inr True
              else py_bind (expired_sent_at fs r) (\<lambda>t. Inr (after t last_user))) (\<lambda>b.
          Inr (if b then (insert stem seen, n + 1) else st)))"

record gate_env =
  ge_repr :: "json \<Rightarrow> string"
  ge_float :: "string \<Rightarrow> rat py"
  ge_stem_time :: "string \<Rightarrow> rat option"
  ge_iso_time :: "string \<Rightarrow> rat option"

definition unanswered_streak :: "gate_env \<Rightarrow> json \<Rightarrow> gate \<Rightarrow> nat py" where
  "unanswered_streak v user g =
     (let key = user_key (ge_repr v) user in
      py_bind (last_user_turn_ts (ge_repr v) key g) (\<lambda>lu.
      py_bind (py_filter (counts_live (ge_repr v) (ge_stem_time v) (ge_iso_time v) key lu) (iter_chats g)) (\<lambda>live.
      py_bind (py_fold (count_expired (ge_repr v) (ge_float v) key lu)
          (set (List.map (\<lambda>e. path_stem (ce_name e)) live), length live) (iter_expired g)) (\<lambda>(seen, n).
        Inr n))))"

section \<open>The window\<close>

definition cooldown_of :: "nat \<Rightarrow> int" where
  "cooldown_of streak = (if streak = 0 then 3600 else min 86400 (3600 * 2 ^ min streak 30))"

definition cooldown_seconds :: "gate_env \<Rightarrow> json \<Rightarrow> gate \<Rightarrow> int py" where
  "cooldown_seconds v user g = py_bind (unanswered_streak v user g) (\<lambda>n. Inr (cooldown_of n))"

definition newer :: "rat option \<Rightarrow> rat \<Rightarrow> rat option" where
  "newer latest t = (case latest of None \<Rightarrow> Some t | Some l \<Rightarrow> if l < t then Some t else latest)"

definition last_sent :: "gate_env \<Rightarrow> string \<Rightarrow> gate \<Rightarrow> rat option py" where
  "last_sent v key g =
     py_bind (py_fold (\<lambda>latest e. py_bind (as_dict (ce_data e)) (\<lambda>d.
         py_bind (initiated_by_ava d) (\<lambda>a.
           Inr (if a \<and> matches (ge_repr v) d key then newer latest (sent_at (ge_stem_time v) (ge_iso_time v) e d)
                else latest)))) None (iter_chats g)) (\<lambda>latest.
     py_fold (\<lambda>latest r.
         if key \<noteq> [] \<and> user_key (ge_repr v) (jget r ''user'') \<noteq> key then Inr latest
         else py_bind (expired_sent_at (ge_float v) r) (\<lambda>t. Inr (if t \<noteq> 0 then newer latest t else latest)))
       latest (iter_expired g))"

definition seconds_since_reachout :: "gate_env \<Rightarrow> rat \<Rightarrow> rat \<Rightarrow> json \<Rightarrow> gate \<Rightarrow> rat option py" where
  "seconds_since_reachout v mt wallclock user g =
     (let key = user_key (ge_repr v) user;
          stamp = (if key \<noteq> [] then dget (last_by_user g) key else last_reachout g);
          elapsed = map_option (\<lambda>t. mt - t) stamp
      in py_bind (last_sent v key g) (\<lambda>latest.
           Inr (case latest of
               None \<Rightarrow> elapsed
             | Some l \<Rightarrow> (case elapsed of None \<Rightarrow> Some (max 0 (wallclock - l))
                          | Some x \<Rightarrow> Some (min x (max 0 (wallclock - l)))))))"

definition mark_reachout :: "gate_env \<Rightarrow> rat \<Rightarrow> json \<Rightarrow> gate \<Rightarrow> gate" where
  "mark_reachout v mt user g =
     (let key = user_key (ge_repr v) user; g' = g\<lparr>last_reachout := Some mt\<rparr> in
      if key \<noteq> [] then g'\<lparr>last_by_user := dset key mt (last_by_user g)\<rparr> else g')"

definition may_reach_out :: "gate_env \<Rightarrow> rat \<Rightarrow> rat \<Rightarrow> json \<Rightarrow> gate \<Rightarrow> (bool \<times> string) py" where
  "may_reach_out v mt wallclock user g =
     py_bind (seconds_since_reachout v mt wallclock user g) (\<lambda>elapsed.
     py_bind (cooldown_seconds v user g) (\<lambda>window.
       Inr (if (case elapsed of None \<Rightarrow> True | Some x \<Rightarrow> of_int window \<le> x) then (True, [])
            else (False, if window \<le> 3600 then ''reachout_cooldown'' else ''reachout_backoff''))))"

section \<open>Tombstones\<close>

definition record_expired :: "(json \<Rightarrow> string) \<Rightarrow> rat \<Rightarrow> string \<Rightarrow> json \<Rightarrow> rat \<Rightarrow> string \<Rightarrow> gate \<Rightarrow> bool \<times> gate" where
  "record_expired rp now stem user sent opener g =
     (case expired_log g of
        None \<Rightarrow> (False, g)
      | Some f \<Rightarrow>
          if py_strip stem = [] then (False, g)
          else (True, g\<lparr>expired_log := Some (log_append
             [(''stem'', JStr (py_strip stem)), (''user'', JStr (py_strip (fstr rp (py_or user (JStr []))))),
              (''sent_at'', JFloat sent), (''opener'', JStr opener), (''expired_at'', JFloat now)] f)\<rparr>))"

definition expired_openers :: "gate_env \<Rightarrow> json \<Rightarrow> gate \<Rightarrow> jobj list py" where
  "expired_openers v user g =
     (let key = user_key (ge_repr v) user;
          out = filter (\<lambda>r. key = [] \<or> user_key (ge_repr v) (jget r ''user'') = key) (iter_expired g)
      in py_bind (py_fold (\<lambda>ks r. py_bind (expired_sent_at (ge_float v) r) (\<lambda>t. Inr (ks @ [t]))) [] out) (\<lambda>ks.
           Inr (List.map snd (sort_key fst (zip ks out)))))"

text \<open>The sweep of \<open>core.chat_worklog\<close> deletes the transcript after the tombstone is written.\<close>

definition delete_chat :: "string \<Rightarrow> gate \<Rightarrow> gate" where
  "delete_chat name g = g\<lparr>chats := map_option (dpop name) (chats g)\<rparr>"

section \<open>The schedule of windows\<close>

lemma cooldown_cases:
  "cooldown_of n = (if n \<le> 4 then 3600 * 2 ^ n else 86400)"
proof (cases "n \<le> 4")
  case True
  then have "n \<in> {0, 1, 2, 3, 4}" by auto
  then show ?thesis by (auto simp: cooldown_of_def)
next
  case False
  then have "(2::int) ^ 5 \<le> 2 ^ min n 30" by (intro power_increasing) auto
  then show ?thesis using False by (simp add: cooldown_of_def)
qed

text \<open>The backoff schedule. The window is an hour while she is answered, doubles with every opener that
  is not, and settles at a day from the fifth on; it never shrinks as the silence grows and never leaves
  those bounds.\<close>

theorem window_schedule:
  assumes "n \<le> m"
  shows "3600 \<le> cooldown_of n \<and> cooldown_of n \<le> 86400 \<and> cooldown_of n \<le> cooldown_of m
    \<and> cooldown_of 0 = 3600 \<and> (n < 4 \<longrightarrow> cooldown_of (Suc n) = 2 * cooldown_of n)
    \<and> (cooldown_of n = 86400 \<longleftrightarrow> 5 \<le> n)"
proof -
  have small: "k \<in> {0, 1, 2, 3, 4}" if "k \<le> 4" for k :: nat using that by auto
  have b: "3600 \<le> cooldown_of k \<and> cooldown_of k \<le> 86400" for k
    unfolding cooldown_cases using small [of k] by auto
  have "cooldown_of n \<le> cooldown_of m"
  proof (cases "m \<le> 4")
    case True
    then have "(2::int) ^ n \<le> 2 ^ m" using assms by (intro power_increasing) auto
    then show ?thesis unfolding cooldown_cases using True assms by simp
  next
    case False
    then have "cooldown_of m = 86400" by (simp add: cooldown_cases)
    then show ?thesis using b by simp
  qed
  moreover have "cooldown_of n = 86400 \<longleftrightarrow> 5 \<le> n" unfolding cooldown_cases using small [of n] by auto
  ultimately show ?thesis using b by (simp add: cooldown_cases)
qed

theorem window_schedule_witness: "cooldown_of 2 \<le> cooldown_of 3 \<and> cooldown_of 3 = 28800"
  using window_schedule [of 2 3] by (simp add: cooldown_cases)

section \<open>The rate limit\<close>

lemma marked_last_sent: "last_sent v key (mark_reachout v mt user g) = last_sent v key g"
  by (simp add: last_sent_def mark_reachout_def Let_def iter_chats_def iter_expired_def)

lemma marked_streak: "unanswered_streak v u (mark_reachout v mt user g) = unanswered_streak v u g"
  by (simp add: unanswered_streak_def last_user_turn_ts_def mark_reachout_def Let_def iter_chats_def iter_expired_def)

text \<open>One message an hour at most. After a message to somebody is recorded, no check made within the hour
  lets another out, whether it asks about that person or about everyone; the reason names the plain
  cool-down exactly when the window is the base one. A check about another person is not affected.\<close>

theorem reachout_is_paced:
  assumes "0 \<le> d" "d < 3600"
    and "asked \<in> {user, JNull}" "user_key (ge_repr v) JNull = []"
    and "user_key (ge_repr v) other \<notin> {[], user_key (ge_repr v) user}"
    and "may_reach_out v (mt + d) now asked (mark_reachout v mt user g) = Inr (ok, reason)"
  shows "\<not> ok \<and> (\<exists>n. unanswered_streak v asked g = Inr n
      \<and> (reason = ''reachout_cooldown'' \<longleftrightarrow> n = 0) \<and> (reason = ''reachout_backoff'' \<longleftrightarrow> n \<noteq> 0))
    \<and> may_reach_out v (mt + d) now other (mark_reachout v mt user g) = may_reach_out v (mt + d) now other g"
proof -
  let ?g = "mark_reachout v mt user g" let ?key = "user_key (ge_repr v) asked"
  have stamp: "(if ?key \<noteq> [] then dget (last_by_user ?g) ?key else last_reachout ?g) = Some mt"
    using assms(3,4) by (auto simp: mark_reachout_def Let_def)
  obtain latest where l: "last_sent v ?key g = Inr latest"
    using assms(6) by (auto simp: may_reach_out_def seconds_since_reachout_def Let_def py_bind_eq_Inr marked_last_sent)
  obtain x where x: "seconds_since_reachout v (mt + d) now asked ?g = Inr (Some x)" "x \<le> d"
    using l stamp by (cases latest)
      (auto simp: seconds_since_reachout_def Let_def marked_last_sent simp del: map_option_eq_Some)
  obtain n where n: "unanswered_streak v asked g = Inr n"
    using assms(6) by (auto simp: may_reach_out_def cooldown_seconds_def py_bind_eq_Inr marked_streak)
  have small: "k \<in> {0, 1, 2, 3, 4}" if "k \<le> 4" for k :: nat using that by auto
  have c: "3600 \<le> cooldown_of n" "cooldown_of n \<le> 3600 \<longleftrightarrow> n = 0"
    unfolding cooldown_cases using small [of n] by auto
  have "x < of_int (cooldown_of n)"
  proof -
    have "(3600::rat) \<le> of_int (cooldown_of n)" using c(1) by (metis of_int_le_iff of_int_numeral)
    then show ?thesis using x(2) assms(2) by linarith
  qed
  then have "ok = False \<and> reason = (if cooldown_of n \<le> 3600 then ''reachout_cooldown'' else ''reachout_backoff'')"
    using assms(6) x(1) n by (simp add: may_reach_out_def cooldown_seconds_def marked_streak)
  moreover have "may_reach_out v (mt + d) now other ?g = may_reach_out v (mt + d) now other g"
  proof -
    have o: "user_key (ge_repr v) other \<noteq> []"
      "dget (last_by_user ?g) (user_key (ge_repr v) other) = dget (last_by_user g) (user_key (ge_repr v) other)"
      using assms(5) by (auto simp: mark_reachout_def Let_def)
    have "seconds_since_reachout v (mt + d) now other ?g = seconds_since_reachout v (mt + d) now other g"
      unfolding seconds_since_reachout_def Let_def marked_last_sent o(2) by (simp add: o(1))
    then show ?thesis by (simp add: may_reach_out_def cooldown_seconds_def marked_streak)
  qed
  ultimately show ?thesis using n c(2) by auto
qed

definition sample_gate_env :: gate_env where
  "sample_gate_env = \<lparr>ge_repr = \<lambda>_. [], ge_float = \<lambda>_. Inl ValueError, ge_stem_time = \<lambda>s. if s = ''b'' then Some 200 else Some 100,
     ge_iso_time = \<lambda>_. None\<rparr>"

definition sample_gate :: gate where
  "sample_gate = \<lparr>chats = Some
      [(''a.json'', Parsed (JObj [(''user'', JStr ''Dana''), (''exchanges'', JList [JNull, JNull])]), Some 150),
       (''b.json'', Parsed (JObj [(''user'', JStr '' Dana  Scully''), (''initiated_by'', JStr ''ava''),
          (''exchanges'', JList [JNull])]), Some 250)],
     expired_log = Some None, last_reachout = None, last_by_user = []\<rparr>"

theorem reachout_is_paced_witness:
  "may_reach_out sample_gate_env 5000 90000 (JStr ''Dana'') (mark_reachout sample_gate_env 4000 (JStr ''Dana'') sample_gate)
     = Inr (False, ''reachout_backoff'')
   \<and> \<not> fst (False, ''reachout_backoff'')"
proof -
  have r: "may_reach_out sample_gate_env (4000 + 1000) 90000 (JStr ''Dana'')
      (mark_reachout sample_gate_env 4000 (JStr ''Dana'') sample_gate) = Inr (False, ''reachout_backoff'')"
    by code_simp
  have k: "user_key (ge_repr sample_gate_env) JNull = []" "user_key (ge_repr sample_gate_env) (JStr ''Bob'') = ''bob''"
    "user_key (ge_repr sample_gate_env) (JStr ''Dana'') = ''dana''"
    by code_simp+
  show ?thesis
    using reachout_is_paced [OF _ _ _ k(1) _ r, where other = "JStr ''Bob''"] r by (simp add: k)
qed

section \<open>A deleted opener still counts\<close>

lemma py_filter_eq:
  "py_filter p xs = Inr ys \<longleftrightarrow> (\<forall>x \<in> set xs. \<exists>b. p x = Inr b) \<and> ys = filter (\<lambda>x. p x = Inr True) xs"
proof -
  have "py_fold (\<lambda>out x. py_bind (p x) (\<lambda>b. Inr (if b then out @ [x] else out))) out xs = Inr ys
    \<longleftrightarrow> (\<forall>x \<in> set xs. \<exists>b. p x = Inr b) \<and> ys = out @ filter (\<lambda>x. p x = Inr True) xs" for out
  proof (induction xs arbitrary: out)
    case (Cons x xs)
    then show ?case by (cases "p x") auto
  qed auto
  from this [of "[]"] show ?thesis by (simp add: py_filter_def)
qed

lemma user_key_of_text:
  "user_key rp (JStr (py_strip (fstr rp (py_or u (JStr []))))) = user_key rp u"
proof -
  let ?s = "fstr rp (py_or u (JStr []))"
  obtain w1 w2 where w: "?s = w1 @ py_strip ?s @ w2" "\<forall>c \<in> set w1. is_space c" "\<forall>c \<in> set w2. is_space c"
    using strip_split by blast
  have "words_from [] (w1 @ py_strip ?s @ w2) = words_from [] (py_strip ?s)"
    by (simp only: words_leading [OF w(2)] words_trailing [OF w(3)])
  then have e: "words_from [] (py_strip ?s) = words_from [] ?s" using w(1) by simp
  have "fstr rp (py_or (JStr t) (JStr [])) = t" for t by (simp add: py_or_def)
  then show ?thesis unfolding user_key_def Let_def by (simp only: e)
qed

lemma iter_delete:
  "iter_chats (delete_chat name g) = filter (\<lambda>e. ce_name e \<noteq> name) (iter_chats g)"
proof (cases "chats g")
  case (Some d)
  have sel: "List.map_filter (entry_of_file (dpop name d)) (filter (\<lambda>n. n \<noteq> name) ns) =
      filter (\<lambda>e. ce_name e \<noteq> name) (List.map_filter (entry_of_file d) ns)" for ns
    by (induction ns)
      (auto simp: List.map_filter_def entry_of_file_def split: option.splits prod.splits content.splits)
  let ?P = "\<lambda>n. endswith n ''.json'' \<and> \<not> list_ex (endswith n) skipped_suffixes"
  have "sort (filter ?P (dkeys (dpop name d))) = filter (\<lambda>n. n \<noteq> name) (sort (filter ?P (dkeys d)))"
    by (simp add: AList.delete_eq filter_map comp_def case_prod_beta filter_sort)
      (intro arg_cong [where f = "\<lambda>x. sort (dkeys x)"] filter_cong; auto)
  then show ?thesis by (simp add: iter_chats_def delete_chat_def Some sel)
qed (simp add: iter_chats_def delete_chat_def)

lemma entry_unique:
  assumes "chats g = Some d" "dget d name = Some (Parsed j, t)" "e \<in> set (iter_chats g)" "ce_name e = name"
  shows "e = \<lparr>ce_name = name, ce_data = j, ce_mtime = t\<rparr>"
  using assms
  by (auto simp: iter_chats_def entry_of_file_def List.map_filter_def split: option.splits prod.splits content.splits)

lemma count_expired_shift:
  assumes "py_fold (count_expired rp fs key lu) (seen, n) rs = Inr (s1, m)"
    and "\<forall>r \<in> set rs. fstr rp (py_or (jget r ''stem'') (JStr [])) \<noteq> x" "seen - {x} = seen' - {x}"
  shows "\<exists>k s1'. m = n + k \<and> py_fold (count_expired rp fs key lu) (seen', n') rs = Inr (s1', n' + k)
    \<and> s1 - {x} = s1' - {x} \<and> (x \<in> s1' \<longleftrightarrow> x \<in> seen')"
  using assms
proof (induction rs arbitrary: seen seen' n n')
  case (Cons r rs)
  let ?st = "fstr rp (py_or (jget r ''stem'') (JStr []))"
  have ne: "?st \<noteq> x" using Cons.prems(2) by simp
  have mem: "?st \<in> seen \<longleftrightarrow> ?st \<in> seen'" using Cons.prems(3) ne by blast
  obtain p where step: "count_expired rp fs key lu (seen, n) r = Inr p"
    and rest: "py_fold (count_expired rp fs key lu) p rs = Inr (s1, m)"
    using Cons.prems(1) by (auto simp: py_bind_eq_Inr)
  have "p = (seen, n) \<and> count_expired rp fs key lu (seen', n') r = Inr (seen', n')
      \<or> p = (insert ?st seen, n + 1) \<and> count_expired rp fs key lu (seen', n') r = Inr (insert ?st seen', n' + 1)"
    using step mem by (auto simp: count_expired_def Let_def py_bind_eq_Inr split: if_splits)
  then show ?case
  proof
    assume a: "p = (seen, n) \<and> count_expired rp fs key lu (seen', n') r = Inr (seen', n')"
    then show ?thesis using Cons.IH [of seen n seen' n'] rest Cons.prems(2,3) by simp
  next
    assume a: "p = (insert ?st seen, n + 1) \<and> count_expired rp fs key lu (seen', n') r = Inr (insert ?st seen', n' + 1)"
    have "insert ?st seen - {x} = insert ?st seen' - {x}" using Cons.prems(3) by blast
    then obtain k s1' where "m = n + 1 + k"
      "py_fold (count_expired rp fs key lu) (insert ?st seen', n' + 1) rs = Inr (s1', n' + 1 + k)"
      "s1 - {x} = s1' - {x}" "x \<in> s1' \<longleftrightarrow> x \<in> insert ?st seen'"
      using Cons.IH [of "insert ?st seen" "n + 1" "insert ?st seen'" "n' + 1"] rest Cons.prems(2) a by auto
    then show ?thesis using a ne by (intro exI [of _ "k + 1"] exI [of _ s1']) auto
  qed
qed simp

lemma filter_name_remove1:
  "distinct (List.map ce_name es) \<Longrightarrow> e0 \<in> set es \<Longrightarrow> ce_name e0 = name \<Longrightarrow>
   filter (\<lambda>e. ce_name e \<noteq> name) es = remove1 e0 es"
proof (induction es)
  case (Cons e es)
  show ?case
  proof (cases "e = e0")
    case True
    then have "\<forall>x \<in> set es. ce_name x \<noteq> name" using Cons.prems by (metis distinct.simps(2) image_eqI list.set_map list.simps(9))
    then show ?thesis using True Cons.prems(3) by (simp add: filter_True)
  next
    case False
    then have "ce_name e \<noteq> name" using Cons.prems by auto
    then show ?thesis using Cons False by simp
  qed
qed simp

text \<open>Deleting an ignored opener does not forget it. When the sweep writes the tombstone of an unanswered
  opener and then deletes the transcript, nobody's streak of unanswered messages changes, so the backoff
  window does not shrink as the silence grows.\<close>

theorem sweep_keeps_streak:
  assumes "chats g = Some d" "dget d name = Some (Parsed (JObj d0), t)"
    and "expired_log g = Some f" "readable f"
    and "is_unanswered_opener d0 = Inr True"
    and "py_strip (path_stem name) = path_stem name" "path_stem name \<noteq> []"
    and "\<forall>e \<in> set (iter_chats g). ce_name e \<noteq> name \<longrightarrow> path_stem (ce_name e) \<noteq> path_stem name"
    and "\<lparr>ce_name = name, ce_data = JObj d0, ce_mtime = t\<rparr> \<in> set (iter_chats g)" "distinct (List.map ce_name (iter_chats g))"
    and "\<forall>r \<in> set (iter_expired g). fstr (ge_repr v) (py_or (jget r ''stem'') (JStr [])) \<noteq> path_stem name"
    and "unanswered_streak v u g = Inr n"
  defines "sent \<equiv> sent_at (ge_stem_time v) (ge_iso_time v) \<lparr>ce_name = name, ce_data = JObj d0, ce_mtime = t\<rparr> d0"
  shows "unanswered_streak v u (delete_chat name
    (snd (record_expired (ge_repr v) now (path_stem name) (jget d0 ''user'') sent opener g))) = Inr n"
proof -
  let ?e0 = "\<lparr>ce_name = name, ce_data = JObj d0, ce_mtime = t\<rparr>"
  let ?rp = "ge_repr v" let ?key = "user_key ?rp u" let ?x = "path_stem name"
  define rec where "rec = [(''stem'', JStr ?x), (''user'', JStr (py_strip (fstr ?rp (py_or (jget d0 ''user'') (JStr []))))),
              (''sent_at'', JFloat sent), (''opener'', JStr opener), (''expired_at'', JFloat now)]"
  define g' where "g' = delete_chat name (snd (record_expired ?rp now ?x (jget d0 ''user'') sent opener g))"
  have rec: "jget rec ''stem'' = JStr ?x" "user_key ?rp (jget rec ''user'') = user_key ?rp (jget d0 ''user'')"
    "expired_sent_at fs rec = Inr sent" for fs
    by (simp_all add: rec_def user_key_of_text expired_sent_at_def) (simp add: py_or_def)
  have chats': "iter_chats g' = filter (\<lambda>e. ce_name e \<noteq> name) (iter_chats g)"
    using iter_delete [of name "snd (record_expired ?rp now ?x (jget d0 ''user'') sent opener g)"]
    by (simp add: g'_def record_expired_def iter_chats_def assms(3,6,7))
  have exp': "iter_expired g' = iter_expired g @ [rec]"
    using assms(4,7) rec(1)
    by (simp add: g'_def record_expired_def delete_chat_def iter_expired_def assms(3,6) rec_def List.map_filter_def)
  have only: "e = ?e0" if "e \<in> set (iter_chats g)" "ce_name e = name" for e
    using entry_unique [OF assms(1,2) that] .
  obtain lu live where lu: "last_user_turn_ts ?rp ?key g = Inr lu"
    and live: "py_filter (counts_live ?rp (ge_stem_time v) (ge_iso_time v) ?key lu) (iter_chats g) = Inr live"
    and cnt: "\<exists>s1. py_fold (count_expired ?rp (ge_float v) ?key lu)
      (set (List.map (\<lambda>e. path_stem (ce_name e)) live), length live) (iter_expired g) = Inr (s1, n)"
    using assms(12) by (auto simp: unanswered_streak_def Let_def py_bind_eq_Inr)
  let ?turn = "\<lambda>e. py_bind (as_dict (ce_data e)) (\<lambda>d. py_bind (has_user_turn d) (\<lambda>h. Inr (h \<and> matches ?rp d ?key)))"
  obtain es where es: "py_filter ?turn (iter_chats g) = Inr es"
    using lu by (auto simp: last_user_turn_ts_def py_bind_eq_Inr)
  then have "\<exists>b. ?turn ?e0 = Inr b" using assms(9) unfolding py_filter_eq by blast
  then have "\<exists>h. has_user_turn d0 = Inr h" by (auto simp: py_bind_eq_Inr)
  then have "has_user_turn d0 = Inr False" using assms(5)
    by (auto simp: has_user_turn_def py_bind_eq_Inr split: if_splits)
  then have t0: "?turn ?e0 = Inr False" by simp
  have "py_filter ?turn (iter_chats g') = Inr es"
  proof -
    have "filter (\<lambda>e. ?turn e = Inr True) (filter (\<lambda>e. ce_name e \<noteq> name) (iter_chats g))
        = filter (\<lambda>e. ?turn e = Inr True) (iter_chats g)"
    proof -
      have "ce_name e \<noteq> name" if "e \<in> set (iter_chats g)" "?turn e = Inr True" for e
      proof
        assume "ce_name e = name"
        then have "e = ?e0" using only that(1) by blast
        then show False using t0 that(2) by simp
      qed
      then show ?thesis unfolding filter_filter by (intro filter_cong) auto
    qed
    then show ?thesis using es unfolding chats' py_filter_eq by auto
  qed
  then have lu': "last_user_turn_ts ?rp ?key g' = Inr lu"
    using lu es by (simp add: last_user_turn_ts_def)
  let ?C = "matches ?rp d0 ?key \<and> after sent lu"
  have c0: "counts_live ?rp (ge_stem_time v) (ge_iso_time v) ?key lu ?e0 = Inr ?C"
    using assms(5) by (simp add: counts_live_def sent_def)
  have live': "py_filter (counts_live ?rp (ge_stem_time v) (ge_iso_time v) ?key lu) (iter_chats g') =
      Inr (filter (\<lambda>e. ce_name e \<noteq> name) live)"
    using live unfolding chats' py_filter_eq by (auto simp: conj_commute)
  let ?live' = "filter (\<lambda>e. ce_name e \<noteq> name) live"
  let ?stems = "\<lambda>es. set (List.map (\<lambda>e. path_stem (ce_name e)) es)"
  have sub: "set live \<subseteq> set (iter_chats g)" "distinct (List.map ce_name live)"
    using live assms(10) unfolding py_filter_eq by (auto simp: distinct_map_filter)
  have mem: "?e0 \<in> set live \<longleftrightarrow> ?C" using live c0 assms(9) unfolding py_filter_eq by auto
  have stems: "?stems live - {?x} = ?stems ?live' - {?x}" "?x \<notin> ?stems ?live'"
    using assms(8) sub(1) by auto
  obtain s1 where cnt1: "py_fold (count_expired ?rp (ge_float v) ?key lu) (?stems live, length live) (iter_expired g) = Inr (s1, n)"
    using cnt by blast
  obtain k s1' where k: "n = length live + k"
    "py_fold (count_expired ?rp (ge_float v) ?key lu) (?stems ?live', length ?live') (iter_expired g) = Inr (s1', length ?live' + k)"
    "?x \<in> s1' \<longleftrightarrow> ?x \<in> ?stems ?live'"
    using count_expired_shift [OF cnt1 assms(11) stems(1), of "length ?live'"] by blast
  have len: "length ?live' = (if ?C then length live - 1 else length live)"
  proof (cases ?C)
    case True
    then have "filter (\<lambda>e. ce_name e \<noteq> name) live = remove1 ?e0 live"
      using mem sub only by (intro filter_name_remove1) auto
    then show ?thesis using True mem by (simp add: length_remove1)
  next
    case False
    have "ce_name e \<noteq> name" if "e \<in> set live" for e
    proof
      assume "ce_name e = name"
      then have "e = ?e0" using only [of e] sub(1) that by blast
      then show False using that mem False by simp
    qed
    then have "filter (\<lambda>e. ce_name e \<noteq> name) live = live" by (simp add: filter_id_conv)
    then show ?thesis by (simp only: if_not_P [OF False])
  qed
  have last: "\<exists>s2. count_expired ?rp (ge_float v) ?key lu (s1', length ?live' + k) rec = Inr (s2, n)"
  proof -
    have "live \<noteq> []" if ?C using that mem by auto
    then have n: "n = (if ?C then Suc (length ?live' + k) else length ?live' + k)" using len k(1) by (cases live) auto
    have ns: "?x \<notin> s1'" using k(3) stems(2) by blast
    have st: "fstr ?rp (py_or (jget rec ''stem'') (JStr [])) = ?x" using rec(1) assms(7) by (simp add: py_or_def)
    have m: "matches ?rp d0 ?key \<longleftrightarrow> \<not> (?key \<noteq> [] \<and> user_key ?rp (jget rec ''user'') \<noteq> ?key)"
      by (simp add: matches_def rec(2))
    have a: "(if lu = None then Inr True
              else py_bind (expired_sent_at (ge_float v) rec) (\<lambda>t. Inr (after t lu))) = Inr (after sent lu)"
      by (simp add: rec(3) after_def)
    have "count_expired ?rp (ge_float v) ?key lu (s1', length ?live' + k) rec =
        Inr (if ?C then (insert ?x s1', length ?live' + k + 1) else (s1', length ?live' + k))"
      unfolding count_expired_def Let_def prod.case st a using ns m by simp
    then show ?thesis using n by simp
  qed
  then have "\<exists>s2. py_fold (count_expired ?rp (ge_float v) ?key lu) (?stems ?live', length ?live') (iter_expired g') = Inr (s2, n)"
    using k(2) by (auto simp: exp' py_fold_append)
  then show ?thesis
    using lu' live' by (auto simp: g'_def [symmetric] unanswered_streak_def Let_def)
qed

theorem sweep_keeps_streak_witness:
  "unanswered_streak sample_gate_env (JStr ''Dana'') sample_gate = Inr 1
   \<and> unanswered_streak sample_gate_env (JStr ''Dana'') (delete_chat ''b.json''
       (snd (record_expired (ge_repr sample_gate_env) 9 ''b'' (JStr '' Dana  Scully'') 200 ''hello?'' sample_gate))) = Inr 1"
proof -
  let ?opn = "[(''user'', JStr '' Dana  Scully''), (''initiated_by'', JStr ''ava''), (''exchanges'', JList [JNull])]"
  let ?corp = "[(''a.json'', Parsed (JObj [(''user'', JStr ''Dana''), (''exchanges'', JList [JNull, JNull])]), Some 150),
       (''b.json'', Parsed (JObj ?opn), Some 250)]"
  have s: "unanswered_streak sample_gate_env (JStr ''Dana'') sample_gate = Inr 1" by code_simp
  have c: "chats sample_gate = Some ?corp" "dget ?corp ''b.json'' = Some (Parsed (JObj ?opn), Some 250)"
    "expired_log sample_gate = Some None" by (simp_all add: sample_gate_def)
  have o: "is_unanswered_opener ?opn = Inr True" "path_stem ''b.json'' = ''b''" "py_strip ''b'' = ''b''" by code_simp+
  have it: "iter_chats sample_gate =
      [\<lparr>ce_name = ''a.json'', ce_data = JObj [(''user'', JStr ''Dana''), (''exchanges'', JList [JNull, JNull])], ce_mtime = Some 150\<rparr>,
       \<lparr>ce_name = ''b.json'', ce_data = JObj ?opn, ce_mtime = Some 250\<rparr>]" "iter_expired sample_gate = []"
    "path_stem ''a.json'' = ''a''" by code_simp+
  have sent: "sent_at (ge_stem_time sample_gate_env) (ge_iso_time sample_gate_env)
      \<lparr>ce_name = ''b.json'', ce_data = JObj ?opn, ce_mtime = Some 250\<rparr> ?opn = 200" by code_simp
  show ?thesis
    using s sweep_keeps_streak [OF c _ o(1) _ _ _ _ _ _ s, of 9 "''hello?''"]
    by (simp add: o it sent readable_def)
qed

end
