(* ===== verification/Idle_Scheduler.thy ===== *)
theory Idle_Scheduler
  imports Gist
begin

text \<open>
  \<open>server/inference/core/idle_scheduler.py\<close>: the idle jobs of the box and the lock they share. Every job is a
  coroutine; a step is what runs between two points where a coroutine can be suspended, or what a job's body
  does on the executor thread. Jobs are numbered in the order of registration. What the rest of the server
  answers (whether the box is taken, the model loaded, the weights foreign, a job ready) is a record of
  answers a step is given; \<open>mono\<close> in it is \<open>time.monotonic()\<close>.
\<close>

section \<open>Jobs, answers and state\<close>

record idle_job =
  ij_name :: string
  ij_interval :: rat
  ij_has_ready :: bool
  ij_consumed :: "(jobj \<Rightarrow> string + bool) option"
  ij_idle_seconds :: "rat option"
  ij_describe :: "(jobj \<Rightarrow> string + string) option"
  ij_needs_model :: bool

text \<open>\<open>os.kill(pid, 0)\<close>\<close>

datatype probe = Signalled | No_Process | No_Permission | Probe_Failed

record box =
  mono :: rat
  external_busy :: bool
  model_loaded :: bool
  serving_mismatch :: "string + string"
  ready_answer :: "string + bool"
  probe_pid :: "int \<Rightarrow> probe"
  stamp :: string
  lock_writes :: bool

datatype run_end = Body_Returned json | Body_Raised string

datatype phase = Waiting | Queued | Submitted | Executing | Finished run_end

record scheduler =
  phases :: "phase list"
  ran_at :: "rat option list"
  waiters :: "nat list"
  gpu_holder :: "nat option"
  last_activity :: rat
  wake_file :: "json content option"
  ambient :: "string option"
  chip :: "string option"
  last_skip :: "(string, string) dict"
  hold_reason :: json
  journal :: "(string \<times> string \<times> string) list"

text \<open>The scheduler-wide settings \<open>configure\<close> stores, and the process the scheduler is.\<close>

record sched_config =
  sc_idle_seconds :: rat
  sc_poll_seconds :: rat
  sc_lock_file :: bool
  own_pid :: int

definition poll_interval :: "sched_config \<Rightarrow> idle_job \<Rightarrow> rat" where
  "poll_interval c j = max 1 (min (sc_poll_seconds c) (ij_interval j))"

section \<open>When a job may run\<close>

definition gpu_busy :: "scheduler \<Rightarrow> bool" where
  "gpu_busy s = (gpu_holder s \<noteq> None)"

definition host_busy :: "box \<Rightarrow> scheduler \<Rightarrow> bool" where
  "host_busy b s = (gpu_busy s \<or> external_busy b)"

definition mark_activity :: "rat \<Rightarrow> scheduler \<Rightarrow> scheduler" where
  "mark_activity t s = s\<lparr>last_activity := t\<rparr>"

definition seconds_idle :: "box \<Rightarrow> scheduler \<Rightarrow> rat" where
  "seconds_idle b s = mono b - last_activity s"

definition idle_window :: "sched_config \<Rightarrow> idle_job \<Rightarrow> rat" where
  "idle_window c j = (case ij_idle_seconds j of None \<Rightarrow> sc_idle_seconds c | Some w \<Rightarrow> w)"

definition job_idle_ok :: "sched_config \<Rightarrow> idle_job \<Rightarrow> box \<Rightarrow> scheduler \<Rightarrow> bool" where
  "job_idle_ok c j b s = (idle_window c j \<le> seconds_idle b s)"

text \<open>\<open>job._last_ran\<close> starts at minus infinity: \<open>None\<close>.\<close>

definition job_due :: "idle_job \<Rightarrow> box \<Rightarrow> rat option \<Rightarrow> bool" where
  "job_due j b lr =
     (if (case lr of None \<Rightarrow> False | Some t \<Rightarrow> mono b - t < ij_interval j) then False
      else if ij_has_ready j then (case ready_answer b of Inl _ \<Rightarrow> False | Inr r \<Rightarrow> r)
      else True)"

definition held :: "idle_job \<Rightarrow> box \<Rightarrow> string" where
  "held j b = (if \<not> ij_needs_model j then [] else case serving_mismatch b of Inl _ \<Rightarrow> [] | Inr r \<Rightarrow> r)"

section \<open>The wake-lock\<close>

definition pid_alive :: "(int \<Rightarrow> probe) \<Rightarrow> int \<Rightarrow> bool" where
  "pid_alive kill0 pid =
     (if pid \<le> 0 then False
      else case kill0 pid of No_Process \<Rightarrow> False | No_Permission \<Rightarrow> True | Probe_Failed \<Rightarrow> False | Signalled \<Rightarrow> True)"

text \<open>\<open>int(held.get("pid", 0) or 0)\<close>\<close>

definition held_pid :: "json \<Rightarrow> int py" where
  "held_pid h = py_bind (as_dict h) (\<lambda>d. py_int_of (py_or (jget_or d ''pid'' (JInt 0)) (JInt 0)))"

definition acquire_wake_lock :: "sched_config \<Rightarrow> box \<Rightarrow> scheduler \<Rightarrow> bool \<times> scheduler" where
  "acquire_wake_lock c b s =
     (if \<not> sc_lock_file c then (False, s)
      else
        let taken = (case wake_file s of
              None \<Rightarrow> Inr False
            | Some f \<Rightarrow> py_bind (held_pid (case f of Parsed j \<Rightarrow> j | Unreadable \<Rightarrow> JObj [])) (\<lambda>pid.
                Inr (pid \<noteq> 0 \<and> pid \<noteq> own_pid c \<and> pid_alive (probe_pid b) pid)))
        in if taken = Inr False \<and> lock_writes b
           then (True, s\<lparr>wake_file := Some (Parsed (JObj [(''pid'', JInt (own_pid c)), (''ts'', JStr (stamp b))]))\<rparr>)
           else (False, s))"

definition release_wake_lock :: "sched_config \<Rightarrow> scheduler \<Rightarrow> scheduler" where
  "release_wake_lock c s = (if sc_lock_file c then s\<lparr>wake_file := None\<rparr> else s)"

definition clear_stale_lock :: "sched_config \<Rightarrow> box \<Rightarrow> scheduler \<Rightarrow> scheduler" where
  "clear_stale_lock c b s =
     (case wake_file s of
        Some (Parsed h) \<Rightarrow>
          (case held_pid h of
             Inr pid \<Rightarrow> if \<not> pid_alive (probe_pid b) pid then release_wake_lock c s else s
           | Inl _ \<Rightarrow> s)
      | _ \<Rightarrow> s)"

text \<open>A lock file that holds JSON but no object is neither reclaimed nor cleared: no job runs until it is removed.\<close>

lemma odd_wake_lock_wedges:
  "wake_file s = Some (Parsed (JList xs)) \<Longrightarrow> acquire_wake_lock c b s = (False, s) \<and> clear_stale_lock c b s = s"
  by (simp add: acquire_wake_lock_def clear_stale_lock_def held_pid_def)

section \<open>The activity journal\<close>

definition log_activity :: "string \<Rightarrow> string \<Rightarrow> string \<Rightarrow> scheduler \<Rightarrow> scheduler" where
  "log_activity src kind msg s = s\<lparr>journal := journal s @ [(src, kind, msg)]\<rparr>"

definition summarize :: "(json \<Rightarrow> string) \<Rightarrow> idle_job \<Rightarrow> json \<Rightarrow> string \<times> string" where
  "summarize rp j result =
     (let finished = (''finished'', ij_name j @ '' finished'') in
      case result of
        JObj d \<Rightarrow>
          if truthy (jget d ''error'') then (''failed'', ij_name j @ '' failed: '' @ fstr rp (jget d ''error''))
          else if truthy (jget d ''skipped'') then (''skipped'', ij_name j @ '' skipped: '' @ fstr rp (jget d ''skipped''))
          else (case ij_describe j of
              None \<Rightarrow> finished
            | Some g \<Rightarrow> (case g d of
                  Inl _ \<Rightarrow> finished
                | Inr msg \<Rightarrow> if msg \<noteq> [] then (''finished'', msg) else finished))
      | _ \<Rightarrow> finished)"

definition emit_terminal :: "(json \<Rightarrow> string) \<Rightarrow> idle_job \<Rightarrow> json \<Rightarrow> scheduler \<Rightarrow> scheduler" where
  "emit_terminal rp j result s =
     (case summarize rp j result of (kind, message) \<Rightarrow>
        if kind = ''skipped'' then
          if dget (last_skip s) (ij_name j) = Some message then s
          else log_activity (ij_name j) kind message (s\<lparr>last_skip := dset (ij_name j) message (last_skip s)\<rparr>)
        else log_activity (ij_name j) kind message (s\<lparr>last_skip := dpop (ij_name j) (last_skip s)\<rparr>))"

definition note_hold :: "(json \<Rightarrow> string) \<Rightarrow> json \<Rightarrow> scheduler \<Rightarrow> scheduler" where
  "note_hold rp reason s =
     (if json_eq reason (hold_reason s) then s
      else let s1 = s\<lparr>hold_reason := reason\<rparr> in
        if truthy reason
        then log_activity ''idle'' ''skipped'' (''background jobs held: '' @ fstr rp reason @
          '' (a Training-review regeneration leaves its adapter loaded; restart the server to load the configured one)'') s1
        else log_activity ''idle'' ''finished'' ''background jobs resumed: the configured adapter is loaded'' s1)"

definition held_key :: string where
  "held_key = ''_serving_mismatch''"

section \<open>The steps of a job\<close>

definition set_phase :: "nat \<Rightarrow> phase \<Rightarrow> scheduler \<Rightarrow> scheduler" where
  "set_phase i p s = s\<lparr>phases := (phases s)[i := p]\<rparr>"

text \<open>\<open>_job_loop\<close> after its sleep: a job that may run asks for the GPU lock, whose waiters are served in order.\<close>

definition poll_job :: "sched_config \<Rightarrow> idle_job \<Rightarrow> box \<Rightarrow> nat \<Rightarrow> scheduler \<Rightarrow> scheduler" where
  "poll_job c j b i s =
     (if \<not> model_loaded b then s
      else if \<not> job_idle_ok c j b s then s
      else if \<not> job_due j b (ran_at s ! i) then s
      else set_phase i Queued (s\<lparr>waiters := waiters s @ [i]\<rparr>))"

text \<open>
  \<open>_dispatch\<close> from the moment the lock is granted to the first waiter until the job is handed to the executor;
  every early return gives the lock back at once.
\<close>

definition grant_job :: "(json \<Rightarrow> string) \<Rightarrow> sched_config \<Rightarrow> idle_job \<Rightarrow> box \<Rightarrow> nat \<Rightarrow> scheduler \<Rightarrow> bool \<times> scheduler" where
  "grant_job rp c j b i s0 =
     (let s = s0\<lparr>waiters := tl (waiters s0)\<rparr>; quit = (\<lambda>u. (False, set_phase i Waiting u)) in
      if external_busy b then quit s
      else if \<not> model_loaded b \<or> \<not> job_idle_ok c j b s \<or> \<not> job_due j b (ran_at s ! i) then quit s
      else if held j b \<noteq> [] then quit (note_hold rp (JStr (held j b)) s)
      else (case acquire_wake_lock c b s of
          (False, s1) \<Rightarrow> quit s1
        | (True, s1) \<Rightarrow> (True, set_phase i Submitted (s1\<lparr>gpu_holder := Some i, chip := Some (ij_name j)\<rparr>))))"

text \<open>\<open>_labelled_run\<close> on the executor thread, up to the body and from its end.\<close>

definition strip_label :: "string \<Rightarrow> string option" where
  "strip_label l = (if py_strip l = [] then None else Some (py_strip l))"

definition execute_job :: "idle_job \<Rightarrow> box \<Rightarrow> nat \<Rightarrow> scheduler \<Rightarrow> scheduler" where
  "execute_job j b i s =
     (if held j b \<noteq> [] then set_phase i (Finished (Body_Returned (JObj [(held_key, JStr (held j b))]))) s
      else set_phase i Executing (s\<lparr>ambient := strip_label (ij_name j)\<rparr>))"

definition body_label :: "string \<Rightarrow> scheduler \<Rightarrow> scheduler" where
  "body_label l s = s\<lparr>ambient := strip_label l\<rparr>"

definition body_end :: "run_end \<Rightarrow> nat \<Rightarrow> scheduler \<Rightarrow> scheduler" where
  "body_end r i s = set_phase i (Finished r) (s\<lparr>ambient := None\<rparr>)"

text \<open>\<open>_dispatch\<close> after the executor: whether the attempt spent the interval, and the state it leaves.\<close>

definition job_failed :: "idle_job \<Rightarrow> string \<Rightarrow> scheduler \<Rightarrow> bool \<times> scheduler" where
  "job_failed j e s =
     (True, log_activity (ij_name j) ''failed'' (ij_name j @ '' failed: '' @ e) (s\<lparr>last_skip := dpop (ij_name j) (last_skip s)\<rparr>))"

definition record_result :: "(json \<Rightarrow> string) \<Rightarrow> idle_job \<Rightarrow> run_end \<Rightarrow> scheduler \<Rightarrow> bool \<times> scheduler" where
  "record_result rp j r s =
     (case r of
        Body_Raised e \<Rightarrow> job_failed j e s
      | Body_Returned result \<Rightarrow>
          if truthy (jget (obj_of result) held_key) then (False, note_hold rp (jget (obj_of result) held_key) s)
          else
            let s1 = (if ij_needs_model j then note_hold rp (JStr []) s else s) in
            (case (case (result, ij_consumed j) of (JObj d, Some g) \<Rightarrow> g d | _ \<Rightarrow> Inr True) of
               Inl e \<Rightarrow> job_failed j e s1
             | Inr consumed \<Rightarrow> (consumed, emit_terminal rp j result s1)))"

definition conclude_job :: "(json \<Rightarrow> string) \<Rightarrow> sched_config \<Rightarrow> idle_job \<Rightarrow> rat \<Rightarrow> nat \<Rightarrow> run_end \<Rightarrow> scheduler \<Rightarrow> bool \<times> scheduler" where
  "conclude_job rp c j t i r s =
     (case record_result rp j r s of
        (consumed, s1) \<Rightarrow>
          let s2 = release_wake_lock c (s1\<lparr>chip := None\<rparr>);
              s3 = (if consumed then s2\<lparr>ran_at := (ran_at s2)[i := Some t]\<rparr> else s2)
          in (consumed, set_phase i Waiting (s3\<lparr>gpu_holder := None\<rparr>)))"

section \<open>What can happen, in any order\<close>

datatype idle_event =
    Activity rat
  | Polled nat
  | Granted nat rat bool
  | Executed nat
  | Labelled
  | Ended nat
  | Concluded nat rat bool

record sched_setup =
  su_repr :: "json \<Rightarrow> string"
  su_config :: sched_config
  su_jobs :: "idle_job list"

definition started_scheduler :: "sched_setup \<Rightarrow> rat \<Rightarrow> json content option \<Rightarrow> scheduler" where
  "started_scheduler u t0 f = \<lparr>phases = replicate (length (su_jobs u)) Waiting, ran_at = replicate (length (su_jobs u)) None,
     waiters = [], gpu_holder = None, last_activity = t0, wake_file = f, ambient = None, chip = None, last_skip = [],
     hold_reason = JStr [], journal = []\<rparr>"

inductive idle_step :: "sched_setup \<Rightarrow> idle_event \<Rightarrow> scheduler \<Rightarrow> scheduler \<Rightarrow> bool" for u where
  activity: "idle_step u (Activity t) s (mark_activity t s)"
| poll: "i < length (su_jobs u) \<Longrightarrow> phases s ! i = Waiting \<Longrightarrow>
    idle_step u (Polled i) s (poll_job (su_config u) (su_jobs u ! i) b i s)"
| grant: "gpu_holder s = None \<Longrightarrow> waiters s = i # w \<Longrightarrow>
    grant_job (su_repr u) (su_config u) (su_jobs u ! i) b i s = (go, s') \<Longrightarrow> idle_step u (Granted i (mono b) go) s s'"
| execute: "i < length (su_jobs u) \<Longrightarrow> phases s ! i = Submitted \<Longrightarrow>
    idle_step u (Executed i) s (execute_job (su_jobs u ! i) b i s)"
| label: "i < length (su_jobs u) \<Longrightarrow> phases s ! i = Executing \<Longrightarrow> idle_step u Labelled s (body_label l s)"
| body: "i < length (su_jobs u) \<Longrightarrow> phases s ! i = Executing \<Longrightarrow> idle_step u (Ended i) s (body_end r i s)"
| conclude: "i < length (su_jobs u) \<Longrightarrow> phases s ! i = Finished r \<Longrightarrow>
    conclude_job (su_repr u) (su_config u) (su_jobs u ! i) t i r s = (spent, s') \<Longrightarrow> idle_step u (Concluded i t spent) s s'"

inductive_cases grantedE: "idle_step u (Granted i t go) s s'"

text \<open>Runs from a state, newest event first, and the histories of a scheduler since it started.\<close>

inductive idle_steps :: "sched_setup \<Rightarrow> scheduler \<Rightarrow> idle_event list \<Rightarrow> scheduler \<Rightarrow> bool" for u s where
  none: "idle_steps u s [] s"
| more: "idle_steps u s h s1 \<Longrightarrow> idle_step u ev s1 s2 \<Longrightarrow> idle_steps u s (ev # h) s2"

inductive_cases idle_steps_ConsE: "idle_steps u s (ev # h) s'"

definition idle_reach :: "sched_setup \<Rightarrow> idle_event list \<Rightarrow> scheduler \<Rightarrow> bool" where
  "idle_reach u h s = (\<exists>t0 f. idle_steps u (started_scheduler u t0 f) h s)"

lemma idle_reach_induct [consumes 1, case_names start step]:
  assumes "idle_reach u h s" "\<And>t0 f. P [] (started_scheduler u t0 f)"
    "\<And>h s ev s'. idle_reach u h s \<Longrightarrow> P h s \<Longrightarrow> idle_step u ev s s' \<Longrightarrow> P (ev # h) s'"
  shows "P h s"
proof -
  obtain t0 f where "idle_steps u (started_scheduler u t0 f) h s" using assms(1) by (auto simp: idle_reach_def)
  then show ?thesis
  proof induction
    case (more h s1 ev s2)
    then show ?case using assms(3) [of h s1 ev s2] by (auto simp: idle_reach_def)
  qed (rule assms(2))
qed

text \<open>When the history says a job last spent its interval, and when the box was last active.\<close>

fun last_spent :: "nat \<Rightarrow> idle_event list \<Rightarrow> rat option" where
  "last_spent i [] = None"
| "last_spent i (Concluded k t True # h) = (if k = i then Some t else last_spent i h)"
| "last_spent i (_ # h) = last_spent i h"

section \<open>What each step leaves alone\<close>

lemma frame_of_logging [frame_simps]:
  "phases (note_hold rp r s) = phases s" "ran_at (note_hold rp r s) = ran_at s" "waiters (note_hold rp r s) = waiters s"
  "gpu_holder (note_hold rp r s) = gpu_holder s" "last_activity (note_hold rp r s) = last_activity s"
  "wake_file (note_hold rp r s) = wake_file s" "ambient (note_hold rp r s) = ambient s" "chip (note_hold rp r s) = chip s"
  "phases (emit_terminal rp j v s) = phases s" "ran_at (emit_terminal rp j v s) = ran_at s"
  "waiters (emit_terminal rp j v s) = waiters s" "gpu_holder (emit_terminal rp j v s) = gpu_holder s"
  "last_activity (emit_terminal rp j v s) = last_activity s" "wake_file (emit_terminal rp j v s) = wake_file s"
  "ambient (emit_terminal rp j v s) = ambient s" "chip (emit_terminal rp j v s) = chip s"
  by (simp_all add: note_hold_def emit_terminal_def log_activity_def Let_def split: prod.splits)

lemma frame_of_result [frame_simps]:
  "phases (snd (record_result rp j r s)) = phases s" "ran_at (snd (record_result rp j r s)) = ran_at s"
  "waiters (snd (record_result rp j r s)) = waiters s" "gpu_holder (snd (record_result rp j r s)) = gpu_holder s"
  "last_activity (snd (record_result rp j r s)) = last_activity s" "wake_file (snd (record_result rp j r s)) = wake_file s"
  "ambient (snd (record_result rp j r s)) = ambient s" "chip (snd (record_result rp j r s)) = chip s"
  by (simp_all add: record_result_def job_failed_def log_activity_def Let_def frame_simps split: run_end.splits sum.splits)

lemma frame_of_wake [frame_simps]:
  "phases (snd (acquire_wake_lock c b s)) = phases s" "ran_at (snd (acquire_wake_lock c b s)) = ran_at s"
  "waiters (snd (acquire_wake_lock c b s)) = waiters s" "gpu_holder (snd (acquire_wake_lock c b s)) = gpu_holder s"
  "last_activity (snd (acquire_wake_lock c b s)) = last_activity s" "ambient (snd (acquire_wake_lock c b s)) = ambient s"
  "chip (snd (acquire_wake_lock c b s)) = chip s" "phases (release_wake_lock c s) = phases s"
  "ran_at (release_wake_lock c s) = ran_at s" "waiters (release_wake_lock c s) = waiters s"
  "gpu_holder (release_wake_lock c s) = gpu_holder s" "last_activity (release_wake_lock c s) = last_activity s"
  "ambient (release_wake_lock c s) = ambient s" "chip (release_wake_lock c s) = chip s"
  by (simp_all add: acquire_wake_lock_def release_wake_lock_def Let_def)

text \<open>The lock is granted to the first waiter, who either starts or steps back.\<close>

lemma grant_cases:
  assumes "grant_job rp c j b i s = (go, s')"
  shows "waiters s' = tl (waiters s)" "ran_at s' = ran_at s" "last_activity s' = last_activity s" "ambient s' = ambient s"
    "go \<Longrightarrow> phases s' = (phases s)[i := Submitted] \<and> gpu_holder s' = Some i \<and> chip s' = Some (ij_name j)
       \<and> \<not> external_busy b \<and> model_loaded b \<and> job_idle_ok c j b s \<and> job_due j b (ran_at s ! i) \<and> held j b = []
       \<and> (\<exists>ts. wake_file s' = Some (Parsed (JObj [(''pid'', JInt (own_pid c)), (''ts'', JStr ts)])))"
    "\<not> go \<Longrightarrow> phases s' = (phases s)[i := Waiting] \<and> gpu_holder s' = gpu_holder s \<and> chip s' = chip s \<and> wake_file s' = wake_file s"
proof -
  have wake: "\<not> fst (acquire_wake_lock c b u) \<Longrightarrow> snd (acquire_wake_lock c b u) = u"
      "fst (acquire_wake_lock c b u) \<Longrightarrow> \<exists>ts. wake_file (snd (acquire_wake_lock c b u))
        = Some (Parsed (JObj [(''pid'', JInt (own_pid c)), (''ts'', JStr ts)]))" for u
    by (auto simp: acquire_wake_lock_def Let_def)
  obtain ok s1 where a: "acquire_wake_lock c b (s\<lparr>waiters := tl (waiters s)\<rparr>) = (ok, s1)"
    by (cases "acquire_wake_lock c b (s\<lparr>waiters := tl (waiters s)\<rparr>)")
  have f: "phases s1 = phases s" "ran_at s1 = ran_at s" "waiters s1 = tl (waiters s)" "gpu_holder s1 = gpu_holder s"
      "last_activity s1 = last_activity s" "ambient s1 = ambient s" "chip s1 = chip s"
    using frame_of_wake(1-7) [of c b "s\<lparr>waiters := tl (waiters s)\<rparr>"] by (simp_all add: a)
  have w: "\<not> ok \<Longrightarrow> wake_file s1 = wake_file s"
      "ok \<Longrightarrow> \<exists>ts. wake_file s1 = Some (Parsed (JObj [(''pid'', JInt (own_pid c)), (''ts'', JStr ts)]))"
    using wake [of "s\<lparr>waiters := tl (waiters s)\<rparr>"] by (auto simp: a)
  note d = assms [unfolded grant_job_def Let_def a]
  have idle: "job_idle_ok c j b (s\<lparr>waiters := x\<rparr>) = job_idle_ok c j b s" for x
    by (simp add: job_idle_ok_def seconds_idle_def)
  show "waiters s' = tl (waiters s)" "ran_at s' = ran_at s" "last_activity s' = last_activity s" "ambient s' = ambient s"
    using d by (auto simp: set_phase_def frame_simps f split: if_splits bool.splits)
  show "go \<Longrightarrow> phases s' = (phases s)[i := Submitted] \<and> gpu_holder s' = Some i \<and> chip s' = Some (ij_name j)
       \<and> \<not> external_busy b \<and> model_loaded b \<and> job_idle_ok c j b s \<and> job_due j b (ran_at s ! i) \<and> held j b = []
       \<and> (\<exists>ts. wake_file s' = Some (Parsed (JObj [(''pid'', JInt (own_pid c)), (''ts'', JStr ts)])))"
    using d w by (auto simp: set_phase_def f idle split: if_splits bool.splits)
  show "\<not> go \<Longrightarrow> phases s' = (phases s)[i := Waiting] \<and> gpu_holder s' = gpu_holder s \<and> chip s' = chip s \<and> wake_file s' = wake_file s"
    using d w by (auto simp: set_phase_def f frame_simps split: if_splits bool.splits)
qed

lemma conclude_cases:
  assumes "conclude_job rp c j t i r s = (spent, s')"
  shows "phases s' = (phases s)[i := Waiting]" "gpu_holder s' = None" "chip s' = None" "waiters s' = waiters s"
    "ambient s' = ambient s" "last_activity s' = last_activity s"
    "ran_at s' = (if spent then (ran_at s)[i := Some t] else ran_at s)" "spent = fst (record_result rp j r s)"
  using assms
  by (auto simp: conclude_job_def set_phase_def frame_simps Let_def prod_eq_iff split: prod.splits)

section \<open>One job on the GPU\<close>

fun on_gpu :: "phase \<Rightarrow> bool" where
  "on_gpu Waiting = False"
| "on_gpu Queued = False"
| "on_gpu _ = True"

definition names_us :: "sched_config \<Rightarrow> json content option \<Rightarrow> bool" where
  "names_us c f = (\<exists>ts. f = Some (Parsed (JObj [(''pid'', JInt (own_pid c)), (''ts'', JStr ts)])))"

text \<open>The jobs of a list of phases that wait for the lock, have it, or run their body.\<close>

definition queued :: "phase list \<Rightarrow> nat set" where
  "queued ps = {i. i < length ps \<and> ps ! i = Queued}"

definition holders :: "phase list \<Rightarrow> nat set" where
  "holders ps = {i. i < length ps \<and> on_gpu (ps ! i)}"

definition executing :: "phase list \<Rightarrow> nat set" where
  "executing ps = {i. i < length ps \<and> ps ! i = Executing}"

definition sched_ok :: "sched_setup \<Rightarrow> scheduler \<Rightarrow> bool" where
  "sched_ok u s = (length (phases s) = length (su_jobs u) \<and> length (ran_at s) = length (su_jobs u)
     \<and> distinct (waiters s) \<and> queued (phases s) = set (waiters s)
     \<and> holders (phases s) = set_option (gpu_holder s)
     \<and> (case gpu_holder s of None \<Rightarrow> chip s = None
        | Some i \<Rightarrow> chip s = Some (ij_name (su_jobs u ! i)) \<and> names_us (su_config u) (wake_file s))
     \<and> (ambient s \<noteq> None \<longrightarrow> executing (phases s) \<noteq> {}))"

lemma phase_update:
  assumes "i < length ps"
  shows "queued (ps[i := p]) = (if p = Queued then insert i (queued ps) else queued ps - {i})"
    "holders (ps[i := p]) = (if on_gpu p then insert i (holders ps) else holders ps - {i})"
    "executing (ps[i := p]) = (if p = Executing then insert i (executing ps) else executing ps - {i})"
  using assms by (auto simp: queued_def holders_def executing_def nth_list_update split: if_splits)

lemma phase_members:
  "i < length ps \<Longrightarrow> i \<in> queued ps \<longleftrightarrow> ps ! i = Queued"
  "i < length ps \<Longrightarrow> i \<in> holders ps \<longleftrightarrow> on_gpu (ps ! i)"
  "i < length ps \<Longrightarrow> i \<in> executing ps \<longleftrightarrow> ps ! i = Executing"
  by (simp_all add: queued_def holders_def executing_def)

lemma ok_start: "sched_ok u (started_scheduler u t0 f)"
  by (simp add: sched_ok_def started_scheduler_def queued_def holders_def cong: conj_cong)

lemma ok_poll:
  assumes "sched_ok u s" "i < length (su_jobs u)" "phases s ! i = Waiting"
  shows "sched_ok u (poll_job c j b i s)"
proof -
  have "i \<notin> queued (phases s)" "i \<notin> holders (phases s)" "i \<notin> executing (phases s)"
    using assms phase_members [of i "phases s"] by (simp_all add: sched_ok_def)
  then have "sched_ok u (set_phase i Queued (s\<lparr>waiters := waiters s @ [i]\<rparr>))"
    using assms(1,2) by (simp add: sched_ok_def set_phase_def phase_update split: option.splits)
  then show ?thesis using assms(1) by (simp add: poll_job_def)
qed

lemma ok_grant:
  assumes "sched_ok u s" "gpu_holder s = None" "waiters s = i # w"
    "grant_job rp (su_config u) (su_jobs u ! i) b i s = (go, s')"
  shows "sched_ok u s'"
proof -
  note g = grant_cases [OF assms(4)]
  have q: "queued (phases s) = insert i (set w)" "i \<notin> set w" "holders (phases s) = {}"
      "length (phases s) = length (su_jobs u)"
    using assms(1-3) by (simp_all add: sched_ok_def)
  then have i: "i < length (phases s)" "phases s ! i = Queued" by (auto simp: queued_def)
  then have e: "executing (phases s) - {i} = executing (phases s)" by (simp add: executing_def)
  show ?thesis
    using g assms(1-3) q i(1) e
    by (cases go) (simp_all add: sched_ok_def phase_update names_us_def)
qed

lemma ok_inside:
  assumes "sched_ok u s" "i < length (su_jobs u)" "on_gpu (phases s ! i)" "on_gpu p"
    "p = Executing \<or> a = None \<or> (a = ambient s \<and> phases s ! i \<noteq> Executing)"
  shows "sched_ok u (set_phase i p (s\<lparr>ambient := a\<rparr>))"
proof -
  have i: "i < length (phases s)" using assms(1,2) by (simp add: sched_ok_def)
  have h: "holders ((phases s)[i := p]) = holders (phases s)"
    using i assms(3,4) by (simp add: phase_update phase_members insert_absorb)
  have q: "queued ((phases s)[i := p]) = queued (phases s)"
    using i assms(3,4) by (auto simp: queued_def nth_list_update split: if_splits)
  have "a \<noteq> None \<Longrightarrow> executing ((phases s)[i := p]) \<noteq> {}"
  proof -
    assume "a \<noteq> None"
    then consider "p = Executing" | "executing (phases s) \<noteq> {}" "i \<notin> executing (phases s)"
      using assms(1,5) by (auto simp: sched_ok_def phase_members [OF i])
    then show ?thesis by cases (auto simp: phase_update(3) [OF i])
  qed
  then show ?thesis
    using assms(1) by (cases "gpu_holder s") (simp_all add: sched_ok_def set_phase_def h q)
qed

lemma ok_conclude:
  assumes "sched_ok u s" "i < length (su_jobs u)" "phases s ! i = Finished r" "conclude_job rp c j t i r s = (spent, s')"
  shows "sched_ok u s'"
proof -
  note c = conclude_cases [OF assms(4)]
  have i: "i < length (phases s)" using assms(1,2) by (simp add: sched_ok_def)
  have "i \<in> holders (phases s)" using i assms(3) by (simp add: phase_members)
  then have "holders (phases s) = {i}" using assms(1) by (cases "gpu_holder s") (auto simp: sched_ok_def)
  then have h: "holders ((phases s)[i := Waiting]) = {}" using i by (simp add: phase_update)
  have q: "queued ((phases s)[i := Waiting]) = queued (phases s)" "executing ((phases s)[i := Waiting]) = executing (phases s)"
    using i assms(3) by (auto simp: queued_def executing_def nth_list_update split: if_splits)
  show ?thesis
    using assms(1) by (simp add: sched_ok_def c h q)
qed

lemma ok_step:
  assumes "sched_ok u s" "idle_step u ev s s'"
  shows "sched_ok u s'"
  using assms(2)
proof (cases rule: idle_step.cases)
  case (activity t)
  then show ?thesis using assms(1) by (cases "gpu_holder s") (simp_all add: mark_activity_def sched_ok_def)
next
  case (poll i b)
  then show ?thesis using ok_poll [OF assms(1)] by simp
next
  case (grant i w b go)
  then show ?thesis using ok_grant [OF assms(1)] by simp
next
  case (execute i b)
  then show ?thesis
    using ok_inside [OF assms(1) execute(3), of "Finished _" "ambient s"] ok_inside [OF assms(1) execute(3), of Executing]
    by (simp add: execute_job_def)
next
  case (label i l)
  then have "i \<in> executing (phases s)" using assms(1) by (simp add: executing_def sched_ok_def)
  then show ?thesis using assms(1) label(2) by (cases "gpu_holder s") (auto simp: body_label_def sched_ok_def)
next
  case (body i r)
  then show ?thesis using ok_inside [OF assms(1) body(3), of "Finished r" None] by (simp add: body_end_def)
next
  case (conclude i r t spent)
  then show ?thesis using ok_conclude [OF assms(1)] by blast
qed

lemma ok_reach: "idle_reach u h s \<Longrightarrow> sched_ok u s"
  by (induction rule: idle_reach_induct) (auto intro: ok_start ok_step)

text \<open>C6: one job at a time. In every interleaving of polls, grants, bodies and outcomes the lock's holder is
  the only job that is past the lock; the chip shows it, the wake-lock file carries this process's id, and
  a label is left on the executor thread only while a body is running.\<close>

theorem one_idle_job_on_gpu:
  assumes "idle_reach u h s"
  shows "(\<forall>i k. i < length (su_jobs u) \<and> k < length (su_jobs u) \<and> on_gpu (phases s ! i) \<and> on_gpu (phases s ! k) \<longrightarrow> i = k)
    \<and> (\<forall>i < length (su_jobs u). on_gpu (phases s ! i) \<longrightarrow> gpu_busy s \<and> chip s = Some (ij_name (su_jobs u ! i))
         \<and> names_us (su_config u) (wake_file s))
    \<and> (ambient s \<noteq> None \<longrightarrow> gpu_busy s)"
proof -
  have ok: "sched_ok u s" using ok_reach [OF assms] .
  then have len: "length (phases s) = length (su_jobs u)" by (simp add: sched_ok_def)
  have hold: "gpu_holder s = Some i" if "i < length (su_jobs u)" "on_gpu (phases s ! i)" for i
  proof -
    have "i \<in> set_option (gpu_holder s)" using ok that by (auto simp: sched_ok_def holders_def)
    then show ?thesis by (simp add: elem_set)
  qed
  have "\<exists>i < length (su_jobs u). on_gpu (phases s ! i)" if "ambient s \<noteq> None"
    using ok that len by (fastforce simp: sched_ok_def executing_def)
  then have "ambient s \<noteq> None \<Longrightarrow> gpu_busy s" using hold by (auto simp: gpu_busy_def)
  moreover have "gpu_busy s \<and> chip s = Some (ij_name (su_jobs u ! i)) \<and> names_us (su_config u) (wake_file s)"
    if "i < length (su_jobs u)" "on_gpu (phases s ! i)" for i
    using ok hold [OF that] by (simp add: gpu_busy_def sched_ok_def)
  moreover have "i = k" if "i < length (su_jobs u)" "k < length (su_jobs u)" "on_gpu (phases s ! i)" "on_gpu (phases s ! k)" for i k
    using hold [OF that(1,3)] hold [OF that(2,4)] by simp
  ultimately show ?thesis by blast
qed

text \<open>A box with two jobs due at once: both queue, the first to ask is served, and runs.\<close>

definition two_jobs :: sched_setup where
  "two_jobs = \<lparr>su_repr = (\<lambda>_. []),
     su_config = \<lparr>sc_idle_seconds = 60, sc_poll_seconds = 30, sc_lock_file = True, own_pid = 7\<rparr>,
     su_jobs = [\<lparr>ij_name = ''wander'', ij_interval = 3600, ij_has_ready = False, ij_consumed = None, ij_idle_seconds = None,
        ij_describe = None, ij_needs_model = True\<rparr>,
       \<lparr>ij_name = ''synthesis'', ij_interval = 7200, ij_has_ready = False, ij_consumed = None, ij_idle_seconds = None,
        ij_describe = None, ij_needs_model = True\<rparr>]\<rparr>"

definition quiet_box :: "rat \<Rightarrow> box" where
  "quiet_box t = \<lparr>mono = t, external_busy = False, model_loaded = True, serving_mismatch = Inr [], ready_answer = Inr True,
     probe_pid = (\<lambda>_. No_Process), stamp = [], lock_writes = True\<rparr>"

definition both_queued :: scheduler where
  "both_queued = poll_job (su_config two_jobs) (su_jobs two_jobs ! 1) (quiet_box 100) 1
     (poll_job (su_config two_jobs) (su_jobs two_jobs ! 0) (quiet_box 100) 0 (started_scheduler two_jobs 0 None))"

definition wander_granted :: scheduler where
  "wander_granted = snd (grant_job (su_repr two_jobs) (su_config two_jobs) (su_jobs two_jobs ! 0) (quiet_box 100) 0 both_queued)"

lemmas two_jobs_defs = two_jobs_def quiet_box_def both_queued_def wander_granted_def poll_job_def grant_job_def
  started_scheduler_def job_idle_ok_def seconds_idle_def idle_window_def job_due_def held_def acquire_wake_lock_def
  set_phase_def Let_def

lemma both_queued_steps: "idle_steps two_jobs (started_scheduler two_jobs 0 None) [Polled 1, Polled 0] both_queued"
  unfolding both_queued_def
  by (rule more [OF more [OF none poll] poll]; simp add: two_jobs_defs)

lemma wander_granted_step: "idle_step two_jobs (Granted 0 100 True) both_queued wander_granted"
proof -
  have "idle_step two_jobs (Granted 0 (mono (quiet_box 100)) True) both_queued wander_granted"
    by (rule grant [where w = "[1]"]) (simp_all add: two_jobs_defs)
  then show ?thesis by (simp add: quiet_box_def)
qed

lemma wander_granted_reach: "idle_reach two_jobs [Granted 0 100 True, Polled 1, Polled 0] wander_granted"
  unfolding idle_reach_def using more [OF both_queued_steps wander_granted_step] by blast

theorem one_idle_job_on_gpu_witness:
  "phases wander_granted = [Submitted, Queued] \<and> gpu_busy wander_granted"
  using one_idle_job_on_gpu [OF wander_granted_reach] by (simp add: two_jobs_defs) (simp add: gpu_busy_def)

section \<open>Every job keeps its own clock\<close>

lemma ran_at_step:
  assumes "idle_step u ev s s'" "k < length (ran_at s)" "length (ran_at s) = length (su_jobs u)"
  shows "ran_at s' ! k = (case ev of Concluded i t True \<Rightarrow> if i = k then Some t else ran_at s ! k | _ \<Rightarrow> ran_at s ! k)"
  using assms(1)
proof (cases rule: idle_step.cases)
  case (conclude i r t spent)
  then show ?thesis using conclude_cases(7) [OF conclude(4)] assms(2,3) by (simp add: nth_list_update)
qed (auto simp: mark_activity_def poll_job_def set_phase_def grant_cases execute_job_def body_label_def body_end_def)

lemma ran_at_history:
  assumes "idle_reach u h s" "k < length (su_jobs u)"
  shows "ran_at s ! k = last_spent k h"
  using assms
proof (induction rule: idle_reach_induct)
  case (start t0 f)
  then show ?case by (simp add: started_scheduler_def)
next
  case (step h s ev s')
  then have "length (ran_at s) = length (su_jobs u)" using ok_reach [OF step(1)] by (simp add: sched_ok_def)
  then have "ran_at s' ! k = (case ev of Concluded i t True \<Rightarrow> if i = k then Some t else last_spent k h | _ \<Rightarrow> last_spent k h)"
    using ran_at_step [OF step(2)] step(3,4) by (simp split: idle_event.splits bool.splits)
  then show ?case by (cases "(k, ev # h)" rule: last_spent.cases) auto
qed

fun last_active :: "idle_event list \<Rightarrow> rat option" where
  "last_active [] = None"
| "last_active (Activity t # h) = Some t"
| "last_active (_ # h) = last_active h"

lemma last_activity_history:
  assumes "idle_reach u h s" "last_active h = Some t"
  shows "last_activity s = t"
  using assms
proof (induction arbitrary: t rule: idle_reach_induct)
  case (step h s ev s')
  from step(2) show ?case
  proof (cases rule: idle_step.cases)
    case (conclude i r ta spent)
    then show ?thesis using conclude_cases(6) [OF conclude(4)] step(3,4) by simp
  qed (use step(3,4) in \<open>auto simp: mark_activity_def poll_job_def set_phase_def grant_cases execute_job_def body_label_def body_end_def\<close>)
qed simp

text \<open>No job runs too early. Whenever a job is started, its own interval has passed since the last attempt of
  its own that counted, and its idle window has passed since the last activity on the box; what its
  siblings did, started or failed in between plays no part.\<close>

theorem idle_jobs_are_paced:
  assumes "idle_reach u (Granted i t True # h) s"
  shows "(\<forall>t0. last_spent i h = Some t0 \<longrightarrow> ij_interval (su_jobs u ! i) \<le> t - t0)
    \<and> (\<forall>t0. last_active h = Some t0 \<longrightarrow> idle_window (su_config u) (su_jobs u ! i) \<le> t - t0)"
proof -
  obtain s0 where s0: "idle_reach u h s0" "idle_step u (Granted i t True) s0 s"
    using assms by (auto simp: idle_reach_def elim!: idle_steps_ConsE)
  then obtain w b where g: "waiters s0 = i # w" "t = mono b"
      "grant_job (su_repr u) (su_config u) (su_jobs u ! i) b i s0 = (True, s)"
    by (auto elim: grantedE)
  have ok: "sched_ok u s0" using ok_reach [OF s0(1)] .
  then have "i \<in> queued (phases s0)" using g(1) by (simp add: sched_ok_def)
  then have i: "i < length (su_jobs u)" using ok by (simp add: queued_def sched_ok_def)
  have "job_idle_ok (su_config u) (su_jobs u ! i) b s0" "job_due (su_jobs u ! i) b (ran_at s0 ! i)"
    using grant_cases(5) [OF g(3)] by simp_all
  then show ?thesis
    using ran_at_history [OF s0(1) i] last_activity_history [OF s0(1)]
    by (auto simp: job_idle_ok_def seconds_idle_def job_due_def g(2) split: if_splits)
qed

text \<open>One job alone: it runs at 100 and spends its interval at 200; an hour after that it is started again.\<close>

definition wander_polled :: "rat \<Rightarrow> scheduler \<Rightarrow> scheduler" where
  "wander_polled t s = poll_job (su_config two_jobs) (su_jobs two_jobs ! 0) (quiet_box t) 0 s"

definition wander_started :: "rat \<Rightarrow> scheduler \<Rightarrow> scheduler" where
  "wander_started t s = snd (grant_job (su_repr two_jobs) (su_config two_jobs) (su_jobs two_jobs ! 0) (quiet_box t) 0 s)"

definition wander_run :: "scheduler \<Rightarrow> scheduler" where
  "wander_run s = body_end (Body_Returned (JObj [])) 0 (execute_job (su_jobs two_jobs ! 0) (quiet_box 100) 0 s)"

definition wander_spent :: scheduler where
  "wander_spent = snd (conclude_job (su_repr two_jobs) (su_config two_jobs) (su_jobs two_jobs ! 0) 200 0 (Body_Returned (JObj []))
     (wander_run (wander_started 100 (wander_polled 100 (started_scheduler two_jobs 0 None)))))"

lemmas wander_defs = two_jobs_defs execute_job_def body_end_def conclude_job_def record_result_def note_hold_def
  emit_terminal_def summarize_def log_activity_def release_wake_lock_def held_key_def strip_label_def
  wander_polled_def wander_started_def wander_run_def wander_spent_def

lemma grant_event: "gpu_holder s = None \<Longrightarrow> waiters s = i # w \<Longrightarrow> t = mono b \<Longrightarrow>
    fst (grant_job (su_repr u) (su_config u) (su_jobs u ! i) b i s) = go \<Longrightarrow>
    idle_step u (Granted i t go) s (snd (grant_job (su_repr u) (su_config u) (su_jobs u ! i) b i s))"
  using grant [of s i w u b go "snd (grant_job (su_repr u) (su_config u) (su_jobs u ! i) b i s)"] by (auto simp: prod_eq_iff)

lemma conclude_event: "i < length (su_jobs u) \<Longrightarrow> phases s ! i = Finished r \<Longrightarrow>
    fst (conclude_job (su_repr u) (su_config u) (su_jobs u ! i) t i r s) = spent \<Longrightarrow>
    idle_step u (Concluded i t spent) s (snd (conclude_job (su_repr u) (su_config u) (su_jobs u ! i) t i r s))"
  using conclude [of i u s r t spent "snd (conclude_job (su_repr u) (su_config u) (su_jobs u ! i) t i r s)"] by (auto simp: prod_eq_iff)

lemma wander_spent_reach:
  "idle_steps two_jobs (started_scheduler two_jobs 0 None)
     [Concluded 0 200 True, Ended 0, Executed 0, Granted 0 100 True, Polled 0] wander_spent"
proof -
  let ?s0 = "started_scheduler two_jobs 0 None"
  let ?s1 = "wander_polled 100 ?s0"
  let ?s2 = "wander_started 100 ?s1"
  let ?s3 = "execute_job (su_jobs two_jobs ! 0) (quiet_box 100) 0 ?s2"
  have 1: "idle_step two_jobs (Polled 0) ?s0 ?s1"
    unfolding wander_polled_def by (rule poll) (simp_all add: two_jobs_defs)
  have 2: "idle_step two_jobs (Granted 0 100 True) ?s1 ?s2"
    unfolding wander_started_def by (rule grant_event [where w = "[]"]) (simp_all add: wander_defs)
  have 3: "idle_step two_jobs (Executed 0) ?s2 ?s3" by (rule execute) (simp_all add: wander_defs)
  have 4: "idle_step two_jobs (Ended 0) ?s3 (wander_run ?s2)"
    unfolding wander_run_def by (rule body) (simp_all add: wander_defs)
  have 5: "idle_step two_jobs (Concluded 0 200 True) (wander_run ?s2) wander_spent"
    unfolding wander_spent_def by (rule conclude_event) (simp_all add: wander_defs)
  show ?thesis by (rule more [OF more [OF more [OF more [OF more [OF none 1] 2] 3] 4] 5])
qed

lemma wander_again_reach:
  "idle_reach two_jobs [Granted 0 3800 True, Polled 0, Concluded 0 200 True, Ended 0, Executed 0, Granted 0 100 True, Polled 0]
     (wander_started 3800 (wander_polled 3800 wander_spent))"
proof -
  have 1: "idle_step two_jobs (Polled 0) wander_spent (wander_polled 3800 wander_spent)"
    unfolding wander_polled_def by (rule poll) (simp_all add: wander_defs)
  have 2: "idle_step two_jobs (Granted 0 3800 True) (wander_polled 3800 wander_spent)
      (wander_started 3800 (wander_polled 3800 wander_spent))"
    unfolding wander_started_def by (rule grant_event [where w = "[]"]) (simp_all add: wander_defs)
  show ?thesis unfolding idle_reach_def using more [OF more [OF wander_spent_reach 1] 2] by blast
qed

theorem idle_jobs_are_paced_witness: "ij_interval (su_jobs two_jobs ! 0) \<le> 3800 - 200"
  using idle_jobs_are_paced [OF wander_again_reach] by simp

end
