(* ===== verification/Watchdog.thy ===== *)
theory Watchdog
  imports Gist
begin

text \<open>
  \<open>server/watchdog.py\<close>: the supervisor of the inference server and its offline jobs. Each handler holds one of
  two locks while it works; a step of the model is what runs under a lock without letting it go. A table
  of processes stands for the operating system: a process id and its exit code, \<open>None\<close> while it runs.
  Starting a process succeeds and a kill ends it. \<open>sig_name\<close> is \<open>signal.Signals\<close>, \<open>joinp\<close> joins a path to the
  watchdog's directory, \<open>dash\<close> is the dash of the messages, \<open>parse\<close> is \<open>json.loads\<close> of a line.
\<close>

section \<open>State\<close>

record job_state =
  js_name :: "string option"
  js_running :: bool
  js_started_at :: "rat option"
  js_finished_at :: "rat option"
  js_returncode :: "int option"
  js_result :: "jobj option"
  js_progress :: "string option"
  js_log :: "string option"

record exit_info =
  ex_returncode :: int
  ex_at :: rat
  ex_uptime :: "int option"
  ex_detail :: string
  ex_relaunched :: bool

datatype log_event =
    Exit_Logged int "int option" bool bool
  | Pull_Logged int
  | Job_Started string
  | Job_Finished string int
  | Sync_Finished string int

text \<open>Where the thread of an offline job, or the handler of a synchronous one, stands.\<close>

datatype task =
    A_start string jobj "json list"
  | A_work string "string list"
  | A_launch string int
  | A_done string int
  | S_start string jobj "json list"
  | S_done string int jobj

record watchdog =
  proc :: "nat option"
  start_time :: "rat option"
  expected_stop :: bool
  last_exit :: "exit_info option"
  crash_relaunches :: "rat list"
  job :: job_state
  procs :: "(nat, int option) dict"
  next_pid :: nat
  tasks :: "task list"
  clock :: rat
  server_log :: "(rat \<times> log_event) list"

definition no_job :: job_state where
  "no_job = \<lparr>js_name = None, js_running = False, js_started_at = None, js_finished_at = None,
     js_returncode = None, js_result = None, js_progress = None, js_log = None\<rparr>"

definition idle_watchdog :: watchdog where
  "idle_watchdog = \<lparr>proc = None, start_time = None, expected_stop = False, last_exit = None,
     crash_relaunches = [], job = no_job, procs = [], next_pid = 0, tasks = [], clock = 0, server_log = []\<rparr>"

section \<open>The server process\<close>

definition launch :: "watchdog \<Rightarrow> watchdog" where
  "launch s = s\<lparr>expected_stop := False, proc := Some (next_pid s), procs := dset (next_pid s) None (procs s),
     next_pid := next_pid s + 1, start_time := Some (clock s)\<rparr>"

definition kill :: "watchdog \<Rightarrow> watchdog" where
  "kill s =
     (case proc s of
        None \<Rightarrow> s\<lparr>expected_stop := True\<rparr>
      | Some p \<Rightarrow> s\<lparr>expected_stop := True, proc := None, start_time := None,
          procs := (if dget (procs s) p = Some None then dset p (Some (- 9)) (procs s) else procs s)\<rparr>)"

text \<open>\<open>_proc.poll()\<close>; \<open>None\<close> while the process runs.\<close>

definition poll :: "watchdog \<Rightarrow> int option" where
  "poll s = (case proc s of None \<Rightarrow> None | Some p \<Rightarrow> (case dget (procs s) p of None \<Rightarrow> None | Some r \<Rightarrow> r))"

definition is_running :: "watchdog \<Rightarrow> bool" where
  "is_running s = (proc s \<noteq> None \<and> poll s = None)"

definition log_server :: "log_event \<Rightarrow> watchdog \<Rightarrow> watchdog" where
  "log_server e s = s\<lparr>server_log := server_log s @ [(clock s, e)]\<rparr>"

definition signal_hint :: "string \<Rightarrow> string \<Rightarrow> string" where
  "signal_hint dash name =
     (if name = ''SIGKILL'' then ''killed from outside '' @ dash @ '' the kernel OOM killer (`dmesg -T | grep -i killed`) or a manual kill''
      else if name = ''SIGSEGV'' then ''native crash (segfault) '' @ dash @ '' faulthandler'' @ [CHR 0x27] @ ''s thread dump, if any, is right above in server.log''
      else if name = ''SIGABRT'' then ''native abort '' @ dash @ '' a C++ assertion or a double-OpenMP clash; see the lines right above''
      else if name = ''SIGBUS'' then ''native crash (bus error)''
      else ''died on a signal'')"

definition describe_exit :: "string \<Rightarrow> (int \<Rightarrow> string option) \<Rightarrow> int \<Rightarrow> string \<times> bool" where
  "describe_exit dash sig_name rc =
     (if rc < 0 then
        (let name = (case sig_name (- rc) of Some n \<Rightarrow> n | None \<Rightarrow> ''signal '' @ int_str (- rc))
         in (''died on '' @ name @ '': '' @ signal_hint dash name, True))
      else (''exited with code '' @ int_str rc @ '' (a deliberate exit, not a crash '' @ dash @ '' see the error above it)'', False))"

definition crash_relaunch_max :: nat where
  "crash_relaunch_max = 3"

definition crash_relaunch_window :: rat where
  "crash_relaunch_window = 600"

definition prune :: "rat \<Rightarrow> rat list \<Rightarrow> rat list" where
  "prune now stamps = filter (\<lambda>t. now - t < crash_relaunch_window) stamps"

definition crash_loop_tripped :: "rat list \<Rightarrow> rat \<Rightarrow> bool \<times> rat list" where
  "crash_loop_tripped stamps now = (crash_relaunch_max \<le> length (prune now stamps), prune now stamps)"

text \<open>\<open>time.monotonic() - _start_time\<close>, when there is a start time that is not zero.\<close>

definition uptime :: "watchdog \<Rightarrow> int option" where
  "uptime s = (case start_time s of None \<Rightarrow> None | Some t \<Rightarrow> if t = 0 then None else Some (py_round (clock s - t)))"

text \<open>What the reaper records of an exit with code \<open>rc\<close> at wall time \<open>wt\<close>, and whether it will relaunch.\<close>

definition note_exit :: "string \<Rightarrow> (int \<Rightarrow> string option) \<Rightarrow> rat \<Rightarrow> int \<Rightarrow> watchdog \<Rightarrow> bool \<times> watchdog" where
  "note_exit dash sig_name wt rc s =
     (let (detail, crashed) = describe_exit dash sig_name rc;
          (tripped, stamps) = (if crashed then crash_loop_tripped (crash_relaunches s) (clock s)
                               else (False, crash_relaunches s));
          relaunch = (crashed \<and> \<not> tripped)
      in (relaunch, log_server (Exit_Logged rc (uptime s) relaunch tripped)
           (s\<lparr>proc := None, start_time := None, crash_relaunches := stamps,
              last_exit := Some \<lparr>ex_returncode = rc, ex_at = wt, ex_uptime = uptime s, ex_detail = detail,
                ex_relaunched = relaunch\<rparr>\<rparr>)))"

text \<open>One round of the reaper, under the process lock.\<close>

definition reap :: "string \<Rightarrow> (int \<Rightarrow> string option) \<Rightarrow> rat \<Rightarrow> watchdog \<Rightarrow> watchdog" where
  "reap dash sig_name wt s =
     (if proc s = None \<or> expected_stop s then s
      else case poll s of
          None \<Rightarrow> s
        | Some rc \<Rightarrow>
            (case note_exit dash sig_name wt rc s of
               (relaunch, s1) \<Rightarrow>
                 if relaunch then launch (s1\<lparr>crash_relaunches := crash_relaunches s1 @ [clock s1]\<rparr>) else s1))"

definition restart :: "watchdog \<Rightarrow> watchdog" where
  "restart s = launch (kill s)"

text \<open>The pull: its outcome is the return code of \<open>git\<close> and its output, or the text of an exception.\<close>

definition git_pull :: "(int \<times> string) + string \<Rightarrow> watchdog \<Rightarrow> (bool \<times> int \<times> string) \<times> watchdog" where
  "git_pull oc s =
     (let result = (case oc of Inl (rc, out) \<Rightarrow> (rc = 0, rc, py_strip out) | Inr e \<Rightarrow> (False, - 1, e))
      in (result, log_server (Pull_Logged (fst (snd result))) (launch (kill s))))"

section \<open>The job manifest and its requests\<close>

definition load_jobs :: "json content \<Rightarrow> jobj" where
  "load_jobs c = (case c of Parsed (JObj d) \<Rightarrow> obj_of (jget d ''jobs'') | _ \<Rightarrow> [])"

definition progress_path :: "(string \<Rightarrow> string) \<Rightarrow> jobj \<Rightarrow> string option py" where
  "progress_path joinp spec =
     (let p = jget spec ''progress'' in
      if \<not> truthy p then Inr None else case p of JStr s \<Rightarrow> Inr (Some (joinp s)) | _ \<Rightarrow> Inl TypeError)"

definition log_path :: "(string \<Rightarrow> string) \<Rightarrow> string \<Rightarrow> jobj \<Rightarrow> string py" where
  "log_path joinp name spec =
     (case py_or (jget spec ''log'') (JStr (name @ ''.log'')) of JStr s \<Rightarrow> Inr (joinp s) | _ \<Rightarrow> Inl TypeError)"

definition build_argv :: "(json \<Rightarrow> string) \<Rightarrow> string \<Rightarrow> jobj \<Rightarrow> json list \<Rightarrow> string list py" where
  "build_argv rp python spec args =
     py_bind (json_list_items (py_or (jget spec ''cmd'') (JList []))) (\<lambda>cmd.
       Inr (python # List.map (fstr rp) cmd @ List.map (fstr rp) args))"

fun is_arg :: "json \<Rightarrow> bool" where
  "is_arg (JStr _) = True"
| "is_arg (JInt _) = True"
| "is_arg (JFloat _) = True"
| "is_arg (JBool _) = True"
| "is_arg _ = False"

datatype response = Unknown_Job | Bad_Args | Conflict string string | Accepted

text \<open>\<open>_start_job\<close> up to the hand-over to the thread or the synchronous runner.\<close>

definition start_job ::
  "(string \<Rightarrow> string) \<Rightarrow> rat \<Rightarrow> json content \<Rightarrow> string \<Rightarrow> jobj \<Rightarrow> watchdog \<Rightarrow> (response \<times> watchdog) py" where
  "start_job joinp wt manifest name params s =
     (let spec0 = jget (load_jobs manifest) name in
      if \<not> truthy spec0 then Inr (Unknown_Job, s)
      else case jget_or params ''args'' (JList []) of
          JList args \<Rightarrow>
            if \<not> list_all is_arg args then Inr (Bad_Args, s)
            else if js_running (job s)
            then Inr (Conflict (case js_name (job s) of Some n \<Rightarrow> n | None \<Rightarrow> ''None'') name, s)
            else
              py_bind (as_dict spec0) (\<lambda>spec.
              py_bind (progress_path joinp spec) (\<lambda>pf.
              py_bind (log_path joinp name spec) (\<lambda>lf.
                let j = (job s)\<lparr>js_name := Some name, js_running := True, js_started_at := Some wt,
                      js_finished_at := None, js_returncode := None, js_result := None,
                      js_progress := pf, js_log := Some lf\<rparr>;
                    t = (if truthy (jget spec ''sync'') then S_start name spec args else A_start name spec args)
                in Inr (Accepted, s\<lparr>job := j, tasks := tasks s @ [t]\<rparr>))))
        | _ \<Rightarrow> Inr (Bad_Args, s))"

text \<open>The last JSON object among the lines of a synchronous job's output.\<close>

definition result_line :: "(string \<Rightarrow> json option) \<Rightarrow> int \<Rightarrow> string \<Rightarrow> jobj option" where
  "result_line parse rc line0 =
     (let line = py_strip line0 in
      if startswith line [CHR 0x7B] \<and> endswith line [CHR 0x7D]
      then (case parse line of
          Some (JObj d) \<Rightarrow> Some (dsetdefault ''ok'' (JBool (rc = 0)) (dsetdefault ''returncode'' (JInt rc) d))
        | _ \<Rightarrow> None)
      else None)"

definition parse_result :: "(string \<Rightarrow> json option) \<Rightarrow> string \<Rightarrow> int \<Rightarrow> jobj" where
  "parse_result parse out rc =
     (case List.map_filter (result_line parse rc) (rev (splitlines (py_strip out))) of
        d # _ \<Rightarrow> d
      | [] \<Rightarrow> [(''ok'', JBool (rc = 0)), (''returncode'', JInt rc), (''output'', JStr (drop (length out - 500) out))])"

section \<open>Running a job\<close>

text \<open>How a job's process ends: its return code and output, or an exception before it could run.\<close>

datatype job_end = Ended int string | Failed string

definition end_rc :: "job_end \<Rightarrow> int" where
  "end_rc e = (case e of Ended rc out \<Rightarrow> rc | Failed _ \<Rightarrow> - 1)"

definition finish_job :: "rat \<Rightarrow> int \<Rightarrow> jobj option \<Rightarrow> watchdog \<Rightarrow> watchdog" where
  "finish_job wt rc result s =
     s\<lparr>job := (job s)\<lparr>js_running := False, js_finished_at := Some wt, js_returncode := Some rc,
        js_result := (case result of None \<Rightarrow> js_result (job s) | Some r \<Rightarrow> Some r)\<rparr>\<rparr>"

text \<open>
  The next step of a task, with the outcome of its process by its command line where it waits for one. Both runners first
  build the command line, outside their \<open>try\<close>: when the manifest's \<open>cmd\<close> cannot be iterated over, that raises and the
  thread, or the handler, ends there. Otherwise \<open>_run_async_job\<close> kills the server, runs the command, launches the
  server and releases the slot in four steps under one lock each; \<open>_run_sync_job\<close> holds the process lock from the
  kill to the launch.
\<close>

definition task_step ::
  "(json \<Rightarrow> string) \<Rightarrow> string \<Rightarrow> (string \<Rightarrow> json option) \<Rightarrow> (string list \<Rightarrow> job_end) \<Rightarrow> rat \<Rightarrow> task \<Rightarrow> watchdog
   \<Rightarrow> task option \<times> watchdog" where
  "task_step rp python parse e wt t s =
     (case t of
        A_start name spec args \<Rightarrow>
          (case build_argv rp python spec args of
             Inl x \<Rightarrow> (None, s)
           | Inr argv \<Rightarrow> (Some (A_work name argv), log_server (Job_Started name) (kill s)))
      | A_work name argv \<Rightarrow> (Some (A_launch name (end_rc (e argv))), log_server (Job_Finished name (end_rc (e argv))) s)
      | A_launch name rc \<Rightarrow> (Some (A_done name rc), launch s)
      | A_done name rc \<Rightarrow> (None, finish_job wt rc None s)
      | S_start name spec args \<Rightarrow>
          (case build_argv rp python spec args of
             Inl x \<Rightarrow> (None, s)
           | Inr argv \<Rightarrow>
               let result = (case e argv of Ended rc out \<Rightarrow> parse_result parse out rc
                     | Failed msg \<Rightarrow> [(''ok'', JBool False), (''error'', JStr msg), (''returncode'', JInt (- 1))])
               in (Some (S_done name (end_rc (e argv)) result), launch (log_server (Job_Started name) (kill s))))
      | S_done name rc result \<Rightarrow> (None, finish_job wt rc (Some result) (log_server (Sync_Finished name rc) s)))"

definition run_task :: "(json \<Rightarrow> string) \<Rightarrow> string \<Rightarrow> (string \<Rightarrow> json option) \<Rightarrow> (string list \<Rightarrow> job_end) \<Rightarrow> rat \<Rightarrow> nat \<Rightarrow> watchdog \<Rightarrow> watchdog" where
  "run_task rp python parse e wt i s =
     (if i < length (tasks s) then
        (case task_step rp python parse e wt (tasks s ! i) s of
           (t, s') \<Rightarrow> s'\<lparr>tasks := take i (tasks s) @ (case t of None \<Rightarrow> [] | Some x \<Rightarrow> [x]) @ drop (Suc i) (tasks s)\<rparr>)
      else s)"

text \<open>The watchdog as it starts: it launches the server and then serves.\<close>

definition main :: watchdog where
  "main = launch idle_watchdog"

definition status :: "watchdog \<Rightarrow> bool \<times> nat option \<times> exit_info option" where
  "status s = (is_running s, if is_running s then proc s else None, last_exit s)"

section \<open>What can happen, in any order\<close>

datatype wd_event = Tick | Process_Exit | Reaper | Operator | Job_Request | Task

inductive wd_step :: "wd_event \<Rightarrow> watchdog \<Rightarrow> watchdog \<Rightarrow> bool" where
  tick: "clock s \<le> c \<Longrightarrow> wd_step Tick s (s\<lparr>clock := c\<rparr>)"
| process_exit: "dget (procs s) p = Some None \<Longrightarrow> wd_step Process_Exit s (s\<lparr>procs := dset p (Some rc) (procs s)\<rparr>)"
| reaper: "wd_step Reaper s (reap dash sig_name wt s)"
| restart: "wd_step Operator s (restart s)"
| pull: "wd_step Operator s (snd (git_pull oc s))"
| job_request: "start_job joinp wt manifest name params s = Inr (r, s') \<Longrightarrow> wd_step Job_Request s s'"
| task: "wd_step Task s (run_task rp python parse e wt i s)"

inductive_cases wd_stepE: "wd_step ev s s'"
inductive_simps operator_step: "wd_step Operator s s'"

text \<open>The states the watchdog can reach when every event satisfies \<open>ok\<close> at its time.\<close>

inductive wd_reach :: "(watchdog \<Rightarrow> wd_event \<Rightarrow> bool) \<Rightarrow> watchdog \<Rightarrow> bool" for ok where
  start: "wd_reach ok main"
| step: "wd_reach ok s \<Longrightarrow> ok s ev \<Longrightarrow> wd_step ev s s' \<Longrightarrow> wd_reach ok s'"

lemma wd_invariant:
  assumes "wd_reach ok s" "P main" "\<And>s ev s'. P s \<Longrightarrow> ok s ev \<Longrightarrow> wd_step ev s s' \<Longrightarrow> P s'"
  shows "P s"
  using assms(1) by (induction rule: wd_reach.induct) (use assms(2,3) in blast)+

definition live :: "watchdog \<Rightarrow> nat set" where
  "live s = {p. dget (procs s) p = Some None}"

lemma frame_of_steps [frame_simps]:
  "tasks (launch s) = tasks s" "job (launch s) = job s" "clock (launch s) = clock s"
  "crash_relaunches (launch s) = crash_relaunches s" "server_log (launch s) = server_log s"
  "tasks (kill s) = tasks s" "job (kill s) = job s" "clock (kill s) = clock s"
  "crash_relaunches (kill s) = crash_relaunches s" "server_log (kill s) = server_log s"
  "tasks (log_server l s) = tasks s" "job (log_server l s) = job s" "clock (log_server l s) = clock s"
  "crash_relaunches (log_server l s) = crash_relaunches s" "procs (log_server l s) = procs s"
  "proc (log_server l s) = proc s" "next_pid (log_server l s) = next_pid s" "expected_stop (log_server l s) = expected_stop s"
  "tasks (finish_job wt rc r s) = tasks s" "clock (finish_job wt rc r s) = clock s"
  "crash_relaunches (finish_job wt rc r s) = crash_relaunches s" "server_log (finish_job wt rc r s) = server_log s"
  "procs (finish_job wt rc r s) = procs s" "proc (finish_job wt rc r s) = proc s"
  "next_pid (finish_job wt rc r s) = next_pid s" "expected_stop (finish_job wt rc r s) = expected_stop s"
  "next_pid (kill s) = next_pid s"
  by (simp_all add: launch_def kill_def log_server_def finish_job_def split: option.splits)

lemma frame_of_note_exit [frame_simps]:
  "tasks (snd (note_exit dash sn wt rc s)) = tasks s" "job (snd (note_exit dash sn wt rc s)) = job s"
  "clock (snd (note_exit dash sn wt rc s)) = clock s" "procs (snd (note_exit dash sn wt rc s)) = procs s"
  "proc (snd (note_exit dash sn wt rc s)) = None" "next_pid (snd (note_exit dash sn wt rc s)) = next_pid s"
  "expected_stop (snd (note_exit dash sn wt rc s)) = expected_stop s"
  by (simp_all add: note_exit_def Let_def frame_simps split: prod.splits)

lemma reap_cases:
  obtains (quiet) "reap dash sn wt s = s"
  | (down) rc where "proc s \<noteq> None" "\<not> expected_stop s" "poll s = Some rc" "\<not> fst (note_exit dash sn wt rc s)"
      "reap dash sn wt s = snd (note_exit dash sn wt rc s)"
  | (relaunched) rc u where "proc s \<noteq> None" "\<not> expected_stop s" "poll s = Some rc" "fst (note_exit dash sn wt rc s)"
      "u = snd (note_exit dash sn wt rc s)"
      "reap dash sn wt s = launch (u\<lparr>crash_relaunches := crash_relaunches u @ [clock u]\<rparr>)"
proof (cases "proc s = None \<or> expected_stop s \<or> poll s = None")
  case True
  then show ?thesis by (intro quiet) (auto simp: reap_def)
next
  case False
  then obtain rc where rc: "poll s = Some rc" by auto
  show ?thesis
  proof (cases "fst (note_exit dash sn wt rc s)")
    case True
    then show ?thesis using False rc by (intro relaunched [of rc "snd (note_exit dash sn wt rc s)"])
        (auto simp: reap_def case_prod_beta)
  next
    case f: False
    then show ?thesis using False rc by (intro down [of rc]) (auto simp: reap_def case_prod_beta)
  qed
qed

lemma frame_of_reap [frame_simps]:
  "tasks (reap dash sn wt s) = tasks s" "job (reap dash sn wt s) = job s" "clock (reap dash sn wt s) = clock s"
  by (cases rule: reap_cases [of dash sn wt s]; simp add: frame_simps)+

section \<open>One job at a time\<close>

definition slot_ok :: "watchdog \<Rightarrow> bool" where
  "slot_ok s = (length (tasks s) \<le> 1 \<and> (tasks s \<noteq> [] \<longrightarrow> js_running (job s)))"

lemma task_step_slot:
  "fst (task_step rp python parse e wt t s) \<noteq> None \<Longrightarrow> js_running (job (snd (task_step rp python parse e wt t s))) = js_running (job s)"
  "tasks (snd (task_step rp python parse e wt t s)) = tasks s"
  by (cases t; simp add: task_step_def frame_simps Let_def split: sum.splits)+

lemma slot_run_task: "slot_ok s \<Longrightarrow> slot_ok (run_task rp python parse e wt i s)"
proof (cases "i < length (tasks s)")
  case True
  assume ok: "slot_ok s"
  then have i: "i = 0" "length (tasks s) = 1" using True by (simp_all add: slot_ok_def)
  then obtain t where t: "tasks s = [t]" by (cases "tasks s") auto
  obtain t' s' where st: "task_step rp python parse e wt t s = (t', s')" by (cases "task_step rp python parse e wt t s")
  have r: "run_task rp python parse e wt i s = s'\<lparr>tasks := (case t' of None \<Rightarrow> [] | Some x \<Rightarrow> [x])\<rparr>"
    by (simp add: run_task_def i(1) t st)
  show ?thesis
    using task_step_slot [of rp python parse e wt t s] ok unfolding r by (cases t') (simp_all add: st slot_ok_def t)
qed (simp add: run_task_def)

lemma start_job_cases:
  assumes "start_job joinp wt manifest name params s = Inr (r, s')"
  shows "s' = s\<lparr>job := job s', tasks := tasks s'\<rparr>
    \<and> ((tasks s' = tasks s \<and> job s' = job s) \<or> (\<not> js_running (job s) \<and> js_running (job s')
        \<and> (\<exists>t. tasks s' = tasks s @ [t] \<and> (\<exists>spec args. t = S_start name spec args \<or> t = A_start name spec args))))"
  using assms
  by (auto simp: start_job_def Let_def py_bind_eq_Inr split: if_splits json.splits)

lemma start_job_frame:
  assumes "start_job joinp wt manifest name params s = Inr (r, s')"
  shows "procs s' = procs s \<and> proc s' = proc s \<and> next_pid s' = next_pid s \<and> expected_stop s' = expected_stop s
    \<and> clock s' = clock s \<and> crash_relaunches s' = crash_relaunches s \<and> server_log s' = server_log s"
  using assms
  by (auto simp: start_job_def Let_def py_bind_eq_Inr split: if_splits json.splits)

lemma slot_step:
  assumes "slot_ok s" "wd_step ev s s'"
  shows "slot_ok s'"
  using assms(2)
proof (cases rule: wd_step.cases)
  case (job_request joinp wt manifest name params r)
  then show ?thesis using start_job_cases [OF job_request(2)] assms(1) by (auto simp: slot_ok_def)
next
  case (task rp python parse e wt i)
  then show ?thesis using slot_run_task [OF assms(1)] by simp
qed (use assms(1) in \<open>simp_all add: slot_ok_def frame_simps Watchdog.restart_def git_pull_def Let_def\<close>)

text \<open>Offline jobs exclude each other. In every order of requests, thread steps, crashes and operator actions
  there is at most one job, and the job slot reads as taken as long as its thread or its synchronous run exists.\<close>

theorem one_job_at_a_time:
  assumes "wd_reach (\<lambda>_ _. True) s"
  shows "length (tasks s) \<le> 1 \<and> (tasks s \<noteq> [] \<longrightarrow> js_running (job s))"
proof -
  have "slot_ok s"
    using assms
  proof (rule wd_invariant)
    show "slot_ok main" by (simp add: slot_ok_def main_def frame_simps idle_watchdog_def no_job_def)
  qed (rule slot_step)
  then show ?thesis by (simp add: slot_ok_def)
qed

text \<open>A concrete history: the manifest offers a job that needs the GPU, and it is asked for at the start.\<close>

definition train_manifest :: "json content" where
  "train_manifest = Parsed (JObj [(''jobs'', JObj [(''train'', JObj [(''cmd'', JList [JStr ''train.py''])])])])"

definition train_asked :: watchdog where
  "train_asked = main\<lparr>job := \<lparr>js_name = Some ''train'', js_running = True, js_started_at = Some 1, js_finished_at = None,
     js_returncode = None, js_result = None, js_progress = None, js_log = Some ''train.log''\<rparr>,
     tasks := [A_start ''train'' [(''cmd'', JList [JStr ''train.py''])] []]\<rparr>"

lemma train_asked_start:
  "start_job (\<lambda>p. p) 1 train_manifest ''train'' [] main = Inr (Accepted, train_asked)"
  by (simp add: start_job_def train_manifest_def load_jobs_def train_asked_def main_def launch_def idle_watchdog_def
      no_job_def progress_path_def log_path_def py_or_def)

lemma train_asked_reach: "(\<And>s. ok s Job_Request) \<Longrightarrow> wd_reach ok train_asked"
  by (rule wd_reach.step [OF wd_reach.start _ job_request [OF train_asked_start]])

theorem one_job_at_a_time_witness:
  "length (tasks train_asked) \<le> 1 \<and> js_running (job train_asked) \<and> tasks train_asked \<noteq> []"
  using one_job_at_a_time [OF train_asked_reach] by (simp add: train_asked_def)

section \<open>The GPU is free while a job works\<close>

fun holds_gpu :: "task \<Rightarrow> bool" where
  "holds_gpu (A_work _ _) = True"
| "holds_gpu (A_launch _ _) = True"
| "holds_gpu _ = False"

definition table_ok :: "watchdog \<Rightarrow> bool" where
  "table_ok s = ((\<forall>p. dget (procs s) p \<noteq> None \<longrightarrow> p < next_pid s) \<and> live s \<subseteq> set_option (proc s))"

definition gpu_ok :: "watchdog \<Rightarrow> bool" where
  "gpu_ok s = (slot_ok s \<and> table_ok s \<and> (list_ex holds_gpu (tasks s) \<longrightarrow> proc s = None \<and> expected_stop s))"

lemma live_kill: "live s \<subseteq> set_option (proc s) \<Longrightarrow> live (kill s) = {}"
  by (auto simp: live_def kill_def split: option.splits if_splits)

lemma live_launch: "\<forall>p. dget (procs s) p \<noteq> None \<longrightarrow> p < next_pid s \<Longrightarrow> live (launch s) = insert (next_pid s) (live s)"
  by (auto simp: live_def launch_def)

lemma procs_kill: "dget (procs (kill s)) p \<noteq> None \<longleftrightarrow> dget (procs s) p \<noteq> None"
  by (auto simp: kill_def split: option.splits if_splits)

lemma procs_launch: "dget (procs (launch s)) p \<noteq> None \<longleftrightarrow> p = next_pid s \<or> dget (procs s) p \<noteq> None"
  by (auto simp: launch_def)

lemma launch_simps [frame_simps]:
  "next_pid (launch s) = next_pid s + 1" "proc (launch s) = Some (next_pid s)" "\<not> expected_stop (launch s)"
  "proc (kill s) = None" "expected_stop (kill s)"
  by (simp_all add: launch_def kill_def split: option.splits)

lemma launch_runs [frame_simps]: "is_running (launch s)"
  by (simp add: is_running_def poll_def launch_def)

text \<open>Launching is safe when no server process is left: it makes one live process, the one the watchdog knows.\<close>

lemma table_ok_launch:
  assumes "table_ok s" "live s = {}"
  shows "table_ok (launch s)"
  using assms unfolding table_ok_def
  by (auto simp: live_launch procs_launch frame_simps less_SucI simp del: not_None_eq)

lemma table_ok_kill: "table_ok s \<Longrightarrow> table_ok (kill s) \<and> live (kill s) = {}"
  unfolding table_ok_def by (auto simp: live_kill procs_kill frame_simps simp del: not_None_eq)

lemma table_ok_frame:
  "procs s' = procs s \<Longrightarrow> proc s' = proc s \<Longrightarrow> next_pid s' = next_pid s \<Longrightarrow> table_ok s' = table_ok s \<and> live s' = live s"
  by (simp add: table_ok_def live_def)

lemma live_of_proc: "table_ok s \<Longrightarrow> proc s = None \<or> poll s \<noteq> None \<Longrightarrow> live s = {}"
  by (auto simp: table_ok_def poll_def live_def split: option.splits)

lemma table_ok_note_exit:
  assumes "table_ok s" "live s = {}"
  shows "table_ok (snd (note_exit dash sn wt rc s)) \<and> live (snd (note_exit dash sn wt rc s)) = {}"
  using assms by (simp add: table_ok_def live_def frame_simps)

lemma table_ok_reap:
  assumes "table_ok s"
  shows "table_ok (reap dash sn wt s)"
proof (cases rule: reap_cases [of dash sn wt s])
  case (down rc)
  then show ?thesis using table_ok_note_exit [OF assms live_of_proc [OF assms]] by simp
next
  case (relaunched rc u)
  have u: "table_ok u" "live u = {}"
    using table_ok_note_exit [OF assms live_of_proc [OF assms]] relaunched(3) by (simp_all add: relaunched(5))
  show ?thesis
    unfolding relaunched(6) by (rule table_ok_launch) (use u in \<open>simp_all add: table_ok_def live_def\<close>)
qed (simp add: assms)

lemma reap_expected: "proc s = None \<and> expected_stop s \<Longrightarrow> reap dash sn wt s = s"
  by (simp add: reap_def)

lemma table_ok_task:
  assumes "table_ok s" "holds_gpu t \<Longrightarrow> proc s = None" "task_step rp python parse e wt t s = (t', s')"
  shows "table_ok s'"
proof (cases t)
  case (A_launch name rc)
  then show ?thesis using assms table_ok_launch [of s] live_of_proc [of s] by (simp add: task_step_def)
next
  case (S_start name spec args)
  let ?s = "log_server (Job_Started name) (kill s)"
  have "table_ok ?s \<and> live ?s = {}"
    using table_ok_kill [OF assms(1)] table_ok_frame [of ?s "kill s"] by (simp add: frame_simps)
  then show ?thesis
    using assms(1,3) table_ok_launch [of ?s] by (auto simp: S_start task_step_def Let_def split: sum.splits)
qed (use assms table_ok_kill [of s] in \<open>auto simp: task_step_def frame_simps table_ok_def live_def split: sum.splits\<close>)

text \<open>A task comes to hold the GPU only by stopping the server, and lets go of it by starting it.\<close>

lemma holds_task:
  assumes "task_step rp python parse e wt t s = (Some t', s')" "holds_gpu t'" "holds_gpu t \<Longrightarrow> proc s = None \<and> expected_stop s"
  shows "proc s' = None \<and> expected_stop s'"
  using assms by (cases t) (auto simp: task_step_def frame_simps Let_def split: sum.splits)

lemma gpu_ok_run_task:
  assumes "gpu_ok s"
  shows "gpu_ok (run_task rp python parse e wt i s)"
proof (cases "i < length (tasks s)")
  case True
  have ok: "slot_ok s" "table_ok s" "list_ex holds_gpu (tasks s) \<Longrightarrow> proc s = None \<and> expected_stop s"
    using assms by (simp_all add: gpu_ok_def)
  have i: "i = 0" "length (tasks s) = 1" using True ok(1) by (simp_all add: slot_ok_def)
  then obtain t where t: "tasks s = [t]" by (cases "tasks s") auto
  obtain t' s' where st: "task_step rp python parse e wt t s = (t', s')" by (cases "task_step rp python parse e wt t s")
  have r: "run_task rp python parse e wt i s = s'\<lparr>tasks := (case t' of None \<Rightarrow> [] | Some x \<Rightarrow> [x])\<rparr>"
    by (simp add: run_task_def i(1) t st)
  have "table_ok s'" using table_ok_task [OF ok(2) _ st] ok(3) t by simp
  moreover have "holds_gpu x \<Longrightarrow> proc s' = None \<and> expected_stop s'" if "t' = Some x" for x
    using holds_task [of rp python parse e wt t s x s'] st that ok(3) t by simp
  ultimately show ?thesis
    using slot_run_task [OF ok(1), of rp python parse e wt i] unfolding r gpu_ok_def
    by (auto simp: table_ok_def live_def split: option.splits)
qed (simp add: run_task_def assms)

lemma gpu_step:
  assumes "gpu_ok s" "wd_step ev s s'" "ev = Operator \<Longrightarrow> tasks s = []"
  shows "gpu_ok s'"
proof -
  have slot: "slot_ok s'" and tab: "table_ok s"
    using assms(1,2) slot_step by (auto simp: gpu_ok_def)
  show ?thesis
    using assms(2)
  proof (cases rule: wd_step.cases)
    case (process_exit p rc)
    then show ?thesis using assms(1) by (auto simp: gpu_ok_def slot_ok_def table_ok_def live_def split: if_splits)
  next
    case (reaper dash sig_name wt)
    have "list_ex holds_gpu (tasks s) \<Longrightarrow> s' = s"
      using assms(1) reaper reap_expected by (auto simp: gpu_ok_def)
    then show ?thesis using slot table_ok_reap [OF tab] assms(1) reaper by (auto simp: gpu_ok_def frame_simps)
  next
    case restart
    then show ?thesis
      using slot table_ok_kill [OF tab] table_ok_launch [of "kill s"] assms(3)
      by (simp add: gpu_ok_def Watchdog.restart_def frame_simps)
  next
    case (pull oc)
    have "table_ok (launch (kill s))" using table_ok_kill [OF tab] table_ok_launch [of "kill s"] by simp
    then show ?thesis
      using slot pull assms(3) by (simp add: gpu_ok_def git_pull_def Let_def frame_simps table_ok_def live_def)
  next
    case (job_request joinp wt manifest name params r)
    note c = start_job_cases [OF job_request(2)]
    have "table_ok s'" "proc s' = proc s" "expected_stop s' = expected_stop s"
      using tab table_ok_frame [of s' s] start_job_frame [OF job_request(2)] by simp_all
    then show ?thesis using slot c assms(1) by (auto simp: gpu_ok_def)
  qed (use assms(1) gpu_ok_run_task in \<open>auto simp: gpu_ok_def slot_ok_def table_ok_def live_def\<close>)
qed

text \<open>C5: a job has the GPU to itself. As long as the operator asks for a restart or a pull only while no job
  exists, there is never more than one server process, and none at all from the moment a job has stopped
  the server until it starts it again, whatever crashes, requests and reaper rounds come between.\<close>

theorem gpu_is_free_for_jobs:
  assumes "wd_reach (\<lambda>s ev. ev = Operator \<longrightarrow> tasks s = []) s"
  shows "card (live s) \<le> 1 \<and> (\<forall>t\<in>set (tasks s). holds_gpu t \<longrightarrow> live s = {})"
proof -
  have "gpu_ok s"
    using assms
  proof (rule wd_invariant)
    show "gpu_ok main"
      by (simp add: gpu_ok_def slot_ok_def table_ok_def live_def main_def frame_simps idle_watchdog_def no_job_def)
        (auto simp: launch_def)
  qed (use gpu_step in blast)
  then have t: "table_ok s" "list_ex holds_gpu (tasks s) \<longrightarrow> proc s = None" by (simp_all add: gpu_ok_def)
  have "card (live s) \<le> card (set_option (proc s))"
    using t(1) by (intro card_mono) (cases "proc s"; simp add: table_ok_def)+
  also have "\<dots> \<le> 1" by (cases "proc s") simp_all
  finally show ?thesis using t live_of_proc [OF t(1)] by (auto simp: list_ex_iff)
qed

definition train_working :: watchdog where
  "train_working = run_task (\<lambda>_. []) ''python'' (\<lambda>_. None) (\<lambda>_. Failed []) 0 0 train_asked"

lemma train_working_reach: "(\<And>s. ok s Job_Request) \<Longrightarrow> (\<And>s. ok s Task) \<Longrightarrow> wd_reach ok train_working"
  unfolding train_working_def by (rule wd_reach.step [OF train_asked_reach _ task]) blast+

lemma train_working_tasks: "tasks train_working = [A_work ''train'' [''python'', ''train.py'']]"
  by (simp add: train_working_def run_task_def train_asked_def task_step_def build_argv_def py_or_def)

theorem gpu_is_free_for_jobs_witness: "tasks train_working \<noteq> [] \<and> live train_working = {}"
  using gpu_is_free_for_jobs [OF train_working_reach] by (simp add: train_working_tasks)

text \<open>C38: a restart during a job breaks that isolation. The handler of \<open>POST /restart\<close> takes only the process
  lock, so it can start the server beside a working job, and the job then starts a second server beside
  the first without stopping it: two live server processes, of which the watchdog knows one.\<close>

theorem restart_during_job:
  "\<exists>s s'. wd_reach (\<lambda>_ _. True) s \<and> (\<exists>t\<in>set (tasks s). holds_gpu t) \<and> is_running s
     \<and> wd_reach (\<lambda>_ _. True) s' \<and> card (live s') = 2"
proof -
  let ?w = "restart train_working"
  let ?l = "run_task (\<lambda>_. []) ''python'' (\<lambda>_. None) (\<lambda>_. Ended 0 []) 0 0 ?w"
  let ?d = "run_task (\<lambda>_. []) ''python'' (\<lambda>_. None) (\<lambda>_. Failed []) 0 0 ?l"
  have r: "wd_reach (\<lambda>_ _. True) ?w"
    by (rule wd_reach.step [OF train_working_reach _ restart]) simp_all
  have l: "wd_reach (\<lambda>_ _. True) ?l" by (rule wd_reach.step [OF r _ task]) simp
  have d: "wd_reach (\<lambda>_ _. True) ?d" by (rule wd_reach.step [OF l _ task]) simp
  have "live ?d = {1, 2}"
    by (auto simp: live_def train_working_def train_asked_def main_def launch_def kill_def idle_watchdog_def run_task_def
        task_step_def build_argv_def py_or_def Watchdog.restart_def log_server_def split: if_splits)
  moreover have "(\<exists>t\<in>set (tasks ?w). holds_gpu t) \<and> is_running ?w"
    by (simp add: Watchdog.restart_def frame_simps train_working_tasks)
  ultimately show ?thesis using r d by (intro exI [of _ ?w] exI [of _ ?d]) simp
qed

section \<open>A job ends with the server up\<close>

text \<open>C35: a job whose command line can be built cannot strand the server. Whatever its process does, fail to start
  included, an asynchronous job is over after four steps of its thread and a synchronous one after two: the server runs,
  the slot is free again and the state carries the return code (-1 when the process never ran).\<close>

theorem job_restores_server:
  assumes "tasks s = [t]" "t = A_start name spec args \<or> t = S_start name spec args" "build_argv rp python spec args = Inr argv"
  shows "\<exists>n \<le> 4. \<forall>wt. (let s' = (run_task rp python parse e wt 0 ^^ n) s in
    is_running s' \<and> tasks s' = [] \<and> \<not> js_running (job s') \<and> js_returncode (job s') = Some (end_rc (e argv)))"
  using assms(2)
proof
  assume t: "t = A_start name spec args"
  show ?thesis
    by (rule exI [of _ 4])
      (simp add: numeral_eq_Suc run_task_def assms(1,3) t task_step_def Let_def is_running_def poll_def finish_job_def
        launch_def log_server_def)
next
  assume t: "t = S_start name spec args"
  show ?thesis
    by (rule exI [of _ 2])
      (simp add: numeral_eq_Suc run_task_def assms(1,3) t task_step_def Let_def is_running_def poll_def finish_job_def
        launch_def log_server_def)
qed

theorem job_restores_server_witness:
  "\<exists>n \<le> 4. \<forall>wt. (let s' = (run_task (\<lambda>_. []) ''python'' (\<lambda>_. None) (\<lambda>_. Failed []) wt 0 ^^ n) train_asked in
    is_running s' \<and> tasks s' = [] \<and> \<not> js_running (job s') \<and> js_returncode (job s') = Some (- 1))"
proof -
  have "build_argv (\<lambda>_. []) ''python'' [(''cmd'', JList [JStr ''train.py''])] [] = Inr [''python'', ''train.py'']"
    by (simp add: build_argv_def py_or_def)
  from job_restores_server [of train_asked "A_start ''train'' [(''cmd'', JList [JStr ''train.py''])] []" "''train''", OF _ _ this, of "\<lambda>_. None" "\<lambda>_. Failed []"]
  show ?thesis by (simp add: train_asked_def end_rc_def)
qed

text \<open>
  A manifest whose \<open>cmd\<close> is a number is accepted, and its job ends before the \<open>try\<close> that would free the slot. The slot then
  reads as taken for good: nothing the watchdog can be asked or can do frees it, and every later job is refused.
\<close>

lemma bad_command_keeps_slot:
  "\<exists>s1 s2. start_job (\<lambda>p. p) 1 (Parsed (JObj [(''jobs'', JObj [(''train'', JObj [(''cmd'', JInt 5)])])])) ''train'' [] main = Inr (Accepted, s1)
     \<and> s2 = run_task (\<lambda>_. []) ''python'' parse e 2 0 s1 \<and> tasks s2 = [] \<and> js_running (job s2)"
  by (simp add: start_job_def load_jobs_def main_def launch_def idle_watchdog_def no_job_def progress_path_def log_path_def
      py_or_def run_task_def task_step_def build_argv_def)

lemma lost_slot_stays:
  assumes "tasks s = []" "js_running (job s)" "wd_step ev s s'"
  shows "tasks s' = [] \<and> js_running (job s') \<and> job s' = job s"
  using assms(3)
proof (cases rule: wd_step.cases)
  case (job_request joinp wt manifest name params r)
  then show ?thesis using start_job_cases [OF job_request(2)] assms(1,2) by auto
qed (use assms(1,2) in \<open>simp_all add: frame_simps run_task_def Watchdog.restart_def git_pull_def Let_def\<close>)

section \<open>Crash relaunches are paced\<close>

definition is_relaunch :: "log_event \<Rightarrow> bool" where
  "is_relaunch e = (case e of Exit_Logged rc u r tr \<Rightarrow> r | _ \<Rightarrow> False)"

text \<open>The times the server log records a relaunch after a crash.\<close>

definition relaunches :: "watchdog \<Rightarrow> rat list" where
  "relaunches s = map fst (filter (\<lambda>(t, e). is_relaunch e) (server_log s))"

lemma prune_suffix: "sorted ts \<Longrightarrow> \<exists>old. ts = old @ prune c ts \<and> (\<forall>t\<in>set old. crash_relaunch_window \<le> c - t)"
proof (induction ts)
  case (Cons t ts)
  then obtain old where o: "ts = old @ prune c ts" "\<forall>t\<in>set old. crash_relaunch_window \<le> c - t" by auto
  show ?case
  proof (cases "c - t < crash_relaunch_window")
    case True
    then have "\<forall>x\<in>set ts. c - x < crash_relaunch_window" using Cons.prems by auto
    then have "prune c (t # ts) = t # ts" using True by (simp add: prune_def)
    then show ?thesis by (intro exI [of _ "[]"]) simp
  next
    case False
    then show ?thesis using o by (intro exI [of _ "t # old"]) (simp add: prune_def)
  qed
qed (simp add: prune_def)

definition spaced :: "rat list \<Rightarrow> bool" where
  "spaced ts = (\<forall>i. i + crash_relaunch_max < length ts \<longrightarrow> crash_relaunch_window \<le> ts ! (i + crash_relaunch_max) - ts ! i)"

definition paced :: "watchdog \<Rightarrow> bool" where
  "paced s = (spaced (relaunches s) \<and> sorted (relaunches s) \<and> (\<forall>t\<in>set (relaunches s). t \<le> clock s)
     \<and> (\<exists>old. relaunches s = old @ crash_relaunches s \<and> (\<forall>t\<in>set old. crash_relaunch_window \<le> clock s - t)))"

lemma spaced_append:
  assumes "spaced (old @ new)" "length new < crash_relaunch_max" "\<forall>t\<in>set old. crash_relaunch_window \<le> c - t"
  shows "spaced (old @ new @ [c])"
  unfolding spaced_def
proof (intro allI impI)
  fix i assume i: "i + crash_relaunch_max < length (old @ new @ [c])"
  show "crash_relaunch_window \<le> (old @ new @ [c]) ! (i + crash_relaunch_max) - (old @ new @ [c]) ! i"
  proof (cases "i + crash_relaunch_max < length (old @ new)")
    case True
    then have "(old @ new @ [c]) ! j = (old @ new) ! j" if "j \<le> i + crash_relaunch_max" for j
      using that True by (auto simp: nth_append)
    then show ?thesis using assms(1) True by (simp add: spaced_def)
  next
    case False
    then have l: "i + crash_relaunch_max = length (old @ new)" using i by simp
    then have "i < length old" using assms(2) by simp
    then show ?thesis using assms(3) l by (simp add: nth_append)
  qed
qed

lemma paced_prune:
  assumes "paced s"
  obtains old where "relaunches s = old @ prune (clock s) (crash_relaunches s)"
    "\<forall>t\<in>set old. crash_relaunch_window \<le> clock s - t"
proof -
  obtain old where o: "relaunches s = old @ crash_relaunches s" "\<forall>t\<in>set old. crash_relaunch_window \<le> clock s - t"
    using assms by (auto simp: paced_def)
  then have "sorted (crash_relaunches s)" using assms by (simp add: paced_def sorted_append)
  then obtain old' where o': "crash_relaunches s = old' @ prune (clock s) (crash_relaunches s)"
      "\<forall>t\<in>set old'. crash_relaunch_window \<le> clock s - t"
    using prune_suffix by blast
  show ?thesis by (rule that [of "old @ old'"]) (use o o' in auto)
qed

lemma paced_frame:
  "relaunches s' = relaunches s \<Longrightarrow> crash_relaunches s' = crash_relaunches s \<Longrightarrow> clock s \<le> clock s' \<Longrightarrow> paced s \<Longrightarrow> paced s'"
  unfolding paced_def by (metis (no_types, lifting) diff_right_mono order_trans)

lemma relaunches_frame:
  "server_log s' = server_log s \<Longrightarrow> relaunches s' = relaunches s"
  "\<not> is_relaunch e \<Longrightarrow> relaunches (log_server e s) = relaunches s"
  by (simp_all add: relaunches_def log_server_def)

lemma note_exit_relaunches:
  assumes "note_exit dash sn wt rc s = (relaunch, u)"
  shows "relaunches u = (if relaunch then relaunches s @ [clock s] else relaunches s)"
    "crash_relaunches u = prune (clock s) (crash_relaunches s) \<or> (\<not> relaunch \<and> crash_relaunches u = crash_relaunches s)"
    "relaunch \<Longrightarrow> length (prune (clock s) (crash_relaunches s)) < crash_relaunch_max"
    "clock u = clock s"
  using assms
  by (auto simp: note_exit_def Let_def relaunches_def log_server_def is_relaunch_def crash_loop_tripped_def
      split: prod.splits if_splits)

lemma paced_reap:
  assumes "paced s"
  shows "paced (reap dash sn wt s)"
proof (cases rule: reap_cases [of dash sn wt s])
  case (down rc)
  let ?u = "snd (note_exit dash sn wt rc s)"
  note n = note_exit_relaunches [of dash sn wt rc s False ?u]
  have e: "note_exit dash sn wt rc s = (False, ?u)" using down(4) by (cases "note_exit dash sn wt rc s") simp
  obtain old where o: "relaunches s = old @ prune (clock s) (crash_relaunches s)"
    "\<forall>t\<in>set old. crash_relaunch_window \<le> clock s - t" using paced_prune [OF assms] .
  have "\<exists>old. relaunches s = old @ crash_relaunches ?u \<and> (\<forall>t\<in>set old. crash_relaunch_window \<le> clock s - t)"
    using n(2) [OF e]
  proof
    assume "crash_relaunches ?u = prune (clock s) (crash_relaunches s)"
    then show ?thesis using o by (intro exI [of _ old]) simp
  next
    assume "\<not> False \<and> crash_relaunches ?u = crash_relaunches s"
    then show ?thesis using assms by (simp add: paced_def)
  qed
  then show ?thesis using assms n(1,4) [OF e] by (simp add: down(5) paced_def)
next
  case (relaunched rc u)
  have e: "note_exit dash sn wt rc s = (True, u)" using relaunched(4,5) by (cases "note_exit dash sn wt rc s") simp
  note n = note_exit_relaunches [OF e]
  let ?v = "launch (u\<lparr>crash_relaunches := crash_relaunches u @ [clock u]\<rparr>)"
  obtain old where o: "relaunches s = old @ prune (clock s) (crash_relaunches s)"
    "\<forall>t\<in>set old. crash_relaunch_window \<le> clock s - t" using paced_prune [OF assms] .
  have "spaced (old @ prune (clock s) (crash_relaunches s) @ [clock s])"
    by (rule spaced_append) (use assms o n(3) in \<open>simp_all add: paced_def\<close>)
  moreover have "relaunches ?v = old @ prune (clock s) (crash_relaunches s) @ [clock s]"
      "crash_relaunches ?v = prune (clock s) (crash_relaunches s) @ [clock s]"
    using n o(1) by (simp_all add: relaunches_def frame_simps)
  ultimately show ?thesis
    using assms o n(4) unfolding relaunched(6) by (auto simp: paced_def frame_simps sorted_append)
qed (simp add: assms)

lemma paced_frame_task:
  assumes "task_step rp python parse e wt t s = (t', s')"
  shows "relaunches s' = relaunches s \<and> crash_relaunches s' = crash_relaunches s \<and> clock s' = clock s"
proof -
  have log: "relaunches (log_server ev u) = relaunches u" if "\<not> is_relaunch ev" for ev u by (rule relaunches_frame(2) [OF that])
  have same: "relaunches (kill u) = relaunches u" "relaunches (launch u) = relaunches u" "relaunches (finish_job wt rc r u) = relaunches u"
    for rc r u by (simp_all add: relaunches_def frame_simps)
  have "\<not> is_relaunch (Job_Started x)" "\<not> is_relaunch (Job_Finished x rc)" "\<not> is_relaunch (Sync_Finished x rc)" for x rc
    by (simp_all add: is_relaunch_def)
  then show ?thesis
    using assms by (cases t) (auto simp: task_step_def Let_def log same frame_simps split: sum.splits)
qed

lemma paced_task:
  assumes "paced s"
  shows "paced (run_task rp python parse e wt i s)"
proof (cases "i < length (tasks s)")
  case True
  obtain t' s' where st: "task_step rp python parse e wt (tasks s ! i) s = (t', s')"
    by (cases "task_step rp python parse e wt (tasks s ! i) s")
  have "relaunches s' = relaunches s" "crash_relaunches s' = crash_relaunches s" "clock s' = clock s"
    using paced_frame_task [OF st] by simp_all
  then show ?thesis
    by (intro paced_frame [OF _ _ _ assms]) (simp_all add: run_task_def True st relaunches_def)
qed (simp add: run_task_def assms)

lemma paced_step:
  assumes "paced s" "wd_step ev s s'"
  shows "paced s'"
  using assms(2)
proof (cases rule: wd_step.cases)
  case (job_request joinp wt manifest name params r)
  then show ?thesis using start_job_frame [OF job_request(2)] by (intro paced_frame [OF _ _ _ assms(1)] relaunches_frame) simp_all
qed (use assms(1) in \<open>auto intro!: paced_reap paced_task paced_frame [OF _ _ _ assms(1)]
      simp: relaunches_def frame_simps Watchdog.restart_def git_pull_def Let_def log_server_def is_relaunch_def\<close>)

text \<open>C32: crash relaunches are paced. However often the server crashes, and whatever else happens, any relaunch
  recorded in the log and the third one after it are at least the whole window (600 s) apart: inside a
  window the supervisor relaunches at most three times.\<close>

theorem crash_relaunches_are_paced:
  assumes "wd_reach (\<lambda>_ _. True) s" "i + crash_relaunch_max < length (relaunches s)"
  shows "crash_relaunch_window \<le> relaunches s ! (i + crash_relaunch_max) - relaunches s ! i"
proof -
  have "paced s"
    using assms(1)
  proof (rule wd_invariant)
    show "paced main" by (simp add: paced_def spaced_def relaunches_def main_def frame_simps idle_watchdog_def)
  qed (rule paced_step)
  then show ?thesis using assms(2) by (simp add: paced_def spaced_def)
qed

text \<open>Four crashes: three relaunched at once, the fourth process started by hand and relaunched 700 s later.\<close>

definition crash_and_reap :: "nat \<Rightarrow> watchdog \<Rightarrow> watchdog" where
  "crash_and_reap p s = reap [] (\<lambda>_. None) 0 (s\<lparr>procs := dset p (Some (- 11)) (procs s)\<rparr>)"

lemma crash_reach:
  "wd_reach (\<lambda>_ _. True) s \<Longrightarrow> dget (procs s) p = Some None \<Longrightarrow> wd_reach (\<lambda>_ _. True) (crash_and_reap p s)"
  unfolding crash_and_reap_def by (rule wd_reach.step [OF wd_reach.step [OF _ _ process_exit] _ reaper]) simp_all

definition four_crashes :: watchdog where
  "four_crashes = crash_and_reap 3 ((crash_and_reap 2 (crash_and_reap 1 (crash_and_reap 0 main)))\<lparr>clock := 700\<rparr>)"

lemma four_crashes_reach: "wd_reach (\<lambda>_ _. True) four_crashes"
  unfolding four_crashes_def
  apply (rule crash_reach)
   apply (rule wd_reach.step [OF _ _ tick [of _ 700]])
     apply (rule crash_reach)+
        apply (rule wd_reach.start)
  apply (simp_all add: crash_and_reap_def main_def idle_watchdog_def launch_def reap_def poll_def note_exit_def
      describe_exit_def crash_loop_tripped_def prune_def crash_relaunch_window_def crash_relaunch_max_def log_server_def)
  done

lemma four_crashes_log: "relaunches four_crashes = [0, 0, 0, 700]"
  by (simp add: four_crashes_def crash_and_reap_def main_def idle_watchdog_def launch_def reap_def poll_def note_exit_def
      describe_exit_def crash_loop_tripped_def prune_def crash_relaunch_window_def crash_relaunch_max_def log_server_def
      relaunches_def is_relaunch_def)

theorem crash_relaunches_are_paced_witness: "crash_relaunch_window \<le> relaunches four_crashes ! 3 - relaunches four_crashes ! 0"
  using crash_relaunches_are_paced [OF four_crashes_reach, of 0] by (simp add: four_crashes_log crash_relaunch_max_def)

end
