(* ===== verification/Doc_Store.thy ===== *)
theory Doc_Store
  imports Gist
begin

text \<open>
  \<open>assoc/store.py\<close>, with the units of \<open>assoc/chunks.py\<close> and the chat kind of \<open>assoc/kinds/chat.py\<close>: the versioned
  document store of the associative library. The directory of a document is a record of its files, \<open>keys.json\<close>
  is kept twice, as the process holds it and as it is on disk. A kind is a plugin with a splitter; \<open>sha\<close> is
  the hexadecimal SHA-1 of a text, \<open>now\<close> the current time as text, \<open>language\<close> the guess of a text's language. Files are
  read and written without failure, except that reading the text of a missing document raises \<open>OSError\<close>.
\<close>

section \<open>Units\<close>

record doc_unit =
  u_id :: string
  u_role :: string
  u_path :: "string list"
  u_span :: "nat \<times> nat"
  u_text :: string
  u_parent :: "string option"
  u_type :: string
  u_keys :: jobj

definition norm_text :: "string \<Rightarrow> string" where
  "norm_text t = py_lower (join '' '' (words_from [] t))"

definition unit_sep :: string where
  "unit_sep = [CHR 0x1F]"

definition chunk_id_for :: "(string \<Rightarrow> string) \<Rightarrow> string \<Rightarrow> string list \<Rightarrow> string \<Rightarrow> string" where
  "chunk_id_for sha key path text = take 16 (sha (key @ unit_sep @ join ''/'' path @ unit_sep @ norm_text text))"

definition make_unit ::
  "(string \<Rightarrow> string) \<Rightarrow> string \<Rightarrow> string \<Rightarrow> string list \<Rightarrow> nat \<times> nat \<Rightarrow> string \<Rightarrow> string \<Rightarrow> doc_unit option \<Rightarrow> jobj \<Rightarrow> doc_unit" where
  "make_unit sha key role path at_span text ty parent ks =
     \<lparr>u_id = chunk_id_for sha key path text, u_role = role, u_path = path, u_span = at_span, u_text = text,
      u_parent = map_option u_id parent, u_type = ty, u_keys = ks\<rparr>"

text \<open>The unit of an allowed role with the largest overlap; the earliest of equals.\<close>

definition find_unit_for_span :: "doc_unit list \<Rightarrow> int \<Rightarrow> int \<Rightarrow> string list \<Rightarrow> doc_unit option" where
  "find_unit_for_span units start stop roles =
     fst (foldl (\<lambda>(best, best_ov) u.
       if u_role u \<notin> set roles then (best, best_ov)
       else let ov = min stop (int (snd (u_span u))) - max start (int (fst (u_span u))) in
         if best_ov < ov then (Some u, ov) else (best, best_ov)) (None, 0) units)"

section \<open>The store\<close>

record doc_files =
  df_text :: string
  df_source :: string
  df_meta :: jobj
  df_units :: "doc_unit list"
  df_status :: jobj
  df_facts :: "json option"
  df_summary :: "json option"

record key_entry =
  ke_kind :: string
  ke_versions :: "string list"
  ke_removed :: bool

type_synonym key_table = "(string, key_entry) dict"

record store =
  docs :: "(string, doc_files) dict"
  keys_mem :: key_table
  keys_disk :: key_table

record kind_spec =
  ks_split :: "string \<Rightarrow> jobj \<Rightarrow> (string \<times> doc_unit list) py"
  ks_witnesses :: "string list"

record lib_env =
  le_repr :: "json \<Rightarrow> string"
  le_sha :: "string \<Rightarrow> string"
  le_kinds :: "string \<Rightarrow> kind_spec option"
  le_language :: "string \<Rightarrow> string"

definition empty_store :: store where
  "empty_store = \<lparr>docs = [], keys_mem = [], keys_disk = []\<rparr>"

definition doc_id_for :: "(string \<Rightarrow> string) \<Rightarrow> string \<Rightarrow> string \<Rightarrow> string" where
  "doc_id_for sha key version = take 16 (sha (key @ unit_sep @ version))"

definition reload :: "store \<Rightarrow> store" where
  "reload s = s\<lparr>keys_mem := keys_disk s\<rparr>"

definition save_keys :: "store \<Rightarrow> store" where
  "save_keys s = s\<lparr>keys_disk := keys_mem s\<rparr>"

definition versions_of :: "store \<Rightarrow> string \<Rightarrow> string list" where
  "versions_of s key = (case dget (keys_mem s) key of None \<Rightarrow> [] | Some e \<Rightarrow> ke_versions e)"

definition latest_id :: "store \<Rightarrow> string \<Rightarrow> string option" where
  "latest_id s key = (if versions_of s key = [] then None else Some (last (versions_of s key)))"

definition append_only_kinds :: "string list" where
  "append_only_kinds = [''chat'']"

definition opt_json :: "string option \<Rightarrow> json" where
  "opt_json v = (case v of None \<Rightarrow> JNull | Some x \<Rightarrow> JStr x)"

definition title_of :: "doc_unit list \<Rightarrow> string \<Rightarrow> string" where
  "title_of units key = (case filter (\<lambda>u. u_path u \<noteq> []) units of [] \<Rightarrow> key | u # _ \<Rightarrow> hd (u_path u))"

definition pending_status :: "string \<Rightarrow> kind_spec \<Rightarrow> jobj" where
  "pending_status now spec =
     [(''status'', JStr ''pending''), (''witnesses'', JList (List.map JStr (ks_witnesses spec))), (''updated_at'', JStr now)]"

text \<open>The files of a new version; files of an earlier document in the same directory that are not written stay.\<close>

definition put_document ::
  "string \<Rightarrow> kind_spec \<Rightarrow> string \<Rightarrow> string \<Rightarrow> string \<Rightarrow> jobj \<Rightarrow> doc_unit list \<Rightarrow> (string, doc_files) dict \<Rightarrow> (string, doc_files) dict" where
  "put_document now spec i rendered text meta units ds =
     dset i \<lparr>df_text = rendered, df_source = text, df_meta = meta, df_units = units, df_status = pending_status now spec,
        df_facts = (case dget ds i of None \<Rightarrow> None | Some d \<Rightarrow> df_facts d),
        df_summary = (case dget ds i of None \<Rightarrow> None | Some d \<Rightarrow> df_summary d)\<rparr> ds"

definition version_meta :: "string \<Rightarrow> string \<Rightarrow> string \<Rightarrow> string option \<Rightarrow> bool \<Rightarrow> jobj \<Rightarrow> jobj" where
  "version_meta now i version prev ao meta =
     dmerge meta [(''doc_id'', JStr i), (''version'', JStr version), (''schema'', JInt 1), (''ingested_at'', JStr now),
       (''supersedes'', opt_json prev), (''append_only'', JBool ao)]"

section \<open>Ingesting\<close>

text \<open>\<open>_version_instead\<close>: a transcript that is no longer an extension of the stored one becomes a version.\<close>

definition version_instead ::
  "lib_env \<Rightarrow> string \<Rightarrow> kind_spec \<Rightarrow> string \<Rightarrow> string \<Rightarrow> jobj \<Rightarrow> string \<Rightarrow> key_entry \<Rightarrow> store \<Rightarrow> string py \<times> store" where
  "version_instead env now spec version text meta okey e s =
     (let key = fstr (le_repr env) (jget meta ''key''); i = doc_id_for (le_sha env) key version in
      case ks_split spec text meta of
        Inl x \<Rightarrow> (Inl x, s)
      | Inr (rendered, units) \<Rightarrow>
          if ke_versions e = [] then (Inl IndexError, s)
          else
            let meta' = dsetdefault ''title'' (JStr (title_of units key))
                  (version_meta now i version (Some (last (ke_versions e))) True meta)
            in (Inr i, save_keys (s\<lparr>docs := put_document now spec i rendered text meta' units (docs s),
                 keys_mem := dset okey (e\<lparr>ke_versions := ke_versions e @ [i]\<rparr>) (keys_mem s)\<rparr>)))"

definition pending_after :: "string \<Rightarrow> doc_unit list \<Rightarrow> jobj \<Rightarrow> jobj py" where
  "pending_after now new st =
     (if new = [] then Inr st
      else case py_or (jget st ''pending_chunks'') (JList []) of
          JList xs \<Rightarrow> Inr (dmerge st [(''status'', JStr ''pending''), (''pending_chunks'', JList (xs @ List.map (\<lambda>u. JStr (u_id u)) new)),
            (''updated_at'', JStr now)])
        | _ \<Rightarrow> Inl TypeError)"

definition append_version ::
  "lib_env \<Rightarrow> string \<Rightarrow> kind_spec \<Rightarrow> string \<Rightarrow> string \<Rightarrow> jobj \<Rightarrow> store \<Rightarrow> string py \<times> store" where
  "append_version env now spec i text meta s =
     (let old_meta = (case dget (docs s) i of None \<Rightarrow> [] | Some d \<Rightarrow> df_meta d);
          old_units = (case dget (docs s) i of None \<Rightarrow> [] | Some d \<Rightarrow> df_units d) in
      case ks_split spec text (dset ''key'' (jget old_meta ''key'') (dmerge old_meta meta)) of
        Inl x \<Rightarrow> (Inl x, s)
      | Inr (rendered, units) \<Rightarrow>
          (case dget (docs s) i of
             None \<Rightarrow> (Inl OSError, s)
           | Some d \<Rightarrow>
               if \<not> startswith rendered (rstrip_if (\<lambda>c. c = CHR 0x0A) (df_text d)) then
                 (case dget old_meta ''key'' of
                    Some (JStr k) \<Rightarrow>
                      (case dget (keys_mem s) k of
                         Some e \<Rightarrow>
                           let version = now @ ''-'' @ nat_str (length (ke_versions e)) in
                           version_instead env now spec version text (dset ''version'' (JStr version) meta) k e s
                       | None \<Rightarrow> (Inl KeyError, s))
                  | _ \<Rightarrow> (Inl KeyError, s))
               else
                 let new_units = filter (\<lambda>u. u_id u \<notin> set (List.map u_id old_units)) units;
                     d1 = d\<lparr>df_text := rendered, df_source := text, df_units := df_units d @ new_units\<rparr>
                 in case pending_after now new_units (df_status d) of
                      Inl x \<Rightarrow> (Inl x, s\<lparr>docs := dset i d1 (docs s)\<rparr>)
                    | Inr st \<Rightarrow> (Inr i, s\<lparr>docs := dset i (d1\<lparr>df_status := st,
                        df_meta := dset ''appended_at'' (JStr now) old_meta\<rparr>) (docs s)\<rparr>)))"

definition index_of :: "'a \<Rightarrow> 'a list \<Rightarrow> nat option" where
  "index_of x xs = (if x \<in> set xs then Some (length (takeWhile (\<lambda>y. y \<noteq> x) xs)) else None)"

definition previous_version :: "string list \<Rightarrow> nat option \<Rightarrow> string option" where
  "previous_version vs position =
     (case position of
        Some p \<Rightarrow> if p = 0 then None else Some (vs ! (p - 1))
      | None \<Rightarrow> if vs = [] then None else Some (last vs))"

definition new_version ::
  "lib_env \<Rightarrow> string \<Rightarrow> kind_spec \<Rightarrow> string \<Rightarrow> string \<Rightarrow> string \<Rightarrow> string \<Rightarrow> jobj \<Rightarrow> key_entry \<Rightarrow> store \<Rightarrow> string py \<times> store" where
  "new_version env now spec key version0 text kind meta0 e s =
     (let vs = ke_versions e;
          version = (if version0 = [] then (if vs = [] then now else now @ ''-'' @ nat_str (length vs)) else version0);
          meta = (if version0 = [] then dset ''version'' (JStr version) meta0 else meta0);
          i = doc_id_for (le_sha env) key version;
          position = index_of i vs;
          s1 = (if position = None then s else s\<lparr>docs := dpop i (docs s)\<rparr>)
      in case ks_split spec text meta of
           Inl x \<Rightarrow> (Inl x, s1)
         | Inr (rendered, units) \<Rightarrow>
             let meta' = dsetdefault ''language'' (JStr (le_language env rendered))
                   (dsetdefault ''title'' (JStr (title_of units key))
                     (version_meta now i version (previous_version vs position) (kind \<in> set append_only_kinds) meta));
                 e' = (if position = None then e\<lparr>ke_versions := vs @ [i]\<rparr> else e)
             in (Inr i, save_keys (s1\<lparr>docs := put_document now spec i rendered text meta' units (docs s1),
                  keys_mem := dset key e' (keys_mem s1)\<rparr>)))"

definition ingest_key :: "lib_env \<Rightarrow> string \<Rightarrow> jobj \<Rightarrow> string" where
  "ingest_key env text meta =
     (let key = fstr (le_repr env) (py_or (py_or (py_or (jget meta ''key'') (jget meta ''url'')) (jget meta ''path'')) (JStr []))
      in if key = [] then ''doc-'' @ take 12 (le_sha env text) else key)"

definition ingest_meta :: "string \<Rightarrow> string \<Rightarrow> jobj \<Rightarrow> jobj \<Rightarrow> jobj" where
  "ingest_meta key kind meta scope =
     foldl (\<lambda>m (k, v). dsetdefault k v m) (dset ''kind'' (JStr kind) (dset ''key'' (JStr key) meta)) scope"

definition ingest ::
  "lib_env \<Rightarrow> string \<Rightarrow> string \<Rightarrow> string \<Rightarrow> jobj \<Rightarrow> jobj \<Rightarrow> store \<Rightarrow> string py \<times> store" where
  "ingest env now text kind meta0 scope s =
     (case le_kinds env kind of
        None \<Rightarrow> (Inl KeyError, s)
      | Some spec \<Rightarrow>
          let key = ingest_key env text meta0;
              meta = ingest_meta key kind meta0 scope;
              version = fstr (le_repr env) (py_or (py_or (jget meta ''version'') (jget meta ''date'')) (JStr []));
              e = (case dget (keys_mem s) key of
                  None \<Rightarrow> \<lparr>ke_kind = kind, ke_versions = [], ke_removed = False\<rparr>
                | Some e \<Rightarrow> e\<lparr>ke_removed := False\<rparr>);
              s1 = s\<lparr>keys_mem := dset key e (keys_mem s)\<rparr>
          in if kind \<in> set append_only_kinds \<and> ke_versions e \<noteq> []
             then append_version env now spec (last (ke_versions e)) text meta s1
             else new_version env now spec key version text kind meta e s1)"

section \<open>Write-backs and the current set\<close>

text \<open>A write into the directory of a document that is not there raises.\<close>

definition with_doc :: "string \<Rightarrow> (doc_files \<Rightarrow> doc_files) \<Rightarrow> store \<Rightarrow> store py" where
  "with_doc i g s = (case dget (docs s) i of None \<Rightarrow> Inl OSError | Some d \<Rightarrow> Inr (s\<lparr>docs := dset i (g d) (docs s)\<rparr>))"

definition status_update :: "string \<Rightarrow> string \<Rightarrow> jobj \<Rightarrow> jobj \<Rightarrow> jobj" where
  "status_update now status report st = dmerge st [(''status'', JStr status), (''updated_at'', JStr now), (''report'', JObj report)]"

definition write_protocol :: "string \<Rightarrow> string \<Rightarrow> json \<Rightarrow> string \<Rightarrow> jobj \<Rightarrow> store \<Rightarrow> store py" where
  "write_protocol now i protocol status report s =
     with_doc i (\<lambda>d. d\<lparr>df_facts := Some protocol, df_status := dpop ''pending_chunks'' (status_update now status report (df_status d))\<rparr>) s"

definition write_status :: "string \<Rightarrow> string \<Rightarrow> string \<Rightarrow> jobj \<Rightarrow> store \<Rightarrow> store py" where
  "write_status now i status report s = with_doc i (\<lambda>d. d\<lparr>df_status := status_update now status report (df_status d)\<rparr>) s"

definition write_gist :: "string \<Rightarrow> json \<Rightarrow> store \<Rightarrow> store py" where
  "write_gist i summary s = with_doc i (\<lambda>d. d\<lparr>df_summary := Some summary\<rparr>) s"

definition remove_key :: "string \<Rightarrow> store \<Rightarrow> store" where
  "remove_key key s =
     (case dget (keys_mem s) key of
        None \<Rightarrow> s
      | Some e \<Rightarrow> save_keys (s\<lparr>keys_mem := dset key (e\<lparr>ke_removed := True\<rparr>) (keys_mem s)\<rparr>))"

definition all_doc_ids :: "store \<Rightarrow> string list" where
  "all_doc_ids s = concat (List.map (\<lambda>(k, e). ke_versions e) (keys_mem s))"

definition pending :: "store \<Rightarrow> string list" where
  "pending s = filter (\<lambda>i. case dget (docs s) i of None \<Rightarrow> False | Some d \<Rightarrow> jget (df_status d) ''status'' = JStr ''pending'') (all_doc_ids s)"

definition doc_meta :: "store \<Rightarrow> string \<Rightarrow> jobj" where
  "doc_meta s i = (case dget (docs s) i of None \<Rightarrow> [] | Some d \<Rightarrow> df_meta d)"

definition facets_match :: "(json \<Rightarrow> string) \<Rightarrow> jobj \<Rightarrow> jobj \<Rightarrow> bool" where
  "facets_match rp meta scope =
     list_all (\<lambda>(facet, v). v = JNull \<or> (case jget meta facet of
        JNull \<Rightarrow> True
      | JList xs \<Rightarrow> list_ex (json_eq v) xs
      | have_it \<Rightarrow> fstr rp have_it = fstr rp v)) scope"

definition current_doc_ids :: "(json \<Rightarrow> string) \<Rightarrow> jobj \<Rightarrow> store \<Rightarrow> string list" where
  "current_doc_ids rp scope0 s =
     (let scope = dpop ''version'' scope0; wanted = jget scope0 ''version'';
          chosen = (\<lambda>e. filter (\<lambda>i. facets_match rp (doc_meta s i) scope
             \<and> (wanted = JNull \<or> fstr rp (jget (doc_meta s i) ''version'') = fstr rp wanted)) (ke_versions e))
      in List.map_filter (\<lambda>(k, e). if ke_removed e \<or> chosen e = [] then None else Some (last (chosen e))) (keys_mem s))"

section \<open>The chat kind\<close>

text \<open>\<open>loads\<close> is \<open>json.loads\<close>; the indented message line of the assistant is labelled \<open>Me\<close>.\<close>

definition parse_chat_text :: "(string \<Rightarrow> json option) \<Rightarrow> string \<Rightarrow> json" where
  "parse_chat_text loads text =
     (case loads text of None \<Rightarrow> JObj [(''exchanges'', JList [])] | Some (JList xs) \<Rightarrow> JObj [(''exchanges'', JList xs)] | Some j \<Rightarrow> j)"

record chat_mark =
  cm_index :: nat
  cm_span :: "nat \<times> nat"
  cm_speaker :: string
  cm_ts :: json

definition chat_field :: "(json \<Rightarrow> string) \<Rightarrow> json \<Rightarrow> string" where
  "chat_field rp v = py_strip (fstr rp (py_or v (JStr [])))"

definition chat_speaker :: "(json \<Rightarrow> string) \<Rightarrow> json \<Rightarrow> jobj \<Rightarrow> string" where
  "chat_speaker rp user ex = py_strip (fstr rp (py_or (py_or (jget ex ''speaker'') user) (JStr ''User'')))"

definition chat_block :: "(json \<Rightarrow> string) \<Rightarrow> json \<Rightarrow> jobj \<Rightarrow> string" where
  "chat_block rp user ex =
     chat_speaker rp user ex @ '': '' @ chat_field rp (jget ex ''user_prompt'') @ [CHR 0x0A] @ ''Me: ''
       @ chat_field rp (jget ex ''assistant_response'')"

fun render_exchanges :: "(json \<Rightarrow> string) \<Rightarrow> json \<Rightarrow> nat \<Rightarrow> nat \<Rightarrow> json list \<Rightarrow> (string \<times> chat_mark list) py" where
  "render_exchanges rp user i pos [] = Inr ([], [])"
| "render_exchanges rp user i pos (x # xs) =
     py_bind (as_dict x) (\<lambda>ex.
       let block = chat_block rp user ex; stop = pos + length block in
       py_bind (render_exchanges rp user (i + 1) (stop + 2) xs) (\<lambda>(rest, marks).
         Inr (block @ [CHR 0x0A, CHR 0x0A] @ rest,
              \<lparr>cm_index = i, cm_span = (pos, stop), cm_speaker = chat_speaker rp user ex,
               cm_ts = py_or (py_or (jget ex ''ts'') (jget ex ''timestamp'')) (JStr [])\<rparr> # marks)))"

definition render_transcript :: "(json \<Rightarrow> string) \<Rightarrow> jobj \<Rightarrow> (string \<times> chat_mark list) py" where
  "render_transcript rp doc =
     py_bind (json_list_items (py_or (jget doc ''exchanges'') (JList []))) (render_exchanges rp (jget doc ''user'') 0 0)"

definition chat_unit :: "(string \<Rightarrow> string) \<Rightarrow> string \<Rightarrow> json \<Rightarrow> string \<Rightarrow> chat_mark \<Rightarrow> doc_unit" where
  "chat_unit sha key user rendered m =
     make_unit sha key ''primary'' [''exchange '' @ nat_str (cm_index m)] (cm_span m)
       (take (snd (cm_span m) - fst (cm_span m)) (drop (fst (cm_span m)) rendered)) ''exchange'' None
       [(''index'', JInt (int (cm_index m))), (''speaker'', JStr (cm_speaker m)), (''ts'', cm_ts m), (''user'', py_or user (JStr []))]"

definition chat_split ::
  "(json \<Rightarrow> string) \<Rightarrow> (string \<Rightarrow> string) \<Rightarrow> (string \<Rightarrow> json option) \<Rightarrow> string \<Rightarrow> jobj \<Rightarrow> (string \<times> doc_unit list) py" where
  "chat_split rp sha loads text meta =
     py_bind (as_dict (parse_chat_text loads text)) (\<lambda>doc.
     py_bind (render_transcript rp doc) (\<lambda>(rendered, marks).
       if marks = [] then Inr (rendered, [])
       else py_bind (as_str (jget_or meta ''key'' (JStr []))) (\<lambda>key.
         Inr (rendered, List.map (chat_unit sha key (jget doc ''user'') rendered) marks))))"

definition chat_kind :: "(json \<Rightarrow> string) \<Rightarrow> (string \<Rightarrow> string) \<Rightarrow> (string \<Rightarrow> json option) \<Rightarrow> kind_spec" where
  "chat_kind rp sha loads = \<lparr>ks_split = chat_split rp sha loads, ks_witnesses = [''llm'']\<rparr>"

section \<open>A transcript that grows\<close>

lemma render_append:
  assumes "render_exchanges rp user i pos xs = Inr (t, ms)" "render_exchanges rp user (i + length xs) (pos + length t) ys = Inr (t', ms')"
  shows "render_exchanges rp user i pos (xs @ ys) = Inr (t @ t', ms @ ms')"
  using assms
proof (induction xs arbitrary: i pos t ms)
  case (Cons x xs)
  then obtain ex rest marks where c: "x = JObj ex"
      "render_exchanges rp user (i + 1) (pos + length (chat_block rp user ex) + 2) xs = Inr (rest, marks)"
      "t = chat_block rp user ex @ [CHR 0x0A, CHR 0x0A] @ rest"
      "ms = \<lparr>cm_index = i, cm_span = (pos, pos + length (chat_block rp user ex)), cm_speaker = chat_speaker rp user ex,
               cm_ts = py_or (py_or (jget ex ''ts'') (jget ex ''timestamp'')) (JStr [])\<rparr> # marks"
    by (cases x) (auto simp: py_bind_eq_Inr Let_def)
  then show ?case using Cons.IH [OF c(2)] Cons.prems(2) by (simp add: Let_def add.assoc)
qed simp

lemma render_split:
  assumes "render_exchanges rp user i pos (xs @ ys) = Inr (t, ms)"
  shows "\<exists>t1 ms1 t2 ms2. render_exchanges rp user i pos xs = Inr (t1, ms1)
    \<and> render_exchanges rp user (i + length xs) (pos + length t1) ys = Inr (t2, ms2) \<and> t = t1 @ t2 \<and> ms = ms1 @ ms2"
  using assms
proof (induction xs arbitrary: i pos t ms)
  case (Cons x xs)
  then obtain ex rest marks where c: "x = JObj ex"
      "render_exchanges rp user (i + 1) (pos + length (chat_block rp user ex) + 2) (xs @ ys) = Inr (rest, marks)"
      "t = chat_block rp user ex @ [CHR 0x0A, CHR 0x0A] @ rest"
      "ms = \<lparr>cm_index = i, cm_span = (pos, pos + length (chat_block rp user ex)), cm_speaker = chat_speaker rp user ex,
               cm_ts = py_or (py_or (jget ex ''ts'') (jget ex ''timestamp'')) (JStr [])\<rparr> # marks"
    by (cases x) (auto simp: py_bind_eq_Inr Let_def)
  from Cons.IH [OF c(2)] show ?case using c(1,3,4) by (auto simp: Let_def add.assoc)
qed simp

lemma marks_in_text: "render_exchanges rp user i pos xs = Inr (t, ms) \<Longrightarrow> m \<in> set ms \<Longrightarrow>
    pos \<le> fst (cm_span m) \<and> fst (cm_span m) \<le> snd (cm_span m) \<and> snd (cm_span m) \<le> pos + length t"
proof (induction xs arbitrary: i pos t ms)
  case (Cons x xs)
  then obtain ex rest marks where c: "x = JObj ex"
      "render_exchanges rp user (i + 1) (pos + length (chat_block rp user ex) + 2) xs = Inr (rest, marks)"
      "t = chat_block rp user ex @ [CHR 0x0A, CHR 0x0A] @ rest"
      "ms = \<lparr>cm_index = i, cm_span = (pos, pos + length (chat_block rp user ex)), cm_speaker = chat_speaker rp user ex,
               cm_ts = py_or (py_or (jget ex ''ts'') (jget ex ''timestamp'')) (JStr [])\<rparr> # marks"
    by (cases x) (auto simp: py_bind_eq_Inr Let_def)
  then show ?case using Cons.IH [OF c(2)] Cons.prems(2) by auto
qed simp

lemma chat_unit_prefix: "snd (cm_span m) \<le> length t \<Longrightarrow> chat_unit sha key user (t @ t') m = chat_unit sha key user t m"
  by (simp add: chat_unit_def)

text \<open>The transcript \<open>d2\<close> continues \<open>d1\<close>: the same user, the same exchanges and more.\<close>

definition continues :: "jobj \<Rightarrow> jobj \<Rightarrow> json list \<Rightarrow> bool" where
  "continues d1 d2 ys = (\<exists>xs. jget d1 ''exchanges'' = JList xs \<and> jget d2 ''exchanges'' = JList (xs @ ys) \<and> jget d2 ''user'' = jget d1 ''user'')"

lemma chat_split_obj:
  assumes "loads t = Some (JObj d)" "jget d ''exchanges'' = JList xs"
  shows "chat_split rp sha loads t meta =
    py_bind (render_exchanges rp (jget d ''user'') 0 0 xs) (\<lambda>(rendered, marks).
      if marks = [] then Inr (rendered, [])
      else py_bind (as_str (jget_or meta ''key'' (JStr []))) (\<lambda>key.
        Inr (rendered, List.map (chat_unit sha key (jget d ''user'') rendered) marks)))"
proof -
  have "json_list_items (py_or (JList xs) (JList [])) = Inr xs" by (cases xs) (simp_all add: py_or_def)
  then show ?thesis using assms by (simp add: chat_split_def parse_chat_text_def render_transcript_def)
qed

lemma length_marks: "render_exchanges rp user i pos xs = Inr (t, ms) \<Longrightarrow> length ms = length xs"
proof (induction xs arbitrary: i pos t ms)
  case (Cons x xs)
  then show ?case by (cases x) (auto simp: py_bind_eq_Inr Let_def)
qed simp

lemma chat_split_grows:
  assumes l: "loads t1 = Some (JObj d1)" "loads t2 = Some (JObj d2)" "continues d1 d2 ys"
    and s: "chat_split rp sha loads t1 meta1 = Inr (r1, u1)" "chat_split rp sha loads t2 meta2 = Inr (r2, u2)"
    and k: "jget_or meta1 ''key'' (JStr []) = jget_or meta2 ''key'' (JStr [])"
  shows "\<exists>r u. r2 = r1 @ r \<and> u2 = u1 @ u \<and> length u = length ys"
proof -
  obtain xs where x: "jget d1 ''exchanges'' = JList xs" "jget d2 ''exchanges'' = JList (xs @ ys)" "jget d2 ''user'' = jget d1 ''user''"
    using l(3) by (auto simp: continues_def)
  let ?user = "jget d1 ''user''"
  obtain m2 where m2: "render_exchanges rp ?user 0 0 (xs @ ys) = Inr (r2, m2)"
      "m2 \<noteq> [] \<Longrightarrow> \<exists>key. jget_or meta2 ''key'' (JStr []) = JStr key \<and> u2 = List.map (chat_unit sha key ?user r2) m2"
      "m2 = [] \<Longrightarrow> u2 = []"
    using s(2) unfolding chat_split_obj [where loads = loads, OF l(2) x(2)] x(3)
    by (auto simp: py_bind_eq_Inr split: if_splits prod.splits elim: as_str.elims)
  obtain ra ma rb mb where d: "render_exchanges rp ?user 0 0 xs = Inr (ra, ma)" "r2 = ra @ rb" "m2 = ma @ mb"
      "render_exchanges rp ?user (length xs) (length ra) ys = Inr (rb, mb)"
    using render_split [OF m2(1)] by auto
  have r1: "r1 = ra" and u1: "ma = [] \<Longrightarrow> u1 = []"
      "ma \<noteq> [] \<Longrightarrow> \<exists>key. jget_or meta1 ''key'' (JStr []) = JStr key \<and> u1 = List.map (chat_unit sha key ?user ra) ma"
    using s(1) unfolding chat_split_obj [where loads = loads, OF l(1) x(1)] d(1)
    by (auto split: if_splits simp: py_bind_eq_Inr elim: as_str.elims)
  have len: "length mb = length ys" using length_marks [OF d(4)] .
  have pre: "chat_unit sha key ?user (ra @ rb) m = chat_unit sha key ?user ra m" if "m \<in> set ma" for m key
    using marks_in_text [OF d(1) that] by (intro chat_unit_prefix) simp
  show ?thesis
  proof (cases "m2 = []")
    case True
    then show ?thesis using d len r1 u1(1) m2(3) by simp
  next
    case False
    then obtain key where key: "jget_or meta2 ''key'' (JStr []) = JStr key" "u2 = List.map (chat_unit sha key ?user r2) m2"
      using m2(2) by blast
    then have "u1 = List.map (chat_unit sha key ?user ra) ma" using u1 k by (cases "ma = []") auto
    then have "u2 = u1 @ List.map (chat_unit sha key ?user r2) mb" using key(2) d(2,3) pre by simp
    then show ?thesis using r1 d(2) len by (intro exI [of _ rb] exI [of _ "List.map (chat_unit sha key ?user r2) mb"]) simp
  qed
qed

lemma startswith_rstrip: "startswith (a @ b) (rstrip_if p a)"
proof -
  have "a = rstrip_if p a @ rev (takeWhile p (rev a))"
    unfolding rstrip_if_def by (metis rev_append rev_rev_ident takeWhile_dropWhile_id)
  then have "a @ b = rstrip_if p a @ (rev (takeWhile p (rev a)) @ b)" by simp
  then show ?thesis unfolding startswith_def by (metis append_eq_conv_conj)
qed

lemma render_total: "list_all is_obj xs \<Longrightarrow> \<exists>t ms. render_exchanges rp user i pos xs = Inr (t, ms)"
proof (induction xs arbitrary: i pos)
  case (Cons x xs)
  then obtain ex where "x = JObj ex" by (cases x) auto
  moreover obtain t ms where
    "render_exchanges rp user (i + 1) (pos + length (chat_block rp user ex) + 2) xs = Inr (t, ms)"
    using Cons.IH [of "i + 1" "pos + length (chat_block rp user ex) + 2"] Cons.prems by auto
  ultimately show ?case by (simp add: Let_def)
qed simp

lemma chat_split_total:
  assumes "loads t1 = Some (JObj d1)" "loads t2 = Some (JObj d2)" "continues d1 d2 ys"
    and "chat_split rp sha loads t1 meta1 = Inr (r1, u1)" "list_all is_obj ys" "jget_or meta2 ''key'' (JStr []) = JStr key"
  shows "\<exists>r2 u2. chat_split rp sha loads t2 meta2 = Inr (r2, u2)"
proof -
  obtain xs where x: "jget d1 ''exchanges'' = JList xs" "jget d2 ''exchanges'' = JList (xs @ ys)" "jget d2 ''user'' = jget d1 ''user''"
    using assms(3) by (auto simp: continues_def)
  let ?user = "jget d1 ''user''"
  obtain ta ma where a: "render_exchanges rp ?user 0 0 xs = Inr (ta, ma)"
    using assms(4) unfolding chat_split_obj [where loads = loads, OF assms(1) x(1)] by (auto simp: py_bind_eq_Inr)
  obtain tb mb where b: "render_exchanges rp ?user (0 + length xs) (0 + length ta) ys = Inr (tb, mb)"
    using render_total [OF assms(5)] by blast
  show ?thesis
    unfolding chat_split_obj [where loads = loads, OF assms(2) x(2)] x(3) render_append [OF a b] by (simp add: assms(6))
qed

lemma ingest_key_given: "jget meta ''key'' = JStr key \<Longrightarrow> key \<noteq> [] \<Longrightarrow> ingest_key env text meta = key"
  by (simp add: ingest_key_def py_or_def)

text \<open>A conversation that goes on keeps its chunks. Ingesting a stored chat again with more exchanges is an
  append in place: the document and its version list stay, every existing unit keeps its id, text and
  facts, the new units stand behind them and are exactly the ones queued for the witness.\<close>

theorem growing_chat_appends:
  assumes "le_kinds env ''chat'' = Some (chat_kind (le_repr env) (le_sha env) loads)"
    and key: "jget meta ''key'' = JStr key" "key \<noteq> []"
    and stored: "dget (keys_mem s) key = Some e" "ke_versions e = vs @ [i]" "dget (docs s) i = Some d"
      "dget (df_meta d) ''key'' = Some (JStr key)"
      "chat_split (le_repr env) (le_sha env) loads t1 (df_meta d) = Inr (df_text d, df_units d)"
      "py_or (jget (df_status d) ''pending_chunks'') (JList []) = JList ps"
    and grown: "loads t1 = Some (JObj d1)" "loads t2 = Some (JObj d2)" "continues d1 d2 ys" "list_all is_obj ys"
  shows "\<exists>d' r new. ingest env now t2 ''chat'' meta scope s = (Inr i, s\<lparr>docs := dset i d' (docs s),
      keys_mem := dset key (e\<lparr>ke_removed := False\<rparr>) (keys_mem s)\<rparr>)
    \<and> df_text d' = df_text d @ r \<and> df_units d' = df_units d @ new \<and> length new \<le> length ys \<and> df_facts d' = df_facts d
    \<and> (new \<noteq> [] \<longrightarrow> jget (df_status d') ''status'' = JStr ''pending''
         \<and> jget (df_status d') ''pending_chunks'' = JList (ps @ map (\<lambda>u. JStr (u_id u)) new))"
proof -
  define m where "m = ingest_meta key ''chat'' meta scope"
  define m2 where "m2 = dset ''key'' (jget (df_meta d) ''key'') (dmerge (df_meta d) m)"
  have mk: "jget_or m2 ''key'' (JStr []) = JStr key" "jget_or (df_meta d) ''key'' (JStr []) = JStr key"
    using stored(4) by (simp_all add: m2_def jget_or_def jget_def dget_or_def)
  obtain r2 u2 where sp: "chat_split (le_repr env) (le_sha env) loads t2 m2 = Inr (r2, u2)"
    using chat_split_total [OF grown(1-3) stored(5) grown(4) mk(1)] by blast
  obtain r u where g: "r2 = df_text d @ r" "u2 = df_units d @ u" "length u = length ys"
    using chat_split_grows [OF grown(1-3) stored(5) sp] mk by auto
  define new where "new = filter (\<lambda>x. u_id x \<notin> set (List.map u_id (df_units d))) u2"
  have new: "new = filter (\<lambda>x. u_id x \<notin> set (List.map u_id (df_units d))) u" by (simp add: new_def g(2) filter_empty_conv)
  then have len: "length new \<le> length ys" using g(3) by (metis length_filter_le)
  define st where "st = (if new = [] then df_status d else dmerge (df_status d)
      [(''status'', JStr ''pending''), (''pending_chunks'', JList (ps @ List.map (\<lambda>u. JStr (u_id u)) new)), (''updated_at'', JStr now)])"
  have pend: "pending_after now new (df_status d) = Inr st" using stored(6) by (simp add: pending_after_def st_def)
  define d' where "d' = d\<lparr>df_text := r2, df_source := t2, df_units := df_units d @ new, df_status := st,
      df_meta := dset ''appended_at'' (JStr now) (df_meta d)\<rparr>"
  have "ingest env now t2 ''chat'' meta scope s = append_version env now (chat_kind (le_repr env) (le_sha env) loads) i t2 m
      (s\<lparr>keys_mem := dset key (e\<lparr>ke_removed := False\<rparr>) (keys_mem s)\<rparr>)"
    using assms(1) stored(1,2) by (simp add: ingest_def ingest_key_given [OF key] m_def append_only_kinds_def Let_def)
  also have "\<dots> = (Inr i, s\<lparr>docs := dset i d' (docs s), keys_mem := dset key (e\<lparr>ke_removed := False\<rparr>) (keys_mem s)\<rparr>)"
    using stored(3) sp pend
    unfolding append_version_def Let_def
    by (simp add: chat_kind_def m2_def [symmetric] g(1) startswith_rstrip new_def [unfolded set_map, symmetric] d'_def)
  finally show ?thesis
    using len by (intro exI [of _ d'] exI [of _ r] exI [of _ new]) (simp add: d'_def g(1) st_def jget_def dget_or_def)
qed

text \<open>A library with the chat kind, a kind that refuses one text, and two transcripts, the second longer.\<close>

definition turn_one :: json where
  "turn_one = JObj [(''user_prompt'', JStr ''hi''), (''assistant_response'', JStr ''hello'')]"

definition turn_two :: json where
  "turn_two = JObj [(''user_prompt'', JStr ''and''), (''assistant_response'', JStr ''so'')]"

definition demo_loads :: "string \<Rightarrow> json option" where
  "demo_loads t = (if t = ''one'' then Some (JObj [(''exchanges'', JList [turn_one])])
     else if t = ''two'' then Some (JObj [(''exchanges'', JList [turn_one, turn_two])]) else None)"

definition demo_env :: lib_env where
  "demo_env = \<lparr>le_repr = (\<lambda>_. []), le_sha = (\<lambda>t. t),
     le_kinds = (\<lambda>k. if k = ''chat'' then Some (chat_kind (\<lambda>_. []) (\<lambda>t. t) demo_loads)
       else Some \<lparr>ks_split = (\<lambda>t m. if t = ''bad'' then Inl ValueError else Inr (t, [])), ks_witnesses = []\<rparr>),
     le_language = (\<lambda>_. ''en'')\<rparr>"

definition demo_chat :: store where
  "demo_chat = snd (ingest demo_env ''t0'' ''one'' ''chat'' [(''key'', JStr ''k''), (''version'', JStr ''1'')] [] empty_store)"

lemmas demo_defs = demo_env_def chat_kind_def chat_split_def parse_chat_text_def demo_loads_def turn_one_def turn_two_def
  render_transcript_def chat_block_def chat_speaker_def chat_field_def py_or_def chat_unit_def make_unit_def chunk_id_for_def
  unit_sep_def doc_id_for_def ingest_def ingest_key_def ingest_meta_def new_version_def append_version_def put_document_def
  version_meta_def pending_status_def title_of_def index_of_def previous_version_def opt_json_def save_keys_def empty_store_def
  append_only_kinds_def pending_after_def norm_text_def dsetdefault_def jget_def jget_or_def dget_or_def dmerge_def

lemma demo_chat_value:
  "\<exists>d. dget (keys_mem demo_chat) ''k'' = Some \<lparr>ke_kind = ''chat'', ke_versions = [] @ [''k'' @ unit_sep @ ''1''], ke_removed = False\<rparr>
     \<and> dget (docs demo_chat) (''k'' @ unit_sep @ ''1'') = Some d \<and> dget (df_meta d) ''key'' = Some (JStr ''k'')
     \<and> chat_split (le_repr demo_env) (le_sha demo_env) demo_loads ''one'' (df_meta d) = Inr (df_text d, df_units d)
     \<and> py_or (jget (df_status d) ''pending_chunks'') (JList []) = JList []"
  by (simp add: demo_chat_def demo_defs Let_def)

theorem growing_chat_appends_witness:
  "\<exists>d. fst (ingest demo_env ''t1'' ''two'' ''chat'' [(''key'', JStr ''k'')] [] demo_chat) = Inr (''k'' @ unit_sep @ ''1'')
     \<and> dget (docs (snd (ingest demo_env ''t1'' ''two'' ''chat'' [(''key'', JStr ''k'')] [] demo_chat))) (''k'' @ unit_sep @ ''1'') = Some d"
proof -
  obtain d where d: "dget (keys_mem demo_chat) ''k'' = Some \<lparr>ke_kind = ''chat'', ke_versions = [] @ [''k'' @ unit_sep @ ''1''], ke_removed = False\<rparr>"
     "dget (docs demo_chat) (''k'' @ unit_sep @ ''1'') = Some d" "dget (df_meta d) ''key'' = Some (JStr ''k'')"
     "chat_split (le_repr demo_env) (le_sha demo_env) demo_loads ''one'' (df_meta d) = Inr (df_text d, df_units d)"
     "py_or (jget (df_status d) ''pending_chunks'') (JList []) = JList []"
    using demo_chat_value by blast
  have k: "le_kinds demo_env ''chat'' = Some (chat_kind (le_repr demo_env) (le_sha demo_env) demo_loads)"
    by (simp add: demo_env_def)
  have c: "demo_loads ''one'' = Some (JObj [(''exchanges'', JList [turn_one])])"
    "demo_loads ''two'' = Some (JObj [(''exchanges'', JList [turn_one, turn_two])])"
    "continues [(''exchanges'', JList [turn_one])] [(''exchanges'', JList [turn_one, turn_two])] [turn_two]"
    "list_all is_obj [turn_two]"
    by (simp_all add: demo_loads_def continues_def jget_def dget_or_def turn_two_def)
  show ?thesis
    using growing_chat_appends [OF k _ _ d(1) _ d(2-5) c, of "[(''key'', JStr ''k'')]" "[]" "''t1''" "[]"]
    by (auto simp: jget_def dget_or_def)
qed

text \<open>Re-ingesting a removed chat that has grown is not written to \<open>keys.json\<close>: another process still sees it removed.\<close>

lemma revived_chat_forgotten:
  "let s = snd (ingest demo_env ''t1'' ''two'' ''chat'' [(''key'', JStr ''k'')] [] (remove_key ''k'' demo_chat)) in
     current_doc_ids (\<lambda>_. []) [] s = [''k'' @ unit_sep @ ''1''] \<and> current_doc_ids (\<lambda>_. []) [] (reload s) = []"
  by code_simp

text \<open>A version that is ingested again is removed from the disk before its new text is split: when the splitter
  refuses the text, the old document is gone and its key still lists it.\<close>

lemma failed_reingest_loses_document:
  assumes "le_kinds env kind = Some spec" "kind \<notin> set append_only_kinds" "jget meta ''key'' = JStr key" "key \<noteq> []"
    and "jget meta ''version'' = JStr version" "version \<noteq> []" "dget (keys_mem s) key = Some e"
    and "doc_id_for (le_sha env) key version \<in> set (ke_versions e)" "ks_split spec text (ingest_meta key kind meta []) = Inl x"
  shows "ingest env now text kind meta [] s = (Inl x, s\<lparr>docs := dpop (doc_id_for (le_sha env) key version) (docs s),
      keys_mem := dset key (e\<lparr>ke_removed := False\<rparr>) (keys_mem s)\<rparr>)"
proof -
  have v: "jget (ingest_meta key kind meta []) ''version'' = JStr version" using assms(5) by (simp add: ingest_meta_def)
  have "fstr (le_repr env) (py_or (py_or (JStr version) d) (JStr [])) = version" for d
    using assms(6) by (simp add: py_or_def)
  then show ?thesis
    using assms(1,2,4,6-9) by (simp add: ingest_def ingest_key_given [OF assms(3,4)] v new_version_def index_of_def Let_def)
qed

section \<open>The chain of versions\<close>

text \<open>The document at place \<open>j\<close> of the versions of a key, if it is stored, knows its key, its id and its predecessor.\<close>

definition link_ok :: "(string, doc_files) dict \<Rightarrow> string \<Rightarrow> string list \<Rightarrow> nat \<Rightarrow> bool" where
  "link_ok ds k vs j = (\<forall>d. dget ds (vs ! j) = Some d \<longrightarrow> dget (df_meta d) ''key'' = Some (JStr k)
     \<and> jget (df_meta d) ''doc_id'' = JStr (vs ! j)
     \<and> jget (df_meta d) ''supersedes'' = opt_json (if j = 0 then None else Some (vs ! (j - 1))))"

definition chain_ok :: "(string, doc_files) dict \<Rightarrow> string \<Rightarrow> string list \<Rightarrow> bool" where
  "chain_ok ds k vs = (\<forall>j < length vs. link_ok ds k vs j)"

definition version_table :: "key_table \<Rightarrow> (string \<times> string list) list" where
  "version_table t = List.map (\<lambda>(k, e). (k, ke_versions e)) t"

definition listed :: "key_table \<Rightarrow> (string \<times> string list) list" where
  "listed t = filter (\<lambda>p. snd p \<noteq> []) (version_table t)"

text \<open>The tables in memory and on disk list the same versions, every listed one once, and those that are not stored are
  among the \<open>lost\<close>.\<close>

definition store_ok :: "string set \<Rightarrow> store \<Rightarrow> bool" where
  "store_ok lost s = (distinct (dkeys (keys_mem s)) \<and> distinct (dkeys (keys_disk s)) \<and> distinct (all_doc_ids s)
     \<and> listed (keys_disk s) = listed (keys_mem s)
     \<and> (\<forall>k. chain_ok (docs s) k (versions_of s k))
     \<and> (\<forall>i \<in> set (all_doc_ids s). dget (docs s) i \<noteq> None \<or> i \<in> lost))"

lemma store_okD:
  assumes "store_ok lost s"
  shows "distinct (dkeys (keys_mem s))" "distinct (dkeys (keys_disk s))" "distinct (all_doc_ids s)"
    "listed (keys_disk s) = listed (keys_mem s)" "chain_ok (docs s) k (versions_of s k)"
    "i \<in> set (all_doc_ids s) \<Longrightarrow> dget (docs s) i \<noteq> None \<or> i \<in> lost"
  using assms by (simp_all add: store_ok_def)

lemma store_ok_mono: "store_ok lost s \<Longrightarrow> lost \<subseteq> lost' \<Longrightarrow> store_ok lost' s"
  by (auto simp: store_ok_def)

lemma all_ids_of: "i \<in> set (all_doc_ids s) \<longleftrightarrow> (\<exists>k e. (k, e) \<in> set (keys_mem s) \<and> i \<in> set (ke_versions e))"
  by (auto simp: all_doc_ids_def)

lemma distinct_lists_apart:
  "distinct (concat (List.map (\<lambda>(k, e). ke_versions e) t)) \<Longrightarrow> dget t k = Some e \<Longrightarrow> dget t k' = Some e' \<Longrightarrow> k \<noteq> k'
   \<Longrightarrow> i \<in> set (ke_versions e) \<Longrightarrow> i \<notin> set (ke_versions e')"
proof (induction t)
  case (Cons p t)
  obtain k0 e0 where p: "p = (k0, e0)" by (cases p)
  have mem: "i \<in> set (concat (List.map (\<lambda>(k, e). ke_versions e) t))" if "dget t kk = Some ee" "i \<in> set (ke_versions ee)" for kk ee
    using map_of_SomeD [OF that(1)] that(2) by auto
  have d: "distinct (concat (List.map (\<lambda>(k, e). ke_versions e) t))"
      "set (ke_versions e0) \<inter> set (concat (List.map (\<lambda>(k, e). ke_versions e) t)) = {}"
    using Cons.prems(1) by (simp_all add: p)
  consider "k = k0" | "k' = k0" | "k \<noteq> k0" "k' \<noteq> k0" by blast
  then show ?case
  proof cases
    case 1
    then have "e = e0" "dget t k' = Some e'" using Cons.prems(2-4) by (simp_all add: p)
    then show ?thesis using mem Cons.prems(5) d(2) by blast
  next
    case 2
    then have "e' = e0" "dget t k = Some e" using Cons.prems(2-4) by (simp_all add: p)
    then show ?thesis using mem Cons.prems(5) d(2) by blast
  next
    case 3
    then have "dget t k = Some e" "dget t k' = Some e'" using Cons.prems(2,3) by (simp_all add: p)
    then show ?thesis using Cons.IH [OF d(1)] Cons.prems(4,5) by blast
  qed
qed simp

lemma distinct_ids_apart:
  assumes "distinct (all_doc_ids s)" "dget (keys_mem s) k = Some e" "dget (keys_mem s) k' = Some e'" "k \<noteq> k'"
    "i \<in> set (ke_versions e)"
  shows "i \<notin> set (ke_versions e')"
  by (rule distinct_lists_apart [OF assms(1) [unfolded all_doc_ids_def] assms(2-5)])

lemma chain_frame:
  assumes "chain_ok ds k vs" "\<And>i. i \<in> set vs \<Longrightarrow> dget ds' i = dget ds i"
  shows "chain_ok ds' k vs"
  unfolding chain_ok_def
proof (intro allI impI)
  fix j assume "j < length vs"
  then have "link_ok ds k vs j" "dget ds' (vs ! j) = dget ds (vs ! j)" using assms by (simp_all add: chain_ok_def)
  then show "link_ok ds' k vs j" unfolding link_ok_def by metis
qed

lemma chain_snoc:
  assumes "chain_ok ds k vs" "i \<notin> set vs" "dget ds' i = Some d" "\<And>j. j \<in> set vs \<Longrightarrow> dget ds' j = dget ds j"
    "dget (df_meta d) ''key'' = Some (JStr k)" "jget (df_meta d) ''doc_id'' = JStr i"
    "jget (df_meta d) ''supersedes'' = opt_json (if vs = [] then None else Some (last vs))"
  shows "chain_ok ds' k (vs @ [i])"
  unfolding chain_ok_def
proof (intro allI impI)
  fix j assume "j < length (vs @ [i])"
  then consider "j < length vs" | "j = length vs" by fastforce
  then show "link_ok ds' k (vs @ [i]) j"
  proof cases
    case 1
    then have "link_ok ds' k vs j" using chain_frame [OF assms(1,4)] by (simp add: chain_ok_def)
    moreover have "(vs @ [i]) ! j = vs ! j" "j \<noteq> 0 \<Longrightarrow> (vs @ [i]) ! (j - 1) = vs ! (j - 1)" using 1 by (auto simp: nth_append)
    ultimately show ?thesis unfolding link_ok_def by (cases "j = 0") simp_all
  next
    case 2
    have e: "opt_json (if vs = [] then None else Some (last vs)) = opt_json (if j = 0 then None else Some ((vs @ [i]) ! (j - 1)))"
      using 2 by (cases "vs = []") (simp_all add: nth_append last_conv_nth)
    have "(vs @ [i]) ! j = i" using 2 by simp
    then show ?thesis using assms(3,5,6) assms(7) [unfolded e] unfolding link_ok_def by simp
  qed
qed

lemma chain_replace:
  assumes "chain_ok ds k vs" "distinct vs" "p < length vs" "dget ds' (vs ! p) = Some d"
    "\<And>j. j \<in> set vs \<Longrightarrow> j \<noteq> vs ! p \<Longrightarrow> dget ds' j = dget ds j"
    "dget (df_meta d) ''key'' = Some (JStr k)" "jget (df_meta d) ''doc_id'' = JStr (vs ! p)"
    "jget (df_meta d) ''supersedes'' = opt_json (if p = 0 then None else Some (vs ! (p - 1)))"
  shows "chain_ok ds' k vs"
  unfolding chain_ok_def
proof (intro allI impI)
  fix j assume j: "j < length vs"
  show "link_ok ds' k vs j"
  proof (cases "j = p")
    case True
    then show ?thesis using assms(4,6-8) unfolding link_ok_def by simp
  next
    case False
    then have "vs ! j \<noteq> vs ! p" using assms(2,3) j by (simp add: nth_eq_iff_index_eq)
    then have "dget ds' (vs ! j) = dget ds (vs ! j)" using assms(5) j by simp
    moreover have "link_ok ds k vs j" using assms(1) j by (simp add: chain_ok_def)
    ultimately show ?thesis unfolding link_ok_def by metis
  qed
qed

lemma dset_same: "dget d k = Some v \<Longrightarrow> dset k v d = d"
  by (induction d) (auto split: if_splits)

lemma version_table_dset: "version_table (dset k e t) = dset k (ke_versions e) (version_table t)"
  by (induction t) (auto simp: version_table_def)

lemma dget_version_table: "dget (version_table t) k = map_option ke_versions (dget t k)"
  by (induction t) (auto simp: version_table_def)

lemma dkeys_version_table: "List.map fst (version_table t) = dkeys t"
  by (induction t) (auto simp: version_table_def)

lemma ids_of_table: "all_doc_ids s = concat (List.map snd (version_table (keys_mem s)))"
  by (simp add: all_doc_ids_def version_table_def case_prod_unfold comp_def)

lemma concat_snoc:
  "(case dget t k of None \<Rightarrow> [] | Some v \<Rightarrow> v) = vs \<Longrightarrow> i \<notin> set (concat (List.map snd t)) \<Longrightarrow> distinct (concat (List.map snd t))
   \<Longrightarrow> distinct (concat (List.map snd (dset k (vs @ [i]) t)))
     \<and> set (concat (List.map snd (dset k (vs @ [i]) t))) = insert i (set (concat (List.map snd t)))"
proof (induction t)
  case (Cons p t)
  obtain k0 v0 where p: "p = (k0, v0)" by (cases p)
  show ?case
  proof (cases "k0 = k")
    case True
    then show ?thesis using Cons.prems by (auto simp: p)
  next
    case False
    then have "distinct (concat (List.map snd (dset k (vs @ [i]) t)))
        \<and> set (concat (List.map snd (dset k (vs @ [i]) t))) = insert i (set (concat (List.map snd t)))"
      using Cons by (simp add: p)
    then show ?thesis using False Cons.prems(2,3) unfolding p by simp
  qed
qed simp

lemma versions_table: "versions_of s k = (case dget (version_table (keys_mem s)) k of None \<Rightarrow> [] | Some v \<Rightarrow> v)"
  by (simp add: versions_of_def dget_version_table split: option.splits)

lemma version_in_ids: "dget (keys_mem s) k = Some e \<Longrightarrow> i \<in> set (ke_versions e) \<Longrightarrow> i \<in> set (all_doc_ids s)"
  unfolding all_ids_of using map_of_SomeD by fast

lemma version_entry: "i \<in> set (versions_of s k) \<Longrightarrow> \<exists>e. dget (keys_mem s) k = Some e \<and> i \<in> set (ke_versions e)"
  by (cases "dget (keys_mem s) k") (simp_all add: versions_of_def)

lemma versions_in_ids: "i \<in> set (versions_of s k) \<Longrightarrow> i \<in> set (all_doc_ids s)"
  using version_in_ids version_entry by blast

lemma versions_distinct: "distinct (all_doc_ids s) \<Longrightarrow> distinct (versions_of s k)"
  unfolding versions_of_def all_doc_ids_def
  by (auto split: option.splits dest!: map_of_SomeD split_list)

lemma versions_apart:
  "distinct (all_doc_ids s) \<Longrightarrow> k \<noteq> k' \<Longrightarrow> i \<in> set (versions_of s k) \<Longrightarrow> i \<notin> set (versions_of s k')"
  using distinct_ids_apart [of s k _ k'] version_entry [of i s k] version_entry [of i s k'] by metis

lemma ids_of_listed: "all_doc_ids s = concat (List.map snd (listed (keys_mem s)))"
proof -
  have "concat (List.map snd t) = concat (List.map snd (filter (\<lambda>p. snd p \<noteq> []) t))" for t :: "('a \<times> 'b list) list"
    by (induction t) auto
  then show ?thesis unfolding ids_of_table listed_def .
qed

lemma listed_same:
  assumes "ke_versions e = versions_of s k"
  shows "listed (dset k e (keys_mem s)) = listed (keys_mem s)"
proof -
  have "filter (\<lambda>p. snd p \<noteq> []) (dset k v t) = filter (\<lambda>p. snd p \<noteq> []) t"
    if "v = (case dget t k of None \<Rightarrow> [] | Some v \<Rightarrow> v)" for v :: "string list" and t
    using that by (induction t) (auto split: option.splits)
  then show ?thesis unfolding listed_def version_table_dset using assms versions_table by simp
qed

lemma versions_dset: "keys_mem s' = dset k e (keys_mem s) \<Longrightarrow> versions_of s' k' = (if k' = k then ke_versions e else versions_of s k')"
  by (simp add: versions_of_def)

text \<open>A step that keeps the versions of a key and touches only its documents.\<close>

lemma ok_same:
  assumes ok: "store_ok lost s" and e: "ke_versions e' = versions_of s k"
    and d: "\<And>j. j \<notin> set (versions_of s k) \<Longrightarrow> dget (docs s') j = dget (docs s) j" "chain_ok (docs s') k (versions_of s k)"
      "\<And>j. j \<in> set (versions_of s k) \<Longrightarrow> dget (docs s') j \<noteq> None \<or> j \<in> lost"
    and t: "keys_mem s' = dset k e' (keys_mem s)" "keys_disk s' = keys_disk s \<or> keys_disk s' = keys_mem s'"
  shows "store_ok lost s'"
proof -
  note o = store_okD [OF ok]
  have l: "listed (keys_mem s') = listed (keys_mem s)" unfolding t(1) by (rule listed_same [OF e])
  then have ids: "all_doc_ids s' = all_doc_ids s" by (simp add: ids_of_listed)
  have v: "versions_of s' k' = versions_of s k'" for k' using versions_dset [OF t(1)] e by simp
  have "chain_ok (docs s') k' (versions_of s' k')" for k'
  proof (cases "k' = k")
    case False
    then show ?thesis
      unfolding v using chain_frame [OF o(5) [of k'], of "docs s'"] d(1) versions_apart [OF o(3)] by metis
  qed (use d(2) v in simp)
  moreover have "dget (docs s') i \<noteq> None \<or> i \<in> lost" if "i \<in> set (all_doc_ids s')" for i
    using that d(1,3) [of i] o(6) [of i] unfolding ids by metis
  moreover have "distinct (dkeys (keys_mem s'))" "distinct (dkeys (keys_disk s'))"
    using t o(1,2) by (auto simp: distinct_dkeys_dset)
  ultimately show ?thesis using t(2) o(3,4) by (auto simp: store_ok_def ids l)
qed

text \<open>A step that adds a fresh version to a key.\<close>

lemma ok_new:
  assumes ok: "store_ok lost s" and i: "i \<notin> set (all_doc_ids s)" "ke_versions e' = versions_of s k @ [i]"
    and d: "\<And>j. j \<noteq> i \<Longrightarrow> dget (docs s') j = dget (docs s) j" "chain_ok (docs s') k (versions_of s k @ [i])"
      "dget (docs s') i \<noteq> None"
    and t: "keys_mem s' = dset k e' (keys_mem s)" "keys_disk s' = keys_mem s'"
  shows "store_ok lost s'"
proof -
  note o = store_okD [OF ok]
  have ids: "distinct (all_doc_ids s')" "set (all_doc_ids s') = insert i (set (all_doc_ids s))"
    unfolding ids_of_table [of s'] t(1) version_table_dset i(2)
    using concat_snoc [OF versions_table [symmetric]] i(1) o(3) by (simp_all add: ids_of_table)
  have "chain_ok (docs s') k' (versions_of s' k')" for k'
  proof (cases "k' = k")
    case True
    then show ?thesis using d(2) i(2) by (simp add: versions_dset [OF t(1)])
  next
    case False
    have "i \<notin> set (versions_of s k')" using i(1) versions_in_ids by blast
    then show ?thesis
      using chain_frame [OF o(5) [of k'], of "docs s'"] d(1) False by (metis versions_dset [OF t(1)])
  qed
  moreover have "dget (docs s') j \<noteq> None \<or> j \<in> lost" if "j \<in> set (all_doc_ids s')" for j
    using that d(1,3) o(6) [of j] unfolding ids(2) by (cases "j = i") auto
  moreover have "distinct (dkeys (keys_mem s'))" using t o(1) by (simp add: distinct_dkeys_dset)
  ultimately show ?thesis using t(2) ids(1) by (simp add: store_ok_def)
qed

text \<open>What the identifiers rely on. The version a step adds to a key is no version of another key: SHA-1 gave no
  collision. A transcript that is no longer an extension is versioned by the clock and the number of versions, which
  no version of its key was before.\<close>

definition no_collision :: "store \<Rightarrow> store \<Rightarrow> bool" where
  "no_collision s s' = (\<forall>k. \<forall>j \<in> set (versions_of s' k). j \<in> set (versions_of s k) \<or> j \<notin> set (all_doc_ids s))"

definition fresh_clock :: "lib_env \<Rightarrow> string \<Rightarrow> string \<Rightarrow> string \<Rightarrow> store \<Rightarrow> bool" where
  "fresh_clock env now kind key s = (kind \<in> set append_only_kinds \<longrightarrow>
     doc_id_for (le_sha env) key (now @ ''-'' @ nat_str (length (versions_of s key))) \<notin> set (versions_of s key))"

lemma version_meta_links:
  "dget (version_meta now i v prev ao m) ''key'' = dget m ''key''"
  "jget (version_meta now i v prev ao m) ''doc_id'' = JStr i"
  "jget (version_meta now i v prev ao m) ''supersedes'' = opt_json prev"
  by (simp_all add: version_meta_def jget_def dget_or_def)

lemma dsetdefault_other: "k \<noteq> k' \<Longrightarrow> dget (dsetdefault k v m) k' = dget m k'"
  by (simp add: dsetdefault_def split: option.splits)

lemma jget_dsetdefault_other: "k \<noteq> k' \<Longrightarrow> jget (dsetdefault k v m) k' = jget m k'"
  by (simp add: jget_def dget_or_def dsetdefault_other)

lemma fold_setdefault_keeps: "dget m k = Some x \<Longrightarrow> dget (foldl (\<lambda>m (k, v). dsetdefault k v m) m sc) k = Some x"
proof (induction sc arbitrary: m)
  case (Cons p sc)
  obtain a b where p: "p = (a, b)" by (cases p)
  have "dget (dsetdefault a b m) k = Some x"
    using Cons.prems by (cases "a = k") (auto simp: dsetdefault_def dget_or_def split: option.splits)
  then show ?case using Cons.IH by (simp add: p)
qed simp

lemma ingest_meta_key: "dget (ingest_meta key kind m scope) ''key'' = Some (JStr key)"
  by (simp add: ingest_meta_def fold_setdefault_keeps)

lemma index_of_Some: "index_of x xs = Some p \<Longrightarrow> x \<in> set xs \<and> p < length xs \<and> xs ! p = x"
  unfolding index_of_def by (induction xs arbitrary: p) (auto split: if_splits)

lemma put_document_get:
  "dget (put_document now spec i r t m us ds) j = (if j = i then dget (put_document now spec i r t m us ds) i else dget ds j)"
  "\<exists>d. dget (put_document now spec i r t m us ds) i = Some d \<and> df_meta d = m"
  by (simp_all add: put_document_def)

lemma new_version_ok:
  assumes ok: "store_ok lost s" and vs: "ke_versions e = versions_of s key"
    and n: "new_version env now spec key v0 text kind m e (s\<lparr>keys_mem := dset key e (keys_mem s)\<rparr>) = (Inr i, s')"
    and k: "dget m ''key'' = Some (JStr key)" and c: "no_collision s s'"
  shows "store_ok lost s'"
proof -
  define version where "version = (if v0 = [] then (if ke_versions e = [] then now else now @ ''-'' @ nat_str (length (ke_versions e))) else v0)"
  define m1 where "m1 = (if v0 = [] then dset ''version'' (JStr version) m else m)"
  define pos where "pos = index_of (doc_id_for (le_sha env) key version) (ke_versions e)"
  obtain rendered units where sp: "ks_split spec text m1 = Inr (rendered, units)"
    using n unfolding new_version_def Let_def version_def [symmetric] m1_def [symmetric] by (auto split: sum.splits)
  define ds where "ds = (if pos = None then docs s else dpop i (docs s))"
  define m2 where "m2 = dsetdefault ''language'' (JStr (le_language env rendered)) (dsetdefault ''title'' (JStr (title_of units key))
      (version_meta now i version (previous_version (ke_versions e) pos) (kind \<in> set append_only_kinds) m1))"
  define e' where "e' = (if pos = None then e\<lparr>ke_versions := ke_versions e @ [i]\<rparr> else e)"
  have i: "i = doc_id_for (le_sha env) key version"
    using n sp unfolding new_version_def Let_def version_def [symmetric] m1_def [symmetric] by simp
  have s': "docs s' = put_document now spec i rendered text m2 units ds" "keys_mem s' = dset key e' (keys_mem s)"
      "keys_disk s' = keys_mem s'"
    using n sp unfolding new_version_def Let_def version_def [symmetric] m1_def [symmetric]
    by (auto simp: save_keys_def dset_dset ds_def m2_def e'_def pos_def i [symmetric] split: if_splits)
  have m2: "dget m2 ''key'' = Some (JStr key)" "jget m2 ''doc_id'' = JStr i"
      "jget m2 ''supersedes'' = opt_json (previous_version (ke_versions e) pos)"
    using k by (simp_all add: m2_def dsetdefault_other jget_dsetdefault_other version_meta_links m1_def)
  obtain d where d: "dget (docs s') i = Some d" "df_meta d = m2" using put_document_get(2) unfolding s'(1) by metis
  have fr: "dget (docs s') j = dget (docs s) j" if "j \<noteq> i" for j
    using that by (simp add: s'(1) put_document_get(1) ds_def)
  show ?thesis
  proof (cases pos)
    case None
    then have ni: "i \<notin> set (versions_of s key)" by (simp add: pos_def index_of_def i vs split: if_splits)
    have "versions_of s' key = versions_of s key @ [i]" using None by (simp add: versions_of_def [of s'] s'(2) e'_def vs)
    then have "i \<in> set (versions_of s' key)" by simp
    then have fresh: "i \<notin> set (all_doc_ids s)" using c ni unfolding no_collision_def by blast
    have chain: "chain_ok (docs s) key (versions_of s key)" by (rule store_okD(5) [OF ok])
    have "chain_ok (docs s') key (versions_of s key @ [i])"
    proof (rule chain_snoc [OF chain ni d(1)])
      fix j assume "j \<in> set (versions_of s key)"
      then show "dget (docs s') j = dget (docs s) j" using fr ni by metis
    qed (use m2 d(2) None vs in \<open>simp_all add: previous_version_def\<close>)
    then show ?thesis
      using ok_new [OF ok fresh _ fr _ _ s'(2,3)] None vs d(1) by (simp add: e'_def)
  next
    case (Some p)
    have p: "i \<in> set (ke_versions e)" "p < length (ke_versions e)" "ke_versions e ! p = i"
      using index_of_Some [of i "ke_versions e" p] Some by (simp_all add: pos_def i)
    have dis: "distinct (ke_versions e)" using versions_distinct [OF store_okD(3) [OF ok], of key] vs by simp
    have chain: "chain_ok (docs s) key (ke_versions e)" using store_okD(5) [OF ok, of key] vs by simp
    have "chain_ok (docs s') key (ke_versions e)"
      using chain_replace [OF chain dis p(2), of "docs s'" d] d fr m2 Some by (simp add: p(3) previous_version_def)
    then show ?thesis
    proof (rule ok_same [OF ok, of e' key s', folded vs, rotated 2])
      show "ke_versions e' = ke_versions e" using Some by (simp add: e'_def)
      show "dget (docs s') j = dget (docs s) j" if "j \<notin> set (ke_versions e)" for j using that p(1) fr by metis
      show "dget (docs s') j \<noteq> None \<or> j \<in> lost" if "j \<in> set (ke_versions e)" for j
        using that fr [of j] d(1) store_okD(6) [OF ok versions_in_ids, of j key] vs by (cases "j = i") auto
    qed (use s'(2,3) in simp_all)
  qed
qed

lemma append_version_ok:
  assumes ok: "store_ok lost s" and e: "dget (keys_mem s) key = Some e" "ke_versions e \<noteq> []" "e1 = e\<lparr>ke_removed := False\<rparr>"
    and a: "append_version env now spec (last (ke_versions e)) text m (s\<lparr>keys_mem := dset key e1 (keys_mem s)\<rparr>) = (Inr i, s')"
    and k: "dget m ''key'' = Some (JStr key)" and c: "no_collision s s'"
    and f: "doc_id_for (le_sha env) key (now @ ''-'' @ nat_str (length (versions_of s key))) \<notin> set (versions_of s key)"
  shows "store_ok lost s'"
proof -
  let ?l = "last (ke_versions e)"
  have vs: "versions_of s key = ke_versions e" using e(1) by (simp add: versions_of_def)
  have chain: "chain_ok (docs s) key (ke_versions e)" using store_okD(5) [OF ok, of key] vs by simp
  let ?n = "length (ke_versions e) - 1"
  have l: "?n < length (ke_versions e)" "ke_versions e ! ?n = ?l" using e(2) by (simp_all add: last_conv_nth)
  have "link_ok (docs s) key (ke_versions e) ?n" using chain l(1) by (auto simp: chain_ok_def)
  moreover obtain d where "dget (docs s) ?l = Some d"
    using a by (auto simp: append_version_def Let_def split: sum.splits option.splits)
  ultimately have d: "dget (docs s) ?l = Some d" "dget (df_meta d) ''key'' = Some (JStr key)" "jget (df_meta d) ''doc_id'' = JStr ?l"
      "jget (df_meta d) ''supersedes'' = opt_json (if ?n = 0 then None else Some (ke_versions e ! (?n - 1)))"
    unfolding link_ok_def l(2) by simp_all
  obtain rendered units where sp: "ks_split spec text (dset ''key'' (jget (df_meta d) ''key'') (dmerge (df_meta d) m)) = Inr (rendered, units)"
    using a d(1) by (auto simp: append_version_def Let_def split: sum.splits)
  show ?thesis
  proof (cases "startswith rendered (rstrip_if (\<lambda>c. c = CHR 0x0A) (df_text d))")
    case True
    define new where "new = filter (\<lambda>u. u_id u \<notin> set (List.map u_id (df_units d))) units"
    obtain st where st: "pending_after now new (df_status d) = Inr st"
      using a d(1) sp True unfolding append_version_def Let_def by (auto simp: new_def split: sum.splits)
    define x where "x = d\<lparr>df_text := rendered, df_source := text, df_units := df_units d @ new, df_status := st,
        df_meta := dset ''appended_at'' (JStr now) (df_meta d)\<rparr>"
    have x: "docs s' = dset ?l x (docs s)" "df_meta x = dset ''appended_at'' (JStr now) (df_meta d)"
        "keys_mem s' = dset key e1 (keys_mem s)" "keys_disk s' = keys_disk s"
      using a d(1) sp True st unfolding append_version_def Let_def
      by (auto simp: x_def new_def [symmetric] new_def [unfolded set_map, symmetric])
    have dis: "distinct (ke_versions e)" using versions_distinct [OF store_okD(3) [OF ok], of key] vs by simp
    have "chain_ok (docs s') key (ke_versions e)"
      by (rule chain_replace [OF chain dis l(1), of "docs s'" x]) (use d l(2) x in simp_all)
    then show ?thesis
    proof (rule ok_same [OF ok, of e1 key s', folded vs, unfolded vs, rotated 2])
      show "ke_versions e1 = ke_versions e" by (simp add: e(3))
      show "dget (docs s') j = dget (docs s) j" if "j \<notin> set (ke_versions e)" for j
        using that last_in_set [OF e(2)] by (auto simp: x(1))
      show "dget (docs s') j \<noteq> None \<or> j \<in> lost" if "j \<in> set (ke_versions e)" for j
        using that store_okD(6) [OF ok versions_in_ids, of j key] vs by (auto simp: x(1))
    qed (use x(3,4) in simp_all)
  next
    case False
    have kd: "dget (df_meta d) ''key'' = Some (JStr key)" by (rule d(2))
    define version where "version = now @ ''-'' @ nat_str (length (ke_versions e))"
    have v: "version_instead env now spec version text (dset ''version'' (JStr version) m) key e1 (s\<lparr>keys_mem := dset key e1 (keys_mem s)\<rparr>) = (Inr i, s')"
      using a d(1) sp False kd unfolding append_version_def Let_def by (simp add: version_def e(3))
    define m1 where "m1 = dset ''version'' (JStr version) m"
    have key: "fstr (le_repr env) (jget m1 ''key'') = key" using k by (simp add: m1_def jget_def dget_or_def)
    obtain r2 u2 where sp2: "ks_split spec text m1 = Inr (r2, u2)"
      using v unfolding version_instead_def Let_def m1_def by (auto split: sum.splits)
    define m2 where "m2 = dsetdefault ''title'' (JStr (title_of u2 key)) (version_meta now i version (Some ?l) True m1)"
    have s': "docs s' = put_document now spec i r2 text m2 u2 (docs s)" "keys_disk s' = keys_mem s'"
        "keys_mem s' = dset key (e1\<lparr>ke_versions := ke_versions e @ [i]\<rparr>) (keys_mem s)"
      using v e(2) sp2 unfolding version_instead_def Let_def m1_def [symmetric] key
      by (auto simp: save_keys_def dset_dset m2_def e(3))
    have m2: "dget m2 ''key'' = Some (JStr key)" "jget m2 ''doc_id'' = JStr i" "jget m2 ''supersedes'' = opt_json (Some ?l)"
      using k by (simp_all add: m2_def dsetdefault_other jget_dsetdefault_other version_meta_links m1_def)
    have vs': "versions_of s' key = versions_of s key @ [i]" by (simp add: versions_of_def [of s'] s'(3) vs)
    have "i = doc_id_for (le_sha env) key version"
      using v e(2) sp2 unfolding version_instead_def Let_def m1_def [symmetric] key by (simp add: e(3))
    then have ni: "i \<notin> set (versions_of s key)" using f by (simp add: version_def vs)
    have "i \<in> set (versions_of s' key)" using vs' by simp
    then have fresh: "i \<notin> set (all_doc_ids s)" using c ni unfolding no_collision_def by blast
    obtain x where x: "dget (docs s') i = Some x" "df_meta x = m2" using put_document_get(2) unfolding s'(1) by metis
    have fr: "dget (docs s') j = dget (docs s) j" if "j \<noteq> i" for j using that by (simp add: s'(1) put_document_get(1))
    have "chain_ok (docs s') key (versions_of s key @ [i])"
    proof (rule chain_snoc [OF _ ni x(1)])
      fix j assume "j \<in> set (versions_of s key)"
      then show "dget (docs s') j = dget (docs s) j" using fr ni by metis
    qed (use chain m2 x(2) vs e(2) in simp_all)
    then show ?thesis using ok_new [OF ok fresh _ fr _ _ s'(3,2)] vs x(1) by simp
  qed
qed

lemma ingest_ok:
  assumes ok: "store_ok lost s" and g: "ingest env now text kind meta scope s = (Inr i, s')" and c: "no_collision s s'"
    and f: "fresh_clock env now kind (ingest_key env text meta) s"
  shows "store_ok lost s'"
proof -
  obtain spec where spec: "le_kinds env kind = Some spec" using g by (auto simp: ingest_def split: option.splits)
  define key where "key = ingest_key env text meta"
  define m where "m = ingest_meta key kind meta scope"
  define e where "e = (case dget (keys_mem s) key of
      None \<Rightarrow> \<lparr>ke_kind = kind, ke_versions = [], ke_removed = False\<rparr> | Some e \<Rightarrow> e\<lparr>ke_removed := False\<rparr>)"
  have vs: "ke_versions e = versions_of s key" by (simp add: e_def versions_of_def split: option.splits)
  have k: "dget m ''key'' = Some (JStr key)" by (simp add: m_def ingest_meta_key)
  note g' = g [unfolded ingest_def spec option.case Let_def, folded key_def, folded m_def, folded e_def]
  show ?thesis
  proof (cases "kind \<in> set append_only_kinds \<and> ke_versions e \<noteq> []")
    case True
    then obtain e0 where e0: "dget (keys_mem s) key = Some e0" "e = e0\<lparr>ke_removed := False\<rparr>"
      by (auto simp: e_def split: option.splits)
    have "doc_id_for (le_sha env) key (now @ ''-'' @ nat_str (length (versions_of s key))) \<notin> set (versions_of s key)"
      using f True by (simp add: fresh_clock_def key_def)
    note f' = this
    then show ?thesis using append_version_ok [OF ok e0(1) _ e0(2) _ k c f'] g' True e0(2) by simp
  next
    case False
    then show ?thesis using new_version_ok [OF ok vs _ k c] g' by (simp only: if_False)
  qed
qed

lemma append_refused:
  assumes "append_version env now spec i text m s = (Inl x, s')"
  shows "s' = s \<or> (\<exists>d d1. dget (docs s) i = Some d \<and> df_meta d1 = df_meta d \<and> s' = s\<lparr>docs := dset i d1 (docs s)\<rparr>)"
proof (cases "dget (docs s) i")
  case None
  then show ?thesis using assms by (auto simp: append_version_def Let_def split: sum.splits)
next
  case (Some d)
  have inst: "t = s" if "version_instead env now spec v text m' k e s = (Inl x, t)" for v m' k e t
    using that by (auto simp: version_instead_def Let_def split: sum.splits if_splits)
  show ?thesis
  proof (cases "ks_split spec text (dset ''key'' (jget (df_meta d) ''key'') (dmerge (df_meta d) m))")
    case (Inl y)
    then show ?thesis using assms Some by (simp add: append_version_def Let_def)
  next
    case (Inr r)
    obtain rendered units where r: "r = (rendered, units)" by (cases r)
    define new where "new = filter (\<lambda>u. u_id u \<notin> set (List.map u_id (df_units d))) units"
    define d1 where "d1 = d\<lparr>df_text := rendered, df_source := text, df_units := df_units d @ new\<rparr>"
    show ?thesis
    proof (cases "startswith rendered (rstrip_if (\<lambda>c. c = CHR 0x0A) (df_text d))")
      case True
      then have "s' = s\<lparr>docs := dset i d1 (docs s)\<rparr>"
        using assms Some Inr r by (auto simp: append_version_def Let_def d1_def new_def split: sum.splits)
      moreover have "df_meta d1 = df_meta d" by (simp add: d1_def)
      ultimately show ?thesis using Some by blast
    next
      case False
      have "s' = s"
      proof (cases "dget (df_meta d) ''key''")
        case None
        then show ?thesis using assms Some Inr r False by (simp add: append_version_def Let_def)
      next
        case (Some v)
        show ?thesis
        proof (cases v)
          case (JStr k)
          then show ?thesis
            using assms \<open>dget (docs s) i = Some d\<close> Some Inr r False inst by (auto simp: append_version_def Let_def split: option.splits)
        qed (use assms \<open>dget (docs s) i = Some d\<close> Some Inr r False in \<open>simp_all add: append_version_def Let_def\<close>)
      qed
      then show ?thesis ..
    qed
  qed
qed

text \<open>A refused ingestion leaves the versions of every key and touches documents of its own key only, whose metadata it
  keeps; a document may be gone.\<close>

lemma refused_docs:
  assumes "ingest env now text kind meta scope s = (Inl x, s')"
  shows "s' = s \<or> (\<exists>e'. keys_mem s' = dset (ingest_key env text meta) e' (keys_mem s) \<and> keys_disk s' = keys_disk s
    \<and> ke_versions e' = versions_of s (ingest_key env text meta)
    \<and> (\<forall>j. j \<notin> set (versions_of s (ingest_key env text meta)) \<longrightarrow> dget (docs s') j = dget (docs s) j)
    \<and> (\<forall>j d'. dget (docs s') j = Some d' \<longrightarrow> (\<exists>d. dget (docs s) j = Some d \<and> df_meta d' = df_meta d)))"
proof (cases "le_kinds env kind")
  case None
  then show ?thesis using assms by (simp add: ingest_def)
next
  case (Some spec)
  define key where "key = ingest_key env text meta"
  define m where "m = ingest_meta key kind meta scope"
  define e where "e = (case dget (keys_mem s) key of
      None \<Rightarrow> \<lparr>ke_kind = kind, ke_versions = [], ke_removed = False\<rparr> | Some e \<Rightarrow> e\<lparr>ke_removed := False\<rparr>)"
  have vs: "ke_versions e = versions_of s key" by (simp add: e_def versions_of_def split: option.splits)
  note g' = assms [unfolded ingest_def Some option.case Let_def, folded key_def, folded m_def, folded e_def]
  define s1 where "s1 = s\<lparr>keys_mem := dset key e (keys_mem s)\<rparr>"
  have s1: "docs s1 = docs s" "keys_mem s1 = dset key e (keys_mem s)" "keys_disk s1 = keys_disk s" by (simp_all add: s1_def)
  have "keys_mem s' = keys_mem s1 \<and> keys_disk s' = keys_disk s1
    \<and> (\<forall>j. j \<notin> set (ke_versions e) \<longrightarrow> dget (docs s') j = dget (docs s1) j)
    \<and> (\<forall>j d'. dget (docs s') j = Some d' \<longrightarrow> (\<exists>d. dget (docs s1) j = Some d \<and> df_meta d' = df_meta d))"
  proof (cases "kind \<in> set append_only_kinds \<and> ke_versions e \<noteq> []")
    case True
    then have a: "append_version env now spec (last (ke_versions e)) text m s1 = (Inl x, s')" using g' by (simp add: s1_def)
    show ?thesis using append_refused [OF a] True last_in_set [of "ke_versions e"] by (auto split: if_splits)
  next
    case False
    then have n: "new_version env now spec key (fstr (le_repr env) (py_or (py_or (jget m ''version'') (jget m ''date'')) (JStr []))) text kind m e s1 = (Inl x, s')"
      using g' by (simp only: if_False s1_def)
    have "s' = s1 \<or> (\<exists>i \<in> set (ke_versions e). s' = s1\<lparr>docs := dpop i (docs s1)\<rparr>)"
      using n unfolding new_version_def Let_def by (auto simp: index_of_def split: sum.splits if_splits)
    then show ?thesis by (auto split: if_splits)
  qed
  then show ?thesis using vs by (auto simp: s1 key_def)
qed

lemma refused_ok:
  assumes ok: "store_ok lost s" and g: "ingest env now text kind meta scope s = (Inl x, s')"
  shows "store_ok (lost \<union> {i. dget (docs s) i \<noteq> None \<and> dget (docs s') i = None}) s'"
  using refused_docs [OF g]
proof (elim disjE exE conjE)
  assume "s' = s"
  then show ?thesis using ok store_ok_mono by (auto simp: store_ok_def)
next
  fix e'
  let ?k = "ingest_key env text meta"
  let ?lost = "lost \<union> {i. dget (docs s) i \<noteq> None \<and> dget (docs s') i = None}"
  assume t: "keys_mem s' = dset ?k e' (keys_mem s)" "keys_disk s' = keys_disk s" "ke_versions e' = versions_of s ?k"
    and d: "\<forall>j. j \<notin> set (versions_of s ?k) \<longrightarrow> dget (docs s') j = dget (docs s) j"
    and m: "\<forall>j d'. dget (docs s') j = Some d' \<longrightarrow> (\<exists>d. dget (docs s) j = Some d \<and> df_meta d' = df_meta d)"
  show ?thesis
  proof (rule ok_same [OF store_ok_mono [OF ok] t(3)])
    show "chain_ok (docs s') ?k (versions_of s ?k)"
      unfolding chain_ok_def link_ok_def
    proof (intro allI impI)
      fix j d' assume j: "j < length (versions_of s ?k)" "dget (docs s') (versions_of s ?k ! j) = Some d'"
      then obtain d where "dget (docs s) (versions_of s ?k ! j) = Some d" "df_meta d' = df_meta d" using m by blast
      then show "dget (df_meta d') ''key'' = Some (JStr ?k) \<and> jget (df_meta d') ''doc_id'' = JStr (versions_of s ?k ! j)
        \<and> jget (df_meta d') ''supersedes'' = opt_json (if j = 0 then None else Some (versions_of s ?k ! (j - 1)))"
        using store_okD(5) [OF ok, of ?k] j(1) by (simp add: chain_ok_def link_ok_def)
    qed
    show "dget (docs s') j \<noteq> None \<or> j \<in> ?lost" if "j \<in> set (versions_of s ?k)" for j
      using store_okD(6) [OF ok versions_in_ids [OF that]] by (cases "dget (docs s') j = None") auto
  qed (use t(1,2) d in auto)
qed

lemma with_doc_ok:
  assumes ok: "store_ok lost s" and w: "with_doc i g s = Inr s'" and m: "\<And>d. df_meta (g d) = df_meta d"
  shows "store_ok lost s'"
proof -
  obtain d where d: "dget (docs s) i = Some d" "s' = s\<lparr>docs := dset i (g d) (docs s)\<rparr>"
    using w by (auto simp: with_doc_def split: option.splits)
  have "link_ok (docs s') k vs j" if "link_ok (docs s) k vs j" for k vs j
    using that d m [of d] unfolding link_ok_def by (cases "vs ! j = i") auto
  then show ?thesis using ok d by (auto simp: store_ok_def chain_ok_def all_doc_ids_def versions_of_def)
qed

lemma remove_ok:
  assumes "store_ok lost s"
  shows "store_ok lost (remove_key key s)"
proof (cases "dget (keys_mem s) key")
  case (Some e)
  then have v: "ke_versions (e\<lparr>ke_removed := True\<rparr>) = versions_of s key" by (simp add: versions_of_def)
  show ?thesis
    by (rule ok_same [OF assms v])
       (use Some store_okD(5,6) [OF assms] versions_in_ids in \<open>auto simp: remove_key_def save_keys_def\<close>)
qed (simp add: remove_key_def assms)

lemma dget_listed:
  assumes "distinct (dkeys t)"
  shows "dget (listed t) k = (case dget t k of None \<Rightarrow> None | Some e \<Rightarrow> if ke_versions e = [] then None else Some (ke_versions e))"
proof -
  have no: "k \<notin> set (dkeys t) \<Longrightarrow> dget (listed t) k = None" for t
    by (induction t) (auto simp: listed_def version_table_def)
  show ?thesis using assms no by (induction t) (auto simp: listed_def version_table_def split: option.splits)
qed

lemma reload_ok:
  assumes "store_ok lost s"
  shows "store_ok lost (reload s)"
proof -
  note o = store_okD [OF assms]
  have ids: "all_doc_ids (reload s) = all_doc_ids s" using o(4) by (simp add: ids_of_listed reload_def)
  have of_listed: "versions_of t k = (case dget (listed (keys_mem t)) k of None \<Rightarrow> [] | Some v \<Rightarrow> v)"
    if "distinct (dkeys (keys_mem t))" for t k
    using dget_listed [OF that, of k] by (auto simp: versions_of_def split: option.splits)
  have v: "versions_of (reload s) k = versions_of s k" for k
    using of_listed [of "reload s" k] of_listed [of s k] o(1,2,4) by (simp add: reload_def)
  show ?thesis using o by (simp add: store_ok_def ids v) (simp add: reload_def)
qed

text \<open>
  Uses of one library, by one process after another (\<open>reload\<close>), refused ingestions included: one that removed a
  document before its splitter raised leaves that version \<open>lost\<close>.
\<close>

inductive store_run :: "lib_env \<Rightarrow> string set \<Rightarrow> store \<Rightarrow> bool" for env where
  new: "store_run env {} empty_store"
| ingest: "store_run env lost s \<Longrightarrow> ingest env now text kind meta scope s = (Inr i, s') \<Longrightarrow> no_collision s s'
    \<Longrightarrow> fresh_clock env now kind (ingest_key env text meta) s \<Longrightarrow> store_run env lost s'"
| refused: "store_run env lost s \<Longrightarrow> ingest env now text kind meta scope s = (Inl x, s')
    \<Longrightarrow> store_run env (lost \<union> {i. dget (docs s) i \<noteq> None \<and> dget (docs s') i = None}) s'"
| facts: "store_run env lost s \<Longrightarrow> write_protocol now i protocol status report s = Inr s' \<Longrightarrow> store_run env lost s'"
| status: "store_run env lost s \<Longrightarrow> write_status now i status report s = Inr s' \<Longrightarrow> store_run env lost s'"
| gist: "store_run env lost s \<Longrightarrow> write_gist i summary s = Inr s' \<Longrightarrow> store_run env lost s'"
| remove: "store_run env lost s \<Longrightarrow> store_run env lost (remove_key key s)"
| other: "store_run env lost s \<Longrightarrow> store_run env lost (reload s)"

lemma store_run_ok: "store_run env lost s \<Longrightarrow> store_ok lost s"
proof (induction rule: store_run.induct)
  case new
  then show ?case by (simp add: store_ok_def empty_store_def all_doc_ids_def chain_ok_def versions_of_def)
next
  case (refused lost s now _ kind meta scope x s')
  then show ?case by (intro refused_ok)
qed (auto intro: ingest_ok refused_ok with_doc_ok remove_ok reload_ok simp: write_protocol_def write_status_def write_gist_def)

text \<open>C26: versions form a chain. In every library built by ingesting, re-ingesting, removing and writing back, by any
  number of processes and with refused ingestions in between, no document is listed twice, and every version listed
  for a key that is stored carries that key and its own id and names the version before it as the one it supersedes
  (the first names none). A listed version that is not stored was lost by a refused re-ingestion of it.\<close>

theorem versions_form_a_chain:
  assumes "store_run env lost s" "j < length (versions_of s key)"
  shows "(\<forall>d. dget (docs s) (versions_of s key ! j) = Some d \<longrightarrow> dget (df_meta d) ''key'' = Some (JStr key)
      \<and> jget (df_meta d) ''doc_id'' = JStr (versions_of s key ! j)
      \<and> jget (df_meta d) ''supersedes'' = opt_json (if j = 0 then None else Some (versions_of s key ! (j - 1))))
    \<and> (dget (docs s) (versions_of s key ! j) = None \<longrightarrow> versions_of s key ! j \<in> lost)
    \<and> distinct (all_doc_ids s)"
proof -
  note o = store_okD [OF store_run_ok [OF assms(1)]]
  have "versions_of s key ! j \<in> set (all_doc_ids s)" using versions_in_ids [OF nth_mem [OF assms(2)]] .
  then show ?thesis
    using o(5) [of key] assms(2) o(3) o(6) [of "versions_of s key ! j"] by (auto simp: chain_ok_def link_ok_def)
qed

text \<open>Two versions of a page, the first of them ingested again.\<close>

definition demo_page :: "string \<Rightarrow> store \<Rightarrow> store" where
  "demo_page v s = snd (ingest demo_env ''t'' ''text'' ''doc'' [(''key'', JStr ''p''), (''version'', JStr v)] [] s)"

definition demo_pages :: store where
  "demo_pages = demo_page ''1'' (demo_page ''2'' (demo_page ''1'' empty_store))"

lemma demo_page_tables:
  "keys_mem empty_store = []"
  "keys_mem (demo_page ''1'' empty_store) = [(''p'', \<lparr>ke_kind = ''doc'', ke_versions = [''p'' @ unit_sep @ ''1''], ke_removed = False\<rparr>)]"
  "keys_mem (demo_page ''2'' (demo_page ''1'' empty_store))
     = [(''p'', \<lparr>ke_kind = ''doc'', ke_versions = [''p'' @ unit_sep @ ''1'', ''p'' @ unit_sep @ ''2''], ke_removed = False\<rparr>)]"
  "keys_mem demo_pages
     = [(''p'', \<lparr>ke_kind = ''doc'', ke_versions = [''p'' @ unit_sep @ ''1'', ''p'' @ unit_sep @ ''2''], ke_removed = False\<rparr>)]"
  by (simp add: empty_store_def, code_simp, code_simp, code_simp)

lemma demo_page_step:
  assumes "store_run demo_env {} s" "fst (ingest demo_env ''t'' ''text'' ''doc'' [(''key'', JStr ''p''), (''version'', JStr v)] [] s) = Inr i"
    "no_collision s (demo_page v s)"
  shows "store_run demo_env {} (demo_page v s)"
  using ingest [OF assms(1), of "''t''" "''text''" "''doc''" "[(''key'', JStr ''p''), (''version'', JStr v)]" "[]" i "demo_page v s"]
    assms(2,3) by (simp add: demo_page_def prod_eq_iff fresh_clock_def append_only_kinds_def)

lemma demo_pages_run: "store_run demo_env {} demo_pages"
proof -
  have 1: "store_run demo_env {} (demo_page ''1'' empty_store)"
  proof (rule demo_page_step [OF new])
    show "fst (ingest demo_env ''t'' ''text'' ''doc'' [(''key'', JStr ''p''), (''version'', JStr ''1'')] [] empty_store) = Inr (''p'' @ unit_sep @ ''1'')"
      by code_simp
    show "no_collision empty_store (demo_page ''1'' empty_store)"
      by (simp add: no_collision_def versions_of_def demo_page_tables all_doc_ids_def)
  qed
  have 2: "store_run demo_env {} (demo_page ''2'' (demo_page ''1'' empty_store))"
  proof (rule demo_page_step [OF 1])
    show "fst (ingest demo_env ''t'' ''text'' ''doc'' [(''key'', JStr ''p''), (''version'', JStr ''2'')] [] (demo_page ''1'' empty_store))
        = Inr (''p'' @ unit_sep @ ''2'')" by code_simp
    show "no_collision (demo_page ''1'' empty_store) (demo_page ''2'' (demo_page ''1'' empty_store))"
      by (simp add: no_collision_def versions_of_def demo_page_tables all_doc_ids_def)
  qed
  show ?thesis
    unfolding demo_pages_def
  proof (rule demo_page_step [OF 2])
    show "fst (ingest demo_env ''t'' ''text'' ''doc'' [(''key'', JStr ''p''), (''version'', JStr ''1'')] []
        (demo_page ''2'' (demo_page ''1'' empty_store))) = Inr (''p'' @ unit_sep @ ''1'')" by code_simp
    show "no_collision (demo_page ''2'' (demo_page ''1'' empty_store)) (demo_page ''1'' (demo_page ''2'' (demo_page ''1'' empty_store)))"
      by (simp add: no_collision_def versions_of_def demo_page_tables demo_page_tables(4) [unfolded demo_pages_def])
  qed
qed

theorem versions_form_a_chain_witness:
  "\<exists>d. dget (docs demo_pages) (''p'' @ unit_sep @ ''2'') = Some d \<and> jget (df_meta d) ''supersedes'' = JStr (''p'' @ unit_sep @ ''1'')"
proof -
  have v: "versions_of demo_pages ''p'' = [''p'' @ unit_sep @ ''1'', ''p'' @ unit_sep @ ''2'']"
    by (simp add: versions_of_def demo_page_tables)
  show ?thesis
    using versions_form_a_chain [OF demo_pages_run, of 1 "''p''"] unfolding v by (auto simp: opt_json_def)
qed

end
