(* ===== verification/Families.thy ===== *)
theory Families
  imports Gist "HOL-Library.Monad_Syntax"
begin

text \<open>
  \<open>assoc/authority.py\<close>: documents are grouped into families, by key and by the overlap of their shingles, with a
  union-find over a dictionary of parents; families then give claims an authority. \<open>hsh\<close> is Python's \<open>hash\<close> of a
  string, \<open>ln\<close> the natural logarithm. The climbing loop may in principle not end: it is a partial function, \<open>None\<close>
  stands for not returning.
\<close>

section \<open>Shingles\<close>

record fam_doc =
  fd_id :: string
  fd_key :: string
  fd_text :: string
  fd_kind :: string

text \<open>\<open>\w\<close> within Latin-1.\<close>

definition is_word :: "char \<Rightarrow> bool" where
  "is_word c = (let n = (of_char c :: nat) in
     (48 \<le> n \<and> n \<le> 57) \<or> (65 \<le> n \<and> n \<le> 90) \<or> n = 95 \<or> (97 \<le> n \<and> n \<le> 122)
     \<or> n \<in> {170, 178, 179, 181, 185, 186, 188, 189, 190} \<or> (192 \<le> n \<and> n \<le> 255 \<and> n \<noteq> 215 \<and> n \<noteq> 247))"

fun word_runs :: "string \<Rightarrow> string \<Rightarrow> string list" where
  "word_runs cur [] = (if cur = [] then [] else [cur])"
| "word_runs cur (c # cs) =
     (if is_word c then word_runs (cur @ [c]) cs
      else if cur = [] then word_runs [] cs else cur # word_runs [] cs)"

definition shingle_n :: nat where
  "shingle_n = 5"

definition shingles :: "(string \<Rightarrow> int) \<Rightarrow> string \<Rightarrow> int set" where
  "shingles hsh text =
     (let w = List.map py_lower (word_runs [] text)
      in set (List.map (\<lambda>i. hsh (join '' '' (take shingle_n (drop i w)))) [0..<length w + 1 - shingle_n]))"

section \<open>Union-find\<close>

type_synonym parents = "(string, string) dict"

text \<open>The while loop of \<open>find\<close>, which halves the path it climbs.\<close>

partial_function (option) climb :: "parents \<Rightarrow> string \<Rightarrow> (parents \<times> string) py option" where
  "climb p x =
     (case dget p x of
        None \<Rightarrow> Some (Inl KeyError)
      | Some y \<Rightarrow>
          if y = x then Some (Inr (p, x))
          else (case dget p y of
              None \<Rightarrow> Some (Inl KeyError)
            | Some z \<Rightarrow> climb (dset x z p) z))"

declare climb.simps [code]

definition find_root :: "parents \<Rightarrow> string \<Rightarrow> (parents \<times> string) py option" where
  "find_root p x = climb (dsetdefault x x p) x"

text \<open>Running on after a call that returned a value; an exception or no return stops.\<close>

definition after_call :: "'a py option \<Rightarrow> ('a \<Rightarrow> 'b py option) \<Rightarrow> 'b py option" where
  "after_call m k = (case m of None \<Rightarrow> None | Some (Inl e) \<Rightarrow> Some (Inl e) | Some (Inr v) \<Rightarrow> k v)"

lemma after_call_simps [simp]:
  "after_call (Some (Inr v)) k = k v" "after_call (Some (Inl e)) k = Some (Inl e)" "after_call None k = None"
  by (simp_all add: after_call_def)

definition union_step :: "parents \<Rightarrow> string \<Rightarrow> string \<Rightarrow> parents py option" where
  "union_step p a b =
     after_call (find_root p a) (\<lambda>(p1, ra).
     after_call (find_root p1 b) (\<lambda>(p2, rb).
       Some (Inr (if ra \<noteq> rb then dset rb ra p2 else p2))))"

fun union_pairs :: "parents \<Rightarrow> (string \<times> string) list \<Rightarrow> parents py option" where
  "union_pairs p [] = Some (Inr p)"
| "union_pairs p ((a, b) # ps) = after_call (union_step p a b) (\<lambda>p'. union_pairs p' ps)"

section \<open>Families\<close>

definition by_key :: "fam_doc list \<Rightarrow> (string, string list) dict" where
  "by_key ds = foldl (\<lambda>t d. dset (fd_key d) (dget_or t (fd_key d) [] @ [fd_id d]) t) [] ds"

definition key_pairs :: "fam_doc list \<Rightarrow> (string \<times> string) list" where
  "key_pairs ds = concat (List.map (\<lambda>(k, ids). List.map (Pair (hd ids)) (tl ids)) (by_key ds))"

definition shingle_table :: "(string \<Rightarrow> int) \<Rightarrow> fam_doc list \<Rightarrow> (string, int set) dict" where
  "shingle_table hsh ds =
     foldl (\<lambda>t d. if fd_text d = [] then t else dset (fd_id d) (shingles hsh (fd_text d)) t) [] ds"

definition near_copies :: "rat \<Rightarrow> int set \<Rightarrow> int set \<Rightarrow> bool" where
  "near_copies jac a b =
     (a \<noteq> {} \<and> b \<noteq> {} \<and> card (a \<inter> b) \<noteq> 0 \<and> jac \<le> of_nat (card (a \<inter> b)) / of_nat (card (a \<union> b)))"

fun near_pairs :: "rat \<Rightarrow> (string, int set) dict \<Rightarrow> (string \<times> string) list" where
  "near_pairs jac [] = []"
| "near_pairs jac ((i, a) # t) =
     List.map (\<lambda>(j, b). (i, j)) (filter (\<lambda>(j, b). near_copies jac a b) t) @ near_pairs jac t"

definition family_pairs :: "(string \<Rightarrow> int) \<Rightarrow> rat \<Rightarrow> fam_doc list \<Rightarrow> (string \<times> string) list" where
  "family_pairs hsh jac ds = key_pairs ds @ near_pairs jac (shingle_table hsh ds)"

fun find_all :: "parents \<Rightarrow> string list \<Rightarrow> (string, string) dict \<Rightarrow> (string, string) dict py option" where
  "find_all p [] out = Some (Inr out)"
| "find_all p (x # xs) out = after_call (find_root p x) (\<lambda>(p', r). find_all p' xs (dset x r out))"

definition families :: "(string \<Rightarrow> int) \<Rightarrow> rat \<Rightarrow> fam_doc list \<Rightarrow> (string, string) dict py option" where
  "families hsh jac ds =
     after_call (union_pairs [] (family_pairs hsh jac ds)) (\<lambda>p. find_all p (List.map fd_id ds) [])"

section \<open>The forest of parents\<close>

text \<open>Every parent is a node, and going up brings one closer to the representative \<open>rep\<close>; \<open>f\<close> is the distance.\<close>

definition forest :: "(string \<Rightarrow> nat) \<Rightarrow> parents \<Rightarrow> (string \<Rightarrow> string) \<Rightarrow> bool" where
  "forest f p rep =
     ((\<forall>x y. dget p x = Some y \<longrightarrow> dget p y \<noteq> None \<and> rep y = rep x \<and> (y = x \<longleftrightarrow> rep x = x) \<and> (y \<noteq> x \<longrightarrow> f y < f x))
      \<and> (\<forall>x. dget p x = None \<longrightarrow> rep x = x))"

lemma forestD:
  assumes "forest f p rep" "dget p x = Some y"
  shows "dget p y \<noteq> None" "rep y = rep x" "y = x \<longleftrightarrow> rep x = x" "y \<noteq> x \<Longrightarrow> f y < f x"
  using assms unfolding forest_def by blast+

lemma forest_root: "forest f p rep \<Longrightarrow> dget p x = None \<Longrightarrow> rep x = x"
  unfolding forest_def by blast

lemma climb_step:
  assumes "forest f p rep" "dget p x = Some y" "y \<noteq> x" "dget p y = Some z"
  shows "forest f (dset x z p) rep" "f z < f x" "rep z = rep x" "dget (dset x z p) z \<noteq> None"
proof -
  note y = forestD [OF assms(1,2)] and z = forestD [OF assms(1,4)]
  have le: "f z \<le> f y" using z(4) by (cases "z = y") simp_all
  then show fz: "f z < f x" using y(4) assms(3) by simp
  show rz: "rep z = rep x" using z(2) y(2) by simp
  show "dget (dset x z p) z \<noteq> None" using z(1) by simp
  have zx: "z \<noteq> x" using fz by auto
  have rx: "rep x \<noteq> x" using y(3) assms(3) by simp
  show "forest f (dset x z p) rep"
    unfolding forest_def
  proof (intro conjI allI impI)
    fix u v assume uv: "dget (dset x z p) u = Some v"
    show "dget (dset x z p) v \<noteq> None" "rep v = rep u" "v = u \<longleftrightarrow> rep u = u"
      using uv z(1) rz zx rx forestD [OF assms(1), of u v] by (cases "u = x"; simp)+
    show "v \<noteq> u \<Longrightarrow> f v < f u"
      using uv fz forestD(4) [OF assms(1), of u v] by (cases "u = x") simp_all
  next
    fix u assume "dget (dset x z p) u = None"
    then show "rep u = u" using forest_root [OF assms(1)] by (simp split: if_splits)
  qed
qed

lemma climb_correct:
  assumes "forest f p rep" "dget p x \<noteq> None"
  shows "\<exists>p'. climb p x = Some (Inr (p', rep x)) \<and> forest f p' rep \<and> (\<forall>k. dget p' k = None \<longleftrightarrow> dget p k = None)"
  using assms
proof (induction "f x" arbitrary: p x rule: less_induct)
  case less
  then obtain y where y: "dget p x = Some y" by auto
  show ?case
  proof (cases "y = x")
    case True
    then have "rep x = x" using forestD(3) [OF less.prems(1) y] by simp
    then show ?thesis using y True less.prems(1) by (simp add: climb.simps [of p x])
  next
    case False
    obtain z where z: "dget p y = Some z" using forestD(1) [OF less.prems(1) y] by blast
    note c = climb_step [OF less.prems(1) y False z]
    obtain p' where p': "climb (dset x z p) z = Some (Inr (p', rep z))" "forest f p' rep"
        "\<forall>k. dget p' k = None \<longleftrightarrow> dget (dset x z p) k = None"
      using less.hyps [OF c(2) c(1) c(4)] by blast
    have "climb p x = Some (Inr (p', rep x))" using p'(1) c(3) y z False by (simp add: climb.simps [of p x])
    then show ?thesis using p'(2,3) y by auto
  qed
qed

lemma find_correct:
  assumes "forest f p rep"
  shows "\<exists>p'. find_root p x = Some (Inr (p', rep x)) \<and> forest f p' rep
    \<and> (\<forall>k. dget p' k = None \<longleftrightarrow> k \<noteq> x \<and> dget p k = None)"
proof -
  let ?p = "dsetdefault x x p"
  have f: "forest f ?p rep"
    unfolding forest_def
  proof (intro conjI allI impI)
    fix u v assume uv: "dget ?p u = Some v"
    have "(u = x \<and> v = x \<and> dget p x = None) \<or> dget p u = Some v"
      using uv by (auto simp: dget_or_def split: if_splits option.splits)
    then show "dget ?p v \<noteq> None" "rep v = rep u" "v = u \<longleftrightarrow> rep u = u"
      using forestD [OF assms, of u v] forest_root [OF assms, of x] by auto
    show "v \<noteq> u \<Longrightarrow> f v < f u"
      using \<open>(u = x \<and> v = x \<and> dget p x = None) \<or> dget p u = Some v\<close> forestD(4) [OF assms, of u v] by auto
  next
    fix u assume "dget ?p u = None"
    then show "rep u = u" using forest_root [OF assms] by (simp split: if_splits)
  qed
  show ?thesis using climb_correct [OF f, of x] by (auto simp: find_root_def)
qed

lemma forest_idem:
  assumes "forest f p rep" "dget p x \<noteq> None"
  shows "rep (rep x) = rep x \<and> dget p (rep x) \<noteq> None"
  using assms(2)
proof (induction "f x" arbitrary: x rule: less_induct)
  case less
  then obtain y where y: "dget p x = Some y" by auto
  note d = forestD [OF assms(1) y]
  show ?case
  proof (cases "y = x")
    case True
    then show ?thesis using d(3) less.prems by simp
  next
    case False
    then show ?thesis using less.hyps [OF d(4) d(1)] d(2) by simp
  qed
qed

definition joined :: "(string \<Rightarrow> string) \<Rightarrow> string \<Rightarrow> string \<Rightarrow> string \<Rightarrow> string" where
  "joined rep a b = (\<lambda>x. if rep x = rep b then rep a else rep x)"

lemma forest_link:
  assumes "forest f p rep" "rep ra = ra" "rep rb = rb" "ra \<noteq> rb" "dget p ra \<noteq> None" "dget p rb \<noteq> None"
  shows "forest (\<lambda>x. if rep x = rb then f x + f ra + 1 else f x) (dset rb ra p) (\<lambda>x. if rep x = rb then ra else rep x)"
  unfolding forest_def
proof (intro conjI allI impI)
  fix u v assume uv: "dget (dset rb ra p) u = Some v"
  show "dget (dset rb ra p) v \<noteq> None"
    using uv assms(5) forestD(1) [OF assms(1), of u v] by (cases "u = rb") simp_all
  show "(if rep v = rb then ra else rep v) = (if rep u = rb then ra else rep u)"
    using uv assms(2-4) forestD(2) [OF assms(1), of u v] by (cases "u = rb") simp_all
  show "v = u \<longleftrightarrow> (if rep u = rb then ra else rep u) = u"
    using uv assms(2-4) forestD(2,3) [OF assms(1), of u v] by (cases "u = rb") auto
  show "v \<noteq> u \<Longrightarrow> (if rep v = rb then f v + f ra + 1 else f v) < (if rep u = rb then f u + f ra + 1 else f u)"
    using uv assms(2-4) forestD(2,4) [OF assms(1), of u v] by (cases "u = rb") simp_all
next
  fix u assume "dget (dset rb ra p) u = None"
  then show "(if rep u = rb then ra else rep u) = u"
    using forest_root [OF assms(1), of u] by (simp split: if_splits)
qed

lemma union_correct:
  assumes "forest f p rep"
  shows "\<exists>f' p'. union_step p a b = Some (Inr p') \<and> forest f' p' (joined rep a b)"
proof -
  obtain p1 where p1: "find_root p a = Some (Inr (p1, rep a))" "forest f p1 rep" "\<forall>k. dget p1 k = None \<longleftrightarrow> k \<noteq> a \<and> dget p k = None"
    using find_correct [OF assms] by blast
  obtain p2 where p2: "find_root p1 b = Some (Inr (p2, rep b))" "forest f p2 rep" "\<forall>k. dget p2 k = None \<longleftrightarrow> k \<noteq> b \<and> dget p1 k = None"
    using find_correct [OF p1(2)] by blast
  show ?thesis
  proof (cases "rep a = rep b")
    case True
    then have "joined rep a b = rep" by (auto simp: joined_def)
    then show ?thesis using p1(1) p2(1,2) True by (auto simp: union_step_def)
  next
    case False
    note idem = forest_idem [OF p2(2)]
    have ab: "dget p2 a \<noteq> None" "dget p2 b \<noteq> None" using p1(3) p2(3) by auto
    have "forest (\<lambda>x. if rep x = rep b then f x + f (rep a) + 1 else f x) (dset (rep b) (rep a) p2) (joined rep a b)"
      unfolding joined_def using forest_link [OF p2(2), of "rep a" "rep b"] idem [OF ab(1)] idem [OF ab(2)] False by simp
    then show ?thesis using p1(1) p2(1) False by (auto simp: union_step_def)
  qed
qed

section \<open>The families are the closure of the pairs\<close>

text \<open>Two names are linked when a path of pairs, taken either way, leads from one to the other.\<close>

definition linked :: "(string \<times> string) list \<Rightarrow> string \<Rightarrow> string \<Rightarrow> bool" where
  "linked ps = equivclp (\<lambda>a b. (a, b) \<in> set ps)"

lemma linked_refl [simp]: "linked ps x x"
  by (simp add: linked_def equivclp_refl)

lemma linked_sym: "linked ps x y \<Longrightarrow> linked ps y x"
  by (simp add: linked_def equivclp_sym)

lemma linked_trans: "linked ps x y \<Longrightarrow> linked ps y z \<Longrightarrow> linked ps x z"
  unfolding linked_def by (rule equivclp_trans)

lemma linked_pair: "(a, b) \<in> set ps \<Longrightarrow> linked ps a b"
  unfolding linked_def by (rule r_into_equivclp)

lemma linked_mono:
  assumes "set ps \<subseteq> set qs" "linked ps x y"
  shows "linked qs x y"
  using assms(2) unfolding linked_def
  by (induction rule: equivclp_induct) (use assms(1) in \<open>auto intro: equivclp_into_equivclp\<close>)

text \<open>A kernel that joins every pair joins what is linked.\<close>

lemma linked_kernel:
  assumes "\<And>a b. (a, b) \<in> set ps \<Longrightarrow> g a = g b" "linked ps x y"
  shows "g x = g y"
  using assms(2) unfolding linked_def by (induction rule: equivclp_induct) (auto dest: assms(1))

lemma joined_connected:
  assumes "\<And>x y. rep x = rep y \<longleftrightarrow> linked ps x y"
  shows "joined rep a b x = joined rep a b y \<longleftrightarrow> linked (ps @ [(a, b)]) x y"
proof
  let ?q = "ps @ [(a, b)]"
  have up: "rep u = rep v \<Longrightarrow> linked ?q u v" for u v
    using assms linked_mono [of ps ?q] by auto
  have ab: "linked ?q a b" by (rule linked_pair) simp
  assume "joined rep a b x = joined rep a b y"
  then consider "rep x = rep y" | "rep x = rep b" "rep y = rep a" | "rep x = rep a" "rep y = rep b"
    by (auto simp: joined_def split: if_splits)
  then show "linked ?q x y"
  proof cases
    case 2
    then show ?thesis
      using linked_trans [OF up [of x b] linked_trans [OF linked_sym [OF ab] up [of a y]]] by simp
  next
    case 3
    then show ?thesis using linked_trans [OF up [of x a] linked_trans [OF ab up [of b y]]] by simp
  qed (rule up)
next
  assume c: "linked (ps @ [(a, b)]) x y"
  have "joined rep a b u = joined rep a b v" if "(u, v) \<in> set (ps @ [(a, b)])" for u v
  proof (cases "(u, v) \<in> set ps")
    case True
    then have "rep u = rep v" using assms [of u v] linked_pair by simp
    then show ?thesis by (simp add: joined_def)
  next
    case False
    then have "u = a" "v = b" using that by simp_all
    then show ?thesis by (simp add: joined_def)
  qed
  then show "joined rep a b x = joined rep a b y" by (rule linked_kernel [OF _ c])
qed

lemma union_pairs_correct:
  assumes "forest f p rep" "\<And>x y. rep x = rep y \<longleftrightarrow> linked ps x y"
  shows "\<exists>f' p' rep'. union_pairs p qs = Some (Inr p') \<and> forest f' p' rep' \<and> (\<forall>x y. rep' x = rep' y \<longleftrightarrow> linked (ps @ qs) x y)"
  using assms
proof (induction qs arbitrary: f p rep ps)
  case (Cons q qs)
  obtain a b where q: "q = (a, b)" by (cases q)
  obtain f1 p1 where u: "union_step p a b = Some (Inr p1)" "forest f1 p1 (joined rep a b)"
    using union_correct [OF Cons.prems(1)] by blast
  obtain f' p' rep' where r: "union_pairs p1 qs = Some (Inr p')" "forest f' p' rep'"
      "\<forall>x y. rep' x = rep' y \<longleftrightarrow> linked ((ps @ [(a, b)]) @ qs) x y"
    using Cons.IH [OF u(2), of "ps @ [(a, b)]"] joined_connected [OF Cons.prems(2)] by blast
  show ?case using u(1) r by (auto simp: q)
qed auto

lemma find_all_correct:
  assumes "forest f p rep"
  shows "\<exists>out'. find_all p xs out = Some (Inr out')
    \<and> (\<forall>x. dget out' x = (if x \<in> set xs then Some (rep x) else dget out x))"
  using assms
proof (induction xs arbitrary: p out)
  case (Cons x xs)
  obtain p' where p': "find_root p x = Some (Inr (p', rep x))" "forest f p' rep"
    using find_correct [OF Cons.prems] by blast
  show ?case using Cons.IH [OF p'(2), of "dset x (rep x) out"] p'(1) by auto
qed simp

lemma families_correct:
  "\<exists>out rep. families hsh jac ds = Some (Inr out)
    \<and> (\<forall>x. dget out x = (if x \<in> fd_id ` set ds then Some (rep x) else None))
    \<and> (\<forall>x y. rep x = rep y \<longleftrightarrow> linked (family_pairs hsh jac ds) x y)"
proof -
  have f0: "forest (\<lambda>_. 0) [] (\<lambda>x. x)" by (simp add: forest_def)
  have e0: "x = y \<longleftrightarrow> linked [] x y" for x y using linked_kernel [of "[]" "\<lambda>x. x" x y] by auto
  obtain f p rep where u: "union_pairs [] (family_pairs hsh jac ds) = Some (Inr p)" "forest f p rep"
      "\<forall>x y. rep x = rep y \<longleftrightarrow> linked (family_pairs hsh jac ds) x y"
    using union_pairs_correct [OF f0 e0, of "family_pairs hsh jac ds"] unfolding append_Nil by blast
  obtain out where "find_all p (List.map fd_id ds) [] = Some (Inr out)"
      "\<forall>x. dget out x = (if x \<in> fd_id ` set ds then Some (rep x) else None)"
    using find_all_correct [OF u(2), of "List.map fd_id ds" "[]"] by auto
  then show ?thesis using u by (auto simp: families_def)
qed

section \<open>What makes two documents one family\<close>

text \<open>Two documents are related when they carry one key or their texts are near copies.\<close>

definition related :: "(string \<Rightarrow> int) \<Rightarrow> rat \<Rightarrow> fam_doc list \<Rightarrow> string \<Rightarrow> string \<Rightarrow> bool" where
  "related hsh jac ds x y =
     ((\<exists>d1 \<in> set ds. \<exists>d2 \<in> set ds. fd_id d1 = x \<and> fd_id d2 = y \<and> fd_key d1 = fd_key d2)
      \<or> (\<exists>a b. x \<noteq> y \<and> dget (shingle_table hsh ds) x = Some a \<and> dget (shingle_table hsh ds) y = Some b \<and> near_copies jac a b))"

lemma by_key_get:
  "dget (by_key ds) k = (let ids = List.map fd_id (filter (\<lambda>d. fd_key d = k) ds) in if ids = [] then None else Some ids)"
proof (induction ds rule: rev_induct)
  case (snoc d ds)
  then show ?case by (auto simp: by_key_def dget_or_def Let_def)
qed (simp add: by_key_def)

lemma by_key_distinct: "distinct (dkeys (by_key ds))"
  by (induction ds rule: rev_induct) (simp_all add: by_key_def distinct_update)

lemma key_pair_iff:
  "(x, y) \<in> set (key_pairs ds) \<longleftrightarrow>
    (\<exists>k ids. dget (by_key ds) k = Some ids \<and> x = hd ids \<and> y \<in> set (tl ids))"
  using in_set_dget [OF by_key_distinct, of _ _ ds] by (auto simp: key_pairs_def)

lemma same_key_linked:
  assumes "set (key_pairs ds) \<subseteq> set ps" "d1 \<in> set ds" "d2 \<in> set ds" "fd_key d1 = fd_key d2"
  shows "linked ps (fd_id d1) (fd_id d2)"
proof -
  let ?ids = "List.map fd_id (filter (\<lambda>d. fd_key d = fd_key d1) ds)"
  have ids: "fd_id d1 \<in> set ?ids" "fd_id d2 \<in> set ?ids" using assms(2-4) by auto
  then have "?ids \<noteq> []" by (metis empty_iff empty_set)
  then have k: "dget (by_key ds) (fd_key d1) = Some ?ids" by (simp only: by_key_get Let_def if_False)
  have "linked ps (hd ?ids) z" if "z \<in> set ?ids" for z
  proof (cases "z = hd ?ids")
    case False
    then have "z \<in> set (tl ?ids)" using that by (cases ?ids) auto
    then have "(hd ?ids, z) \<in> set (key_pairs ds)" unfolding key_pair_iff using k by blast
    then show ?thesis using assms(1) by (intro linked_pair) blast
  qed simp
  then show ?thesis using ids linked_sym linked_trans by meson
qed

lemma near_pair_iff:
  assumes "distinct (dkeys t)"
  shows "(x, y) \<in> set (near_pairs jac t) \<or> (y, x) \<in> set (near_pairs jac t)
    \<longleftrightarrow> (\<exists>a b. x \<noteq> y \<and> dget t x = Some a \<and> dget t y = Some b \<and> near_copies jac a b)"
  using assms
proof (induction jac t rule: near_pairs.induct)
  case (2 jac i a t)
  have sym: "near_copies jac u v = near_copies jac v u" for u v by (auto simp: near_copies_def Int_commute Un_commute)
  have m: "(j, b) \<in> set t \<longleftrightarrow> dget t j = Some b" for j b using 2(2) by (intro in_set_dget) simp
  have i: "dget t i = None" using 2(2) by (simp add: map_of_eq_None_iff)
  have IH: "(u, v) \<in> set (near_pairs jac t) \<or> (v, u) \<in> set (near_pairs jac t)
      \<longleftrightarrow> (\<exists>a b. u \<noteq> v \<and> dget t u = Some a \<and> dget t v = Some b \<and> near_copies jac a b)" if "u = x" "v = y" for u v
    using 2(1) 2(2) that by simp
  have new: "(u, v) \<in> set (near_pairs jac ((i, a) # t))
      \<longleftrightarrow> (u = i \<and> (\<exists>b. dget t v = Some b \<and> near_copies jac a b)) \<or> (u, v) \<in> set (near_pairs jac t)" for u v
    by (auto simp flip: m)
  have g: "dget ((i, a) # t) u = (if u = i then Some a else dget t u)" for u by simp
  show ?case
    unfolding new using IH [OF refl refl] i sym unfolding g
    by (cases "x = i"; cases "y = i"; simp del: near_pairs.simps; metis)
qed simp

lemma shingle_table_distinct: "distinct (dkeys (shingle_table hsh ds))"
  by (induction ds rule: rev_induct) (simp_all add: shingle_table_def distinct_update)

lemma linked_related: "linked (family_pairs hsh jac ds) x y \<longleftrightarrow> equivclp (related hsh jac ds) x y"
proof
  assume "linked (family_pairs hsh jac ds) x y"
  then show "equivclp (related hsh jac ds) x y"
    unfolding linked_def
  proof (induction rule: equivclp_induct)
    case (step u v)
    have "related hsh jac ds u v \<or> related hsh jac ds v u"
    proof -
      consider "(u, v) \<in> set (key_pairs ds) \<or> (v, u) \<in> set (key_pairs ds)"
        | "(u, v) \<in> set (near_pairs jac (shingle_table hsh ds)) \<or> (v, u) \<in> set (near_pairs jac (shingle_table hsh ds))"
        using step(2) by (auto simp: family_pairs_def)
      then show ?thesis
      proof cases
        case 1
        then obtain k ids p q where k: "dget (by_key ds) k = Some ids" "p = hd ids" "q \<in> set (tl ids)" "(u, v) = (p, q) \<or> (v, u) = (p, q)"
          unfolding key_pair_iff by blast
        then have "p \<in> set ids" "q \<in> set ids" by (cases ids; simp)+
        then show ?thesis using k(1,4) by (auto simp: by_key_get Let_def related_def split: if_splits) blast+
      next
        case 2
        then show ?thesis using near_pair_iff [OF shingle_table_distinct, of u v jac hsh ds] near_pair_iff [OF shingle_table_distinct, of v u jac hsh ds]
          by (auto simp: related_def)
      qed
    qed
    then show ?case using step(3) by (blast intro: equivclp_into_equivclp)
  qed simp
next
  assume "equivclp (related hsh jac ds) x y"
  then show "linked (family_pairs hsh jac ds) x y"
  proof (induction rule: equivclp_induct)
    case (step u v)
    have "linked (family_pairs hsh jac ds) u v" if "related hsh jac ds u v" for u v
      using that unfolding related_def
    proof
      assume "\<exists>d1 \<in> set ds. \<exists>d2 \<in> set ds. fd_id d1 = u \<and> fd_id d2 = v \<and> fd_key d1 = fd_key d2"
      then show ?thesis using same_key_linked [of ds "family_pairs hsh jac ds"] by (auto simp: family_pairs_def)
    next
      assume "\<exists>a b. u \<noteq> v \<and> dget (shingle_table hsh ds) u = Some a \<and> dget (shingle_table hsh ds) v = Some b \<and> near_copies jac a b"
      then have "(u, v) \<in> set (family_pairs hsh jac ds) \<or> (v, u) \<in> set (family_pairs hsh jac ds)"
        using near_pair_iff [OF shingle_table_distinct, of u v jac hsh ds] by (auto simp: family_pairs_def)
      then show ?thesis using linked_pair linked_sym by blast
    qed
    then show ?case using step linked_sym linked_trans by blast
  qed simp
qed

text \<open>C33: families are the equivalence classes of relatedness. The grouping always returns, raises nothing, and
  gives every document a family; two documents are in one family exactly when a chain of shared keys and
  near copies leads from one to the other, in whatever order the pairs were joined and the paths halved.\<close>

theorem families_are_classes:
  "\<exists>out. families hsh jac ds = Some (Inr out) \<and> (\<forall>x y. dget out x = dget out y \<and> dget out x \<noteq> None
    \<longleftrightarrow> x \<in> fd_id ` set ds \<and> y \<in> fd_id ` set ds \<and> equivclp (related hsh jac ds) x y)"
proof -
  obtain out rep where o: "families hsh jac ds = Some (Inr out)"
      "\<forall>x. dget out x = (if x \<in> fd_id ` set ds then Some (rep x) else None)"
      "\<forall>x y. rep x = rep y \<longleftrightarrow> linked (family_pairs hsh jac ds) x y"
    using families_correct by blast
  then show ?thesis unfolding linked_related by (intro exI [of _ out]) auto
qed

end
