(* ===== verification/Fold.thy ===== *)
theory Fold
  imports Doc_Store Families "HOL-Library.Product_Lexorder"
begin

text \<open>
  \<open>assoc/fold.py\<close>: the occurrences of the current documents' protocols are folded into claims, one per facet,
  subject and normalised wording, and the facts a new version no longer states become removals. A fact is a record of
  the fields a protocol gives it, absent strings being empty; \<open>rp\<close> is \<open>repr\<close>, \<open>sha\<close> the hexadecimal SHA-1 and
  \<open>kinds\<close> the facet map of each registered kind.
\<close>

section \<open>Facts, occurrences, claims\<close>

record fact =
  fa_grounded :: "bool option"
  fa_class :: string
  fa_need :: bool
  fa_subject :: string
  fa_subject_raw :: "string option"
  fa_text :: string
  fa_chunk :: "string option"
  fa_span :: "(nat \<times> nat) option"
  fa_version :: string
  fa_when :: string
  fa_entities :: "string list"
  fa_rel :: "string list option"

record fold_doc =
  fo_id :: string
  fo_key :: string
  fo_kind :: string
  fo_meta :: jobj
  fo_facts :: "fact list option"

record occurrence =
  oc_doc :: string
  oc_key :: string
  oc_kind :: string
  oc_chunk :: "string option"
  oc_span :: "(nat \<times> nat) option"
  oc_index :: "nat option"
  oc_text :: string
  oc_subject_raw :: "string option"
  oc_asserted :: string
  oc_version :: string
  oc_speaker :: json
  oc_title :: json
  oc_when :: string

record claim =
  cl_id :: string
  cl_text :: string
  cl_facet :: string
  cl_class :: string
  cl_subject :: string
  cl_subject_raw :: string
  cl_entities :: "string list"
  cl_kind :: string
  cl_occs :: "occurrence list"
  cl_sources :: "string list"
  cl_n_sources :: nat
  cl_rel :: "string list option"
  cl_when :: string
  cl_version :: string
  cl_scope :: jobj
  cl_variants :: "string list"
  cl_contests :: "string list"
  cl_superseded_by :: "string option"
  cl_superseded_from :: "string option"
  cl_visible_in :: "string list"
  cl_merged_from :: "string list"

text \<open>\<open>re.sub\<close> of runs of white space, non-word characters and underscores by one blank.\<close>

definition is_punct :: "char \<Rightarrow> bool" where
  "is_punct c = (is_space c \<or> \<not> is_word c \<or> c = CHR ''_'')"

fun sub_punct :: "bool \<Rightarrow> string \<Rightarrow> string" where
  "sub_punct in_run [] = []"
| "sub_punct in_run (c # cs) =
     (if is_punct c then (if in_run then sub_punct True cs else CHR '' '' # sub_punct True cs)
      else c # sub_punct False cs)"

definition claim_base :: "string \<Rightarrow> string" where
  "claim_base text = py_strip (sub_punct False (norm_text text))"

definition claim_key :: "(string \<Rightarrow> string) \<Rightarrow> string \<Rightarrow> string \<Rightarrow> string \<Rightarrow> string" where
  "claim_key sha text facet subject = take 16 (sha (facet @ unit_sep @ subject @ unit_sep @ claim_base text))"

definition scope_facets :: "jobj \<Rightarrow> jobj" where
  "scope_facets meta =
     List.map_filter (\<lambda>k. if jget meta k = JNull then None else Some (k, jget meta k))
       [''product'', ''version'', ''platform'', ''edition'', ''branch'', ''tenant'', ''conversation'']"

definition class_facet :: "(string, string) dict \<Rightarrow> fact \<Rightarrow> string" where
  "class_facet fm f = dget_or fm (if fa_class f = [] then ''unspecified'' else fa_class f) ''unclassified''"

definition fold_facet :: "(string, string) dict \<Rightarrow> fact \<Rightarrow> string" where
  "fold_facet fm f = (if fa_need f then ''need'' else class_facet fm f)"

definition fact_key :: "(string \<Rightarrow> string) \<Rightarrow> (string, string) dict \<Rightarrow> fact \<Rightarrow> string" where
  "fact_key sha fm f = claim_key sha (fa_text f) (fold_facet fm f) (fa_subject f)"

definition occurrence_of :: "(json \<Rightarrow> string) \<Rightarrow> fold_doc \<Rightarrow> nat \<Rightarrow> fact \<Rightarrow> occurrence" where
  "occurrence_of rp d i f =
     (let m = fo_meta d in
      \<lparr>oc_doc = fo_id d, oc_key = fo_key d, oc_kind = fo_kind d, oc_chunk = fa_chunk f, oc_span = fa_span f,
       oc_index = Some i, oc_text = fa_text f, oc_subject_raw = fa_subject_raw f,
       oc_asserted = fstr rp (py_or (py_or (py_or (jget m ''date'') (jget m ''version'')) (jget m ''ingested_at'')) (JStr [])),
       oc_version = fstr rp (py_or (py_or (JStr (fa_version f)) (jget m ''version'')) (JStr [])),
       oc_speaker = (if fo_kind d = ''chat'' then py_or (jget m ''user'') (JStr []) else JStr []),
       oc_title = py_or (jget m ''title'') (JStr (fo_key d)), oc_when = fa_when f\<rparr>)"

definition opt_or :: "string option \<Rightarrow> string" where
  "opt_or v = (case v of None \<Rightarrow> [] | Some s \<Rightarrow> s)"

definition fresh_claim :: "string \<Rightarrow> string \<Rightarrow> fold_doc \<Rightarrow> fact \<Rightarrow> occurrence \<Rightarrow> claim" where
  "fresh_claim cid facet d f occ =
     \<lparr>cl_id = cid, cl_text = fa_text f, cl_facet = facet, cl_class = fa_class f, cl_subject = fa_subject f,
      cl_subject_raw = opt_or (fa_subject_raw f), cl_entities = fa_entities f, cl_kind = fo_kind d, cl_occs = [],
      cl_sources = [], cl_n_sources = 0, cl_rel = fa_rel f, cl_when = fa_when f, cl_version = oc_version occ,
      cl_scope = scope_facets (fo_meta d), cl_variants = [], cl_contests = [], cl_superseded_by = None,
      cl_superseded_from = None, cl_visible_in = [], cl_merged_from = []\<rparr>"

section \<open>The fold\<close>

record fold_state =
  fs_claims :: "(string, claim) dict"
  fs_by_chunk :: "(string, string list) dict"
  fs_by_subject :: "(string, string list) dict"
  fs_occ :: nat
  fs_ungrounded :: nat

definition empty_fold :: fold_state where
  "empty_fold = \<lparr>fs_claims = [], fs_by_chunk = [], fs_by_subject = [], fs_occ = 0, fs_ungrounded = 0\<rparr>"

definition add_new :: "'a \<Rightarrow> 'a list \<Rightarrow> 'a list" where
  "add_new x xs = (if x \<in> set xs then xs else xs @ [x])"

definition file_under :: "string \<Rightarrow> string \<Rightarrow> (string, string list) dict \<Rightarrow> (string, string list) dict" where
  "file_under k cid t = (if k = [] then t else dset k (add_new cid (dget_or t k [])) t)"

definition join_claim :: "fold_doc \<Rightarrow> fact \<Rightarrow> occurrence \<Rightarrow> claim \<Rightarrow> claim" where
  "join_claim d f occ c =
     c\<lparr>cl_occs := cl_occs c @ [occ], cl_sources := add_new (fo_key d) (cl_sources c),
       cl_entities := foldl (\<lambda>es e. add_new e es) (cl_entities c) (fa_entities f)\<rparr>"

definition fold_fact ::
  "(json \<Rightarrow> string) \<Rightarrow> (string \<Rightarrow> string) \<Rightarrow> (string, string) dict \<Rightarrow> fold_doc \<Rightarrow> nat \<times> fact \<Rightarrow> fold_state \<Rightarrow> fold_state" where
  "fold_fact rp sha fm d p s0 =
     (let i = fst p; f = snd p; s = s0\<lparr>fs_occ := fs_occ s0 + 1\<rparr> in
      if fa_grounded f = Some False then s\<lparr>fs_ungrounded := fs_ungrounded s + 1\<rparr>
      else
        let facet = fold_facet fm f; cid = fact_key sha fm f; occ = occurrence_of rp d i f;
            c = dget_or (fs_claims s) cid (fresh_claim cid facet d f occ)
        in s\<lparr>fs_claims := dset cid (join_claim d f occ c) (fs_claims s),
             fs_by_chunk := file_under (opt_or (fa_chunk f)) cid (fs_by_chunk s),
             fs_by_subject := file_under (fa_subject f) cid (fs_by_subject s)\<rparr>)"

definition fold_document ::
  "(json \<Rightarrow> string) \<Rightarrow> (string \<Rightarrow> string) \<Rightarrow> (string \<Rightarrow> (string, string) dict option) \<Rightarrow> string set
    \<Rightarrow> fold_state \<Rightarrow> fold_doc \<Rightarrow> fold_state py" where
  "fold_document rp sha kinds current s d =
     (if fo_id d \<notin> current then Inr s
      else case fo_facts d of
        None \<Rightarrow> Inr s
      | Some fs \<Rightarrow> (case kinds (fo_kind d) of
            None \<Rightarrow> Inl KeyError
          | Some fm \<Rightarrow> Inr (foldl (\<lambda>s p. fold_fact rp sha fm d p s) s (enumerate 0 fs))))"

text \<open>The wording stated by the most documents; of equals the one first stated earliest.\<close>

definition variant_table :: "occurrence list \<Rightarrow> (string, string list) dict" where
  "variant_table os = foldl (\<lambda>t oc. dset (oc_text oc) (add_new (oc_key oc) (dget_or t (oc_text oc) [])) t) [] os"

definition first_stated :: "occurrence list \<Rightarrow> (string, string) dict" where
  "first_stated os = foldl (\<lambda>t oc. dsetdefault (oc_text oc) (oc_asserted oc) t) [] os"

definition wording :: "occurrence list \<Rightarrow> string" where
  "wording os = fst (hd (sort_key (\<lambda>kv. (- int (length (snd kv)), dget_or (first_stated os) (fst kv) [])) (variant_table os)))"

definition finish_claim :: "claim \<Rightarrow> claim" where
  "finish_claim c =
     c\<lparr>cl_sources := sort (cl_sources c), cl_n_sources := length (cl_sources c),
       cl_text := wording (cl_occs c), cl_variants := sort (dkeys (variant_table (cl_occs c)))\<rparr>"

definition fold_claims ::
  "(json \<Rightarrow> string) \<Rightarrow> (string \<Rightarrow> string) \<Rightarrow> (string \<Rightarrow> (string, string) dict option) \<Rightarrow> string set
    \<Rightarrow> fold_doc list \<Rightarrow> fold_state py" where
  "fold_claims rp sha kinds current ds =
     py_bind (py_fold (fold_document rp sha kinds current) empty_fold ds) (\<lambda>s.
       Inr (s\<lparr>fs_claims := List.map (\<lambda>(k, c). (k, finish_claim c)) (fs_claims s)\<rparr>))"

section \<open>Supersession\<close>

text \<open>The key of a fact in the comparison of versions: the need flag plays no part.\<close>

definition version_key :: "(string \<Rightarrow> string) \<Rightarrow> (string, string) dict \<Rightarrow> fact \<Rightarrow> string" where
  "version_key sha fm f = claim_key sha (fa_text f) (class_facet fm f) (fa_subject f)"

definition removed_claim :: "(json \<Rightarrow> string) \<Rightarrow> string \<Rightarrow> fold_doc \<Rightarrow> fold_doc \<Rightarrow> string \<Rightarrow> fact \<Rightarrow> claim" where
  "removed_claim rp k new old prev f =
     (let v = fstr rp (py_or (jget (fo_meta new) ''version'') (JStr []));
          w = fstr rp (py_or (jget (fo_meta old) ''version'') (JStr [])) in
      \<lparr>cl_id = ''rm-'' @ k, cl_text = ''Removed in '' @ fstr rp (jget (fo_meta new) ''version'') @ '': '' @ fa_text f,
       cl_facet = ''event'', cl_class = ''event'', cl_subject = fa_subject f, cl_subject_raw = opt_or (fa_subject_raw f),
       cl_entities = fa_entities f, cl_kind = fo_kind new,
       cl_occs = [\<lparr>oc_doc = fo_id old, oc_key = fo_key old, oc_kind = fo_kind old, oc_chunk = fa_chunk f, oc_span = fa_span f,
          oc_index = None, oc_text = fa_text f, oc_subject_raw = None, oc_asserted = w, oc_version = w, oc_speaker = JStr [],
          oc_title = py_or (jget (fo_meta old) ''title'') (JStr (fo_key old)), oc_when = []\<rparr>],
       cl_sources = [fo_key old], cl_n_sources = 1, cl_rel = None, cl_when = v, cl_version = v,
       cl_scope = scope_facets (fo_meta new), cl_variants = [fa_text f], cl_contests = [], cl_superseded_by = None,
       cl_superseded_from = Some prev, cl_visible_in = [fo_id new], cl_merged_from = []\<rparr>)"

definition grounded_facts :: "fact list \<Rightarrow> fact list" where
  "grounded_facts fs = filter (\<lambda>f. fa_grounded f \<noteq> Some False) fs"

definition removed_between ::
  "(json \<Rightarrow> string) \<Rightarrow> (string \<Rightarrow> string) \<Rightarrow> (string, string) dict \<Rightarrow> fold_doc \<Rightarrow> fold_doc \<Rightarrow> string \<Rightarrow> fact list \<Rightarrow> fact list \<Rightarrow> claim list" where
  "removed_between rp sha fm new old prev new_facts old_facts =
     (let new_keys = version_key sha fm ` set (grounded_facts new_facts) in
      List.map_filter (\<lambda>f. let k = version_key sha fm f in
          if k \<in> new_keys then None else Some (removed_claim rp k new old prev f)) (grounded_facts old_facts))"

definition supersession_step ::
  "(json \<Rightarrow> string) \<Rightarrow> (string \<Rightarrow> string) \<Rightarrow> (string \<Rightarrow> (string, string) dict option) \<Rightarrow> (string, fold_doc) dict
    \<Rightarrow> claim list \<Rightarrow> string \<Rightarrow> claim list py" where
  "supersession_step rp sha kinds ds acc i =
     (let m = (case dget ds i of None \<Rightarrow> [] | Some d \<Rightarrow> fo_meta d) in
      case jget m ''supersedes'' of
        JStr prev \<Rightarrow>
          if prev = [] \<or> truthy (jget m ''append_only'') then Inr acc
          else (case (dget ds i, dget ds prev) of
              (Some new, Some old) \<Rightarrow>
                (case (fo_facts old, fo_facts new) of
                   (Some ofs, Some nfs) \<Rightarrow>
                     (case kinds (fo_kind new) of
                        None \<Rightarrow> Inl KeyError
                      | Some fm \<Rightarrow> Inr (acc @ removed_between rp sha fm new old prev nfs ofs))
                 | _ \<Rightarrow> Inr acc)
            | _ \<Rightarrow> Inr acc)
      | _ \<Rightarrow> Inr acc)"

definition supersession ::
  "(json \<Rightarrow> string) \<Rightarrow> (string \<Rightarrow> string) \<Rightarrow> (string \<Rightarrow> (string, string) dict option) \<Rightarrow> (string, fold_doc) dict
    \<Rightarrow> string list \<Rightarrow> claim list py" where
  "supersession rp sha kinds ds ids = py_fold (supersession_step rp sha kinds ds) [] ids"

section \<open>What the fold promises\<close>

text \<open>The statements of the current documents, in the order the fold meets them.\<close>

definition statements :: "string set \<Rightarrow> fold_doc list \<Rightarrow> (fold_doc \<times> nat \<times> fact) list" where
  "statements current ds =
     concat (List.map (\<lambda>d. case fo_facts d of
         Some fs \<Rightarrow> if fo_id d \<in> current then List.map (Pair d) (enumerate 0 fs) else []
       | None \<Rightarrow> []) ds)"

definition facets_of :: "(string \<Rightarrow> (string, string) dict option) \<Rightarrow> fold_doc \<Rightarrow> (string, string) dict" where
  "facets_of kinds d = (case kinds (fo_kind d) of None \<Rightarrow> [] | Some fm \<Rightarrow> fm)"

definition counts_for ::
  "(string \<Rightarrow> string) \<Rightarrow> (string \<Rightarrow> (string, string) dict option) \<Rightarrow> string \<Rightarrow> fold_doc \<times> nat \<times> fact \<Rightarrow> bool" where
  "counts_for sha kinds cid x =
     (fa_grounded (snd (snd x)) \<noteq> Some False \<and> fact_key sha (facets_of kinds (fst x)) (snd (snd x)) = cid)"

definition stated ::
  "(json \<Rightarrow> string) \<Rightarrow> (string \<Rightarrow> string) \<Rightarrow> (string \<Rightarrow> (string, string) dict option) \<Rightarrow> string
    \<Rightarrow> (fold_doc \<times> nat \<times> fact) list \<Rightarrow> occurrence list" where
  "stated rp sha kinds cid xs =
     List.map (\<lambda>x. occurrence_of rp (fst x) (fst (snd x)) (snd (snd x))) (filter (counts_for sha kinds cid) xs)"

definition known_kinds :: "(string \<Rightarrow> (string, string) dict option) \<Rightarrow> string set \<Rightarrow> fold_doc list \<Rightarrow> bool" where
  "known_kinds kinds current ds =
     list_all (\<lambda>d. fo_id d \<in> current \<and> fo_facts d \<noteq> None \<longrightarrow> kinds (fo_kind d) \<noteq> None) ds"

definition fold_statement ::
  "(json \<Rightarrow> string) \<Rightarrow> (string \<Rightarrow> string) \<Rightarrow> (string \<Rightarrow> (string, string) dict option) \<Rightarrow> fold_state
    \<Rightarrow> fold_doc \<times> nat \<times> fact \<Rightarrow> fold_state" where
  "fold_statement rp sha kinds s x = fold_fact rp sha (facets_of kinds (fst x)) (fst x) (snd x) s"

lemma fold_documents_flat:
  "known_kinds kinds current ds \<Longrightarrow>
   py_fold (fold_document rp sha kinds current) s ds = Inr (foldl (fold_statement rp sha kinds) s (statements current ds))"
proof (induction ds arbitrary: s)
  case (Cons d ds)
  have "foldl (fold_statement rp sha kinds) s (List.map (Pair d) ps)
      = foldl (\<lambda>s p. fold_fact rp sha (facets_of kinds d) d p s) s ps" for ps s
    by (induction ps arbitrary: s) (simp_all add: fold_statement_def)
  then show ?case using Cons
    by (auto simp: fold_document_def statements_def known_kinds_def facets_of_def split: option.splits)
qed (simp add: statements_def)

lemma unknown_kind_raises:
  "\<not> known_kinds kinds current ds \<Longrightarrow> py_fold (fold_document rp sha kinds current) s ds = Inl KeyError"
proof (induction ds arbitrary: s)
  case (Cons d ds)
  then show ?case
    by (auto simp: fold_document_def known_kinds_def split: option.splits)
qed (simp add: known_kinds_def)

definition total_occs :: "(string, claim) dict \<Rightarrow> nat" where
  "total_occs t = sum_list (List.map (\<lambda>(k, c). length (cl_occs c)) t)"

lemma total_occs_dset:
  "total_occs (dset k c t) + (case dget t k of None \<Rightarrow> 0 | Some c' \<Rightarrow> length (cl_occs c')) = total_occs t + length (cl_occs c)"
  if "distinct (dkeys t)"
  using that by (induction t) (auto simp: total_occs_def map_of_eq_None_iff split: option.splits)

lemma in_add_new [simp]: "x \<in> set (add_new y ys) \<longleftrightarrow> x = y \<or> x \<in> set ys"
  by (auto simp: add_new_def)

lemma set_add_new: "set (add_new y ys) = insert y (set ys)"
  by auto

lemma distinct_add_new [simp]: "distinct (add_new y ys) = distinct ys"
  by (auto simp: add_new_def)

text \<open>What the tables hold after a prefix of the statements.\<close>

definition claim_ok :: "claim \<Rightarrow> bool" where
  "claim_ok c = (cl_occs c \<noteq> [] \<and> distinct (cl_sources c) \<and> set (cl_sources c) = oc_key ` set (cl_occs c))"

definition claims_ok ::
  "(json \<Rightarrow> string) \<Rightarrow> (string \<Rightarrow> string) \<Rightarrow> (string \<Rightarrow> (string, string) dict option) \<Rightarrow> (fold_doc \<times> nat \<times> fact) list \<Rightarrow> fold_state \<Rightarrow> bool" where
  "claims_ok rp sha kinds xs s = (distinct (dkeys (fs_claims s)) \<and> (\<forall>cid. case dget (fs_claims s) cid of
       None \<Rightarrow> stated rp sha kinds cid xs = []
     | Some c \<Rightarrow> claim_ok c \<and> cl_id c = cid \<and> cl_occs c = stated rp sha kinds cid xs))"

definition counts_ok :: "(fold_doc \<times> nat \<times> fact) list \<Rightarrow> fold_state \<Rightarrow> bool" where
  "counts_ok xs s = (fs_occ s = length xs \<and> fs_ungrounded s + total_occs (fs_claims s) = fs_occ s
     \<and> fs_ungrounded s = length (filter (\<lambda>x. fa_grounded (snd (snd x)) = Some False) xs))"

lemma stated_snoc:
  "stated rp sha kinds cid (xs @ [x]) = stated rp sha kinds cid xs
     @ (if counts_for sha kinds cid x then [occurrence_of rp (fst x) (fst (snd x)) (snd (snd x))] else [])"
  by (simp add: stated_def)

lemma fold_statement_ungrounded:
  "fa_grounded (snd (snd x)) = Some False \<Longrightarrow>
   fold_statement rp sha kinds s x = s\<lparr>fs_occ := fs_occ s + 1, fs_ungrounded := fs_ungrounded s + 1\<rparr>"
  by (simp add: fold_statement_def fold_fact_def Let_def)

lemma occurrence_key [simp]: "oc_key (occurrence_of rp d i f) = fo_key d" "oc_text (occurrence_of rp d i f) = fa_text f"
  "oc_chunk (occurrence_of rp d i f) = fa_chunk f"
  by (simp_all add: occurrence_of_def Let_def)

lemma join_claim_simps [simp]:
  "cl_occs (join_claim d f oc c) = cl_occs c @ [oc]" "cl_id (join_claim d f oc c) = cl_id c"
  "cl_sources (join_claim d f oc c) = add_new (fo_key d) (cl_sources c)"
  by (simp_all add: join_claim_def)

lemma fresh_claim_simps [simp]:
  "cl_occs (fresh_claim cid facet d f oc) = []" "cl_id (fresh_claim cid facet d f oc) = cid"
  "cl_sources (fresh_claim cid facet d f oc) = []"
  by (simp_all add: fresh_claim_def)

lemma fold_statement_grounded:
  assumes "fa_grounded (snd (snd x)) \<noteq> Some False"
  obtains cid c where "cid = fact_key sha (facets_of kinds (fst x)) (snd (snd x))"
    "fs_claims (fold_statement rp sha kinds s x)
       = dset cid (join_claim (fst x) (snd (snd x)) (occurrence_of rp (fst x) (fst (snd x)) (snd (snd x))) c) (fs_claims s)"
    "dget (fs_claims s) cid = Some c \<or> dget (fs_claims s) cid = None \<and> cl_occs c = [] \<and> cl_id c = cid \<and> cl_sources c = []"
    "fs_occ (fold_statement rp sha kinds s x) = fs_occ s + 1"
    "fs_ungrounded (fold_statement rp sha kinds s x) = fs_ungrounded s"
    "fs_by_chunk (fold_statement rp sha kinds s x) = file_under (opt_or (fa_chunk (snd (snd x)))) cid (fs_by_chunk s)"
    "fs_by_subject (fold_statement rp sha kinds s x) = file_under (fa_subject (snd (snd x))) cid (fs_by_subject s)"
proof -
  let ?cid = "fact_key sha (facets_of kinds (fst x)) (snd (snd x))"
  let ?oc = "occurrence_of rp (fst x) (fst (snd x)) (snd (snd x))"
  let ?c = "dget_or (fs_claims s) ?cid (fresh_claim ?cid (fold_facet (facets_of kinds (fst x)) (snd (snd x))) (fst x) (snd (snd x)) ?oc)"
  show ?thesis
    by (rule that [of ?cid ?c]) (use assms in \<open>simp_all add: fold_statement_def fold_fact_def Let_def dget_or_def split: option.splits\<close>)
qed

lemma claims_ok_step: "claims_ok rp sha kinds (xs @ [x]) (fold_statement rp sha kinds s x)" if ok: "claims_ok rp sha kinds xs s"
proof (cases "fa_grounded (snd (snd x)) = Some False")
  case True
  then have st: "stated rp sha kinds cid (xs @ [x]) = stated rp sha kinds cid xs" for cid
    by (simp add: stated_snoc counts_for_def)
  show ?thesis unfolding claims_ok_def st using ok True by (simp add: claims_ok_def fold_statement_ungrounded)
next
  case False
  obtain cid c where c: "cid = fact_key sha (facets_of kinds (fst x)) (snd (snd x))"
    "fs_claims (fold_statement rp sha kinds s x)
       = dset cid (join_claim (fst x) (snd (snd x)) (occurrence_of rp (fst x) (fst (snd x)) (snd (snd x))) c) (fs_claims s)"
    "dget (fs_claims s) cid = Some c \<or> dget (fs_claims s) cid = None \<and> cl_occs c = [] \<and> cl_id c = cid \<and> cl_sources c = []"
    by (rule fold_statement_grounded [OF False])
  have new: "counts_for sha kinds k x \<longleftrightarrow> k = cid" for k using False c(1) by (auto simp: counts_for_def)
  have old: "case dget (fs_claims s) k of None \<Rightarrow> stated rp sha kinds k xs = []
     | Some c \<Rightarrow> claim_ok c \<and> cl_id c = k \<and> cl_occs c = stated rp sha kinds k xs" for k
    using ok by (simp add: claims_ok_def)
  have d: "distinct (dkeys (fs_claims s))" using ok by (simp add: claims_ok_def)
  have "case dget (fs_claims (fold_statement rp sha kinds s x)) k of None \<Rightarrow> stated rp sha kinds k (xs @ [x]) = []
     | Some c \<Rightarrow> claim_ok c \<and> cl_id c = k \<and> cl_occs c = stated rp sha kinds k (xs @ [x])" for k
  proof (cases "k = cid")
    case True
    then show ?thesis using c(3) old [of cid] unfolding c(2) stated_snoc new by (auto simp: claim_ok_def set_add_new)
  next
    case False
    then have st: "stated rp sha kinds k (xs @ [x]) = stated rp sha kinds k xs" by (simp add: stated_snoc new)
    show ?thesis using old [of k] False unfolding c(2) st by simp
  qed
  then show ?thesis unfolding claims_ok_def c(2) using d by simp
qed


lemma counts_ok_step:
  assumes "claims_ok rp sha kinds xs s" "counts_ok xs s"
  shows "counts_ok (xs @ [x]) (fold_statement rp sha kinds s x)"
proof (cases "fa_grounded (snd (snd x)) = Some False")
  case True
  then show ?thesis using assms(2) by (simp add: counts_ok_def fold_statement_ungrounded)
next
  case False
  obtain cid c where c:
    "fs_claims (fold_statement rp sha kinds s x)
       = dset cid (join_claim (fst x) (snd (snd x)) (occurrence_of rp (fst x) (fst (snd x)) (snd (snd x))) c) (fs_claims s)"
    "dget (fs_claims s) cid = Some c \<or> dget (fs_claims s) cid = None \<and> cl_occs c = [] \<and> cl_id c = cid \<and> cl_sources c = []"
    "fs_occ (fold_statement rp sha kinds s x) = fs_occ s + 1"
    "fs_ungrounded (fold_statement rp sha kinds s x) = fs_ungrounded s"
    by (rule fold_statement_grounded [OF False])
  have d: "distinct (dkeys (fs_claims s))" using assms(1) by (simp add: claims_ok_def)
  show ?thesis
    using total_occs_dset [OF d, of cid "join_claim (fst x) (snd (snd x)) (occurrence_of rp (fst x) (fst (snd x)) (snd (snd x))) c"]
      c(2) assms(2) False unfolding counts_ok_def c(1,3,4) by auto
qed

text \<open>The index by chunk.\<close>

definition chunks_ok ::
  "(string \<Rightarrow> string) \<Rightarrow> (string \<Rightarrow> (string, string) dict option) \<Rightarrow> (fold_doc \<times> nat \<times> fact) list \<Rightarrow> fold_state \<Rightarrow> bool" where
  "chunks_ok sha kinds xs s = (\<forall>ch cid. distinct (dget_or (fs_by_chunk s) ch []) \<and>
     (cid \<in> set (dget_or (fs_by_chunk s) ch []) \<longleftrightarrow>
        ch \<noteq> [] \<and> (\<exists>x \<in> set xs. counts_for sha kinds cid x \<and> fa_chunk (snd (snd x)) = Some ch)))"

lemma dget_or_file_under:
  "dget_or (file_under k cid t) k' [] = (if k \<noteq> [] \<and> k' = k then add_new cid (dget_or t k []) else dget_or t k' [])"
  by (auto simp: file_under_def)

lemma opt_or_simps [simp]: "opt_or (Some s) = s" "opt_or None = []"
  by (simp_all add: opt_or_def)

lemma opt_or_eq: "opt_or v = ch \<longleftrightarrow> v = Some ch \<or> v = None \<and> ch = []"
  by (auto simp: opt_or_def split: option.splits)

lemma chunks_ok_step:
  assumes "chunks_ok sha kinds xs s"
  shows "chunks_ok sha kinds (xs @ [x]) (fold_statement rp sha kinds s x)"
proof (cases "fa_grounded (snd (snd x)) = Some False")
  case True
  then show ?thesis using assms by (simp add: chunks_ok_def fold_statement_ungrounded counts_for_def)
next
  case False
  obtain cid where cid: "cid = fact_key sha (facets_of kinds (fst x)) (snd (snd x))"
    "fs_by_chunk (fold_statement rp sha kinds s x) = file_under (opt_or (fa_chunk (snd (snd x)))) cid (fs_by_chunk s)"
    by (rule fold_statement_grounded [OF False])
  have new: "counts_for sha kinds k x \<longleftrightarrow> k = cid" for k using False cid(1) by (auto simp: counts_for_def)
  have old: "distinct (dget_or (fs_by_chunk s) ch [])"
    "k \<in> set (dget_or (fs_by_chunk s) ch []) \<longleftrightarrow>
        ch \<noteq> [] \<and> (\<exists>x \<in> set xs. counts_for sha kinds k x \<and> fa_chunk (snd (snd x)) = Some ch)" for ch k
    using assms unfolding chunks_ok_def by blast+
  show ?thesis
    unfolding chunks_ok_def cid(2) dget_or_file_under
    by (auto simp: old new opt_or_eq)
qed

lemma fold_tables:
  "claims_ok rp sha kinds xs (foldl (fold_statement rp sha kinds) empty_fold xs)
   \<and> counts_ok xs (foldl (fold_statement rp sha kinds) empty_fold xs)
   \<and> chunks_ok sha kinds xs (foldl (fold_statement rp sha kinds) empty_fold xs)"
proof (induction xs rule: rev_induct)
  case Nil
  show ?case by (simp add: claims_ok_def counts_ok_def chunks_ok_def empty_fold_def stated_def total_occs_def)
next
  case (snoc x xs)
  then show ?case using claims_ok_step counts_ok_step chunks_ok_step by auto
qed

lemma finish_claim_simps [simp]:
  "cl_occs (finish_claim c) = cl_occs c" "cl_sources (finish_claim c) = sort (cl_sources c)"
  "cl_n_sources (finish_claim c) = length (cl_sources c)" "cl_text (finish_claim c) = wording (cl_occs c)" "cl_id (finish_claim c) = cl_id c"
  "cl_variants (finish_claim c) = sort (dkeys (variant_table (cl_occs c)))"
  by (simp_all add: finish_claim_def)

lemma total_occs_finish: "total_occs (List.map (\<lambda>(k, c). (k, finish_claim c)) t) = total_occs t"
  by (induction t) (auto simp: total_occs_def)

lemma fold_claims_result:
  assumes "known_kinds kinds current ds"
  obtains s where "fold_claims rp sha kinds current ds = Inr (s\<lparr>fs_claims := List.map (\<lambda>(k, c). (k, finish_claim c)) (fs_claims s)\<rparr>)"
    "claims_ok rp sha kinds (statements current ds) s" "counts_ok (statements current ds) s"
    "chunks_ok sha kinds (statements current ds) s"
  using fold_tables [of rp sha kinds "statements current ds"]
  by (intro that [of "foldl (fold_statement rp sha kinds) empty_fold (statements current ds)"])
     (simp_all add: fold_claims_def fold_documents_flat [OF assms])

text \<open>C10: the fold loses no statement and counts none twice. When the kinds of the documents are registered it
  returns; every claim holds exactly the grounded statements of its key, in reading order, its sources are the
  sorted distinct keys of the documents stating it, the statements number the claims' occurrences plus the
  ungrounded ones, and the index of a chunk names exactly the claims stated in it.\<close>

theorem fold_keeps_every_statement:
  assumes "known_kinds kinds current ds"
  shows "\<exists>s. fold_claims rp sha kinds current ds = Inr s
    \<and> (\<forall>cid. map_option cl_occs (dget (fs_claims s) cid)
          = (let os = stated rp sha kinds cid (statements current ds) in if os = [] then None else Some os))
    \<and> (\<forall>cid c. dget (fs_claims s) cid = Some c \<longrightarrow> cl_sources c = sorted_list_of_set (oc_key ` set (cl_occs c)))
    \<and> total_occs (fs_claims s) + fs_ungrounded s = length (statements current ds)
    \<and> (\<forall>ch cid. cid \<in> set (dget_or (fs_by_chunk s) ch [])
          \<longleftrightarrow> ch \<noteq> [] \<and> (\<exists>c. dget (fs_claims s) cid = Some c \<and> (\<exists>oc \<in> set (cl_occs c). oc_chunk oc = Some ch)))"
proof -
  obtain s where s: "fold_claims rp sha kinds current ds = Inr (s\<lparr>fs_claims := List.map (\<lambda>(k, c). (k, finish_claim c)) (fs_claims s)\<rparr>)"
    "claims_ok rp sha kinds (statements current ds) s" "counts_ok (statements current ds) s"
    "chunks_ok sha kinds (statements current ds) s"
    by (rule fold_claims_result [OF assms])
  have at: "case dget (fs_claims s) cid of None \<Rightarrow> stated rp sha kinds cid (statements current ds) = []
     | Some c \<Rightarrow> claim_ok c \<and> cl_id c = cid \<and> cl_occs c = stated rp sha kinds cid (statements current ds)" for cid
    using s(2) by (simp add: claims_ok_def)
  have occs: "map_option cl_occs (map_option finish_claim (dget (fs_claims s) cid))
      = (let os = stated rp sha kinds cid (statements current ds) in if os = [] then None else Some os)" for cid
    using at [of cid] by (auto simp: claim_ok_def Let_def split: option.splits)
  have srcs: "cl_sources (finish_claim c) = sorted_list_of_set (oc_key ` set (cl_occs c))" if "dget (fs_claims s) cid = Some c" for cid c
  proof -
    have "distinct (cl_sources c)" "set (cl_sources c) = oc_key ` set (cl_occs c)" using at [of cid] that by (simp_all add: claim_ok_def)
    then show ?thesis by (metis distinct_remdups_id finish_claim_simps(2) sorted_list_of_set_sort_remdups)
  qed
  have chunk: "cid \<in> set (dget_or (fs_by_chunk s) ch [])
     \<longleftrightarrow> ch \<noteq> [] \<and> (\<exists>oc \<in> set (stated rp sha kinds cid (statements current ds)). oc_chunk oc = Some ch)" for cid ch
  proof -
    have "cid \<in> set (dget_or (fs_by_chunk s) ch []) \<longleftrightarrow>
        ch \<noteq> [] \<and> (\<exists>x \<in> set (statements current ds). counts_for sha kinds cid x \<and> fa_chunk (snd (snd x)) = Some ch)"
      using s(4) unfolding chunks_ok_def by blast
    moreover have "(\<exists>oc \<in> set (stated rp sha kinds cid xs). oc_chunk oc = Some ch)
        \<longleftrightarrow> (\<exists>x \<in> set xs. counts_for sha kinds cid x \<and> fa_chunk (snd (snd x)) = Some ch)" for xs
      by (induction xs) (auto simp: stated_def)
    ultimately show ?thesis by blast
  qed
  have chs: "(\<exists>oc \<in> set (stated rp sha kinds cid (statements current ds)). P oc)
     \<longleftrightarrow> (\<exists>c. dget (fs_claims s) cid = Some c \<and> (\<exists>oc \<in> set (cl_occs c). P oc))" for cid P
    using at [of cid] by (auto split: option.splits)
  let ?s = "s\<lparr>fs_claims := List.map (\<lambda>(k, c). (k, finish_claim c)) (fs_claims s)\<rparr>"
  have get: "dget (fs_claims ?s) cid = map_option finish_claim (dget (fs_claims s) cid)" for cid by simp
  show ?thesis
  proof (intro exI [of _ ?s] conjI allI impI)
    fix cid show "map_option cl_occs (dget (fs_claims ?s) cid)
          = (let os = stated rp sha kinds cid (statements current ds) in if os = [] then None else Some os)"
      unfolding get by (rule occs)
  next
    fix cid c assume "dget (fs_claims ?s) cid = Some c"
    then show "cl_sources c = sorted_list_of_set (oc_key ` set (cl_occs c))" unfolding get using srcs by auto
  next
    show "total_occs (fs_claims ?s) + fs_ungrounded ?s = length (statements current ds)"
      using s(3) by (simp add: counts_ok_def total_occs_finish)
  next
    fix ch cid
    show "cid \<in> set (dget_or (fs_by_chunk ?s) ch [])
          \<longleftrightarrow> ch \<noteq> [] \<and> (\<exists>c. dget (fs_claims ?s) cid = Some c \<and> (\<exists>oc \<in> set (cl_occs c). oc_chunk oc = Some ch))"
      unfolding get using chunk [of cid ch] unfolding chs by auto
  qed (rule s(1))
qed

section \<open>The representative wording\<close>

lemma variant_table_distinct: "distinct (dkeys (variant_table os))"
  by (induction os rule: rev_induct) (simp_all add: variant_table_def distinct_update)

lemma variant_table_get:
  "(case dget (variant_table os) t of None \<Rightarrow> t \<notin> oc_text ` set os
    | Some ks \<Rightarrow> t \<in> oc_text ` set os \<and> distinct ks \<and> set ks = oc_key ` {oc \<in> set os. oc_text oc = t})"
proof (induction os rule: rev_induct)
  case (snoc x os)
  have step: "variant_table (os @ [x])
      = dset (oc_text x) (add_new (oc_key x) (dget_or (variant_table os) (oc_text x) [])) (variant_table os)"
    by (simp add: variant_table_def)
  have sets: "{oc \<in> set (os @ [x]). oc_text oc = t} = {oc \<in> set os. oc_text oc = t} \<union> (if oc_text x = t then {x} else {})" by auto
  show ?case unfolding step sets using snoc
    by (auto simp: dget_or_def set_add_new split: option.splits) (metis image_eqI)
qed (simp add: variant_table_def)

lemma first_stated_get:
  "dget (first_stated os) t = map_option oc_asserted (List.find (\<lambda>oc. oc_text oc = t) os)"
proof -
  have "dget (foldl (\<lambda>t oc. dsetdefault (oc_text oc) (oc_asserted oc) t) d os) t
      = (case dget d t of Some v \<Rightarrow> Some v | None \<Rightarrow> map_option oc_asserted (List.find (\<lambda>oc. oc_text oc = t) os))" for d
    by (induction os arbitrary: d) (auto simp: dget_or_def split: option.splits)
  then show ?thesis by (simp add: first_stated_def)
qed

lemma sort_key_hd:
  fixes f :: "'a \<Rightarrow> 'b :: linorder"
  assumes "xs \<noteq> []"
  shows "hd (sort_key f xs) \<in> set xs" "x \<in> set xs \<Longrightarrow> f (hd (sort_key f xs)) \<le> f x"
proof -
  have ne: "sort_key f xs \<noteq> []" using assms by (metis length_0_conv length_sort)
  then show "hd (sort_key f xs) \<in> set xs" by (metis hd_in_set set_sort)
  assume "x \<in> set xs"
  then have "x \<in> set (sort_key f xs)" by simp
  moreover have "sorted (List.map f (sort_key f xs))" by simp
  ultimately show "f (hd (sort_key f xs)) \<le> f x" using ne by (cases "sort_key f xs") auto
qed

text \<open>The number of documents that state a claim in given words.\<close>

definition voters :: "occurrence list \<Rightarrow> string \<Rightarrow> nat" where
  "voters os t = card (oc_key ` {oc \<in> set os. oc_text oc = t})"

definition first_asserted :: "occurrence list \<Rightarrow> string \<Rightarrow> string" where
  "first_asserted os t = (case List.find (\<lambda>oc. oc_text oc = t) os of None \<Rightarrow> [] | Some oc \<Rightarrow> oc_asserted oc)"

lemma wording_wins:
  assumes "os \<noteq> []"
  shows "wording os \<in> oc_text ` set os"
    and "t \<in> oc_text ` set os \<Longrightarrow> voters os t < voters os (wording os)
      \<or> voters os t = voters os (wording os) \<and> first_asserted os (wording os) \<le> first_asserted os t"
proof -
  let ?T = "variant_table os"
  let ?f = "\<lambda>kv :: string \<times> string list. (- int (length (snd kv)), dget_or (first_stated os) (fst kv) [])"
  have at: "(t, ks) \<in> set ?T \<Longrightarrow> t \<in> oc_text ` set os \<and> length ks = voters os t" for t ks
    using variant_table_get [of t os] in_set_dget [OF variant_table_distinct, of t ks os]
    by (simp add: voters_def distinct_card [symmetric])
  have ex: "\<exists>ks. (t, ks) \<in> set ?T" if "t \<in> oc_text ` set os" for t
    using variant_table_get [of t os] that in_set_dget [OF variant_table_distinct, of t _ os] by (auto split: option.splits)
  have ne: "?T \<noteq> []" using ex assms by (cases os) fastforce+
  obtain w ws where w: "hd (sort_key ?f ?T) = (w, ws)" by (cases "hd (sort_key ?f ?T)")
  have wd: "wording os = w" using w by (simp add: wording_def)
  have inw: "(w, ws) \<in> set ?T" using sort_key_hd(1) [OF ne, of ?f] w by simp
  show "wording os \<in> oc_text ` set os" using at [OF inw] wd by simp
  assume "t \<in> oc_text ` set os"
  then obtain ks where ks: "(t, ks) \<in> set ?T" using ex by blast
  have fs: "dget_or (first_stated os) u [] = first_asserted os u" for u
    by (auto simp: dget_or_def first_stated_get first_asserted_def split: option.splits)
  have "?f (w, ws) \<le> ?f (t, ks)" using sort_key_hd(2) [OF ne ks, of ?f] w by simp
  then show "voters os t < voters os (wording os)
      \<or> voters os t = voters os (wording os) \<and> first_asserted os (wording os) \<le> first_asserted os t"
    using at [OF inw] at [OF ks] by (auto simp: wd less_eq_prod_def fs)
qed

definition plain_fact :: "string \<Rightarrow> bool \<Rightarrow> fact" where
  "plain_fact t need = \<lparr>fa_grounded = None, fa_class = ''spec'', fa_need = need, fa_subject = [], fa_subject_raw = None, fa_text = t,
     fa_chunk = Some ''c'', fa_span = None, fa_version = [], fa_when = [], fa_entities = [], fa_rel = None\<rparr>"

definition page :: "string \<Rightarrow> string \<Rightarrow> fact list \<Rightarrow> fold_doc" where
  "page i prev fs = \<lparr>fo_id = i, fo_key = ''page'', fo_kind = ''tech_doc'',
     fo_meta = (if prev = [] then [] else [(''supersedes'', JStr prev)]), fo_facts = Some fs\<rparr>"

definition tech_kinds :: "string \<Rightarrow> (string, string) dict option" where
  "tech_kinds k = (if k = ''tech_doc'' then Some [(''spec'', ''norm'')] else None)"

lemma fold_keeps_every_statement_witness:
  "\<exists>s. fold_claims (\<lambda>_. []) id tech_kinds {''v1''} [page ''v1'' [] [plain_fact ''A.'' False]] = Inr s
    \<and> total_occs (fs_claims s) + fs_ungrounded s = length (statements {''v1''} [page ''v1'' [] [plain_fact ''A.'' False]])"
  using fold_keeps_every_statement [of tech_kinds "{''v1''}" "[page ''v1'' [] [plain_fact ''A.'' False]]" "\<lambda>_. []" id]
  by (auto simp: known_kinds_def page_def tech_kinds_def)

text \<open>A claim is worded as most of its documents word it. In the result of the fold the text of a claim is the
  text of one of its occurrences, no other wording is stated by more documents, and between equals the one
  whose first read statement is dated earliest is taken.\<close>

theorem claim_wording_is_most_stated:
  assumes "fold_claims rp sha kinds current ds = Inr s" "dget (fs_claims s) cid = Some c" "oc \<in> set (cl_occs c)"
  shows "cl_text c \<in> oc_text ` set (cl_occs c)
    \<and> (voters (cl_occs c) (oc_text oc) < voters (cl_occs c) (cl_text c)
       \<or> voters (cl_occs c) (oc_text oc) = voters (cl_occs c) (cl_text c)
         \<and> first_asserted (cl_occs c) (cl_text c) \<le> first_asserted (cl_occs c) (oc_text oc))"
proof -
  have known: "known_kinds kinds current ds"
    using assms(1) unknown_kind_raises [of kinds current ds rp sha empty_fold] by (fastforce simp: fold_claims_def)
  obtain s' where s': "s = s'\<lparr>fs_claims := List.map (\<lambda>(k, c). (k, finish_claim c)) (fs_claims s')\<rparr>"
    using fold_claims_result [OF known, of rp sha] assms(1) by (metis Inr_inject)
  then obtain c' where c': "c = finish_claim c'" using assms(2) by auto
  have "cl_occs c \<noteq> []" using assms(3) by auto
  then show ?thesis using wording_wins [of "cl_occs c"] assms(3) c' by simp
qed

lemma claim_wording_is_most_stated_witness:
  "let s = (case fold_claims (\<lambda>_. []) id tech_kinds {''v1''} [page ''v1'' [] [plain_fact ''A.'' False]] of Inr s \<Rightarrow> s | Inl _ \<Rightarrow> empty_fold);
       c = snd (hd (fs_claims s)) in cl_text c \<in> oc_text ` set (cl_occs c)"
proof -
  define s where "s = (case fold_claims (\<lambda>_. []) id tech_kinds {''v1''} [page ''v1'' [] [plain_fact ''A.'' False]] of Inr s \<Rightarrow> s | Inl _ \<Rightarrow> empty_fold)"
  have "fold_claims (\<lambda>_. []) id tech_kinds {''v1''} [page ''v1'' [] [plain_fact ''A.'' False]] = Inr s"
    "dget (fs_claims s) (fst (hd (fs_claims s))) = Some (snd (hd (fs_claims s)))"
    "hd (cl_occs (snd (hd (fs_claims s)))) \<in> set (cl_occs (snd (hd (fs_claims s))))"
    unfolding s_def by code_simp+
  then show ?thesis unfolding Let_def s_def [symmetric] by (blast dest: claim_wording_is_most_stated)
qed

text \<open>The date compared is that of the first statement read, not of the oldest: with the documents out of order of
  time the wording of the oldest document can lose a tie.\<close>

definition said :: "string \<Rightarrow> string \<Rightarrow> string \<Rightarrow> occurrence" where
  "said key text date = \<lparr>oc_doc = key, oc_key = key, oc_kind = ''news'', oc_chunk = None, oc_span = None, oc_index = None,
     oc_text = text, oc_subject_raw = None, oc_asserted = date, oc_version = [], oc_speaker = JStr [], oc_title = JStr key, oc_when = []\<rparr>"

lemma tie_goes_to_first_read:
  "let os = [said ''k1'' ''A'' ''2020'', said ''k2'' ''A'' ''2022'', said ''k3'' ''B'' ''2021'', said ''k4'' ''B'' ''2019''] in
   wording os = ''A'' \<and> (\<forall>oc \<in> set os. ''2019'' \<le> oc_asserted oc)"
  by code_simp

section \<open>What a version drops\<close>

lemma removed_between_ids:
  "cl_id ` set (removed_between rp sha fm new old prev nfs ofs)
     = (\<lambda>k. ''rm-'' @ k) ` (version_key sha fm ` set (grounded_facts ofs) - version_key sha fm ` set (grounded_facts nfs))"
proof -
  have "cl_id (removed_claim rp k new old prev f) = ''rm-'' @ k" for k f by (simp add: removed_claim_def Let_def)
  then show ?thesis
    by (auto simp: removed_between_def Let_def List.map_filter_def image_iff split: if_splits) blast
qed

lemma fold_of_one:
  assumes "fo_facts d = Some fs" "kinds (fo_kind d) = Some fm"
  shows "\<exists>s. fold_claims rp sha kinds {fo_id d} [d] = Inr s
    \<and> {k. dget (fs_claims s) k \<noteq> None} = fact_key sha fm ` set (grounded_facts fs)"
proof -
  have known: "known_kinds kinds {fo_id d} [d]" using assms by (simp add: known_kinds_def)
  have st: "statements {fo_id d} [d] = List.map (Pair d) (enumerate 0 fs)" using assms(1) by (simp add: statements_def)
  have "stated rp sha kinds k (List.map (Pair d) (enumerate n fs)) = []
      \<longleftrightarrow> k \<notin> fact_key sha fm ` set (grounded_facts fs)" for k n
    by (induction fs arbitrary: n) (auto simp: stated_def counts_for_def facets_of_def assms(2) grounded_facts_def)
  then have ne: "(stated rp sha kinds k (statements {fo_id d} [d]) = []) = (k \<notin> fact_key sha fm ` set (grounded_facts fs))" for k
    unfolding st by blast
  obtain s where s: "fold_claims rp sha kinds {fo_id d} [d] = Inr (s\<lparr>fs_claims := List.map (\<lambda>(k, c). (k, finish_claim c)) (fs_claims s)\<rparr>)"
    "claims_ok rp sha kinds (statements {fo_id d} [d]) s"
    by (rule fold_claims_result [OF known])
  have "dget (fs_claims s) k = None \<longleftrightarrow> stated rp sha kinds k (statements {fo_id d} [d]) = []" for k
  proof -
    have "case dget (fs_claims s) k of None \<Rightarrow> stated rp sha kinds k (statements {fo_id d} [d]) = []
     | Some c \<Rightarrow> claim_ok c \<and> cl_id c = k \<and> cl_occs c = stated rp sha kinds k (statements {fo_id d} [d])"
      using s(2) by (simp add: claims_ok_def)
    then show ?thesis by (auto simp: claim_ok_def split: option.splits)
  qed
  then have "{k. dget (List.map (\<lambda>(k, c). (k, finish_claim c)) (fs_claims s)) k \<noteq> None} = fact_key sha fm ` set (grounded_facts fs)"
    using ne by auto
  then show ?thesis using s(1) by auto
qed

text \<open>C34: a new version removes exactly the claims it dropped. For two versions of a document whose facts are not
  marked as needs, the removals of the comparison are the claims the old version folds to and the new one
  does not, each visible in the new version only.\<close>

theorem removals_are_dropped_claims:
  assumes "dget ds (fo_id new) = Some new" "dget ds (fo_id old) = Some old"
    and "jget (fo_meta new) ''supersedes'' = JStr (fo_id old)" "fo_id old \<noteq> []" "\<not> truthy (jget (fo_meta new) ''append_only'')"
    and "fo_facts new = Some nfs" "fo_facts old = Some ofs" "kinds (fo_kind new) = Some fm" "fo_kind old = fo_kind new"
    and "\<forall>f \<in> set nfs \<union> set ofs. \<not> fa_need f"
  shows "\<exists>rs sn so. supersession rp sha kinds ds [fo_id new] = Inr rs
    \<and> fold_claims rp sha kinds {fo_id new} [new] = Inr sn \<and> fold_claims rp sha kinds {fo_id old} [old] = Inr so
    \<and> cl_id ` set rs = (\<lambda>k. ''rm-'' @ k) ` {k. dget (fs_claims so) k \<noteq> None \<and> dget (fs_claims sn) k = None}
    \<and> (\<forall>c \<in> set rs. cl_visible_in c = [fo_id new])"
proof -
  have key: "version_key sha fm ` set (grounded_facts fs) = fact_key sha fm ` set (grounded_facts fs)"
    if "\<forall>f \<in> set fs. \<not> fa_need f" for fs
    using that by (intro image_cong) (auto simp: version_key_def fact_key_def fold_facet_def grounded_facts_def)
  obtain sn where sn: "fold_claims rp sha kinds {fo_id new} [new] = Inr sn"
      "{k. dget (fs_claims sn) k \<noteq> None} = fact_key sha fm ` set (grounded_facts nfs)"
    using fold_of_one [of new nfs kinds fm rp sha] assms(6,8) by blast
  obtain so where so: "fold_claims rp sha kinds {fo_id old} [old] = Inr so"
      "{k. dget (fs_claims so) k \<noteq> None} = fact_key sha fm ` set (grounded_facts ofs)"
    using fold_of_one [of old ofs kinds fm rp sha] assms(7-9) by auto
  have "supersession rp sha kinds ds [fo_id new] = Inr (removed_between rp sha fm new old (fo_id old) nfs ofs)"
    using assms(1-8) by (simp add: supersession_def supersession_step_def)
  moreover have "{k. dget (fs_claims so) k \<noteq> None \<and> dget (fs_claims sn) k = None}
      = version_key sha fm ` set (grounded_facts ofs) - version_key sha fm ` set (grounded_facts nfs)"
  proof -
    have "version_key sha fm ` set (grounded_facts ofs) = {k. dget (fs_claims so) k \<noteq> None}"
      unfolding so(2) by (rule key) (use assms(10) in blast)
    moreover have "version_key sha fm ` set (grounded_facts nfs) = {k. dget (fs_claims sn) k \<noteq> None}"
      unfolding sn(2) by (rule key) (use assms(10) in blast)
    ultimately show ?thesis by blast
  qed
  moreover have "\<forall>c \<in> set (removed_between rp sha fm new old (fo_id old) nfs ofs). cl_visible_in c = [fo_id new]"
    by (auto simp: removed_between_def removed_claim_def List.map_filter_def Let_def split: if_splits)
  ultimately show ?thesis using sn(1) so(1) by (auto simp: removed_between_ids)
qed

lemma removals_are_dropped_claims_witness:
  "let new = page ''v2'' ''v1'' [plain_fact ''B.'' False]; old = page ''v1'' [] [plain_fact ''A.'' False, plain_fact ''b'' False] in
   \<exists>rs sn so. supersession (\<lambda>_. []) id tech_kinds [(''v1'', old), (''v2'', new)] [fo_id new] = Inr rs
    \<and> fold_claims (\<lambda>_. []) id tech_kinds {fo_id new} [new] = Inr sn \<and> fold_claims (\<lambda>_. []) id tech_kinds {fo_id old} [old] = Inr so
    \<and> cl_id ` set rs = (\<lambda>k. ''rm-'' @ k) ` {k. dget (fs_claims so) k \<noteq> None \<and> dget (fs_claims sn) k = None}
    \<and> (\<forall>c \<in> set rs. cl_visible_in c = [fo_id new])"
  unfolding Let_def
  by (rule removals_are_dropped_claims [where nfs = "[plain_fact ''B.'' False]" and ofs = "[plain_fact ''A.'' False, plain_fact ''b'' False]"
        and fm = "[(''spec'', ''norm'')]"])
     (simp_all add: page_def tech_kinds_def plain_fact_def jget_def dget_or_def)

text \<open>The comparison does not look at the need flag the fold gives a facet of its own: a claim that stops being a need
  disappears from the claims without a removal.\<close>

lemma dropped_need_not_removed:
  "let new = page ''v2'' ''v1'' [plain_fact ''A.'' False]; old = page ''v1'' [] [plain_fact ''A.'' True];
       keys = (\<lambda>d. case fold_claims (\<lambda>_. []) id tech_kinds {fo_id d} [d] of Inr s \<Rightarrow> dkeys (fs_claims s) | Inl _ \<Rightarrow> []) in
   length (keys old) = 1 \<and> length (keys new) = 1 \<and> keys old \<noteq> keys new
   \<and> supersession (\<lambda>_. []) id tech_kinds [(''v1'', old), (''v2'', new)] [''v2''] = Inr []"
  by code_simp

end
