(* ===== verification/Dedup.thy ===== *)
theory Dedup
  imports Fold "HOL-Library.Multiset"
begin

text \<open>
  \<open>assoc/dedup.py\<close> and the linking of claims in \<open>assoc/rebuild.py\<close>: nominated pairs of claims pass an equivalence check,
  what passes is merged, the rest is linked. The tokenizer is that of \<open>assoc/lex.py\<close> within Latin-1. \<open>cells\<close> is the
  cell set the codebook gives a text, \<open>near\<close> the comparison of the embeddings of two claims, \<open>resolve\<close> the node of
  a mention; merging may in principle not return (union-find), which is \<open>None\<close>.
\<close>

section \<open>Tokens\<close>

definition is_digit :: "char \<Rightarrow> bool" where
  "is_digit c = (digit_val c \<noteq> None)"

definition is_ascii_letter :: "char \<Rightarrow> bool" where
  "is_ascii_letter c = (let n = (of_char c :: nat) in (65 \<le> n \<and> n \<le> 90) \<or> (97 \<le> n \<and> n \<le> 122))"

definition ident_start :: "char \<Rightarrow> bool" where
  "ident_start c = (is_ascii_letter c \<or> c = CHR ''_'')"

definition ident_char :: "char \<Rightarrow> bool" where
  "ident_char c = (is_ascii_letter c \<or> is_digit c \<or> c = CHR ''_'')"

definition is_letter :: "char \<Rightarrow> bool" where
  "is_letter c = (is_word c \<and> \<not> is_digit c \<and> c \<noteq> CHR ''_'')"

text \<open>The longest match of each alternative of the pattern; empty when it does not match.\<close>

definition match_ident :: "string \<Rightarrow> string" where
  "match_ident s = (case s of
      [] \<Rightarrow> []
    | c # cs \<Rightarrow>
        let body = rstrip_if (\<lambda>d. \<not> ident_char d) (takeWhile (\<lambda>d. ident_char d \<or> d = CHR ''.'') cs) in
        if ident_start c \<and> body \<noteq> [] then c # body else [])"

text \<open>Groups of one class joined by single separators, the groups after the first not empty.\<close>

fun match_groups :: "nat \<Rightarrow> (char \<Rightarrow> bool) \<Rightarrow> (char \<Rightarrow> bool) \<Rightarrow> string \<Rightarrow> string" where
  "match_groups 0 cls sep s = []"
| "match_groups (Suc n) cls sep s =
     (let g = takeWhile cls s; rest = dropWhile cls s in
      case rest of
        [] \<Rightarrow> g
      | c # cs \<Rightarrow> if sep c \<and> takeWhile cls cs \<noteq> [] then g @ c # match_groups n cls sep cs else g)"

definition next_token :: "string \<Rightarrow> string" where
  "next_token s =
     (if match_ident s \<noteq> [] then match_ident s
      else let w = (if takeWhile is_letter s = [] then [] else match_groups (length s) is_letter (\<lambda>c. c = CHR ''-'') s) in
        if w \<noteq> [] then w
        else if takeWhile is_digit s = [] then []
        else match_groups (length s) is_digit (\<lambda>c. c = CHR ''.'' \<or> c = CHR '','') s)"

fun tokens_from :: "nat \<Rightarrow> string \<Rightarrow> string list" where
  "tokens_from 0 s = []"
| "tokens_from (Suc n) s =
     (case s of
        [] \<Rightarrow> []
      | c # cs \<Rightarrow> let t = next_token s in if t = [] then tokens_from n cs else t # tokens_from n (drop (length t) s))"

definition tokenize :: "string \<Rightarrow> string list" where
  "tokenize s = tokens_from (length s) s"

section \<open>The equivalence check\<close>

definition negation :: "string list" where
  "negation = [''not'', ''never'', ''no'', ''none'', ''nothing'', ''neither'', ''nor'', ''cannot'', ''can'' @ [CHR 0x27] @ ''t'',
     ''don'' @ [CHR 0x27] @ ''t'', ''doesn'' @ [CHR 0x27] @ ''t'', ''didn'' @ [CHR 0x27] @ ''t'', ''isn'' @ [CHR 0x27] @ ''t'',
     ''aren'' @ [CHR 0x27] @ ''t'', ''wasn'' @ [CHR 0x27] @ ''t'', ''weren'' @ [CHR 0x27] @ ''t'', ''won'' @ [CHR 0x27] @ ''t'',
     ''wouldn'' @ [CHR 0x27] @ ''t'', ''shouldn'' @ [CHR 0x27] @ ''t'', ''couldn'' @ [CHR 0x27] @ ''t'',
     ''without'', ''removed'', ''deprecated'', ''disabled'', ''unsupported'']"

definition condition_words :: "string list" where
  "condition_words = [''if'', ''when'', ''unless'', ''until'', ''only'', ''whenever'', ''provided'']"

definition text_words :: "string \<Rightarrow> string list" where
  "text_words t = List.map py_lower (tokenize t)"

definition polarity :: "string list \<Rightarrow> string \<Rightarrow> nat" where
  "polarity markers t = length (filter (\<lambda>w. w \<in> set negation \<or> w \<in> set markers) (text_words t)) mod 2"

definition has_condition :: "string \<Rightarrow> bool" where
  "has_condition t = list_ex (\<lambda>w. w \<in> set condition_words) (text_words t)"

definition argument_order :: "(string \<Rightarrow> string) \<Rightarrow> claim \<Rightarrow> string list" where
  "argument_order resolve c =
     (let low = py_lower (cl_text c);
          subj = (if cl_subject c = [] then [] else [(- 1, cl_subject c)]);
          ents = List.map (\<lambda>e. (case find_str low (py_lower e) of Some i \<Rightarrow> int i | None \<Rightarrow> 10000, resolve e)) (cl_entities c)
      in List.map snd (sort (subj @ ents)))"

datatype dedup_verdict = Merge | Contests | Supersedes | Separate

definition equivalent :: "(string \<Rightarrow> string) \<Rightarrow> string list \<Rightarrow> claim \<Rightarrow> claim \<Rightarrow> dedup_verdict" where
  "equivalent resolve markers a b =
     (if polarity markers (cl_text a) \<noteq> polarity markers (cl_text b) then Contests
      else if cl_version a \<noteq> [] \<and> cl_version b \<noteq> [] \<and> cl_version a \<noteq> cl_version b then Supersedes
      else if has_condition (cl_text a) \<noteq> has_condition (cl_text b) then Separate
      else if argument_order resolve a \<noteq> argument_order resolve b then Separate
      else Merge)"

section \<open>Nomination\<close>

definition block_key :: "claim \<Rightarrow> string" where
  "block_key c = cl_subject c @ unit_sep @ cl_facet c"

definition claim_blocks :: "(string, claim) dict \<Rightarrow> (string, string list) dict" where
  "claim_blocks claims =
     foldl (\<lambda>d (cid, c). if startswith cid ''rm-'' then d else dset (block_key c) (dget_or d (block_key c) [] @ [cid]) d) [] claims"

fun pairs_of :: "'a list \<Rightarrow> ('a \<times> 'a) list" where
  "pairs_of [] = []"
| "pairs_of (x # xs) = List.map (Pair x) xs @ pairs_of xs"

definition ordered :: "string \<times> string \<Rightarrow> string \<times> string" where
  "ordered p = (if snd p < fst p then (snd p, fst p) else p)"

type_synonym nomination = "string \<times> string \<times> string"

definition nominate_pairs :: "string \<Rightarrow> (string \<times> string) list \<Rightarrow> nomination list \<Rightarrow> nomination list" where
  "nominate_pairs tier ps acc =
     foldl (\<lambda>acc p. let (a, b) = ordered p in
       if (a, b) \<in> set (List.map (\<lambda>(a, b, t). (a, b)) acc) then acc else acc @ [(a, b, tier)]) acc ps"

definition cell_groups :: "(string \<Rightarrow> string set) \<Rightarrow> (string, claim) dict \<Rightarrow> string list \<Rightarrow> (string set, string list) dict" where
  "cell_groups cells claims ids =
     foldl (\<lambda>d cid. let cs = (case dget claims cid of Some c \<Rightarrow> cells (cl_text c) | None \<Rightarrow> {}) in
       if cs = {} then d else dset cs (dget_or d cs [] @ [cid]) d) [] ids"

definition nominate_block ::
  "(string \<Rightarrow> string set) \<Rightarrow> (string \<Rightarrow> string \<Rightarrow> bool) option \<Rightarrow> (string, claim) dict \<Rightarrow> nomination list \<Rightarrow> string \<times> string list \<Rightarrow> nomination list" where
  "nominate_block cells near claims acc blk =
     (let ids = snd blk in
      if length ids < 2 \<or> startswith (fst blk) unit_sep then acc
      else let acc2 = foldl (\<lambda>acc g. nominate_pairs ''tier2'' (pairs_of (snd g)) acc) acc (cell_groups cells claims ids) in
        case near of
          None \<Rightarrow> acc2
        | Some f \<Rightarrow> if length ids \<le> 400 then nominate_pairs ''tier3'' (filter (\<lambda>(a, b). f a b) (pairs_of ids)) acc2 else acc2)"

definition nominate ::
  "(string \<Rightarrow> string set) \<Rightarrow> (string \<Rightarrow> string \<Rightarrow> bool) option \<Rightarrow> (string, claim) dict \<Rightarrow> nomination list" where
  "nominate cells near claims = foldl (nominate_block cells near claims) [] (claim_blocks claims)"

section \<open>Resolution\<close>

record resolved =
  rs_uf :: parents
  rs_contests :: "nomination list"
  rs_supersedes :: "nomination list"
  rs_separate :: nat
  rs_merged_pairs :: nat

definition empty_resolved :: resolved where
  "empty_resolved = \<lparr>rs_uf = [], rs_contests = [], rs_supersedes = [], rs_separate = 0, rs_merged_pairs = 0\<rparr>"

text \<open>A loop whose body may raise or not return.\<close>

fun call_fold :: "('s \<Rightarrow> 'a \<Rightarrow> 's py option) \<Rightarrow> 's \<Rightarrow> 'a list \<Rightarrow> 's py option" where
  "call_fold f s [] = Some (Inr s)"
| "call_fold f s (x # xs) = after_call (f s x) (\<lambda>s'. call_fold f s' xs)"

definition resolve_step ::
  "(string \<Rightarrow> string) \<Rightarrow> (string \<Rightarrow> string list) \<Rightarrow> (string, claim) dict \<Rightarrow> resolved \<Rightarrow> nomination \<Rightarrow> resolved py option" where
  "resolve_step resolve markers claims s nom =
     (case nom of (a, b, tier) \<Rightarrow>
        (case (dget claims a, dget claims b) of
           (Some ca, Some cb) \<Rightarrow>
             (case equivalent resolve (markers (cl_kind ca)) ca cb of
                Merge \<Rightarrow> after_call (union_step (rs_uf s) a b)
                  (\<lambda>p. Some (Inr (s\<lparr>rs_uf := p, rs_merged_pairs := rs_merged_pairs s + 1\<rparr>)))
              | Contests \<Rightarrow> Some (Inr (s\<lparr>rs_contests := rs_contests s @ [(a, b, tier)]\<rparr>))
              | Supersedes \<Rightarrow> Some (Inr (s\<lparr>rs_supersedes := rs_supersedes s
                  @ [if cl_version ca < cl_version cb then (a, b, tier) else (b, a, tier)]\<rparr>))
              | Separate \<Rightarrow> Some (Inr (s\<lparr>rs_separate := rs_separate s + 1\<rparr>)))
         | _ \<Rightarrow> Some (Inl KeyError)))"

fun group_claims :: "parents \<Rightarrow> string list \<Rightarrow> (string, string list) dict \<Rightarrow> (string, string list) dict py option" where
  "group_claims p [] groups = Some (Inr groups)"
| "group_claims p (cid # cids) groups =
     (if dget p cid = None then group_claims p cids groups
      else after_call (find_root p cid) (\<lambda>(p', r). group_claims p' cids (dset r (dget_or groups r [] @ [cid]) groups)))"

definition resolve_pairs ::
  "(string \<Rightarrow> string) \<Rightarrow> (string \<Rightarrow> string list) \<Rightarrow> (string, claim) dict \<Rightarrow> nomination list
    \<Rightarrow> (resolved \<times> (string, string list) dict) py option" where
  "resolve_pairs resolve markers claims noms =
     after_call (call_fold (resolve_step resolve markers claims) empty_resolved noms) (\<lambda>s.
     after_call (group_claims (rs_uf s) (dkeys claims) []) (\<lambda>groups.
       Some (Inr (s, filter (\<lambda>(r, ids). 1 < length ids) groups))))"

definition single_valued :: "string list" where
  "single_valued = [''defaults_to'', ''lives_in'', ''founded'', ''located_in'', ''born_in'', ''ceo_of'', ''version_of'']"

definition rel_table :: "(string, claim) dict \<Rightarrow> (string \<times> string, (string, string) dict) dict" where
  "rel_table claims =
     foldl (\<lambda>t (cid, c). case cl_rel c of
         Some [prd, subj, obj] \<Rightarrow>
           if prd \<in> set single_valued
           then dset (subj, prd) (dset (py_lower obj) cid (dget_or t (subj, prd) [])) t else t
       | _ \<Rightarrow> t) [] claims"

definition rel_contests :: "(string, claim) dict \<Rightarrow> nomination list" where
  "rel_contests claims =
     concat (List.map (\<lambda>(k, objs). List.map (\<lambda>(a, b). (a, b, ''rel:'' @ snd k)) (pairs_of (List.map snd objs))) (rel_table claims))"

section \<open>Merging\<close>

text \<open>\<open>sorted(set(xs) | set(ys))\<close>\<close>

definition union_sorted :: "string list \<Rightarrow> string list \<Rightarrow> string list" where
  "union_sorted xs ys = sort (remdups (xs @ ys))"

definition merge_into :: "string \<Rightarrow> claim \<Rightarrow> claim \<Rightarrow> claim" where
  "merge_into cid c keep =
     keep\<lparr>cl_occs := cl_occs keep @ cl_occs c,
          cl_sources := union_sorted (cl_sources keep) (cl_sources c),
          cl_visible_in := union_sorted (cl_visible_in keep) (cl_visible_in c),
          cl_entities := foldl (\<lambda>es e. add_new e es) (cl_entities keep) (cl_entities c),
          cl_merged_from := cl_merged_from keep @ [cid]\<rparr>"

definition absorb ::
  "string \<Rightarrow> (string, claim) dict \<times> (string, string) dict \<Rightarrow> string \<Rightarrow> ((string, claim) dict \<times> (string, string) dict) py" where
  "absorb rt s cid =
     (if cid = rt then Inr s
      else case (dget (fst s) rt, dget (fst s) cid) of
        (Some keep, Some c) \<Rightarrow> Inr (dset rt (merge_into cid c keep) (dpop cid (fst s)), dset cid rt (snd s))
      | _ \<Rightarrow> Inl KeyError)"

definition settle :: "claim \<Rightarrow> claim py" where
  "settle c =
     (if cl_occs c = [] then Inl IndexError
      else Inr (c\<lparr>cl_n_sources := length (cl_sources c), cl_text := wording (cl_occs c),
                  cl_variants := sort (dkeys (variant_table (cl_occs c)))\<rparr>))"

definition merge_group ::
  "(string, claim) dict \<times> (string, string) dict \<Rightarrow> string \<times> string list \<Rightarrow> ((string, claim) dict \<times> (string, string) dict) py" where
  "merge_group s g =
     (case dget (fst s) (fst g) of
        None \<Rightarrow> Inl KeyError
      | Some _ \<Rightarrow>
          py_bind (py_fold (absorb (fst g)) s (snd g)) (\<lambda>s'.
            case dget (fst s') (fst g) of
              None \<Rightarrow> Inl KeyError
            | Some keep \<Rightarrow> py_bind (settle keep) (\<lambda>c. Inr (dset (fst g) c (fst s'), snd s'))))"

definition apply_merges ::
  "(string, claim) dict \<Rightarrow> (string, string list) dict \<Rightarrow> ((string, claim) dict \<times> (string, string) dict) py" where
  "apply_merges claims merged = py_fold merge_group (claims, []) merged"

section \<open>Linking\<close>

text \<open>The part of \<open>rebuild\<close> that runs the tiers over the folded claims and rewrites what names a claim.\<close>

definition kind_markers :: "string \<Rightarrow> string list" where
  "kind_markers k = (if k \<in> {''tech_doc'', ''structured''} then [''deprecated'', ''removed''] else [])"

definition renamed :: "(string, string) dict \<Rightarrow> string \<Rightarrow> string" where
  "renamed remap x = dget_or remap x x"

definition from_keys :: "'a list \<Rightarrow> 'a list" where
  "from_keys xs = foldl (\<lambda>a x. add_new x a) [] xs"

definition relist :: "(string, string) dict \<Rightarrow> (string, string list) dict \<Rightarrow> (string, string list) dict" where
  "relist remap t = List.map (\<lambda>(k, l). (k, from_keys (List.map (renamed remap) l))) t"

definition live_links :: "(string, string) dict \<Rightarrow> (string, claim) dict \<Rightarrow> nomination list \<Rightarrow> nomination list" where
  "live_links remap claims xs =
     filter (\<lambda>(a, b, t). a \<noteq> b \<and> dget claims a \<noteq> None \<and> dget claims b \<noteq> None)
       (List.map (\<lambda>(a, b, t). (renamed remap a, renamed remap b, t)) xs)"

definition unlinked :: "(string, claim) dict \<Rightarrow> (string, claim) dict" where
  "unlinked claims = List.map (\<lambda>(k, c). (k, c\<lparr>cl_contests := [], cl_superseded_by := None\<rparr>)) claims"

definition change_claim :: "string \<Rightarrow> (claim \<Rightarrow> claim) \<Rightarrow> (string, claim) dict \<Rightarrow> (string, claim) dict py" where
  "change_claim k f claims = (case dget claims k of None \<Rightarrow> Inl KeyError | Some c \<Rightarrow> Inr (dset k (f c) claims))"

definition add_contest :: "(string, claim) dict \<Rightarrow> nomination \<Rightarrow> (string, claim) dict py" where
  "add_contest claims nom =
     (case nom of (a, b, t) \<Rightarrow>
        py_bind (change_claim a (\<lambda>c. c\<lparr>cl_contests := cl_contests c @ [b]\<rparr>) claims)
          (change_claim b (\<lambda>c. c\<lparr>cl_contests := cl_contests c @ [a]\<rparr>)))"

definition add_successor :: "(string, claim) dict \<Rightarrow> nomination \<Rightarrow> (string, claim) dict py" where
  "add_successor claims nom =
     (case nom of (a, b, t) \<Rightarrow> change_claim a (\<lambda>c. c\<lparr>cl_superseded_by := Some b\<rparr>) claims)"

record linkage =
  lk_claims :: "(string, claim) dict"
  lk_by_chunk :: "(string, string list) dict"
  lk_by_subject :: "(string, string list) dict"
  lk_contests :: "nomination list"
  lk_supersedes :: "nomination list"
  lk_remap :: "(string, string) dict"

definition link_claims ::
  "resolved \<Rightarrow> fold_state \<Rightarrow> (string, claim) dict \<times> (string, string) dict \<Rightarrow> linkage py" where
  "link_claims rs fs mr =
     (let claims = fst mr; remap = snd mr;
          cs = live_links remap claims (rs_contests rs @ rel_contests claims);
          ss = live_links remap claims (rs_supersedes rs) in
      py_bind (py_fold add_contest (unlinked claims) cs) (\<lambda>c1.
      py_bind (py_fold add_successor c1 ss) (\<lambda>c2.
        Inr \<lparr>lk_claims = c2, lk_by_chunk = relist remap (fs_by_chunk fs), lk_by_subject = relist remap (fs_by_subject fs),
             lk_contests = cs, lk_supersedes = ss, lk_remap = remap\<rparr>)))"

definition dedup_and_link ::
  "(string \<Rightarrow> string) \<Rightarrow> (string \<Rightarrow> string set) \<Rightarrow> (string \<Rightarrow> string \<Rightarrow> bool) option \<Rightarrow> fold_state \<Rightarrow> linkage py option" where
  "dedup_and_link resolve cells near fs =
     after_call (resolve_pairs resolve kind_markers (fs_claims fs) (nominate cells near (fs_claims fs))) (\<lambda>(rs, merged).
       Some (py_bind (apply_merges (fs_claims fs) merged) (link_claims rs fs)))"

section \<open>From the fold to the claim table of a build\<close>

text \<open>A removal seen from several editions is one claim with every source.\<close>

definition add_removal :: "(string, claim) dict \<Rightarrow> claim \<Rightarrow> (string, claim) dict" where
  "add_removal t c =
     (case dget t (cl_id c) of
        None \<Rightarrow> dset (cl_id c) c t
      | Some p \<Rightarrow> dset (cl_id c) (p\<lparr>cl_occs := cl_occs p @ cl_occs c, cl_visible_in := union_sorted (cl_visible_in p) (cl_visible_in c),
            cl_sources := union_sorted (cl_sources p) (cl_sources c),
            cl_n_sources := length (union_sorted (cl_sources p) (cl_sources c))\<rparr>) t)"

definition seen_from :: "claim \<Rightarrow> claim" where
  "seen_from c = c\<lparr>cl_visible_in := (if cl_visible_in c = [] then sort (remdups (List.map oc_doc (cl_occs c))) else cl_visible_in c)\<rparr>"

definition aliased_subject :: "(string, string) dict \<Rightarrow> string \<Rightarrow> string" where
  "aliased_subject aliases subj =
     (let ns = takeWhile (\<lambda>c. c \<noteq> CHR '':'') subj; key = drop (length ns + 1) subj in
      if CHR '':'' \<notin> set subj then subj
      else case dget aliases (py_lower key) of
          None \<Rightarrow> subj
        | Some key2 \<Rightarrow> if key2 \<noteq> [] \<and> key2 \<noteq> key then ns @ CHR '':'' # key2 else subj)"

definition apply_aliases :: "(string, string) dict \<Rightarrow> fold_state \<Rightarrow> fold_state" where
  "apply_aliases aliases fs =
     (if aliases = [] then fs
      else let t = List.map (\<lambda>(k, c). (k, c\<lparr>cl_subject := aliased_subject aliases (cl_subject c)\<rparr>)) (fs_claims fs) in
        fs\<lparr>fs_claims := t,
           fs_by_subject := foldl (\<lambda>d (k, c). if cl_subject c = [] then d
               else dset (cl_subject c) (dget_or d (cl_subject c) [] @ [k]) d) [] t\<rparr>)"

definition prepare_claims :: "(string, string) dict \<Rightarrow> claim list \<Rightarrow> fold_state \<Rightarrow> fold_state" where
  "prepare_claims aliases removed fs =
     apply_aliases aliases (fs\<lparr>fs_claims := List.map (\<lambda>(k, c). (k, seen_from c)) (foldl add_removal (fs_claims fs) removed)\<rparr>)"

text \<open>The node of a mention: through the aliases, then the first cell of the mention or of its last word.\<close>

definition resolve_mention :: "(string, string) dict \<Rightarrow> (string, string list) dict \<Rightarrow> string \<Rightarrow> string" where
  "resolve_mention aliases assign mention =
     (let m0 = py_lower (py_strip (join '' '' (words_from [] mention)));
          m = dget_or aliases m0 m0;
          ws = words_from [] m;
          a = (case dget_or assign m [] of [] \<Rightarrow> dget_or assign (if ws = [] then m else last ws) [] | c # cs \<Rightarrow> c # cs)
      in case a of [] \<Rightarrow> m | c # cs \<Rightarrow> ''cell:'' @ c)"

definition build_claims ::
  "(string, string) dict \<Rightarrow> (string, string list) dict \<Rightarrow> (string \<Rightarrow> string set) \<Rightarrow> (string \<Rightarrow> string \<Rightarrow> bool) option
    \<Rightarrow> fold_state \<Rightarrow> claim list \<Rightarrow> linkage py option" where
  "build_claims aliases assign cells near fs removed =
     dedup_and_link (resolve_mention aliases assign) cells near (prepare_claims aliases removed fs)"

section \<open>Which claims become one\<close>

definition named_in :: "(string, claim) dict \<Rightarrow> nomination list \<Rightarrow> bool" where
  "named_in claims noms = list_all (\<lambda>(a, b, t). dget claims a \<noteq> None \<and> dget claims b \<noteq> None) noms"

definition judged ::
  "(string \<Rightarrow> string) \<Rightarrow> (string \<Rightarrow> string list) \<Rightarrow> (string, claim) dict \<Rightarrow> string \<Rightarrow> string \<Rightarrow> dedup_verdict option" where
  "judged resolve markers claims a b =
     (case (dget claims a, dget claims b) of
        (Some ca, Some cb) \<Rightarrow> Some (equivalent resolve (markers (cl_kind ca)) ca cb)
      | _ \<Rightarrow> None)"

definition merge_pairs ::
  "(string \<Rightarrow> string) \<Rightarrow> (string \<Rightarrow> string list) \<Rightarrow> (string, claim) dict \<Rightarrow> nomination list \<Rightarrow> (string \<times> string) list" where
  "merge_pairs resolve markers claims noms =
     List.map (\<lambda>(a, b, t). (a, b)) (filter (\<lambda>(a, b, t). judged resolve markers claims a b = Some Merge) noms)"

lemma resolve_fold:
  assumes "named_in claims noms" "union_pairs (rs_uf s) (merge_pairs resolve markers claims noms) = Some (Inr p)"
  shows "\<exists>s'. call_fold (resolve_step resolve markers claims) s noms = Some (Inr s') \<and> rs_uf s' = p"
  using assms
proof (induction noms arbitrary: s)
  case (Cons n noms)
  obtain a b t where n: "n = (a, b, t)" by (cases n)
  obtain ca cb where c: "dget claims a = Some ca" "dget claims b = Some cb"
    using Cons.prems(1) by (auto simp: n named_in_def)
  have rest: "named_in claims noms" using Cons.prems(1) by (simp add: named_in_def)
  show ?case
  proof (cases "equivalent resolve (markers (cl_kind ca)) ca cb = Merge")
    case True
    then have mp: "merge_pairs resolve markers claims (n # noms) = (a, b) # merge_pairs resolve markers claims noms"
      by (simp add: n merge_pairs_def judged_def c)
    obtain p1 where p1: "union_step (rs_uf s) a b = Some (Inr p1)" "union_pairs p1 (merge_pairs resolve markers claims noms) = Some (Inr p)"
      using Cons.prems(2) unfolding mp by (auto simp: after_call_def split: option.splits sum.splits)
    show ?thesis
      using Cons.IH [OF rest, of "s\<lparr>rs_uf := p1, rs_merged_pairs := rs_merged_pairs s + 1\<rparr>"] p1 True
      by (simp add: n resolve_step_def c)
  next
    case False
    then have mp: "merge_pairs resolve markers claims (n # noms) = merge_pairs resolve markers claims noms"
      by (simp add: n merge_pairs_def judged_def c)
    obtain s1 where "resolve_step resolve markers claims s n = Some (Inr s1)" "rs_uf s1 = rs_uf s"
      using False by (cases "equivalent resolve (markers (cl_kind ca)) ca cb") (auto simp: n resolve_step_def c)
    then show ?thesis using Cons.IH [OF rest, of s1] Cons.prems(2) unfolding mp by simp
  qed
qed (simp add: merge_pairs_def)

lemma union_step_dom:
  assumes "forest f p rep" "union_step p a b = Some (Inr p')"
  shows "dget p' k = None \<longleftrightarrow> k \<noteq> a \<and> k \<noteq> b \<and> dget p k = None"
proof -
  obtain p1 where p1: "find_root p a = Some (Inr (p1, rep a))" "forest f p1 rep" "\<forall>k. dget p1 k = None \<longleftrightarrow> k \<noteq> a \<and> dget p k = None"
    using find_correct [OF assms(1)] by blast
  obtain p2 where p2: "find_root p1 b = Some (Inr (p2, rep b))" "forest f p2 rep" "\<forall>k. dget p2 k = None \<longleftrightarrow> k \<noteq> b \<and> dget p1 k = None"
    using find_correct [OF p1(2)] by blast
  have "dget p2 (rep b) \<noteq> None" using forest_idem [OF p2(2), of b] p2(3) by simp
  moreover have "p' = (if rep a \<noteq> rep b then dset (rep b) (rep a) p2 else p2)"
    using assms(2) p1(1) p2(1) by (simp add: union_step_def split: if_splits)
  ultimately show ?thesis using p1(3) p2(3) by auto
qed

lemma union_pairs_dom:
  assumes "forest f p rep" "union_pairs p qs = Some (Inr p')"
  shows "dget p' k = None \<longleftrightarrow> dget p k = None \<and> k \<notin> fst ` set qs \<and> k \<notin> snd ` set qs"
  using assms
proof (induction qs arbitrary: f p rep)
  case (Cons q qs)
  obtain a b where q: "q = (a, b)" by (cases q)
  obtain f1 p1 where u: "union_step p a b = Some (Inr p1)" "forest f1 p1 (joined rep a b)"
    using union_correct [OF Cons.prems(1)] by blast
  show ?case
    using Cons.IH [OF u(2)] Cons.prems(2) u(1) union_step_dom [OF Cons.prems(1) u(1), of k] by (auto simp: q)
qed simp

lemma group_claims_correct:
  assumes "forest f p rep"
  shows "\<exists>g. group_claims p ids g0 = Some (Inr g)
    \<and> (\<forall>r. dget_or g r [] = dget_or g0 r [] @ filter (\<lambda>x. dget p x \<noteq> None \<and> rep x = r) ids)
    \<and> (distinct (dkeys g0) \<longrightarrow> distinct (dkeys g))"
  using assms
proof (induction ids arbitrary: p g0)
  case (Cons x ids)
  show ?case
  proof (cases "dget p x = None")
    case True
    then show ?thesis using Cons.IH [OF Cons.prems, of g0] by simp
  next
    case False
    obtain p' where p': "find_root p x = Some (Inr (p', rep x))" "forest f p' rep" "\<forall>k. dget p' k = None \<longleftrightarrow> k \<noteq> x \<and> dget p k = None"
      using find_correct [OF Cons.prems] by blast
    have dom: "dget p' k \<noteq> None \<longleftrightarrow> dget p k \<noteq> None" for k using p'(3) False by auto
    show ?thesis
      using Cons.IH [OF p'(2), of "dset (rep x) (dget_or g0 (rep x) [] @ [x]) g0"] p'(1) False unfolding dom by auto
  qed
qed simp

lemma linked_names: "linked ps x y \<Longrightarrow> x = y \<or> (x \<in> fst ` set ps \<union> snd ` set ps \<and> y \<in> fst ` set ps \<union> snd ` set ps)"
  unfolding linked_def by (induction rule: equivclp_induct) (force)+

text \<open>A grouping of names: no name in two groups, each group named by one of its own and of two at least.\<close>

definition grouping :: "string set \<Rightarrow> (string, string list) dict \<Rightarrow> bool" where
  "grouping names g =
     (distinct (dkeys g)
      \<and> (\<forall>r ids. (r, ids) \<in> set g \<longrightarrow> r \<in> set ids \<and> distinct ids \<and> 1 < length ids \<and> set ids \<subseteq> names)
      \<and> (\<forall>r ids r2 ids2. (r, ids) \<in> set g \<and> (r2, ids2) \<in> set g \<and> r \<noteq> r2 \<longrightarrow> set ids \<inter> set ids2 = {}))"

definition together :: "(string, string list) dict \<Rightarrow> string \<Rightarrow> string \<Rightarrow> bool" where
  "together g x y = list_ex (\<lambda>(r, ids). x \<in> set ids \<and> y \<in> set ids) g"

lemma resolve_correct:
  assumes d: "distinct (dkeys claims)" and n: "named_in claims noms"
  shows "\<exists>s merged. resolve_pairs resolve markers claims noms = Some (Inr (s, merged)) \<and> grouping (set (dkeys claims)) merged
    \<and> (\<forall>x y. x \<noteq> y \<longrightarrow> (together merged x y \<longleftrightarrow> linked (merge_pairs resolve markers claims noms) x y))"
proof -
  let ?q = "merge_pairs resolve markers claims noms"
  have f0: "forest (\<lambda>_. 0) [] (\<lambda>x. x)" by (simp add: forest_def)
  have e0: "x = y \<longleftrightarrow> linked [] x y" for x y using linked_kernel [of "[]" "\<lambda>x. x" x y] by auto
  obtain f p rep where u: "union_pairs [] ?q = Some (Inr p)" "forest f p rep" "\<forall>x y. rep x = rep y \<longleftrightarrow> linked ?q x y"
    using union_pairs_correct [OF f0 e0, of ?q] unfolding append_Nil by blast
  have dom: "dget p k \<noteq> None \<longleftrightarrow> k \<in> fst ` set ?q \<union> snd ` set ?q" for k
    using union_pairs_dom [OF f0 u(1), of k] by simp
  have sub: "k \<in> set (dkeys claims)" if "dget p k \<noteq> None" for k
    using that n unfolding dom by (auto simp: merge_pairs_def named_in_def list_all_iff map_of_eq_None_iff)
  obtain s where s: "call_fold (resolve_step resolve markers claims) empty_resolved noms = Some (Inr s)" "rs_uf s = p"
    using resolve_fold [OF n, of empty_resolved resolve markers p] u(1) by (auto simp: empty_resolved_def)
  let ?grp = "\<lambda>r. filter (\<lambda>x. dget p x \<noteq> None \<and> rep x = r) (dkeys claims)"
  obtain g where g: "group_claims p (dkeys claims) [] = Some (Inr g)" "\<forall>r. dget_or g r [] = ?grp r" "distinct (dkeys g)"
    using group_claims_correct [OF u(2), of "dkeys claims" "[]"] by auto
  let ?m = "filter (\<lambda>(r, ids). 1 < length ids) g"
  have mem: "(r, ids) \<in> set ?m \<longleftrightarrow> ids = ?grp r \<and> 1 < length ids" for r ids
  proof -
    have gr: "(case dget g r of None \<Rightarrow> [] | Some l \<Rightarrow> l) = ?grp r" using g(2) by (simp add: dget_or_def)
    have in_m: "(r, ids) \<in> set ?m \<longleftrightarrow> dget g r = Some ids \<and> 1 < length ids" using in_set_dget [OF g(3), of r ids] by simp
    show ?thesis unfolding in_m gr [symmetric] by (auto split: option.splits)
  qed
  have dm: "distinct (dkeys ?m)" using g(3) by (simp add: distinct_map_filter)
  have root: "r \<in> set (?grp r)" if ne: "?grp r \<noteq> []" for r
  proof -
    obtain x where x: "x \<in> set (?grp r)" using last_in_set [OF ne] by blast
    then have "dget p x \<noteq> None" "rep x = r" by auto
    then have "rep r = r" "dget p r \<noteq> None" using forest_idem [OF u(2), of x] by auto
    then show ?thesis using sub by auto
  qed
  have gr: "grouping (set (dkeys claims)) ?m"
    unfolding grouping_def mem
  proof (intro conjI allI impI)
    show "distinct (dkeys ?m)" by (rule dm)
    fix r ids assume a: "ids = ?grp r \<and> 1 < length ids"
    then have ids: "ids = ?grp r" and two: "1 < length ids" by blast+
    from two have "?grp r \<noteq> []" unfolding ids by (metis less_nat_zero_code list.size(3))
    then show "r \<in> set ids" unfolding ids by (rule root)
    show "distinct ids" unfolding ids using d by (rule distinct_filter)
    show "1 < length ids" by (rule two)
    show "set ids \<subseteq> set (dkeys claims)" unfolding ids set_filter by blast
  next
    fix r ids r2 ids2 assume "(ids = ?grp r \<and> 1 < length ids) \<and> (ids2 = ?grp r2 \<and> 1 < length ids2) \<and> r \<noteq> r2"
    then have ids: "ids = ?grp r" "ids2 = ?grp r2" and ne: "r \<noteq> r2" by blast+
    show "set ids \<inter> set ids2 = {}" unfolding ids set_filter using ne by blast
  qed
  have tog: "together ?m x y \<longleftrightarrow> linked ?q x y" if xy: "x \<noteq> y" for x y
  proof
    assume "together ?m x y"
    then obtain r ids where "(r, ids) \<in> set ?m" "x \<in> set ids" "y \<in> set ids" by (auto simp: together_def list_ex_iff)
    then have "rep x = rep y" unfolding mem by auto
    then show "linked ?q x y" using u(3) by simp
  next
    assume l: "linked ?q x y"
    then have "dget p x \<noteq> None" "dget p y \<noteq> None" using linked_names [OF l] xy unfolding dom by blast+
    then have in_grp: "x \<in> set (?grp (rep x))" "y \<in> set (?grp (rep x))" using sub u(3) l linked_sym [OF l] by auto
    have "1 < length (?grp (rep x))"
    proof -
      have "{x, y} \<subseteq> set (?grp (rep x))" using in_grp by simp
      then have "card {x, y} \<le> length (?grp (rep x))" by (meson card_length card_mono finite_set le_trans)
      then show ?thesis using xy by simp
    qed
    then have "(rep x, ?grp (rep x)) \<in> set ?m" unfolding mem by simp
    then show "together ?m x y" using in_grp unfolding together_def list_ex_iff by blast
  qed
  have "resolve_pairs resolve markers claims noms = Some (Inr (s, ?m))" using s g(1) by (simp add: resolve_pairs_def)
  then show ?thesis using gr tog by blast
qed

section \<open>Merging loses no statement\<close>

definition all_statements :: "(string, claim) dict \<Rightarrow> occurrence multiset" where
  "all_statements claims = mset (concat (List.map (cl_occs \<circ> snd) claims))"

lemma statements_dset:
  assumes "dget t k = Some c0"
  shows "all_statements (dset k c t) + mset (cl_occs c0) = all_statements t + mset (cl_occs c)"
  using assms by (induction t) (auto simp: all_statements_def split: if_splits)

lemma statements_dpop:
  assumes "distinct (dkeys t)" "dget t k = Some c0"
  shows "all_statements t = all_statements (dpop k t) + mset (cl_occs c0)"
  using assms
proof (induction t)
  case (Cons p t)
  show ?case
  proof (cases "fst p = k")
    case True
    then have "k \<notin> fst ` set t" using Cons.prems(1) by auto
    then have "dpop k t = t" by (rule delete_id)
    then show ?thesis using True Cons.prems(2) by (simp add: all_statements_def)
  next
    case False
    then show ?thesis using Cons by (auto simp: all_statements_def)
  qed
qed simp

definition sound_claims :: "(string, claim) dict \<Rightarrow> bool" where
  "sound_claims t = (distinct (dkeys t) \<and> (\<forall>k c. dget t k = Some c \<longrightarrow> cl_occs c \<noteq> []))"

lemma absorb_fold:
  assumes "sound_claims t" "dget t r \<noteq> None" "distinct ids" "set ids \<subseteq> set (dkeys t)"
  shows "\<exists>t' m'. py_fold (absorb r) (t, m) ids = Inr (t', m') \<and> sound_claims t' \<and> all_statements t' = all_statements t
    \<and> (\<forall>x. dget t' x = None \<longleftrightarrow> dget t x = None \<or> x \<in> set ids \<and> x \<noteq> r)
    \<and> (\<forall>x. dget m' x = (if x \<in> set ids \<and> x \<noteq> r then Some r else dget m x))"
  using assms
proof (induction ids arbitrary: t m)
  case (Cons x ids)
  show ?case
  proof (cases "x = r")
    case True
    then have "\<exists>t' m'. py_fold (absorb r) (t, m) ids = Inr (t', m') \<and> sound_claims t' \<and> all_statements t' = all_statements t
      \<and> (\<forall>x. dget t' x = None \<longleftrightarrow> dget t x = None \<or> x \<in> set ids \<and> x \<noteq> r)
      \<and> (\<forall>x. dget m' x = (if x \<in> set ids \<and> x \<noteq> r then Some r else dget m x))"
      using Cons.IH [OF Cons.prems(1,2), of m] Cons.prems(3,4) by simp
    moreover have "py_fold (absorb r) (t, m) (x # ids) = py_fold (absorb r) (t, m) ids" using True by (simp add: absorb_def)
    ultimately show ?thesis using True by auto
  next
    case False
    have d: "distinct (dkeys t)" using Cons.prems(1) by (simp add: sound_claims_def)
    obtain keep c where kc: "dget t r = Some keep" "dget t x = Some c"
    proof -
      have "dget t x \<noteq> None" using Cons.prems(4) by (auto simp: map_of_eq_None_iff)
      then show thesis using that Cons.prems(2) by blast
    qed
    let ?t = "dset r (merge_into x c keep) (dpop x t)"
    have st: "all_statements ?t = all_statements t"
    proof -
      have "dget (dpop x t) r = Some keep" using kc(1) False by simp
      from statements_dset [OF this, of "merge_into x c keep"] show ?thesis
        using statements_dpop [OF d kc(2)] by (simp add: merge_into_def)
    qed
    have snd: "sound_claims ?t"
      using Cons.prems(1) kc by (auto simp: sound_claims_def merge_into_def)
    have sub: "set ids \<subseteq> set (dkeys ?t)"
    proof
      fix y assume "y \<in> set ids"
      then have "y \<noteq> x" "dget t y \<noteq> None" using Cons.prems(3,4) by (auto simp: map_of_eq_None_iff)
      then have "dget ?t y \<noteq> None" by simp
      then show "y \<in> set (dkeys ?t)" by (metis list.set_map map_of_eq_None_iff)
    qed
    obtain t' m' where r: "py_fold (absorb r) (?t, dset x r m) ids = Inr (t', m')" "sound_claims t'"
      "all_statements t' = all_statements ?t" "\<forall>y. dget t' y = None \<longleftrightarrow> dget ?t y = None \<or> y \<in> set ids \<and> y \<noteq> r"
      "\<forall>y. dget m' y = (if y \<in> set ids \<and> y \<noteq> r then Some r else dget (dset x r m) y)"
      using Cons.IH [OF snd _ _ sub, of "dset x r m"] Cons.prems(3) by auto
    have "py_fold (absorb r) (t, m) (x # ids) = Inr (t', m')" using r(1) kc False by (simp add: absorb_def)
    moreover have "dget t' y = None \<longleftrightarrow> dget t y = None \<or> y \<in> set (x # ids) \<and> y \<noteq> r" for y
      using r(4) kc False by auto
    moreover have "dget m' y = (if y \<in> set (x # ids) \<and> y \<noteq> r then Some r else dget m y)" for y
      using r(5) False by auto
    ultimately show ?thesis using r(2,3) st by auto
  qed
qed simp

lemma merge_group_correct:
  assumes "sound_claims t" "r \<in> set ids" "distinct ids" "set ids \<subseteq> set (dkeys t)"
  shows "\<exists>t' m'. merge_group (t, m) (r, ids) = Inr (t', m') \<and> sound_claims t' \<and> all_statements t' = all_statements t
    \<and> (\<forall>x. dget t' x = None \<longleftrightarrow> dget t x = None \<or> x \<in> set ids \<and> x \<noteq> r)
    \<and> (\<forall>x. dget m' x = (if x \<in> set ids \<and> x \<noteq> r then Some r else dget m x))"
proof -
  have r: "dget t r \<noteq> None" using assms(2,4) by (auto simp: map_of_eq_None_iff)
  obtain t' m' where f: "py_fold (absorb r) (t, m) ids = Inr (t', m')" "sound_claims t'" "all_statements t' = all_statements t"
    "\<forall>x. dget t' x = None \<longleftrightarrow> dget t x = None \<or> x \<in> set ids \<and> x \<noteq> r"
    "\<forall>x. dget m' x = (if x \<in> set ids \<and> x \<noteq> r then Some r else dget m x)"
    using absorb_fold [OF assms(1) r assms(3,4)] by blast
  obtain keep where k: "dget t' r = Some keep" "cl_occs keep \<noteq> []"
  proof -
    have "dget t' r \<noteq> None" using f(4) r by simp
    then show thesis using that f(2) unfolding sound_claims_def by blast
  qed
  obtain c where c: "settle keep = Inr c" "cl_occs c = cl_occs keep" using k(2) by (simp add: settle_def)
  have "merge_group (t, m) (r, ids) = Inr (dset r c t', m')" using f(1) k(1) c(1) r by (auto simp: merge_group_def)
  moreover have "sound_claims (dset r c t')" using f(2) c(2) k by (auto simp: sound_claims_def)
  moreover have "all_statements (dset r c t') = all_statements t" using statements_dset [OF k(1), of c] c(2) f(3) by simp
  ultimately show ?thesis using f(4,5) r by auto
qed

text \<open>Every claim of a group but the one that names it goes into the latter.\<close>

definition absorbed :: "(string, string list) dict \<Rightarrow> string \<Rightarrow> string \<Rightarrow> bool" where
  "absorbed g x r = (\<exists>ids. (r, ids) \<in> set g \<and> x \<in> set ids \<and> x \<noteq> r)"

lemma absorbed_Nil [simp]: "absorbed [] = (\<lambda>_ _. False)"
  by (simp add: absorbed_def fun_eq_iff)

lemma apply_fold:
  assumes "sound_claims t" "grouping (set (dkeys t)) g"
  shows "\<exists>t' m'. py_fold merge_group (t, m) g = Inr (t', m') \<and> sound_claims t' \<and> all_statements t' = all_statements t
    \<and> (\<forall>x. dget t' x = None \<longleftrightarrow> dget t x = None \<or> (\<exists>r. absorbed g x r))
    \<and> (\<forall>x. (\<forall>r. absorbed g x r \<longrightarrow> dget m' x = Some r) \<and> ((\<nexists>r. absorbed g x r) \<longrightarrow> dget m' x = dget m x))"
  using assms
proof (induction g arbitrary: t m)
  case (Cons p g)
  obtain r ids where p: "p = (r, ids)" by (cases p)
  have p1: "r \<in> set ids" "distinct ids" "set ids \<subseteq> set (dkeys t)" and r: "r \<notin> set (dkeys g)"
    using Cons.prems(2) by (auto simp: grouping_def p)
  have apart: "set ids \<inter> set ids2 = {}" if "(r2, ids2) \<in> set g" for r2 ids2
  proof -
    have "r2 \<noteq> r" using that r by force
    then show ?thesis using Cons.prems(2) that unfolding grouping_def p by (metis list.set_intros)
  qed
  obtain t1 m1 where f: "merge_group (t, m) (r, ids) = Inr (t1, m1)" "sound_claims t1" "all_statements t1 = all_statements t"
    "\<forall>x. dget t1 x = None \<longleftrightarrow> dget t x = None \<or> x \<in> set ids \<and> x \<noteq> r"
    "\<forall>x. dget m1 x = (if x \<in> set ids \<and> x \<noteq> r then Some r else dget m x)"
    using merge_group_correct [OF Cons.prems(1) p1] by blast
  have keys: "x \<in> set (dkeys t1) \<longleftrightarrow> x \<in> set (dkeys t) \<and> \<not> (x \<in> set ids \<and> x \<noteq> r)" for x
    using f(4) [rule_format, of x] by (auto simp: map_of_eq_None_iff)
  have g1: "grouping (set (dkeys t1)) g"
    unfolding grouping_def
  proof (intro conjI allI impI)
    show "distinct (dkeys g)" using Cons.prems(2) by (simp add: grouping_def)
    fix r2 ids2 assume m: "(r2, ids2) \<in> set g"
    then have g2: "r2 \<in> set ids2 \<and> distinct ids2 \<and> 1 < length ids2 \<and> set ids2 \<subseteq> set (dkeys t)"
      using Cons.prems(2) unfolding grouping_def by (metis list.set_intros(2))
    then show "r2 \<in> set ids2" "distinct ids2" "1 < length ids2" by simp_all
    show "set ids2 \<subseteq> set (dkeys t1)" using g2 apart [OF m] keys by blast
  next
    fix r2 ids2 r3 ids3 assume "(r2, ids2) \<in> set g \<and> (r3, ids3) \<in> set g \<and> r2 \<noteq> r3"
    then show "set ids2 \<inter> set ids3 = {}" using Cons.prems(2) unfolding grouping_def by (metis list.set_intros(2))
  qed
  obtain t' m' where h: "py_fold merge_group (t1, m1) g = Inr (t', m')" "sound_claims t'" "all_statements t' = all_statements t1"
    "\<forall>x. dget t' x = None \<longleftrightarrow> dget t1 x = None \<or> (\<exists>r. absorbed g x r)"
    "\<forall>x. (\<forall>r. absorbed g x r \<longrightarrow> dget m' x = Some r) \<and> ((\<nexists>r. absorbed g x r) \<longrightarrow> dget m' x = dget m1 x)"
    using Cons.IH [OF f(2) g1] by blast
  have ab: "absorbed (p # g) x r2 \<longleftrightarrow> (r2 = r \<and> x \<in> set ids \<and> x \<noteq> r) \<or> absorbed g x r2" for x r2
    by (auto simp: absorbed_def p)
  have ab2: "x \<notin> set ids" if "absorbed g x r2" for x r2 using that apart by (auto simp: absorbed_def)
  have "py_fold merge_group (t, m) (p # g) = Inr (t', m')" using f(1) h(1) by (simp add: p)
  moreover have "dget t' x = None \<longleftrightarrow> dget t x = None \<or> (\<exists>r. absorbed (p # g) x r)" for x
    unfolding ab using h(4) [rule_format, of x] f(4) [rule_format, of x] by metis
  moreover have "(\<forall>r2. absorbed (p # g) x r2 \<longrightarrow> dget m' x = Some r2) \<and> ((\<nexists>r2. absorbed (p # g) x r2) \<longrightarrow> dget m' x = dget m x)" for x
  proof (cases "x \<in> set ids \<and> x \<noteq> r")
    case True
    then have "\<nexists>r2. absorbed g x r2" using ab2 by blast
    then show ?thesis using h(5) f(5) True unfolding ab by auto
  next
    case False
    then show ?thesis using h(5) f(5) unfolding ab by auto
  qed
  ultimately show ?case using h(2,3) f(3) by auto
qed simp

section \<open>Links name claims that are there, on both sides\<close>

text \<open>The other ends of a claim's contests, in the order the links add them.\<close>

fun partners :: "nomination list \<Rightarrow> string \<Rightarrow> string list" where
  "partners [] k = []"
| "partners ((a, b, t) # xs) k = (if k = a then [b] else []) @ (if k = b then [a] else []) @ partners xs k"

lemma in_partners: "y \<in> set (partners xs x) \<longleftrightarrow> (\<exists>t. (x, y, t) \<in> set xs \<or> (y, x, t) \<in> set xs)"
  by (induction xs x rule: partners.induct) auto

definition present :: "(string, claim) dict \<Rightarrow> nomination list \<Rightarrow> bool" where
  "present claims xs = list_all (\<lambda>(a, b, t). a \<noteq> b \<and> dget claims a \<noteq> None \<and> dget claims b \<noteq> None) xs"

lemma add_contests:
  assumes "present t xs"
  shows "\<exists>t'. py_fold add_contest t xs = Inr t'
    \<and> (\<forall>k. dget t' k = map_option (\<lambda>c. c\<lparr>cl_contests := cl_contests c @ partners xs k\<rparr>) (dget t k))"
  using assms
proof (induction xs arbitrary: t)
  case Nil
  then show ?case by (simp add: option.map_ident_strong)
next
  case (Cons x xs)
  obtain a b l where x: "x = (a, b, l)" by (cases x)
  obtain ca cb where c: "dget t a = Some ca" "dget t b = Some cb" and ab: "a \<noteq> b"
    using Cons.prems by (auto simp: present_def x)
  let ?t = "dset b (cb\<lparr>cl_contests := cl_contests cb @ [a]\<rparr>) (dset a (ca\<lparr>cl_contests := cl_contests ca @ [b]\<rparr>) t)"
  have step: "add_contest t x = Inr ?t" using c ab by (simp add: add_contest_def x change_claim_def)
  have "dget ?t k \<noteq> None \<longleftrightarrow> dget t k \<noteq> None" for k using c by auto
  then have pr: "present ?t xs" using Cons.prems unfolding present_def list_all_iff by auto
  obtain t' where t': "py_fold add_contest ?t xs = Inr t'"
    "\<forall>k. dget t' k = map_option (\<lambda>c. c\<lparr>cl_contests := cl_contests c @ partners xs k\<rparr>) (dget ?t k)"
    using Cons.IH [OF pr] by blast
  have "dget t' k = map_option (\<lambda>c. c\<lparr>cl_contests := cl_contests c @ partners (x # xs) k\<rparr>) (dget t k)" for k
    unfolding t'(2) [rule_format] using c ab by (auto simp: x)
  then show ?case using step t'(1) by auto
qed

fun successor :: "nomination list \<Rightarrow> string \<Rightarrow> string option \<Rightarrow> string option" where
  "successor [] k s = s"
| "successor ((a, b, t) # xs) k s = successor xs k (if k = a then Some b else s)"

lemma successor_from: "successor xs k s = s \<or> (\<exists>b t. successor xs k s = Some b \<and> (k, b, t) \<in> set xs)"
  by (induction xs k s rule: successor.induct) (auto split: if_splits)

lemma add_successors:
  assumes "present t xs"
  shows "\<exists>t'. py_fold add_successor t xs = Inr t'
    \<and> (\<forall>k. dget t' k = map_option (\<lambda>c. c\<lparr>cl_superseded_by := successor xs k (cl_superseded_by c)\<rparr>) (dget t k))"
  using assms
proof (induction xs arbitrary: t)
  case Nil
  then show ?case by (simp add: option.map_ident_strong)
next
  case (Cons x xs)
  obtain a b l where x: "x = (a, b, l)" by (cases x)
  obtain ca where c: "dget t a = Some ca" using Cons.prems by (auto simp: present_def x)
  let ?t = "dset a (ca\<lparr>cl_superseded_by := Some b\<rparr>) t"
  have step: "add_successor t x = Inr ?t" using c by (simp add: add_successor_def x change_claim_def)
  have "dget ?t k \<noteq> None \<longleftrightarrow> dget t k \<noteq> None" for k using c by auto
  then have pr: "present ?t xs" using Cons.prems unfolding present_def list_all_iff by auto
  obtain t' where t': "py_fold add_successor ?t xs = Inr t'"
    "\<forall>k. dget t' k = map_option (\<lambda>c. c\<lparr>cl_superseded_by := successor xs k (cl_superseded_by c)\<rparr>) (dget ?t k)"
    using Cons.IH [OF pr] by blast
  have "dget t' k = map_option (\<lambda>c. c\<lparr>cl_superseded_by := successor (x # xs) k (cl_superseded_by c)\<rparr>) (dget t k)" for k
    unfolding t'(2) [rule_format] using c by (auto simp: x)
  then show ?case using step t'(1) by auto
qed

lemma live_links_present:
  assumes "\<And>k. dget t k = None \<longleftrightarrow> dget claims k = None"
  shows "present t (live_links m claims xs)"
  using assms by (auto simp: present_def live_links_def list_all_iff)

lemma dget_unlinked: "dget (unlinked t) k = map_option (\<lambda>c. c\<lparr>cl_contests := [], cl_superseded_by := None\<rparr>) (dget t k)"
  unfolding unlinked_def by (rule dget_map_value)

lemma link_claims_correct:
  "\<exists>lk. link_claims rs fs (t, m) = Inr lk \<and> lk_remap lk = m
    \<and> lk_contests lk = live_links m t (rs_contests rs @ rel_contests t) \<and> lk_supersedes lk = live_links m t (rs_supersedes rs)
    \<and> lk_by_chunk lk = relist m (fs_by_chunk fs) \<and> lk_by_subject lk = relist m (fs_by_subject fs)
    \<and> (\<forall>k. dget (lk_claims lk) k = map_option (\<lambda>c. c\<lparr>cl_contests := partners (lk_contests lk) k,
         cl_superseded_by := successor (lk_supersedes lk) k None\<rparr>) (dget t k))"
proof -
  let ?cs = "live_links m t (rs_contests rs @ rel_contests t)" and ?ss = "live_links m t (rs_supersedes rs)"
  have "present (unlinked t) ?cs" by (rule live_links_present) (simp add: dget_unlinked)
  then obtain t1 where t1: "py_fold add_contest (unlinked t) ?cs = Inr t1"
    "\<forall>k. dget t1 k = map_option (\<lambda>c. c\<lparr>cl_contests := cl_contests c @ partners ?cs k\<rparr>) (dget (unlinked t) k)"
    using add_contests by blast
  have "present t1 ?ss" by (rule live_links_present) (simp add: t1(2) dget_unlinked)
  then obtain t2 where t2: "py_fold add_successor t1 ?ss = Inr t2"
    "\<forall>k. dget t2 k = map_option (\<lambda>c. c\<lparr>cl_superseded_by := successor ?ss k (cl_superseded_by c)\<rparr>) (dget t1 k)"
    using add_successors by blast
  have "dget t2 k = map_option (\<lambda>c. c\<lparr>cl_contests := partners ?cs k, cl_superseded_by := successor ?ss k None\<rparr>) (dget t k)" for k
    by (simp add: t2(2) t1(2) dget_unlinked option.map_comp comp_def)
  then show ?thesis using t1(1) t2(1) by (simp add: link_claims_def Let_def)
qed

lemma change_claim_frame:
  assumes "change_claim k f t = Inr t'" "\<And>c. cl_occs (f c) = cl_occs c"
  shows "dkeys t' = dkeys t \<and> all_statements t' = all_statements t"
proof -
  obtain c where c: "dget t k = Some c" "t' = dset k (f c) t"
    using assms(1) by (auto simp: change_claim_def split: option.splits)
  have "k \<in> set (dkeys t)" using dget_Some_in_set [OF c(1)] by force
  then show ?thesis using c statements_dset [OF c(1), of "f c"] assms(2) by (simp add: dkeys_dset)
qed

lemma add_contest_frame:
  "add_contest t x = Inr t' \<Longrightarrow> dkeys t' = dkeys t \<and> all_statements t' = all_statements t"
  by (cases x) (auto simp: add_contest_def py_bind_eq_Inr dest!: change_claim_frame)

lemma add_successor_frame:
  "add_successor t x = Inr t' \<Longrightarrow> dkeys t' = dkeys t \<and> all_statements t' = all_statements t"
  by (cases x) (auto simp: add_successor_def dest!: change_claim_frame)

lemma link_claims_frame:
  assumes "link_claims rs fs (t, m) = Inr lk"
  shows "dkeys (lk_claims lk) = dkeys t \<and> all_statements (lk_claims lk) = all_statements t"
proof -
  let ?same = "\<lambda>u. dkeys u = dkeys t \<and> all_statements u = all_statements t"
  have u: "?same (unlinked t)"
    by (simp add: unlinked_def all_statements_def comp_def case_prod_beta cong: map_cong)
  obtain t1 t2 where f: "py_fold add_contest (unlinked t) (lk_contests lk) = Inr t1" "py_fold add_successor t1 (lk_supersedes lk) = Inr t2"
    "lk_claims lk = t2"
    using assms by (auto simp: link_claims_def Let_def py_bind_eq_Inr)
  have "?same t1" by (rule py_fold_invariant [OF f(1), of ?same]) (use u add_contest_frame in auto)
  then have "?same t2" by (intro py_fold_invariant [OF f(2), of ?same]) (use add_successor_frame in auto)
  then show ?thesis by (simp add: f(3))
qed

section \<open>Nominations name claims\<close>

definition all_in :: "(string, claim) dict \<Rightarrow> string list \<Rightarrow> bool" where
  "all_in t ids = list_all (\<lambda>x. dget t x \<noteq> None) ids"

lemma pairs_of_in: "p \<in> set (pairs_of ids) \<Longrightarrow> fst p \<in> set ids \<and> snd p \<in> set ids"
  by (induction ids) auto

lemma nominate_pairs_named:
  assumes "named_in t acc" "\<And>p. p \<in> set ps \<Longrightarrow> dget t (fst p) \<noteq> None \<and> dget t (snd p) \<noteq> None"
  shows "named_in t (nominate_pairs tier ps acc)"
  using assms unfolding nominate_pairs_def
proof (induction ps arbitrary: acc)
  case (Cons p ps)
  let ?n = "if ordered p \<in> set (List.map (\<lambda>(a, b, t). (a, b)) acc) then acc else acc @ [(fst (ordered p), snd (ordered p), tier)]"
  have "named_in t ?n" using Cons.prems by (auto simp: named_in_def ordered_def)
  then show ?case using Cons by (auto simp: Let_def case_prod_beta)
qed simp

lemma nominate_pairs_in: "named_in t acc \<Longrightarrow> all_in t ids \<Longrightarrow> named_in t (nominate_pairs tier (filter P (pairs_of ids)) acc)"
  by (rule nominate_pairs_named) (auto simp: all_in_def list_all_iff dest: pairs_of_in)

lemma foldl_keeps_on: "P s \<Longrightarrow> (\<And>s x. x \<in> set xs \<Longrightarrow> P s \<Longrightarrow> P (f s x)) \<Longrightarrow> P (foldl f s xs)"
  by (induction xs arbitrary: s) auto

definition lists_in :: "(string, claim) dict \<Rightarrow> ('k, string list) dict \<Rightarrow> bool" where
  "lists_in t d = list_all (\<lambda>p. all_in t (snd p)) d"

lemma lists_in_file:
  assumes "lists_in t d" "dget t x \<noteq> None"
  shows "lists_in t (dset k (dget_or d k [] @ [x]) d)"
  using assms unfolding lists_in_def dget_or_def by (induction d) (auto simp: all_in_def)

lemma lists_in_mem: "lists_in t d \<Longrightarrow> p \<in> set d \<Longrightarrow> all_in t (snd p)"
  by (simp add: lists_in_def list_all_iff)

lemma cell_groups_in: "all_in t ids \<Longrightarrow> lists_in t (cell_groups cells claims ids)"
  unfolding cell_groups_def
proof (rule foldl_keeps_on)
  show "lists_in t []" by (simp add: lists_in_def)
  fix d :: "(string set, string list) dict" and x assume "all_in t ids" "x \<in> set ids" "lists_in t d"
  then have "dget t x \<noteq> None" "lists_in t d" by (auto simp: all_in_def list_all_iff)
  then show "lists_in t (let cs = (case dget claims x of Some c \<Rightarrow> cells (cl_text c) | None \<Rightarrow> {}) in
       if cs = {} then d else dset cs (dget_or d cs [] @ [x]) d)"
    by (simp add: Let_def lists_in_file)
qed

lemma claim_blocks_in: "lists_in t (claim_blocks t)"
  unfolding claim_blocks_def
proof (rule foldl_keeps_on)
  show "lists_in t []" by (simp add: lists_in_def)
  fix d :: "(string, string list) dict" and x assume x: "x \<in> set t" "lists_in t d"
  obtain cid c where p: "x = (cid, c)" by (cases x)
  have "cid \<in> set (dkeys t)" using x(1) p by force
  then have "dget t cid \<noteq> None" by (metis list.set_map map_of_eq_None_iff)
  then show "lists_in t (case x of (cid, c) \<Rightarrow>
      if startswith cid ''rm-'' then d else dset (block_key c) (dget_or d (block_key c) [] @ [cid]) d)"
    using x(2) by (simp add: p lists_in_file)
qed

lemma nominate_block_named:
  assumes "named_in t acc" "all_in t (snd blk)"
  shows "named_in t (nominate_block cells near t acc blk)"
proof -
  have tier2: "named_in t (foldl (\<lambda>acc g. nominate_pairs ''tier2'' (pairs_of (snd g)) acc) acc (cell_groups cells t (snd blk)))"
    using assms(1)
  proof (rule foldl_keeps_on)
    fix acc g assume "g \<in> set (cell_groups cells t (snd blk))" "named_in t acc"
    then show "named_in t (nominate_pairs ''tier2'' (pairs_of (snd g)) acc)"
      using nominate_pairs_in [of t acc "snd g" _ "\<lambda>_. True"] lists_in_mem [OF cell_groups_in [OF assms(2)]] by simp
  qed
  then show ?thesis
    using assms nominate_pairs_in [OF tier2 assms(2)] by (auto simp: nominate_block_def Let_def split: option.splits)
qed

lemma nominate_named: "named_in t (nominate cells near t)"
  unfolding nominate_def
  by (rule foldl_keeps_on) (simp add: named_in_def, blast intro: nominate_block_named lists_in_mem [OF claim_blocks_in])

section \<open>What the merging promises\<close>

lemma sound_keys: "sound_claims t \<Longrightarrow> distinct (dkeys t)"
  by (simp add: sound_claims_def)

lemma dedup_steps:
  assumes "sound_claims (fs_claims fs)"
  obtains s merged t m lk where
    "resolve_pairs resolve kind_markers (fs_claims fs) (nominate cells near (fs_claims fs)) = Some (Inr (s, merged))"
    "grouping (set (dkeys (fs_claims fs))) merged"
    "apply_merges (fs_claims fs) merged = Inr (t, m)" "all_statements t = all_statements (fs_claims fs)"
    "\<And>x. dget t x = None \<longleftrightarrow> dget (fs_claims fs) x = None \<or> (\<exists>r. absorbed merged x r)"
    "\<And>x. dget m x = None \<longleftrightarrow> (\<nexists>r. absorbed merged x r)" "\<And>x r. absorbed merged x r \<Longrightarrow> dget m x = Some r"
    "link_claims s fs (t, m) = Inr lk" "dedup_and_link resolve cells near fs = Some (Inr lk)"
proof -
  obtain s merged where r: "resolve_pairs resolve kind_markers (fs_claims fs) (nominate cells near (fs_claims fs)) = Some (Inr (s, merged))"
    "grouping (set (dkeys (fs_claims fs))) merged"
    using resolve_correct [OF sound_keys [OF assms] nominate_named] by blast
  obtain t m where a: "py_fold merge_group (fs_claims fs, []) merged = Inr (t, m)" "all_statements t = all_statements (fs_claims fs)"
    "\<forall>x. dget t x = None \<longleftrightarrow> dget (fs_claims fs) x = None \<or> (\<exists>r. absorbed merged x r)"
    "\<forall>x. (\<forall>r. absorbed merged x r \<longrightarrow> dget m x = Some r) \<and> ((\<nexists>r. absorbed merged x r) \<longrightarrow> dget m x = dget [] x)"
    using apply_fold [OF assms r(2)] by blast
  obtain lk where l: "link_claims s fs (t, m) = Inr lk" using link_claims_correct by blast
  have "dedup_and_link resolve cells near fs = Some (Inr lk)"
    using r(1) a(1) l by (simp add: dedup_and_link_def apply_merges_def)
  moreover have "dget m x = None \<longleftrightarrow> (\<nexists>r. absorbed merged x r)" for x using a(4) by (metis map_of.simps(1) option.distinct(1))
  ultimately show ?thesis using that [OF r _ a(2)] a(1,3,4) l by (simp add: apply_merges_def)
qed

lemma absorbed_root:
  assumes "grouping names g" "absorbed g x r"
  shows "r \<in> names \<and> (\<nexists>q. absorbed g r q)"
proof -
  obtain ids where ids: "(r, ids) \<in> set g" "x \<in> set ids" "x \<noteq> r" using assms(2) by (auto simp: absorbed_def)
  have r: "r \<in> set ids" "set ids \<subseteq> names" using assms(1) ids(1) unfolding grouping_def by blast+
  have "\<not> absorbed g r q" for q
  proof
    assume "absorbed g r q"
    then obtain ids2 where i2: "(q, ids2) \<in> set g" "r \<in> set ids2" "r \<noteq> q" by (auto simp: absorbed_def)
    then have "set ids \<inter> set ids2 = {}" using assms(1) ids(1) unfolding grouping_def by blast
    then show False using r(1) i2(2) by blast
  qed
  then show ?thesis using r by blast
qed

lemma sound_from_fold:
  assumes "fold_claims rp sha kinds current ds = Inr fs"
  shows "sound_claims (fs_claims fs)"
proof -
  have "known_kinds kinds current ds"
    using assms unknown_kind_raises [of kinds current ds rp sha empty_fold] by (cases "known_kinds kinds current ds") (auto simp: fold_claims_def)
  then obtain s where s: "fs = s\<lparr>fs_claims := List.map (\<lambda>(k, c). (k, finish_claim c)) (fs_claims s)\<rparr>"
    "claims_ok rp sha kinds (statements current ds) s"
    using fold_claims_result [of kinds current ds rp sha] assms by (metis sum.inject(2))
  have d: "distinct (dkeys (fs_claims s))" using s(2) by (simp add: claims_ok_def)
  have o: "cl_occs c \<noteq> []" if "dget (fs_claims s) k = Some c" for k c
    using s(2) that unfolding claims_ok_def claim_ok_def by (metis (mono_tags, lifting) option.simps(5))
  show ?thesis
    using d o by (auto simp: s(1) sound_claims_def dget_map_value comp_def case_prod_beta')
qed

lemma supersession_occs:
  assumes "supersession rp sha kinds ds ids = Inr rs"
  shows "\<forall>c \<in> set rs. cl_occs c \<noteq> []"
  using assms unfolding supersession_def
proof (rule py_fold_invariant)
  fix acc i acc' assume "\<forall>c \<in> set acc. cl_occs c \<noteq> []" "supersession_step rp sha kinds ds acc i = Inr acc'"
  then show "\<forall>c \<in> set acc'. cl_occs c \<noteq> []"
    by (auto simp: supersession_step_def removed_between_def removed_claim_def List.map_filter_def Let_def
        split: json.splits option.splits if_splits)
qed simp

lemma add_removal_sound:
  assumes "sound_claims t" "cl_occs c \<noteq> []"
  shows "sound_claims (add_removal t c) \<and> all_statements (add_removal t c) = all_statements t + mset (cl_occs c)"
proof (cases "dget t (cl_id c)")
  case None
  then have "dset (cl_id c) c t = t @ [(cl_id c, c)]" by (induction t) (auto split: if_splits)
  then have "all_statements (add_removal t c) = all_statements t + mset (cl_occs c)"
    using None by (simp add: add_removal_def all_statements_def)
  then show ?thesis using assms None by (auto simp: sound_claims_def add_removal_def)
next
  case (Some p)
  show ?thesis
    using assms Some statements_dset [OF Some, of "p\<lparr>cl_occs := cl_occs p @ cl_occs c, cl_visible_in := union_sorted (cl_visible_in p) (cl_visible_in c),
            cl_sources := union_sorted (cl_sources p) (cl_sources c),
            cl_n_sources := length (union_sorted (cl_sources p) (cl_sources c))\<rparr>"]
    by (auto simp: sound_claims_def add_removal_def)
qed

lemma prepare_sound:
  assumes "sound_claims (fs_claims fs)" "\<forall>c \<in> set rs. cl_occs c \<noteq> []"
  shows "sound_claims (fs_claims (prepare_claims aliases rs fs))
    \<and> all_statements (fs_claims (prepare_claims aliases rs fs)) = all_statements (fs_claims fs) + mset (concat (List.map cl_occs rs))"
proof -
  have add: "sound_claims (foldl add_removal t rs) \<and> all_statements (foldl add_removal t rs) = all_statements t + mset (concat (List.map cl_occs rs))"
    if "sound_claims t" for t
    using that assms(2) by (induction rs arbitrary: t) (auto simp: add_removal_sound)
  have map: "sound_claims (List.map (\<lambda>(k, c). (k, f c)) t) \<and> all_statements (List.map (\<lambda>(k, c). (k, f c)) t) = all_statements t"
    if "sound_claims t" "\<And>c. cl_occs (f c) = cl_occs c" for f t
    using that by (auto simp: sound_claims_def all_statements_def comp_def case_prod_beta' dget_map_value cong: map_cong)
  let ?t = "foldl add_removal (fs_claims fs) rs" and ?g = "\<lambda>c. c\<lparr>cl_subject := aliased_subject aliases (cl_subject c)\<rparr>"
  have s1: "sound_claims (List.map (\<lambda>(k, c). (k, seen_from c)) ?t) \<and> all_statements (List.map (\<lambda>(k, c). (k, seen_from c)) ?t) = all_statements ?t"
    using map [of ?t seen_from] add [OF assms(1)] by (simp add: seen_from_def)
  then show ?thesis
    using add [OF assms(1)] map [of "List.map (\<lambda>(k, c). (k, seen_from c)) ?t" ?g]
    by (auto simp: prepare_claims_def apply_aliases_def Let_def)
qed

section \<open>Properties\<close>

text \<open>C8: the claims that become one are the closure of the pairs that pass. The nomination names only claims of the
  table, so the equivalence check returns; two distinct claims are in one merged group exactly when a path of
  nominated pairs judged \<open>merge\<close> leads from one to the other, no claim is in two groups, and every group is named
  by one of its own claims.\<close>

theorem merged_groups_are_classes:
  assumes "distinct (dkeys claims)"
  shows "\<exists>s merged. resolve_pairs resolve markers claims (nominate cells near claims) = Some (Inr (s, merged))
    \<and> grouping (set (dkeys claims)) merged
    \<and> (\<forall>x y. x \<noteq> y \<longrightarrow> (together merged x y \<longleftrightarrow> linked (merge_pairs resolve markers claims (nominate cells near claims)) x y))"
  by (rule resolve_correct [OF assms nominate_named])

text \<open>C4: building the claim table loses no statement. From the result of the fold and of the supersession the table is
  built without an exception; its claims hold together exactly the occurrences of the folded claims and of the
  removals, and what any claim was called before the merging leads to a claim of the table.\<close>

theorem build_loses_no_statement:
  assumes "fold_claims rp sha kinds current ds = Inr fs" "supersession rp sha kinds vs ids = Inr removed"
  shows "\<exists>lk. build_claims aliases assign cells near fs removed = Some (Inr lk)
    \<and> all_statements (lk_claims lk) = all_statements (fs_claims fs) + mset (concat (List.map cl_occs removed))
    \<and> (\<forall>x \<in> set (dkeys (fs_claims (prepare_claims aliases removed fs))). dget (lk_claims lk) (renamed (lk_remap lk) x) \<noteq> None)"
proof -
  let ?fs = "prepare_claims aliases removed fs"
  have p: "sound_claims (fs_claims ?fs)" "all_statements (fs_claims ?fs) = all_statements (fs_claims fs) + mset (concat (List.map cl_occs removed))"
    using prepare_sound [OF sound_from_fold [OF assms(1)] supersession_occs [OF assms(2)]] by auto
  obtain s merged t m lk where d0: "resolve_pairs (resolve_mention aliases assign) kind_markers (fs_claims ?fs)
      (nominate cells near (fs_claims ?fs)) = Some (Inr (s, merged))" and d:
    "grouping (set (dkeys (fs_claims ?fs))) merged"
    "apply_merges (fs_claims ?fs) merged = Inr (t, m)" "all_statements t = all_statements (fs_claims ?fs)"
    "\<And>x. dget t x = None \<longleftrightarrow> dget (fs_claims ?fs) x = None \<or> (\<exists>r. absorbed merged x r)"
    "\<And>x. dget m x = None \<longleftrightarrow> (\<nexists>r. absorbed merged x r)" "\<And>x r. absorbed merged x r \<Longrightarrow> dget m x = Some r"
    "link_claims s ?fs (t, m) = Inr lk" "dedup_and_link (resolve_mention aliases assign) cells near ?fs = Some (Inr lk)"
    by (rule dedup_steps [OF p(1), of "resolve_mention aliases assign" cells near]) (rule that, assumption+)
  have lk: "dkeys (lk_claims lk) = dkeys t" "all_statements (lk_claims lk) = all_statements t" "lk_remap lk = m"
  proof -
    show "dkeys (lk_claims lk) = dkeys t" "all_statements (lk_claims lk) = all_statements t"
      using link_claims_frame [OF d(7)] by blast+
    obtain lk2 where "link_claims s ?fs (t, m) = Inr lk2" "lk_remap lk2 = m" using link_claims_correct by blast
    then show "lk_remap lk = m" using d(7) by simp
  qed
  have "dget (lk_claims lk) (renamed m x) \<noteq> None" if x: "x \<in> set (dkeys (fs_claims ?fs))" for x
  proof -
    have "dget t (renamed m x) \<noteq> None"
    proof (cases "dget m x")
      case None
      then have "dget t x \<noteq> None" using d(4,5) x by (metis list.set_map map_of_eq_None_iff)
      then show ?thesis using None by (simp add: renamed_def dget_or_def)
    next
      case (Some r)
      then obtain q where "absorbed merged x q" using d(5) by (metis option.distinct(1))
      then have "absorbed merged x r" using d(6) Some by simp
      then have "dget t r \<noteq> None" using absorbed_root [OF d(1)] d(4) by (metis list.set_map map_of_eq_None_iff)
      then show ?thesis using Some by (simp add: renamed_def dget_or_def)
    qed
    then show ?thesis using lk(1) by (metis list.set_map map_of_eq_None_iff)
  qed
  then show ?thesis using d(3,8) p(2) lk(2,3) by (simp add: build_claims_def)
qed

text \<open>C25: no link of the claim table dangles. In a built table every contested claim is there, is another claim and
  is contested back, the successor of a superseded claim is there and another one, and no list of a chunk or of
  a subject names a claim twice.\<close>

theorem links_are_two_sided:
  assumes "build_claims aliases assign cells near fs removed = Some (Inr lk)" "sound_claims (fs_claims fs)"
    "\<forall>c \<in> set removed. cl_occs c \<noteq> []" "dget (lk_claims lk) k = Some c"
  shows "(\<forall>x \<in> set (cl_contests c). x \<noteq> k \<and> (\<exists>d. dget (lk_claims lk) x = Some d \<and> k \<in> set (cl_contests d)))
    \<and> (\<forall>b. cl_superseded_by c = Some b \<longrightarrow> b \<noteq> k \<and> dget (lk_claims lk) b \<noteq> None)
    \<and> (\<forall>l \<in> snd ` set (lk_by_chunk lk) \<union> snd ` set (lk_by_subject lk). distinct l)"
proof -
  let ?fs = "prepare_claims aliases removed fs"
  have p: "sound_claims (fs_claims ?fs)" using prepare_sound assms(2,3) by blast
  obtain s t m where d: "link_claims s ?fs (t, m) = Inr lk"
    by (rule dedup_steps [OF p, of "resolve_mention aliases assign" cells near])
       (use assms(1) in \<open>simp add: build_claims_def\<close>)
  have l: "lk_contests lk = live_links m t (rs_contests s @ rel_contests t)" "lk_supersedes lk = live_links m t (rs_supersedes s)"
    "lk_by_chunk lk = relist m (fs_by_chunk ?fs)" "lk_by_subject lk = relist m (fs_by_subject ?fs)"
    "dget (lk_claims lk) j = map_option (\<lambda>c. c\<lparr>cl_contests := partners (lk_contests lk) j,
         cl_superseded_by := successor (lk_supersedes lk) j None\<rparr>) (dget t j)" for j
    using link_claims_correct [of s ?fs t m] d by auto
  have ct: "cl_contests c = partners (lk_contests lk) k" "cl_superseded_by c = successor (lk_supersedes lk) k None"
    using assms(4) l(5) [of k] by auto
  have live: "a \<noteq> b \<and> dget t a \<noteq> None \<and> dget t b \<noteq> None" if "(a, b, q) \<in> set (live_links m t xs)" for a b q xs
    using that by (auto simp: live_links_def)
  have "x \<noteq> k \<and> (\<exists>d. dget (lk_claims lk) x = Some d \<and> k \<in> set (cl_contests d))" if "x \<in> set (cl_contests c)" for x
  proof -
    have "\<exists>q. (k, x, q) \<in> set (lk_contests lk) \<or> (x, k, q) \<in> set (lk_contests lk)"
      using that unfolding ct in_partners .
    then have "x \<noteq> k \<and> dget t x \<noteq> None \<and> k \<in> set (partners (lk_contests lk) x)"
      unfolding in_partners using live l(1) by metis
    then show ?thesis using l(5) [of x] by auto
  qed
  moreover have "b \<noteq> k \<and> dget (lk_claims lk) b \<noteq> None" if "cl_superseded_by c = Some b" for b
  proof -
    have "\<exists>q. (k, b, q) \<in> set (lk_supersedes lk)" using that successor_from [of "lk_supersedes lk" k None] unfolding ct by auto
    then have "b \<noteq> k \<and> dget t b \<noteq> None" using live l(2) by metis
    then show ?thesis using l(5) [of b] by auto
  qed
  moreover have "distinct (from_keys xs)" for xs :: "string list"
    unfolding from_keys_def by (rule foldl_keeps) simp_all
  ultimately show ?thesis unfolding l(3,4) by (auto simp: relist_def)
qed

section \<open>Examples\<close>

definition on_cache :: "string \<Rightarrow> string \<Rightarrow> string \<Rightarrow> string \<times> claim" where
  "on_cache i v t =
     (let f = (plain_fact t False)\<lparr>fa_subject := ''x'', fa_version := v\<rparr>; d = page ''p'' [] []; oc = occurrence_of (\<lambda>_. []) d 0 f
      in (i, join_claim d f oc (fresh_claim i ''norm'' d f oc)))"

definition folded :: "(string \<times> claim) list \<Rightarrow> fold_state" where
  "folded cs = \<lparr>fs_claims = cs, fs_by_chunk = [(''c'', List.map fst cs)], fs_by_subject = [], fs_occ = length cs, fs_ungrounded = 0\<rparr>"

definition one_cell :: "string \<Rightarrow> string set" where
  "one_cell t = {''c''}"

definition built :: "(string \<times> claim) list \<Rightarrow> linkage" where
  "built cs = (case build_claims [] [] one_cell None (folded cs) [] of
       Some (Inr lk) \<Rightarrow> lk
     | _ \<Rightarrow> \<lparr>lk_claims = [], lk_by_chunk = [], lk_by_subject = [], lk_contests = [], lk_supersedes = [], lk_remap = []\<rparr>)"

definition ups :: "(string \<times> claim) list" where
  "ups = [on_cache ''a'' [] ''Up'', on_cache ''b'' [] ''Up 1'', on_cache ''c'' [] ''No'']"

text \<open>Of three wordings in one cell the two that agree become one claim, which the third contests; the contest is
  entered once for each of the two.\<close>

lemma three_wordings:
  "build_claims [] [] one_cell None (folded ups) [] = Some (Inr (built ups))
   \<and> List.map (\<lambda>(k, c). (k, List.map oc_text (cl_occs c), cl_contests c)) (lk_claims (built ups))
      = [(''a'', [''Up'', ''Up 1''], [''c'', ''c'']), (''c'', [''No''], [''a'', ''a''])]
   \<and> lk_by_chunk (built ups) = [(''c'', [''a'', ''c''])]"
  by code_simp

lemma sound_ups: "sound_claims (fs_claims (folded ups))"
  by (simp add: sound_claims_def folded_def ups_def on_cache_def join_claim_def Let_def)

lemma merged_groups_are_classes_witness:
  "let t = ups in
   \<exists>s merged. resolve_pairs id kind_markers t (nominate one_cell None t) = Some (Inr (s, merged))
    \<and> grouping (set (dkeys t)) merged
    \<and> (\<forall>x y. x \<noteq> y \<longrightarrow> (together merged x y \<longleftrightarrow> linked (merge_pairs id kind_markers t (nominate one_cell None t)) x y))"
  unfolding Let_def by (rule merged_groups_are_classes) (simp add: ups_def on_cache_def Let_def)

lemma build_loses_no_statement_witness:
  "case fold_claims (\<lambda>_. []) rev tech_kinds {''p''} [page ''p'' [] [plain_fact ''A.'' False]] of
     Inl e \<Rightarrow> False
   | Inr fs \<Rightarrow> \<exists>lk. build_claims [] [] one_cell None fs [] = Some (Inr lk)
    \<and> all_statements (lk_claims lk) = all_statements (fs_claims fs) + mset (concat (List.map cl_occs ([] :: claim list)))
    \<and> (\<forall>x \<in> set (dkeys (fs_claims (prepare_claims [] [] fs))). dget (lk_claims lk) (renamed (lk_remap lk) x) \<noteq> None)"
proof -
  obtain fs where fs: "fold_claims (\<lambda>_. []) rev tech_kinds {''p''} [page ''p'' [] [plain_fact ''A.'' False]] = Inr fs"
    using fold_claims_result [of tech_kinds "{''p''}" "[page ''p'' [] [plain_fact ''A.'' False]]" "\<lambda>_. []" rev]
    by (auto simp: known_kinds_def page_def tech_kinds_def)
  have "supersession (\<lambda>_. []) rev tech_kinds [] [] = Inr []" by (simp add: supersession_def)
  then show ?thesis unfolding fs sum.case by (rule build_loses_no_statement [OF fs])
qed

lemma links_are_two_sided_witness:
  "let lk = built ups; c = snd (hd (lk_claims lk)) in
    (\<forall>x \<in> set (cl_contests c). x \<noteq> ''a'' \<and> (\<exists>d. dget (lk_claims lk) x = Some d \<and> ''a'' \<in> set (cl_contests d)))
    \<and> (\<forall>b. cl_superseded_by c = Some b \<longrightarrow> b \<noteq> ''a'' \<and> dget (lk_claims lk) b \<noteq> None)
    \<and> (\<forall>l \<in> snd ` set (lk_by_chunk lk) \<union> snd ` set (lk_by_subject lk). distinct l)"
proof -
  have b: "build_claims [] [] one_cell None (folded ups) [] = Some (Inr (built ups))" using three_wordings by blast
  have "List.map fst (lk_claims (built ups)) = [''a'', ''c'']" using three_wordings by (auto simp: map_eq_Cons_conv case_prod_beta')
  then have h: "dget (lk_claims (built ups)) ''a'' = Some (snd (hd (lk_claims (built ups))))" by (cases "lk_claims (built ups)") auto
  show ?thesis unfolding Let_def by (rule links_are_two_sided [OF b sound_ups _ h]) simp
qed

text \<open>A contraction is not counted as a negation: the tokenizer splits it at the apostrophe.\<close>

lemma contraction_is_no_negation:
  "polarity [] (''isn'' @ [CHR 0x27] @ ''t up'') = polarity [] ''is up'' \<and> polarity [] ''is not up'' \<noteq> polarity [] ''is up''
   \<and> (''isn'' @ [CHR 0x27] @ ''t'') \<in> set negation
   \<and> equivalent id [] (snd (on_cache ''a'' [] ''is up'')) (snd (on_cache ''b'' [] (''isn'' @ [CHR 0x27] @ ''t up''))) = Merge"
  by code_simp

text \<open>Versions are compared as strings: what holds in 1.10 is superseded by what holds in 1.9.\<close>

lemma versions_compared_as_strings:
  "let lk = built [on_cache ''a'' ''1.9'' ''Up'', on_cache ''b'' ''1.10'' ''Up 1''] in
   List.map (\<lambda>(k, c). (k, cl_superseded_by c)) (lk_claims lk) = [(''a'', None), (''b'', Some ''a'')]"
  by code_simp

end
