(* ===== verification/Edges.thy ===== *)
theory Edges
  imports Fold
begin

text \<open>
  \<open>assoc/graph.py\<close>: the table of typed, undirected edges that activation spreads over, as it is built from the claims
  and documents of a build, saved and loaded; with the search for a recorded path of \<open>assoc/infer.py\<close>. \<open>lg\<close> is the
  natural logarithm.
\<close>

section \<open>Nodes\<close>

definition quotes :: "char list" where
  "quotes = [CHR 0xAB, CHR 0xBB, CHR 0x22, CHR 0x27, CHR 0x60]"

definition is_node_id :: "string \<Rightarrow> bool" where
  "is_node_id m = (startswith m ''person:'' \<or> startswith m ''entity:'' \<or> startswith m ''ident:'' \<or> startswith m ''cell:'')"

definition entity_node :: "(string, string) dict \<Rightarrow> string list \<Rightarrow> string \<Rightarrow> string py" where
  "entity_node aliases persons mention =
     (let m0 = py_lower (strip_if (\<lambda>c. c \<in> set quotes) (py_strip (join '' '' (words_from [] mention))));
          m = dget_or aliases m0 m0
      in if m = [] then Inr []
         else case words_from [] m of
             [] \<Rightarrow> Inl IndexError
           | w # _ \<Rightarrow>
               let first = dget_or aliases w w in
               if ''person:'' @ first \<in> set persons then Inr (''person:'' @ first)
               else if is_node_id m then Inr m
               else Inr (''entity:'' @ m))"

section \<open>The table\<close>

type_synonym edge = "string \<times> string \<times> string"

record edge_table =
  adj :: "(string, edge list) dict"
  fan :: "(string, (string, nat) dict) dict"
  node_kinds :: "(string, string) dict"
  needs :: "(string, jobj) dict"
  weight :: "(edge, rat) dict"

definition empty_table :: edge_table where
  "empty_table = \<lparr>adj = [], fan = [], node_kinds = [], needs = [], weight = []\<rparr>"

definition push_edge :: "string \<Rightarrow> edge \<Rightarrow> (string, edge list) dict \<Rightarrow> (string, edge list) dict" where
  "push_edge a e t = dset a (dget_or t a [] @ [e]) t"

definition bump :: "string \<Rightarrow> string \<Rightarrow> (string, (string, nat) dict) dict \<Rightarrow> (string, (string, nat) dict) dict" where
  "bump a ty t = dset a (dset ty (dget_or (dget_or t a []) ty 0 + 1) (dget_or t a [])) t"

definition add_edge :: "string \<Rightarrow> string \<Rightarrow> string \<Rightarrow> string \<Rightarrow> edge_table \<Rightarrow> edge_table" where
  "add_edge a b ty ev t =
     (if a = [] \<or> b = [] \<or> a = b then t
      else t\<lparr>adj := push_edge b (a, ty, ev) (push_edge a (b, ty, ev) (adj t)),
             fan := bump b ty (bump a ty (fan t))\<rparr>)"

definition edges :: "edge_table \<Rightarrow> string \<Rightarrow> edge list" where
  "edges t a = dget_or (adj t) a []"

definition edge_w :: "edge_table \<Rightarrow> string \<Rightarrow> string \<Rightarrow> string \<Rightarrow> rat" where
  "edge_w t a b ty = dget_or (weight t) (a, b, ty) (dget_or (weight t) (b, a, ty) 1)"

definition fan_of :: "edge_table \<Rightarrow> string \<Rightarrow> string \<Rightarrow> nat" where
  "fan_of t a ty = max (dget_or (dget_or (fan t) a []) ty 1) 1"

section \<open>Learned strength\<close>

definition learned_min :: rat where "learned_min = 1/2"
definition learned_max :: rat where "learned_max = 3/2"

definition is_claim :: "string \<Rightarrow> bool" where
  "is_claim a = startswith a ''claim:''"

definition subj_of :: "edge_table \<Rightarrow> (string, string) dict" where
  "subj_of t = List.map_filter (\<lambda>(a, es). if \<not> is_claim a then None
     else map_option (\<lambda>e. (a, fst e)) (List.find (\<lambda>e. fst (snd e) = ''about'') es)) (adj t)"

text \<open>The mentions of the claims that have a subject, in the order of the table.\<close>

definition mention_edges :: "edge_table \<Rightarrow> (string \<times> string \<times> string) list" where
  "mention_edges t = concat (List.map (\<lambda>(a, es). if \<not> is_claim a then []
     else case dget (subj_of t) a of None \<Rightarrow> []
       | Some sj \<Rightarrow> List.map (\<lambda>e. (a, sj, fst e)) (filter (\<lambda>e. fst (snd e) = ''mentions'') es)) (adj t))"

definition cooc :: "edge_table \<Rightarrow> (string \<times> string, nat) dict" where
  "cooc t = foldl (\<lambda>d (a, sj, b). dset (sj, b) (dget_or d (sj, b) 0 + 1) d) [] (mention_edges t)"

definition max_cooc :: "edge_table \<Rightarrow> nat" where
  "max_cooc t = (if cooc t = [] then 1 else Max (set (List.map snd (cooc t))))"

definition round4 :: "rat \<Rightarrow> rat" where
  "round4 x = of_int (py_round (x * 10000)) / 10000"

definition learned :: "(rat \<Rightarrow> rat) \<Rightarrow> nat \<Rightarrow> nat \<Rightarrow> rat" where
  "learned lg c mx = round4 (learned_min + (learned_max - learned_min) * lg (1 + of_nat c) / lg (1 + of_nat mx))"

definition learn_strength :: "(rat \<Rightarrow> rat) \<Rightarrow> edge_table \<Rightarrow> edge_table" where
  "learn_strength lg t =
     t\<lparr>weight := foldl (\<lambda>wt (a, sj, b). dset (a, b, ''mentions'') (learned lg (dget_or (cooc t) (sj, b) 1) (max_cooc t)) wt)
        (weight t) (mention_edges t)\<rparr>"

section \<open>Saving and loading\<close>

definition save_table :: "edge_table \<Rightarrow> jobj" where
  "save_table t =
     [(''adj'', JObj (List.map (\<lambda>(k, es). (k, JList (List.map (\<lambda>(b, ty, ev). JList [JStr b, JStr ty, JStr ev]) es))) (adj t))),
      (''fan'', JObj (List.map (\<lambda>(k, d). (k, JObj (List.map (\<lambda>(ty, n). (ty, JInt (int n))) d))) (fan t))),
      (''kinds'', JObj (List.map (\<lambda>(k, v). (k, JStr v)) (node_kinds t))),
      (''needs'', JObj (List.map (\<lambda>(k, d). (k, JObj d)) (needs t))),
      (''weight'', JList (List.map (\<lambda>((a, b, ty), w). JList [JStr a, JStr b, JStr ty, JFloat w]) (weight t)))]"

text \<open>The loader keeps what it finds; the model asks the file for the shape the program writes.\<close>

fun load_edge :: "json \<Rightarrow> edge py" where
  "load_edge (JList [JStr b, JStr ty, JStr ev]) = Inr (b, ty, ev)"
| "load_edge _ = Inl ValueError"

fun load_weight :: "json \<Rightarrow> (edge \<times> rat) py" where
  "load_weight (JList [JStr a, JStr b, JStr ty, JFloat w]) = Inr ((a, b, ty), w)"
| "load_weight _ = Inl ValueError"

fun load_count :: "string \<times> json \<Rightarrow> (string \<times> nat) py" where
  "load_count (ty, JInt n) = Inr (ty, nat n)"
| "load_count _ = Inl TypeError"

fun py_map :: "('a \<Rightarrow> 'b py) \<Rightarrow> 'a list \<Rightarrow> 'b list py" where
  "py_map f [] = Inr []"
| "py_map f (x # xs) = py_bind (f x) (\<lambda>y. py_bind (py_map f xs) (\<lambda>ys. Inr (y # ys)))"

definition load_adj :: "string \<times> json \<Rightarrow> (string \<times> edge list) py" where
  "load_adj p = py_bind (json_list_items (snd p)) (\<lambda>xs. py_bind (py_map load_edge xs) (\<lambda>es. Inr (fst p, es)))"

definition load_fan :: "string \<times> json \<Rightarrow> (string \<times> (string, nat) dict) py" where
  "load_fan p = py_bind (as_dict (snd p)) (\<lambda>d. py_bind (py_map load_count d) (\<lambda>ns. Inr (fst p, ns)))"

definition load_table :: "jobj \<Rightarrow> edge_table py" where
  "load_table obj =
     (case (dget obj ''adj'', dget obj ''fan'') of
        (Some ja, Some jf) \<Rightarrow>
          py_bind (as_dict ja) (\<lambda>da. py_bind (py_map load_adj da) (\<lambda>ad.
          py_bind (as_dict jf) (\<lambda>df. py_bind (py_map load_fan df) (\<lambda>fn.
          py_bind (as_dict (jget_or obj ''kinds'' (JObj []))) (\<lambda>dk.
          py_bind (py_map (\<lambda>(k, v). py_bind (as_str v) (\<lambda>s. Inr (k, s))) dk) (\<lambda>ks.
          py_bind (as_dict (jget_or obj ''needs'' (JObj []))) (\<lambda>dn.
          py_bind (py_map (\<lambda>(k, v). py_bind (as_dict v) (\<lambda>d. Inr (k, d))) dn) (\<lambda>ns.
          py_bind (json_list_items (jget_or obj ''weight'' (JList []))) (\<lambda>lw.
          py_bind (py_map load_weight lw) (\<lambda>wt.
            Inr \<lparr>adj = ad, fan = fn, node_kinds = ks, needs = ns,
                 weight = foldl (\<lambda>d (k, w). dset k w d) [] wt\<rparr>))))))))))
      | _ \<Rightarrow> Inl KeyError)"

section \<open>Building\<close>

definition s_type :: "(string, rat) dict" where
  "s_type = [(''about'', 1), (''mentions'', 7/10), (''rel'', 1), (''in_chunk'', 6/10), (''adjacent'', 3/10), (''in_doc'', 2/10),
     (''contests'', 1), (''supersedes'', 1), (''need'', 1), (''inferred'', 3/10)]"

definition need_predicates :: "string list" where
  "need_predicates = [''wants'', ''asked_about'', ''looking_for'', ''needs'', ''todo'']"

definition namespace_of :: "string \<Rightarrow> string" where
  "namespace_of s = takeWhile (\<lambda>c. c \<noteq> CHR '':'') s"

definition set_kind :: "string \<Rightarrow> string \<Rightarrow> edge_table \<Rightarrow> edge_table" where
  "set_kind n k t = t\<lparr>node_kinds := dset n k (node_kinds t)\<rparr>"

definition default_kind :: "string \<Rightarrow> edge_table \<Rightarrow> edge_table" where
  "default_kind n t = t\<lparr>node_kinds := dsetdefault n (namespace_of n) (node_kinds t)\<rparr>"

definition subject_edge :: "string \<Rightarrow> claim \<Rightarrow> edge_table \<Rightarrow> edge_table" where
  "subject_edge cid c t0 =
     (let cn = ''claim:'' @ cid; t = set_kind cn ''claim'' t0; sj = cl_subject c in
      if sj = [] then t else set_kind sj (namespace_of sj) (add_edge cn sj ''about'' cid t))"

definition mention_edge ::
  "(string, string) dict \<Rightarrow> string list \<Rightarrow> string \<Rightarrow> claim \<Rightarrow> edge_table \<Rightarrow> string \<Rightarrow> edge_table py" where
  "mention_edge aliases persons cid c t e =
     py_bind (entity_node aliases persons e) (\<lambda>en. Inr (
       if en \<noteq> [] \<and> en \<noteq> cl_subject c then default_kind en (add_edge (''claim:'' @ cid) en ''mentions'' cid t) else t))"

definition chunk_edges :: "string \<Rightarrow> claim \<Rightarrow> edge_table \<Rightarrow> edge_table" where
  "chunk_edges cid c t =
     foldl (\<lambda>t oc. if opt_or (oc_chunk oc) = [] then t
       else add_edge (''claim:'' @ cid) (''chunk:'' @ opt_or (oc_chunk oc)) ''in_chunk'' cid t) t (cl_occs c)"

definition rel_node :: "(string, string) dict \<Rightarrow> string list \<Rightarrow> string \<Rightarrow> string py" where
  "rel_node aliases persons a = (if is_node_id a then Inr a else entity_node aliases persons a)"

definition need_record :: "string \<Rightarrow> claim \<Rightarrow> string \<Rightarrow> string \<Rightarrow> jobj" where
  "need_record cid c predicate object =
     [(''claim_id'', JStr cid), (''subject'', JStr (cl_subject c)), (''entities'', JList (List.map JStr (cl_entities c))),
      (''predicate'', JStr predicate), (''object'', JStr object), (''text'', JStr (cl_text c)), (''kind'', JStr (cl_kind c))]"

definition open_need :: "string \<Rightarrow> jobj \<Rightarrow> edge_table \<Rightarrow> edge_table" where
  "open_need cid nd t =
     (let nn = ''need:'' @ cid; t1 = set_kind nn ''need'' t in
      add_edge nn (''claim:'' @ cid) ''need'' cid (t1\<lparr>needs := dset nn nd (needs t1)\<rparr>))"

definition rel_edges ::
  "(string, string) dict \<Rightarrow> string list \<Rightarrow> string set \<Rightarrow> string \<Rightarrow> claim \<Rightarrow> edge_table \<Rightarrow> edge_table py" where
  "rel_edges aliases persons closed_ids cid c t =
     (case cl_rel c of
        Some [pred, a, b] \<Rightarrow>
          py_bind (rel_node aliases persons a) (\<lambda>an. py_bind (rel_node aliases persons b) (\<lambda>bn. Inr (
            if pred \<in> set need_predicates \<or> cl_facet c = ''need'' then
              (if cid \<in> closed_ids then t
               else let t1 = open_need cid (need_record cid c pred bn) t;
                        t2 = (if an = [] then t1 else add_edge (''need:'' @ cid) an ''need'' cid t1)
                    in if bn = [] then t2 else add_edge (''need:'' @ cid) bn ''need'' cid t2)
            else if an \<noteq> [] \<and> bn \<noteq> [] then default_kind bn (default_kind an (add_edge an bn (''rel:'' @ pred) cid t))
            else t)))
      | _ \<Rightarrow> Inr (
          if cl_facet c = ''need'' \<and> cid \<notin> closed_ids then
            let t1 = open_need cid (need_record cid c ''todo'' []) t
            in if cl_subject c = [] then t1 else add_edge (''need:'' @ cid) (cl_subject c) ''need'' cid t1
          else t))"

definition claim_links :: "(string, claim) dict \<Rightarrow> string \<Rightarrow> claim \<Rightarrow> edge_table \<Rightarrow> edge_table" where
  "claim_links claims cid c t =
     (let t1 = foldl (\<lambda>t other. if other \<in> set (dkeys claims) \<and> cid < other
            then add_edge (''claim:'' @ cid) (''claim:'' @ other) ''contests'' cid t else t) t (cl_contests c)
      in case cl_superseded_by c of
           Some o2 \<Rightarrow> if o2 \<in> set (dkeys claims) then add_edge (''claim:'' @ cid) (''claim:'' @ o2) ''supersedes'' cid t1 else t1
         | None \<Rightarrow> t1)"

definition claim_edges ::
  "(string, string) dict \<Rightarrow> string list \<Rightarrow> string set \<Rightarrow> (string, claim) dict \<Rightarrow> edge_table \<Rightarrow> string \<times> claim \<Rightarrow> edge_table py" where
  "claim_edges aliases persons closed_ids claims t p =
     (let cid = fst p; c = snd p in
      py_bind (py_fold (mention_edge aliases persons cid c) (subject_edge cid c t) (cl_entities c)) (\<lambda>t1.
      py_bind (rel_edges aliases persons closed_ids cid c (chunk_edges cid c t1)) (\<lambda>t2.
        Inr (claim_links claims cid c t2))))"

text \<open>The primaries of a document in reading order, each joined to the document and to the one before it.\<close>

fun primary_edges :: "string \<Rightarrow> string option \<Rightarrow> doc_unit list \<Rightarrow> edge_table \<Rightarrow> edge_table" where
  "primary_edges d prev [] t = t"
| "primary_edges d prev (u # us) t =
     (let cn = ''chunk:'' @ u_id u; t1 = add_edge cn (''doc:'' @ d) ''in_doc'' d (set_kind cn ''chunk'' t);
          t2 = (case prev of None \<Rightarrow> t1 | Some q \<Rightarrow> add_edge cn (''chunk:'' @ q) ''adjacent'' d t1)
      in primary_edges d (Some (u_id u)) us t2)"

definition document_edges :: "edge_table \<Rightarrow> string \<times> doc_unit list \<Rightarrow> edge_table" where
  "document_edges t p =
     primary_edges (fst p) None (filter (\<lambda>u. u_role u = ''primary'') (snd p)) (set_kind (''doc:'' @ fst p) ''doc'' t)"

record inferred_edge =
  ie_a :: string
  ie_b :: string
  ie_pred :: string

definition inferred_step :: "edge_table \<Rightarrow> inferred_edge \<Rightarrow> edge_table" where
  "inferred_step t e =
     (if ie_a e \<noteq> [] \<and> ie_b e \<noteq> [] \<and> ie_pred e \<noteq> [] then add_edge (ie_a e) (ie_b e) (''inferred:'' @ ie_pred e) ''model'' t else t)"

definition build_edges ::
  "(string, string) dict \<Rightarrow> string set \<Rightarrow> inferred_edge list \<Rightarrow> (string \<times> doc_unit list) list \<Rightarrow> (string, claim) dict \<Rightarrow> edge_table py" where
  "build_edges aliases closed_ids inferred ds claims =
     (let persons = filter (\<lambda>s. startswith s ''person:'') (List.map (\<lambda>(k, c). cl_subject c) claims) in
      py_bind (py_fold (claim_edges aliases persons closed_ids claims) (foldl inferred_step empty_table inferred) claims) (\<lambda>t.
        Inr (foldl document_edges t ds)))"

section \<open>Statistics\<close>

definition type_total :: "edge_table \<Rightarrow> string \<Rightarrow> nat" where
  "type_total t ty = sum_list (List.map (\<lambda>(a, es). length (filter (\<lambda>e. fst (snd e) = ty) es)) (adj t))"

definition edges_by_type :: "edge_table \<Rightarrow> (string, nat) dict" where
  "edges_by_type t =
     List.map (\<lambda>(ty, n). (ty, n div 2))
       (foldl (\<lambda>d e. dset (fst (snd e)) (dget_or d (fst (snd e)) 0 + 1) d) [] (concat (List.map snd (adj t))))"

section \<open>A recorded path\<close>

definition next_frontier :: "edge_table \<Rightarrow> string set \<Rightarrow> string set \<Rightarrow> string set" where
  "next_frontier t frontier seen = (\<Union>n \<in> frontier. fst ` set (edges t n)) - seen"

fun has_path_from :: "edge_table \<Rightarrow> string \<Rightarrow> nat \<Rightarrow> string set \<Rightarrow> string set \<Rightarrow> bool" where
  "has_path_from t b 0 frontier seen = False"
| "has_path_from t b (Suc k) frontier seen =
     ((\<exists>n \<in> frontier. b \<in> fst ` set (edges t n))
      \<or> (let nxt = next_frontier t frontier seen in nxt \<noteq> {} \<and> has_path_from t b k nxt (seen \<union> nxt)))"

definition has_path :: "edge_table \<Rightarrow> string \<Rightarrow> string \<Rightarrow> nat \<Rightarrow> bool" where
  "has_path t a b k = has_path_from t b k {a} {a}"

section \<open>Every table the program builds is an undirected graph\<close>

text \<open>No edge is empty or a loop, each is listed equally often at both ends, the fan of a node counts its
  edges of each type, and the keys of the tables are distinct.\<close>

definition edge_wf :: "edge_table \<Rightarrow> bool" where
  "edge_wf t = (distinct (dkeys (adj t))
     \<and> (\<forall>a b ty ev. count_list (edges t a) (b, ty, ev) = count_list (edges t b) (a, ty, ev))
     \<and> (\<forall>a e. e \<in> set (edges t a) \<longrightarrow> a \<noteq> [] \<and> fst e \<noteq> [] \<and> fst e \<noteq> a)
     \<and> (\<forall>a ty. dget_or (dget_or (fan t) a []) ty 0 = length (filter (\<lambda>e. fst (snd e) = ty) (edges t a)))
     \<and> (\<forall>ty. even (type_total t ty)))"

lemma edges_push: "dget_or (push_edge a e t) a' [] = (if a' = a then dget_or t a [] @ [e] else dget_or t a' [])"
  by (simp add: push_edge_def)

lemma edges_add_edge:
  "edges (add_edge a b ty ev t) c =
     (if a = [] \<or> b = [] \<or> a = b then edges t c
      else if c = a then edges t a @ [(b, ty, ev)] else if c = b then edges t b @ [(a, ty, ev)] else edges t c)"
  by (auto simp: add_edge_def edges_def edges_push)

lemma fan_bump:
  "dget_or (dget_or (bump a ty t) a' []) ty' 0 = dget_or (dget_or t a' []) ty' 0 + (if a' = a \<and> ty' = ty then 1 else 0)"
  by (simp add: bump_def)

lemma fan_add_edge:
  "dget_or (dget_or (fan (add_edge a b ty ev t)) c []) ty' 0 =
     dget_or (dget_or (fan t) c []) ty' 0
     + (if a \<noteq> [] \<and> b \<noteq> [] \<and> a \<noteq> b \<and> (c = a \<or> c = b) \<and> ty' = ty then 1 else 0)"
  by (auto simp: add_edge_def fan_bump)

definition list_total :: "string \<Rightarrow> (string, edge list) dict \<Rightarrow> nat" where
  "list_total ty d = sum_list (List.map (\<lambda>(a, es). length (filter (\<lambda>e. fst (snd e) = ty) es)) d)"

lemma type_total_eq: "type_total t ty = list_total ty (adj t)"
  by (simp add: type_total_def list_total_def)

lemma list_total_push:
  "distinct (dkeys d) \<Longrightarrow> list_total ty (push_edge a e d) = list_total ty d + (if fst (snd e) = ty then 1 else 0)"
  unfolding push_edge_def
proof (induction d)
  case (Cons p d)
  then show ?case by (cases p) (auto simp: list_total_def dget_or_def map_of_eq_None_iff split: option.splits)
qed (simp add: list_total_def)

lemma distinct_push [simp]: "distinct (dkeys d) \<Longrightarrow> distinct (dkeys (push_edge a e d))"
  by (simp add: push_edge_def distinct_update)

lemma type_total_add_edge:
  "distinct (dkeys (adj t)) \<Longrightarrow> type_total (add_edge a b ty ev t) ty' =
     type_total t ty' + (if a \<noteq> [] \<and> b \<noteq> [] \<and> a \<noteq> b \<and> ty' = ty then 2 else 0)"
  by (auto simp: type_total_eq add_edge_def list_total_push)

lemma edge_wf_empty [simp]: "edge_wf empty_table"
  by (simp add: edge_wf_def empty_table_def edges_def type_total_def)

lemma edge_wf_add_edge [intro]: "edge_wf (add_edge a b ty ev t)" if wf: "edge_wf t"
proof (cases "a = [] \<or> b = [] \<or> a = b")
  case True
  then show ?thesis using wf by (auto simp: add_edge_def)
next
  case False
  have w: "distinct (dkeys (adj t))"
    "count_list (edges t c) (d, ty', ev') = count_list (edges t d) (c, ty', ev')"
    "e \<in> set (edges t c) \<Longrightarrow> c \<noteq> [] \<and> fst e \<noteq> [] \<and> fst e \<noteq> c"
    "dget_or (dget_or (fan t) c []) ty' 0 = length (filter (\<lambda>e. fst (snd e) = ty') (edges t c))"
    "even (type_total t ty')" for c d e ty' ev'
    using wf unfolding edge_wf_def by blast+
  have "distinct (dkeys (adj (add_edge a b ty ev t)))" using w(1) by (simp add: add_edge_def)
  moreover have "count_list (edges (add_edge a b ty ev t) c) (d, ty', ev') = count_list (edges (add_edge a b ty ev t) d) (c, ty', ev')"
    for c d ty' ev' using w(2) [of c d ty' ev'] False by (auto simp: edges_add_edge)
  moreover have "c \<noteq> [] \<and> fst e \<noteq> [] \<and> fst e \<noteq> c" if "e \<in> set (edges (add_edge a b ty ev t) c)" for c e
    using that w(3) [of e c] False by (auto simp: edges_add_edge split: if_splits)
  moreover have "dget_or (dget_or (fan (add_edge a b ty ev t)) c []) ty' 0
      = length (filter (\<lambda>e. fst (snd e) = ty') (edges (add_edge a b ty ev t) c))" for c ty'
    using w(4) [of c ty'] False by (auto simp: fan_add_edge edges_add_edge)
  moreover have "even (type_total (add_edge a b ty ev t) ty')" for ty'
    using w(5) [of ty'] by (simp add: type_total_add_edge [OF w(1)])
  ultimately show ?thesis unfolding edge_wf_def by blast
qed

lemma edge_wf_other [simp]:
  "edge_wf (t\<lparr>node_kinds := k\<rparr>) = edge_wf t" "edge_wf (t\<lparr>needs := n\<rparr>) = edge_wf t" "edge_wf (t\<lparr>weight := wt\<rparr>) = edge_wf t"
  by (simp_all add: edge_wf_def edges_def type_total_def)

lemma edge_wf_kind [simp]: "edge_wf (set_kind n k t) = edge_wf t" "edge_wf (default_kind n t) = edge_wf t"
  by (simp_all add: set_kind_def default_kind_def)

lemma edge_wf_need [intro]: "edge_wf t \<Longrightarrow> edge_wf (open_need cid nd t)"
  unfolding open_need_def Let_def by (rule edge_wf_add_edge) simp

lemma edge_wf_subject [intro]: "edge_wf t \<Longrightarrow> edge_wf (subject_edge cid c t)"
  by (auto simp: subject_edge_def Let_def)

lemma edge_wf_chunks [intro]: "edge_wf t \<Longrightarrow> edge_wf (chunk_edges cid c t)"
  unfolding chunk_edges_def by (erule foldl_keeps) auto

lemma edge_wf_links [intro]:
  assumes "edge_wf t" shows "edge_wf (claim_links claims cid c t)"
proof -
  have "edge_wf (foldl (\<lambda>t other. if other \<in> set (dkeys claims) \<and> cid < other
            then add_edge (''claim:'' @ cid) (''claim:'' @ other) ''contests'' cid t else t) t (cl_contests c))"
    using assms by (rule foldl_keeps) auto
  then show ?thesis by (auto simp: claim_links_def Let_def split: option.splits)
qed

lemma edge_wf_rel:
  "edge_wf t \<Longrightarrow> rel_edges aliases persons closed_ids cid c t = Inr t' \<Longrightarrow> edge_wf t'"
  unfolding rel_edges_def
  by (auto simp: py_bind_eq_Inr Let_def split: option.splits list.splits if_splits)

lemma edge_wf_claim:
  assumes "edge_wf t" "claim_edges aliases persons closed_ids claims t p = Inr t'"
  shows "edge_wf t'"
proof -
  obtain t1 t2 where t: "py_fold (mention_edge aliases persons (fst p) (snd p)) (subject_edge (fst p) (snd p) t) (cl_entities (snd p)) = Inr t1"
    "rel_edges aliases persons closed_ids (fst p) (snd p) (chunk_edges (fst p) (snd p) t1) = Inr t2"
    "t' = claim_links claims (fst p) (snd p) t2"
    using assms(2) by (auto simp: claim_edges_def py_bind_eq_Inr Let_def)
  have "edge_wf t1"
    by (rule py_fold_invariant [OF t(1)])
       (use assms(1) in \<open>auto simp: mention_edge_def py_bind_eq_Inr split: if_splits\<close>)
  then show ?thesis using edge_wf_rel [OF _ t(2)] t(3) by auto
qed

lemma edge_wf_primaries: "edge_wf t \<Longrightarrow> edge_wf (primary_edges d prev us t)"
proof (induction us arbitrary: prev t)
  case (Cons u us)
  have "edge_wf (add_edge (''chunk:'' @ u_id u) (''doc:'' @ d) ''in_doc'' d (set_kind (''chunk:'' @ u_id u) ''chunk'' t))"
    using Cons.prems by (intro edge_wf_add_edge) simp
  then show ?case unfolding primary_edges.simps Let_def by (intro Cons.IH) (auto split: option.splits)
qed simp

text \<open>Whatever the claims, aliases, inferred edges and documents, a table that is built is a loop-free
  undirected graph whose fan counts are the numbers of its edges, so that halving the entries of a type counts
  its edges.\<close>

theorem built_table_is_undirected:
  assumes "build_edges aliases closed_ids inferred ds claims = Inr t"
  shows "edge_wf t"
proof -
  let ?persons = "filter (\<lambda>s. startswith s ''person:'') (List.map (\<lambda>(k, c). cl_subject c) claims)"
  obtain t1 where t1: "py_fold (claim_edges aliases ?persons closed_ids claims) (foldl inferred_step empty_table inferred) claims = Inr t1"
    "t = foldl document_edges t1 ds"
    using assms by (auto simp: build_edges_def Let_def py_bind_eq_Inr)
  have "edge_wf (foldl inferred_step empty_table inferred)" by (rule foldl_keeps) (auto simp: inferred_step_def)
  then have "edge_wf t1" using t1(1) by (auto intro: py_fold_invariant [OF t1(1)] edge_wf_claim)
  then show ?thesis unfolding t1(2) by (rule foldl_keeps) (auto simp: document_edges_def intro: edge_wf_primaries)
qed

lemma built_table_is_undirected_witness:
  "let c = finish_claim (fresh_claim ''1'' ''norm'' (page ''v1'' [] []) (plain_fact ''A'' False) (said ''k'' ''A'' []));
       c1 = c\<lparr>cl_subject := ''person:ann'', cl_entities := [''Rome'']\<rparr> in
   case build_edges [] {} [] [] [(''1'', c1)] of Inr t \<Rightarrow> edge_wf t \<and> edges_by_type t = [(''about'', 1), (''mentions'', 1)] | Inl _ \<Rightarrow> False"
proof -
  let ?c = "(finish_claim (fresh_claim ''1'' ''norm'' (page ''v1'' [] []) (plain_fact ''A'' False) (said ''k'' ''A'' [])))
      \<lparr>cl_subject := ''person:ann'', cl_entities := [''Rome'']\<rparr>"
  have "case build_edges [] {} [] [] [(''1'', ?c)] of Inr t \<Rightarrow> edges_by_type t = [(''about'', 1), (''mentions'', 1)] | Inl _ \<Rightarrow> False"
    by code_simp
  then obtain t where t: "build_edges [] {} [] [] [(''1'', ?c)] = Inr t" "edges_by_type t = [(''about'', 1), (''mentions'', 1)]"
    by (cases "build_edges [] {} [] [] [(''1'', ?c)]") simp_all
  have "edge_wf t" by (rule built_table_is_undirected [OF t(1)])
  then show ?thesis unfolding Let_def t(1) using t(2) by simp
qed

text \<open>A mention of quoted white space is stripped to blanks, which are not empty and have no first word.\<close>

lemma quoted_blank_mention_raises:
  "let c = (finish_claim (fresh_claim ''1'' ''norm'' (page ''v1'' [] []) (plain_fact ''A'' False) (said ''k'' ''A'' [])))
      \<lparr>cl_entities := [[CHR 0x22, CHR '' '', CHR 0x22]]\<rparr> in
   build_edges [] {} [] [] [(''1'', c)] = Inl IndexError"
  by code_simp

section \<open>Learned weights are bounded\<close>

lemma round4_bounds: "of_int a \<le> x * 10000 \<Longrightarrow> x * 10000 \<le> of_int b \<Longrightarrow> of_int a / 10000 \<le> round4 x \<and> round4 x \<le> of_int b / 10000"
  unfolding round4_def using py_round_mono [of "of_int a" "x * 10000"] py_round_mono [of "x * 10000" "of_int b"]
  by (simp add: divide_right_mono)

lemma learned_bounds:
  assumes "\<forall>x y. 1 \<le> x \<and> x \<le> y \<longrightarrow> lg x \<le> lg y" "0 \<le> lg 1" "0 < lg 2" "c \<le> mx" "1 \<le> mx"
  shows "learned_min \<le> learned lg c mx \<and> learned lg c mx \<le> learned_max"
proof -
  have "lg 1 \<le> lg (1 + of_nat c)" using assms(1) by simp
  moreover have "lg (1 + of_nat c) \<le> lg (1 + of_nat mx)" using assms(1,4) by simp
  moreover have "lg 2 \<le> lg (1 + of_nat mx)" using assms(1,5) by simp
  ultimately have q: "0 \<le> lg (1 + of_nat c) / lg (1 + of_nat mx)" "lg (1 + of_nat c) / lg (1 + of_nat mx) \<le> 1"
    using assms(2,3) by (auto simp: divide_le_eq_1)
  have "learned_min \<le> round4 (1/2 + x) \<and> round4 (1/2 + x) \<le> learned_max" if "0 \<le> x" "x \<le> 1" for x
    using round4_bounds [of 5000 "1/2 + x" 15000] that by (simp add: learned_min_def learned_max_def field_simps)
  then show ?thesis using q by (simp add: learned_def learned_min_def learned_max_def)
qed

lemma cooc_le_max: "dget (cooc t) k = Some n \<Longrightarrow> n \<le> max_cooc t"
  using dget_Some_in_set [of "cooc t" k n] by (force simp: max_cooc_def intro: Max_ge)

lemma cooc_pos: "dget (cooc t) k = Some n \<Longrightarrow> 1 \<le> n"
proof -
  have "\<forall>k n. dget (cooc t) k = Some n \<longrightarrow> 1 \<le> n"
    unfolding cooc_def by (rule foldl_keeps) (auto split: if_splits)
  then show "dget (cooc t) k = Some n \<Longrightarrow> 1 \<le> n" by blast
qed

lemma max_cooc_pos: "1 \<le> max_cooc t"
proof (cases "cooc t")
  case (Cons p d)
  then have "dget (cooc t) (fst p) = Some (snd p)" by (cases p) simp
  then show ?thesis using cooc_pos cooc_le_max by (meson order_trans)
qed (simp add: max_cooc_def)

lemma weight_learn:
  "weight (learn_strength lg t) =
     foldl (\<lambda>wt (a, sj, b). dset (a, b, ''mentions'') (learned lg (dget_or (cooc t) (sj, b) 1) (max_cooc t)) wt)
       (weight t) (mention_edges t)"
  by (simp add: learn_strength_def)

text \<open>A learned strength never leaves its band. If the stored weights lie between the least and the greatest
  learned strength, so does every weight after learning, however often entities and subjects occur together;
  the only assumption on the logarithm is that it is monotone, with the logarithm of two positive.\<close>

theorem learned_weights_stay_in_band:
  assumes "\<forall>x y. 1 \<le> x \<and> x \<le> y \<longrightarrow> lg x \<le> lg y" "0 \<le> lg 1" "0 < lg 2"
    and "\<forall>e w. dget (weight t) e = Some w \<longrightarrow> learned_min \<le> w \<and> w \<le> learned_max"
  shows "learned_min \<le> edge_w (learn_strength lg t) a b ty \<and> edge_w (learn_strength lg t) a b ty \<le> learned_max"
proof -
  let ?f = "\<lambda>wt (a, sj, b). dset (a, b, ''mentions'') (learned lg (dget_or (cooc t) (sj, b) 1) (max_cooc t)) wt"
  have "dget_or (cooc t) k 1 \<le> max_cooc t" for k
    using cooc_le_max [of t k] max_cooc_pos [of t] by (auto simp: dget_or_def split: option.splits)
  then have one: "learned_min \<le> learned lg (dget_or (cooc t) k 1) (max_cooc t) \<and> learned lg (dget_or (cooc t) k 1) (max_cooc t) \<le> learned_max" for k
    using learned_bounds [OF assms(1-3)] max_cooc_pos [of t] by blast
  have "\<forall>e w. dget (foldl ?f (weight t) xs) e = Some w \<longrightarrow> learned_min \<le> w \<and> w \<le> learned_max" for xs
    using assms(4) by (intro foldl_keeps [where P = "\<lambda>d. \<forall>e w. dget d e = Some w \<longrightarrow> learned_min \<le> w \<and> w \<le> learned_max"])
      (use one in \<open>auto split: if_splits\<close>)
  then have w: "dget (weight (learn_strength lg t)) e = Some w \<Longrightarrow> learned_min \<le> w \<and> w \<le> learned_max" for e w
    unfolding weight_learn by blast
  show ?thesis using w by (auto simp: edge_w_def dget_or_def learned_min_def learned_max_def split: option.splits)
qed

lemma learned_weights_stay_in_band_witness:
  "let t = add_edge ''claim:1'' ''entity:rome'' ''mentions'' [] (add_edge ''claim:1'' ''person:ann'' ''about'' [] empty_table);
       lg = (\<lambda>x :: rat. x - 1) in
   learned_min \<le> edge_w (learn_strength lg t) ''claim:1'' ''entity:rome'' ''mentions''
   \<and> edge_w (learn_strength lg t) ''claim:1'' ''entity:rome'' ''mentions'' \<le> learned_max"
  unfolding Let_def
  by (rule learned_weights_stay_in_band) (simp_all add: add_edge_def empty_table_def)

section \<open>Saving loses nothing\<close>

lemma py_map_total: "(\<And>x. x \<in> set xs \<Longrightarrow> f (g x) = Inr (h x)) \<Longrightarrow> py_map f (List.map g xs) = Inr (List.map h xs)"
  by (induction xs) auto

lemma dset_all: "distinct (dkeys d) \<Longrightarrow> foldl (\<lambda>d (k, w). dset k w d) [] d = d"
proof (induction d rule: rev_induct)
  case (snoc p d)
  have "dset k w d = d @ [(k, w)]" if "k \<notin> set (dkeys d)" for k w using that by (induction d) auto
  then show ?case using snoc by (cases p) auto
qed simp

text \<open>C39: loading a saved table gives the table back, edge by edge and in order; the weights are a dictionary, so
  their keys are distinct.\<close>

theorem load_saved_table:
  assumes "distinct (dkeys (weight t))"
  shows "load_table (save_table t) = Inr t"
proof -
  have a: "py_map load_adj (List.map (\<lambda>(k, es). (k, JList (List.map (\<lambda>(b, ty, ev). JList [JStr b, JStr ty, JStr ev]) es))) d) = Inr d" for d
    using py_map_total [of d load_adj "\<lambda>(k, es). (k, JList (List.map (\<lambda>(b, ty, ev). JList [JStr b, JStr ty, JStr ev]) es))" "\<lambda>x. x"]
      py_map_total [of _ load_edge "\<lambda>(b, ty, ev). JList [JStr b, JStr ty, JStr ev]" "\<lambda>x. x"]
    by (auto simp: load_adj_def)
  have f: "py_map load_fan (List.map (\<lambda>(k, d). (k, JObj (List.map (\<lambda>(ty, n). (ty, JInt (int n))) d))) e) = Inr e" for e
    using py_map_total [of e load_fan "\<lambda>(k, d). (k, JObj (List.map (\<lambda>(ty, n). (ty, JInt (int n))) d))" "\<lambda>x. x"]
      py_map_total [of _ load_count "\<lambda>(ty, n). (ty, JInt (int n))" "\<lambda>x. x"]
    by (auto simp: load_fan_def)
  have k: "py_map (\<lambda>(k, v). py_bind (as_str v) (\<lambda>s. Inr (k, s))) (List.map (\<lambda>(k, v). (k, JStr v)) e) = Inr e" for e
    using py_map_total [of e "\<lambda>(k, v). py_bind (as_str v) (\<lambda>s. Inr (k, s))" "\<lambda>(k, v). (k, JStr v)" "\<lambda>x. x"] by auto
  have n: "py_map (\<lambda>(k, v). py_bind (as_dict v) (\<lambda>d. Inr (k, d))) (List.map (\<lambda>(k, d). (k, JObj d)) e) = Inr e" for e
    using py_map_total [of e "\<lambda>(k, v). py_bind (as_dict v) (\<lambda>d. Inr (k, d))" "\<lambda>(k, d). (k, JObj d)" "\<lambda>x. x"] by auto
  have w: "py_map load_weight (List.map (\<lambda>((a, b, ty), w). JList [JStr a, JStr b, JStr ty, JFloat w]) e) = Inr e" for e
    using py_map_total [of e load_weight "\<lambda>((a, b, ty), w). JList [JStr a, JStr b, JStr ty, JFloat w]" "\<lambda>x. x"] by auto
  show ?thesis
    by (simp add: load_table_def save_table_def jget_or_def dget_or_def a f k n w dset_all [OF assms])
qed

lemma load_saved_table_witness:
  "load_table (save_table (learn_strength (\<lambda>x. x) (add_edge ''claim:1'' ''person:ann'' ''about'' [] empty_table)))
     = Inr (learn_strength (\<lambda>x. x) (add_edge ''claim:1'' ''person:ann'' ''about'' [] empty_table))"
  by (rule load_saved_table) code_simp

section \<open>Searching for a path is bounded reachability\<close>

inductive walk :: "edge_table \<Rightarrow> nat \<Rightarrow> string \<Rightarrow> string \<Rightarrow> bool" for t where
  walk_nil: "walk t 0 a a"
| walk_step: "walk t n a b \<Longrightarrow> c \<in> fst ` set (edges t b) \<Longrightarrow> walk t (Suc n) a c"

inductive_cases walk_0E: "walk t 0 a b"
inductive_cases walk_SucE: "walk t (Suc n) a b"

text \<open>The frontier of hop \<open>h\<close> and the nodes seen so far, as distances from the start.\<close>

definition level :: "edge_table \<Rightarrow> string \<Rightarrow> nat \<Rightarrow> string set" where
  "level t a h = {b. walk t h a b \<and> (\<forall>m < h. \<not> walk t m a b)}"

definition seen_by :: "edge_table \<Rightarrow> string \<Rightarrow> nat \<Rightarrow> string set" where
  "seen_by t a h = {b. \<exists>m \<le> h. walk t m a b}"

lemma walk_level: "walk t n a b \<Longrightarrow> \<exists>m \<le> n. b \<in> level t a m"
proof -
  assume w: "walk t n a b"
  then obtain m where "walk t m a b" "\<forall>i < m. \<not> walk t i a b"
    using exists_least_iff [of "\<lambda>m. walk t m a b"] by blast
  then show ?thesis using w by (intro exI [of _ m]) (auto simp: level_def not_less [symmetric])
qed

lemma next_level: "next_frontier t (level t a h) (seen_by t a h) = level t a (Suc h)"
proof (intro set_eqI iffI)
  fix b assume "b \<in> next_frontier t (level t a h) (seen_by t a h)"
  then show "b \<in> level t a (Suc h)"
    by (auto simp: next_frontier_def level_def seen_by_def less_Suc_eq_le intro: walk_step)
next
  fix b assume b: "b \<in> level t a (Suc h)"
  then have "walk t (Suc h) a b" by (simp add: level_def)
  then obtain c where c: "walk t h a c" "b \<in> fst ` set (edges t c)" by (rule walk_SucE)
  have "\<forall>m < h. \<not> walk t m a c"
  proof (intro allI impI notI)
    fix m assume "m < h" "walk t m a c"
    then have "walk t (Suc m) a b" "Suc m < Suc h" using c(2) by (auto intro: walk_step)
    then show False using b by (auto simp: level_def)
  qed
  then have "c \<in> level t a h" using c(1) by (simp add: level_def)
  moreover have "b \<notin> seen_by t a h" using b by (auto simp: level_def seen_by_def)
  ultimately show "b \<in> next_frontier t (level t a h) (seen_by t a h)" using c(2) by (auto simp: next_frontier_def)
qed

lemma seen_by_Suc: "seen_by t a (Suc h) = seen_by t a h \<union> level t a (Suc h)"
  by (auto simp: seen_by_def level_def le_Suc_eq)

lemma level_empty: "level t a h = {} \<Longrightarrow> level t a (Suc h) = {}"
  by (auto simp flip: next_level simp: next_frontier_def)

lemma has_path_levels:
  "has_path_from t b k (level t a h) (seen_by t a h)
    \<longleftrightarrow> (\<exists>i < k. \<exists>n \<in> level t a (h + i). b \<in> fst ` set (edges t n))"
proof (induction k arbitrary: h)
  case (Suc k)
  have empty: "level t a (Suc (h + i)) = {}" if "level t a (Suc h) = {}" for i
    using that by (induction i) (simp_all add: level_empty)
  have "has_path_from t b (Suc k) (level t a h) (seen_by t a h) \<longleftrightarrow>
      (\<exists>n \<in> level t a h. b \<in> fst ` set (edges t n))
      \<or> level t a (Suc h) \<noteq> {} \<and> (\<exists>i < k. \<exists>n \<in> level t a (Suc h + i). b \<in> fst ` set (edges t n))"
    by (simp add: next_level Let_def seen_by_Suc [symmetric] Suc.IH)
  also have "\<dots> \<longleftrightarrow> (\<exists>i < Suc k. \<exists>n \<in> level t a (h + i). b \<in> fst ` set (edges t n))"
    using empty by (auto simp: Ex_less_Suc2)
  finally show ?case .
qed simp

lemma has_path_walks: "has_path t a b k \<longleftrightarrow> (\<exists>n. 1 \<le> n \<and> n \<le> k \<and> walk t n a b)"
proof -
  have "level t a 0 = {a}" "seen_by t a 0 = {a}"
    by (auto simp: level_def seen_by_def intro: walk_nil elim: walk_0E)
  then have "has_path t a b k \<longleftrightarrow> (\<exists>i < k. \<exists>n \<in> level t a i. b \<in> fst ` set (edges t n))"
    using has_path_levels [of t b k a 0] by (simp add: has_path_def)
  also have "\<dots> \<longleftrightarrow> (\<exists>n. 1 \<le> n \<and> n \<le> k \<and> walk t n a b)"
  proof
    assume "\<exists>i < k. \<exists>n \<in> level t a i. b \<in> fst ` set (edges t n)"
    then obtain i n where "i < k" "n \<in> level t a i" "b \<in> fst ` set (edges t n)" by blast
    then show "\<exists>n. 1 \<le> n \<and> n \<le> k \<and> walk t n a b"
      by (intro exI [of _ "Suc i"]) (auto simp: level_def intro: walk_step)
  next
    assume "\<exists>n. 1 \<le> n \<and> n \<le> k \<and> walk t n a b"
    then obtain n where n: "Suc n \<le> k" "walk t (Suc n) a b" by (metis One_nat_def Suc_le_D)
    obtain c where c: "walk t n a c" "b \<in> fst ` set (edges t c)" using n(2) by (rule walk_SucE)
    obtain m where "m \<le> n" "c \<in> level t a m" using walk_level [OF c(1)] by blast
    then show "\<exists>i < k. \<exists>n \<in> level t a i. b \<in> fst ` set (edges t n)"
      using n(1) c(2) by (intro exI [of _ m]) auto
  qed
  finally show ?thesis .
qed

text \<open>The search of \<open>has_path\<close> is bounded reachability: it answers yes exactly when a walk of one to \<open>k\<close>
  recorded edges leads from the first node to the second.\<close>

theorem has_path_is_bounded_walk: "has_path t a b k \<longleftrightarrow> (\<exists>n. 1 \<le> n \<and> n \<le> k \<and> walk t n a b)"
  by (rule has_path_walks)

end
