(* ===== verification/Spread.thy ===== *)
theory Spread
  imports Edges
begin

text \<open>
  \<open>assoc/spread.py\<close>: spreading activation. Seeds are normalised to one unit, every hop passes activation along the
  edges of the table with an attenuation and a penalty for the fan of a node, keeps the strongest arrivals and
  records the paths they came by. \<open>pw f\<close> is the fan \<open>f\<close> to the power \<open>- alpha\<close>.
\<close>

section \<open>State\<close>

type_synonym path_edge = "string \<times> string \<times> string \<times> rat"

record spread_path =
  sp_a :: rat
  sp_edges :: "path_edge list"

record reached =
  re_r :: "(string, rat) dict"
  re_paths :: "(string, spread_path list) dict"
  re_hops :: "(string, nat) dict"

record spread_knobs =
  kn_gamma :: rat
  kn_eps :: rat
  kn_beam :: nat
  kn_types :: "(string, rat) dict"
  kn_pw :: "nat \<Rightarrow> rat"

definition default_knobs :: "(nat \<Rightarrow> rat) \<Rightarrow> spread_knobs" where
  "default_knobs pw = \<lparr>kn_gamma = 6/10, kn_eps = 1/10000, kn_beam = 200, kn_types = s_type, kn_pw = pw\<rparr>"

definition self_node :: string where
  "self_node = ''person:_self''"

definition not_expanded :: "string list" where
  "not_expanded = [''in_doc'', ''same_cell'']"

section \<open>One hop\<close>

text \<open>The path rules: which edges of a node pass activation on.\<close>

definition passes :: "string \<Rightarrow> string list \<Rightarrow> edge \<Rightarrow> bool" where
  "passes j on_path e =
     (let base = namespace_of (fst (snd e)) in
      base \<notin> set not_expanded \<and> \<not> (j = self_node \<and> base \<in> {''mentions'', ''about''}) \<and> fst e \<notin> set on_path)"

definition edge_mult :: "spread_knobs \<Rightarrow> edge_table \<Rightarrow> string \<Rightarrow> edge \<Rightarrow> rat" where
  "edge_mult kn t j e =
     (let ty = fst (snd e); s = dget_or (kn_types kn) (namespace_of ty) (dget_or (kn_types kn) ty (1/2)) * edge_w t j (fst e) ty
      in min (s * kn_gamma kn * kn_pw kn (fan_of t j ty)) (999/1000))"

definition arrivals_of ::
  "spread_knobs \<Rightarrow> edge_table \<Rightarrow> (string, path_edge list) dict \<Rightarrow> string \<times> rat \<Rightarrow> (string \<times> spread_path) list" where
  "arrivals_of kn t best p =
     (let j = fst p; way = dget_or best j []; on_path = j # List.map fst way in
      List.map_filter (\<lambda>e.
        if \<not> passes j on_path e then None
        else let m = edge_mult kn t j e; a = snd p * m in
          if a < kn_eps kn then None
          else Some (fst e, \<lparr>sp_a = a, sp_edges = way @ [(j, fst (snd e), fst e, round4 m)]\<rparr>)) (edges t j))"

definition hop_arrivals ::
  "spread_knobs \<Rightarrow> edge_table \<Rightarrow> (string, path_edge list) dict \<Rightarrow> (string, rat) dict \<Rightarrow> (string \<times> spread_path) list" where
  "hop_arrivals kn t best frontier = concat (List.map (arrivals_of kn t best) frontier)"

definition arrival_sums :: "(string \<times> spread_path) list \<Rightarrow> (string, rat) dict" where
  "arrival_sums ars = foldl (\<lambda>d (i, p). dset i (dget_or d i 0 + sp_a p) d) [] ars"

definition strongest :: "spread_path list \<Rightarrow> spread_path list" where
  "strongest ps = take 3 (sort_key (\<lambda>p. - sp_a p) ps)"

definition came_by :: "(string \<times> spread_path) list \<Rightarrow> string \<Rightarrow> spread_path list" where
  "came_by ars i = strongest (List.map snd (filter (\<lambda>x. fst x = i) ars))"

definition note_arrival :: "nat \<Rightarrow> (string \<times> spread_path) list \<Rightarrow> reached \<Rightarrow> string \<times> rat \<Rightarrow> reached" where
  "note_arrival h ars out p =
     (let i = fst p in
      \<lparr>re_r = dset i (dget_or (re_r out) i 0 + snd p) (re_r out),
       re_paths = dset i (strongest (dget_or (re_paths out) i [] @ came_by ars i)) (re_paths out),
       re_hops = dsetdefault i h (re_hops out)\<rparr>)"

definition best_ways ::
  "(string \<times> spread_path) list \<Rightarrow> (string, rat) dict \<Rightarrow> (string, path_edge list) dict \<Rightarrow> (string, path_edge list) dict" where
  "best_ways ars front best =
     foldl (\<lambda>b (i, a). dset i (case came_by ars i of [] \<Rightarrow> [] | p # _ \<Rightarrow> sp_edges p) b) best front"

definition top_of :: "spread_knobs \<Rightarrow> (string \<times> spread_path) list \<Rightarrow> (string, rat) dict" where
  "top_of kn ars = take (kn_beam kn) (sort_key (\<lambda>kv. - snd kv) (arrival_sums ars))"

text \<open>The hops that are left, from hop \<open>h\<close> on.\<close>

fun hops_from ::
  "spread_knobs \<Rightarrow> edge_table \<Rightarrow> nat \<Rightarrow> nat \<Rightarrow> (string, rat) dict \<Rightarrow> (string, path_edge list) dict \<Rightarrow> reached \<Rightarrow> reached" where
  "hops_from kn t 0 h frontier best out = out"
| "hops_from kn t (Suc k) h frontier best out =
     (let ars = hop_arrivals kn t best frontier in
      if arrival_sums ars = [] then out
      else let front = top_of kn ars in
        hops_from kn t k (h + 1) front (best_ways ars front best) (foldl (note_arrival h ars) out front))"

section \<open>Spreading\<close>

definition positive :: "(string, rat) dict \<Rightarrow> (string, rat) dict" where
  "positive seeds = filter (\<lambda>kv. 0 < snd kv) seeds"

definition seed_total :: "(string, rat) dict \<Rightarrow> rat" where
  "seed_total seeds = (let s = sum_list (List.map snd (positive seeds)) in if s = 0 then 1 else s)"

definition seed_frontier :: "(string, rat) dict \<Rightarrow> (string, rat) dict" where
  "seed_frontier seeds = List.map (\<lambda>(n, v). (n, v / seed_total seeds)) (positive seeds)"

definition seed_reached :: "(string, rat) dict \<Rightarrow> reached" where
  "seed_reached frontier =
     \<lparr>re_r = frontier, re_paths = List.map (\<lambda>(n, a). (n, [\<lparr>sp_a = a, sp_edges = []\<rparr>])) frontier,
      re_hops = List.map (\<lambda>(n, a). (n, 0)) frontier\<rparr>"

definition spread :: "spread_knobs \<Rightarrow> nat \<Rightarrow> edge_table \<Rightarrow> (string, rat) dict \<Rightarrow> reached" where
  "spread kn k t seeds =
     (let frontier = seed_frontier seeds in
      hops_from kn t k 1 frontier (List.map (\<lambda>(n, a). (n, [])) frontier) (seed_reached frontier))"

definition activation_of :: "(rat \<Rightarrow> rat) \<Rightarrow> rat \<Rightarrow> rat \<Rightarrow> rat \<Rightarrow> rat \<Rightarrow> rat \<Rightarrow> rat" where
  "activation_of lg kappa lam r odds auth = lg (odds + kappa * max r 0) + lam * lg (1 + max auth 0)"

section \<open>Paths\<close>

text \<open>A chain of edges of the table that passes the path rules, from one node to another.\<close>

definition edge_allowed :: "string \<Rightarrow> string \<Rightarrow> bool" where
  "edge_allowed j ty = (namespace_of ty \<notin> set not_expanded \<and> \<not> (j = self_node \<and> namespace_of ty \<in> {''mentions'', ''about''}))"

fun chain :: "edge_table \<Rightarrow> string \<Rightarrow> path_edge list \<Rightarrow> string \<Rightarrow> bool" where
  "chain t a [] b = (a = b)"
| "chain t a ((f, ty, to, s) # es) b =
     (f = a \<and> (\<exists>ev. (to, ty, ev) \<in> set (edges t a)) \<and> edge_allowed a ty \<and> chain t to es b)"

definition simple_path :: "edge_table \<Rightarrow> string set \<Rightarrow> string \<Rightarrow> path_edge list \<Rightarrow> bool" where
  "simple_path t seeds n es = (distinct (List.map fst es @ [n]) \<and> (\<exists>a \<in> seeds. chain t a es n))"

lemma recorded_chain_snoc:
  "chain t a es j \<Longrightarrow> (i, ty, ev) \<in> set (edges t j) \<Longrightarrow> edge_allowed j ty \<Longrightarrow> chain t a (es @ [(j, ty, i, m)]) i"
  by (induction t a es j rule: chain.induct) auto

lemma chain_walk: "chain t a es b \<Longrightarrow> walk t n c a \<Longrightarrow> walk t (n + length es) c b"
proof (induction t a es b arbitrary: n rule: chain.induct)
  case (2 t a f ty to s es b)
  then obtain ev where "(to, ty, ev) \<in> set (edges t a)" "chain t to es b" by auto
  moreover from this(1) have "walk t (Suc n) c to" using 2(3) by (intro walk_step) force+
  ultimately have "walk t (Suc n + length es) c b" using 2(1) by blast
  then show ?case by simp
qed simp

lemma arrival_path:
  assumes "(i, p) \<in> set (arrivals_of kn t best (j, a_j))" "simple_path t seeds j (dget_or best j [])"
  shows "simple_path t seeds i (sp_edges p)" "length (sp_edges p) = Suc (length (dget_or best j []))" "kn_eps kn \<le> sp_a p"
proof -
  obtain e where e: "e \<in> set (edges t j)" "passes j (j # List.map fst (dget_or best j [])) e" "i = fst e"
    "sp_edges p = dget_or best j [] @ [(j, fst (snd e), fst e, round4 (edge_mult kn t j e))]" "\<not> sp_a p < kn_eps kn"
    using assms(1) by (auto simp: arrivals_of_def Let_def List.map_filter_def split: if_splits)
  obtain a where a: "a \<in> seeds" "chain t a (dget_or best j []) j" using assms(2) by (auto simp: simple_path_def)
  have "edge_allowed j (fst (snd e))" "i \<notin> set (j # List.map fst (dget_or best j []))"
    using e(2,3) by (auto simp: passes_def edge_allowed_def Let_def)
  moreover have "(i, fst (snd e), snd (snd e)) \<in> set (edges t j)" using e(1,3) by simp
  ultimately have "chain t a (sp_edges p) i" "distinct (List.map fst (sp_edges p) @ [i])"
    unfolding e(4) e(3) [symmetric] using assms(2) by (blast intro: recorded_chain_snoc [OF a(2)], auto simp: simple_path_def)
  then show "simple_path t seeds i (sp_edges p)" using a(1) by (auto simp: simple_path_def)
  show "length (sp_edges p) = Suc (length (dget_or best j []))" using e(4) by simp
  show "kn_eps kn \<le> sp_a p" using e(5) by simp
qed

section \<open>The invariant of the hops\<close>

lemma strongest_props:
  "length (strongest ps) \<le> 3" "sorted_wrt (\<lambda>p q. sp_a q \<le> sp_a p) (strongest ps)" "set (strongest ps) \<subseteq> set ps"
  "strongest ps = [] \<longleftrightarrow> ps = []"
proof -
  have "sorted_wrt (\<lambda>p q. sp_a q \<le> sp_a p) (sort_key (\<lambda>p. - sp_a p) ps)"
    using sorted_sort_key [of "\<lambda>p. - sp_a p" ps] by (simp add: sorted_map sorted_wrt_mono_rel)
  then show "sorted_wrt (\<lambda>p q. sp_a q \<le> sp_a p) (strongest ps)" by (simp add: strongest_def sorted_wrt_take)
  show "set (strongest ps) \<subseteq> set ps" using set_take_subset [of 3 "sort_key (\<lambda>p. - sp_a p) ps"] by (simp add: strongest_def)
  show "strongest ps = [] \<longleftrightarrow> ps = []"
    by (simp add: strongest_def) (metis length_0_conv length_sort)
qed (simp add: strongest_def)

lemma came_by_in: "p \<in> set (came_by ars i) \<Longrightarrow> (i, p) \<in> set ars"
  using strongest_props(3) [of "List.map snd (filter (\<lambda>x. fst x = i) ars)"] by (fastforce simp: came_by_def)

lemma fst_set_dset: "fst ` set (dset k v d) = insert k (fst ` set d)"
  by (induction d) auto

lemma arrival_sums_keys: "set (dkeys (arrival_sums ars)) = fst ` set ars"
proof (induction ars rule: rev_induct)
  case (snoc x ars)
  have "arrival_sums (ars @ [x]) = dset (fst x) (dget_or (arrival_sums ars) (fst x) 0 + sp_a (snd x)) (arrival_sums ars)"
    by (cases x) (simp add: arrival_sums_def)
  then show ?case using snoc by (simp add: fst_set_dset)
qed (simp add: arrival_sums_def)

lemma front_key: "(i, a) \<in> set (top_of kn ars) \<Longrightarrow> came_by ars i \<noteq> []"
proof -
  assume "(i, a) \<in> set (top_of kn ars)"
  then have "(i, a) \<in> set (arrival_sums ars)" using in_set_takeD by (fastforce simp: top_of_def)
  then have "i \<in> fst ` set ars" using arrival_sums_keys [of ars] by force
  then obtain x where "x \<in> set ars" "fst x = i" by auto
  then have "filter (\<lambda>x. fst x = i) ars \<noteq> []" by (auto simp: filter_empty_conv)
  then show ?thesis by (simp add: came_by_def strongest_props(4))
qed

lemma best_ways_get:
  "dget (best_ways ars front best) i =
     (if i \<in> set (dkeys front) then Some (case came_by ars i of [] \<Rightarrow> [] | p # _ \<Rightarrow> sp_edges p) else dget best i)"
  unfolding best_ways_def by (induction front arbitrary: best) auto

definition ways_ok :: "edge_table \<Rightarrow> string set \<Rightarrow> nat \<Rightarrow> (string, rat) dict \<Rightarrow> (string, path_edge list) dict \<Rightarrow> bool" where
  "ways_ok t S h frontier best = (\<forall>j \<in> set (dkeys frontier).
     simple_path t S j (dget_or best j []) \<and> length (dget_or best j []) = h)"

definition paths_ok :: "edge_table \<Rightarrow> string set \<Rightarrow> nat \<Rightarrow> string \<Rightarrow> spread_path list \<Rightarrow> bool" where
  "paths_ok t S h n ps = (ps \<noteq> [] \<and> length ps \<le> 3 \<and> sorted_wrt (\<lambda>p q. sp_a q \<le> sp_a p) ps
     \<and> (\<forall>p \<in> set ps. simple_path t S n (sp_edges p) \<and> length (sp_edges p) \<le> h))"

definition out_ok :: "edge_table \<Rightarrow> string set \<Rightarrow> nat \<Rightarrow> reached \<Rightarrow> bool" where
  "out_ok t S h out = (\<forall>n.
     (dget (re_r out) n = None \<longleftrightarrow> dget (re_paths out) n = None) \<and> (dget (re_r out) n = None \<longleftrightarrow> dget (re_hops out) n = None)
     \<and> (\<forall>ps. dget (re_paths out) n = Some ps \<longrightarrow> paths_ok t S h n ps)
     \<and> (\<forall>m. dget (re_hops out) n = Some m \<longrightarrow> m \<le> h \<and> (\<exists>a \<in> S. walk t m a n)))"

lemma out_okD:
  assumes "out_ok t S h out"
  shows "dget (re_r out) n = None \<longleftrightarrow> dget (re_paths out) n = None" "dget (re_r out) n = None \<longleftrightarrow> dget (re_hops out) n = None"
    "dget (re_paths out) n = Some ps \<Longrightarrow> paths_ok t S h n ps"
    "dget (re_hops out) n = Some m \<Longrightarrow> m \<le> h \<and> (\<exists>a \<in> S. walk t m a n)"
  using assms unfolding out_ok_def by blast+

lemma hop_arrival_path:
  assumes "ways_ok t S h frontier best" "(i, p) \<in> set (hop_arrivals kn t best frontier)"
  shows "simple_path t S i (sp_edges p) \<and> length (sp_edges p) = Suc h"
proof -
  obtain j a where j: "(j, a) \<in> set frontier" "(i, p) \<in> set (arrivals_of kn t best (j, a))"
    using assms(2) by (auto simp: hop_arrivals_def)
  then have "simple_path t S j (dget_or best j []) \<and> length (dget_or best j []) = h"
    using assms(1) by (force simp: ways_ok_def)
  then show ?thesis using arrival_path [OF j(2)] by auto
qed

lemma ways_ok_step:
  assumes "ways_ok t S h frontier best" "ars = hop_arrivals kn t best frontier"
  shows "ways_ok t S (Suc h) (top_of kn ars) (best_ways ars (top_of kn ars) best)"
  unfolding ways_ok_def
proof
  fix j assume j: "j \<in> set (dkeys (top_of kn ars))"
  then obtain p ps where p: "came_by ars j = p # ps" using front_key [of j] by (metis (no_types, lifting) imageE list.exhaust list.set_map prod.collapse)
  then have "(j, p) \<in> set ars" using came_by_in [of p ars j] by simp
  then have "simple_path t S j (sp_edges p) \<and> length (sp_edges p) = Suc h"
    using hop_arrival_path assms by blast
  then show "simple_path t S j (dget_or (best_ways ars (top_of kn ars) best) j [])
      \<and> length (dget_or (best_ways ars (top_of kn ars) best) j []) = Suc h"
    using j p by (simp add: dget_or_def best_ways_get)
qed

lemma simple_path_walk: "simple_path t S n es \<Longrightarrow> \<exists>a \<in> S. walk t (length es) a n"
  using chain_walk [OF _ walk_nil] by (fastforce simp: simple_path_def)

lemma note_arrival_ok:
  assumes out: "out_ok t S (Suc h) out" and p: "\<And>p. (fst x, p) \<in> set ars \<Longrightarrow> simple_path t S (fst x) (sp_edges p) \<and> length (sp_edges p) = Suc h"
    and ne: "came_by ars (fst x) \<noteq> []"
  shows "out_ok t S (Suc h) (note_arrival (Suc h) ars out x)"
proof -
  let ?i = "fst x" and ?out = "note_arrival (Suc h) ars out x"
  let ?old = "dget_or (re_paths out) ?i []"
  have old: "\<forall>p \<in> set ?old. simple_path t S ?i (sp_edges p) \<and> length (sp_edges p) \<le> Suc h"
  proof (cases "dget (re_paths out) ?i")
    case (Some ps)
    then have "paths_ok t S (Suc h) ?i ps" using out by (simp add: out_ok_def)
    then show ?thesis using Some by (simp add: paths_ok_def dget_or_def)
  qed (simp add: dget_or_def)
  have new: "\<forall>p \<in> set (came_by ars ?i). simple_path t S ?i (sp_edges p) \<and> length (sp_edges p) = Suc h"
    using p came_by_in by blast
  have paths: "paths_ok t S (Suc h) ?i (strongest (?old @ came_by ars ?i))"
    using old new ne strongest_props [of "?old @ came_by ars ?i"] by (auto simp: paths_ok_def)
  obtain a where a: "a \<in> S" "walk t (Suc h) a ?i"
    using new ne simple_path_walk by (metis hd_in_set)
  show ?thesis
    unfolding out_ok_def
  proof
    fix n
    have o: "(dget (re_r out) n = None \<longleftrightarrow> dget (re_paths out) n = None)" "(dget (re_r out) n = None \<longleftrightarrow> dget (re_hops out) n = None)"
     "\<And>ps. dget (re_paths out) n = Some ps \<Longrightarrow> paths_ok t S (Suc h) n ps"
     "\<And>m. dget (re_hops out) n = Some m \<Longrightarrow> m \<le> Suc h \<and> (\<exists>a \<in> S. walk t m a n)"
      using out by (auto simp: out_ok_def)
    have g: "dget (re_r ?out) n = (if n = ?i then Some (dget_or (re_r out) ?i 0 + snd x) else dget (re_r out) n)"
      "dget (re_paths ?out) n = (if n = ?i then Some (strongest (?old @ came_by ars ?i)) else dget (re_paths out) n)"
      "dget (re_hops ?out) n = (if n = ?i then Some (dget_or (re_hops out) ?i (Suc h)) else dget (re_hops out) n)"
      by (simp_all add: note_arrival_def Let_def)
    have hop: "m \<le> Suc h \<and> (\<exists>a \<in> S. walk t m a n)" if "dget (re_hops ?out) n = Some m" for m
      using that o(4) a unfolding g by (auto simp: dget_or_def split: if_splits option.splits)
    show "(dget (re_r ?out) n = None \<longleftrightarrow> dget (re_paths ?out) n = None) \<and> (dget (re_r ?out) n = None \<longleftrightarrow> dget (re_hops ?out) n = None)
     \<and> (\<forall>ps. dget (re_paths ?out) n = Some ps \<longrightarrow> paths_ok t S (Suc h) n ps)
     \<and> (\<forall>m. dget (re_hops ?out) n = Some m \<longrightarrow> m \<le> Suc h \<and> (\<exists>a \<in> S. walk t m a n))"
      using hop o(1-3) paths unfolding g(1,2) by (auto simp: g(3))
  qed
qed

lemma paths_ok_mono: "paths_ok t S h n ps \<Longrightarrow> h \<le> h' \<Longrightarrow> paths_ok t S h' n ps"
  by (auto simp: paths_ok_def)

lemma out_ok_mono:
  assumes "out_ok t S h out" "h \<le> h'" shows "out_ok t S h' out"
  unfolding out_ok_def
  using out_okD [OF assms(1)] paths_ok_mono [OF _ assms(2)] le_trans [OF _ assms(2)] by blast

lemma note_arrivals_ok:
  assumes "out_ok t S (Suc h) out" "ways_ok t S h frontier best" "ars = hop_arrivals kn t best frontier" "set xs \<subseteq> set (top_of kn ars)"
  shows "out_ok t S (Suc h) (foldl (note_arrival (Suc h) ars) out xs)"
  using assms(1,4)
proof (induction xs arbitrary: out)
  case (Cons x xs)
  have "out_ok t S (Suc h) (note_arrival (Suc h) ars out x)"
  proof (rule note_arrival_ok [OF Cons.prems(1)])
    show "came_by ars (fst x) \<noteq> []" using Cons.prems(2) front_key [of "fst x" "snd x" kn ars] by simp
  qed (use hop_arrival_path assms(2,3) in blast)
  then show ?case using Cons by simp
qed simp

lemma hops_from_ok:
  assumes "ways_ok t S h frontier best" "out_ok t S h out"
  shows "out_ok t S (h + k) (hops_from kn t k (Suc h) frontier best out)"
  using assms
proof (induction k arbitrary: h frontier best out)
  case (Suc k)
  let ?ars = "hop_arrivals kn t best frontier"
  have "out_ok t S (Suc h) (foldl (note_arrival (Suc h) ?ars) out (top_of kn ?ars))"
    using Suc.prems out_ok_mono by (intro note_arrivals_ok [OF _ Suc.prems(1) refl]) auto
  then have "out_ok t S (Suc h + k) (hops_from kn t k (Suc (Suc h)) (top_of kn ?ars) (best_ways ?ars (top_of kn ?ars) best)
      (foldl (note_arrival (Suc h) ?ars) out (top_of kn ?ars)))"
    using Suc.IH [OF ways_ok_step [OF Suc.prems(1) refl]] by blast
  then show ?case using Suc.prems(2) out_ok_mono [of t S h out "h + Suc k"] by (simp add: Let_def)
qed simp

definition seed_nodes :: "(string, rat) dict \<Rightarrow> string set" where
  "seed_nodes seeds = {n. \<exists>v. (n, v) \<in> set seeds \<and> 0 < v}"

lemma dget_map_same: "dget (List.map (\<lambda>(n, a). (n, f n a)) d) k = map_option (f k) (dget d k)"
  by (induction d) auto

lemma seed_keys: "set (dkeys (seed_frontier seeds)) = seed_nodes seeds"
  by (force simp: seed_frontier_def positive_def seed_nodes_def)

lemma spread_out_ok: "out_ok t (seed_nodes seeds) k (spread kn k t seeds)"
proof -
  let ?f = "seed_frontier seeds"
  have key: "n \<in> seed_nodes seeds" if "dget ?f n = Some a" for n a
    using dget_Some_in_set [OF that] by (force simp flip: seed_keys)
  have self: "simple_path t (seed_nodes seeds) n []" if "n \<in> seed_nodes seeds" for n using that by (simp add: simple_path_def)
  have "ways_ok t (seed_nodes seeds) 0 ?f (List.map (\<lambda>(n, a). (n, [])) ?f)"
    unfolding ways_ok_def seed_keys using self by (auto simp: dget_or_def dget_map_same split: option.splits)
  moreover have "out_ok t (seed_nodes seeds) 0 (seed_reached ?f)"
    using key self by (auto simp: out_ok_def seed_reached_def dget_map_same paths_ok_def intro: walk_nil)
  ultimately show ?thesis using hops_from_ok [of t "seed_nodes seeds" 0] by (simp add: spread_def Let_def)
qed

text \<open>Every path that is kept to explain a reached node is a recorded one. It leads from a seed to the node in at
  most as many edges as there were hops, along edges of the table that the path rules allow, and never meets a
  node twice; each reached node has at least one and at most three such paths, strongest first.\<close>

theorem kept_paths_are_recorded:
  assumes "dget (re_r (spread kn k t seeds)) n = Some r"
  shows "\<exists>ps. dget (re_paths (spread kn k t seeds)) n = Some ps \<and> ps \<noteq> [] \<and> length ps \<le> 3
    \<and> sorted_wrt (\<lambda>p q. sp_a q \<le> sp_a p) ps
    \<and> (\<forall>p \<in> set ps. length (sp_edges p) \<le> k \<and> distinct (List.map fst (sp_edges p) @ [n])
        \<and> (\<exists>a \<in> seed_nodes seeds. chain t a (sp_edges p) n))"
proof -
  obtain ps where ps: "dget (re_paths (spread kn k t seeds)) n = Some ps"
    using out_okD(1) [OF spread_out_ok, of kn k t seeds n] assms by (cases "dget (re_paths (spread kn k t seeds)) n") auto
  then have "paths_ok t (seed_nodes seeds) k n ps" by (rule out_okD(3) [OF spread_out_ok])
  then show ?thesis using ps by (auto simp: paths_ok_def simple_path_def)
qed

text \<open>The hop a node is reported at is real: a walk of that many recorded edges leads to it from a seed, so
  whatever spreading reaches the path search finds.\<close>

theorem hops_are_walks:
  assumes "dget (re_hops (spread kn k t seeds)) n = Some h"
  shows "h \<le> k \<and> (\<exists>a \<in> seed_nodes seeds. n = a \<and> h = 0 \<or> has_path t a n k)"
proof -
  obtain a where a: "h \<le> k" "a \<in> seed_nodes seeds" "walk t h a n"
    using out_okD(4) [OF spread_out_ok assms] by blast
  show ?thesis
  proof (cases h)
    case 0
    then show ?thesis using a by (auto elim: walk_0E)
  next
    case (Suc m)
    then show ?thesis using a has_path_walks [of t a n k] by auto
  qed
qed

definition small_table :: edge_table where
  "small_table = add_edge ''b'' ''c'' ''rel:y'' [] (add_edge ''a'' ''b'' ''rel:x'' [] empty_table)"

lemma kept_paths_are_recorded_witness:
  "\<exists>ps. dget (re_paths (spread (default_knobs (\<lambda>f. 1)) 2 small_table [(''a'', 2)])) ''c'' = Some ps \<and> ps \<noteq> [] \<and> length ps \<le> 3"
proof -
  have "dget (re_r (spread (default_knobs (\<lambda>f. 1)) 2 small_table [(''a'', 2)])) ''c'' = Some (9/25)" by code_simp
  from kept_paths_are_recorded [OF this] show ?thesis by blast
qed

lemma hops_are_walks_witness:
  "dget (re_hops (spread (default_knobs (\<lambda>f. 1)) 2 small_table [(''a'', 2)])) ''c'' = Some 2
   \<and> (\<exists>a \<in> seed_nodes [(''a'', 2)]. has_path small_table a ''c'' 2)"
proof -
  have h: "dget (re_hops (spread (default_knobs (\<lambda>f. 1)) 2 small_table [(''a'', 2)])) ''c'' = Some 2" by code_simp
  from hops_are_walks [OF h] h show ?thesis by auto
qed

text \<open>The reached amount is meant as a fraction of the cue's activation. No single edge amplifies, but the fan
  penalty is softer than the fan: through a hub with nine neighbours more than the whole activation of the cue
  arrives at one node. \<open>pw\<close> is exact on the fans of this table, \<open>9\<close> and \<open>1\<close>.\<close>

definition hub_table :: edge_table where
  "hub_table = foldl (\<lambda>t m. add_edge [m] ''T'' ''rel:b'' [] (add_edge ''S'' [m] ''rel:a'' [] t)) empty_table ''abcdefghi''"

lemma more_than_the_cue_arrives:
  "dget (re_r (spread (default_knobs (\<lambda>f. if f = 9 then 1/3 else 1)) 2 hub_table [(''S'', 1)])) ''T'' = Some (27/25)"
  by code_simp

end
