(* ===== verification/Activation.thy ===== *)
theory Activation
  imports Doc_Store
begin

text \<open>
  \<open>assoc/activation.py\<close>: the accesses of every node, in a global layer and in one layer per scope. The table of the
  database is a dictionary keyed by layer and node, a commit is the end of an operation, and the lock serialises
  operations. \<open>pw x y\<close> is the power, \<open>ex\<close> and \<open>lg\<close> the exponential and the logarithm, \<open>dumps\<close> the JSON text of
  an object with sorted keys. Times are hours.
\<close>

section \<open>State\<close>

datatype access_entry = Stamp rat | Paced rat rat

fun entry_time :: "access_entry \<Rightarrow> rat" where
  "entry_time (Stamp t) = t"
| "entry_time (Paced t d) = t"

fun entry_decay :: "rat \<Rightarrow> access_entry \<Rightarrow> rat" where
  "entry_decay d (Stamp t) = d"
| "entry_decay d (Paced t dk) = dk"

record access_row =
  ar_recent :: "access_entry list"
  ar_old :: nat
  ar_first :: rat
  ar_last :: rat

type_synonym access_db = "(string \<times> string, access_row) dict"

record act_env =
  av_pw :: "rat \<Rightarrow> rat \<Rightarrow> rat"
  av_ex :: "rat \<Rightarrow> rat"
  av_lg :: "rat \<Rightarrow> rat"
  av_dumps :: "jobj \<Rightarrow> string"
  av_d :: rat
  av_b0 :: rat
  av_discount :: rat
  av_variable :: bool

definition recent_keep :: nat where "recent_keep = 20"
definition min_age_h :: rat where "min_age_h = 1/60"
definition pa_c :: rat where "pa_c = 217/1000"
definition pa_a :: rat where "pa_a = 177/1000"
definition pa_d_max :: rat where "pa_d_max = 2"

definition global_layer :: string where
  "global_layer = ''__global__''"

definition cold_baseline :: "(rat \<Rightarrow> rat \<Rightarrow> rat) \<Rightarrow> (rat \<Rightarrow> rat) \<Rightarrow> rat \<Rightarrow> rat \<Rightarrow> rat" where
  "cold_baseline pw lg d cold_days = lg (pw (cold_days * 24) (- d))"

section \<open>Odds\<close>

definition odds_from_accesses ::
  "(rat \<Rightarrow> rat \<Rightarrow> rat) \<Rightarrow> rat \<Rightarrow> rat \<Rightarrow> access_entry list \<Rightarrow> nat \<Rightarrow> rat \<Rightarrow> rat" where
  "odds_from_accesses pw d now_h recent count_old first_h =
     (let s = sum_list (List.map (\<lambda>e. pw (max (now_h - entry_time e) min_age_h) (- entry_decay d e)) recent) in
      if count_old = 0 then s
      else
        let oldest = (if recent = [] then now_h else Min (set (List.map entry_time recent)));
            t1 = max (now_h - first_h) min_age_h; t2 = max (now_h - oldest) min_age_h in
        if t2 < t1 \<and> d \<noteq> 1 then s + of_nat count_old * (pw t1 (1 - d) - pw t2 (1 - d)) / ((1 - d) * (t1 - t2))
        else s + of_nat count_old * pw t1 (- d))"

definition scope_key :: "(jobj \<Rightarrow> string) \<Rightarrow> jobj \<Rightarrow> string" where
  "scope_key dumps scope =
     (let keep = filter (\<lambda>(k, v). k \<in> {''tenant'', ''conversation'', ''branch'', ''user''} \<and> v \<noteq> JNull) scope
      in if keep = [] then [] else dumps keep)"

section \<open>Touching\<close>

definition paced_d :: "act_env \<Rightarrow> rat \<Rightarrow> rat" where
  "paced_d env m = min (pa_c * av_ex env m + pa_a) pa_d_max"

definition first_entry :: "act_env \<Rightarrow> rat \<Rightarrow> access_entry" where
  "first_entry env t = (if av_variable env then Paced t (paced_d env (av_b0 env)) else Stamp t)"

definition next_entry :: "act_env \<Rightarrow> rat \<Rightarrow> access_row \<Rightarrow> access_entry" where
  "next_entry env t row =
     (if av_variable env
      then Paced t (paced_d env (av_lg env (max (odds_from_accesses (av_pw env) (av_d env) t (ar_recent row) (ar_old row) (ar_first row))
             (av_ex env (av_b0 env)))))
      else Stamp t)"

definition keep_recent :: "access_entry list \<Rightarrow> access_entry list" where
  "keep_recent es = drop (length es - recent_keep) es"

definition touch_row :: "act_env \<Rightarrow> rat \<Rightarrow> access_row option \<Rightarrow> access_row" where
  "touch_row env t r =
     (case r of
        None \<Rightarrow> \<lparr>ar_recent = [first_entry env t], ar_old = 0, ar_first = t, ar_last = t\<rparr>
      | Some row \<Rightarrow>
          let es = sort_key entry_time (ar_recent row @ [next_entry env t row]); kept = keep_recent es;
              oldest = Min (set (List.map entry_time kept)) in
          \<lparr>ar_recent = kept, ar_old = ar_old row + (length es - recent_keep), ar_first = min (min (ar_first row) t) oldest,
           ar_last = max (if ar_last row = 0 then t else ar_last row) t\<rparr>)"

definition layers_of :: "act_env \<Rightarrow> jobj \<Rightarrow> string list" where
  "layers_of env scope = (let sk = scope_key (av_dumps env) scope in if sk = [] then [global_layer] else [global_layer, sk])"

definition touch_at :: "act_env \<Rightarrow> rat \<Rightarrow> access_db \<Rightarrow> string \<times> string \<Rightarrow> access_db" where
  "touch_at env t db k = dset k (touch_row env t (dget db k)) db"

definition touch :: "act_env \<Rightarrow> string list \<Rightarrow> rat \<Rightarrow> jobj \<Rightarrow> rat option \<Rightarrow> access_db \<Rightarrow> access_db" where
  "touch env nodes now_h scope at_h db =
     (let t = (case at_h of None \<Rightarrow> now_h | Some u \<Rightarrow> u) in
      foldl (touch_at env t) db (concat (List.map (\<lambda>node. List.map (\<lambda>layer. (layer, node)) (layers_of env scope)) nodes)))"

section \<open>Reading\<close>

definition layer_odds :: "act_env \<Rightarrow> access_db \<Rightarrow> rat \<Rightarrow> string \<Rightarrow> string \<Rightarrow> rat" where
  "layer_odds env db now_h layer node =
     (case dget db (layer, node) of
        None \<Rightarrow> 0
      | Some row \<Rightarrow> odds_from_accesses (av_pw env) (av_d env) now_h (ar_recent row) (ar_old row) (ar_first row))"

definition node_odds :: "act_env \<Rightarrow> access_db \<Rightarrow> rat \<Rightarrow> jobj \<Rightarrow> string \<Rightarrow> rat" where
  "node_odds env db now_h scope node =
     (let sk = scope_key (av_dumps env) scope;
          s = (if sk = [] then layer_odds env db now_h global_layer node
               else layer_odds env db now_h sk node + av_discount env * layer_odds env db now_h global_layer node)
      in max s (av_ex env (av_b0 env)))"

definition odds_many :: "act_env \<Rightarrow> access_db \<Rightarrow> rat \<Rightarrow> jobj \<Rightarrow> string list \<Rightarrow> (string, rat) dict" where
  "odds_many env db now_h scope nodes = foldl (\<lambda>d n. dset n (node_odds env db now_h scope n) d) [] nodes"

definition base_level :: "act_env \<Rightarrow> access_db \<Rightarrow> rat \<Rightarrow> jobj \<Rightarrow> string \<Rightarrow> rat" where
  "base_level env db now_h scope node = av_lg env (node_odds env db now_h scope node)"

definition row_count :: "access_row option \<Rightarrow> nat" where
  "row_count r = (case r of None \<Rightarrow> 0 | Some row \<Rightarrow> length (ar_recent row) + ar_old row)"

definition accesses :: "act_env \<Rightarrow> access_db \<Rightarrow> jobj \<Rightarrow> string \<Rightarrow> nat" where
  "accesses env db scope node =
     (let sk = scope_key (av_dumps env) scope; layer = (if sk = [] then global_layer else sk) in row_count (dget db (layer, node)))"

definition has_any :: "access_db \<Rightarrow> string \<Rightarrow> bool" where
  "has_any db node = list_ex (\<lambda>(k, r). snd k = node) db"

definition need_floor_hours :: rat where "need_floor_hours = 24"
definition need_half_life_days :: rat where "need_half_life_days = 30"

definition need_floor_odds :: "(rat \<Rightarrow> rat \<Rightarrow> rat) \<Rightarrow> rat \<Rightarrow> rat \<Rightarrow> rat \<Rightarrow> rat" where
  "need_floor_odds pw d now_h asserted_h =
     pw need_floor_hours (- d) * pw (1/2) (max (now_h - asserted_h) 0 / 24 / need_half_life_days)"

section \<open>No access is lost\<close>

lemma row_count_touch: "row_count (Some (touch_row env t r)) = Suc (row_count r)"
  by (auto simp: touch_row_def row_count_def keep_recent_def Let_def recent_keep_def split: option.splits)

lemma touch_at_get: "dget (touch_at env t db k) k' = (if k' = k then Some (touch_row env t (dget db k)) else dget db k')"
  by (simp add: touch_at_def)

lemma touch_all_count:
  "row_count (dget (foldl (touch_at env t) db ks) k) = row_count (dget db k) + count_list ks k"
  by (induction ks arbitrary: db) (simp_all add: touch_at_get row_count_touch)

lemma count_layer_nodes:
  "distinct layers \<Longrightarrow> count_list (concat (List.map (\<lambda>node. List.map (\<lambda>layer. (layer, node)) layers) nodes)) (l, n)
     = (if l \<in> set layers then count_list nodes n else 0)"
proof (induction nodes)
  case (Cons m nodes)
  have "count_list (List.map (\<lambda>layer. (layer, m)) ls) (l, n) = (if l \<in> set ls \<and> n = m then 1 else 0)" if "distinct ls" for ls
    using that by (induction ls) auto
  then show ?case using Cons by auto
qed simp

lemma layers_distinct:
  assumes "\<forall>ob. av_dumps env ob \<noteq> global_layer" shows "distinct (layers_of env scope)"
proof -
  have "scope_key (av_dumps env) scope \<noteq> global_layer"
    using assms by (simp add: scope_key_def Let_def global_layer_def)
  then show ?thesis by (simp add: layers_of_def Let_def)
qed

text \<open>No access is ever lost or counted twice. Whatever is folded into the approximated tail, touching nodes
  raises the number of accesses of each by exactly its occurrences, in the layer of the scope and in the global
  layer, and leaves every other layer alone.\<close>

theorem touches_are_counted:
  assumes "\<forall>ob. av_dumps env ob \<noteq> global_layer"
  shows "row_count (dget (touch env nodes now_h scope at_h db) (layer, node))
    = row_count (dget db (layer, node)) + (if layer \<in> set (layers_of env scope) then count_list nodes node else 0)"
  using count_layer_nodes [OF layers_distinct [OF assms], of scope nodes layer node] by (simp add: touch_def Let_def touch_all_count)

section \<open>Rows stay in shape\<close>

definition row_ok :: "access_row \<Rightarrow> bool" where
  "row_ok r = (ar_recent r \<noteq> [] \<and> length (ar_recent r) \<le> recent_keep \<and> sorted (List.map entry_time (ar_recent r))
     \<and> (\<forall>e \<in> set (ar_recent r). ar_first r \<le> entry_time e)
     \<and> (0 < ar_old r \<longrightarrow> length (ar_recent r) = recent_keep))"

lemma row_ok_touch: "row_ok (touch_row env t r)" if "\<And>row. r = Some row \<Longrightarrow> row_ok row"
proof (cases r)
  case None
  then show ?thesis by (cases "av_variable env") (simp_all add: touch_row_def row_ok_def recent_keep_def first_entry_def)
next
  case (Some row)
  define es where "es = sort_key entry_time (ar_recent row @ [next_entry env t row])"
  have len: "length es = Suc (length (ar_recent row))" by (simp add: es_def)
  have row: "row_ok row" using that Some by blast
  have kept: "keep_recent es \<noteq> []" "length (keep_recent es) = min (length es) recent_keep"
    using len row by (auto simp: keep_recent_def recent_keep_def)
  have "sorted (List.map entry_time es)" by (simp add: es_def)
  then have "sorted (List.map entry_time (keep_recent es))" by (simp add: keep_recent_def drop_map [symmetric] sorted_wrt_drop)
  moreover have "\<forall>e \<in> set (keep_recent es). Min (set (List.map entry_time (keep_recent es))) \<le> entry_time e" by simp
  moreover have "length es \<le> Suc recent_keep" "0 < ar_old row \<longrightarrow> length (ar_recent row) = recent_keep"
    using row len by (simp_all add: row_ok_def)
  moreover have "touch_row env t r = \<lparr>ar_recent = keep_recent es, ar_old = ar_old row + (length es - recent_keep),
      ar_first = min (min (ar_first row) t) (Min (set (List.map entry_time (keep_recent es)))),
      ar_last = max (if ar_last row = 0 then t else ar_last row) t\<rparr>"
    by (simp add: touch_row_def Some es_def Let_def)
  ultimately show ?thesis using kept len by (auto simp: row_ok_def min_le_iff_disj)
qed

definition rows_ok :: "access_db \<Rightarrow> bool" where
  "rows_ok db = (\<forall>k r. dget db k = Some r \<longrightarrow> row_ok r)"

lemma rows_ok_touch_at: "rows_ok (touch_at env t db x)" if "rows_ok db"
  unfolding rows_ok_def
proof (intro allI impI)
  fix k r assume r: "dget (touch_at env t db x) k = Some r"
  have old: "row_ok row" if "dget db k' = Some row" for k' row using \<open>rows_ok db\<close> that unfolding rows_ok_def by blast
  show "row_ok r"
  proof (cases "k = x")
    case True
    have "row_ok (touch_row env t (dget db x))" by (rule row_ok_touch) (rule old)
    then show ?thesis using r True by (simp add: touch_at_get)
  next
    case False
    then have "dget db k = Some r" using r by (simp add: touch_at_get)
    then show ?thesis by (rule old)
  qed
qed

text \<open>The table is bounded and ordered. Every row that touching can produce, in whatever order times arrive, keeps
  at least one and at most twenty exact times, in order, none before the recorded first access, and folds
  accesses into a count only once twenty are kept.\<close>

theorem touched_rows_stay_bounded:
  assumes "rows_ok db"
  shows "rows_ok (touch env nodes now_h scope at_h db)"
  unfolding touch_def Let_def using assms by (rule foldl_keeps) (rule rows_ok_touch_at)

section \<open>Odds\<close>

lemma odds_nonneg:
  assumes "\<forall>x y. 0 < x \<longrightarrow> 0 \<le> pw x y" "\<forall>x x' y. 0 < x \<and> x \<le> x' \<and> 0 \<le> y \<longrightarrow> pw x y \<le> pw x' y" "0 \<le> d" "d \<le> 1"
  shows "0 \<le> odds_from_accesses pw d now_h recent count_old first_h"
proof -
  have age: "0 < max (now_h - x) min_age_h" for x by (simp add: min_age_h_def less_max_iff_disj)
  have s: "0 \<le> sum_list (List.map (\<lambda>e. pw (max (now_h - entry_time e) min_age_h) (- entry_decay d e)) recent)"
    by (rule sum_list_nonneg) (use assms(1) age in auto)
  show ?thesis
  proof -
    define t1 where "t1 = max (now_h - first_h) min_age_h"
    define t2 where "t2 = max (now_h - (if recent = [] then now_h else Min (set (List.map entry_time recent)))) min_age_h"
    have "0 \<le> of_nat count_old * (pw t1 (1 - d) - pw t2 (1 - d)) / ((1 - d) * (t1 - t2))" if "t2 < t1" "d \<noteq> 1"
    proof -
      have "pw t2 (1 - d) \<le> pw t1 (1 - d)" using assms(2,4) age that(1) by (simp add: t2_def less_imp_le)
      then show ?thesis using that assms(4) by simp
    qed
    moreover have "0 \<le> pw t1 (- d)" using assms(1) age by (simp add: t1_def)
    ultimately show ?thesis
      using s unfolding odds_from_accesses_def Let_def t1_def [symmetric] t2_def [symmetric]
      by (auto simp: add_nonneg_nonneg)
  qed
qed

text \<open>Context only adds. A node is never colder than the cold baseline, and what was touched within a scope
  counts in full for pulls in that scope: dropping the discounted global layer can only lower the odds.\<close>

theorem odds_never_below_cold:
  assumes "\<forall>x y. 0 < x \<longrightarrow> 0 \<le> av_pw env x y" "\<forall>x x' y. 0 < x \<and> x \<le> x' \<and> 0 \<le> y \<longrightarrow> av_pw env x y \<le> av_pw env x' y"
    and "0 \<le> av_d env" "av_d env \<le> 1" "0 \<le> av_discount env"
  shows "av_ex env (av_b0 env) \<le> node_odds env db now_h scope node
    \<and> layer_odds env db now_h (last (layers_of env scope)) node \<le> node_odds env db now_h scope node"
proof -
  have "0 \<le> layer_odds env db now_h l node" for l
    using odds_nonneg [OF assms(1-4)] by (simp add: layer_odds_def split: option.splits)
  then show ?thesis
    using assms(5) by (auto simp: node_odds_def Let_def layers_of_def le_max_iff_disj)
qed

definition plain_env :: "bool \<Rightarrow> act_env" where
  "plain_env var = \<lparr>av_pw = (\<lambda>x y. 1), av_ex = (\<lambda>x. 1), av_lg = (\<lambda>x. 0), av_dumps = (\<lambda>ob. ''{}''), av_d = 1/2, av_b0 = 0,
     av_discount = 1/2, av_variable = var\<rparr>"

lemma touches_are_counted_witness:
  "row_count (dget (touch (plain_env False) [''n'', ''m'', ''n''] 5 [(''user'', JStr ''u'')] None []) (''{}'', ''n'')) = 2"
  using touches_are_counted [of "plain_env False" "[''n'', ''m'', ''n'']" 5 "[(''user'', JStr ''u'')]" None "[]" "''{}''" "''n''"]
  by (simp add: plain_env_def global_layer_def layers_of_def scope_key_def row_count_def)

lemma touched_rows_stay_bounded_witness:
  "rows_ok (touch (plain_env True) [''n'', ''n''] 5 [] None [])"
  by (rule touched_rows_stay_bounded) (simp add: rows_ok_def)

lemma odds_never_below_cold_witness:
  "av_ex (plain_env False) (av_b0 (plain_env False)) \<le> node_odds (plain_env False) (touch (plain_env False) [''n''] 5 [] None []) 9 [] ''n''"
  using odds_never_below_cold [of "plain_env False"] by (simp add: plain_env_def)

text \<open>The floor of a standing need is documented never to fall below the cold baseline. It keeps halving: with the
  decay \<open>d = 1\<close>, five half lives after it was stated a need is colder than one access thirty days old; the
  powers needed are exact.\<close>

lemma need_floor_below_cold:
  assumes "pw 24 (- 1) = 1/24" "pw (1/2) 5 = 1/32" "pw 720 (- 1) = 1/720"
  shows "need_floor_odds pw 1 (5 * 30 * 24) 0 < pw (30 * 24) (- 1)"
proof -
  have "need_floor_odds pw 1 (5 * 30 * 24) 0 = pw 24 (- 1) * pw (1/2) 5"
    by (simp add: need_floor_odds_def need_floor_hours_def need_half_life_days_def)
  moreover have "pw (30 * 24) (- 1) = 1/720" using assms(3) by simp
  ultimately show ?thesis unfolding assms(1,2) by simp
qed

end
