(* ===== verification/Budget.thy ===== *)
theory Budget
  imports Doc_Store
begin

text \<open>
  \<open>assoc/budget.py\<close>: token estimates per script, the shares of a budget, and the stamps that decide which units of
  a document may be injected at the chunk grain. A tokenizer is a function that may fail; the table of characters
  per token always has its three scripts and is a record.
\<close>

section \<open>Estimates\<close>

text \<open>\<open>script_mix\<close> of \<open>assoc/lex.py\<close> within Latin-1: its letters are Latin but for the two ordinal indicators and
  the micro sign; there is no Cyrillic.\<close>

record script_counts =
  sc_cyr :: nat
  sc_lat :: nat
  sc_other :: nat

definition is_latin :: "char \<Rightarrow> bool" where
  "is_latin c = (let n = (of_char c :: nat) in
     (65 \<le> n \<and> n \<le> 90) \<or> (97 \<le> n \<and> n \<le> 122) \<or> (192 \<le> n \<and> n \<le> 255 \<and> n \<noteq> 215 \<and> n \<noteq> 247))"

definition is_other_letter :: "char \<Rightarrow> bool" where
  "is_other_letter c = (of_char c \<in> {170, 181, 186 :: nat})"

definition script_mix :: "string \<Rightarrow> script_counts" where
  "script_mix text = \<lparr>sc_cyr = 0, sc_lat = length (filter is_latin text), sc_other = length (filter is_other_letter text)\<rparr>"

record chars_per_token =
  cp_lat :: rat
  cp_cyr :: rat
  cp_other :: rat

definition default_chars_per_token :: chars_per_token where
  "default_chars_per_token = \<lparr>cp_lat = 4, cp_cyr = 22/10, cp_other = 25/10\<rparr>"

definition tokens_est :: "chars_per_token \<Rightarrow> string \<Rightarrow> int" where
  "tokens_est cpt text =
     (let mix = script_mix text; n = sc_cyr mix + sc_lat mix + sc_other mix; letters = (if n = 0 then 1 else n);
          est = of_nat (length text - letters) / cp_lat cpt + of_nat (sc_cyr mix) / cp_cyr cpt
            + of_nat (sc_lat mix) / cp_lat cpt + of_nat (sc_other mix) / cp_other cpt
      in max 1 (py_int (est + 1/2)))"

record budget =
  bu_total :: int
  bu_ceiling_frac :: rat
  bu_shares :: "(string, rat) dict"
  bu_cpt :: chars_per_token
  bu_tokenizer :: "(string \<Rightarrow> int py) option"

definition default_budget :: budget where
  "default_budget = \<lparr>bu_total = 8000, bu_ceiling_frac = 1/2,
     bu_shares = [(''claim'', 3/10), (''chunk'', 55/100), (''gist'', 15/100)], bu_cpt = default_chars_per_token, bu_tokenizer = None\<rparr>"

definition chunk_ceiling :: "budget \<Rightarrow> int" where
  "chunk_ceiling b = py_int (of_int (bu_total b) * bu_ceiling_frac b)"

definition share :: "budget \<Rightarrow> string \<Rightarrow> int" where
  "share b grain = py_int (of_int (bu_total b) * dget_or (bu_shares b) grain 0)"

definition tokens :: "budget \<Rightarrow> string \<Rightarrow> int" where
  "tokens b text =
     (case bu_tokenizer b of
        None \<Rightarrow> tokens_est (bu_cpt b) text
      | Some tk \<Rightarrow> (case tk text of Inr n \<Rightarrow> n | Inl e \<Rightarrow> tokens_est (bu_cpt b) text))"

text \<open>Fitting over at most 200 samples; per script the characters and the tokens counted so far.\<close>

definition fit_step :: "(string \<Rightarrow> int py) \<Rightarrow> (int \<times> int) \<times> (int \<times> int) \<Rightarrow> string \<Rightarrow> (int \<times> int) \<times> (int \<times> int)" where
  "fit_step tk acc s =
     (let (lat, cyr) = acc; mix = script_mix s in
      case tk s of
        Inl e \<Rightarrow> acc
      | Inr n \<Rightarrow>
          if n \<le> 0 then acc
          else if sc_lat mix < sc_cyr mix then (lat, (fst cyr + int (length s), snd cyr + n))
          else ((fst lat + int (length s), snd lat + n), cyr))"

definition round2 :: "rat \<Rightarrow> rat" where
  "round2 x = of_int (py_round (x * 100)) / 100"

definition fit_chars_per_token :: "(string \<Rightarrow> int py) \<Rightarrow> string list \<Rightarrow> chars_per_token" where
  "fit_chars_per_token tk samples =
     (let (lat, cyr) = foldl (fit_step tk) ((0, 0), (0, 0)) (take 200 samples); d = default_chars_per_token;
          fitted = (\<lambda>t dflt. if 50 \<le> snd t then round2 (of_int (fst t) / of_int (snd t)) else dflt)
      in d\<lparr>cp_lat := fitted lat (cp_lat d), cp_cyr := fitted cyr (cp_cyr d)\<rparr>)"

section \<open>Stamps\<close>

record stamp =
  st_fits :: bool
  st_injectable :: bool
  st_tokens :: int

record fit_report =
  fr_primaries :: nat
  fr_oversize :: nat
  fr_split :: nat
  fr_still :: nat
  fr_injectable :: nat

definition empty_report :: fit_report where
  "empty_report = \<lparr>fr_primaries = 0, fr_oversize = 0, fr_split = 0, fr_still = 0, fr_injectable = 0\<rparr>"

definition pieces_of :: "doc_unit list \<Rightarrow> string \<Rightarrow> doc_unit list" where
  "pieces_of units i = filter (\<lambda>u. u_role u = ''piece'' \<and> u_parent u = Some i \<and> i \<noteq> []) units"

definition piece_stamp :: "budget \<Rightarrow> bool \<Rightarrow> doc_unit \<Rightarrow> stamp" where
  "piece_stamp b ok p =
     (let n = tokens b (u_text p); f = n \<le> chunk_ceiling b in \<lparr>st_fits = f, st_injectable = (ok \<and> f), st_tokens = n\<rparr>)"

text \<open>The stamps that handling one unit writes, in order.\<close>

definition unit_stamps :: "budget \<Rightarrow> bool \<Rightarrow> doc_unit list \<Rightarrow> doc_unit \<Rightarrow> (doc_unit \<times> stamp) list" where
  "unit_stamps b split_oversize units u =
     (if u_role u = ''ancestor'' then [(u, \<lparr>st_fits = True, st_injectable = False, st_tokens = 0\<rparr>)]
      else if u_role u \<noteq> ''primary'' then []
      else let n = tokens b (u_text u); ps = pieces_of units (u_id u) in
        if n \<le> chunk_ceiling b
        then (u, \<lparr>st_fits = True, st_injectable = True, st_tokens = n\<rparr>) # List.map (\<lambda>p. (p, piece_stamp b False p)) ps
        else (u, \<lparr>st_fits = False, st_injectable = False, st_tokens = n\<rparr>)
          # (if split_oversize then List.map (\<lambda>p. (p, piece_stamp b True p)) ps else []))"

definition unit_report :: "budget \<Rightarrow> bool \<Rightarrow> doc_unit list \<Rightarrow> fit_report \<Rightarrow> doc_unit \<Rightarrow> fit_report" where
  "unit_report b split_oversize units r0 u =
     (if u_role u \<noteq> ''primary'' then r0
      else let r = r0\<lparr>fr_primaries := fr_primaries r0 + 1\<rparr> in
        if tokens b (u_text u) \<le> chunk_ceiling b then r\<lparr>fr_injectable := fr_injectable r + 1\<rparr>
        else let r1 = r\<lparr>fr_oversize := fr_oversize r + 1\<rparr>; ps = pieces_of units (u_id u) in
          if \<not> split_oversize \<or> ps = [] then r1\<lparr>fr_still := fr_still r1 + 1\<rparr>
          else let fit = length (filter (\<lambda>p. tokens b (u_text p) \<le> chunk_ceiling b) ps) in
            r1\<lparr>fr_split := fr_split r1 + 1, fr_injectable := fr_injectable r1 + fit, fr_still := fr_still r1 + (length ps - fit)\<rparr>)"

definition stamp_fits :: "budget \<Rightarrow> bool \<Rightarrow> doc_unit list \<Rightarrow> (string, stamp) dict \<times> fit_report" where
  "stamp_fits b split_oversize units =
     (foldl (\<lambda>d u. foldl (\<lambda>d (v, s). dset (u_id v) s d) d (unit_stamps b split_oversize units u)) [] units,
      foldl (unit_report b split_oversize units) empty_report units)"

section \<open>A text is injected at one grain\<close>

definition all_stamps :: "budget \<Rightarrow> bool \<Rightarrow> doc_unit list \<Rightarrow> (doc_unit \<times> stamp) list" where
  "all_stamps b sp units = concat (List.map (unit_stamps b sp units) units)"

lemma stamp_fits_all: "fst (stamp_fits b sp units) = foldl (\<lambda>d (v, s). dset (u_id v) s d) [] (all_stamps b sp units)"
proof -
  have "foldl (\<lambda>d u. foldl (\<lambda>d (v, s). dset (u_id v) s d) d (unit_stamps b sp units u)) d us
      = foldl (\<lambda>d (v, s). dset (u_id v) s d) d (concat (List.map (unit_stamps b sp units) us))" for d us
    by (induction us arbitrary: d) simp_all
  then show ?thesis by (simp add: stamp_fits_def all_stamps_def)
qed

lemma piece_in_one:
  assumes "distinct (List.map u_id units)" "p \<in> set (pieces_of units i)"
  shows "p \<in> set units" "u_role p = ''piece''" "u_parent p = Some i"
  using assms by (auto simp: pieces_of_def)

lemma unit_stamps_units:
  assumes "(v, s) \<in> set (unit_stamps b sp units u)"
  shows "v = u \<and> u_role u \<in> {''ancestor'', ''primary''} \<or> v \<in> set (pieces_of units (u_id u)) \<and> u_role u = ''primary''"
  using assms by (auto simp: unit_stamps_def Let_def split: if_splits)

lemma distinct_concat_map:
  assumes "distinct us" "\<And>u. u \<in> set us \<Longrightarrow> distinct (f u)"
    and "\<And>u v x. u \<in> set us \<Longrightarrow> v \<in> set us \<Longrightarrow> x \<in> set (f u) \<Longrightarrow> x \<in> set (f v) \<Longrightarrow> u = v"
  shows "distinct (concat (List.map f us))"
  using assms
proof (induction us)
  case (Cons u us)
  have "distinct (concat (List.map f us))"
    by (rule Cons.IH) (use Cons.prems(1) in simp, use Cons.prems(2) in simp, use Cons.prems(3) in \<open>meson list.set_intros(2)\<close>)
  moreover have "set (f u) \<inter> (\<Union>v \<in> set us. set (f v)) = {}"
  proof (rule ccontr)
    assume "set (f u) \<inter> (\<Union>v \<in> set us. set (f v)) \<noteq> {}"
    then obtain x v where "x \<in> set (f u)" "v \<in> set us" "x \<in> set (f v)" by blast
    then have "u = v" using Cons.prems(3) [of u v x] by simp
    then show False using Cons.prems(1) \<open>v \<in> set us\<close> by simp
  qed
  ultimately show ?case using Cons.prems(2) [of u] by simp
qed simp

lemma stamps_distinct:
  assumes "distinct (List.map u_id units)"
  shows "distinct (List.map (\<lambda>x. u_id (fst x)) (all_stamps b sp units))"
proof -
  have inj: "u = v" if "u \<in> set units" "v \<in> set units" "u_id u = u_id v" for u v
    using assms that by (auto simp: distinct_map inj_on_def)
  have pieces: "distinct (List.map u_id (pieces_of units i))" for i
    unfolding pieces_of_def using assms by (rule distinct_map_filter)
  have "distinct (concat (List.map (\<lambda>u. List.map (\<lambda>x. u_id (fst x)) (unit_stamps b sp units u)) units))"
  proof (rule distinct_concat_map)
    show "distinct units" using assms by (simp add: distinct_map)
    show "distinct (List.map (\<lambda>x. u_id (fst x)) (unit_stamps b sp units u))" if u: "u \<in> set units" for u
    proof -
      have "u_id u \<notin> set (List.map u_id (pieces_of units (u_id u)))" if "u_role u = ''primary''"
      proof
        assume "u_id u \<in> set (List.map u_id (pieces_of units (u_id u)))"
        then obtain p where "p \<in> set (pieces_of units (u_id u))" "u_id u = u_id p" by auto
        then have "u_role u = ''piece''" using inj [OF u piece_in_one(1) [OF assms]] piece_in_one(2) [OF assms] by metis
        then show False using that by simp
      qed
      then show ?thesis using pieces by (auto simp: unit_stamps_def Let_def comp_def)
    qed
    fix u v k assume uv: "u \<in> set units" "v \<in> set units"
      and k: "k \<in> set (List.map (\<lambda>x. u_id (fst x)) (unit_stamps b sp units u))" "k \<in> set (List.map (\<lambda>x. u_id (fst x)) (unit_stamps b sp units v))"
    have from_unit: "\<exists>x \<in> set units. u_id x = k \<and> (x = w \<and> u_role x \<noteq> ''piece'' \<or> u_role x = ''piece'' \<and> u_parent x = Some (u_id w))"
      if w: "w \<in> set units" "k \<in> set (List.map (\<lambda>x. u_id (fst x)) (unit_stamps b sp units w))" for w
    proof -
      obtain x s where x: "(x, s) \<in> set (unit_stamps b sp units w)" "u_id x = k" using w(2) by auto
      from unit_stamps_units [OF x(1)] show ?thesis
      proof
        assume "x = w \<and> u_role w \<in> {''ancestor'', ''primary''}"
        then show ?thesis using x(2) w(1) by (intro bexI [of _ w]) auto
      next
        assume "x \<in> set (pieces_of units (u_id w)) \<and> u_role w = ''primary''"
        then show ?thesis using x(2) piece_in_one [OF assms, of x "u_id w"] by (intro bexI [of _ x]) auto
      qed
    qed
    obtain x where x: "x \<in> set units" "u_id x = k" "x = u \<and> u_role x \<noteq> ''piece'' \<or> u_role x = ''piece'' \<and> u_parent x = Some (u_id u)"
      using from_unit [OF uv(1) k(1)] by blast
    obtain y where y: "y \<in> set units" "u_id y = k" "y = v \<and> u_role y \<noteq> ''piece'' \<or> u_role y = ''piece'' \<and> u_parent y = Some (u_id v)"
      using from_unit [OF uv(2) k(2)] by blast
    have "x = y" using inj [OF x(1) y(1)] x(2) y(2) by simp
    then show "u = v" using x(3) y(3) inj [OF uv] by auto
  qed
  moreover have "List.map (\<lambda>x. u_id (fst x)) (all_stamps b sp units)
      = concat (List.map (\<lambda>u. List.map (\<lambda>x. u_id (fst x)) (unit_stamps b sp units u)) units)"
    by (simp add: all_stamps_def map_concat comp_def)
  ultimately show ?thesis by simp
qed

lemma foldl_dset_get:
  "distinct (List.map (\<lambda>x. f (fst x)) xs) \<Longrightarrow> dget (foldl (\<lambda>d (v, s). dset (f v) s d) d xs) k
     = (case List.find (\<lambda>x. f (fst x) = k) xs of Some x \<Rightarrow> Some (snd x) | None \<Rightarrow> dget d k)"
proof (induction xs arbitrary: d)
  case (Cons x xs)
  have "List.find (\<lambda>x. f (fst x) = k) xs = None" if "f (fst x) = k"
    using that Cons.prems unfolding find_None_iff by (fastforce simp: image_iff)
  then show ?case using Cons by (cases x) (auto split: option.splits)
qed simp

lemma stamp_get:
  assumes "distinct (List.map u_id units)"
  shows "dget (fst (stamp_fits b sp units)) k = Some s \<longleftrightarrow> (\<exists>v. (v, s) \<in> set (all_stamps b sp units) \<and> u_id v = k)"
proof -
  have d: "distinct (List.map (\<lambda>x. u_id (fst x)) (all_stamps b sp units))" using assms by (rule stamps_distinct)
  have g: "dget (fst (stamp_fits b sp units)) k = map_option snd (List.find (\<lambda>x. u_id (fst x) = k) (all_stamps b sp units))"
    unfolding stamp_fits_all using foldl_dset_get [OF d, of "[]" k] by (auto split: option.splits)
  show ?thesis
  proof
    assume "dget (fst (stamp_fits b sp units)) k = Some s"
    then obtain x where x: "List.find (\<lambda>x. u_id (fst x) = k) (all_stamps b sp units) = Some x" "s = snd x" unfolding g by auto
    then have "x \<in> set (all_stamps b sp units)" "u_id (fst x) = k" by (auto simp: find_Some_iff)
    then show "\<exists>v. (v, s) \<in> set (all_stamps b sp units) \<and> u_id v = k" using x(2) by (intro exI [of _ "fst x"]) simp
  next
    assume "\<exists>v. (v, s) \<in> set (all_stamps b sp units) \<and> u_id v = k"
    then obtain v where v: "(v, s) \<in> set (all_stamps b sp units)" "u_id v = k" by blast
    obtain x where x: "List.find (\<lambda>x. u_id (fst x) = k) (all_stamps b sp units) = Some x"
      using v by (cases "List.find (\<lambda>x. u_id (fst x) = k) (all_stamps b sp units)") (auto simp: find_None_iff)
    then have "x \<in> set (all_stamps b sp units)" "u_id (fst x) = k" by (auto simp: find_Some_iff)
    then have "x = (v, s)" using d v by (auto simp: distinct_map inj_on_def)
    then show "dget (fst (stamp_fits b sp units)) k = Some s" unfolding g x by simp
  qed
qed

text \<open>No passage is injectable twice and none above the ceiling. With distinct unit ids, an injectable stamp is
  within the ceiling; an injectable primary has no injectable piece; and when splitting is allowed every piece
  of an oversize primary is injectable exactly when it fits.\<close>

theorem text_is_injected_once:
  assumes "distinct (List.map u_id units)" "u \<in> set units" "u_role u = ''primary''" "u_id u \<noteq> []"
    and "p \<in> set units" "u_role p = ''piece''" "u_parent p = Some (u_id u)"
  shows "\<exists>s. dget (fst (stamp_fits b True units)) (u_id u) = Some s
    \<and> (\<exists>q. dget (fst (stamp_fits b True units)) (u_id p) = Some q
        \<and> st_injectable s = (tokens b (u_text u) \<le> chunk_ceiling b)
        \<and> st_injectable q = (\<not> st_injectable s \<and> tokens b (u_text p) \<le> chunk_ceiling b))"
proof -
  have p: "p \<in> set (pieces_of units (u_id u))" using assms(4-7) by (simp add: pieces_of_def)
  let ?n = "tokens b (u_text u)"
  let ?s = "\<lparr>st_fits = ?n \<le> chunk_ceiling b, st_injectable = ?n \<le> chunk_ceiling b, st_tokens = ?n\<rparr>"
  let ?q = "piece_stamp b (\<not> ?n \<le> chunk_ceiling b) p"
  have "(u, ?s) \<in> set (unit_stamps b True units u)" "(p, ?q) \<in> set (unit_stamps b True units u)"
    using assms(3) p by (auto simp: unit_stamps_def Let_def)
  then have "(u, ?s) \<in> set (all_stamps b True units)" "(p, ?q) \<in> set (all_stamps b True units)"
    using assms(2) by (auto simp: all_stamps_def)
  then have "dget (fst (stamp_fits b True units)) (u_id u) = Some ?s" "dget (fst (stamp_fits b True units)) (u_id p) = Some ?q"
    using stamp_get [OF assms(1)] by blast+
  then show ?thesis by (auto simp: piece_stamp_def Let_def)
qed

text \<open>The report counts what the stamps say: with distinct ids the injectable units it reports are as many as the
  injectable stamps, and every primary either fits or is counted as oversize.\<close>

lemma report_counts_stamps:
  assumes "distinct (List.map u_id units)"
  shows "fr_injectable (snd (stamp_fits b sp units)) = length (filter (\<lambda>x. st_injectable (snd x)) (fst (stamp_fits b sp units)))
    \<and> fr_primaries (snd (stamp_fits b sp units)) = length (filter (\<lambda>u. u_role u = ''primary'') units)
    \<and> fr_split (snd (stamp_fits b sp units)) \<le> fr_oversize (snd (stamp_fits b sp units))"
proof -
  let ?R = "\<lambda>us. foldl (unit_report b sp units) empty_report us"
  have ups: "fr_injectable (unit_report b sp units r u) = fr_injectable r + length (filter (\<lambda>x. st_injectable (snd x)) (unit_stamps b sp units u))"
    "fr_primaries (unit_report b sp units r u) = fr_primaries r + (if u_role u = ''primary'' then 1 else 0)"
    "fr_split r \<le> fr_oversize r \<Longrightarrow> fr_split (unit_report b sp units r u) \<le> fr_oversize (unit_report b sp units r u)" for r u
    by (auto simp: unit_report_def unit_stamps_def Let_def piece_stamp_def filter_map comp_def)
  have counts: "fr_injectable (?R us) = length (filter (\<lambda>x. st_injectable (snd x)) (concat (List.map (unit_stamps b sp units) us)))
      \<and> fr_primaries (?R us) = length (filter (\<lambda>u. u_role u = ''primary'') us) \<and> fr_split (?R us) \<le> fr_oversize (?R us)" for us
  proof (induction us rule: rev_induct)
    case (snoc u us)
    then show ?case using ups by simp
  qed (simp add: empty_report_def)
  have "foldl (\<lambda>d (v, s). dset (u_id v) s d) d xs = d @ List.map (\<lambda>x. (u_id (fst x), snd x)) xs"
    if "distinct (dkeys d @ List.map (\<lambda>x. u_id (fst x)) xs)" for d and xs :: "(doc_unit \<times> stamp) list"
    using that
  proof (induction xs arbitrary: d)
    case (Cons x xs)
    have "dset (u_id (fst x)) (snd x) d = d @ [(u_id (fst x), snd x)]" if "u_id (fst x) \<notin> set (dkeys d)"
      using that by (induction d) auto
    then show ?case using Cons by (cases x) auto
  qed simp
  then have "fst (stamp_fits b sp units) = List.map (\<lambda>x. (u_id (fst x), snd x)) (all_stamps b sp units)"
    using stamps_distinct [OF assms] by (simp add: stamp_fits_all)
  then show ?thesis using counts [of units] by (simp add: stamp_fits_def all_stamps_def filter_map comp_def)
qed

text \<open>The shares never overspend: when the fractions of a budget are not negative and sum to at most one, the
  whole numbers of tokens given to distinct grains sum to at most the budget.\<close>

lemma shares_fit_total:
  assumes "0 \<le> bu_total b" "\<forall>g \<in> set gs. 0 \<le> dget_or (bu_shares b) g 0" "sum_list (List.map (\<lambda>g. dget_or (bu_shares b) g 0) gs) \<le> 1"
  shows "sum_list (List.map (share b) gs) \<le> bu_total b"
proof -
  have "of_int (sum_list (List.map (share b) gs)) \<le> of_int (bu_total b) * sum_list (List.map (\<lambda>g. dget_or (bu_shares b) g 0) gs)"
    using assms(1,2)
  proof (induction gs)
    case (Cons g gs)
    have "of_int (share b g) \<le> of_int (bu_total b) * dget_or (bu_shares b) g 0"
      using Cons.prems by (simp add: share_def py_int_def)
    then show ?case using Cons by (simp add: distrib_left)
  qed simp
  also have "\<dots> \<le> of_int (bu_total b) * 1" using assms(1,3) by (intro mult_left_mono) simp_all
  finally show ?thesis by simp
qed

definition sample_unit :: "string \<Rightarrow> string \<Rightarrow> string option \<Rightarrow> string \<Rightarrow> doc_unit" where
  "sample_unit i role parent text =
     \<lparr>u_id = i, u_role = role, u_path = [], u_span = (0, 0), u_text = text, u_parent = parent, u_type = [], u_keys = []\<rparr>"

definition small_budget :: budget where
  "small_budget = default_budget\<lparr>bu_total := 8, bu_tokenizer := Some (\<lambda>s. Inr (int (length s)))\<rparr>"

lemma text_is_injected_once_witness:
  "let units = [sample_unit ''a'' ''primary'' None ''abcdef'', sample_unit ''b'' ''piece'' (Some ''a'') ''abc''] in
   \<exists>s. dget (fst (stamp_fits small_budget True units)) ''a'' = Some s
    \<and> (\<exists>q. dget (fst (stamp_fits small_budget True units)) ''b'' = Some q \<and> \<not> st_injectable s \<and> st_injectable q)"
proof -
  define units where "units = [sample_unit ''a'' ''primary'' None ''abcdef'', sample_unit ''b'' ''piece'' (Some ''a'') ''abc'']"
  have n: "tokens small_budget ''abcdef'' = 6" "tokens small_budget ''abc'' = 3" "chunk_ceiling small_budget = 4" by code_simp+
  obtain s q where "dget (fst (stamp_fits small_budget True units)) ''a'' = Some s" "dget (fst (stamp_fits small_budget True units)) ''b'' = Some q"
    "st_injectable s = (6 \<le> (4 :: int))" "st_injectable q = (\<not> st_injectable s \<and> 3 \<le> (4 :: int))"
    using text_is_injected_once [of units "sample_unit ''a'' ''primary'' None ''abcdef''" "sample_unit ''b'' ''piece'' (Some ''a'') ''abc''" small_budget]
    by (auto simp: units_def sample_unit_def n)
  then show ?thesis unfolding Let_def units_def [symmetric] by simp
qed

end
