(* ===== verification/Selection.thy ===== *)
theory Selection
  imports Budget Edges
begin

text \<open>
  \<open>assoc/selection.py\<close>: which hits may be shown to the model, what it picks, and how the budget is spent. A hit is a
  claim, a passage or the gist of a document; the texts that are rendered (\<open>assoc/render.py\<close>) are parameters of
  the environment, as are the generation, the documents' metadata and the terms of a cue. Nothing here changes
  the store.
\<close>

section \<open>Policies and hits\<close>

datatype grain = GClaim | GChunk | GGist

record hit =
  hi_grain :: grain
  hi_id :: string
  hi_score :: rat
  hi_doc :: string
  hi_chunk :: "string option"
  hi_exact :: bool
  hi_claim :: "claim option"
  hi_kind :: string

record policy =
  po_knowledge :: "string list"
  po_attributed :: "string list"
  po_withhold_facets :: "string list"
  po_withhold_subjects :: "string list"
  po_quote_kinds :: "string list option"
  po_withhold_passages :: "jobj \<Rightarrow> bool"
  po_max_picks :: nat
  po_quota :: "grain \<Rightarrow> nat"
  po_fast_path :: bool
  po_fast_margin :: rat
  po_fast_min :: rat

definition quotas :: "grain \<Rightarrow> nat" where
  "quotas g = (case g of GClaim \<Rightarrow> 30 | GChunk \<Rightarrow> 20 | GGist \<Rightarrow> 5)"

definition default_policy :: policy where
  "default_policy =
     \<lparr>po_knowledge = [''property'', ''event'', ''procedure''],
      po_attributed = [''position'', ''report'', ''norm'', ''depiction'', ''need''], po_withhold_facets = [''unclassified''],
      po_withhold_subjects = [], po_quote_kinds = None, po_withhold_passages = (\<lambda>m. False), po_max_picks = 8, po_quota = quotas,
      po_fast_path = True, po_fast_margin = 1/4, po_fast_min = 6/10\<rparr>"

definition ava_policy :: policy where
  "ava_policy = default_policy\<lparr>po_withhold_subjects := [''person:_self'', ''_self'']\<rparr>"

definition support_policy :: policy where
  "support_policy = default_policy\<lparr>po_quote_kinds := Some [''tech_doc'', ''structured'', ''news'', ''article'']\<rparr>"

text \<open>The verdict on a claim, with the reason when it is withheld. A hit without a claim reads as an empty claim.\<close>

definition claim_facet :: "claim option \<Rightarrow> string" where
  "claim_facet c = (case c of None \<Rightarrow> ''unclassified'' | Some c \<Rightarrow> if cl_facet c = [] then ''unclassified'' else cl_facet c)"

definition claim_verdict :: "policy \<Rightarrow> claim option \<Rightarrow> bool \<times> string" where
  "claim_verdict p c =
     (let facet = claim_facet c in
      if (\<exists>x \<in> set_option c. cl_subject x \<in> set (po_withhold_subjects p)) then (False, ''subject'')
      else if facet \<in> set (po_withhold_facets p) then (False, facet)
      else if facet \<in> set (po_knowledge p) \<or> facet \<in> set (po_attributed p) then (True, [])
      else (False, facet))"

definition claim_eligible :: "policy \<Rightarrow> claim option \<Rightarrow> bool" where
  "claim_eligible p c = fst (claim_verdict p c)"

record lib_build =
  lb_claims :: "(string, claim) dict"
  lb_by_chunk :: "(string, string list) dict"
  lb_authority :: "string \<Rightarrow> rat"
  lb_tokens :: "string \<Rightarrow> int"
  lb_meta :: "string \<Rightarrow> jobj"

section \<open>The catalogue\<close>

definition kind_quoted :: "policy \<Rightarrow> string \<Rightarrow> bool" where
  "kind_quoted p k = (case po_quote_kinds p of None \<Rightarrow> True | Some ks \<Rightarrow> k \<in> set ks)"

definition meta_kind :: "jobj \<Rightarrow> string" where
  "meta_kind m = (case jget m ''kind'' of JStr k \<Rightarrow> k | _ \<Rightarrow> [])"

definition anchored :: "lib_build \<Rightarrow> hit \<Rightarrow> string list" where
  "anchored b h = dget_or (lb_by_chunk b) (opt_or (hi_chunk h)) []"

definition anchors_eligible :: "policy \<Rightarrow> lib_build \<Rightarrow> string list \<Rightarrow> bool" where
  "anchors_eligible p b cs = list_ex (\<lambda>c. dget (lb_claims b) c \<noteq> None \<and> claim_eligible p (dget (lb_claims b) c)) cs"

definition hit_allowed :: "policy \<Rightarrow> lib_build \<Rightarrow> hit \<Rightarrow> bool" where
  "hit_allowed p b h =
     (case hi_grain h of
        GClaim \<Rightarrow> claim_eligible p (hi_claim h)
      | GChunk \<Rightarrow> kind_quoted p (hi_kind h) \<and> \<not> po_withhold_passages p (lb_meta b (hi_doc h))
          \<and> (anchored b h = [] \<or> anchors_eligible p b (anchored b h))
      | GGist \<Rightarrow> \<not> po_withhold_passages p (lb_meta b (hi_doc h)) \<and> kind_quoted p (meta_kind (lb_meta b (hi_doc h))))"

record withheld =
  wh_claims :: "(string, nat) dict"
  wh_passages :: nat
  wh_gists :: nat

definition withhold :: "policy \<Rightarrow> lib_build \<Rightarrow> withheld \<Rightarrow> hit \<Rightarrow> withheld" where
  "withhold p b w h =
     (if hit_allowed p b h then w
      else case hi_grain h of
        GClaim \<Rightarrow> let why = snd (claim_verdict p (hi_claim h)) in w\<lparr>wh_claims := dset why (dget_or (wh_claims w) why 0 + 1) (wh_claims w)\<rparr>
      | GChunk \<Rightarrow> w\<lparr>wh_passages := wh_passages w + 1\<rparr>
      | GGist \<Rightarrow> w\<lparr>wh_gists := wh_gists w + 1\<rparr>)"

definition authority_weight :: rat where "authority_weight = 1/10"

definition claim_rank :: "lib_build \<Rightarrow> hit \<Rightarrow> rat" where
  "claim_rank b h = hi_score h + authority_weight * (case hi_claim h of None \<Rightarrow> 0 | Some c \<Rightarrow> lb_authority b (cl_id c))"

definition of_grain :: "grain \<Rightarrow> policy \<Rightarrow> lib_build \<Rightarrow> hit list \<Rightarrow> hit list" where
  "of_grain g p b hits = filter (\<lambda>h. hi_grain h = g \<and> hit_allowed p b h) hits"

record entry =
  en_no :: nat
  en_hit :: hit
  en_nested :: bool

text \<open>The hits in catalogue order: claims that stand alone, passages each followed by the claims anchored in it, gists.\<close>

definition catalogue_order :: "hit list \<Rightarrow> hit list \<Rightarrow> hit list \<Rightarrow> (hit \<times> bool) list" where
  "catalogue_order claims passages gists =
     (let ids = List.map hi_chunk passages;
          nested = (\<lambda>i. filter (\<lambda>h. hi_chunk h \<in> set ids \<and> hi_chunk h = i) claims)
      in List.map (\<lambda>h. (h, False)) (filter (\<lambda>h. hi_chunk h \<notin> set ids) claims)
         @ concat (List.map (\<lambda>h. (h, False) # List.map (\<lambda>c. (c, True)) (nested (hi_chunk h))) passages)
         @ List.map (\<lambda>h. (h, False)) gists)"

definition number_entries :: "(hit \<times> bool) list \<Rightarrow> entry list" where
  "number_entries hs = List.map (\<lambda>(i, h, n). \<lparr>en_no = i, en_hit = h, en_nested = n\<rparr>) (enumerate 1 hs)"

definition build_catalogue :: "policy \<Rightarrow> lib_build \<Rightarrow> hit list \<Rightarrow> entry list \<times> withheld" where
  "build_catalogue p b hits =
     (let claims = take (po_quota p GClaim) (sort_key (\<lambda>h. - claim_rank b h) (of_grain GClaim p b hits));
          passages = take (po_quota p GChunk) (of_grain GChunk p b hits);
          gists = take (po_quota p GGist) (of_grain GGist p b hits)
      in (number_entries (catalogue_order claims passages gists),
          foldl (withhold p b) \<lparr>wh_claims = [], wh_passages = 0, wh_gists = 0\<rparr> hits))"

section \<open>Picks\<close>

definition picks_label :: string where "picks_label = ''PICKS:''"
definition none_marker :: string where "none_marker = ''NONE''"

definition py_upper :: "string \<Rightarrow> string" where
  "py_upper = List.map (\<lambda>c. let n = (of_char c :: nat) in
     if (97 \<le> n \<and> n \<le> 122) \<or> (224 \<le> n \<and> n \<le> 254 \<and> n \<noteq> 247) then char_of (n - 32) else c)"

definition first_number :: "string \<Rightarrow> nat option" where
  "first_number s = (case dropWhile (\<lambda>c. digit_val c = None) s of
      [] \<Rightarrow> None
    | cs \<Rightarrow> Some (foldl (\<lambda>n c. 10 * n + the (digit_val c)) 0 (takeWhile (\<lambda>c. digit_val c \<noteq> None) cs)))"

record picks =
  pk_picks :: "nat list"
  pk_none :: bool
  pk_bad :: "nat list"

text \<open>The lines of the answer; the loop ends when enough numbers are picked.\<close>

fun pick_lines :: "nat \<Rightarrow> nat \<Rightarrow> string list \<Rightarrow> nat list \<Rightarrow> nat list \<Rightarrow> nat list \<times> nat list" where
  "pick_lines n m [] ps bad = (ps, bad)"
| "pick_lines n m (l # ls) ps bad =
     (case first_number l of
        None \<Rightarrow> pick_lines n m ls ps bad
      | Some k \<Rightarrow>
          if k \<in> set ps \<or> k \<in> set bad then pick_lines n m ls ps bad
          else let ps' = (if 1 \<le> k \<and> k \<le> n then ps @ [k] else ps); bad' = (if 1 \<le> k \<and> k \<le> n then bad else bad @ [k]) in
            if m \<le> length ps' then (ps', bad') else pick_lines n m ls ps' bad')"

definition parse_picks :: "string \<Rightarrow> nat \<Rightarrow> nat \<Rightarrow> picks" where
  "parse_picks raw n m =
     (let body = (case after_last picks_label raw of None \<Rightarrow> raw | Some r \<Rightarrow> r) in
      if none_marker \<in> set (words_from [] (py_upper body)) then \<lparr>pk_picks = [], pk_none = True, pk_bad = []\<rparr>
      else let (ps, bad) = pick_lines n m (List.map py_strip (splitlines body)) [] [] in
        \<lparr>pk_picks = ps, pk_none = (ps = [] \<and> bad = []), pk_bad = bad\<rparr>)"

section \<open>The fast path\<close>

definition claim_subject :: "hit \<Rightarrow> string" where
  "claim_subject h = (case hi_claim h of None \<Rightarrow> [] | Some c \<Rightarrow> cl_subject c)"

definition same_thing :: "(string, string list) dict \<Rightarrow> hit \<Rightarrow> hit \<Rightarrow> bool" where
  "same_thing cs a b =
     (opt_or (hi_chunk a) \<noteq> [] \<and> hi_chunk a = hi_chunk b
      \<or> claim_subject a \<noteq> [] \<and> claim_subject a = claim_subject b
      \<or> list_ex (\<lambda>(x, y). claim_subject x \<noteq> [] \<and> hi_grain y = GChunk
           \<and> claim_subject x \<in> set (dget_or cs (opt_or (hi_chunk y)) [])) [(a, b), (b, a)])"

definition chunk_subjects_of :: "lib_build \<Rightarrow> (string, string list) dict" where
  "chunk_subjects_of b =
     List.map (\<lambda>(ch, cs). (ch, List.map_filter (\<lambda>c. map_option cl_subject (dget (lb_claims b) c)) cs)) (lb_by_chunk b)"

definition fast_path_pick :: "policy \<Rightarrow> (string, string list) dict \<Rightarrow> nat \<Rightarrow> hit list \<Rightarrow> hit option" where
  "fast_path_pick p cs cue_terms hits =
     (if \<not> po_fast_path p then None
      else case hits of
        [] \<Rightarrow> None
      | t # rest \<Rightarrow>
          if 6 < cue_terms then None
          else if \<not> hi_exact t \<or> hi_score t < po_fast_min p then None
          else let second = (case List.find (\<lambda>h. hi_exact h \<and> \<not> same_thing cs t h) rest of None \<Rightarrow> 0 | Some h \<Rightarrow> hi_score h) in
            if hi_score t - second < po_fast_margin p then None else Some t)"

section \<open>Spending\<close>

text \<open>How a hit is rendered: the line of a claim with the claim that contests it, the text of a passage or of a gist;
  an empty text is no rendering.\<close>

record render_env =
  rv_claim :: "claim option \<Rightarrow> claim option \<Rightarrow> string"
  rv_text :: "hit \<Rightarrow> string"

record rendered =
  rd_hit :: hit
  rd_other :: "claim option"
  rd_line :: string
  rd_tokens :: int

definition contest_of :: "lib_build \<Rightarrow> claim option \<Rightarrow> claim option" where
  "contest_of b c = (case c of None \<Rightarrow> None | Some c \<Rightarrow>
      (case filter (\<lambda>x. dget (lb_claims b) x \<noteq> None) (cl_contests c) of [] \<Rightarrow> None | x # _ \<Rightarrow> dget (lb_claims b) x))"

definition render_hit :: "render_env \<Rightarrow> budget \<Rightarrow> lib_build \<Rightarrow> hit \<Rightarrow> rendered option" where
  "render_hit env bu b h =
     (case hi_grain h of
        GClaim \<Rightarrow>
          let other = contest_of b (hi_claim h); line = ''- '' @ rv_claim env (hi_claim h) other in
          Some \<lparr>rd_hit = h, rd_other = other, rd_line = line, rd_tokens = tokens bu line\<rparr>
      | GChunk \<Rightarrow>
          if rv_text env h = [] then None
          else let n = lb_tokens b (opt_or (hi_chunk h)) in
            Some \<lparr>rd_hit = h, rd_other = None, rd_line = rv_text env h, rd_tokens = (if n = 0 then tokens bu (rv_text env h) else n)\<rparr>
      | GGist \<Rightarrow>
          if rv_text env h = [] then None
          else Some \<lparr>rd_hit = h, rd_other = None, rd_line = rv_text env h, rd_tokens = tokens bu (rv_text env h)\<rparr>)"

definition grain_name :: "grain \<Rightarrow> string" where
  "grain_name g = (case g of GClaim \<Rightarrow> ''claim'' | GChunk \<Rightarrow> ''chunk'' | GGist \<Rightarrow> ''gist'')"

record spending =
  sp_spent :: "grain \<Rightarrow> int"
  sp_rendered :: "rendered list"
  sp_skipped :: "rendered list"

definition spend_step :: "render_env \<Rightarrow> budget \<Rightarrow> lib_build \<Rightarrow> spending \<Rightarrow> hit \<Rightarrow> spending" where
  "spend_step env bu b s h =
     (case render_hit env bu b h of
        None \<Rightarrow> s
      | Some r \<Rightarrow>
          let g = hi_grain h; c = rd_tokens r in
          if share bu (grain_name g) < sp_spent s g + c \<and> 0 < c then s\<lparr>sp_skipped := sp_skipped s @ [r]\<rparr>
          else s\<lparr>sp_spent := (sp_spent s)(g := sp_spent s g + c), sp_rendered := sp_rendered s @ [r]\<rparr>)"

definition spend :: "render_env \<Rightarrow> budget \<Rightarrow> lib_build \<Rightarrow> hit list \<Rightarrow> spending" where
  "spend env bu b chosen = foldl (spend_step env bu b) \<lparr>sp_spent = (\<lambda>g. 0), sp_rendered = [], sp_skipped = []\<rparr> chosen"

definition block_text :: "rendered list \<Rightarrow> string" where
  "block_text rs =
     (let of_g = (\<lambda>g. List.map rd_line (filter (\<lambda>r. hi_grain (rd_hit r) = g) rs)); nl = [CHR 0x0A] in
      join (nl @ nl)
        ((if of_g GClaim = [] then [] else [''On record:'' @ nl @ join nl (of_g GClaim)])
         @ (if of_g GChunk = [] then [] else [join (nl @ nl) (of_g GChunk)])
         @ (if of_g GGist = [] then [] else [join nl (of_g GGist)])))"

section \<open>The pass\<close>

datatype reason = No_candidates | Fast_path | No_model | Generate_failed | Picked_nothing | Parse_failed | Picked

record block =
  bl_text :: string
  bl_hits :: "rendered list"
  bl_withheld :: withheld
  bl_reason :: reason
  bl_size :: nat
  bl_picks :: "nat list"
  bl_spent :: "grain \<Rightarrow> int"

text \<open>\<open>gen\<close> is the model's answer: \<open>None\<close> when there is no model, a left value when the generation failed.\<close>

definition choose_hits ::
  "policy \<Rightarrow> lib_build \<Rightarrow> nat \<Rightarrow> string py option \<Rightarrow> bool \<Rightarrow> entry list \<Rightarrow> hit list \<times> nat list \<times> reason" where
  "choose_hits p b cue_terms gen force entries =
     (let hits = List.map en_hit entries; ranked = sort_key (\<lambda>h. - hi_score h) hits; cs = chunk_subjects_of b in
      case (if force then None else fast_path_pick p cs cue_terms ranked) of
        Some fp \<Rightarrow>
          let same = filter (\<lambda>h. h \<noteq> fp \<and> same_thing cs fp h) hits; chosen = fp # take 2 same in
          (chosen, List.map en_no (filter (\<lambda>e. en_hit e \<in> set chosen) entries), Fast_path)
      | None \<Rightarrow>
          (case gen of
             None \<Rightarrow> ([], [], No_model)
           | Some (Inl e) \<Rightarrow> ([], [], Generate_failed)
           | Some (Inr raw) \<Rightarrow>
               let r = parse_picks raw (length entries) (po_max_picks p);
                   chosen = List.map (\<lambda>k. en_hit (entries ! (k - 1))) (pk_picks r)
               in (chosen, pk_picks r, if chosen \<noteq> [] then Picked else if pk_none r then Picked_nothing else Parse_failed)))"

definition select_and_render ::
  "render_env \<Rightarrow> policy \<Rightarrow> budget \<Rightarrow> lib_build \<Rightarrow> nat \<Rightarrow> string py option \<Rightarrow> bool \<Rightarrow> hit list \<Rightarrow> block" where
  "select_and_render env p bu b cue_terms gen force hits =
     (let (entries, w) = build_catalogue p b hits in
      if entries = [] then
        \<lparr>bl_text = [], bl_hits = [], bl_withheld = w, bl_reason = No_candidates, bl_size = 0, bl_picks = [], bl_spent = (\<lambda>g. 0)\<rparr>
      else
        let (chosen, ps, why) = choose_hits p b cue_terms gen force entries; s = spend env bu b chosen in
        \<lparr>bl_text = block_text (sp_rendered s), bl_hits = sp_rendered s, bl_withheld = w, bl_reason = why,
         bl_size = length entries, bl_picks = ps, bl_spent = sp_spent s\<rparr>)"

section \<open>Nothing withheld is shown\<close>

lemma number_entries_no: "List.map en_no (number_entries hs) = [1..<Suc (length hs)]"
  by (simp add: number_entries_def comp_def case_prod_beta enumerate_eq_zip)

lemma entry_hit:
  assumes "e \<in> set (number_entries hs)" shows "(en_hit e, en_nested e) \<in> set hs"
  using assms by (auto simp: number_entries_def enumerate_eq_zip dest: set_zip_rightD)

lemma catalogue_order_hits:
  "fst ` set (catalogue_order claims passages gists) \<subseteq> set claims \<union> set passages \<union> set gists"
  by (auto simp: catalogue_order_def Let_def)

lemma catalogue_allowed:
  assumes "e \<in> set (fst (build_catalogue p b hits))"
  shows "en_hit e \<in> set hits \<and> hit_allowed p b (en_hit e)"
proof -
  obtain claims passages gists where c: "e \<in> set (number_entries (catalogue_order claims passages gists))"
    "set claims \<subseteq> set (of_grain GClaim p b hits)" "set passages \<subseteq> set (of_grain GChunk p b hits)" "set gists \<subseteq> set (of_grain GGist p b hits)"
  proof (rule that)
    show "e \<in> set (number_entries (catalogue_order (take (po_quota p GClaim) (sort_key (\<lambda>h. - claim_rank b h) (of_grain GClaim p b hits)))
        (take (po_quota p GChunk) (of_grain GChunk p b hits)) (take (po_quota p GGist) (of_grain GGist p b hits))))"
      using assms by (simp add: build_catalogue_def Let_def)
    show "set (take (po_quota p GClaim) (sort_key (\<lambda>h. - claim_rank b h) (of_grain GClaim p b hits))) \<subseteq> set (of_grain GClaim p b hits)"
      by (metis set_sort set_take_subset)
  qed (rule set_take_subset)+
  have "en_hit e \<in> set claims \<union> set passages \<union> set gists"
    using entry_hit [OF c(1)] catalogue_order_hits [of claims passages gists] by force
  then show ?thesis using c(2-4) by (auto simp: of_grain_def)
qed

lemma pick_lines_range:
  assumes "pick_lines n m ls ps bad = (ps', bad')" "\<forall>k \<in> set ps. 1 \<le> k \<and> k \<le> n" "distinct ps" "length ps < max 1 m"
  shows "(\<forall>k \<in> set ps'. 1 \<le> k \<and> k \<le> n) \<and> distinct ps' \<and> length ps' \<le> max 1 m"
  using assms
proof (induction n m ls ps bad rule: pick_lines.induct)
  case (2 n m l ls ps bad)
  show ?case
  proof (cases "first_number l")
    case None
    then have run: "pick_lines n m ls ps bad = (ps', bad')" using 2(4) by (simp only: pick_lines.simps option.case)
    show ?thesis by (rule 2(1) [OF None run 2(5-7)])
  next
    case (Some k)
    show ?thesis
    proof (cases "k \<in> set ps \<or> k \<in> set bad")
      case True
      then have run: "pick_lines n m ls ps bad = (ps', bad')" using 2(4) Some by (simp only: pick_lines.simps option.case if_True)
      show ?thesis by (rule 2(2) [OF Some True run 2(5-7)])
    next
      case False
      define ps1 where "ps1 = (if 1 \<le> k \<and> k \<le> n then ps @ [k] else ps)"
      define bad1 where "bad1 = (if 1 \<le> k \<and> k \<le> n then bad else bad @ [k])"
      have run: "(if m \<le> length ps1 then (ps1, bad1) else pick_lines n m ls ps1 bad1) = (ps', bad')"
        using 2(4) unfolding pick_lines.simps Some option.case ps1_def bad1_def Let_def using False by (simp only: if_False)
      have p1: "\<forall>k \<in> set ps1. 1 \<le> k \<and> k \<le> n" "distinct ps1" "length ps1 \<le> max 1 m"
        using 2(5-) False by (auto simp: ps1_def)
      show ?thesis
      proof (cases "m \<le> length ps1")
        case True
        then show ?thesis using run p1 by simp
      next
        case more: False
        then have run1: "pick_lines n m ls ps1 bad1 = (ps', bad')" using run by simp
        have len: "length ps1 < max 1 m" using more by simp
        show ?thesis by (rule 2(3) [OF Some False ps1_def bad1_def more run1 p1(1,2) len])
      qed
    qed
  qed
qed auto

lemma parse_picks_range:
  "(\<forall>k \<in> set (pk_picks (parse_picks raw n m)). 1 \<le> k \<and> k \<le> n) \<and> distinct (pk_picks (parse_picks raw n m))
   \<and> length (pk_picks (parse_picks raw n m)) \<le> max 1 m"
proof -
  define body where "body = (case after_last picks_label raw of None \<Rightarrow> raw | Some r \<Rightarrow> r)"
  obtain ps bad where l: "pick_lines n m (List.map py_strip (splitlines body)) [] [] = (ps, bad)" by fastforce
  then show ?thesis using pick_lines_range [OF l] by (auto simp: parse_picks_def Let_def body_def [symmetric])
qed

lemma choose_from_entries:
  assumes "choose_hits p b ct gen force es = (chosen, ps, why)"
  shows "set chosen \<subseteq> en_hit ` set es"
proof (cases "if force then None else fast_path_pick p (chunk_subjects_of b) ct (sort_key (\<lambda>h. - hi_score h) (List.map en_hit es))")
  case (Some fp)
  then have fp: "fp \<in> en_hit ` set es"
    by (cases "sort_key (\<lambda>h. - hi_score h) (List.map en_hit es)")
       (auto simp: fast_path_pick_def Let_def split: if_splits, metis image_set list.set_intros(1) set_sort)
  define same where "same = filter (\<lambda>h. h \<noteq> fp \<and> same_thing (chunk_subjects_of b) fp h) (List.map en_hit es)"
  have "chosen = fp # take 2 same" using assms Some by (auto simp: choose_hits_def Let_def same_def)
  moreover have "set (take 2 same) \<subseteq> en_hit ` set es" using set_take_subset [of 2 same] by (auto simp: same_def)
  ultimately show ?thesis using fp by auto
next
  case None
  show ?thesis
  proof (cases gen)
    case (Some g)
    show ?thesis
    proof (cases g)
      case (Inr raw)
      then have "chosen = List.map (\<lambda>k. en_hit (es ! (k - 1))) (pk_picks (parse_picks raw (length es) (po_max_picks p)))"
        using assms None Some by (auto simp: choose_hits_def Let_def)
      then show ?thesis using parse_picks_range [of raw "length es" "po_max_picks p"] by (auto intro!: imageI nth_mem)
    qed (use assms None Some in \<open>simp add: choose_hits_def Let_def\<close>)
  qed (use assms None in \<open>simp add: choose_hits_def Let_def\<close>)
qed

definition spend_ok :: "budget \<Rightarrow> hit set \<Rightarrow> spending \<Rightarrow> bool" where
  "spend_ok bu H s = ((\<forall>r \<in> set (sp_rendered s). rd_hit r \<in> H)
     \<and> (\<forall>g. sp_spent s g = sum_list (List.map rd_tokens (filter (\<lambda>r. hi_grain (rd_hit r) = g) (sp_rendered s))))
     \<and> (\<forall>g. 0 \<le> share bu (grain_name g) \<longrightarrow> sp_spent s g \<le> share bu (grain_name g)))"

lemma render_hit_hit: "render_hit env bu b h = Some r \<Longrightarrow> rd_hit r = h"
  by (auto simp: render_hit_def Let_def split: grain.splits if_splits)

lemma spend_ok_skipped [simp]: "spend_ok bu H (s\<lparr>sp_skipped := x\<rparr>) = spend_ok bu H s"
  by (simp add: spend_ok_def)

lemma spend_okD:
  assumes "spend_ok bu H s"
  shows "r \<in> set (sp_rendered s) \<Longrightarrow> rd_hit r \<in> H"
    "sp_spent s g = sum_list (List.map rd_tokens (filter (\<lambda>r. hi_grain (rd_hit r) = g) (sp_rendered s)))"
    "0 \<le> share bu (grain_name g) \<Longrightarrow> sp_spent s g \<le> share bu (grain_name g)"
  using assms unfolding spend_ok_def by blast+

lemma spend_step_ok:
  assumes "spend_ok bu H s" "h \<in> H"
  shows "spend_ok bu H (spend_step env bu b s h)"
proof (cases "render_hit env bu b h")
  case None
  then show ?thesis using assms(1) by (simp add: spend_step_def)
next
  case (Some r)
  have hit: "rd_hit r = h" by (rule render_hit_hit [OF Some])
  let ?g = "hi_grain h"
  show ?thesis
  proof (cases "share bu (grain_name ?g) < sp_spent s ?g + rd_tokens r \<and> 0 < rd_tokens r")
    case True
    then show ?thesis using assms(1) Some by (simp add: spend_step_def Let_def)
  next
    case False
    have "sp_spent s ?g + rd_tokens r \<le> share bu (grain_name ?g)" if "0 \<le> share bu (grain_name ?g)"
    proof -
      have "sp_spent s ?g \<le> share bu (grain_name ?g)" using spend_okD(3) [OF assms(1)] that .
      then show ?thesis using False by linarith
    qed
    moreover have "spend_step env bu b s h
        = s\<lparr>sp_spent := (sp_spent s)(?g := sp_spent s ?g + rd_tokens r), sp_rendered := sp_rendered s @ [r]\<rparr>"
      using Some False by (auto simp: spend_step_def Let_def)
    ultimately show ?thesis
      unfolding spend_ok_def using spend_okD [OF assms(1)] assms(2) hit by auto
  qed
qed

lemma spend_all_ok: "set chosen \<subseteq> H \<Longrightarrow> spend_ok bu H (spend env bu b chosen)"
proof -
  have "spend_ok bu H (foldl (spend_step env bu b) s hs)" if "spend_ok bu H s" "set hs \<subseteq> H" for s hs
    using that by (induction hs arbitrary: s) (auto simp: spend_step_ok)
  moreover have "spend_ok bu H \<lparr>sp_spent = (\<lambda>g. 0), sp_rendered = [], sp_skipped = []\<rparr>" by (simp add: spend_ok_def)
  ultimately show "set chosen \<subseteq> H \<Longrightarrow> spend_ok bu H (spend env bu b chosen)" by (simp add: spend_def)
qed

lemma select_spends:
  "spend_ok bu {h \<in> set hits. hit_allowed p b h}
     \<lparr>sp_spent = bl_spent (select_and_render env p bu b ct gen force hits),
      sp_rendered = bl_hits (select_and_render env p bu b ct gen force hits), sp_skipped = []\<rparr>"
proof -
  obtain es w where es: "build_catalogue p b hits = (es, w)" by fastforce
  obtain chosen ps why where c: "choose_hits p b ct gen force es = (chosen, ps, why)" by (metis surj_pair)
  have "set chosen \<subseteq> {h \<in> set hits. hit_allowed p b h}"
    using choose_from_entries [OF c] catalogue_allowed [of _ p b hits] es by fastforce
  note s = spend_okD [OF spend_all_ok [OF this, of bu env b]]
  show ?thesis
  proof (cases "es = []")
    case True
    then show ?thesis by (simp add: select_and_render_def es spend_ok_def)
  next
    case False
    then have "bl_spent (select_and_render env p bu b ct gen force hits) = sp_spent (spend env bu b chosen)"
      "bl_hits (select_and_render env p bu b ct gen force hits) = sp_rendered (spend env bu b chosen)"
      by (simp_all add: select_and_render_def es c Let_def)
    then show ?thesis unfolding spend_ok_def using s by simp
  qed
qed

lemma spend_step_renders:
  assumes "\<forall>r \<in> set (sp_rendered s). render_hit env bu b (rd_hit r) = Some r"
  shows "\<forall>r \<in> set (sp_rendered (spend_step env bu b s h)). render_hit env bu b (rd_hit r) = Some r"
proof (cases "render_hit env bu b h")
  case None
  then show ?thesis using assms by (simp add: spend_step_def)
next
  case (Some r)
  have "set (sp_rendered (spend_step env bu b s h)) \<subseteq> insert r (set (sp_rendered s))"
    using Some by (auto simp: spend_step_def Let_def)
  moreover have "render_hit env bu b (rd_hit r) = Some r" using Some unfolding render_hit_hit [OF Some] .
  ultimately show ?thesis using assms by blast
qed

lemma spend_renders:
  assumes "r \<in> set (sp_rendered (spend env bu b chosen))"
  shows "render_hit env bu b (rd_hit r) = Some r"
proof -
  have "\<forall>r \<in> set (sp_rendered (foldl (spend_step env bu b) s hs)). render_hit env bu b (rd_hit r) = Some r"
    if "\<forall>r \<in> set (sp_rendered s). render_hit env bu b (rd_hit r) = Some r" for s hs
    using that
  proof (induction hs arbitrary: s)
    case (Cons h hs)
    show ?case unfolding foldl_Cons by (rule Cons.IH [OF spend_step_renders [OF Cons.prems]])
  qed simp
  from this [of "\<lparr>sp_spent = (\<lambda>g. 0), sp_rendered = [], sp_skipped = []\<rparr>" chosen]
  show ?thesis using assms unfolding spend_def by simp
qed

lemma select_renders:
  "bl_text (select_and_render env p bu b ct gen force hits) = block_text (bl_hits (select_and_render env p bu b ct gen force hits))
   \<and> (\<forall>r \<in> set (bl_hits (select_and_render env p bu b ct gen force hits)). render_hit env bu b (rd_hit r) = Some r)"
proof -
  obtain es w where es: "build_catalogue p b hits = (es, w)" by fastforce
  obtain chosen ps why where c: "choose_hits p b ct gen force es = (chosen, ps, why)" by (metis surj_pair)
  show ?thesis
  proof (cases "es = []")
    case True
    then show ?thesis by (simp add: select_and_render_def es block_text_def)
  next
    case False
    then have "select_and_render env p bu b ct gen force hits =
        \<lparr>bl_text = block_text (sp_rendered (spend env bu b chosen)), bl_hits = sp_rendered (spend env bu b chosen), bl_withheld = w,
         bl_reason = why, bl_size = length es, bl_picks = ps, bl_spent = sp_spent (spend env bu b chosen)\<rparr>"
      by (simp add: select_and_render_def es c Let_def)
    then show ?thesis using spend_renders [of _ env bu b chosen] by simp
  qed
qed

lemma contest_is_listed:
  assumes "contest_of b c = Some o'"
  shows "\<exists>c' x. c = Some c' \<and> x \<in> set (cl_contests c') \<and> dget (lb_claims b) x = Some o'"
proof -
  obtain c' x xs where c: "c = Some c'"
    "filter (\<lambda>x. dget (lb_claims b) x \<noteq> None) (cl_contests c') = x # xs" "dget (lb_claims b) x = Some o'"
    using assms by (auto simp: contest_of_def split: option.splits list.splits)
  have "x \<in> set (filter (\<lambda>x. dget (lb_claims b) x \<noteq> None) (cl_contests c'))" unfolding c(2) by simp
  then show ?thesis using c(1,3) by auto
qed

lemma rendered_other:
  assumes "render_hit env bu b h = Some r"
  shows "rd_other r = (if hi_grain h = GClaim then contest_of b (hi_claim h) else None)"
  using assms by (cases "hi_grain h") (auto simp: render_hit_def Let_def split: if_splits)

text \<open>C21: what a block shows. Whatever the model answers and whichever path is taken, the text of the block is made of its
  items alone, and every item is the rendering of one of the hits handed in, which passed the policy: a claim of an
  admitted facet and subject, a passage of a quotable kind that is not withheld and, when claims are anchored in it, has
  an admitted one, a gist of a quotable document. The one thing shown that the policy is not asked about is the other
  side of a contested claim: it is a claim of the build that the item's own claim lists as a contest.\<close>

theorem block_passes_policy:
  "let bl = select_and_render env p bu b cue_terms gen force hits in
     bl_text bl = block_text (bl_hits bl)
     \<and> (\<forall>r \<in> set (bl_hits bl). rd_hit r \<in> set hits \<and> hit_allowed p b (rd_hit r) \<and> render_hit env bu b (rd_hit r) = Some r
         \<and> (\<forall>o'. rd_other r = Some o' \<longrightarrow> (\<exists>c x. hi_grain (rd_hit r) = GClaim \<and> hi_claim (rd_hit r) = Some c
               \<and> x \<in> set (cl_contests c) \<and> dget (lb_claims b) x = Some o')))"
proof -
  define bl where "bl = select_and_render env p bu b cue_terms gen force hits"
  have r: "render_hit env bu b (rd_hit r) = Some r" if "r \<in> set (bl_hits bl)" for r
    using select_renders [of env p bu b cue_terms gen force hits] that unfolding bl_def by blast
  have hit: "rd_hit r \<in> set hits \<and> hit_allowed p b (rd_hit r)" if "r \<in> set (bl_hits bl)" for r
    using spend_okD(1) [OF select_spends [of bu hits p b env cue_terms gen force]] that unfolding bl_def by fastforce
  have "\<exists>c x. hi_grain (rd_hit r) = GClaim \<and> hi_claim (rd_hit r) = Some c \<and> x \<in> set (cl_contests c) \<and> dget (lb_claims b) x = Some o'"
    if "r \<in> set (bl_hits bl)" "rd_other r = Some o'" for r o'
  proof -
    have "hi_grain (rd_hit r) = GClaim" "contest_of b (hi_claim (rd_hit r)) = Some o'"
      using rendered_other [OF r [OF that(1)]] that(2) by (simp_all split: if_splits)
    then show ?thesis using contest_is_listed by blast
  qed
  then show ?thesis
    unfolding Let_def bl_def [symmetric]
    using select_renders [of env p bu b cue_terms gen force hits, folded bl_def] r hit by blast
qed

text \<open>A block fits its budget. With shares that are not negative and sum to at most one, the tokens of all the
  rendered items together are at most the total, whatever was chosen and however the tokenizer counts.\<close>

theorem block_fits_budget:
  assumes "0 \<le> bu_total bu" "\<forall>g \<in> {''claim'', ''chunk'', ''gist''}. 0 \<le> dget_or (bu_shares bu) g 0"
    and "dget_or (bu_shares bu) ''claim'' 0 + dget_or (bu_shares bu) ''chunk'' 0 + dget_or (bu_shares bu) ''gist'' 0 \<le> 1"
  shows "sum_list (List.map rd_tokens (bl_hits (select_and_render env p bu b cue_terms gen force hits))) \<le> bu_total bu"
proof -
  let ?rs = "bl_hits (select_and_render env p bu b cue_terms gen force hits)"
  let ?of = "\<lambda>g. sum_list (List.map rd_tokens (filter (\<lambda>r. hi_grain (rd_hit r) = g) ?rs))"
  have parts: "sum_list (List.map rd_tokens rs) = (\<Sum>g \<in> {GClaim, GChunk, GGist}. sum_list (List.map rd_tokens (filter (\<lambda>r. hi_grain (rd_hit r) = g) rs)))"
    for rs
  proof (induction rs)
    case (Cons r rs)
    then show ?case by (cases "hi_grain (rd_hit r)") auto
  qed simp
  have nonneg: "0 \<le> share bu (grain_name g)" for g
  proof -
    have "0 \<le> dget_or (bu_shares bu) (grain_name g) 0" using assms(2) by (cases g) (auto simp: grain_name_def)
    then show ?thesis using assms(1) by (simp add: share_def py_int_def)
  qed
  have le: "?of g \<le> share bu (grain_name g)" for g
    using spend_okD(2,3) [OF select_spends [of bu hits p b env cue_terms gen force]] nonneg [of g] by (metis spending.select_convs(1,2))
  have "?of GClaim + ?of GChunk + ?of GGist \<le> share bu ''claim'' + share bu ''chunk'' + share bu ''gist''"
    using le [of GClaim] le [of GChunk] le [of GGist] by (simp add: grain_name_def)
  moreover have "sum_list (List.map (share bu) [''claim'', ''chunk'', ''gist'']) \<le> bu_total bu"
    by (rule shares_fit_total) (use assms in \<open>auto\<close>)
  ultimately show ?thesis using parts [of ?rs] by simp
qed

text \<open>The numbers taken from the model's answer are catalogue numbers: distinct, between one and the size of the
  catalogue, and no more than allowed, whatever the answer says.\<close>

theorem picks_are_catalogue_numbers:
  "(\<forall>k \<in> set (pk_picks (parse_picks raw n m)). 1 \<le> k \<and> k \<le> n) \<and> distinct (pk_picks (parse_picks raw n m))
   \<and> length (pk_picks (parse_picks raw n m)) \<le> max 1 m"
  by (rule parse_picks_range)

definition sample_claim :: "string \<Rightarrow> string \<Rightarrow> string list \<Rightarrow> string list \<Rightarrow> claim" where
  "sample_claim i subject contests seen_in = (fresh_claim i ''property'' (page ''v1'' [] []) (plain_fact i False) (said ''k'' i []))
     \<lparr>cl_subject := subject, cl_contests := contests, cl_visible_in := seen_in\<rparr>"

definition claim_hit :: "claim \<Rightarrow> hit" where
  "claim_hit c = \<lparr>hi_grain = GClaim, hi_id = cl_id c, hi_score = 1, hi_doc = ''d'', hi_chunk = None, hi_exact = True, hi_claim = Some c, hi_kind = []\<rparr>"

definition plain_render :: render_env where
  "plain_render = \<lparr>rv_claim = (\<lambda>c other. ''line''), rv_text = (\<lambda>h. ''text'')\<rparr>"

definition plain_build :: "(string, claim) dict \<Rightarrow> lib_build" where
  "plain_build cs = \<lparr>lb_claims = cs, lb_by_chunk = [], lb_authority = (\<lambda>i. 0), lb_tokens = (\<lambda>i. 0), lb_meta = (\<lambda>i. [])\<rparr>"

text \<open>The contesting side of a claim is looked up in the whole build and rendered with it: neither the policy nor the
  scope is asked. Here the scope of the pull admits document \<open>d1\<close> only, and a claim about a withheld subject that
  is visible in \<open>d2\<close> only is rendered beside the one picked.\<close>

definition contested_build :: lib_build where
  "contested_build = plain_build [(''1'', sample_claim ''1'' ''person:ann'' [''2''] [''d1'']), (''2'', sample_claim ''2'' ''_self'' [''1''] [''d2''])]"

lemma contested_side_escapes_policy:
  "let bl = select_and_render plain_render ava_policy default_budget contested_build 3 None False
         [claim_hit (sample_claim ''1'' ''person:ann'' [''2''] [''d1''])] in
   bl_reason bl = Fast_path \<and> List.map rd_other (bl_hits bl) = [dget (lb_claims contested_build) ''2'']
   \<and> \<not> claim_eligible ava_policy (dget (lb_claims contested_build) ''2'')
   \<and> map_option cl_visible_in (dget (lb_claims contested_build) ''2'') = Some [''d2'']"
  by code_simp

lemma block_passes_policy_witness:
  "let c = sample_claim ''1'' ''person:ann'' [''2''] [''d1'']; b = contested_build in
   hit_allowed ava_policy b (rd_hit (hd (bl_hits (select_and_render plain_render ava_policy default_budget b 3 None False [claim_hit c]))))"
proof -
  have "hd (bl_hits (select_and_render plain_render ava_policy default_budget contested_build 3 None False [claim_hit (sample_claim ''1'' ''person:ann'' [''2''] [''d1''])]))
      \<in> set (bl_hits (select_and_render plain_render ava_policy default_budget contested_build 3 None False [claim_hit (sample_claim ''1'' ''person:ann'' [''2''] [''d1''])]))"
    by (rule hd_in_set) code_simp
  then show ?thesis
    using block_passes_policy [where p = ava_policy and env = plain_render and bu = default_budget and b = contested_build and cue_terms = 3 and gen = None and force = False and hits = "[claim_hit (sample_claim ''1'' ''person:ann'' [''2''] [''d1''])]"]
    unfolding Let_def by blast
qed

lemma block_fits_budget_witness:
  "sum_list (List.map rd_tokens (bl_hits (select_and_render plain_render default_policy default_budget contested_build 3 None False [])))
     \<le> bu_total default_budget"
  by (rule block_fits_budget) (simp_all add: default_budget_def dget_or_def)

end
