(* ===== verification/Aha.thy ===== *)
theory Aha
  imports Spread
begin

text \<open>
  \<open>assoc/aha.py\<close> and the standing needs of \<open>assoc/library.py\<close>: which claims a stimulus brings to a need, the ledger
  of verdicts that keeps a pair from being judged twice, the reading of the judge's answer, and the file of
  registered and closed needs. Generations, the postings of the codebook and the rendered passages are
  parameters; a generation that raises counts as an empty answer.
\<close>

section \<open>The ledger of verdicts\<close>

record verdict_entry =
  ve_ts :: rat
  ve_key :: string
  ve_need :: string
  ve_resource :: string
  ve_types :: "string list"
  ve_verdict :: string
  ve_link :: string
  ve_strength :: rat

definition verdicts :: "string list" where
  "verdicts = [''connect'', ''satisfies'', ''no'', ''stale'']"

definition sorted_types :: "string list \<Rightarrow> string list" where
  "sorted_types ts = sort (remdups ts)"

definition verdict_key :: "string \<Rightarrow> string \<Rightarrow> string list \<Rightarrow> string" where
  "verdict_key need resource types = need @ unit_sep @ resource @ unit_sep @ join '','' (sorted_types types)"

definition prior_for :: "verdict_entry list \<Rightarrow> string \<Rightarrow> verdict_entry list" where
  "prior_for led need = filter (\<lambda>e. ve_need e = need) led"

definition blocked :: "verdict_entry list \<Rightarrow> string \<Rightarrow> string \<Rightarrow> string list \<Rightarrow> bool" where
  "blocked led need resource types =
     list_ex (\<lambda>e. ve_key e = verdict_key need resource types \<and> ve_verdict e \<in> {''no'', ''connect'', ''satisfies'', ''stale''}
       \<or> ve_need e = need \<and> ve_resource e = resource \<and> ve_verdict e \<in> {''satisfies'', ''stale''}) led"

record candidate =
  ca_need :: string
  ca_need_claim :: string
  ca_resource :: string
  ca_strength :: rat
  ca_need_side :: rat
  ca_stim_side :: rat
  ca_types :: "string list"
  ca_prior :: "verdict_entry list"
  ca_verdict :: "string option"
  ca_link :: string

definition round5 :: "rat \<Rightarrow> rat" where
  "round5 x = of_int (py_round (x * 100000)) / 100000"

definition record_verdict :: "candidate \<Rightarrow> string \<Rightarrow> string \<Rightarrow> rat \<Rightarrow> verdict_entry list \<Rightarrow> verdict_entry list" where
  "record_verdict c v link now led =
     led @ [\<lparr>ve_ts = now, ve_key = verdict_key (ca_need c) (ca_resource c) (ca_types c), ve_need = ca_need c,
       ve_resource = ca_resource c, ve_types = sorted_types (ca_types c), ve_verdict = v, ve_link = link,
       ve_strength = round5 (ca_strength c)\<rparr>]"

section \<open>Seeds of a need\<close>

record registered_need =
  rn_subject :: string
  rn_entities :: "string list"
  rn_anchors :: "(string, rat) dict"
  rn_text :: string

definition cell_seed_total :: rat where "cell_seed_total = 15/100"

definition cell_seeds :: "string list \<Rightarrow> (string, rat) dict \<Rightarrow> (string, rat) dict" where
  "cell_seeds hits seeds =
     foldl (\<lambda>d n. dsetdefault n (cell_seed_total / of_nat (length hits)) d) seeds hits"

definition registered_seeds :: "edge_table \<Rightarrow> registered_need \<Rightarrow> (string, rat) dict \<Rightarrow> (string, rat) dict" where
  "registered_seeds t r seeds =
     (let nodes = rn_subject r # List.map (\<lambda>e. ''entity:'' @ py_lower (py_strip e)) (rn_entities r);
          s1 = foldl (\<lambda>d n. if n \<noteq> [] \<and> edges t n \<noteq> [] then dset n 1 d else d) seeds nodes
      in foldl (\<lambda>d (n, w). dset n (max (dget_or d n 0) w) d) s1 (rn_anchors r))"

text \<open>\<open>cells\<close> are the nodes the codebook posts for a text, at most twelve; \<open>None\<close> asks for the core seeds.\<close>

definition need_seeds ::
  "edge_table \<Rightarrow> string \<Rightarrow> (string, claim) dict \<Rightarrow> (string \<Rightarrow> string list) option \<Rightarrow> registered_need option \<Rightarrow> (string, rat) dict" where
  "need_seeds t need claims cells registered =
     (let cid = (case dget (needs t) need of
            Some info \<Rightarrow> (case jget info ''claim_id'' of JStr c \<Rightarrow> c | _ \<Rightarrow> [])
          | None \<Rightarrow> []);
          s0 = (if cid = [] then [(need, 1)] else dset (''claim:'' @ cid) 1 [(need, 1)])
      in case (if cid = [] then registered else None) of
           Some r \<Rightarrow>
             let s1 = registered_seeds t r s0 in
             (case cells of Some f \<Rightarrow> if rn_text r = [] then s1 else cell_seeds (take 12 (f (rn_text r))) s1 | None \<Rightarrow> s1)
         | None \<Rightarrow>
             let s1 = foldl (\<lambda>d e. if fst (snd e) = ''need'' then dset (fst e) 1 d else d) s0 (edges t need) in
             (case (cells, dget claims cid) of
                (Some f, Some c) \<Rightarrow> if cid = [] then s1 else cell_seeds (take 12 (f (cl_text c))) s1
              | _ \<Rightarrow> s1))"

section \<open>Candidates\<close>

definition aha_min_default :: rat where "aha_min_default = 15/1000"

definition inferred_only :: "spread_path list \<Rightarrow> bool" where
  "inferred_only ps =
     (let es = concat (List.map sp_edges ps) in es \<noteq> [] \<and> list_all (\<lambda>(f, ty, to, s). startswith ty ''inferred:'') es)"

definition paths_to :: "reached \<Rightarrow> string \<Rightarrow> spread_path list" where
  "paths_to m n = dget_or (re_paths m) n []"

definition path_type :: "string \<Rightarrow> string" where
  "path_type ty = (if startswith ty ''rel:'' then ty else namespace_of ty)"

definition path_types :: "reached \<Rightarrow> reached \<Rightarrow> string \<Rightarrow> string list" where
  "path_types nmap stim n =
     sorted_types (List.map (\<lambda>(f, ty, to, s). path_type ty) (concat (List.map sp_edges (paths_to nmap n @ paths_to stim n))))"

record need_info =
  ni_claim :: string
  ni_anchors :: "string list"

text \<open>One reached node of the stimulus against one need.\<close>

definition candidate_at ::
  "(string, claim) dict \<Rightarrow> verdict_entry list \<Rightarrow> rat \<Rightarrow> string \<Rightarrow> need_info \<Rightarrow> reached \<Rightarrow> reached \<Rightarrow> string \<times> rat \<Rightarrow> candidate option" where
  "candidate_at claims led aha_min need info nmap stim p =
     (let node = fst p; rs = snd p; rn = dget_or (re_r nmap) node 0;
          anchors = (if ni_claim info = [] then ni_anchors info else []);
          hn = dget_or (re_hops nmap) node 99; hs = dget_or (re_hops stim) node 99; cid = drop 6 node in
      if \<not> is_claim node \<or> node = ''claim:'' @ (if ni_claim info = [] then ''None'' else ni_claim info) \<or> node \<in> set anchors then None
      else if rn \<le> 0 \<or> rs \<le> 0 then None
      else if hn < 2 \<or> hn \<le> hs then None
      else if min rn rs < aha_min then None
      else if dget claims cid = None then None
      else if inferred_only (paths_to nmap node) \<or> inferred_only (paths_to stim node) then None
      else if blocked led need cid (path_types nmap stim node) then None
      else Some \<lparr>ca_need = need, ca_need_claim = ni_claim info, ca_resource = cid, ca_strength = min rn rs, ca_need_side = rn,
          ca_stim_side = rs, ca_types = path_types nmap stim node, ca_prior = prior_for led need, ca_verdict = None, ca_link = []\<rparr>)"

definition find_candidates ::
  "(string, claim) dict \<Rightarrow> verdict_entry list \<Rightarrow> rat \<Rightarrow> (string \<times> need_info \<times> reached) list \<Rightarrow> reached \<Rightarrow> candidate list" where
  "find_candidates claims led aha_min nmaps stim =
     sort_key (\<lambda>c. - ca_strength c)
       (concat (List.map (\<lambda>(need, info, nmap). List.map_filter (candidate_at claims led aha_min need info nmap stim) (re_r stim)) nmaps))"

section \<open>The judge\<close>

definition after_colon :: "string \<Rightarrow> string" where
  "after_colon s = drop 1 (dropWhile (\<lambda>c. c \<noteq> CHR '':'') s)"

definition verdict_marks :: "char list" where
  "verdict_marks = [CHR 0x60, CHR ''*'', CHR ''.'', CHR '' '']"

definition verdict_word :: "string \<Rightarrow> string py" where
  "verdict_word low =
     (let v = py_strip (after_colon low) in
      if v = [] then Inr []
      else case words_from [] (strip_if (\<lambda>c. c \<in> set verdict_marks) v) of [] \<Rightarrow> Inl IndexError | w # _ \<Rightarrow> Inr w)"

definition verdict_line :: "string option \<times> string \<Rightarrow> string \<Rightarrow> (string option \<times> string) py" where
  "verdict_line acc line =
     (let s = py_strip line; low = py_lower s in
      if startswith low ''verdict:'' then
        py_bind (verdict_word low) (\<lambda>v. Inr (if v \<in> set verdicts then (Some v, snd acc) else acc))
      else if startswith low ''link:'' then Inr (fst acc, py_strip (after_colon s))
      else Inr acc)"

definition parse_verdict :: "string \<Rightarrow> (string option \<times> string) py" where
  "parse_verdict raw =
     py_fold verdict_line (None, []) (splitlines (case after_last ''</think>'' raw of None \<Rightarrow> raw | Some r \<Rightarrow> r))"

text \<open>The two attempts of the judge are the two answers given.\<close>

definition judge :: "candidate \<Rightarrow> string \<Rightarrow> string \<Rightarrow> rat \<Rightarrow> verdict_entry list \<Rightarrow> (candidate \<times> verdict_entry list) py" where
  "judge c raw1 raw2 now led =
     py_bind (parse_verdict raw1) (\<lambda>first.
     py_bind (if fst first = None then parse_verdict raw2 else Inr first) (\<lambda>(v, link). Inr (
       case v of
         None \<Rightarrow> (c\<lparr>ca_verdict := Some ''error'', ca_link := []\<rparr>, led)
       | Some v \<Rightarrow> (c\<lparr>ca_verdict := Some v, ca_link := link\<rparr>, record_verdict c v link now led))))"

section \<open>Standing needs\<close>

record needs_file =
  nf_registered :: "string list"
  nf_closed :: "string list"

definition register_need :: "string \<Rightarrow> needs_file \<Rightarrow> needs_file" where
  "register_need nid f = (if nid \<in> set (nf_registered f) then f else f\<lparr>nf_registered := nf_registered f @ [nid]\<rparr>)"

definition close_need :: "string \<Rightarrow> needs_file \<Rightarrow> needs_file" where
  "close_need nid f = f\<lparr>nf_closed := nf_closed f @ [nid]\<rparr>"

definition closed_needs :: "needs_file \<Rightarrow> string set" where
  "closed_needs f = set (nf_closed f)"

definition standing_needs :: "edge_table \<Rightarrow> (string, claim) dict \<Rightarrow> string set \<Rightarrow> needs_file \<Rightarrow> string list" where
  "standing_needs t claims allowed f =
     filter (\<lambda>nn. nn \<notin> closed_needs f \<and> (case dget (needs t) nn of
         Some info \<Rightarrow> (case jget info ''claim_id'' of
             JStr cid \<Rightarrow> (case dget claims cid of Some c \<Rightarrow> set (cl_visible_in c) \<inter> allowed \<noteq> {} | None \<Rightarrow> False)
           | _ \<Rightarrow> False)
       | None \<Rightarrow> False)) (dkeys (needs t))
     @ filter (\<lambda>n. n \<notin> closed_needs f) (nf_registered f)"

section \<open>A resource is joined to both sides\<close>

lemma candidate_atD:
  assumes "candidate_at claims led aha_min need info nmap stim p = Some c"
  shows "ca_need c = need" "fst p = ''claim:'' @ ca_resource c" "dget claims (ca_resource c) \<noteq> None"
    "ca_strength c = min (dget_or (re_r nmap) (fst p) 0) (snd p)" "aha_min \<le> ca_strength c" "0 < ca_strength c"
    "ca_types c = path_types nmap stim (fst p)" "\<not> blocked led need (ca_resource c) (ca_types c)"
    "\<not> inferred_only (paths_to nmap (fst p))" "\<not> inferred_only (paths_to stim (fst p))"
    "dget_or (re_hops stim) (fst p) 99 < dget_or (re_hops nmap) (fst p) 99"
proof -
  have pre: "is_claim (fst p)" "ca_resource c = drop 6 (fst p)"
    using assms by (auto simp: candidate_at_def Let_def split: if_splits)
  have "take 6 (fst p) = ''claim:''" using pre(1) unfolding is_claim_def startswith_def by (simp del: take_Suc_Cons add: numeral_eq_Suc)
  then show "fst p = ''claim:'' @ ca_resource c" unfolding pre(2) using append_take_drop_id [of 6 "fst p"] by metis
qed (use assms in \<open>auto simp: candidate_at_def Let_def split: if_splits\<close>)

lemma in_find_candidates:
  assumes "c \<in> set (find_candidates claims led aha_min nmaps stim)"
  obtains need info nmap p where "(need, info, nmap) \<in> set nmaps" "p \<in> set (re_r stim)"
    "candidate_at claims led aha_min need info nmap stim p = Some c"
  using assms by (auto simp: find_candidates_def List.map_filter_def)

definition not_inferred :: "path_edge list \<Rightarrow> bool" where
  "not_inferred es = (es = [] \<or> (\<exists>(f, ty, to, s) \<in> set es. \<not> startswith ty ''inferred:''))"

lemma recorded_side:
  assumes "out_ok t S k m" "dget (re_r m) n \<noteq> None" "\<not> inferred_only (dget_or (re_paths m) n [])"
  shows "\<exists>a \<in> S. \<exists>es. chain t a es n \<and> length es \<le> k \<and> not_inferred es"
proof -
  obtain ps where ps: "dget (re_paths m) n = Some ps" using out_okD(1) [OF assms(1), of n] assms(2) by auto
  have ok: "paths_ok t S k n ps" by (rule out_okD(3) [OF assms(1) ps])
  have "\<exists>p \<in> set ps. not_inferred (sp_edges p)"
  proof (cases "concat (List.map sp_edges ps) = []")
    case True
    then show ?thesis using ok by (cases ps) (auto simp: paths_ok_def not_inferred_def)
  next
    case False
    then show ?thesis using assms(3) ps by (fastforce simp: inferred_only_def dget_or_def not_inferred_def list_all_iff Let_def)
  qed
  then show ?thesis using ok by (auto simp: paths_ok_def simple_path_def) blast
qed

text \<open>A candidate is joined to both sides by what is on record. It names a claim of the build, its strength is the
  smaller of what arrived from the two sides and reaches the floor; and from a seed of the stimulus in at most
  two edges, and from a seed of the need in at most three, a path of recorded edges leads to it that does not
  consist of guessed edges only.\<close>

theorem candidates_are_joined:
  assumes "c \<in> set (find_candidates claims led aha_min nmaps (spread kn 2 t seeds))"
    and "\<forall>(need, info, m) \<in> set nmaps. \<exists>hops. m = (spread kn 3 t (nseeds need))\<lparr>re_hops := hops\<rparr>"
  shows "dget claims (ca_resource c) \<noteq> None \<and> aha_min \<le> ca_strength c
    \<and> (\<exists>a \<in> seed_nodes seeds. \<exists>es. chain t a es (''claim:'' @ ca_resource c) \<and> length es \<le> 2 \<and> not_inferred es)
    \<and> (\<exists>a \<in> seed_nodes (nseeds (ca_need c)). \<exists>es. chain t a es (''claim:'' @ ca_resource c) \<and> length es \<le> 3 \<and> not_inferred es)"
proof -
  obtain need info m p where p: "(need, info, m) \<in> set nmaps" "p \<in> set (re_r (spread kn 2 t seeds))"
    "candidate_at claims led aha_min need info m (spread kn 2 t seeds) p = Some c"
    by (rule in_find_candidates [OF assms(1)])
  note c = candidate_atD [OF p(3)]
  obtain hops where m: "m = (spread kn 3 t (nseeds need))\<lparr>re_hops := hops\<rparr>" using assms(2) p(1) by blast
  have "dget (re_r (spread kn 2 t seeds)) (fst p) \<noteq> None"
    using p(2) unfolding map_of_eq_None_iff by (metis image_eqI not_not)
  moreover have "\<not> inferred_only (dget_or (re_paths (spread kn 2 t seeds)) (fst p) [])" using c(10) by (simp add: paths_to_def)
  ultimately have stim: "\<exists>a \<in> seed_nodes seeds. \<exists>es. chain t a es (fst p) \<and> length es \<le> 2 \<and> not_inferred es"
    by (rule recorded_side [OF spread_out_ok])
  have "dget (re_r (spread kn 3 t (nseeds need))) (fst p) \<noteq> None"
    using c(4,6) unfolding m by (auto simp: dget_or_def split: option.splits)
  moreover have "\<not> inferred_only (dget_or (re_paths (spread kn 3 t (nseeds need))) (fst p) [])" using c(9) unfolding m by (simp add: paths_to_def)
  ultimately have "\<exists>a \<in> seed_nodes (nseeds need). \<exists>es. chain t a es (fst p) \<and> length es \<le> 3 \<and> not_inferred es"
    by (rule recorded_side [OF spread_out_ok])
  then show ?thesis using stim c(1-3,5) by simp
qed

section \<open>A pair is judged once\<close>

lemma verdict_line_known:
  assumes "verdict_line acc line = Inr acc'" "fst acc \<noteq> None \<longrightarrow> the (fst acc) \<in> set verdicts"
  shows "fst acc' \<noteq> None \<longrightarrow> the (fst acc') \<in> set verdicts"
  using assms by (auto simp: verdict_line_def py_bind_eq_Inr Let_def split: if_splits)

lemma parse_verdict_known: "parse_verdict raw = Inr (Some v, link) \<Longrightarrow> v \<in> set verdicts"
proof -
  assume "parse_verdict raw = Inr (Some v, link)"
  then have "fst (Some v, link) \<noteq> None \<longrightarrow> the (fst (Some v, link)) \<in> set verdicts"
    unfolding parse_verdict_def
    by (rule py_fold_invariant [where P = "\<lambda>acc. fst acc \<noteq> None \<longrightarrow> the (fst acc) \<in> set verdicts"]) (simp, rule verdict_line_known)
  then show ?thesis by simp
qed

lemma sorted_types_cong: "set xs = set ys \<Longrightarrow> sorted_types xs = sorted_types ys"
  by (simp add: sorted_types_def) (metis sorted_list_of_set_sort_remdups)

text \<open>The verdict of the two answers: of the first one that can be read.\<close>

definition verdict_of :: "string \<Rightarrow> string \<Rightarrow> (string option \<times> string) py" where
  "verdict_of raw1 raw2 =
     (case parse_verdict raw1 of
        Inl e \<Rightarrow> Inl e
      | Inr (None, link) \<Rightarrow> parse_verdict raw2
      | Inr (Some v, link) \<Rightarrow> Inr (Some v, link))"

lemma verdict_of_known: "verdict_of raw1 raw2 = Inr (Some v, link) \<Longrightarrow> v \<in> set verdicts"
  using parse_verdict_known by (auto simp: verdict_of_def split: sum.splits option.splits)

lemma judge_result:
  assumes "judge c raw1 raw2 now led = Inr (c', led')"
  shows "\<exists>r link. verdict_of raw1 raw2 = Inr (r, link)
    \<and> (c', led') = (case r of None \<Rightarrow> (c\<lparr>ca_verdict := Some ''error'', ca_link := []\<rparr>, led)
        | Some v \<Rightarrow> (c\<lparr>ca_verdict := Some v, ca_link := link\<rparr>, record_verdict c v link now led))"
proof -
  obtain v1 l1 where f: "parse_verdict raw1 = Inr (v1, l1)" using assms by (auto simp: judge_def py_bind_eq_Inr)
  show ?thesis
  proof (cases v1)
    case None
    then obtain r where "parse_verdict raw2 = Inr r" using assms f by (auto simp: judge_def py_bind_eq_Inr)
    then show ?thesis using assms f None by (cases r) (simp add: judge_def verdict_of_def)
  next
    case (Some v)
    then show ?thesis using assms f by (simp add: judge_def verdict_of_def)
  qed
qed

lemma recorded_is_settled:
  assumes "v \<in> set verdicts" "d \<in> set (find_candidates claims (record_verdict c v link now led) aha_min nmaps stim)"
    and "ca_need d = ca_need c" "ca_resource d = ca_resource c"
  shows "set (ca_types d) \<noteq> set (ca_types c) \<and> v \<notin> {''satisfies'', ''stale''}"
proof -
  obtain need info m p where "candidate_at claims (record_verdict c v link now led) aha_min need info m stim p = Some d"
    by (rule in_find_candidates [OF assms(2)])
  note d = candidate_atD [OF this]
  have nb: "\<not> blocked (record_verdict c v link now led) (ca_need c) (ca_resource c) (ca_types d)" using d(1,8) assms(3,4) by simp
  have key: "set (ca_types d) = set (ca_types c) \<Longrightarrow>
      verdict_key (ca_need c) (ca_resource c) (ca_types c) = verdict_key (ca_need c) (ca_resource c) (ca_types d)"
    using sorted_types_cong [of "ca_types d" "ca_types c"] by (simp add: verdict_key_def)
  have "set (ca_types d) \<noteq> set (ca_types c)" using nb assms(1) key by (auto simp: blocked_def record_verdict_def verdicts_def)
  moreover have "v \<notin> {''satisfies'', ''stale''}" using nb by (auto simp: blocked_def record_verdict_def)
  ultimately show ?thesis by blast
qed

text \<open>C29: a pair is judged once. When neither answer of the judge can be read, the candidate is an error and the ledger
  is as it was. When one can, its verdict is one of the known ones and the candidate's, and no later search over the
  new ledger, with whatever reach maps, offers the same resource for the same need over the same types of edges; after
  \<open>satisfies\<close> or \<open>stale\<close> it offers that resource for that need over no types at all.\<close>

theorem pair_is_judged_once:
  assumes "judge c raw1 raw2 now led = Inr (c', led')"
  shows "\<exists>r link. verdict_of raw1 raw2 = Inr (r, link)
    \<and> (r = None \<longrightarrow> ca_verdict c' = Some ''error'' \<and> led' = led)
    \<and> (\<forall>v. r = Some v \<longrightarrow> v \<in> set verdicts \<and> ca_verdict c' = Some v
        \<and> (\<forall>claims aha_min nmaps stim. \<forall>d \<in> set (find_candidates claims led' aha_min nmaps stim).
             ca_need d = ca_need c \<and> ca_resource d = ca_resource c
             \<longrightarrow> set (ca_types d) \<noteq> set (ca_types c) \<and> v \<notin> {''satisfies'', ''stale''}))"
proof -
  obtain r link where r: "verdict_of raw1 raw2 = Inr (r, link)"
    "(c', led') = (case r of None \<Rightarrow> (c\<lparr>ca_verdict := Some ''error'', ca_link := []\<rparr>, led)
        | Some v \<Rightarrow> (c\<lparr>ca_verdict := Some v, ca_link := link\<rparr>, record_verdict c v link now led))"
    using judge_result [OF assms] by blast
  show ?thesis
  proof (cases r)
    case None
    then show ?thesis using r by (intro exI [of _ r] exI [of _ link]) simp
  next
    case (Some v)
    have k: "v \<in> set verdicts" using verdict_of_known r(1) Some by blast
    have "set (ca_types d) \<noteq> set (ca_types c) \<and> v \<notin> {''satisfies'', ''stale''}"
      if "d \<in> set (find_candidates claims led' aha_min nmaps stim)" "ca_need d = ca_need c \<and> ca_resource d = ca_resource c"
      for d claims aha_min nmaps stim
      using recorded_is_settled [OF k, of d claims c link now led aha_min nmaps stim] that r(2) Some by simp
    then have later: "\<forall>claims aha_min nmaps stim. \<forall>d \<in> set (find_candidates claims led' aha_min nmaps stim).
        ca_need d = ca_need c \<and> ca_resource d = ca_resource c \<longrightarrow> set (ca_types d) \<noteq> set (ca_types c) \<and> v \<notin> {''satisfies'', ''stale''}"
      by blast
    have "ca_verdict c' = Some v" using r(2) Some by simp
    then show ?thesis using k r(1) Some later by blast
  qed
qed

text \<open>A verdict line that holds markup only is not empty before the markup is stripped and has no word after: the
  reading raises, outside the guard around the generation.\<close>

lemma markup_verdict_raises:
  "judge c ''VERDICT: **'' raw2 now led = Inl IndexError"
proof -
  have "parse_verdict ''VERDICT: **'' = Inl IndexError" by code_simp
  then show ?thesis by (simp add: judge_def)
qed

text \<open>The library closes a need by its node, \<open>need:\<close> and the claim's id; the building of the table asks for the bare
  claim id. A closed need is no longer listed but keeps its node and its edges in every later build.\<close>

definition todo_claim :: claim where
  "todo_claim = (fresh_claim ''1'' ''need'' (page ''v1'' [] []) (plain_fact ''A'' True) (said ''k'' ''A'' []))
     \<lparr>cl_subject := ''ident:a'', cl_visible_in := [''v1'']\<rparr>"

lemma closed_need_survives_rebuild:
  "let f = close_need ''need:1'' \<lparr>nf_registered = [], nf_closed = []\<rparr> in
   case build_edges [] (closed_needs f) [] [] [(''1'', todo_claim)] of
     Inr t \<Rightarrow> standing_needs t [(''1'', todo_claim)] {''v1''} f = [] \<and> dkeys (needs t) = [''need:1''] \<and> length (edges t ''need:1'') = 2
   | Inl e \<Rightarrow> False"
  by code_simp

definition joined_table :: edge_table where
  "joined_table = add_edge ''b'' ''n'' ''rel:z'' [] (add_edge ''claim:1'' ''b'' ''rel:y'' [] (add_edge ''a'' ''claim:1'' ''rel:x'' [] empty_table))"

definition joined_candidates :: "verdict_entry list \<Rightarrow> candidate list" where
  "joined_candidates led = find_candidates [(''1'', todo_claim)] led aha_min_default
     [(''n'', \<lparr>ni_claim = [], ni_anchors = []\<rparr>, spread (default_knobs (\<lambda>f. 1)) 3 joined_table [(''n'', 1)])]
     (spread (default_knobs (\<lambda>f. 1)) 2 joined_table [(''a'', 1)])"

lemma candidates_are_joined_witness:
  "ca_resource (hd (joined_candidates [])) = ''1''
   \<and> (\<exists>a \<in> seed_nodes [(''a'', 1)]. \<exists>es. chain joined_table a es ''claim:1'' \<and> length es \<le> 2 \<and> not_inferred es)"
proof -
  have h: "hd (joined_candidates []) \<in> set (joined_candidates [])" by (rule hd_in_set) code_simp
  have r: "ca_resource (hd (joined_candidates [])) = ''1''" by code_simp
  have own: "\<exists>hops. m = m\<lparr>re_hops := hops\<rparr>" for m :: reached by (rule exI [of _ "re_hops m"]) (cases m, simp)
  have "\<forall>(need, info, m) \<in> set [(''n'', \<lparr>ni_claim = [], ni_anchors = []\<rparr>, spread (default_knobs (\<lambda>f. 1)) 3 joined_table [(''n'', 1)])].
      \<exists>hops. m = (spread (default_knobs (\<lambda>f. 1)) 3 joined_table [(need, 1)])\<lparr>re_hops := hops\<rparr>"
    using own by simp
  note j = candidates_are_joined [OF h [unfolded joined_candidates_def] this, folded joined_candidates_def]
  show ?thesis using j unfolding r by simp
qed

text \<open>One answer that says no, and two that cannot be read.\<close>

lemma pair_is_judged_once_witness:
  "let c = (hd (joined_candidates []))\<lparr>ca_types := [''other'']\<rparr>; led = record_verdict c ''no'' [] 0 [] in
   set (ca_types (hd (joined_candidates led))) \<noteq> {''other''} \<and> judge c ''well'' ''hm'' 0 led = Inr (c\<lparr>ca_verdict := Some ''error'', ca_link := []\<rparr>, led)"
proof -
  define c where "c = (hd (joined_candidates []))\<lparr>ca_types := [''other'']\<rparr>"
  define led where "led = record_verdict c ''no'' [] 0 []"
  have p: "parse_verdict ''VERDICT: no'' = Inr (Some ''no'', [])" "parse_verdict ''well'' = Inr (None, [])" "parse_verdict ''hm'' = Inr (None, [])"
    by code_simp+
  then have j: "judge c ''VERDICT: no'' [] 0 [] = Inr (c\<lparr>ca_verdict := Some ''no'', ca_link := []\<rparr>, led)"
    by (simp add: judge_def led_def)
  have h: "hd (joined_candidates led) \<in> set (joined_candidates led)" unfolding led_def c_def by (rule hd_in_set) code_simp
  have n: "ca_need (hd (joined_candidates led)) = ca_need c" "ca_resource (hd (joined_candidates led)) = ca_resource c"
    unfolding led_def c_def by code_simp+
  have v: "verdict_of ''VERDICT: no'' [] = Inr (Some ''no'', [])" using p by (simp add: verdict_of_def)
  have "set (ca_types (hd (joined_candidates led))) \<noteq> set (ca_types c)"
    using pair_is_judged_once [OF j] v h [unfolded joined_candidates_def] n [unfolded joined_candidates_def]
    unfolding joined_candidates_def by fastforce
  moreover have "judge c ''well'' ''hm'' 0 led = Inr (c\<lparr>ca_verdict := Some ''error'', ca_link := []\<rparr>, led)"
    using p by (simp add: judge_def)
  ultimately show ?thesis unfolding Let_def c_def led_def by simp
qed

end
