(* ===== verification/Staging.thy ===== *)
theory Staging
  imports Gist
begin

text \<open>
  \<open>core/reflection_staging.py\<close>: a reflection works in a staging workspace, mirrors every finished chat into a durable
  checkpoint, and a later run folds a surviving checkpoint into the live files. A workspace is its reflection
  products by name and its three logs by text (as Python reads it, every line end a line feed). An operation
  that touches several files is the list of its file actions, so that a crash is a prefix of it.
\<close>

section \<open>Files\<close>

datatype log_kind = Rag | Weights | Anchors

record workspace =
  ws_chats :: chats_dir
  ws_log :: "log_kind \<Rightarrow> string option"

definition empty_ws :: workspace where
  "empty_ws = \<lparr>ws_chats = [], ws_log = (\<lambda>k. None)\<rparr>"

record reflection_files =
  rf_staging :: workspace
  rf_ckpt :: workspace
  rf_live :: workspace
  rf_info :: "(string \<times> string list) content option"
  rf_owners :: "string list content option"
  rf_pending :: chats_dir
  rf_staged_archive :: "chats_dir option"
  rf_archive :: chats_dir
  rf_candidate :: "string option"
  rf_models :: "(string, string) dict"
  rf_adapter :: "string option"

type_synonym file_action = "reflection_files \<Rightarrow> reflection_files"

definition perform :: "file_action list \<Rightarrow> reflection_files \<Rightarrow> reflection_files" where
  "perform acts s = foldl (\<lambda>s a. a s) s acts"

definition set_log :: "log_kind \<Rightarrow> string option \<Rightarrow> workspace \<Rightarrow> workspace" where
  "set_log k t w = w\<lparr>ws_log := (ws_log w)(k := t)\<rparr>"

definition session_stem :: "string \<Rightarrow> string" where
  "session_stem f = (if endswith f ''.json'' then take (length f - 5) f else f)"

definition reflection_suffixes :: "string list" where
  "reflection_suffixes = [''.state.json'', ''.summary.json'', ''.facts.json'']"

definition chat_products :: "chats_dir \<Rightarrow> string \<Rightarrow> string list" where
  "chat_products d stem = filter (\<lambda>n. dget d n \<noteq> None) (List.map (\<lambda>suf. stem @ suf) reflection_suffixes)"

definition iter_chat_products :: "chats_dir \<Rightarrow> string list" where
  "iter_chat_products d = concat (List.map (\<lambda>suf. sort (filter (\<lambda>n. endswith n suf) (dkeys d))) reflection_suffixes)"

text \<open>\<open>shutil.copy2\<close> of a file that is there.\<close>

definition copy_file :: "string \<Rightarrow> chats_dir \<Rightarrow> chats_dir \<Rightarrow> chats_dir" where
  "copy_file n src dst = (case dget src n of None \<Rightarrow> dst | Some c \<Rightarrow> dset n c dst)"

definition copy_product :: "string \<Rightarrow> workspace \<Rightarrow> workspace \<Rightarrow> workspace" where
  "copy_product n src dst = dst\<lparr>ws_chats := copy_file n (ws_chats src) (ws_chats dst)\<rparr>"

section \<open>Appending a log to a log\<close>

definition ended :: "string \<Rightarrow> string" where
  "ended d = (if d \<noteq> [] \<and> \<not> endswith d [CHR 0x0A] then d @ [CHR 0x0A] else d)"

definition append_file_to_file :: "string option \<Rightarrow> string option \<Rightarrow> string option \<times> nat" where
  "append_file_to_file src dest =
     (case src of
        None \<Rightarrow> (dest, 0)
      | Some s \<Rightarrow>
          let ls = splitlines s in
          if ls = [] then (dest, 0)
          else (Some (ended (case dest of None \<Rightarrow> [] | Some d \<Rightarrow> d) @ concat (List.map (\<lambda>l. py_strip l @ [CHR 0x0A]) ls)),
                length ls))"

definition append_log :: "log_kind \<Rightarrow> workspace \<Rightarrow> workspace \<Rightarrow> workspace" where
  "append_log k src dst = set_log k (fst (append_file_to_file (ws_log src k) (ws_log dst k))) dst"

section \<open>The checkpoint\<close>

definition has_checkpoint :: "reflection_files \<Rightarrow> bool" where
  "has_checkpoint s = list_ex (\<lambda>n. endswith n ''.state.json'') (dkeys (ws_chats (rf_ckpt s)))"

definition info_sessions :: "reflection_files \<Rightarrow> string list" where
  "info_sessions s = (case rf_info s of Some (Parsed (r, fs)) \<Rightarrow> fs | _ \<Rightarrow> [])"

definition note_session :: "string \<Rightarrow> string \<Rightarrow> file_action" where
  "note_session f run s =
     s\<lparr>rf_info := Some (Parsed (run, if f \<in> set (info_sessions s) then info_sessions s else info_sessions s @ [f]))\<rparr>"

definition mirror_product :: "string \<Rightarrow> file_action" where
  "mirror_product n s = s\<lparr>rf_ckpt := copy_product n (rf_staging s) (rf_ckpt s)\<rparr>"

definition mirror_log :: "log_kind \<Rightarrow> file_action" where
  "mirror_log k s = (case ws_log (rf_staging s) k of None \<Rightarrow> s | Some t \<Rightarrow> s\<lparr>rf_ckpt := set_log k (Some t) (rf_ckpt s)\<rparr>)"

definition checkpoint_actions :: "string \<Rightarrow> string \<Rightarrow> reflection_files \<Rightarrow> file_action list" where
  "checkpoint_actions f run s =
     List.map mirror_product (chat_products (ws_chats (rf_staging s)) (session_stem f))
     @ List.map mirror_log [Rag, Weights, Anchors] @ [note_session f run]"

definition checkpoint_completed_session :: "string \<Rightarrow> string \<Rightarrow> reflection_files \<Rightarrow> reflection_files" where
  "checkpoint_completed_session f run s = perform (checkpoint_actions f run s) s"

definition discard_checkpoint :: file_action where
  "discard_checkpoint s = s\<lparr>rf_ckpt := empty_ws, rf_info := None\<rparr>"

definition stem_of_name :: "string \<Rightarrow> string" where
  "stem_of_name n = takeWhile (\<lambda>c. c \<noteq> CHR ''.'') n"

definition frozen_live :: "chats_dir \<Rightarrow> string \<Rightarrow> bool" where
  "frozen_live d stem =
     (case dget d (stem @ ''.state.json'') of
        Some (Parsed (JObj o')) \<Rightarrow> truthy (jget o' ''reflected_at'')
      | _ \<Rightarrow> False)"

definition promote_product :: "string \<Rightarrow> file_action" where
  "promote_product n s = s\<lparr>rf_live := copy_product n (rf_ckpt s) (rf_live s)\<rparr>"

definition promote_log :: "log_kind \<Rightarrow> file_action" where
  "promote_log k s = s\<lparr>rf_live := append_log k (rf_ckpt s) (rf_live s)\<rparr>"

definition to_promote :: "reflection_files \<Rightarrow> string list" where
  "to_promote s = filter (\<lambda>n. \<not> frozen_live (ws_chats (rf_live s)) (stem_of_name n)) (iter_chat_products (ws_chats (rf_ckpt s)))"

definition fold_actions :: "reflection_files \<Rightarrow> file_action list" where
  "fold_actions s =
     (if \<not> has_checkpoint s then []
      else List.map promote_product (to_promote s) @ List.map promote_log [Rag, Weights, Anchors] @ [discard_checkpoint])"

definition fold_checkpoint_to_live :: "reflection_files \<Rightarrow> reflection_files" where
  "fold_checkpoint_to_live s = perform (fold_actions s) s"

text \<open>The files after a crash that let the first \<open>n\<close> actions of the fold happen.\<close>

definition crashed_fold :: "nat \<Rightarrow> reflection_files \<Rightarrow> reflection_files" where
  "crashed_fold n s = perform (take n (fold_actions s)) s"

section \<open>Chats reflected in the background\<close>

definition write_pending_clean_base :: "string \<Rightarrow> json list \<Rightarrow> json list \<Rightarrow> bool \<Rightarrow> file_action" where
  "write_pending_clean_base f jobs facts notes s =
     s\<lparr>rf_pending := dset (session_stem f) (Parsed (JObj ([(''judge_jobs'', JList jobs), (''fact_candidates'', JList facts)]
         @ (if notes then [(''user_notes'', JBool True)] else [])))) (rf_pending s)\<rparr>"

definition load_pending_clean_base :: "string \<Rightarrow> reflection_files \<Rightarrow> json list \<times> json list \<times> bool" where
  "load_pending_clean_base f s =
     (case dget (rf_pending s) (session_stem f) of
        Some (Parsed (JObj d)) \<Rightarrow>
          (case (json_list_items (py_or (jget d ''judge_jobs'') (JList [])), json_list_items (py_or (jget d ''fact_candidates'') (JList []))) of
             (Inr js, Inr fs) \<Rightarrow> (js, fs, truthy (jget d ''user_notes''))
           | _ \<Rightarrow> ([], [], False))
      | _ \<Rightarrow> ([], [], False))"

definition delete_pending_clean_base :: "string \<Rightarrow> file_action" where
  "delete_pending_clean_base f s = s\<lparr>rf_pending := dpop (session_stem f) (rf_pending s)\<rparr>"

definition purge_background_artifacts :: "string \<Rightarrow> file_action" where
  "purge_background_artifacts f s =
     (let s1 = delete_pending_clean_base f s; w = rf_ckpt s1 in
      s1\<lparr>rf_ckpt := w\<lparr>ws_chats := foldl (\<lambda>d n. dpop n d) (ws_chats w) (chat_products (ws_chats w) (session_stem f))\<rparr>\<rparr>)"

definition commit_background_actions :: "workspace \<Rightarrow> string \<Rightarrow> string \<Rightarrow> file_action list" where
  "commit_background_actions w f run =
     List.map (\<lambda>n s. s\<lparr>rf_ckpt := copy_product n w (rf_ckpt s)\<rparr>) (chat_products (ws_chats w) (session_stem f))
     @ List.map (\<lambda>k s. s\<lparr>rf_ckpt := append_log k w (rf_ckpt s)\<rparr>) [Rag, Weights, Anchors] @ [note_session f run]"

definition commit_background_chat :: "workspace \<Rightarrow> string \<Rightarrow> string \<Rightarrow> reflection_files \<Rightarrow> reflection_files" where
  "commit_background_chat w f run s = perform (commit_background_actions w f run) s"

section \<open>The stages of a run\<close>

definition read_staging_owners :: "reflection_files \<Rightarrow> string list" where
  "read_staging_owners s = (case rf_owners s of Some (Parsed rs) \<Rightarrow> rs | _ \<Rightarrow> [])"

definition write_staging_owner :: "string \<Rightarrow> bool \<Rightarrow> file_action" where
  "write_staging_owner run ap s =
     (let rs = (if ap then read_staging_owners s else []) in
      s\<lparr>rf_owners := Some (Parsed (if run \<in> set rs then rs else rs @ [run]))\<rparr>)"

definition stage_log :: "log_kind \<Rightarrow> file_action" where
  "stage_log k s = s\<lparr>rf_live := append_log k (rf_staging s) (rf_live s)\<rparr>"

definition run_stage_merge_rag :: file_action where
  "run_stage_merge_rag = stage_log Rag"

definition archive_file :: "string \<Rightarrow> file_action" where
  "archive_file n s =
     s\<lparr>rf_archive := (case rf_staged_archive s of None \<Rightarrow> rf_archive s | Some a \<Rightarrow> copy_file n a (rf_archive s)),
       rf_live := (rf_live s)\<lparr>ws_chats := dpop n (ws_chats (rf_live s))\<rparr>\<rparr>"

definition commit_training_actions :: "reflection_files \<Rightarrow> file_action list" where
  "commit_training_actions s =
     [stage_log Weights, stage_log Anchors]
     @ List.map (\<lambda>n s. s\<lparr>rf_live := copy_product n (rf_staging s) (rf_live s)\<rparr>) (iter_chat_products (ws_chats (rf_staging s)))
     @ (case rf_staged_archive s of None \<Rightarrow> [] | Some a \<Rightarrow> List.map archive_file (dkeys a))"

definition run_stage_commit_training :: "reflection_files \<Rightarrow> reflection_files" where
  "run_stage_commit_training s = perform (commit_training_actions s) s"

definition run_stage_discard :: file_action where
  "run_stage_discard s = s\<lparr>rf_staging := empty_ws, rf_staged_archive := None, rf_owners := None, rf_candidate := None\<rparr>"

definition promote_adapter :: "string \<Rightarrow> file_action" where
  "promote_adapter stamp s =
     (case rf_candidate s of
        None \<Rightarrow> s
      | Some w \<Rightarrow> s\<lparr>rf_candidate := None, rf_models := dset (''adapter-'' @ stamp) w (rf_models s), rf_adapter := Some (''adapter-'' @ stamp)\<rparr>)"

definition run_stage_apply :: "string \<Rightarrow> reflection_files \<Rightarrow> reflection_files" where
  "run_stage_apply stamp s = run_stage_discard (promote_adapter stamp (run_stage_commit_training (run_stage_merge_rag s)))"

section \<open>Appended logs hold the records of both\<close>

text \<open>What the readers of a log get: its lines, stripped, without the blank ones.\<close>

definition records_of :: "string option \<Rightarrow> string list" where
  "records_of t = (case t of None \<Rightarrow> [] | Some t \<Rightarrow> filter (\<lambda>l. l \<noteq> []) (List.map py_strip (splitlines t)))"

lemma lines_from_break:
  "lines_from cur (s @ CHR 0x0A # t) = lines_from cur (s @ [CHR 0x0A]) @ lines_from [] t"
proof (induction cur s rule: lines_from.induct)
  case (1 cur)
  then show ?case by (simp add: is_eol_def)
next
  case (2 cur c cs)
  show ?case
  proof (cases "c = CHR 0x0D \<and> startswith (cs @ [CHR 0x0A]) [CHR 0x0A]")
    case True
    then show ?thesis
    proof (cases cs)
      case (Cons d ds)
      then have "startswith cs [CHR 0x0A]" using True by (simp add: startswith_def)
      then show ?thesis using 2(1) True Cons by (simp add: startswith_def)
    qed (simp add: startswith_def)
  next
    case False
    then have "\<not> (c = CHR 0x0D \<and> startswith (cs @ CHR 0x0A # t) [CHR 0x0A])" "\<not> (c = CHR 0x0D \<and> startswith cs [CHR 0x0A])"
      by (cases cs; simp add: startswith_def)+
    then show ?thesis using 2(2,3) False by auto
  qed
qed

lemma lines_no_eol: "\<forall>c\<in>set cur. \<not> is_eol c \<Longrightarrow> l \<in> set (lines_from cur s) \<Longrightarrow> c \<in> set l \<Longrightarrow> \<not> is_eol c"
proof (induction cur s arbitrary: l rule: lines_from.induct)
  case (1 cur)
  then show ?case by (auto split: if_splits)
next
  case (2 cur x cs)
  then show ?case by (auto split: if_splits)
qed

lemma splitlines_no_eol: "l \<in> set (splitlines s) \<Longrightarrow> c \<in> set (py_strip l) \<Longrightarrow> \<not> is_eol c"
  using lines_no_eol [of "[]" l s c] set_strip_if [of is_space l] by (auto simp: splitlines_def py_strip_def)

lemma lines_from_line:
  "\<forall>c\<in>set l. \<not> is_eol c \<Longrightarrow> lines_from cur (l @ CHR 0x0A # t) = (cur @ l) # lines_from [] t"
proof (induction l arbitrary: cur)
  case Nil
  then show ?case by (simp add: is_eol_def)
next
  case (Cons c l)
  then have "c \<noteq> CHR 0x0D" by (auto simp: is_eol_def)
  then show ?case using Cons by simp
qed

lemma splitlines_lines:
  "\<forall>l\<in>set ls. \<forall>c\<in>set l. \<not> is_eol c \<Longrightarrow> splitlines (concat (List.map (\<lambda>l. l @ [CHR 0x0A]) ls)) = ls"
  by (induction ls) (auto simp: splitlines_def lines_from_line)

lemma lines_of_closed_line:
  "filter (\<lambda>l. l \<noteq> []) (lines_from cur (d @ [CHR 0x0A])) = filter (\<lambda>l. l \<noteq> []) (lines_from cur d)"
proof (induction cur d rule: lines_from.induct)
  case (1 cur)
  then show ?case by (simp add: is_eol_def)
next
  case (2 cur c cs)
  show ?case
  proof (cases "cs = []")
    case True
    then show ?thesis by (simp add: startswith_def is_eol_def)
  next
    case False
    then have "startswith (cs @ [CHR 0x0A]) [CHR 0x0A] = startswith cs [CHR 0x0A]"
      "drop 1 (cs @ [CHR 0x0A]) = drop 1 cs @ [CHR 0x0A]"
      by (cases cs; simp add: startswith_def)+
    then show ?thesis using 2 by auto
  qed
qed

lemma records_filter:
  "filter (\<lambda>l. l \<noteq> []) (List.map py_strip ls) = filter (\<lambda>l. l \<noteq> []) (List.map py_strip (filter (\<lambda>l. l \<noteq> []) ls))"
  by (induction ls) (auto simp: py_strip_def strip_if_def lstrip_if_def rstrip_if_def)

lemma splitlines_ended:
  "filter (\<lambda>l. l \<noteq> []) (splitlines (ended d @ t))
     = filter (\<lambda>l. l \<noteq> []) (splitlines d) @ filter (\<lambda>l. l \<noteq> []) (splitlines t)"
proof (cases "d = []")
  case True
  then show ?thesis by (simp add: ended_def splitlines_def)
next
  case False
  have "\<exists>e. ended d = e @ [CHR 0x0A] \<and>
      filter (\<lambda>l. l \<noteq> []) (lines_from [] (e @ [CHR 0x0A])) = filter (\<lambda>l. l \<noteq> []) (lines_from [] d)"
  proof (cases "endswith d [CHR 0x0A]")
    case True
    then obtain e where "d = e @ [CHR 0x0A]" by (metis append_take_drop_id endswith_def)
    then show ?thesis by (simp add: ended_def)
  next
    case no: False
    then show ?thesis using False lines_of_closed_line [of "[]" d] by (intro exI [of _ d]) (simp add: ended_def)
  qed
  then obtain e where e: "ended d = e @ [CHR 0x0A]"
    "filter (\<lambda>l. l \<noteq> []) (lines_from [] (e @ [CHR 0x0A])) = filter (\<lambda>l. l \<noteq> []) (lines_from [] d)" by blast
  have "splitlines (ended d @ t) = lines_from [] (e @ [CHR 0x0A]) @ splitlines t"
    using lines_from_break [of "[]" e t] by (simp add: e(1) splitlines_def)
  then show ?thesis by (simp add: splitlines_def e(2))
qed

lemma records_append:
  "records_of (fst (append_file_to_file src dest)) = records_of dest @ records_of src"
proof (cases src)
  case None
  then show ?thesis by (simp add: append_file_to_file_def records_of_def)
next
  case (Some s)
  show ?thesis
  proof (cases "splitlines s = []")
    case True
    then show ?thesis using Some by (simp add: append_file_to_file_def records_of_def)
  next
    case False
    define d where "d = (case dest of None \<Rightarrow> [] | Some d \<Rightarrow> d)"
    define t where "t = concat (List.map (\<lambda>l. py_strip l @ [CHR 0x0A]) (splitlines s))"
    have "splitlines t = List.map py_strip (splitlines s)"
      using splitlines_lines [of "List.map py_strip (splitlines s)"] splitlines_no_eol by (fastforce simp: t_def comp_def)
    then have t: "records_of (Some t) = records_of src" using Some by (simp add: records_of_def comp_def)
    have "records_of (Some (ended d @ t)) = records_of (Some d) @ records_of (Some t)"
      unfolding records_of_def option.case
      by (subst (1 2 3) records_filter) (simp only: splitlines_ended map_append filter_append)
    moreover have "records_of (Some d) = records_of dest"
      by (simp add: d_def records_of_def splitlines_def split: option.split)
    moreover have "fst (append_file_to_file src dest) = Some (ended d @ t)"
      using False Some by (simp add: append_file_to_file_def d_def t_def Let_def)
    ultimately show ?thesis by (simp add: t)
  qed
qed

section \<open>What the fold leaves\<close>

lemma perform_simps [simp]:
  "perform [] s = s"
  "perform (a # acts) s = perform acts (a s)"
  "perform (acts @ acts') s = perform acts' (perform acts s)"
  by (simp_all add: perform_def)

lemma perform_invariant: "(\<And>a s. a \<in> set acts \<Longrightarrow> f (a s) = f s) \<Longrightarrow> f (perform acts s) = f s"
  by (induction acts arbitrary: s) auto

lemma dget_copy_file [simp]: "dget (copy_file n src dst) m = (if m = n \<and> dget src n \<noteq> None then dget src n else dget dst m)"
  by (auto simp: copy_file_def split: option.splits)

lemma ws_set_log [simp]: "ws_log (set_log k t w) = (ws_log w)(k := t)" "ws_chats (set_log k t w) = ws_chats w"
  by (simp_all add: set_log_def)

lemma ws_copy_product [simp]: "ws_log (copy_product n src w) = ws_log w" "ws_chats (copy_product n src w) = copy_file n (ws_chats src) (ws_chats w)"
  by (simp_all add: copy_product_def)

lemma perform_copies:
  "dget (ws_chats (rf_live (perform (List.map promote_product ns) s))) n
     = (if n \<in> set ns \<and> dget (ws_chats (rf_ckpt s)) n \<noteq> None then dget (ws_chats (rf_ckpt s)) n else dget (ws_chats (rf_live s)) n)"
  "ws_log (rf_live (perform (List.map promote_product ns) s)) = ws_log (rf_live s)"
  "rf_ckpt (perform (List.map promote_product ns) s) = rf_ckpt s"
  by (induction ns arbitrary: s) (auto simp: promote_product_def)

lemma perform_logs:
  "ws_log (rf_live (perform (List.map promote_log [Rag, Weights, Anchors]) s)) k
     = fst (append_file_to_file (ws_log (rf_ckpt s) k) (ws_log (rf_live s) k))"
  "ws_chats (rf_live (perform (List.map promote_log [Rag, Weights, Anchors]) s)) = ws_chats (rf_live s)"
  by (cases k; simp add: promote_log_def append_log_def) (simp add: promote_log_def append_log_def)

definition is_product :: "string \<Rightarrow> bool" where
  "is_product n = list_ex (endswith n) reflection_suffixes"

lemma in_dkeys: "n \<in> set (dkeys d) \<longleftrightarrow> dget d n \<noteq> None"
  by (simp add: map_of_eq_None_iff)

lemma set_iter_products: "set (iter_chat_products d) = {n. dget d n \<noteq> None \<and> is_product n}"
proof (rule set_eqI)
  fix n
  have "n \<in> set (iter_chat_products d) \<longleftrightarrow> n \<in> set (dkeys d) \<and> is_product n"
    unfolding iter_chat_products_def is_product_def list_ex_iff by auto
  then show "n \<in> set (iter_chat_products d) \<longleftrightarrow> n \<in> {n. dget d n \<noteq> None \<and> is_product n}"
    unfolding mem_Collect_eq in_dkeys .
qed

lemma fold_files:
  assumes "has_checkpoint s"
  shows "dget (ws_chats (rf_live (fold_checkpoint_to_live s))) n
       = (if dget (ws_chats (rf_ckpt s)) n \<noteq> None \<and> is_product n \<and> \<not> frozen_live (ws_chats (rf_live s)) (stem_of_name n)
          then dget (ws_chats (rf_ckpt s)) n else dget (ws_chats (rf_live s)) n)"
    and "ws_log (rf_live (fold_checkpoint_to_live s)) k = fst (append_file_to_file (ws_log (rf_ckpt s) k) (ws_log (rf_live s) k))"
    and "rf_ckpt (fold_checkpoint_to_live s) = empty_ws"
  using assms by (auto simp: fold_checkpoint_to_live_def fold_actions_def discard_checkpoint_def perform_copies perform_logs
      to_promote_def set_iter_products simp del: list.map)

lemma fold_nothing: "\<not> has_checkpoint s \<Longrightarrow> fold_checkpoint_to_live s = s"
  by (simp add: fold_checkpoint_to_live_def fold_actions_def)

lemma chat_products_iff: "n \<in> set (chat_products d stem) \<longleftrightarrow> dget d n \<noteq> None \<and> (\<exists>suf \<in> set reflection_suffixes. n = stem @ suf)"
  by (auto simp: chat_products_def)

lemma product_of_stem: "suf \<in> set reflection_suffixes \<Longrightarrow> is_product (stem @ suf)"
  unfolding is_product_def list_ex_iff using endswith_append by blast

lemma stem_of_product:
  assumes "suf \<in> set reflection_suffixes" "CHR ''.'' \<notin> set stem"
  shows "stem_of_name (stem @ suf) = stem"
proof -
  have "takeWhile (\<lambda>c. c \<noteq> CHR ''.'') suf = []" using assms(1) by (auto simp: reflection_suffixes_def)
  moreover have "\<forall>c\<in>set stem. c \<noteq> CHR ''.''" using assms(2) by blast
  ultimately show ?thesis by (simp add: stem_of_name_def takeWhile_append)
qed

text \<open>C22: folding a checkpoint promotes every reflection product of the chats that were not frozen live before the fold (all
  three files of a chat or none, each as the checkpoint has it), leaves every other live file alone, gives each live
  log the checkpoint's records after its own, and consumes the checkpoint.\<close>

theorem fold_promotes_unfrozen:
  assumes "has_checkpoint s"
  shows "(\<forall>n. dget (ws_chats (rf_live (fold_checkpoint_to_live s))) n
       = (if dget (ws_chats (rf_ckpt s)) n \<noteq> None \<and> is_product n \<and> \<not> frozen_live (ws_chats (rf_live s)) (stem_of_name n)
          then dget (ws_chats (rf_ckpt s)) n else dget (ws_chats (rf_live s)) n))
    \<and> (\<forall>k. records_of (ws_log (rf_live (fold_checkpoint_to_live s)) k)
         = records_of (ws_log (rf_live s) k) @ records_of (ws_log (rf_ckpt s) k))
    \<and> rf_ckpt (fold_checkpoint_to_live s) = empty_ws \<and> fold_checkpoint_to_live (fold_checkpoint_to_live s) = fold_checkpoint_to_live s"
proof -
  have "\<not> has_checkpoint (fold_checkpoint_to_live s)"
    by (simp add: has_checkpoint_def fold_files(3) [OF assms] empty_ws_def)
  then show ?thesis by (simp add: fold_files [OF assms] records_append fold_nothing)
qed

section \<open>Recovery of an interrupted run\<close>

text \<open>
  A run as its files see it: for each finished chat the staging workspace at that moment, whatever its pass and
  the run's other steps left there, then the checkpoint call.
\<close>

definition run_chat :: "string \<Rightarrow> reflection_files \<Rightarrow> string \<times> workspace \<Rightarrow> reflection_files" where
  "run_chat run s p = checkpoint_completed_session (fst p) run (s\<lparr>rf_staging := snd p\<rparr>)"

definition run_chats :: "string \<Rightarrow> reflection_files \<Rightarrow> (string \<times> workspace) list \<Rightarrow> reflection_files" where
  "run_chats run s ps = foldl (run_chat run) s ps"

text \<open>A file as the run last mirrored it: at the last finish of the chat it belongs to, if that chat then had it. A log as
  the last finish that found one had it.\<close>

definition mirror_of :: "string \<Rightarrow> json content option \<Rightarrow> string \<times> workspace \<Rightarrow> json content option" where
  "mirror_of n c p =
     (if n \<in> set (chat_products (ws_chats (snd p)) (session_stem (fst p))) then dget (ws_chats (snd p)) n else c)"

definition last_mirror :: "string \<Rightarrow> (string \<times> workspace) list \<Rightarrow> json content option" where
  "last_mirror n ps = foldl (mirror_of n) None ps"

definition log_of :: "log_kind \<Rightarrow> string option \<Rightarrow> string \<times> workspace \<Rightarrow> string option" where
  "log_of k t p = (case ws_log (snd p) k of None \<Rightarrow> t | Some t' \<Rightarrow> Some t')"

definition last_log :: "log_kind \<Rightarrow> (string \<times> workspace) list \<Rightarrow> string option" where
  "last_log k ps = foldl (log_of k) None ps"

lemma perform_mirrors:
  "dget (ws_chats (rf_ckpt (perform (List.map mirror_product ns) s))) n
     = (if n \<in> set ns \<and> dget (ws_chats (rf_staging s)) n \<noteq> None then dget (ws_chats (rf_staging s)) n else dget (ws_chats (rf_ckpt s)) n)"
  "ws_log (rf_ckpt (perform (List.map mirror_product ns) s)) = ws_log (rf_ckpt s)"
  "rf_staging (perform (List.map mirror_product ns) s) = rf_staging s"
  by (induction ns arbitrary: s) (auto simp: mirror_product_def)

lemma perform_mirror_logs:
  "ws_log (rf_ckpt (perform (List.map mirror_log [Rag, Weights, Anchors]) s)) k
     = (if ws_log (rf_staging s) k = None then ws_log (rf_ckpt s) k else ws_log (rf_staging s) k)"
  "ws_chats (rf_ckpt (perform (List.map mirror_log [Rag, Weights, Anchors]) s)) = ws_chats (rf_ckpt s)"
  "rf_staging (perform (List.map mirror_log [Rag, Weights, Anchors]) s) = rf_staging s"
  by (cases k; simp add: mirror_log_def split: option.split) (simp_all add: mirror_log_def split: option.split)

lemma checkpoint_files:
  "dget (ws_chats (rf_ckpt (checkpoint_completed_session f run s))) n
     = (if n \<in> set (chat_products (ws_chats (rf_staging s)) (session_stem f)) then dget (ws_chats (rf_staging s)) n else dget (ws_chats (rf_ckpt s)) n)"
  "ws_log (rf_ckpt (checkpoint_completed_session f run s)) k
     = (if ws_log (rf_staging s) k = None then ws_log (rf_ckpt s) k else ws_log (rf_staging s) k)"
  "rf_staging (checkpoint_completed_session f run s) = rf_staging s"
  by (auto simp: checkpoint_completed_session_def checkpoint_actions_def note_session_def perform_mirrors perform_mirror_logs
      chat_products_iff simp del: list.map)

lemma checkpoint_elsewhere:
  "rf_live (checkpoint_completed_session f run s) = rf_live s"
  "rf_staged_archive (checkpoint_completed_session f run s) = rf_staged_archive s"
  unfolding checkpoint_completed_session_def
  by (rule perform_invariant, auto simp: checkpoint_actions_def mirror_product_def mirror_log_def note_session_def split: option.split)+

lemma run_chat_files:
  "dget (ws_chats (rf_ckpt (run_chat run s p))) n = mirror_of n (dget (ws_chats (rf_ckpt s)) n) p"
  "ws_log (rf_ckpt (run_chat run s p)) k = log_of k (ws_log (rf_ckpt s) k) p"
  "rf_live (run_chat run s p) = rf_live s" "rf_staged_archive (run_chat run s p) = rf_staged_archive s"
  by (auto simp: run_chat_def checkpoint_files checkpoint_elsewhere mirror_of_def log_of_def split: option.split)

lemma run_chats_files:
  "dget (ws_chats (rf_ckpt (run_chats run s ps))) n = foldl (mirror_of n) (dget (ws_chats (rf_ckpt s)) n) ps"
  "ws_log (rf_ckpt (run_chats run s ps)) k = foldl (log_of k) (ws_log (rf_ckpt s) k) ps"
  "rf_live (run_chats run s ps) = rf_live s" "rf_staged_archive (run_chats run s ps) = rf_staged_archive s"
  unfolding run_chats_def by (induction ps arbitrary: s) (simp_all add: run_chat_files)

lemma mirror_kept: "c \<noteq> None \<Longrightarrow> foldl (mirror_of n) c ps \<noteq> None"
  by (induction ps arbitrary: c) (auto simp: mirror_of_def chat_products_iff)

lemma mirror_product_name: "foldl (mirror_of n) c ps \<noteq> None \<Longrightarrow> c = None \<Longrightarrow> is_product n"
proof (induction ps arbitrary: c)
  case (Cons p ps)
  show ?case
  proof (cases "mirror_of n c p = None")
    case True
    then show ?thesis using Cons.IH [OF _ True] Cons.prems(1) by simp
  next
    case False
    then show ?thesis
      using Cons.prems(2) product_of_stem by (auto simp: mirror_of_def chat_products_iff split: if_splits)
  qed
qed simp

lemma finished_has_checkpoint:
  assumes "p \<in> set ps" "dget (ws_chats (snd p)) (session_stem (fst p) @ ''.state.json'') \<noteq> None"
  shows "has_checkpoint (run_chats run s ps)"
proof -
  let ?n = "session_stem (fst p) @ ''.state.json''"
  obtain as bs where ps: "ps = as @ p # bs" using split_list [OF assms(1)] by blast
  have "?n \<in> set (chat_products (ws_chats (snd p)) (session_stem (fst p)))"
    using assms(2) unfolding chat_products_iff by (auto simp: reflection_suffixes_def)
  then have "mirror_of ?n c p \<noteq> None" for c using assms(2) by (simp add: mirror_of_def)
  then have "dget (ws_chats (rf_ckpt (run_chats run s ps))) ?n \<noteq> None"
    by (simp add: run_chats_files ps mirror_kept del: not_None_eq)
  then have "?n \<in> set (dkeys (ws_chats (rf_ckpt (run_chats run s ps))))" unfolding in_dkeys by simp
  then show ?thesis unfolding has_checkpoint_def list_ex_iff using endswith_append by blast
qed

lemma commit_files:
  assumes "rf_staged_archive s = None"
  shows "dget (ws_chats (rf_live (run_stage_commit_training (run_stage_merge_rag s)))) n
       = (if dget (ws_chats (rf_staging s)) n \<noteq> None \<and> is_product n then dget (ws_chats (rf_staging s)) n else dget (ws_chats (rf_live s)) n)"
    and "ws_log (rf_live (run_stage_commit_training (run_stage_merge_rag s))) k
       = fst (append_file_to_file (ws_log (rf_staging s) k) (ws_log (rf_live s) k))"
proof -
  have copies: "dget (ws_chats (rf_live (perform (List.map (\<lambda>n s. s\<lparr>rf_live := copy_product n (rf_staging s) (rf_live s)\<rparr>) ns) s))) n
     = (if n \<in> set ns \<and> dget (ws_chats (rf_staging s)) n \<noteq> None then dget (ws_chats (rf_staging s)) n else dget (ws_chats (rf_live s)) n)"
    "ws_log (rf_live (perform (List.map (\<lambda>n s. s\<lparr>rf_live := copy_product n (rf_staging s) (rf_live s)\<rparr>) ns) s)) = ws_log (rf_live s)"
    for ns s n by (induction ns arbitrary: s) auto
  note d = run_stage_commit_training_def commit_training_actions_def run_stage_merge_rag_def stage_log_def append_log_def
  show "dget (ws_chats (rf_live (run_stage_commit_training (run_stage_merge_rag s)))) n
       = (if dget (ws_chats (rf_staging s)) n \<noteq> None \<and> is_product n then dget (ws_chats (rf_staging s)) n else dget (ws_chats (rf_live s)) n)"
    using assms by (simp add: d copies set_iter_products)
  show "ws_log (rf_live (run_stage_commit_training (run_stage_merge_rag s))) k
       = fst (append_file_to_file (ws_log (rf_staging s) k) (ws_log (rf_live s) k))"
    using assms by (cases k) (simp_all add: d copies)
qed

lemma perform_archive:
  "dget (ws_chats (rf_live (perform (List.map archive_file ns) s))) n = (if n \<in> set ns then None else dget (ws_chats (rf_live s)) n)"
  "ws_log (rf_live (perform (List.map archive_file ns) s)) = ws_log (rf_live s)"
  "rf_staged_archive s = Some a \<Longrightarrow> dget (rf_archive (perform (List.map archive_file ns) s)) n
     = (if n \<in> set ns \<and> dget a n \<noteq> None then dget a n else dget (rf_archive s) n)"
  by (induction ns arbitrary: s) (auto simp: archive_file_def)

lemma commit_archives:
  assumes "rf_staged_archive s = Some a"
  shows "dget (ws_chats (rf_live (run_stage_commit_training s))) n
       = (if dget a n \<noteq> None then None else dget (ws_chats (rf_live (run_stage_commit_training (s\<lparr>rf_staged_archive := None\<rparr>)))) n)"
    and "dget (rf_archive (run_stage_commit_training s)) n = (if dget a n \<noteq> None then dget a n else dget (rf_archive s) n)"
    and "ws_log (rf_live (run_stage_commit_training s)) = ws_log (rf_live (run_stage_commit_training (s\<lparr>rf_staged_archive := None\<rparr>)))"
proof -
  define acts where "acts = [stage_log Weights, stage_log Anchors]
     @ List.map (\<lambda>n s. s\<lparr>rf_live := copy_product n (rf_staging s) (rf_live s)\<rparr>) (iter_chat_products (ws_chats (rf_staging s)))"
  have c: "run_stage_commit_training s = perform (List.map archive_file (dkeys a)) (perform acts s)"
    "run_stage_commit_training (s\<lparr>rf_staged_archive := None\<rparr>) = perform acts (s\<lparr>rf_staged_archive := None\<rparr>)"
    using assms by (simp_all add: run_stage_commit_training_def commit_training_actions_def acts_def)
  have blind: "f (perform acts t) = f t" if "\<And>w t. f (t\<lparr>rf_live := w\<rparr>) = f t" for f :: "reflection_files \<Rightarrow> 'x" and t
    by (rule perform_invariant) (auto simp: acts_def stage_log_def that)
  have arch: "rf_staged_archive (perform acts s) = Some a" "rf_archive (perform acts s) = rf_archive s"
    using assms blind [of rf_staged_archive s] blind [of rf_archive s] by simp_all
  have act: "x (t\<lparr>rf_staged_archive := None\<rparr>) = (x t)\<lparr>rf_staged_archive := None\<rparr>" if "x \<in> set acts" for x t
    using that by (cases t) (auto simp: acts_def stage_log_def)
  have "rf_live (perform as (t\<lparr>rf_staged_archive := None\<rparr>)) = rf_live (perform as t)" if "set as \<subseteq> set acts" for as t
    using that by (induction as arbitrary: t) (simp_all add: act)
  then have live: "rf_live (perform acts (s\<lparr>rf_staged_archive := None\<rparr>)) = rf_live (perform acts s)" by simp
  show "dget (ws_chats (rf_live (run_stage_commit_training s))) n
       = (if dget a n \<noteq> None then None else dget (ws_chats (rf_live (run_stage_commit_training (s\<lparr>rf_staged_archive := None\<rparr>)))) n)"
    unfolding c perform_archive(1) live in_dkeys by simp
  show "dget (rf_archive (run_stage_commit_training s)) n = (if dget a n \<noteq> None then dget a n else dget (rf_archive s) n)"
    unfolding c perform_archive(3) [OF arch(1)] arch(2) in_dkeys by simp
  show "ws_log (rf_live (run_stage_commit_training s)) = ws_log (rf_live (run_stage_commit_training (s\<lparr>rf_staged_archive := None\<rparr>)))"
    unfolding c perform_archive(2) live by simp
qed

definition staged_archive :: "reflection_files \<Rightarrow> chats_dir" where
  "staged_archive s = (case rf_staged_archive s of None \<Rightarrow> [] | Some a \<Rightarrow> a)"

lemma commit_all:
  defines "commit \<equiv> \<lambda>s. run_stage_commit_training (run_stage_merge_rag s)"
  shows "dget (ws_chats (rf_live (commit s))) n
       = (if dget (staged_archive s) n \<noteq> None then None
          else if dget (ws_chats (rf_staging s)) n \<noteq> None \<and> is_product n then dget (ws_chats (rf_staging s)) n
          else dget (ws_chats (rf_live s)) n)"
    and "dget (rf_archive (commit s)) n = (if dget (staged_archive s) n \<noteq> None then dget (staged_archive s) n else dget (rf_archive s) n)"
    and "ws_log (rf_live (commit s)) k = fst (append_file_to_file (ws_log (rf_staging s) k) (ws_log (rf_live s) k))"
    and "rf_candidate (commit s) = rf_candidate s"
proof -
  let ?m = "run_stage_merge_rag s"
  have m: "rf_staged_archive ?m = rf_staged_archive s" "rf_archive ?m = rf_archive s" "rf_candidate ?m = rf_candidate s"
    "?m\<lparr>rf_staged_archive := None\<rparr> = run_stage_merge_rag (s\<lparr>rf_staged_archive := None\<rparr>)"
    by (simp_all add: run_stage_merge_rag_def stage_log_def)
  have ar: "rf_archive (run_stage_commit_training t) = rf_archive t" if "rf_staged_archive t = None" for t
    unfolding run_stage_commit_training_def
    by (rule perform_invariant) (use that in \<open>auto simp: commit_training_actions_def stage_log_def\<close>)
  show "rf_candidate (commit s) = rf_candidate s"
    unfolding commit_def run_stage_commit_training_def m(3) [symmetric]
    by (rule perform_invariant) (auto simp: commit_training_actions_def stage_log_def archive_file_def split: option.splits)
  have "dget (ws_chats (rf_live (commit s))) n
       = (if dget (staged_archive s) n \<noteq> None then None
          else if dget (ws_chats (rf_staging s)) n \<noteq> None \<and> is_product n then dget (ws_chats (rf_staging s)) n
          else dget (ws_chats (rf_live s)) n)
    \<and> dget (rf_archive (commit s)) n = (if dget (staged_archive s) n \<noteq> None then dget (staged_archive s) n else dget (rf_archive s) n)
    \<and> ws_log (rf_live (commit s)) k = fst (append_file_to_file (ws_log (rf_staging s) k) (ws_log (rf_live s) k))"
  proof (cases "rf_staged_archive s")
    case None
    then show ?thesis using commit_files [OF None] ar [of ?m] by (simp add: commit_def staged_archive_def m)
  next
    case (Some a)
    then have "rf_staged_archive ?m = Some a" by (simp add: m)
    note c = commit_archives [OF this, unfolded m(4)] commit_files [of "s\<lparr>rf_staged_archive := None\<rparr>"]
    show ?thesis using Some c by (simp add: commit_def staged_archive_def m)
  qed
  then show "dget (ws_chats (rf_live (commit s))) n
       = (if dget (staged_archive s) n \<noteq> None then None
          else if dget (ws_chats (rf_staging s)) n \<noteq> None \<and> is_product n then dget (ws_chats (rf_staging s)) n
          else dget (ws_chats (rf_live s)) n)"
    "dget (rf_archive (commit s)) n = (if dget (staged_archive s) n \<noteq> None then dget (staged_archive s) n else dget (rf_archive s) n)"
    "ws_log (rf_live (commit s)) k = fst (append_file_to_file (ws_log (rf_staging s) k) (ws_log (rf_live s) k))"
    by blast+
qed

text \<open>C11: what the recovery of an interrupted run gives back, whatever each pass did to the staging workspace. When a
  chat was finished, folding the checkpoint leaves every product of a chat not frozen live as the last finish of that
  chat left it, touches no other live file, and gives each live log the records of the staged log as of the last finish
  after its own. Where the staging still holds what was mirrored, and does not archive the file, that is the file a
  commit would leave; where the log was not written since, the live log is the commit's.\<close>

theorem recovery_restores_finished:
  fixes partial :: workspace
  assumes "rf_ckpt s = empty_ws" "p \<in> set ps" "dget (ws_chats (snd p)) (session_stem (fst p) @ ''.state.json'') \<noteq> None"
  shows "let broken = run_chats run s ps\<lparr>rf_staging := partial\<rparr>; recovered = fold_checkpoint_to_live broken;
             committed = run_stage_commit_training (run_stage_merge_rag broken) in
         (\<forall>n. dget (ws_chats (rf_live recovered)) n
            = (if last_mirror n ps \<noteq> None \<and> \<not> frozen_live (ws_chats (rf_live s)) (stem_of_name n)
               then last_mirror n ps else dget (ws_chats (rf_live s)) n))
         \<and> (\<forall>k. records_of (ws_log (rf_live recovered) k) = records_of (ws_log (rf_live s) k) @ records_of (last_log k ps))
         \<and> (\<forall>n. dget (ws_chats partial) n = last_mirror n ps \<and> dget (staged_archive s) n = None
              \<and> \<not> frozen_live (ws_chats (rf_live s)) (stem_of_name n)
              \<longrightarrow> dget (ws_chats (rf_live recovered)) n = dget (ws_chats (rf_live committed)) n)
         \<and> (\<forall>k. ws_log partial k = last_log k ps \<longrightarrow> ws_log (rf_live recovered) k = ws_log (rf_live committed) k)"
proof -
  define t where "t = run_chats run s ps\<lparr>rf_staging := partial\<rparr>"
  have h: "has_checkpoint t" using finished_has_checkpoint [OF assms(2,3), of run s] by (simp add: t_def has_checkpoint_def)
  have t: "dget (ws_chats (rf_ckpt t)) n = last_mirror n ps" "ws_log (rf_ckpt t) k = last_log k ps" "rf_live t = rf_live s"
    "rf_staging t = partial" "staged_archive t = staged_archive s" for n k
    using assms(1) by (simp_all add: t_def run_chats_files last_mirror_def last_log_def empty_ws_def staged_archive_def)
  have pr: "last_mirror n ps \<noteq> None \<Longrightarrow> is_product n" for n
    unfolding last_mirror_def by (erule mirror_product_name) simp
  show ?thesis
    unfolding Let_def t_def [symmetric] using pr by (auto simp: fold_files(1,2) [OF h] t records_append commit_all(1,3))
qed

definition no_files :: reflection_files where
  "no_files = \<lparr>rf_staging = empty_ws, rf_ckpt = empty_ws, rf_live = empty_ws, rf_info = None, rf_owners = None, rf_pending = [],
     rf_staged_archive = None, rf_archive = [], rf_candidate = None, rf_models = [], rf_adapter = None\<rparr>"

definition staged_once :: workspace where
  "staged_once = \<lparr>ws_chats = [(''a.state.json'', Parsed (JObj [(''reflected_at'', JStr ''t'')])), (''a.summary.json'', Parsed (JObj []))],
     ws_log = (\<lambda>k. None)(Rag := Some ''x'')\<rparr>"

lemmas staging_evals = no_files_def staged_once_def empty_ws_def has_checkpoint_def chat_products_def
  reflection_suffixes_def session_stem_def endswith_def frozen_live_def is_product_def set_log_def

theorem fold_promotes_unfrozen_witness:
  "has_checkpoint (no_files\<lparr>rf_ckpt := staged_once\<rparr>)
   \<and> dget (ws_chats (rf_live (fold_checkpoint_to_live (no_files\<lparr>rf_ckpt := staged_once\<rparr>)))) ''a.summary.json'' = Some (Parsed (JObj []))"
proof -
  let ?s = "no_files\<lparr>rf_ckpt := staged_once\<rparr>"
  have h: "has_checkpoint ?s" by (simp add: staging_evals)
  have "dget (ws_chats (rf_live (fold_checkpoint_to_live ?s))) ''a.summary.json'' =
     (if dget (ws_chats (rf_ckpt ?s)) ''a.summary.json'' \<noteq> None \<and> is_product ''a.summary.json''
        \<and> \<not> frozen_live (ws_chats (rf_live ?s)) (stem_of_name ''a.summary.json'')
      then dget (ws_chats (rf_ckpt ?s)) ''a.summary.json'' else dget (ws_chats (rf_live ?s)) ''a.summary.json'')"
    using fold_promotes_unfrozen [OF h] by blast
  then show ?thesis using h by (simp add: staging_evals)
qed

theorem recovery_restores_finished_witness:
  "\<forall>k. ws_log (rf_live (fold_checkpoint_to_live (run_chats ''r'' no_files [(''a.json'', staged_once)]\<lparr>rf_staging := staged_once\<rparr>))) k
     = ws_log (rf_live (run_stage_commit_training (run_stage_merge_rag (run_chats ''r'' no_files [(''a.json'', staged_once)]\<lparr>rf_staging := staged_once\<rparr>)))) k"
proof -
  have a: "dget (ws_chats (snd (''a.json'', staged_once))) (session_stem (fst (''a.json'', staged_once)) @ ''.state.json'') \<noteq> None"
    by (simp add: staging_evals)
  have "ws_log staged_once k = last_log k [(''a.json'', staged_once)]" for k
    by (simp add: last_log_def log_of_def split: option.split)
  then show ?thesis
    using recovery_restores_finished [of no_files "(''a.json'', staged_once)" "[(''a.json'', staged_once)]" staged_once "''r''", OF _ _ a]
    by (simp add: Let_def no_files_def)
qed

text \<open>
  The docstring of the checkpoint says that, folded once, it reproduces all completed work. The clean-base judge runs after
  the chats were mirrored and may replace the target of an exchange in the staged sidecar, which no later step mirrors:
  an interruption before the commit recovers the chat frozen, with the target the judge had replaced.
\<close>

definition staged_target :: "string \<Rightarrow> workspace" where
  "staged_target t = \<lparr>ws_chats = [(''a.state.json'', Parsed (JObj [(''reflected_at'', JStr ''now''),
      (''exchanges'', JObj [(''0'', JObj [(''target'', JStr t)])])]))], ws_log = (\<lambda>k. None)\<rparr>"

lemma late_override_not_recovered:
  "let broken = run_chats ''r'' no_files [(''a.json'', staged_target ''first'')]\<lparr>rf_staging := staged_target ''judged''\<rparr> in
     dget (ws_chats (rf_live (fold_checkpoint_to_live broken))) ''a.state.json'' = dget (ws_chats (staged_target ''first'')) ''a.state.json''
   \<and> dget (ws_chats (rf_live (run_stage_commit_training (run_stage_merge_rag broken)))) ''a.state.json''
       = dget (ws_chats (staged_target ''judged'')) ''a.state.json''
   \<and> frozen_live (ws_chats (rf_live (fold_checkpoint_to_live broken))) ''a''"
  by code_simp

section \<open>Chats reflected in the background\<close>

definition background_run :: "reflection_files \<Rightarrow> (string \<times> string \<times> workspace) list \<Rightarrow> reflection_files" where
  "background_run s ps = foldl (\<lambda>s p. commit_background_chat (snd (snd p)) (fst p) (fst (snd p)) s) s ps"

lemma background_files:
  "dget (ws_chats (rf_ckpt (commit_background_chat w f run s))) n
     = (if n \<in> set (chat_products (ws_chats w) (session_stem f)) then dget (ws_chats w) n else dget (ws_chats (rf_ckpt s)) n)"
  "ws_log (rf_ckpt (commit_background_chat w f run s)) k = fst (append_file_to_file (ws_log w k) (ws_log (rf_ckpt s) k))"
  "rf_live (commit_background_chat w f run s) = rf_live s"
proof -
  have copies: "dget (ws_chats (rf_ckpt (perform (List.map (\<lambda>n s. s\<lparr>rf_ckpt := copy_product n w (rf_ckpt s)\<rparr>) ns) s))) n
     = (if n \<in> set ns \<and> dget (ws_chats w) n \<noteq> None then dget (ws_chats w) n else dget (ws_chats (rf_ckpt s)) n)"
    "ws_log (rf_ckpt (perform (List.map (\<lambda>n s. s\<lparr>rf_ckpt := copy_product n w (rf_ckpt s)\<rparr>) ns) s)) = ws_log (rf_ckpt s)"
    "rf_live (perform (List.map (\<lambda>n s. s\<lparr>rf_ckpt := copy_product n w (rf_ckpt s)\<rparr>) ns) s) = rf_live s"
    for ns s n by (induction ns arbitrary: s) auto
  note d = commit_background_chat_def commit_background_actions_def append_log_def note_session_def
  show "dget (ws_chats (rf_ckpt (commit_background_chat w f run s))) n
     = (if n \<in> set (chat_products (ws_chats w) (session_stem f)) then dget (ws_chats w) n else dget (ws_chats (rf_ckpt s)) n)"
    by (auto simp: d copies chat_products_iff)
  show "ws_log (rf_ckpt (commit_background_chat w f run s)) k = fst (append_file_to_file (ws_log w k) (ws_log (rf_ckpt s) k))"
    by (cases k) (simp_all add: d copies)
  show "rf_live (commit_background_chat w f run s) = rf_live s" by (simp add: d copies)
qed

lemma background_logs:
  "records_of (ws_log (rf_ckpt (background_run s ps)) k)
     = records_of (ws_log (rf_ckpt s) k) @ concat (List.map (\<lambda>p. records_of (ws_log (snd (snd p)) k)) ps)
   \<and> rf_live (background_run s ps) = rf_live s
   \<and> (dget (ws_chats (rf_ckpt s)) n \<noteq> None \<longrightarrow> dget (ws_chats (rf_ckpt (background_run s ps))) n \<noteq> None)"
proof (induction ps arbitrary: s)
  case Nil
  then show ?case by (simp add: background_run_def)
next
  case (Cons p ps)
  let ?s = "commit_background_chat (snd (snd p)) (fst p) (fst (snd p)) s"
  have "background_run s (p # ps) = background_run ?s ps" by (simp add: background_run_def)
  moreover have "dget (ws_chats (rf_ckpt s)) n \<noteq> None \<longrightarrow> dget (ws_chats (rf_ckpt ?s)) n \<noteq> None"
    by (auto simp: background_files(1) chat_products_iff)
  ultimately show ?case using Cons.IH [of ?s] by (simp add: background_files(2,3) records_append)
qed

lemma background_checkpoint:
  assumes "p \<in> set ps" "dget (ws_chats (snd (snd p))) (session_stem (fst p) @ ''.state.json'') \<noteq> None"
  shows "has_checkpoint (background_run s ps)"
proof -
  let ?n = "session_stem (fst p) @ ''.state.json''"
  obtain as bs where ps: "ps = as @ p # bs" using split_list [OF assms(1)] by blast
  let ?s = "commit_background_chat (snd (snd p)) (fst p) (fst (snd p)) (background_run s as)"
  have "?n \<in> set (chat_products (ws_chats (snd (snd p))) (session_stem (fst p)))"
    using assms(2) unfolding chat_products_iff by (auto simp: reflection_suffixes_def)
  then have "dget (ws_chats (rf_ckpt ?s)) ?n \<noteq> None" using assms(2) by (simp add: background_files(1))
  then have "dget (ws_chats (rf_ckpt (background_run ?s bs))) ?n \<noteq> None" using background_logs [of ?s bs undefined ?n] by blast
  moreover have "background_run s ps = background_run ?s bs" by (simp add: background_run_def ps)
  ultimately have "?n \<in> set (dkeys (ws_chats (rf_ckpt (background_run s ps))))" unfolding in_dkeys by simp
  then show ?thesis unfolding has_checkpoint_def list_ex_iff using endswith_append by blast
qed

text \<open>C12: the chats reflected in the background accumulate in the checkpoint, and the next run's fold gives every live log
  the records of each of them exactly once, in the order of their commits, after the log's own.\<close>

theorem background_chats_fold_once:
  assumes "rf_ckpt s = empty_ws" "p \<in> set ps" "dget (ws_chats (snd (snd p))) (session_stem (fst p) @ ''.state.json'') \<noteq> None"
  shows "records_of (ws_log (rf_live (fold_checkpoint_to_live (background_run s ps))) k)
     = records_of (ws_log (rf_live s) k) @ concat (List.map (\<lambda>p. records_of (ws_log (snd (snd p)) k)) ps)"
proof -
  have "records_of (ws_log (rf_ckpt s) k) = []" using assms(1) by (simp add: empty_ws_def records_of_def)
  then show ?thesis
    using fold_files(2) [OF background_checkpoint [OF assms(2,3)], of s k] background_logs [of s ps k undefined]
    by (simp add: records_append)
qed

theorem background_chats_fold_once_witness:
  "records_of (ws_log (rf_live (fold_checkpoint_to_live (background_run no_files [(''a.json'', ''r'', staged_once), (''b.json'', ''q'', staged_once)]))) Rag)
     = [''x'', ''x'']"
proof -
  let ?p = "(''a.json'', ''r'', staged_once)"
  have "dget (ws_chats (snd (snd ?p))) (session_stem (fst ?p) @ ''.state.json'') \<noteq> None" by (simp add: staging_evals)
  then have "records_of (ws_log (rf_live (fold_checkpoint_to_live (background_run no_files [?p, (''b.json'', ''q'', staged_once)]))) Rag)
     = records_of (ws_log (rf_live no_files) Rag)
       @ concat (List.map (\<lambda>p. records_of (ws_log (snd (snd p)) Rag)) [?p, (''b.json'', ''q'', staged_once)])"
    by (intro background_chats_fold_once [where p = ?p]) (simp_all add: no_files_def)
  then show ?thesis by (simp add: staging_evals records_of_def splitlines_def is_eol_def py_strip_def strip_if_def rstrip_if_def lstrip_if_def is_space_def)
qed

lemma dget_foldl_dpop: "dget (foldl (\<lambda>d n. dpop n d) d ns) n = (if n \<in> set ns then None else dget d n)"
  by (induction ns arbitrary: d) auto

lemma purge_files:
  assumes "suf \<in> set reflection_suffixes"
  shows "dget (ws_chats (rf_ckpt (purge_background_artifacts f s))) (session_stem f @ suf) = None"
    and "rf_live (purge_background_artifacts f s) = rf_live s"
    and "dget (rf_pending (purge_background_artifacts f s)) (session_stem f) = None"
proof -
  have "session_stem f @ suf \<notin> set (chat_products (ws_chats (rf_ckpt s)) (session_stem f))
      \<Longrightarrow> dget (ws_chats (rf_ckpt s)) (session_stem f @ suf) = None"
    using assms by (auto simp: chat_products_iff)
  then show "dget (ws_chats (rf_ckpt (purge_background_artifacts f s))) (session_stem f @ suf) = None"
    by (auto simp: purge_background_artifacts_def delete_pending_clean_base_def dget_foldl_dpop Let_def)
qed (simp_all add: purge_background_artifacts_def delete_pending_clean_base_def Let_def)

lemma fold_keeps_pending: "rf_pending (fold_checkpoint_to_live s) = rf_pending s"
  unfolding fold_checkpoint_to_live_def
  by (rule perform_invariant) (auto simp: fold_actions_def promote_product_def promote_log_def discard_checkpoint_def split: if_splits)

text \<open>Once a chat's background artifacts are purged, the next fold cannot bring its old freeze, gist or facts back, and
  none of its judge jobs is left for that run.\<close>

theorem purged_chat_stays_unfrozen:
  assumes "suf \<in> set reflection_suffixes"
  shows "dget (ws_chats (rf_live (fold_checkpoint_to_live (purge_background_artifacts f s)))) (session_stem f @ suf)
       = dget (ws_chats (rf_live s)) (session_stem f @ suf)
    \<and> load_pending_clean_base f (fold_checkpoint_to_live (purge_background_artifacts f s)) = ([], [], False)"
proof (cases "has_checkpoint (purge_background_artifacts f s)")
  case True
  then show ?thesis
    by (simp add: fold_files(1) purge_files [OF assms] load_pending_clean_base_def fold_keeps_pending)
next
  case False
  then show ?thesis by (simp add: fold_nothing purge_files [OF assms] load_pending_clean_base_def)
qed

theorem purged_chat_stays_unfrozen_witness:
  "dget (ws_chats (rf_live (fold_checkpoint_to_live (purge_background_artifacts ''a.json'' (no_files\<lparr>rf_ckpt := staged_once\<rparr>))))) ''a.state.json'' = None"
  using purged_chat_stays_unfrozen [of "''.state.json''" "''a.json''" "no_files\<lparr>rf_ckpt := staged_once\<rparr>"]
  by (simp add: staging_evals)

section \<open>Committing a staging workspace\<close>

text \<open>C23: applying a staging workspace makes the live copy of every staged product the staged one, moves every file of a
  staged archive, if there is one, out of the live chats into the archive, leaves every other live file, appends the
  staged records to the live logs, switches the adapter to a candidate, and leaves no staging, no owner and no
  candidate behind.\<close>

theorem apply_settles_staging:
  "let s' = run_stage_apply stamp s in
     (\<forall>n. dget (ws_chats (rf_live s')) n
        = (if dget (staged_archive s) n \<noteq> None then None
           else if dget (ws_chats (rf_staging s)) n \<noteq> None \<and> is_product n then dget (ws_chats (rf_staging s)) n
           else dget (ws_chats (rf_live s)) n))
     \<and> (\<forall>n. dget (rf_archive s') n = (if dget (staged_archive s) n \<noteq> None then dget (staged_archive s) n else dget (rf_archive s) n))
     \<and> (\<forall>k. records_of (ws_log (rf_live s') k) = records_of (ws_log (rf_live s) k) @ records_of (ws_log (rf_staging s) k))
     \<and> rf_staging s' = empty_ws \<and> rf_staged_archive s' = None \<and> rf_owners s' = None \<and> rf_candidate s' = None
     \<and> (\<forall>w. rf_candidate s = Some w \<longrightarrow> rf_adapter s' = Some (''adapter-'' @ stamp)
          \<and> dget (rf_models s') (''adapter-'' @ stamp) = Some w)
     \<and> (rf_candidate s = None \<longrightarrow> rf_adapter s' = rf_adapter s \<and> rf_models s' = rf_models s)"
proof -
  define c where "c = run_stage_commit_training (run_stage_merge_rag s)"
  have applied: "run_stage_apply stamp s = run_stage_discard (promote_adapter stamp c)" by (simp add: run_stage_apply_def c_def)
  have live: "rf_live (run_stage_apply stamp s) = rf_live c" "rf_archive (run_stage_apply stamp s) = rf_archive c"
    by (simp_all add: applied run_stage_discard_def promote_adapter_def split: option.split)
  have models: "rf_adapter c = rf_adapter s" "rf_models c = rf_models s"
    unfolding c_def run_stage_commit_training_def by (rule perform_invariant [THEN trans];
      auto simp: commit_training_actions_def stage_log_def archive_file_def run_stage_merge_rag_def split: option.splits)+
  note c = commit_all [of s, folded c_def]
  show ?thesis
    unfolding Let_def live c records_append
    by (simp add: applied run_stage_discard_def promote_adapter_def c models split: option.split)
qed

theorem apply_settles_staging_witness:
  "rf_adapter (run_stage_apply ''now'' (no_files\<lparr>rf_staging := staged_once, rf_candidate := Some ''w''\<rparr>)) = Some ''adapter-now''
   \<and> dget (ws_chats (rf_live (run_stage_apply ''now'' (no_files\<lparr>rf_staging := staged_once, rf_candidate := Some ''w''\<rparr>)))) ''a.summary.json''
       = Some (Parsed (JObj []))"
  using apply_settles_staging [of "''now''" "no_files\<lparr>rf_staging := staged_once, rf_candidate := Some ''w''\<rparr>"]
  by (simp add: Let_def staging_evals staged_archive_def)

section \<open>What a crash in the middle of a fold does\<close>

text \<open>
  The docstring of the fold says that it can never append twice, because the checkpoint is removed afterwards. A crash between
  the appends and that removal leaves the checkpoint, and the next run's fold appends its records again.
\<close>

lemma crash_before_discard_repeats:
  assumes "has_checkpoint s"
  shows "records_of (ws_log (rf_live (fold_checkpoint_to_live (crashed_fold (length (fold_actions s) - 1) s))) k)
     = records_of (ws_log (rf_live s) k) @ records_of (ws_log (rf_ckpt s) k) @ records_of (ws_log (rf_ckpt s) k)"
proof -
  let ?c = "perform (List.map promote_log [Rag, Weights, Anchors]) (perform (List.map promote_product (to_promote s)) s)"
  have c: "crashed_fold (length (fold_actions s) - 1) s = ?c"
    using assms by (simp add: crashed_fold_def fold_actions_def)
  have ck: "rf_ckpt ?c = rf_ckpt s" by (simp add: promote_log_def perform_copies)
  then have "has_checkpoint ?c" using assms by (simp add: has_checkpoint_def)
  then show ?thesis
    unfolding c using fold_files(2) [of ?c k] by (simp add: ck records_append perform_logs perform_copies del: list.map)
qed

text \<open>
  A crash after the freeze of a chat was promoted and before its gist was: the next fold takes the chat for one that was
  reflected live since, leaves its gist out and discards the only copy with the checkpoint.
\<close>

lemma crash_after_freeze_loses_gist:
  "let s' = fold_checkpoint_to_live (crashed_fold 1 (no_files\<lparr>rf_ckpt := staged_once\<rparr>)) in
   dget (ws_chats (rf_live s')) ''a.state.json'' \<noteq> None \<and> dget (ws_chats (rf_live s')) ''a.summary.json'' = None
   \<and> ws_chats (rf_ckpt s') = []"
  by code_simp

text \<open>A record that holds the next-line character is cut in two when a log is appended to another.\<close>

lemma append_cuts_records:
  "append_file_to_file (Some ([CHR ''a'', CHR 0x85, CHR ''b'', CHR 0x0A])) None = (Some [CHR ''a'', CHR 0x0A, CHR ''b'', CHR 0x0A], 2)"
  by code_simp

end
