(* ===== verification/Chunking.thy ===== *)
theory Chunking
  imports Gist
begin

text \<open>
  \<open>core/reflection_chunking.py\<close> and the clipping of \<open>core/reflection_runner.py\<close>: a chat is rendered and cut into
  parts that fit the prompt of a consolidation pass. The test whether a content fits is an argument; so are the
  fixed texts that hold characters outside Latin-1. \<open>ConsolidationChunkingError\<close> is its base class \<open>RuntimeError\<close>.
\<close>

section \<open>Rendering\<close>

record chunk_texts =
  tx_note :: string
  tx_tag :: string
  tx_part :: "int \<Rightarrow> int \<Rightarrow> string"
  tx_past :: string

record chunk_item =
  it_exchange :: nat
  it_text :: string
  it_index :: nat
  it_count :: nat

definition narrator_speakers :: "string list" where
  "narrator_speakers = [''(initiative)'', ''(setting)'']"

definition newline :: string where
  "newline = [CHR 0x0A]"

definition append_closing :: "string \<Rightarrow> string \<Rightarrow> string" where
  "append_closing content closing0 =
     (let c = py_strip closing0 in
      if c = [] then content else rstrip_if is_space content @ newline @ newline @ c @ newline)"

definition format_exchange_block :: "chunk_texts \<Rightarrow> string \<Rightarrow> json \<Rightarrow> string py" where
  "format_exchange_block tx session_user ex =
     py_bind (as_dict ex) (\<lambda>d.
     py_bind (strip_or_empty (jget d ''user_prompt'')) (\<lambda>u.
     py_bind (strip_or_empty (jget d ''assistant_response'')) (\<lambda>r.
     py_bind (strip_or_empty (jget d ''speaker'')) (\<lambda>speaker.
       Inr (join newline
         ((if u = [] then []
           else if speaker \<in> set narrator_speakers then [py_strip (tx_tag tx @ '' '' @ u)]
           else [(if speaker \<noteq> [] then speaker else if session_user \<noteq> [] then session_user else ''User'') @ '': '' @ u])
          @ (if r = [] then [] else [''Me: '' @ r])))))))"

definition chunk_frame :: "chunk_texts \<Rightarrow> (json \<Rightarrow> string) \<Rightarrow> jobj \<Rightarrow> int \<Rightarrow> int \<Rightarrow> (int \<Rightarrow> int \<Rightarrow> string list) py" where
  "chunk_frame tx rp session idx n_sessions =
     (let timestamp = jget_or session ''timestamp'' (JStr (''session '' @ int_str idx)) in
      py_bind (strip_or_empty (jget session ''system_prompt'')) (\<lambda>sys.
      py_bind (strip_or_empty (jget session ''user'')) (\<lambda>_.
      py_bind (strip_or_empty (jget session ''initiated_by'')) (\<lambda>ini.
        Inr (\<lambda>part parts.
          [''Session '' @ int_str idx @ '' of '' @ int_str n_sessions @ ''  |  '' @ fstr rp timestamp, []]
          @ (if ini = ''ava'' then [tx_note tx, []] else [])
          @ (if 1 < parts then [tx_part tx part parts, []] else [])
          @ (if sys = [] then [] else [''System prompt in effect during this session:'', CHR ''\"'' # sys @ [CHR ''\"''], []])
          @ [tx_past tx, []])))))"

definition item_lines :: "chunk_item \<Rightarrow> string list" where
  "item_lines it =
     (if py_strip (it_text it) = [] then []
      else (if 1 < it_count it
            then [''Exchange '' @ nat_str (it_exchange it + 1) @ '', fragment '' @ nat_str (it_index it) @ '' of '' @ nat_str (it_count it) @ '':'']
            else []) @ [it_text it, []])"

definition content_of :: "(int \<Rightarrow> int \<Rightarrow> string list) \<Rightarrow> string \<Rightarrow> chunk_item list \<Rightarrow> int \<Rightarrow> int \<Rightarrow> string" where
  "content_of frame closing0 items part parts =
     append_closing (join newline (frame part parts @ concat (List.map item_lines items))) closing0"

definition format_chunk_content ::
  "chunk_texts \<Rightarrow> (json \<Rightarrow> string) \<Rightarrow> jobj \<Rightarrow> int \<Rightarrow> int \<Rightarrow> int \<Rightarrow> int \<Rightarrow> chunk_item list \<Rightarrow> string \<Rightarrow> string py" where
  "format_chunk_content tx rp session idx n_sessions part parts items closing0 =
     py_bind (chunk_frame tx rp session idx n_sessions) (\<lambda>frame. Inr (content_of frame closing0 items part parts))"

definition with_open_questions :: "string \<Rightarrow> string \<Rightarrow> string" where
  "with_open_questions content block = (if block = [] then content else rstrip_if is_space block @ newline @ content)"

text \<open>The tokenizer is \<open>None\<close> when there is none; it gives no number when it raises.\<close>

definition count_tokens :: "(string \<Rightarrow> nat option) option \<Rightarrow> string \<Rightarrow> nat" where
  "count_tokens tok text =
     (case tok of None \<Rightarrow> 2 * length text div 5
      | Some f \<Rightarrow> (case f text of Some n \<Rightarrow> n | None \<Rightarrow> 2 * length text div 5))"

definition default_fits :: "(string \<Rightarrow> nat option) option \<Rightarrow> nat \<Rightarrow> string \<Rightarrow> bool" where
  "default_fits tok context_length content = (count_tokens tok content \<le> max 1 (45 * context_length div 100))"

section \<open>Fragments of an oversized exchange\<close>

text \<open>\<open>text.rfind(sub, a, b)\<close>\<close>

definition rfind_in :: "string \<Rightarrow> string \<Rightarrow> nat \<Rightarrow> nat \<Rightarrow> int" where
  "rfind_in sub s a b =
     (case rev (filter (\<lambda>i. i + length sub \<le> min b (length s) \<and> take (length sub) (drop i s) = sub) [a..<min b (length s) + 1]) of
        [] \<Rightarrow> - 1 | i # _ \<Rightarrow> int i)"

text \<open>The ends of the white space that follows a full stop, an exclamation or a question mark.\<close>

fun sentence_ends :: "bool \<Rightarrow> bool \<Rightarrow> nat \<Rightarrow> string \<Rightarrow> nat list" where
  "sentence_ends armed run i [] = (if run then [i] else [])"
| "sentence_ends armed run i (c # cs) =
     (if is_space c then sentence_ends False (run \<or> armed) (i + 1) cs
      else (if run then [i] else []) @ sentence_ends (c \<in> set ''.!?'') False (i + 1) cs)"

definition prefer_semantic_boundary :: "string \<Rightarrow> nat \<Rightarrow> nat" where
  "prefer_semantic_boundary text limit =
     (let fl = max 1 (limit div 2);
          cands = [rfind_in (newline @ newline) text fl (limit + 1), rfind_in newline text fl (limit + 1)]
            @ List.map (\<lambda>e. int (fl + e)) (sentence_ends False False 0 (take (limit + 1 - fl) (drop fl text)));
          best = foldl max (- 1) cands
      in if 0 < best then nat best else limit)"

function longest_fit :: "(nat \<Rightarrow> bool) \<Rightarrow> nat \<Rightarrow> nat \<Rightarrow> nat \<Rightarrow> nat" where
  "longest_fit ok lo hi best =
     (if lo \<le> hi then
        let mid = (lo + hi) div 2 in
        if ok mid then longest_fit ok (mid + 1) hi mid
        else if mid = 0 then best else longest_fit ok lo (mid - 1) best
      else best)"
  by pat_completeness auto
termination by (relation "measure (\<lambda>(ok, lo, hi, best). hi + 1 - lo)") auto

declare longest_fit.simps [simp del]

lemma boundary_pos: "0 < limit \<Longrightarrow> 0 < prefer_semantic_boundary text limit"
  by (simp add: prefer_semantic_boundary_def Let_def)

function fragment_pieces :: "(string \<Rightarrow> bool) \<Rightarrow> string \<Rightarrow> string list py" where
  "fragment_pieces ok remaining =
     (if remaining = [] then Inr []
      else let best = longest_fit (\<lambda>m. ok (take m remaining)) 1 (length remaining) 0 in
           if best = 0 then Inl RuntimeError
           else let cut = prefer_semantic_boundary remaining best in
                py_bind (fragment_pieces ok (drop cut remaining)) (\<lambda>ps. Inr (take cut remaining # ps)))"
  by pat_completeness auto
termination
  by (relation "measure (\<lambda>(ok, r). length r)") (use boundary_pos in auto)

declare fragment_pieces.simps [simp del]

definition fragment_item :: "chunk_item \<Rightarrow> (chunk_item list \<Rightarrow> bool) \<Rightarrow> chunk_item list py" where
  "fragment_item it fits_items =
     py_bind (fragment_pieces (\<lambda>t. fits_items [it\<lparr>it_text := t, it_index := 999, it_count := 999\<rparr>]) (it_text it)) (\<lambda>pieces.
       let fragments = List.map (\<lambda>(i, t). it\<lparr>it_text := t, it_index := i + 1, it_count := length pieces\<rparr>) (enumerate 0 pieces) in
       if list_all (\<lambda>f. fits_items [f]) fragments then Inr fragments else Inl RuntimeError)"

section \<open>Chunks\<close>

record chunk =
  ch_items :: "chunk_item list"
  ch_content :: string
  ch_part :: nat
  ch_parts :: nat
  ch_overlap :: bool

definition ch_indices :: "chunk \<Rightarrow> nat list" where
  "ch_indices c = List.map it_exchange (ch_items c)"

definition ch_fragments :: "chunk \<Rightarrow> (nat \<times> nat \<times> nat) list" where
  "ch_fragments c = List.map (\<lambda>it. (it_exchange it, it_index it, it_count it)) (filter (\<lambda>it. 1 < it_count it) (ch_items c))"

fun exchange_items :: "chunk_texts \<Rightarrow> string \<Rightarrow> nat \<Rightarrow> json list \<Rightarrow> chunk_item list py" where
  "exchange_items tx user i [] = Inr []"
| "exchange_items tx user i (ex # exs) =
     py_bind (format_exchange_block tx user ex) (\<lambda>block.
     py_bind (exchange_items tx user (i + 1) exs) (\<lambda>its.
       Inr (if block = [] then its else \<lparr>it_exchange = i, it_text = block, it_index = 1, it_count = 1\<rparr> # its)))"

fun atomic_items :: "(chunk_item list \<Rightarrow> bool) \<Rightarrow> chunk_item list \<Rightarrow> chunk_item list py" where
  "atomic_items fits_items [] = Inr []"
| "atomic_items fits_items (it # its) =
     py_bind (if fits_items [it] then Inr [it] else fragment_item it fits_items) (\<lambda>fs.
     py_bind (atomic_items fits_items its) (\<lambda>rest. Inr (fs @ rest)))"

fun pack :: "(chunk_item list \<Rightarrow> bool) \<Rightarrow> chunk_item list \<Rightarrow> bool \<Rightarrow> chunk_item list \<Rightarrow> (chunk_item list \<times> bool) list" where
  "pack fits_items cur ov [] = (if cur = [] then [] else [(cur, ov)])"
| "pack fits_items cur ov (it # its) =
     (if cur = [] \<or> fits_items (cur @ [it]) then pack fits_items (cur @ [it]) ov its
      else let carry = (if it_count (List.last cur) = 1 \<and> it_count it = 1 \<and> fits_items [List.last cur, it] then [List.last cur] else [])
           in (cur, ov) # pack fits_items (carry @ [it]) (carry \<noteq> []) its)"

definition make_chunk :: "(chunk_item list \<Rightarrow> int \<Rightarrow> int \<Rightarrow> string) \<Rightarrow> nat \<Rightarrow> nat \<Rightarrow> chunk_item list \<times> bool \<Rightarrow> chunk" where
  "make_chunk render parts k g =
     \<lparr>ch_items = fst g, ch_content = render (fst g) (int k) (int parts), ch_part = k, ch_parts = parts, ch_overlap = snd g\<rparr>"

definition build_consolidation_chunks ::
  "chunk_texts \<Rightarrow> (json \<Rightarrow> string) \<Rightarrow> jobj \<Rightarrow> string \<Rightarrow> int \<Rightarrow> int \<Rightarrow> (string \<Rightarrow> bool) \<Rightarrow> string \<Rightarrow> chunk list py" where
  "build_consolidation_chunks tx rp session questions idx n_sessions fits closing0 =
     py_bind (strip_or_empty (jget session ''user'')) (\<lambda>user.
     py_bind (json_list_items (jget_or session ''exchanges'' (JList []))) (\<lambda>exchanges.
     py_bind (exchange_items tx user 0 exchanges) (\<lambda>items.
     py_bind (chunk_frame tx rp session idx n_sessions) (\<lambda>frame.
       let render = (\<lambda>cand part parts. with_open_questions (content_of frame closing0 cand part parts) questions);
           fits_items = (\<lambda>cand. fits (render cand 999 999)) in
       if \<not> fits_items [] then Inl RuntimeError
       else py_bind (atomic_items fits_items items) (\<lambda>atomic.
         if atomic = [] then Inr [make_chunk render 1 1 ([], False)]
         else let groups = pack fits_items [] False atomic;
                  chunks = List.map (\<lambda>(k, g). make_chunk render (length groups) (k + 1) g) (enumerate 0 groups)
              in if list_all (\<lambda>c. fits (ch_content c)) chunks then Inr chunks else Inl RuntimeError)))))"

section \<open>Clipping what is around the chat\<close>

definition consolidation_output_reserve :: "string \<Rightarrow> int \<Rightarrow> int" where
  "consolidation_output_reserve setting context_length =
     (let raw = py_strip setting;
          half = max 512 (context_length div 2);
          requested = (if endswith raw ''%'' then min 8192 half else case str_int raw of Some n \<Rightarrow> n | None \<Rightarrow> 8192)
      in max 1 (min (min requested half) (max 1 (context_length - 512))))"

definition lines_marker :: string where
  "lines_marker = ''...[additional open questions omitted for token budget]''"

fun keep_lines :: "(string \<Rightarrow> nat) \<Rightarrow> nat \<Rightarrow> string list \<Rightarrow> string list \<Rightarrow> string list" where
  "keep_lines count limit kept [] = kept"
| "keep_lines count limit kept (l # ls) =
     (if limit < count (join newline (kept @ [l, lines_marker])) then kept else keep_lines count limit (kept @ [l]) ls)"

definition clip_lines_to_tokens :: "(string \<Rightarrow> nat) \<Rightarrow> string \<Rightarrow> nat \<Rightarrow> string" where
  "clip_lines_to_tokens count text limit =
     (if text = [] \<or> count text \<le> limit then text
      else join newline (keep_lines count limit [] (splitlines text) @ [lines_marker, []]))"

definition prompt_marker :: string where
  "prompt_marker = newline @ ''...[historical system prompt clipped for consolidation token budget]''"

definition clipped_prompt :: "string \<Rightarrow> nat \<Rightarrow> string" where
  "clipped_prompt original n =
     (if n = length original then original else if 0 < n then rstrip_if is_space (take n original) @ prompt_marker else [])"

definition clip_session_prompt_to_fit ::
  "chunk_texts \<Rightarrow> (json \<Rightarrow> string) \<Rightarrow> jobj \<Rightarrow> string \<Rightarrow> int \<Rightarrow> int \<Rightarrow> (string \<Rightarrow> bool) \<Rightarrow> (jobj \<times> bool) py" where
  "clip_session_prompt_to_fit tx rp session questions idx n_sessions fits =
     py_bind (strip_or_empty (jget session ''system_prompt'')) (\<lambda>original.
       if original = [] then Inr (session, False)
       else
         let content_for = (\<lambda>p. py_bind (format_chunk_content tx rp (dset ''system_prompt'' (JStr p) session) idx n_sessions 999 999 [] [])
               (\<lambda>c. Inr (with_open_questions c questions))) in
         py_bind (content_for []) (\<lambda>c0.
           if \<not> fits c0 then Inr (session, False)
           else
             let best = longest_fit (\<lambda>n. case content_for (clipped_prompt original n) of Inr c \<Rightarrow> fits c | Inl _ \<Rightarrow> False) 0 (length original) 0
             in Inr (dset ''system_prompt'' (JStr (clipped_prompt original best)) session, best < length original)))"

section \<open>Fragments are exact\<close>

lemma longest_fit_result: "longest_fit ok lo hi best = best \<or> ok (longest_fit ok lo hi best)"
proof (induction ok lo hi best rule: longest_fit.induct)
  case (1 ok lo hi best)
  then show ?case unfolding longest_fit.simps [of ok lo hi best] by (auto simp: Let_def)
qed

lemma pieces_exact:
  "fragment_pieces ok r = Inr ps \<Longrightarrow> concat ps = r \<and> [] \<notin> set ps"
proof (induction ok r arbitrary: ps rule: fragment_pieces.induct)
  case (1 ok r)
  show ?case
  proof (cases "r = []")
    case True
    then show ?thesis using 1(2) by (simp add: fragment_pieces.simps)
  next
    case False
    let ?b = "longest_fit (\<lambda>m. ok (take m r)) 1 (length r) 0"
    let ?c = "prefer_semantic_boundary r ?b"
    have b: "?b \<noteq> 0" using 1(2) False by (subst (asm) fragment_pieces.simps) (simp add: Let_def split: if_splits)
    then obtain qs where q: "fragment_pieces ok (drop ?c r) = Inr qs" "ps = take ?c r # qs"
      using 1(2) False by (subst (asm) fragment_pieces.simps) (auto simp: Let_def py_bind_eq_Inr)
    have "concat qs = drop ?c r \<and> [] \<notin> set qs" using 1(1) [OF False refl b refl] q(1) by blast
    moreover have "0 < ?c" using b boundary_pos by simp
    ultimately show ?thesis using q(2) False by simp
  qed
qed

lemma fragment_item_exact:
  assumes "fragment_item it fits_items = Inr fs"
  shows "concat (List.map it_text fs) = it_text it
    \<and> (\<forall>f \<in> set fs. fits_items [f] \<and> it_text f \<noteq> [] \<and> it_exchange f = it_exchange it \<and> it_count f = length fs)
    \<and> List.map it_index fs = [1..<length fs + 1]"
proof -
  obtain ps where ps: "fragment_pieces (\<lambda>t. fits_items [it\<lparr>it_text := t, it_index := 999, it_count := 999\<rparr>]) (it_text it) = Inr ps"
    and fs: "fs = List.map (\<lambda>(i, t). it\<lparr>it_text := t, it_index := i + 1, it_count := length ps\<rparr>) (enumerate 0 ps)"
    and fit: "\<forall>f \<in> set fs. fits_items [f]"
    using assms by (auto simp: fragment_item_def py_bind_eq_Inr Let_def list_all_iff split: if_splits)
  have "List.map it_text fs = ps" by (auto simp: fs comp_def case_prod_beta intro!: nth_equalityI)
  moreover have "List.map it_index fs = [1..<length fs + 1]"
    by (auto simp: fs nth_enumerate_eq case_prod_beta simp del: upt_Suc intro!: nth_equalityI)
  moreover have "\<forall>f \<in> set fs. it_text f \<noteq> [] \<and> it_exchange f = it_exchange it \<and> it_count f = length fs"
    using pieces_exact [OF ps] nth_mem by (fastforce simp: fs in_set_enumerate_eq)
  ultimately show ?thesis using pieces_exact [OF ps] fit by simp
qed

text \<open>Cutting an oversized exchange loses and reorders nothing: the fragments' texts put together are the exchange's
  text, none is empty, each fits on its own, and they are numbered one to their count.\<close>

theorem fragments_are_exact:
  assumes "fragment_item it fits_items = Inr fs"
  shows "concat (List.map it_text fs) = it_text it
    \<and> (\<forall>f \<in> set fs. fits_items [f] \<and> it_text f \<noteq> [] \<and> it_exchange f = it_exchange it \<and> it_count f = length fs)
    \<and> List.map it_index fs = [1..<length fs + 1]"
  by (rule fragment_item_exact [OF assms])

theorem fragments_are_exact_witness:
  "concat (List.map it_text [\<lparr>it_exchange = 0, it_text = ''a. '', it_index = 1, it_count = 2\<rparr>, \<lparr>it_exchange = 0, it_text = ''b'', it_index = 2, it_count = 2\<rparr>])
     = ''a. b''"
proof -
  have f: "fragment_item \<lparr>it_exchange = 0, it_text = ''a. b'', it_index = 1, it_count = 1\<rparr> (list_all (\<lambda>x. length (it_text x) \<le> 3))
    = Inr [\<lparr>it_exchange = 0, it_text = ''a. '', it_index = 1, it_count = 2\<rparr>, \<lparr>it_exchange = 0, it_text = ''b'', it_index = 2, it_count = 2\<rparr>]"
    by code_simp
  show ?thesis using fragments_are_exact [OF f] by simp
qed

text \<open>
  The preferred boundary can lie one character behind the length that was found to fit, so a piece may fail the final
  check although a fitting cut was known.
\<close>

lemma rfind_in_le: "rfind_in sub s a b + int (length sub) \<le> int b \<or> rfind_in sub s a b = - 1"
proof (cases "rev (filter (\<lambda>i. i + length sub \<le> min b (length s) \<and> take (length sub) (drop i s) = sub) [a..<min b (length s) + 1])")
  case (Cons i js)
  then have "i \<in> set (rev (filter (\<lambda>i. i + length sub \<le> min b (length s) \<and> take (length sub) (drop i s) = sub) [a..<min b (length s) + 1]))"
    by simp
  then show ?thesis using Cons by (simp add: rfind_in_def)
qed (simp add: rfind_in_def)

lemma sentence_ends_le: "e \<in> set (sentence_ends armed run i t) \<Longrightarrow> e \<le> i + length t"
  by (induction armed run i t rule: sentence_ends.induct) (auto split: if_splits)

lemma boundary_near: "prefer_semantic_boundary text limit \<le> limit + 1"
proof -
  define fl where "fl = max 1 (limit div 2)"
  have fl: "fl \<le> limit + 1" by (simp add: fl_def)
  have ub: "foldl max (a :: int) xs \<le> m" if "a \<le> m" "\<forall>x \<in> set xs. x \<le> m" for a xs m
    using that by (induction xs arbitrary: a) auto
  have e: "int (fl + e) \<le> int (limit + 1)" if "e \<in> set (sentence_ends False False 0 (take (limit + 1 - fl) (drop fl text)))" for e
    using sentence_ends_le [OF that] fl by (simp add: min_def split: if_splits)
  have "rfind_in sub text fl (limit + 1) \<le> int (limit + 1)" for sub
    using rfind_in_le [of sub "text" fl "limit + 1"] by linarith
  then have "foldl max (- 1) ([rfind_in (newline @ newline) text fl (limit + 1), rfind_in newline text fl (limit + 1)]
      @ List.map (\<lambda>e. int (fl + e)) (sentence_ends False False 0 (take (limit + 1 - fl) (drop fl text)))) \<le> int (limit + 1)"
    using e by (intro ub) auto
  then show ?thesis unfolding prefer_semantic_boundary_def fl_def [symmetric] Let_def by (auto simp: nat_le_iff)
qed

lemma boundary_past_limit: "prefer_semantic_boundary ''aaaa. bb'' 5 = 6"
  by code_simp

section \<open>The chunks hold the whole chat\<close>

definition fresh_of :: "chunk_item list \<times> bool \<Rightarrow> chunk_item list" where
  "fresh_of g = (if snd g then tl (fst g) else fst g)"

definition fresh_items :: "chunk \<Rightarrow> chunk_item list" where
  "fresh_items c = fresh_of (ch_items c, ch_overlap c)"

definition text_of_exchange :: "nat \<Rightarrow> chunk_item list \<Rightarrow> string" where
  "text_of_exchange i its = concat (List.map it_text (filter (\<lambda>x. it_exchange x = i) its))"

lemma text_of_exchange_simps [simp]:
  "text_of_exchange i [] = []"
  "text_of_exchange i (its @ its') = text_of_exchange i its @ text_of_exchange i its'"
  "text_of_exchange i (it # its) = (if it_exchange it = i then it_text it else []) @ text_of_exchange i its"
  by (simp_all add: text_of_exchange_def)

lemma pack_loses_nothing:
  "(ov \<longrightarrow> cur \<noteq> []) \<Longrightarrow> concat (List.map fresh_of (pack fits_items cur ov its)) = fresh_of (cur, ov) @ its"
  by (induction fits_items cur ov its rule: pack.induct) (auto simp: fresh_of_def Let_def)

definition carries :: "chunk_item list \<times> bool \<Rightarrow> chunk_item list \<times> bool \<Rightarrow> bool" where
  "carries g h = (snd h \<longrightarrow> hd (fst h) = List.last (fst g) \<and> it_count (hd (fst h)) = 1)"

lemma pack_overlap:
  "successively carries (pack fits_items cur ov its) \<and> (pack fits_items cur ov its \<noteq> [] \<longrightarrow>
     snd (hd (pack fits_items cur ov its)) = ov \<and> (cur \<noteq> [] \<longrightarrow> hd (fst (hd (pack fits_items cur ov its))) = hd cur))"
proof (induction fits_items cur ov its rule: pack.induct)
  case (1 fits_items cur ov)
  then show ?case by simp
next
  case (2 fits_items cur ov it its)
  show ?case
  proof (cases "cur = [] \<or> fits_items (cur @ [it])")
    case True
    then show ?thesis using 2(1) by auto
  next
    case False
    define carry where "carry = (if it_count (List.last cur) = 1 \<and> it_count it = 1 \<and> fits_items [List.last cur, it] then [List.last cur] else [])"
    have p: "pack fits_items cur ov (it # its) = (cur, ov) # pack fits_items (carry @ [it]) (carry \<noteq> []) its"
      using False by (simp add: carry_def)
    have ih: "successively carries (pack fits_items (carry @ [it]) (carry \<noteq> []) its)"
      "pack fits_items (carry @ [it]) (carry \<noteq> []) its \<noteq> [] \<longrightarrow> snd (hd (pack fits_items (carry @ [it]) (carry \<noteq> []) its)) = (carry \<noteq> [])
        \<and> hd (fst (hd (pack fits_items (carry @ [it]) (carry \<noteq> []) its))) = hd (carry @ [it])"
      using 2(2) [OF False refl, folded carry_def] by auto
    have "carries (cur, ov) (hd (pack fits_items (carry @ [it]) (carry \<noteq> []) its))"
      if "pack fits_items (carry @ [it]) (carry \<noteq> []) its \<noteq> []"
      using ih(2) that by (auto simp: carries_def carry_def split: if_splits)
    then show ?thesis unfolding p using ih by (auto simp: successively_Cons)
  qed
qed

lemma exchange_items_exact:
  assumes "exchange_items tx user k exs = Inr its"
  shows "(\<forall>i < length exs. format_exchange_block tx user (exs ! i) = Inr (text_of_exchange (k + i) its))
    \<and> (\<forall>it \<in> set its. k \<le> it_exchange it \<and> it_exchange it < k + length exs) \<and> sorted (List.map it_exchange its)"
  using assms
proof (induction exs arbitrary: k its)
  case Nil
  then show ?case by simp
next
  case (Cons ex exs)
  then obtain block rest where b: "format_exchange_block tx user ex = Inr block" "exchange_items tx user (k + 1) exs = Inr rest"
    and its: "its = (if block = [] then rest else \<lparr>it_exchange = k, it_text = block, it_index = 1, it_count = 1\<rparr> # rest)"
    by (auto simp: py_bind_eq_Inr)
  note ih = Cons.IH [OF b(2)]
  have no: "text_of_exchange k rest = []" using ih by (auto simp: text_of_exchange_def filter_empty_conv)
  have "format_exchange_block tx user ((ex # exs) ! i) = Inr (text_of_exchange (k + i) its)" if "i < length (ex # exs)" for i
    using that ih b(1) no by (cases i) (auto simp: its)
  moreover have "\<forall>it \<in> set its. k \<le> it_exchange it \<and> it_exchange it < k + length (ex # exs)"
    using ih by (auto simp: its dest!: bspec)
  moreover have "sorted (List.map it_exchange its)" using ih by (fastforce simp: its)
  ultimately show ?case by blast
qed

lemma atomic_items_exact:
  assumes "atomic_items fits_items its = Inr at0"
  shows "text_of_exchange i at0 = text_of_exchange i its
    \<and> (sorted (List.map it_exchange its) \<longrightarrow> sorted (List.map it_exchange at0))
    \<and> it_exchange ` set at0 \<subseteq> it_exchange ` set its \<and> (\<forall>x \<in> set at0. fits_items [x])"
  using assms
proof (induction its arbitrary: at0)
  case Nil
  then show ?case by simp
next
  case (Cons it its)
  then obtain fs rest where f: "(if fits_items [it] then Inr [it] else fragment_item it fits_items) = Inr fs"
    "atomic_items fits_items its = Inr rest" and at0: "at0 = fs @ rest" by (auto simp: py_bind_eq_Inr)
  have fs: "concat (List.map it_text fs) = it_text it" "\<forall>x \<in> set fs. it_exchange x = it_exchange it \<and> fits_items [x]"
    using f(1) fragment_item_exact [of it fits_items fs] by (auto split: if_splits)
  have "text_of_exchange i fs = (if it_exchange it = i then it_text it else [])"
    using fs by (auto simp: text_of_exchange_def filter_empty_conv intro!: arg_cong [of _ _ concat])
  moreover have "it_exchange ` set fs \<subseteq> {it_exchange it}" using fs(2) by blast
  moreover have "sorted (List.map it_exchange fs @ List.map it_exchange rest)" if "sorted (List.map it_exchange (it # its))"
  proof -
    have "sorted (List.map it_exchange rest)" using Cons.IH [OF f(2)] that by simp
    moreover have "List.map it_exchange fs = List.map (\<lambda>x. it_exchange it) fs" using fs(2) by (intro map_cong) auto
    moreover have "\<forall>x \<in> set rest. it_exchange it \<le> it_exchange x"
      using Cons.IH [OF f(2)] that by (fastforce simp: image_subset_iff)
    ultimately show ?thesis by (auto simp: sorted_append map_replicate_const)
  qed
  ultimately show ?case using Cons.IH [OF f(2)] fs(2) by (auto simp: at0)
qed

lemma chunks_shape:
  assumes "build_consolidation_chunks tx rp session questions idx n_sessions fits closing0 = Inr chunks"
  obtains user exs items frame at0 groups render
  where "strip_or_empty (jget session ''user'') = Inr user"
    and "json_list_items (jget_or session ''exchanges'' (JList [])) = Inr exs"
    and "exchange_items tx user 0 exs = Inr items"
    and "chunk_frame tx rp session idx n_sessions = Inr frame"
    and "render = (\<lambda>cand part parts. with_open_questions (content_of frame closing0 cand part parts) questions)"
    and "atomic_items (\<lambda>cand. fits (render cand 999 999)) items = Inr at0"
    and "groups = (if at0 = [] then [([], False)] else pack (\<lambda>cand. fits (render cand 999 999)) [] False at0)"
    and "chunks = List.map (\<lambda>(k, g). make_chunk render (length groups) (k + 1) g) (enumerate 0 groups)"
    and "at0 \<noteq> [] \<longrightarrow> (\<forall>c \<in> set chunks. fits (ch_content c))"
proof -
  obtain user exs items frame where u: "strip_or_empty (jget session ''user'') = Inr user"
    "json_list_items (jget_or session ''exchanges'' (JList [])) = Inr exs"
    "exchange_items tx user 0 exs = Inr items" "chunk_frame tx rp session idx n_sessions = Inr frame"
    using assms by (auto simp: build_consolidation_chunks_def py_bind_eq_Inr)
  define render where "render = (\<lambda>cand part parts. with_open_questions (content_of frame closing0 cand part parts) questions)"
  obtain at0 where a: "atomic_items (\<lambda>cand. fits (render cand 999 999)) items = Inr at0"
    and rest: "(if at0 = [] then Inr [make_chunk render 1 1 ([], False)]
         else let groups = pack (\<lambda>cand. fits (render cand 999 999)) [] False at0;
                  chunks = List.map (\<lambda>(k, g). make_chunk render (length groups) (k + 1) g) (enumerate 0 groups)
              in if list_all (\<lambda>c. fits (ch_content c)) chunks then Inr chunks else Inl RuntimeError) = Inr chunks"
    using assms u by (auto simp: build_consolidation_chunks_def py_bind_eq_Inr Let_def render_def split: if_splits)
  let ?g = "if at0 = [] then [([], False)] else pack (\<lambda>cand. fits (render cand 999 999)) [] False at0"
  show thesis
    by (rule that [OF u render_def a, of ?g]) (use rest in \<open>auto simp: Let_def list_all_iff split: if_splits\<close>)
qed

lemma pack_nonempty: "g \<in> set (pack fits_items cur ov its) \<Longrightarrow> fst g \<noteq> []"
  by (induction fits_items cur ov its rule: pack.induct) (auto simp: Let_def split: if_splits)

lemma every_chunk_fits:
  assumes "build_consolidation_chunks tx rp session questions idx n_sessions fits closing0 = Inr chunks" "k < length chunks"
  shows "ch_part (chunks ! k) = k + 1 \<and> ch_parts (chunks ! k) = length chunks
    \<and> (ch_items (chunks ! k) \<noteq> [] \<longrightarrow> fits (ch_content (chunks ! k)))
    \<and> (ch_overlap (chunks ! k) \<longrightarrow> 0 < k \<and> hd (ch_items (chunks ! k)) = List.last (ch_items (chunks ! (k - 1)))
        \<and> it_count (hd (ch_items (chunks ! k))) = 1)"
  using assms(1)
proof (rule chunks_shape)
  fix user exs items frame at0 groups and render :: "chunk_item list \<Rightarrow> int \<Rightarrow> int \<Rightarrow> string"
  assume g: "groups = (if at0 = [] then [([], False)] else pack (\<lambda>cand. fits (render cand 999 999)) [] False at0)"
    and c: "chunks = List.map (\<lambda>(k, g). make_chunk render (length groups) (k + 1) g) (enumerate 0 groups)"
    and fit: "at0 \<noteq> [] \<longrightarrow> (\<forall>c \<in> set chunks. fits (ch_content c))"
  have len: "length chunks = length groups" by (simp add: c)
  have nth: "chunks ! j = make_chunk render (length groups) (j + 1) (groups ! j)" if "j < length groups" for j
    using that by (simp add: c nth_enumerate_eq case_prod_beta)
  have k: "k < length groups" using assms(2) len by simp
  have s: "successively carries groups" "snd (hd groups) = False"
    using pack_overlap [of "\<lambda>cand. fits (render cand 999 999)" "[]" False at0] k by (auto simp: g split: if_splits)
  have "carries (groups ! (k - 1)) (groups ! k)" if "0 < k"
    using s(1) k that unfolding successively_conv_nth by (cases k) auto
  moreover have "\<not> snd (groups ! k)" if "k = 0" using s(2) k that by (cases groups) auto
  moreover have "fits (ch_content (chunks ! k))" if "ch_items (chunks ! k) \<noteq> []"
  proof -
    have "at0 \<noteq> []" using that k by (auto simp: nth [OF k] g make_chunk_def)
    then show ?thesis using fit assms(2) by simp
  qed
  ultimately show ?thesis
  proof (cases "k = 0")
    case False
    assume "0 < k \<Longrightarrow> carries (groups ! (k - 1)) (groups ! k)" "ch_items (chunks ! k) \<noteq> [] \<Longrightarrow> fits (ch_content (chunks ! k))"
    then show ?thesis using False k nth [of "k - 1"] by (auto simp: nth [OF k] len carries_def make_chunk_def)
  qed (use nth [OF k] in \<open>auto simp: len make_chunk_def\<close>)
qed

lemma empty_chunk_alone:
  assumes "build_consolidation_chunks tx rp session questions idx n_sessions fits closing0 = Inr chunks"
    and "c \<in> set chunks" "ch_items c = []"
  shows "chunks = [c]"
  using assms(1)
proof (rule chunks_shape)
  fix user exs items frame at0 groups and render :: "chunk_item list \<Rightarrow> int \<Rightarrow> int \<Rightarrow> string"
  assume g: "groups = (if at0 = [] then [([], False)] else pack (\<lambda>cand. fits (render cand 999 999)) [] False at0)"
    and c: "chunks = List.map (\<lambda>(k, g). make_chunk render (length groups) (k + 1) g) (enumerate 0 groups)"
  obtain k where "k < length groups" "c = make_chunk render (length groups) (k + 1) (groups ! k)"
    using assms(2) by (auto simp: c in_set_enumerate_eq)
  then have "groups ! k \<in> set groups" "fst (groups ! k) = []" using assms(3) by (simp_all add: make_chunk_def)
  then have "at0 = []" using pack_nonempty by (auto simp: g split: if_splits)
  then have "length chunks = 1" by (simp add: c g)
  then show ?thesis using assms(2) by (cases chunks) auto
qed

text \<open>C13: the chunks of a chat hold all of it, fit, and overlap by one exchange at most. Without what a chunk repeats of
  the one before, their items are the rendered exchanges whole, once and in order, however the exchanges were cut and
  packed. A chunk is numbered by its place; what it repeats of the one before is that one's last item, an exchange that
  was not cut; and every chunk that holds something fits as it is finally rendered. The one chunk that is not checked is
  the only chunk of a chat no exchange of which has any text.\<close>

theorem chunks_hold_the_chat:
  assumes "build_consolidation_chunks tx rp session questions idx n_sessions fits closing0 = Inr chunks"
  shows "(\<exists>user exs. strip_or_empty (jget session ''user'') = Inr user
       \<and> json_list_items (jget_or session ''exchanges'' (JList [])) = Inr exs
       \<and> (\<forall>i < length exs. format_exchange_block tx user (exs ! i) = Inr (text_of_exchange i (concat (List.map fresh_items chunks)))))
     \<and> sorted (List.map it_exchange (concat (List.map fresh_items chunks)))
     \<and> (\<forall>k < length chunks. ch_part (chunks ! k) = k + 1 \<and> ch_parts (chunks ! k) = length chunks
          \<and> (ch_items (chunks ! k) \<noteq> [] \<longrightarrow> fits (ch_content (chunks ! k)))
          \<and> (ch_items (chunks ! k) = [] \<longrightarrow> chunks = [chunks ! k])
          \<and> (ch_overlap (chunks ! k) \<longrightarrow> 0 < k \<and> hd (ch_items (chunks ! k)) = List.last (ch_items (chunks ! (k - 1)))
               \<and> it_count (hd (ch_items (chunks ! k))) = 1))"
  using assms
proof (rule chunks_shape)
  fix user exs items frame at0 groups and render :: "chunk_item list \<Rightarrow> int \<Rightarrow> int \<Rightarrow> string"
  assume u: "strip_or_empty (jget session ''user'') = Inr user" "json_list_items (jget_or session ''exchanges'' (JList [])) = Inr exs"
    and it: "exchange_items tx user 0 exs = Inr items" and at0: "atomic_items (\<lambda>cand. fits (render cand 999 999)) items = Inr at0"
    and g: "groups = (if at0 = [] then [([], False)] else pack (\<lambda>cand. fits (render cand 999 999)) [] False at0)"
    and c: "chunks = List.map (\<lambda>(k, g). make_chunk render (length groups) (k + 1) g) (enumerate 0 groups)"
  have "List.map fresh_items chunks = List.map fresh_of groups"
    by (auto simp: c fresh_items_def make_chunk_def nth_enumerate_eq case_prod_beta intro!: nth_equalityI)
  then have "concat (List.map fresh_items chunks) = at0"
    using pack_loses_nothing [of False "[]" "\<lambda>cand. fits (render cand 999 999)" at0] by (simp add: g fresh_of_def)
  then have "\<forall>i < length exs. format_exchange_block tx user (exs ! i) = Inr (text_of_exchange i (concat (List.map fresh_items chunks)))"
    "sorted (List.map it_exchange (concat (List.map fresh_items chunks)))"
    using exchange_items_exact [OF it] atomic_items_exact [OF at0] by auto
  then show ?thesis using u every_chunk_fits [OF assms] empty_chunk_alone [OF assms] nth_mem by blast
qed

definition plain_texts :: chunk_texts where
  "plain_texts = \<lparr>tx_note = ''n'', tx_tag = ''t'', tx_part = (\<lambda>k n. ''p''), tx_past = ''q''\<rparr>"

definition two_turns :: jobj where
  "two_turns = [(''timestamp'', JStr ''s''), (''exchanges'', JList [JObj [(''user_prompt'', JStr ''a'')], JObj [(''user_prompt'', JStr ''b'')]])]"

definition two_chunks :: "chunk list" where
  "two_chunks = (case build_consolidation_chunks plain_texts (\<lambda>_. []) two_turns [] 1 1 (\<lambda>c. length c \<le> 38) [] of Inr cs \<Rightarrow> cs | Inl _ \<Rightarrow> [])"

lemma two_chunks_built:
  "build_consolidation_chunks plain_texts (\<lambda>_. []) two_turns [] 1 1 (\<lambda>c. length c \<le> 38) [] = Inr two_chunks"
  "List.map ch_indices two_chunks = [[0], [1]]" "1 < length two_chunks" "ch_items (two_chunks ! 1) \<noteq> []"
  by code_simp+

theorem chunks_hold_the_chat_witness:
  "format_exchange_block plain_texts [] (JObj [(''user_prompt'', JStr ''b'')]) = Inr (text_of_exchange 1 (concat (List.map fresh_items two_chunks)))
   \<and> length (ch_content (two_chunks ! 1)) \<le> 38"
  using chunks_hold_the_chat [OF two_chunks_built(1)] two_chunks_built(3,4)
  by (auto simp: two_turns_def strip_or_empty_def py_or_def jget_def jget_or_def dget_or_def py_strip_def strip_if_def lstrip_if_def rstrip_if_def)

section \<open>What is clipped fits\<close>

lemma longest_fit_le: "best \<le> b \<Longrightarrow> hi \<le> b \<Longrightarrow> longest_fit ok lo hi best \<le> b"
proof (induction ok lo hi best rule: longest_fit.induct)
  case (1 ok lo hi best)
  then show ?case unfolding longest_fit.simps [of ok lo hi best] by (auto simp: Let_def)
qed

lemma output_reserve_bounds:
  "1 \<le> consolidation_output_reserve setting n"
  "512 < n \<Longrightarrow> consolidation_output_reserve setting n \<le> n - 512 \<and> consolidation_output_reserve setting n \<le> max 512 (n div 2)"
proof -
  obtain r where r: "consolidation_output_reserve setting n = max 1 (min (min r (max 512 (n div 2))) (max 1 (n - 512)))"
    by (simp add: consolidation_output_reserve_def Let_def)
  show "1 \<le> consolidation_output_reserve setting n" by (simp add: r)
  show "512 < n \<Longrightarrow> consolidation_output_reserve setting n \<le> n - 512 \<and> consolidation_output_reserve setting n \<le> max 512 (n div 2)"
    unfolding r by (auto simp: min_le_iff_disj le_max_iff_disj)
qed

lemma kept_lines_fit:
  "keep_lines count limit kept ls = kept \<or> count (join newline (keep_lines count limit kept ls @ [lines_marker])) \<le> limit"
proof (induction ls arbitrary: kept)
  case (Cons l ls)
  show ?case using Cons.IH [of "kept @ [l]"] by auto
qed simp

text \<open>The system prompt of the chat is clipped to a prefix with which the framing fits, whenever it fits without any, and
  nothing else of the chat changes.\<close>

theorem clipped_prompt_fits:
  assumes "clip_session_prompt_to_fit tx rp session questions idx n_sessions fits = Inr (session', shorter)"
    and "strip_or_empty (jget session ''system_prompt'') = Inr original" "original \<noteq> []"
    and "format_chunk_content tx rp (dset ''system_prompt'' (JStr []) session) idx n_sessions 999 999 [] [] = Inr c0"
      "fits (with_open_questions c0 questions)"
  shows "\<exists>n \<le> length original. jget session' ''system_prompt'' = JStr (clipped_prompt original n) \<and> (shorter = (n < length original))
    \<and> (\<forall>k. k \<noteq> ''system_prompt'' \<longrightarrow> jget session' k = jget session k)
    \<and> (\<exists>c. format_chunk_content tx rp session' idx n_sessions 999 999 [] [] = Inr c \<and> fits (with_open_questions c questions))"
proof -
  define ok where "ok = (\<lambda>n. case py_bind (format_chunk_content tx rp (dset ''system_prompt'' (JStr (clipped_prompt original n)) session) idx n_sessions 999 999 [] [])
               (\<lambda>c. Inr (with_open_questions c questions)) of Inr c \<Rightarrow> fits c | Inl _ \<Rightarrow> False)"
  define n where "n = longest_fit ok 0 (length original) 0"
  have r: "session' = dset ''system_prompt'' (JStr (clipped_prompt original n)) session" "shorter = (n < length original)"
    using assms by (simp_all add: clip_session_prompt_to_fit_def Let_def ok_def n_def)
  have "ok 0" using assms(3-5) by (simp add: ok_def clipped_prompt_def)
  then have "ok n" using longest_fit_result [of ok 0 "length original" 0] by (auto simp: n_def)
  then have "\<exists>c. format_chunk_content tx rp session' idx n_sessions 999 999 [] [] = Inr c \<and> fits (with_open_questions c questions)"
    by (auto simp: ok_def r(1) py_bind_eq_Inr split: sum.splits)
  moreover have "n \<le> length original" unfolding n_def by (rule longest_fit_le) simp_all
  ultimately show ?thesis by (auto simp: r)
qed

theorem clipped_prompt_fits_witness:
  "\<exists>n \<le> 2. \<exists>c. format_chunk_content plain_texts (\<lambda>_. []) [(''timestamp'', JStr ''s''), (''system_prompt'', JStr (clipped_prompt ''ab'' n))]
     1 1 999 999 [] [] = Inr c \<and> length c \<le> 200"
proof -
  define s0 where "s0 = [(''timestamp'', JStr ''s''), (''system_prompt'', JStr ''ab'')]"
  let ?c = "format_chunk_content plain_texts (\<lambda>_. []) (dset ''system_prompt'' (JStr []) s0) 1 1 999 999 [] []"
  have r: "clip_session_prompt_to_fit plain_texts (\<lambda>_. []) s0 [] 1 1 (\<lambda>c. length c \<le> 200) = Inr (s0, False)"
    unfolding s0_def by code_simp
  have o: "strip_or_empty (jget s0 ''system_prompt'') = Inr ''ab''" unfolding s0_def by code_simp
  have e: "case ?c of Inr c \<Rightarrow> length (with_open_questions c []) \<le> 200 | Inl _ \<Rightarrow> False" unfolding s0_def by code_simp
  obtain c0 where c: "?c = Inr c0" "length (with_open_questions c0 []) \<le> 200" using e by (cases ?c) simp_all
  obtain n c where n: "n \<le> length ''ab''" "jget s0 ''system_prompt'' = JStr (clipped_prompt ''ab'' n)"
      "format_chunk_content plain_texts (\<lambda>_. []) s0 1 1 999 999 [] [] = Inr c" "length (with_open_questions c []) \<le> 200"
    using clipped_prompt_fits [OF r o _ c] by blast
  have "s0 = [(''timestamp'', JStr ''s''), (''system_prompt'', JStr (clipped_prompt ''ab'' n))]"
    using n(2) by (simp add: s0_def jget_def dget_or_def)
  then show ?thesis using n(1,3,4) by (intro exI [of _ n]) (simp add: with_open_questions_def)
qed

end
