(* ===== verification/Chat_Logger.thy ===== *)
theory Chat_Logger
  imports Chunking
begin

text \<open>
  \<open>core/chat_logger.py\<close>: the writer of transcripts. A logger holds the session in memory and rewrites its whole
  file at every exchange; the edits of past transcripts read the file, change one exchange and replace the file.
  Clocks and ids are arguments, and so is what a write does: it completes, the file cannot be opened, or the
  write breaks off and leaves a file that does not parse. A replacement (\<open>_atomic_write_session\<close>) succeeds or not.
\<close>

section \<open>Splitting a generation\<close>

definition parse_cot :: "string \<Rightarrow> string \<times> string" where
  "parse_cot response =
     (case find_str response ''<think>'' of
        None \<Rightarrow> ([], response)
      | Some i \<Rightarrow>
          (case find_str (drop i response) ''</think>'' of
             None \<Rightarrow> ([], response)
           | Some j \<Rightarrow> (take (j - 7) (drop (i + 7) response), py_strip (drop (i + j + 8) response))))"

definition is_narrator_speaker :: "json \<Rightarrow> bool py" where
  "is_narrator_speaker v = py_bind (strip_or_empty v) (\<lambda>s. Inr (s \<in> set narrator_speakers))"

text \<open>\<open>all(is_narrator_speaker(ex.get("speaker")) for ex in exchanges)\<close>\<close>

fun all_narrators :: "json list \<Rightarrow> bool py" where
  "all_narrators [] = Inr True"
| "all_narrators (ex # exs) =
     py_bind (as_dict ex) (\<lambda>d. py_bind (is_narrator_speaker (jget d ''speaker'')) (\<lambda>b.
       if b then all_narrators exs else Inr False))"

section \<open>The logger\<close>

datatype write_outcome = Written | Not_Opened | Cut_Short

record chat_logger =
  lg_files :: chats_dir
  lg_current :: "string option"
  lg_data :: jobj
  lg_on_first :: "string option"
  lg_fired :: "(string \<times> json content option) list"

definition chat_schema_version :: int where
  "chat_schema_version = 6"

definition unknown_addressee :: string where
  "unknown_addressee = ''your friend''"

definition logger_save :: "write_outcome \<Rightarrow> chat_logger \<Rightarrow> bool \<times> chat_logger" where
  "logger_save w lg =
     (case lg_current lg of
        None \<Rightarrow> (False, lg)
      | Some f \<Rightarrow>
          (case w of
             Written \<Rightarrow> (True, lg\<lparr>lg_files := dset f (Parsed (JObj (lg_data lg))) (lg_files lg)\<rparr>)
           | Not_Opened \<Rightarrow> (False, lg)
           | Cut_Short \<Rightarrow> (False, lg\<lparr>lg_files := dset f Unreadable (lg_files lg)\<rparr>)))"

definition exchange_count :: "chat_logger \<Rightarrow> nat py" where
  "exchange_count lg =
     (case jget_or (lg_data lg) ''exchanges'' (JList []) of
        JList xs \<Rightarrow> Inr (length xs) | JStr s \<Rightarrow> Inr (length s) | JObj d \<Rightarrow> Inr (length d) | _ \<Rightarrow> Inl TypeError)"

definition initiated_by :: "(json \<Rightarrow> string) \<Rightarrow> chat_logger \<Rightarrow> string" where
  "initiated_by rp lg = py_strip (fstr rp (py_or (jget (lg_data lg) ''initiated_by'') (JStr [])))"

definition initiated_ask :: "chat_logger \<Rightarrow> jobj" where
  "initiated_ask lg = obj_of (jget (lg_data lg) ''initiated_ask'')"

text \<open>The last exchange is taken off the session; \<open>None\<close> when there is none.\<close>

definition remove_last_exchange :: "write_outcome \<Rightarrow> chat_logger \<Rightarrow> json option py \<times> chat_logger" where
  "remove_last_exchange w lg =
     (let exs = py_or (jget (lg_data lg) ''exchanges'') (JList []) in
      if \<not> truthy exs then (Inr None, lg)
      else case exs of
          JList xs \<Rightarrow> (Inr (Some (List.last xs)),
            snd (logger_save w (lg\<lparr>lg_data := dset ''exchanges'' (JList (butlast xs)) (lg_data lg)\<rparr>)))
        | JObj d \<Rightarrow> (Inl TypeError, lg)
        | _ \<Rightarrow> (Inl AttributeError, lg))"

text \<open>The first of \<open>stem.json\<close>, \<open>stem_1.json\<close>, \<open>stem_2.json\<close>, ... that is not a file yet.\<close>

definition session_names :: "string \<Rightarrow> nat \<Rightarrow> string list" where
  "session_names stem n = (stem @ ''.json'') # List.map (\<lambda>k. stem @ ''_'' @ nat_str k @ ''.json'') [1..<n]"

definition fresh_name :: "chats_dir \<Rightarrow> string \<Rightarrow> string" where
  "fresh_name files stem = hd (filter (\<lambda>n. dget files n = None) (session_names stem (length files + 2)))"

record start_args =
  sa_system :: string
  sa_user :: string
  sa_model :: string
  sa_notes :: string
  sa_adapter :: json
  sa_continued :: string
  sa_initiated :: string
  sa_interlocutor :: string
  sa_ask :: jobj

definition default_start :: start_args where
  "default_start = \<lparr>sa_system = [], sa_user = [], sa_model = [], sa_notes = [], sa_adapter = JNull, sa_continued = [],
     sa_initiated = [], sa_interlocutor = [], sa_ask = []\<rparr>"

definition set_if :: "string \<Rightarrow> string \<Rightarrow> jobj \<Rightarrow> jobj" where
  "set_if k v d = (if v = [] then d else dset k (JStr v) d)"

definition new_session :: "string \<Rightarrow> start_args \<Rightarrow> jobj" where
  "new_session iso_now a =
     (let d0 = [(''schema_version'', JInt chat_schema_version), (''timestamp'', JStr iso_now), (''system_prompt'', JStr (sa_system a)),
                (''user'', JStr (if py_strip (sa_user a) = unknown_addressee then [] else sa_user a)),
                (''model_id'', JStr (sa_model a)), (''adapter_id'', sa_adapter a), (''notes'', JStr (sa_notes a)),
                (''exchanges'', JList [])];
          d1 = set_if ''interlocutor'' (sa_interlocutor a) (set_if ''initiated_by'' (sa_initiated a) (set_if ''continued_from'' (sa_continued a) d0))
      in if truthy (jget (sa_ask a) ''key'')
         then dset ''initiated_ask'' (JObj [(''key'', jget (sa_ask a) ''key''),
                (''content'', py_or (jget (sa_ask a) ''content'') (JStr [])), (''ask_kind'', py_or (jget (sa_ask a) ''ask_kind'') (JStr [])),
                (''source_session'', py_or (jget (sa_ask a) ''source_session'') (JStr []))]) d1
         else d1)"

definition start_session :: "string \<Rightarrow> string \<Rightarrow> start_args \<Rightarrow> chat_logger \<Rightarrow> chat_logger" where
  "start_session iso_now stem a lg =
     lg\<lparr>lg_on_first := None, lg_current := Some (fresh_name (lg_files lg) stem), lg_data := new_session iso_now a\<rparr>"

definition resume_session :: "string \<Rightarrow> string option \<Rightarrow> chat_logger \<Rightarrow> chat_logger" where
  "resume_session f on_first lg =
     lg\<lparr>lg_current := Some f, lg_on_first := on_first,
        lg_data := dsetdefault ''exchanges'' (JList []) (case dget (lg_files lg) f of Some (Parsed (JObj d)) \<Rightarrow> d | _ \<Rightarrow> [])\<rparr>"

definition set_notes :: "write_outcome \<Rightarrow> string \<Rightarrow> chat_logger \<Rightarrow> chat_logger" where
  "set_notes w notes lg =
     (if lg_current lg = None then lg
      else let lg1 = lg\<lparr>lg_data := dset ''notes'' (JStr notes) (lg_data lg)\<rparr> in
           if truthy (jget (lg_data lg1) ''exchanges'') then snd (logger_save w lg1) else lg1)"

record log_args =
  la_prompt :: string
  la_response :: string
  la_rag :: string
  la_tension :: json
  la_speaker :: string
  la_params :: json
  la_system :: string
  la_tokens :: json
  la_think :: json
  la_id :: string

definition set_unless_null :: "string \<Rightarrow> json \<Rightarrow> jobj \<Rightarrow> jobj" where
  "set_unless_null k v d = (if v = JNull then d else dset k v d)"

definition new_entry :: "string \<Rightarrow> string \<Rightarrow> log_args \<Rightarrow> jobj" where
  "new_entry uid ts a =
     (case parse_cot (la_response a) of (ct, response) \<Rightarrow>
        set_unless_null ''generation_params'' (la_params a) (set_unless_null ''think_open_prob'' (la_think a)
          (set_unless_null ''tension'' (la_tension a) (set_unless_null ''input_tokens'' (la_tokens a)
            [(''exchange_id'', JStr (if la_id a = [] then uid else la_id a)), (''user_prompt'', JStr (la_prompt a)),
             (''speaker'', JStr (la_speaker a)), (''assistant_cot'', JStr ct), (''assistant_response'', JStr response),
             (''system_content'', JStr (la_system a)), (''rag_context'', JStr (la_rag a)), (''ts'', JStr ts)]))))"

definition name_session :: "string \<Rightarrow> jobj \<Rightarrow> jobj py" where
  "name_session speaker d =
     (case dget d ''exchanges'' of
        None \<Rightarrow> Inl KeyError
      | Some exs \<Rightarrow>
          if speaker \<noteq> [] \<and> \<not> truthy exs \<and> \<not> truthy (jget d ''initiated_by'') then Inr (dset ''user'' (JStr speaker) d)
          else if speaker \<noteq> [] \<and> truthy (jget d ''initiated_by'') then
            py_bind (is_narrator_speaker (JStr speaker)) (\<lambda>narr.
            if narr then Inr d
            else py_bind (json_list_items exs) (\<lambda>xs. py_bind (all_narrators xs) (\<lambda>unanswered.
              if \<not> unanswered then Inr d
              else py_bind (strip_or_empty (jget d ''user'')) (\<lambda>guess.
                Inr (dset ''user'' (JStr speaker)
                  (if guess \<noteq> [] \<and> guess \<noteq> speaker then dset ''addressed_to'' (JStr guess) d else d))))))
          else Inr d)"

definition fire_first_append :: "chat_logger \<Rightarrow> chat_logger" where
  "fire_first_append lg =
     (case lg_on_first lg of
        None \<Rightarrow> lg
      | Some cb \<Rightarrow> lg\<lparr>lg_on_first := None,
          lg_fired := lg_fired lg @ [(cb, case lg_current lg of None \<Rightarrow> None | Some f \<Rightarrow> dget (lg_files lg) f)]\<rparr>)"

definition log_exchange ::
  "string \<Rightarrow> string \<Rightarrow> string \<Rightarrow> string \<Rightarrow> write_outcome \<Rightarrow> log_args \<Rightarrow> chat_logger \<Rightarrow> unit py \<times> chat_logger" where
  "log_exchange iso_now stem uid ts w a lg0 =
     (let lg = (if lg_current lg0 = None then start_session iso_now stem default_start lg0 else lg0) in
      case name_session (la_speaker a) (lg_data lg) of
        Inl e \<Rightarrow> (Inl e, lg)
      | Inr d \<Rightarrow>
          (case jget d ''exchanges'' of
             JList xs \<Rightarrow> (Inr (), fire_first_append (snd (logger_save w
               (lg\<lparr>lg_data := dset ''exchanges'' (JList (xs @ [JObj (new_entry uid ts a)])) d\<rparr>))))
           | _ \<Rightarrow> (Inl AttributeError, lg\<lparr>lg_data := d\<rparr>)))"

definition feedback_max_chars :: nat where
  "feedback_max_chars = 2000"

definition set_latest_reflection_feedback ::
  "string \<Rightarrow> string \<Rightarrow> write_outcome \<Rightarrow> string \<Rightarrow> string \<Rightarrow> string \<Rightarrow> chat_logger \<Rightarrow> jobj py \<times> chat_logger" where
  "set_latest_reflection_feedback uid now0 w exchange_id fb_text speaker lg =
     (case py_or (jget (lg_data lg) ''exchanges'') (JList []) of
        JList xs \<Rightarrow>
          if xs = [] then (Inl ValueError, lg)
          else if exchange_id = [] then (Inl ValueError, lg)
          else (case List.last xs of
             JObj latest \<Rightarrow>
               let cleaned = py_strip fb_text in
               if jget latest ''exchange_id'' \<noteq> JStr exchange_id \<or> cleaned = [] \<or> feedback_max_chars < length cleaned
               then (Inl ValueError, lg)
               else let prior = obj_of (py_or (jget latest ''reflection_feedback'') (JObj []));
                        fb = [(''id'', py_or (jget prior ''id'') (JStr uid)), (''speaker'', JStr (py_strip speaker)), (''text'', JStr cleaned),
                              (''created_at'', py_or (jget prior ''created_at'') (JStr now0)), (''updated_at'', JStr now0)];
                        d = dset ''schema_version'' (JInt chat_schema_version)
                              (dset ''exchanges'' (JList (butlast xs @ [JObj (dset ''reflection_feedback'' (JObj fb) latest)])) (lg_data lg));
                        res = logger_save w (lg\<lparr>lg_data := d\<rparr>)
                    in (if fst res then Inr fb else Inl OSError, snd res)
           | _ \<Rightarrow> (Inl AttributeError, lg))
      | JStr s \<Rightarrow> (Inl (if exchange_id = [] then ValueError else AttributeError), lg)
      | JObj d \<Rightarrow> (Inl KeyError, lg)
      | _ \<Rightarrow> (Inl TypeError, lg))"

section \<open>Edits of past transcripts\<close>

definition read_transcript :: "chats_dir \<Rightarrow> string \<Rightarrow> jobj py" where
  "read_transcript files f =
     (case dget files f of Some (Parsed (JObj d)) \<Rightarrow> Inr d | Some (Parsed _) \<Rightarrow> Inl ValueError | _ \<Rightarrow> Inl OSError)"

definition exchange_at :: "jobj \<Rightarrow> int \<Rightarrow> (json list \<times> json) py" where
  "exchange_at d i =
     (case jget d ''exchanges'' of
        JList xs \<Rightarrow> if 0 \<le> i \<and> i < int (length xs) then Inr (xs, xs ! nat i) else Inl ValueError
      | _ \<Rightarrow> Inl ValueError)"

definition as_entry :: "json \<Rightarrow> jobj py" where
  "as_entry v = (case v of JObj e \<Rightarrow> Inr e | _ \<Rightarrow> Inl ValueError)"

definition atomic_write_session :: "bool \<Rightarrow> string \<Rightarrow> jobj \<Rightarrow> chats_dir \<Rightarrow> chats_dir py" where
  "atomic_write_session ok f d files = (if ok then Inr (dset f (Parsed (JObj d)) files) else Inl OSError)"

definition put_entry :: "json list \<Rightarrow> int \<Rightarrow> jobj \<Rightarrow> jobj \<Rightarrow> jobj" where
  "put_entry xs i e d = dset ''exchanges'' (JList (xs[nat i := JObj e])) d"

definition list_of :: "json \<Rightarrow> json list" where
  "list_of v = (case v of JList xs \<Rightarrow> xs | _ \<Rightarrow> [])"

definition rewritten_entry :: "string \<Rightarrow> string \<Rightarrow> string \<Rightarrow> string \<Rightarrow> string \<Rightarrow> jobj \<Rightarrow> jobj" where
  "rewritten_entry now0 new_cot new_response run_id target_kind e =
     (let r = [(''at'', JStr now0), (''run_id'', JStr run_id), (''target_kind'', JStr target_kind),
               (''prev_cot'', py_or (jget_or e ''assistant_cot'' (JStr [])) (JStr [])),
               (''prev_response'', py_or (jget_or e ''assistant_response'' (JStr [])) (JStr [])),
               (''had_tension'', JBool (dget e ''tension'' \<noteq> None))] in
      dpop ''corrupt_response'' (dpop ''corrupt_cot'' (dpop ''tension''
        (dset ''assistant_response'' (JStr new_response) (dset ''assistant_cot'' (JStr new_cot)
          (dset ''rewrite_history'' (JList (list_of (jget e ''rewrite_history'') @ [JObj r])) e))))))"

definition rewrite_exchange_history ::
  "bool \<Rightarrow> string \<Rightarrow> string \<Rightarrow> int \<Rightarrow> string \<Rightarrow> string \<Rightarrow> string \<Rightarrow> string \<Rightarrow> chats_dir \<Rightarrow> ((bool \<times> bool \<times> bool) \<times> chats_dir) py" where
  "rewrite_exchange_history ok now0 f i new_cot new_response run_id target_kind files =
     py_bind (read_transcript files f) (\<lambda>d. py_bind (exchange_at d i) (\<lambda>(xs, v). py_bind (as_entry v) (\<lambda>e.
     py_bind (atomic_write_session ok f (dset ''schema_version'' (JInt chat_schema_version)
         (put_entry xs i (rewritten_entry now0 new_cot new_response run_id target_kind e) d)) files) (\<lambda>files'.
       Inr ((py_or (jget_or e ''assistant_cot'' (JStr [])) (JStr []) \<noteq> JStr new_cot,
             py_or (jget_or e ''assistant_response'' (JStr [])) (JStr []) \<noteq> JStr new_response, dget e ''tension'' \<noteq> None), files')))))"

definition repair_field :: "string \<Rightarrow> string \<Rightarrow> string option \<Rightarrow> jobj \<times> jobj \<Rightarrow> jobj \<times> jobj" where
  "repair_field field prev_field new p =
     (case new of
        None \<Rightarrow> p
      | Some t \<Rightarrow>
          (case p of (e, r) \<Rightarrow>
             if jget e field = JStr t then (e, r)
             else (dset field (JStr t) e, dset prev_field (py_or (jget_or e field (JStr [])) (JStr [])) r)))"

definition repair_exchange_text ::
  "bool \<Rightarrow> string \<Rightarrow> string \<Rightarrow> int \<Rightarrow> string \<Rightarrow> string option \<Rightarrow> string option \<Rightarrow> chats_dir \<Rightarrow> (bool \<times> chats_dir) py" where
  "repair_exchange_text ok now0 f i reason new_cot new_response files =
     py_bind (read_transcript files f) (\<lambda>d. py_bind (exchange_at d i) (\<lambda>(xs, v). py_bind (as_entry v) (\<lambda>e.
       case repair_field ''assistant_response'' ''prev_response'' new_response
              (repair_field ''assistant_cot'' ''prev_cot'' new_cot (e, [(''at'', JStr now0), (''reason'', JStr reason)])) of
         (e', r) \<Rightarrow>
           if dget r ''prev_cot'' \<noteq> None \<or> dget r ''prev_response'' \<noteq> None
           then py_bind (atomic_write_session ok f
                  (put_entry xs i (dset ''text_repairs'' (JList (list_of (jget e' ''text_repairs'') @ [JObj r])) e') d) files) (\<lambda>files'.
                  Inr (True, files'))
           else Inr (False, files))))"

definition without_tension :: "json \<Rightarrow> json" where
  "without_tension v = (case v of JObj e \<Rightarrow> JObj (filter (\<lambda>p. fst p \<noteq> ''tension'') e) | _ \<Rightarrow> v)"

definition buried :: "string \<Rightarrow> int \<Rightarrow> json \<Rightarrow> json" where
  "buried now0 i v =
     JObj [(''at'', JStr now0), (''reason'', JStr ''banned_from_training''), (''exchange_index'', JInt i),
       (''had_tension'', JBool (case v of JObj e \<Rightarrow> dget e ''tension'' \<noteq> None | _ \<Rightarrow> False)), (''exchange'', without_tension v)]"

definition delete_exchange :: "bool \<Rightarrow> string \<Rightarrow> string \<Rightarrow> int \<Rightarrow> chats_dir \<Rightarrow> (nat \<times> chats_dir) py" where
  "delete_exchange ok now0 f i files =
     py_bind (read_transcript files f) (\<lambda>d. py_bind (exchange_at d i) (\<lambda>(xs, v).
       let xs' = take (nat i) xs @ drop (nat i + 1) xs in
       py_bind (atomic_write_session ok f (dset ''schema_version'' (JInt chat_schema_version)
           (dset ''deleted_exchanges'' (JList (list_of (jget d ''deleted_exchanges'') @ [buried now0 i v]))
             (dset ''exchanges'' (JList xs') d))) files) (\<lambda>files'. Inr (length xs', files'))))"

definition set_flag :: "string \<Rightarrow> bool option \<Rightarrow> jobj \<Rightarrow> jobj" where
  "set_flag k v e = (case v of None \<Rightarrow> e | Some True \<Rightarrow> dset k (JBool True) e | Some False \<Rightarrow> dpop k e)"

definition mark_exchange_corrupt ::
  "bool \<Rightarrow> string \<Rightarrow> int \<Rightarrow> bool option \<Rightarrow> bool option \<Rightarrow> chats_dir \<Rightarrow> ((bool \<times> bool) \<times> chats_dir) py" where
  "mark_exchange_corrupt ok f i cot_flag response_flag files =
     py_bind (read_transcript files f) (\<lambda>d. py_bind (exchange_at d i) (\<lambda>(xs, v). py_bind (as_entry v) (\<lambda>e.
       let e' = set_flag ''corrupt_response'' response_flag (set_flag ''corrupt_cot'' cot_flag e) in
       py_bind (atomic_write_session ok f (dset ''schema_version'' (JInt chat_schema_version) (put_entry xs i e' d)) files) (\<lambda>files'.
         Inr ((truthy (jget e' ''corrupt_cot''), truthy (jget e' ''corrupt_response'')), files')))))"

section \<open>New files\<close>

lemma nat_str_inj [simp]: "nat_str m = nat_str n \<longleftrightarrow> m = n"
  using digits_val_nat_str by (metis option.inject)

lemma session_names_distinct: "distinct (session_names stem n)"
proof -
  have "inj_on (\<lambda>k. stem @ ''_'' @ nat_str k @ ''.json'') (set [1..<n])" by (rule inj_onI) simp
  then show ?thesis by (auto simp: session_names_def distinct_map)
qed

lemma fresh_name_in: "dget files (fresh_name files stem) = None"
proof -
  let ?ns = "session_names stem (length files + 2)"
  have "\<not> set ?ns \<subseteq> set (dkeys files)"
  proof
    assume "set ?ns \<subseteq> set (dkeys files)"
    then have "card (set ?ns) \<le> length (dkeys files)" using card_mono card_length le_trans by (metis List.finite_set)
    moreover have "length ?ns = length files + 2" by (simp add: session_names_def del: upt_Suc)
    ultimately show False using distinct_card [OF session_names_distinct [of stem "length files + 2"]] by simp
  qed
  then have "filter (\<lambda>n. dget files n = None) ?ns \<noteq> []"
    by (auto simp: filter_empty_conv map_of_eq_None_iff subset_iff)
  then show ?thesis unfolding fresh_name_def using hd_in_set by fastforce
qed

section \<open>A session from its start\<close>

text \<open>Exchanges logged one after the other, each with what its write does.\<close>

fun log_all :: "chat_logger \<Rightarrow> (write_outcome \<times> string \<times> string \<times> log_args) list \<Rightarrow> unit py \<times> chat_logger" where
  "log_all lg [] = (Inr (), lg)"
| "log_all lg ((w, uid, ts, a) # as) =
     (case log_exchange [] [] uid ts w a lg of (Inl e, lg') \<Rightarrow> (Inl e, lg') | (Inr u, lg') \<Rightarrow> log_all lg' as)"

definition entries :: "(string \<times> string \<times> log_args) list \<Rightarrow> json list" where
  "entries as = List.map (\<lambda>(uid, ts, a). JObj (new_entry uid ts a)) as"

definition by_narrator :: "log_args \<Rightarrow> bool" where
  "by_narrator a = (py_strip (la_speaker a) \<in> set narrator_speakers)"

text \<open>
  Who a session is named after: its first speaker, or the guess made at its start when that one is not named. A
  session Ava opened is named by the first exchange that is no stage direction.
\<close>

definition named_by :: "bool \<Rightarrow> string \<Rightarrow> log_args list \<Rightarrow> string" where
  "named_by ava guess as =
     (case (if ava then dropWhile by_narrator as else as) of
        [] \<Rightarrow> guess | a # _ \<Rightarrow> if la_speaker a = [] then guess else la_speaker a)"

lemma jget_new_entry: "jget (new_entry uid ts a) ''speaker'' = JStr (la_speaker a)"
proof -
  have "jget (set_unless_null k v d) ''speaker'' = jget d ''speaker''" if "k \<noteq> ''speaker''" for k v d
    using that by (simp add: set_unless_null_def)
  then show ?thesis by (cases "parse_cot (la_response a)") (simp add: new_entry_def jget_def dget_or_def)
qed

lemma is_narrator_by: "is_narrator_speaker (JStr (la_speaker a)) = Inr (by_narrator a)"
  by (simp add: is_narrator_speaker_def strip_or_empty_str by_narrator_def)

lemma all_narrators_entries: "all_narrators (entries as) = Inr (list_all (\<lambda>(u, t, a). by_narrator a) as)"
  by (induction as) (auto simp: entries_def is_narrator_speaker_def jget_new_entry strip_or_empty_str by_narrator_def)

lemma empty_narrator: "\<not> by_narrator a" if "la_speaker a = []"
  using that by (simp add: by_narrator_def py_strip_def strip_if_def lstrip_if_def rstrip_if_def narrator_speakers_def)

lemma name_session_step:
  assumes "jget d ''exchanges'' = JList (entries as)" "dget d ''exchanges'' \<noteq> None"
    and "truthy (jget d ''initiated_by'') = ava" "jget d ''user'' = JStr (named_by ava guess (List.map (snd \<circ> snd) as))"
  shows "\<exists>d'. name_session (la_speaker a) d = Inr d'
    \<and> jget d' ''user'' = JStr (named_by ava guess (List.map (snd \<circ> snd) as @ [a]))
    \<and> jget d' ''exchanges'' = jget d ''exchanges'' \<and> dget d' ''exchanges'' \<noteq> None \<and> jget d' ''initiated_by'' = jget d ''initiated_by''"
proof -
  have e: "dget d ''exchanges'' = Some (JList (entries as))" using assms(1,2) by (auto simp: jget_def dget_or_def)
  have ne: "entries as = [] \<longleftrightarrow> as = []" by (simp add: entries_def)
  have narr: "(la_speaker a \<noteq> [] \<and> by_narrator a) = by_narrator a" using empty_narrator by blast
  define L where "L = List.map (snd \<circ> snd) as"
  have all: "list_all (\<lambda>(u, t, a). by_narrator a) as \<longleftrightarrow> list_all by_narrator L"
    by (simp add: L_def list_all_iff case_prod_beta)
  have drop: "dropWhile by_narrator (L @ [a])
      = (if list_all by_narrator L then (if by_narrator a then [] else [a]) else dropWhile by_narrator L @ [a])"
    by (auto simp: dropWhile_append list_all_iff)
  have nonempty: "dropWhile by_narrator L = [] \<longleftrightarrow> list_all by_narrator L"
    by (auto simp: dropWhile_eq_Nil_conv list_all_iff)
  show ?thesis
  proof (cases ava)
    case False
    then show ?thesis using assms e ne
      by (cases as) (auto simp: name_session_def named_by_def)
  next
    case True
    have "named_by True guess (L @ [a])
        = (if la_speaker a \<noteq> [] \<and> \<not> by_narrator a \<and> list_all by_narrator L then la_speaker a
           else named_by True guess L)"
    proof (cases "list_all by_narrator L")
      case all: True
      then have "dropWhile by_narrator L = []" using nonempty by blast
      then show ?thesis using all empty_narrator [of a] by (simp add: named_by_def drop del: dropWhile_eq_Nil_conv)
    next
      case some: False
      then obtain x xs where "dropWhile by_narrator L = x # xs" using nonempty by (cases "dropWhile by_narrator L") auto
      then show ?thesis using some by (simp add: named_by_def drop)
    qed
    moreover have "name_session (la_speaker a) d =
       (if la_speaker a = [] \<or> by_narrator a \<or> \<not> list_all by_narrator L then Inr d
        else let g = py_strip (named_by True guess L) in
          Inr (dset ''user'' (JStr (la_speaker a)) (if g \<noteq> [] \<and> g \<noteq> la_speaker a then dset ''addressed_to'' (JStr g) d else d)))"
      using assms(3,4) [folded L_def] True
      by (simp add: name_session_def e is_narrator_by strip_or_empty_str all_narrators_entries all Let_def)
    ultimately show ?thesis using assms by (auto simp: True Let_def L_def)
  qed
qed

declare dset_dset [simp]

lemma log_all_snoc:
  "log_all lg (as @ [x]) = (case log_all lg as of (Inl e, lg') \<Rightarrow> (Inl e, lg')
     | (Inr u, lg') \<Rightarrow> log_exchange [] [] (fst (snd x)) (fst (snd (snd x))) (fst x) (snd (snd (snd x))) lg')"
  by (cases x, induction as arbitrary: lg) (auto split: prod.splits sum.splits)

lemma session_fields:
  "jget (new_session iso_now a) ''exchanges'' = JList []" "dget (new_session iso_now a) ''exchanges'' \<noteq> None"
  "truthy (jget (new_session iso_now a) ''initiated_by'') = (sa_initiated a \<noteq> [])"
  "jget (new_session iso_now a) ''user'' = JStr (if py_strip (sa_user a) = unknown_addressee then [] else sa_user a)"
  by (auto simp: new_session_def Let_def set_if_def jget_def dget_or_def)

text \<open>A session as it should be after the exchanges \<open>as\<close>, and what its file holds of them: with the newest first, the
  session as of the last write that completed, a broken file when the last write to reach it broke off, and no file
  when none reached it.\<close>

definition holds_session :: "bool \<Rightarrow> string \<Rightarrow> (write_outcome \<times> string \<times> string \<times> log_args) list \<Rightarrow> jobj \<Rightarrow> bool" where
  "holds_session ava guess as d =
     (jget d ''exchanges'' = JList (entries (List.map snd as))
      \<and> jget d ''user'' = JStr (named_by ava guess (List.map (snd \<circ> snd \<circ> snd) as)))"

fun file_holds :: "bool \<Rightarrow> string \<Rightarrow> (write_outcome \<times> string \<times> string \<times> log_args) list \<Rightarrow> json content option \<Rightarrow> bool" where
  "file_holds ava guess [] c = (c = None)"
| "file_holds ava guess ((w, x) # newer) c =
     (case w of
        Written \<Rightarrow> (\<exists>d. c = Some (Parsed (JObj d)) \<and> holds_session ava guess (rev ((w, x) # newer)) d)
      | Cut_Short \<Rightarrow> c = Some Unreadable
      | Not_Opened \<Rightarrow> file_holds ava guess newer c)"

lemma session_run:
  fixes lg :: chat_logger and iso_now stem :: string and b :: start_args
  defines "f \<equiv> fresh_name (lg_files lg) stem"
    and "guess \<equiv> (if py_strip (sa_user b) = unknown_addressee then [] else sa_user b)"
  shows "\<exists>lg'. log_all (start_session iso_now stem b lg) as = (Inr (), lg') \<and> lg_current lg' = Some f \<and> lg_on_first lg' = None
    \<and> holds_session (sa_initiated b \<noteq> []) guess as (lg_data lg') \<and> dget (lg_data lg') ''exchanges'' \<noteq> None
    \<and> truthy (jget (lg_data lg') ''initiated_by'') = (sa_initiated b \<noteq> [])
    \<and> (\<forall>g. g \<noteq> f \<longrightarrow> dget (lg_files lg') g = dget (lg_files lg) g)
    \<and> file_holds (sa_initiated b \<noteq> []) guess (rev as) (dget (lg_files lg') f)
    \<and> (as \<noteq> [] \<and> fst (List.last as) = Written \<longrightarrow> dget (lg_files lg') f = Some (Parsed (JObj (lg_data lg'))))"
proof (induction as rule: rev_induct)
  case Nil
  then show ?case using session_fields(2) [of iso_now b] fresh_name_in [of "lg_files lg" stem]
    by (auto simp: start_session_def session_fields(1,3,4) entries_def named_by_def holds_session_def f_def guess_def)
next
  case (snoc x as)
  obtain w uid ts a where x: "x = (w, uid, ts, a)" by (cases x) auto
  obtain lg' where l: "log_all (start_session iso_now stem b lg) as = (Inr (), lg')" "lg_current lg' = Some f" "lg_on_first lg' = None"
    "holds_session (sa_initiated b \<noteq> []) guess as (lg_data lg')" "dget (lg_data lg') ''exchanges'' \<noteq> None"
    "truthy (jget (lg_data lg') ''initiated_by'') = (sa_initiated b \<noteq> [])"
    "\<forall>g. g \<noteq> f \<longrightarrow> dget (lg_files lg') g = dget (lg_files lg) g"
    "file_holds (sa_initiated b \<noteq> []) guess (rev as) (dget (lg_files lg') f)"
    using snoc.IH by blast
  have e: "jget (lg_data lg') ''exchanges'' = JList (entries (List.map snd as))"
    "jget (lg_data lg') ''user'' = JStr (named_by (sa_initiated b \<noteq> []) guess (List.map (snd \<circ> snd) (List.map snd as)))"
    using l(4) by (simp_all add: holds_session_def comp_def)
  obtain d where d: "name_session (la_speaker a) (lg_data lg') = Inr d"
    "jget d ''user'' = JStr (named_by (sa_initiated b \<noteq> []) guess (List.map (snd \<circ> snd) (List.map snd as) @ [a]))"
    "jget d ''exchanges'' = jget (lg_data lg') ''exchanges''" "jget d ''initiated_by'' = jget (lg_data lg') ''initiated_by''"
    using name_session_step [OF e(1) l(5,6) e(2), of a] by blast
  define data where "data = dset ''exchanges'' (JList (entries (List.map snd (as @ [x])))) d"
  define lg2 where "lg2 = snd (logger_save w (lg'\<lparr>lg_data := data\<rparr>))"
  have saved: "lg_current lg2 = Some f" "lg_on_first lg2 = None" "lg_data lg2 = data"
    "lg_files lg2 = (case w of Written \<Rightarrow> dset f (Parsed (JObj data)) (lg_files lg') | Not_Opened \<Rightarrow> lg_files lg'
       | Cut_Short \<Rightarrow> dset f Unreadable (lg_files lg'))"
    using l(2,3) by (simp_all add: lg2_def logger_save_def split: write_outcome.splits)
  have "log_all (start_session iso_now stem b lg) (as @ [x]) = log_exchange [] [] uid ts w a lg'"
    using log_all_snoc [of "start_session iso_now stem b lg" as x] l(1) x by simp
  also have "... = (Inr (), lg2)"
    using l(2) d(1,3) e(1) saved(2)
    by (simp add: log_exchange_def fire_first_append_def entries_def x lg2_def [symmetric] data_def [symmetric])
       (simp add: lg2_def data_def entries_def x)
  finally have r: "log_all (start_session iso_now stem b lg) (as @ [x]) = (Inr (), lg2)" .
  have held: "holds_session (sa_initiated b \<noteq> []) guess (as @ [x]) data"
    using d(2) by (simp add: holds_session_def data_def x comp_def)
  have more: "dget data ''exchanges'' \<noteq> None" "truthy (jget data ''initiated_by'') = (sa_initiated b \<noteq> [])"
    using d(4) l(6) by (simp_all add: data_def)
  show ?case unfolding r
    by (rule exI [of _ lg2], cases w) (use l(7,8) held more in \<open>simp_all add: saved x\<close>)
qed

text \<open>C15: a session started here, whatever the writes of its exchanges do. In memory it holds every exchange logged, in
  order, and the header names who it is with: the first speaker, or, when Ava opened it, the first human who answered;
  the guess made at the start stays only while nobody did. Its file, which did not exist before, is that session as of
  the last write that completed (all of it when the last one did), unreadable when a later write broke off, and not
  there while no write reached it; no other file changes, and no failure of a write is raised.\<close>

theorem session_reaches_its_file:
  "let f = fresh_name (lg_files lg) stem; r = log_all (start_session iso_now stem b lg) as; lg' = snd r;
       guess = (if py_strip (sa_user b) = unknown_addressee then [] else sa_user b) in
     fst r = Inr () \<and> dget (lg_files lg) f = None \<and> (\<forall>g. g \<noteq> f \<longrightarrow> dget (lg_files lg') g = dget (lg_files lg) g)
     \<and> holds_session (sa_initiated b \<noteq> []) guess as (lg_data lg')
     \<and> file_holds (sa_initiated b \<noteq> []) guess (rev as) (dget (lg_files lg') f)
     \<and> (as \<noteq> [] \<and> fst (List.last as) = Written \<longrightarrow> dget (lg_files lg') f = Some (Parsed (JObj (lg_data lg'))))"
proof -
  obtain lg' where "log_all (start_session iso_now stem b lg) as = (Inr (), lg')"
    "holds_session (sa_initiated b \<noteq> []) (if py_strip (sa_user b) = unknown_addressee then [] else sa_user b) as (lg_data lg')"
    "\<forall>g. g \<noteq> fresh_name (lg_files lg) stem \<longrightarrow> dget (lg_files lg') g = dget (lg_files lg) g"
    "file_holds (sa_initiated b \<noteq> []) (if py_strip (sa_user b) = unknown_addressee then [] else sa_user b) (rev as)
       (dget (lg_files lg') (fresh_name (lg_files lg) stem))"
    "as \<noteq> [] \<and> fst (List.last as) = Written \<longrightarrow>
       dget (lg_files lg') (fresh_name (lg_files lg) stem) = Some (Parsed (JObj (lg_data lg')))"
    using session_run [of iso_now stem b lg as] by blast
  then show ?thesis by (simp add: Let_def fresh_name_in)
qed

definition sample_log :: "string \<Rightarrow> log_args" where
  "sample_log who = \<lparr>la_prompt = ''p'', la_response = ''<think>t</think> r'', la_rag = [], la_tension = JNull, la_speaker = who,
     la_params = JNull, la_system = [], la_tokens = JNull, la_think = JNull, la_id = []\<rparr>"

definition fresh_logger :: chat_logger where
  "fresh_logger = \<lparr>lg_files = [], lg_current = None, lg_data = [], lg_on_first = None, lg_fired = []\<rparr>"

text \<open>Three exchanges, the second of which could not be saved and the third of which took both to the file.\<close>

theorem session_reaches_its_file_witness:
  "\<exists>d. dget (lg_files (snd (log_all (start_session ''i'' ''s'' (default_start\<lparr>sa_user := ''Ann'', sa_initiated := ''ava''\<rparr>) fresh_logger)
       [(Written, ''1'', ''t'', sample_log ''(initiative)''), (Not_Opened, ''2'', ''t'', sample_log ''Bob''),
        (Written, ''3'', ''t'', sample_log ''Eve'')]))) ''s.json'' = Some (Parsed (JObj d))
     \<and> jget d ''user'' = JStr ''Bob''"
proof -
  let ?as = "[(Written, ''1'', ''t'', sample_log ''(initiative)''), (Not_Opened, ''2'', ''t'', sample_log ''Bob''),
        (Written, ''3'', ''t'', sample_log ''Eve'')]"
  have f: "fresh_name (lg_files fresh_logger) ''s'' = ''s.json''" by code_simp
  have n: "named_by True ''Ann'' (List.map (snd \<circ> snd \<circ> snd) ?as) = ''Bob''" by code_simp
  have u: "py_strip ''Ann'' \<noteq> unknown_addressee" by code_simp
  show ?thesis
    using session_reaches_its_file [of fresh_logger "''s''" "''i''" "default_start\<lparr>sa_user := ''Ann'', sa_initiated := ''ava''\<rparr>" ?as] n u
    unfolding f Let_def by (auto simp: holds_session_def simp del: list.map)
qed

text \<open>
  A session started is no file yet, so a second logger that starts one in the same second takes the same name, and its
  first exchange replaces what the first logger has written.
\<close>

lemma two_starts_share_a_file:
  "let a = start_session ''i'' ''s'' default_start fresh_logger;
       b = start_session ''i'' ''s'' default_start fresh_logger;
       a' = snd (log_all a [(Written, ''1'', ''t'', sample_log ''Ann'')]);
       b' = snd (log_all (b\<lparr>lg_files := lg_files a'\<rparr>) [(Written, ''2'', ''t'', sample_log ''Bob'')]) in
   lg_current a' = lg_current b'
   \<and> dget (lg_files b') ''s.json'' \<noteq> dget (lg_files a') ''s.json''
   \<and> (case dget (lg_files b') ''s.json'' of Some (Parsed (JObj d)) \<Rightarrow> length (list_of (jget d ''exchanges'')) = 1 | _ \<Rightarrow> False)"
  by code_simp

text \<open>A transcript that does not parse is resumed as an empty session and replaced by its next exchange.\<close>

lemma resumed_garbage_is_replaced:
  "let lg = resume_session ''s.json'' None (fresh_logger\<lparr>lg_files := [(''s.json'', Unreadable)]\<rparr>);
       lg' = snd (log_exchange ''i'' ''s'' ''1'' ''t'' Written (sample_log ''Ann'') lg) in
   (case dget (lg_files lg') ''s.json'' of Some (Parsed (JObj d)) \<Rightarrow> length (list_of (jget d ''exchanges'')) = 1 | _ \<Rightarrow> False)"
  by code_simp

text \<open>The callback of a resumed session runs although the exchange could not be written.\<close>

lemma callback_without_save:
  "let lg = resume_session ''s.json'' (Some ''unfreeze'') fresh_logger;
       lg' = snd (log_exchange ''i'' ''s'' ''1'' ''t'' Not_Opened (sample_log ''Ann'') lg) in
   lg_files lg' = [] \<and> lg_fired lg' = [(''unfreeze'', None)]"
  by code_simp

text \<open>What a generation says before its thinking block is in neither part of it.\<close>

lemma preamble_is_lost: "parse_cot ''Hi. <think>t</think> r'' = (''t'', ''r'')"
  by code_simp

section \<open>Edits change one exchange\<close>

text \<open>Baking a reviewed target into a transcript replaces the text of that exchange only: the former text is the last
  entry of its history, the measurement of the former generation and the marks of corruption are gone, no other
  exchange, no other field of the session but the format version and no other file changes.\<close>

theorem rewrite_changes_one_exchange:
  assumes "rewrite_exchange_history ok now0 f i c r run kind files = Inr (res, files')"
  shows "\<exists>d xs e d' e'. dget files f = Some (Parsed (JObj d)) \<and> dget files' f = Some (Parsed (JObj d'))
    \<and> jget d ''exchanges'' = JList xs \<and> jget d' ''exchanges'' = JList (xs[nat i := JObj e'])
    \<and> 0 \<le> i \<and> nat i < length xs \<and> xs ! nat i = JObj e
    \<and> jget e' ''assistant_cot'' = JStr c \<and> jget e' ''assistant_response'' = JStr r
    \<and> dget e' ''tension'' = None \<and> dget e' ''corrupt_cot'' = None \<and> dget e' ''corrupt_response'' = None
    \<and> (\<exists>h. jget e' ''rewrite_history'' = JList (list_of (jget e ''rewrite_history'') @ [JObj h])
         \<and> jget h ''prev_response'' = py_or (jget e ''assistant_response'') (JStr [])
         \<and> jget h ''prev_cot'' = py_or (jget e ''assistant_cot'') (JStr []))
    \<and> (\<forall>k. k \<notin> {''exchanges'', ''schema_version''} \<longrightarrow> jget d' k = jget d k)
    \<and> (\<forall>g. g \<noteq> f \<longrightarrow> dget files' g = dget files g)"
proof -
  obtain d xs v e where d: "read_transcript files f = Inr d" "exchange_at d i = Inr (xs, v)" "as_entry v = Inr e"
    and w: "files' = dset f (Parsed (JObj (dset ''schema_version'' (JInt chat_schema_version)
              (put_entry xs i (rewritten_entry now0 c r run kind e) d)))) files"
    using assms by (auto simp: rewrite_exchange_history_def py_bind_eq_Inr atomic_write_session_def split: if_splits)
  have f: "dget files f = Some (Parsed (JObj d))"
    using d(1) by (auto simp: read_transcript_def split: option.splits content.splits json.splits)
  have x: "jget d ''exchanges'' = JList xs" "0 \<le> i" "nat i < length xs" "v = xs ! nat i"
    using d(2) by (auto simp: exchange_at_def split: json.splits if_splits)
  have e: "v = JObj e" using d(3) by (auto simp: as_entry_def split: json.splits)
  have prev: "jget_or e k (JStr []) = jget e k \<or> jget e k = JNull \<and> jget_or e k (JStr []) = JStr []" for k
    by (simp add: jget_or_def jget_def dget_or_def split: option.split)
  have por: "py_or (jget_or e k (JStr [])) (JStr []) = py_or (jget e k) (JStr [])" for k
    using prev [of k] by (auto simp: py_or_def)
  show ?thesis
    by (rule exI [of _ d], rule exI [of _ xs], rule exI [of _ e], rule exI, rule exI [of _ "rewritten_entry now0 c r run kind e"])
       (use x e in \<open>auto simp: f w put_entry_def rewritten_entry_def Let_def por jget_def [of "[_, _, _, _, _, _]"] dget_or_def\<close>)
qed

theorem rewrite_changes_one_exchange_witness:
  "\<exists>d e. dget (case rewrite_exchange_history True ''n'' ''a.json'' 0 ''c'' ''r'' ''run'' ''k''
        [(''a.json'', Parsed (JObj [(''exchanges'', JList [JObj [(''assistant_response'', JStr ''old'')]])]))] of Inr (res, fs) \<Rightarrow> fs | Inl _ \<Rightarrow> []) ''a.json''
      = Some (Parsed (JObj d)) \<and> jget d ''exchanges'' = JList [JObj e] \<and> jget e ''assistant_response'' = JStr ''r''"
proof -
  let ?files = "[(''a.json'', Parsed (JObj [(''exchanges'', JList [JObj [(''assistant_response'', JStr ''old'')]])]))]"
  obtain res files' where r: "rewrite_exchange_history True ''n'' ''a.json'' 0 ''c'' ''r'' ''run'' ''k'' ?files = Inr (res, files')"
    by (auto simp: rewrite_exchange_history_def read_transcript_def exchange_at_def as_entry_def atomic_write_session_def jget_def dget_or_def)
  show ?thesis unfolding r using rewrite_changes_one_exchange [OF r] by (auto simp: jget_def dget_or_def)
qed

end
