(* ===== verification/Rewrite_History.thy ===== *)
theory Rewrite_History
  imports Chat_Logger Ledger Staging
begin

text \<open>
  \<open>handle_rewrite_history\<close> and \<open>_renumber_fact_hosts\<close> of \<open>core/session_ops.py\<close>: the operator's verdicts are settled in
  the transcripts. A locked exchange takes its reviewed target, a banned one is deleted, and the stores that name
  exchanges by position, the sidecar and the hosts of facts in the ledger, move with it. The chats directory
  is the sidecar's, transcripts included; whether each write succeeds is an argument. The websocket, the
  retrieval index and the wander corpus are left out.
\<close>

section \<open>The hosts of facts\<close>

definition int_value :: "json \<Rightarrow> int option" where
  "int_value v = (case v of JInt n \<Rightarrow> Some n | JBool b \<Rightarrow> Some (if b then 1 else 0) | _ \<Rightarrow> None)"

definition int_json :: "int option \<Rightarrow> json" where
  "int_json v = (case v of None \<Rightarrow> JNull | Some n \<Rightarrow> JInt n)"

definition shifted_index :: "int \<Rightarrow> int \<Rightarrow> int option" where
  "shifted_index n i = (if i = n then None else Some (if n < i then i - 1 else i))"

definition renumber_one ::
  "(string \<Rightarrow> string) \<Rightarrow> string \<Rightarrow> string \<Rightarrow> int \<Rightarrow> jobj \<Rightarrow> logfile \<Rightarrow> (bool \<times> logfile) py" where
  "renumber_one ck ts source_session n r f =
     (if jget r ''type'' \<noteq> JStr ''fact'' then Inr (False, f)
      else py_bind (as_dict (py_or (jget r ''source_exchange'') (JObj []))) (\<lambda>se.
        case int_value (jget se ''exchange_index'') of
          None \<Rightarrow> Inr (False, f)
        | Some host_idx \<Rightarrow>
            if jget se ''source_session'' \<noteq> JStr source_session \<or> host_idx < n then Inr (False, f)
            else
              let own = int_value (jget r ''exchange_index'');
                  own' = (if jget r ''source_session'' = JStr source_session
                          then (case own of None \<Rightarrow> None | Some i \<Rightarrow> shifted_index n i) else own)
              in py_bind (as_str (jget_or r ''content'' (JStr []))) (\<lambda>content.
                   Inr (True, snd (register_fact ck ts content (JStr ''fact'') (jget r ''trigger'')
                     (jget_or r ''source_session'' (JStr [])) (jget r ''lang'') (int_json own')
                     (JObj [(''source_session'', JStr source_session), (''exchange_index'', int_json (shifted_index n host_idx))])
                     (jget r ''about'') f)))))"

text \<open>An exception ends the walk; what was appended before stays, and the count is lost.\<close>

fun renumber_from ::
  "(string \<Rightarrow> string) \<Rightarrow> string \<Rightarrow> string \<Rightarrow> int \<Rightarrow> jobj list \<Rightarrow> nat \<Rightarrow> logfile \<Rightarrow> nat \<times> logfile" where
  "renumber_from ck ts x n [] moved f = (moved, f)"
| "renumber_from ck ts x n (r # rs) moved f =
     (case renumber_one ck ts x n r f of
        Inl e \<Rightarrow> (0, f) | Inr (m, f') \<Rightarrow> renumber_from ck ts x n rs (if m then moved + 1 else moved) f')"

definition renumber_fact_hosts :: "(string \<Rightarrow> string) \<Rightarrow> string \<Rightarrow> string \<Rightarrow> int \<Rightarrow> logfile \<Rightarrow> nat \<times> logfile" where
  "renumber_fact_hosts ck ts source_session n f =
     (case fold_ledger f of Inl e \<Rightarrow> (0, f) | Inr d \<Rightarrow> renumber_from ck ts source_session n (List.map snd d) 0 f)"

section \<open>Settling one chat\<close>

record rewrite_state =
  rh_sidecar :: sidecar
  rh_ledger :: logfile
  rh_reflection :: reflection_files
  rh_rewritten :: nat
  rh_deleted :: nat
  rh_kept :: nat
  rh_chats :: "(string \<times> nat \<times> nat) list"
  rh_skipped :: "(string \<times> int option) list"
  rh_errors :: "(string \<times> int) list"

record write_oks =
  ok_rewrite :: "string \<Rightarrow> int \<Rightarrow> bool"
  ok_unlock :: "string \<Rightarrow> int \<Rightarrow> bool"
  ok_delete :: "string \<Rightarrow> int \<Rightarrow> bool"
  ok_drop :: "string \<Rightarrow> int \<Rightarrow> bool"

definition all_ok :: write_oks where
  "all_ok = \<lparr>ok_rewrite = (\<lambda>x i. True), ok_unlock = (\<lambda>x i. True), ok_delete = (\<lambda>x i. True), ok_drop = (\<lambda>x i. True)\<rparr>"

text \<open>\<open>str(k).lstrip("-").isdigit()\<close>; the superscripts one, two and three are digits to \<open>isdigit\<close> but not to \<open>int\<close>.\<close>

definition digit_key :: "string \<Rightarrow> bool" where
  "digit_key k = (let d = dropWhile (\<lambda>c. c = CHR ''-'') k in
     d \<noteq> [] \<and> list_all (\<lambda>c. digit_val c \<noteq> None \<or> c \<in> {CHR 0xB2, CHR 0xB3, CHR 0xB9}) d)"

fun indices_where :: "(jobj \<Rightarrow> bool) \<Rightarrow> jobj \<Rightarrow> int list py" where
  "indices_where p [] = Inr []"
| "indices_where p ((k, v) # t) =
     (case v of
        JObj r \<Rightarrow>
          if p r \<and> digit_key k
          then (case str_int k of None \<Rightarrow> Inl ValueError | Some i \<Rightarrow> py_bind (indices_where p t) (\<lambda>is. Inr (i # is)))
          else indices_where p t
      | _ \<Rightarrow> indices_where p t)"

definition is_locked :: "jobj \<Rightarrow> bool" where
  "is_locked r = truthy (jget r ''locked'')"

definition is_deletable :: "jobj \<Rightarrow> bool" where
  "is_deletable r = (truthy (jget r ''banned'') \<and> \<not> truthy (jget r ''history_only''))"

definition bake_locked ::
  "write_oks \<Rightarrow> (json \<Rightarrow> string) \<Rightarrow> string \<Rightarrow> string \<Rightarrow> jobj \<Rightarrow> nat \<times> rewrite_state \<Rightarrow> int \<Rightarrow> (nat \<times> rewrite_state) py" where
  "bake_locked w rp now0 x exch acc i =
     (case acc of (n, s) \<Rightarrow>
        py_bind (as_dict (py_or (jget exch (int_str i)) (JObj []))) (\<lambda>r.
          let tgt = py_strip (fstr rp (py_or (jget r ''target'') (JStr []))) in
          if tgt = [] then Inr (n, s\<lparr>rh_skipped := rh_skipped s @ [(x, Some i)]\<rparr>)
          else case rewrite_exchange_history (ok_rewrite w x i) now0 x i (fst (parse_cot tgt)) (snd (parse_cot tgt))
                 (fstr rp (py_or (jget r ''run_id'') (JStr []))) (fstr rp (py_or (jget r ''target_kind'') (JStr []))) (main_dir (rh_sidecar s)) of
              Inl e \<Rightarrow> Inr (n, s\<lparr>rh_errors := rh_errors s @ [(x, i)]\<rparr>)
            | Inr (res, files) \<Rightarrow>
                Inr (n + 1, s\<lparr>rh_sidecar := snd (set_exchange_locked (ok_unlock w x i) x i False ((rh_sidecar s)\<lparr>main_dir := files\<rparr>)),
                              rh_rewritten := rh_rewritten s + 1\<rparr>)))"

definition delete_banned ::
  "write_oks \<Rightarrow> (string \<Rightarrow> string) \<Rightarrow> string \<Rightarrow> string \<Rightarrow> nat \<times> rewrite_state \<Rightarrow> int \<Rightarrow> nat \<times> rewrite_state" where
  "delete_banned w ck now0 x acc i =
     (case acc of (n, s) \<Rightarrow>
        case delete_exchange (ok_delete w x i) now0 x i (main_dir (rh_sidecar s)) of
          Inl e \<Rightarrow> (n, s\<lparr>rh_errors := rh_errors s @ [(x, i)]\<rparr>)
        | Inr (res, files) \<Rightarrow>
            (n + 1, s\<lparr>rh_sidecar := snd (drop_exchange (ok_drop w x i) x i ((rh_sidecar s)\<lparr>main_dir := files\<rparr>)),
                      rh_ledger := snd (renumber_fact_hosts ck now0 x i (rh_ledger s)), rh_deleted := rh_deleted s + 1\<rparr>))"

definition settle_chat ::
  "write_oks \<Rightarrow> (string \<Rightarrow> string) \<Rightarrow> (json \<Rightarrow> string) \<Rightarrow> string \<Rightarrow> string option \<Rightarrow> string list option \<Rightarrow> rewrite_state \<Rightarrow> string \<Rightarrow> rewrite_state py" where
  "settle_chat w ck rp now0 active scope s x =
     (if (case scope of None \<Rightarrow> False | Some xs \<Rightarrow> x \<notin> set xs) then Inr s
      else case dget (main_dir (rh_sidecar s)) (sidecar_path_for x) of
          Some (Parsed (JObj d)) \<Rightarrow>
            (case jget d ''exchanges'' of
               JObj exch \<Rightarrow>
                 py_bind (indices_where is_locked exch) (\<lambda>locked.
                 py_bind (indices_where is_deletable exch) (\<lambda>banned.
                   let s0 = s\<lparr>rh_kept := rh_kept s + length (filter (\<lambda>(k, v). case v of
                                JObj r \<Rightarrow> truthy (jget r ''banned'') \<and> truthy (jget r ''history_only'') | _ \<Rightarrow> False) exch)\<rparr> in
                   if locked = [] \<and> banned = [] then Inr s0
                   else if active = Some x then Inr (s0\<lparr>rh_skipped := rh_skipped s0 @ [(x, None)]\<rparr>)
                   else py_bind (py_fold (bake_locked w rp now0 x exch) (0, s0) (sort locked)) (\<lambda>(baked, s1).
                     case foldl (delete_banned w ck now0 x) (0, s1) (rev (sort banned)) of
                       (gone, s2) \<Rightarrow>
                         let s3 = (if gone = 0 then s2 else s2\<lparr>rh_reflection := purge_background_artifacts x (rh_reflection s2)\<rparr>) in
                         Inr (if baked = 0 \<and> gone = 0 then s3 else s3\<lparr>rh_chats := rh_chats s3 @ [(x, baked, gone)]\<rparr>))))
             | _ \<Rightarrow> Inr s)
        | _ \<Rightarrow> Inr s)"

definition chat_json_files :: "chats_dir \<Rightarrow> string list" where
  "chat_json_files d = sort (filter (\<lambda>n. endswith n ''.json'' \<and> is_chat_session_json n) (dkeys d))"

definition handle_rewrite_history ::
  "write_oks \<Rightarrow> (string \<Rightarrow> string) \<Rightarrow> (json \<Rightarrow> string) \<Rightarrow> string \<Rightarrow> bool \<Rightarrow> string option \<Rightarrow> string list option \<Rightarrow> rewrite_state
   \<Rightarrow> rewrite_state option py" where
  "handle_rewrite_history w ck rp now0 reflecting active scope s =
     (if reflecting then Inr None
      else py_bind (py_fold (settle_chat w ck rp now0 active scope) s (chat_json_files (main_dir (rh_sidecar s)))) (\<lambda>s'. Inr (Some s')))"

section \<open>What one write does to the transcript and its sidecar\<close>

definition plain_name :: "string \<Rightarrow> bool" where
  "plain_name x = (resolve_chat_path x = Some x)"

lemma plain_sidecar:
  assumes "plain_name x"
  shows "resolve_sidecar_path x = Some (sidecar_path_for x)" "sidecar_path_for x \<noteq> x"
proof -
  show "resolve_sidecar_path x = Some (sidecar_path_for x)" using assms by (simp add: plain_name_def resolve_sidecar_path_def)
  have "\<not> has_sidecar_suffix x" using assms by (auto simp: plain_name_def resolve_chat_path_def Let_def split: if_splits)
  moreover have "has_sidecar_suffix (sidecar_path_for x)"
    using endswith_append [of "path_stem x" "''.state.json''"] by (simp add: has_sidecar_suffix_def sidecar_suffixes_def sidecar_path_for_def)
  ultimately show "sidecar_path_for x \<noteq> x" by metis
qed

text \<open>A chat with the exchanges \<open>ys\<close> in its transcript and the records \<open>fnd\<close> in its sidecar.\<close>

definition chat_is :: "string \<Rightarrow> json list \<Rightarrow> (int \<Rightarrow> jobj option) \<Rightarrow> sidecar \<Rightarrow> bool" where
  "chat_is x ys fnd sc =
     ((\<exists>d. dget (main_dir sc) x = Some (Parsed (JObj d)) \<and> jget d ''exchanges'' = JList ys)
      \<and> dget (main_dir sc) (sidecar_path_for x) \<noteq> None
      \<and> canonical_table (exchanges_of (load sc x)) \<and> canonical_table (obj_of (jget (load sc x) ''anchors''))
      \<and> (\<forall>j. found sc x j = fnd j))"

lemma load_write_other:
  assumes "plain_name x"
  shows "load (sc\<lparr>main_dir := dset x v (main_dir sc)\<rparr>) x = load sc x"
  using plain_sidecar [OF assms] by (simp add: load_def split: option.split)

lemma chat_is_write:
  assumes "plain_name x" "chat_is x ys fnd sc" "jget d ''exchanges'' = JList ys'"
  shows "chat_is x ys' fnd (sc\<lparr>main_dir := dset x (Parsed (JObj d)) (main_dir sc)\<rparr>)"
  using assms plain_sidecar [OF assms(1)] by (auto simp: chat_is_def load_write_other found_def)

lemma shift_table_canonical: "canonical_table t \<Longrightarrow> canonical_table (fst (shift_table n t))"
proof -
  have "canonical_table t \<Longrightarrow> canonical_table acc \<Longrightarrow> canonical_table (fst (foldl (shift_step n) (acc, b) t))" for acc b
  proof (induction t arbitrary: acc b)
    case (Cons kr t)
    obtain k r where kr: "kr = (k, r)" by (cases kr)
    obtain i where i: "k = int_str i" "canonical_table t" using canonical_Cons Cons.prems(1) unfolding kr by blast
    show ?case using Cons.IH [OF i(2)] Cons.prems(2) by (simp add: kr i(1) shift_step_def canonical_dset)
  qed simp
  then show "canonical_table t \<Longrightarrow> ?thesis" by (simp add: shift_table_def canonical_table_def)
qed

lemma shift_table_touched: "dget t (int_str n) \<noteq> None \<Longrightarrow> snd (shift_table n t)"
proof -
  have keep: "b \<Longrightarrow> snd (foldl (shift_step n) (acc, b) t)" for acc b t
    by (induction t arbitrary: acc b) (auto simp: shift_step_def split: option.splits if_splits)
  have "dget t (int_str n) \<noteq> None \<Longrightarrow> snd (foldl (shift_step n) (acc, b) t)" for acc b
  proof (induction t arbitrary: acc b)
    case (Cons kr t)
    obtain k r where kr: "kr = (k, r)" by (cases kr)
    show ?case
    proof (cases "k = int_str n")
      case True
      then have "shift_step n (acc, b) kr = (acc, True)" by (simp add: kr shift_step_def)
      then show ?thesis by (simp add: keep)
    next
      case False
      then have "dget t (int_str n) \<noteq> None" using Cons.prems by (simp add: kr)
      moreover obtain acc' b' where "shift_step n (acc, b) (k, r) = (acc', b')" by fastforce
      ultimately show ?thesis using Cons.IH by (simp add: kr)
    qed
  qed simp
  then show "dget t (int_str n) \<noteq> None \<Longrightarrow> ?thesis" by (simp add: shift_table_def)
qed

lemma drop_field_table:
  "obj_of (jget (fst (drop_field n x p)) x) = fst (shift_table n (obj_of (jget (fst p) x))) \<or> \<not> is_obj (jget (fst p) x) \<and> drop_field n x p = p"
  by (cases p; cases "jget (fst p) x"; cases "shift_table n (obj_of (jget (fst p) x))") (simp_all add: drop_field_def)

lemma drop_field_canonical:
  "canonical_table (obj_of (jget (fst p) x)) \<Longrightarrow> canonical_table (obj_of (jget (fst (drop_field n x p)) x))"
  using drop_field_table [of n x p] shift_table_canonical [of "obj_of (jget (fst p) x)" n] by (elim disjE conjE; simp only:)

lemma drop_field_snd:
  "snd p \<Longrightarrow> snd (drop_field n x p)"
  "dget (obj_of (jget (fst p) x)) (int_str n) \<noteq> None \<Longrightarrow> snd (drop_field n x p)"
  by (cases p; cases "jget (fst p) x"; cases "shift_table n (obj_of (jget (fst p) x))";
      use shift_table_touched [of "obj_of (jget (fst p) x)" n] in \<open>simp add: drop_field_def\<close>)+

lemma chat_is_drop:
  assumes "plain_name x" "chat_is x ys fnd sc" "fnd n \<noteq> None"
  shows "chat_is x ys (\<lambda>j. fnd (if j < n then j else j + 1)) (snd (drop_exchange True x n sc))"
proof -
  let ?f = "sidecar_path_for x"
  let ?p1 = "drop_field n ''exchanges'' (load sc x, False)" let ?p2 = "drop_field n ''anchors'' ?p1"
  note f = plain_sidecar [OF assms(1)]
  have t: "dget (exchanges_of (load sc x)) (int_str n) \<noteq> None"
  proof -
    have "found sc x n \<noteq> None" using assms(2,3) by (simp add: chat_is_def)
    then show ?thesis by (auto simp: found_def jget_def dget_or_def split: option.splits)
  qed
  then have touched: "snd ?p2" using drop_field_snd(1) [of ?p1 n "''anchors''"] drop_field_snd(2) [where p = "(load sc x, False)" and x = "''exchanges''" and n = n]
    by (simp add: exchanges_of_def)
  then have d: "drop_exchange True x n sc = save True sc ?f (fst ?p2)"
    using assms(2) by (auto simp: drop_exchange_def f(1) chat_is_def split: prod.splits)
  then have ok: "fst (drop_exchange True x n sc)" by (simp add: save_def)
  have "normal_doc (fst ?p2)" using normal_load [of sc x] unfolding normal_doc_def by (simp add: drop_field_keys)
  then have l: "load (snd (drop_exchange True x n sc)) x = stamped (fst ?p2)" using docs.load_saved [OF f(1)] d by simp
  have can: "canonical_table (exchanges_of (load sc x))" "canonical_table (obj_of (jget (load sc x) ''anchors''))"
    using assms(2) by (simp_all add: chat_is_def)
  have e: "exchanges_of (fst ?p2) = exchanges_of (fst ?p1)"
    using drop_field_get(1) [of "''anchors''" "''exchanges''" n ?p1] by (simp add: exchanges_of_def)
  have ce: "canonical_table (exchanges_of (fst ?p1))"
    using drop_field_canonical [of "(load sc x, False)" "''exchanges''" n] can(1) by (simp only: exchanges_of_def fst_conv)
  have a: "obj_of (jget (fst ?p1) ''anchors'') = obj_of (jget (load sc x) ''anchors'')"
    using drop_field_get(1) [of "''exchanges''" "''anchors''" n "(load sc x, False)"] by simp
  have ca: "canonical_table (obj_of (jget (fst ?p2) ''anchors''))"
    by (rule drop_field_canonical) (simp only: a can(2))
  have st: "jget (stamped z) ''anchors'' = jget z ''anchors''" for z by (simp add: stamped_def)
  have main: "main_dir (snd (drop_exchange True x n sc)) = dset ?f (Parsed (JObj (dset ''schema_version'' (JInt 1) (fst ?p2)))) (main_dir sc)"
    by (simp add: d save_def)
  show ?thesis
    unfolding chat_is_def l st main
    using assms(2) drop_exchange_renumbers [OF ok can] f(2) ce ca by (auto simp: chat_is_def e)
qed

lemma chat_is_unlock:
  assumes "plain_name x" "chat_is x ys fnd sc" "fnd i = Some r"
  shows "chat_is x ys (fnd(i := Some (dset ''locked'' (JBool v) r))) (snd (set_exchange_locked True x i v sc))"
proof -
  let ?g = "\<lambda>d. put_exchange d i (dset ''locked'' (JBool v) r)"
  note f = plain_sidecar [OF assms(1)]
  have "found sc x i = Some r" using assms(2,3) by (simp add: chat_is_def)
  then have r: "jget (exchanges_of (load sc x)) (int_str i) = JObj r" by (simp add: found_def split: json.splits)
  have u: "docs.update True sc x ?g = save True sc (sidecar_path_for x) (?g (load sc x))" by (simp add: docs.update_def f(1))
  have s: "set_exchange_locked True x i v sc = log_event (Flag_Event ''lock'' x i v) (docs.update True sc x ?g)"
    using assms(2) by (auto simp: set_exchange_locked_def f(1) u chat_is_def Let_def r)
  have l: "load (snd (docs.update True sc x ?g)) x = stamped (?g (load sc x))"
    by (rule docs.update_read) (simp_all add: f(1) normal_put normal_load)
  have fnd: "found (snd (docs.update True sc x ?g)) x j = (if j = i then Some (dset ''locked'' (JBool v) r) else found sc x j)" for j
    by (simp add: found_def l)
  have an: "jget (stamped (?g z)) ''anchors'' = jget z ''anchors''" for z by (simp add: stamped_def put_exchange_def)
  have main: "main_dir (snd (set_exchange_locked True x i v sc)) = main_dir (snd (docs.update True sc x ?g))"
    unfolding s by (simp add: log_event_def split: prod.split)
  have ld: "load (snd (set_exchange_locked True x i v sc)) x = load (snd (docs.update True sc x ?g)) x" unfolding s by simp
  have dir: "main_dir (snd (docs.update True sc x ?g)) = dset (sidecar_path_for x) (Parsed (JObj (dset ''schema_version'' (JInt 1) (?g (load sc x))))) (main_dir sc)"
    by (simp add: u save_def)
  have fnd': "found (snd (set_exchange_locked True x i v sc)) x j = (if j = i then Some (dset ''locked'' (JBool v) r) else found sc x j)" for j
    using fnd [of j] by (simp add: found_def ld)
  show ?thesis
    unfolding chat_is_def main ld l an dir
    using assms(2) f(2) by (auto simp: chat_is_def fnd' canonical_dset)
qed

section \<open>The two passes over one chat\<close>

definition target_of :: "(json \<Rightarrow> string) \<Rightarrow> jobj \<Rightarrow> string" where
  "target_of rp r = py_strip (fstr rp (py_or (jget r ''target'') (JStr [])))"

definition baked_entry :: "(json \<Rightarrow> string) \<Rightarrow> string \<Rightarrow> jobj \<Rightarrow> json \<Rightarrow> json" where
  "baked_entry rp now0 r v =
     (if target_of rp r = [] then v
      else JObj (rewritten_entry now0 (fst (parse_cot (target_of rp r))) (snd (parse_cot (target_of rp r)))
             (fstr rp (py_or (jget r ''run_id'') (JStr []))) (fstr rp (py_or (jget r ''target_kind'') (JStr []))) (obj_of v)))"

definition baked_record :: "(json \<Rightarrow> string) \<Rightarrow> jobj \<Rightarrow> jobj" where
  "baked_record rp r = (if target_of rp r = [] then r else dset ''locked'' (JBool False) r)"

lemma all_ok_simps [simp]: "ok_rewrite all_ok x i" "ok_unlock all_ok x i" "ok_delete all_ok x i" "ok_drop all_ok x i"
  by (simp_all add: all_ok_def)

lemma bake_step:
  assumes "plain_name x" "chat_is x ys fnd (rh_sidecar s)" "fnd i = Some r" "jget exch (int_str i) = JObj r"
    and "0 \<le> i" "nat i < length ys" "is_obj (ys ! nat i)"
  shows "\<exists>n' s'. bake_locked all_ok rp now0 x exch (n, s) i = Inr (n', s')
    \<and> chat_is x (ys[nat i := baked_entry rp now0 r (ys ! nat i)]) (fnd(i := Some (baked_record rp r))) (rh_sidecar s')"
proof -
  obtain e where e: "ys ! nat i = JObj e" using assms(7) by (cases "ys ! nat i") simp_all
  have r: "as_dict (py_or (jget exch (int_str i)) (JObj [])) = Inr r" using assms(4) by (cases "r = []") (simp_all add: py_or_def)
  show ?thesis
  proof (cases "target_of rp r = []")
    case True
    have "fnd(i := Some r) = fnd" using assms(3) by (simp add: fun_upd_idem_iff)
    then show ?thesis using True assms(2) by (simp add: bake_locked_def r target_of_def baked_entry_def baked_record_def)
  next
    case False
    obtain d where d: "dget (main_dir (rh_sidecar s)) x = Some (Parsed (JObj d))" "jget d ''exchanges'' = JList ys"
      using assms(2) by (auto simp: chat_is_def)
    let ?e = "rewritten_entry now0 (fst (parse_cot (target_of rp r))) (snd (parse_cot (target_of rp r)))
             (fstr rp (py_or (jget r ''run_id'') (JStr []))) (fstr rp (py_or (jget r ''target_kind'') (JStr []))) e"
    let ?d = "dset ''schema_version'' (JInt chat_schema_version) (put_entry ys i ?e d)"
    let ?files = "dset x (Parsed (JObj ?d)) (main_dir (rh_sidecar s))"
    have w: "rewrite_exchange_history True now0 x i (fst (parse_cot (target_of rp r))) (snd (parse_cot (target_of rp r)))
        (fstr rp (py_or (jget r ''run_id'') (JStr []))) (fstr rp (py_or (jget r ''target_kind'') (JStr []))) (main_dir (rh_sidecar s))
        = Inr ((py_or (jget_or e ''assistant_cot'' (JStr [])) (JStr []) \<noteq> JStr (fst (parse_cot (target_of rp r))),
             py_or (jget_or e ''assistant_response'' (JStr [])) (JStr []) \<noteq> JStr (snd (parse_cot (target_of rp r))), dget e ''tension'' \<noteq> None), ?files)"
      using assms(5,6) e by (simp add: rewrite_exchange_history_def read_transcript_def d exchange_at_def as_entry_def atomic_write_session_def)
    have "jget ?d ''exchanges'' = JList (ys[nat i := JObj ?e])" by (simp add: put_entry_def)
    then have c: "chat_is x (ys[nat i := JObj ?e]) fnd ((rh_sidecar s)\<lparr>main_dir := ?files\<rparr>)" by (rule chat_is_write [OF assms(1,2)])
    have "chat_is x (ys[nat i := JObj ?e]) (fnd(i := Some (dset ''locked'' (JBool False) r)))
        (snd (set_exchange_locked True x i False ((rh_sidecar s)\<lparr>main_dir := ?files\<rparr>)))"
      by (rule chat_is_unlock [OF assms(1) c assms(3)])
    then show ?thesis
      using False w by (simp add: bake_locked_def r Let_def target_of_def [symmetric] baked_entry_def baked_record_def e)
  qed
qed

lemma bake_all:
  assumes "plain_name x" "chat_is x ys fnd (rh_sidecar s)" "distinct is0" "list_all is_obj ys"
    and "\<forall>i \<in> set is0. 0 \<le> i \<and> nat i < length ys \<and> (\<exists>r. fnd i = Some r \<and> jget exch (int_str i) = JObj r)"
  shows "\<exists>n' s'. py_fold (bake_locked all_ok rp now0 x exch) (n, s) is0 = Inr (n', s')
    \<and> chat_is x (List.map (\<lambda>k. if int k \<in> set is0 then baked_entry rp now0 (the (fnd (int k))) (ys ! k) else ys ! k) [0..<length ys])
         (\<lambda>j. if j \<in> set is0 then map_option (baked_record rp) (fnd j) else fnd j) (rh_sidecar s')"
  using assms
proof (induction is0 arbitrary: ys fnd s n)
  case Nil
  then show ?case by (simp add: map_nth)
next
  case (Cons i is0)
  obtain r where r: "fnd i = Some r" "jget exch (int_str i) = JObj r" using Cons.prems(5) by auto
  have i: "0 \<le> i" "nat i < length ys" using Cons.prems(5) by auto
  have obj: "is_obj (ys ! nat i)" using Cons.prems(4) i(2) by (simp add: list_all_length)
  let ?ys = "ys[nat i := baked_entry rp now0 r (ys ! nat i)]"
  let ?fnd = "fnd(i := Some (baked_record rp r))"
  obtain n' s' where s': "bake_locked all_ok rp now0 x exch (n, s) i = Inr (n', s')" "chat_is x ?ys ?fnd (rh_sidecar s')"
    using bake_step [OF Cons.prems(1,2) r i obj] by blast
  have "is_obj (baked_entry rp now0 r (ys ! nat i))" using obj by (simp add: baked_entry_def)
  then have o': "list_all is_obj ?ys"
    using Cons.prems(4) set_update_subset_insert [of ys "nat i" "baked_entry rp now0 r (ys ! nat i)"] unfolding list_all_iff by blast
  have ni: "i \<notin> set is0" using Cons.prems(3) by simp
  have q: "\<forall>j \<in> set is0. 0 \<le> j \<and> nat j < length ?ys \<and> (\<exists>r. ?fnd j = Some r \<and> jget exch (int_str j) = JObj r)"
    using Cons.prems(5) ni by auto
  have "distinct is0" using Cons.prems(3) by simp
  then obtain n'' s'' where s'': "py_fold (bake_locked all_ok rp now0 x exch) (n', s') is0 = Inr (n'', s'')"
    "chat_is x (List.map (\<lambda>k. if int k \<in> set is0 then baked_entry rp now0 (the (?fnd (int k))) (?ys ! k) else ?ys ! k) [0..<length ?ys])
       (\<lambda>j. if j \<in> set is0 then map_option (baked_record rp) (?fnd j) else ?fnd j) (rh_sidecar s'')"
    using Cons.IH [OF Cons.prems(1) s'(2) _ o' q] by blast
  have m1: "List.map (\<lambda>k. if int k \<in> set is0 then baked_entry rp now0 (the (?fnd (int k))) (?ys ! k) else ?ys ! k) [0..<length ?ys]
      = List.map (\<lambda>k. if int k \<in> set (i # is0) then baked_entry rp now0 (the (fnd (int k))) (ys ! k) else ys ! k) [0..<length ys]"
    using ni i r(1) by (auto simp: nth_list_update)
  have m2: "(\<lambda>j. if j \<in> set is0 then map_option (baked_record rp) (?fnd j) else ?fnd j)
      = (\<lambda>j. if j \<in> set (i # is0) then map_option (baked_record rp) (fnd j) else fnd j)"
    using ni r(1) by auto
  have "py_fold (bake_locked all_ok rp now0 x exch) (n, s) (i # is0) = Inr (n'', s'')" using s'(1) s''(1) by simp
  with s''(2) [unfolded m1 m2] show ?case by blast
qed

lemma delete_step:
  assumes "plain_name x" "chat_is x ys fnd (rh_sidecar s)" "fnd i \<noteq> None" "0 \<le> i" "nat i < length ys"
  shows "fst (delete_banned all_ok ck now0 x (n, s) i) = n + 1 \<and>
    chat_is x (take (nat i) ys @ drop (nat i + 1) ys) (\<lambda>j. fnd (if j < i then j else j + 1)) (rh_sidecar (snd (delete_banned all_ok ck now0 x (n, s) i)))"
proof -
  obtain d where d: "dget (main_dir (rh_sidecar s)) x = Some (Parsed (JObj d))" "jget d ''exchanges'' = JList ys"
    using assms(2) by (auto simp: chat_is_def)
  let ?ys = "take (nat i) ys @ drop (nat i + 1) ys"
  let ?d = "dset ''schema_version'' (JInt chat_schema_version)
     (dset ''deleted_exchanges'' (JList (list_of (jget d ''deleted_exchanges'') @ [buried now0 i (ys ! nat i)])) (dset ''exchanges'' (JList ?ys) d))"
  let ?files = "dset x (Parsed (JObj ?d)) (main_dir (rh_sidecar s))"
  have w: "delete_exchange True now0 x i (main_dir (rh_sidecar s)) = Inr (length ?ys, ?files)"
    using assms(4,5) by (simp add: delete_exchange_def read_transcript_def d exchange_at_def Let_def atomic_write_session_def)
  have "jget ?d ''exchanges'' = JList ?ys" by simp
  then have "chat_is x ?ys fnd ((rh_sidecar s)\<lparr>main_dir := ?files\<rparr>)" by (rule chat_is_write [OF assms(1,2)])
  from chat_is_drop [OF assms(1) this assms(3)] show ?thesis by (simp add: delete_banned_def w)
qed

text \<open>Deleting from the highest position down: what is left, and where its records are.\<close>

definition kept_positions :: "(int \<Rightarrow> bool) \<Rightarrow> nat \<Rightarrow> nat list" where
  "kept_positions gone n = filter (\<lambda>k. \<not> gone (int k)) [0..<n]"

lemma delete_all:
  assumes "plain_name x" "sorted_wrt (>) is0" "\<forall>i \<in> set is0. 0 \<le> i \<and> i < int m \<and> fnd0 i \<noteq> None"
    and "chat_is x (List.map f ks) fnd (rh_sidecar s)" "take m ks = [0..<m]" "m \<le> length ks"
    and "\<forall>j < length ks. fnd (int j) = fnd0 (int (ks ! j))"
  shows "\<exists>fnd'. chat_is x (List.map f (kept_positions (\<lambda>i. i \<in> set is0) m @ drop m ks)) fnd' (rh_sidecar (snd (foldl (delete_banned all_ok ck now0 x) (n, s) is0)))
    \<and> (\<forall>j < length (kept_positions (\<lambda>i. i \<in> set is0) m @ drop m ks).
         fnd' (int j) = fnd0 (int ((kept_positions (\<lambda>i. i \<in> set is0) m @ drop m ks) ! j)))
    \<and> fst (foldl (delete_banned all_ok ck now0 x) (n, s) is0) = n + length is0"
  using assms
proof (induction is0 arbitrary: m ks fnd s n)
  case Nil
  have "kept_positions (\<lambda>i. i \<in> set []) m @ drop m ks = ks"
    using Nil.prems(5) append_take_drop_id [of m ks] by (simp add: kept_positions_def)
  then show ?case using Nil.prems(4,7) by auto
next
  case (Cons i is0)
  define b where "b = nat i"
  have i: "i = int b" "b < m" "fnd0 i \<noteq> None" using Cons.prems(3) by (auto simp: b_def)
  have kb: "ks ! b = b" "b < length ks" using arg_cong [OF Cons.prems(5), of "\<lambda>l. l ! b"] i(2) Cons.prems(6) by simp_all
  let ?ks = "take b ks @ drop (b + 1) ks"
  let ?fnd = "\<lambda>j. fnd (if j < i then j else j + 1)"
  obtain s' where step: "delete_banned all_ok ck now0 x (n, s) i = (n + 1, s')" "chat_is x (List.map f ?ks) ?fnd (rh_sidecar s')"
    using delete_step [OF Cons.prems(1,4), of i ck now0 n] Cons.prems(7) i kb
    by (cases "delete_banned all_ok ck now0 x (n, s) i") (auto simp: take_map drop_map)
  have tk: "take b ks = [0..<b]" using arg_cong [OF Cons.prems(5), of "take b"] i(2) by (simp add: min_def)
  have q1: "\<forall>j \<in> set is0. 0 \<le> j \<and> j < int b \<and> fnd0 j \<noteq> None" using Cons.prems(2,3) i(1) by auto
  have q2: "take b ?ks = [0..<b]" "b \<le> length ?ks" using tk kb(2) by simp_all
  have q0: "sorted_wrt (>) is0" using Cons.prems(2) by simp
  have q3: "\<forall>j < length ?ks. ?fnd (int j) = fnd0 (int (?ks ! j))"
  proof (intro allI impI)
    fix j assume j: "j < length ?ks"
    show "?fnd (int j) = fnd0 (int (?ks ! j))"
    proof (cases "j < b")
      case True
      then show ?thesis using Cons.prems(7) kb(2) i(1) by (simp add: nth_append)
    next
      case False
      then have "fnd (int (Suc j)) = fnd0 (int (ks ! Suc j))" using Cons.prems(7)[rule_format, of "Suc j"] j kb(2) by simp
      moreover have "?ks ! j = ks ! Suc j" using False j kb(2) by (simp add: nth_append min_def)
      ultimately show ?thesis using False i(1) by (simp add: add.commute)
    qed
  qed
  obtain fnd' where IH: "chat_is x (List.map f (kept_positions (\<lambda>i. i \<in> set is0) b @ drop b ?ks)) fnd'
      (rh_sidecar (snd (foldl (delete_banned all_ok ck now0 x) (n + 1, s') is0)))"
    "\<forall>j < length (kept_positions (\<lambda>i. i \<in> set is0) b @ drop b ?ks). fnd' (int j) = fnd0 (int ((kept_positions (\<lambda>i. i \<in> set is0) b @ drop b ?ks) ! j))"
    "fst (foldl (delete_banned all_ok ck now0 x) (n + 1, s') is0) = n + 1 + length is0"
    using Cons.IH [OF Cons.prems(1) q0 q1 step(2) q2 q3, of "n + 1"] by blast
  have below: "j < i" if "j \<in> set is0" for j using Cons.prems(2) that by simp
  have "drop (b + 1) ks = drop (b + 1) (take m ks) @ drop m ks"
    using i(2) Cons.prems(6) by (metis Suc_eq_plus1 Suc_leI append_take_drop_id drop_append diff_is_0_eq' drop0 length_take min.absorb2)
  also have "drop (b + 1) (take m ks) = [b + 1..<m]" unfolding Cons.prems(5) by simp
  finally have dr: "drop b ?ks = [b + 1..<m] @ drop m ks" using tk kb(2) by simp
  have "[0..<m] = [0..<b] @ b # [b + 1..<m]" using i(2) upt_add_eq_append [of 0 b "m - b"] by (simp add: upt_conv_Cons)
  moreover have "filter (\<lambda>k. int k \<notin> set (i # is0)) [b + 1..<m] = [b + 1..<m]"
    using below i(1) by (intro filter_True) fastforce
  moreover have "filter (\<lambda>k. int k \<notin> set (i # is0)) [0..<b] = filter (\<lambda>k. int k \<notin> set is0) [0..<b]"
    using i(1) by (intro filter_cong) auto
  ultimately have "kept_positions (\<lambda>j. j \<in> set (i # is0)) m = kept_positions (\<lambda>j. j \<in> set is0) b @ [b + 1..<m]"
    using i(1) by (simp add: kept_positions_def)
  then have K: "kept_positions (\<lambda>j. j \<in> set (i # is0)) m @ drop m ks = kept_positions (\<lambda>j. j \<in> set is0) b @ drop b ?ks"
    by (simp only: dr append_assoc)
  have F: "foldl (delete_banned all_ok ck now0 x) (n, s) (i # is0) = foldl (delete_banned all_ok ck now0 x) (n + 1, s') is0"
    by (simp only: foldl_Cons step(1))
  have L: "n + 1 + length is0 = n + length (i # is0)" by simp
  show ?case unfolding K F by (rule exI [of _ fnd'], rule conjI [OF IH(1) conjI [OF IH(2) trans [OF IH(3) L]]])
qed

section \<open>The positions a flag names\<close>

lemma digit_key_int_str [simp]: "digit_key (int_str i)"
proof -
  have d: "\<exists>k<10. c = digit_char k" if "c \<in> set (nat_str n)" for c n using nat_str_digits that .
  have m: "c \<noteq> CHR ''-''" if c: "c \<in> set (nat_str n)" for c n
  proof -
    obtain k where k: "k < 10" "c = digit_char k" using d [OF c] by blast
    have "(of_char c :: nat) \<noteq> 45" using k by (simp add: digit_char_ge)
    then show ?thesis by auto
  qed
  have w: "dropWhile (\<lambda>c. c = CHR ''-'') (nat_str n) = nat_str n" for n
    using m [of _ n] by (cases "nat_str n") auto
  have v: "digit_val c \<noteq> None" if c: "c \<in> set (nat_str n)" for c n using d [OF c] by auto
  have "dropWhile (\<lambda>c. c = CHR ''-'') (int_str i) = nat_str (nat \<bar>i\<bar>)" by (simp add: int_str_def w)
  then show ?thesis using v unfolding digit_key_def by (simp add: list_all_iff)
qed

text \<open>The record of position \<open>i\<close> in a table.\<close>

definition record_at :: "jobj \<Rightarrow> int \<Rightarrow> jobj option" where
  "record_at t i = (case jget t (int_str i) of JObj r \<Rightarrow> Some r | _ \<Rightarrow> None)"

definition flagged :: "(jobj \<Rightarrow> bool) \<Rightarrow> jobj \<Rightarrow> int \<Rightarrow> bool" where
  "flagged p t i = (case record_at t i of Some r \<Rightarrow> p r | None \<Rightarrow> False)"

lemma indices_where_canonical:
  assumes "canonical_table t"
  shows "\<exists>is0. indices_where p t = Inr is0 \<and> distinct is0 \<and> (\<forall>i. i \<in> set is0 \<longleftrightarrow> flagged p t i)"
  using assms
proof (induction t)
  case Nil
  then show ?case by (simp add: flagged_def record_at_def)
next
  case (Cons kr t)
  obtain k v where kr: "kr = (k, v)" by (cases kr)
  obtain i where i: "k = int_str i" "dget t (int_str i) = None" "canonical_table t" using canonical_Cons Cons.prems unfolding kr by blast
  obtain is0 where is0: "indices_where p t = Inr is0" "distinct is0" "\<forall>j. j \<in> set is0 \<longleftrightarrow> flagged p t j" using Cons.IH i(3) by blast
  have ni: "i \<notin> set is0" using is0(3) i(2) by (simp add: flagged_def record_at_def jget_eq)
  have fl: "flagged p (kr # t) j = (if j = i then (case v of JObj r \<Rightarrow> p r | _ \<Rightarrow> False) else flagged p t j)" for j
    by (simp add: flagged_def record_at_def kr i(1) split: json.split)
  show ?case
  proof (cases "case v of JObj r \<Rightarrow> p r | _ \<Rightarrow> False")
    case True
    then have "indices_where p (kr # t) = Inr (i # is0)" using is0(1) by (cases v) (simp_all add: kr i(1))
    then show ?thesis using True is0 ni by (auto simp: fl)
  next
    case False
    then have "indices_where p (kr # t) = Inr is0" using is0(1) by (cases v) (simp_all add: kr i(1))
    then show ?thesis using False is0 ni by (auto simp: fl)
  qed
qed

section \<open>The settled chat\<close>

text \<open>What becomes of the exchange at \<open>k\<close> and of its record: a locked one with a target is baked.\<close>

definition settled_entry :: "(json \<Rightarrow> string) \<Rightarrow> string \<Rightarrow> jobj \<Rightarrow> json list \<Rightarrow> nat \<Rightarrow> json" where
  "settled_entry rp now0 exch ys k =
     (if flagged is_locked exch (int k) then baked_entry rp now0 (the (record_at exch (int k))) (ys ! k) else ys ! k)"

definition settled_record :: "(json \<Rightarrow> string) \<Rightarrow> jobj \<Rightarrow> int \<Rightarrow> jobj option" where
  "settled_record rp exch i =
     (if flagged is_locked exch i then map_option (baked_record rp) (record_at exch i) else record_at exch i)"

lemma load_parsed:
  assumes "plain_name x" "dget (main_dir sc) (sidecar_path_for x) = Some (Parsed (JObj d))" "is_obj (jget d ''exchanges'')"
  shows "exchanges_of (load sc x) = obj_of (jget d ''exchanges'')" "obj_of (jget (load sc x) ''anchors'') = obj_of (jget d ''anchors'')"
  using assms by (simp_all add: load_def plain_sidecar(1) read_doc_def fix_doc_def exchanges_of_def jget_eq)

lemma chat_is_start:
  assumes "plain_name x" "dget (main_dir sc) x = Some (Parsed (JObj t))" "jget t ''exchanges'' = JList ys"
    and "dget (main_dir sc) (sidecar_path_for x) = Some (Parsed (JObj d))" "jget d ''exchanges'' = JObj exch"
    and "canonical_table exch" "canonical_table (obj_of (jget d ''anchors''))"
  shows "chat_is x ys (record_at exch) sc"
  using assms load_parsed [OF assms(1,4)] by (simp add: chat_is_def found_def record_at_def)

lemma record_at_Some: "record_at t i = Some r \<longleftrightarrow> jget t (int_str i) = JObj r"
  by (simp add: record_at_def split: json.split)

lemma sorted_rev_sort: "distinct xs \<Longrightarrow> sorted_wrt (>) (rev (sort (xs :: int list)))"
  by (simp add: sorted_wrt_rev strict_sorted_iff)

lemma flagged_record: "flagged p t i \<Longrightarrow> \<exists>r. record_at t i = Some r \<and> jget t (int_str i) = JObj r"
  by (auto simp: flagged_def record_at_Some split: option.splits)

lemma bake_chat:
  assumes "plain_name x" "chat_is x ys (record_at exch) (rh_sidecar s)" "list_all is_obj ys" "distinct is0"
    and "\<forall>i. i \<in> set is0 \<longleftrightarrow> flagged is_locked exch i" "\<forall>i. flagged is_locked exch i \<longrightarrow> 0 \<le> i \<and> i < int (length ys)"
  shows "\<exists>n s'. py_fold (bake_locked all_ok rp now0 x exch) (0, s) (sort is0) = Inr (n, s')
    \<and> chat_is x (List.map (settled_entry rp now0 exch ys) [0..<length ys]) (settled_record rp exch) (rh_sidecar s')"
proof -
  have q: "\<forall>i \<in> set (sort is0). 0 \<le> i \<and> nat i < length ys \<and> (\<exists>r. record_at exch i = Some r \<and> jget exch (int_str i) = JObj r)"
  proof
    fix i assume "i \<in> set (sort is0)"
    then have "flagged is_locked exch i" using assms(5) by simp
    then show "0 \<le> i \<and> nat i < length ys \<and> (\<exists>r. record_at exch i = Some r \<and> jget exch (int_str i) = JObj r)"
      using assms(6) flagged_record by fastforce
  qed
  have "distinct (sort is0)" using assms(4) by simp
  from bake_all [OF assms(1,2) this assms(3) q, of rp now0 0] obtain n s' where
    b: "py_fold (bake_locked all_ok rp now0 x exch) (0, s) (sort is0) = Inr (n, s')"
    and c: "chat_is x (List.map (\<lambda>k. if int k \<in> set (sort is0) then baked_entry rp now0 (the (record_at exch (int k))) (ys ! k) else ys ! k) [0..<length ys])
         (\<lambda>j. if j \<in> set (sort is0) then map_option (baked_record rp) (record_at exch j) else record_at exch j) (rh_sidecar s')"
    by blast
  have e: "(\<lambda>k. if int k \<in> set (sort is0) then baked_entry rp now0 (the (record_at exch (int k))) (ys ! k) else ys ! k) = settled_entry rp now0 exch ys"
    by (rule ext) (simp add: settled_entry_def assms(5))
  have r: "(\<lambda>j. if j \<in> set (sort is0) then map_option (baked_record rp) (record_at exch j) else record_at exch j) = settled_record rp exch"
    by (rule ext) (simp add: settled_record_def assms(5))
  show ?thesis using b c [unfolded e r] by blast
qed

lemma settled_record_None: "settled_record rp exch i = None \<longleftrightarrow> record_at exch i = None"
  by (simp add: settled_record_def)

lemma settle_aligned:
  assumes "plain_name x" "chat_is x ys (record_at exch) (rh_sidecar s)" "list_all is_obj ys" "canonical_table exch"
    and "\<forall>i. flagged is_locked exch i \<or> flagged is_deletable exch i \<longrightarrow> 0 \<le> i \<and> i < int (length ys)"
    and "dget (main_dir (rh_sidecar s)) (sidecar_path_for x) = Some (Parsed (JObj d))" "jget d ''exchanges'' = JObj exch" "active \<noteq> Some x"
  shows "\<exists>s' fnd'. settle_chat all_ok ck rp now0 active None s x = Inr s'
    \<and> chat_is x (List.map (settled_entry rp now0 exch ys) (kept_positions (flagged is_deletable exch) (length ys))) fnd' (rh_sidecar s')
    \<and> (\<forall>j < length (kept_positions (flagged is_deletable exch) (length ys)).
          fnd' (int j) = settled_record rp exch (int (kept_positions (flagged is_deletable exch) (length ys) ! j)))"
proof -
  obtain locked where l: "indices_where is_locked exch = Inr locked" "distinct locked" "\<forall>i. i \<in> set locked \<longleftrightarrow> flagged is_locked exch i"
    using indices_where_canonical [OF assms(4)] by blast
  obtain banned where b: "indices_where is_deletable exch = Inr banned" "distinct banned" "\<forall>i. i \<in> set banned \<longleftrightarrow> flagged is_deletable exch i"
    using indices_where_canonical [OF assms(4)] by blast
  define s0 where "s0 = s\<lparr>rh_kept := rh_kept s + length (filter (\<lambda>(k, v). case v of
      JObj r \<Rightarrow> truthy (jget r ''banned'') \<and> truthy (jget r ''history_only'') | _ \<Rightarrow> False) exch)\<rparr>"
  let ?f = "settled_entry rp now0 exch ys"
  let ?K = "kept_positions (flagged is_deletable exch) (length ys)"
  have c0: "chat_is x ys (record_at exch) (rh_sidecar s0)" using assms(2) by (simp add: s0_def)
  obtain n s1 where bake: "py_fold (bake_locked all_ok rp now0 x exch) (0, s0) (sort locked) = Inr (n, s1)"
    "chat_is x (List.map ?f [0..<length ys]) (settled_record rp exch) (rh_sidecar s1)"
    using bake_chat [OF assms(1) c0 assms(3) l(2,3), of rp now0] assms(5) by blast
  let ?is = "rev (sort banned)"
  have p: "\<forall>i \<in> set ?is. 0 \<le> i \<and> i < int (length ys) \<and> settled_record rp exch i \<noteq> None"
  proof
    fix i assume "i \<in> set ?is"
    then have "flagged is_deletable exch i" using b(3) by simp
    then show "0 \<le> i \<and> i < int (length ys) \<and> settled_record rp exch i \<noteq> None"
      using assms(5) flagged_record by (fastforce simp: settled_record_None)
  qed
  define res where "res = foldl (delete_banned all_ok ck now0 x) (0, s1) ?is"
  have "(\<lambda>i. i \<in> set ?is) = flagged is_deletable exch" by (rule ext) (simp add: b(3))
  then obtain fnd' where del: "chat_is x (List.map ?f ?K) fnd' (rh_sidecar (snd res))"
    "\<forall>j < length ?K. fnd' (int j) = settled_record rp exch (int (?K ! j))"
    using delete_all [OF assms(1) sorted_rev_sort [OF b(2)] p bake(2), of ck now0 0] by (auto simp: res_def)
  obtain g s2 where r: "res = (g, s2)" by (cases res)
  have settle: "\<exists>s'. settle_chat all_ok ck rp now0 active None s x = Inr s' \<and> rh_sidecar s' = rh_sidecar s2"
  proof (cases "locked = [] \<and> banned = []")
    case True
    then have "s2 = s0" using bake(1) r by (simp add: res_def)
    then show ?thesis using True by (simp add: settle_chat_def assms(6,7) l(1) b(1) s0_def)
  next
    case False
    then show ?thesis
      using bake(1) r assms(8) by (auto simp: settle_chat_def assms(6,7) l(1) b(1) Let_def s0_def [symmetric] res_def)
  qed
  then show ?thesis using del r by auto
qed

text \<open>C7: when the operator settles a chat and every write succeeds, transcript and sidecar stay in step:
  the surviving exchanges keep their order, the locked ones among them carry their reviewed target, and the
  record the sidecar holds at each new position is the record of the exchange now there, unlocked if it
  was baked. The table has one key per index, and its flags name exchanges of the transcript.\<close>

theorem settled_chat_stays_aligned:
  assumes "plain_name x" "active \<noteq> Some x"
    and "dget (main_dir (rh_sidecar s)) x = Some (Parsed (JObj t))" "jget t ''exchanges'' = JList ys" "list_all is_obj ys"
    and "dget (main_dir (rh_sidecar s)) (sidecar_path_for x) = Some (Parsed (JObj d))" "jget d ''exchanges'' = JObj exch"
    and "canonical_table exch" "canonical_table (obj_of (jget d ''anchors''))"
    and "\<forall>i. flagged is_locked exch i \<or> flagged is_deletable exch i \<longrightarrow> 0 \<le> i \<and> i < int (length ys)"
    and "ks = kept_positions (flagged is_deletable exch) (length ys)"
  shows "\<exists>s' t'. settle_chat all_ok ck rp now0 active None s x = Inr s'
    \<and> dget (main_dir (rh_sidecar s')) x = Some (Parsed (JObj t'))
    \<and> jget t' ''exchanges'' = JList (List.map (settled_entry rp now0 exch ys) ks)
    \<and> (\<forall>j < length ks. get_exchange (rh_sidecar s') x (int j) = settled_record rp exch (int (ks ! j)))"
proof -
  have "chat_is x ys (record_at exch) (rh_sidecar s)" by (rule chat_is_start [OF assms(1,3,4,6,7,8,9)])
  from settle_aligned [OF assms(1) this assms(5,8,10,6,7,2), of ck rp now0] show ?thesis
    unfolding assms(11) chat_is_def get_exchange_def found_def by auto
qed

definition sample_table :: jobj where
  "sample_table = [(int_str 0, JObj [(''banned'', JBool True)]), (int_str 1, JObj [(''locked'', JBool True), (''target'', JStr ''new'')])]"

definition sample_chat :: rewrite_state where
  "sample_chat = \<lparr>rh_sidecar = \<lparr>main_dir =
        [(''a.json'', Parsed (JObj [(''exchanges'', JList [JObj [(''assistant_response'', JStr ''x'')], JObj [(''assistant_response'', JStr ''y'')]])])),
         (sidecar_path_for ''a.json'', Parsed (JObj [(''exchanges'', JObj sample_table)]))],
       fallback_dir = None, ledger_events = []\<rparr>,
     rh_ledger = None, rh_reflection = no_files, rh_rewritten = 0, rh_deleted = 0, rh_kept = 0, rh_chats = [], rh_skipped = [], rh_errors = []\<rparr>"

lemma sample_flagged: "flagged p sample_table i \<longleftrightarrow>
    i = 0 \<and> p [(''banned'', JBool True)] \<or> i = 1 \<and> p [(''locked'', JBool True), (''target'', JStr ''new'')]"
  by (auto simp: flagged_def record_at_def sample_table_def)

theorem settled_chat_stays_aligned_witness:
  "\<exists>s' t' e. settle_chat all_ok (\<lambda>_. ''k'') (\<lambda>_. []) ''n'' None None sample_chat ''a.json'' = Inr s'
    \<and> dget (main_dir (rh_sidecar s')) ''a.json'' = Some (Parsed (JObj t')) \<and> jget t' ''exchanges'' = JList [JObj e]
    \<and> jget e ''assistant_response'' = JStr ''new''
    \<and> get_exchange (rh_sidecar s') ''a.json'' 0 = Some [(''locked'', JBool False), (''target'', JStr ''new'')]"
proof -
  let ?ys = "[JObj [(''assistant_response'', JStr ''x'')], JObj [(''assistant_response'', JStr ''y'')]]"
  have p: "plain_name ''a.json''" by code_simp
  have ne: "sidecar_path_for ''a.json'' \<noteq> ''a.json''" by (rule plain_sidecar [OF p])
  have m: "dget (main_dir (rh_sidecar sample_chat)) ''a.json'' = Some (Parsed (JObj [(''exchanges'', JList ?ys)]))"
    "dget (main_dir (rh_sidecar sample_chat)) (sidecar_path_for ''a.json'') = Some (Parsed (JObj [(''exchanges'', JObj sample_table)]))"
    using ne by (simp_all add: sample_chat_def)
  have k: "[1] = kept_positions (flagged is_deletable sample_table) (length ?ys)"
    by (simp add: kept_positions_def sample_flagged is_deletable_def upt_rec)
  have c: "canonical_table sample_table" by (simp add: canonical_table_def sample_table_def)
  have b: "\<forall>i. flagged is_locked sample_table i \<or> flagged is_deletable sample_table i \<longrightarrow> 0 \<le> i \<and> i < int (length ?ys)"
    by (auto simp: sample_flagged)
  from settled_chat_stays_aligned [OF p _ m(1) _ _ m(2) _ c _ b k, of None "\<lambda>_. ''k''" "\<lambda>_. []" "''n''"]
  obtain s' t' where s': "settle_chat all_ok (\<lambda>_. ''k'') (\<lambda>_. []) ''n'' None None sample_chat ''a.json'' = Inr s'"
    "dget (main_dir (rh_sidecar s')) ''a.json'' = Some (Parsed (JObj t'))"
    "jget t' ''exchanges'' = JList (List.map (settled_entry (\<lambda>_. []) ''n'' sample_table ?ys) [1])"
    "get_exchange (rh_sidecar s') ''a.json'' 0 = settled_record (\<lambda>_. []) sample_table 1"
    by (auto simp: canonical_table_def)
  have r1: "record_at sample_table 1 = Some [(''locked'', JBool True), (''target'', JStr ''new'')]"
    by (simp add: record_at_def sample_table_def)
  have t1: "target_of (\<lambda>_. []) [(''locked'', JBool True), (''target'', JStr ''new'')] = ''new''" by code_simp
  have pc: "snd (parse_cot ''new'') = ''new''" by code_simp
  have "flagged is_locked sample_table 1" by (simp add: sample_flagged is_locked_def)
  then have "\<exists>e. settled_entry (\<lambda>_. []) ''n'' sample_table ?ys 1 = JObj e \<and> jget e ''assistant_response'' = JStr ''new''"
    "settled_record (\<lambda>_. []) sample_table 1 = Some [(''locked'', JBool False), (''target'', JStr ''new'')]"
    by (simp_all add: settled_entry_def settled_record_def r1 baked_entry_def baked_record_def t1 rewritten_entry_def Let_def pc)
  then show ?thesis using s' by auto
qed

section \<open>Where the hosts of facts end up\<close>









text \<open>A retired fact hosted on exchange 2 of a chat.\<close>

definition sample_host :: "int \<Rightarrow> json" where
  "sample_host i = JObj [(''source_session'', JStr ''a.json''), (''exchange_index'', JInt i)]"

definition sample_facts :: logfile where
  "sample_facts = snd (supersede ''t2'' ''old'' [''k'']
     (snd (register_fact (\<lambda>_. ''k'') ''t1'' ''c'' (JStr ''fact'') JNull (JStr ''b.json'') JNull (JInt 5) (sample_host 2) JNull None)))"



text \<open>A retired fact is live again once an exchange before its host is deleted.\<close>

lemma renumbering_revives_a_retired_fact:
  "case (fold_ledger sample_facts, fold_ledger (snd (renumber_fact_hosts (\<lambda>_. ''k'') ''t'' ''a.json'' 0 sample_facts))) of
     (Inr [(k, r)], Inr [(k', r')]) \<Rightarrow> k = k' \<and> truthy (jget r ''superseded'') \<and> \<not> truthy (jget r' ''superseded'')
   | _ \<Rightarrow> False"
  by code_simp

end
