(* ===== verification/Governor.thy ===== *)
theory Governor
  imports Dialogue_Source Build_Row "HOL-Library.Product_Lexorder"
begin

text \<open>
  The habit governor (\<open>core/governor.py\<close>): the dose-weighted share of a habit in what a build trains, the plan
  that holds flagged rows until every governed habit is at its setpoint, and the step inside a build that
  writes the holds beside the exchanges and releases old ones. The detectors that flag a target, the base's
  rates and SHA-256 are arguments; a float is an exact rational.
\<close>

section \<open>The share of a habit\<close>

record gov_row =
  gr_session :: string
  gr_exchange :: int
  gr_ts :: string
  gr_dose :: rat
  gr_flags :: "(string, bool) dict"

record share_result =
  sh_weighted :: "rat option"
  sh_unweighted :: "rat option"
  sh_n :: nat
  sh_dose :: rat

definition counted :: "gov_row list \<Rightarrow> string \<Rightarrow> nat list \<Rightarrow> gov_row list" where
  "counted rows h held = List.map snd (filter (\<lambda>(i, r). dget (gr_flags r) h \<noteq> None \<and> i \<notin> set held) (enumerate 0 rows))"

definition is_flagged :: "string \<Rightarrow> gov_row \<Rightarrow> bool" where
  "is_flagged h r = (dget (gr_flags r) h = Some True)"

definition train_share :: "gov_row list \<Rightarrow> string \<Rightarrow> nat list \<Rightarrow> share_result" where
  "train_share rows h held =
     (let c = counted rows h held; w = sum_list (List.map gr_dose c);
          f = sum_list (List.map (\<lambda>r. if is_flagged h r then gr_dose r else 0) c);
          k = length (filter (is_flagged h) c)
      in \<lparr>sh_weighted = (if w = 0 then None else Some (f / w)),
          sh_unweighted = (if c = [] then None else Some (of_nat k / of_nat (length c))), sh_n = length c, sh_dose = w\<rparr>)"

abbreviation share_of :: "gov_row list \<Rightarrow> string \<Rightarrow> nat list \<Rightarrow> rat option" where
  "share_of rows h held \<equiv> sh_weighted (train_share rows h held)"

definition or_zero :: "rat option \<Rightarrow> rat" where
  "or_zero x = (case x of None \<Rightarrow> 0 | Some v \<Rightarrow> v)"

section \<open>The plan\<close>

definition row_time :: "gov_row list \<Rightarrow> nat \<Rightarrow> string \<times> int" where
  "row_time rows i = (gr_ts (rows ! i), gr_exchange (rows ! i))"

text \<open>\<open>sorted(\<dots>, reverse=True)\<close> keeps the order of equal elements.\<close>

definition newest_rows :: "gov_row list \<Rightarrow> nat list" where
  "newest_rows rows = rev (sort_key (row_time rows) (rev [0..<length rows]))"

fun hold_until :: "gov_row list \<Rightarrow> string \<Rightarrow> rat \<Rightarrow> nat list \<Rightarrow> nat list \<Rightarrow> nat list" where
  "hold_until rows h s held [] = held"
| "hold_until rows h s held (i # is) =
     (case share_of rows h held of
        None \<Rightarrow> held
      | Some cur \<Rightarrow>
          if cur \<le> s then held
          else if i \<in> set held \<or> \<not> is_flagged h (rows ! i) then hold_until rows h s held is
          else hold_until rows h s (held @ [i]) is)"

record habit_plan =
  hp_setpoint :: rat
  hp_base :: rat
  hp_before :: "rat option"
  hp_held :: nat
  hp_after_own :: "rat option"

record gov_plan =
  gp_k :: rat
  gp_habits :: "(string, habit_plan) dict"
  gp_held_ids :: "nat list"
  gp_held_dose :: rat
  gp_total_dose :: rat
  gp_rows :: nat
  gp_pruned :: nat
  gp_after :: "(string, rat option) dict"

text \<open>The first pass: habits in order, each seeing the holds before it.\<close>

fun greedy_holds ::
  "gov_row list \<Rightarrow> (string, rat option) dict \<Rightarrow> rat \<Rightarrow> string list \<Rightarrow> nat list \<Rightarrow> (string, habit_plan) dict
   \<Rightarrow> nat list \<times> (string, habit_plan) dict" where
  "greedy_holds rows r_base k [] held hs = (held, hs)"
| "greedy_holds rows r_base k (h # order) held hs =
     (case dget_or r_base h None of
        None \<Rightarrow> greedy_holds rows r_base k order held hs
      | Some rb \<Rightarrow>
          let s = min 1 (k * rb) in
          greedy_holds rows r_base k order (hold_until rows h s held (newest_rows rows))
            (dset h \<lparr>hp_setpoint = s, hp_base = rb, hp_before = share_of rows h held, hp_held = 0, hp_after_own = None\<rparr> hs))"

text \<open>The second pass: oldest first, a hold no habit needs is released.\<close>

definition needless :: "gov_row list \<Rightarrow> (string, rat) dict \<Rightarrow> nat list \<Rightarrow> nat \<Rightarrow> bool" where
  "needless rows bound held i = list_all (\<lambda>(h, b). or_zero (share_of rows h (filter (\<lambda>j. j \<noteq> i) held)) \<le> b + 1 / 10 ^ 12) bound"

definition prune_step :: "gov_row list \<Rightarrow> (string, rat) dict \<Rightarrow> nat list \<times> nat \<Rightarrow> nat \<Rightarrow> nat list \<times> nat" where
  "prune_step rows bound acc i =
     (case acc of (held, pruned) \<Rightarrow>
        if needless rows bound held i then (filter (\<lambda>j. j \<noteq> i) held, pruned + 1) else (held, pruned))"

definition all_habits :: "string list" where
  "all_habits = [''stock'', ''frame'', ''motive'', ''tone'']"

text \<open>Holds of the same second are released in the order of their rows.\<close>

definition plan :: "gov_row list \<Rightarrow> (string, rat option) dict \<Rightarrow> rat \<Rightarrow> string list \<Rightarrow> gov_plan" where
  "plan rows r_base k order =
     (case greedy_holds rows r_base k order [] [] of (held0, hs) \<Rightarrow>
        let bound = List.map (\<lambda>(h, p). (h, max (hp_setpoint p) (or_zero (share_of rows h held0)))) hs in
        case foldl (prune_step rows bound) (held0, 0) (sort_key (row_time rows) (sort held0)) of (held, pruned) \<Rightarrow>
          \<lparr>gp_k = k,
           gp_habits = List.map (\<lambda>(h, p). (h, p\<lparr>hp_held := length (filter (\<lambda>i. is_flagged h (rows ! i)) held),
                                               hp_after_own := share_of rows h held\<rparr>)) hs,
           gp_held_ids = sort held, gp_held_dose = sum_list (List.map (\<lambda>i. gr_dose (rows ! i)) held),
           gp_total_dose = sum_list (List.map gr_dose rows), gp_rows = length rows, gp_pruned = pruned,
           gp_after = List.map (\<lambda>h. (h, share_of rows h held)) all_habits\<rparr>)"

section \<open>Releasing old holds\<close>

record standing_hold =
  st_session :: string
  st_exchange :: int
  st_ts :: string
  st_habit :: json

text \<open>One habit: flagged dose \<open>f\<close> of all the dose \<open>w\<close>; each release counts at the mean dose of a row.\<close>

fun release_while :: "rat \<Rightarrow> rat \<Rightarrow> rat \<Rightarrow> rat \<Rightarrow> standing_hold list \<Rightarrow> standing_hold list" where
  "release_while line m f w [] = []"
| "release_while line m f w (x # xs) =
     (if w \<le> 0 \<or> line \<le> (f + m) / (w + m) then [] else x # release_while line m (f + m) (w + m) xs)"

definition mean_dose :: "gov_row list \<Rightarrow> rat" where
  "mean_dose rows = (if rows = [] then 1 else sum_list (List.map gr_dose rows) / of_nat (length rows))"

definition release_plan ::
  "standing_hold list \<Rightarrow> gov_row list \<Rightarrow> (string, rat option) dict \<Rightarrow> rat \<Rightarrow> rat \<Rightarrow> string list \<Rightarrow> standing_hold list" where
  "release_plan held rows r_base k band habits =
     concat (List.map (\<lambda>h. case dget_or r_base h None of
         None \<Rightarrow> []
       | Some rb \<Rightarrow>
           release_while (min 1 (k * rb) - band) (mean_dose rows)
             (sum_list (List.map gr_dose (filter (is_flagged h) rows)))
             (sum_list (List.map gr_dose (filter (\<lambda>r. dget (gr_flags r) h \<noteq> None) rows)))
             (sort_key (\<lambda>x. (st_ts x, st_exchange x)) (filter (\<lambda>x. st_habit x = JStr h) held))) habits)"

section \<open>Settings\<close>

record gov_settings =
  gs_enabled :: bool
  gs_k :: rat
  gs_band :: rat
  gs_habits :: "string list"

definition build_defaults :: gov_settings where
  "build_defaults = \<lparr>gs_enabled = True, gs_k = 3 / 2, gs_band = 1 / 50, gs_habits = [''motive'', ''stock'']\<rparr>"

definition habit_names :: "json list \<Rightarrow> string list" where
  "habit_names js = concat (List.map (\<lambda>j. case j of JStr h \<Rightarrow> if h \<in> set all_habits then [h] else [] | _ \<Rightarrow> []) js)"

definition weight_or :: "(string \<Rightarrow> rat py) \<Rightarrow> jobj \<Rightarrow> string \<Rightarrow> rat \<Rightarrow> rat" where
  "weight_or fs raw k d = (case py_float fs (jget_or raw k (JFloat d)) of Inr x \<Rightarrow> max 0 x | Inl _ \<Rightarrow> d)"

definition build_settings :: "(string \<Rightarrow> rat py) \<Rightarrow> json \<Rightarrow> gov_settings py" where
  "build_settings fs cfg =
     py_bind (as_dict (py_or cfg (JObj []))) (\<lambda>c.
     py_bind (as_dict (py_or (jget c ''governor'') (JObj []))) (\<lambda>blk.
     py_bind (case dget blk ''habits'' of
         None \<Rightarrow> Inr (List.map JStr (gs_habits build_defaults))
       | Some (JStr t) \<Rightarrow> Inr (List.map (\<lambda>x. JStr (py_strip x)) (split_on CHR '','' t))
       | Some v \<Rightarrow> json_list_items (py_or v (JList []))) (\<lambda>hs.
       Inr \<lparr>gs_enabled = truthy (jget_or blk ''enabled'' (JBool True)), gs_k = weight_or fs blk ''k'' (3 / 2),
            gs_band = weight_or fs blk ''band'' (1 / 50), gs_habits = habit_names hs\<rparr>)))"

section \<open>The build step\<close>

definition stem_ts :: "string \<Rightarrow> string" where
  "stem_ts s = (if 15 \<le> length s \<and> list_all (\<lambda>c. digit_val c \<noteq> None) (take 8 s) \<and> s ! 8 = CHR ''_''
       \<and> list_all (\<lambda>c. digit_val c \<noteq> None) (take 6 (drop 9 s)) then take 15 s else [])"

text \<open>Who speaks in a chat, for the detector of motives; a transcript that cannot be read has nobody.\<close>

definition person_of :: "(json \<Rightarrow> string) \<Rightarrow> json \<Rightarrow> string list" where
  "person_of rp e = (case e of
      JObj d \<Rightarrow> let sp = fstr rp (py_or (jget d ''speaker'') (JStr [])) in
                if sp = [] \<or> hd sp = CHR ''('' then [] else [sp]
    | _ \<Rightarrow> [])"

definition names_of :: "(json \<Rightarrow> string) \<Rightarrow> chats_dir \<Rightarrow> string \<Rightarrow> string list py" where
  "names_of rp chats session =
     (case dget chats session of
        Some (Parsed j) \<Rightarrow>
          py_bind (as_dict j) (\<lambda>d.
          py_bind (json_list_items (py_or (jget d ''exchanges'') (JList []))) (\<lambda>es.
            Inr (sort (remdups (concat (List.map (person_of rp) es))) @ [fstr rp (py_or (jget d ''user'') (JStr []))])))
      | _ \<Rightarrow> Inr [[]])"

definition row_key :: "gov_row \<Rightarrow> string \<times> int" where
  "row_key e = (gr_session e, gr_exchange e)"

text \<open>Every row of an exchange adds its dose; the flags read the target of the first.\<close>

definition exchange_step ::
  "(string \<Rightarrow> string list \<Rightarrow> (string, bool) dict) \<Rightarrow> (string \<Rightarrow> string list py) \<Rightarrow> gov_row list \<Rightarrow> build_row \<Rightarrow> gov_row list py" where
  "exchange_step tf names acc r =
     (case row_index r of
        None \<Rightarrow> Inr acc
      | Some i \<Rightarrow>
          if row_source r \<noteq> ''chat'' then Inr acc
          else if (row_session r, i) \<in> set (List.map row_key acc)
          then Inr (List.map (\<lambda>e. if row_key e = (row_session r, i) then e\<lparr>gr_dose := gr_dose e + lr_multiplier r\<rparr> else e) acc)
          else py_bind (names (row_session r)) (\<lambda>ns.
            Inr (acc @ [\<lparr>gr_session = row_session r, gr_exchange = i, gr_ts = stem_ts (row_session r),
                         gr_dose = lr_multiplier r, gr_flags = tf (row_target r) ns\<rparr>])))"

definition exchange_rows ::
  "(string \<Rightarrow> string list \<Rightarrow> (string, bool) dict) \<Rightarrow> (string \<Rightarrow> string list py) \<Rightarrow> build_row list \<Rightarrow> gov_row list py" where
  "exchange_rows tf names rows = py_fold (exchange_step tf names) [] rows"

definition record_of :: "sidecar \<Rightarrow> gov_row \<Rightarrow> jobj py" where
  "record_of s e = as_dict (py_or (jget (exchanges_of (load s (gr_session e))) (int_str (gr_exchange e))) (JObj []))"

text \<open>A locked record is the operator's: counted, never flagged.\<close>

definition unflag_locked :: "sidecar \<Rightarrow> gov_row list \<Rightarrow> gov_row \<Rightarrow> gov_row list py" where
  "unflag_locked s acc e =
     py_bind (record_of s e) (\<lambda>r.
       Inr (acc @ [if truthy (jget r ''locked'') then e\<lparr>gr_flags := List.map (\<lambda>(h, b). (h, False)) (gr_flags e)\<rparr> else e]))"

definition habit_of :: "string list \<Rightarrow> gov_row \<Rightarrow> string" where
  "habit_of habits e = (case filter (\<lambda>h. is_flagged h e) habits of [] \<Rightarrow> hd habits | h # _ \<Rightarrow> h)"

definition hold_field ::
  "(string \<Rightarrow> string) \<Rightarrow> (json \<Rightarrow> string) \<Rightarrow> string \<Rightarrow> string \<Rightarrow> gov_settings \<Rightarrow> (string, rat option) dict \<Rightarrow> gov_plan \<Rightarrow> string \<Rightarrow> jobj \<Rightarrow> jobj" where
  "hold_field sha rp now0 build st r_base p h r =
     [(''habit'', JStr h), (''k'', JFloat (gs_k st)), (''r_base'', opt_json JFloat (dget_or r_base h None)),
      (''share'', opt_json JFloat (case dget (gp_habits p) h of None \<Rightarrow> None | Some d \<Rightarrow> hp_before d)),
      (''build'', JStr build), (''at'', JStr now0), (''target_sha'', JStr (sha (fstr rp (py_or (jget r ''target'') (JStr [])))))]"

text \<open>An exception leaves the holds already written.\<close>

fun write_holds ::
  "(gov_row \<Rightarrow> bool) \<Rightarrow> (gov_row \<Rightarrow> jobj \<Rightarrow> jobj) \<Rightarrow> bool \<Rightarrow> sidecar \<Rightarrow> nat \<Rightarrow> gov_row list \<Rightarrow> sidecar \<times> nat py" where
  "write_holds ok mk write s n [] = (s, Inr n)"
| "write_holds ok mk write s n (e # es) =
     (case record_of s e of
        Inl x \<Rightarrow> (s, Inl x)
      | Inr r \<Rightarrow>
          if \<not> write then write_holds ok mk write s n es
          else case set_record_field (ok e) (gr_session e) (gr_exchange e) ''governor'' (Some (mk e r)) s of
              (b, s') \<Rightarrow> write_holds ok mk write s' (if b then n + 1 else n) es)"

definition standing_of ::
  "(string \<Rightarrow> string) \<Rightarrow> (json \<Rightarrow> string) \<Rightarrow> (string \<times> int) list \<Rightarrow> string \<Rightarrow> standing_hold list \<Rightarrow> string \<times> json \<Rightarrow> standing_hold list py" where
  "standing_of sha rp held session acc kv =
     (case kv of
        (k, JObj r) \<Rightarrow>
          if \<not> governor_held sha rp r then Inr acc
          else (case str_int k of
              None \<Rightarrow> Inl ValueError
            | Some i \<Rightarrow>
                if (session, i) \<in> set held then Inr acc
                else Inr (acc @ [\<lparr>st_session = session, st_exchange = i, st_ts = stem_ts session,
                                  st_habit = jget (obj_of (jget r ''governor'')) ''habit''\<rparr>]))
      | _ \<Rightarrow> Inr acc)"

definition standing_in ::
  "(string \<Rightarrow> string) \<Rightarrow> (json \<Rightarrow> string) \<Rightarrow> (string \<times> int) list \<Rightarrow> chats_dir \<Rightarrow> standing_hold list \<Rightarrow> string \<Rightarrow> standing_hold list py" where
  "standing_in sha rp held d acc f =
     (case dget d f of
        Some (Parsed j) \<Rightarrow>
          py_bind (as_dict j) (\<lambda>data.
          py_bind (as_dict (py_or (jget data ''exchanges'') (JObj []))) (\<lambda>exs.
            py_fold (standing_of sha rp held (session_name_from_sidecar f)) acc exs))
      | _ \<Rightarrow> Inr acc)"

definition rows_left :: "(string \<times> int) list \<Rightarrow> build_row list \<Rightarrow> build_row \<Rightarrow> build_row list py" where
  "rows_left held acc r =
     (if row_source r \<noteq> ''chat'' then Inr (acc @ [r])
      else case row_index r of
          None \<Rightarrow> Inl TypeError
        | Some i \<Rightarrow> Inr (if (row_session r, i) \<in> set held then acc else acc @ [r]))"

datatype gov_outcome =
    Gov_Disabled
  | Gov_No_Reference
  | Gov_Error exn
  | Gov_Done gov_plan nat "standing_hold list"

definition release_hold :: "(string \<Rightarrow> int \<Rightarrow> bool) \<Rightarrow> sidecar \<Rightarrow> standing_hold \<Rightarrow> sidecar" where
  "release_hold ok s it = snd (set_record_field (ok (st_session it) (st_exchange it)) (st_session it) (st_exchange it) ''governor'' None s)"

definition held_rows :: "gov_plan \<Rightarrow> gov_row list \<Rightarrow> gov_row list" where
  "held_rows p ex = List.map snd (filter (\<lambda>(i, e). i \<in> set (gp_held_ids p)) (enumerate 0 ex))"

definition not_held :: "gov_plan \<Rightarrow> gov_row list \<Rightarrow> gov_row list" where
  "not_held p ex = List.map snd (filter (\<lambda>(i, e). i \<notin> set (gp_held_ids p)) (enumerate 0 ex))"

text \<open>\<open>apply_in_build\<close> past its first guards: the body of its \<open>try\<close>.\<close>

definition govern ::
  "(string \<Rightarrow> int \<Rightarrow> bool) \<Rightarrow> (string \<Rightarrow> string list \<Rightarrow> (string, bool) dict) \<Rightarrow> (string \<Rightarrow> string) \<Rightarrow> (json \<Rightarrow> string) \<Rightarrow> string \<Rightarrow> string
   \<Rightarrow> bool \<Rightarrow> gov_settings \<Rightarrow> (string, rat option) dict \<Rightarrow> build_row list \<Rightarrow> sidecar \<Rightarrow> sidecar \<times> (build_row list \<times> gov_outcome) py" where
  "govern ok tf sha rp now0 build write st r_base rows s =
     (case py_bind (exchange_rows tf (names_of rp (main_dir s)) rows) (\<lambda>ex.
             py_bind (py_fold (unflag_locked s) [] ex) (\<lambda>ex'. Inr (ex, ex'))) of
        Inl x \<Rightarrow> (s, Inl x)
      | Inr (ex, ex') \<Rightarrow>
          let p = plan ex' (List.map (\<lambda>h. (h, dget_or r_base h None)) (gs_habits st)) (gs_k st) (gs_habits st);
              holds = held_rows p ex; keys = List.map row_key holds in
          (case write_holds (\<lambda>e. ok (gr_session e) (gr_exchange e))
                  (\<lambda>e r. hold_field sha rp now0 build st r_base p (habit_of (gs_habits st) e) r) write s 0 holds of
             (s1, Inl x) \<Rightarrow> (s1, Inl x)
           | (s1, Inr written) \<Rightarrow>
               (case py_fold (standing_in sha rp keys (main_dir s1)) [] (state_files (main_dir s1)) of
                  Inl x \<Rightarrow> (s1, Inl x)
                | Inr standing \<Rightarrow>
                    let released = release_plan standing (not_held p ex) r_base (gs_k st) (gs_band st) (gs_habits st);
                        s2 = (if write then foldl (release_hold ok) s1 released else s1) in
                    (s2, py_bind (py_fold (rows_left keys) [] rows) (\<lambda>out. Inr (out, Gov_Done p written released))))))"

definition apply_in_build ::
  "(string \<Rightarrow> int \<Rightarrow> bool) \<Rightarrow> (string \<Rightarrow> string list \<Rightarrow> (string, bool) dict) \<Rightarrow> (string \<Rightarrow> string) \<Rightarrow> (json \<Rightarrow> string) \<Rightarrow> (string \<Rightarrow> rat py)
   \<Rightarrow> string \<Rightarrow> string \<Rightarrow> bool \<Rightarrow> (string, rat option) dict \<Rightarrow> json \<Rightarrow> build_row list \<Rightarrow> sidecar
   \<Rightarrow> sidecar \<times> (build_row list \<times> gov_outcome) py" where
  "apply_in_build ok tf sha rp fs now0 build write r_base cfg rows s =
     (case build_settings fs cfg of
        Inl x \<Rightarrow> (s, Inl x)
      | Inr st \<Rightarrow>
          if \<not> gs_enabled st \<or> gs_habits st = [] then (s, Inr (rows, Gov_Disabled))
          else if r_base = [] then (s, Inr (rows, Gov_No_Reference))
          else (case govern ok tf sha rp now0 build write st r_base rows s of
              (s', Inl x) \<Rightarrow> (s', Inr (rows, Gov_Error x)) | (s', Inr r) \<Rightarrow> (s', Inr r)))"

section \<open>What a hold and a release do to a share\<close>

definition seen :: "gov_row list \<Rightarrow> string \<Rightarrow> nat list \<Rightarrow> nat set" where
  "seen rows h held = {i. i < length rows \<and> dget (gr_flags (rows ! i)) h \<noteq> None \<and> i \<notin> set held}"

lemma finite_seen [simp, intro]: "finite (seen rows h held)"
  by (rule finite_subset [of _ "{..<length rows}"]) (auto simp: seen_def)

lemma counted_sum: "sum_list (List.map g (counted rows h held)) = (\<Sum>i \<in> seen rows h held. (g (rows ! i) :: rat))"
proof -
  let ?P = "\<lambda>i. dget (gr_flags (rows ! i)) h \<noteq> None \<and> i \<notin> set held"
  have e: "enumerate 0 rows = List.map (\<lambda>i. (i, rows ! i)) [0..<length rows]"
    by (rule nth_equalityI) (simp_all add: nth_enumerate_eq)
  have "counted rows h held = List.map (\<lambda>i. rows ! i) (filter ?P [0..<length rows])"
    unfolding counted_def e by (simp add: filter_map comp_def)
  then have "sum_list (List.map g (counted rows h held)) = sum_list (List.map (\<lambda>i. g (rows ! i)) (filter ?P [0..<length rows]))"
    by (simp add: comp_def)
  also have "\<dots> = (\<Sum>i \<in> set (filter ?P [0..<length rows]). g (rows ! i))" by (rule sum_list_distinct_conv_sum_set) simp
  also have "set (filter ?P [0..<length rows]) = seen rows h held" by (auto simp: seen_def)
  finally show ?thesis .
qed

definition all_dose :: "gov_row list \<Rightarrow> string \<Rightarrow> nat list \<Rightarrow> rat" where
  "all_dose rows h held = (\<Sum>i \<in> seen rows h held. gr_dose (rows ! i))"

definition habit_dose :: "gov_row list \<Rightarrow> string \<Rightarrow> nat list \<Rightarrow> rat" where
  "habit_dose rows h held = (\<Sum>i \<in> seen rows h held. if is_flagged h (rows ! i) then gr_dose (rows ! i) else 0)"

lemma share_of_doses: "or_zero (share_of rows h held) = habit_dose rows h held / all_dose rows h held"
  by (simp add: train_share_def Let_def or_zero_def counted_sum all_dose_def habit_dose_def)

lemma share_of_None: "share_of rows h held = None \<Longrightarrow> or_zero (share_of rows h held) = 0"
  by (simp add: or_zero_def)

lemma share_set: "set a = set b \<Longrightarrow> share_of rows h a = share_of rows h b"
  by (simp add: train_share_def counted_def)

lemma seen_release:
  assumes "j \<in> set held" "j < length rows" "is_flagged h (rows ! j)"
  shows "seen rows h (filter (\<lambda>i. i \<noteq> j) held) = insert j (seen rows h held)" "j \<notin> seen rows h held"
  using assms by (auto simp: seen_def is_flagged_def)

text \<open>Releasing a flagged row never lowers the share of its habit.\<close>

lemma release_raises:
  assumes "j \<in> set held" "j < length rows" "is_flagged h (rows ! j)" "\<forall>r \<in> set rows. 0 < gr_dose r"
  shows "or_zero (share_of rows h held) \<le> or_zero (share_of rows h (filter (\<lambda>i. i \<noteq> j) held))"
proof -
  let ?d = "gr_dose (rows ! j)" and ?f = "habit_dose rows h held" and ?w = "all_dose rows h held"
  note r = seen_release [OF assms(1-3)]
  have pos: "0 < gr_dose (rows ! i)" if "i \<in> seen rows h held" for i using assms(4) that by (simp add: seen_def)
  have d: "0 < ?d" using assms(2,4) by simp
  have a: "all_dose rows h (filter (\<lambda>i. i \<noteq> j) held) = ?d + ?w" "habit_dose rows h (filter (\<lambda>i. i \<noteq> j) held) = ?d + ?f"
    using r assms(3) by (simp_all add: all_dose_def habit_dose_def)
  have f: "0 \<le> ?f" unfolding habit_dose_def by (rule sum_nonneg) (use pos in \<open>auto intro: less_imp_le\<close>)
  have fw: "?f \<le> ?w" unfolding all_dose_def habit_dose_def by (rule sum_mono) (use pos in \<open>auto intro: less_imp_le\<close>)
  show ?thesis
  proof (cases "?w = 0")
    case True
    then show ?thesis unfolding share_of_doses a using f d fw by simp
  next
    case False
    then have w: "0 < ?w" using f fw by linarith
    have "?f * (?d + ?w) \<le> (?d + ?f) * ?w" using mult_right_mono [OF fw, of ?d] d by (simp add: algebra_simps)
    then show ?thesis unfolding share_of_doses a using w d by (simp add: divide_simps mult.commute)
  qed
qed

section \<open>The first pass reaches the setpoint\<close>

lemma hold_until_share:
  assumes "0 \<le> s" "\<forall>i < length rows. is_flagged h (rows ! i) \<longrightarrow> i \<in> set held \<union> set is0"
  shows "or_zero (share_of rows h (hold_until rows h s held is0)) \<le> s"
  using assms(2)
proof (induction is0 arbitrary: held)
  case Nil
  have "habit_dose rows h held = 0" unfolding habit_dose_def using Nil by (intro sum.neutral) (auto simp: seen_def)
  then show ?case using assms(1) by (simp add: share_of_doses)
next
  case (Cons i is0)
  show ?case
  proof (cases "share_of rows h held")
    case None
    then show ?thesis using assms(1) by (simp add: or_zero_def)
  next
    case (Some cur)
    show ?thesis
    proof (cases "cur \<le> s")
      case True
      then show ?thesis using Some by (simp add: or_zero_def)
    next
      case False
      have a: "\<forall>j < length rows. is_flagged h (rows ! j) \<longrightarrow> j \<in> set (held @ [i]) \<union> set is0" using Cons.prems by auto
      show ?thesis
      proof (cases "i \<in> set held \<or> \<not> is_flagged h (rows ! i)")
        case True
        then have "\<forall>j < length rows. is_flagged h (rows ! j) \<longrightarrow> j \<in> set held \<union> set is0" using Cons.prems by auto
        from Cons.IH [OF this] show ?thesis using Some False True by simp
      next
        case w: False
        show ?thesis using Cons.IH [OF a] Some False w by simp
      qed
    qed
  qed
qed

lemma newest_set: "set (newest_rows rows) = {..<length rows}"
  by (auto simp: newest_rows_def)

lemma hold_until_new:
  assumes "set is0 \<subseteq> {..<length rows}"
  shows "j \<in> set (hold_until rows h s held is0) \<Longrightarrow> j \<in> set held \<or> j < length rows \<and> is_flagged h (rows ! j)"
    and "distinct held \<Longrightarrow> distinct (hold_until rows h s held is0)"
  using assms
proof (induction is0 arbitrary: held)
  case (Cons i is0)
  { case 1 with Cons show ?case by (cases "share_of rows h held") (fastforce split: if_splits)+ }
  { case 2 with Cons show ?case by (cases "share_of rows h held") auto }
qed simp_all

lemma greedy_append:
  "greedy_holds rows r_base k (xs @ ys) held hs =
     (case greedy_holds rows r_base k xs held hs of (held', hs') \<Rightarrow> greedy_holds rows r_base k ys held' hs')"
  by (induction xs arbitrary: held hs) (auto simp: Let_def split: option.split)

definition governed :: "(string, rat option) dict \<Rightarrow> string list \<Rightarrow> string set" where
  "governed r_base order = {h. h \<in> set order \<and> dget_or r_base h None \<noteq> None}"

lemma greedy_shape:
  assumes "greedy_holds rows r_base k order held hs = (held', hs')" "distinct held" "distinct (dkeys hs)"
    and "\<forall>j \<in> set held. j < length rows \<and> (\<exists>h \<in> S. is_flagged h (rows ! j))"
    and "\<forall>(h, p) \<in> set hs. \<exists>rb. dget_or r_base h None = Some rb \<and> hp_setpoint p = min 1 (k * rb)" "governed r_base order \<subseteq> S"
  shows "distinct held' \<and> distinct (dkeys hs') \<and> (\<forall>j \<in> set held'. j < length rows \<and> (\<exists>h \<in> S. is_flagged h (rows ! j)))
    \<and> (\<forall>(h, p) \<in> set hs'. \<exists>rb. dget_or r_base h None = Some rb \<and> hp_setpoint p = min 1 (k * rb))
    \<and> set (dkeys hs') = set (dkeys hs) \<union> governed r_base order"
  using assms
proof (induction order arbitrary: held hs)
  case Nil
  then show ?case by (simp add: governed_def)
next
  case (Cons h order)
  show ?case
  proof (cases "dget_or r_base h None")
    case None
    then have g: "governed r_base (h # order) = governed r_base order" by (auto simp: governed_def)
    show ?thesis using Cons.IH [of held hs] Cons.prems None unfolding g by simp
  next
    case (Some rb)
    let ?held = "hold_until rows h (min 1 (k * rb)) held (newest_rows rows)"
    let ?p = "\<lparr>hp_setpoint = min 1 (k * rb), hp_base = rb, hp_before = share_of rows h held, hp_held = 0, hp_after_own = None\<rparr>"
    have g: "governed r_base (h # order) = insert h (governed r_base order)" using Some by (auto simp: governed_def)
    have n: "set (newest_rows rows) \<subseteq> {..<length rows}" by (simp add: newest_set)
    have S: "h \<in> S" "governed r_base order \<subseteq> S" using Cons.prems(6) g by auto
    have eq: "greedy_holds rows r_base k order ?held (dset h ?p hs) = (held', hs')" using Cons.prems(1) Some by (simp add: Let_def)
    have d: "distinct ?held" using hold_until_new(2) [OF n] Cons.prems(2) by blast
    have f: "\<forall>j \<in> set ?held. j < length rows \<and> (\<exists>h \<in> S. is_flagged h (rows ! j))"
      using hold_until_new(1) [OF n] Cons.prems(4) S(1) by blast
    have q: "\<forall>(h', p) \<in> set (dset h ?p hs). \<exists>rb. dget_or r_base h' None = Some rb \<and> hp_setpoint p = min 1 (k * rb)"
    proof
      fix kv assume kv: "kv \<in> set (dset h ?p hs)"
      obtain h' p where e: "kv = (h', p)" by (cases kv)
      have "dget (dset h ?p hs) h' = Some p" using kv e in_set_dget [OF distinct_dkeys_dset [OF Cons.prems(3)]] by blast
      then have "h' = h \<and> p = ?p \<or> dget hs h' = Some p" by (auto split: if_splits)
      then show "case kv of (h', p) \<Rightarrow> \<exists>rb. dget_or r_base h' None = Some rb \<and> hp_setpoint p = min 1 (k * rb)"
        using Some Cons.prems(5) dget_Some_in_set [of hs h' p] unfolding e by auto
    qed
    from Cons.IH [OF eq d distinct_dkeys_dset [OF Cons.prems(3)] f q S(2)] show ?thesis unfolding g by (auto simp: dkeys_dset)
  qed
qed

section \<open>The second pass keeps it\<close>

abbreviation fits_bound :: "gov_row list \<Rightarrow> (string, rat) dict \<Rightarrow> nat list \<Rightarrow> bool" where
  "fits_bound rows bound held \<equiv> \<forall>(h, b) \<in> set bound. or_zero (share_of rows h held) \<le> b + 1 / 10 ^ 12"

lemma prune_fits:
  assumes "fits_bound rows bound held" "distinct held"
  shows "fits_bound rows bound (fst (foldl (prune_step rows bound) (held, n) is0))
    \<and> set (fst (foldl (prune_step rows bound) (held, n) is0)) \<subseteq> set held \<and> distinct (fst (foldl (prune_step rows bound) (held, n) is0))"
  using assms
proof (induction is0 arbitrary: held n)
  case (Cons i is0)
  show ?case
  proof (cases "needless rows bound held i")
    case True
    then have "fits_bound rows bound (filter (\<lambda>j. j \<noteq> i) held)" by (simp add: needless_def list_all_iff)
    moreover have "distinct (filter (\<lambda>j. j \<noteq> i) held)" using Cons.prems(2) by simp
    ultimately show ?thesis using Cons.IH [of "filter (\<lambda>j. j \<noteq> i) held" "n + 1"] True by (auto simp: prune_step_def)
  next
    case False
    then show ?thesis using Cons.IH [OF Cons.prems, of n] by (simp add: prune_step_def)
  qed
qed simp

definition first_holds :: "gov_row list \<Rightarrow> (string, rat option) dict \<Rightarrow> rat \<Rightarrow> string list \<Rightarrow> nat list" where
  "first_holds rows r_base k order = fst (greedy_holds rows r_base k order [] [])"

definition bounds :: "gov_row list \<Rightarrow> (string, rat option) dict \<Rightarrow> rat \<Rightarrow> string list \<Rightarrow> (string, rat) dict" where
  "bounds rows r_base k order = List.map (\<lambda>(h, p). (h, max (hp_setpoint p) (or_zero (share_of rows h (first_holds rows r_base k order)))))
     (snd (greedy_holds rows r_base k order [] []))"

definition last_holds :: "gov_row list \<Rightarrow> (string, rat option) dict \<Rightarrow> rat \<Rightarrow> string list \<Rightarrow> nat list" where
  "last_holds rows r_base k order = fst (foldl (prune_step rows (bounds rows r_base k order)) (first_holds rows r_base k order, 0)
     (sort_key (row_time rows) (sort (first_holds rows r_base k order))))"

lemma plan_ids: "gp_held_ids (plan rows r_base k order) = sort (last_holds rows r_base k order)"
  by (simp add: plan_def last_holds_def first_holds_def bounds_def Let_def split: prod.split)

lemma first_shape:
  "distinct (first_holds rows r_base k order)"
  "\<forall>j \<in> set (first_holds rows r_base k order). j < length rows \<and> (\<exists>h \<in> governed r_base order. is_flagged h (rows ! j))"
  "\<forall>(h, b) \<in> set (bounds rows r_base k order). \<exists>rb. dget_or r_base h None = Some rb
     \<and> b = max (min 1 (k * rb)) (or_zero (share_of rows h (first_holds rows r_base k order)))"
  "fst ` set (bounds rows r_base k order) = governed r_base order"
proof -
  obtain held' hs' where g: "greedy_holds rows r_base k order [] [] = (held', hs')" by (cases "greedy_holds rows r_base k order [] []")
  have f: "first_holds rows r_base k order = held'" by (simp add: first_holds_def g)
  note s = greedy_shape [OF g, of "governed r_base order", simplified]
  show "distinct (first_holds rows r_base k order)"
    "\<forall>j \<in> set (first_holds rows r_base k order). j < length rows \<and> (\<exists>h \<in> governed r_base order. is_flagged h (rows ! j))"
    unfolding f using s by blast+
  show "\<forall>(h, b) \<in> set (bounds rows r_base k order). \<exists>rb. dget_or r_base h None = Some rb
     \<and> b = max (min 1 (k * rb)) (or_zero (share_of rows h (first_holds rows r_base k order)))"
    unfolding bounds_def g f using s by fastforce
  have "fst ` set (bounds rows r_base k order) = set (dkeys hs')" by (auto simp: bounds_def g image_image case_prod_beta)
  then show "fst ` set (bounds rows r_base k order) = governed r_base order" using s by simp
qed

lemma last_shape:
  "fits_bound rows (bounds rows r_base k order) (last_holds rows r_base k order)"
  "set (last_holds rows r_base k order) \<subseteq> set (first_holds rows r_base k order)" "distinct (last_holds rows r_base k order)"
proof -
  have "fits_bound rows (bounds rows r_base k order) (first_holds rows r_base k order)"
    using first_shape(3) [of rows r_base k order] by (fastforce simp: le_max_iff_disj)
  from prune_fits [OF this first_shape(1), of 0] show
    "fits_bound rows (bounds rows r_base k order) (last_holds rows r_base k order)"
    "set (last_holds rows r_base k order) \<subseteq> set (first_holds rows r_base k order)" "distinct (last_holds rows r_base k order)"
    unfolding last_holds_def by blast+
qed

lemma last_habit_first:
  assumes "0 \<le> min 1 (k * rb)" "dget_or r_base h None = Some rb"
  shows "or_zero (share_of rows h (first_holds rows r_base k (order @ [h]))) \<le> min 1 (k * rb)"
proof -
  obtain held' hs' where g: "greedy_holds rows r_base k order [] [] = (held', hs')" by (cases "greedy_holds rows r_base k order [] []")
  have "first_holds rows r_base k (order @ [h]) = hold_until rows h (min 1 (k * rb)) held' (newest_rows rows)"
    by (simp add: first_holds_def greedy_append g assms(2) Let_def)
  then show ?thesis using hold_until_share [OF assms(1), of rows h held' "newest_rows rows"] by (simp add: newest_set)
qed

text \<open>C30: the plan brings the habit it governs last to its setpoint, and every other to its setpoint or to the share the first
  pass left it; it holds only rows flagged for a governed habit, each once, and at most those the first pass held.\<close>

theorem plan_meets_setpoint:
  assumes "0 \<le> k" "0 \<le> rb" "dget_or r_base h None = Some rb" "p = plan rows r_base k (order @ [h])"
  shows "or_zero (share_of rows h (gp_held_ids p)) \<le> min 1 (k * rb) + 1 / 10 ^ 12
    \<and> (\<forall>h' \<in> governed r_base order. \<exists>rb'. dget_or r_base h' None = Some rb'
         \<and> or_zero (share_of rows h' (gp_held_ids p))
             \<le> max (min 1 (k * rb')) (or_zero (share_of rows h' (first_holds rows r_base k (order @ [h])))) + 1 / 10 ^ 12)
    \<and> sorted_wrt (<) (gp_held_ids p)
    \<and> (\<forall>j \<in> set (gp_held_ids p). j < length rows \<and> (\<exists>h' \<in> governed r_base (order @ [h]). is_flagged h' (rows ! j)))"
proof -
  let ?o = "order @ [h]"
  have sh: "share_of rows h' (gp_held_ids p) = share_of rows h' (last_holds rows r_base k ?o)" for h'
    by (rule share_set) (simp add: assms(4) plan_ids)
  have b: "\<exists>rb'. dget_or r_base h' None = Some rb' \<and> or_zero (share_of rows h' (last_holds rows r_base k ?o))
      \<le> max (min 1 (k * rb')) (or_zero (share_of rows h' (first_holds rows r_base k ?o))) + 1 / 10 ^ 12" if h': "h' \<in> governed r_base ?o" for h'
  proof -
    obtain b where "(h', b) \<in> set (bounds rows r_base k ?o)" using first_shape(4) [of rows r_base k ?o] h' by force
    then show ?thesis using last_shape(1) [of rows r_base k ?o] first_shape(3) [of rows r_base k ?o] by fastforce
  qed
  have "0 \<le> min 1 (k * rb)" using assms(1,2) by simp
  from last_habit_first [OF this assms(3), of rows order] have one: "max (min 1 (k * rb)) (or_zero (share_of rows h (first_holds rows r_base k ?o))) = min 1 (k * rb)"
    by linarith
  have "h \<in> governed r_base ?o" using assms(3) by (simp add: governed_def)
  from b [OF this] have "or_zero (share_of rows h (gp_held_ids p)) \<le> min 1 (k * rb) + 1 / 10 ^ 12" unfolding sh using assms(3) one by auto
  moreover have "h' \<in> governed r_base ?o" if "h' \<in> governed r_base order" for h' using that by (simp add: governed_def)
  moreover have "sorted_wrt (<) (gp_held_ids p)" using last_shape(3) by (simp add: assms(4) plan_ids strict_sorted_iff)
  moreover have "\<forall>j \<in> set (gp_held_ids p). j < length rows \<and> (\<exists>h' \<in> governed r_base ?o. is_flagged h' (rows ! j))"
    using first_shape(2) [of rows r_base k ?o] last_shape(2) [of rows r_base k ?o] by (auto simp: assms(4) plan_ids)
  ultimately show ?thesis using b unfolding sh by blast
qed

section \<open>No hold is idle\<close>

lemma prune_keeps_needed:
  assumes "\<forall>j \<in> set held. j < length rows \<and> is_flagged h (rows ! j)" "\<forall>r \<in> set rows. 0 < gr_dose r"
    and "i \<in> set (fst (foldl (prune_step rows [(h, b)]) (held, n) is0))"
  shows "i \<in> set held \<and> or_zero (share_of rows h (filter (\<lambda>j. j \<noteq> i) held))
      \<le> or_zero (share_of rows h (filter (\<lambda>j. j \<noteq> i) (fst (foldl (prune_step rows [(h, b)]) (held, n) is0))))
    \<and> (i \<in> set is0 \<longrightarrow> b + 1 / 10 ^ 12 < or_zero (share_of rows h (filter (\<lambda>j. j \<noteq> i) (fst (foldl (prune_step rows [(h, b)]) (held, n) is0)))))"
  using assms(1,3)
proof (induction is0 arbitrary: held n)
  case (Cons j is0)
  show ?case
  proof (cases "needless rows [(h, b)] held j")
    case True
    let ?held = "filter (\<lambda>x. x \<noteq> j) held"
    have e: "foldl (prune_step rows [(h, b)]) (held, n) (j # is0) = foldl (prune_step rows [(h, b)]) (?held, n + 1) is0"
      using True by (simp add: prune_step_def)
    have q: "\<forall>x \<in> set ?held. x < length rows \<and> is_flagged h (rows ! x)" using Cons.prems(1) by simp
    note IH = Cons.IH [OF q Cons.prems(2) [unfolded e]]
    then have ij: "i \<noteq> j" "i \<in> set held" by auto
    have "or_zero (share_of rows h (filter (\<lambda>x. x \<noteq> i) held)) \<le> or_zero (share_of rows h (filter (\<lambda>x. x \<noteq> i) ?held))"
    proof (cases "j \<in> set held")
      case True
      have "or_zero (share_of rows h (filter (\<lambda>x. x \<noteq> i) held)) \<le> or_zero (share_of rows h (filter (\<lambda>x. x \<noteq> j) (filter (\<lambda>x. x \<noteq> i) held)))"
        by (rule release_raises) (use True ij(1) Cons.prems(1) assms(2) in auto)
      then show ?thesis by (simp add: conj_commute)
    next
      case False
      then have "?held = held" by (auto simp: filter_id_conv)
      then show ?thesis by simp
    qed
    then show ?thesis using IH ij unfolding e by auto
  next
    case False
    have e: "foldl (prune_step rows [(h, b)]) (held, n) (j # is0) = foldl (prune_step rows [(h, b)]) (held, n) is0"
      using False by (simp add: prune_step_def)
    note IH = Cons.IH [OF Cons.prems(1) Cons.prems(2) [unfolded e]]
    have "b + 1 / 10 ^ 12 < or_zero (share_of rows h (filter (\<lambda>x. x \<noteq> j) held))" using False by (simp add: needless_def)
    then show ?thesis using IH unfolding e by fastforce
  qed
qed simp

text \<open>C31: when one habit is governed and every row has a dose, the plan holds nothing it could do without: releasing any of
  its holds would put the habit above its setpoint again.\<close>

theorem every_hold_is_needed:
  assumes "0 \<le> k" "0 \<le> rb" "dget_or r_base h None = Some rb" "\<forall>r \<in> set rows. 0 < gr_dose r"
    and "i \<in> set (gp_held_ids (plan rows r_base k [h]))"
  shows "min 1 (k * rb) + 1 / 10 ^ 12 < or_zero (share_of rows h (filter (\<lambda>j. j \<noteq> i) (gp_held_ids (plan rows r_base k [h]))))"
proof -
  have "0 \<le> min 1 (k * rb)" using assms(1,2) by simp
  from last_habit_first [OF this assms(3), of rows "[]"] have one: "max (min 1 (k * rb)) (or_zero (share_of rows h (first_holds rows r_base k [h]))) = min 1 (k * rb)"
    by simp
  have b: "bounds rows r_base k [h] = [(h, min 1 (k * rb))]"
    using one by (simp add: bounds_def assms(3) Let_def)
  have f: "\<forall>j \<in> set (first_holds rows r_base k [h]). j < length rows \<and> is_flagged h (rows ! j)"
    using first_shape(2) [of rows r_base k "[h]"] by (auto simp: governed_def)
  have i: "i \<in> set (last_holds rows r_base k [h])" using assms(5) by (simp add: plan_ids)
  then have j: "i \<in> set (sort_key (row_time rows) (sort (first_holds rows r_base k [h])))" using last_shape(2) [of rows r_base k "[h]"] by auto
  from prune_keeps_needed [OF f assms(4) i [unfolded last_holds_def b]] j
  have "min 1 (k * rb) + 1 / 10 ^ 12 < or_zero (share_of rows h (filter (\<lambda>j. j \<noteq> i) (last_holds rows r_base k [h])))"
    unfolding last_holds_def b by blast
  moreover have "share_of rows h (filter (\<lambda>j. j \<noteq> i) (gp_held_ids (plan rows r_base k [h]))) = share_of rows h (filter (\<lambda>j. j \<noteq> i) (last_holds rows r_base k [h]))"
    by (rule share_set) (simp add: plan_ids)
  ultimately show ?thesis by simp
qed

definition sample_row :: "int \<Rightarrow> rat \<Rightarrow> string list \<Rightarrow> gov_row" where
  "sample_row i d hs = \<lparr>gr_session = ''s'', gr_exchange = i, gr_ts = [], gr_dose = d, gr_flags = List.map (\<lambda>h. (h, h \<in> set hs)) all_habits\<rparr>"

definition motive_rows :: "gov_row list" where
  "motive_rows = [sample_row 0 1 [], sample_row 1 1 [], sample_row 2 1 [''motive''], sample_row 3 1 [''motive'']]"

lemma motive_plan: "gp_held_ids (plan motive_rows [(''motive'', Some (1 / 10))] 2 [''motive'']) = [2, 3]"
  by code_simp

lemma motive_base: "dget_or [(''motive'', Some (1 / 10 :: rat))] ''motive'' None = Some (1 / 10)"
  by (simp add: dget_or_def)

theorem plan_meets_setpoint_witness:
  "or_zero (share_of motive_rows ''motive'' [2, 3]) \<le> min 1 (2 * (1 / 10)) + 1 / 10 ^ 12"
proof -
  have k: "0 \<le> (2 :: rat)" "0 \<le> (1 / 10 :: rat)" by simp_all
  show ?thesis using conjunct1 [OF plan_meets_setpoint [OF k motive_base refl, of motive_rows "[]"]]
    unfolding append_Nil motive_plan .
qed

theorem every_hold_is_needed_witness:
  "min 1 (2 * (1 / 10)) + 1 / 10 ^ 12 < or_zero (share_of motive_rows ''motive'' (filter (\<lambda>j. j \<noteq> 2) [2, 3]))"
proof -
  have k: "0 \<le> (2 :: rat)" "0 \<le> (1 / 10 :: rat)" by simp_all
  have d: "\<forall>r \<in> set motive_rows. 0 < gr_dose r" by (simp add: motive_rows_def sample_row_def)
  have "2 \<in> set (gp_held_ids (plan motive_rows [(''motive'', Some (1 / 10))] 2 [''motive'']))" by (simp add: motive_plan)
  from every_hold_is_needed [OF k motive_base d this] show ?thesis unfolding motive_plan .
qed

text \<open>With two habits neither claim holds: holding for the second raises the share of the first over its setpoint, and the
  one pass keeps a hold that its own later releases made idle.\<close>

definition crowded_rows :: "gov_row list" where
  "crowded_rows = [sample_row 0 1 [''motive''], sample_row 1 4 [], sample_row 2 5 [''stock'']]"

lemma later_habit_raises_earlier:
  "let p = plan crowded_rows [(''motive'', Some (1 / 10)), (''stock'', Some (1 / 10))] 1 [''motive'', ''stock''] in
     gp_held_ids p = [2] \<and> share_of crowded_rows ''motive'' [] = Some (1 / 10) \<and> share_of crowded_rows ''motive'' [2] = Some (1 / 5)"
  by code_simp

definition idle_rows :: "gov_row list" where
  "idle_rows = [sample_row 0 2 [''stock''], sample_row 1 4 [''motive'', ''stock''], sample_row 2 4 [''motive''], sample_row 3 4 []]"

lemma idle_hold_survives:
  "let p = plan idle_rows [(''motive'', Some (1 / 2)), (''stock'', Some (3 / 10))] 1 [''motive'', ''stock''] in
     gp_held_ids p = [0, 1] \<and> or_zero (share_of idle_rows ''motive'' [1]) \<le> 1 / 2 \<and> or_zero (share_of idle_rows ''stock'' [1]) \<le> 3 / 10"
  by code_simp

section \<open>A hold keeps its exchange out\<close>

definition held_at :: "(string \<Rightarrow> string) \<Rightarrow> (json \<Rightarrow> string) \<Rightarrow> sidecar \<Rightarrow> string \<Rightarrow> int \<Rightarrow> bool" where
  "held_at sha rp s x i = (\<exists>r. found s x i = Some r \<and> governor_held sha rp r)"

text \<open>A record whose \<open>governor\<close> field, when it is a dictionary, names no key twice.\<close>

definition gov_record :: "sidecar \<Rightarrow> string \<Rightarrow> int \<Rightarrow> bool" where
  "gov_record s x i = (\<exists>r. found s x i = Some r \<and> distinct (dkeys (obj_of (jget r ''governor''))))"

lemma same_found:
  assumes "resolve_sidecar_path y = resolve_sidecar_path x"
  shows "found s y j = found s x j"
  using exchanges_same_path [OF assms, of s] by (simp add: found_def)

lemma json_eq_field:
  assumes "json_eq (JObj g) (JObj b)" "distinct (dkeys g)" "distinct (dkeys b)" "dget b k = Some (JStr t)"
  shows "jget g k = JStr t"
proof -
  have l: "length g = length b" and m: "\<forall>(k, v) \<in> set g. case dget b k of None \<Rightarrow> False | Some u \<Rightarrow> json_eq v u"
    using assms(1) by (auto simp: list_all_iff)
  have sub: "set (dkeys g) \<subseteq> set (dkeys b)"
  proof
    fix z assume "z \<in> set (dkeys g)"
    then obtain v where "(z, v) \<in> set g" by auto
    with m have "case dget b z of None \<Rightarrow> False | Some u \<Rightarrow> json_eq v u" by blast
    then have "dget b z \<noteq> None" by (auto split: option.splits)
    then show "z \<in> set (dkeys b)" by (simp add: map_of_eq_None_iff)
  qed
  have "card (set (dkeys g)) = card (set (dkeys b))" using l distinct_card [OF assms(2)] distinct_card [OF assms(3)] by simp
  then have "set (dkeys g) = set (dkeys b)" using sub by (simp add: card_subset_eq)
  then have "k \<in> set (dkeys g)" using dget_Some_in_set [OF assms(4)] by force
  then obtain v where v: "(k, v) \<in> set g" by auto
  then have "json_eq v (JStr t)" using m assms(4) by force
  then have "v = JStr t" by (cases v) (auto split: option.splits)
  then show ?thesis using v in_set_dget [OF assms(2)] by (simp add: jget_eq)
qed

lemma set_record_update:
  assumes "resolve_sidecar_path x \<noteq> None" "found s x i = Some r" "\<not> json_eq (jget r n) (JObj v)"
  shows "set_record_field True x i n (Some v) s = docs.update True s x (\<lambda>d. put_exchange d i (dset n (JObj v) r))"
  using assms by (auto simp: set_record_field_def set_field_def docs.update_def)

lemma set_hold:
  assumes "resolve_sidecar_path x \<noteq> None" "gov_record s x i"
    and "distinct (dkeys v)" "\<And>r. found s x i = Some r \<Longrightarrow> dget v ''target_sha'' = Some (JStr (sha (fstr rp (py_or (jget r ''target'') (JStr [])))))"
  defines "s' \<equiv> snd (set_record_field True x i ''governor'' (Some v) s)"
  shows "held_at sha rp s' x i" "held_at sha rp s y j \<Longrightarrow> held_at sha rp s' y j" "gov_record s y j \<Longrightarrow> gov_record s' y j"
    "resolve_sidecar_path y \<noteq> resolve_sidecar_path x \<or> j \<noteq> i \<Longrightarrow> found s' y j = found s y j"
    "fallback_dir s' = fallback_dir s" "fallback_dir s = None \<Longrightarrow> set (dkeys (main_dir s')) = set (dkeys (main_dir s))"
proof -
  obtain r where r: "found s x i = Some r" "distinct (dkeys (obj_of (jget r ''governor'')))" using assms(2) by (auto simp: gov_record_def)
  have t: "dget v ''target_sha'' = Some (JStr (sha (fstr rp (py_or (jget r ''target'') (JStr [])))))" by (rule assms(4) [OF r(1)])
  have all: "held_at sha rp s' x i \<and> (held_at sha rp s y j \<longrightarrow> held_at sha rp s' y j) \<and> (gov_record s y j \<longrightarrow> gov_record s' y j)
    \<and> (resolve_sidecar_path y \<noteq> resolve_sidecar_path x \<or> j \<noteq> i \<longrightarrow> found s' y j = found s y j)
    \<and> fallback_dir s' = fallback_dir s \<and> (fallback_dir s = None \<longrightarrow> set (dkeys (main_dir s')) = set (dkeys (main_dir s)))"
  proof (cases "json_eq (jget r ''governor'') (JObj v)")
    case True
    then obtain g where g: "jget r ''governor'' = JObj g" by (cases "jget r ''governor''") (auto split: option.splits)
    have "jget g ''target_sha'' = JStr (sha (fstr rp (py_or (jget r ''target'') (JStr []))))"
      by (rule json_eq_field [OF _ _ assms(3) t]) (use True r(2) g in simp_all)
    then have "held_at sha rp s x i" using r(1) g by (auto simp: held_at_def governor_held_def)
    moreover have "s' = s" using assms(1) r(1) True by (auto simp: s'_def set_record_field_def set_field_def)
    ultimately show ?thesis by simp
  next
    case False
    let ?u = "docs.update True s x (\<lambda>d. put_exchange d i (dset ''governor'' (JObj v) r))"
    have u: "set_record_field True x i ''governor'' (Some v) s = ?u" by (rule set_record_update [OF assms(1) r(1) False])
    have ok: "fst ?u" using assms(1) by (simp add: docs.update_result)
    note up = update_exchange [OF ok]
    have here: "found s' x i = Some (dset ''governor'' (JObj v) r)" unfolding s'_def u by (rule up(1))
    have h: "governor_held sha rp (dset ''governor'' (JObj v) r)" using t by (simp add: governor_held_def jget_eq)
    have g: "distinct (dkeys (obj_of (jget (dset ''governor'' (JObj v) r) ''governor'')))" using assms(3) by simp
    have same: "found s' y j = found s y j" if "resolve_sidecar_path y \<noteq> resolve_sidecar_path x \<or> j \<noteq> i"
    proof (cases "resolve_sidecar_path y = resolve_sidecar_path x")
      case True
      then have "j \<noteq> i" using that by simp
      then have "found s' x j = found s x j" unfolding s'_def u by (rule up(2))
      then show ?thesis using same_found [OF True] by simp
    next
      case False
      then have "load s' y = load s y" unfolding s'_def u by (rule up(4))
      then show ?thesis by (simp add: found_def)
    qed
    have eq: "found s' y j = Some (dset ''governor'' (JObj v) r)" if "\<not> (resolve_sidecar_path y \<noteq> resolve_sidecar_path x \<or> j \<noteq> i)"
      using that here same_found [of y x s'] by simp
    obtain f where f: "resolve_sidecar_path x = Some f" using assms(1) by auto
    have s': "s' = s\<lparr>main_dir := dset f (Parsed (JObj (dset ''schema_version'' (JInt 1) (put_exchange (load s x) i (dset ''governor'' (JObj v) r))))) (main_dir s)\<rparr>"
      by (simp add: s'_def u docs.update_def f save_def)
    have "f \<in> set (dkeys (main_dir s))" if "fallback_dir s = None"
    proof (rule ccontr)
      assume "f \<notin> set (dkeys (main_dir s))"
      then have "dget (main_dir s) f = None" by (simp add: map_of_eq_None_iff)
      then have "found s x i = None" using that f by (simp add: found_def load_def exchanges_of_def empty_doc_def)
      then show False using r(1) by simp
    qed
    then have "fallback_dir s = None \<longrightarrow> set (dkeys (main_dir s')) = set (dkeys (main_dir s))" by (auto simp: s' dkeys_dset)
    moreover have "fallback_dir s' = fallback_dir s" by (simp add: s')
    moreover have "held_at sha rp s' x i" using here h by (simp add: held_at_def)
    moreover have "held_at sha rp s y j \<longrightarrow> held_at sha rp s' y j" using same eq h by (metis held_at_def)
    moreover have "gov_record s y j \<longrightarrow> gov_record s' y j" using same eq g by (metis gov_record_def)
    ultimately show ?thesis using same by blast
  qed
  show "held_at sha rp s' x i" "held_at sha rp s y j \<Longrightarrow> held_at sha rp s' y j" "gov_record s y j \<Longrightarrow> gov_record s' y j"
    "resolve_sidecar_path y \<noteq> resolve_sidecar_path x \<or> j \<noteq> i \<Longrightarrow> found s' y j = found s y j"
    "fallback_dir s' = fallback_dir s" "fallback_dir s = None \<Longrightarrow> set (dkeys (main_dir s')) = set (dkeys (main_dir s))"
    using all by blast+
qed

lemma record_of_found: "found s (gr_session e) (gr_exchange e) = Some r \<Longrightarrow> record_of s e = Inr r"
  by (cases "r = []") (auto simp: record_of_def found_def py_or_def split: json.splits)

lemma write_holds_all:
  assumes "\<forall>e \<in> set es. resolve_sidecar_path (gr_session e) \<noteq> None \<and> gov_record s (gr_session e) (gr_exchange e)"
    and mk: "\<And>e r. distinct (dkeys (mk e r))" "\<And>e r. dget (mk e r) ''target_sha'' = Some (JStr (sha (fstr rp (py_or (jget r ''target'') (JStr [])))))"
  shows "\<exists>s' n'. write_holds (\<lambda>_. True) mk True s n es = (s', Inr n') \<and> (\<forall>e \<in> set es. held_at sha rp s' (gr_session e) (gr_exchange e))
    \<and> (\<forall>y j. held_at sha rp s y j \<longrightarrow> held_at sha rp s' y j) \<and> fallback_dir s' = fallback_dir s
    \<and> (fallback_dir s = None \<longrightarrow> set (dkeys (main_dir s')) = set (dkeys (main_dir s)))"
  using assms(1)
proof (induction es arbitrary: s n)
  case (Cons e es)
  have e: "resolve_sidecar_path (gr_session e) \<noteq> None" "gov_record s (gr_session e) (gr_exchange e)" using Cons.prems by simp_all
  then obtain r where r: "found s (gr_session e) (gr_exchange e) = Some r" by (auto simp: gov_record_def)
  note ro = record_of_found [OF r]
  let ?u = "set_record_field True (gr_session e) (gr_exchange e) ''governor'' (Some (mk e r)) s"
  have t: "\<And>r'. found s (gr_session e) (gr_exchange e) = Some r' \<Longrightarrow>
      dget (mk e r) ''target_sha'' = Some (JStr (sha (fstr rp (py_or (jget r' ''target'') (JStr [])))))"
    using r mk(2) by simp
  note h = set_hold [where sha = sha and rp = rp and v = "mk e r", OF e mk(1) t]
  have q: "\<forall>e' \<in> set es. resolve_sidecar_path (gr_session e') \<noteq> None \<and> gov_record (snd ?u) (gr_session e') (gr_exchange e')"
    using Cons.prems h(3) by simp
  obtain b s1 where u: "?u = (b, s1)" by (cases ?u)
  from Cons.IH [OF q, of "if b then n + 1 else n"] obtain s' n' where
    IH: "write_holds (\<lambda>_. True) mk True s1 (if b then n + 1 else n) es = (s', Inr n')"
      "\<forall>e \<in> set es. held_at sha rp s' (gr_session e) (gr_exchange e)" "\<forall>y j. held_at sha rp s1 y j \<longrightarrow> held_at sha rp s' y j"
      "fallback_dir s' = fallback_dir s1" "fallback_dir s1 = None \<longrightarrow> set (dkeys (main_dir s')) = set (dkeys (main_dir s1))"
    unfolding u snd_conv by (elim exE conjE) (rule that)
  have "write_holds (\<lambda>_. True) mk True s n (e # es) = (s', Inr n')" using IH(1) by (simp add: ro u)
  then show ?case using IH(2-5) h(1,2,5,6) unfolding u snd_conv by auto
qed simp

lemma release_frame:
  assumes "held_at sha rp s x i" "resolve_sidecar_path (st_session it) \<noteq> resolve_sidecar_path x \<or> st_exchange it \<noteq> i"
  shows "held_at sha rp (release_hold (\<lambda>_ _. True) s it) x i"
proof -
  let ?y = "st_session it" and ?j = "st_exchange it"
  have "release_hold (\<lambda>_ _. True) s it = s \<or> resolve_sidecar_path ?y \<noteq> None
      \<and> (\<exists>r. release_hold (\<lambda>_ _. True) s it = snd (docs.update True s ?y (\<lambda>d. put_exchange d ?j r)))"
    by (auto simp: release_hold_def set_record_field_def set_field_def docs.update_def split: option.splits)
  then show ?thesis
  proof
    assume "release_hold (\<lambda>_ _. True) s it = s"
    then show ?thesis using assms(1) by simp
  next
    assume "resolve_sidecar_path ?y \<noteq> None \<and> (\<exists>r. release_hold (\<lambda>_ _. True) s it = snd (docs.update True s ?y (\<lambda>d. put_exchange d ?j r)))"
    then obtain r where r: "resolve_sidecar_path ?y \<noteq> None" "release_hold (\<lambda>_ _. True) s it = snd (docs.update True s ?y (\<lambda>d. put_exchange d ?j r))" by blast
    let ?u = "docs.update True s ?y (\<lambda>d. put_exchange d ?j r)"
    have ok: "fst ?u" using r(1) by (simp add: docs.update_result)
    note up = update_exchange [OF ok]
    have "found (snd ?u) x i = found s x i"
    proof (cases "resolve_sidecar_path x = resolve_sidecar_path ?y")
      case True
      then have "i \<noteq> ?j" using assms(2) by simp
      from up(2) [OF this] show ?thesis using same_found [OF True] by simp
    next
      case False
      from up(4) [OF this] show ?thesis by (simp add: found_def)
    qed
    then show ?thesis using assms(1) by (simp add: held_at_def r(2))
  qed
qed

lemma release_all:
  assumes "held_at sha rp s x i" "\<forall>it \<in> set its. resolve_sidecar_path (st_session it) \<noteq> resolve_sidecar_path x \<or> st_exchange it \<noteq> i"
  shows "held_at sha rp (foldl (release_hold (\<lambda>_ _. True)) s its) x i"
  using assms by (induction its arbitrary: s) (auto intro: release_frame)

lemma release_while_sub: "set (release_while line m f w xs) \<subseteq> set xs"
  by (induction line m f w xs rule: release_while.induct) auto

lemma release_plan_sub: "set (release_plan held rows r_base k band habits) \<subseteq> set held"
  using release_while_sub by (fastforce simp: release_plan_def split: option.splits)

lemma standing_keys:
  assumes "py_fold (standing_in sha rp held d) [] fs = Inr out" "it \<in> set out"
  shows "\<exists>f \<in> set fs. st_session it = session_name_from_sidecar f \<and> (st_session it, st_exchange it) \<notin> set held"
proof -
  have inner: "py_fold (standing_of sha rp held x) acc kvs = Inr out \<Longrightarrow> it \<in> set out \<Longrightarrow> it \<in> set acc \<or> st_session it = x \<and> (x, st_exchange it) \<notin> set held"
    for x acc kvs out it
  proof (induction kvs arbitrary: acc)
    case (Cons kv kvs)
    then obtain acc' where a: "standing_of sha rp held x acc kv = Inr acc'" "py_fold (standing_of sha rp held x) acc' kvs = Inr out"
      by (auto simp: py_bind_def split: sum.splits)
    have "it' \<in> set acc' \<Longrightarrow> it' \<in> set acc \<or> st_session it' = x \<and> (x, st_exchange it') \<notin> set held" for it'
      using a(1) by (auto simp: standing_of_def split: prod.splits json.splits if_splits option.splits)
    then show ?case using Cons.IH [OF a(2) Cons.prems(2)] by blast
  qed simp
  have "py_fold (standing_in sha rp held d) acc fs = Inr out \<Longrightarrow> it \<in> set acc
      \<or> (\<exists>f \<in> set fs. st_session it = session_name_from_sidecar f \<and> (st_session it, st_exchange it) \<notin> set held)" for acc
    using assms(2)
  proof (induction fs arbitrary: acc)
    case (Cons f fs)
    then obtain acc' where a: "standing_in sha rp held d acc f = Inr acc'" "py_fold (standing_in sha rp held d) acc' fs = Inr out"
      by (auto simp: py_bind_def split: sum.splits)
    have "it \<in> set acc' \<Longrightarrow> it \<in> set acc \<or> st_session it = session_name_from_sidecar f \<and> (st_session it, st_exchange it) \<notin> set held"
      using a(1) inner by (fastforce simp: standing_in_def py_bind_eq_Inr split: option.splits content.splits)
    then show ?case using Cons.IH [OF a(2) Cons.prems(2)] by auto
  qed simp
  from this [OF assms(1)] show ?thesis by simp
qed

lemma exchange_rows_from:
  assumes "exchange_rows tf names rows = Inr ex" "e \<in> set ex"
  shows "\<exists>r \<in> set rows. row_source r = ''chat'' \<and> row_index r = Some (gr_exchange e) \<and> row_session r = gr_session e"
proof -
  let ?P = "\<lambda>acc. \<forall>e \<in> set acc. \<exists>r \<in> set rows. row_source r = ''chat'' \<and> row_index r = Some (gr_exchange e) \<and> row_session r = gr_session e"
  have step: "?P acc'" if st: "exchange_step tf names acc r = Inr acc'" and acc: "?P acc" and r: "r \<in> set rows" for acc r acc'
  proof -
    let ?Q = "\<lambda>e. \<exists>r \<in> set rows. row_source r = ''chat'' \<and> row_index r = Some (gr_exchange e) \<and> row_session r = gr_session e"
    consider "acc' = acc" | g where "acc' = List.map (\<lambda>e. if row_key e = g then e\<lparr>gr_dose := gr_dose e + lr_multiplier r\<rparr> else e) acc"
      | e where "acc' = acc @ [e]" "row_source r = ''chat''" "row_index r = Some (gr_exchange e)" "row_session r = gr_session e"
    proof (cases "row_index r")
      case None
      then show thesis using st that(1) by (simp add: exchange_step_def)
    next
      case (Some i)
      show thesis
      proof (cases "row_source r = ''chat''")
        case False
        then show thesis using st Some that(1) by (simp add: exchange_step_def)
      next
        case True
        show thesis
        proof (cases "(row_session r, i) \<in> set (List.map row_key acc)")
          case f: True
          have "exchange_step tf names acc r = Inr (List.map (\<lambda>e. if row_key e = (row_session r, i) then e\<lparr>gr_dose := gr_dose e + lr_multiplier r\<rparr> else e) acc)"
            using True Some f by (simp add: exchange_step_def)
          then show thesis by (intro that(2) [of "(row_session r, i)"]) (use st in simp)
        next
          case False
          then obtain ns where "acc' = acc @ [\<lparr>gr_session = row_session r, gr_exchange = i, gr_ts = stem_ts (row_session r),
                         gr_dose = lr_multiplier r, gr_flags = tf (row_target r) ns\<rparr>]"
            using st True Some by (auto simp: exchange_step_def py_bind_eq_Inr)
          then show thesis by (rule that(3)) (simp_all add: True Some)
        qed
      qed
    qed
    then show ?thesis
    proof cases
      case 3
      then have "?Q e" using r by blast
      then show ?thesis using acc 3(1) by simp
    qed (use acc in \<open>auto split: if_splits\<close>)
  qed
  have "?P ex" by (rule py_fold_invariant [where P = ?P, OF assms(1) [unfolded exchange_rows_def]]) (use step in auto)
  then show ?thesis using assms(2) by blast
qed

lemma unflag_all:
  assumes "py_fold (unflag_locked s) acc ex = Inr ex'"
  shows "\<exists>es. ex' = acc @ es \<and> list_all2 (\<lambda>e e'. \<exists>r. record_of s e = Inr r \<and> (truthy (jget r ''locked'') \<longrightarrow> (\<forall>h. \<not> is_flagged h e'))) ex es"
  using assms
proof (induction ex arbitrary: acc)
  case (Cons e ex)
  then obtain acc' where a: "unflag_locked s acc e = Inr acc'" "py_fold (unflag_locked s) acc' ex = Inr ex'" by (auto simp: py_bind_eq_Inr)
  from a(1) obtain r where acc': "record_of s e = Inr r"
    "acc' = acc @ [if truthy (jget r ''locked'') then e\<lparr>gr_flags := List.map (\<lambda>(h, b). (h, False)) (gr_flags e)\<rparr> else e]"
    unfolding unflag_locked_def py_bind_eq_Inr by blast
  have r: "record_of s e = Inr r"
    "py_fold (unflag_locked s) (acc @ [if truthy (jget r ''locked'') then e\<lparr>gr_flags := List.map (\<lambda>(h, b). (h, False)) (gr_flags e)\<rparr> else e]) ex = Inr ex'"
    using acc'(1) a(2) unfolding acc'(2) by simp_all
  let ?e = "if truthy (jget r ''locked'') then e\<lparr>gr_flags := List.map (\<lambda>(h, b). (h, False)) (gr_flags e)\<rparr> else e"
  have "\<not> is_flagged h (e\<lparr>gr_flags := List.map (\<lambda>(h, b). (h, False)) (gr_flags e)\<rparr>)" for h
    by (auto simp: is_flagged_def dest: dget_Some_in_set)
  then have "\<exists>r. record_of s e = Inr r \<and> (truthy (jget r ''locked'') \<longrightarrow> (\<forall>h. \<not> is_flagged h ?e))" using r(1) by auto
  then show ?case using Cons.IH [OF r(2)] by fastforce
qed simp

lemma rows_left_filter:
  assumes "py_fold (rows_left K) acc rows = Inr out"
  shows "out = acc @ filter (\<lambda>r. \<not> (row_source r = ''chat'' \<and> (\<exists>i. row_index r = Some i \<and> (row_session r, i) \<in> set K))) rows"
  using assms
proof (induction rows arbitrary: acc)
  case (Cons r rows)
  then obtain acc' where a: "rows_left K acc r = Inr acc'" "py_fold (rows_left K) acc' rows = Inr out" by (auto simp: py_bind_eq_Inr)
  have "acc' = acc @ (if row_source r = ''chat'' \<and> (\<exists>i. row_index r = Some i \<and> (row_session r, i) \<in> set K) then [] else [r])"
    using a(1) by (auto simp: rows_left_def split: if_splits option.splits)
  then show ?case using Cons.IH [OF a(2)] by simp
qed simp

lemma held_rows_in: "set (held_rows p ex) = {ex ! i | i. i < length ex \<and> i \<in> set (gp_held_ids p)}"
proof -
  have e: "enumerate 0 ex = List.map (\<lambda>i. (i, ex ! i)) [0..<length ex]"
    by (rule nth_equalityI) (simp_all add: nth_enumerate_eq)
  show ?thesis unfolding held_rows_def e filter_map by auto
qed

lemma state_files_keys: "set (dkeys d) = set (dkeys d') \<Longrightarrow> set (state_files d) = set (state_files d')"
  by (simp add: state_files_def)

abbreviation govern_plan :: "gov_settings \<Rightarrow> (string, rat option) dict \<Rightarrow> gov_row list \<Rightarrow> gov_plan" where
  "govern_plan st r_base ex' \<equiv> plan ex' (List.map (\<lambda>h. (h, dget_or r_base h None)) (gs_habits st)) (gs_k st) (gs_habits st)"

text \<open>A held row is not locked: the plan holds only flagged rows, and a locked one has no flag.\<close>

lemma held_not_locked:
  assumes "py_fold (unflag_locked s) [] ex = Inr ex'" "e \<in> set (held_rows (plan ex' rb k order) ex)"
    and "found s (gr_session e) (gr_exchange e) = Some r0"
  shows "\<not> truthy (jget r0 ''locked'')"
proof -
  obtain j where j: "j < length ex" "j \<in> set (gp_held_ids (plan ex' rb k order))" "e = ex ! j" using assms(2) by (auto simp: held_rows_in)
  obtain h where "is_flagged h (ex' ! j)" using j(2) first_shape(2) last_shape(2) unfolding plan_ids by (metis set_sort subsetD)
  moreover have "list_all2 (\<lambda>e e'. \<exists>r. record_of s e = Inr r \<and> (truthy (jget r ''locked'') \<longrightarrow> (\<forall>h. \<not> is_flagged h e'))) ex ex'"
    using unflag_all [OF assms(1)] by simp
  ultimately obtain r where "record_of s e = Inr r" "\<not> truthy (jget r ''locked'')" using j(1,3) by (auto dest!: list_all2_nthD)
  then show ?thesis using record_of_found [OF assms(3)] by simp
qed

text \<open>What a step that ends well did: the holds, then the releases, then the rows.\<close>

lemma govern_run:
  assumes "govern (\<lambda>_ _. True) tf sha rp now0 build True st r_base rows s = (s', Inr (out, Gov_Done p written released))"
    and "exchange_rows tf (names_of rp (main_dir s)) rows = Inr ex" "fallback_dir s = None"
    and "\<forall>e \<in> set ex. resolve_sidecar_path (gr_session e) \<noteq> None \<and> gov_record s (gr_session e) (gr_exchange e)"
  shows "\<exists>ex' s1 standing. py_fold (unflag_locked s) [] ex = Inr ex' \<and> p = govern_plan st r_base ex'
    \<and> (\<forall>e \<in> set (held_rows p ex). held_at sha rp s1 (gr_session e) (gr_exchange e)) \<and> set (dkeys (main_dir s1)) = set (dkeys (main_dir s))
    \<and> py_fold (standing_in sha rp (List.map row_key (held_rows p ex)) (main_dir s1)) [] (state_files (main_dir s1)) = Inr standing
    \<and> set released \<subseteq> set standing \<and> s' = foldl (release_hold (\<lambda>_ _. True)) s1 released
    \<and> py_fold (rows_left (List.map row_key (held_rows p ex))) [] rows = Inr out"
proof -
  obtain ex' where ex': "py_fold (unflag_locked s) [] ex = Inr ex'"
    using assms(1,2) by (cases "py_fold (unflag_locked s) [] ex") (simp_all add: govern_def)
  let ?p = "govern_plan st r_base ex'" let ?holds = "held_rows ?p ex" let ?K = "List.map row_key ?holds"
  let ?mk = "\<lambda>e r. hold_field sha rp now0 build st r_base ?p (habit_of (gs_habits st) e) r"
  have mk: "distinct (dkeys (?mk e r))" "dget (?mk e r) ''target_sha'' = Some (JStr (sha (fstr rp (py_or (jget r ''target'') (JStr [])))))" for e r
    by (simp_all add: hold_field_def)
  have q: "\<forall>e \<in> set ?holds. resolve_sidecar_path (gr_session e) \<noteq> None \<and> gov_record s (gr_session e) (gr_exchange e)"
    using assms(4) by (auto simp: held_rows_in)
  obtain s1 n1 where w: "write_holds (\<lambda>_. True) ?mk True s 0 ?holds = (s1, Inr n1)"
      "\<forall>e \<in> set ?holds. held_at sha rp s1 (gr_session e) (gr_exchange e)" "set (dkeys (main_dir s1)) = set (dkeys (main_dir s))"
    using write_holds_all [where sha = sha and rp = rp and mk = ?mk, OF q mk, of 0] assms(3) by blast
  obtain standing where sd: "py_fold (standing_in sha rp ?K (main_dir s1)) [] (state_files (main_dir s1)) = Inr standing"
    using assms(1,2) ex' w(1) by (cases "py_fold (standing_in sha rp ?K (main_dir s1)) [] (state_files (main_dir s1))") (simp_all add: govern_def Let_def)
  define rel where "rel = release_plan standing (not_held ?p ex) r_base (gs_k st) (gs_band st) (gs_habits st)"
  have "govern (\<lambda>_ _. True) tf sha rp now0 build True st r_base rows s
      = (foldl (release_hold (\<lambda>_ _. True)) s1 rel, py_bind (py_fold (rows_left ?K) [] rows) (\<lambda>out. Inr (out, Gov_Done ?p n1 rel)))"
    using assms(2) ex' w(1) sd by (simp add: govern_def Let_def rel_def)
  with assms(1) have s': "s' = foldl (release_hold (\<lambda>_ _. True)) s1 rel"
    and o0: "py_bind (py_fold (rows_left ?K) [] rows) (\<lambda>out. Inr (out, Gov_Done ?p n1 rel)) = Inr (out, Gov_Done p written released)"
    by (simp_all only: prod.inject)
  then obtain out' where "py_fold (rows_left ?K) [] rows = Inr out'" "Inr (out', Gov_Done ?p n1 rel) = (Inr (out, Gov_Done p written released) :: (build_row list \<times> gov_outcome) py)"
    unfolding py_bind_eq_Inr by blast
  then have o: "py_fold (rows_left ?K) [] rows = Inr out" "released = rel" "p = ?p" by simp_all
  have "set rel \<subseteq> set standing" using release_plan_sub unfolding rel_def .
  then show ?thesis unfolding o(2) s' o(3) using ex' w(2,3) sd o(1) by blast
qed

lemma holds_survive_release:
  assumes "held_at sha rp s x i" "resolve_sidecar_path x = Some f" "session_name_from_sidecar f = x" "(x, i) \<in> set K"
    and "py_fold (standing_in sha rp K (main_dir s)) [] (state_files (main_dir s)) = Inr standing" "set released \<subseteq> set standing"
    and "\<forall>f \<in> set (state_files (main_dir s)). resolve_sidecar_path (session_name_from_sidecar f) = Some f"
  shows "held_at sha rp (foldl (release_hold (\<lambda>_ _. True)) s released) x i"
proof (rule release_all [OF assms(1)], rule ballI)
  fix it assume "it \<in> set released"
  then obtain f' where f': "f' \<in> set (state_files (main_dir s))" "st_session it = session_name_from_sidecar f'"
    "(st_session it, st_exchange it) \<notin> set K" using standing_keys [OF assms(5)] assms(6) by blast
  then have "resolve_sidecar_path (st_session it) = Some f'" using assms(7) by simp
  then show "resolve_sidecar_path (st_session it) \<noteq> resolve_sidecar_path x \<or> st_exchange it \<noteq> i" using assms(2-4) f'(2,3) by auto
qed

text \<open>C16: what the governor takes out of a build stays out: the build keeps exactly the rows of the exchanges that are not
  held, no held exchange is locked, and beside every one of them stands a hold on the very target it has, so that a later
  build makes no anchor of it, whatever was released in the same step. Every chat row has its record in a plain sidecar
  of the directory, and every write succeeds.\<close>

theorem held_exchanges_leave_training:
  assumes "apply_in_build (\<lambda>_ _. True) tf sha rp fs now0 build True r_base cfg rows s = (s', Inr (out, Gov_Done p written released))"
    and "fallback_dir s = None" "\<forall>f \<in> set (state_files (main_dir s)). resolve_sidecar_path (session_name_from_sidecar f) = Some f"
    and "\<forall>r \<in> set rows. row_source r = ''chat'' \<longrightarrow> (\<exists>i f. row_index r = Some i \<and> resolve_sidecar_path (row_session r) = Some f
           \<and> session_name_from_sidecar f = row_session r \<and> gov_record s (row_session r) i)"
  shows "\<exists>ex K. exchange_rows tf (names_of rp (main_dir s)) rows = Inr ex \<and> K = {row_key (ex ! j) | j. j < length ex \<and> j \<in> set (gp_held_ids p)}
    \<and> out = filter (\<lambda>r. \<not> (row_source r = ''chat'' \<and> (\<exists>i. row_index r = Some i \<and> (row_session r, i) \<in> K))) rows
    \<and> (\<forall>(x, i) \<in> K. (\<exists>r0. found s x i = Some r0 \<and> \<not> truthy (jget r0 ''locked''))
         \<and> (\<exists>r. found s' x i = Some r \<and> (\<forall>ck chats fb. build_dialogue_anchor sha ck rp chats x i r fb = Inr None)))"
proof -
  obtain st where gov: "govern (\<lambda>_ _. True) tf sha rp now0 build True st r_base rows s = (s', Inr (out, Gov_Done p written released))"
    using assms(1) by (auto simp: apply_in_build_def split: sum.splits if_splits prod.splits)
  obtain ex where ex: "exchange_rows tf (names_of rp (main_dir s)) rows = Inr ex"
    using gov by (cases "exchange_rows tf (names_of rp (main_dir s)) rows") (simp_all add: govern_def)
  have row: "\<exists>f. resolve_sidecar_path (gr_session e) = Some f \<and> session_name_from_sidecar f = gr_session e \<and> gov_record s (gr_session e) (gr_exchange e)"
    if "e \<in> set ex" for e
    using exchange_rows_from [OF ex that] assms(4) by fastforce
  then have "\<forall>e \<in> set ex. resolve_sidecar_path (gr_session e) \<noteq> None \<and> gov_record s (gr_session e) (gr_exchange e)" by fastforce
  from govern_run [OF gov ex assms(2) this] obtain ex' s1 standing where r: "py_fold (unflag_locked s) [] ex = Inr ex'" "p = govern_plan st r_base ex'"
    "\<forall>e \<in> set (held_rows p ex). held_at sha rp s1 (gr_session e) (gr_exchange e)" "set (dkeys (main_dir s1)) = set (dkeys (main_dir s))"
    "py_fold (standing_in sha rp (List.map row_key (held_rows p ex)) (main_dir s1)) [] (state_files (main_dir s1)) = Inr standing"
    "set released \<subseteq> set standing" "s' = foldl (release_hold (\<lambda>_ _. True)) s1 released"
    "py_fold (rows_left (List.map row_key (held_rows p ex))) [] rows = Inr out" by blast
  let ?K = "set (List.map row_key (held_rows p ex))"
  have tidy: "\<forall>f \<in> set (state_files (main_dir s1)). resolve_sidecar_path (session_name_from_sidecar f) = Some f"
    using assms(3) state_files_keys [OF r(4)] by simp
  have all: "\<forall>(x, i) \<in> ?K. (\<exists>r0. found s x i = Some r0 \<and> \<not> truthy (jget r0 ''locked''))
         \<and> (\<exists>r. found s' x i = Some r \<and> (\<forall>ck chats fb. build_dialogue_anchor sha ck rp chats x i r fb = Inr None))"
  proof
    fix xi assume xi: "xi \<in> ?K"
    then obtain e where e: "e \<in> set (held_rows p ex)" "xi = (gr_session e, gr_exchange e)" by (auto simp: row_key_def)
    then have "e \<in> set ex" by (auto simp: held_rows_in)
    from row [OF this] obtain f r0 where f: "resolve_sidecar_path (gr_session e) = Some f" "session_name_from_sidecar f = gr_session e"
      "found s (gr_session e) (gr_exchange e) = Some r0" by (auto simp: gov_record_def)
    have "held_at sha rp s' (gr_session e) (gr_exchange e)"
      unfolding r(7) by (rule holds_survive_release [OF _ f(1,2) _ r(5,6) tidy]) (use r(3) e xi in auto)
    then obtain r' where r': "found s' (gr_session e) (gr_exchange e) = Some r'" "kept_out sha rp r'" by (auto simp: held_at_def kept_out_def)
    have "\<not> truthy (jget r0 ''locked'')" using held_not_locked [OF r(1) e(1) [unfolded r(2)] f(3)] .
    then show "case xi of (x, i) \<Rightarrow> (\<exists>r0. found s x i = Some r0 \<and> \<not> truthy (jget r0 ''locked''))
         \<and> (\<exists>r. found s' x i = Some r \<and> (\<forall>ck chats fb. build_dialogue_anchor sha ck rp chats x i r fb = Inr None))"
      using f(3) r' unfolding e(2) by (auto simp: build_dialogue_anchor_def)
  qed
  have out: "out = filter (\<lambda>r. \<not> (row_source r = ''chat'' \<and> (\<exists>i. row_index r = Some i \<and> (row_session r, i) \<in> ?K))) rows"
    using rows_left_filter [OF r(8)] by simp
  have "?K = {row_key (ex ! j) | j. j < length ex \<and> j \<in> set (gp_held_ids p)}" by (auto simp: held_rows_in)
  with ex out all show ?thesis by (intro exI [of _ ex] exI [of _ ?K] conjI)
qed

text \<open>Two exchanges of one chat, the second with the habit.\<close>

definition chat_row :: "int \<Rightarrow> string \<Rightarrow> build_row" where
  "chat_row i t = \<lparr>messages = [], row_age = 0, lr_multiplier = 1, row_source = ''chat'', row_session = ''a.json'', row_index = Some i,
     order_key = ([], 0), row_target = t, row_anchor = None, persona_keys = [], fact_keys = [], unmask_user = False, preview = False,
     user_loss_weight = None\<rparr>"

definition two_records :: sidecar where
  "two_records = \<lparr>main_dir = [(''a.state.json'', Parsed (JObj [(''exchanges'', JObj [(''0'', JObj [(''target'', JStr ''x'')]), (''1'', JObj [(''target'', JStr ''m'')])])]))],
     fallback_dir = None, ledger_events = []\<rparr>"

definition sample_flags :: "string \<Rightarrow> string list \<Rightarrow> (string, bool) dict" where
  "sample_flags t ns = [(''motive'', t = ''m'')]"

definition govern_sample :: "sidecar \<Rightarrow> sidecar \<times> (build_row list \<times> gov_outcome) py" where
  "govern_sample s = apply_in_build (\<lambda>_ _. True) sample_flags (\<lambda>t. t) (\<lambda>_. []) (\<lambda>_. Inl ValueError) ''now'' ''b1'' True
     [(''motive'', Some (1 / 10))] (JObj []) [chat_row 0 ''x'', chat_row 1 ''m''] s"

definition sample_ex :: "gov_row list" where
  "sample_ex = [\<lparr>gr_session = ''a.json'', gr_exchange = 0, gr_ts = [], gr_dose = 1, gr_flags = [(''motive'', False)]\<rparr>,
                \<lparr>gr_session = ''a.json'', gr_exchange = 1, gr_ts = [], gr_dose = 1, gr_flags = [(''motive'', True)]\<rparr>]"

definition sample_plan :: gov_plan where
  "sample_plan = plan sample_ex [(''motive'', Some (1 / 10)), (''stock'', None)] (3 / 2) [''motive'', ''stock'']"

lemma sample_parts:
  "build_settings (\<lambda>_. Inl ValueError) (JObj []) = Inr build_defaults"
  "exchange_rows sample_flags (names_of (\<lambda>_. []) (main_dir two_records)) [chat_row 0 ''x'', chat_row 1 ''m''] = Inr sample_ex"
  "py_fold (unflag_locked two_records) [] sample_ex = Inr sample_ex"
  "gp_held_ids sample_plan = [1]"
  by code_simp+

lemma sample_write:
  "\<exists>d. main_dir (snd (set_record_field True ''a.json'' 1 ''governor'' (Some v) two_records)) = [(''a.state.json'', Parsed (JObj d))]
     \<and> jget d ''exchanges'' = JObj [(''0'', JObj [(''target'', JStr ''x'')]), (''1'', JObj [(''target'', JStr ''m''), (''governor'', JObj v)])]"
proof -
  have f: "resolve_sidecar_path ''a.json'' = Some ''a.state.json''" by code_simp
  have i: "int_str 1 = ''1''" by code_simp
  have fd: "found two_records ''a.json'' 1 = Some [(''target'', JStr ''m'')]" by code_simp
  have l: "load two_records ''a.json'' = [(''exchanges'', JObj [(''0'', JObj [(''target'', JStr ''x'')]), (''1'', JObj [(''target'', JStr ''m'')])]),
      (''schema_version'', JInt 1), (''source_session'', JStr ''a.json'')]" by code_simp
  have m: "main_dir two_records = [(''a.state.json'', Parsed (JObj [(''exchanges'', JObj [(''0'', JObj [(''target'', JStr ''x'')]), (''1'', JObj [(''target'', JStr ''m'')])])]))]"
    by (simp add: two_records_def)
  show ?thesis
    by (simp add: set_record_field_def f fd set_field_def save_def l put_exchange_def i exchanges_of_def m)
qed

lemma govern_sample_run:
  "\<exists>s' w rel. govern_sample two_records = (s', Inr ([chat_row 0 ''x''], Gov_Done sample_plan w rel))"
proof -
  let ?st = build_defaults and ?b = "[(''motive'', Some (1 / 10 :: rat))]"
  let ?v = "hold_field (\<lambda>t. t) (\<lambda>_. []) ''now'' ''b1'' ?st ?b sample_plan ''motive'' [(''target'', JStr ''m'')]"
  obtain d where d: "main_dir (snd (set_record_field True ''a.json'' 1 ''governor'' (Some ?v) two_records)) = [(''a.state.json'', Parsed (JObj d))]"
    "jget d ''exchanges'' = JObj [(''0'', JObj [(''target'', JStr ''x'')]), (''1'', JObj [(''target'', JStr ''m''), (''governor'', JObj ?v)])]"
    using sample_write by blast
  obtain b s1 where s1: "set_record_field True ''a.json'' 1 ''governor'' (Some ?v) two_records = (b, s1)" by fastforce
  define e1 where "e1 = \<lparr>gr_session = ''a.json'', gr_exchange = 1, gr_ts = [], gr_dose = 1, gr_flags = [(''motive'', True)]\<rparr>"
  have hs: "held_rows sample_plan sample_ex = [e1]" by (simp add: held_rows_def sample_parts(4) sample_ex_def e1_def)
  have e: "record_of two_records e1 = Inr [(''target'', JStr ''m'')]" "habit_of (gs_habits ?st) e1 = ''motive''"
    "gr_session e1 = ''a.json''" "gr_exchange e1 = 1" "row_key e1 = (''a.json'', 1)"
    unfolding e1_def by code_simp+
  have sf: "state_files (main_dir s1) = [''a.state.json'']" using d(1) by (simp add: s1 state_files_def) code_simp
  have x: "session_name_from_sidecar ''a.state.json'' = ''a.json''" "str_int ''1'' = Some 1" by code_simp+
  have st: "py_fold (standing_in (\<lambda>t. t) (\<lambda>_. []) [(''a.json'', 1)] (main_dir s1)) [] (state_files (main_dir s1)) = Inr []"
    unfolding sf using d by (simp add: s1 standing_in_def x standing_of_def governor_held_def py_or_def)
  have p: "plan sample_ex (List.map (\<lambda>h. (h, dget_or ?b h None)) (gs_habits ?st)) (gs_k ?st) (gs_habits ?st) = sample_plan"
    by (simp add: sample_plan_def build_defaults_def dget_or_def)
  have w: "write_holds (\<lambda>_. True) (\<lambda>e r. hold_field (\<lambda>t. t) (\<lambda>_. []) ''now'' ''b1'' ?st ?b sample_plan (habit_of (gs_habits ?st) e) r)
      True two_records 0 [e1] = (s1, Inr (if b then 1 else 0))"
    by (simp add: e s1)
  have left: "py_fold (rows_left [(''a.json'', 1)]) [] [chat_row 0 ''x'', chat_row 1 ''m''] = Inr [chat_row 0 ''x'']"
    by (simp add: rows_left_def chat_row_def)
  have rel: "release_plan [] ex ?b k band hs' = []" for ex k band hs'
    by (auto simp: release_plan_def split: option.split)
  have "govern (\<lambda>_ _. True) sample_flags (\<lambda>t. t) (\<lambda>_. []) ''now'' ''b1'' True ?st ?b [chat_row 0 ''x'', chat_row 1 ''m''] two_records
    = (s1, Inr ([chat_row 0 ''x''], Gov_Done sample_plan (if b then 1 else 0) []))"
    unfolding govern_def
    by (simp only: sample_parts(2,3) py_bind_simps sum.case prod.case Let_def p hs list.map e(5) w st left rel if_True foldl_Nil)
  moreover have "gs_enabled ?st" "gs_habits ?st \<noteq> []" by (simp_all add: build_defaults_def)
  ultimately show ?thesis by (simp add: govern_sample_def apply_in_build_def sample_parts(1))
qed

theorem held_exchanges_leave_training_witness:
  "\<exists>s' w rel r. govern_sample two_records = (s', Inr ([chat_row 0 ''x''], Gov_Done sample_plan w rel))
     \<and> found s' ''a.json'' 1 = Some r \<and> build_dialogue_anchor (\<lambda>t. t) (\<lambda>t. t) (\<lambda>_. []) [] ''a.json'' 1 r None = Inr None"
proof -
  obtain s' w rel where run: "govern_sample two_records = (s', Inr ([chat_row 0 ''x''], Gov_Done sample_plan w rel))"
    using govern_sample_run by blast
  have fb: "fallback_dir two_records = None" by (simp add: two_records_def)
  have tidy: "\<forall>f \<in> set (state_files (main_dir two_records)). resolve_sidecar_path (session_name_from_sidecar f) = Some f" by code_simp
  have f: "resolve_sidecar_path ''a.json'' = Some ''a.state.json''" "session_name_from_sidecar ''a.state.json'' = ''a.json''" by code_simp+
  have "found two_records ''a.json'' 0 = Some [(''target'', JStr ''x'')]" "found two_records ''a.json'' 1 = Some [(''target'', JStr ''m'')]" by code_simp+
  then have "gov_record two_records ''a.json'' 0" "gov_record two_records ''a.json'' 1" by (simp_all add: gov_record_def)
  then have rows: "\<forall>r \<in> set [chat_row 0 ''x'', chat_row 1 ''m'']. row_source r = ''chat'' \<longrightarrow> (\<exists>i f. row_index r = Some i
      \<and> resolve_sidecar_path (row_session r) = Some f \<and> session_name_from_sidecar f = row_session r \<and> gov_record two_records (row_session r) i)"
    using f by (simp add: chat_row_def)
  obtain ex K where k: "exchange_rows sample_flags (names_of (\<lambda>_. []) (main_dir two_records)) [chat_row 0 ''x'', chat_row 1 ''m''] = Inr ex"
    "K = {row_key (ex ! j) | j. j < length ex \<and> j \<in> set (gp_held_ids sample_plan)}"
    "\<forall>(x, i) \<in> K. (\<exists>r0. found two_records x i = Some r0 \<and> \<not> truthy (jget r0 ''locked''))
         \<and> (\<exists>r. found s' x i = Some r \<and> (\<forall>ck chats fb. build_dialogue_anchor (\<lambda>t. t) ck (\<lambda>_. []) chats x i r fb = Inr None))"
    using held_exchanges_leave_training [OF run [unfolded govern_sample_def] fb tidy rows] by blast
  have "(''a.json'', 1) \<in> K"
    using k(1) unfolding k(2) sample_parts(2,4) by (auto simp: sample_ex_def row_key_def)
  then show ?thesis using k(3) run by auto
qed

text \<open>One state document that is a list ends the step after the holds are written: the rows train, their exchanges are held.\<close>

lemma list_document_undoes_the_build:
  assumes "build_settings fs cfg = Inr st" "gs_enabled st" "gs_habits st \<noteq> []" "r_base \<noteq> []"
    and "exchange_rows tf (names_of rp (main_dir s)) rows = Inr ex" "py_fold (unflag_locked s) [] ex = Inr ex'"
    and "p = plan ex' (List.map (\<lambda>h. (h, dget_or r_base h None)) (gs_habits st)) (gs_k st) (gs_habits st)"
    and "write_holds (\<lambda>_. True) (\<lambda>e r. hold_field sha rp now0 build st r_base p (habit_of (gs_habits st) e) r) True s 0 (held_rows p ex) = (s1, Inr n)"
    and "state_files (main_dir s1) = f # fs'" "dget (main_dir s1) f = Some (Parsed (JList l))"
  shows "apply_in_build (\<lambda>_ _. True) tf sha rp fs now0 build True r_base cfg rows s = (s1, Inr (rows, Gov_Error AttributeError))"
  using assms by (simp add: apply_in_build_def govern_def Let_def standing_in_def)

text \<open>\<open>apply_in_build\<close> raises on a setting it cannot read, which it reads outside its \<open>try\<close>.\<close>

lemma settings_raise:
  "apply_in_build ok tf sha rp fs now0 build w r_base (JObj [(''governor'', JObj [(''habits'', JInt 5)])]) rows s = (s, Inl TypeError)"
  by (simp add: apply_in_build_def build_settings_def py_or_def)

end
