(* ===== verification/Persona_Hygiene.thy ===== *)
theory Persona_Hygiene
  imports Ledger Gist
begin

text \<open>
  Persona hygiene (\<open>core/persona_hygiene.py\<close>): the statements of the recall log and their state, the judge's
  verdicts, what waits to be judged, the plan, and its application to both halves, the recall log through
  \<open>write_supersede\<close> and \<open>write_restore\<close> of \<open>core/reflection_writer.py\<close> and the consolidation ledger. The judge,
  the stop flag, the clock (one stamp per statement written, per half), \<open>repr\<close> and the elision mark \<open>dots\<close> are
  arguments; the progress lines are left out.
\<close>

section \<open>Reading the logs\<close>

definition read_records :: "logfile \<Rightarrow> jobj list" where
  "read_records f = List.map obj_of (filter is_obj (recs (log_lines f)))"

definition read_oplogs :: "logfile list \<Rightarrow> jobj list" where
  "read_oplogs fs = concat (List.map read_records fs)"

datatype st_state = Live | Withheld | Other

record statement =
  st_key :: pykey
  st_content :: json
  st_state :: st_state
  st_insert :: jobj
  st_sources :: "string list"
  st_ts :: string

record reading =
  rd_last :: "(pykey, jobj) dict"
  rd_inserts :: "(pykey, jobj) dict"
  rd_sources :: "(pykey, string list) dict"

definition reading_op :: "jobj \<Rightarrow> bool" where
  "reading_op r = (truthy (jget r ''key'')
     \<and> jget r ''op'' \<in> {JStr ''insert'', JStr ''evict'', JStr ''supersede''})"

definition persona_insert :: "jobj \<Rightarrow> bool" where
  "persona_insert r = (jget r ''op'' = JStr ''insert'' \<and> jget r ''kind'' = JStr ''persona'')"

definition source_of :: "(json \<Rightarrow> string) \<Rightarrow> jobj \<Rightarrow> string option" where
  "source_of rp r = (if truthy (jget r ''source_session'') \<and> jget r ''exchange_index'' \<noteq> JNull
     then Some (fstr rp (jget r ''source_session'') @ ''#'' @ fstr rp (jget r ''exchange_index'')) else None)"

definition add_source :: "string option \<Rightarrow> string list \<Rightarrow> string list" where
  "add_source x xs = (case x of None \<Rightarrow> xs | Some y \<Rightarrow> List.insert y xs)"

definition reading_step :: "(json \<Rightarrow> string) \<Rightarrow> reading \<Rightarrow> jobj \<Rightarrow> reading py" where
  "reading_step rp st r =
     (if \<not> reading_op r then Inr st
      else py_bind (hash_key (jget r ''key'')) (\<lambda>k.
        Inr (if persona_insert r
             then st\<lparr>rd_last := dset k r (rd_last st), rd_inserts := dset k r (rd_inserts st),
                     rd_sources := dset k (add_source (source_of rp r) (dget_or (rd_sources st) k []))
                       (rd_sources st)\<rparr>
             else st\<lparr>rd_last := dset k r (rd_last st)\<rparr>)))"

definition empty_reading :: reading where
  "empty_reading = \<lparr>rd_last = [], rd_inserts = [], rd_sources = []\<rparr>"

definition hygiene_reason :: string where
  "hygiene_reason = ''persona_hygiene''"

definition state_after :: "(json \<Rightarrow> string) \<Rightarrow> jobj \<Rightarrow> st_state" where
  "state_after rp r =
     (if jget r ''op'' = JStr ''insert'' then Live
      else if jget r ''op'' = JStr ''supersede''
          \<and> startswith (fstr rp (py_or (jget r ''reason'') (JStr []))) (hygiene_reason @ '':'') then Withheld
      else Other)"

definition statement_of :: "(json \<Rightarrow> string) \<Rightarrow> pykey \<Rightarrow> jobj \<Rightarrow> jobj \<Rightarrow> string list \<Rightarrow> statement" where
  "statement_of rp k lst ins src =
     \<lparr>st_key = k, st_content = py_or (jget ins ''content'') (JStr []), st_state = state_after rp lst,
      st_insert = ins, st_sources = sort src, st_ts = fstr rp (py_or (jget ins ''ts'') (JStr []))\<rparr>"

text \<open>A key with an insert has a last record.\<close>

definition statements :: "(json \<Rightarrow> string) \<Rightarrow> jobj list \<Rightarrow> (pykey, statement) dict py" where
  "statements rp rs = py_bind (py_fold (reading_step rp) empty_reading rs) (\<lambda>st.
     Inr (List.map (\<lambda>(k, ins). (k, statement_of rp k (dget_or (rd_last st) k ins) ins (dget_or (rd_sources st) k [])))
            (rd_inserts st)))"

section \<open>Verdicts and the plan\<close>

definition judge_key_json :: "string option \<Rightarrow> json" where
  "judge_key_json key = (case key of None \<Rightarrow> JNull | Some k \<Rightarrow> JStr k)"

definition is_verdict :: "jobj \<Rightarrow> bool" where
  "is_verdict r = (jget r ''record'' = JStr ''verdict'' \<and> jget r ''outcome'' = JStr ''verdict'')"

definition verdicts :: "jobj list \<Rightarrow> string option \<Rightarrow> (pykey, jobj) dict py" where
  "verdicts records key = py_fold (\<lambda>out r.
     if is_verdict r \<and> (key = None \<or> jget r ''judge_key'' = judge_key_json key)
     then py_bind (hash_key (jget r ''key'')) (\<lambda>k. Inr (dset k r out)) else Inr out) [] records"

definition judged_keys :: "jobj list \<Rightarrow> string option \<Rightarrow> pykey list py" where
  "judged_keys records key = py_fold (\<lambda>out r.
     if is_verdict r \<and> jget r ''judge_key'' = judge_key_json key
     then py_bind (hash_key (jget r ''key'')) (\<lambda>k. Inr (List.insert k out)) else Inr out) [] records"

definition todo :: "(pykey, statement) dict \<Rightarrow> jobj list \<Rightarrow> string option \<Rightarrow> bool \<Rightarrow> statement list py" where
  "todo sts records key rejudge = py_bind (judged_keys records key) (\<lambda>done_keys.
     Inr (sort_desc st_ts (filter (\<lambda>s. st_state s \<in> {Live, Withheld}
        \<and> (rejudge \<or> st_key s \<notin> set done_keys)) (List.map snd sts))))"

definition kind_of :: "(pykey, jobj) dict \<Rightarrow> statement \<Rightarrow> json" where
  "kind_of vs s = jget (dget_or vs (st_key s) []) ''kind''"

definition plan_hygiene ::
  "(pykey, statement) dict \<Rightarrow> jobj list \<Rightarrow> string option \<Rightarrow> (statement list \<times> statement list) py" where
  "plan_hygiene sts records key = py_bind (verdicts records key) (\<lambda>vs.
     let withhold = filter (\<lambda>s. st_state s = Live \<and> kind_of vs s = JStr ''habit'') (List.map snd sts);
         restore = filter (\<lambda>s. st_state s = Withheld \<and> kind_of vs s = JStr ''affirm'') (List.map snd sts)
     in Inr (sort_key st_ts withhold, sort_key st_ts restore))"

section \<open>The writer's two operations\<close>

definition supersede_item :: "string \<Rightarrow> string \<Rightarrow> jobj \<Rightarrow> int \<times> logfile \<Rightarrow> (int \<times> logfile) py" where
  "supersede_item ts run_id s nf = py_bind (strip_or_empty (jget s ''key'')) (\<lambda>key.
     if key = [] then Inr nf
     else py_bind (strip_or_empty (jget s ''content'')) (\<lambda>content.
       Inr (fst nf + 1, log_append [(''run_id'', JStr run_id), (''ts'', JStr ts), (''op'', JStr ''supersede''),
         (''reason'', py_or (jget s ''reason'') (JStr ''reconciled'')),
         (''kind'', py_or (jget s ''kind'') (JStr [])), (''key'', JStr key), (''content'', JStr content)] (snd nf))))"

definition write_supersede :: "string \<Rightarrow> string \<Rightarrow> jobj list \<Rightarrow> logfile \<Rightarrow> (int \<times> logfile) py" where
  "write_supersede ts run_id items f =
     py_fold (\<lambda>nf s. supersede_item ts (if run_id = [] then ''reconcile-'' @ ts else run_id) s nf) (0, f) items"

definition restored_insert :: "string \<Rightarrow> string \<Rightarrow> string \<Rightarrow> jobj \<Rightarrow> jobj" where
  "restored_insert ts run_id reason r =
     dmerge r [(''run_id'', JStr run_id), (''ts'', JStr ts),
               (''restored'', JStr (if reason = [] then ''restored'' else reason))]"

definition write_restore :: "string \<Rightarrow> string \<Rightarrow> string \<Rightarrow> json list \<Rightarrow> logfile \<Rightarrow> int \<times> logfile" where
  "write_restore ts run_id reason inserts f =
     foldl (\<lambda>(n, f) j.
       if \<not> is_obj j \<or> jget (obj_of j) ''op'' \<noteq> JStr ''insert'' \<or> \<not> truthy (jget (obj_of j) ''key'') then (n, f)
       else (n + 1, log_append (restored_insert ts (if run_id = [] then ''restore-'' @ ts else run_id) reason (obj_of j)) f))
     (0, f) inserts"

section \<open>Applying a plan\<close>

text \<open>\<open>" ".join(str(x).split())\<close> clipped to \<open>n\<close> characters (\<open>head\<close> of \<open>core/ask_judge.py\<close>).\<close>

definition head_of :: "(json \<Rightarrow> string) \<Rightarrow> string \<Rightarrow> json \<Rightarrow> nat \<Rightarrow> string" where
  "head_of rp dots v n =
     (let s = join '' '' (words_from [] (fstr rp (py_or v (JStr []))))
      in if length s \<le> n then s else take (n - 1) s @ dots)"

type_synonym tally = "(pykey, int) dict"

definition bump :: "pykey \<Rightarrow> int \<Rightarrow> tally \<Rightarrow> tally" where
  "bump k n t = dset k (dget_or t k 0 + n) t"

record both_halves =
  bh_oplog :: logfile
  bh_ledger :: logfile

record hygiene_env =
  he_rp :: "json \<Rightarrow> string"
  he_dots :: string
  he_op_ts :: "pykey \<Rightarrow> string"
  he_led_ts :: "pykey \<Rightarrow> string"
  he_run :: string

fun key_json :: "pykey \<Rightarrow> json" where
  "key_json (KStr s) = JStr s"
| "key_json (KNum x) = JFloat x"
| "key_json KNone = JNull"

text \<open>The keys of the ledger are content hashes; another key is refused as \<open>write_supersede\<close> refuses it.\<close>

fun text_key :: "pykey \<Rightarrow> string py" where
  "text_key (KStr s) = Inr s"
| "text_key _ = Inl AttributeError"

definition withhold_reason :: "hygiene_env \<Rightarrow> (pykey, jobj) dict \<Rightarrow> statement \<Rightarrow> string" where
  "withhold_reason e vs s = hygiene_reason @ '': describes a habit of hers, not a disposition she stands by (''
     @ head_of (he_rp e) (he_dots e) (py_or (jget (dget_or vs (st_key s) []) ''why'') (JStr [])) 160 @ '')''"

definition withhold_one ::
  "hygiene_env \<Rightarrow> (pykey, jobj) dict \<Rightarrow> both_halves \<times> tally \<Rightarrow> statement \<Rightarrow> (both_halves \<times> tally) py" where
  "withhold_one e vs wt s =
     (let reason = withhold_reason e vs s; w = fst wt in
      py_bind (write_supersede (he_op_ts e (st_key s)) (he_run e)
          [[(''key'', key_json (st_key s)), (''kind'', JStr ''persona''), (''content'', st_content s),
            (''reason'', JStr reason)]] (bh_oplog w)) (\<lambda>(n, op).
        py_bind (text_key (st_key s)) (\<lambda>k.
          Inr (w\<lparr>bh_oplog := op, bh_ledger := snd (supersede (he_led_ts e (st_key s)) reason [k] (bh_ledger w))\<rparr>,
               bump (KStr ''withheld'') 1 (snd wt)))))"

definition restore_reason :: "string option \<Rightarrow> string" where
  "restore_reason key = hygiene_reason @ '': judged a disposition she stands by under ''
     @ (case key of None \<Rightarrow> ''None'' | Some k \<Rightarrow> k)"

definition restore_one ::
  "hygiene_env \<Rightarrow> string option \<Rightarrow> (pykey, jobj) dict \<Rightarrow> both_halves \<times> tally \<Rightarrow> statement \<Rightarrow> (both_halves \<times> tally) py" where
  "restore_one e key folded wt s =
     (let w = fst wt;
          op = snd (write_restore (he_op_ts e (st_key s)) (he_run e) (restore_reason key) [JObj (st_insert s)] (bh_oplog w));
          t = bump (KStr ''restored'') 1 (snd wt) in
      case dget folded (st_key s) of
        None \<Rightarrow> Inr (w\<lparr>bh_oplog := op\<rparr>, t)
      | Some r \<Rightarrow>
          if r = [] \<or> \<not> truthy (jget r ''superseded'') then Inr (w\<lparr>bh_oplog := op\<rparr>, t)
          else py_bind (text_key (st_key s)) (\<lambda>k.
            Inr (w\<lparr>bh_oplog := op,
                   bh_ledger := register (he_led_ts e (st_key s)) k (py_or (jget r ''type'') (JStr ''persona''))
                     (reactivated_payload r) (bh_ledger w)\<rparr>, t)))"

text \<open>Without a fold handed in, the ledger's own is taken, and only when something is to be restored.\<close>

definition apply_hygiene ::
  "hygiene_env \<Rightarrow> statement list \<Rightarrow> statement list \<Rightarrow> jobj list \<Rightarrow> string option \<Rightarrow> (pykey, jobj) dict option
   \<Rightarrow> both_halves \<Rightarrow> (both_halves \<times> tally) py" where
  "apply_hygiene e withhold restore records key ledger_fold w =
     py_bind (verdicts records key) (\<lambda>vs.
       py_bind (case ledger_fold of Some d \<Rightarrow> Inr d
                | None \<Rightarrow> if restore = [] then Inr [] else fold_ledger (bh_ledger w)) (\<lambda>folded.
         py_bind (py_fold (withhold_one e vs) (w, []) withhold) (\<lambda>wt.
           py_fold (restore_one e key folded) wt restore)))"

section \<open>One pass\<close>

record judging =
  jd_store :: logfile
  jd_tally :: tally

fun judge_items ::
  "(statement \<Rightarrow> jobj) \<Rightarrow> (nat \<Rightarrow> bool) \<Rightarrow> nat \<Rightarrow> statement list \<Rightarrow> judging \<Rightarrow> judging py" where
  "judge_items judge stop n [] g = Inr g"
| "judge_items judge stop n (s # ss) g =
     (if stop n then Inr (g\<lparr>jd_tally := bump (KStr ''stopped'') (int (length (s # ss))) (jd_tally g)\<rparr>)
      else py_bind (hash_key (py_or (py_or (jget (judge s) ''kind'') (jget (judge s) ''outcome'')) (JStr ''malformed'')))
        (\<lambda>label. judge_items judge stop (n + 1) ss
           \<lparr>jd_store = log_append (judge s) (jd_store g), jd_tally = bump label 1 (jd_tally g)\<rparr>))"

definition judge_all ::
  "(pykey, statement) dict \<Rightarrow> (statement \<Rightarrow> jobj) \<Rightarrow> string \<Rightarrow> logfile \<Rightarrow> int \<Rightarrow> bool \<Rightarrow> (nat \<Rightarrow> bool) \<Rightarrow> judging py" where
  "judge_all sts judge key store limit rejudge stop =
     py_bind (todo sts (read_records store) (Some key) rejudge) (\<lambda>items.
       judge_items judge stop 1 (if 0 < limit then take (nat limit) items else items)
         \<lparr>jd_store = store, jd_tally = []\<rparr>)"

definition add_tally :: "tally \<Rightarrow> tally \<Rightarrow> tally" where
  "add_tally t u = foldl (\<lambda>t (k, n). bump k n t) t u"

text \<open>
  \<open>dirs\<close> are the logs read before the writer's own, which comes last. The result: both halves, the store of
  verdicts, the tally and the keys withheld.
\<close>

definition run_hygiene ::
  "hygiene_env \<Rightarrow> logfile list \<Rightarrow> (statement \<Rightarrow> jobj) option \<Rightarrow> string option \<Rightarrow> logfile \<Rightarrow> (pykey, jobj) dict option
   \<Rightarrow> int \<Rightarrow> (nat \<Rightarrow> bool) \<Rightarrow> both_halves \<Rightarrow> (both_halves \<times> logfile \<times> tally \<times> pykey list) py" where
  "run_hygiene e dirs judge key store ledger_fold limit stop w =
     (case (judge, key) of
        (Some j, Some k) \<Rightarrow>
          if k = [] then Inr (w, store, [], [])
          else py_bind (statements (he_rp e) (read_oplogs (dirs @ [bh_oplog w]))) (\<lambda>sts.
            py_bind (judge_all sts j k store limit False stop) (\<lambda>g.
              py_bind (statements (he_rp e) (read_oplogs (dirs @ [bh_oplog w]))) (\<lambda>sts2.
                py_bind (plan_hygiene sts2 (read_records (jd_store g)) key) (\<lambda>(wh, re).
                  py_bind (apply_hygiene e wh re (read_records (jd_store g)) key ledger_fold w) (\<lambda>(w2, t).
                    Inr (w2, jd_store g, add_tally (jd_tally g) t, List.map st_key wh))))))
      | _ \<Rightarrow> Inr (w, store, [], []))"

section \<open>The reading is a keyed log\<close>

type_synonym reading_view = "jobj option \<times> jobj option \<times> string list"

definition reading_key :: "jobj \<Rightarrow> pykey option" where
  "reading_key r = (if reading_op r then (case hash_key (jget r ''key'') of Inr k \<Rightarrow> Some k | Inl _ \<Rightarrow> None) else None)"

definition reading_ok :: "jobj \<Rightarrow> bool" where
  "reading_ok r = (reading_op r \<longrightarrow> (\<exists>k. hash_key (jget r ''key'') = Inr k))"

definition reading_view :: "reading \<Rightarrow> pykey \<Rightarrow> reading_view" where
  "reading_view st k = (dget (rd_last st) k, dget (rd_inserts st) k, dget_or (rd_sources st) k [])"

fun reading_view_op :: "(json \<Rightarrow> string) \<Rightarrow> jobj \<Rightarrow> reading_view \<Rightarrow> reading_view" where
  "reading_view_op rp r (l, i, src) =
     (if persona_insert r then (Some r, Some r, add_source (source_of rp r) src) else (Some r, i, src))"

interpretation rd: keyed_log "reading_step rp" reading_ok reading_key reading_view "reading_view_op rp" for rp
proof
  fix s r
  show "(\<exists>s'. reading_step rp s r = Inr s') = reading_ok r"
    by (cases "hash_key (jget r ''key'')") (auto simp: reading_step_def reading_ok_def)
next
  fix s r s' k
  assume "reading_step rp s r = Inr s'"
  then show "reading_view s' k =
      (if reading_key r = Some k then reading_view_op rp r (reading_view s k) else reading_view s k)"
    by (cases "hash_key (jget r ''key'')") (auto simp: reading_step_def reading_key_def reading_view_def split: if_splits)
qed

definition replay_reading :: "(json \<Rightarrow> string) \<Rightarrow> pykey \<Rightarrow> jobj list \<Rightarrow> reading_view" where
  "replay_reading rp k rs = foldl (\<lambda>v r. reading_view_op rp r v) (None, None, []) (rd.on_key k rs)"

definition view_statement :: "(json \<Rightarrow> string) \<Rightarrow> pykey \<Rightarrow> reading_view \<Rightarrow> statement option" where
  "view_statement rp k v = (case v of (l, i, src) \<Rightarrow>
     map_option (\<lambda>ins. statement_of rp k (case l of None \<Rightarrow> ins | Some r \<Rightarrow> r) ins src) i)"

lemma replay_reading_append:
  "replay_reading rp k (rs @ rs') = foldl (\<lambda>v r. reading_view_op rp r v) (replay_reading rp k rs) (rd.on_key k rs')"
  by (simp add: replay_reading_def)

lemma statements_ok: "(\<exists>sts. statements rp rs = Inr sts) \<longleftrightarrow> (\<forall>r \<in> set rs. reading_ok r)"
  using rd.replay_ok [of rp empty_reading rs] by (auto simp: statements_def py_bind_eq_Inr)

lemma statements_key:
  assumes "statements rp rs = Inr sts"
  shows "dget sts k = view_statement rp k (replay_reading rp k rs)"
proof -
  obtain st where st: "py_fold (reading_step rp) empty_reading rs = Inr st"
      "sts = List.map (\<lambda>(k, ins). (k, statement_of rp k (dget_or (rd_last st) k ins) ins (dget_or (rd_sources st) k [])))
         (rd_inserts st)"
    using assms by (auto simp: statements_def py_bind_eq_Inr)
  have "reading_view empty_reading k = (None, None, [])" by (simp add: reading_view_def empty_reading_def)
  then have "replay_reading rp k rs = reading_view st k"
    using rd.replay_view [OF st(1), of k] by (simp add: replay_reading_def)
  then show ?thesis by (simp add: st(2) view_statement_def reading_view_def dget_or_def)
qed

lemma statements_distinct:
  assumes "statements rp rs = Inr sts"
  shows "distinct (dkeys sts)"
proof -
  have "py_fold (reading_step rp) s rs = Inr s' \<Longrightarrow> distinct (dkeys (rd_inserts s)) \<Longrightarrow> distinct (dkeys (rd_inserts s'))" for s s'
    by (induction rs arbitrary: s) (auto simp: py_bind_eq_Inr reading_step_def split: if_splits)
  from this [of empty_reading] show ?thesis
    using assms by (auto simp: statements_def py_bind_eq_Inr empty_reading_def comp_def split_def)
qed

lemma view_statement_key: "view_statement rp k v = Some s \<Longrightarrow> st_key s = k"
  by (auto simp: view_statement_def statement_of_def split: prod.splits)

text \<open>Each statement stands under its own key, once.\<close>

lemma statement_entry:
  assumes "statements rp rs = Inr sts" "(k, s) \<in> set sts"
  shows "st_key s = k" "dget sts k = Some s"
proof -
  show "dget sts k = Some s"
    using in_set_dget [OF statements_distinct [OF assms(1)]] assms(2) by simp
  then show "st_key s = k" by (simp add: statements_key [OF assms(1)] view_statement_key)
qed

lemma statement_member:
  assumes "statements rp rs = Inr sts"
  shows "s \<in> set (List.map snd sts) \<longleftrightarrow> dget sts (st_key s) = Some s"
proof
  assume "s \<in> set (List.map snd sts)"
  then obtain k where "(k, s) \<in> set sts" by auto
  then show "dget sts (st_key s) = Some s" using statement_entry [OF assms] by simp
next
  assume "dget sts (st_key s) = Some s"
  then have "(st_key s, s) \<in> set sts" by (rule dget_Some_in_set)
  then show "s \<in> set (List.map snd sts)" by (metis in_set_zipE zip_map_fst_snd)
qed

lemma statements_distinct_keys:
  assumes "statements rp rs = Inr sts"
  shows "distinct (List.map st_key (List.map snd sts))"
proof -
  have eq: "List.map st_key (List.map snd sts) = dkeys sts"
    unfolding list.map_comp by (rule map_cong [OF refl]) (use statement_entry [OF assms] in \<open>simp add: comp_def split_paired_all\<close>)
  show ?thesis unfolding eq by (rule statements_distinct [OF assms])
qed

section \<open>What an application writes\<close>

definition plain_record :: "jobj \<Rightarrow> bool" where
  "plain_record r = (reading_op r \<longrightarrow> (\<exists>k. jget r ''key'' = JStr k \<and> py_strip k = k)
     \<and> (persona_insert r \<longrightarrow> (\<exists>c. py_or (jget r ''content'') (JStr []) = JStr c)))"

definition plain_log :: "jobj list \<Rightarrow> bool" where
  "plain_log rs = (\<forall>r \<in> set rs. plain_record r)"

definition plain_statement :: "statement \<Rightarrow> bool" where
  "plain_statement s = (\<exists>k c. st_key s = KStr k \<and> k \<noteq> [] \<and> py_strip k = k \<and> st_content s = JStr c
     \<and> reading_op (st_insert s) \<and> persona_insert (st_insert s) \<and> jget (st_insert s) ''key'' = JStr k
     \<and> st_content s = py_or (jget (st_insert s) ''content'') (JStr []))"

lemma plain_log_ok: "plain_log rs \<Longrightarrow> \<forall>r \<in> set rs. reading_ok r"
  by (auto simp: plain_log_def plain_record_def reading_ok_def)

lemma replay_insert_from:
  assumes "replay_reading rp k rs = (l, Some i, src)"
  shows "i \<in> set rs \<and> reading_key i = Some k \<and> persona_insert i \<and> l \<noteq> None"
  using assms unfolding replay_reading_def
proof (induction rs arbitrary: l i src rule: rev_induct)
  case (snoc r rs)
  obtain l0 i0 s0 where v: "foldl (\<lambda>v r. reading_view_op rp r v) (None, None, []) (rd.on_key k rs) = (l0, i0, s0)"
    by (metis prod_cases3)
  have step: "(if reading_key r = Some k then reading_view_op rp r (l0, i0, s0) else (l0, i0, s0)) = (l, Some i, src)"
    using snoc.prems v by (cases "reading_key r = Some k") (simp_all add: rd.on_key_def del: prod.inject reading_view_op.simps)
  show ?case
  proof (cases "reading_key r = Some k \<and> persona_insert r")
    case True
    then have "(Some r, Some r, add_source (source_of rp r) s0) = (l, Some i, src)" using step by (simp del: prod.inject)
    then have "l = Some r \<and> i = r" by blast
    then show ?thesis using True by simp
  next
    case False
    then have "i0 = Some i" "l \<noteq> None \<or> l = l0" using step by (auto split: if_splits)
    then show ?thesis using snoc.IH [of l0 i s0] v by auto
  qed
qed (simp add: rd.on_key_def)

lemma plain_statements:
  assumes st: "statements rp rs = Inr sts" and pl: "plain_log rs" and s: "dget sts k = Some s"
  shows "plain_statement s" "st_key s = k"
proof -
  obtain l i src where v: "replay_reading rp k rs = (l, Some i, src)"
      "s = statement_of rp k (case l of None \<Rightarrow> i | Some r \<Rightarrow> r) i src"
    using s by (auto simp: statements_key [OF st] view_statement_def split: prod.splits)
  show "st_key s = k" by (simp add: v(2) statement_of_def)
  have i: "i \<in> set rs" "reading_key i = Some k" "persona_insert i"
    using replay_insert_from [OF v(1)] by auto
  then obtain key where "plain_record i" "reading_op i" "jget i ''key'' = JStr key" "py_strip key = key"
    using pl by (auto simp: plain_log_def plain_record_def reading_key_def split: if_splits)
  moreover from this have "key \<noteq> []" "k = KStr key"
    using i(2) by (auto simp: reading_op_def reading_key_def split: if_splits)
  moreover obtain c where "py_or (jget i ''content'') (JStr []) = JStr c"
    using \<open>plain_record i\<close> \<open>reading_op i\<close> i(3) unfolding plain_record_def by blast
  ultimately show "plain_statement s"
    unfolding plain_statement_def v(2) statement_of_def using i(3) by simp
qed

lemma log_extend:
  assumes "readable f"
  shows "readable (log_extend rs f)" "recs (log_lines (log_extend rs f)) = recs (log_lines f) @ List.map JObj rs"
    "read_records (log_extend rs f) = read_records f @ rs"
  using log_extend_lines [OF assms, of rs] by (simp_all add: read_records_def comp_def)

definition stamped_run :: "hygiene_env \<Rightarrow> string \<Rightarrow> statement \<Rightarrow> string" where
  "stamped_run e pre s = (if he_run e = [] then pre @ he_op_ts e (st_key s) else he_run e)"

definition withheld_record :: "hygiene_env \<Rightarrow> (pykey, jobj) dict \<Rightarrow> statement \<Rightarrow> jobj" where
  "withheld_record e vs s =
     [(''run_id'', JStr (stamped_run e ''reconcile-'' s)), (''ts'', JStr (he_op_ts e (st_key s))),
      (''op'', JStr ''supersede''), (''reason'', JStr (withhold_reason e vs s)), (''kind'', JStr ''persona''),
      (''key'', key_json (st_key s)), (''content'', JStr (case strip_or_empty (st_content s) of Inr c \<Rightarrow> c | Inl _ \<Rightarrow> []))]"

definition withheld_anchor :: "hygiene_env \<Rightarrow> (pykey, jobj) dict \<Rightarrow> statement \<Rightarrow> jobj" where
  "withheld_anchor e vs s =
     [(''op'', JStr ''supersede''), (''ts'', JStr (he_led_ts e (st_key s))), (''key'', key_json (st_key s)),
      (''reason'', JStr (withhold_reason e vs s))]"

definition restored_record :: "hygiene_env \<Rightarrow> string option \<Rightarrow> statement \<Rightarrow> jobj" where
  "restored_record e key s =
     restored_insert (he_op_ts e (st_key s)) (stamped_run e ''restore-'' s) (restore_reason key) (st_insert s)"

definition restored_anchors :: "hygiene_env \<Rightarrow> (pykey, jobj) dict \<Rightarrow> statement \<Rightarrow> jobj list" where
  "restored_anchors e folded s =
     (case (dget folded (st_key s), st_key s) of
        (Some r, KStr k) \<Rightarrow>
          if truthy (jget r ''superseded'')
          then [register_record (he_led_ts e (st_key s)) k (py_or (jget r ''type'') (JStr ''persona'')) (reactivated_payload r)]
          else []
      | _ \<Rightarrow> [])"

lemma withhold_reason_prefix: "startswith (withhold_reason e vs s) (hygiene_reason @ '':'')"
  by (simp add: withhold_reason_def hygiene_reason_def startswith_def)

declare strip_or_empty_str [simp]

lemma withhold_one:
  assumes "plain_statement s"
  shows "withhold_one e vs (w, t) s =
    Inr (\<lparr>bh_oplog = log_append (withheld_record e vs s) (bh_oplog w),
          bh_ledger = log_append (withheld_anchor e vs s) (bh_ledger w)\<rparr>, bump (KStr ''withheld'') 1 t)"
proof -
  obtain k c where s: "st_key s = KStr k" "k \<noteq> []" "py_strip k = k" "st_content s = JStr c"
    using assms by (auto simp: plain_statement_def)
  have "withhold_reason e vs s \<noteq> []" by (simp add: withhold_reason_def)
  then show ?thesis
    by (simp add: withhold_one_def write_supersede_def supersede_item_def s withheld_record_def withheld_anchor_def
        supersede_one stamped_run_def Let_def py_or_def both_halves.defs)
qed

lemma restore_one:
  assumes "plain_statement s"
  shows "restore_one e key folded (w, t) s =
    Inr (\<lparr>bh_oplog = log_append (restored_record e key s) (bh_oplog w),
          bh_ledger = log_extend (restored_anchors e folded s) (bh_ledger w)\<rparr>, bump (KStr ''restored'') 1 t)"
proof -
  obtain k where s: "st_key s = KStr k" "k \<noteq> []" "jget (st_insert s) ''op'' = JStr ''insert''"
      "truthy (jget (st_insert s) ''key'')"
    using assms by (auto simp: plain_statement_def persona_insert_def)
  show ?thesis
    by (cases "dget folded (st_key s)")
       (auto simp: restore_one_def write_restore_def s restored_record_def restored_anchors_def stamped_run_def
        Let_def log_extend_def register_def both_halves.defs)
qed

text \<open>An application writes one record per statement to the recall log, and to the ledger one supersession per
  statement withheld and one registration per statement restored whose anchor the fold holds superseded.\<close>

lemma apply_writes:
  assumes vs: "verdicts records key = Inr vs" and pl: "\<forall>s \<in> set wh \<union> set re. plain_statement s"
  shows "\<exists>t. apply_hygiene e wh re records key (Some folded) w = Inr
    (\<lparr>bh_oplog = log_extend (List.map (withheld_record e vs) wh @ List.map (restored_record e key) re) (bh_oplog w),
      bh_ledger = log_extend (List.map (withheld_anchor e vs) wh @ concat (List.map (restored_anchors e folded) re))
        (bh_ledger w)\<rparr>, t)"
proof -
  have 1: "py_fold (withhold_one e vs) (w, t) wh = Inr
      (\<lparr>bh_oplog = log_extend (List.map (withheld_record e vs) wh) (bh_oplog w),
        bh_ledger = log_extend (List.map (withheld_anchor e vs) wh) (bh_ledger w)\<rparr>,
        foldl (\<lambda>t s. bump (KStr ''withheld'') 1 t) t wh)" for w t
    using pl by (induction wh arbitrary: w t) (simp_all add: withhold_one log_extend_simps)
  have 2: "py_fold (restore_one e key folded) (w, t) re = Inr
      (\<lparr>bh_oplog = log_extend (List.map (restored_record e key) re) (bh_oplog w),
        bh_ledger = log_extend (concat (List.map (restored_anchors e folded) re)) (bh_ledger w)\<rparr>,
        foldl (\<lambda>t s. bump (KStr ''restored'') 1 t) t re)" for w t
    using pl by (induction re arbitrary: w t) (simp_all add: restore_one log_extend_simps log_extend_append)
  show ?thesis by (simp add: apply_hygiene_def vs 1 2 log_extend_append)
qed

section \<open>One pass settles what is judged\<close>

definition settled_state :: "(pykey, jobj) dict \<Rightarrow> statement \<Rightarrow> st_state" where
  "settled_state vs s =
     (if st_state s = Live \<and> kind_of vs s = JStr ''habit'' then Withheld
      else if st_state s = Withheld \<and> kind_of vs s = JStr ''affirm'' then Live else st_state s)"

lemma filter_unique_in: "distinct (List.map f xs) \<Longrightarrow> x \<in> set xs \<Longrightarrow> filter (\<lambda>y. f y = f x) xs = [x]"
  by (induction xs) (auto simp: filter_empty_conv dest: image_eqI [of "f x", OF sym])

lemma filter_unique_notin: "k \<notin> f ` set xs \<Longrightarrow> filter (\<lambda>y. f y = k) xs = []"
  by (auto simp: filter_empty_conv)

text \<open>The records of an application that concern one key.\<close>

lemma filter_map_key:
  assumes "\<And>s r. s \<in> set xs \<Longrightarrow> r \<in> set (g s) \<Longrightarrow> key_of r = Some (f s)"
  shows "filter (\<lambda>r. key_of r = Some k) (concat (List.map g xs)) = concat (List.map g (filter (\<lambda>s. f s = k) xs))"
  using assms
proof (induction xs)
  case (Cons a xs)
  have "key_of r = Some (f a)" if "r \<in> set (g a)" for r using Cons.prems [of a r] that by simp
  then have "filter (\<lambda>r. key_of r = Some k) (g a) = (if f a = k then g a else [])"
    by (auto simp: filter_empty_conv filter_id_conv)
  then show ?case using Cons by simp
qed simp

lemma reading_key_written:
  assumes "plain_statement s"
  shows "reading_key (withheld_record e vs s) = Some (st_key s)" "\<not> persona_insert (withheld_record e vs s)"
    "state_after rp (withheld_record e vs s) = Withheld"
    "reading_key (restored_record e key s) = Some (st_key s)" "persona_insert (restored_record e key s)"
    "state_after rp (restored_record e key s) = Live"
    "source_of rp (restored_record e key s) = source_of rp (st_insert s)"
    "py_or (jget (restored_record e key s) ''content'') (JStr []) = st_content s"
proof -
  obtain k c where s: "st_key s = KStr k" "k \<noteq> []" "py_strip k = k" "reading_op (st_insert s)" "persona_insert (st_insert s)"
     "jget (st_insert s) ''key'' = JStr k" "st_content s = py_or (jget (st_insert s) ''content'') (JStr [])"
    using assms by (auto simp: plain_statement_def)
  have get: "jget (restored_record e key s) x = jget (st_insert s) x" if "x \<notin> {''run_id'', ''ts'', ''restored''}" for x
    using that by (simp add: restored_record_def restored_insert_def jget_def dget_or_def)
  show "reading_key (restored_record e key s) = Some (st_key s)" "persona_insert (restored_record e key s)"
    "state_after rp (restored_record e key s) = Live"
    "source_of rp (restored_record e key s) = source_of rp (st_insert s)"
    "py_or (jget (restored_record e key s) ''content'') (JStr []) = st_content s"
    using s by (simp_all add: reading_key_def reading_op_def persona_insert_def state_after_def source_of_def get)
  have "jget (withheld_record e vs s) ''key'' = JStr k" "jget (withheld_record e vs s) ''op'' = JStr ''supersede''"
      "jget (withheld_record e vs s) ''reason'' = JStr (withhold_reason e vs s)"
    by (simp_all add: withheld_record_def s(1) jget_def dget_or_def)
  note wr = this
  have "withhold_reason e vs s \<noteq> []" by (simp add: withhold_reason_def)
  then show "reading_key (withheld_record e vs s) = Some (st_key s)" "\<not> persona_insert (withheld_record e vs s)"
    "state_after rp (withheld_record e vs s) = Withheld"
    using s(1,2) withhold_reason_prefix [of e vs s]
    by (simp_all add: wr reading_key_def reading_op_def persona_insert_def state_after_def py_or_def)
qed

lemma reading_key_ok: "reading_key r = Some k \<Longrightarrow> reading_ok r"
  by (auto simp: reading_key_def reading_ok_def split: if_splits sum.splits)

lemma distinct_keys_kept: "distinct (List.map f xs) \<Longrightarrow> distinct (List.map f (sort_key g (filter P xs)))"
  by (auto simp: distinct_map intro: inj_on_subset)

lemma plan_members:
  assumes st: "statements rp rs = Inr sts" and vs: "verdicts records key = Inr vs"
    and plan: "plan_hygiene sts records key = Inr (wh, re)"
  shows "s \<in> set wh \<longleftrightarrow> dget sts (st_key s) = Some s \<and> st_state s = Live \<and> kind_of vs s = JStr ''habit''"
    "s \<in> set re \<longleftrightarrow> dget sts (st_key s) = Some s \<and> st_state s = Withheld \<and> kind_of vs s = JStr ''affirm''"
    "distinct (List.map st_key wh)" "distinct (List.map st_key re)"
proof -
  have eq: "wh = sort_key st_ts (filter (\<lambda>s. st_state s = Live \<and> kind_of vs s = JStr ''habit'') (List.map snd sts))"
      "re = sort_key st_ts (filter (\<lambda>s. st_state s = Withheld \<and> kind_of vs s = JStr ''affirm'') (List.map snd sts))"
    using plan by (simp_all add: plan_hygiene_def vs Let_def)
  show "s \<in> set wh \<longleftrightarrow> dget sts (st_key s) = Some s \<and> st_state s = Live \<and> kind_of vs s = JStr ''habit''"
    "s \<in> set re \<longleftrightarrow> dget sts (st_key s) = Some s \<and> st_state s = Withheld \<and> kind_of vs s = JStr ''affirm''"
    unfolding eq set_sort set_filter mem_Collect_eq statement_member [OF st] by blast+
  show "distinct (List.map st_key wh)" "distinct (List.map st_key re)"
    unfolding eq by (rule distinct_keys_kept [OF statements_distinct_keys [OF st]])+
qed

lemma apply_on_key:
  assumes st: "statements rp rs = Inr sts" and vs: "verdicts records key = Inr vs" and pl: "plain_log rs"
    and plan: "plan_hygiene sts records key = Inr (wh, re)"
    and kf: "\<And>s r. plain_statement s \<Longrightarrow> r \<in> set (g s) \<union> set (h s) \<Longrightarrow> key_of r = Some (st_key s)"
  shows "filter (\<lambda>r. key_of r = Some k) (concat (List.map g wh) @ concat (List.map h re)) =
    (case dget sts k of None \<Rightarrow> [] | Some s \<Rightarrow> if s \<in> set wh then g s else if s \<in> set re then h s else [])"
proof -
  note mem = plan_members [OF st vs plan]
  have pls: "plain_statement s" if "s \<in> set wh \<union> set re" for s
    using that plain_statements(1) [OF st pl] mem(1,2) by blast
  have "filter (\<lambda>r. key_of r = Some k) (concat (List.map g wh) @ concat (List.map h re)) =
      concat (List.map g (filter (\<lambda>s. st_key s = k) wh)) @ concat (List.map h (filter (\<lambda>s. st_key s = k) re))"
    by (simp add: filter_map_key [where f = st_key] kf pls)
  also have "\<dots> = (case dget sts k of None \<Rightarrow> [] | Some s \<Rightarrow> if s \<in> set wh then g s else if s \<in> set re then h s else [])"
  proof (cases "dget sts k")
    case None
    then have "filter (\<lambda>s. st_key s = k) wh = []" "filter (\<lambda>s. st_key s = k) re = []"
      using mem(1,2) by (auto simp: filter_empty_conv)
    then show ?thesis by (simp add: None)
  next
    case (Some s)
    have k: "k = st_key s" using plain_statements(2) [OF st pl Some] by simp
    have no: "filter (\<lambda>y. st_key y = k) xs = []" if "s \<notin> set xs" "\<And>y. y \<in> set xs \<Longrightarrow> dget sts (st_key y) = Some y" for xs
      using that Some by (auto simp: filter_empty_conv)
    consider "s \<in> set wh" "s \<notin> set re" | "s \<notin> set wh" "s \<in> set re" | "s \<notin> set wh" "s \<notin> set re"
      using mem(1,2) by fastforce
    then show ?thesis
    proof cases
      case 1
      have "filter (\<lambda>y. st_key y = k) wh = [s]" unfolding k by (rule filter_unique_in [OF mem(3) 1(1)])
      moreover have "filter (\<lambda>y. st_key y = k) re = []" by (rule no [OF 1(2)]) (simp add: mem(2))
      ultimately show ?thesis by (simp add: Some 1)
    next
      case 2
      have "filter (\<lambda>y. st_key y = k) re = [s]" unfolding k by (rule filter_unique_in [OF mem(4) 2(2)])
      moreover have "filter (\<lambda>y. st_key y = k) wh = []" by (rule no [OF 2(1)]) (simp add: mem(1))
      ultimately show ?thesis by (simp add: Some 2)
    next
      case 3
      have "filter (\<lambda>y. st_key y = k) wh = []" by (rule no [OF 3(1)]) (simp add: mem(1))
      moreover have "filter (\<lambda>y. st_key y = k) re = []" by (rule no [OF 3(2)]) (simp add: mem(2))
      ultimately show ?thesis by (simp add: Some 3)
    qed
  qed
  finally show ?thesis .
qed

text \<open>What an application makes of the statements: every verdict is carried out, nothing else changes state,
  and no statement is lost or rewritten.\<close>

lemma applied_statements:
  assumes st: "statements rp rs = Inr sts" and vs: "verdicts records key = Inr vs" and pl: "plain_log rs"
    and plan: "plan_hygiene sts records key = Inr (wh, re)"
    and ops: "ops = List.map (withheld_record e vs) wh @ List.map (restored_record e key) re"
  obtains sts' where "statements rp (rs @ ops) = Inr sts'" "\<And>k. dget sts' k = None \<longleftrightarrow> dget sts k = None"
    "\<And>k s s'. dget sts k = Some s \<Longrightarrow> dget sts' k = Some s' \<Longrightarrow>
        st_state s' = settled_state vs s \<and> st_content s' = st_content s \<and> st_key s' = st_key s"
proof -
  note mem = plan_members [OF st vs plan]
  have pls: "plain_statement s" if "s \<in> set wh \<union> set re" for s
    using that plain_statements(1) [OF st pl] mem(1,2) by blast
  have "reading_ok r" if "r \<in> set ops" for r
  proof -
    from that obtain s where "s \<in> set wh \<union> set re" "r = withheld_record e vs s \<or> r = restored_record e key s"
      unfolding ops by auto
    then show ?thesis using reading_key_written(1,4) [OF pls] by (metis reading_key_ok)
  qed
  then have "\<forall>r \<in> set (rs @ ops). reading_ok r" using plain_log_ok [OF pl] by auto
  then obtain sts' where st': "statements rp (rs @ ops) = Inr sts'" using statements_ok by blast
  have on: "rd.on_key k ops = (case dget sts k of None \<Rightarrow> [] | Some s \<Rightarrow>
      if s \<in> set wh then [withheld_record e vs s] else if s \<in> set re then [restored_record e key s] else [])" for k
  proof -
    have keys: "reading_key r = Some (st_key s)" if "plain_statement s" "r \<in> set [withheld_record e vs s] \<union> set [restored_record e key s]" for s r
      using that(2) reading_key_written(1,4) [OF that(1)] by auto
    have "filter (\<lambda>r. reading_key r = Some k) (concat (List.map (\<lambda>s. [withheld_record e vs s]) wh)
          @ concat (List.map (\<lambda>s. [restored_record e key s]) re)) =
        (case dget sts k of None \<Rightarrow> [] | Some s \<Rightarrow>
          if s \<in> set wh then [withheld_record e vs s] else if s \<in> set re then [restored_record e key s] else [])"
      by (rule apply_on_key [OF st vs pl plan]) (rule keys)
    then show ?thesis unfolding rd.on_key_def ops concat_map_singleton .
  qed
  have view: "dget sts' k = view_statement rp k (foldl (\<lambda>v r. reading_view_op rp r v) (replay_reading rp k rs) (rd.on_key k ops))" for k
    by (simp add: statements_key [OF st'] replay_reading_append)
  show thesis
  proof (rule that [OF st'])
    show none: "dget sts' k = None \<longleftrightarrow> dget sts k = None" for k
    proof (cases "dget sts k")
      case None
      then show ?thesis unfolding view on by (simp add: statements_key [OF st, symmetric])
    next
      case (Some s)
      then obtain l i src where "replay_reading rp k rs = (l, Some i, src)"
        by (auto simp: statements_key [OF st] view_statement_def split: prod.splits)
      then show ?thesis unfolding view on by (simp add: Some view_statement_def)
    qed
    show "st_state s' = settled_state vs s \<and> st_content s' = st_content s \<and> st_key s' = st_key s"
      if s: "dget sts k = Some s" "dget sts' k = Some s'" for k s s'
    proof -
      obtain l i src where v: "replay_reading rp k rs = (l, Some i, src)"
          "s = statement_of rp k (case l of None \<Rightarrow> i | Some r \<Rightarrow> r) i src"
        using s(1) by (auto simp: statements_key [OF st] view_statement_def split: prod.splits)
      have k: "st_key s = k" by (simp add: v(2) statement_of_def)
      note w = reading_key_written [OF pls, of s]
      have sc: "st_content s = py_or (jget i ''content'') (JStr [])"
        and ss: "st_state s = state_after rp (case l of None \<Rightarrow> i | Some r \<Rightarrow> r)"
        by (simp_all add: v(2) statement_of_def)
      have s': "view_statement rp k (foldl (\<lambda>v r. reading_view_op rp r v) (l, Some i, src) (rd.on_key k ops)) = Some s'"
        using s(2) unfolding view v(1) .
      have on_s: "rd.on_key k ops = (if s \<in> set wh then [withheld_record e vs s]
          else if s \<in> set re then [restored_record e key s] else [])"
        unfolding on s(1) by simp
      have settled: "settled_state vs s = (if s \<in> set wh then Withheld else if s \<in> set re then Live else st_state s)"
        using mem(1,2) [of s] s(1) k by (simp add: settled_state_def)
      consider "s \<in> set wh" | "s \<notin> set wh" "s \<in> set re" | "s \<notin> set wh" "s \<notin> set re" by blast
      then show ?thesis
      proof cases
        case 1
        then have "s' = statement_of rp k (withheld_record e vs s) i src"
          using s' by (simp add: on_s view_statement_def w)
        then show ?thesis using 1 by (simp add: settled statement_of_def w sc k)
      next
        case 2
        then have "s' = statement_of rp k (restored_record e key s) (restored_record e key s)
            (add_source (source_of rp (restored_record e key s)) src)"
          using s' by (simp add: on_s view_statement_def w)
        then show ?thesis using 2 by (simp add: settled statement_of_def w k)
      next
        case 3
        then have "s' = statement_of rp k (case l of None \<Rightarrow> i | Some r \<Rightarrow> r) i src"
          using s' by (simp add: on_s view_statement_def)
        then show ?thesis using 3 by (simp add: settled statement_of_def sc ss k)
      qed
    qed
  qed
qed

section \<open>The two halves stay together\<close>

text \<open>The ledger as it stands once a run's staged ledger is committed behind the live one.\<close>

definition committed :: "logfile \<Rightarrow> logfile \<Rightarrow> logfile" where
  "committed live staged = Some (Parsed (log_lines live @ log_lines staged))"

definition superseded_anchor :: "(pykey, jobj) dict \<Rightarrow> pykey \<Rightarrow> bool" where
  "superseded_anchor d k = (case dget d k of None \<Rightarrow> False | Some r \<Rightarrow> truthy (jget r ''superseded''))"

text \<open>A live statement's anchor, if the ledger holds one, is live; one this gate withholds is superseded.\<close>

definition agrees :: "statement \<Rightarrow> jobj option \<Rightarrow> bool" where
  "agrees s a = (case a of None \<Rightarrow> True
     | Some r \<Rightarrow> (st_state s = Live \<longrightarrow> \<not> truthy (jget r ''superseded''))
         \<and> (st_state s = Withheld \<longrightarrow> truthy (jget r ''superseded'')))"

definition halves_agree :: "(pykey, statement) dict \<Rightarrow> (pykey, jobj) dict \<Rightarrow> bool" where
  "halves_agree sts d = list_all (\<lambda>s. agrees s (dget d (st_key s))) (List.map snd sts)"

lemma halves_agree_iff:
  assumes "statements rp rs = Inr sts"
  shows "halves_agree sts d \<longleftrightarrow> (\<forall>k s. dget sts k = Some s \<longrightarrow> agrees s (dget d k))"
proof -
  have key: "st_key s = k" if "dget sts k = Some s" for k s
    using that by (simp add: statements_key [OF assms] view_statement_key)
  have "halves_agree sts d \<longleftrightarrow> (\<forall>s. dget sts (st_key s) = Some s \<longrightarrow> agrees s (dget d (st_key s)))"
    unfolding halves_agree_def list_all_iff Ball_def statement_member [OF assms] ..
  also have "\<dots> \<longleftrightarrow> (\<forall>k s. dget sts k = Some s \<longrightarrow> agrees s (dget d k))" using key by metis
  finally show ?thesis .
qed

lemma op_key_written:
  assumes "plain_statement s" "\<And>r. dget folded (st_key s) = Some r \<Longrightarrow> distinct (dkeys r)"
  shows "op_key (JObj (withheld_anchor e vs s)) = Some (st_key s)"
    "jget (withheld_anchor e vs s) ''op'' = JStr ''supersede''"
    "r \<in> set (restored_anchors e folded s) \<Longrightarrow> op_key (JObj r) = Some (st_key s) \<and> jget r ''op'' = JStr ''register''
       \<and> jget r ''superseded'' = JNull"
    "superseded_anchor folded (st_key s) \<Longrightarrow> \<exists>r. restored_anchors e folded s = [r]"
proof -
  obtain k where k: "st_key s = KStr k" "k \<noteq> []" using assms(1) by (auto simp: plain_statement_def)
  have get: "jget (withheld_anchor e vs s) ''op'' = JStr ''supersede''" "jget (withheld_anchor e vs s) ''key'' = JStr k"
    by (simp_all add: withheld_anchor_def k jget_def dget_or_def)
  show "jget (withheld_anchor e vs s) ''op'' = JStr ''supersede''" by (rule get(1))
  show "op_key (JObj (withheld_anchor e vs s)) = Some (st_key s)" using k(2) by (simp add: get k(1) ledger_ops_def)
  show "\<exists>r. restored_anchors e folded s = [r]" if "superseded_anchor folded (st_key s)"
    using that by (auto simp: restored_anchors_def superseded_anchor_def k(1) split: option.splits)
  assume "r \<in> set (restored_anchors e folded s)"
  then obtain a where a: "dget folded (st_key s) = Some a"
      "r = register_record (he_led_ts e (st_key s)) k (py_or (jget a ''type'') (JStr ''persona'')) (reactivated_payload a)"
    by (cases "dget folded (KStr k)") (simp_all add: restored_anchors_def k(1) split: if_splits)
  note pl = reactivated_keys(1-3) [OF assms(2) [OF a(1)]]
  have "jget (reactivated_payload a) ''superseded'' = JNull"
    by (rule jget_notin [OF reactivated_keys(4) [OF assms(2) [OF a(1)]]])
  then have "jget r ''superseded'' = JNull" using register_record(4) [OF pl, of "''superseded''"] by (simp add: a(2))
  then show "op_key (JObj r) = Some (st_key s) \<and> jget r ''op'' = JStr ''register'' \<and> jget r ''superseded'' = JNull"
    using k by (simp add: a(2) register_record [OF pl] ledger_ops_def)
qed

lemma committed_extend:
  "readable g \<Longrightarrow> recs (log_lines (committed live (log_extend rs g))) = recs (log_lines (committed live g)) @ List.map JObj rs"
  by (simp add: committed_def log_extend(2))

lemma op_key_ok: "op_key (JObj r) = Some k \<Longrightarrow> jget r ''op'' \<noteq> JStr ''fact_trained'' \<Longrightarrow> op_ok (JObj r)"
  by (auto split: if_splits sum.splits)

lemma applied_ledger:
  assumes st: "statements rp rs = Inr sts" and vs: "verdicts records key = Inr vs" and pl: "plain_log rs"
    and plan: "plan_hygiene sts records key = Inr (wh, re)" and g: "readable g"
    and d: "fold_ledger (committed live g) = Inr d" and folded: "\<And>k r. dget folded k = Some r \<Longrightarrow> distinct (dkeys r)"
    and ops: "ops = concat (List.map (\<lambda>s. [withheld_anchor e vs s]) wh) @ concat (List.map (restored_anchors e folded) re)"
  obtains d' where "fold_ledger (committed live (log_extend ops g)) = Inr d'"
    "\<And>k s. dget sts k = Some s \<Longrightarrow> dget d' k = view_anchor (foldl (\<lambda>v r. view_op (JObj r) v)
       (replay_key k (recs (log_lines (committed live g))))
       (if s \<in> set wh then [withheld_anchor e vs s] else if s \<in> set re then restored_anchors e folded s else []))"
proof -
  note mem = plan_members [OF st vs plan]
  have pls: "plain_statement s" if "s \<in> set wh \<union> set re" for s
    using that plain_statements(1) [OF st pl] mem(1,2) by blast
  have keys: "op_key (JObj r) = Some (st_key s)" "jget r ''op'' \<noteq> JStr ''fact_trained''"
    if "plain_statement s" "r \<in> set [withheld_anchor e vs s] \<union> set (restored_anchors e folded s)" for s r
  proof -
    have "distinct (dkeys a)" if "dget folded (st_key s) = Some a" for a by (rule folded [OF that])
    note w = op_key_written [where folded = folded, OF that(1) this]
    show "op_key (JObj r) = Some (st_key s)" "jget r ''op'' \<noteq> JStr ''fact_trained''"
      using that(2) w(1,2) [of e vs] w(3) [of r e] by (auto simp del: op_key.simps)
  qed
  have "op_ok (JObj r)" if "r \<in> set ops" for r
  proof -
    from that obtain s where s: "s \<in> set wh \<union> set re" "r \<in> set [withheld_anchor e vs s] \<union> set (restored_anchors e folded s)"
      unfolding ops by auto
    show ?thesis by (rule op_key_ok [OF keys [OF pls [OF s(1)] s(2)]])
  qed
  moreover have "\<forall>j \<in> set (recs (log_lines (committed live g))). op_ok j" using d fold_ledger_ok by blast
  ultimately have "\<forall>j \<in> set (recs (log_lines (committed live (log_extend ops g)))). op_ok j"
    unfolding committed_extend [OF g] by auto
  then obtain d' where d': "fold_ledger (committed live (log_extend ops g)) = Inr d'" using fold_ledger_ok by blast
  have on: "led.on_key k (List.map JObj ops) = List.map JObj (case dget sts k of None \<Rightarrow> [] | Some s \<Rightarrow>
      if s \<in> set wh then [withheld_anchor e vs s] else if s \<in> set re then restored_anchors e folded s else [])" for k
    unfolding led.on_key_def filter_map ops
    by (rule arg_cong [where f = "List.map JObj"], unfold comp_def, rule apply_on_key [OF st vs pl plan], rule keys(1))
  show thesis
  proof (rule that [OF d'])
    show "dget d' k = view_anchor (foldl (\<lambda>v r. view_op (JObj r) v)
       (replay_key k (recs (log_lines (committed live g))))
       (if s \<in> set wh then [withheld_anchor e vs s] else if s \<in> set re then restored_anchors e folded s else []))"
      if "dget sts k = Some s" for k s
      unfolding fold_ledger_key [OF d'] committed_extend [OF g] replay_key_append on foldl_map by (simp add: that)
  qed
qed

lemma view_superseded:
  assumes "jget r ''op'' = JStr ''supersede''"
  shows "view_anchor (view_op (JObj r) v) = None \<or>
    (\<exists>a. view_anchor (view_op (JObj r) v) = Some a \<and> jget a ''superseded'' = JBool True)"
proof -
  obtain a b c d where "v = (a, b, c, d)" by (cases v)
  then show ?thesis using assms by (cases a) (simp_all add: view_anchor_def)
qed

lemma view_registered:
  assumes "jget r ''op'' = JStr ''register''" "jget r ''superseded'' = JNull"
  shows "\<exists>a. view_anchor (view_op (JObj r) v) = Some a \<and> jget a ''superseded'' = JNull"
  using assms by (cases v) (auto simp: view_anchor_def keep_exchange_def split: option.splits)

section \<open>Judging\<close>

definition keyed_verdict :: "jobj \<Rightarrow> bool" where
  "keyed_verdict r = (is_verdict r \<longrightarrow> (case hash_key (jget r ''key'') of Inl _ \<Rightarrow> False | Inr _ \<Rightarrow> True))"

definition tally_label :: "jobj \<Rightarrow> pykey py" where
  "tally_label v = hash_key (py_or (py_or (jget v ''kind'') (jget v ''outcome'')) (JStr ''malformed''))"

lemma verdicts_total: "list_all keyed_verdict rs \<Longrightarrow> \<exists>vs. verdicts rs key = Inr vs"
  unfolding verdicts_def
  by (rule py_fold_returns) (auto simp: list_all_iff keyed_verdict_def py_bind_def split: sum.splits)

lemma judged_total: "list_all keyed_verdict rs \<Longrightarrow> \<exists>ks. judged_keys rs key = Inr ks"
  unfolding judged_keys_def
  by (rule py_fold_returns) (auto simp: list_all_iff keyed_verdict_def py_bind_def split: sum.splits)

text \<open>A pass writes the answers of a prefix of what it was given: all of it, unless it was told to stop.\<close>

lemma judge_items_prefix:
  assumes "\<And>s. \<exists>l. tally_label (judge s) = Inr l"
  shows "\<exists>n t. judge_items judge stop i ss g = Inr \<lparr>jd_store = log_extend (List.map judge (take n ss)) (jd_store g), jd_tally = t\<rparr>
     \<and> n \<le> length ss \<and> ((\<forall>j. \<not> stop j) \<longrightarrow> n = length ss)"
proof (induction ss arbitrary: i g)
  case Nil
  show ?case by (intro exI [of _ 0] exI [of _ "jd_tally g"]) (simp add: log_extend_simps)
next
  case (Cons s ss)
  show ?case
  proof (cases "stop i")
    case True
    show ?thesis
      by (intro exI [of _ 0] exI [of _ "bump (KStr ''stopped'') (int (length (s # ss))) (jd_tally g)"])
         (use True in \<open>auto simp: log_extend_simps\<close>)
  next
    case False
    obtain l where l: "tally_label (judge s) = Inr l" using assms by blast
    let ?g = "\<lparr>jd_store = log_append (judge s) (jd_store g), jd_tally = bump l 1 (jd_tally g)\<rparr>"
    obtain n t where n: "judge_items judge stop (i + 1) ss ?g
          = Inr \<lparr>jd_store = log_extend (List.map judge (take n ss)) (jd_store ?g), jd_tally = t\<rparr>"
        "n \<le> length ss" "(\<forall>j. \<not> stop j) \<longrightarrow> n = length ss"
      using Cons.IH by blast
    show ?thesis
      by (intro exI [of _ "Suc n"] exI [of _ t])
         (use False n l in \<open>simp add: log_extend_simps tally_label_def\<close>)
  qed
qed

text \<open>A plan over statements that are all as their verdicts have them is empty.\<close>

lemma settled_plan:
  assumes st: "statements rp rs = Inr sts'" and vs: "verdicts records key = Inr vs"
    and settled: "\<And>k s'. dget sts' k = Some s' \<Longrightarrow> \<exists>s. st_state s' = settled_state vs s \<and> st_key s' = st_key s"
  shows "plan_hygiene sts' records key = Inr ([], [])"
proof -
  have kind: "kind_of vs s' = kind_of vs s" if "st_key s' = st_key s" for s s' using that by (simp add: kind_of_def)
  obtain wh re where plan: "plan_hygiene sts' records key = Inr (wh, re)"
    by (simp add: plan_hygiene_def vs Let_def)
  note mem = plan_members [OF st vs plan]
  have "x \<notin> set wh \<and> x \<notin> set re" for x
  proof (cases "dget sts' (st_key x) = Some x")
    case True
    obtain s where "st_state x = settled_state vs s" "kind_of vs x = kind_of vs s"
      using settled [OF True] kind by blast
    then show ?thesis unfolding mem(1,2) by (simp add: settled_state_def)
  qed (simp add: mem(1,2))
  then have "wh = []" "re = []" by (metis list.set_intros(1) neq_Nil_conv)+
  then show ?thesis using plan by simp
qed

lemma withheld_keys:
  assumes st: "statements rp rs = Inr sts" and vs: "verdicts records key = Inr vs" and pl: "plain_log rs"
    and plan: "plan_hygiene sts records key = Inr (wh, re)"
  shows "set (List.map st_key wh) = {j. \<exists>s. dget sts j = Some s \<and> st_state s = Live \<and> kind_of vs s = JStr ''habit''}"
proof (intro set_eqI iffI)
  fix j
  assume "j \<in> set (List.map st_key wh)"
  then obtain s where "s \<in> set wh" "j = st_key s" by auto
  then show "j \<in> {j. \<exists>s. dget sts j = Some s \<and> st_state s = Live \<and> kind_of vs s = JStr ''habit''}"
    using plan_members(1) [OF st vs plan, of s] by blast
next
  fix j
  assume "j \<in> {j. \<exists>s. dget sts j = Some s \<and> st_state s = Live \<and> kind_of vs s = JStr ''habit''}"
  then obtain s where s: "dget sts j = Some s" "st_state s = Live" "kind_of vs s = JStr ''habit''" by blast
  then have "s \<in> set wh" "st_key s = j"
    using plan_members(1) [OF st vs plan, of s] plain_statements(2) [OF st pl s(1)] by simp_all
  then show "j \<in> set (List.map st_key wh)" by force
qed

lemma application_settles:
  assumes st: "statements (he_rp e) (read_oplogs (dirs @ [bh_oplog w])) = Inr sts"
    and vs: "verdicts records key = Inr vs" and pl: "plain_log (read_oplogs (dirs @ [bh_oplog w]))"
    and plan: "plan_hygiene sts records key = Inr (wh, re)" and rd: "readable (bh_oplog w)"
  obtains w' t sts' where "apply_hygiene e wh re records key (Some folded) w = Inr (w', t)"
    "bh_ledger w' = log_extend (concat (List.map (\<lambda>s. [withheld_anchor e vs s]) wh)
        @ concat (List.map (restored_anchors e folded) re)) (bh_ledger w)"
    "statements (he_rp e) (read_oplogs (dirs @ [bh_oplog w'])) = Inr sts'"
    "plan_hygiene sts' records key = Inr ([], [])"
    "\<And>j. map_option (\<lambda>s. (st_key s, st_content s, st_state s)) (dget sts' j)
       = map_option (\<lambda>s. (st_key s, st_content s, settled_state vs s)) (dget sts j)"
proof -
  have pls: "\<forall>s \<in> set wh \<union> set re. plain_statement s"
    using plain_statements(1) [OF st pl] plan_members(1,2) [OF st vs plan] by blast
  define ops where "ops = List.map (withheld_record e vs) wh @ List.map (restored_record e key) re"
  define lops where "lops = List.map (withheld_anchor e vs) wh @ concat (List.map (restored_anchors e folded) re)"
  define w' where "w' = \<lparr>bh_oplog = log_extend ops (bh_oplog w), bh_ledger = log_extend lops (bh_ledger w)\<rparr>"
  obtain t where app: "apply_hygiene e wh re records key (Some folded) w = Inr (w', t)"
    using apply_writes [OF vs pls, of e folded w] unfolding w'_def ops_def lops_def by blast
  have w': "bh_oplog w' = log_extend ops (bh_oplog w)"
      "bh_ledger w' = log_extend (concat (List.map (\<lambda>s. [withheld_anchor e vs s]) wh)
        @ concat (List.map (restored_anchors e folded) re)) (bh_ledger w)"
    by (simp_all add: w'_def lops_def)
  have rs': "read_oplogs (dirs @ [bh_oplog w']) = read_oplogs (dirs @ [bh_oplog w]) @ ops"
    by (simp add: read_oplogs_def w'(1) log_extend(3) [OF rd])
  obtain sts' where st': "statements (he_rp e) (read_oplogs (dirs @ [bh_oplog w]) @ ops) = Inr sts'"
      "\<And>k. dget sts' k = None \<longleftrightarrow> dget sts k = None"
      "\<And>k s s'. dget sts k = Some s \<Longrightarrow> dget sts' k = Some s' \<Longrightarrow>
        st_state s' = settled_state vs s \<and> st_content s' = st_content s \<and> st_key s' = st_key s"
    by (rule applied_statements [OF st vs pl plan ops_def]) (rule that)
  have same: "map_option (\<lambda>s. (st_key s, st_content s, st_state s)) (dget sts' j)
      = map_option (\<lambda>s. (st_key s, st_content s, settled_state vs s)) (dget sts j)" for j
  proof (cases "dget sts j")
    case None
    then show ?thesis using st'(2) [of j] by simp
  next
    case (Some s)
    then obtain s' where s': "dget sts' j = Some s'" using st'(2) [of j] by auto
    show ?thesis using st'(3) [OF Some s'] by (simp add: Some s')
  qed
  have "plan_hygiene sts' records key = Inr ([], [])"
  proof (rule settled_plan [OF st'(1) vs])
    fix k s'
    assume s': "dget sts' k = Some s'"
    then obtain s where "dget sts k = Some s" using st'(2) [of k] by (cases "dget sts k") simp_all
    from st'(3) [OF this s'] show "\<exists>s. st_state s' = settled_state vs s \<and> st_key s' = st_key s" by blast
  qed
  then show thesis by (rule that [OF app w'(2) st'(1) [folded rs'] _ same])
qed

section \<open>Properties\<close>

definition ph_log :: logfile where
  "ph_log = Some (Parsed
     [Rec (JObj [(''op'', JStr ''insert''), (''kind'', JStr ''persona''), (''key'', JStr ''h''), (''content'', JStr ''hab''), (''ts'', JStr ''t1'')]),
      Rec (JObj [(''op'', JStr ''insert''), (''kind'', JStr ''persona''), (''key'', JStr ''k''), (''content'', JStr ''own''), (''ts'', JStr ''t2'')])])"

definition ph_world :: both_halves where
  "ph_world = \<lparr>bh_oplog = ph_log, bh_ledger = None\<rparr>"

definition ph_env :: hygiene_env where
  "ph_env = \<lparr>he_rp = \<lambda>_. [], he_dots = ''..'', he_op_ts = \<lambda>_. ''t8'', he_led_ts = \<lambda>_. ''t9'', he_run = ''run''\<rparr>"

definition ph_judge :: "statement \<Rightarrow> jobj" where
  "ph_judge s = [(''record'', JStr ''verdict''), (''judge_key'', JStr ''j''), (''key'', key_json (st_key s)),
     (''outcome'', JStr ''verdict''), (''kind'', JStr (if st_content s = JStr ''hab'' then ''habit'' else ''affirm''))]"

definition ph_ledger :: logfile where
  "ph_ledger = Some (Parsed [Rec (JObj [(''op'', JStr ''register''), (''ts'', JStr ''t0''), (''key'', JStr ''h''), (''type'', JStr ''persona'')])])"

definition ph_verdicts :: "jobj list" where
  "ph_verdicts = [[(''record'', JStr ''verdict''), (''judge_key'', JStr ''j''), (''key'', JStr ''h''),
     (''outcome'', JStr ''verdict''), (''kind'', JStr ''habit'')]]"

lemma ph_records:
  "read_oplogs ([] @ [bh_oplog ph_world]) =
     [[(''op'', JStr ''insert''), (''kind'', JStr ''persona''), (''key'', JStr ''h''), (''content'', JStr ''hab''), (''ts'', JStr ''t1'')],
      [(''op'', JStr ''insert''), (''kind'', JStr ''persona''), (''key'', JStr ''k''), (''content'', JStr ''own''), (''ts'', JStr ''t2'')]]"
  "readable (bh_oplog ph_world)" "readable (bh_ledger ph_world)"
  by (simp_all add: ph_world_def ph_log_def read_oplogs_def read_records_def readable_def)

lemma ph_plain: "plain_log (read_oplogs ([] @ [bh_oplog ph_world]))"
  unfolding ph_records
  by (simp add: plain_log_def plain_record_def reading_op_def persona_insert_def jget_def dget_or_def py_or_def
      py_strip_def strip_if_def lstrip_if_def rstrip_if_def is_space_def)

definition ph_habit :: statement where
  "ph_habit = \<lparr>st_key = KStr ''h'', st_content = JStr ''hab'', st_state = Live,
     st_insert = [(''op'', JStr ''insert''), (''kind'', JStr ''persona''), (''key'', JStr ''h''), (''content'', JStr ''hab''), (''ts'', JStr ''t1'')],
     st_sources = [], st_ts = ''t1''\<rparr>"

definition ph_own :: statement where
  "ph_own = \<lparr>st_key = KStr ''k'', st_content = JStr ''own'', st_state = Live,
     st_insert = [(''op'', JStr ''insert''), (''kind'', JStr ''persona''), (''key'', JStr ''k''), (''content'', JStr ''own''), (''ts'', JStr ''t2'')],
     st_sources = [], st_ts = ''t2''\<rparr>"

lemma ph_fields [simp]:
  "st_key ph_habit = KStr ''h''" "st_state ph_habit = Live" "st_key ph_own = KStr ''k''" "st_state ph_own = Live"
  by (simp_all add: ph_habit_def ph_own_def)

lemma ph_statements:
  "statements (he_rp ph_env) (read_oplogs ([] @ [bh_oplog ph_world])) = Inr [(KStr ''h'', ph_habit), (KStr ''k'', ph_own)]"
  unfolding ph_records
  by (simp add: statements_def empty_reading_def reading_step_def reading_op_def persona_insert_def jget_def dget_or_def
      source_of_def add_source_def statement_of_def state_after_def py_or_def ph_habit_def ph_own_def ph_env_def)

lemma ph_plan: "plan_hygiene [(KStr ''h'', ph_habit), (KStr ''k'', ph_own)] ph_verdicts (Some ''j'') = Inr ([ph_habit], [])"
  by (simp add: plan_hygiene_def verdicts_def ph_verdicts_def is_verdict_def judge_key_json_def jget_def dget_or_def
      kind_of_def Let_def)

lemma ph_judge_fields:
  "jget (ph_judge s) ''record'' = JStr ''verdict''" "jget (ph_judge s) ''judge_key'' = JStr ''j''"
  "jget (ph_judge s) ''outcome'' = JStr ''verdict''" "hash_key (jget (ph_judge s) ''key'') = Inr (st_key s)"
  "\<exists>l. tally_label (ph_judge s) = Inr l"
  by (cases "st_key s"; simp add: ph_judge_def tally_label_def jget_def dget_or_def py_or_def)+

text \<open>C18: one pass of persona hygiene settles the store. With any judge, any limit and wherever it is told to stop,
  the pass completes; afterwards no verdict under its key is left to carry out, so applying again writes
  nothing. A statement that was live and is read as a habit is withheld, one this gate withheld and that is now
  read as held is live again, every other keeps its state, none is lost and no text changes; the keys returned
  are the ones withheld.\<close>

theorem hygiene_pass_settles:
  assumes pl: "plain_log (read_oplogs (dirs @ [bh_oplog w]))" and rd: "readable (bh_oplog w)" "readable store"
    and k: "k \<noteq> []" and vok: "list_all keyed_verdict (read_records store)"
    and judge: "\<And>s. keyed_verdict (judge s) \<and> (\<exists>l. tally_label (judge s) = Inr l)"
  shows "\<exists>w' store' t ks sts vs sts'.
      run_hygiene e dirs (Some judge) (Some k) store (Some folded) limit stop w = Inr (w', store', t, ks)
    \<and> statements (he_rp e) (read_oplogs (dirs @ [bh_oplog w])) = Inr sts
    \<and> verdicts (read_records store') (Some k) = Inr vs
    \<and> statements (he_rp e) (read_oplogs (dirs @ [bh_oplog w'])) = Inr sts'
    \<and> plan_hygiene sts' (read_records store') (Some k) = Inr ([], [])
    \<and> (\<forall>j. map_option (\<lambda>s. (st_key s, st_content s, st_state s)) (dget sts' j)
          = map_option (\<lambda>s. (st_key s, st_content s, settled_state vs s)) (dget sts j))
    \<and> set ks = {j. \<exists>s. dget sts j = Some s \<and> st_state s = Live \<and> kind_of vs s = JStr ''habit''}"
proof -
  let ?rs = "read_oplogs (dirs @ [bh_oplog w])"
  obtain sts where st: "statements (he_rp e) ?rs = Inr sts" using statements_ok plain_log_ok [OF pl] by blast
  obtain ks0 where ks0: "judged_keys (read_records store) (Some k) = Inr ks0" using judged_total [OF vok] by blast
  obtain items where items: "todo sts (read_records store) (Some k) False = Inr items"
    by (simp add: todo_def ks0)
  obtain n t0 where g: "judge_all sts judge k store limit False stop
      = Inr \<lparr>jd_store = log_extend (List.map judge (take n (if 0 < limit then take (nat limit) items else items))) store, jd_tally = t0\<rparr>"
    using judge_items_prefix [where judge = judge and stop = stop and i = 1 and
        ss = "if 0 < limit then take (nat limit) items else items" and g = "\<lparr>jd_store = store, jd_tally = []\<rparr>"] judge
    unfolding judge_all_def items py_bind_simps by auto
  define store' where "store' = log_extend (List.map judge (take n (if 0 < limit then take (nat limit) items else items))) store"
  have "list_all keyed_verdict (read_records store')"
    using vok judge by (auto simp: store'_def log_extend(3) [OF rd(2)] list_all_iff)
  then obtain vs where vs: "verdicts (read_records store') (Some k) = Inr vs" using verdicts_total by blast
  obtain wh re where plan: "plan_hygiene sts (read_records store') (Some k) = Inr (wh, re)"
    by (simp add: plan_hygiene_def vs Let_def)
  obtain w' t1 sts' where app: "apply_hygiene e wh re (read_records store') (Some k) (Some folded) w = Inr (w', t1)"
      "statements (he_rp e) (read_oplogs (dirs @ [bh_oplog w'])) = Inr sts'"
      "plan_hygiene sts' (read_records store') (Some k) = Inr ([], [])"
      "\<And>j. map_option (\<lambda>s. (st_key s, st_content s, st_state s)) (dget sts' j)
         = map_option (\<lambda>s. (st_key s, st_content s, settled_state vs s)) (dget sts j)"
    by (rule application_settles [OF st vs pl plan rd(1)]) blast
  have run: "run_hygiene e dirs (Some judge) (Some k) store (Some folded) limit stop w
      = Inr (w', store', add_tally t0 t1, List.map st_key wh)"
    using k by (simp add: run_hygiene_def st g plan app(1) flip: store'_def)
  show ?thesis
    by (intro exI conjI, rule run, rule st, rule vs, rule app(2), rule app(3))
       (intro allI app(4), rule withheld_keys [OF st vs pl plan])
qed

theorem hygiene_pass_settles_witness:
  "\<exists>w' store' t ks sts'. run_hygiene ph_env [] (Some ph_judge) (Some ''j'') None (Some []) 0 (\<lambda>_. False) ph_world
       = Inr (w', store', t, ks)
    \<and> statements (he_rp ph_env) (read_oplogs ([] @ [bh_oplog w'])) = Inr sts'
    \<and> plan_hygiene sts' (read_records store') (Some ''j'') = Inr ([], [])"
proof -
  have "readable None" "''j'' \<noteq> []" "list_all keyed_verdict (read_records None)"
    by (simp_all add: readable_def read_records_def)
  moreover have "keyed_verdict (ph_judge s) \<and> (\<exists>l. tally_label (ph_judge s) = Inr l)" for s
    using ph_judge_fields [of s] by (simp add: keyed_verdict_def)
  ultimately show ?thesis
    using hygiene_pass_settles [OF ph_plain ph_records(2), of None "''j''" ph_judge ph_env "[]" 0 "\<lambda>_. False"] by blast
qed

lemma agrees_after:
  assumes st: "statements rp rs = Inr sts" and vs: "verdicts records key = Inr vs" and pl: "plain_log rs"
    and plan: "plan_hygiene sts records key = Inr (wh, re)"
    and s: "dget sts k = Some s" and s': "st_state s' = settled_state vs s" and agree: "agrees s (view_anchor v)"
    and known: "s \<in> set re \<Longrightarrow> view_anchor v \<noteq> None \<Longrightarrow> superseded_anchor folded (st_key s)"
    and folded: "\<And>r. dget folded (st_key s) = Some r \<Longrightarrow> distinct (dkeys r)"
  shows "agrees s' (view_anchor (foldl (\<lambda>v r. view_op (JObj r) v) v
       (if s \<in> set wh then [withheld_anchor e vs s] else if s \<in> set re then restored_anchors e folded s else [])))"
proof -
  note mem = plan_members [OF st vs plan]
  have k: "st_key s = k" by (rule plain_statements(2) [OF st pl s])
  have ps: "plain_statement s" by (rule plain_statements(1) [OF st pl s])
  note w = op_key_written [where folded = folded, OF ps folded]
  have settled: "st_state s' = (if s \<in> set wh then Withheld else if s \<in> set re then Live else st_state s)"
    using mem(1,2) [of s] s k by (simp add: s' settled_state_def)
  consider "s \<in> set wh" | "s \<notin> set wh" "s \<in> set re" | "s \<notin> set wh" "s \<notin> set re" by blast
  then show ?thesis
  proof cases
    case 1
    show ?thesis
      using view_superseded [where r = "withheld_anchor e vs s" and v = v] w(2) [where e = e and vs = vs] 1 by (auto simp: agrees_def settled)
  next
    case 2
    show ?thesis
    proof (cases "restored_anchors e folded s")
      case Nil
      then have "\<not> superseded_anchor folded (st_key s)" using w(4) [where e = e] by auto
      then have "view_anchor v = None" using known [OF 2(2)] by blast
      then show ?thesis using 2 by (simp add: Nil agrees_def)
    next
      case (Cons r rs')
      then have "superseded_anchor folded (st_key s)"
        by (cases "dget folded (st_key s)")
           (simp_all add: restored_anchors_def superseded_anchor_def split: pykey.splits if_splits)
      then have r: "restored_anchors e folded s = [r]" using w(4) [where e = e] Cons by auto
      then have "jget r ''op'' = JStr ''register'' \<and> jget r ''superseded'' = JNull" using w(3) [where r = r and e = e] by simp
      then show ?thesis using view_registered [of r v] 2 by (auto simp: r agrees_def settled)
    qed
  next
    case 3
    then have "st_state s' = st_state s" using settled by simp
    then show ?thesis using agree 3 by (simp add: agrees_def split: option.splits)
  qed
qed

text \<open>C17: the two halves of a statement never come apart. If the recall log and the committed ledger agree (a
  live statement's anchor is live, one this gate withheld is superseded) and the ledger handed to the pass knows
  the anchors it is to restore, then applying the plan completes, and after the run's staged ledger is committed
  behind the live one, the log and the ledger still agree.\<close>

theorem hygiene_keeps_halves_together:
  assumes st: "statements (he_rp e) (read_oplogs (dirs @ [bh_oplog w])) = Inr sts"
    and vok: "list_all keyed_verdict records"
    and pl: "plain_log (read_oplogs (dirs @ [bh_oplog w]))"
    and plan: "plan_hygiene sts records key = Inr (wh, re)" and rd: "readable (bh_oplog w)" "readable (bh_ledger w)"
    and live: "ledger_wf live" "fold_ledger live = Inr folded"
    and d: "fold_ledger (committed live (bh_ledger w)) = Inr d" and agree: "halves_agree sts d"
    and known: "\<forall>s \<in> set re. dget d (st_key s) \<noteq> None \<longrightarrow> superseded_anchor folded (st_key s)"
  shows "\<exists>w' t sts' d'. apply_hygiene e wh re records key (Some folded) w = Inr (w', t)
    \<and> statements (he_rp e) (read_oplogs (dirs @ [bh_oplog w'])) = Inr sts'
    \<and> fold_ledger (committed live (bh_ledger w')) = Inr d' \<and> halves_agree sts' d'"
proof -
  obtain vs where vs: "verdicts records key = Inr vs" using verdicts_total [OF vok] by blast
  have fd: "distinct (dkeys r)" if "dget folded k = Some r" for k r by (rule folded_stage(2) [OF live(2,1) that])
  obtain w' t sts' where app: "apply_hygiene e wh re records key (Some folded) w = Inr (w', t)"
      "bh_ledger w' = log_extend (concat (List.map (\<lambda>s. [withheld_anchor e vs s]) wh)
          @ concat (List.map (restored_anchors e folded) re)) (bh_ledger w)"
      "statements (he_rp e) (read_oplogs (dirs @ [bh_oplog w'])) = Inr sts'"
      "\<And>j. map_option (\<lambda>s. (st_key s, st_content s, st_state s)) (dget sts' j)
         = map_option (\<lambda>s. (st_key s, st_content s, settled_state vs s)) (dget sts j)"
    by (rule application_settles [OF st vs pl plan rd(1)]) blast
  obtain d' where d': "fold_ledger (committed live (log_extend (concat (List.map (\<lambda>s. [withheld_anchor e vs s]) wh)
          @ concat (List.map (restored_anchors e folded) re)) (bh_ledger w))) = Inr d'"
      "\<And>k s. dget sts k = Some s \<Longrightarrow> dget d' k = view_anchor (foldl (\<lambda>v r. view_op (JObj r) v)
         (replay_key k (recs (log_lines (committed live (bh_ledger w)))))
         (if s \<in> set wh then [withheld_anchor e vs s] else if s \<in> set re then restored_anchors e folded s else []))"
    by (rule applied_ledger [OF st vs pl plan rd(2) d fd refl]) (assumption, rule that)
  have "agrees s' (dget d' k)" if s': "dget sts' k = Some s'" for k s'
  proof -
    obtain s where s: "dget sts k = Some s" "st_state s' = settled_state vs s"
      using app(4) [of k] s' by (cases "dget sts k") simp_all
    have k: "st_key s = k" by (rule plain_statements(2) [OF st pl s(1)])
    have v: "dget d k = view_anchor (replay_key k (recs (log_lines (committed live (bh_ledger w)))))"
      by (rule fold_ledger_key [OF d])
    show ?thesis
      unfolding d'(2) [OF s(1)]
    proof (rule agrees_after [OF st vs pl plan s])
      show "agrees s (view_anchor (replay_key k (recs (log_lines (committed live (bh_ledger w))))))"
        using agree s(1) unfolding halves_agree_iff [OF st] v [symmetric] by blast
    qed (use known k v fd in auto)
  qed
  then have "halves_agree sts' d'" unfolding halves_agree_iff [OF app(3)] by blast
  then show ?thesis using app(1,3) d'(1) [folded app(2)] by blast
qed

theorem hygiene_keeps_halves_together_witness:
  "plan_hygiene [(KStr ''h'', ph_habit), (KStr ''k'', ph_own)] ph_verdicts (Some ''j'') = Inr ([ph_habit], [])
    \<and> (\<exists>d w' t sts' d'. fold_ledger ph_ledger = Inr d
        \<and> apply_hygiene ph_env [ph_habit] [] ph_verdicts (Some ''j'') (Some d) ph_world = Inr (w', t)
        \<and> statements (he_rp ph_env) (read_oplogs ([] @ [bh_oplog w'])) = Inr sts'
        \<and> fold_ledger (committed ph_ledger (bh_ledger w')) = Inr d' \<and> halves_agree sts' d')"
proof -
  have led: "ledger_wf ph_ledger"
    by (simp add: ledger_wf_def ph_ledger_def readable_def rec_wf_def is_op_def jget_def dget_or_def)
  obtain d where d: "fold_ledger ph_ledger = Inr d" "dget d (KStr ''h'') = Some (attach 0 0 None
      [(''op'', JStr ''register''), (''ts'', JStr ''t0''), (''key'', JStr ''h''), (''type'', JStr ''persona'')])"
      "dget d (KStr ''k'') = None"
    by (simp add: ph_ledger_def fold_ledger_def empty_fold_def fold_step_def finish_fold_def jget_def dget_or_def
        keep_exchange_def dsetdefault_def)
  have com: "fold_ledger (committed ph_ledger (bh_ledger ph_world)) = Inr d"
    using d(1) by (simp add: committed_def ph_world_def ph_ledger_def)
  have agree: "halves_agree [(KStr ''h'', ph_habit), (KStr ''k'', ph_own)] d"
    by (simp add: halves_agree_def agrees_def d attach_def jget_def dget_or_def)
  have vok: "list_all keyed_verdict ph_verdicts"
    by (simp add: ph_verdicts_def keyed_verdict_def jget_def dget_or_def)
  show ?thesis
    using hygiene_keeps_halves_together [OF ph_statements vok ph_plain ph_plan ph_records(2,3) led d(1) com agree] ph_plan d(1)
    by simp
qed

lemma filter_sort_desc: "filter P (sort_desc f xs) = sort_desc f (filter P xs)"
  by (simp add: sort_desc_def filter_sort flip: rev_filter)

lemma judged_keys_answers:
  assumes "judged_keys records (Some k) = Inr ks"
    and "\<And>s. jget (judge s) ''record'' = JStr ''verdict'' \<and> jget (judge s) ''judge_key'' = JStr k
      \<and> hash_key (jget (judge s) ''key'') = Inr (st_key s) \<and> (\<exists>l. tally_label (judge s) = Inr l)"
  shows "\<exists>ks'. judged_keys (records @ List.map judge ss) (Some k) = Inr ks'
    \<and> set ks' = set ks \<union> st_key ` {s \<in> set ss. jget (judge s) ''outcome'' = JStr ''verdict''}"
proof (induction ss rule: rev_induct)
  case Nil
  then show ?case using assms(1) by simp
next
  case (snoc s ss)
  then obtain ks' where ks': "judged_keys (records @ List.map judge ss) (Some k) = Inr ks'"
      "set ks' = set ks \<union> st_key ` {s \<in> set ss. jget (judge s) ''outcome'' = JStr ''verdict''}" by blast
  have "judged_keys (records @ List.map judge (ss @ [s])) (Some k)
      = Inr (if jget (judge s) ''outcome'' = JStr ''verdict'' then List.insert (st_key s) ks' else ks')"
    using ks'(1) assms(2) [of s] unfolding judged_keys_def map_append append_assoc [symmetric] py_fold_append
    by (simp add: is_verdict_def judge_key_json_def)
  then show ?case using ks'(2) by auto
qed

lemma judging_progress:
  assumes st: "statements rp rs = Inr sts" and items: "todo sts (read_records store) (Some k) False = Inr items"
    and rd: "readable store"
    and judge: "\<And>s. jget (judge s) ''record'' = JStr ''verdict'' \<and> jget (judge s) ''judge_key'' = JStr k
      \<and> hash_key (jget (judge s) ''key'') = Inr (st_key s) \<and> (\<exists>l. tally_label (judge s) = Inr l)"
    and asked: "asked = (if 0 < limit then take (nat limit) items else items)"
  shows "\<exists>g. judge_all sts judge k store limit False (\<lambda>_. False) = Inr g
    \<and> todo sts (read_records (jd_store g)) (Some k) False
        = Inr (filter (\<lambda>s. \<not> (s \<in> set asked \<and> jget (judge s) ''outcome'' = JStr ''verdict'')) items)"
proof -
  obtain n t where g: "judge_items judge (\<lambda>_. False) 1 asked \<lparr>jd_store = store, jd_tally = []\<rparr>
      = Inr \<lparr>jd_store = log_extend (List.map judge (take n asked)) store, jd_tally = t\<rparr>" "n = length asked"
    using judge_items_prefix [where judge = judge and stop = "\<lambda>_. False" and i = 1 and ss = asked
        and g = "\<lparr>jd_store = store, jd_tally = []\<rparr>"] judge by auto
  then have all: "judge_all sts judge k store limit False (\<lambda>_. False)
      = Inr \<lparr>jd_store = log_extend (List.map judge asked) store, jd_tally = t\<rparr>"
    by (simp add: judge_all_def items flip: asked)
  obtain ks where ks: "judged_keys (read_records store) (Some k) = Inr ks"
    using items by (auto simp: todo_def py_bind_eq_Inr)
  obtain ks' where ks': "judged_keys (read_records store @ List.map judge asked) (Some k) = Inr ks'"
      "set ks' = set ks \<union> st_key ` {s \<in> set asked. jget (judge s) ''outcome'' = JStr ''verdict''}"
    using judged_keys_answers [OF ks, of judge asked] judge by blast
  have eq: "items = sort_desc st_ts (filter (\<lambda>s. st_state s \<in> {Live, Withheld} \<and> st_key s \<notin> set ks) (List.map snd sts))"
    using items by (simp add: todo_def ks)
  have inj: "s = s'" if "s \<in> set (List.map snd sts)" "s' \<in> set (List.map snd sts)" "st_key s = st_key s'" for s s'
  proof -
    have "dget sts (st_key s) = Some s" "dget sts (st_key s') = Some s'"
      using that(1,2) unfolding statement_member [OF st] .
    then show ?thesis by (metis that(3) option.inject)
  qed
  have sub: "set asked \<subseteq> set items" by (auto simp: asked dest: in_set_takeD)
  have rest: "filter (\<lambda>s. \<not> (s \<in> set asked \<and> jget (judge s) ''outcome'' = JStr ''verdict'')) items
      = sort_desc st_ts (filter (\<lambda>s. st_state s \<in> {Live, Withheld} \<and> st_key s \<notin> set ks') (List.map snd sts))"
    unfolding eq filter_sort_desc filter_filter
  proof (rule arg_cong [where f = "sort_desc st_ts"], rule filter_cong [OF refl])
    fix s
    assume s: "s \<in> set (List.map snd sts)"
    have "st_key s \<in> st_key ` {s \<in> set asked. jget (judge s) ''outcome'' = JStr ''verdict''}
        \<longleftrightarrow> s \<in> set asked \<and> jget (judge s) ''outcome'' = JStr ''verdict''"
      using inj [OF s] sub by (auto simp: eq sort_desc_def simp del: set_map)
    then show "((st_state s \<in> {Live, Withheld} \<and> st_key s \<notin> set ks)
          \<and> \<not> (s \<in> set asked \<and> jget (judge s) ''outcome'' = JStr ''verdict''))
        = (st_state s \<in> {Live, Withheld} \<and> st_key s \<notin> set ks')"
      unfolding ks'(2) by blast
  qed
  have "todo sts (read_records (log_extend (List.map judge asked) store)) (Some k) False
      = Inr (filter (\<lambda>s. \<not> (s \<in> set asked \<and> jget (judge s) ''outcome'' = JStr ''verdict'')) items)"
    unfolding todo_def log_extend(3) [OF rd] ks'(1) py_bind_simps rest by (simp only: simp_thms)
  then show ?thesis using all by (metis judging.select_convs(1))
qed

text \<open>The judge answers at temperature 0, so a statement it refuses it refuses again; when it refuses all the
  statements a limited pass asks about, the next pass asks about the same ones, and nothing behind them is ever
  read. And a limit of zero is none.\<close>

lemma refusals_hold_the_queue:
  assumes "statements rp rs = Inr sts" "todo sts (read_records store) (Some k) False = Inr items" "readable store"
    and "\<And>s. jget (judge s) ''record'' = JStr ''verdict'' \<and> jget (judge s) ''judge_key'' = JStr k
      \<and> hash_key (jget (judge s) ''key'') = Inr (st_key s) \<and> (\<exists>l. tally_label (judge s) = Inr l)"
    and "asked = (if 0 < limit then take (nat limit) items else items)"
    and "\<forall>s \<in> set asked. jget (judge s) ''outcome'' = JStr ''refused''"
  shows "\<exists>g. judge_all sts judge k store limit False (\<lambda>_. False) = Inr g
    \<and> todo sts (read_records (jd_store g)) (Some k) False = Inr items"
proof -
  have "filter (\<lambda>s. \<not> (s \<in> set asked \<and> jget (judge s) ''outcome'' = JStr ''verdict'')) items = items"
    using assms(6) by (auto simp: filter_id_conv)
  then show ?thesis using judging_progress [OF assms(1-5)] by simp
qed

lemma zero_limit_reads_everything: "judge_all sts judge k store 0 rejudge stop =
    py_bind (todo sts (read_records store) (Some k) rejudge) (\<lambda>items.
      judge_items judge stop 1 items \<lparr>jd_store = store, jd_tally = []\<rparr>)"
  by (simp add: judge_all_def)

text \<open>C37: judging makes progress and repeats nothing. A pass that is not stopped asks about the first statements
  waiting, as many as its limit allows (all of them without one), and what waits afterwards is what waited
  before, in the same order, less the ones that got a verdict; a refused or malformed answer leaves its
  statement waiting.\<close>

theorem judging_advances:
  assumes st: "statements rp rs = Inr sts" and items: "todo sts (read_records store) (Some k) False = Inr items"
    and rd: "readable store"
    and judge: "\<And>s. jget (judge s) ''record'' = JStr ''verdict'' \<and> jget (judge s) ''judge_key'' = JStr k
      \<and> hash_key (jget (judge s) ''key'') = Inr (st_key s) \<and> (\<exists>l. tally_label (judge s) = Inr l)"
    and asked: "asked = (if 0 < limit then take (nat limit) items else items)"
  shows "\<exists>g. judge_all sts judge k store limit False (\<lambda>_. False) = Inr g
    \<and> todo sts (read_records (jd_store g)) (Some k) False
        = Inr (filter (\<lambda>s. \<not> (s \<in> set asked \<and> jget (judge s) ''outcome'' = JStr ''verdict'')) items)"
  by (rule judging_progress [OF st items rd judge asked])

theorem judging_advances_witness:
  "\<exists>sts items g. statements (\<lambda>_. []) (read_oplogs ([] @ [bh_oplog ph_world])) = Inr sts
    \<and> todo sts (read_records None) (Some ''j'') False = Inr items
    \<and> judge_all sts ph_judge ''j'' None 1 False (\<lambda>_. False) = Inr g
    \<and> todo sts (read_records (jd_store g)) (Some ''j'') False = Inr (filter (\<lambda>s. s \<notin> set (take 1 items)) items)"
proof -
  obtain sts where st: "statements (\<lambda>_. []) (read_oplogs ([] @ [bh_oplog ph_world])) = Inr sts"
    using statements_ok plain_log_ok [OF ph_plain] by blast
  obtain items where items: "todo sts (read_records None) (Some ''j'') False = Inr items"
    by (simp add: todo_def judged_keys_def read_records_def)
  show ?thesis
    using judging_advances [OF st items, of ph_judge "take 1 items" 1] st items
    by (simp add: ph_judge_fields readable_def)
qed

end
