(* ===== verification/Trigger_Hygiene.thy ===== *)
theory Trigger_Hygiene
  imports Render
begin

text \<open>
  \<open>server/inference/core/trigger_hygiene.py\<close>: recall cues are topics, not speech. A trigger is split into its
  cues and the unusable ones dropped; an over-long question keeps its tail; the plans of the two repairs (prose
  in a trigger, an impression glued to a question) are made here and applied by the writer. The ellipsis, which
  also ends a sentence, is outside the model's alphabet.
\<close>

section \<open>Recall cues\<close>

definition cue_separator :: string where
  "cue_separator = '' ; ''"

definition max_cue_chars :: nat where
  "max_cue_chars = 150"

definition cue_problem :: "string \<Rightarrow> string" where
  "cue_problem cue =
     (let t = py_strip cue in
      if t = [] then []
      else if max_cue_chars < length t then ''prose, not a cue ('' @ nat_str (length t) @ '' chars)''
      else if endswith t ''?'' \<or> endswith t ''!'' then ''addressed speech, not a cue''
      else [])"

text \<open>\<open>str.split(sep)\<close>: the leftmost occurrences, none overlapping.\<close>

fun split_seq :: "nat \<Rightarrow> string \<Rightarrow> string \<Rightarrow> string \<Rightarrow> string list" where
  "split_seq skip sep cur [] = [cur]"
| "split_seq (Suc n) sep cur (c # cs) = split_seq n sep cur cs"
| "split_seq 0 sep cur (c # cs) =
     (if startswith (c # cs) sep then cur # split_seq (length sep - 1) sep [] cs else split_seq 0 sep (cur @ [c]) cs)"

definition cues_of :: "string \<Rightarrow> string list" where
  "cues_of t = filter (\<lambda>c. c \<noteq> []) (List.map py_strip (split_seq 0 cue_separator [] t))"

definition clean_trigger :: "string \<Rightarrow> string option \<times> (string \<times> string) list" where
  "clean_trigger trigger =
     (let t = py_strip trigger; cues = cues_of t;
          kept = filter (\<lambda>c. cue_problem c = []) cues;
          dropped = List.map (\<lambda>c. (c, cue_problem c)) (filter (\<lambda>c. cue_problem c \<noteq> []) cues)
      in if t = [] then (None, []) else if kept = [] then (None, dropped) else (Some (join cue_separator kept), dropped))"

definition sanitize_cue :: "string \<Rightarrow> string option" where
  "sanitize_cue trigger = fst (clean_trigger trigger)"

section \<open>Questions\<close>

text \<open>White space is collapsed to single blanks.\<close>

definition squeeze :: "string \<Rightarrow> string" where
  "squeeze s = join '' '' (words_from [] s)"

definition max_ask_chars :: nat where
  "max_ask_chars = 600"

definition sentence_end :: "char \<Rightarrow> bool" where
  "sentence_end c = (c \<in> set ''.?!'')"

text \<open>A run of white space behind the end of a sentence separates; \<open>prev\<close> is the character read last.\<close>

fun sentences_from :: "bool \<Rightarrow> string \<Rightarrow> string \<Rightarrow> string list" where
  "sentences_from gap cur [] = [cur]"
| "sentences_from gap cur (c # cs) =
     (if gap \<and> is_space c then sentences_from True cur cs
      else if is_space c \<and> cur \<noteq> [] \<and> sentence_end (last cur) then cur # sentences_from True [] cs
      else sentences_from False (cur @ [c]) cs)"

fun keep_tail :: "nat \<Rightarrow> nat \<Rightarrow> string list \<Rightarrow> string list \<Rightarrow> string list" where
  "keep_tail max_chars n kept [] = kept"
| "keep_tail max_chars n kept (s # ss) =
     (let add = length s + (if kept = [] then 0 else 1) in
      if max_chars < n + add then kept else keep_tail max_chars (n + add) (s # kept) ss)"

definition compact_ask :: "nat \<Rightarrow> string \<Rightarrow> string" where
  "compact_ask max_chars content =
     (let t = squeeze content in
      if length t \<le> max_chars then t
      else let kept = keep_tail max_chars 0 [] (rev (sentences_from False [] t)) in
        if kept \<noteq> [] then join '' '' kept
        else let tl = (if max_chars = 0 then t else drop (length t - max_chars) t) in
          case find_str tl '' '' of None \<Rightarrow> tl
          | Some i \<Rightarrow> if i < length tl - 1 then drop (i + 1) tl else tl)"

section \<open>Plans of repair\<close>

record purge_item =
  pu_key :: json
  pu_record :: jobj
  pu_content :: string
  pu_old :: string
  pu_new :: "string option"
  pu_dropped :: "(string \<times> string) list"

definition plan_one :: "jobj \<Rightarrow> purge_item list py" where
  "plan_one r =
     (if jget r ''kind'' \<noteq> JStr ''fact'' \<and> jget r ''kind'' \<noteq> JStr ''recollection'' then Inr []
      else py_bind (strip_or_empty (jget r ''trigger'')) (\<lambda>t.
        if t = [] then Inr []
        else let (cleaned, dropped) = clean_trigger t in
          if dropped = [] then Inr []
          else py_bind (strip_or_empty (jget r ''content'')) (\<lambda>content.
            Inr [\<lparr>pu_key = jget r ''key'', pu_record = r, pu_content = content, pu_old = t, pu_new = cleaned,
              pu_dropped = dropped\<rparr>])))"

definition plan_trigger_purge :: "jobj list \<Rightarrow> purge_item list py" where
  "plan_trigger_purge rs = py_fold (\<lambda>plan r. py_bind (plan_one r) (\<lambda>ps. Inr (plan @ ps))) [] rs"

text \<open>What a client sees of a purge plan.\<close>

definition pair_json :: "string \<times> string \<Rightarrow> json" where
  "pair_json d = JObj [(''cue'', JStr (fst d)), (''reason'', JStr (snd d))]"

definition hygiene_summary :: "purge_item list \<Rightarrow> jobj list" where
  "hygiene_summary plan = List.map (\<lambda>p. [(''content'', JStr (take 200 (pu_content p))), (''key'', pu_key p),
     (''old_trigger'', JStr (take 300 (pu_old p))), (''new_trigger'', case pu_new p of None \<Rightarrow> JNull | Some t \<Rightarrow> JStr t),
     (''dropped'', JList (List.map pair_json (pu_dropped p)))]) plan"

definition impression_tag :: string where
  "impression_tag = ''[impression]''"

definition is_dash :: "char \<Rightarrow> bool" where
  "is_dash c = (c \<in> set ''-*'')"

text \<open>Behind the anchor of the pattern: an optional bullet, white space, the tag; what follows it.\<close>

definition after_tag :: "string \<Rightarrow> string option" where
  "after_tag s =
     (let s1 = (case s of c # cs \<Rightarrow> if is_dash c then cs else s | [] \<Rightarrow> []);
          s2 = lstrip_if is_space s1
      in if startswith (py_lower s2) impression_tag then Some (drop (length impression_tag) s2) else None)"

fun glue_from :: "string \<Rightarrow> string \<Rightarrow> (string \<times> string) option" where
  "glue_from cur [] = None"
| "glue_from cur (c # cs) =
     (case (if cur = [] then after_tag (c # cs) else None) of
        Some rest \<Rightarrow> Some (cur, rest)
      | None \<Rightarrow> (case (if is_space c then after_tag cs else None) of
            Some rest \<Rightarrow> Some (cur, rest)
          | None \<Rightarrow> glue_from (cur @ [c]) cs))"

definition split_glued_impression :: "string \<Rightarrow> string \<times> string" where
  "split_glued_impression content =
     (let t = squeeze content in
      case glue_from [] t of None \<Rightarrow> (t, [])
      | Some (q, rest) \<Rightarrow> (py_strip (rstrip_if (\<lambda>c. c \<in> set '' -*'') q), py_strip rest))"

text \<open>The question of an \<open>[ask]\<close> line right above an impression, in the raw sections of a pass.\<close>

definition is_blank :: "char \<Rightarrow> bool" where
  "is_blank c = (c = CHR '' '' \<or> c = CHR 0x09)"

definition kind_char :: "char \<Rightarrow> bool" where
  "kind_char c = (let n = (of_char c :: nat) in (65 \<le> n \<and> n \<le> 90) \<or> (97 \<le> n \<and> n \<le> 122) \<or> c \<in> set ''_.'')"

definition ask_line :: "string \<Rightarrow> string option" where
  "ask_line line =
     (let s1 = lstrip_if is_blank line;
          s2 = lstrip_if is_blank (case s1 of c # cs \<Rightarrow> if is_dash c then cs else s1 | [] \<Rightarrow> []);
          s3 = drop 4 s2;
          s4 = (case s3 of c # cs \<Rightarrow>
                  if c \<in> set '':- '' \<and> takeWhile kind_char cs \<noteq> [] then dropWhile kind_char cs else s3 | [] \<Rightarrow> [])
      in if startswith (py_lower s2) ''[ask'' \<and> startswith s4 '']'' then Some (lstrip_if is_blank (drop 1 s4)) else None)"

fun drop_annotations :: "string \<Rightarrow> string" where
  "drop_annotations [] = []"
| "drop_annotations (c # cs) =
     (case (if startswith (py_lower (c # cs)) ''(seen'' \<or> startswith (py_lower (c # cs)) ''(lookup''
            then find_str (c # cs) '')'' else None) of
        None \<Rightarrow> c # drop_annotations cs
      | Some i \<Rightarrow> CHR '' '' # drop_annotations (drop i cs))"

definition question_above :: "string \<Rightarrow> string list \<Rightarrow> string option" where
  "question_above imp lines = (case List.map_filter (\<lambda>i.
      if find_str (squeeze (lines ! i)) imp = None then None
      else case ask_line (lines ! (i - 1)) of None \<Rightarrow> None
        | Some q \<Rightarrow> (let q = squeeze (drop_annotations q) in if q = [] then None else Some q)) [1..<length lines] of
      [] \<Rightarrow> None | q # _ \<Rightarrow> Some q)"

definition question_before :: "string list \<Rightarrow> string \<Rightarrow> string" where
  "question_before sections impression =
     (let imp = take 60 (squeeze impression) in
      if length imp < 20 then []
      else case List.map_filter (\<lambda>sec. question_above imp (filter (\<lambda>l. py_strip l \<noteq> []) (splitlines sec))) sections of
        [] \<Rightarrow> [] | q # _ \<Rightarrow> q)"

record glue_item =
  gi_key :: json
  gi_record :: jobj
  gi_old :: string
  gi_new :: "string option"
  gi_how :: string

definition plan_glue_one :: "(json \<Rightarrow> string) \<Rightarrow> string list \<Rightarrow> jobj \<Rightarrow> glue_item list" where
  "plan_glue_one rp sections r =
     (let content = fstr rp (py_or (jget r ''content'') (JStr [])) in
      if jget r ''kind'' \<noteq> JStr ''ask'' \<or> find_str (py_lower content) impression_tag = None then []
      else let (q, imp) = split_glued_impression content;
               (q, how) = (if q \<noteq> [] then (q, ''cut'')
                 else let b = question_before sections imp in (b, if b \<noteq> [] then ''recovered'' else ''unrecoverable''))
           in [\<lparr>gi_key = jget r ''key'', gi_record = r, gi_old = content,
                gi_new = (if q \<noteq> [] then Some (compact_ask max_ask_chars q) else None), gi_how = how\<rparr>])"

definition plan_impression_glue :: "(json \<Rightarrow> string) \<Rightarrow> string list \<Rightarrow> jobj list \<Rightarrow> glue_item list" where
  "plan_impression_glue rp sections rs = concat (List.map (plan_glue_one rp sections) rs)"


section \<open>Splitting and joining cues\<close>

definition sep_at :: "nat \<Rightarrow> string \<Rightarrow> bool" where
  "sep_at i s = startswith (drop i s) cue_separator"

definition sep_free :: "string \<Rightarrow> bool" where
  "sep_free s = (\<forall>i. \<not> sep_at i s)"

lemma startswith_prefix: "startswith s p \<longleftrightarrow> (\<exists>r. s = p @ r)"
  unfolding startswith_def by (metis append_eq_conv_conj append_take_drop_id)

lemma sep_at_iff: "sep_at i s \<longleftrightarrow> (i \<le> length s \<and> (\<exists>r. drop i s = CHR '' '' # CHR '';'' # CHR '' '' # r))"
  by (cases "i \<le> length s") (auto simp: sep_at_def startswith_prefix cue_separator_def)

lemma sep_at_append: "sep_at i a \<Longrightarrow> sep_at i (a @ b)"
  by (auto simp: sep_at_iff)

lemma sep_free_part: "sep_free (u @ y @ v) \<Longrightarrow> sep_free y"
proof (unfold sep_free_def, rule allI, rule notI)
  fix i assume a: "\<forall>i. \<not> sep_at i (u @ y @ v)" and b: "sep_at i y"
  from b obtain r where r: "i \<le> length y" "drop i y = CHR '' '' # CHR '';'' # CHR '' '' # r" by (auto simp: sep_at_iff)
  then have "sep_at (length u + i) (u @ y @ v)" by (simp add: sep_at_iff)
  then show False using a by blast
qed

text \<open>The first separator of \<open>k ; rest\<close> is the one behind \<open>k\<close>, when no separator starts in \<open>k\<close> with one blank behind.\<close>

lemma sep_first:
  assumes "sep_free (k @ '' '')" "i < length k"
  shows "\<not> sep_at i (k @ cue_separator @ rest)"
proof
  assume "sep_at i (k @ cue_separator @ rest)"
  then obtain r where r: "drop i k @ cue_separator @ rest = CHR '' '' # CHR '';'' # CHR '' '' # r"
    using assms(2) by (auto simp: sep_at_iff)
  obtain c d where c: "drop i k = c # d" using assms(2) by (metis Cons_nth_drop_Suc)
  have "sep_at i (k @ '' '')"
  proof (cases d)
    case Nil
    then show ?thesis using r c by (simp add: cue_separator_def)
  next
    case (Cons c2 d2)
    then show ?thesis using r c assms(2) by (cases d2) (auto simp: sep_at_iff cue_separator_def)
  qed
  then show False using assms(1) by (simp add: sep_free_def)
qed

lemma split_skip: "split_seq n sep cur s = split_seq 0 sep cur (drop n s)"
  by (induction n sep cur s rule: split_seq.induct) simp_all

lemma split_sep: "split_seq 0 cue_separator cur (cue_separator @ s) = cur # split_seq 0 cue_separator [] s"
  by (simp add: cue_separator_def startswith_def split_skip [of 2] numeral_2_eq_2)

lemma split_step:
  "\<not> sep_at 0 (c # cs) \<Longrightarrow> split_seq 0 cue_separator cur (c # cs) = split_seq 0 cue_separator (cur @ [c]) cs"
  by (simp add: sep_at_def)

lemma split_walk:
  assumes "\<And>i. i < length k \<Longrightarrow> \<not> sep_at i (k @ rest)"
  shows "split_seq 0 cue_separator cur (k @ rest) = split_seq 0 cue_separator (cur @ k) rest"
  using assms
proof (induction k arbitrary: cur)
  case (Cons c k)
  have "\<not> sep_at 0 (c # k @ rest)" using Cons.prems [of 0] by simp
  moreover have "\<not> sep_at i (k @ rest)" if "i < length k" for i
    using Cons.prems [of "Suc i"] that by (simp add: sep_at_def)
  ultimately show ?case using Cons.IH [of "cur @ [c]"] by (simp add: split_step del: split_seq.simps)
qed simp

lemma split_join:
  assumes "ks \<noteq> []" "\<forall>k \<in> set (butlast ks). sep_free (k @ '' '')" "sep_free (last ks)"
  shows "split_seq 0 cue_separator [] (join cue_separator ks) = ks"
  using assms
proof (induction ks)
  case IH: (Cons x ks)
  show ?case
  proof (cases ks)
    case Nil
    have "split_seq 0 cue_separator [] (x @ []) = split_seq 0 cue_separator ([] @ x) []"
      using IH.prems(3) Nil by (intro split_walk) (simp add: sep_free_def)
    then show ?thesis using Nil by simp
  next
    case (Cons y ys)
    have f: "sep_free (x @ '' '')" using IH.prems(2) Cons by simp
    have "split_seq 0 cue_separator [] (x @ cue_separator @ join cue_separator (y # ys)) =
        split_seq 0 cue_separator ([] @ x) (cue_separator @ join cue_separator (y # ys))"
      by (rule split_walk) (rule sep_first [OF f])
    then show ?thesis using IH Cons by (simp add: split_sep)
  qed
qed simp

text \<open>What splitting yields: no piece with one blank behind holds a separator, nor does the last.\<close>

lemma split_pieces:
  assumes "\<And>i. i < length cur \<Longrightarrow> \<not> sep_at i (cur @ s)"
  shows "split_seq 0 cue_separator cur s \<noteq> []
    \<and> (\<forall>k \<in> set (butlast (split_seq 0 cue_separator cur s)). sep_free (k @ '' ''))
    \<and> sep_free (last (split_seq 0 cue_separator cur s))"
  using assms
proof (induction "length s" arbitrary: cur s rule: less_induct)
  case less
  show ?case
  proof (cases s)
    case Nil
    have "sep_free cur" unfolding sep_free_def
    proof (rule allI, rule notI)
      fix i assume a: "sep_at i cur"
      then have "i < length cur" by (cases "i = length cur") (auto simp: sep_at_iff)
      then show False using less.prems a Nil by simp
    qed
    then show ?thesis using Nil by simp
  next
    case (Cons c cs)
    show ?thesis
    proof (cases "sep_at 0 s")
      case True
      then obtain r where r: "s = cue_separator @ r" by (auto simp: sep_at_def startswith_prefix)
      have f: "sep_free (cur @ '' '')" unfolding sep_free_def
      proof (rule allI, rule notI)
        fix i assume b: "sep_at i (cur @ '' '')"
        then obtain t where t: "i \<le> Suc (length cur)" "drop i (cur @ '' '') = CHR '' '' # CHR '';'' # CHR '' '' # t"
          by (auto simp: sep_at_iff)
        from arg_cong [OF t(2), of length] have "Suc (length cur) - i = 3 + length t" by simp
        then have i: "i < length cur" by simp
        have "sep_at i ((cur @ '' '') @ '';'' @ '' '' @ r)" using sep_at_append b by blast
        then show False using less.prems [OF i] r by (simp add: cue_separator_def)
      qed
      have "length r < length s" using r by (simp add: cue_separator_def)
      then show ?thesis using less.hyps [of r "[]"] f by (simp add: r split_sep)
    next
      case False
      have "\<not> sep_at i ((cur @ [c]) @ cs)" if "i < length (cur @ [c])" for i
      proof (cases "i < length cur")
        case True
        then show ?thesis using less.prems Cons by simp
      next
        case f: False
        then have "i = length cur" using that by simp
        then show ?thesis using False Cons by (simp add: sep_at_def)
      qed
      then show ?thesis using less.hyps [of cs "cur @ [c]"] False Cons by (simp add: split_step del: split_seq.simps)
    qed
  qed
qed


lemma split_chars: "k \<in> set (split_seq n sep cur s) \<Longrightarrow> set k \<subseteq> set cur \<union> set s"
  by (induction n sep cur s rule: split_seq.induct) (auto split: if_splits)

lemma cues_stripped: "c \<in> set (cues_of t) \<Longrightarrow> c \<noteq> [] \<and> py_strip c = c"
  by (auto simp: cues_of_def)

definition blanks_only :: "string \<Rightarrow> bool" where
  "blanks_only s = (\<forall>c \<in> set s. is_space c \<longrightarrow> c = CHR '' '')"

text \<open>Stripping a piece of blanks brings no separator about.\<close>

lemma strip_sep_free:
  assumes "sep_free (k @ '' '')" "blanks_only k"
  shows "sep_free (py_strip k @ '' '')"
proof -
  obtain u v where k: "k = u @ py_strip k @ v" "\<forall>c \<in> set v. is_space c" using strip_split by blast
  show ?thesis
  proof (cases v)
    case Nil
    then have "k @ '' '' = u @ (py_strip k @ '' '') @ []" using k(1) by simp
    then show ?thesis using assms(1) sep_free_part by metis
  next
    case (Cons c v')
    have "c \<in> set k" using k(1) Cons by (metis in_set_conv_decomp append_assoc)
    then have "c = CHR '' ''" using k(2) Cons assms(2) by (simp add: blanks_only_def)
    then have "k @ '' '' = u @ (py_strip k @ '' '') @ v' @ '' ''" using k(1) Cons by simp
    then show ?thesis using assms(1) sep_free_part by metis
  qed
qed


lemma strip_sep_free_last: "sep_free k \<Longrightarrow> sep_free (py_strip k)"
  using strip_split [of k] sep_free_part by metis

lemma last_filter_cases: "filter P xs = [] \<or> (\<exists>ys. filter P xs = filter P (butlast xs) @ ys \<and> set ys \<subseteq> {last xs} \<and> length ys \<le> 1)"
  by (cases xs rule: rev_cases) auto

text \<open>The cues of a trigger whose white space is blanks: splitting their join gives them back.\<close>

lemma cues_join:
  assumes "blanks_only t" "ks = filter P (cues_of t)" "ks \<noteq> []"
  shows "split_seq 0 cue_separator [] (join cue_separator ks) = ks"
proof -
  let ?ps = "split_seq 0 cue_separator [] t"
  have ps: "?ps \<noteq> []" "\<forall>k \<in> set (butlast ?ps). sep_free (k @ '' '')" "sep_free (last ?ps)"
    using split_pieces [of "[]" t] by simp_all
  have bl: "\<forall>k \<in> set ?ps. blanks_only k"
    using assms(1) split_chars [of _ 0 cue_separator "[]" t] by (fastforce simp: blanks_only_def)
  let ?Q = "\<lambda>k. py_strip k \<noteq> [] \<and> P (py_strip k)"
  have ks: "ks = List.map py_strip (filter ?Q ?ps)"
    unfolding assms(2) cues_of_def by (simp add: filter_map comp_def)
  obtain ys where ys: "filter ?Q ?ps = filter ?Q (butlast ?ps) @ ys" "set ys \<subseteq> {last ?ps}" "length ys \<le> 1"
    using last_filter_cases [of ?Q ?ps] assms(3) ks by auto
  have front: "sep_free (py_strip k @ '' '')" if "k \<in> set (butlast ?ps)" for k
    using that ps(2) bl strip_sep_free by (meson in_set_butlastD)
  have any: "sep_free (py_strip k)" if "k \<in> set ?ps" for k
  proof (cases "k \<in> set (butlast ?ps)")
    case True
    then show ?thesis using front [of k] sep_free_part [of "[]" "py_strip k" "'' ''"] by simp
  next
    case False
    then have "k = last ?ps" using that ps(1) by (metis append_butlast_last_id in_set_conv_decomp insertE list.simps(15) rotate1.simps(2) set_rotate1)
    then show ?thesis using ps(3) strip_sep_free_last by blast
  qed
  show ?thesis
  proof (rule split_join [OF assms(3)])
    show "\<forall>k \<in> set (butlast ks). sep_free (k @ '' '')"
    proof
      fix k assume k: "k \<in> set (butlast ks)"
      have "set (butlast ks) \<subseteq> py_strip ` set (filter ?Q (butlast ?ps))"
      proof (cases ys)
        case Nil
        then show ?thesis using ks ys(1) by (auto dest: in_set_butlastD)
      next
        case (Cons y zs)
        then have "ys = [y]" using ys(3) by simp
        then show ?thesis using ks ys(1) by (simp add: butlast_append)
      qed
      then show "sep_free (k @ '' '')" using k front by auto
    qed
    have "last ks \<in> set ks" using assms(3) by simp
    then show "sep_free (last ks)" using ks any by auto
  qed
qed


lemma py_strip_nil: "py_strip [] = []"
  by code_simp

lemma strip_id: "s \<noteq> [] \<Longrightarrow> \<not> is_space (hd s) \<Longrightarrow> \<not> is_space (last s) \<Longrightarrow> py_strip s = s"
  by (cases s) (simp_all add: py_strip_def strip_if_def lstrip_if_def rstrip_if_last)

lemma strip_ends:
  assumes "py_strip s = s" "s \<noteq> []"
  shows "\<not> is_space (hd s)" "\<not> is_space (last s)"
proof -
  have r: "rstrip_if is_space (lstrip_if is_space s) = s" using assms(1) by (simp add: py_strip_def strip_if_def)
  then show "\<not> is_space (last s)" using rstrip_if_last_not [of is_space "lstrip_if is_space s"] assms(2) by simp
  have "hd s = hd (lstrip_if is_space s)" using r hd_rstrip_if [of is_space "lstrip_if is_space s"] assms(2) by simp
  moreover have "lstrip_if is_space s \<noteq> []" using r assms(2) by (auto simp: rstrip_if_def)
  ultimately show "\<not> is_space (hd s)" unfolding lstrip_if_def by (metis hd_dropWhile)
qed

lemma join_ends:
  assumes "ks \<noteq> []" "\<forall>k \<in> set ks. k \<noteq> []"
  shows "join d ks \<noteq> []" "hd (join d ks) = hd (hd ks)" "last (join d ks) = last (last ks)"
  using assms by (induction d ks rule: join.induct) simp_all

lemma strip_join:
  assumes "ks \<noteq> []" "\<forall>k \<in> set ks. k \<noteq> [] \<and> py_strip k = k"
  shows "py_strip (join d ks) = join d ks"
proof (rule strip_id)
  have ne: "\<forall>k \<in> set ks. k \<noteq> []" using assms(2) by blast
  note j = join_ends [OF assms(1) ne, of d]
  show "join d ks \<noteq> []" by (rule j(1))
  show "\<not> is_space (hd (join d ks))" unfolding j(2) using assms strip_ends(1) by (metis list.set_sel(1))
  show "\<not> is_space (last (join d ks))" unfolding j(3) using assms strip_ends(2) by (metis last_in_set)
qed

lemma blanks_only_strip: "blanks_only t \<Longrightarrow> blanks_only (py_strip t)"
  using set_strip_if [of is_space t] by (auto simp: blanks_only_def py_strip_def)

lemma clean_trigger_fixed:
  assumes "blanks_only t" "clean_trigger t = (Some t', ds)"
  shows "clean_trigger t' = (Some t', []) \<and> py_strip t' = t' \<and> t' \<noteq> []
    \<and> cues_of t' = filter (\<lambda>c. cue_problem c = []) (cues_of (py_strip t))"
proof -
  let ?ks = "filter (\<lambda>c. cue_problem c = []) (cues_of (py_strip t))"
  have ks: "?ks \<noteq> []" "t' = join cue_separator ?ks"
    using assms(2) by (auto simp: clean_trigger_def Let_def split: if_splits)
  have all: "\<forall>k \<in> set ?ks. k \<noteq> [] \<and> py_strip k = k" using cues_stripped by auto
  have st: "py_strip t' = t'" unfolding ks(2) by (rule strip_join [OF ks(1) all])
  have "t' \<noteq> []" unfolding ks(2) using join_ends(1) [OF ks(1)] all by blast
  have "split_seq 0 cue_separator [] t' = ?ks"
    unfolding ks(2) by (rule cues_join [OF blanks_only_strip [OF assms(1)] refl ks(1)])
  then have "cues_of t' = filter (\<lambda>c. c \<noteq> []) (List.map py_strip ?ks)" by (simp only: cues_of_def)
  also have "List.map py_strip ?ks = ?ks" by (rule map_idI) (use all in blast)
  also have "filter (\<lambda>c. c \<noteq> []) ?ks = ?ks" by (rule filter_True) (use all in blast)
  finally have c: "cues_of t' = ?ks" .
  have f: "filter (\<lambda>c. cue_problem c = []) (cues_of t') = ?ks" "filter (\<lambda>c. cue_problem c \<noteq> []) (cues_of t') = []"
    unfolding c by simp_all
  have "clean_trigger t' = (if t' = [] then (None, []) else if ?ks = [] then (None, []) else (Some (join cue_separator ?ks), []))"
    unfolding clean_trigger_def Let_def st f by simp
  then have "clean_trigger t' = (Some t', [])" using \<open>t' \<noteq> []\<close> ks by metis
  then show ?thesis using st \<open>t' \<noteq> []\<close> c by blast
qed

section \<open>Properties\<close>

definition purged :: "purge_item \<Rightarrow> jobj" where
  "purged p = dset ''trigger'' (case pu_new p of None \<Rightarrow> JNull | Some t \<Rightarrow> JStr t) (pu_record p)"

lemma purge_plan_members:
  "plan_trigger_purge rs = Inr plan \<Longrightarrow> p \<in> set plan \<Longrightarrow> \<exists>r \<in> set rs. \<exists>ps. plan_one r = Inr ps \<and> p \<in> set ps"
proof -
  have "py_fold (\<lambda>plan r. py_bind (plan_one r) (\<lambda>ps. Inr (plan @ ps))) acc rs = Inr plan \<Longrightarrow> p \<in> set plan
      \<Longrightarrow> p \<in> set acc \<or> (\<exists>r \<in> set rs. \<exists>ps. plan_one r = Inr ps \<and> p \<in> set ps)" for acc
  proof (induction rs arbitrary: acc)
    case (Cons r rs)
    then obtain ps where "plan_one r = Inr ps"
        "py_fold (\<lambda>plan r. py_bind (plan_one r) (\<lambda>ps. Inr (plan @ ps))) (acc @ ps) rs = Inr plan"
      by (auto simp: py_bind_eq_Inr)
    then show ?case using Cons.IH [of "acc @ ps"] Cons.prems(2) by auto
  qed simp
  from this [of "[]"] show "plan_trigger_purge rs = Inr plan \<Longrightarrow> p \<in> set plan \<Longrightarrow> ?thesis"
    by (simp add: plan_trigger_purge_def)
qed

text \<open>The purge of the recall cues settles. Of a record whose trigger uses no white space but blanks, the cue that
  is written in its place holds every usable cue, in order, and no other; planned again, the rewritten record
  is left alone, so a second purge of a purged store has nothing to do.\<close>

theorem purge_settles:
  assumes "plan_trigger_purge rs = Inr plan" "p \<in> set plan" "blanks_only (pu_old p)"
  shows "plan_one (purged p) = Inr []
    \<and> (\<forall>t. pu_new p = Some t \<longrightarrow> cues_of t = filter (\<lambda>c. cue_problem c = []) (cues_of (pu_old p)))
    \<and> (pu_new p = None \<longrightarrow> (\<forall>c \<in> set (cues_of (pu_old p)). cue_problem c \<noteq> []))"
proof -
  obtain r ps where r: "plan_one r = Inr ps" "p \<in> set ps" using purge_plan_members [OF assms(1,2)] by blast
  then obtain t cl ds where t: "strip_or_empty (jget r ''trigger'') = Inr t" "clean_trigger t = (cl, ds)"
      "pu_old p = t" "pu_new p = cl" "pu_record p = r" "ds \<noteq> []"
    by (auto simp: plan_one_def py_bind_eq_Inr Let_def split: if_splits prod.splits)
  have st: "py_strip t = t" using t(1) by (auto simp: strip_or_empty_def py_bind_eq_Inr)
  show ?thesis
  proof (cases cl)
    case None
    have "\<forall>c \<in> set (cues_of t). cue_problem c \<noteq> []"
      using t(2) st None by (auto simp: clean_trigger_def Let_def filter_empty_conv cues_of_def split: if_splits)
    moreover have "plan_one (purged p) = Inr []" using None t(4) by (simp add: plan_one_def purged_def strip_or_empty_def py_or_def py_strip_nil)
    ultimately show ?thesis using None t(3,4) by simp
  next
    case (Some u)
    have b: "blanks_only t" using assms(3) t(3) by simp
    have u: "clean_trigger u = (Some u, [])" "py_strip u = u" "u \<noteq> []"
      using clean_trigger_fixed [OF b, of u ds] t(2) Some by auto
    have c: "cues_of u = filter (\<lambda>c. cue_problem c = []) (cues_of t)" if "clean_trigger t = (Some u, ds)"
      using clean_trigger_fixed [OF b that] st by simp
    have "plan_one (purged p) = Inr []"
      using u Some t(4) by (simp add: plan_one_def purged_def strip_or_empty_str)
    then show ?thesis using c t(2,3,4) Some by simp
  qed
qed


section \<open>An over-long question keeps its tail\<close>

fun single_spaced :: "string \<Rightarrow> bool" where
  "single_spaced [] = True"
| "single_spaced [c] = (\<not> is_space c)"
| "single_spaced (c # d # cs) = ((is_space c \<longrightarrow> c = CHR '' '' \<and> \<not> is_space d) \<and> single_spaced (d # cs))"

lemma words_shape:
  "list_all (\<lambda>c. \<not> is_space c) cur \<Longrightarrow> list_all (\<lambda>w. w \<noteq> [] \<and> list_all (\<lambda>c. \<not> is_space c) w) (words_from cur s)"
  by (induction cur s rule: words_from.induct) simp_all

lemma single_word: "\<forall>c \<in> set w. \<not> is_space c \<Longrightarrow> single_spaced w"
  by (induction w rule: single_spaced.induct) simp_all

lemma single_cons_word:
  "w \<noteq> [] \<Longrightarrow> \<forall>c \<in> set w. \<not> is_space c \<Longrightarrow> single_spaced (d # cs) \<Longrightarrow> \<not> is_space d \<Longrightarrow> single_spaced (w @ CHR '' '' # d # cs)"
  by (induction w rule: single_spaced.induct) simp_all

lemma single_join:
  "\<forall>w \<in> set ws. w \<noteq> [] \<and> (\<forall>c \<in> set w. \<not> is_space c) \<Longrightarrow> single_spaced (join '' '' ws)"
proof (induction ws)
  case IH: (Cons w ws)
  show ?case
  proof (cases ws)
    case Nil
    then show ?thesis using IH.prems by (simp add: single_word)
  next
    case (Cons v vs)
    have ne: "\<forall>k \<in> set ws. k \<noteq> []" using IH.prems by simp
    have "join '' '' ws \<noteq> []" "hd (join '' '' ws) = hd v" using join_ends [OF _ ne, of "'' ''"] Cons by simp_all
    then obtain d cs where d: "join '' '' ws = d # cs" "d = hd v" by (cases "join '' '' ws") auto
    have "\<not> is_space d" using IH.prems Cons d(2) by (metis list.set_intros(1,2) list.set_sel(1))
    then show ?thesis using IH d single_cons_word [of w d cs] Cons by simp
  qed
qed simp

lemma single_squeeze: "single_spaced (squeeze s)"
  unfolding squeeze_def by (rule single_join) (use words_shape [of "[]" s] in \<open>simp add: list_all_iff\<close>)

lemma sentences_join:
  "single_spaced s \<Longrightarrow> sentences_from False cur s \<noteq> [] \<and> join '' '' (sentences_from False cur s) = cur @ s"
proof (induction s arbitrary: cur rule: single_spaced.induct)
  case (3 c d cs)
  show ?case
  proof (cases "is_space c \<and> cur \<noteq> [] \<and> sentence_end (last cur)")
    case True
    then have d: "c = CHR '' ''" "\<not> is_space d" using "3.prems" by simp_all
    have e: "sentences_from False cur (c # d # cs) = cur # sentences_from False [] (d # cs)"
      using True d by simp
    obtain x xs where x: "sentences_from False [] (d # cs) = x # xs" "join '' '' (x # xs) = d # cs"
      using "3.IH" [of "[]"] "3.prems" by (cases "sentences_from False [] (d # cs)") auto
    show ?thesis unfolding e x(1) using x(2) d(1) by simp
  next
    case False
    have e: "sentences_from False cur (c # d # cs) = sentences_from False (cur @ [c]) (d # cs)"
      using False by (simp only: sentences_from.simps if_False simp_thms)
    show ?thesis unfolding e using "3.IH" [of "cur @ [c]"] "3.prems" by simp
  qed
qed simp_all

lemma join_cons: "join d (x # xs) = (if xs = [] then x else x @ d @ join d xs)"
  by (cases xs) simp_all

lemma join_tail: "\<exists>u. join d ss = u @ join d (drop k ss)"
proof (induction k arbitrary: ss)
  case (Suc k)
  show ?case
  proof (cases ss)
    case (Cons x xs)
    obtain u where "join d xs = u @ join d (drop k xs)" using Suc by blast
    then show ?thesis using Cons by (cases "xs = []") (auto simp: join_cons)
  qed simp
qed simp

lemma keep_tail_spec:
  assumes "n = length (join '' '' kept)" "n \<le> m"
  shows "\<exists>j. keep_tail m n kept ss = rev (take j ss) @ kept \<and> length (join '' '' (keep_tail m n kept ss)) \<le> m"
  using assms
proof (induction ss arbitrary: n kept)
  case Nil
  then show ?case by simp
next
  case (Cons s ss)
  let ?add = "length s + (if kept = [] then 0 else 1)"
  show ?case
  proof (cases "m < n + ?add")
    case True
    then show ?thesis using Cons.prems by (intro exI [of _ 0]) (simp add: Let_def)
  next
    case False
    have n: "n + ?add = length (join '' '' (s # kept))" using Cons.prems(1) by (simp add: join_cons)
    obtain j where j: "keep_tail m (n + ?add) (s # kept) ss = rev (take j ss) @ s # kept"
        "length (join '' '' (keep_tail m (n + ?add) (s # kept) ss)) \<le> m"
      using Cons.IH [OF n] False by auto
    have e: "keep_tail m n kept (s # ss) = keep_tail m (n + ?add) (s # kept) ss" using False by (simp add: Let_def)
    show ?thesis unfolding e using j by (intro exI [of _ "Suc j"]) simp
  qed
qed

text \<open>An over-long question keeps its end. What is stored of a question is never longer than the cap and is the end
  of what was asked, white space collapsed; a question that fits is stored as it is.\<close>

theorem compact_ask_keeps_the_tail:
  assumes "0 < m"
  shows "length (compact_ask m content) \<le> m \<and> (\<exists>u. squeeze content = u @ compact_ask m content)
    \<and> (length (squeeze content) \<le> m \<longrightarrow> compact_ask m content = squeeze content)"
proof (cases "length (squeeze content) \<le> m")
  case True
  then show ?thesis by (simp add: compact_ask_def)
next
  case False
  let ?t = "squeeze content"
  let ?ss = "sentences_from False [] ?t"
  let ?kept = "keep_tail m 0 [] (rev ?ss)"
  obtain j where j: "?kept = rev (take j (rev ?ss))" "length (join '' '' ?kept) \<le> m"
    using keep_tail_spec [of 0 "[]" m "rev ?ss"] by auto
  have k: "?kept = drop (length ?ss - j) ?ss" unfolding j(1) by (simp add: take_rev)
  show ?thesis
  proof (cases "?kept = []")
    case ne: False
    have c: "compact_ask m content = join '' '' ?kept" using False ne by (simp add: compact_ask_def Let_def)
    obtain u where "join '' '' ?ss = u @ join '' '' ?kept" using join_tail k by metis
    then have "?t = u @ compact_ask m content" using sentences_join [OF single_squeeze, of "[]" content] c by simp
    moreover have "length (compact_ask m content) \<le> m" unfolding c by (rule j(2))
    ultimately show ?thesis using False by blast
  next
    case True
    let ?tl = "drop (length ?t - m) ?t"
    have e: "compact_ask m content = (case find_str ?tl '' '' of None \<Rightarrow> ?tl
        | Some i \<Rightarrow> if i < length ?tl - 1 then drop (i + 1) ?tl else ?tl)"
      unfolding compact_ask_def Let_def using False True assms by (simp only: if_False simp_thms) simp
    have "\<exists>i. compact_ask m content = drop i ?tl"
    proof (cases "find_str ?tl '' ''")
      case None
      then have "compact_ask m content = drop 0 ?tl" unfolding e by simp
      then show ?thesis by blast
    next
      case (Some i)
      then have "compact_ask m content = drop (i + 1) ?tl \<or> compact_ask m content = drop 0 ?tl" unfolding e by simp
      then show ?thesis by blast
    qed
    then obtain i where "compact_ask m content = drop i ?tl" by blast
    then have c: "compact_ask m content = drop (i + (length ?t - m)) ?t" by simp
    then have "?t = take (i + (length ?t - m)) ?t @ compact_ask m content" by simp
    moreover have "length (compact_ask m content) \<le> m" unfolding c using False by simp
    ultimately show ?thesis using False by metis
  qed
qed


definition fused_fact :: jobj where
  "fused_fact = [(''key'', JStr ''b''), (''kind'', JStr ''fact''), (''content'', JStr ''They met in May''),
     (''trigger'', JStr ''balcony, stars ; did that ever work out? ; morning coffee'')]"

definition fused_purge :: purge_item where
  "fused_purge = \<lparr>pu_key = JStr ''b'', pu_record = fused_fact, pu_content = ''They met in May'',
     pu_old = ''balcony, stars ; did that ever work out? ; morning coffee'',
     pu_new = Some ''balcony, stars ; morning coffee'',
     pu_dropped = [(''did that ever work out?'', ''addressed speech, not a cue'')]\<rparr>"

lemma purge_settles_witness:
  "plan_trigger_purge [fused_fact] = Inr [fused_purge] \<and> plan_one (purged fused_purge) = Inr []
   \<and> cues_of ''balcony, stars ; morning coffee'' = [''balcony, stars'', ''morning coffee'']"
proof -
  have p: "plan_trigger_purge [fused_fact] = Inr [fused_purge]" by code_simp
  have "blanks_only (pu_old fused_purge)" by code_simp
  then have "plan_one (purged fused_purge) = Inr []" using purge_settles [OF p, of fused_purge] by simp
  moreover have "cues_of ''balcony, stars ; morning coffee'' = [''balcony, stars'', ''morning coffee'']" by code_simp
  ultimately show ?thesis using p by simp
qed

lemma compact_ask_keeps_the_tail_witness:
  "compact_ask 20 ''I read it again. Did it   work out?'' = ''Did it work out?''
   \<and> length (compact_ask 20 ''I read it again. Did it   work out?'') \<le> 20"
proof -
  have "compact_ask 20 ''I read it again. Did it   work out?'' = ''Did it work out?''" by code_simp
  moreover have "length (compact_ask 20 ''I read it again. Did it   work out?'') \<le> 20"
    using compact_ask_keeps_the_tail [of 20 "''I read it again. Did it   work out?''"] by simp
  ultimately show ?thesis ..
qed

text \<open>
  With a tab before a separator the purge does not settle: the tab is stripped, and what is left of the separator
  reads as one, so the cue is cut the next time.
\<close>

definition tabbed_trigger :: string where
  "tabbed_trigger = ''huh? ;'' @ [CHR 0x09] @ '' ; b ; no!''"

lemma purge_not_idempotent:
  "fst (clean_trigger tabbed_trigger) = Some ''huh? ; ; b'' \<and> fst (clean_trigger ''huh? ; ; b'') = Some ''; b''"
  by code_simp

text \<open>
  A marker with no white space before it is seen by the plan and not by the cut: the question is planned with its
  own text as the repair, and again the next time.
\<close>

definition unspaced_marker :: jobj where
  "unspaced_marker = [(''key'', JStr ''k''), (''kind'', JStr ''ask''), (''content'', JStr ''Why?[impression] She waits.'')]"

lemma unspaced_marker_replanned:
  "List.map gi_new (plan_impression_glue (\<lambda>_. []) [] [unspaced_marker]) = [Some ''Why?[impression] She waits.'']
   \<and> List.map gi_how (plan_impression_glue (\<lambda>_. []) [] [unspaced_marker]) = [''cut'']"
  by code_simp

end
