(* ===== verification/Reflection_Writer.thy ===== *)
theory Reflection_Writer
  imports Ledger Reflection_Memory Think_Block Trigger_Hygiene
begin

text \<open>
  \<open>server/inference/core/reflection_writer.py\<close>: what a reflection writes. Who a statement is about and what
  may be trained of it, the routing of a consolidation into the weights file and the recall log, the closing,
  reopening and distilling of questions, recollections, merges of facts, and the verdict of a revision with the
  statements about herself it yields. The parsed form of a completion, the hash of a text,
  the parsing of dates, the language of a text and the clock are arguments, and so is whether distilling
  waits for the judge (\<open>we_gate\<close>). An append that fails is not modelled here.
\<close>

record writer_env =
  we_sha :: "string \<Rightarrow> string"
  we_strp :: "string \<Rightarrow> string \<Rightarrow> string option"
  we_iso :: "string \<Rightarrow> string option"
  we_lang :: "string \<Rightarrow> string"
  we_ts :: string
  we_gate :: bool

text \<open>The key of a content: case, punctuation and white space do not matter.\<close>

definition word_char :: "char \<Rightarrow> bool" where
  "word_char c = (let n = (of_char c :: nat) in
     (48 \<le> n \<and> n \<le> 57) \<or> (65 \<le> n \<and> n \<le> 90) \<or> n = 95 \<or> (97 \<le> n \<and> n \<le> 122)
     \<or> n \<in> {170, 178, 179, 181, 185, 186, 188, 189, 190} \<or> (192 \<le> n \<and> n \<noteq> 215 \<and> n \<noteq> 247))"

definition normalize_key :: "string \<Rightarrow> string" where
  "normalize_key s = squeeze (List.map (\<lambda>c. if word_char c \<or> is_space c then c else CHR '' '') (py_lower s))"

definition content_key :: "(string \<Rightarrow> string) \<Rightarrow> string \<Rightarrow> string" where
  "content_key sha s = take 12 (sha (normalize_key s))"

definition we_ck :: "writer_env \<Rightarrow> string \<Rightarrow> string" where
  "we_ck e s = content_key (we_sha e) s"

text \<open>
  The date of the chat a record comes from, read from its name; \<open>strp\<close> and \<open>fromiso\<close> give the ISO form of a text that
  parses. A second session of the same second carries a number behind its name.
\<close>

definition is_decimal :: "char \<Rightarrow> bool" where
  "is_decimal c = (digit_val c \<noteq> None)"

definition numbered_stem :: "string \<Rightarrow> bool" where
  "numbered_stem s = (16 < length s \<and> list_all is_decimal (take 8 s) \<and> s ! 8 \<in> set ''_-''
     \<and> list_all is_decimal (take 6 (drop 9 s)) \<and> s ! 15 = CHR ''_'' \<and> list_all is_decimal (drop 16 s))"

definition session_stem :: "string \<Rightarrow> string" where
  "session_stem s = (if endswith s ''.state.json'' then removesuffix s ''.state.json''
     else if endswith s ''.json'' then removesuffix s ''.json'' else s)"

definition source_origin_ts ::
  "(string \<Rightarrow> string \<Rightarrow> string option) \<Rightarrow> (string \<Rightarrow> string option) \<Rightarrow> string \<Rightarrow> string option" where
  "source_origin_ts strp fromiso session =
     (if session = [] then None
      else let s = session_stem (py_strip session); cands = s # (if numbered_stem s then [take 15 s] else []);
               tries = concat (List.map (\<lambda>c. [strp ''%Y%m%d_%H%M%S'' c, strp ''%Y%m%d-%H%M%S'' c]) cands)
        in case filter (\<lambda>t. t \<noteq> None) tries of t # _ \<Rightarrow> t | [] \<Rightarrow> fromiso s)"

definition we_origin :: "writer_env \<Rightarrow> string \<Rightarrow> string option" where
  "we_origin e session = source_origin_ts (we_strp e) (we_iso e) session"

record writer_files =
  wf_rag :: logfile
  wf_weights :: logfile

definition to_rag :: "jobj \<Rightarrow> writer_files \<Rightarrow> writer_files" where
  "to_rag r w = w\<lparr>wf_rag := log_append r (wf_rag w)\<rparr>"

definition to_weights :: "jobj \<Rightarrow> writer_files \<Rightarrow> writer_files" where
  "to_weights r w = w\<lparr>wf_weights := log_append r (wf_weights w)\<rparr>"

section \<open>Who said it, and about whom\<close>

definition unnamed_referents :: "string list" where
  "unnamed_referents =
     [''user'', ''the user'', ''person'', ''the person'', ''they'', ''them'', ''someone'', ''the speaker'', ''speaker'',
      ''interlocutor'', ''the interlocutor'', ''me'', ''i'', ''unknown'', ''n/a'', ''none'']"

definition name_mark :: "char \<Rightarrow> bool" where
  "name_mark c = (c \<in> set ''.,;:!?()[]'' \<or> c = CHR 0x27 \<or> c = CHR 0x22)"

definition normalize_person :: "string \<Rightarrow> string" where
  "normalize_person name =
     (let s = py_lower (strip_if name_mark (join '' '' (words_from [] name))) in
      if s = [] \<or> s \<in> set unnamed_referents then []
      else let first = strip_if name_mark (hd (split_on CHR '' '' s)) in
        if first \<in> set unnamed_referents then [] else first)"

definition derive_source_class :: "string \<Rightarrow> string \<Rightarrow> string" where
  "derive_source_class source about =
     (let src = normalize_person source; abt = normalize_person about in
      if src = [] \<or> abt = [] then ''observed'' else if src = abt then ''self'' else ''hearsay'')"

definition attribution_fields :: "string \<Rightarrow> string \<Rightarrow> string \<Rightarrow> jobj" where
  "attribution_fields about source source_class =
     (let about = py_strip about; source = py_strip source in
      if about = [] \<and> source = [] then []
      else [(''source_class'', JStr (if source_class = [] then derive_source_class source about else source_class))]
        @ (if about = [] then [] else [(''about'', JStr about)])
        @ (if source = [] then [] else [(''source'', JStr source)]))"

section \<open>A weights item is mirrored into recall\<close>

definition origin_meta :: "writer_env \<Rightarrow> string \<Rightarrow> jobj" where
  "origin_meta e session = (case we_origin e session of None \<Rightarrow> []
     | Some t \<Rightarrow> if t = [] then [] else [(''origin_ts'', JStr t)])"

definition recall_record ::
  "writer_env \<Rightarrow> string \<Rightarrow> string \<Rightarrow> string \<Rightarrow> string \<Rightarrow> string \<Rightarrow> string \<Rightarrow> int option \<Rightarrow> jobj \<Rightarrow> string
   \<Rightarrow> string \<Rightarrow> string \<Rightarrow> string \<Rightarrow> jobj" where
  "recall_record e kind content run_id session ts idx exchange chunk trigger about source source_class =
     [(''run_id'', JStr run_id), (''ts'', JStr ts), (''id'', JStr idx), (''op'', JStr ''insert''),
      (''kind'', JStr (if kind = ''persona'' then ''persona'' else ''fact'')), (''source_session'', JStr session),
      (''content'', JStr content), (''key'', JStr (we_ck e content)), (''from_weights'', JBool True)]
     @ (case exchange of None \<Rightarrow> [] | Some i \<Rightarrow> [(''exchange_index'', JInt i)])
     @ origin_meta e session
     @ (case sanitize_cue trigger of None \<Rightarrow> []
        | Some t \<Rightarrow> if py_strip t = [] then [] else [(''trigger'', JStr (py_strip t))])
     @ attribution_fields about source source_class
     @ chunk"

definition emit_weight_recall ::
  "writer_env \<Rightarrow> string \<Rightarrow> string \<Rightarrow> string \<Rightarrow> string \<Rightarrow> string \<Rightarrow> string \<Rightarrow> int option \<Rightarrow> jobj \<Rightarrow> string
   \<Rightarrow> string \<Rightarrow> string \<Rightarrow> string \<Rightarrow> writer_files \<Rightarrow> bool \<times> writer_files" where
  "emit_weight_recall e kind content run_id session ts idx exchange chunk trigger about source source_class w =
     (let content = py_strip content in
      if content = [] then (False, w)
      else (True, to_rag (recall_record e kind content run_id session ts idx exchange chunk trigger about source
              source_class) w))"

section \<open>A consolidation is routed\<close>

record weight_item =
  wi_kind :: string
  wi_content :: string
  wi_lang :: string
  wi_trigger :: "string option"
  wi_about :: "string option"

record rag_item =
  ri_kind :: string
  ri_content :: string
  ri_key :: string
  ri_seen :: "string option"
  ri_ask_kind :: "string option"
  ri_lookup :: "string option"
  ri_trigger :: "string option"
  ri_about :: "string option"

record resolved_item =
  rs_key :: string
  rs_question :: string
  rs_answer :: string
  rs_answered_in :: "string option"

record parsed_reflection =
  pr_weights :: "weight_item list"
  pr_rag :: "rag_item list"
  pr_resolved :: "resolved_item list"

record routing =
  ro_facts :: "weight_item list"
  ro_weights :: nat
  ro_rag :: nat
  ro_evict :: nat
  ro_recall :: nat
  ro_hearsay :: nat
  ro_pending :: nat

definition no_routing :: routing where
  "no_routing = \<lparr>ro_facts = [], ro_weights = 0, ro_rag = 0, ro_evict = 0, ro_recall = 0, ro_hearsay = 0, ro_pending = 0\<rparr>"

definition or_empty :: "string option \<Rightarrow> string" where
  "or_empty x = (case x of None \<Rightarrow> [] | Some s \<Rightarrow> s)"

definition opt_str :: "string option \<Rightarrow> json" where
  "opt_str x = (case x of None \<Rightarrow> JNull | Some s \<Rightarrow> JStr s)"

record pass_info =
  pi_run :: string
  pi_session :: string
  pi_chunk :: "(int \<times> int) option"
  pi_user :: string

definition chunk_meta :: "pass_info \<Rightarrow> jobj" where
  "chunk_meta p = (case pi_chunk p of None \<Rightarrow> []
     | Some (i, n) \<Rightarrow> [(''chunk_index'', JInt i), (''chunk_count'', JInt n)])"

definition id_prefix :: "pass_info \<Rightarrow> string" where
  "id_prefix p = (case pi_chunk p of None \<Rightarrow> pi_run p | Some (i, n) \<Rightarrow> pi_run p @ ''-c'' @ int_str i)"

text \<open>\<open>{n:03d}\<close>\<close>

definition pad :: "nat \<Rightarrow> nat \<Rightarrow> string" where
  "pad k n = (let s = nat_str n in replicate (k - length s) (CHR ''0'') @ s)"

definition item_attribution :: "pass_info \<Rightarrow> weight_item \<Rightarrow> jobj" where
  "item_attribution p w = (if wi_kind w = ''fact'' then attribution_fields (or_empty (wi_about w)) (pi_user p) [] else [])"

definition is_hearsay :: "pass_info \<Rightarrow> weight_item \<Rightarrow> bool" where
  "is_hearsay p w = (jget (item_attribution p w) ''source_class'' = JStr ''hearsay'')"

definition weights_record :: "writer_env \<Rightarrow> pass_info \<Rightarrow> weight_item \<Rightarrow> jobj" where
  "weights_record e p w =
     [(''run_id'', JStr (pi_run p)), (''ts'', JStr (we_ts e)), (''source_session'', JStr (pi_session p)),
      (''weights_kind'', JStr (wi_kind w)), (''content'', JStr (wi_content w)), (''lang'', JStr (wi_lang w))]
     @ item_attribution p w @ origin_meta e (pi_session p) @ chunk_meta p"

fun str_of :: "json \<Rightarrow> string" where
  "str_of (JStr s) = s"
| "str_of _ = []"

definition route_weight ::
  "writer_env \<Rightarrow> pass_info \<Rightarrow> weight_item \<Rightarrow> routing \<times> writer_files \<Rightarrow> routing \<times> writer_files" where
  "route_weight e p w st =
     (let (c, f) = st; attribution = item_attribution p w; hearsay = is_hearsay p w; fact = (wi_kind w = ''fact'');
          (c, f) = (if hearsay then (c\<lparr>ro_hearsay := ro_hearsay c + 1\<rparr>, f)
             else (c\<lparr>ro_facts := ro_facts c @ [w], ro_weights := ro_weights c + 1\<rparr>, to_weights (weights_record e p w) f));
          (ok, f) = emit_weight_recall e (wi_kind w) (wi_content w) (pi_run p) (pi_session p) (we_ts e)
             (id_prefix p @ ''-wrag-'' @ pad 3 (ro_weights c + ro_hearsay c - 1)) None (chunk_meta p) []
             (if fact then or_empty (wi_about w) else []) (if fact then pi_user p else [])
             (str_of (jget attribution ''source_class'')) f
      in (if ok then c\<lparr>ro_recall := ro_recall c + 1\<rparr> else c, f))"

definition rag_record :: "writer_env \<Rightarrow> pass_info \<Rightarrow> nat \<Rightarrow> rag_item \<Rightarrow> jobj" where
  "rag_record e p n i =
     [(''run_id'', JStr (pi_run p)), (''ts'', JStr (we_ts e)), (''id'', JStr (id_prefix p @ ''-rag-'' @ pad 3 n)),
      (''op'', JStr ''insert''), (''kind'', JStr (ri_kind i)), (''source_session'', JStr (pi_session p)),
      (''content'', JStr (ri_content i))] @ origin_meta e (pi_session p) @ chunk_meta p
     @ (if ri_kind i = ''ask''
        then [(''seen'', opt_str (ri_seen i)), (''ask_kind'', JStr (case ri_ask_kind i of None \<Rightarrow> ''search'' | Some k \<Rightarrow> k))]
          @ (if or_empty (ri_lookup i) = [] then [] else [(''lookup'', JStr (or_empty (ri_lookup i)))])
        else if ri_kind i = ''fact''
        then [(''trigger'', opt_str (sanitize_cue (or_empty (ri_trigger i))))]
          @ attribution_fields (or_empty (ri_about i)) (pi_user p) []
        else [])
     @ [(''key'', JStr (ri_key i))]"

definition route_rag ::
  "writer_env \<Rightarrow> pass_info \<Rightarrow> rag_item \<Rightarrow> routing \<times> writer_files \<Rightarrow> routing \<times> writer_files" where
  "route_rag e p i st = (let (c, f) = st in
     (c\<lparr>ro_rag := ro_rag c + 1\<rparr>, to_rag (rag_record e p (ro_rag c) i) f))"

section \<open>The answer to one of her questions\<close>

definition distilled_item :: "writer_env \<Rightarrow> string \<Rightarrow> string \<Rightarrow> string \<Rightarrow> string \<Rightarrow> weight_item option" where
  "distilled_item e question answer ask_kind source_user =
     (let answer = py_strip answer; wk = (if ask_kind = ''meta'' then ''persona'' else ''fact'') in
      if answer \<noteq> [] \<and> ask_kind \<in> {''user'', ''meta''}
      then Some \<lparr>wi_kind = wk, wi_content = answer, wi_lang = we_lang e answer,
             wi_trigger = (if question = [] then None else Some question),
             wi_about = (if wk = ''fact'' then Some source_user else None)\<rparr>
      else None)"

definition distill_resolved ::
  "writer_env \<Rightarrow> string \<Rightarrow> string \<Rightarrow> string \<Rightarrow> string \<Rightarrow> string \<Rightarrow> string \<Rightarrow> string \<Rightarrow> jobj \<Rightarrow> string
   \<Rightarrow> string \<Rightarrow> writer_files \<Rightarrow> (weight_item option \<times> bool) \<times> writer_files" where
  "distill_resolved e key question answer ask_kind run_id session ts chunk idx source_user w =
     (case distilled_item e question answer ask_kind source_user of
        None \<Rightarrow> ((None, False), w)
      | Some d \<Rightarrow>
          let fact = (wi_kind d = ''fact'');
              w1 = to_weights ([(''run_id'', JStr run_id), (''ts'', JStr ts), (''source_session'', JStr session),
                    (''weights_kind'', JStr (wi_kind d)), (''content'', JStr (wi_content d)), (''lang'', JStr (wi_lang d)),
                    (''trigger'', opt_str (wi_trigger d)), (''from_resolved'', JStr key)]
                  @ (if fact then attribution_fields source_user source_user [] else [])
                  @ origin_meta e session @ chunk) w;
              (recall, w2) = emit_weight_recall e (wi_kind d) (wi_content d) run_id session ts idx None chunk
                  (or_empty (wi_trigger d)) (if fact then source_user else []) (if fact then source_user else []) [] w1
          in ((Some d, recall), w2))"

definition gated_closure :: "writer_env \<Rightarrow> string \<Rightarrow> string \<Rightarrow> bool" where
  "gated_closure e ask_kind answer = (we_gate e \<and> ask_kind \<in> {''user'', ''meta''} \<and> py_strip answer \<noteq> [])"

definition closing_record :: "writer_env \<Rightarrow> pass_info \<Rightarrow> string \<Rightarrow> bool \<Rightarrow> resolved_item \<Rightarrow> jobj" where
  "closing_record e p ask_kind gated r =
     [(''run_id'', JStr (pi_run p)), (''ts'', JStr (we_ts e)), (''op'', JStr ''evict''), (''reason'', JStr ''resolved''),
      (''source_session'', JStr (pi_session p)), (''key'', JStr (rs_key r)), (''question'', JStr (rs_question r)),
      (''answer'', JStr (rs_answer r)), (''answered_in'', opt_str (rs_answered_in r))]
     @ (if gated then [(''ask_kind'', JStr ask_kind), (''distill'', JStr ''pending''), (''source_user'', JStr (pi_user p))] else [])
     @ chunk_meta p"

text \<open>\<open>asks\<close> is the index of the open questions: the kind of each by its key.\<close>

definition route_resolved ::
  "writer_env \<Rightarrow> pass_info \<Rightarrow> (string \<Rightarrow> string option) \<Rightarrow> nat \<times> resolved_item \<Rightarrow> routing \<times> writer_files
   \<Rightarrow> routing \<times> writer_files" where
  "route_resolved e p asks ir st =
     (let (n, r) = ir; (c, f) = st; ask_kind = or_empty (asks (rs_key r)); gated = gated_closure e ask_kind (rs_answer r);
          f = to_rag (closing_record e p ask_kind gated r) f;
          c = c\<lparr>ro_evict := ro_evict c + 1\<rparr>
      in if gated then (c\<lparr>ro_pending := ro_pending c + 1\<rparr>, f)
         else case distill_resolved e (rs_key r) (py_strip (rs_question r)) (py_strip (rs_answer r)) ask_kind (pi_run p)
                (pi_session p) (we_ts e) (chunk_meta p) (id_prefix p @ ''-rslv-'' @ pad 3 n) (pi_user p) f of
           ((None, _), f) \<Rightarrow> (c, f)
         | ((Some d, recall), f) \<Rightarrow>
             (c\<lparr>ro_facts := ro_facts c @ [d], ro_weights := ro_weights c + 1,
                ro_recall := (if recall then ro_recall c + 1 else ro_recall c)\<rparr>, f))"

definition write_consolidation ::
  "writer_env \<Rightarrow> pass_info \<Rightarrow> (string \<Rightarrow> string option) \<Rightarrow> parsed_reflection \<Rightarrow> writer_files \<Rightarrow> routing \<times> writer_files" where
  "write_consolidation e p asks parsed w =
     fold (route_resolved e p asks) (enumerate 0 (pr_resolved parsed))
       (fold (route_rag e p) (pr_rag parsed) (fold (route_weight e p) (pr_weights parsed) (no_routing, w)))"

record closure =
  cl_key :: string
  cl_question :: string
  cl_answer :: string
  cl_kind :: string
  cl_session :: string
  cl_user :: string

definition closed_routing :: "routing \<Rightarrow> weight_item option \<times> bool \<Rightarrow> routing" where
  "closed_routing c dr = (case dr of (None, _) \<Rightarrow> c
     | (Some d, recall) \<Rightarrow> c\<lparr>ro_facts := ro_facts c @ [d], ro_weights := 1, ro_recall := (if recall then 1 else ro_recall c)\<rparr>)"

definition write_answered_resolution ::
  "writer_env \<Rightarrow> closure \<Rightarrow> string \<Rightarrow> string \<Rightarrow> jobj \<Rightarrow> writer_files \<Rightarrow> routing \<times> writer_files" where
  "write_answered_resolution e cl answered_in run_id extra w =
     (if cl_key cl = [] then (no_routing, w)
      else let gated = gated_closure e (cl_kind cl) (cl_answer cl);
               w1 = to_rag (dmerge ([(''run_id'', JStr run_id), (''ts'', JStr (we_ts e)), (''op'', JStr ''evict''),
                   (''reason'', JStr ''resolved''), (''resolved_by'', JStr ''user''), (''source_session'', JStr (cl_session cl)),
                   (''answered_in'', JStr (if answered_in = [] then cl_session cl else answered_in)),
                   (''ask_kind'', JStr (cl_kind cl)), (''key'', JStr (cl_key cl)), (''question'', JStr (cl_question cl)),
                   (''answer'', JStr (cl_answer cl))]
                 @ (if gated then [(''distill'', JStr ''pending''), (''source_user'', JStr (cl_user cl))] else [])) extra) w;
               c = no_routing\<lparr>ro_evict := 1\<rparr>
        in if gated then (c\<lparr>ro_pending := 1\<rparr>, w1)
           else let (dr, w2) = distill_resolved e (cl_key cl) (py_strip (cl_question cl)) (cl_answer cl) (cl_kind cl) run_id
                      (cl_session cl) (we_ts e) [] (run_id @ ''-arslv-'' @ take 12 (cl_key cl)) (cl_user cl) w1
                in (closed_routing c dr, w2))"

definition write_gate_decision :: "writer_env \<Rightarrow> string \<Rightarrow> string \<Rightarrow> string \<Rightarrow> jobj \<Rightarrow> writer_files \<Rightarrow> writer_files" where
  "write_gate_decision e key closed_ts run_id decision w =
     to_rag (foldl (\<lambda>r (k, v). dset (if k = ''as_'' then ''as'' else k) v r)
       [(''run_id'', JStr run_id), (''ts'', JStr (we_ts e)), (''op'', JStr ''gate''), (''key'', JStr key),
        (''closed_ts'', JStr closed_ts)] decision) w"

definition write_gated_distill ::
  "writer_env \<Rightarrow> closure \<Rightarrow> string \<Rightarrow> string \<Rightarrow> jobj \<Rightarrow> writer_files \<Rightarrow> routing \<times> writer_files" where
  "write_gated_distill e cl closed_ts run_id gate w =
     (if cl_key cl = [] then (no_routing, w)
      else let (dr, w1) = distill_resolved e (cl_key cl) (py_strip (cl_question cl)) (cl_answer cl) (cl_kind cl) run_id
                 (cl_session cl) (if closed_ts = [] then we_ts e else closed_ts) [] (run_id @ ''-gate-'' @ take 12 (cl_key cl))
                 (cl_user cl) w
        in (closed_routing no_routing dr, write_gate_decision e (cl_key cl) closed_ts run_id
              (dset ''as_'' (if fst dr = None then JNull else JStr (if cl_kind cl = ''meta'' then ''persona'' else ''fact''))
                (dset ''decision'' (JStr ''distill'') gate)) w1))"

section \<open>Recollections\<close>

definition recollection_record ::
  "writer_env \<Rightarrow> string \<Rightarrow> string \<Rightarrow> string list \<Rightarrow> int list \<Rightarrow> string \<Rightarrow> string \<Rightarrow> string \<Rightarrow> jobj" where
  "recollection_record e content trigger tags exchanges run_id session supersedes =
     (let content = py_strip content; key = we_ck e content; tags = filter (\<lambda>t. t \<noteq> []) (List.map py_strip tags) in
      [(''run_id'', JStr run_id), (''ts'', JStr (we_ts e)), (''id'', JStr (run_id @ ''-recol-'' @ take 8 key)),
       (''op'', JStr ''insert''), (''kind'', JStr ''recollection''), (''source_session'', JStr session),
       (''content'', JStr content), (''trigger'', opt_str (sanitize_cue trigger)), (''key'', JStr key)]
      @ (if tags = [] then [] else [(''tags'', JList (List.map JStr tags))])
      @ (if exchanges = [] then [] else [(''source_exchanges'', JList (List.map JInt exchanges))])
      @ (if supersedes \<noteq> [] \<and> supersedes \<noteq> key then [(''supersedes'', JStr supersedes)] else [])
      @ origin_meta e session)"

definition superseded_record :: "writer_env \<Rightarrow> string \<Rightarrow> string \<Rightarrow> string \<Rightarrow> string \<Rightarrow> jobj" where
  "superseded_record e content run_id session supersedes =
     [(''run_id'', JStr run_id), (''ts'', JStr (we_ts e)), (''op'', JStr ''evict''),
      (''reason'', JStr ''superseded_by_recollection''), (''source_session'', JStr session), (''key'', JStr supersedes),
      (''superseded_by'', JStr (we_ck e (py_strip content)))]"

definition write_recollection ::
  "writer_env \<Rightarrow> string \<Rightarrow> string \<Rightarrow> string \<Rightarrow> string list \<Rightarrow> int list \<Rightarrow> string \<Rightarrow> string \<Rightarrow> writer_files
   \<Rightarrow> (nat \<times> nat) \<times> writer_files" where
  "write_recollection e content trigger session tags exchanges run_id supersedes w =
     (let replaces = (supersedes \<noteq> [] \<and> supersedes \<noteq> we_ck e (py_strip content)) in
      if py_strip content = [] then ((0, 0), w)
      else ((1, if replaces then 1 else 0),
        to_rag (recollection_record e content trigger tags exchanges run_id session supersedes)
          (if replaces then to_rag (superseded_record e content run_id session supersedes) w else w)))"

text \<open>
  The caller (\<open>reflection_runner.py\<close>) takes the key to replace from the memory it can see, the live store behind
  its own; a memory that cannot be read has none.
\<close>

definition prior_reading :: "logfile option \<Rightarrow> string \<Rightarrow> writer_files \<Rightarrow> string" where
  "prior_reading live session w = (case recollection_for session live (wf_rag w) of
     Inr (Some r) \<Rightarrow> str_of (jget r ''key'') | _ \<Rightarrow> [])"

definition revisit ::
  "writer_env \<Rightarrow> logfile option \<Rightarrow> string \<Rightarrow> string \<Rightarrow> string list \<Rightarrow> int list \<Rightarrow> string \<Rightarrow> string \<Rightarrow> writer_files
   \<Rightarrow> (nat \<times> nat) \<times> writer_files" where
  "revisit e live content trigger tags exchanges run_id session w =
     write_recollection e content trigger session tags exchanges run_id (prior_reading live session w) w"

section \<open>Questions raised, looked up, closed and reopened\<close>

definition write_surface :: "writer_env \<Rightarrow> string \<Rightarrow> string \<Rightarrow> writer_files \<Rightarrow> writer_files" where
  "write_surface e key session w = (if key = [] then w
     else to_rag [(''ts'', JStr (we_ts e)), (''op'', JStr ''surface''), (''key'', JStr key), (''surfaced_in'', JStr session)] w)"

definition write_lookup :: "writer_env \<Rightarrow> string \<Rightarrow> string \<Rightarrow> bool \<Rightarrow> string \<Rightarrow> string \<Rightarrow> writer_files \<Rightarrow> writer_files" where
  "write_lookup e key subject hit title run_id w = (if key = [] then w
     else to_rag [(''ts'', JStr (we_ts e)), (''op'', JStr ''lookup''), (''key'', JStr key), (''subject'', JStr subject),
       (''found'', JBool hit), (''title'', JStr title), (''run_id'', JStr run_id)] w)"

definition resolution_record :: "writer_env \<Rightarrow> closure \<Rightarrow> string \<Rightarrow> string \<Rightarrow> jobj" where
  "resolution_record e cl run_id reason =
     [(''run_id'', JStr run_id), (''ts'', JStr (we_ts e)), (''op'', JStr ''evict''),
      (''reason'', JStr (if reason = [] then ''resolved'' else reason)), (''resolved_by'', JStr ''self''),
      (''source'', JStr run_id), (''source_session'', JStr (cl_session cl)), (''ask_kind'', JStr (cl_kind cl)),
      (''key'', JStr (cl_key cl)), (''question'', JStr (cl_question cl)), (''answer'', JStr (cl_answer cl))]"

definition write_resolution :: "writer_env \<Rightarrow> closure \<Rightarrow> string \<Rightarrow> string \<Rightarrow> writer_files \<Rightarrow> writer_files" where
  "write_resolution e cl run_id reason w = (if cl_key cl = [] then w else to_rag (resolution_record e cl run_id reason) w)"

definition carried :: "jobj \<Rightarrow> jobj" where
  "carried ask = concat (List.map (\<lambda>x. if truthy (jget ask x) then [(x, jget ask x)] else [])
     [''origin_ts'', ''lookup'', ''seen''])"

definition reopened_record :: "writer_env \<Rightarrow> jobj \<Rightarrow> string \<Rightarrow> string \<Rightarrow> string \<Rightarrow> string \<Rightarrow> string \<Rightarrow> jobj" where
  "reopened_record e ask key content run_id reason closed_ts =
     [(''run_id'', JStr run_id), (''ts'', JStr (we_ts e)),
      (''id'', JStr (run_id @ ''-reopen-'' @ take 8 key)), (''op'', JStr ''insert''), (''kind'', JStr ''ask''),
      (''ask_kind'', py_or (jget ask ''ask_kind'') (JStr ''search'')), (''content'', JStr content), (''key'', JStr key),
      (''source_session'', py_or (jget ask ''source_session'') (JStr [])),
      (''reopened'', JObj [(''closed_ts'', JStr closed_ts), (''reason'', JStr reason)])] @ carried ask"

definition write_reopened_ask ::
  "writer_env \<Rightarrow> jobj \<Rightarrow> string \<Rightarrow> string \<Rightarrow> string \<Rightarrow> writer_files \<Rightarrow> (bool \<times> writer_files) py" where
  "write_reopened_ask e ask run_id reason closed_ts w =
     py_bind (strip_or_empty (jget ask ''key'')) (\<lambda>key.
     py_bind (strip_or_empty (jget ask ''content'')) (\<lambda>content.
       Inr (if key = [] \<or> content = [] then (False, w)
         else (True, to_rag (reopened_record e ask key content run_id reason closed_ts) w))))"

section \<open>Merging facts\<close>

record dedup_group =
  mg_survivor :: jobj
  mg_trigger :: string
  mg_losers :: "jobj list"

record dedup_counts =
  dc_groups :: nat
  dc_evicted :: nat
  dc_reinserted :: nat

definition survivor_record :: "writer_env \<Rightarrow> string \<Rightarrow> nat \<Rightarrow> jobj \<Rightarrow> string \<Rightarrow> jobj py" where
  "survivor_record e run_id gi s trigger =
     py_bind (strip_or_empty (jget s ''source_session'')) (\<lambda>session.
     py_bind (strip_or_empty (jget s ''content'')) (\<lambda>content.
       Inr ([(''run_id'', JStr run_id), (''ts'', JStr (we_ts e)), (''id'', JStr (run_id @ ''-g'' @ nat_str gi)), (''op'', JStr ''insert''),
         (''kind'', JStr ''fact''), (''source_session'', JStr session), (''content'', JStr content), (''key'', jget s ''key''),
         (''trigger'', JStr trigger), (''deduped_merge'', JBool True)]
        @ (if truthy (jget s ''from_weights'') then [(''from_weights'', JBool True)] else [])
        @ (if jget s ''exchange_index'' \<noteq> JNull then [(''exchange_index'', jget s ''exchange_index'')] else [])
        @ (if truthy (jget s ''origin_ts'') then [(''origin_ts'', jget s ''origin_ts'')] else []))))"

definition drop_loser ::
  "writer_env \<Rightarrow> string \<Rightarrow> json \<Rightarrow> dedup_counts \<times> writer_files \<Rightarrow> jobj \<Rightarrow> (dedup_counts \<times> writer_files) py" where
  "drop_loser e run_id skey cw l =
     (let lkey = jget l ''key''; (c, w) = cw in
      if \<not> truthy lkey \<or> json_eq lkey skey then Inr (c, w)
      else py_bind (strip_or_empty (jget l ''source_session'')) (\<lambda>session.
           py_bind (strip_or_empty (jget l ''content'')) (\<lambda>content.
           py_bind (strip_or_empty (jget l ''trigger'')) (\<lambda>trigger.
             Inr (c\<lparr>dc_evicted := dc_evicted c + 1\<rparr>,
               to_rag [(''run_id'', JStr run_id), (''ts'', JStr (we_ts e)), (''op'', JStr ''evict''), (''reason'', JStr ''deduped''),
                 (''source_session'', JStr session), (''key'', lkey), (''deduped_into'', skey), (''content'', JStr content),
                 (''trigger'', if trigger = [] then JNull else JStr trigger)] w)))))"

definition merge_one ::
  "writer_env \<Rightarrow> string \<Rightarrow> dedup_counts \<times> writer_files \<Rightarrow> nat \<times> dedup_group \<Rightarrow> (dedup_counts \<times> writer_files) py" where
  "merge_one e run_id cw gm =
     (let (gi, m) = gm; (c, w) = cw; s = mg_survivor m; skey = jget s ''key''; new = py_strip (mg_trigger m) in
      if \<not> truthy skey then Inr (c, w)
      else py_bind (strip_or_empty (jget s ''trigger'')) (\<lambda>cur.
        py_bind (if new \<noteq> [] \<and> new \<noteq> cur
                 then py_bind (survivor_record e run_id gi s new) (\<lambda>r.
                   Inr (c\<lparr>dc_reinserted := dc_reinserted c + 1\<rparr>, to_rag r w))
                 else Inr (c, w)) (\<lambda>cw.
          py_bind (py_fold (drop_loser e run_id skey) cw (mg_losers m)) (\<lambda>(c, w).
            Inr (c\<lparr>dc_groups := dc_groups c + 1\<rparr>, w)))))"

definition write_dedup :: "writer_env \<Rightarrow> dedup_group list \<Rightarrow> writer_files \<Rightarrow> (dedup_counts \<times> writer_files) py" where
  "write_dedup e merges w =
     py_fold (merge_one e (''dedup-'' @ we_ts e)) (\<lparr>dc_groups = 0, dc_evicted = 0, dc_reinserted = 0\<rparr>, w) (enumerate 0 merges)"

section \<open>Impressions\<close>

definition marker_names :: "string list" where
  "marker_names = [''channel'', ''message'', ''think'', ''analysis'', ''final'', ''start_of_turn'', ''end_of_turn'', ''start'',
     ''end'', ''eos'', ''bos'', ''pad'', ''unk'', ''endoftext'', ''im_start'', ''im_end'', ''assistant'', ''user'', ''system'']"

text \<open>An optional bar or slash between white space.\<close>

definition skip_opt :: "char \<Rightarrow> string \<Rightarrow> string" where
  "skip_opt d s = (let t = lstrip_if is_space s in
     lstrip_if is_space (case t of c # cs \<Rightarrow> if c = d then cs else t | [] \<Rightarrow> []))"

definition marker_body :: "string \<Rightarrow> string \<Rightarrow> string option" where
  "marker_body s name = (if startswith (py_lower s) name
     then (let t = skip_opt (CHR 0x7C) (drop (length name) s) in if startswith t ''>'' then Some (drop 1 t) else None)
     else None)"

definition marker_at :: "string \<Rightarrow> string option" where
  "marker_at s = (if startswith s ''<''
     then (case List.map_filter (marker_body (skip_opt (CHR ''/'') (skip_opt (CHR 0x7C) (drop 1 s)))) marker_names of
        [] \<Rightarrow> None | r # _ \<Rightarrow> Some r)
     else None)"

lemma skip_opt_length: "length (skip_opt d s) \<le> length s"
proof -
  let ?t = "lstrip_if is_space s"
  let ?u = "case ?t of c # cs \<Rightarrow> if c = d then cs else ?t | [] \<Rightarrow> []"
  have "length (skip_opt d s) \<le> length ?u" unfolding skip_opt_def Let_def by (rule length_lstrip_if)
  also have "\<dots> \<le> length ?t" by (simp split: list.splits)
  also have "\<dots> \<le> length s" by (rule length_lstrip_if)
  finally show ?thesis .
qed

lemma marker_at_length: "marker_at (c # cs) = Some r \<Longrightarrow> length r < length (c # cs)"
proof -
  assume a: "marker_at (c # cs) = Some r"
  let ?s = "skip_opt (CHR ''/'') (skip_opt (CHR 0x7C) cs)"
  obtain rs where "List.map_filter (marker_body ?s) marker_names = r # rs"
    using a by (auto simp: marker_at_def split: if_splits list.splits)
  then have "r \<in> set (List.map_filter (marker_body ?s) marker_names)" by simp
  then obtain name where "marker_body ?s name = Some r" by (auto simp: List.map_filter_def)
  then have "length r \<le> length (skip_opt (CHR 0x7C) (drop (length name) ?s))"
    by (auto simp: marker_body_def Let_def split: if_splits)
  also have "\<dots> \<le> length (drop (length name) ?s)" by (rule skip_opt_length)
  also have "\<dots> \<le> length ?s" by simp
  also have "\<dots> \<le> length (skip_opt (CHR 0x7C) cs)" by (rule skip_opt_length)
  also have "\<dots> \<le> length cs" by (rule skip_opt_length)
  finally show ?thesis by simp
qed

function drop_markers :: "string \<Rightarrow> string" where
  "drop_markers [] = []"
| "drop_markers (c # cs) = (case marker_at (c # cs) of
      None \<Rightarrow> c # drop_markers cs
    | Some r \<Rightarrow> CHR '' '' # drop_markers r)"
  by pat_completeness auto
termination
  by (relation "measure length") (auto dest: marker_at_length)

definition strip_special_markers :: "string \<Rightarrow> string" where
  "strip_special_markers s = squeeze (drop_markers s)"

definition write_impression ::
  "writer_env \<Rightarrow> string \<Rightarrow> string \<Rightarrow> string \<Rightarrow> string \<Rightarrow> string \<Rightarrow> string \<times> string option \<Rightarrow> nat \<times> writer_files \<Rightarrow> nat \<times> writer_files" where
  "write_impression e kind session user default_about run_id item nw =
     (let (n, w) = nw; content = py_strip (strip_special_markers (fst item));
          own = py_strip (or_empty (snd item)); about = (if own \<noteq> [] then own else py_strip default_about);
          key = we_ck e (if kind = ''impression'' then content else kind @ '':'' @ content)
      in if content = [] then (n, w)
         else (n + 1, to_rag ([(''run_id'', JStr run_id), (''ts'', JStr (we_ts e)),
             (''id'', JStr (run_id @ ''-'' @ (if kind = ''impression'' then ''impr'' else kind) @ ''-'' @ take 8 key)),
             (''op'', JStr ''insert''), (''kind'', JStr kind), (''source_session'', JStr session), (''content'', JStr content),
             (''key'', JStr key)] @ origin_meta e session @ attribution_fields about user []) w))"

definition write_impressions ::
  "writer_env \<Rightarrow> string \<Rightarrow> string \<Rightarrow> string \<Rightarrow> string \<Rightarrow> string \<Rightarrow> (string \<times> string option) list \<Rightarrow> writer_files \<Rightarrow> nat \<times> writer_files" where
  "write_impressions e kind session user default_about run_id imps w =
     fold (write_impression e kind session user default_about run_id) imps (0, w)"

section \<open>Repairs\<close>

definition fold_computed :: "string list" where
  "fold_computed = [''surface_count'', ''surfaced_in_sessions'', ''last_surfaced_ts'', ''lookup_count'']"

definition stored_fields :: "jobj \<Rightarrow> jobj" where
  "stored_fields r = filter (\<lambda>(k, v). k \<notin> set fold_computed) r"

record purge_counts =
  pc_purged :: nat
  pc_dropped :: nat
  pc_cleared :: nat

definition purge_record :: "writer_env \<Rightarrow> string \<Rightarrow> nat \<Rightarrow> json \<Rightarrow> string \<Rightarrow> purge_item \<Rightarrow> jobj" where
  "purge_record e run_id n key content p =
     dmerge (stored_fields (pu_record p))
       [(''run_id'', JStr run_id), (''ts'', JStr (we_ts e)), (''id'', JStr (run_id @ ''-t'' @ nat_str n)), (''op'', JStr ''insert''),
        (''kind'', py_or (jget (pu_record p) ''kind'') (JStr ''fact'')), (''content'', JStr content), (''key'', key),
        (''trigger'', if or_empty (pu_new p) = [] then JNull else JStr (or_empty (pu_new p))), (''trigger_purged'', JBool True),
        (''dropped_cues'', JList (List.map pair_json (pu_dropped p)))]"

definition purge_one ::
  "writer_env \<Rightarrow> string \<Rightarrow> purge_counts \<times> writer_files \<Rightarrow> nat \<times> purge_item \<Rightarrow> (purge_counts \<times> writer_files) py" where
  "purge_one e run_id cw np =
     (let (n, p) = np; (c, w) = cw; key = py_or (pu_key p) (jget (pu_record p) ''key'') in
      py_bind (strip_or_empty (jget (pu_record p) ''content'')) (\<lambda>content.
        Inr (if \<not> truthy key \<or> content = [] then (c, w)
          else (c\<lparr>pc_purged := pc_purged c + 1, pc_dropped := pc_dropped c + length (pu_dropped p),
                  pc_cleared := (if or_empty (pu_new p) = [] then pc_cleared c + 1 else pc_cleared c)\<rparr>,
                to_rag (purge_record e run_id n key content p) w))))"

definition write_trigger_purge :: "writer_env \<Rightarrow> purge_item list \<Rightarrow> writer_files \<Rightarrow> (purge_counts \<times> writer_files) py" where
  "write_trigger_purge e plan w =
     py_fold (purge_one e (''trigger-purge-'' @ we_ts e)) (\<lparr>pc_purged = 0, pc_dropped = 0, pc_cleared = 0\<rparr>, w) (enumerate 0 plan)"

record glue_counts =
  gc_cut :: nat
  gc_recovered :: nat
  gc_evicted :: nat

definition glue_one :: "writer_env \<Rightarrow> string \<Rightarrow> nat \<times> glue_item \<Rightarrow> glue_counts \<times> writer_files \<Rightarrow> glue_counts \<times> writer_files" where
  "glue_one e run_id np cw =
     (let (n, p) = np; (c, w) = cw; key = py_or (gi_key p) (jget (gi_record p) ''key'');
          note = JObj [(''how'', JStr (gi_how p)), (''was'', JStr (take 1200 (gi_old p)))]
      in if \<not> truthy key then (c, w)
         else if or_empty (gi_new p) \<noteq> []
         then ((if gi_how p = ''recovered'' then c\<lparr>gc_recovered := gc_recovered c + 1\<rparr> else c\<lparr>gc_cut := gc_cut c + 1\<rparr>),
           to_rag (dmerge (stored_fields (gi_record p))
             [(''run_id'', JStr run_id), (''ts'', JStr (we_ts e)), (''id'', JStr (run_id @ ''-g'' @ nat_str n)), (''op'', JStr ''insert''),
              (''kind'', JStr ''ask''), (''content'', JStr (or_empty (gi_new p))), (''key'', key), (''impression_glue'', note)]) w)
         else (c\<lparr>gc_evicted := gc_evicted c + 1\<rparr>,
           to_rag [(''run_id'', JStr run_id), (''ts'', JStr (we_ts e)), (''op'', JStr ''evict''), (''reason'', JStr ''malformed''),
             (''key'', key), (''question'', JStr (take 1200 (gi_old p))), (''ask_kind'', jget (gi_record p) ''ask_kind''),
             (''impression_glue'', note)] w))"

definition write_impression_glue_repair :: "writer_env \<Rightarrow> glue_item list \<Rightarrow> writer_files \<Rightarrow> glue_counts \<times> writer_files" where
  "write_impression_glue_repair e plan w =
     fold (glue_one e (''impression-glue-'' @ we_ts e)) (enumerate 0 plan) (\<lparr>gc_cut = 0, gc_recovered = 0, gc_evicted = 0\<rparr>, w)"

definition write_reset_decision :: "writer_env \<Rightarrow> string \<Rightarrow> string \<Rightarrow> string \<Rightarrow> jobj \<Rightarrow> writer_files \<Rightarrow> writer_files" where
  "write_reset_decision e key closed_ts run_id decision w =
     to_rag (dmerge [(''run_id'', JStr run_id), (''ts'', JStr (we_ts e)), (''op'', JStr ''reset''), (''key'', JStr key),
       (''closed_ts'', JStr closed_ts)] decision) w"

text \<open>\<open>write_child_record\<close> and \<open>write_aspiration_record\<close> append what they are given.\<close>

definition write_record :: "jobj \<Rightarrow> writer_files \<Rightarrow> writer_files" where
  "write_record r w = to_rag r w"

section \<open>The verdict of a revision\<close>

record branch_candidate =
  bc_kind :: string
  bc_text :: string

record branch_choice =
  bb_index :: "int option"
  bb_candidates :: "branch_candidate list"

definition branch_chosen :: "branch_choice option \<Rightarrow> branch_candidate option" where
  "branch_chosen b = (case b of None \<Rightarrow> None
     | Some c \<Rightarrow> (case bb_index c of None \<Rightarrow> None
        | Some i \<Rightarrow> if 0 \<le> i \<and> i < int (length (bb_candidates c)) then Some (bb_candidates c ! nat i) else None))"

definition ideal_has_usable_answer :: "string \<Rightarrow> bool" where
  "ideal_has_usable_answer text =
     (let answer = py_strip (lstrip_nl (case leading_think text of Some (th, r) \<Rightarrow> r | None \<Rightarrow> text))
      in answer \<noteq> [] \<and> \<not> has_think_tag answer)"

definition thought_answer :: "string \<Rightarrow> string \<Rightarrow> string" where
  "thought_answer th ans = ''<think>'' @ th @ ''</think>'' @ [CHR 0x0A, CHR 0x0A] @ ans"

definition ideal_trainable_target :: "string \<Rightarrow> string option" where
  "ideal_trainable_target text =
     (case leading_think text of None \<Rightarrow> None
      | Some (th, r) \<Rightarrow>
          let thought = py_strip th; answer = py_strip (lstrip_nl r) in
          if thought = [] \<or> answer = [] \<or> has_think_tag answer then None else Some (thought_answer thought answer))"

definition with_cot :: "string \<Rightarrow> string \<Rightarrow> string" where
  "with_cot assistant_cot answer =
     (let cot0 = strip_if (\<lambda>c. c = CHR 0x0A) assistant_cot; ans = py_strip answer
      in if cot0 \<noteq> [] then thought_answer cot0 ans else ans)"

datatype target_source = Original | Revised | Revised_Missing_Ideal

definition ideal_target :: "string \<Rightarrow> string \<times> target_source" where
  "ideal_target ideal = (case ideal_trainable_target ideal of Some t \<Rightarrow> (t, Revised) | None \<Rightarrow> ([], Revised_Missing_Ideal))"

definition resolve_revision_target ::
  "string option \<Rightarrow> string \<Rightarrow> string \<Rightarrow> branch_choice option \<Rightarrow> string \<Rightarrow> string \<times> target_source" where
  "resolve_revision_target verdict ideal response branch assistant_cot =
     (let default = (if verdict = Some ''revise'' then ideal_target ideal else (with_cot assistant_cot response, Original))
      in case branch_chosen branch of
           None \<Rightarrow> default
         | Some c \<Rightarrow>
             if bc_kind c = ''original'' then (with_cot assistant_cot response, Original)
             else if bc_kind c = ''branch''
             then (let text = py_strip (bc_text c) in
                   if ideal_has_usable_answer text then (with_cot assistant_cot text, Revised) else default)
             else ideal_target ideal)"

definition resolved_target_provenance :: "target_source \<Rightarrow> branch_choice option \<Rightarrow> string \<times> string" where
  "resolved_target_provenance src branch =
     (if src = Revised_Missing_Ideal then (''none'', ''none'')
      else if src \<noteq> Revised then (''original'', ''original'')
      else case branch_chosen branch of
          Some c \<Rightarrow> if bc_kind c = ''branch'' then (''branch'', ''branch_replay'') else (''ideal'', ''chat_reanswer_v1'')
        | None \<Rightarrow> (''ideal'', ''chat_reanswer_v1''))"

section \<open>Statements about herself are written once\<close>

type_synonym persona_key = "string \<times> int \<times> string"

text \<open>
  The index reads each weights file until a line it cannot use, keeping what it has; a line that does not parse
  is passed over. A source session that is no string equals none that is asked for.
\<close>

definition persona_key_of :: "(string \<Rightarrow> string) \<Rightarrow> json \<Rightarrow> persona_key option py" where
  "persona_key_of ck j =
     py_bind (as_dict j) (\<lambda>r.
       if jget r ''weights_kind'' \<noteq> JStr ''persona'' then Inr None
       else py_bind (strip_or_empty (jget r ''content'')) (\<lambda>content.
         if jget r ''exchange_index'' = JNull \<or> content = [] then Inr None
         else py_bind (py_int_of (jget r ''exchange_index'')) (\<lambda>i.
           case py_or (jget r ''source_session'') (JStr []) of
             JStr s \<Rightarrow> Inr (Some (s, i, ck content))
           | v \<Rightarrow> py_bind (hash_key v) (\<lambda>_. Inr None))))"

fun persona_keys_of :: "(string \<Rightarrow> string) \<Rightarrow> line list \<Rightarrow> persona_key list" where
  "persona_keys_of ck [] = []"
| "persona_keys_of ck (Rec j # ls) =
     (case persona_key_of ck j of
        Inl _ \<Rightarrow> [] | Inr None \<Rightarrow> persona_keys_of ck ls | Inr (Some k) \<Rightarrow> k # persona_keys_of ck ls)"
| "persona_keys_of ck (_ # ls) = persona_keys_of ck ls"

definition persona_key_index :: "(string \<Rightarrow> string) \<Rightarrow> logfile option \<Rightarrow> logfile \<Rightarrow> persona_key list" where
  "persona_key_index ck live own =
     persona_keys_of ck (log_lines own) @ (case live of None \<Rightarrow> [] | Some f \<Rightarrow> persona_keys_of ck (log_lines f))"

record revision_state =
  rv_files :: writer_files
  rv_index :: "persona_key list"
  rv_written :: "string list"

record exchange_ref =
  ex_run :: string
  ex_session :: string
  ex_index :: int

definition persona_record :: "writer_env \<Rightarrow> exchange_ref \<Rightarrow> string \<Rightarrow> jobj" where
  "persona_record e x content =
     [(''run_id'', JStr (ex_run x)), (''ts'', JStr (we_ts e)), (''source_session'', JStr (ex_session x)),
      (''exchange_index'', JInt (ex_index x)), (''weights_kind'', JStr ''persona''), (''content'', JStr content),
      (''lang'', JStr (we_lang e content))] @ origin_meta e (ex_session x)"

definition write_persona :: "writer_env \<Rightarrow> exchange_ref \<Rightarrow> string \<Rightarrow> revision_state \<Rightarrow> revision_state" where
  "write_persona e x content st =
     (let k = (ex_session x, ex_index x, we_ck e content) in
      if k \<in> set (rv_index st) then st
      else let i = length (rv_written st);
               f = to_weights (persona_record e x content) (rv_files st);
               f = snd (emit_weight_recall e ''persona'' content (ex_run x) (ex_session x) (we_ts e)
                     (ex_run x @ ''-prag-'' @ int_str (ex_index x) @ ''-'' @ pad 2 i) (Some (ex_index x)) [] [] [] [] [] f)
           in st\<lparr>rv_files := f, rv_index := k # rv_index st, rv_written := rv_written st @ [content]\<rparr>)"

record revision_input =
  iv_system :: string
  iv_context :: json
  iv_prompt :: string
  iv_speaker :: string
  iv_cot :: string
  iv_response :: string
  iv_verdict :: "string option"
  iv_ideal :: string
  iv_persona :: "string list"
  iv_branch :: "branch_choice option"
  iv_suppress :: bool
  iv_recot :: bool
  iv_persona_context :: string

record revision_summary =
  sm_source :: target_source
  sm_kind :: string
  sm_generation :: string
  sm_anchor :: "jobj option"
  sm_statements :: "string list"

definition write_revision ::
  "writer_env \<Rightarrow> exchange_ref \<Rightarrow> revision_input \<Rightarrow> persona_key list \<Rightarrow> writer_files
   \<Rightarrow> revision_summary \<times> persona_key list \<times> writer_files" where
  "write_revision e x v index w =
     (let persona = (if iv_suppress v then [] else iv_persona v);
          (target, src) = resolve_revision_target (iv_verdict v) (iv_ideal v) (iv_response v) (iv_branch v) (iv_cot v);
          (kind, generation) = (if iv_recot v \<and> src = Revised then (''cot_regen'', ''chat_recot_v1'')
             else resolved_target_provenance src (iv_branch v));
          st = fold (write_persona e x) persona \<lparr>rv_files = w, rv_index = index, rv_written = []\<rparr>;
          anchor = (if src = Revised_Missing_Ideal then None
            else Some [(''system_prompt'', JStr (iv_system v)), (''context'', py_or (iv_context v) (JList [])),
              (''prompt'', JStr (iv_prompt v)), (''speaker'', JStr (iv_speaker v)), (''target'', JStr target),
              (''target_kind'', JStr kind), (''target_generation'', JStr generation),
              (''persona_context'', JStr (if src = Revised then iv_persona_context v else [])),
              (''verdict'', opt_str (iv_verdict v)), (''source_session'', JStr (ex_session x)),
              (''exchange_index'', JInt (ex_index x)), (''lang'', JStr (we_lang e target))])
      in (\<lparr>sm_source = src, sm_kind = kind, sm_generation = generation, sm_anchor = anchor, sm_statements = rv_written st\<rparr>,
          rv_index st, rv_files st))"

section \<open>Anchors of the ledger\<close>

definition register_consolidation_anchors ::
  "writer_env \<Rightarrow> string \<Rightarrow> weight_item list \<Rightarrow> logfile \<Rightarrow> logfile" where
  "register_consolidation_anchors e session facts f =
     fold (\<lambda>w f. let content = py_strip (wi_content w) in
       if content = [] then f
       else snd (register_fact (we_ck e) (we_ts e) content (JStr (if wi_kind w = ''persona'' then ''persona'' else ''fact''))
              (opt_str (wi_trigger w)) (JStr session) (JStr (wi_lang w)) JNull JNull (opt_str (wi_about w)) f)) facts f"

definition register_revision_anchor :: "writer_env \<Rightarrow> string \<Rightarrow> revision_summary \<Rightarrow> logfile \<Rightarrow> logfile" where
  "register_revision_anchor e session sm f =
     (let ex = (case sm_anchor sm of None \<Rightarrow> JNull | Some a \<Rightarrow> JObj a);
          ei = (case sm_anchor sm of None \<Rightarrow> JNull | Some a \<Rightarrow> jget a ''exchange_index'')
      in fold (\<lambda>s f. snd (register_fact (we_ck e) (we_ts e) s (JStr ''persona'') JNull (JStr session) JNull ei ex JNull f))
           (sm_statements sm) f)"

section \<open>What a target is\<close>












section \<open>Properties\<close>



section \<open>What others say of a person is recalled and never trained\<close>

definition grown :: "jobj list \<Rightarrow> jobj list \<Rightarrow> writer_files \<Rightarrow> writer_files" where
  "grown ws rs w = w\<lparr>wf_rag := log_extend rs (wf_rag w), wf_weights := log_extend ws (wf_weights w)\<rparr>"

lemma grown_nil: "w = grown [] [] w"
  by (simp add: grown_def log_extend_simps)

lemma grown_to: "to_rag r (grown ws rs w) = grown ws (rs @ [r]) w" "to_weights r (grown ws rs w) = grown (ws @ [r]) rs w"
  by (simp_all add: grown_def to_rag_def to_weights_def log_extend_append log_extend_simps)

lemma meta_fields:
  "dget (origin_meta e s) ''source_class'' = None" "dget (chunk_meta p) ''source_class'' = None"
  by (simp_all add: origin_meta_def chunk_meta_def split: option.splits)

lemma attribution_class:
  "jget (attribution_fields a s c) ''source_class'' =
     (if py_strip a = [] \<and> py_strip s = [] then JNull
      else JStr (if c = [] then derive_source_class (py_strip s) (py_strip a) else c))"
  by (simp add: attribution_fields_def Let_def jget_def dget_or_def)

definition mirrors :: "writer_env \<Rightarrow> pass_info \<Rightarrow> weight_item \<Rightarrow> jobj \<Rightarrow> bool" where
  "mirrors e p x r = (jget r ''op'' = JStr ''insert'' \<and> jget r ''content'' = JStr (py_strip (wi_content x))
     \<and> jget r ''key'' = JStr (we_ck e (py_strip (wi_content x)))
     \<and> jget r ''source_class'' = jget (item_attribution p x) ''source_class'')"

lemma weights_record_fields:
  "jget (weights_record e p x) ''content'' = JStr (wi_content x)"
  "jget (weights_record e p x) ''source_class'' = jget (item_attribution p x) ''source_class''"
proof -
  have "dget (weights_record e p x) ''source_class'' = dget (item_attribution p x) ''source_class''"
    by (simp add: weights_record_def map_add_def meta_fields split: option.splits)
  then show "jget (weights_record e p x) ''source_class'' = jget (item_attribution p x) ''source_class''"
    by (simp add: jget_def dget_or_def)
qed (simp add: weights_record_def jget_def dget_or_def)


lemma derive_nonempty: "derive_source_class s a \<noteq> []"
  by (simp add: derive_source_class_def Let_def)

definition weight_recall :: "writer_env \<Rightarrow> pass_info \<Rightarrow> weight_item \<Rightarrow> string \<Rightarrow> jobj" where
  "weight_recall e p x idx = recall_record e (wi_kind x) (py_strip (wi_content x)) (pi_run p) (pi_session p) (we_ts e) idx None
     (chunk_meta p) [] (if wi_kind x = ''fact'' then or_empty (wi_about x) else []) (if wi_kind x = ''fact'' then pi_user p else [])
     (str_of (jget (item_attribution p x) ''source_class''))"

lemma attribution_empty: "attribution_fields [] [] c = []"
  by (simp add: attribution_fields_def py_strip_nil)

lemma weight_recall_mirrors: "mirrors e p x (weight_recall e p x idx)"
proof -
  let ?a = "attribution_fields (if wi_kind x = ''fact'' then or_empty (wi_about x) else [])
      (if wi_kind x = ''fact'' then pi_user p else []) (str_of (jget (item_attribution p x) ''source_class''))"
  have "dget (weight_recall e p x idx) ''source_class'' = dget ?a ''source_class''"
    by (simp add: weight_recall_def recall_record_def sanitize_cue_def clean_trigger_def py_strip_nil map_add_def meta_fields
      split: option.splits)
  then have "jget (weight_recall e p x idx) ''source_class'' = jget ?a ''source_class''" by (simp add: jget_def dget_or_def)
  also have "\<dots> = jget (item_attribution p x) ''source_class''"
    by (simp add: item_attribution_def attribution_class derive_nonempty attribution_empty py_strip_nil)
  finally show ?thesis by (simp add: mirrors_def weight_recall_def recall_record_def jget_def dget_or_def)
qed

definition routed :: "writer_env \<Rightarrow> pass_info \<Rightarrow> weight_item list \<Rightarrow> routing \<Rightarrow> jobj list \<Rightarrow> jobj list \<Rightarrow> bool" where
  "routed e p seen c ws rs = (List.map (\<lambda>r. jget r ''content'') ws = List.map (\<lambda>d. JStr (wi_content d)) (ro_facts c)
     \<and> length ws = ro_weights c \<and> (\<forall>r \<in> set ws. jget r ''source_class'' \<noteq> JStr ''hearsay'')
     \<and> (\<forall>d \<in> set (ro_facts c). \<not> is_hearsay p d) \<and> ro_hearsay c = length (filter (is_hearsay p) seen)
     \<and> (\<forall>x \<in> set seen. py_strip (wi_content x) \<noteq> [] \<longrightarrow> (\<exists>r \<in> set rs. mirrors e p x r)))"

lemma route_weight_grows:
  assumes "routed e p seen c ws rs"
  shows "\<exists>c' ws' rs'. route_weight e p x (c, grown ws rs w) = (c', grown ws' rs' w) \<and> routed e p (seen @ [x]) c' ws' rs'"
proof -
  let ?c = "if is_hearsay p x then c\<lparr>ro_hearsay := ro_hearsay c + 1\<rparr>
      else c\<lparr>ro_facts := ro_facts c @ [x], ro_weights := ro_weights c + 1\<rparr>"
  let ?ws = "if is_hearsay p x then ws else ws @ [weights_record e p x]"
  let ?r = "weight_recall e p x (id_prefix p @ ''-wrag-'' @ pad 3 (ro_weights ?c + ro_hearsay ?c - 1))"
  let ?rs = "if py_strip (wi_content x) = [] then rs else rs @ [?r]"
  let ?c' = "if py_strip (wi_content x) = [] then ?c else ?c\<lparr>ro_recall := ro_recall ?c + 1\<rparr>"
  have e: "route_weight e p x (c, grown ws rs w) = (?c', grown ?ws ?rs w)"
    by (simp add: route_weight_def emit_weight_recall_def Let_def weight_recall_def grown_to)
  have m: "mirrors e p x ?r" by (rule weight_recall_mirrors)
  have "routed e p (seen @ [x]) ?c' ?ws ?rs"
    using assms m unfolding routed_def
    by (auto simp: weights_record_fields is_hearsay_def)
  then show ?thesis using e by blast
qed


lemma routed_more: "routed e p seen c ws rs \<Longrightarrow> routed e p seen c ws (rs @ rs')"
  unfolding routed_def by (metis (no_types, lifting) UnCI set_append)

lemma routed_counts:
  "routed e p seen c ws rs \<Longrightarrow> ro_facts c' = ro_facts c \<Longrightarrow> ro_weights c' = ro_weights c \<Longrightarrow> ro_hearsay c' = ro_hearsay c
   \<Longrightarrow> routed e p seen c' ws rs"
  by (simp add: routed_def)

lemma own_words_never_hearsay: "derive_source_class s s \<noteq> ''hearsay''"
  by (simp add: derive_source_class_def Let_def)

text \<open>What a resolved question yields was said by the person it is about.\<close>

lemma distilled_fields:
  assumes "distilled_item e q a k (pi_user p) = Some d"
  shows "\<not> is_hearsay p d"
    "attribution_fields (pi_user p) (pi_user p) [] = [] \<or> jget (attribution_fields (pi_user p) (pi_user p) []) ''source_class'' \<noteq> JStr ''hearsay''"
proof -
  have n: "jget (attribution_fields (pi_user p) (pi_user p) []) ''source_class'' \<noteq> JStr ''hearsay''"
    by (simp add: attribution_class own_words_never_hearsay)
  then show "attribution_fields (pi_user p) (pi_user p) [] = []
      \<or> jget (attribution_fields (pi_user p) (pi_user p) []) ''source_class'' \<noteq> JStr ''hearsay''" ..
  have "wi_kind d = ''fact'' \<Longrightarrow> or_empty (wi_about d) = pi_user p"
    using assms by (auto simp: distilled_item_def Let_def or_empty_def split: if_splits)
  then show "\<not> is_hearsay p d" using n by (simp add: is_hearsay_def item_attribution_def jget_def dget_or_def)
qed

definition distilled_record ::
  "writer_env \<Rightarrow> pass_info \<Rightarrow> string \<Rightarrow> string \<Rightarrow> jobj \<Rightarrow> weight_item \<Rightarrow> jobj" where
  "distilled_record e p key ts chunk d =
     [(''run_id'', JStr (pi_run p)), (''ts'', JStr ts), (''source_session'', JStr (pi_session p)),
      (''weights_kind'', JStr (wi_kind d)), (''content'', JStr (wi_content d)), (''lang'', JStr (wi_lang d)),
      (''trigger'', opt_str (wi_trigger d)), (''from_resolved'', JStr key)]
     @ (if wi_kind d = ''fact'' then attribution_fields (pi_user p) (pi_user p) [] else [])
     @ origin_meta e (pi_session p) @ chunk"

lemma distilled_record_fields:
  assumes "distilled_item e q a k (pi_user p) = Some d"
  shows "jget (distilled_record e p key ts (chunk_meta p) d) ''content'' = JStr (wi_content d)"
    "jget (distilled_record e p key ts (chunk_meta p) d) ''source_class'' \<noteq> JStr ''hearsay''"
proof -
  let ?a = "if wi_kind d = ''fact'' then attribution_fields (pi_user p) (pi_user p) [] else []"
  have "dget (distilled_record e p key ts (chunk_meta p) d) ''source_class'' = dget ?a ''source_class''"
    by (simp add: distilled_record_def map_add_def meta_fields split: option.splits)
  then have "jget (distilled_record e p key ts (chunk_meta p) d) ''source_class'' = jget ?a ''source_class''"
    by (simp add: jget_def dget_or_def)
  then show "jget (distilled_record e p key ts (chunk_meta p) d) ''source_class'' \<noteq> JStr ''hearsay''"
    by (cases "wi_kind d = ''fact''") (simp add: attribution_class own_words_never_hearsay, simp add: jget_def dget_or_def)
qed (simp add: distilled_record_def jget_def dget_or_def)

lemma distill_grows:
  "distill_resolved e key q a k (pi_run p) (pi_session p) ts (chunk_meta p) idx (pi_user p) (grown ws rs w) =
     (case distilled_item e q a k (pi_user p) of
        None \<Rightarrow> ((None, False), grown ws rs w)
      | Some d \<Rightarrow> (let r = recall_record e (wi_kind d) (py_strip (wi_content d)) (pi_run p) (pi_session p) ts idx None (chunk_meta p)
            (or_empty (wi_trigger d)) (if wi_kind d = ''fact'' then pi_user p else []) (if wi_kind d = ''fact'' then pi_user p else []) [] in
          ((Some d, py_strip (wi_content d) \<noteq> []),
           grown (ws @ [distilled_record e p key ts (chunk_meta p) d]) (if py_strip (wi_content d) = [] then rs else rs @ [r]) w)))"
  by (simp add: distill_resolved_def distilled_record_def emit_weight_recall_def Let_def grown_to split: option.splits)

lemma route_resolved_grows:
  assumes "routed e p seen c ws rs"
  shows "\<exists>c' ws' rs'. route_resolved e p asks ir (c, grown ws rs w) = (c', grown ws' rs' w) \<and> routed e p seen c' ws' rs'"
proof -
  obtain n r where ir: "ir = (n, r)" by (cases ir)
  let ?k = "or_empty (asks (rs_key r))"
  define ev where "ev = closing_record e p ?k (gated_closure e ?k (rs_answer r)) r"
  have ev: "route_resolved e p asks ir (c, grown ws rs w) =
      (let f = grown ws (rs @ [ev]) w; c = c\<lparr>ro_evict := ro_evict c + 1\<rparr> in
       if gated_closure e ?k (rs_answer r) then (c\<lparr>ro_pending := ro_pending c + 1\<rparr>, f)
       else case distill_resolved e (rs_key r) (py_strip (rs_question r)) (py_strip (rs_answer r)) ?k (pi_run p)
              (pi_session p) (we_ts e) (chunk_meta p) (id_prefix p @ ''-rslv-'' @ pad 3 n) (pi_user p) f of
         ((None, _), f) \<Rightarrow> (c, f)
       | ((Some d, recall), f) \<Rightarrow>
           (c\<lparr>ro_facts := ro_facts c @ [d], ro_weights := ro_weights c + 1,
              ro_recall := (if recall then ro_recall c + 1 else ro_recall c)\<rparr>, f))"
    unfolding ev_def by (simp only: route_resolved_def ir Let_def split_conv grown_to)
  show ?thesis
  proof (cases "gated_closure e ?k (rs_answer r)")
    case True
    have "routed e p seen (c\<lparr>ro_evict := ro_evict c + 1, ro_pending := ro_pending c + 1\<rparr>) ws (rs @ [ev])"
      by (rule routed_counts [OF routed_more [OF assms]]) simp_all
    then show ?thesis using ev True by (auto simp: Let_def)
  next
    case False
    show ?thesis
    proof (cases "distilled_item e (py_strip (rs_question r)) (py_strip (rs_answer r)) ?k (pi_user p)")
      case None
      have "routed e p seen (c\<lparr>ro_evict := ro_evict c + 1\<rparr>) ws (rs @ [ev])"
        by (rule routed_counts [OF routed_more [OF assms]]) simp_all
      then show ?thesis using ev False None by (auto simp: Let_def distill_grows)
    next
      case (Some d)
      note d = distilled_fields(1) [OF Some] distilled_record_fields [OF Some]
      let ?c = "c\<lparr>ro_evict := ro_evict c + 1\<rparr>"
      have "routed e p seen (?c\<lparr>ro_facts := ro_facts ?c @ [d], ro_weights := ro_weights ?c + 1, ro_recall := n'\<rparr>)
          (ws @ [distilled_record e p (rs_key r) (we_ts e) (chunk_meta p) d]) (rs @ rs')" for n' rs'
        using routed_more [OF assms, of rs'] d unfolding routed_def by auto
      note R = this
      obtain b rs' where "distill_resolved e (rs_key r) (py_strip (rs_question r)) (py_strip (rs_answer r)) ?k (pi_run p)
            (pi_session p) (we_ts e) (chunk_meta p) (id_prefix p @ ''-rslv-'' @ pad 3 n) (pi_user p) (grown ws (rs @ [ev]) w) =
          ((Some d, b), grown (ws @ [distilled_record e p (rs_key r) (we_ts e) (chunk_meta p) d]) (rs @ rs') w)"
        unfolding distill_grows Some option.case Let_def by (cases "py_strip (wi_content d) = []") auto
      then have "route_resolved e p asks ir (c, grown ws rs w) =
          (?c\<lparr>ro_facts := ro_facts ?c @ [d], ro_weights := ro_weights ?c + 1,
             ro_recall := (if b then ro_recall ?c + 1 else ro_recall ?c)\<rparr>,
           grown (ws @ [distilled_record e p (rs_key r) (we_ts e) (chunk_meta p) d]) (rs @ rs') w)"
        using ev False by (simp only: Let_def if_False prod.case option.case)
      then show ?thesis using R by blast
    qed
  qed
qed


lemma fold_grows:
  assumes "\<And>x c ws rs. x \<in> set xs \<Longrightarrow> routed e p seen c ws rs
      \<Longrightarrow> \<exists>c' ws' rs'. f x (c, grown ws rs w) = (c', grown ws' rs' w) \<and> routed e p seen c' ws' rs'"
    and "routed e p seen c ws rs"
  shows "\<exists>c' ws' rs'. fold f xs (c, grown ws rs w) = (c', grown ws' rs' w) \<and> routed e p seen c' ws' rs'"
  using assms
proof (induction xs arbitrary: c ws rs)
  case (Cons x xs)
  obtain c' ws' rs' where s: "f x (c, grown ws rs w) = (c', grown ws' rs' w)" "routed e p seen c' ws' rs'"
    using Cons.prems(1) [of x] Cons.prems(2) by (metis list.set_intros(1))
  have "\<exists>c2 ws2 rs2. fold f xs (c', grown ws' rs' w) = (c2, grown ws2 rs2 w) \<and> routed e p seen c2 ws2 rs2"
    by (rule Cons.IH [OF _ s(2)]) (use Cons.prems(1) in auto)
  then show ?case using s(1) by simp
qed auto

lemma weights_grow:
  "routed e p seen c ws rs \<Longrightarrow> \<exists>c' ws' rs'. fold (route_weight e p) xs (c, grown ws rs w) = (c', grown ws' rs' w)
     \<and> routed e p (seen @ xs) c' ws' rs'"
proof (induction xs arbitrary: seen c ws rs)
  case (Cons x xs)
  obtain c' ws' rs' where s: "route_weight e p x (c, grown ws rs w) = (c', grown ws' rs' w)" "routed e p (seen @ [x]) c' ws' rs'"
    using route_weight_grows [OF Cons.prems, of x w] by blast
  then show ?case using Cons.IH [OF s(2)] by simp
qed auto

lemma route_rag_grows:
  assumes "routed e p seen c ws rs"
  shows "\<exists>c' ws' rs'. route_rag e p i (c, grown ws rs w) = (c', grown ws' rs' w) \<and> routed e p seen c' ws' rs'"
proof -
  have "route_rag e p i (c, grown ws rs w) = (c\<lparr>ro_rag := ro_rag c + 1\<rparr>, grown ws (rs @ [rag_record e p (ro_rag c) i]) w)"
    by (simp add: route_rag_def grown_to)
  moreover have "routed e p seen (c\<lparr>ro_rag := ro_rag c + 1\<rparr>) ws (rs @ [rag_record e p (ro_rag c) i])"
    by (rule routed_counts [OF routed_more [OF assms]]) simp_all
  ultimately show ?thesis by blast
qed

text \<open>C28: what one person says of another is recalled and never trained. Of a consolidation, with the questions it closes,
  nothing that is written to the weights file is hearsay, nor is any fact handed on to the ledger; the weights
  file grows by those facts exactly; the hearsay held back is counted; and every statement, held back or not, is
  written to the recall log under the key of its content and with the class that says whose word it is.\<close>

theorem hearsay_never_trains:
  assumes "write_consolidation e p asks parsed w = (c, w')"
  shows "\<exists>ws rs. wf_weights w' = log_extend ws (wf_weights w) \<and> wf_rag w' = log_extend rs (wf_rag w)
    \<and> List.map (\<lambda>r. jget r ''content'') ws = List.map (\<lambda>d. JStr (wi_content d)) (ro_facts c) \<and> length ws = ro_weights c
    \<and> (\<forall>r \<in> set ws. jget r ''source_class'' \<noteq> JStr ''hearsay'') \<and> (\<forall>d \<in> set (ro_facts c). \<not> is_hearsay p d)
    \<and> ro_hearsay c = length (filter (is_hearsay p) (pr_weights parsed))
    \<and> (\<forall>x \<in> set (pr_weights parsed). py_strip (wi_content x) \<noteq> [] \<longrightarrow> (\<exists>r \<in> set rs. mirrors e p x r))"
proof -
  have "routed e p [] no_routing [] []" by (simp add: routed_def no_routing_def)
  then obtain c1 ws1 rs1 where 1: "fold (route_weight e p) (pr_weights parsed) (no_routing, grown [] [] w) = (c1, grown ws1 rs1 w)"
      "routed e p (pr_weights parsed) c1 ws1 rs1"
    using weights_grow [of e p "[]"] by (metis append_Nil)
  obtain c2 ws2 rs2 where 2: "fold (route_rag e p) (pr_rag parsed) (c1, grown ws1 rs1 w) = (c2, grown ws2 rs2 w)"
      "routed e p (pr_weights parsed) c2 ws2 rs2"
    using fold_grows [where f = "route_rag e p" and w = w, OF _ 1(2)] route_rag_grows by meson
  obtain c3 ws3 rs3 where 3: "fold (route_resolved e p asks) (enumerate 0 (pr_resolved parsed)) (c2, grown ws2 rs2 w) = (c3, grown ws3 rs3 w)"
      "routed e p (pr_weights parsed) c3 ws3 rs3"
    using fold_grows [where f = "route_resolved e p asks" and w = w, OF _ 2(2)] route_resolved_grows by meson
  have "write_consolidation e p asks parsed w = (c3, grown ws3 rs3 w)"
    unfolding write_consolidation_def using 1(1) 2(1) 3(1) grown_nil [of w] by simp
  then have "c = c3" "w' = grown ws3 rs3 w" using assms by simp_all
  then show ?thesis using 3(2) unfolding routed_def by (intro exI [of _ ws3] exI [of _ rs3]) (simp add: grown_def)
qed


section \<open>A statement of hers is written once\<close>

lemma lower_spaces: "\<forall>c \<in> set w. is_space c \<Longrightarrow> py_lower w = w"
  by (auto simp: py_lower_def is_space_def Let_def intro!: map_idI)

lemma content_key_strip: "content_key sha (py_strip s) = content_key sha s"
proof -
  let ?f = "List.map (\<lambda>c. if word_char c \<or> is_space c then c else CHR '' '')"
  obtain u v where s: "s = u @ py_strip s @ v" "\<forall>c \<in> set u. is_space c" "\<forall>c \<in> set v. is_space c" using strip_split by blast
  have uv: "?f (py_lower u) = u" "?f (py_lower v) = v" using s(2,3) lower_spaces by (simp_all add: map_idI)
  have "py_lower s = py_lower u @ py_lower (py_strip s) @ py_lower v" by (subst s(1)) (simp add: py_lower_def)
  then have "?f (py_lower s) = u @ ?f (py_lower (py_strip s)) @ v" using uv by simp
  then have "words_from [] (?f (py_lower s)) = words_from [] (?f (py_lower (py_strip s)))"
    using words_leading [OF s(2)] words_trailing [OF s(3)] by simp
  then show ?thesis by (simp add: content_key_def normalize_key_def squeeze_def)
qed

lemma we_ck_strip: "we_ck e (py_strip s) = we_ck e s"
  by (simp add: we_ck_def content_key_strip)

fun indexable :: "(string \<Rightarrow> string) \<Rightarrow> line \<Rightarrow> bool" where
  "indexable ck (Rec j) = (case persona_key_of ck j of Inl _ \<Rightarrow> False | Inr _ \<Rightarrow> True)"
| "indexable ck _ = True"

lemma persona_keys_snoc:
  "\<forall>l \<in> set ls. indexable ck l \<Longrightarrow> persona_keys_of ck (ls @ [Rec j]) = persona_keys_of ck ls @ persona_keys_of ck [Rec j]"
  by (induction ck ls rule: persona_keys_of.induct) (auto split: sum.splits option.splits)

lemma persona_record_key:
  assumes "py_strip content \<noteq> []"
  shows "persona_key_of ck (JObj (persona_record e x content)) = Inr (Some (ex_session x, ex_index x, ck (py_strip content)))"
proof -
  have "jget (persona_record e x content) ''weights_kind'' = JStr ''persona''"
      "jget (persona_record e x content) ''content'' = JStr content"
      "jget (persona_record e x content) ''exchange_index'' = JInt (ex_index x)"
      "jget (persona_record e x content) ''source_session'' = JStr (ex_session x)"
    by (simp_all add: persona_record_def jget_def dget_or_def)
  then show ?thesis using assms by (simp add: persona_key_of_def strip_or_empty_str py_or_def)
qed

lemma write_persona_cases:
  "write_persona e x content st =
     (let k = (ex_session x, ex_index x, we_ck e content) in
      if k \<in> set (rv_index st) then st
      else let w = rv_files st in st\<lparr>rv_files := w\<lparr>wf_weights := log_append (persona_record e x content) (wf_weights w),
               wf_rag := (if py_strip content = [] then wf_rag w
                 else log_append (recall_record e ''persona'' (py_strip content) (ex_run x) (ex_session x) (we_ts e)
                     (ex_run x @ ''-prag-'' @ int_str (ex_index x) @ ''-'' @ pad 2 (length (rv_written st))) (Some (ex_index x)) [] [] [] [] [])
                   (wf_rag w))\<rparr>,
             rv_index := k # rv_index st, rv_written := rv_written st @ [content]\<rparr>)"
  by (simp add: write_persona_def emit_weight_recall_def to_weights_def to_rag_def Let_def)

definition index_in_step :: "writer_env \<Rightarrow> logfile option \<Rightarrow> revision_state \<Rightarrow> bool" where
  "index_in_step e live st = (readable (wf_weights (rv_files st)) \<and> (\<forall>l \<in> set (log_lines (wf_weights (rv_files st))). indexable (we_ck e) l)
     \<and> set (rv_index st) = set (persona_key_index (we_ck e) live (wf_weights (rv_files st))))"

lemma write_persona_in_step:
  assumes "index_in_step e live st" "py_strip content \<noteq> []"
  shows "index_in_step e live (write_persona e x content st)"
proof (cases "(ex_session x, ex_index x, we_ck e content) \<in> set (rv_index st)")
  case True
  then show ?thesis using assms(1) by (simp add: write_persona_cases)
next
  case False
  let ?w = "wf_weights (rv_files st)"
  let ?r = "persona_record e x content"
  have r: "readable ?w" "\<forall>l \<in> set (log_lines ?w). indexable (we_ck e) l"
      "set (rv_index st) = set (persona_key_index (we_ck e) live ?w)"
    using assms(1) by (simp_all add: index_in_step_def)
  have k: "persona_key_of (we_ck e) (JObj ?r) = Inr (Some (ex_session x, ex_index x, we_ck e content))"
    using persona_record_key [OF assms(2)] we_ck_strip by simp
  have "set (persona_key_index (we_ck e) live (log_append ?r ?w)) =
      insert (ex_session x, ex_index x, we_ck e content) (set (persona_key_index (we_ck e) live ?w))"
    using r(1,2) k by (simp add: persona_key_index_def persona_keys_snoc)
  moreover have "\<forall>l \<in> set (log_lines (log_append ?r ?w)). indexable (we_ck e) l" using r(1,2) k by simp
  moreover have "readable (log_append ?r ?w)" using r(1) by simp
  ultimately show ?thesis using False r(3) by (simp add: write_persona_cases Let_def index_in_step_def)
qed

lemma write_persona_indexed:
  "set (rv_index st) \<subseteq> set (rv_index (write_persona e x content st))"
  "(ex_session x, ex_index x, we_ck e content) \<in> set (rv_index (write_persona e x content st))"
  by (auto simp: write_persona_cases Let_def)

lemma write_personas:
  assumes "index_in_step e live st" "\<forall>s \<in> set ss. py_strip s \<noteq> []"
  shows "index_in_step e live (fold (write_persona e x) ss st)
    \<and> (\<forall>s \<in> set ss. (ex_session x, ex_index x, we_ck e s) \<in> set (rv_index (fold (write_persona e x) ss st)))
    \<and> set (rv_index st) \<subseteq> set (rv_index (fold (write_persona e x) ss st))"
  using assms(1,2)
proof (induction ss arbitrary: st)
  case (Cons s ss)
  have "index_in_step e live (write_persona e x s st)"
    using write_persona_in_step Cons.prems by simp
  then show ?case using Cons.IH [of "write_persona e x s st"] Cons.prems(2) write_persona_indexed [where st = st and e = e and x = x and content = s] by auto
qed simp

lemma known_personas_skipped:
  "\<forall>s \<in> set ss. (ex_session x, ex_index x, we_ck e s) \<in> set (rv_index st) \<Longrightarrow> fold (write_persona e x) ss st = st"
  by (induction ss) (simp_all add: write_persona_cases)

lemma write_revision_persona:
  assumes "write_revision e x v index w = (sm, index', w')"
  defines "st \<equiv> fold (write_persona e x) (if iv_suppress v then [] else iv_persona v) \<lparr>rv_files = w, rv_index = index, rv_written = []\<rparr>"
  shows "sm_statements sm = rv_written st" "index' = rv_index st" "w' = rv_files st"
  using assms by (auto simp: write_revision_def Let_def split_def st_def)

text \<open>C36: a statement about herself is written once, across restarts. After a revision wrote its statements, the index a
  later run reads from the weights file is the index the run ended with; so a later revision of the same
  exchange that yields no statement but those writes nothing to any file and offers the ledger none. The parser
  yields no blank statement.\<close>

theorem statements_written_once:
  assumes "write_revision e x v (persona_key_index (we_ck e) live (wf_weights w)) w = (sm, index1, w1)"
    and "readable (wf_weights w)" "\<forall>l \<in> set (log_lines (wf_weights w)). indexable (we_ck e) l"
    and "\<forall>s \<in> set (iv_persona v). py_strip s \<noteq> []" "\<not> iv_suppress v"
    and "we_sha e2 = we_sha e" "ex_session x2 = ex_session x" "ex_index x2 = ex_index x" "set (iv_persona v2) \<subseteq> set (iv_persona v)"
    and "write_revision e2 x2 v2 (persona_key_index (we_ck e2) live (wf_weights w1)) w1 = (sm2, index2, w2)"
  shows "set index1 = set (persona_key_index (we_ck e) live (wf_weights w1)) \<and> w2 = w1 \<and> sm_statements sm2 = []"
proof -
  let ?st = "\<lparr>rv_files = w, rv_index = persona_key_index (we_ck e) live (wf_weights w), rv_written = []\<rparr>"
  let ?st1 = "fold (write_persona e x) (iv_persona v) ?st"
  have "index_in_step e live ?st" using assms(2,3) by (simp add: index_in_step_def)
  then have 1: "index_in_step e live ?st1" "\<forall>s \<in> set (iv_persona v). (ex_session x, ex_index x, we_ck e s) \<in> set (rv_index ?st1)"
    using write_personas [OF _ assms(4), of e live ?st x] by simp_all
  have w1: "index1 = rv_index ?st1" "w1 = rv_files ?st1" using write_revision_persona [OF assms(1)] assms(5) by simp_all
  then have i: "set index1 = set (persona_key_index (we_ck e) live (wf_weights w1))" using 1(1) by (simp add: index_in_step_def)
  let ?st2 = "\<lparr>rv_files = w1, rv_index = persona_key_index (we_ck e2) live (wf_weights w1), rv_written = []\<rparr>"
  let ?ss = "if iv_suppress v2 then [] else iv_persona v2"
  have ck: "we_ck e2 = we_ck e" using assms(6) we_ck_def [of e2] we_ck_def [of e] by (intro ext) simp
  have "\<forall>s \<in> set ?ss. (ex_session x2, ex_index x2, we_ck e2 s) \<in> set (rv_index ?st2)"
    using 1(2) i assms(7-9) w1(1) ck by auto
  then have "fold (write_persona e2 x2) ?ss ?st2 = ?st2" by (rule known_personas_skipped)
  then show ?thesis using write_revision_persona [OF assms(10)] i by simp
qed


section \<open>Witnesses and divergences\<close>

definition rw_env :: writer_env where
  "rw_env = \<lparr>we_sha = id, we_strp = (\<lambda>f s. if s = ''s1'' then Some ''2026-01-01'' else None), we_iso = (\<lambda>_. None), we_lang = (\<lambda>_. ''en''),
     we_ts = ''t1'', we_gate = False\<rparr>"

definition rw_files :: writer_files where
  "rw_files = \<lparr>wf_rag = None, wf_weights = None\<rparr>"

definition rw_exchange :: exchange_ref where
  "rw_exchange = \<lparr>ex_run = ''r1'', ex_session = ''s1'', ex_index = 2\<rparr>"

definition rw_revision :: "branch_choice option \<Rightarrow> revision_input" where
  "rw_revision b = \<lparr>iv_system = ''sys'', iv_context = JNull, iv_prompt = ''hi'', iv_speaker = ''Ann'', iv_cot = ''old thought'',
     iv_response = ''old reply'', iv_verdict = Some ''revise'', iv_ideal = ''<think>new</think>new reply'',
     iv_persona = [''I am direct''], iv_branch = b, iv_suppress = False, iv_recot = False, iv_persona_context = []\<rparr>"




definition rw_pass :: pass_info where
  "rw_pass = \<lparr>pi_run = ''r1'', pi_session = ''s1'', pi_chunk = None, pi_user = ''Ann Lee''\<rparr>"

definition rw_parsed :: parsed_reflection where
  "rw_parsed = \<lparr>pr_weights =
       [\<lparr>wi_kind = ''fact'', wi_content = ''Boris runs'', wi_lang = ''en'', wi_trigger = None, wi_about = Some ''Boris''\<rparr>,
        \<lparr>wi_kind = ''fact'', wi_content = ''Ann paints'', wi_lang = ''en'', wi_trigger = None, wi_about = Some ''ann''\<rparr>],
     pr_rag = [], pr_resolved = []\<rparr>"

lemma hearsay_never_trains_witness:
  "ro_hearsay (fst (write_consolidation rw_env rw_pass (\<lambda>_. None) rw_parsed rw_files)) = 1
   \<and> List.map wi_content (ro_facts (fst (write_consolidation rw_env rw_pass (\<lambda>_. None) rw_parsed rw_files))) = [''Ann paints'']
   \<and> list_all (\<lambda>d. \<not> is_hearsay rw_pass d) (ro_facts (fst (write_consolidation rw_env rw_pass (\<lambda>_. None) rw_parsed rw_files)))"
proof -
  obtain c w' where r: "write_consolidation rw_env rw_pass (\<lambda>_. None) rw_parsed rw_files = (c, w')" by (metis prod.exhaust)
  have "List.map wi_content (ro_facts (fst (write_consolidation rw_env rw_pass (\<lambda>_. None) rw_parsed rw_files))) = [''Ann paints'']"
    by code_simp
  moreover have "length (filter (is_hearsay rw_pass) (pr_weights rw_parsed)) = 1" by code_simp
  ultimately show ?thesis using hearsay_never_trains [OF r] r by (auto simp: list_all_iff)
qed

lemma statements_written_once_witness:
  "let (sm, i, w) = write_revision rw_env rw_exchange (rw_revision None) (persona_key_index (we_ck rw_env) None None) rw_files in
     sm_statements sm = [''I am direct'']
     \<and> (let (sm2, i2, w2) = write_revision rw_env rw_exchange (rw_revision None) (persona_key_index (we_ck rw_env) None (wf_weights w)) w in
        sm_statements sm2 = [] \<and> w2 = w)"
proof -
  let ?v = "rw_revision None"
  have e: "wf_weights rw_files = None" by (simp add: rw_files_def)
  obtain sm i w where 1: "write_revision rw_env rw_exchange ?v (persona_key_index (we_ck rw_env) None None) rw_files = (sm, i, w)"
    by (metis prod_cases3)
  obtain sm2 i2 w2 where 2: "write_revision rw_env rw_exchange ?v (persona_key_index (we_ck rw_env) None (wf_weights w)) w = (sm2, i2, w2)"
    by (metis prod_cases3)
  have "sm_statements (fst (write_revision rw_env rw_exchange ?v (persona_key_index (we_ck rw_env) None None) rw_files)) = [''I am direct'']"
    by code_simp
  then have s: "sm_statements sm = [''I am direct'']" by (simp add: 1)
  have p: "\<forall>s \<in> set (iv_persona ?v). py_strip s \<noteq> []" by code_simp
  have rd: "readable (wf_weights rw_files)" "\<forall>l \<in> set (log_lines (wf_weights rw_files)). indexable (we_ck rw_env) l"
    by (simp_all add: e readable_def)
  have "w2 = w \<and> sm_statements sm2 = []"
    using statements_written_once [of rw_env rw_exchange ?v None rw_files sm i w rw_env rw_exchange ?v sm2 i2 w2] 1 2 e p rd
    by (simp add: rw_revision_def)
  then show ?thesis using s by (simp add: 1 2)
qed

text \<open>
  A branch that won the blind choice and cannot be trained leaves the target of the verdict in place; the record of
  where the target came from still names the branch.
\<close>

lemma ideal_recorded_as_branch:
  "let b = Some \<lparr>bb_index = Some 0, bb_candidates = [\<lparr>bc_kind = ''branch'', bc_text = []\<rparr>]\<rparr>;
       sm = fst (write_revision rw_env rw_exchange (rw_revision b) [] rw_files) in
   resolve_revision_target (Some ''revise'') ''<think>new</think>new reply'' ''old reply'' b ''old thought''
     = ideal_target ''<think>new</think>new reply''
   \<and> sm_source sm = Revised \<and> sm_kind sm = ''branch'' \<and> sm_generation sm = ''branch_replay''"
  by code_simp

text \<open>
  A branch that carries a thought of its own passes the check and is put behind the original thought, and the
  target, which now holds two, cannot be trained.
\<close>

lemma thinking_branch_is_no_target:
  "let b = Some \<lparr>bb_index = Some 0, bb_candidates = [\<lparr>bc_kind = ''branch'', bc_text = ''<think>own</think>reply''\<rparr>]\<rparr>;
       t = resolve_revision_target (Some ''revise'') ''<think>new</think>new reply'' ''old reply'' b ''old thought'' in
   ideal_has_usable_answer ''<think>own</think>reply'' \<and> snd t = Revised \<and> \<not> ideal_has_usable_answer (fst t)"
  by code_simp

end
