(* ===== verification/Writer_Memory.thy ===== *)
theory Writer_Memory
  imports Reflection_Writer Persona_Hygiene
begin

text \<open>
  What the writers of \<open>reflection_writer.py\<close> do to the memory that \<open>reflection_memory.py\<close> folds from the log: a
  re-reading replaces the last one, what is softened can be restored, a purge of cues keeps what it does not
  mend, and a merge of facts does not.
\<close>

section \<open>The live record of a key\<close>

definition log_of :: "logfile option \<Rightarrow> writer_files \<Rightarrow> json list" where
  "log_of live w = recs (memory_lines live (wf_rag w))"

lemma log_of_to_rag: "readable (wf_rag w) \<Longrightarrow> log_of live (to_rag r w) = log_of live w @ [JObj r]"
  by (simp add: log_of_def memory_lines_def to_rag_def)

lemma readable_to_rag [simp]: "readable (wf_rag (to_rag r w)) = readable (wf_rag w)"
  by (simp add: to_rag_def)

lemma fold_memory_ok: "(\<exists>d. fold_memory live (wf_rag w) = Inr d) \<longleftrightarrow> (\<forall>j \<in> set (log_of live w). mem_ok j)"
  using mem.replay_ok [of empty_memory "log_of live w"] by (auto simp: fold_memory_def log_of_def py_bind_eq_Inr)

lemma last_insert_snoc:
  assumes "jget r ''key'' = JStr x" "x \<noteq> []"
  shows "jget r ''op'' = JStr ''insert'' \<Longrightarrow> last_insert k (rs @ [JObj r]) = (if k = KStr x then Some r else last_insert k rs)"
    "jget r ''op'' = JStr ''evict'' \<or> jget r ''op'' = JStr ''supersede'' \<Longrightarrow>
       last_insert k (rs @ [JObj r]) = (if k = KStr x then None else last_insert k rs)"
  using assms by (auto simp: last_insert_def mem_is_def memory_ops_def Let_def)

lemma op_ok:
  assumes "jget r ''key'' = JStr x" "jget r ''op'' \<noteq> JStr ''surface''"
  shows "mem_ok (JObj r)"
  using assms by simp

lemma last_insert_key:
  assumes "last_insert k rs = Some r"
  shows "JObj r \<in> set rs" "truthy (jget r ''key'')" "hash_key (jget r ''key'') = Inr k" "jget r ''op'' = JStr ''insert''"
proof -
  let ?P = "\<lambda>j. mem_key j = Some k \<and> (mem_is ''insert'' j \<or> mem_is ''evict'' j \<or> mem_is ''supersede'' j)"
  let ?ws = "filter ?P rs"
  have w: "?ws \<noteq> []" "mem_is ''insert'' (last ?ws)" "r = obj_of (last ?ws)"
    using assms by (auto simp: last_insert_def Let_def split: if_splits)
  then have "last ?ws \<in> set rs" "mem_key (last ?ws) = Some k" using last_in_set [OF w(1)] by auto
  moreover from this obtain q where "last ?ws = JObj q" using mem_keyD by blast
  ultimately have "JObj r \<in> set rs" "mem_key (JObj r) = Some k" "jget r ''op'' = JStr ''insert''"
    using w(2,3) by (auto simp: mem_is_def)
  then show "JObj r \<in> set rs" "truthy (jget r ''key'')" "hash_key (jget r ''key'') = Inr k" "jget r ''op'' = JStr ''insert''"
    by (auto split: if_splits sum.splits)
qed

lemma hash_key_str: "hash_key v = Inr (KStr x) \<Longrightarrow> v = JStr x"
  by (cases v) auto

definition annotated :: "jobj \<Rightarrow> jobj \<Rightarrow> bool" where
  "annotated r q = (\<forall>x. x \<notin> set fold_computed \<longrightarrow> jget q x = jget r x)"

lemma live_item:
  assumes "fold_memory live (wf_rag w) = Inr d"
  shows "case last_insert k (log_of live w) of None \<Rightarrow> dget d k = None | Some r \<Rightarrow> \<exists>q. dget d k = Some q \<and> annotated r q"
proof -
  obtain n ss ts lk where "mem_replay k (log_of live w) = (last_insert k (log_of live w), n, ss, ts, lk)"
    using mem_replay_spec by blast
  then show ?thesis using fold_memory_key [OF assms, of k]
    by (auto simp: log_of_def annotated_def annotate_def fold_computed_def split: option.splits)
qed

lemma memory_distinct:
  assumes "fold_memory live (wf_rag w) = Inr d"
  shows "distinct (dkeys d)"
proof -
  have step: "distinct (dkeys (Reflection_Memory.items st')) " if "memory_step st j = Inr st'" "distinct (dkeys (Reflection_Memory.items st))" for st st' j
    using that by (auto simp: memory_step_def py_bind_eq_Inr Let_def split: if_splits)
  have "distinct (dkeys (Reflection_Memory.items st'))" if "py_fold memory_step st rs = Inr st'" "distinct (dkeys (Reflection_Memory.items st))" for st st' rs
    using that by (induction rs arbitrary: st) (auto simp: py_bind_eq_Inr dest: step)
  from this [of empty_memory] show ?thesis
    using assms by (auto simp: fold_memory_def py_bind_eq_Inr empty_memory_def finish_memory_def comp_def case_prod_beta)
qed


section \<open>A re-reading replaces the last one\<close>

definition reading_of :: "string \<Rightarrow> jobj \<Rightarrow> bool" where
  "reading_of session r = (jget r ''kind'' = JStr ''recollection'' \<and> py_or (jget r ''source_session'') (JStr []) = JStr session)"

text \<open>The keys of the live readings of a chat.\<close>

definition readings :: "string \<Rightarrow> json list \<Rightarrow> pykey set" where
  "readings session rs = {k. \<exists>r. last_insert k rs = Some r \<and> reading_of session r}"

lemma reading_annotated: "annotated r q \<Longrightarrow> reading_of session q = reading_of session r"
  by (simp add: annotated_def reading_of_def fold_computed_def)

text \<open>The key a re-reading replaces is that of a live reading of the chat, where there is one.\<close>

lemma prior_reading_live:
  assumes "fold_memory live (wf_rag w) = Inr d" "session \<noteq> []" "\<forall>k \<in> readings session (log_of live w). \<exists>x. k = KStr x"
  shows "(prior_reading live session w = [] \<and> readings session (log_of live w) = {})
    \<or> (prior_reading live session w \<noteq> [] \<and> KStr (prior_reading live session w) \<in> readings session (log_of live w))"
proof -
  have rec: "recollection_for session live (wf_rag w) = Inr (find (reading_of session) (List.map snd d))"
    using assms(1,2) by (simp add: recollection_for_def live_items_def reading_of_def [abs_def])
  show ?thesis
  proof (cases "find (reading_of session) (List.map snd d)")
    case None
    have "readings session (log_of live w) = {}"
    proof (rule equals0I)
      fix k assume "k \<in> readings session (log_of live w)"
      then obtain r where r: "last_insert k (log_of live w) = Some r" "reading_of session r" by (auto simp: readings_def)
      then obtain q where q: "dget d k = Some q" "annotated r q" using live_item [OF assms(1), of k] by auto
      then have "q \<in> set (List.map snd d)" using map_of_SomeD [OF q(1)] by force
      then show False using None r(2) reading_annotated [OF q(2)] by (auto simp: find_None_iff)
    qed
    moreover have "prior_reading live session w = []" using rec None by (simp add: prior_reading_def)
    ultimately show ?thesis by blast
  next
    case (Some q)
    then have q: "q \<in> set (List.map snd d)" "reading_of session q" by (auto simp: find_Some_iff)
    then obtain k where "(k, q) \<in> set d" by auto
    then have k: "dget d k = Some q" using memory_distinct [OF assms(1)] by simp
    then obtain r where r: "last_insert k (log_of live w) = Some r" "annotated r q"
      using live_item [OF assms(1), of k] by (auto split: option.splits)
    then have m: "k \<in> readings session (log_of live w)" using q(2) reading_annotated by (auto simp: readings_def)
    then obtain x where x: "k = KStr x" using assms(3) by blast
    have rk: "jget r ''key'' = JStr x" by (rule hash_key_str) (use last_insert_key(3) [OF r(1)] x in simp)
    then have "x \<noteq> []" using last_insert_key(2) [OF r(1)] by simp
    have "jget q ''key'' = JStr x" using r(2) rk by (simp add: annotated_def fold_computed_def)
    then have "prior_reading live session w = x" using rec Some by (simp add: prior_reading_def)
    then show ?thesis using m x \<open>x \<noteq> []\<close> by blast
  qed
qed

lemma write_recollection_appends:
  assumes "py_strip content \<noteq> []"
  shows "write_recollection e content trigger session tags exchanges run_id supersedes w =
    (if supersedes \<noteq> [] \<and> supersedes \<noteq> we_ck e (py_strip content)
     then ((1, 1), to_rag (recollection_record e content trigger tags exchanges run_id session supersedes)
            (to_rag (superseded_record e content run_id session supersedes) w))
     else ((1, 0), to_rag (recollection_record e content trigger tags exchanges run_id session supersedes) w))"
  using assms by (simp add: write_recollection_def Let_def)

lemma recollection_fields:
  "jget (recollection_record e content trigger tags exchanges run_id session supersedes) ''key'' = JStr (we_ck e (py_strip content))"
  "jget (recollection_record e content trigger tags exchanges run_id session supersedes) ''op'' = JStr ''insert''"
  "jget (recollection_record e content trigger tags exchanges run_id session supersedes) ''kind'' = JStr ''recollection''"
  "jget (recollection_record e content trigger tags exchanges run_id session supersedes) ''source_session'' = JStr session"
  "jget (recollection_record e content trigger tags exchanges run_id session supersedes) ''content'' = JStr (py_strip content)"
  by (simp_all add: recollection_record_def Let_def jget_def dget_or_def)

lemma superseded_fields:
  "jget (superseded_record e content run_id session supersedes) ''key'' = JStr supersedes"
  "jget (superseded_record e content run_id session supersedes) ''op'' = JStr ''evict''"
  by (simp_all add: superseded_record_def jget_def dget_or_def)


lemma readings_insert:
  assumes "jget r ''key'' = JStr x" "x \<noteq> []" "jget r ''op'' = JStr ''insert''"
  shows "readings s (rs @ [JObj r]) = (if reading_of s r then insert (KStr x) (readings s rs) else readings s rs - {KStr x})"
  using last_insert_snoc(1) [OF assms] by (auto simp: readings_def)

lemma readings_evict:
  assumes "jget r ''key'' = JStr x" "x \<noteq> []" "jget r ''op'' = JStr ''evict''"
  shows "readings s (rs @ [JObj r]) = readings s rs - {KStr x}"
  using last_insert_snoc(2) [OF assms(1,2)] assms(3) by (auto simp: readings_def)

text \<open>A chat has one reading at a time. When at most one recollection of a chat is live, re-reading it leaves exactly
  one, the new one: the log still folds, the only live reading of the chat is under the key of the new text and
  says it, and no other chat has gained a reading. So a chat revisited any number of times has one live reading.\<close>

theorem revisit_keeps_one_reading:
  assumes "fold_memory live (wf_rag w) = Inr d" "readable (wf_rag w)" "session \<noteq> []" "py_strip content \<noteq> []"
    and "we_ck e (py_strip content) \<noteq> []"
    and "readings session (log_of live w) \<subseteq> {KStr x}"
    and "revisit e live content trigger tags exchanges run_id session w = (n, w')"
  shows "\<exists>d' q. fold_memory live (wf_rag w') = Inr d' \<and> readings session (log_of live w') = {KStr (we_ck e (py_strip content))}
    \<and> dget d' (KStr (we_ck e (py_strip content))) = Some q \<and> jget q ''content'' = JStr (py_strip content)
    \<and> (\<forall>s. s \<noteq> session \<longrightarrow> readings s (log_of live w') \<subseteq> readings s (log_of live w))"
proof -
  let ?key = "we_ck e (py_strip content)"
  let ?sup = "prior_reading live session w"
  let ?r = "recollection_record e content trigger tags exchanges run_id session ?sup"
  let ?v = "superseded_record e content run_id session ?sup"
  let ?w1 = "if ?sup \<noteq> [] \<and> ?sup \<noteq> ?key then to_rag ?v w else w"
  have w': "w' = to_rag ?r ?w1"
    using assms(7) write_recollection_appends [OF assms(4), of e trigger session tags exchanges run_id ?sup w]
    by (auto simp: revisit_def split: if_splits)
  have rd: "readable (wf_rag ?w1)" using assms(2) by simp
  have l1: "log_of live ?w1 = log_of live w @ (if ?sup \<noteq> [] \<and> ?sup \<noteq> ?key then [JObj ?v] else [])"
    using assms(2) by (simp add: log_of_to_rag)
  have l: "log_of live w' = log_of live ?w1 @ [JObj ?r]" unfolding w' by (rule log_of_to_rag [OF rd])
  have ok: "\<forall>j \<in> set (log_of live w). mem_ok j" using fold_memory_ok assms(1) by blast
  have "mem_ok (JObj ?r)" by (rule op_ok [OF recollection_fields(1)]) (simp add: recollection_fields)
  moreover have "mem_ok (JObj ?v)" by (rule op_ok [OF superseded_fields(1)]) (simp add: superseded_fields)
  ultimately have "\<forall>j \<in> set (log_of live w'). mem_ok j" unfolding l l1 using ok by auto
  then obtain d' where d': "fold_memory live (wf_rag w') = Inr d'" using fold_memory_ok by blast
  have prior: "?sup = [] \<and> readings session (log_of live w) = {} \<or> ?sup \<noteq> [] \<and> KStr ?sup \<in> readings session (log_of live w)"
    using prior_reading_live [OF assms(1,3)] assms(6) by blast
  have sub: "readings s (log_of live ?w1) \<subseteq> readings s (log_of live w)" for s
    unfolding l1 using readings_evict [OF superseded_fields(1) _ superseded_fields(2)] by auto
  have r1: "readings session (log_of live ?w1) \<subseteq> {KStr ?key}"
  proof (cases "?sup \<noteq> [] \<and> ?sup \<noteq> ?key")
    case True
    then have "readings session (log_of live ?w1) = readings session (log_of live w) - {KStr ?sup}"
      unfolding l1 using readings_evict [OF superseded_fields(1) _ superseded_fields(2)] by simp
    moreover have "KStr ?sup = KStr x" using prior True assms(6) by blast
    ultimately show ?thesis using assms(6) by auto
  next
    case False
    then have "readings session (log_of live ?w1) = readings session (log_of live w)"
      by (subst if_not_P [OF False]) (rule refl)
    then show ?thesis using prior False assms(6) by auto
  qed
  have ins: "readings s (log_of live w') = (if reading_of s ?r then insert (KStr ?key) (readings s (log_of live ?w1))
      else readings s (log_of live ?w1) - {KStr ?key})" for s
    unfolding l by (rule readings_insert [OF recollection_fields(1) assms(5) recollection_fields(2)])
  have of: "reading_of s ?r \<longleftrightarrow> s = session" for s
    using assms(3) by (auto simp: reading_of_def recollection_fields py_or_def)
  have "readings session (log_of live w') = {KStr ?key}" using ins [of session] of r1 by auto
  moreover have "readings s (log_of live w') \<subseteq> readings s (log_of live w)" if "s \<noteq> session" for s
  proof -
    have "reading_of s ?r = False" using of [of s] that by simp
    then have "readings s (log_of live w') = readings s (log_of live ?w1) - {KStr ?key}" using ins [of s] by (simp only: if_False)
    then show ?thesis using sub [of s] by (metis Diff_subset subset_trans)
  qed
  moreover have "last_insert (KStr ?key) (log_of live w') = Some ?r"
    unfolding l using last_insert_snoc(1) [OF recollection_fields(1) assms(5) recollection_fields(2)] by simp
  then obtain q where "dget d' (KStr ?key) = Some q" "annotated ?r q" using live_item [OF d', of "KStr ?key"] by auto
  moreover from this have "jget q ''content'' = JStr (py_strip content)"
    by (simp add: annotated_def fold_computed_def recollection_fields)
  ultimately show ?thesis using d' by blast
qed


section \<open>Softening, restoring, purging, reopening\<close>

lemma replay_insert:
  assumes "jget r ''key'' = JStr x" "x \<noteq> []" "jget r ''op'' = JStr ''insert''"
  shows "mem_replay k (rs @ [JObj r]) = (if k = KStr x then (Some r, snd (mem_replay k rs)) else mem_replay k rs)"
proof (cases "mem_replay (KStr x) rs")
  case (fields a b c d e)
  then show ?thesis using assms by (simp add: mem_replay_snoc memory_ops_def)
qed

lemma replay_remove:
  assumes "jget r ''key'' = JStr x" "x \<noteq> []" "jget r ''op'' = JStr ''evict'' \<or> jget r ''op'' = JStr ''supersede''"
  shows "mem_replay k (rs @ [JObj r]) = (if k = KStr x then (None, snd (mem_replay k rs)) else mem_replay k rs)"
proof (cases "mem_replay (KStr x) rs")
  case (fields a b c d e)
  then show ?thesis using assms by (auto simp: mem_replay_snoc memory_ops_def)
qed

definition item_of :: "mem_view \<Rightarrow> jobj option" where
  "item_of v = (case v of (it, n, ss, ts, lk) \<Rightarrow> map_option (annotate n ss ts lk) it)"

lemma dget_item: "fold_memory live (wf_rag w) = Inr d \<Longrightarrow> dget d k = item_of (mem_replay k (log_of live w))"
  using fold_memory_key [of live "wf_rag w" d k] by (simp add: item_of_def log_of_def)

text \<open>A record written over the history of a key: its own fields, and the history's counters.\<close>

lemma item_written:
  "\<exists>q. item_of (Some r, h) = Some q \<and> annotated r q
     \<and> (\<forall>r' q'. item_of (Some r', h) = Some q' \<longrightarrow> (\<forall>f \<in> set fold_computed. jget q f = jget q' f))"
  by (cases h) (auto simp: item_of_def annotated_def annotate_def fold_computed_def)

lemma folds_on:
  assumes "fold_memory live (wf_rag w) = Inr d" "log_of live w' = log_of live w @ List.map JObj rs"
    and "\<forall>r \<in> set rs. (\<exists>x. jget r ''key'' = JStr x) \<and> jget r ''op'' \<noteq> JStr ''surface''"
  shows "\<exists>d'. fold_memory live (wf_rag w') = Inr d'"
proof -
  have "\<forall>j \<in> set (log_of live w). mem_ok j" using fold_memory_ok assms(1) by blast
  moreover have "\<forall>r \<in> set rs. mem_ok (JObj r)" using assms(3) op_ok by blast
  ultimately show ?thesis unfolding fold_memory_ok assms(2) by auto
qed

lemma item_some: "item_of v = Some q \<Longrightarrow> \<exists>r. fst v = Some r \<and> annotated r q"
  by (cases v) (auto simp: item_of_def annotated_def annotate_def fold_computed_def)

text \<open>The record under a key is removed and another put in its place, or put in its place at once.\<close>

lemma replaced_item:
  assumes "fold_memory live (wf_rag w) = Inr d" "dget d (KStr x) = Some q" "x \<noteq> []"
    and "log_of live w' = log_of live w @ List.map JObj (vs @ [r])" "length vs \<le> 1"
    and "\<forall>v \<in> set vs. jget v ''key'' = JStr x \<and> (jget v ''op'' = JStr ''evict'' \<or> jget v ''op'' = JStr ''supersede'')"
    and "jget r ''key'' = JStr x" "jget r ''op'' = JStr ''insert''"
  shows "\<exists>d' q'. fold_memory live (wf_rag w') = Inr d' \<and> dget d' (KStr x) = Some q' \<and> annotated r q'
    \<and> (\<forall>f \<in> set fold_computed. jget q' f = jget q f) \<and> (\<forall>k. k \<noteq> KStr x \<longrightarrow> dget d' k = dget d k)"
proof -
  have "\<forall>y \<in> set (vs @ [r]). (\<exists>x. jget y ''key'' = JStr x) \<and> jget y ''op'' \<noteq> JStr ''surface''"
    using assms(6-8) by auto
  then obtain d' where d': "fold_memory live (wf_rag w') = Inr d'" using folds_on [OF assms(1,4)] by blast
  define h where "h = snd (mem_replay (KStr x) (log_of live w))"
  have h: "mem_replay (KStr x) (log_of live w) = (fst (mem_replay (KStr x) (log_of live w)), h)" unfolding h_def by simp
  have v: "mem_replay k (log_of live w @ List.map JObj vs) =
      (if vs \<noteq> [] \<and> k = KStr x then (None, snd (mem_replay k (log_of live w))) else mem_replay k (log_of live w))" for k
  proof (cases vs)
    case (Cons y ys)
    then have "vs = [y]" using assms(5) by simp
    then show ?thesis using replay_remove [of y x k "log_of live w"] assms(3,6) by simp
  qed simp
  have i: "mem_replay k (log_of live w') =
      (if k = KStr x then (Some r, snd (mem_replay k (log_of live w))) else mem_replay k (log_of live w))" for k
    using replay_insert [OF assms(7,3,8), of k "log_of live w @ List.map JObj vs"] v [of k] assms(4)
    by (cases "k = KStr x"; cases "vs = []") simp_all
  have q: "item_of (fst (mem_replay (KStr x) (log_of live w)), h) = Some q"
    using dget_item [OF assms(1), of "KStr x"] assms(2) h by metis
  obtain r0 where r0: "fst (mem_replay (KStr x) (log_of live w)) = Some r0" using item_some [OF q] unfolding fst_conv by blast
  obtain q' where q': "item_of (Some r, h) = Some q'" "annotated r q'"
      "\<forall>r2 q2. item_of (Some r2, h) = Some q2 \<longrightarrow> (\<forall>f \<in> set fold_computed. jget q' f = jget q2 f)"
    using item_written by blast
  have "dget d' (KStr x) = Some q'" using dget_item [OF d', of "KStr x"] i [of "KStr x"] q'(1) by (simp add: h_def)
  moreover have "\<forall>f \<in> set fold_computed. jget q' f = jget q f"
    by (rule q'(3) [rule_format, OF q [unfolded r0], THEN ballI])
  moreover have "dget d' k = dget d k" if "k \<noteq> KStr x" for k
    using dget_item [OF d', of k] dget_item [OF assms(1), of k] i [of k] that by simp
  ultimately show ?thesis using d' q'(2) by blast
qed


lemma removed_item:
  assumes "fold_memory live (wf_rag w) = Inr d" "x \<noteq> []" "log_of live w' = log_of live w @ [JObj v]"
    and "jget v ''key'' = JStr x" "jget v ''op'' = JStr ''evict'' \<or> jget v ''op'' = JStr ''supersede''"
  shows "\<exists>d'. fold_memory live (wf_rag w') = Inr d' \<and> dget d' (KStr x) = None \<and> (\<forall>k. k \<noteq> KStr x \<longrightarrow> dget d' k = dget d k)"
proof -
  obtain d' where d': "fold_memory live (wf_rag w') = Inr d'"
    using folds_on [OF assms(1), of w' "[v]"] assms(3-5) by auto
  have i: "dget d' k = item_of (if k = KStr x then (None, snd (mem_replay k (log_of live w))) else mem_replay k (log_of live w))" for k
    using dget_item [OF d', of k] replay_remove [OF assms(4,2,5), of k "log_of live w"] assms(3) by simp
  have "dget d' (KStr x) = None" using i [of "KStr x"] by (simp add: item_of_def split_def)
  moreover have "dget d' k = dget d k" if "k \<noteq> KStr x" for k
    using i [of k] that dget_item [OF assms(1), of k] by simp
  ultimately show ?thesis using d' by blast
qed

definition softened_record :: "string \<Rightarrow> string \<Rightarrow> string \<Rightarrow> string \<Rightarrow> jobj \<Rightarrow> jobj" where
  "softened_record ts run_id x content s =
     [(''run_id'', JStr (if run_id = [] then ''reconcile-'' @ ts else run_id)), (''ts'', JStr ts),
      (''op'', JStr ''supersede''), (''reason'', py_or (jget s ''reason'') (JStr ''reconciled'')),
      (''kind'', py_or (jget s ''kind'') (JStr [])), (''key'', JStr x), (''content'', JStr content)]"

lemma softened:
  assumes "write_supersede ts run_id [s] (wf_rag w) = Inr (n, f1)" "strip_or_empty (jget s ''key'') = Inr x" "x \<noteq> []"
  shows "\<exists>content. w\<lparr>wf_rag := f1\<rparr> = to_rag (softened_record ts run_id x content s) w"
  using assms by (auto simp: write_supersede_def supersede_item_def softened_record_def to_rag_def py_bind_eq_Inr)

lemma restored:
  assumes "write_restore ts run_id reason [JObj r] (wf_rag w) = (n, f1)" "jget r ''op'' = JStr ''insert''" "truthy (jget r ''key'')"
  shows "w\<lparr>wf_rag := f1\<rparr> = to_rag (restored_insert ts (if run_id = [] then ''restore-'' @ ts else run_id) reason r) w"
  using assms by (auto simp: write_restore_def to_rag_def)

text \<open>What she has softened can be restored. Superseding a live item takes it, and nothing else, out of the memory;
  restoring its record brings the item back as it was, with its counters, but for the stamps of the restoring
  pass, and again nothing else changes.\<close>

theorem softened_can_be_restored:
  assumes "fold_memory live (wf_rag w) = Inr d" "readable (wf_rag w)" "dget d (KStr x) = Some q" "x \<noteq> []"
    and "last_insert (KStr x) (log_of live w) = Some r"
    and "strip_or_empty (jget s ''key'') = Inr x" "write_supersede ts run_id [s] (wf_rag w) = Inr (n, f1)"
    and "write_restore ts2 run_id2 reason [JObj r] f1 = (m, f2)"
  shows "\<exists>d1 d2 q2. fold_memory live f1 = Inr d1 \<and> fold_memory live f2 = Inr d2
    \<and> dget d1 (KStr x) = None \<and> dget d2 (KStr x) = Some q2
    \<and> (\<forall>f. f \<notin> {''run_id'', ''ts'', ''restored''} \<longrightarrow> jget q2 f = jget q f)
    \<and> (\<forall>k. k \<noteq> KStr x \<longrightarrow> dget d1 k = dget d k \<and> dget d2 k = dget d k)"
proof -
  define w1 where "w1 = w\<lparr>wf_rag := f1\<rparr>"
  define w2 where "w2 = w1\<lparr>wf_rag := f2\<rparr>"
  have fs: "wf_rag w1 = f1" "wf_rag w2 = f2" by (simp_all add: w1_def w2_def)
  obtain content where w1: "w1 = to_rag (softened_record ts run_id x content s) w" using softened [OF assms(7,6,4)] unfolding w1_def by blast
  let ?v = "softened_record ts run_id x content s"
  have v: "jget ?v ''key'' = JStr x" "jget ?v ''op'' = JStr ''supersede''" by (simp_all add: softened_record_def jget_def dget_or_def)
  have rk: "jget r ''key'' = JStr x" using last_insert_key(3) [OF assms(5)] by (rule hash_key_str)
  have ro: "jget r ''op'' = JStr ''insert''" by (rule last_insert_key(4) [OF assms(5)])
  let ?r = "restored_insert ts2 (if run_id2 = [] then ''restore-'' @ ts2 else run_id2) reason r"
  have w2: "w2 = to_rag ?r w1" unfolding w2_def
    by (rule restored [OF assms(8) [folded fs(1)] ro]) (simp add: rk assms(4))
  have r: "jget ?r f = jget r f" if "f \<notin> {''run_id'', ''ts'', ''restored''}" for f
    using that by (simp add: restored_insert_def)
  have l1: "log_of live w1 = log_of live w @ [JObj ?v]" unfolding w1 by (rule log_of_to_rag [OF assms(2)])
  have l2: "log_of live w2 = log_of live w @ List.map JObj ([?v] @ [?r])"
    unfolding w2 using log_of_to_rag [of w1 live ?r] l1 assms(2) w1 by simp
  obtain d1 where d1: "fold_memory live (wf_rag w1) = Inr d1" "dget d1 (KStr x) = None" "\<forall>k. k \<noteq> KStr x \<longrightarrow> dget d1 k = dget d k"
    using removed_item [OF assms(1,4) l1 v(1)] v(2) by blast
  have "jget ?r ''key'' = JStr x" "jget ?r ''op'' = JStr ''insert''" using r rk ro by simp_all
  then obtain d2 q2 where d2: "fold_memory live (wf_rag w2) = Inr d2" "dget d2 (KStr x) = Some q2" "annotated ?r q2"
      "\<forall>f \<in> set fold_computed. jget q2 f = jget q f" "\<forall>k. k \<noteq> KStr x \<longrightarrow> dget d2 k = dget d k"
    using replaced_item [OF assms(1,3,4) l2] v by auto
  have q: "annotated r q" using live_item [OF assms(1), of "KStr x"] assms(3,5) by simp
  have "jget q2 f = jget q f" if "f \<notin> {''run_id'', ''ts'', ''restored''}" for f
  proof (cases "f \<in> set fold_computed")
    case False
    then have "jget q2 f = jget ?r f" "jget q f = jget r f" using d2(3) q by (simp_all add: annotated_def)
    then show ?thesis using r [OF that] by simp
  qed (use d2(4) in blast)
  then show ?thesis using d1 d2(1,2,5) unfolding fs by blast
qed


lemma stored_field: "f \<notin> set fold_computed \<Longrightarrow> jget (stored_fields r) f = jget r f"
proof -
  assume f: "f \<notin> set fold_computed"
  have "dget (stored_fields r) f = dget r f" unfolding stored_fields_def by (induction r) (use f in auto)
  then show ?thesis by (simp add: jget_def dget_or_def)
qed

text \<open>What of a live item the folded record says of its own log record.\<close>

lemma live_fields:
  fixes w :: writer_files
  assumes "fold_memory live (wf_rag w) = Inr d" "dget d (KStr x) = Some q"
  shows "jget q ''key'' = JStr x" "jget q ''op'' = JStr ''insert''"
proof -
  obtain r where r: "last_insert (KStr x) (log_of live w) = Some r" "annotated r q"
    using live_item [OF assms(1), of "KStr x"] assms(2) by (auto split: option.splits)
  have "jget r ''key'' = JStr x" using last_insert_key(3) [OF r(1)] by (rule hash_key_str)
  then show "jget q ''key'' = JStr x" "jget q ''op'' = JStr ''insert''"
    using r(2) last_insert_key(4) [OF r(1)] by (simp_all add: annotated_def fold_computed_def)
qed

lemma purge_fields:
  "jget (purge_record e run_id n key content p) f =
     (if f = ''run_id'' then JStr run_id else if f = ''ts'' then JStr (we_ts e) else if f = ''id'' then JStr (run_id @ ''-t'' @ nat_str n)
      else if f = ''op'' then JStr ''insert'' else if f = ''kind'' then py_or (jget (pu_record p) ''kind'') (JStr ''fact'')
      else if f = ''content'' then JStr content else if f = ''key'' then key
      else if f = ''trigger'' then (if or_empty (pu_new p) = [] then JNull else JStr (or_empty (pu_new p)))
      else if f = ''trigger_purged'' then JBool True
      else if f = ''dropped_cues'' then JList (List.map pair_json (pu_dropped p)) else jget (stored_fields (pu_record p)) f)"
  by (simp add: purge_record_def dmerge_def)

lemma planned:
  assumes "plan_one q = Inr [p]"
  shows "pu_record p = q" "pu_key p = jget q ''key''" "strip_or_empty (jget q ''content'') = Inr (pu_content p)"
    "jget q ''kind'' = JStr ''fact'' \<or> jget q ''kind'' = JStr ''recollection''"
  using assms by (auto simp: plan_one_def py_bind_eq_Inr Let_def split: if_splits prod.splits)

text \<open>The purge of a cue mends the cue and keeps the rest. Applied to what it planned of a live item, the purge leaves the
  item live with the new cue (or with none), and with every other field of the record it replaces: whose word it is
  and of whom, its origin, its link to the weights, its counters. No other item changes.\<close>

theorem purge_keeps_the_rest:
  assumes "fold_memory live (wf_rag w) = Inr d" "readable (wf_rag w)" "dget d (KStr x) = Some q" "x \<noteq> []"
    and "plan_one q = Inr [p]" "pu_content p \<noteq> []" "write_trigger_purge e [p] w = Inr (c, w')"
  shows "\<exists>d' q'. fold_memory live (wf_rag w') = Inr d' \<and> dget d' (KStr x) = Some q'
    \<and> jget q' ''trigger'' = (if or_empty (pu_new p) = [] then JNull else JStr (or_empty (pu_new p)))
    \<and> jget q' ''content'' = JStr (pu_content p)
    \<and> (\<forall>f. f \<notin> {''run_id'', ''ts'', ''id'', ''content'', ''trigger'', ''trigger_purged'', ''dropped_cues''} \<longrightarrow> jget q' f = jget q f)
    \<and> (\<forall>k. k \<noteq> KStr x \<longrightarrow> dget d' k = dget d k)"
proof -
  note p = planned [OF assms(5)]
  note k = live_fields [OF assms(1,3)]
  let ?r = "purge_record e (''trigger-purge-'' @ we_ts e) 0 (JStr x) (pu_content p) p"
  have "py_or (pu_key p) (jget (pu_record p) ''key'') = JStr x" using p(1,2) k(1) assms(4) by (simp add: py_or_def)
  then have w': "w' = to_rag ?r w"
    using assms(4,6,7) p(1,3) by (simp add: write_trigger_purge_def purge_one_def Let_def)
  have l: "log_of live w' = log_of live w @ List.map JObj ([] @ [?r])" unfolding w' using log_of_to_rag [OF assms(2)] by simp
  have f: "jget ?r ''key'' = JStr x" "jget ?r ''op'' = JStr ''insert''" by (simp_all add: purge_fields)
  obtain d' q' where d': "fold_memory live (wf_rag w') = Inr d'" "dget d' (KStr x) = Some q'" "annotated ?r q'"
      "\<forall>f \<in> set fold_computed. jget q' f = jget q f" "\<forall>k. k \<noteq> KStr x \<longrightarrow> dget d' k = dget d k"
    using replaced_item [OF assms(1,3,4) l] f by auto
  have kind: "py_or (jget q ''kind'') (JStr ''fact'') = jget q ''kind''" using p(4) by (auto simp: py_or_def)
  have "jget q' f = jget q f"
    if "f \<notin> {''run_id'', ''ts'', ''id'', ''content'', ''trigger'', ''trigger_purged'', ''dropped_cues''}" for f
  proof (cases "f \<in> set fold_computed")
    case False
    then have "jget q' f = jget ?r f" using d'(3) by (simp add: annotated_def)
    also have "\<dots> = jget q f" using that False k kind p(1) by (simp add: purge_fields stored_field)
    finally show ?thesis .
  qed (use d'(4) in blast)
  moreover have "jget q' ''trigger'' = jget ?r ''trigger''" "jget q' ''content'' = jget ?r ''content''"
    using d'(3) by (simp_all add: annotated_def fold_computed_def)
  ultimately show ?thesis using d'(1,2,5) by (intro exI [of _ d'] exI [of _ q'] conjI) (simp_all add: purge_fields)
qed


lemma reopened_fields:
  "jget (reopened_record e q x c run_id reason cts) ''key'' = JStr x"
  "jget (reopened_record e q x c run_id reason cts) ''op'' = JStr ''insert''"
  "jget (reopened_record e q x c run_id reason cts) ''kind'' = JStr ''ask''"
  "jget (reopened_record e q x c run_id reason cts) ''content'' = JStr c"
  "jget (reopened_record e q x c run_id reason cts) ''ask_kind'' = py_or (jget q ''ask_kind'') (JStr ''search'')"
  by (simp_all add: reopened_record_def jget_def dget_or_def)

lemma reopened_carries:
  "f \<in> {''origin_ts'', ''lookup'', ''seen''} \<Longrightarrow> truthy (jget q f) \<Longrightarrow>
     jget (reopened_record e q x c run_id reason cts) f = jget q f"
  unfolding jget_def [of "reopened_record e q x c run_id reason cts"] dget_or_def
  by (auto simp: reopened_record_def carried_def)

text \<open>A question closed by mistake comes back as it was. Resolving a live question takes it, and nothing else, out of the
  memory; reopening it puts it back under its own key with its text, its kind, its origin and the title it was bound
  to, and with the number of times it was raised and looked up and the time it was last raised, so it is not
  asked again too soon.\<close>

theorem reopened_question_returns:
  assumes "fold_memory live (wf_rag w) = Inr d" "readable (wf_rag w)" "dget d (KStr x) = Some q" "x \<noteq> []" "py_strip x = x"
    and "jget q ''content'' = JStr c" "py_strip c \<noteq> []" "cl_key cl = x"
    and "write_resolution e cl run_id reason w = w1" "write_reopened_ask e2 q run_id2 reason2 closed_ts w1 = Inr (b, w2)"
  shows "b \<and> (\<exists>d1 d2 q2. fold_memory live (wf_rag w1) = Inr d1 \<and> fold_memory live (wf_rag w2) = Inr d2
    \<and> dget d1 (KStr x) = None \<and> dget d2 (KStr x) = Some q2
    \<and> jget q2 ''kind'' = JStr ''ask'' \<and> jget q2 ''content'' = JStr (py_strip c)
    \<and> jget q2 ''ask_kind'' = py_or (jget q ''ask_kind'') (JStr ''search'')
    \<and> (\<forall>f \<in> {''origin_ts'', ''lookup'', ''seen''}. truthy (jget q f) \<longrightarrow> jget q2 f = jget q f)
    \<and> (\<forall>f \<in> set fold_computed. jget q2 f = jget q f)
    \<and> (\<forall>k. k \<noteq> KStr x \<longrightarrow> dget d1 k = dget d k \<and> dget d2 k = dget d k))"
proof -
  let ?v = "resolution_record e cl run_id reason"
  let ?r = "reopened_record e2 q x (py_strip c) run_id2 reason2 closed_ts"
  have v: "jget ?v ''key'' = JStr x" "jget ?v ''op'' = JStr ''evict''"
    using assms(8) by (simp_all add: resolution_record_def jget_def dget_or_def)
  have w1: "w1 = to_rag ?v w" using assms(4,8,9) by (auto simp: write_resolution_def)
  note k = live_fields(1) [OF assms(1,3)]
  have b: "b" "w2 = to_rag ?r w1"
    using assms(4,5,7,10) by (simp_all add: write_reopened_ask_def k assms(6) strip_or_empty_str)
  have l1: "log_of live w1 = log_of live w @ [JObj ?v]" unfolding w1 by (rule log_of_to_rag [OF assms(2)])
  have l2: "log_of live w2 = log_of live w @ List.map JObj ([?v] @ [?r])"
    unfolding b(2) using log_of_to_rag [of w1 live ?r] l1 assms(2) w1 by simp
  obtain d1 where d1: "fold_memory live (wf_rag w1) = Inr d1" "dget d1 (KStr x) = None" "\<forall>k. k \<noteq> KStr x \<longrightarrow> dget d1 k = dget d k"
    using removed_item [OF assms(1,4) l1 v(1)] v(2) by blast
  obtain d2 q2 where d2: "fold_memory live (wf_rag w2) = Inr d2" "dget d2 (KStr x) = Some q2" "annotated ?r q2"
      "\<forall>f \<in> set fold_computed. jget q2 f = jget q f" "\<forall>k. k \<noteq> KStr x \<longrightarrow> dget d2 k = dget d k"
    using replaced_item [OF assms(1,3,4) l2] v reopened_fields(1,2) by auto
  have same: "jget q2 f = jget ?r f" if "f \<notin> set fold_computed" for f using d2(3) that by (simp add: annotated_def)
  have "jget q2 ''kind'' = JStr ''ask''" "jget q2 ''content'' = JStr (py_strip c)"
      "jget q2 ''ask_kind'' = py_or (jget q ''ask_kind'') (JStr ''search'')"
    using same by (simp_all add: fold_computed_def reopened_fields)
  moreover have "jget q2 f = jget q f" if "f \<in> {''origin_ts'', ''lookup'', ''seen''}" "truthy (jget q f)" for f
  proof -
    have "f \<notin> set fold_computed" using that(1) by (auto simp: fold_computed_def)
    then show ?thesis using same reopened_carries [OF that] by simp
  qed
  ultimately show ?thesis using b(1) d1 d2(1,2,4,5) by blast
qed


section \<open>Witnesses and a divergence\<close>

definition wm_fact :: jobj where
  "wm_fact = [(''op'', JStr ''insert''), (''kind'', JStr ''fact''), (''key'', JStr ''k''), (''content'', JStr ''Boris runs''),
     (''trigger'', JStr ''running ; did he stop?''), (''source_class'', JStr ''hearsay''), (''about'', JStr ''Boris''), (''source'', JStr ''Ann'')]"

definition wm_reading :: jobj where
  "wm_reading = [(''op'', JStr ''insert''), (''kind'', JStr ''recollection''), (''key'', JStr ''old''), (''content'', JStr ''an old reading''),
     (''source_session'', JStr ''s1'')]"

definition wm_log :: "jobj list \<Rightarrow> writer_files" where
  "wm_log rs = \<lparr>wf_rag = Some (Parsed (List.map (\<lambda>r. Rec (JObj r)) rs)), wf_weights = None\<rparr>"

definition wm_fold :: "writer_files \<Rightarrow> (pykey, jobj) dict" where
  "wm_fold w = (case fold_memory None (wf_rag w) of Inr d \<Rightarrow> d | Inl _ \<Rightarrow> [])"

lemma wm_folds:
  "(\<exists>d. fold_memory None (wf_rag w) = Inr d) \<Longrightarrow> fold_memory None (wf_rag w) = Inr (wm_fold w)"
  by (auto simp: wm_fold_def)

lemma merge_forgets_attribution:
  "let m = \<lparr>mg_survivor = snd (hd (wm_fold (wm_log [wm_fact]))), mg_trigger = ''running ; sport'', mg_losers = []\<rparr>;
       q = snd (hd (case write_dedup rw_env [m] (wm_log [wm_fact]) of Inr (c, w) \<Rightarrow> wm_fold w | Inl _ \<Rightarrow> [])) in
   jget (snd (hd (wm_fold (wm_log [wm_fact])))) ''source_class'' = JStr ''hearsay''
   \<and> jget q ''key'' = JStr ''k'' \<and> jget q ''source_class'' = JNull \<and> jget q ''about'' = JNull \<and> jget q ''source'' = JNull"
  by code_simp


lemma wm_readable: "readable (wf_rag (wm_log rs))"
  by (simp add: wm_log_def readable_def)

lemma wm_log_of: "log_of None (wm_log rs) = List.map JObj rs"
  by (induction rs) (simp_all add: log_of_def memory_lines_def wm_log_def recs_def List.map_filter_simps)

lemma wm_folds_ok: "\<forall>r \<in> set rs. mem_ok (JObj r) \<Longrightarrow> fold_memory None (wf_rag (wm_log rs)) = Inr (wm_fold (wm_log rs))"
proof (rule wm_folds)
  assume "\<forall>r \<in> set rs. mem_ok (JObj r)"
  then have "\<forall>j \<in> set (log_of None (wm_log rs)). mem_ok j"
    unfolding wm_log_of by auto
  then show "\<exists>d. fold_memory None (wf_rag (wm_log rs)) = Inr d" using fold_memory_ok by blast
qed

lemma wm_ok: "mem_ok (JObj wm_fact)" "mem_ok (JObj wm_reading)"
  by (rule op_ok [where x = "''k''"]; code_simp) (rule op_ok [where x = "''old''"]; code_simp)

definition wm_revisited :: writer_files where
  "wm_revisited = snd (revisit rw_env None ''a new reading'' ''tea'' [] [] ''r2'' ''s1'' (wm_log [wm_fact, wm_reading]))"

lemma revisit_keeps_one_reading_witness:
  "readings ''s1'' (log_of None (wm_log [wm_fact, wm_reading])) = {KStr ''old''}
   \<and> readings ''s1'' (log_of None wm_revisited) = {KStr ''a new readin''}"
proof -
  let ?w = "wm_log [wm_fact, wm_reading]"
  have l: "log_of None ?w = [] @ [JObj wm_fact] @ [JObj wm_reading]"
    by (simp add: wm_log_of)
  have f: "jget wm_fact ''key'' = JStr ''k''" "jget wm_fact ''op'' = JStr ''insert''" "\<not> reading_of ''s1'' wm_fact"
      "jget wm_reading ''key'' = JStr ''old''" "jget wm_reading ''op'' = JStr ''insert''" "reading_of ''s1'' wm_reading"
    by code_simp+
  have "readings ''s1'' ([] @ [JObj wm_fact]) = {}"
    using readings_insert [OF f(1) _ f(2), of "''s1''" "[]"] f(3) by (simp add: readings_def last_insert_def)
  then have r: "readings ''s1'' (log_of None ?w) = {KStr ''old''}"
    unfolding l using readings_insert [OF f(4) _ f(5), of "''s1''" "[] @ [JObj wm_fact]"] f(6) by simp
  have d: "fold_memory None (wf_rag ?w) = Inr (wm_fold ?w)" by (rule wm_folds_ok) (simp add: wm_ok del: mem_ok.simps)
  have c: "py_strip ''a new reading'' = ''a new reading''" "we_ck rw_env ''a new reading'' = ''a new readin''" by code_simp+
  obtain n w' where w': "revisit rw_env None ''a new reading'' ''tea'' [] [] ''r2'' ''s1'' ?w = (n, w')" by (metis prod.exhaust)
  have "readings ''s1'' (log_of None w') = {KStr ''a new readin''}"
    using revisit_keeps_one_reading [OF d wm_readable _ _ _ _ w', of "''old''"] r c by auto
  then show ?thesis using r w' by (simp add: wm_revisited_def)
qed

definition wm_softened :: logfile where
  "wm_softened = (case write_supersede ''t1'' ''r1'' [[(''key'', JStr ''k'')]] (wf_rag (wm_log [wm_fact])) of Inr (n, f) \<Rightarrow> f | Inl _ \<Rightarrow> None)"

definition wm_restored :: logfile where
  "wm_restored = snd (write_restore ''t2'' ''r2'' [] [JObj wm_fact] wm_softened)"

lemma wm_fact_live:
  "fold_memory None (wf_rag (wm_log [wm_fact])) = Inr (wm_fold (wm_log [wm_fact]))"
  "dget (wm_fold (wm_log [wm_fact])) (KStr ''k'') = Some (snd (hd (wm_fold (wm_log [wm_fact]))))"
proof -
  show "fold_memory None (wf_rag (wm_log [wm_fact])) = Inr (wm_fold (wm_log [wm_fact]))"
    by (rule wm_folds_ok) (simp add: wm_ok del: mem_ok.simps)
  show "dget (wm_fold (wm_log [wm_fact])) (KStr ''k'') = Some (snd (hd (wm_fold (wm_log [wm_fact]))))" by code_simp
qed

lemma softened_can_be_restored_witness:
  "\<exists>d1 d2 q2. fold_memory None wm_softened = Inr d1 \<and> dget d1 (KStr ''k'') = None
     \<and> fold_memory None wm_restored = Inr d2 \<and> dget d2 (KStr ''k'') = Some q2 \<and> jget q2 ''about'' = JStr ''Boris''"
proof -
  let ?w = "wm_log [wm_fact]"
  let ?q = "snd (hd (wm_fold ?w))"
  have f: "jget wm_fact ''key'' = JStr ''k''" "jget wm_fact ''op'' = JStr ''insert''" "jget ?q ''about'' = JStr ''Boris''"
    by code_simp+
  have l: "log_of None ?w = [] @ [JObj wm_fact]" by (simp add: wm_log_of)
  have li: "last_insert (KStr ''k'') (log_of None ?w) = Some wm_fact"
    unfolding l using last_insert_snoc(1) [OF f(1) _ f(2), of "KStr ''k''" "[]"] by simp
  have k: "strip_or_empty (jget [(''key'', JStr ''k'')] ''key'') = Inr ''k''" by code_simp
  have s: "\<exists>n. write_supersede ''t1'' ''r1'' [[(''key'', JStr ''k'')]] (wf_rag ?w) = Inr (n, wm_softened)"
    by (simp add: wm_softened_def write_supersede_def supersede_item_def k strip_or_empty_def py_or_def)
  then obtain n where n: "write_supersede ''t1'' ''r1'' [[(''key'', JStr ''k'')]] (wf_rag ?w) = Inr (n, wm_softened)" by blast
  obtain m where m: "write_restore ''t2'' ''r2'' [] [JObj wm_fact] wm_softened = (m, wm_restored)"
    by (metis prod.exhaust snd_conv wm_restored_def)
  from softened_can_be_restored [OF wm_fact_live(1) wm_readable wm_fact_live(2) _ li k n m]
  obtain d1 d2 q2 where "fold_memory None wm_softened = Inr d1" "dget d1 (KStr ''k'') = None"
      "fold_memory None wm_restored = Inr d2" "dget d2 (KStr ''k'') = Some q2" "jget q2 ''about'' = jget ?q ''about''"
    by fastforce
  then show ?thesis using f(3) by auto
qed

definition wm_purge :: purge_item where
  "wm_purge = (case plan_one (snd (hd (wm_fold (wm_log [wm_fact])))) of Inr (p # _) \<Rightarrow> p | _ \<Rightarrow> fused_purge)"

lemma purge_keeps_the_rest_witness:
  "\<exists>c w' d' q'. write_trigger_purge rw_env [wm_purge] (wm_log [wm_fact]) = Inr (c, w')
     \<and> fold_memory None (wf_rag w') = Inr d' \<and> dget d' (KStr ''k'') = Some q'
     \<and> jget q' ''trigger'' = JStr ''running'' \<and> jget q' ''source_class'' = JStr ''hearsay''"
proof -
  let ?w = "wm_log [wm_fact]"
  let ?q = "snd (hd (wm_fold ?w))"
  have p: "plan_one ?q = Inr [wm_purge]" by code_simp
  have f: "pu_content wm_purge \<noteq> []" "pu_new wm_purge = Some ''running''" "jget ?q ''source_class'' = JStr ''hearsay''" by code_simp+
  have "case write_trigger_purge rw_env [wm_purge] ?w of Inl _ \<Rightarrow> False | Inr _ \<Rightarrow> True" by code_simp
  then obtain c w' where w: "write_trigger_purge rw_env [wm_purge] ?w = Inr (c, w')" by (auto split: sum.splits)
  from purge_keeps_the_rest [OF wm_fact_live(1) wm_readable wm_fact_live(2) _ p f(1) w] f(2,3)
  show ?thesis using w by (fastforce simp: or_empty_def)
qed

definition wm_ask :: jobj where
  "wm_ask = [(''op'', JStr ''insert''), (''kind'', JStr ''ask''), (''ask_kind'', JStr ''user''), (''key'', JStr ''k''),
     (''content'', JStr ''Why tea?''), (''seen'', JStr ''June'')]"

definition wm_raised :: jobj where
  "wm_raised = [(''op'', JStr ''surface''), (''key'', JStr ''k''), (''ts'', JStr ''t0''), (''surfaced_in'', JStr ''s1'')]"

definition wm_closure :: closure where
  "wm_closure = \<lparr>cl_key = ''k'', cl_question = ''Why tea?'', cl_answer = ''habit'', cl_kind = ''user'', cl_session = ''s1'', cl_user = ''Ann''\<rparr>"

lemma reopened_question_returns_witness:
  "\<exists>w2 d2 q2. write_reopened_ask rw_env (snd (hd (wm_fold (wm_log [wm_ask, wm_raised])))) ''r2'' ''cut'' ''t0''
       (write_resolution rw_env wm_closure ''r1'' [] (wm_log [wm_ask, wm_raised])) = Inr (True, w2)
     \<and> fold_memory None (wf_rag w2) = Inr d2 \<and> dget d2 (KStr ''k'') = Some q2
     \<and> jget q2 ''surface_count'' = JInt 1 \<and> jget q2 ''seen'' = JStr ''June''"
proof -
  let ?w = "wm_log [wm_ask, wm_raised]"
  let ?q = "snd (hd (wm_fold ?w))"
  have ok: "mem_ok (JObj wm_ask)" by (rule op_ok [where x = "''k''"]; code_simp)
  have ok2: "mem_ok (JObj wm_raised)" by (simp add: wm_raised_def surface_where_def surface_ts_def strip_or_empty_def py_or_def jget_def dget_or_def)
  have d: "fold_memory None (wf_rag ?w) = Inr (wm_fold ?w)" by (rule wm_folds_ok) (simp add: ok ok2 del: mem_ok.simps)
  have q: "dget (wm_fold ?w) (KStr ''k'') = Some ?q" by code_simp
  have f: "py_strip ''k'' = ''k''" "jget ?q ''content'' = JStr ''Why tea?''" "py_strip ''Why tea?'' \<noteq> []" "cl_key wm_closure = ''k''"
      "jget ?q ''surface_count'' = JInt 1" "jget ?q ''seen'' = JStr ''June''"
    by code_simp+
  let ?w1 = "write_resolution rw_env wm_closure ''r1'' [] ?w"
  have "case write_reopened_ask rw_env ?q ''r2'' ''cut'' ''t0'' ?w1 of Inl _ \<Rightarrow> False | Inr _ \<Rightarrow> True" by code_simp
  then obtain b w2 where w2: "write_reopened_ask rw_env ?q ''r2'' ''cut'' ''t0'' ?w1 = Inr (b, w2)" by (auto split: sum.splits)
  from reopened_question_returns [OF d wm_readable q _ f(1-4) refl w2] f(5,6)
  obtain d2 q2 where "b" "fold_memory None (wf_rag w2) = Inr d2" "dget d2 (KStr ''k'') = Some q2"
      "jget q2 ''surface_count'' = JInt 1" "jget q2 ''seen'' = JStr ''June''"
    by (auto simp: fold_computed_def)
  then show ?thesis using w2 by auto
qed

end
