(* ===== verification/Spec2Isabelle.thy ===== *)
theory Spec2Isabelle
  imports Build_Dataset Config Dose_Ledger Label_Policy Reflection_Memory Rag_Policy Worklog Housekeeping Reachout_Gate
    Idle_Scheduler Watchdog Doc_Store Families Fold Dedup Edges Spread Activation Budget Selection Aha Staging Rewrite_History Governor
    Persona_Hygiene Writer_Memory
begin

text \<open>
  \<^bold>\<open>ProjectAva: a verification development of the server's durable state, its supervision and its library.\<close>

  Ava is a chat assistant that consolidates its conversations into its own weights. By day the inference
  server answers and appends to logs; while the box is idle autonomous jobs run on its GPU; a reflection judges
  every exchange and writes the verdicts beside the transcript; a build folds those records into a corpus,
  trains an adapter and the cycle starts again. The development models the parts that keep the state of this
  cycle and decide what may be trained, when, and by whom the GPU is held, and the associative library that
  keeps documents, folds what they state into claims and decides which of them a prompt is given.

  \<^bold>\<open>Theories and code.\<close>

  \<^item> \<open>Prelude\<close>, \<open>Json\<close>: dictionaries in insertion order, Python's exceptions as the sum \<open>py\<close>, strings, rounding,
    JSON values with truthiness, conversions and equality, log files as lists of lines.
  \<^item> \<open>Keyed_Log\<close>: the locale of an append-only log folded by key, with its view of one key; interpreted by the
    ledger, the reflection memory and persona hygiene on their own folds.
  \<^item> \<open>Decay\<close>, \<open>Config\<close> (\<open>training/decay.py\<close>): stage schedule, retrieval and learning-rate curves; reading of the
    configuration.
  \<^item> \<open>Ledger\<close> (\<open>training/ledger.py\<close>), \<open>Dose_Ledger\<close> (\<open>training/dose_ledger.py\<close>), \<open>Reflection_Memory\<close>
    (\<open>core/reflection_memory.py\<close>), \<open>Worklog\<close> (\<open>core/worklog.py\<close>): the durable logs and their folds.
  \<^item> \<open>Sidecar\<close>, \<open>Gist\<close> (\<open>core/chat_sidecar.py\<close>): the state document, summary and facts beside every chat.
  \<^item> \<open>Staging\<close> (\<open>core/reflection_staging.py\<close>): the workspace a reflection works in, the checkpoint of its finished
    chats, the recovery of an interrupted run and the commit to the live files.
  \<^item> \<open>Chunking\<close> (\<open>core/reflection_chunking.py\<close>, the clipping of \<open>reflection_runner.py\<close>): a chat too long for one
    prompt is read in chunks.
  \<^item> \<open>Chat_Logger\<close> (\<open>core/chat_logger.py\<close>), \<open>Rewrite_History\<close> (\<open>handle_rewrite_history\<close> of \<open>core/session_ops.py\<close>): the
    transcript of a session, its edits, and the settling of an operator's verdicts in transcript, sidecar and ledger.
  \<^item> \<open>Governor\<close> (\<open>core/governor.py\<close>): how much of a habit a build may train, and the holds beside the exchanges.
  \<^item> \<open>Persona_Hygiene\<close> (\<open>core/persona_hygiene.py\<close>, \<open>write_supersede\<close> and \<open>write_restore\<close> of
    \<open>core/reflection_writer.py\<close>): which statements about herself stay in recall and in the ledger.
  \<^item> \<open>Trigger_Hygiene\<close> (\<open>core/trigger_hygiene.py\<close>): recall cues that may be stored, the cap on a question, the plans that
    purge old cues and cut impressions glued to questions.
  \<^item> \<open>Reflection_Writer\<close>, \<open>Writer_Memory\<close> (\<open>core/reflection_writer.py\<close>): what a reflection writes, namely the routing of a
    consolidation into the weights file and the recall log, closures, recollections, merges, repairs and the verdict of a
    revision, and what the reflection memory then holds.
  \<^item> \<open>Render\<close> (\<open>training/render.py\<close>, \<open>persona_render.py\<close>, \<open>fact_render.py\<close>), \<open>Label_Policy\<close>
    (\<open>training/label_policy.py\<close>), \<open>Build_Row\<close>, \<open>Build_Dataset\<close> (\<open>training/build_dataset.py\<close>), \<open>Dialogue_Source\<close>
    (\<open>training/dialogue_source.py\<close>): from a transcript to a row of the corpus and to the tokens that carry loss.
  \<^item> \<open>Rag_Policy\<close> (\<open>core/rag_policy.py\<close>): which past exchanges may be retrieved, and how they are cut.
  \<^item> \<open>Idle_Scheduler\<close> (\<open>core/idle_scheduler.py\<close>), \<open>Reachout_Gate\<close> (\<open>core/reachout_gate.py\<close>), \<open>Housekeeping\<close>
    (\<open>core/housekeeping.py\<close>): who may use the GPU and when, how often Ava may write first, and the nightly event.
  \<^item> \<open>Watchdog\<close> (\<open>server/watchdog.py\<close>): the supervisor that runs the server and the offline jobs.
  \<^item> \<open>Doc_Store\<close> (\<open>assoc/store.py\<close>, \<open>chunks.py\<close>, \<open>kinds/chat.py\<close>): documents, their versions and units, ingestion.
  \<^item> \<open>Fold\<close> (\<open>assoc/fold.py\<close>), \<open>Families\<close> (\<open>assoc/authority.py\<close>), \<open>Dedup\<close> (\<open>assoc/dedup.py\<close> and the claim part of
    \<open>assoc/rebuild.py\<close>): from the facts of documents to claims, removals, families, merged claims and their links.
  \<^item> \<open>Edges\<close> (\<open>assoc/graph.py\<close>, \<open>has_path\<close> of \<open>infer.py\<close>), \<open>Spread\<close> (\<open>assoc/spread.py\<close>), \<open>Activation\<close>
    (\<open>assoc/activation.py\<close>): the graph over claims, chunks, documents and entities, and the two activations over it.
  \<^item> \<open>Budget\<close> (\<open>assoc/budget.py\<close>), \<open>Selection\<close> (\<open>assoc/selection.py\<close>), \<open>Aha\<close> (\<open>assoc/aha.py\<close>, needs of
    \<open>library.py\<close>): what of it is injected into a prompt, and which claims answer a standing need.

  \<^bold>\<open>How state and operations correspond.\<close> A class or a module's variables are a record, a file is the list of its
  lines or the document it parses to, and an operation is a function from the old state to its result and
  the new state; an exception is a left value. Where threads or coroutines interleave (\<open>Watchdog\<close>,
  \<open>Idle_Scheduler\<close>) a step is what runs without giving the lock or the loop away, the steps form an inductive
  relation, and the properties hold in every reachable state. Repeated use of one operation (\<open>ledger_reach\<close>,
  \<open>worklog_run\<close>, \<open>reflected\<close>, \<open>hk_runs\<close>) is an inductive predicate too.

  \<^bold>\<open>What the lemmas show.\<close> The folds of the logs are total on what their writers can produce and refine an
  abstract view per key; an operator's ban, freeze and lock survive the automatic writers; a corpus holds only
  what its gates admit, an injected fact never changes the trained answer, and the renderer never raises on an
  admitted target; the label policy equals its reference; a dose is applied once. The schedules are monotone and
  bounded. One idle job at a time holds the GPU and none runs early; a started offline job whose command line could be
  built works with the server down and leaves it up and the slot free; crash relaunches, reach-outs and nightly steps
  are limited as promised.

  The file of a session is the session as of its last write that succeeded; the chunks of a long chat hold all of it
  and fit; an interrupted reflection recovers each finished chat as of its last checkpoint. A reply she rejected is no
  training target, what one person says of another is recalled and not trained, and her statements about herself are
  written once across restarts. Settling a chat leaves transcript and sidecar in step, and the
  hosts of facts move with a deletion. The governor's plan meets its setpoint, holds nothing idly, and what it
  holds is out of every later build. A hygiene pass carries out every verdict at once, in recall and in the ledger.

  In the library a growing chat keeps its units and versions form a chain; the fold, the merging and the linking
  lose no statement, merge exactly what passes the check and leave no dangling link; the edge table is undirected
  and survives saving; what spreading reports is a walk of recorded edges under the path rules; rows of the
  activation stay bounded; what a block picks passed the policy, and beside a pick it names nothing but a contest of
  it, which is ungated; a judged pair is not offered again over the same types of edges. The union-find (\<open>climb\<close>) is a partial function proved to return on every forest its callers build.

  \<^bold>\<open>Parameters.\<close> Clocks, the text form of floats, parsing of dates and of floats from text, hashes, process ids,
  characters outside Latin-1 and the repair of stray letters are arguments, as are the results of generations and
  of the bodies of jobs. In the library powers, logarithms and exponentials, SHA-1, the kinds' splitters and facet
  maps, the codebook's cells, the comparison of embeddings and the tokenizer are arguments. Whether an append or a save succeeds is an argument too. Floats are exact rationals. No
  operation of the state needs fuel: a loop is structural, has a measure (\<open>chunk_loop\<close>) or is a partial function
  (\<open>climb\<close>); the tokenizer's fuel is the length of the text, of which every step consumes a character.

  \<^bold>\<open>Not modelled.\<close> Generation, training and embedding (torch, transformers, faiss), the HTTP and websocket
  framing, the Qt client and the numerical scripts, since they are calls into libraries. The bodies of the
  reflection run and of the idle jobs are prompts and generations; the stores they write are modelled, and of
  \<open>reflection_writer.py\<close> everything but the parsing of completions and the revision's sidecar file. The facts
  tree (\<open>server/graph/\<close>) rests on Unicode normalisation outside the model's character set, and of the library the
  lexical scoring, the authority iteration and the pull are numerical.
\<close>

end
